(* ===== verification/Prelude.thy ===== *)
theory Prelude
  imports Main "HOL-Library.Word" "HOL-Library.Monad_Syntax"
begin

section \<open>Shared vocabulary: machine integers, panics, vectors, ordered levels\<close>

text \<open>
  What every component of the development shares: names for the machine integer types of the
  Rust sources, the outcome type of a computation that may panic, the \<open>Vec\<close> and slice
  operations the sources call (each with the panic the standard library documents), and the
  list and map lemmas about strictly ordered price ladders.

  Integers keep their width: \<open>i64\<close> and \<open>u64\<close> are both \<open>64 word\<close>, read by \<open>sint\<close> and
  \<open>unat\<close>. An \<open>as\<close> cast between them is the identity on the bits. \<open>+\<close>, \<open>-\<close> and \<open>*\<close> wrap,
  as they do in the release profile of the workspace; the theorems that need a computation
  not to wrap say so in a hypothesis, and in that range the debug profile (which panics on
  overflow) computes the same. \<open>usize\<close> values that only count or index are \<open>nat\<close>.
\<close>

type_synonym i64 = "64 word"
type_synonym u64 = "64 word"
type_synonym u32 = "32 word"
type_synonym u8 = "8 word"

named_theorems vec_simps \<open>vector operations, unfolded on their in-range branch\<close>
named_theorems book_simps \<open>equations that evaluate one order-book operation\<close>

subsection \<open>Outcomes\<close>

text \<open>A Rust computation either returns a value or panics; a panic is a value of the model.\<close>

datatype panic =
  IndexOutOfBounds | AssertionFailed | LengthMismatch | UnwrapFailed | DivisionByZero

type_synonym 'a res = "panic + 'a"

fun res_bind :: "('e + 'a) \<Rightarrow> ('a \<Rightarrow> 'e + 'b) \<Rightarrow> 'e + 'b" where
  "res_bind (Inl e) f = Inl e"
| "res_bind (Inr a) f = f a"

fun res_map :: "('a \<Rightarrow> 'b) \<Rightarrow> ('e + 'a) \<Rightarrow> 'e + 'b" where
  "res_map f (Inl e) = Inl e"
| "res_map f (Inr a) = Inr (f a)"

lemma res_bind_Inr_iff:
  "res_bind x f = Inr b \<longleftrightarrow> (\<exists>a. x = Inr a \<and> f a = Inr b)"
  by (cases x) auto

lemma res_bind_cong [fundef_cong]:
  "x = y \<Longrightarrow> (\<And>a. y = Inr a \<Longrightarrow> f a = g a) \<Longrightarrow> res_bind x f = res_bind y g"
  by (cases y) auto

lemma res_map_Inr_iff:
  "res_map f x = Inr b \<longleftrightarrow> (\<exists>a. x = Inr a \<and> b = f a)"
  by (cases x) auto

text \<open>The outcome of a computation that may also run for ever (\<open>None\<close>).\<close>

type_synonym 'a outcome = "'a res option"

fun out_bind :: "'a outcome \<Rightarrow> ('a \<Rightarrow> 'b outcome) \<Rightarrow> 'b outcome" where
  "out_bind None f = None"
| "out_bind (Some (Inl e)) f = Some (Inl e)"
| "out_bind (Some (Inr a)) f = f a"

subsection \<open>Signed comparisons\<close>

definition i64_le :: "i64 \<Rightarrow> i64 \<Rightarrow> bool" where
  "i64_le a b \<longleftrightarrow> sint a \<le> sint b"

definition i64_lt :: "i64 \<Rightarrow> i64 \<Rightarrow> bool" where
  "i64_lt a b \<longleftrightarrow> sint a < sint b"

definition i64_min :: "i64 \<Rightarrow> i64 \<Rightarrow> i64" where
  "i64_min a b = (if i64_le a b then a else b)"

definition i64_max :: "i64 \<Rightarrow> i64 \<Rightarrow> i64" where
  "i64_max a b = (if i64_le a b then b else a)"

lemma sint_i64_min: "sint (i64_min a b) = min (sint a) (sint b)"
  by (simp add: i64_min_def i64_le_def)

lemma sint_i64_max: "sint (i64_max a b) = max (sint a) (sint b)"
  by (simp add: i64_max_def i64_le_def)

lemma sint_i64_bounds: "- (2 ^ 63) \<le> sint (w :: i64)" "sint (w :: i64) < 2 ^ 63"
  using sint_greater_eq [of w] sint_less [of w] by simp_all

lemma sint_eq_iff_i64: "sint (a :: i64) = sint b \<longleftrightarrow> a = b"
  by (auto simp: signed_word_eqI)

text \<open>Reading an integer back from a word in whose signed range it lies.\<close>

lemma sint_of_int_i64:
  assumes "- (2 ^ 63) \<le> k" and "k < 2 ^ 63"
  shows "sint (of_int k :: i64) = k"
  using assms by (simp add: signed_of_int signed_take_bit_int_eq_self)

lemma sint_small:
  assumes "unat x < 2 ^ 63"
  shows "sint (x :: 64 word) = int (unat x)"
proof -
  have "int (unat x) < int (2 ^ 63)" using assms by (simp only: of_nat_less_iff)
  then have "sint (of_int (int (unat x)) :: 64 word) = int (unat x)"
    by (intro sint_of_int_i64) (simp_all add: order_trans [OF _ uint_ge_0])
  then show ?thesis by simp
qed

lemma sint_add_i64:
  assumes "- (2 ^ 63) \<le> sint a + k" and "sint a + k < 2 ^ 63"
  shows "sint ((a :: i64) + of_int k) = sint a + k"
proof -
  have "a + of_int k = of_int (sint a + k)"
    by simp
  then show ?thesis
    using assms by (simp only: sint_of_int_i64)
qed

lemma sint_add_nat_i64:
  assumes "sint a + int n < 2 ^ 63"
  shows "sint ((a :: i64) + of_nat n) = sint a + int n"
  using assms sint_add_i64 [of a "int n"] sint_i64_bounds [of a] by simp

text \<open>The distance of two signed values, read back as a \<open>usize\<close>.\<close>

lemma unat_diff_i64:
  assumes "sint (a :: i64) \<le> sint b"
  shows "int (unat (b - a)) = sint b - sint a"
proof -
  have "b - a = of_int (sint b - sint a)"
    by simp
  moreover have "0 \<le> sint b - sint a" "sint b - sint a < 2 ^ 64"
    using assms sint_i64_bounds [of a] sint_i64_bounds [of b] by simp_all
  ultimately show ?thesis
    by (simp add: unat_eq_nat_uint uint_word_of_int del: of_int_diff)
qed

subsection \<open>Vectors and slices\<close>

text \<open>The parts of \<open>Vec\<close> the sources use, with the panic each documents.\<close>

definition vec_get :: "'a list \<Rightarrow> nat \<Rightarrow> 'a res" where
  "vec_get v i = (if i < length v then Inr (v ! i) else Inl IndexOutOfBounds)"

definition vec_set :: "'a list \<Rightarrow> nat \<Rightarrow> 'a \<Rightarrow> 'a list res" where
  "vec_set v i x = (if i < length v then Inr (v[i := x]) else Inl IndexOutOfBounds)"

definition vec_insert :: "'a list \<Rightarrow> nat \<Rightarrow> 'a \<Rightarrow> 'a list res" where
  "vec_insert v i x =
     (if i \<le> length v then Inr (take i v @ x # drop i v) else Inl IndexOutOfBounds)"

definition vec_remove :: "'a list \<Rightarrow> nat \<Rightarrow> 'a list res" where
  "vec_remove v i =
     (if i < length v then Inr (take i v @ drop (Suc i) v) else Inl IndexOutOfBounds)"

text \<open>\<open>&v[lo..hi]\<close>.\<close>

definition slice :: "'a list \<Rightarrow> nat \<Rightarrow> nat \<Rightarrow> 'a list res" where
  "slice v lo hi =
     (if lo \<le> hi \<and> hi \<le> length v then Inr (take (hi - lo) (drop lo v)) else Inl IndexOutOfBounds)"

text \<open>\<open>dst[lo..hi].copy_from_slice(src)\<close>: the range must exist and the lengths agree.\<close>

definition slice_copy :: "'a list \<Rightarrow> nat \<Rightarrow> nat \<Rightarrow> 'a list \<Rightarrow> 'a list res" where
  "slice_copy dst lo hi src =
     (if \<not> (lo \<le> hi \<and> hi \<le> length dst) then Inl IndexOutOfBounds
      else if hi - lo \<noteq> length src then Inl LengthMismatch
      else Inr (take lo dst @ src @ drop hi dst))"

lemma vec_ops_in_range [vec_simps]:
  "i < length v \<Longrightarrow> vec_get v i = Inr (v ! i)"
  "i < length v \<Longrightarrow> vec_set v i x = Inr (v[i := x])"
  "i \<le> length v \<Longrightarrow> vec_insert v i x = Inr (take i v @ x # drop i v)"
  "i < length v \<Longrightarrow> vec_remove v i = Inr (take i v @ drop (Suc i) v)"
  by (simp_all add: vec_get_def vec_set_def vec_insert_def vec_remove_def)

lemma slice_copy_in_range [vec_simps]:
  "lo + length src \<le> length dst \<Longrightarrow>
   slice_copy dst lo (lo + length src) src =
     Inr (take lo dst @ src @ drop (lo + length src) dst)"
  by (simp add: slice_copy_def)

end
