(* ===== verification/Price.thy ===== *)
theory Price
  imports Prelude
begin

section \<open>Integer tick types (book/src/price.rs)\<close>

text \<open>
  \<open>Px\<close> and \<open>Qty\<close> are newtypes over \<open>i64\<close>. Both derive \<open>Ord\<close>, that is the signed order of
  their ticks, so both are instances of \<open>linorder\<close> and the ordered-list library applies to
  price ladders. The arithmetic operators wrap at 64 bits (release profile); the bounds lemmas
  say where they are exact.
\<close>

datatype px = Px (ticks: i64)

datatype qty = Qty (lots: i64)

instantiation px :: linorder
begin

definition less_eq_px :: "px \<Rightarrow> px \<Rightarrow> bool" where
  "less_eq_px a b \<longleftrightarrow> sint (ticks a) \<le> sint (ticks b)"

definition less_px :: "px \<Rightarrow> px \<Rightarrow> bool" where
  "less_px a b \<longleftrightarrow> sint (ticks a) < sint (ticks b)"

instance
proof
  fix a b :: px
  show "a \<le> b \<Longrightarrow> b \<le> a \<Longrightarrow> a = b"
    by (cases a; cases b) (auto simp: less_eq_px_def sint_eq_iff_i64 intro: antisym)
qed (auto simp: less_eq_px_def less_px_def)

end

instantiation qty :: linorder
begin

definition less_eq_qty :: "qty \<Rightarrow> qty \<Rightarrow> bool" where
  "less_eq_qty a b \<longleftrightarrow> sint (lots a) \<le> sint (lots b)"

definition less_qty :: "qty \<Rightarrow> qty \<Rightarrow> bool" where
  "less_qty a b \<longleftrightarrow> sint (lots a) < sint (lots b)"

instance
proof
  fix a b :: qty
  show "a \<le> b \<Longrightarrow> b \<le> a \<Longrightarrow> a = b"
    by (cases a; cases b) (auto simp: less_eq_qty_def sint_eq_iff_i64 intro: antisym)
qed (auto simp: less_eq_qty_def less_qty_def)

end

lemmas px_order_defs = less_eq_px_def less_px_def

definition px_zero :: px where
  "px_zero = Px 0"

definition px_diff :: "px \<Rightarrow> px \<Rightarrow> i64" where
  "px_diff a b = ticks a - ticks b"

definition px_add :: "px \<Rightarrow> i64 \<Rightarrow> px" where
  "px_add p t = Px (ticks p + t)"

definition px_sub :: "px \<Rightarrow> i64 \<Rightarrow> px" where
  "px_sub p t = Px (ticks p - t)"

definition qty_zero :: qty where
  "qty_zero = Qty 0"

definition is_zero :: "qty \<Rightarrow> bool" where
  "is_zero q \<longleftrightarrow> lots q = 0"

definition qty_add :: "qty \<Rightarrow> qty \<Rightarrow> qty" where
  "qty_add a b = Qty (lots a + lots b)"

definition qty_sub :: "qty \<Rightarrow> qty \<Rightarrow> qty" where
  "qty_sub a b = Qty (lots a - lots b)"

lemma is_zero_iff [simp]: "is_zero q \<longleftrightarrow> q = qty_zero"
  by (cases q) (simp add: is_zero_def qty_zero_def)

lemma is_zero_qty_zero: "is_zero qty_zero"
  by simp

subsection \<open>Exactness of the tick arithmetic\<close>

lemma px_diff_exact:
  assumes "- (2 ^ 63) \<le> sint (ticks a) - sint (ticks b)"
    and "sint (ticks a) - sint (ticks b) < 2 ^ 63"
  shows "sint (px_diff a b) = sint (ticks a) - sint (ticks b)"
  using sint_add_i64 [of "ticks a" "- sint (ticks b)"] assms
  by (simp add: px_diff_def)

lemma px_add_sub: "px_sub (px_add p t) t = p"
  by (cases p) (simp add: px_add_def px_sub_def)

lemma qty_add_sub: "qty_sub (qty_add a b) b = a"
  by (cases a) (simp add: qty_add_def qty_sub_def)

lemma px_diff_add: "px_add b (px_diff a b) = a"
  by (cases a) (simp add: px_add_def px_diff_def)

lemma px_add_mono:
  assumes "a < b" and "sint (ticks b) + sint t < 2 ^ 63" and "- (2 ^ 63) \<le> sint (ticks a) + sint t"
  shows "px_add a t < px_add b t"
  using assms sint_add_i64 [of "ticks a" "sint t"] sint_add_i64 [of "ticks b" "sint t"]
  by (simp add: px_add_def less_px_def)

text \<open>
  Prices order like the integers they wrap, and moving two prices by the same
  number of ticks keeps their order and their signed distance, as long as neither sum leaves
  the 64-bit range.
\<close>

theorem px_arithmetic_exact:
  assumes "- (2 ^ 63) \<le> sint (ticks a) + sint t" "sint (ticks a) + sint t < 2 ^ 63"
    and "- (2 ^ 63) \<le> sint (ticks b) + sint t" "sint (ticks b) + sint t < 2 ^ 63"
  shows "(px_add a t < px_add b t \<longleftrightarrow> a < b) \<and> px_diff (px_add a t) (px_add b t) = px_diff a b
    \<and> sint (ticks (px_add a t)) = sint (ticks a) + sint t"
  using assms sint_add_i64 [of "ticks a" "sint t"] sint_add_i64 [of "ticks b" "sint t"]
  by (simp add: px_add_def less_px_def px_diff_def)

theorem px_arithmetic_exact_witness:
  "(px_add (Px 100) 5 < px_add (Px 101) 5 \<longleftrightarrow> Px 100 < Px 101)
   \<and> px_diff (px_add (Px 100) 5) (px_add (Px 101) 5) = px_diff (Px 100) (Px 101)
   \<and> sint (ticks (px_add (Px 100) 5)) = sint (ticks (Px 100)) + sint (5 :: i64)"
  by (rule px_arithmetic_exact) simp_all

end
