(* ===== verification/Event.thy ===== *)
theory Event
  imports Price
begin

section \<open>The L2 event model (book/src/event.rs)\<close>

text \<open>
  The three enums and the fixed-layout record every other component exchanges. \<open>side_disc\<close>
  and \<open>kind_disc\<close> are the \<open>repr(u8)\<close> discriminants that the corpus and the ring packing
  write with an \<open>as\<close> cast.
\<close>

datatype side = Bid | Ask

datatype event_kind = Level | Trade | Clear

record book_event =
  ev_seq :: u64
  ev_ts :: u64
  ev_px :: px
  ev_qty :: qty
  ev_side :: side
  ev_kind :: event_kind

fun opposite :: "side \<Rightarrow> side" where
  "opposite Bid = Ask"
| "opposite Ask = Bid"

fun side_disc :: "side \<Rightarrow> u8" where
  "side_disc Bid = 0"
| "side_disc Ask = 1"

fun kind_disc :: "event_kind \<Rightarrow> u8" where
  "kind_disc Level = 0"
| "kind_disc Trade = 1"
| "kind_disc Clear = 2"

definition ev_level :: "u64 \<Rightarrow> u64 \<Rightarrow> side \<Rightarrow> px \<Rightarrow> qty \<Rightarrow> book_event" where
  "ev_level seq ts s p q =
     \<lparr>ev_seq = seq, ev_ts = ts, ev_px = p, ev_qty = q, ev_side = s, ev_kind = Level\<rparr>"

definition ev_trade :: "u64 \<Rightarrow> u64 \<Rightarrow> side \<Rightarrow> px \<Rightarrow> qty \<Rightarrow> book_event" where
  "ev_trade seq ts aggressor p q =
     \<lparr>ev_seq = seq, ev_ts = ts, ev_px = p, ev_qty = q, ev_side = aggressor, ev_kind = Trade\<rparr>"

definition ev_clear :: "u64 \<Rightarrow> u64 \<Rightarrow> book_event" where
  "ev_clear seq ts =
     \<lparr>ev_seq = seq, ev_ts = ts, ev_px = px_zero, ev_qty = qty_zero, ev_side = Bid,
      ev_kind = Clear\<rparr>"

lemmas ev_defs = ev_level_def ev_trade_def ev_clear_def

lemma all_side: "(\<forall>s. P s) \<longleftrightarrow> P Bid \<and> P Ask"
  by (metis side.exhaust)

lemma opposite_opposite [simp]: "opposite (opposite s) = s"
  by (cases s) simp_all

lemma side_disc_inject: "side_disc s = side_disc t \<longleftrightarrow> s = t"
  by (cases s; cases t) simp_all

lemma kind_disc_inject: "kind_disc s = kind_disc t \<longleftrightarrow> s = t"
  by (cases s; cases t) simp_all

end
