(* ===== verification/Book_Spec.thy ===== *)
theory Book_Spec
  imports Event
begin

section \<open>The order-book contract (book/src/book.rs)\<close>

text \<open>
  The \<open>OrderBook\<close> trait. \<open>order_book_ops\<close> is the trait as a record of operations, so that
  code generic in \<open>B: OrderBook\<close> can take an implementation as an argument; the locale
  \<open>order_book\<close> is the contract every implementation meets: a representation invariant, an
  abstraction to two price-to-quantity maps, and the six trait operations specified on that
  abstraction. The client lemmas (runs of events, observational equality) are proved once
  inside the locale; each implementation's theory interprets it.

  The trait operations return \<open>panic + 'a\<close> where an implementation indexes its storage.
  \<open>top_n\<close> takes the caller's buffer and returns the count with the buffer after the call.
\<close>

type_synonym level = "px \<times> qty"
type_synonym trade_print = "px \<times> qty \<times> side"

record 'b order_book_ops =
  ob_default :: 'b
  ob_apply :: "'b \<Rightarrow> book_event \<Rightarrow> 'b res"
  ob_best_bid :: "'b \<Rightarrow> level option res"
  ob_best_ask :: "'b \<Rightarrow> level option res"
  ob_top_n :: "'b \<Rightarrow> side \<Rightarrow> level list \<Rightarrow> (nat \<times> level list) res"
  ob_depth :: "'b \<Rightarrow> side \<Rightarrow> nat"
  ob_last_trade :: "'b \<Rightarrow> trade_print option"

fun run_book :: "'b order_book_ops \<Rightarrow> 'b \<Rightarrow> book_event list \<Rightarrow> 'b res" where
  "run_book ops b [] = Inr b"
| "run_book ops b (ev # evs) = res_bind (ob_apply ops b ev) (\<lambda>b'. run_book ops b' evs)"

lemma run_book_append:
  "run_book ops b (xs @ ys) = res_bind (run_book ops b xs) (\<lambda>b'. run_book ops b' ys)"
proof (induction xs arbitrary: b)
  case (Cons x xs)
  then show ?case by (cases "ob_apply ops b x") simp_all
qed simp

subsection \<open>The abstract book\<close>

type_synonym ladder = "px \<rightharpoonup> qty"

record spec_book =
  sp_bids :: ladder
  sp_asks :: ladder
  sp_last :: "trade_print option"

definition spec_empty :: spec_book where
  "spec_empty = \<lparr>sp_bids = Map.empty, sp_asks = Map.empty, sp_last = None\<rparr>"

definition ladder_set :: "ladder \<Rightarrow> px \<Rightarrow> qty \<Rightarrow> ladder" where
  "ladder_set m p q = (if is_zero q then m(p := None) else m(p \<mapsto> q))"

definition spec_apply :: "spec_book \<Rightarrow> book_event \<Rightarrow> spec_book" where
  "spec_apply b ev =
     (case ev_kind ev of
        Level \<Rightarrow> (case ev_side ev of
            Bid \<Rightarrow> b\<lparr>sp_bids := ladder_set (sp_bids b) (ev_px ev) (ev_qty ev)\<rparr>
          | Ask \<Rightarrow> b\<lparr>sp_asks := ladder_set (sp_asks b) (ev_px ev) (ev_qty ev)\<rparr>)
      | Trade \<Rightarrow> b\<lparr>sp_last := Some (ev_px ev, ev_qty ev, ev_side ev)\<rparr>
      | Clear \<Rightarrow> spec_empty)"

definition spec_run :: "book_event list \<Rightarrow> spec_book" where
  "spec_run evs = fold (\<lambda>ev b. spec_apply b ev) evs spec_empty"

text \<open>The resident levels of a ladder, lowest price first, and a side best-first.\<close>

definition levels :: "ladder \<Rightarrow> level list" where
  "levels m = map (\<lambda>p. (p, the (m p))) (sorted_list_of_set (dom m))"

fun spec_side :: "spec_book \<Rightarrow> side \<Rightarrow> ladder" where
  "spec_side b Bid = sp_bids b"
| "spec_side b Ask = sp_asks b"

fun best_first :: "spec_book \<Rightarrow> side \<Rightarrow> level list" where
  "best_first b Bid = rev (levels (sp_bids b))"
| "best_first b Ask = levels (sp_asks b)"

definition spec_best_bid :: "spec_book \<Rightarrow> level option" where
  "spec_best_bid b =
     (if sp_bids b = Map.empty then None
      else let p = Max (dom (sp_bids b)) in Some (p, the (sp_bids b p)))"

definition spec_best_ask :: "spec_book \<Rightarrow> level option" where
  "spec_best_ask b =
     (if sp_asks b = Map.empty then None
      else let p = Min (dom (sp_asks b)) in Some (p, the (sp_asks b p)))"

definition spec_top_n :: "spec_book \<Rightarrow> side \<Rightarrow> level list \<Rightarrow> nat \<times> level list" where
  "spec_top_n b s out =
     (let ls = take (length out) (best_first b s)
      in (length ls, ls @ drop (length ls) out))"

definition spec_depth :: "spec_book \<Rightarrow> side \<Rightarrow> nat" where
  "spec_depth b s = card (dom (spec_side b s))"

text \<open>Every reachable abstract book is finite, and no resident level has quantity zero.\<close>

definition spec_wf :: "spec_book \<Rightarrow> bool" where
  "spec_wf b \<longleftrightarrow> (\<forall>s. finite (dom (spec_side b s)) \<and> qty_zero \<notin> ran (spec_side b s))"

lemma ladder_set_simps [simp]:
  "ladder_set m p qty_zero = m(p := None)"
  "q \<noteq> qty_zero \<Longrightarrow> ladder_set m p q = m(p \<mapsto> q)"
  by (simp_all add: ladder_set_def)

lemma dom_ladder_set:
  "dom (ladder_set m p q) = (if q = qty_zero then dom m - {p} else insert p (dom m))"
  by (auto simp: ladder_set_def)

lemma ran_ladder_set: "qty_zero \<notin> ran m \<Longrightarrow> qty_zero \<notin> ran (ladder_set m p q)"
  by (auto simp: ladder_set_def ran_def split: if_splits)


lemma spec_wf_iff:
  "spec_wf b \<longleftrightarrow> finite (dom (sp_bids b)) \<and> finite (dom (sp_asks b))
     \<and> qty_zero \<notin> ran (sp_bids b) \<and> qty_zero \<notin> ran (sp_asks b)"
  by (auto simp: spec_wf_def all_side)

lemma spec_wf_empty: "spec_wf spec_empty"
  by (simp add: spec_wf_iff spec_empty_def)

lemma spec_wf_apply: "spec_wf b \<Longrightarrow> spec_wf (spec_apply b ev)"
  by (auto simp: spec_wf_iff spec_apply_def spec_empty_def dom_ladder_set ran_ladder_set
      split: event_kind.split side.split)

lemma spec_run_snoc: "spec_run (evs @ [ev]) = spec_apply (spec_run evs) ev"
  by (simp add: spec_run_def)

lemma spec_wf_run: "spec_wf (spec_run evs)"
  by (induction evs rule: rev_induct)
    (simp_all add: spec_run_snoc spec_wf_apply, simp add: spec_run_def spec_wf_empty)

subsection \<open>Ordered association lists represent ladders\<close>

text \<open>
  A strictly ascending list of levels is the canonical form of its map: it is \<open>levels\<close> of it.
  Every implementation reduces its observers to this fact.
\<close>

definition ascending :: "level list \<Rightarrow> bool" where
  "ascending v \<longleftrightarrow> sorted_wrt (<) (map fst v)"

lemma ascending_simps [simp]:
  "ascending []"
  "ascending (x # v) \<longleftrightarrow> (\<forall>y \<in> set v. fst x < fst y) \<and> ascending v"
  by (auto simp: ascending_def)

lemma ascending_append:
  "ascending (u @ v) \<longleftrightarrow> ascending u \<and> ascending v \<and> (\<forall>x \<in> set u. \<forall>y \<in> set v. fst x < fst y)"
  by (auto simp: ascending_def sorted_wrt_append)

lemma ascending_distinct: "ascending v \<Longrightarrow> distinct (map fst v)"
  by (induction v) auto

lemma ascending_nth_less:
  "ascending v \<Longrightarrow> i < j \<Longrightarrow> j < length v \<Longrightarrow> fst (v ! i) < fst (v ! j)"
  using sorted_wrt_nth_less [of "(<)" "map fst v" i j] by (simp add: ascending_def)

lemma levels_map_of: "ascending v \<Longrightarrow> levels (map_of v) = v"
proof -
  assume asc: "ascending v"
  then have "distinct (map fst v)" and "sorted (map fst v)"
    by (auto simp: ascending_def ascending_distinct strict_sorted_iff)
  then have "sorted_list_of_set (dom (map_of v)) = map fst v"
    by (simp add: dom_map_of_conv_image_fst sorted_list_of_set.idem_if_sorted_distinct
        flip: set_map)
  then have "levels (map_of v) = map (\<lambda>x. (fst x, the (map_of v (fst x)))) v"
    by (simp add: levels_def)
  also have "\<dots> = map (\<lambda>x. x) v"
    using \<open>distinct (map fst v)\<close> by (intro map_cong) auto
  finally show ?thesis by simp
qed

lemma ascending_levels: "finite (dom m) \<Longrightarrow> ascending (levels m)"
  by (simp add: ascending_def levels_def comp_def)

lemma map_of_levels: "finite (dom m) \<Longrightarrow> map_of (levels m) = m"
  by (rule ext) (auto simp: levels_def map_of_map_restrict restrict_map_def domIff)

lemma levels_eq_Nil_iff: "finite (dom m) \<Longrightarrow> levels m = [] \<longleftrightarrow> m = Map.empty"
  by (simp add: levels_def)

lemma length_levels: "length (levels m) = card (dom m)"
  by (simp add: levels_def)

lemma last_sorted_list_of_set:
  assumes "finite A" and "A \<noteq> {}"
  shows "last (sorted_list_of_set A) = (Max A :: 'a :: linorder)"
proof (rule sym, rule Max_eqI [OF assms(1)])
  let ?xs = "sorted_list_of_set A"
  have set: "set ?xs = A" using assms(1) by simp
  with assms(2) have ne: "?xs \<noteq> []" by auto
  then show "last ?xs \<in> A" using set last_in_set [of ?xs] by simp
  fix y assume "y \<in> A"
  then obtain i where "i < length ?xs" "?xs ! i = y"
    using assms(1) by (metis in_set_conv_nth set_sorted_list_of_set)
  then show "y \<le> last ?xs"
    using ne sorted_nth_mono [OF sorted_sorted_list_of_set, of i "length ?xs - 1" A]
    by (simp add: last_conv_nth)
qed

lemma last_levels:
  assumes "finite (dom m)" and "m \<noteq> Map.empty"
  shows "last (levels m) = (Max (dom m), the (m (Max (dom m))))"
  using assms by (simp add: levels_def last_map last_sorted_list_of_set)

lemma hd_levels:
  assumes "finite (dom m)" and "m \<noteq> Map.empty"
  shows "hd (levels m) = (Min (dom m), the (m (Min (dom m))))"
proof -
  have "sorted_list_of_set (dom m) =
      Min (dom m) # sorted_list_of_set (dom m - {Min (dom m)})"
    using assms by (intro sorted_list_of_set_nonempty) auto
  then show ?thesis by (simp add: levels_def)
qed

subsection \<open>The contract\<close>

text \<open>
  The observable state the differential oracle compares: both bests, both ladders read through
  \<open>top_n\<close> into a given buffer, both depths, and the last trade.
\<close>

type_synonym book_view =
  "level option \<times> level option \<times> (nat \<times> level list) \<times> (nat \<times> level list) \<times> nat \<times> nat
   \<times> trade_print option"

definition view_of :: "'b order_book_ops \<Rightarrow> level list \<Rightarrow> 'b \<Rightarrow> book_view res" where
  "view_of ops buf b =
     res_bind (ob_best_bid ops b) (\<lambda>bid.
     res_bind (ob_best_ask ops b) (\<lambda>ask.
     res_bind (ob_top_n ops b Bid buf) (\<lambda>tb.
     res_bind (ob_top_n ops b Ask buf) (\<lambda>ta.
       Inr (bid, ask, tb, ta, ob_depth ops b Bid, ob_depth ops b Ask, ob_last_trade ops b)))))"

definition spec_view :: "level list \<Rightarrow> spec_book \<Rightarrow> book_view" where
  "spec_view buf b =
     (spec_best_bid b, spec_best_ask b, spec_top_n b Bid buf, spec_top_n b Ask buf,
      spec_depth b Bid, spec_depth b Ask, sp_last b)"

text \<open>Replaying a stream from the default book and observing the result.\<close>

definition replay_view ::
  "'b order_book_ops \<Rightarrow> level list \<Rightarrow> book_event list \<Rightarrow> book_view res" where
  "replay_view ops buf evs = res_bind (run_book ops (ob_default ops) evs) (view_of ops buf)"

locale order_book =
  fixes ops :: "'b order_book_ops"
    and inv :: "'b \<Rightarrow> bool"
    and abs :: "'b \<Rightarrow> spec_book"
    and adm :: "book_event \<Rightarrow> bool"
  assumes inv_default: "inv (ob_default ops)"
    and abs_default: "abs (ob_default ops) = spec_empty"
    and apply_ok: "inv b \<Longrightarrow> adm ev \<Longrightarrow>
      \<exists>b'. ob_apply ops b ev = Inr b' \<and> inv b' \<and> abs b' = spec_apply (abs b) ev"
    and best_bid_ok: "inv b \<Longrightarrow> ob_best_bid ops b = Inr (spec_best_bid (abs b))"
    and best_ask_ok: "inv b \<Longrightarrow> ob_best_ask ops b = Inr (spec_best_ask (abs b))"
    and top_n_ok: "inv b \<Longrightarrow> ob_top_n ops b s out = Inr (spec_top_n (abs b) s out)"
    and depth_ok: "inv b \<Longrightarrow> ob_depth ops b s = spec_depth (abs b) s"
    and last_ok: "inv b \<Longrightarrow> ob_last_trade ops b = sp_last (abs b)"
begin

lemma run_ok:
  "inv b \<Longrightarrow> \<forall>ev \<in> set evs. adm ev \<Longrightarrow>
   \<exists>b'. run_book ops b evs = Inr b' \<and> inv b'
     \<and> abs b' = fold (\<lambda>ev b. spec_apply b ev) evs (abs b)"
proof (induction evs arbitrary: b)
  case (Cons ev evs)
  then obtain b1 where b1: "ob_apply ops b ev = Inr b1" "inv b1" "abs b1 = spec_apply (abs b) ev"
    using apply_ok [of b ev] by auto
  with Cons.IH [of b1] Cons.prems show ?case by simp
qed simp

lemma replay_ok:
  assumes "\<forall>ev \<in> set evs. adm ev"
  obtains b where "run_book ops (ob_default ops) evs = Inr b" and "inv b" and "abs b = spec_run evs"
  using run_ok [OF inv_default assms] by (auto simp: abs_default spec_run_def)

lemma view_ok: "inv b \<Longrightarrow> view_of ops buf b = Inr (spec_view buf (abs b))"
  by (simp add: view_of_def spec_view_def best_bid_ok best_ask_ok top_n_ok depth_ok last_ok)

lemma replay_view_ok:
  assumes "\<forall>ev \<in> set evs. adm ev"
  shows "replay_view ops buf evs = Inr (spec_view buf (spec_run evs))"
  by (rule replay_ok [OF assms]) (simp add: replay_view_def view_ok)

end

subsection \<open>What the contract says on the specification side\<close>

lemma spec_best_bid_best_first:
  "spec_wf b \<Longrightarrow> spec_best_bid b =
     (case best_first b Bid of [] \<Rightarrow> None | l # _ \<Rightarrow> Some l)"
  by (cases "levels (sp_bids b)" rule: rev_cases)
    (use last_levels [of "sp_bids b"] levels_eq_Nil_iff [of "sp_bids b"] in
      \<open>auto simp: spec_best_bid_def spec_wf_iff Let_def\<close>)

lemma spec_best_ask_best_first:
  "spec_wf b \<Longrightarrow> spec_best_ask b =
     (case best_first b Ask of [] \<Rightarrow> None | l # _ \<Rightarrow> Some l)"
  by (cases "levels (sp_asks b)")
    (use hd_levels [of "sp_asks b"] levels_eq_Nil_iff [of "sp_asks b"] in
      \<open>auto simp: spec_best_ask_def spec_wf_iff Let_def\<close>)

lemma spec_depth_best_first: "spec_depth b s = length (best_first b s)"
  by (cases s) (simp_all add: spec_depth_def length_levels)

end
