(* ===== verification/Side_Store.thy ===== *)
theory Side_Store
  imports Book_Spec
begin

section \<open>One side of a book held as a list of levels\<close>

text \<open>
  Three of the four implementations keep a side as a sequence of levels and differ in the
  order they keep it in and in how they locate a price. The locale \<open>side_store\<close> is what they
  share: a routine that sets one price, and a view \<open>asc\<close> of the storage as a strictly ascending
  ladder without empty levels. \<open>btm_insert\<close> and \<open>btm_remove\<close> model
  \<open>std::collections::BTreeMap\<close> by its entries in key order (what its iterators yield).
\<close>

subsection \<open>\<open>BTreeMap\<close>\<close>

fun btm_insert :: "'k :: linorder \<Rightarrow> 'v \<Rightarrow> ('k \<times> 'v) list \<Rightarrow> ('k \<times> 'v) list" where
  "btm_insert k v [] = [(k, v)]"
| "btm_insert k v ((a, b) # es) =
     (if k < a then (k, v) # (a, b) # es
      else if k = a then (k, v) # es
      else (a, b) # btm_insert k v es)"

fun btm_remove :: "'k :: linorder \<Rightarrow> ('k \<times> 'v) list \<Rightarrow> ('k \<times> 'v) list" where
  "btm_remove k [] = []"
| "btm_remove k ((a, b) # es) = (if k = a then es else (a, b) # btm_remove k es)"

definition keys_ascending :: "('k :: linorder \<times> 'v) list \<Rightarrow> bool" where
  "keys_ascending es \<longleftrightarrow> sorted_wrt (<) (map fst es)"

lemma keys_ascending_simps [simp]:
  "keys_ascending []"
  "keys_ascending (x # v) \<longleftrightarrow> (\<forall>y \<in> set v. fst x < fst y) \<and> keys_ascending v"
  by (auto simp: keys_ascending_def)

lemma ascending_eq_keys: "ascending v = keys_ascending v"
  by (simp add: ascending_def keys_ascending_def)

lemma set_btm_insert_subset: "set (btm_insert k v es) \<subseteq> insert (k, v) (set es)"
  by (induction k v es rule: btm_insert.induct) auto

lemma set_btm_remove_subset: "set (btm_remove k es) \<subseteq> set es"
  by (induction k es rule: btm_remove.induct) auto

lemma keys_btm_insert: "keys_ascending es \<Longrightarrow> keys_ascending (btm_insert k v es)"
proof (induction k v es rule: btm_insert.induct)
  case (2 k v a b es)
  note sub = set_btm_insert_subset [of k v es]
  show ?case
  proof (cases k a rule: linorder_cases)
    case less
    with "2.prems" show ?thesis by (auto intro: less_trans)
  next
    case equal
    with "2.prems" show ?thesis by simp
  next
    case greater
    then have "\<not> k < a" "k \<noteq> a" by auto
    note greater = this greater
    with "2.prems" sub have "\<forall>y \<in> set (btm_insert k v es). a < fst y" by auto
    moreover from greater "2.prems" "2.IH" have "keys_ascending (btm_insert k v es)"
      by simp
    ultimately show ?thesis using greater by simp
  qed
qed simp

lemma keys_btm_remove: "keys_ascending es \<Longrightarrow> keys_ascending (btm_remove k es)"
  using set_btm_remove_subset
  by (induction k es rule: btm_remove.induct) fastforce+

lemma map_of_btm_insert: "map_of (btm_insert k v es) = (map_of es)(k \<mapsto> v)"
  by (induction k v es rule: btm_insert.induct) auto

lemma map_of_keys_above: "\<forall>y \<in> set es. (k :: _ :: linorder) < fst y \<Longrightarrow> map_of es k = None"
  by (induction es) auto

lemma map_of_btm_remove: "keys_ascending es \<Longrightarrow> map_of (btm_remove k es) = (map_of es)(k := None)"
  by (induction k es rule: btm_remove.induct) (auto simp: fun_eq_iff map_of_keys_above)

subsection \<open>Ladders without empty levels\<close>

definition ladder_ok :: "level list \<Rightarrow> bool" where
  "ladder_ok v \<longleftrightarrow> ascending v \<and> (\<forall>l \<in> set v. snd l \<noteq> qty_zero)"

lemma ladder_ok_Nil [simp]: "ladder_ok []"
  by (simp add: ladder_ok_def)

text \<open>What the observers of a book read off a ladder that represents one of its sides.\<close>

lemma best_bid_of_ladder:
  "ladder_ok v \<Longrightarrow> sp_bids b = map_of v \<Longrightarrow>
   spec_best_bid b = (if v = [] then None else Some (last v))"
  using last_levels [of "map_of v"] levels_map_of [of v] levels_eq_Nil_iff [of "map_of v"]
  by (auto simp: spec_best_bid_def ladder_ok_def finite_dom_map_of Let_def)

lemma best_ask_of_ladder:
  "ladder_ok v \<Longrightarrow> sp_asks b = map_of v \<Longrightarrow>
   spec_best_ask b = (if v = [] then None else Some (hd v))"
  using hd_levels [of "map_of v"] levels_map_of [of v] levels_eq_Nil_iff [of "map_of v"]
  by (auto simp: spec_best_ask_def ladder_ok_def finite_dom_map_of Let_def)

lemma best_first_of_ladder:
  "ladder_ok v \<Longrightarrow> sp_bids b = map_of v \<Longrightarrow> best_first b Bid = rev v"
  "ladder_ok v \<Longrightarrow> sp_asks b = map_of v \<Longrightarrow> best_first b Ask = v"
  by (simp_all add: levels_map_of ladder_ok_def)

lemma depth_of_ladder:
  "ladder_ok v \<Longrightarrow> spec_side b s = map_of v \<Longrightarrow> spec_depth b s = length v"
  by (simp add: spec_depth_def ladder_ok_def levels_map_of flip: length_levels)

text \<open>
  Filling the caller's buffer with the first levels of a list, one slot at a time; both ways the
  sources write this loop compute the prefix that \<open>spec_top_n\<close> names.
\<close>

definition fill_prefix :: "level list \<Rightarrow> level list \<Rightarrow> nat \<times> level list" where
  "fill_prefix src out =
     (let ls = take (length out) src in (length ls, ls @ drop (length ls) out))"

lemma spec_top_n_fill: "spec_top_n b s out = fill_prefix (best_first b s) out"
  by (simp add: spec_top_n_def fill_prefix_def)

text \<open>\<open>for (slot, lvl) in out.iter_mut().zip(src)\<close> with a counter.\<close>

fun zip_fill :: "level list \<Rightarrow> level list \<Rightarrow> nat \<times> level list" where
  "zip_fill [] src = (0, [])"
| "zip_fill out [] = (0, out)"
| "zip_fill (slot # out) (lvl # src) = (let (n, out') = zip_fill out src in (Suc n, lvl # out'))"

lemma zip_fill_prefix: "zip_fill out src = fill_prefix src out"
  by (induction out src rule: zip_fill.induct)
    (auto simp: fill_prefix_def Let_def split: prod.splits)

lemma ladder_split:
  assumes "i < length v"
  shows "v = take i v @ v ! i # drop (Suc i) v"
  using assms by (simp add: id_take_nth_drop)

lemma ascending_around:
  assumes "ascending (u @ (p, r) # w)"
  shows "map_of (u @ w) = (map_of (u @ (p, r) # w))(p := None)"
    and "map_of (u @ (p, q) # w) = (map_of (u @ (p, r) # w))(p \<mapsto> q)"
proof -
  have "p \<notin> fst ` set u" "p \<notin> fst ` set w"
    using assms by (auto simp: ascending_append)
  then have u: "map_of u p = None" and w: "map_of w p = None"
    by (simp_all add: map_of_eq_None_iff)
  then show "map_of (u @ w) = (map_of (u @ (p, r) # w))(p := None)"
    and "map_of (u @ (p, q) # w) = (map_of (u @ (p, r) # w))(p \<mapsto> q)"
    by (auto simp: map_of_append map_add_def fun_eq_iff split: option.splits)
qed

lemma ascending_gap:
  assumes "ascending (u @ w)" and "\<forall>x \<in> set u. fst x < p" and "\<forall>x \<in> set w. p < fst x"
  shows "ascending (u @ (p, q) # w)"
    and "map_of (u @ (p, q) # w) = (map_of (u @ w))(p \<mapsto> q)"
    and "map_of (u @ w) p = None"
proof -
  show "ascending (u @ (p, q) # w)"
    using assms by (auto simp: ascending_append intro: less_trans)
  have "p \<notin> fst ` set u" "p \<notin> fst ` set w"
    using assms(2,3) by auto
  then have u: "map_of u p = None" and w: "map_of w p = None"
    by (simp_all add: map_of_eq_None_iff)
  then show "map_of (u @ (p, q) # w) = (map_of (u @ w))(p \<mapsto> q)" and "map_of (u @ w) p = None"
    by (auto simp: map_of_append map_add_def fun_eq_iff split: option.splits)
qed

text \<open>The two ways an update changes a ladder: at a resident level, or in the gap where it belongs.\<close>

lemma ladder_at_level:
  assumes "ladder_ok (u @ (p, r) # w)"
  shows "ladder_ok (if q = qty_zero then u @ w else u @ (p, q) # w)"
    and "map_of (if q = qty_zero then u @ w else u @ (p, q) # w) =
      ladder_set (map_of (u @ (p, r) # w)) p q"
  using assms ascending_around(1) [of u p r w] ascending_around(2) [of u p r w q]
  by (auto simp: ladder_ok_def ascending_append)

lemma ladder_at_gap:
  assumes "ladder_ok (u @ w)" and "\<forall>x \<in> set u. fst x < p" and "\<forall>x \<in> set w. p < fst x"
  shows "ladder_ok (if q = qty_zero then u @ w else u @ (p, q) # w)"
    and "map_of (if q = qty_zero then u @ w else u @ (p, q) # w) = ladder_set (map_of (u @ w)) p q"
proof -
  have asc: "ascending (u @ w)" using assms(1) by (simp add: ladder_ok_def)
  note gap = ascending_gap(1) [OF asc assms(2,3), of q] ascending_gap(2) [OF asc assms(2,3), of q]
    ascending_gap(3) [OF asc assms(2,3)]
  have "(map_of (u @ w))(p := None) = map_of (u @ w)"
    using gap(3) by (simp add: fun_upd_idem)
  with gap assms(1) show
    "ladder_ok (if q = qty_zero then u @ w else u @ (p, q) # w)"
    "map_of (if q = qty_zero then u @ w else u @ (p, q) # w) = ladder_set (map_of (u @ w)) p q"
    by (auto simp: ladder_ok_def)
qed

subsection \<open>The interface\<close>

locale side_store =
  fixes upd :: "level list \<Rightarrow> px \<Rightarrow> qty \<Rightarrow> level list res"
    and asc :: "level list \<Rightarrow> level list"
  assumes upd_ok: "ladder_ok (asc v) \<Longrightarrow>
    \<exists>v'. upd v p q = Inr v' \<and> ladder_ok (asc v')
      \<and> map_of (asc v') = ladder_set (map_of (asc v)) p q"
begin

text \<open>Setting a price twice keeps only the last quantity, and setting different prices commutes.\<close>

lemma upd_twice:
  assumes "ladder_ok (asc v)"
  obtains v1 v2 where "upd v p q = Inr v1" and "upd v1 p r = Inr v2"
    and "map_of (asc v2) = ladder_set (map_of (asc v)) p r"
proof -
  obtain v1 where v1: "upd v p q = Inr v1" "ladder_ok (asc v1)"
      "map_of (asc v1) = ladder_set (map_of (asc v)) p q"
    using upd_ok [OF assms] by blast
  moreover obtain v2 where "upd v1 p r = Inr v2"
      "map_of (asc v2) = ladder_set (map_of (asc v1)) p r"
    using upd_ok [OF v1(2)] by blast
  moreover have "ladder_set (ladder_set m p q) p r = ladder_set m p r" for m
    by (simp add: ladder_set_def)
  ultimately show ?thesis using that by simp
qed

lemma upd_levels:
  assumes "ladder_ok (asc v)" and "upd v p q = Inr v'"
  shows "asc v' = levels (ladder_set (map_of (asc v)) p q)"
  using upd_ok [OF assms(1), of p q] assms(2) levels_map_of [of "asc v'"]
  by (auto simp: ladder_ok_def)

end

end
