(* ===== verification/BTree_Book.thy ===== *)
theory BTree_Book
  imports Side_Store
begin

section \<open>\<open>BTreeBook\<close> (book/src/btree.rs)\<close>

text \<open>
  The baseline: one \<open>BTreeMap\<close> per side, represented by its entries in key order. \<open>fill\<close>
  writes the caller's buffer through an index, so its bounds check is part of the model.
\<close>

record btree_book =
  bt_bids :: "level list"
  bt_asks :: "level list"
  bt_last :: "trade_print option"

definition btree_default :: btree_book where
  "btree_default = \<lparr>bt_bids = [], bt_asks = [], bt_last = None\<rparr>"

fun btree_side_mut ::
  "side \<Rightarrow> (level list \<Rightarrow> level list) \<Rightarrow> btree_book \<Rightarrow> btree_book" where
  "btree_side_mut Bid f b = b\<lparr>bt_bids := f (bt_bids b)\<rparr>"
| "btree_side_mut Ask f b = b\<lparr>bt_asks := f (bt_asks b)\<rparr>"

fun btree_fill_loop :: "level list \<Rightarrow> level list \<Rightarrow> nat \<Rightarrow> (nat \<times> level list) res" where
  "btree_fill_loop [] out n = Inr (n, out)"
| "btree_fill_loop ((p, q) # it) out n =
     res_bind (vec_set out n (p, q)) (\<lambda>out'. btree_fill_loop it out' (n + 1))"

definition btree_fill :: "level list \<Rightarrow> level list \<Rightarrow> (nat \<times> level list) res" where
  "btree_fill it out = btree_fill_loop (take (length out) it) out 0"

definition btree_apply :: "btree_book \<Rightarrow> book_event \<Rightarrow> btree_book" where
  "btree_apply b ev =
     (case ev_kind ev of
        Level \<Rightarrow>
          (if is_zero (ev_qty ev) then btree_side_mut (ev_side ev) (btm_remove (ev_px ev)) b
           else btree_side_mut (ev_side ev) (btm_insert (ev_px ev) (ev_qty ev)) b)
      | Trade \<Rightarrow> b\<lparr>bt_last := Some (ev_px ev, ev_qty ev, ev_side ev)\<rparr>
      | Clear \<Rightarrow> b\<lparr>bt_bids := [], bt_asks := [], bt_last := None\<rparr>)"

definition btree_best_bid :: "btree_book \<Rightarrow> level option" where
  "btree_best_bid b = (if bt_bids b = [] then None else Some (last (bt_bids b)))"

definition btree_best_ask :: "btree_book \<Rightarrow> level option" where
  "btree_best_ask b = (case bt_asks b of [] \<Rightarrow> None | l # _ \<Rightarrow> Some l)"

fun btree_top_n :: "btree_book \<Rightarrow> side \<Rightarrow> level list \<Rightarrow> (nat \<times> level list) res" where
  "btree_top_n b Bid out = btree_fill (rev (bt_bids b)) out"
| "btree_top_n b Ask out = btree_fill (bt_asks b) out"

fun btree_depth :: "btree_book \<Rightarrow> side \<Rightarrow> nat" where
  "btree_depth b Bid = length (bt_bids b)"
| "btree_depth b Ask = length (bt_asks b)"

definition btree_ops :: "btree_book order_book_ops" where
  "btree_ops =
     \<lparr>ob_default = btree_default, ob_apply = (\<lambda>b ev. Inr (btree_apply b ev)),
      ob_best_bid = (\<lambda>b. Inr (btree_best_bid b)), ob_best_ask = (\<lambda>b. Inr (btree_best_ask b)),
      ob_top_n = btree_top_n, ob_depth = btree_depth, ob_last_trade = bt_last\<rparr>"

subsection \<open>Refinement of the contract\<close>

definition btree_inv :: "btree_book \<Rightarrow> bool" where
  "btree_inv b \<longleftrightarrow> ladder_ok (bt_bids b) \<and> ladder_ok (bt_asks b)"

definition btree_abs :: "btree_book \<Rightarrow> spec_book" where
  "btree_abs b =
     \<lparr>sp_bids = map_of (bt_bids b), sp_asks = map_of (bt_asks b), sp_last = bt_last b\<rparr>"

definition btm_set_level :: "level list \<Rightarrow> px \<Rightarrow> qty \<Rightarrow> level list" where
  "btm_set_level v p q = (if is_zero q then btm_remove p v else btm_insert p q v)"

lemma ladder_ok_btm_set_level: "ladder_ok v \<Longrightarrow> ladder_ok (btm_set_level v p q)"
  using set_btm_insert_subset [of p q v] set_btm_remove_subset [of p v]
  by (auto simp: ladder_ok_def btm_set_level_def ascending_eq_keys keys_btm_insert
      keys_btm_remove)

lemma map_of_btm_set_level:
  "ladder_ok v \<Longrightarrow> map_of (btm_set_level v p q) = ladder_set (map_of v) p q"
  by (simp add: ladder_ok_def btm_set_level_def ascending_eq_keys map_of_btm_insert
      map_of_btm_remove)

interpretation btree_side: side_store "\<lambda>v p q. Inr (btm_set_level v p q)" "\<lambda>v. v"
  by unfold_locales (auto simp: ladder_ok_btm_set_level map_of_btm_set_level)

lemma btree_apply_level:
  "ev_kind ev = Level \<Longrightarrow> btree_apply b ev =
     btree_side_mut (ev_side ev) (\<lambda>v. btm_set_level v (ev_px ev) (ev_qty ev)) b"
  by (cases "ev_side ev") (simp_all add: btree_apply_def btm_set_level_def)

lemma btree_apply_refines:
  "btree_inv b \<Longrightarrow> btree_inv (btree_apply b ev)
     \<and> btree_abs (btree_apply b ev) = spec_apply (btree_abs b) ev"
  by (cases "ev_kind ev"; cases "ev_side ev")
    (simp_all add: btree_apply_level btree_inv_def btree_abs_def spec_apply_def spec_empty_def
      ladder_ok_btm_set_level map_of_btm_set_level, simp_all add: btree_apply_def)

lemma btree_fill_loop_eq:
  "n + length it \<le> length out \<Longrightarrow>
   btree_fill_loop it out n = Inr (n + length it, take n out @ it @ drop (n + length it) out)"
proof (induction it out n rule: btree_fill_loop.induct)
  case (2 p q it out n)
  then show ?case
    by (simp add: vec_simps take_Suc_conv_app_nth upd_conv_take_nth_drop)
      (simp add: drop_update_swap nth_append add.commute)
qed simp

lemma btree_fill_prefix: "btree_fill it out = Inr (fill_prefix it out)"
  by (simp add: btree_fill_def btree_fill_loop_eq fill_prefix_def Let_def)

interpretation btree: order_book btree_ops btree_inv btree_abs "\<lambda>_. True"
proof
  fix b ev s out
  assume inv: "btree_inv b"
  show "ob_best_bid btree_ops b = Inr (spec_best_bid (btree_abs b))"
    using inv best_bid_of_ladder [of "bt_bids b" "btree_abs b"]
    by (simp add: btree_ops_def btree_best_bid_def btree_inv_def btree_abs_def)
  show "ob_best_ask btree_ops b = Inr (spec_best_ask (btree_abs b))"
    using inv best_ask_of_ladder [of "bt_asks b" "btree_abs b"]
    by (simp add: btree_ops_def btree_best_ask_def btree_inv_def btree_abs_def split: list.split)
  show "ob_top_n btree_ops b s out = Inr (spec_top_n (btree_abs b) s out)"
    using inv best_first_of_ladder [of _ "btree_abs b"]
    by (cases s) (simp_all add: btree_ops_def spec_top_n_fill btree_fill_prefix btree_inv_def
        btree_abs_def)
  show "ob_depth btree_ops b s = spec_depth (btree_abs b) s"
    using inv depth_of_ladder [of _ "btree_abs b" s]
    by (cases s) (simp_all add: btree_ops_def btree_inv_def btree_abs_def)
qed (use btree_apply_refines in
    \<open>auto simp: btree_ops_def btree_default_def btree_inv_def btree_abs_def spec_empty_def\<close>)

end
