(* ===== verification/Sorted_Vec_Book.thy ===== *)
theory Sorted_Vec_Book
  imports Side_Store
begin

section \<open>\<open>SortedVecBook\<close> (book/src/sorted_vec.rs)\<close>

text \<open>
  Both sides are ascending vectors located by binary search. The search is the halving loop of
  the standard library's \<open>binary_search_by_key\<close>, returning \<open>Inr i\<close> for \<open>Ok(i)\<close> and \<open>Inl i\<close> for
  \<open>Err(i)\<close>; \<open>update_ascending\<close> then indexes, removes or inserts at that position, each with
  the bounds check of \<open>Vec\<close>.
\<close>

record sorted_book =
  sv_bids :: "level list"
  sv_asks :: "level list"
  sv_last :: "trade_print option"

definition sorted_default :: sorted_book where
  "sorted_default = \<lparr>sv_bids = [], sv_asks = [], sv_last = None\<rparr>"

function bsearch_loop :: "level list \<Rightarrow> px \<Rightarrow> nat \<Rightarrow> nat \<Rightarrow> nat" where
  "bsearch_loop v k sz base =
     (if 1 < sz then
        let half = sz div 2; mid = base + half
        in bsearch_loop v k (sz - half) (if k < fst (v ! mid) then base else mid)
      else base)"
  by pat_completeness auto
termination
  by (relation "measure (\<lambda>(v, k, sz, base). sz)") auto

declare bsearch_loop.simps [simp del]

definition binary_search_by_key :: "level list \<Rightarrow> px \<Rightarrow> nat + nat" where
  "binary_search_by_key v k =
     (if length v = 0 then Inl 0
      else let base = bsearch_loop v k (length v) 0
           in if fst (v ! base) = k then Inr base
              else Inl (base + (if fst (v ! base) < k then 1 else 0)))"

definition update_ascending :: "level list \<Rightarrow> px \<Rightarrow> qty \<Rightarrow> level list res" where
  "update_ascending v p q =
     (case binary_search_by_key v p of
        Inr i \<Rightarrow>
          (if is_zero q then vec_remove v i
           else res_bind (vec_get v i) (\<lambda>l. vec_set v i (fst l, q)))
      | Inl i \<Rightarrow> (if \<not> is_zero q then vec_insert v i (p, q) else Inr v))"

definition sorted_apply :: "sorted_book \<Rightarrow> book_event \<Rightarrow> sorted_book res" where
  "sorted_apply b ev =
     (case ev_kind ev of
        Level \<Rightarrow> (case ev_side ev of
            Bid \<Rightarrow> res_map (\<lambda>v. b\<lparr>sv_bids := v\<rparr>)
                     (update_ascending (sv_bids b) (ev_px ev) (ev_qty ev))
          | Ask \<Rightarrow> res_map (\<lambda>v. b\<lparr>sv_asks := v\<rparr>)
                     (update_ascending (sv_asks b) (ev_px ev) (ev_qty ev)))
      | Trade \<Rightarrow> Inr (b\<lparr>sv_last := Some (ev_px ev, ev_qty ev, ev_side ev)\<rparr>)
      | Clear \<Rightarrow> Inr (b\<lparr>sv_bids := [], sv_asks := [], sv_last := None\<rparr>))"

definition sorted_best_bid :: "sorted_book \<Rightarrow> level option" where
  "sorted_best_bid b = (if sv_bids b = [] then None else Some (last (sv_bids b)))"

definition sorted_best_ask :: "sorted_book \<Rightarrow> level option" where
  "sorted_best_ask b = (if sv_asks b = [] then None else Some (hd (sv_asks b)))"

fun sorted_top_n :: "sorted_book \<Rightarrow> side \<Rightarrow> level list \<Rightarrow> nat \<times> level list" where
  "sorted_top_n b Bid out = zip_fill out (rev (sv_bids b))"
| "sorted_top_n b Ask out = zip_fill out (sv_asks b)"

fun sorted_depth :: "sorted_book \<Rightarrow> side \<Rightarrow> nat" where
  "sorted_depth b Bid = length (sv_bids b)"
| "sorted_depth b Ask = length (sv_asks b)"

definition sorted_ops :: "sorted_book order_book_ops" where
  "sorted_ops =
     \<lparr>ob_default = sorted_default, ob_apply = sorted_apply,
      ob_best_bid = (\<lambda>b. Inr (sorted_best_bid b)), ob_best_ask = (\<lambda>b. Inr (sorted_best_ask b)),
      ob_top_n = (\<lambda>b s out. Inr (sorted_top_n b s out)), ob_depth = sorted_depth,
      ob_last_trade = sv_last\<rparr>"

subsection \<open>The binary search\<close>

text \<open>
  The loop keeps a window \<open>[base, base + sz)\<close>: everything above it is greater than the key,
  and its first entry is not greater unless the window still starts at 0.
\<close>

lemma bsearch_loop_window:
  assumes "ascending v" and "0 < sz" and "base + sz \<le> length v"
    and "base = 0 \<or> fst (v ! base) \<le> k"
    and "\<forall>j. base + sz \<le> j \<and> j < length v \<longrightarrow> k < fst (v ! j)"
  shows "let r = bsearch_loop v k sz base in
    r < length v \<and> (r = 0 \<or> fst (v ! r) \<le> k) \<and> (\<forall>j. r < j \<and> j < length v \<longrightarrow> k < fst (v ! j))"
  using assms
proof (induction v k sz base rule: bsearch_loop.induct)
  case (1 v k sz base)
  show ?case
  proof (cases "1 < sz")
    case False
    then have "bsearch_loop v k sz base = base"
      by (simp add: bsearch_loop.simps [of v k sz base])
    moreover from False "1.prems" have "sz = 1" by simp
    ultimately show ?thesis using "1.prems" by (auto simp: Let_def)
  next
    case True
    define half where "half = sz div 2"
    define base' where "base' = (if k < fst (v ! (base + half)) then base else base + half)"
    have half: "0 < half" "half < sz" "half \<le> sz - half" using True by (auto simp: half_def)
    have above: "\<forall>j. base' + (sz - half) \<le> j \<and> j < length v \<longrightarrow> k < fst (v ! j)"
    proof (intro allI impI)
      fix j assume j: "base' + (sz - half) \<le> j \<and> j < length v"
      show "k < fst (v ! j)"
      proof (cases "base + sz \<le> j \<or> \<not> k < fst (v ! (base + half))")
        case True
        then show ?thesis using j "1.prems"(5) half by (auto simp: base'_def split: if_splits)
      next
        case False
        moreover have "base + half \<le> j"
          using j half by (auto simp: base'_def split: if_splits)
        ultimately show ?thesis
          using ascending_nth_less [OF "1.prems"(1), of "base + half" j] j
          by (cases "base + half = j") (auto intro: less_trans)
      qed
    qed
    have first: "base' = 0 \<or> fst (v ! base') \<le> k"
      using "1.prems"(4) by (auto simp: base'_def not_less)
    have fits: "base' + (sz - half) \<le> length v"
      using "1.prems"(3) half by (auto simp: base'_def)
    have pos: "0 < sz - half" using half by simp
    note IH = "1.IH" [OF True half_def refl, folded base'_def]
    have "let r = bsearch_loop v k (sz - half) base' in
        r < length v \<and> (r = 0 \<or> fst (v ! r) \<le> k)
        \<and> (\<forall>j. r < j \<and> j < length v \<longrightarrow> k < fst (v ! j))"
      by (rule IH [OF "1.prems"(1) pos fits first above])
    moreover have "bsearch_loop v k sz base = bsearch_loop v k (sz - half) base'"
      using True by (simp add: bsearch_loop.simps [of v k sz base] Let_def half_def base'_def)
    ultimately show ?thesis by simp
  qed
qed

lemma bsearch_loop_start:
  assumes "ascending v" and "v \<noteq> []"
  shows "bsearch_loop v k (length v) 0 < length v"
    and "bsearch_loop v k (length v) 0 = 0 \<or> fst (v ! bsearch_loop v k (length v) 0) \<le> k"
    and "\<forall>j. bsearch_loop v k (length v) 0 < j \<and> j < length v \<longrightarrow> k < fst (v ! j)"
proof -
  have "let r = bsearch_loop v k (length v) 0 in
    r < length v \<and> (r = 0 \<or> fst (v ! r) \<le> k) \<and> (\<forall>j. r < j \<and> j < length v \<longrightarrow> k < fst (v ! j))"
    using assms by (intro bsearch_loop_window) auto
  then show "bsearch_loop v k (length v) 0 < length v"
    and "bsearch_loop v k (length v) 0 = 0 \<or> fst (v ! bsearch_loop v k (length v) 0) \<le> k"
    and "\<forall>j. bsearch_loop v k (length v) 0 < j \<and> j < length v \<longrightarrow> k < fst (v ! j)"
    by (simp_all add: Let_def)
qed

lemma binary_search_Inr:
  assumes "binary_search_by_key v k = Inr i" and "ascending v"
  shows "i < length v \<and> fst (v ! i) = k"
proof -
  from assms(1) have "v \<noteq> []" "i = bsearch_loop v k (length v) 0" "fst (v ! i) = k"
    by (auto simp: binary_search_by_key_def Let_def split: if_splits)
  with bsearch_loop_start(1) [OF assms(2), of k] show ?thesis by simp
qed

lemma binary_search_Inl:
  assumes "binary_search_by_key v k = Inl i" and "ascending v"
  shows "i \<le> length v \<and> (\<forall>j < i. fst (v ! j) < k) \<and> (\<forall>j. i \<le> j \<and> j < length v \<longrightarrow> k < fst (v ! j))"
proof (cases "v = []")
  case True
  with assms(1) show ?thesis by (simp add: binary_search_by_key_def)
next
  case False
  define r where "r = bsearch_loop v k (length v) 0"
  have r: "r < length v" "r = 0 \<or> fst (v ! r) \<le> k" "\<forall>j. r < j \<and> j < length v \<longrightarrow> k < fst (v ! j)"
    using bsearch_loop_start [OF assms(2) False, of k] by (simp_all add: r_def)
  from assms(1) False have ne: "fst (v ! r) \<noteq> k" and i: "i = (if fst (v ! r) < k then Suc r else r)"
    by (auto simp: binary_search_by_key_def Let_def r_def split: if_splits)
  have below: "fst (v ! j) < k" if "j < i" for j
  proof (cases "j = r")
    case True
    with that i show ?thesis by (auto split: if_splits)
  next
    case False
    with that i have "j < r" by (auto split: if_splits)
    with r(2) have "fst (v ! r) \<le> k" by auto
    with ascending_nth_less [OF assms(2) \<open>j < r\<close> r(1)] show ?thesis by (rule less_le_trans)
  qed
  have above: "k < fst (v ! j)" if "i \<le> j" "j < length v" for j
  proof (cases "j = r")
    case True
    with that i ne show ?thesis by (auto split: if_splits)
  next
    case False
    with that i have "r < j" by (auto split: if_splits)
    with that r(3) show ?thesis by simp
  qed
  from i r(1) have "i \<le> length v" by (simp split: if_splits)
  with below above show ?thesis by simp
qed

subsection \<open>Refinement of the contract\<close>

lemma set_take_nth: "x \<in> set (take i v) \<Longrightarrow> \<exists>j < i. j < length v \<and> x = v ! j"
  by (auto simp: in_set_conv_nth)

lemma set_drop_nth: "x \<in> set (drop i v) \<Longrightarrow> \<exists>j. i \<le> j \<and> j < length v \<and> x = v ! j"
  by (auto simp: in_set_conv_nth) (metis add.commute le_add1 less_diff_conv)

lemma update_ascending_ok:
  assumes ok: "ladder_ok v"
  shows "\<exists>v'. update_ascending v p q = Inr v' \<and> ladder_ok v'
    \<and> map_of v' = ladder_set (map_of v) p q"
proof (cases "binary_search_by_key v p")
  case (Inr i)
  from ok have asc: "ascending v" by (simp add: ladder_ok_def)
  from binary_search_Inr [OF Inr asc] have i: "i < length v" "fst (v ! i) = p" by auto
  define u w r where "u = take i v" and "w = drop (Suc i) v" and "r = snd (v ! i)"
  have v: "v = u @ (p, r) # w"
    using ladder_split [OF i(1)] by (simp add: u_def w_def r_def flip: i(2))
  have "update_ascending v p q = Inr (if q = qty_zero then u @ w else u @ (p, q) # w)"
    using i by (simp add: update_ascending_def Inr vec_simps u_def w_def upd_conv_take_nth_drop)
  with ladder_at_level [OF ok [unfolded v], of q] show ?thesis unfolding v by blast
next
  case (Inl i)
  from ok have asc: "ascending v" by (simp add: ladder_ok_def)
  define u w where "u = take i v" and "w = drop i v"
  have v: "v = u @ w" by (simp add: u_def w_def)
  from binary_search_Inl [OF Inl asc] have i: "i \<le> length v"
    and below: "\<forall>x \<in> set u. fst x < p" and above: "\<forall>x \<in> set w. p < fst x"
    by (auto simp: u_def w_def dest!: set_take_nth set_drop_nth)
  have "update_ascending v p q = Inr (if q = qty_zero then u @ w else u @ (p, q) # w)"
    using i by (simp add: update_ascending_def Inl vec_simps u_def w_def)
  with ladder_at_gap [OF ok [unfolded v] below above, of q] show ?thesis unfolding v by blast
qed

interpretation sorted_side: side_store update_ascending "\<lambda>v. v"
  by unfold_locales (rule update_ascending_ok)

definition sorted_inv :: "sorted_book \<Rightarrow> bool" where
  "sorted_inv b \<longleftrightarrow> ladder_ok (sv_bids b) \<and> ladder_ok (sv_asks b)"

definition sorted_abs :: "sorted_book \<Rightarrow> spec_book" where
  "sorted_abs b =
     \<lparr>sp_bids = map_of (sv_bids b), sp_asks = map_of (sv_asks b), sp_last = sv_last b\<rparr>"

lemma sorted_apply_refines:
  assumes "sorted_inv b"
  shows "\<exists>b'. sorted_apply b ev = Inr b' \<and> sorted_inv b'
    \<and> sorted_abs b' = spec_apply (sorted_abs b) ev"
proof (cases "ev_kind ev")
  case Level
  show ?thesis
  proof (cases "ev_side ev")
    case Bid
    with Level assms sorted_side.upd_ok [of "sv_bids b" "ev_px ev" "ev_qty ev"] show ?thesis
      by (auto simp: sorted_apply_def sorted_inv_def sorted_abs_def spec_apply_def)
  next
    case Ask
    with Level assms sorted_side.upd_ok [of "sv_asks b" "ev_px ev" "ev_qty ev"] show ?thesis
      by (auto simp: sorted_apply_def sorted_inv_def sorted_abs_def spec_apply_def)
  qed
qed (use assms in \<open>simp_all add: sorted_apply_def sorted_inv_def sorted_abs_def spec_apply_def
    spec_empty_def\<close>)

interpretation sorted: order_book sorted_ops sorted_inv sorted_abs "\<lambda>_. True"
proof
  fix b ev s out
  assume inv: "sorted_inv b"
  show "ob_best_bid sorted_ops b = Inr (spec_best_bid (sorted_abs b))"
    using inv best_bid_of_ladder [of "sv_bids b" "sorted_abs b"]
    by (simp add: sorted_ops_def sorted_best_bid_def sorted_inv_def sorted_abs_def)
  show "ob_best_ask sorted_ops b = Inr (spec_best_ask (sorted_abs b))"
    using inv best_ask_of_ladder [of "sv_asks b" "sorted_abs b"]
    by (simp add: sorted_ops_def sorted_best_ask_def sorted_inv_def sorted_abs_def)
  show "ob_top_n sorted_ops b s out = Inr (spec_top_n (sorted_abs b) s out)"
    using inv best_first_of_ladder [of _ "sorted_abs b"]
    by (cases s) (simp_all add: sorted_ops_def spec_top_n_fill zip_fill_prefix sorted_inv_def
        sorted_abs_def)
  show "ob_depth sorted_ops b s = spec_depth (sorted_abs b) s"
    using inv depth_of_ladder [of _ "sorted_abs b" s]
    by (cases s) (simp_all add: sorted_ops_def sorted_inv_def sorted_abs_def)
  show "\<exists>b'. ob_apply sorted_ops b ev = Inr b' \<and> sorted_inv b'
      \<and> sorted_abs b' = spec_apply (sorted_abs b) ev"
    using sorted_apply_refines [OF inv] by (simp add: sorted_ops_def)
qed (simp_all add: sorted_ops_def sorted_default_def sorted_inv_def sorted_abs_def spec_empty_def)

end
