(* ===== verification/Rev_Vec_Book.thy ===== *)
theory Rev_Vec_Book
  imports Side_Store
begin

section \<open>\<open>RevVecBook\<close> (book/src/rev_vec.rs)\<close>

text \<open>
  Both sides are vectors kept best-first: bids descending, asks ascending. \<open>update_best_first\<close>
  scans from the best end for the first slot the price does not come before.
\<close>

record rev_book =
  rv_bids :: "level list"
  rv_asks :: "level list"
  rv_last :: "trade_print option"

definition rev_default :: rev_book where
  "rev_default = \<lparr>rv_bids = [], rv_asks = [], rv_last = None\<rparr>"

fun position :: "('a \<Rightarrow> bool) \<Rightarrow> 'a list \<Rightarrow> nat option" where
  "position P [] = None"
| "position P (x # xs) = (if P x then Some 0 else map_option Suc (position P xs))"

definition update_best_first :: "bool \<Rightarrow> level list \<Rightarrow> px \<Rightarrow> qty \<Rightarrow> level list res" where
  "update_best_first asc v p q =
     (case position (\<lambda>l. if asc then p \<le> fst l else fst l \<le> p) v of
        Some i \<Rightarrow>
          res_bind (vec_get v i) (\<lambda>l.
            if fst l = p then
              (if is_zero q then vec_remove v i else vec_set v i (fst l, q))
            else
              (if \<not> is_zero q then vec_insert v i (p, q) else Inr v))
      | None \<Rightarrow> (if \<not> is_zero q then Inr (v @ [(p, q)]) else Inr v))"

definition rev_apply :: "rev_book \<Rightarrow> book_event \<Rightarrow> rev_book res" where
  "rev_apply b ev =
     (case ev_kind ev of
        Level \<Rightarrow> (case ev_side ev of
            Bid \<Rightarrow> res_map (\<lambda>v. b\<lparr>rv_bids := v\<rparr>)
                     (update_best_first False (rv_bids b) (ev_px ev) (ev_qty ev))
          | Ask \<Rightarrow> res_map (\<lambda>v. b\<lparr>rv_asks := v\<rparr>)
                     (update_best_first True (rv_asks b) (ev_px ev) (ev_qty ev)))
      | Trade \<Rightarrow> Inr (b\<lparr>rv_last := Some (ev_px ev, ev_qty ev, ev_side ev)\<rparr>)
      | Clear \<Rightarrow> Inr (b\<lparr>rv_bids := [], rv_asks := [], rv_last := None\<rparr>))"

definition rev_best_bid :: "rev_book \<Rightarrow> level option" where
  "rev_best_bid b = (if rv_bids b = [] then None else Some (hd (rv_bids b)))"

definition rev_best_ask :: "rev_book \<Rightarrow> level option" where
  "rev_best_ask b = (if rv_asks b = [] then None else Some (hd (rv_asks b)))"

definition rev_top_n :: "rev_book \<Rightarrow> side \<Rightarrow> level list \<Rightarrow> nat \<times> level list" where
  "rev_top_n b s out = zip_fill out (case s of Bid \<Rightarrow> rv_bids b | Ask \<Rightarrow> rv_asks b)"

fun rev_depth :: "rev_book \<Rightarrow> side \<Rightarrow> nat" where
  "rev_depth b Bid = length (rv_bids b)"
| "rev_depth b Ask = length (rv_asks b)"

definition rev_ops :: "rev_book order_book_ops" where
  "rev_ops =
     \<lparr>ob_default = rev_default, ob_apply = rev_apply,
      ob_best_bid = (\<lambda>b. Inr (rev_best_bid b)), ob_best_ask = (\<lambda>b. Inr (rev_best_ask b)),
      ob_top_n = (\<lambda>b s out. Inr (rev_top_n b s out)), ob_depth = rev_depth,
      ob_last_trade = rv_last\<rparr>"

subsection \<open>The linear scan\<close>

lemma position_Some:
  "position P v = Some i \<Longrightarrow>
   \<exists>u l w. v = u @ l # w \<and> length u = i \<and> P l \<and> (\<forall>x \<in> set u. \<not> P x)"
proof (induction v arbitrary: i)
  case (Cons x v)
  show ?case
  proof (cases "P x")
    case True
    with Cons.prems show ?thesis by (intro exI [of _ "[]"]) auto
  next
    case False
    with Cons.prems obtain j where "position P v = Some j" "i = Suc j" by auto
    with Cons.IH obtain u l w where "v = u @ l # w" "length u = j" "P l" "\<forall>x \<in> set u. \<not> P x"
      by blast
    with False \<open>i = Suc j\<close> show ?thesis by (intro exI [of _ "x # u"]) auto
  qed
qed simp

lemma position_None: "position P v = None \<Longrightarrow> \<forall>x \<in> set v. \<not> P x"
  by (induction v) (auto split: if_splits)

text \<open>
  What the scan leaves the caller with: the list split where the price belongs, and the update
  written on that split. \<open>before\<close> is the order the side is kept in.
\<close>

lemma update_best_first_cases:
  obtains (here) u r w where "v = u @ (p, r) # w"
      "update_best_first asc v p q = Inr (if q = qty_zero then u @ w else u @ (p, q) # w)"
  | (gap) u w where "v = u @ w"
      "\<forall>x \<in> set u. if asc then fst x < p else p < fst x"
      "w \<noteq> [] \<Longrightarrow> if asc then p < fst (hd w) else fst (hd w) < p"
      "update_best_first asc v p q = Inr (if q = qty_zero then u @ w else u @ (p, q) # w)"
proof (cases "position (\<lambda>l. if asc then p \<le> fst l else fst l \<le> p) v")
  case None
  from position_None [OF this] show ?thesis
    by (intro gap [of v "[]"]) (auto simp: update_best_first_def None not_le split: if_splits)
next
  case (Some i)
  from position_Some [OF this] obtain u l w
    where v: "v = u @ l # w" "length u = i" and l: "if asc then p \<le> fst l else fst l \<le> p"
      and u: "\<forall>x \<in> set u. \<not> (if asc then p \<le> fst x else fst x \<le> p)" by blast
  have upd: "update_best_first asc v p q =
      (if fst l = p then (if q = qty_zero then vec_remove v i else vec_set v i (fst l, q))
       else (if q \<noteq> qty_zero then vec_insert v i (p, q) else Inr v))"
    unfolding update_best_first_def Some option.case
    by (simp add: vec_simps v(1) flip: v(2))
  show ?thesis
  proof (cases "fst l = p")
    case True
    then have "update_best_first asc v p q = Inr (if q = qty_zero then u @ w else u @ (p, q) # w)"
      unfolding upd by (simp add: vec_simps v(1) flip: v(2))
    with v True show ?thesis by (intro here [of u "snd l" w]) auto
  next
    case False
    then have "update_best_first asc v p q =
        Inr (if q = qty_zero then u @ l # w else u @ (p, q) # l # w)"
      unfolding upd by (simp add: vec_simps v(1) flip: v(2))
    moreover from False l have "if asc then p < fst l else fst l < p" by (cases asc) auto
    ultimately show ?thesis
      using v u by (intro gap [of u "l # w"]) (auto simp: not_le split: if_splits)
  qed
qed

subsection \<open>Refinement of the contract\<close>

lemma update_best_first_asks_ok:
  assumes ok: "ladder_ok v"
  shows "\<exists>v'. update_best_first True v p q = Inr v' \<and> ladder_ok v'
    \<and> map_of v' = ladder_set (map_of v) p q"
proof (cases rule: update_best_first_cases [of v p True q])
  case (here u r w)
  with ladder_at_level [OF ok [unfolded here(1)], of q] show ?thesis by auto
next
  case (gap u w)
  have "\<forall>x \<in> set w. p < fst x"
    using gap(3) ok by (cases w) (auto simp: gap(1) ladder_ok_def ascending_append)
  with gap ladder_at_gap [OF ok [unfolded gap(1)], of p q] show ?thesis by auto
qed

lemma update_best_first_bids_ok:
  assumes ok: "ladder_ok (rev v)"
  shows "\<exists>v'. update_best_first False v p q = Inr v' \<and> ladder_ok (rev v')
    \<and> map_of (rev v') = ladder_set (map_of (rev v)) p q"
proof (cases rule: update_best_first_cases [of v p False q])
  case (here u r w)
  with ladder_at_level [of "rev w" p r "rev u" q] ok show ?thesis by (auto split: if_splits)
next
  case (gap u w)
  have "\<forall>x \<in> set w. fst x < p"
    using gap(3) ok by (cases w) (auto simp: gap(1) ladder_ok_def ascending_append)
  with gap ladder_at_gap [of "rev w" "rev u" p q] ok show ?thesis by (auto split: if_splits)
qed

interpretation rev_bid_side: side_store "update_best_first False" rev
  by unfold_locales (rule update_best_first_bids_ok)

interpretation rev_ask_side: side_store "update_best_first True" "\<lambda>v. v"
  by unfold_locales (rule update_best_first_asks_ok)

definition rev_inv :: "rev_book \<Rightarrow> bool" where
  "rev_inv b \<longleftrightarrow> ladder_ok (rev (rv_bids b)) \<and> ladder_ok (rv_asks b)"

definition rev_abs :: "rev_book \<Rightarrow> spec_book" where
  "rev_abs b =
     \<lparr>sp_bids = map_of (rev (rv_bids b)), sp_asks = map_of (rv_asks b), sp_last = rv_last b\<rparr>"

lemma rev_apply_refines:
  assumes "rev_inv b"
  shows "\<exists>b'. rev_apply b ev = Inr b' \<and> rev_inv b' \<and> rev_abs b' = spec_apply (rev_abs b) ev"
proof (cases "ev_kind ev")
  case Level
  show ?thesis
  proof (cases "ev_side ev")
    case Bid
    with Level assms rev_bid_side.upd_ok [of "rv_bids b" "ev_px ev" "ev_qty ev"] show ?thesis
      by (auto simp: rev_apply_def rev_inv_def rev_abs_def spec_apply_def)
  next
    case Ask
    with Level assms rev_ask_side.upd_ok [of "rv_asks b" "ev_px ev" "ev_qty ev"] show ?thesis
      by (auto simp: rev_apply_def rev_inv_def rev_abs_def spec_apply_def)
  qed
qed (use assms in \<open>simp_all add: rev_apply_def rev_inv_def rev_abs_def spec_apply_def
    spec_empty_def\<close>)

interpretation rev: order_book rev_ops rev_inv rev_abs "\<lambda>_. True"
proof
  fix b ev s out
  assume inv: "rev_inv b"
  show "ob_best_bid rev_ops b = Inr (spec_best_bid (rev_abs b))"
    using inv best_bid_of_ladder [of "rev (rv_bids b)" "rev_abs b"]
    by (simp add: rev_ops_def rev_best_bid_def rev_inv_def rev_abs_def last_rev)
  show "ob_best_ask rev_ops b = Inr (spec_best_ask (rev_abs b))"
    using inv best_ask_of_ladder [of "rv_asks b" "rev_abs b"]
    by (simp add: rev_ops_def rev_best_ask_def rev_inv_def rev_abs_def)
  show "ob_top_n rev_ops b s out = Inr (spec_top_n (rev_abs b) s out)"
    using inv best_first_of_ladder [of _ "rev_abs b"]
    by (cases s) (simp_all add: rev_ops_def rev_top_n_def spec_top_n_fill zip_fill_prefix
        rev_inv_def rev_abs_def)
  show "ob_depth rev_ops b s = spec_depth (rev_abs b) s"
    using inv depth_of_ladder [of "rev (rv_bids b)" "rev_abs b" s]
      depth_of_ladder [of "rv_asks b" "rev_abs b" s]
    by (cases s) (simp_all add: rev_ops_def rev_inv_def rev_abs_def)
  show "\<exists>b'. ob_apply rev_ops b ev = Inr b' \<and> rev_inv b' \<and> rev_abs b' = spec_apply (rev_abs b) ev"
    using rev_apply_refines [OF inv] by (simp add: rev_ops_def)
qed (simp_all add: rev_ops_def rev_default_def rev_inv_def rev_abs_def spec_empty_def)

end
