(* ===== verification/Flat_Book.thy ===== *)
theory Flat_Book
  imports Side_Store
begin

section \<open>\<open>FlatBook\<close> (book/src/flat.rs)\<close>

text \<open>
  One dense array per side, indexed by the tick offset from \<open>base\<close>. Every array access is
  bounds-checked, the capacity assertion and the slice copies of a regrow are branches of the
  model, and the tick arithmetic wraps at 64 bits as in the release profile. The contract is
  met on a price band \<open>[lo, hi)\<close> that satisfies \<open>band_ok\<close>: wide enough apart from the ends of
  the 64-bit range and, with its two margins, no wider than \<open>MAX_SPAN\<close>.
\<close>

definition MAX_SPAN :: nat where
  "MAX_SPAN = 8 * 1024 * 1024"

definition INIT_HALF_SPAN :: nat where
  "INIT_HALF_SPAN = 4096"

record flat_book =
  fb_base :: i64
  fb_inited :: bool
  fb_bid_qty :: "qty list"
  fb_ask_qty :: "qty list"
  fb_best_bid_idx :: "nat option"
  fb_best_ask_idx :: "nat option"
  fb_bid_depth :: nat
  fb_ask_depth :: nat
  fb_last :: "trade_print option"

definition flat_default :: flat_book where
  "flat_default =
     \<lparr>fb_base = 0, fb_inited = False, fb_bid_qty = [], fb_ask_qty = [], fb_best_bid_idx = None,
      fb_best_ask_idx = None, fb_bid_depth = 0, fb_ask_depth = 0, fb_last = None\<rparr>"

definition allocated_span_ticks :: "flat_book \<Rightarrow> nat" where
  "allocated_span_ticks b = length (fb_bid_qty b)"

definition flat_ensure_range :: "flat_book \<Rightarrow> px \<Rightarrow> flat_book res" where
  "flat_ensure_range b price =
     (let p = ticks price in
      if \<not> fb_inited b then
        (let base = p - of_nat INIT_HALF_SPAN; len = 2 * INIT_HALF_SPAN + 1
         in Inr (b\<lparr>fb_base := base, fb_bid_qty := replicate len qty_zero,
                   fb_ask_qty := replicate len qty_zero, fb_inited := True\<rparr>))
      else
        (let old_len = of_nat (length (fb_bid_qty b)) :: i64;
             old_lo = fb_base b;
             old_hi = old_lo + old_len
         in if i64_le old_lo p \<and> i64_lt p old_hi then Inr b
            else
              (let margin = of_nat INIT_HALF_SPAN :: i64;
                   new_lo = i64_min old_lo (p - margin);
                   new_hi = i64_max old_hi (p + 1 + margin);
                   new_len = unat (new_hi - new_lo)
               in if \<not> new_len \<le> MAX_SPAN then Inl AssertionFailed
                  else
                    (let shift = unat (old_lo - new_lo);
                         olen = unat old_len
                     in res_bind (slice_copy (replicate new_len qty_zero) shift (shift + olen)
                                    (fb_bid_qty b)) (\<lambda>new_bid.
                        res_bind (slice_copy (replicate new_len qty_zero) shift (shift + olen)
                                    (fb_ask_qty b)) (\<lambda>new_ask.
                        Inr (b\<lparr>fb_bid_qty := new_bid, fb_ask_qty := new_ask, fb_base := new_lo,
                               fb_best_bid_idx := map_option (\<lambda>i. i + shift) (fb_best_bid_idx b),
                               fb_best_ask_idx := map_option (\<lambda>i. i + shift) (fb_best_ask_idx b)\<rparr>)))))))"

text \<open>
  The probes for the next best after a removal: \<open>(0..i).rev().find(..)\<close> downwards for bids and
  \<open>(i + 1..len).find(..)\<close> upwards for asks.
\<close>

definition probe_down :: "qty list \<Rightarrow> nat \<Rightarrow> nat option" where
  "probe_down qs i = List.find (\<lambda>j. \<not> is_zero (qs ! j)) (rev [0..<i])"

definition probe_up :: "qty list \<Rightarrow> nat \<Rightarrow> nat option" where
  "probe_up qs i = List.find (\<lambda>j. \<not> is_zero (qs ! j)) [i + 1..<length qs]"

definition flat_set_bid :: "flat_book \<Rightarrow> nat \<Rightarrow> qty \<Rightarrow> flat_book res" where
  "flat_set_bid b i q =
     res_bind (vec_get (fb_bid_qty b) i) (\<lambda>old.
     res_bind (vec_set (fb_bid_qty b) i q) (\<lambda>qs.
       let was_occupied = \<not> is_zero old; b1 = b\<lparr>fb_bid_qty := qs\<rparr>
       in if is_zero q then
            (if was_occupied then
               (let b2 = b1\<lparr>fb_bid_depth := fb_bid_depth b1 - 1\<rparr>
                in if fb_best_bid_idx b2 = Some i
                   then Inr (b2\<lparr>fb_best_bid_idx := probe_down qs i\<rparr>) else Inr b2)
             else Inr b1)
          else
            (let b2 = (if \<not> was_occupied then b1\<lparr>fb_bid_depth := fb_bid_depth b1 + 1\<rparr> else b1)
             in if (case fb_best_bid_idx b2 of None \<Rightarrow> True | Some best \<Rightarrow> best < i)
                then Inr (b2\<lparr>fb_best_bid_idx := Some i\<rparr>) else Inr b2)))"

definition flat_set_ask :: "flat_book \<Rightarrow> nat \<Rightarrow> qty \<Rightarrow> flat_book res" where
  "flat_set_ask b i q =
     res_bind (vec_get (fb_ask_qty b) i) (\<lambda>old.
     res_bind (vec_set (fb_ask_qty b) i q) (\<lambda>qs.
       let was_occupied = \<not> is_zero old; b1 = b\<lparr>fb_ask_qty := qs\<rparr>
       in if is_zero q then
            (if was_occupied then
               (let b2 = b1\<lparr>fb_ask_depth := fb_ask_depth b1 - 1\<rparr>
                in if fb_best_ask_idx b2 = Some i
                   then Inr (b2\<lparr>fb_best_ask_idx := probe_up qs i\<rparr>) else Inr b2)
             else Inr b1)
          else
            (let b2 = (if \<not> was_occupied then b1\<lparr>fb_ask_depth := fb_ask_depth b1 + 1\<rparr> else b1)
             in if (case fb_best_ask_idx b2 of None \<Rightarrow> True | Some best \<Rightarrow> i < best)
                then Inr (b2\<lparr>fb_best_ask_idx := Some i\<rparr>) else Inr b2)))"

definition flat_apply :: "flat_book \<Rightarrow> book_event \<Rightarrow> flat_book res" where
  "flat_apply b ev =
     (case ev_kind ev of
        Level \<Rightarrow>
          res_bind (flat_ensure_range b (ev_px ev)) (\<lambda>b1.
            let i = unat (ticks (ev_px ev) - fb_base b1)
            in case ev_side ev of
                 Bid \<Rightarrow> flat_set_bid b1 i (ev_qty ev)
               | Ask \<Rightarrow> flat_set_ask b1 i (ev_qty ev))
      | Trade \<Rightarrow> Inr (b\<lparr>fb_last := Some (ev_px ev, ev_qty ev, ev_side ev)\<rparr>)
      | Clear \<Rightarrow>
          Inr (b\<lparr>fb_bid_qty := replicate (length (fb_bid_qty b)) qty_zero,
                 fb_ask_qty := replicate (length (fb_ask_qty b)) qty_zero,
                 fb_best_bid_idx := None, fb_best_ask_idx := None,
                 fb_bid_depth := 0, fb_ask_depth := 0, fb_last := None\<rparr>))"

definition level_at :: "i64 \<Rightarrow> nat \<Rightarrow> qty \<Rightarrow> level" where
  "level_at base i q = (Px (base + of_nat i), q)"

definition flat_best_bid :: "flat_book \<Rightarrow> level option res" where
  "flat_best_bid b =
     (case fb_best_bid_idx b of
        None \<Rightarrow> Inr None
      | Some i \<Rightarrow> res_map (\<lambda>q. Some (level_at (fb_base b) i q)) (vec_get (fb_bid_qty b) i))"

definition flat_best_ask :: "flat_book \<Rightarrow> level option res" where
  "flat_best_ask b =
     (case fb_best_ask_idx b of
        None \<Rightarrow> Inr None
      | Some i \<Rightarrow> res_map (\<lambda>q. Some (level_at (fb_base b) i q)) (vec_get (fb_ask_qty b) i))"

text \<open>
  The two ladder walks of \<open>top_n\<close>. The bid walk counts a signed index down to \<open>-1\<close>; here its
  argument is that index plus one, so the walk ends at 0.
\<close>

fun walk_bids :: "i64 \<Rightarrow> qty list \<Rightarrow> nat \<Rightarrow> level list \<Rightarrow> nat \<Rightarrow> (nat \<times> level list) res" where
  "walk_bids base qs 0 out n = Inr (n, out)"
| "walk_bids base qs (Suc i) out n =
     (if n < length out then
        res_bind (vec_get qs i) (\<lambda>q.
          if \<not> is_zero q then
            res_bind (vec_set out n (level_at base i q)) (\<lambda>out'. walk_bids base qs i out' (n + 1))
          else walk_bids base qs i out n)
      else Inr (n, out))"

function walk_asks :: "i64 \<Rightarrow> qty list \<Rightarrow> nat \<Rightarrow> level list \<Rightarrow> nat \<Rightarrow> (nat \<times> level list) res" where
  "walk_asks base qs i out n =
     (if i < length qs \<and> n < length out then
        (if \<not> is_zero (qs ! i) then
           res_bind (vec_set out n (level_at base i (qs ! i)))
             (\<lambda>out'. walk_asks base qs (i + 1) out' (n + 1))
         else walk_asks base qs (i + 1) out n)
      else Inr (n, out))"
  by pat_completeness auto
termination
  by (relation "measure (\<lambda>(base, qs, i, out, n). length qs - i)") auto

declare walk_asks.simps [simp del]

fun flat_top_n :: "flat_book \<Rightarrow> side \<Rightarrow> level list \<Rightarrow> (nat \<times> level list) res" where
  "flat_top_n b Bid out =
     (case fb_best_bid_idx b of
        None \<Rightarrow> Inr (0, out)
      | Some best \<Rightarrow> walk_bids (fb_base b) (fb_bid_qty b) (Suc best) out 0)"
| "flat_top_n b Ask out =
     (case fb_best_ask_idx b of
        None \<Rightarrow> Inr (0, out)
      | Some best \<Rightarrow> walk_asks (fb_base b) (fb_ask_qty b) best out 0)"

fun flat_depth :: "flat_book \<Rightarrow> side \<Rightarrow> nat" where
  "flat_depth b Bid = fb_bid_depth b"
| "flat_depth b Ask = fb_ask_depth b"

definition flat_ops :: "flat_book order_book_ops" where
  "flat_ops =
     \<lparr>ob_default = flat_default, ob_apply = flat_apply, ob_best_bid = flat_best_bid,
      ob_best_ask = flat_best_ask, ob_top_n = flat_top_n, ob_depth = flat_depth,
      ob_last_trade = fb_last\<rparr>"

end
