(* ===== verification/Flat_Book_Refine.thy ===== *)
theory Flat_Book_Refine
  imports Flat_Book
begin

section \<open>\<open>FlatBook\<close> meets the order-book contract on a bounded band\<close>

text \<open>
  A side array denotes the ladder \<open>flat_side\<close>; its occupied indices form \<open>occ_set\<close>, of which the
  cached best is the maximum (bids) or minimum (asks) and the cached depth the cardinality. The
  window invariant keeps every index-to-tick conversion inside the signed range.
\<close>

definition flat_side :: "i64 \<Rightarrow> qty list \<Rightarrow> ladder" where
  "flat_side base qs =
     (\<lambda>p. let i = unat (ticks p - base)
          in if i < length qs \<and> qs ! i \<noteq> qty_zero then Some (qs ! i) else None)"

definition occ_set :: "qty list \<Rightarrow> nat set" where
  "occ_set qs = {i. i < length qs \<and> qs ! i \<noteq> qty_zero}"

definition in_window :: "i64 \<Rightarrow> nat \<Rightarrow> bool" where
  "in_window base len \<longleftrightarrow> sint base + int len < 2 ^ 63"

lemma finite_occ_set [simp]: "finite (occ_set qs)"
  by (simp add: occ_set_def)

lemma occ_set_update:
  "i < length qs \<Longrightarrow> occ_set (qs[i := q]) =
     (if q = qty_zero then occ_set qs - {i} else insert i (occ_set qs))"
  by (auto simp: occ_set_def nth_list_update split: if_splits)

lemma occ_set_replicate [simp]: "occ_set (replicate n qty_zero) = {}"
  by (auto simp: occ_set_def)

lemma mem_occ_set: "i < length qs \<Longrightarrow> i \<in> occ_set qs \<longleftrightarrow> qs ! i \<noteq> qty_zero"
  by (simp add: occ_set_def)

lemma in_window_length: "in_window base len \<Longrightarrow> len < 2 ^ 64"
  using sint_i64_bounds [of base] by (simp add: in_window_def)

lemma unat_of_nat_window: "in_window base len \<Longrightarrow> i < len \<Longrightarrow> unat (of_nat i :: i64) = i"
  using in_window_length [of base len] by (simp add: unat_of_nat)

lemma sint_window:
  "in_window base len \<Longrightarrow> i < len \<Longrightarrow> sint (base + of_nat i) = sint base + int i"
  by (rule sint_add_nat_i64) (simp add: in_window_def)

lemma flat_side_Some_iff:
  assumes "in_window base (length qs)"
  shows "flat_side base qs p = Some q \<longleftrightarrow>
    (\<exists>i \<in> occ_set qs. p = Px (base + of_nat i) \<and> q = qs ! i)"
proof
  assume "flat_side base qs p = Some q"
  then have "unat (ticks p - base) \<in> occ_set qs" "q = qs ! unat (ticks p - base)"
    by (auto simp: flat_side_def occ_set_def Let_def split: if_splits)
  moreover have "p = Px (base + of_nat (unat (ticks p - base)))"
    by (cases p) simp
  ultimately show "\<exists>i \<in> occ_set qs. p = Px (base + of_nat i) \<and> q = qs ! i" by blast
next
  assume "\<exists>i \<in> occ_set qs. p = Px (base + of_nat i) \<and> q = qs ! i"
  then show "flat_side base qs p = Some q"
    using unat_of_nat_window [OF assms] by (auto simp: flat_side_def occ_set_def Let_def)
qed

lemma flat_side_update:
  assumes "unat (ticks p - base) < length qs"
  shows "flat_side base (qs[unat (ticks p - base) := q]) = ladder_set (flat_side base qs) p q"
proof
  fix p'
  have "unat (ticks p' - base) = unat (ticks p - base) \<longleftrightarrow> p' = p"
    by (cases p; cases p') (auto dest!: unsigned_word_eqI)
  then show "flat_side base (qs[unat (ticks p - base) := q]) p' =
      ladder_set (flat_side base qs) p q p'"
    using assms by (auto simp: flat_side_def ladder_set_def Let_def nth_list_update)
qed

lemma flat_side_replicate: "flat_side base (replicate n qty_zero) = Map.empty"
  by (auto simp: flat_side_def Let_def fun_eq_iff)

subsection \<open>The occupied indices in order\<close>

definition flat_levels :: "i64 \<Rightarrow> qty list \<Rightarrow> nat list \<Rightarrow> level list" where
  "flat_levels base qs is = map (\<lambda>i. level_at base i (qs ! i)) is"

definition occupied :: "qty list \<Rightarrow> nat list" where
  "occupied qs = filter (\<lambda>i. qs ! i \<noteq> qty_zero) [0..<length qs]"

lemma set_occupied: "set (occupied qs) = occ_set qs"
  by (auto simp: occupied_def occ_set_def)

lemma occupied_sorted: "sorted_wrt (<) (occupied qs)"
  by (simp add: occupied_def sorted_wrt_filter)

lemma distinct_occupied: "distinct (occupied qs)"
  by (simp add: occupied_def)

lemma length_occupied: "length (occupied qs) = card (occ_set qs)"
  by (metis distinct_card distinct_occupied set_occupied)

lemma ladder_ok_flat_levels:
  assumes "in_window base (length qs)"
  shows "ladder_ok (flat_levels base qs (occupied qs))"
proof -
  have "sorted_wrt (\<lambda>i j. Px (base + of_nat i) < Px (base + of_nat j)) (occupied qs)"
    using occupied_sorted
  proof (rule sorted_wrt_mono_rel [rotated])
    fix i j assume "i \<in> set (occupied qs)" "j \<in> set (occupied qs)" "i < j"
    then show "Px (base + of_nat i) < Px (base + of_nat j)"
      by (simp add: set_occupied occ_set_def less_px_def sint_window [OF assms])
  qed
  then have "ascending (flat_levels base qs (occupied qs))"
    by (simp add: ascending_def flat_levels_def level_at_def sorted_wrt_map comp_def)
  then show ?thesis
    by (auto simp: ladder_ok_def flat_levels_def level_at_def set_occupied occ_set_def)
qed

lemma map_of_flat_levels:
  assumes "in_window base (length qs)"
  shows "map_of (flat_levels base qs (occupied qs)) = flat_side base qs"
proof
  fix p
  have asc: "ascending (flat_levels base qs (occupied qs))"
    using ladder_ok_flat_levels [OF assms] by (simp add: ladder_ok_def)
  have "map_of (flat_levels base qs (occupied qs)) p = Some q \<longleftrightarrow> flat_side base qs p = Some q"
    for q
    by (simp add: map_of_eq_Some_iff ascending_distinct [OF asc] flat_side_Some_iff [OF assms])
      (auto simp: flat_levels_def level_at_def set_occupied)
  then show "map_of (flat_levels base qs (occupied qs)) p = flat_side base qs p"
    by (metis not_None_eq)
qed

subsection \<open>The probes\<close>

lemma find_rev_upt:
  "List.find P (rev [0..<i]) =
     (if {j. j < i \<and> P j} = {} then None else Some (Max {j. j < i \<and> P j}))"
proof (induction i)
  case (Suc i)
  have split: "{j. j < Suc i \<and> P j} = (if P i then insert i {j. j < i \<and> P j} else {j. j < i \<and> P j})"
    by (auto simp: less_Suc_eq)
  have "P i \<Longrightarrow> Max (insert i {j. j < i \<and> P j}) = i"
    by (intro Max_eqI) auto
  with Suc show ?case unfolding split by auto
qed simp

lemma find_upt:
  "List.find P [a..<b] =
     (if {j. a \<le> j \<and> j < b \<and> P j} = {} then None else Some (Min {j. a \<le> j \<and> j < b \<and> P j}))"
proof (induction "b - a" arbitrary: a)
  case 0
  then show ?case by auto
next
  case (Suc d)
  then have "a < b" by simp
  have split: "{j. a \<le> j \<and> j < b \<and> P j} =
      (if P a then insert a {j. Suc a \<le> j \<and> j < b \<and> P j} else {j. Suc a \<le> j \<and> j < b \<and> P j})"
    using \<open>a < b\<close> by (auto simp: Suc_le_eq order_le_less)
  have "P a \<Longrightarrow> Min (insert a {j. Suc a \<le> j \<and> j < b \<and> P j}) = a"
    by (intro Min_eqI) auto
  moreover have "List.find P [a..<b] = (if P a then Some a else List.find P [Suc a..<b])"
    using \<open>a < b\<close> by (simp add: upt_conv_Cons)
  ultimately show ?case
    using Suc(1) [of "Suc a"] Suc(2) unfolding split by auto
qed

text \<open>\<open>Some\<close> of the extreme element of a finite set, or \<open>None\<close>: what the cached bests hold.\<close>

definition max_opt :: "nat set \<Rightarrow> nat option" where
  "max_opt A = (if A = {} then None else Some (Max A))"

definition min_opt :: "nat set \<Rightarrow> nat option" where
  "min_opt A = (if A = {} then None else Some (Min A))"

lemma max_opt_insert:
  "finite A \<Longrightarrow> max_opt (insert i A) =
     (case max_opt A of None \<Rightarrow> Some i | Some b \<Rightarrow> Some (if b < i then i else b))"
  by (cases "A = {}") (simp_all add: max_opt_def max_def not_less order.order_iff_strict
      del: Max_ge_iff Max_gr_iff Max_less_iff Max_le_iff)

lemma min_opt_insert:
  "finite A \<Longrightarrow> min_opt (insert i A) =
     (case min_opt A of None \<Rightarrow> Some i | Some b \<Rightarrow> Some (if i < b then i else b))"
  by (cases "A = {}") (simp_all add: min_opt_def min_def not_less order.order_iff_strict
      del: Min_ge_iff Min_gr_iff Min_less_iff Min_le_iff)

lemma max_opt_remove_other:
  "finite A \<Longrightarrow> max_opt A \<noteq> Some i \<Longrightarrow> max_opt (A - {i}) = max_opt A"
  by (auto simp: max_opt_def intro!: Max_eqI split: if_splits)
    (metis Max_in singletonD subsetI subset_singletonD empty_iff)+

lemma min_opt_remove_other:
  "finite A \<Longrightarrow> min_opt A \<noteq> Some i \<Longrightarrow> min_opt (A - {i}) = min_opt A"
  by (auto simp: min_opt_def intro!: Min_eqI split: if_splits)
    (metis Min_in singletonD subsetI subset_singletonD empty_iff)+

lemma probe_down_eq:
  assumes "i < length qs" and "qs ! i = qty_zero" and "\<forall>j \<in> occ_set qs. j \<le> i"
  shows "probe_down qs i = max_opt (occ_set qs)"
proof -
  have "{j. j < i \<and> \<not> is_zero (qs ! j)} = occ_set qs"
    using assms by (auto simp: occ_set_def order_le_less)
  then show ?thesis by (simp only: probe_down_def find_rev_upt max_opt_def)
qed

lemma probe_up_eq:
  assumes "i < length qs" and "qs ! i = qty_zero" and "\<forall>j \<in> occ_set qs. i \<le> j"
  shows "probe_up qs i = min_opt (occ_set qs)"
proof -
  have "{j. i + 1 \<le> j \<and> j < length qs \<and> \<not> is_zero (qs ! j)} = occ_set qs"
    using assms by (auto simp: occ_set_def Suc_le_eq order_le_less)
  then show ?thesis by (simp only: probe_up_def find_upt min_opt_def)
qed

subsection \<open>The invariant and one level update\<close>

definition bids_cached :: "flat_book \<Rightarrow> bool" where
  "bids_cached b \<longleftrightarrow> fb_best_bid_idx b = max_opt (occ_set (fb_bid_qty b))
     \<and> fb_bid_depth b = card (occ_set (fb_bid_qty b))"

definition asks_cached :: "flat_book \<Rightarrow> bool" where
  "asks_cached b \<longleftrightarrow> fb_best_ask_idx b = min_opt (occ_set (fb_ask_qty b))
     \<and> fb_ask_depth b = card (occ_set (fb_ask_qty b))"

definition flat_abs :: "flat_book \<Rightarrow> spec_book" where
  "flat_abs b =
     \<lparr>sp_bids = flat_side (fb_base b) (fb_bid_qty b), sp_asks = flat_side (fb_base b) (fb_ask_qty b),
      sp_last = fb_last b\<rparr>"

lemma flat_set_bid_ok:
  assumes "i < length (fb_bid_qty b)" and "bids_cached b"
  shows "\<exists>best depth. flat_set_bid b i q =
      Inr (b\<lparr>fb_bid_qty := (fb_bid_qty b)[i := q], fb_best_bid_idx := best, fb_bid_depth := depth\<rparr>)
    \<and> best = max_opt (occ_set ((fb_bid_qty b)[i := q]))
    \<and> depth = card (occ_set ((fb_bid_qty b)[i := q]))"
proof -
  let ?qs = "fb_bid_qty b" and ?A = "occ_set (fb_bid_qty b)"
  note upd = occ_set_update [OF assms(1), of q] and mem = mem_occ_set [OF assms(1)]
  show ?thesis
  proof (cases "q = qty_zero")
    case True
    show ?thesis
    proof (cases "i \<in> ?A")
      case False
      with True upd mem assms show ?thesis
        by (auto simp: flat_set_bid_def vec_simps bids_cached_def Let_def)
    next
      case occ: True
      show ?thesis
      proof (cases "max_opt ?A = Some i")
        case best: True
        then have "\<forall>j \<in> ?A. j \<le> i" using occ by (auto simp: max_opt_def split: if_splits)
        then have "probe_down (?qs[i := q]) i = max_opt (occ_set (?qs[i := q]))"
          using assms(1) True upd by (intro probe_down_eq) auto
        with best True occ upd mem assms show ?thesis
          by (auto simp: flat_set_bid_def vec_simps bids_cached_def Let_def)
      next
        case False
        with True occ upd mem assms max_opt_remove_other [of ?A i] show ?thesis
          by (auto simp: flat_set_bid_def vec_simps bids_cached_def Let_def)
      qed
    qed
  next
    case False
    with upd mem assms max_opt_insert [of ?A i] show ?thesis
      by (auto simp: flat_set_bid_def vec_simps bids_cached_def Let_def insert_absorb
          card_insert_if split: option.splits)
  qed
qed

lemma flat_set_ask_ok:
  assumes "i < length (fb_ask_qty b)" and "asks_cached b"
  shows "\<exists>best depth. flat_set_ask b i q =
      Inr (b\<lparr>fb_ask_qty := (fb_ask_qty b)[i := q], fb_best_ask_idx := best, fb_ask_depth := depth\<rparr>)
    \<and> best = min_opt (occ_set ((fb_ask_qty b)[i := q]))
    \<and> depth = card (occ_set ((fb_ask_qty b)[i := q]))"
proof -
  let ?qs = "fb_ask_qty b" and ?A = "occ_set (fb_ask_qty b)"
  note upd = occ_set_update [OF assms(1), of q] and mem = mem_occ_set [OF assms(1)]
  show ?thesis
  proof (cases "q = qty_zero")
    case True
    show ?thesis
    proof (cases "i \<in> ?A")
      case False
      with True upd mem assms show ?thesis
        by (auto simp: flat_set_ask_def vec_simps asks_cached_def Let_def)
    next
      case occ: True
      show ?thesis
      proof (cases "min_opt ?A = Some i")
        case best: True
        then have "\<forall>j \<in> ?A. i \<le> j" using occ by (auto simp: min_opt_def split: if_splits)
        then have "probe_up (?qs[i := q]) i = min_opt (occ_set (?qs[i := q]))"
          using assms(1) True upd by (intro probe_up_eq) auto
        with best True occ upd mem assms show ?thesis
          by (auto simp: flat_set_ask_def vec_simps asks_cached_def Let_def)
      next
        case False
        with True occ upd mem assms min_opt_remove_other [of ?A i] show ?thesis
          by (auto simp: flat_set_ask_def vec_simps asks_cached_def Let_def)
      qed
    qed
  next
    case False
    with upd mem assms min_opt_insert [of ?A i] show ?thesis
      by (auto simp: flat_set_ask_def vec_simps asks_cached_def Let_def insert_absorb
          card_insert_if split: option.splits)
  qed
qed

subsection \<open>Covering a price\<close>

text \<open>
  \<open>band_ok lo hi\<close>: the band with one margin on each side lies inside the signed range and is at
  most \<open>MAX_SPAN\<close> wide. Under the invariant the window never leaves that widened band, so the
  regrow assertion holds and no tick computation wraps.
\<close>

definition band_ok :: "int \<Rightarrow> int \<Rightarrow> bool" where
  "band_ok lo hi \<longleftrightarrow> - (2 ^ 63) \<le> lo - 4096 \<and> hi + 4096 < 2 ^ 63 \<and> hi - lo + 8192 \<le> int MAX_SPAN"

definition in_band :: "int \<Rightarrow> int \<Rightarrow> px \<Rightarrow> bool" where
  "in_band lo hi p \<longleftrightarrow> lo \<le> sint (ticks p) \<and> sint (ticks p) < hi"

definition flat_adm :: "int \<Rightarrow> int \<Rightarrow> book_event \<Rightarrow> bool" where
  "flat_adm lo hi ev \<longleftrightarrow> band_ok lo hi \<and> (ev_kind ev = Level \<longrightarrow> in_band lo hi (ev_px ev))"

definition flat_inv :: "int \<Rightarrow> int \<Rightarrow> flat_book \<Rightarrow> bool" where
  "flat_inv lo hi b \<longleftrightarrow>
     length (fb_ask_qty b) = length (fb_bid_qty b)
     \<and> in_window (fb_base b) (length (fb_bid_qty b))
     \<and> (if fb_inited b
        then lo - 4096 \<le> sint (fb_base b)
          \<and> sint (fb_base b) + int (length (fb_bid_qty b)) \<le> hi + 4096
        else fb_bid_qty b = [])
     \<and> bids_cached b \<and> asks_cached b"

lemma slice_copy_zeros:
  assumes "lo + length src \<le> n"
  shows "slice_copy (replicate n z) lo (lo + length src) src =
    Inr (replicate lo z @ src @ replicate (n - (lo + length src)) z)"
  using assms by (simp add: vec_simps)

lemma nth_zero_pad:
  "j < length (replicate a qty_zero @ qs @ replicate c qty_zero) \<Longrightarrow>
   (replicate a qty_zero @ qs @ replicate c qty_zero) ! j \<noteq> qty_zero \<longleftrightarrow>
   a \<le> j \<and> j - a < length qs \<and> qs ! (j - a) \<noteq> qty_zero"
  by (auto simp: nth_append)

lemma occ_set_pad:
  "occ_set (replicate a qty_zero @ qs @ replicate c qty_zero) = (\<lambda>i. i + a) ` occ_set qs"
proof (intro set_eqI iffI)
  fix j assume "j \<in> occ_set (replicate a qty_zero @ qs @ replicate c qty_zero)"
  then have "a \<le> j" "j - a \<in> occ_set qs"
    using nth_zero_pad [of j a qs c] by (auto simp: occ_set_def)
  then show "j \<in> (\<lambda>i. i + a) ` occ_set qs" by (intro image_eqI [of _ _ "j - a"]) auto
qed (auto simp: occ_set_def nth_append)

lemma flat_side_pad:
  assumes "in_window lo (a + length qs + c)" and "in_window (lo + of_nat a) (length qs)"
  shows "flat_side lo (replicate a qty_zero @ qs @ replicate c qty_zero) =
    flat_side (lo + of_nat a) qs"
proof
  fix p
  let ?qs = "replicate a qty_zero @ qs @ replicate c qty_zero"
  have win: "in_window lo (length ?qs)" using assms(1) by (simp add: add.assoc)
  have "flat_side lo ?qs p = Some q \<longleftrightarrow> flat_side (lo + of_nat a) qs p = Some q" for q
    unfolding flat_side_Some_iff [OF win] flat_side_Some_iff [OF assms(2)] occ_set_pad
    by (auto simp: occ_set_def nth_append algebra_simps)
  then show "flat_side lo ?qs p = flat_side (lo + of_nat a) qs p"
    by (metis not_None_eq)
qed

lemma max_opt_shift: "finite A \<Longrightarrow> max_opt ((\<lambda>i. i + a) ` A) = map_option (\<lambda>i. i + a) (max_opt A)"
  using mono_Max_commute [of "\<lambda>i. i + a" A] by (auto simp: max_opt_def mono_def)

lemma min_opt_shift: "finite A \<Longrightarrow> min_opt ((\<lambda>i. i + a) ` A) = map_option (\<lambda>i. i + a) (min_opt A)"
  using mono_Min_commute [of "\<lambda>i. i + a" A] by (auto simp: min_opt_def mono_def)

lemma card_shift: "card ((\<lambda>i. i + (a :: nat)) ` A) = card A"
  by (rule card_image) (simp add: inj_on_def)

text \<open>The first price: two fresh arrays around it.\<close>

lemma ensure_range_init:
  assumes "band_ok lo hi" and "in_band lo hi p" and "flat_inv lo hi b" and "\<not> fb_inited b"
  shows "\<exists>b'. flat_ensure_range b p = Inr b' \<and> flat_inv lo hi b' \<and> flat_abs b' = flat_abs b
    \<and> unat (ticks p - fb_base b') < length (fb_bid_qty b')"
proof -
  have base: "sint (ticks p - 4096) = sint (ticks p) - 4096"
    using assms(1,2) sint_add_i64 [of "ticks p" "- 4096"] by (simp add: band_ok_def in_band_def)
  have empty: "fb_bid_qty b = []" "fb_ask_qty b = []"
    using assms(3,4) by (auto simp: flat_inv_def)
  then have "flat_side (fb_base b) [] = Map.empty" by (simp add: flat_side_def)
  then show ?thesis
    using assms empty base
    by (auto simp: flat_ensure_range_def INIT_HALF_SPAN_def Let_def flat_inv_def in_window_def
        band_ok_def in_band_def bids_cached_def asks_cached_def flat_abs_def flat_side_replicate
        occ_set_replicate)
      (simp_all add: occ_set_def max_opt_def min_opt_def)
qed

text \<open>A price outside the window: the window grows to the union, and every cached index moves.\<close>

lemma ensure_range_grow:
  assumes "band_ok lo hi" and "in_band lo hi p" and "flat_inv lo hi b" and "fb_inited b"
    and "\<not> (sint (fb_base b) \<le> sint (ticks p)
      \<and> sint (ticks p) < sint (fb_base b) + int (length (fb_bid_qty b)))"
  shows "\<exists>b'. flat_ensure_range b p = Inr b' \<and> flat_inv lo hi b' \<and> flat_abs b' = flat_abs b
    \<and> unat (ticks p - fb_base b') < length (fb_bid_qty b')"
proof -
  let ?len = "length (fb_bid_qty b)" and ?base = "fb_base b" and ?p = "ticks p"
  have win: "in_window ?base ?len" and lens: "length (fb_ask_qty b) = ?len"
    and lo: "lo - 4096 \<le> sint ?base" and hi: "sint ?base + int ?len \<le> hi + 4096"
    using assms(3,4) by (auto simp: flat_inv_def)
  have band: "- (2 ^ 63) \<le> lo - 4096" "hi + 4096 < 2 ^ 63" "hi - lo + 8192 \<le> int MAX_SPAN"
      "lo \<le> sint ?p" "sint ?p < hi"
    using assms(1,2) by (auto simp: band_ok_def in_band_def)
  have old_hi: "sint (?base + of_nat ?len) = sint ?base + int ?len"
    using win by (intro sint_add_nat_i64) (simp add: in_window_def)
  have below: "sint (?p - 4096) = sint ?p - 4096" and above: "sint (4097 + ?p) = sint ?p + 4097"
    using band sint_add_i64 [of ?p "- 4096"] sint_add_i64 [of ?p 4097] by (simp_all add: add.commute)
  define new_lo where "new_lo = i64_min ?base (?p - 4096)"
  define new_hi where "new_hi = i64_max (?base + of_nat ?len) (4097 + ?p)"
  have new_lo: "sint new_lo = min (sint ?base) (sint ?p - 4096)"
    by (simp only: new_lo_def sint_i64_min below)
  have new_hi: "sint new_hi = max (sint ?base + int ?len) (sint ?p + 4097)"
    by (simp only: new_hi_def sint_i64_max old_hi above)
  define n where "n = unat (new_hi - new_lo)"
  define shift where "shift = unat (?base - new_lo)"
  have n: "int n = sint new_hi - sint new_lo"
    unfolding n_def using new_lo new_hi by (intro unat_diff_i64) simp
  have shift: "int shift = sint ?base - sint new_lo"
    unfolding shift_def using new_lo by (intro unat_diff_i64) simp
  have cap: "n \<le> MAX_SPAN"
    using n new_lo new_hi band lo hi by (simp add: min_def max_def split: if_splits)
  have fits: "shift + ?len \<le> n" using n shift new_lo new_hi by simp
  define c where "c = n - (shift + ?len)"
  have ns: "n = shift + ?len + c" using fits by (simp add: c_def)
  have base_eq: "?base = new_lo + of_nat shift" by (simp add: shift_def)
  have wide: "in_window new_lo n"
    using n new_hi hi band by (simp add: in_window_def)
  have olen: "unat (of_nat ?len :: i64) = ?len"
    using in_window_length [OF win] by (simp add: unat_of_nat)
  define grow where "grow qs = replicate shift qty_zero @ qs @ replicate c qty_zero" for qs
  have copy: "slice_copy (replicate n qty_zero) shift (shift + ?len) qs = Inr (grow qs)"
    if "length qs = ?len" for qs
    using slice_copy_zeros [of shift qs n qty_zero] fits that by (simp add: grow_def c_def)
  define b' where "b' = b\<lparr>fb_bid_qty := grow (fb_bid_qty b), fb_ask_qty := grow (fb_ask_qty b),
      fb_base := new_lo, fb_best_bid_idx := map_option (\<lambda>i. i + shift) (fb_best_bid_idx b),
      fb_best_ask_idx := map_option (\<lambda>i. i + shift) (fb_best_ask_idx b)\<rparr>"
  have run: "flat_ensure_range b p = Inr b'"
    using assms(4,5) cap copy [of "fb_bid_qty b"] copy [of "fb_ask_qty b"] lens
    by (auto simp: flat_ensure_range_def Let_def i64_le_def i64_lt_def old_hi INIT_HALF_SPAN_def
        olen b'_def simp flip: new_lo_def new_hi_def n_def shift_def)
  have abs: "flat_abs b' = flat_abs b"
    using flat_side_pad [of new_lo shift "fb_bid_qty b" c]
      flat_side_pad [of new_lo shift "fb_ask_qty b" c] wide win lens
    by (simp add: flat_abs_def b'_def grow_def ns flip: base_eq)
  have inv: "flat_inv lo hi b'"
    using assms(3,4) wide new_lo new_hi n lo hi band lens
    by (auto simp: flat_inv_def b'_def grow_def bids_cached_def asks_cached_def occ_set_pad
        max_opt_shift min_opt_shift card_shift ns add.assoc)
  have "sint new_lo \<le> sint ?p" "sint ?p < sint new_hi" using new_lo new_hi by simp_all
  then have "int (unat (?p - new_lo)) < int n"
    using n unat_diff_i64 [of new_lo ?p] by linarith
  then have "unat (?p - new_lo) < n" by linarith
  then have "unat (?p - fb_base b') < length (fb_bid_qty b')"
    by (simp add: b'_def grow_def ns add.assoc)
  with run inv abs show ?thesis by blast
qed

lemma ensure_range_ok:
  assumes "band_ok lo hi" and "in_band lo hi p" and "flat_inv lo hi b"
  shows "\<exists>b'. flat_ensure_range b p = Inr b' \<and> flat_inv lo hi b' \<and> flat_abs b' = flat_abs b
    \<and> unat (ticks p - fb_base b') < length (fb_bid_qty b')"
proof (cases "fb_inited b \<and> sint (fb_base b) \<le> sint (ticks p)
    \<and> sint (ticks p) < sint (fb_base b) + int (length (fb_bid_qty b))")
  case True
  then have old_hi: "sint (fb_base b + of_nat (length (fb_bid_qty b))) =
      sint (fb_base b) + int (length (fb_bid_qty b))"
    using assms(3) by (intro sint_add_nat_i64) (simp add: flat_inv_def in_window_def)
  have "unat (ticks p - fb_base b) < length (fb_bid_qty b)"
    using True unat_diff_i64 [of "fb_base b" "ticks p"] by linarith
  with True old_hi assms(3) show ?thesis
    by (simp add: flat_ensure_range_def Let_def i64_le_def i64_lt_def)
next
  case False
  with assms ensure_range_init [OF assms] ensure_range_grow [OF assms] show ?thesis by blast
qed

subsection \<open>The contract\<close>

text \<open>A level update, once its price is in the window.\<close>

lemma flat_level_after:
  assumes run: "flat_ensure_range b (ev_px ev) = Inr b1" and inv: "flat_inv lo hi b1"
    and abs: "flat_abs b1 = flat_abs b"
    and idx: "unat (ticks (ev_px ev) - fb_base b1) < length (fb_bid_qty b1)" and kind: "ev_kind ev = Level"
  shows "\<exists>b'. flat_apply b ev = Inr b' \<and> flat_inv lo hi b' \<and> flat_abs b' = spec_apply (flat_abs b) ev
    \<and> fb_inited b' = fb_inited b1 \<and> fb_base b' = fb_base b1
    \<and> length (fb_bid_qty b') = length (fb_bid_qty b1)"
proof (cases "ev_side ev")
  case Bid
  let ?i = "unat (ticks (ev_px ev) - fb_base b1)"
  have "bids_cached b1" using inv by (simp add: flat_inv_def)
  from flat_set_bid_ok [OF idx this, of "ev_qty ev"] obtain best depth where set:
    "flat_set_bid b1 ?i (ev_qty ev) = Inr (b1\<lparr>fb_bid_qty := (fb_bid_qty b1)[?i := ev_qty ev],
        fb_best_bid_idx := best, fb_bid_depth := depth\<rparr>)"
    "best = max_opt (occ_set ((fb_bid_qty b1)[?i := ev_qty ev]))"
    "depth = card (occ_set ((fb_bid_qty b1)[?i := ev_qty ev]))" by blast
  have "spec_apply (flat_abs b1) ev = (flat_abs b1)
      \<lparr>sp_bids := ladder_set (sp_bids (flat_abs b1)) (ev_px ev) (ev_qty ev)\<rparr>"
    by (simp add: spec_apply_def kind Bid)
  then show ?thesis
    using run inv abs set kind Bid flat_side_update [OF idx, of "ev_qty ev"]
    by (auto simp: flat_apply_def flat_inv_def flat_abs_def bids_cached_def asks_cached_def)
next
  case Ask
  let ?i = "unat (ticks (ev_px ev) - fb_base b1)"
  have idx': "?i < length (fb_ask_qty b1)" and "asks_cached b1" using inv idx by (simp_all add: flat_inv_def)
  from flat_set_ask_ok [OF this, of "ev_qty ev"] obtain best depth where set:
    "flat_set_ask b1 ?i (ev_qty ev) = Inr (b1\<lparr>fb_ask_qty := (fb_ask_qty b1)[?i := ev_qty ev],
        fb_best_ask_idx := best, fb_ask_depth := depth\<rparr>)"
    "best = min_opt (occ_set ((fb_ask_qty b1)[?i := ev_qty ev]))"
    "depth = card (occ_set ((fb_ask_qty b1)[?i := ev_qty ev]))" by blast
  have "spec_apply (flat_abs b1) ev = (flat_abs b1)
      \<lparr>sp_asks := ladder_set (sp_asks (flat_abs b1)) (ev_px ev) (ev_qty ev)\<rparr>"
    by (simp add: spec_apply_def kind Ask)
  then show ?thesis
    using run inv abs set kind Ask flat_side_update [OF idx', of "ev_qty ev"]
    by (auto simp: flat_apply_def flat_inv_def flat_abs_def bids_cached_def asks_cached_def)
qed

lemma flat_apply_refines:
  assumes "flat_inv lo hi b" and "flat_adm lo hi ev"
  shows "\<exists>b'. flat_apply b ev = Inr b' \<and> flat_inv lo hi b'
    \<and> flat_abs b' = spec_apply (flat_abs b) ev"
proof (cases "ev_kind ev")
  case Level
  then obtain b1 where b1: "flat_ensure_range b (ev_px ev) = Inr b1" "flat_inv lo hi b1"
      "flat_abs b1 = flat_abs b" "unat (ticks (ev_px ev) - fb_base b1) < length (fb_bid_qty b1)"
    using ensure_range_ok [OF _ _ assms(1)] assms(2) by (auto simp: flat_adm_def)
  from flat_level_after [OF b1 Level] show ?thesis by blast
next
  case Trade
  with assms(1) show ?thesis
    by (simp add: flat_apply_def flat_inv_def flat_abs_def bids_cached_def asks_cached_def
        spec_apply_def)
next
  case Clear
  with assms(1) show ?thesis
    by (auto simp: flat_apply_def flat_inv_def flat_abs_def bids_cached_def asks_cached_def
        spec_apply_def spec_empty_def flat_side_replicate max_opt_def min_opt_def)
qed

lemma flat_ladder:
  assumes "flat_inv lo hi b"
  shows "ladder_ok (flat_levels (fb_base b) (fb_bid_qty b) (occupied (fb_bid_qty b)))"
    and "ladder_ok (flat_levels (fb_base b) (fb_ask_qty b) (occupied (fb_ask_qty b)))"
    and "sp_bids (flat_abs b) =
      map_of (flat_levels (fb_base b) (fb_bid_qty b) (occupied (fb_bid_qty b)))"
    and "sp_asks (flat_abs b) =
      map_of (flat_levels (fb_base b) (fb_ask_qty b) (occupied (fb_ask_qty b)))"
  using assms ladder_ok_flat_levels map_of_flat_levels
  by (simp_all add: flat_inv_def flat_abs_def)

lemma last_strict_sorted: "sorted_wrt (<) xs \<Longrightarrow> xs \<noteq> [] \<Longrightarrow> last xs = Max (set (xs :: nat list))"
  by (metis last_sorted_list_of_set finite_set set_empty sorted_list_of_set.idem_if_sorted_distinct
      strict_sorted_iff)

lemma hd_strict_sorted: "sorted_wrt (<) xs \<Longrightarrow> xs \<noteq> [] \<Longrightarrow> hd xs = Min (set (xs :: nat list))"
  by (cases xs) (auto intro!: Min_insert2 [symmetric])

lemma cached_best_bid:
  "bids_cached b \<Longrightarrow> fb_best_bid_idx b =
     (if occupied (fb_bid_qty b) = [] then None else Some (last (occupied (fb_bid_qty b))))"
  using last_strict_sorted [OF occupied_sorted, of "fb_bid_qty b"] set_occupied [of "fb_bid_qty b"]
  by (auto simp: bids_cached_def max_opt_def)

lemma cached_best_ask:
  "asks_cached b \<Longrightarrow> fb_best_ask_idx b =
     (if occupied (fb_ask_qty b) = [] then None else Some (hd (occupied (fb_ask_qty b))))"
  using hd_strict_sorted [OF occupied_sorted, of "fb_ask_qty b"] set_occupied [of "fb_ask_qty b"]
  by (auto simp: asks_cached_def min_opt_def)

lemma flat_best_bid_ok:
  assumes "flat_inv lo hi b"
  shows "flat_best_bid b = Inr (spec_best_bid (flat_abs b))"
proof -
  let ?is = "occupied (fb_bid_qty b)"
  have "?is \<noteq> [] \<Longrightarrow> last ?is < length (fb_bid_qty b)"
    using last_in_set [of ?is] by (simp add: set_occupied occ_set_def)
  then show ?thesis
    using best_bid_of_ladder [OF flat_ladder(1,3) [OF assms]] cached_best_bid [of b] assms
    by (auto simp: flat_best_bid_def flat_inv_def flat_levels_def last_map vec_simps)
qed

lemma flat_best_ask_ok:
  assumes "flat_inv lo hi b"
  shows "flat_best_ask b = Inr (spec_best_ask (flat_abs b))"
proof -
  let ?is = "occupied (fb_ask_qty b)"
  have "?is \<noteq> [] \<Longrightarrow> hd ?is < length (fb_ask_qty b)"
    using hd_in_set [of ?is] by (simp add: set_occupied occ_set_def)
  then show ?thesis
    using best_ask_of_ladder [OF flat_ladder(2,4) [OF assms]] cached_best_ask [of b] assms
    by (auto simp: flat_best_ask_def flat_inv_def flat_levels_def hd_map vec_simps)
qed

subsection \<open>The ladder walks\<close>

text \<open>Filling the buffer from slot \<open>n\<close> on; \<open>fill_prefix\<close> is the case \<open>n = 0\<close>.\<close>

definition fill_from :: "nat \<Rightarrow> level list \<Rightarrow> level list \<Rightarrow> nat \<times> level list" where
  "fill_from n src out =
     (let ls = take (length out - n) src
      in (n + length ls, take n out @ ls @ drop (n + length ls) out))"

lemma fill_from_0: "fill_from 0 src out = fill_prefix src out"
  by (simp add: fill_from_def fill_prefix_def)

lemma fill_from_full: "length out \<le> n \<Longrightarrow> n \<le> length out \<Longrightarrow> fill_from n src out = (n, out)"
  by (simp add: fill_from_def)

lemma fill_from_Nil: "n \<le> length out \<Longrightarrow> fill_from n [] out = (n, out)"
  by (simp add: fill_from_def)

lemma fill_from_Cons:
  assumes "n < length out"
  shows "fill_from (Suc n) src (out[n := l]) = fill_from n (l # src) out"
proof -
  have "take (length out - n) (l # src) = l # take (length out - Suc n) src"
    using assms by (simp add: Suc_diff_Suc flip: Suc_diff_Suc)
  with assms show ?thesis
    by (simp add: fill_from_def Let_def take_Suc_conv_app_nth)
qed

lemma walk_bids_eq:
  assumes "k \<le> length qs" and "n \<le> length out"
  shows "walk_bids base qs k out n =
    Inr (fill_from n (flat_levels base qs (rev (filter (\<lambda>i. qs ! i \<noteq> qty_zero) [0..<k]))) out)"
  using assms
proof (induction k arbitrary: out n)
  case 0
  then show ?case by (simp add: fill_from_Nil flat_levels_def)
next
  case (Suc k)
  show ?case
  proof (cases "n < length out")
    case True
    with Suc show ?thesis
      by (simp add: vec_simps flat_levels_def fill_from_Cons)
  next
    case False
    with Suc.prems show ?thesis by (simp add: fill_from_full)
  qed
qed

lemma walk_asks_eq:
  assumes "n \<le> length out"
  shows "walk_asks base qs i out n =
    Inr (fill_from n (flat_levels base qs (filter (\<lambda>j. qs ! j \<noteq> qty_zero) [i..<length qs])) out)"
  using assms
proof (induction base qs i out n rule: walk_asks.induct)
  case (1 base qs i out n)
  show ?case
  proof (cases "i < length qs \<and> n < length out")
    case True
    then have upt: "[i..<length qs] = i # [Suc i..<length qs]" by (simp add: upt_conv_Cons)
    show ?thesis
    proof (cases "qs ! i = qty_zero")
      case zero: True
      with "1.IH"(2) [OF True] "1.prems" True show ?thesis
        by (subst walk_asks.simps) (simp add: upt)
    next
      case False
      with "1.IH"(1) [OF True, of "out[n := level_at base i (qs ! i)]"] True show ?thesis
        by (subst walk_asks.simps) (simp add: upt vec_simps flat_levels_def fill_from_Cons)
    qed
  next
    case False
    with "1.prems" show ?thesis
      by (subst walk_asks.simps) (auto simp: fill_from_full fill_from_Nil flat_levels_def not_less)
  qed
qed

lemma filter_up_to_last:
  assumes "occupied qs \<noteq> []"
  shows "filter (\<lambda>i. qs ! i \<noteq> qty_zero) [0..<Suc (last (occupied qs))] = occupied qs"
proof -
  let ?m = "last (occupied qs)"
  have m: "?m < length qs" "\<forall>j \<in> occ_set qs. j \<le> ?m"
    using assms last_in_set [of "occupied qs"] last_strict_sorted [OF occupied_sorted assms]
    by (auto simp: set_occupied occ_set_def)
  then have "Suc ?m + (length qs - Suc ?m) = length qs" by simp
  then have "[0..<length qs] = [0..<Suc ?m] @ [Suc ?m..<length qs]"
    using upt_add_eq_append [of 0 "Suc ?m" "length qs - Suc ?m"] by (simp only:)
  moreover have "filter (\<lambda>i. qs ! i \<noteq> qty_zero) [Suc ?m..<length qs] = []"
    using m(2) by (auto simp: filter_empty_conv occ_set_def)
  ultimately have "filter (\<lambda>i. qs ! i \<noteq> qty_zero) [0..<length qs] =
      filter (\<lambda>i. qs ! i \<noteq> qty_zero) [0..<Suc ?m]" by (simp del: upt_Suc)
  then show ?thesis by (simp only: occupied_def)
qed

lemma filter_from_hd:
  assumes "occupied qs \<noteq> []"
  shows "filter (\<lambda>i. qs ! i \<noteq> qty_zero) [hd (occupied qs)..<length qs] = occupied qs"
proof -
  let ?m = "hd (occupied qs)"
  have m: "?m < length qs" "\<forall>j \<in> occ_set qs. ?m \<le> j"
    using assms hd_in_set [of "occupied qs"] hd_strict_sorted [OF occupied_sorted assms]
    by (auto simp: set_occupied occ_set_def)
  then have "[0..<length qs] = [0..<?m] @ [?m..<length qs]"
    using upt_add_eq_append [of 0 ?m "length qs - ?m"] by simp
  moreover have "\<forall>i < ?m. qs ! i = qty_zero"
  proof (intro allI impI)
    fix i assume "i < ?m"
    with m(2) have "i \<notin> occ_set qs" by auto
    with \<open>i < ?m\<close> m(1) show "qs ! i = qty_zero" by (simp add: occ_set_def)
  qed
  then have "filter (\<lambda>i. qs ! i \<noteq> qty_zero) [0..<?m] = []"
    by (simp add: filter_empty_conv)
  ultimately have "filter (\<lambda>i. qs ! i \<noteq> qty_zero) [0..<length qs] =
      filter (\<lambda>i. qs ! i \<noteq> qty_zero) [?m..<length qs]" by simp
  then show ?thesis by (simp only: occupied_def)
qed

lemma flat_top_n_ok:
  assumes "flat_inv lo hi b"
  shows "flat_top_n b s out = Inr (spec_top_n (flat_abs b) s out)"
proof (cases s)
  case Bid
  let ?qs = "fb_bid_qty b"
  have "best_first (flat_abs b) Bid = flat_levels (fb_base b) ?qs (rev (occupied ?qs))"
    using best_first_of_ladder(1) [OF flat_ladder(1,3) [OF assms]]
    by (simp add: flat_levels_def rev_map)
  moreover have "occupied ?qs \<noteq> [] \<Longrightarrow> last (occupied ?qs) < length ?qs"
    using last_in_set [of "occupied ?qs"] by (simp add: set_occupied occ_set_def)
  ultimately show ?thesis
    using assms cached_best_bid [of b] filter_up_to_last [of ?qs]
    by (simp add: Bid spec_top_n_fill flat_inv_def walk_bids_eq fill_from_0 fill_prefix_def
        flat_levels_def Suc_le_eq del: walk_bids.simps upt_Suc)
next
  case Ask
  let ?qs = "fb_ask_qty b"
  have "best_first (flat_abs b) Ask = flat_levels (fb_base b) ?qs (occupied ?qs)"
    using best_first_of_ladder(2) [OF flat_ladder(2,4) [OF assms]] by simp
  then show ?thesis
    using assms cached_best_ask [of b] filter_from_hd [of ?qs]
    by (simp add: Ask spec_top_n_fill flat_inv_def walk_asks_eq fill_from_0 fill_prefix_def
        flat_levels_def)
qed

lemma flat_depth_ok:
  assumes "flat_inv lo hi b"
  shows "flat_depth b s = spec_depth (flat_abs b) s"
  using assms depth_of_ladder [OF flat_ladder(1) [OF assms], of "flat_abs b" Bid]
    depth_of_ladder [OF flat_ladder(2) [OF assms], of "flat_abs b" Ask] flat_ladder(3,4) [OF assms]
  by (cases s) (auto simp: flat_inv_def bids_cached_def asks_cached_def flat_levels_def
      length_occupied)

lemma flat_inv_default: "flat_inv lo hi flat_default"
  by (auto simp: flat_inv_def flat_default_def in_window_def bids_cached_def asks_cached_def
      max_opt_def min_opt_def occ_set_def)

lemma flat_abs_default: "flat_abs flat_default = spec_empty"
  by (simp add: flat_abs_def flat_default_def spec_empty_def flat_side_def)

lemma flat_last_abs: "fb_last b = sp_last (flat_abs b)"
  by (simp add: flat_abs_def)

interpretation flat: order_book flat_ops "flat_inv lo hi" flat_abs "flat_adm lo hi" for lo hi
  by unfold_locales
    (simp_all add: flat_ops_def flat_inv_default flat_abs_default flat_apply_refines
      flat_best_bid_ok flat_best_ask_ok flat_top_n_ok flat_depth_ok flat_last_abs)

end
