(* ===== verification/Rng.thy ===== *)
theory Rng
  imports Prelude
begin

section \<open>The deterministic generator (feed/src/rng.rs)\<close>

text \<open>
  \<open>SplitMix64\<close> is one 64-bit word. Code that draws from it threads the word through every call;
  \<open>'a rng\<close> is that state passing, with a panic as the other outcome (\<open>%\<close> by zero). A draw
  below a non-zero bound never panics, which is what the \<open>rng_ok\<close> rules carry through the
  generators built on it.
\<close>

unbundle bit_operations_syntax

type_synonym splitmix = u64
type_synonym 'a rng = "splitmix \<Rightarrow> ('a \<times> splitmix) res"

definition splitmix_new :: "u64 \<Rightarrow> splitmix" where
  "splitmix_new seed = seed"

definition next_u64 :: "splitmix \<Rightarrow> u64 \<times> splitmix" where
  "next_u64 s =
     (let s' = s + 0x9E3779B97F4A7C15;
          z1 = (s' XOR drop_bit 30 s') * 0xBF58476D1CE4E5B9;
          z2 = (z1 XOR drop_bit 27 z1) * 0x94D049BB133111EB
      in (z2 XOR drop_bit 31 z2, s'))"

definition below :: "u64 \<Rightarrow> u64 rng" where
  "below n s =
     (let (x, s') = next_u64 s
      in if n = 0 then Inl DivisionByZero else Inr (x mod n, s'))"

definition rng_return :: "'a \<Rightarrow> 'a rng" where
  "rng_return a s = Inr (a, s)"

definition rng_bind :: "'a rng \<Rightarrow> ('a \<Rightarrow> 'b rng) \<Rightarrow> 'b rng" where
  "rng_bind m f s = res_bind (m s) (\<lambda>(a, s'). f a s')"

definition rng_fail :: "panic \<Rightarrow> 'a rng" where
  "rng_fail e s = Inl e"

text \<open>\<open>rng_ok P m\<close>: from every state \<open>m\<close> returns (no panic), with a value that satisfies \<open>P\<close>.\<close>

definition rng_ok :: "('a \<Rightarrow> bool) \<Rightarrow> 'a rng \<Rightarrow> bool" where
  "rng_ok P m \<longleftrightarrow> (\<forall>s. \<exists>a s'. m s = Inr (a, s') \<and> P a)"

named_theorems rng_intros \<open>rules that carry \<open>rng_ok\<close> through a generator\<close>

lemma rng_okD: "rng_ok P m \<Longrightarrow> \<exists>a s'. m s = Inr (a, s') \<and> P a"
  by (simp add: rng_ok_def)

lemma rng_ok_return [rng_intros]: "P a \<Longrightarrow> rng_ok P (rng_return a)"
  by (simp add: rng_ok_def rng_return_def)

lemma rng_ok_bind [rng_intros]:
  "rng_ok P m \<Longrightarrow> (\<And>a. P a \<Longrightarrow> rng_ok Q (f a)) \<Longrightarrow> rng_ok Q (rng_bind m f)"
  unfolding rng_ok_def rng_bind_def by (metis res_bind.simps(2) case_prod_conv)

lemma rng_ok_mono: "rng_ok P m \<Longrightarrow> (\<And>a. P a \<Longrightarrow> Q a) \<Longrightarrow> rng_ok Q m"
  by (fastforce simp: rng_ok_def)

lemma rng_ok_below: "n \<noteq> 0 \<Longrightarrow> rng_ok (\<lambda>x. x < n) (below n)"
  by (auto simp: rng_ok_def below_def Let_def word_mod_less_divisor word_gt_0 split: prod.split)

lemma rng_ok_below_nat: "n \<noteq> 0 \<Longrightarrow> rng_ok (\<lambda>x. unat x < unat n) (below n)"
  by (rule rng_ok_mono [OF rng_ok_below]) (simp_all add: word_less_nat_alt)

end
