(* ===== verification/Oracle.thy ===== *)
theory Oracle
  imports BTree_Book Sorted_Vec_Book Rev_Vec_Book Flat_Book_Refine Rng
begin

section \<open>The differential oracle (book/tests/oracle.rs, book/tests/common/mod.rs)\<close>

text \<open>
  The test harness that holds the four implementations together, modelled with every assertion
  as a branch: \<open>observe\<close> reads the whole public surface of a book, \<open>assert_agree\<close> compares the
  observations, \<open>drive_and_check\<close> and the randomized driver run all books in lockstep. The test
  suite samples streams; here the drivers are shown to pass on every stream (on a bounded band
  where \<open>FlatBook\<close> takes part). \<open>four_inv\<close> ties the four states to one abstract book.
\<close>

subsection \<open>Observation\<close>

record obs =
  o_best_bid :: "level option"
  o_best_ask :: "level option"
  o_depth_bid :: nat
  o_depth_ask :: nat
  o_bids :: "level list"
  o_asks :: "level list"
  o_last_trade :: "trade_print option"

definition assert_eq :: "'a \<Rightarrow> 'a \<Rightarrow> unit res" where
  "assert_eq x y = (if x = y then Inr () else Inl AssertionFailed)"

definition observe :: "'b order_book_ops \<Rightarrow> 'b \<Rightarrow> obs res" where
  "observe ops b =
     (let db = ob_depth ops b Bid; da = ob_depth ops b Ask;
          bids = replicate db (px_zero, qty_zero); asks = replicate da (px_zero, qty_zero)
      in res_bind (ob_top_n ops b Bid bids) (\<lambda>(nb, bids').
         res_bind (ob_top_n ops b Ask asks) (\<lambda>(na, asks').
         res_bind (assert_eq nb db) (\<lambda>_.
         res_bind (assert_eq na da) (\<lambda>_.
         res_bind (ob_best_bid ops b) (\<lambda>bid.
         res_bind (ob_best_ask ops b) (\<lambda>ask.
           Inr \<lparr>o_best_bid = bid, o_best_ask = ask, o_depth_bid = db, o_depth_ask = da,
                o_bids = bids', o_asks = asks', o_last_trade = ob_last_trade ops b\<rparr>)))))))"

definition spec_observe :: "spec_book \<Rightarrow> obs" where
  "spec_observe b =
     \<lparr>o_best_bid = spec_best_bid b, o_best_ask = spec_best_ask b,
      o_depth_bid = length (best_first b Bid), o_depth_ask = length (best_first b Ask),
      o_bids = best_first b Bid, o_asks = best_first b Ask, o_last_trade = sp_last b\<rparr>"

lemma assert_eq_refl [simp]: "assert_eq x x = Inr ()"
  by (simp add: assert_eq_def)

lemma spec_top_n_exact:
  "spec_top_n b s (replicate (spec_depth b s) l) = (spec_depth b s, best_first b s)"
  by (simp add: spec_top_n_def spec_depth_best_first Let_def)

context order_book
begin

lemma observe_ok: "inv b \<Longrightarrow> observe ops b = Inr (spec_observe (abs b))"
  unfolding observe_def Let_def
  by (simp only: depth_ok top_n_ok spec_top_n_exact res_bind.simps case_prod_conv assert_eq_refl
      best_bid_ok best_ask_ok last_ok) (simp add: spec_observe_def spec_depth_best_first)

end

subsection \<open>The lockstep drivers\<close>

type_synonym three_books = "btree_book \<times> sorted_book \<times> rev_book"
type_synonym four_books = "btree_book \<times> sorted_book \<times> rev_book \<times> flat_book"

fun assert_agree_three :: "three_books \<Rightarrow> unit res" where
  "assert_agree_three (a, b, c) =
     res_bind (observe btree_ops a) (\<lambda>oa.
     res_bind (observe sorted_ops b) (\<lambda>ob.
     res_bind (observe rev_ops c) (\<lambda>oc.
     res_bind (assert_eq oa ob) (\<lambda>_. assert_eq oa oc))))"

fun assert_agree :: "four_books \<Rightarrow> unit res" where
  "assert_agree (a, b, c, d) =
     res_bind (observe btree_ops a) (\<lambda>oa.
     res_bind (observe sorted_ops b) (\<lambda>ob.
     res_bind (observe rev_ops c) (\<lambda>oc.
     res_bind (observe flat_ops d) (\<lambda>od.
     res_bind (assert_eq oa ob) (\<lambda>_.
     res_bind (assert_eq oa oc) (\<lambda>_. assert_eq oa od))))))"

fun apply_three :: "three_books \<Rightarrow> book_event \<Rightarrow> three_books res" where
  "apply_three (a, b, c) ev =
     res_bind (ob_apply btree_ops a ev) (\<lambda>a'.
     res_bind (ob_apply sorted_ops b ev) (\<lambda>b'.
     res_bind (ob_apply rev_ops c ev) (\<lambda>c'. Inr (a', b', c'))))"

fun apply_four :: "four_books \<Rightarrow> book_event \<Rightarrow> four_books res" where
  "apply_four (a, b, c, d) ev =
     res_bind (ob_apply btree_ops a ev) (\<lambda>a'.
     res_bind (ob_apply sorted_ops b ev) (\<lambda>b'.
     res_bind (ob_apply rev_ops c ev) (\<lambda>c'.
     res_bind (ob_apply flat_ops d ev) (\<lambda>d'. Inr (a', b', c', d')))))"

fun drive_three_from :: "three_books \<Rightarrow> book_event list \<Rightarrow> unit res" where
  "drive_three_from s [] = Inr ()"
| "drive_three_from s (ev # evs) =
     res_bind (apply_three s ev) (\<lambda>s'.
     res_bind (assert_agree_three s') (\<lambda>_. drive_three_from s' evs))"

fun drive_from :: "four_books \<Rightarrow> book_event list \<Rightarrow> unit res" where
  "drive_from s [] = Inr ()"
| "drive_from s (ev # evs) =
     res_bind (apply_four s ev) (\<lambda>s'.
     res_bind (assert_agree s') (\<lambda>_. drive_from s' evs))"

definition three_default :: three_books where
  "three_default = (ob_default btree_ops, ob_default sorted_ops, ob_default rev_ops)"

definition four_default :: four_books where
  "four_default =
     (ob_default btree_ops, ob_default sorted_ops, ob_default rev_ops, ob_default flat_ops)"

definition drive_and_check_three :: "book_event list \<Rightarrow> unit res" where
  "drive_and_check_three evs = drive_three_from three_default evs"

definition drive_and_check :: "book_event list \<Rightarrow> unit res" where
  "drive_and_check evs = drive_from four_default evs"

definition shared_scenario :: "book_event list" where
  "shared_scenario =
     [ev_clear 0 0,
      ev_level 1 1 Bid (Px 100) (Qty 5),
      ev_level 2 2 Bid (Px 99) (Qty 3),
      ev_level 3 3 Bid (Px 101) (Qty 2),
      ev_level 4 4 Ask (Px 103) (Qty 4),
      ev_level 5 5 Ask (Px 102) (Qty 1),
      ev_trade 6 6 Ask (Px 102) (Qty 1),
      ev_level 7 7 Ask (Px 102) (Qty 0),
      ev_level 8 8 Bid (Px 101) (Qty 0)]"

subsection \<open>The invariant of the lockstep\<close>

fun three_inv :: "three_books \<Rightarrow> spec_book \<Rightarrow> bool" where
  "three_inv (a, b, c) x \<longleftrightarrow>
     btree_inv a \<and> btree_abs a = x \<and> sorted_inv b \<and> sorted_abs b = x \<and> rev_inv c \<and> rev_abs c = x"

fun four_inv :: "int \<Rightarrow> int \<Rightarrow> four_books \<Rightarrow> spec_book \<Rightarrow> bool" where
  "four_inv lo hi (a, b, c, d) x \<longleftrightarrow>
     three_inv (a, b, c) x \<and> flat_inv lo hi d \<and> flat_abs d = x"

lemma three_inv_default: "three_inv three_default spec_empty"
  by (simp add: three_default_def btree.inv_default btree.abs_default sorted.inv_default
      sorted.abs_default rev.inv_default rev.abs_default)

lemma four_inv_default: "four_inv lo hi four_default spec_empty"
  using three_inv_default flat.inv_default flat.abs_default
  by (simp add: four_default_def three_default_def)

lemma apply_three_ok:
  "three_inv s x \<Longrightarrow> \<exists>s'. apply_three s ev = Inr s' \<and> three_inv s' (spec_apply x ev)"
proof (induction s ev rule: apply_three.induct)
  case (1 a b c ev)
  then show ?case
    using btree.apply_ok [of a ev] sorted.apply_ok [of b ev] rev.apply_ok [of c ev] by auto
qed

lemma apply_four_ok:
  assumes "four_inv lo hi s x" and "flat_adm lo hi ev"
  shows "\<exists>s'. apply_four s ev = Inr s' \<and> four_inv lo hi s' (spec_apply x ev)"
proof -
  obtain a b c d where s: "s = (a, b, c, d)" by (cases s) blast
  from assms obtain a' b' c' where
    "apply_three (a, b, c) ev = Inr (a', b', c')" "three_inv (a', b', c') (spec_apply x ev)"
    using apply_three_ok [of "(a, b, c)" x ev] by (auto simp: s simp del: apply_three.simps)
  with assms flat.apply_ok [of lo hi d ev] show ?thesis
    by (auto simp: s res_bind_Inr_iff)
qed

lemma assert_agree_three_ok: "three_inv s x \<Longrightarrow> assert_agree_three s = Inr ()"
  by (cases s) (auto simp: btree.observe_ok sorted.observe_ok rev.observe_ok)

lemma assert_agree_ok: "four_inv lo hi s x \<Longrightarrow> assert_agree s = Inr ()"
  by (cases s) (auto simp: btree.observe_ok sorted.observe_ok rev.observe_ok flat.observe_ok)

lemma drive_three_from_ok: "three_inv s x \<Longrightarrow> drive_three_from s evs = Inr ()"
proof (induction evs arbitrary: s x)
  case (Cons ev evs)
  obtain s' where s': "apply_three s ev = Inr s'" "three_inv s' (spec_apply x ev)"
    using apply_three_ok [OF Cons.prems, of ev] by blast
  then show ?case using Cons.IH [OF s'(2)] assert_agree_three_ok [OF s'(2)] by simp
qed simp

lemma drive_from_ok:
  "four_inv lo hi s x \<Longrightarrow> \<forall>ev \<in> set evs. flat_adm lo hi ev \<Longrightarrow> drive_from s evs = Inr ()"
proof (induction evs arbitrary: s x)
  case (Cons ev evs)
  obtain s' where s': "apply_four s ev = Inr s'" "four_inv lo hi s' (spec_apply x ev)"
    using apply_four_ok [OF Cons.prems(1), of ev] Cons.prems(2) by auto
  then show ?case using Cons.IH [OF s'(2)] Cons.prems(2) assert_agree_ok [OF s'(2)] by simp
qed simp

subsection \<open>The randomized driver\<close>

definition PRICE_BASE :: i64 where "PRICE_BASE = 10000"
definition PRICE_BAND :: i64 where "PRICE_BAND = 64"
definition MAX_QTY :: i64 where "MAX_QTY = 50"

text \<open>\<open>u64::try_from(x : i64).unwrap()\<close> and \<open>i64::try_from(x : u64).unwrap()\<close>: the sign bit decides.\<close>

definition try_from64 :: "64 word \<Rightarrow> (64 word) rng" where
  "try_from64 x = (if i64_le 0 x then rng_return x else rng_fail UnwrapFailed)"

definition rand_px :: "px rng" where
  "rand_px =
     rng_bind (try_from64 (2 * PRICE_BAND)) (\<lambda>band.
     rng_bind (rng_bind (below band) try_from64) (\<lambda>off.
       rng_return (Px (PRICE_BASE - PRICE_BAND + off))))"

definition rand_qty :: "i64 \<Rightarrow> i64 \<Rightarrow> qty rng" where
  "rand_qty lo hi =
     rng_bind (try_from64 (hi - lo + 1)) (\<lambda>span.
     rng_bind (rng_bind (below span) try_from64) (\<lambda>x. rng_return (Qty (lo + x))))"

definition rand_side :: "side rng" where
  "rand_side = rng_bind (below 2) (\<lambda>x. rng_return (if x = 0 then Bid else Ask))"

definition gen_event :: "u64 \<Rightarrow> book_event rng" where
  "gen_event seq =
     rng_bind (below 1000) (\<lambda>roll.
       if roll < 5 then rng_return (ev_clear seq seq)
       else if roll < 55 then
         rng_bind rand_side (\<lambda>s.
         rng_bind rand_px (\<lambda>p.
         rng_bind (rand_qty 1 MAX_QTY) (\<lambda>q. rng_return (ev_trade seq seq s p q))))
       else
         rng_bind rand_side (\<lambda>s.
         rng_bind rand_px (\<lambda>p.
         rng_bind (rand_qty 0 MAX_QTY) (\<lambda>q. rng_return (ev_level seq seq s p q)))))"

text \<open>The cheap comparison after every event: both bests of each book against the baseline's.\<close>

fun assert_bests :: "four_books \<Rightarrow> unit res" where
  "assert_bests (a, b, c, d) =
     res_bind (ob_best_bid btree_ops a) (\<lambda>bid.
     res_bind (ob_best_bid sorted_ops b) (\<lambda>x. res_bind (assert_eq bid x) (\<lambda>_.
     res_bind (ob_best_bid rev_ops c) (\<lambda>x. res_bind (assert_eq bid x) (\<lambda>_.
     res_bind (ob_best_bid flat_ops d) (\<lambda>x. res_bind (assert_eq bid x) (\<lambda>_.
     res_bind (ob_best_ask btree_ops a) (\<lambda>ask.
     res_bind (ob_best_ask sorted_ops b) (\<lambda>x. res_bind (assert_eq ask x) (\<lambda>_.
     res_bind (ob_best_ask rev_ops c) (\<lambda>x. res_bind (assert_eq ask x) (\<lambda>_.
     res_bind (ob_best_ask flat_ops d) (\<lambda>x. assert_eq ask x)))))))))))))"

text \<open>\<open>n\<close> more iterations from index \<open>k\<close>; the ladders are compared at multiples of 64 and at the end.\<close>

fun oracle_loop :: "nat \<Rightarrow> u64 \<Rightarrow> splitmix \<Rightarrow> four_books \<Rightarrow> unit res" where
  "oracle_loop 0 k rng s = assert_agree s"
| "oracle_loop (Suc n) k rng s =
     res_bind (gen_event k rng) (\<lambda>(ev, rng').
     res_bind (apply_four s ev) (\<lambda>s'.
     res_bind (assert_bests s') (\<lambda>_.
     res_bind (if k mod 64 = 0 then assert_agree s' else Inr ()) (\<lambda>_.
       oracle_loop n (k + 1) rng' s'))))"

fun oracle_seeds :: "u64 \<Rightarrow> u64 list \<Rightarrow> unit res" where
  "oracle_seeds iters [] = Inr ()"
| "oracle_seeds iters (seed # seeds) =
     res_bind (oracle_loop (unat iters) 0 (splitmix_new seed) four_default)
       (\<lambda>_. oracle_seeds iters seeds)"

definition oracle_randomized :: "u64 \<Rightarrow> unit res" where
  "oracle_randomized iters = oracle_seeds iters [1, 2, 3, 5, 8, 13, 21, 0xDEADBEEF]"

lemma rng_ok_try_from64:
  "0 \<le> sint x \<Longrightarrow> rng_ok (\<lambda>y. y = x) (try_from64 x)"
  by (simp add: try_from64_def i64_le_def rng_ok_return)

lemma sint_below:
  assumes "(x :: u64) < n" and "n \<le> 2 ^ 32"
  shows "0 \<le> sint x" and "sint x < uint n"
proof -
  have x: "unat x < unat n" and "unat n \<le> 2 ^ 32"
    using assms by (simp_all add: word_less_nat_alt word_le_nat_alt)
  then have "sint x = int (unat x)" by (intro sint_small) simp
  then show "0 \<le> sint x" "sint x < uint n"
    using x by (simp_all only: uint_nat)
qed

lemma rng_ok_draw:
  assumes "n \<noteq> 0" and "n \<le> 2 ^ 32"
  shows "rng_ok (\<lambda>x. 0 \<le> sint x \<and> sint x < uint n) (rng_bind (below n) try_from64)"
proof (rule rng_ok_bind [OF rng_ok_below [OF assms(1)]])
  fix x :: u64 assume "x < n"
  then show "rng_ok (\<lambda>x. 0 \<le> sint x \<and> sint x < uint n) (try_from64 x)"
    using sint_below [OF _ assms(2)] by (simp add: try_from64_def i64_le_def rng_ok_return)
qed

lemma rng_ok_rand_px: "rng_ok (in_band 9936 10064) rand_px"
  unfolding rand_px_def PRICE_BAND_def PRICE_BASE_def
proof (rule rng_ok_bind [OF rng_ok_try_from64])
  fix band :: u64 assume "band = 2 * 64"
  then have band: "rng_ok (\<lambda>x. 0 \<le> sint x \<and> sint x < 128) (rng_bind (below band) try_from64)"
    using rng_ok_draw [of 128] by simp
  show "rng_ok (in_band 9936 10064)
      (rng_bind (rng_bind (below band) try_from64) (\<lambda>off. rng_return (Px (10000 - 64 + off))))"
  proof (rule rng_ok_bind [OF band], rule rng_ok_return)
    fix off :: i64 assume "0 \<le> sint off \<and> sint off < 128"
    then show "in_band 9936 10064 (Px (10000 - 64 + off))"
      using sint_add_i64 [of off 9936] by (simp add: in_band_def add.commute)
  qed
qed simp

lemma rng_ok_rand_qty:
  "0 \<le> sint (hi - lo + 1) \<Longrightarrow> hi - lo + 1 \<noteq> 0 \<Longrightarrow> hi - lo + 1 \<le> 2 ^ 32 \<Longrightarrow>
   rng_ok (\<lambda>_. True) (rand_qty lo hi)"
  unfolding rand_qty_def
  by (rule rng_ok_bind [OF rng_ok_try_from64], simp)
    (rule rng_ok_bind [OF rng_ok_draw], auto intro: rng_ok_return)

lemma rng_ok_rand_side: "rng_ok (\<lambda>_. True) rand_side"
  unfolding rand_side_def by (rule rng_ok_bind [OF rng_ok_below]) (auto intro: rng_ok_return)

lemma gen_event_in_band: "rng_ok (flat_adm 9936 10064) (gen_event seq)"
proof -
  have band: "band_ok 9936 10064" by (simp add: band_ok_def MAX_SPAN_def)
  have qty: "rng_ok (\<lambda>_. True) (rand_qty 0 MAX_QTY)" "rng_ok (\<lambda>_. True) (rand_qty 1 MAX_QTY)"
    by (rule rng_ok_rand_qty; simp add: MAX_QTY_def)+
  show ?thesis unfolding gen_event_def
    by (rule rng_ok_bind [OF rng_ok_below])
      (auto intro!: rng_ok_return rng_ok_bind [OF rng_ok_rand_side] rng_ok_bind [OF rng_ok_rand_px]
        rng_ok_bind [OF qty(1)] rng_ok_bind [OF qty(2)] simp: flat_adm_def band ev_defs)
qed

lemma assert_bests_ok: "four_inv lo hi s x \<Longrightarrow> assert_bests s = Inr ()"
  by (cases s) (auto simp: btree.best_bid_ok btree.best_ask_ok sorted.best_bid_ok
      sorted.best_ask_ok rev.best_bid_ok rev.best_ask_ok flat.best_bid_ok flat.best_ask_ok)

lemma oracle_loop_ok: "four_inv 9936 10064 s x \<Longrightarrow> oracle_loop n k rng s = Inr ()"
proof (induction n arbitrary: k rng s x)
  case 0
  then show ?case by (simp add: assert_agree_ok)
next
  case (Suc n)
  obtain ev rng' where ev: "gen_event k rng = Inr (ev, rng')" "flat_adm 9936 10064 ev"
    using rng_okD [OF gen_event_in_band [of k]] unfolding rng_ok_def by blast
  obtain s' where s': "apply_four s ev = Inr s'" "four_inv 9936 10064 s' (spec_apply x ev)"
    using apply_four_ok [OF Suc.prems ev(2)] by blast
  show ?case
    using ev(1) s'(1) Suc.IH [OF s'(2)] assert_bests_ok [OF s'(2)] assert_agree_ok [OF s'(2)]
    by simp
qed

lemma oracle_seeds_ok: "oracle_seeds iters seeds = Inr ()"
  by (induction seeds) (simp_all add: oracle_loop_ok [OF four_inv_default])

end
