(* ===== verification/Book_Laws.thy ===== *)
theory Book_Laws
  imports Oracle
begin

section \<open>What a book holds after a stream\<close>

text \<open>
  Properties of the four implementations over whole streams: the differential oracle, what each
  side holds as a function of the stream alone (\<open>last_write\<close>), that a snapshot boundary
  (\<open>Clear\<close>) forgets the past, the order of the stored ladders, and the memory bound and panic
  condition of the flat array.
\<close>

subsection \<open>The differential oracle\<close>

text \<open>
  Property C1: for every event stream (any prices of the 64-bit range, crossed books, removals
  of absent levels, clears) the three list-based books never panic and agree on every
  observation after every event.
\<close>
theorem oracle_three_way: "drive_and_check_three evs = Inr ()"
  by (simp add: drive_and_check_three_def drive_three_from_ok [OF three_inv_default])

text \<open>
  Property C2: on every stream whose level prices stay in a band at most \<open>MAX_SPAN\<close> wide
  (margins included) and away from the ends of the 64-bit range, the flat array joins them: all
  four books agree on every observation after every event and none panics.
\<close>
theorem oracle_four_way:
  assumes "band_ok lo hi" and "\<forall>ev \<in> set evs. ev_kind ev = Level \<longrightarrow> in_band lo hi (ev_px ev)"
  shows "drive_and_check evs = Inr ()"
  using assms unfolding drive_and_check_def
  by (intro drive_from_ok [OF four_inv_default]) (auto simp: flat_adm_def)

theorem oracle_four_way_witness: "drive_and_check shared_scenario = Inr ()"
  by (rule oracle_four_way [of 0 200])
    (simp_all add: band_ok_def MAX_SPAN_def shared_scenario_def ev_defs in_band_def)

text \<open>
  The randomized oracle of the test suite passes for every number of iterations:
  its generator draws without a panic, only inside the band, and no assertion fails.
\<close>
theorem oracle_randomized_passes: "oracle_randomized iters = Inr ()"
  by (simp add: oracle_randomized_def oracle_seeds_ok)

subsection \<open>The content of a side as a function of the stream\<close>

text \<open>
  \<open>last_write s p evs\<close>: the quantity of the latest level event for side \<open>s\<close> and price \<open>p\<close> after the
  latest clear, and \<open>None\<close> if there is none or it is a removal. The scan is newest first.
\<close>

fun last_write_rev :: "side \<Rightarrow> px \<Rightarrow> book_event list \<Rightarrow> qty option" where
  "last_write_rev s p [] = None"
| "last_write_rev s p (ev # older) =
     (case ev_kind ev of
        Clear \<Rightarrow> None
      | Trade \<Rightarrow> last_write_rev s p older
      | Level \<Rightarrow>
          if ev_side ev = s \<and> ev_px ev = p
          then (if is_zero (ev_qty ev) then None else Some (ev_qty ev))
          else last_write_rev s p older)"

definition last_write :: "side \<Rightarrow> px \<Rightarrow> book_event list \<Rightarrow> qty option" where
  "last_write s p evs = last_write_rev s p (rev evs)"

lemma spec_run_last_write: "spec_side (spec_run evs) s p = last_write s p evs"
proof (induction evs rule: rev_induct)
  case Nil
  then show ?case by (cases s) (simp_all add: spec_run_def spec_empty_def last_write_def)
next
  case (snoc ev evs)
  then show ?case
    by (cases s; cases "ev_kind ev"; cases "ev_side ev")
      (auto simp: spec_run_snoc spec_apply_def spec_empty_def last_write_def ladder_set_def)
qed

text \<open>
  Last write wins. After any stream the sorted vectors hold exactly the levels the
  stream implies: price \<open>p\<close> with quantity \<open>q\<close> is stored on a side iff the latest update of that
  price since the latest clear set \<open>q\<close>, and a removal stores nothing.
\<close>
theorem sorted_last_write_wins:
  "\<exists>b. run_book sorted_ops (ob_default sorted_ops) evs = Inr b
     \<and> (\<forall>p q. (p, q) \<in> set (sv_bids b) \<longleftrightarrow> last_write Bid p evs = Some q)
     \<and> (\<forall>p q. (p, q) \<in> set (sv_asks b) \<longleftrightarrow> last_write Ask p evs = Some q)"
proof -
  obtain b where b: "run_book sorted_ops (ob_default sorted_ops) evs = Inr b" "sorted_inv b"
      "sorted_abs b = spec_run evs"
    using sorted.replay_ok [of evs] by auto
  have "map_of (sv_bids b) = spec_side (spec_run evs) Bid"
    and "map_of (sv_asks b) = spec_side (spec_run evs) Ask"
    by (simp_all add: sorted_abs_def flip: b(3))
  moreover have "ladder_ok (sv_bids b)" "ladder_ok (sv_asks b)"
    using b(2) by (simp_all add: sorted_inv_def)
  ultimately have
    "(p, q) \<in> set (sv_bids b) \<longleftrightarrow> last_write Bid p evs = Some q"
    "(p, q) \<in> set (sv_asks b) \<longleftrightarrow> last_write Ask p evs = Some q" for p q
    by (metis ascending_distinct ladder_ok_def map_of_eq_Some_iff spec_run_last_write)+
  with b(1) show ?thesis by blast
qed

text \<open>
  On every stream the two ladders of the best-at-front book stay strictly ordered
  (bids falling, asks rising, hence no price twice) and hold no empty level.
\<close>
theorem rev_ladders_ordered:
  "\<exists>b. run_book rev_ops (ob_default rev_ops) evs = Inr b
     \<and> sorted_wrt (>) (map fst (rv_bids b)) \<and> sorted_wrt (<) (map fst (rv_asks b))
     \<and> qty_zero \<notin> snd ` set (rv_bids b) \<and> qty_zero \<notin> snd ` set (rv_asks b)"
proof -
  obtain b where b: "run_book rev_ops (ob_default rev_ops) evs = Inr b" "rev_inv b"
    using rev.replay_ok [of evs] by auto
  then show ?thesis
    by (auto simp: rev_inv_def ladder_ok_def ascending_def sorted_wrt_rev rev_map [symmetric])
qed

text \<open>
  The binary search of the sorted vectors. On a strictly ascending ladder a hit is the
  index of the price, and a miss is the insertion point: every level before it is below the price
  and every level from it on is above.
\<close>
theorem binary_search_correct:
  assumes "ascending v"
  shows "case binary_search_by_key v p of
      Inr i \<Rightarrow> i < length v \<and> fst (v ! i) = p
    | Inl i \<Rightarrow> i \<le> length v \<and> (\<forall>j < i. fst (v ! j) < p)
        \<and> (\<forall>j. i \<le> j \<and> j < length v \<longrightarrow> p < fst (v ! j))"
  using binary_search_Inr [OF _ assms, of p] binary_search_Inl [OF _ assms, of p]
  by (auto split: sum.split)

theorem binary_search_correct_witness:
  "case binary_search_by_key [(Px 3, Qty 1), (Px 7, Qty 2)] (Px 5) of
      Inr i \<Rightarrow> i < length [(Px 3, Qty 1), (Px 7, Qty 2)]
        \<and> fst ([(Px 3, Qty 1), (Px 7, Qty 2)] ! i) = Px 5
    | Inl i \<Rightarrow> i \<le> length [(Px 3, Qty 1), (Px 7, Qty 2)]
        \<and> (\<forall>j < i. fst ([(Px 3, Qty 1), (Px 7, Qty 2)] ! j) < Px 5)
        \<and> (\<forall>j. i \<le> j \<and> j < length [(Px 3, Qty 1), (Px 7, Qty 2)] \<longrightarrow>
             Px 5 < fst ([(Px 3, Qty 1), (Px 7, Qty 2)] ! j))"
  by (rule binary_search_correct) (simp add: less_px_def)

subsection \<open>Snapshot boundaries\<close>

lemma spec_run_clear: "spec_run (pre @ ev_clear n t # evs) = spec_run evs"
  by (simp add: spec_run_def spec_apply_def ev_clear_def)

text \<open>
  A clear is a snapshot boundary. Whatever was applied before it, the book after a
  clear and a suffix shows exactly what a fresh book shows after the suffix (three books).
\<close>
theorem clear_forgets:
  "replay_view btree_ops buf (pre @ ev_clear n t # evs) = replay_view btree_ops buf evs
   \<and> replay_view sorted_ops buf (pre @ ev_clear n t # evs) = replay_view sorted_ops buf evs
   \<and> replay_view rev_ops buf (pre @ ev_clear n t # evs) = replay_view rev_ops buf evs"
  by (simp add: btree.replay_view_ok sorted.replay_view_ok rev.replay_view_ok spec_run_clear)

text \<open>
  The same for the flat array on an admissible band, although its clear keeps the
  window and both arrays allocated.
\<close>
theorem flat_clear_forgets:
  assumes "band_ok lo hi" and "\<forall>ev \<in> set (pre @ evs). ev_kind ev = Level \<longrightarrow> in_band lo hi (ev_px ev)"
  shows "replay_view flat_ops buf (pre @ ev_clear n t # evs) = replay_view flat_ops buf evs"
proof -
  have "\<forall>ev \<in> set (pre @ ev_clear n t # evs). flat_adm lo hi ev" "\<forall>ev \<in> set evs. flat_adm lo hi ev"
    using assms by (auto simp: flat_adm_def ev_clear_def)
  then show ?thesis by (simp only: flat.replay_view_ok spec_run_clear)
qed

theorem flat_clear_forgets_witness:
  "replay_view flat_ops [] ([ev_level 1 1 Bid (Px 7) (Qty 3)] @ ev_clear 2 2 # [])
     = replay_view flat_ops [] []"
  by (rule flat_clear_forgets [of 0 100]) (simp_all add: band_ok_def MAX_SPAN_def ev_defs in_band_def)

subsection \<open>\<open>top_n\<close>\<close>

text \<open>
  Reading the best \<open>n\<close> levels after any stream: the returned count is the smaller of
  the buffer length and the depth, the buffer's prefix is the best-first ladder cut to that
  length, and the tail of the buffer is left as it was.
\<close>
theorem top_n_prefix:
  "\<exists>b. run_book btree_ops (ob_default btree_ops) evs = Inr b
     \<and> (let k = min (length out) (btree_depth b s)
        in btree_top_n b s out = Inr (k, take k (best_first (spec_run evs) s) @ drop k out)
          \<and> length (best_first (spec_run evs) s) = btree_depth b s)"
proof -
  obtain b where b: "run_book btree_ops (ob_default btree_ops) evs = Inr b" "btree_inv b"
      "btree_abs b = spec_run evs"
    using btree.replay_ok [of evs] by auto
  have "btree_top_n b s out = Inr (spec_top_n (spec_run evs) s out)"
    and "btree_depth b s = length (best_first (spec_run evs) s)"
    using btree.top_n_ok [OF b(2)] btree.depth_ok [OF b(2)]
    by (simp_all add: b(3) btree_ops_def spec_depth_best_first)
  with b(1) show ?thesis
    by (simp add: spec_top_n_def Let_def min_def)
qed

subsection \<open>The flat array\<close>

definition flat_bounded :: "flat_book \<Rightarrow> bool" where
  "flat_bounded b \<longleftrightarrow> length (fb_bid_qty b) \<le> MAX_SPAN \<and> length (fb_ask_qty b) = length (fb_bid_qty b)"

lemma slice_copy_length: "slice_copy dst lo hi src = Inr v \<Longrightarrow> length v = length dst"
  by (auto simp: slice_copy_def split: if_splits)

lemma flat_ensure_range_bounded:
  "flat_bounded b \<Longrightarrow> flat_ensure_range b p = Inr b' \<Longrightarrow> flat_bounded b'"
  by (auto simp: flat_bounded_def flat_ensure_range_def Let_def res_bind_Inr_iff MAX_SPAN_def
      INIT_HALF_SPAN_def dest!: slice_copy_length split: if_splits)

lemma flat_set_bounded:
  "flat_bounded b \<Longrightarrow> flat_set_bid b i q = Inr b' \<Longrightarrow> flat_bounded b'"
  "flat_bounded b \<Longrightarrow> flat_set_ask b i q = Inr b' \<Longrightarrow> flat_bounded b'"
  by (auto simp: flat_bounded_def flat_set_bid_def flat_set_ask_def Let_def res_bind_Inr_iff
      vec_set_def split: if_splits option.splits)

lemma flat_apply_bounded:
  assumes "flat_bounded b" and "flat_apply b ev = Inr b'"
  shows "flat_bounded b'"
proof (cases "ev_kind ev")
  case Level
  with assms(2) obtain b1 where b1: "flat_ensure_range b (ev_px ev) = Inr b1"
    by (auto simp: flat_apply_def res_bind_Inr_iff)
  note bounded = flat_ensure_range_bounded [OF assms(1) b1]
  let ?i = "unat (ticks (ev_px ev) - fb_base b1)"
  show ?thesis
  proof (cases "ev_side ev")
    case Bid
    then have "flat_set_bid b1 ?i (ev_qty ev) = Inr b'"
      using Level assms(2) by (simp add: flat_apply_def b1 Let_def)
    then show ?thesis by (rule flat_set_bounded(1) [OF bounded])
  next
    case Ask
    then have "flat_set_ask b1 ?i (ev_qty ev) = Inr b'"
      using Level assms(2) by (simp add: flat_apply_def b1 Let_def)
    then show ?thesis by (rule flat_set_bounded(2) [OF bounded])
  qed
qed (use assms in \<open>auto simp: flat_apply_def flat_bounded_def\<close>)

lemma flat_run_bounded:
  "flat_bounded b \<Longrightarrow> run_book flat_ops b evs = Inr b' \<Longrightarrow> flat_bounded b'"
  by (induction evs arbitrary: b)
    (auto simp: res_bind_Inr_iff flat_ops_def dest: flat_apply_bounded)

text \<open>
  The memory bound of the flat array holds on every stream, in the band or not,
  also when tick arithmetic wraps: a run that returns has allocated at most \<open>MAX_SPAN\<close> slots per
  side, the same number on both.
\<close>
theorem flat_span_bounded:
  assumes "run_book flat_ops (ob_default flat_ops) evs = Inr b"
  shows "allocated_span_ticks b \<le> MAX_SPAN \<and> length (fb_ask_qty b) = allocated_span_ticks b"
proof -
  have "flat_bounded (ob_default flat_ops)"
    by (simp add: flat_bounded_def flat_ops_def flat_default_def)
  from flat_run_bounded [OF this assms] show ?thesis
    by (simp add: flat_bounded_def allocated_span_ticks_def)
qed

theorem flat_span_bounded_witness:
  "allocated_span_ticks (flat_default\<lparr>fb_last := Some (Px 5, Qty 2, Ask)\<rparr>) \<le> MAX_SPAN
   \<and> length (fb_ask_qty (flat_default\<lparr>fb_last := Some (Px 5, Qty 2, Ask)\<rparr>))
     = allocated_span_ticks (flat_default\<lparr>fb_last := Some (Px 5, Qty 2, Ask)\<rparr>)"
  by (rule flat_span_bounded [of "[ev_trade 0 0 Ask (Px 5) (Qty 2)]"])
    (simp add: flat_ops_def flat_apply_def ev_trade_def)

text \<open>The first price fixes the window \<open>[p1 - 4096, p1 + 4096]\<close>.\<close>

definition first_window :: "px \<Rightarrow> flat_book \<Rightarrow> bool" where
  "first_window p b \<longleftrightarrow> fb_inited b \<and> fb_base b = ticks p - 4096 \<and> length (fb_bid_qty b) = 8193
     \<and> length (fb_ask_qty b) = 8193"

lemma flat_first_bid:
  "\<exists>b. flat_apply flat_default (ev_level n t Bid p q) = Inr b \<and> first_window p b"
  by (auto simp: flat_apply_def ev_level_def flat_ensure_range_def flat_default_def
      INIT_HALF_SPAN_def flat_set_bid_def vec_simps first_window_def Let_def)

text \<open>The array covers the prices from \<open>l\<close> up to \<open>h\<close>.\<close>

definition covers :: "flat_book \<Rightarrow> int \<Rightarrow> int \<Rightarrow> bool" where
  "covers b l h \<longleftrightarrow> fb_inited b \<and> sint (fb_base b) = l \<and> sint (fb_base b) + int (length (fb_bid_qty b)) = h"

lemma flat_set_window:
  "flat_set_bid b i q = Inr b' \<Longrightarrow> covers b' l h = covers b l h"
  "flat_set_ask b i q = Inr b' \<Longrightarrow> covers b' l h = covers b l h"
  by (auto simp: covers_def flat_set_bid_def flat_set_ask_def Let_def res_bind_Inr_iff vec_set_def
      split: if_splits option.splits)

lemma ensure_covers:
  assumes "flat_inv lo hi b" and "band_ok lo hi" and "in_band lo hi p" and "covers b l h"
    and "flat_ensure_range b p = Inr b'"
  shows "if l \<le> sint (ticks p) \<and> sint (ticks p) < h then covers b' l h
    else covers b' (min l (sint (ticks p) - 4096)) (max h (sint (ticks p) + 4097))"
proof -
  let ?p = "ticks p" and ?len = "length (fb_bid_qty b)"
  have b: "fb_inited b" "sint (fb_base b) = l" "l + int ?len = h" "in_window (fb_base b) ?len"
    using assms(1,4) by (auto simp: covers_def flat_inv_def)
  have old: "sint (fb_base b + of_nat ?len) = h"
    using b by (subst sint_add_nat_i64) (simp_all add: in_window_def)
  have p: "sint (?p - 4096) = sint ?p - 4096" "sint (?p + 1 + 4096) = sint ?p + 4097"
    using assms(2,3) sint_add_i64 [of ?p "- 4096"] sint_add_i64 [of ?p 4097]
    by (simp_all add: band_ok_def in_band_def add.assoc)
  show ?thesis
  proof (cases "l \<le> sint ?p \<and> sint ?p < h")
    case True
    then show ?thesis using assms(4,5) b(1,2) old by (auto simp: flat_ensure_range_def i64_le_def i64_lt_def Let_def)
  next
    case False
    define new_lo where "new_lo = i64_min (fb_base b) (?p - 4096)"
    define new_hi where "new_hi = i64_max (fb_base b + of_nat ?len) (?p + 1 + 4096)"
    have s: "sint new_lo = min l (sint ?p - 4096)" "sint new_hi = max h (sint ?p + 4097)"
      by (simp_all only: new_lo_def new_hi_def sint_i64_min sint_i64_max old p b(2))
    have "int (unat (new_hi - new_lo)) = sint new_hi - sint new_lo" by (rule unat_diff_i64) (simp add: s)
    moreover have "fb_inited b' \<and> fb_base b' = new_lo \<and> length (fb_bid_qty b') = unat (new_hi - new_lo)"
      using assms(5) False b(1,2) old
      by (auto simp: flat_ensure_range_def i64_le_def i64_lt_def Let_def INIT_HALF_SPAN_def res_bind_Inr_iff
          new_lo_def new_hi_def dest!: slice_copy_length split: if_splits)
    ultimately have "covers b' (min l (sint ?p - 4096)) (max h (sint ?p + 4097))" by (simp add: covers_def s)
    then show ?thesis using False by (simp only: if_False)
  qed
qed

text \<open>
  The window as a function of the stream: the first price opens \<open>[p - 4096, p + 4097)\<close>, a price outside
  grows it to the union with the same margins around that price, and nothing shrinks it.
\<close>

type_synonym window = "(int \<times> int) option"

fun window_step :: "window \<Rightarrow> book_event \<Rightarrow> window" where
  "window_step w ev =
     (if ev_kind ev \<noteq> Level then w
      else let p = sint (ticks (ev_px ev)) in
        case w of
          None \<Rightarrow> Some (p - 4096, p + 4097)
        | Some (l, h) \<Rightarrow> if l \<le> p \<and> p < h then w else Some (min l (p - 4096), max h (p + 4097)))"

definition flat_window :: "book_event list \<Rightarrow> window" where
  "flat_window evs = foldl window_step None evs"

definition window_width :: "window \<Rightarrow> int" where
  "window_width w = (case w of None \<Rightarrow> 0 | Some (l, h) \<Rightarrow> h - l)"

definition held_window :: "flat_book \<Rightarrow> window" where
  "held_window b =
     (if fb_inited b then Some (sint (fb_base b), sint (fb_base b) + int (length (fb_bid_qty b))) else None)"

text \<open>The ticks whose margins do not leave the 64-bit range.\<close>

definition tick_room :: "px \<Rightarrow> bool" where
  "tick_room p \<longleftrightarrow> - (2 ^ 63) \<le> sint (ticks p) - 4096 \<and> sint (ticks p) + 4097 < 2 ^ 63"

lemma window_grows: "window_width w \<le> window_width (window_step w ev)"
  by (auto simp: window_width_def Let_def split: option.splits)

lemma window_grows_run: "window_width w \<le> window_width (foldl window_step w evs)"
proof (induction evs arbitrary: w)
  case (Cons e evs)
  show ?case using window_grows [of w e] Cons [of "window_step w e"] by (simp del: window_step.simps)
qed simp

text \<open>A book with some band keeps its arrays, its cache and its window in order.\<close>

definition flat_wf :: "flat_book \<Rightarrow> bool" where
  "flat_wf b \<longleftrightarrow> (\<exists>lo hi. flat_inv lo hi b)"

lemma flat_wf_default: "flat_wf flat_default"
  using flat_inv_default by (auto simp: flat_wf_def)

lemma held_window_default: "held_window flat_default = None"
  by (simp add: held_window_def flat_default_def)

lemma flat_wf_range:
  "flat_wf b \<Longrightarrow> fb_inited b \<Longrightarrow>
   - (2 ^ 63) \<le> sint (fb_base b) \<and> sint (fb_base b) + int (length (fb_bid_qty b)) < 2 ^ 63"
  using sint_ge [of "fb_base b"] by (auto simp: flat_wf_def flat_inv_def in_window_def)

lemma flat_wf_widen:
  "flat_wf b \<Longrightarrow> fb_inited b \<Longrightarrow> lo - 4096 \<le> sint (fb_base b) \<Longrightarrow>
   sint (fb_base b) + int (length (fb_bid_qty b)) \<le> hi + 4096 \<Longrightarrow> flat_inv lo hi b"
  by (auto simp: flat_wf_def flat_inv_def)

lemma ensure_opens:
  assumes "flat_wf b" and "\<not> fb_inited b" and "tick_room p"
  shows "\<exists>b1 lo hi. flat_ensure_range b p = Inr b1 \<and> flat_inv lo hi b1 \<and> flat_abs b1 = flat_abs b
    \<and> unat (ticks p - fb_base b1) < length (fb_bid_qty b1)
    \<and> held_window b1 = Some (sint (ticks p) - 4096, sint (ticks p) + 4097)"
proof -
  let ?p = "sint (ticks p)"
  have inv: "flat_inv ?p (?p + 1) b" using assms(1,2) by (auto simp: flat_wf_def flat_inv_def)
  have band: "band_ok ?p (?p + 1)" "in_band ?p (?p + 1) p"
    using assms(3) by (simp_all add: band_ok_def in_band_def tick_room_def MAX_SPAN_def)
  have base: "sint (ticks p - 4096) = ?p - 4096"
    using assms(3) sint_add_i64 [of "ticks p" "- 4096"] by (simp add: tick_room_def)
  obtain b1 where b1: "flat_ensure_range b p = Inr b1" "flat_inv ?p (?p + 1) b1" "flat_abs b1 = flat_abs b"
    "unat (ticks p - fb_base b1) < length (fb_bid_qty b1)"
    using ensure_range_init [OF band inv assms(2)] by blast
  moreover have "held_window b1 = Some (?p - 4096, ?p + 4097)"
    using b1(1) assms(2) base by (auto simp: flat_ensure_range_def held_window_def INIT_HALF_SPAN_def Let_def)
  ultimately show ?thesis by blast
qed

lemma ensure_inside:
  assumes "flat_wf b" and "fb_inited b" and "sint (fb_base b) \<le> sint (ticks p)"
    and "sint (ticks p) < sint (fb_base b) + int (length (fb_bid_qty b))"
  shows "flat_ensure_range b p = Inr b \<and> unat (ticks p - fb_base b) < length (fb_bid_qty b)"
proof -
  have "sint (fb_base b + of_nat (length (fb_bid_qty b))) = sint (fb_base b) + int (length (fb_bid_qty b))"
    using flat_wf_range [OF assms(1,2)] by (intro sint_add_nat_i64) simp
  moreover have "unat (ticks p - fb_base b) < length (fb_bid_qty b)"
    using assms(3,4) unat_diff_i64 [of "fb_base b" "ticks p"] by linarith
  ultimately show ?thesis
    using assms(2-4) by (simp add: flat_ensure_range_def Let_def i64_le_def i64_lt_def)
qed

lemma ensure_grows:
  fixes b p
  defines "l \<equiv> sint (fb_base b)" and "h \<equiv> sint (fb_base b) + int (length (fb_bid_qty b))"
  defines "l' \<equiv> min l (sint (ticks p) - 4096)" and "h' \<equiv> max h (sint (ticks p) + 4097)"
  assumes wf: "flat_wf b" and inited: "fb_inited b" and room: "tick_room p"
    and out: "\<not> (l \<le> sint (ticks p) \<and> sint (ticks p) < h)"
  shows "if h' - l' \<le> int MAX_SPAN
    then \<exists>b1 lo hi. flat_ensure_range b p = Inr b1 \<and> flat_inv lo hi b1 \<and> flat_abs b1 = flat_abs b
      \<and> unat (ticks p - fb_base b1) < length (fb_bid_qty b1) \<and> held_window b1 = Some (l', h')
    else flat_ensure_range b p = Inl AssertionFailed"
proof (cases "h' - l' \<le> int MAX_SPAN")
  case True
  let ?lo = "l' + 4096" and ?hi = "h' - 4096"
  have inv: "flat_inv ?lo ?hi b"
    by (rule flat_wf_widen [OF wf inited]) (simp_all add: l'_def h'_def l_def h_def)
  have band: "band_ok ?lo ?hi"
    using True room flat_wf_range [OF wf inited]
    by (simp add: band_ok_def tick_room_def l'_def h'_def l_def h_def)
  have within: "in_band ?lo ?hi p" unfolding in_band_def l'_def h'_def by linarith
  obtain b1 where b1: "flat_ensure_range b p = Inr b1" "flat_inv ?lo ?hi b1" "flat_abs b1 = flat_abs b"
    "unat (ticks p - fb_base b1) < length (fb_bid_qty b1)"
    using ensure_range_grow [OF band within inv inited] out by (auto simp: l_def h_def)
  have "covers b l h" using inited by (simp add: covers_def l_def h_def)
  from ensure_covers [OF inv band within this b1(1)] have "covers b1 l' h'"
    using out by (simp only: if_False l'_def h'_def)
  then have "held_window b1 = Some (l', h')" by (simp add: covers_def held_window_def)
  with b1 True show ?thesis by auto
next
  case False
  let ?p = "ticks p"
  have old: "sint (fb_base b + of_nat (length (fb_bid_qty b))) = h"
    unfolding h_def using flat_wf_range [OF wf inited] by (intro sint_add_nat_i64) simp
  have p: "sint (?p - 4096) = sint ?p - 4096" "sint (?p + 1 + 4096) = sint ?p + 4097"
    using room sint_add_i64 [of ?p "- 4096"] sint_add_i64 [of ?p 4097]
    by (simp_all add: tick_room_def add.assoc)
  define new_lo where "new_lo = i64_min (fb_base b) (?p - 4096)"
  define new_hi where "new_hi = i64_max (fb_base b + of_nat (length (fb_bid_qty b))) (?p + 1 + 4096)"
  have s: "sint new_lo = l'" "sint new_hi = h'"
    by (simp_all only: new_lo_def new_hi_def sint_i64_min sint_i64_max old p l'_def h'_def l_def)
  have "int (unat (new_hi - new_lo)) = sint new_hi - sint new_lo"
    by (rule unat_diff_i64) (simp add: s l'_def h'_def)
  then have "\<not> unat (new_hi - new_lo) \<le> MAX_SPAN" using False unfolding s by linarith
  then have "flat_ensure_range b p = Inl AssertionFailed"
    using inited out old
    by (simp add: flat_ensure_range_def Let_def INIT_HALF_SPAN_def i64_le_def i64_lt_def l_def
        new_lo_def new_hi_def add.assoc)
  then show ?thesis using False by simp
qed

lemma flat_step_window:
  assumes wf: "flat_wf b" and room: "ev_kind ev = Level \<Longrightarrow> tick_room (ev_px ev)"
    and held: "window_width (held_window b) \<le> int MAX_SPAN"
  shows "if window_width (window_step (held_window b) ev) \<le> int MAX_SPAN
    then \<exists>b'. flat_apply b ev = Inr b' \<and> flat_wf b' \<and> flat_abs b' = spec_apply (flat_abs b) ev
      \<and> held_window b' = window_step (held_window b) ev
    else flat_apply b ev = Inl AssertionFailed"
proof (cases "ev_kind ev = Level")
  case True
  let ?p = "ev_px ev" and ?w = "window_step (held_window b) ev"
  note room' = room [OF True]
  have ensured: "if window_width ?w \<le> int MAX_SPAN
    then \<exists>b1 lo hi. flat_ensure_range b ?p = Inr b1 \<and> flat_inv lo hi b1 \<and> flat_abs b1 = flat_abs b
      \<and> unat (ticks ?p - fb_base b1) < length (fb_bid_qty b1) \<and> held_window b1 = ?w
    else flat_ensure_range b ?p = Inl AssertionFailed"
  proof (cases "fb_inited b")
    case False
    then have "?w = Some (sint (ticks ?p) - 4096, sint (ticks ?p) + 4097)"
      using True by (simp add: held_window_def Let_def)
    then show ?thesis using ensure_opens [OF wf False room'] by (simp add: window_width_def MAX_SPAN_def)
  next
    case inited: True
    show ?thesis
    proof (cases "sint (fb_base b) \<le> sint (ticks ?p) \<and> sint (ticks ?p) < sint (fb_base b) + int (length (fb_bid_qty b))")
      case True
      then have "?w = held_window b" using inited \<open>ev_kind ev = Level\<close> by (simp add: held_window_def Let_def)
      moreover obtain lo hi where "flat_inv lo hi b" using wf by (auto simp: flat_wf_def)
      ultimately show ?thesis using ensure_inside [OF wf inited] True held by auto
    next
      case False
      then have "?w = Some (min (sint (fb_base b)) (sint (ticks ?p) - 4096),
          max (sint (fb_base b) + int (length (fb_bid_qty b))) (sint (ticks ?p) + 4097))"
        using inited True by (auto simp: held_window_def Let_def)
      then show ?thesis using ensure_grows [OF wf inited room' False] by (simp only: window_width_def option.case prod.case)
    qed
  qed
  show ?thesis
  proof (cases "window_width ?w \<le> int MAX_SPAN")
    case fits: True
    then obtain b1 lo hi where b1: "flat_ensure_range b ?p = Inr b1" "flat_inv lo hi b1" "flat_abs b1 = flat_abs b"
      "unat (ticks ?p - fb_base b1) < length (fb_bid_qty b1)" and w: "held_window b1 = ?w"
      using ensured by auto
    from flat_level_after [OF b1 True] obtain b' where b': "flat_apply b ev = Inr b'" "flat_inv lo hi b'"
      "flat_abs b' = spec_apply (flat_abs b) ev" "fb_inited b' = fb_inited b1" "fb_base b' = fb_base b1"
      "length (fb_bid_qty b') = length (fb_bid_qty b1)" by blast
    then have "held_window b' = held_window b1" by (simp add: held_window_def)
    then have "held_window b' = ?w" by (simp only: w)
    with b' fits show ?thesis by (auto simp: flat_wf_def)
  next
    case False
    with ensured have "flat_ensure_range b ?p = Inl AssertionFailed" by (simp only: if_False)
    then have "flat_apply b ev = Inl AssertionFailed" using True by (simp add: flat_apply_def)
    with False show ?thesis by (simp only: if_False)
  qed
next
  case False
  obtain lo hi where inv: "flat_inv lo hi b" using wf by (auto simp: flat_wf_def)
  have w: "window_step (held_window b) ev = held_window b" using False by simp
  have "\<exists>b'. flat_apply b ev = Inr b' \<and> flat_inv lo hi b' \<and> flat_abs b' = spec_apply (flat_abs b) ev
      \<and> held_window b' = held_window b"
    using False inv
    by (cases "ev_kind ev") (auto simp: flat_apply_def flat_inv_def flat_abs_def bids_cached_def asks_cached_def
        held_window_def spec_apply_def spec_empty_def flat_side_replicate max_opt_def min_opt_def)
  then show ?thesis using held unfolding w by (auto simp: flat_wf_def)
qed

lemma flat_run_window:
  "flat_wf b \<Longrightarrow> \<forall>ev \<in> set evs. ev_kind ev = Level \<longrightarrow> tick_room (ev_px ev) \<Longrightarrow>
   window_width (held_window b) \<le> int MAX_SPAN \<Longrightarrow>
   case run_book flat_ops b evs of
     Inl e \<Rightarrow> e = AssertionFailed \<and> int MAX_SPAN < window_width (foldl window_step (held_window b) evs)
   | Inr b' \<Rightarrow> window_width (foldl window_step (held_window b) evs) \<le> int MAX_SPAN
       \<and> held_window b' = foldl window_step (held_window b) evs
       \<and> flat_abs b' = foldl spec_apply (flat_abs b) evs"
proof (induction evs arbitrary: b)
  case (Cons e evs)
  let ?w = "window_step (held_window b) e"
  have room: "ev_kind e = Level \<Longrightarrow> tick_room (ev_px e)" using Cons.prems(2) by simp
  note step = flat_step_window [OF Cons.prems(1) room Cons.prems(3)]
  show ?case
  proof (cases "window_width ?w \<le> int MAX_SPAN")
    case True
    then obtain b' where b': "flat_apply b e = Inr b'" "flat_wf b'" "flat_abs b' = spec_apply (flat_abs b) e"
      "held_window b' = ?w" using step by auto
    have "run_book flat_ops b (e # evs) = run_book flat_ops b' evs" by (simp add: flat_ops_def b'(1))
    then show ?thesis
      using Cons.IH [OF b'(2)] Cons.prems(2) True by (simp only: b'(3,4) foldl_Cons) simp
  next
    case False
    then have "run_book flat_ops b (e # evs) = Inl AssertionFailed"
      using step by (simp add: flat_ops_def del: window_step.simps)
    then show ?thesis using False window_grows_run [of ?w evs] by (simp del: window_step.simps)
  qed
qed simp

text \<open>
  Property C24: the exact domain of the flat array. For every stream whose level prices keep their margins
  inside the 64-bit range, replaying it trips the span assertion iff the window its prices ask for, upwards
  or downwards of the first one, is wider than \<open>MAX_SPAN\<close>; otherwise it returns, with exactly that window
  allocated and the book of the stream.
\<close>
theorem flat_over_cap_panics:
  assumes "\<forall>ev \<in> set evs. ev_kind ev = Level \<longrightarrow> tick_room (ev_px ev)"
  shows "case run_book flat_ops (ob_default flat_ops) evs of
      Inl e \<Rightarrow> e = AssertionFailed \<and> int MAX_SPAN < window_width (flat_window evs)
    | Inr b \<Rightarrow> window_width (flat_window evs) \<le> int MAX_SPAN \<and> held_window b = flat_window evs
        \<and> flat_abs b = spec_run evs"
  using flat_run_window [OF flat_wf_default assms]
  by (simp add: flat_ops_def held_window_default flat_window_def window_width_def spec_run_def
      flat_abs_default foldl_conv_fold split: sum.splits)

text \<open>One tick short of the bound and at it, with the second price below and above the first.\<close>

theorem flat_over_cap_panics_witness:
  "(\<exists>b. run_book flat_ops (ob_default flat_ops) [ev_level 1 1 Bid (Px 0) (Qty 1), ev_level 2 2 Ask (Px 8380415) (Qty 1)]
      = Inr b)
   \<and> run_book flat_ops (ob_default flat_ops) [ev_level 1 1 Bid (Px 0) (Qty 1), ev_level 2 2 Ask (Px 8380416) (Qty 1)]
      = Inl AssertionFailed
   \<and> (\<exists>b. run_book flat_ops (ob_default flat_ops)
        [ev_level 1 1 Ask (Px 0) (Qty 1), ev_level 2 2 Bid (Px (- 8380415)) (Qty 1)] = Inr b
      \<and> held_window b = Some (- 8384511, 4097))
   \<and> run_book flat_ops (ob_default flat_ops) [ev_level 1 1 Ask (Px 0) (Qty 1), ev_level 2 2 Bid (Px (- 8380416)) (Qty 1)]
      = Inl AssertionFailed"
proof (intro conjI)
  note at = flat_over_cap_panics [of "[ev_level 1 1 s1 (Px 0) (Qty 1), ev_level 2 2 s2 p (Qty 1)]" for s1 s2 p]
  note defs = ev_level_def tick_room_def flat_window_def window_width_def MAX_SPAN_def
  show "\<exists>b. run_book flat_ops (ob_default flat_ops)
      [ev_level 1 1 Bid (Px 0) (Qty 1), ev_level 2 2 Ask (Px 8380415) (Qty 1)] = Inr b"
    using at [of Bid Ask "Px 8380415"] by (auto simp: defs split: sum.splits)
  show "run_book flat_ops (ob_default flat_ops)
      [ev_level 1 1 Bid (Px 0) (Qty 1), ev_level 2 2 Ask (Px 8380416) (Qty 1)] = Inl AssertionFailed"
    using at [of Bid Ask "Px 8380416"] by (auto simp: defs split: sum.splits)
  show "\<exists>b. run_book flat_ops (ob_default flat_ops)
      [ev_level 1 1 Ask (Px 0) (Qty 1), ev_level 2 2 Bid (Px (- 8380415)) (Qty 1)] = Inr b
      \<and> held_window b = Some (- 8384511, 4097)"
    using at [of Ask Bid "Px (- 8380415)"] by (auto simp: defs split: sum.splits)
  show "run_book flat_ops (ob_default flat_ops)
      [ev_level 1 1 Ask (Px 0) (Qty 1), ev_level 2 2 Bid (Px (- 8380416)) (Qty 1)] = Inl AssertionFailed"
    using at [of Ask Bid "Px (- 8380416)"] by (auto simp: defs split: sum.splits)
qed

end
