(* ===== verification/Atomics.thy ===== *)
theory Atomics
  imports Prelude
begin

section \<open>Atomics of one writer and many readers\<close>

text \<open>
  The language standard library's atomics as \<open>sync/src\<close> uses them: \<open>Relaxed\<close>, \<open>Acquire\<close> and
  \<open>Release\<close> accesses and fences, every location written by one thread only. Writer code is a list
  of operations, reader code a tree of loads (\<open>rprog\<close>) whose continuations are the code after each
  load; both have two meanings. The plain one runs against one store and gives the sequential
  behaviour. The other is the release/acquire view machine of the C++20 memory model Rust adopts
  (without load buffering): a location holds every message written to it, a load may return any
  message not older than the reader's view, an acquiring load joins the message's view, a relaxed
  load keeps it for the next acquire fence, a releasing store publishes the writer's view and a
  relaxed store only the view of the last release fence.
\<close>

subsection \<open>Programs\<close>

datatype 'l wop = Store_Relaxed 'l u64 | Store_Release 'l u64 | Fence_Release

datatype ('l, 'a) rprog =
    Ret 'a
  | Load_Relaxed 'l "u64 \<Rightarrow> ('l, 'a) rprog"
  | Load_Acquire 'l "u64 \<Rightarrow> ('l, 'a) rprog"
  | Fence_Acquire "('l, 'a) rprog"

text \<open>Relaxed loads of a list of locations, in order.\<close>

fun read_words :: "'l list \<Rightarrow> u64 list \<Rightarrow> (u64 list \<Rightarrow> ('l, 'a) rprog) \<Rightarrow> ('l, 'a) rprog" where
  "read_words [] acc k = k acc"
| "read_words (w # ws) acc k = Load_Relaxed w (\<lambda>v. read_words ws (acc @ [v]) k)"

fun write_words :: "'l list \<Rightarrow> u64 list \<Rightarrow> 'l wop list" where
  "write_words (w # ws) (v # vs) = Store_Relaxed w v # write_words ws vs"
| "write_words _ _ = []"

lemma length_write_words: "length vs = length ws \<Longrightarrow> length (write_words ws vs) = length ws"
  by (induction ws vs rule: write_words.induct) auto

lemma nth_write_words:
  "length vs = length ws \<Longrightarrow> i < length ws \<Longrightarrow> write_words ws vs ! i = Store_Relaxed (ws ! i) (vs ! i)"
proof (induction ws vs arbitrary: i rule: write_words.induct)
  case (1 w ws v vs)
  then show ?case by (cases i) auto
qed auto

subsection \<open>The plain meaning\<close>

type_synonym 'l plain = "'l \<Rightarrow> u64"

fun plain_op :: "'l wop \<Rightarrow> 'l plain \<Rightarrow> 'l plain" where
  "plain_op (Store_Relaxed l v) \<sigma> = \<sigma>(l := v)"
| "plain_op (Store_Release l v) \<sigma> = \<sigma>(l := v)"
| "plain_op Fence_Release \<sigma> = \<sigma>"

definition plain_ops :: "'l wop list \<Rightarrow> 'l plain \<Rightarrow> 'l plain" where
  "plain_ops = fold plain_op"

primrec plain_read :: "'l plain \<Rightarrow> ('l, 'a) rprog \<Rightarrow> 'a" where
  "plain_read \<sigma> (Ret a) = a"
| "plain_read \<sigma> (Load_Relaxed l k) = plain_read \<sigma> (k (\<sigma> l))"
| "plain_read \<sigma> (Load_Acquire l k) = plain_read \<sigma> (k (\<sigma> l))"
| "plain_read \<sigma> (Fence_Acquire p) = plain_read \<sigma> p"

lemma plain_read_words: "plain_read \<sigma> (read_words ws acc k) = plain_read \<sigma> (k (acc @ map \<sigma> ws))"
  by (induction ws arbitrary: acc) simp_all

lemma plain_ops_append: "plain_ops (xs @ ys) \<sigma> = plain_ops ys (plain_ops xs \<sigma>)"
  by (simp add: plain_ops_def)

lemma plain_ops_Cons [simp]: "plain_ops (x # xs) \<sigma> = plain_ops xs (plain_op x \<sigma>)"
  and plain_ops_Nil [simp]: "plain_ops [] \<sigma> = \<sigma>"
  by (simp_all add: plain_ops_def)

lemma plain_write_words:
  "length vs = length ws \<Longrightarrow> distinct ws \<Longrightarrow>
   plain_ops (write_words ws vs) \<sigma> l =
     (if l \<in> set ws then the (map_of (zip ws vs) l) else \<sigma> l)"
proof (induction ws vs arbitrary: \<sigma> rule: write_words.induct)
  case (1 w ws v vs)
  then show ?case by (auto simp: map_of_zip_is_None domIff)
qed auto

subsection \<open>The view machine\<close>

type_synonym 'l view = "'l \<Rightarrow> nat"

record 'l wmem =
  wm_msgs :: "'l \<Rightarrow> (u64 \<times> 'l view) list"
  wm_rel :: "'l view"

definition wm_init :: "'l plain \<Rightarrow> 'l wmem" where
  "wm_init \<sigma> = \<lparr>wm_msgs = (\<lambda>l. [(\<sigma> l, \<lambda>_. 0)]), wm_rel = (\<lambda>_. 0)\<rparr>"

abbreviation count :: "'l wmem \<Rightarrow> 'l \<Rightarrow> nat" where
  "count m l \<equiv> length (wm_msgs m l)"

abbreviation val_at :: "'l wmem \<Rightarrow> 'l \<Rightarrow> nat \<Rightarrow> u64" where
  "val_at m l i \<equiv> fst (wm_msgs m l ! i)"

abbreviation view_at :: "'l wmem \<Rightarrow> 'l \<Rightarrow> nat \<Rightarrow> 'l view" where
  "view_at m l i \<equiv> snd (wm_msgs m l ! i)"

text \<open>The writer has seen its own writes, that is everything; its load returns the last message.\<close>

definition wm_cur :: "'l wmem \<Rightarrow> 'l view" where
  "wm_cur m = (\<lambda>l. count m l - 1)"

definition wm_latest :: "'l wmem \<Rightarrow> 'l \<Rightarrow> u64" where
  "wm_latest m l = fst (last (wm_msgs m l))"

definition wm_append :: "'l wmem \<Rightarrow> 'l \<Rightarrow> u64 \<Rightarrow> 'l view \<Rightarrow> 'l wmem" where
  "wm_append m l v V =
     m\<lparr>wm_msgs := (wm_msgs m)(l := wm_msgs m l @ [(v, V(l := count m l))])\<rparr>"

fun do_wop :: "'l wop \<Rightarrow> 'l wmem \<Rightarrow> 'l wmem" where
  "do_wop (Store_Relaxed l v) m = wm_append m l v (wm_rel m)"
| "do_wop (Store_Release l v) m = wm_append m l v (wm_cur m)"
| "do_wop Fence_Release m = m\<lparr>wm_rel := wm_cur m\<rparr>"

record ('l, 'a) reader =
  rd_prog :: "('l, 'a) rprog"
  rd_cur :: "'l view"
  rd_acq :: "'l view"

definition single :: "'l \<Rightarrow> nat \<Rightarrow> 'l view" where
  "single l i = (\<lambda>_. 0)(l := i)"

inductive read_step :: "'l wmem \<Rightarrow> ('l, 'a) reader \<Rightarrow> ('l, 'a) reader \<Rightarrow> bool" for m where
  relaxed:
    "rd_prog rd = Load_Relaxed l k \<Longrightarrow> rd_cur rd l \<le> i \<Longrightarrow> i < count m l \<Longrightarrow>
     read_step m rd
       \<lparr>rd_prog = k (val_at m l i), rd_cur = sup (rd_cur rd) (single l i),
        rd_acq = sup (sup (rd_acq rd) (single l i)) (view_at m l i)\<rparr>"
| acquire:
    "rd_prog rd = Load_Acquire l k \<Longrightarrow> rd_cur rd l \<le> i \<Longrightarrow> i < count m l \<Longrightarrow>
     read_step m rd
       \<lparr>rd_prog = k (val_at m l i), rd_cur = sup (sup (rd_cur rd) (single l i)) (view_at m l i),
        rd_acq = sup (sup (rd_acq rd) (single l i)) (view_at m l i)\<rparr>"
| fence:
    "rd_prog rd = Fence_Acquire p \<Longrightarrow>
     read_step m rd \<lparr>rd_prog = p, rd_cur = sup (rd_cur rd) (rd_acq rd), rd_acq = rd_acq rd\<rparr>"

inductive_cases read_step_RetE: "read_step m \<lparr>rd_prog = Ret a, rd_cur = c, rd_acq = q\<rparr> rd'"

lemma read_stepE:
  assumes "read_step m rd rd'"
  obtains (relaxed) l k i where "rd_prog rd = Load_Relaxed l k" "rd_cur rd l \<le> i" "i < count m l"
      "rd_prog rd' = k (val_at m l i)" "rd_cur rd' = sup (rd_cur rd) (single l i)"
      "rd_acq rd' = sup (sup (rd_acq rd) (single l i)) (view_at m l i)"
    | (acquire) l k i where "rd_prog rd = Load_Acquire l k" "rd_cur rd l \<le> i" "i < count m l"
      "rd_prog rd' = k (val_at m l i)"
      "rd_cur rd' = sup (sup (rd_cur rd) (single l i)) (view_at m l i)"
      "rd_acq rd' = sup (sup (rd_acq rd) (single l i)) (view_at m l i)"
    | (fence) p where "rd_prog rd = Fence_Acquire p" "rd_prog rd' = p"
      "rd_cur rd' = sup (rd_cur rd) (rd_acq rd)" "rd_acq rd' = rd_acq rd"
  using assms by (cases rule: read_step.cases) auto

text \<open>Memory only grows: every message stays where it is.\<close>

definition wm_le :: "'l wmem \<Rightarrow> 'l wmem \<Rightarrow> bool" where
  "wm_le m m' \<longleftrightarrow> (\<forall>l. \<exists>xs. wm_msgs m' l = wm_msgs m l @ xs)"

lemma wm_le_refl [simp]: "wm_le m m"
  by (simp add: wm_le_def)

lemma wm_le_do_wop: "wm_le m (do_wop op m)"
  by (cases op) (auto simp: wm_le_def wm_append_def)

lemma wm_le_count: "wm_le m m' \<Longrightarrow> count m l \<le> count m' l"
  unfolding wm_le_def by (metis length_append le_add1)

lemma wm_le_nth: "wm_le m m' \<Longrightarrow> i < count m l \<Longrightarrow> wm_msgs m' l ! i = wm_msgs m l ! i"
  unfolding wm_le_def by (metis nth_append)

lemma count_append: "count (wm_append m l v V) l' = count m l' + (if l' = l then 1 else 0)"
  by (simp add: wm_append_def)

lemma msgs_append:
  "wm_msgs (wm_append m l v V) l' ! i =
     (if l' = l \<and> i = count m l then (v, V(l := count m l)) else wm_msgs m l' ! i)"
  if "i < count (wm_append m l v V) l'"
  using that by (auto simp: wm_append_def nth_append split: if_splits)

lemma rel_append [simp]: "wm_rel (wm_append m l v V) = wm_rel m"
  by (simp add: wm_append_def)

lemma latest_append: "wm_latest (wm_append m l v V) l' = (if l' = l then v else wm_latest m l')"
  by (simp add: wm_append_def wm_latest_def)

subsection \<open>A reader that runs alone\<close>

text \<open>
  Views never point past the memory. A reader that takes the newest message at every load then
  runs its program to the end, with the result of the plain meaning.
\<close>

definition view_ok :: "'l wmem \<Rightarrow> 'l view \<Rightarrow> bool" where
  "view_ok m V \<longleftrightarrow> (\<forall>l. V l < count m l)"

definition views_ok :: "'l wmem \<Rightarrow> bool" where
  "views_ok m \<longleftrightarrow> (\<forall>l. 0 < count m l) \<and> view_ok m (wm_rel m)
     \<and> (\<forall>l. \<forall>i < count m l. view_ok m (view_at m l i))"

lemma views_okD:
  assumes "views_ok m"
  shows "0 < count m l" and "view_ok m (wm_rel m)" and "i < count m l \<Longrightarrow> view_ok m (view_at m l i)"
  using assms unfolding views_ok_def by blast+

definition reader_ok :: "'l wmem \<Rightarrow> ('l, 'a) reader \<Rightarrow> bool" where
  "reader_ok m rd \<longleftrightarrow> view_ok m (rd_cur rd) \<and> view_ok m (rd_acq rd)"

lemma view_ok_mono:
  assumes "view_ok m V" and "wm_le m m'"
  shows "view_ok m' V"
  unfolding view_ok_def
proof
  fix l
  have "V l < count m l" using assms(1) by (simp add: view_ok_def)
  then show "V l < count m' l" using wm_le_count [OF assms(2), of l] by (rule less_le_trans)
qed

lemma view_ok_sup: "view_ok m V \<Longrightarrow> view_ok m U \<Longrightarrow> view_ok m (sup V U)"
  by (simp add: view_ok_def sup_nat_def)

lemma view_ok_single:
  assumes "views_ok m" and "i < count m l"
  shows "view_ok m (single l i)"
  unfolding view_ok_def
proof
  fix l'
  show "single l i l' < count m l'"
    using views_okD(1) [OF assms(1), of l'] assms(2) by (cases "l' = l") (simp_all add: single_def)
qed

lemma views_ok_init: "views_ok (wm_init \<sigma>)"
  by (simp add: views_ok_def view_ok_def wm_init_def)

lemma views_ok_append:
  assumes "views_ok m" and "view_ok m V"
  shows "views_ok (wm_append m l v V)"
proof -
  let ?m = "wm_append m l v V"
  have mono: "view_ok m U \<Longrightarrow> view_ok ?m U" for U
    by (auto simp: view_ok_def count_append intro: less_SucI)
  have new: "view_ok ?m (V(l := count m l))"
    using assms(2) by (auto simp: view_ok_def count_append intro: less_SucI)
  have "view_ok ?m (view_at ?m l' i)" if i: "i < count ?m l'" for l' i
  proof (cases "l' = l \<and> i = count m l")
    case False
    then have "i < count m l'" using i by (auto simp: count_append split: if_splits)
    with i False mono views_okD(3) [OF assms(1)] show ?thesis by (simp only: msgs_append if_False)
  qed (use i new in \<open>simp add: msgs_append\<close>)
  moreover have "0 < count ?m l'" for l'
    using views_okD(1) [OF assms(1), of l'] by (simp add: count_append)
  moreover have "view_ok ?m (wm_rel ?m)" using mono views_okD(2) [OF assms(1)] by simp
  ultimately show ?thesis unfolding views_ok_def by blast
qed

lemma view_ok_cur: "views_ok m \<Longrightarrow> view_ok m (wm_cur m)"
  using views_okD(1) [of m] by (simp add: view_ok_def wm_cur_def)

lemma views_ok_do_wop: "views_ok m \<Longrightarrow> views_ok (do_wop op m)"
proof (cases op)
  case Fence_Release
  assume "views_ok m"
  with Fence_Release view_ok_cur [of m] show ?thesis
    unfolding views_ok_def view_ok_def by simp
qed (simp_all add: views_ok_append view_ok_cur views_okD(2))

lemma reader_ok_step:
  assumes "views_ok m" and "reader_ok m rd" and "read_step m rd rd'"
  shows "reader_ok m rd'"
  using assms(3)
proof (cases rule: read_stepE)
  case (relaxed l k i)
  then have "view_ok m (view_at m l i)" by (intro views_okD(3) [OF assms(1)])
  with relaxed assms(1,2) show ?thesis by (simp add: reader_ok_def view_ok_sup view_ok_single)
next
  case (acquire l k i)
  then have "view_ok m (view_at m l i)" by (intro views_okD(3) [OF assms(1)])
  with acquire assms(1,2) show ?thesis by (simp add: reader_ok_def view_ok_sup view_ok_single)
qed (use assms(2) in \<open>simp add: reader_ok_def view_ok_sup\<close>)

lemma reader_ok_mono: "reader_ok m rd \<Longrightarrow> wm_le m m' \<Longrightarrow> reader_ok m' rd"
  unfolding reader_ok_def using view_ok_mono by blast

lemma last_message:
  assumes "views_ok m"
  shows "count m l - 1 < count m l" and "val_at m l (count m l - 1) = wm_latest m l"
    and "view_ok m V \<Longrightarrow> V l \<le> count m l - 1"
proof -
  have pos: "0 < count m l" by (rule views_okD(1) [OF assms])
  then show "count m l - 1 < count m l" by simp
  show "val_at m l (count m l - 1) = wm_latest m l"
    using pos by (simp add: wm_latest_def last_conv_nth)
  have "V l < count m l" if "view_ok m V" using that by (simp add: view_ok_def)
  then show "view_ok m V \<Longrightarrow> V l \<le> count m l - 1" by fastforce
qed

lemma reads_latest:
  assumes "views_ok m" and "reader_ok m \<lparr>rd_prog = p, rd_cur = c, rd_acq = q\<rparr>"
  shows "\<exists>c' q'. (read_step m)\<^sup>*\<^sup>* \<lparr>rd_prog = p, rd_cur = c, rd_acq = q\<rparr>
      \<lparr>rd_prog = Ret (plain_read (wm_latest m) p), rd_cur = c', rd_acq = q'\<rparr>"
  using assms(2)
proof (induction p arbitrary: c q)
  case (Ret a)
  then show ?case by auto
next
  case (Load_Relaxed l k)
  let ?rd = "\<lparr>rd_prog = Load_Relaxed l k, rd_cur = c, rd_acq = q\<rparr>" and ?i = "count m l - 1"
  have "c l \<le> ?i" using Load_Relaxed.prems last_message(3) [OF assms(1)] by (simp add: reader_ok_def)
  then obtain c1 q1 where step: "read_step m ?rd \<lparr>rd_prog = k (wm_latest m l), rd_cur = c1, rd_acq = q1\<rparr>"
    using read_step.relaxed [of ?rd l k ?i m] last_message(1,2) [OF assms(1), of l] by auto
  from Load_Relaxed.IH [OF _ reader_ok_step [OF assms(1) Load_Relaxed.prems step]] show ?case
    by (auto intro: converse_rtranclp_into_rtranclp [of "read_step m", OF step])
next
  case (Load_Acquire l k)
  let ?rd = "\<lparr>rd_prog = Load_Acquire l k, rd_cur = c, rd_acq = q\<rparr>" and ?i = "count m l - 1"
  have "c l \<le> ?i" using Load_Acquire.prems last_message(3) [OF assms(1)] by (simp add: reader_ok_def)
  then obtain c1 q1 where step: "read_step m ?rd \<lparr>rd_prog = k (wm_latest m l), rd_cur = c1, rd_acq = q1\<rparr>"
    using read_step.acquire [of ?rd l k ?i m] last_message(1,2) [OF assms(1), of l] by auto
  from Load_Acquire.IH [OF _ reader_ok_step [OF assms(1) Load_Acquire.prems step]] show ?case
    by (auto intro: converse_rtranclp_into_rtranclp [of "read_step m", OF step])
next
  case (Fence_Acquire p)
  have step: "read_step m \<lparr>rd_prog = Fence_Acquire p, rd_cur = c, rd_acq = q\<rparr>
      \<lparr>rd_prog = p, rd_cur = sup c q, rd_acq = q\<rparr>"
    using read_step.fence [of "\<lparr>rd_prog = Fence_Acquire p, rd_cur = c, rd_acq = q\<rparr>" p m] by simp
  from Fence_Acquire.IH [OF reader_ok_step [OF assms(1) Fence_Acquire.prems step]] show ?case
    unfolding plain_read.simps by (blast intro: converse_rtranclp_into_rtranclp [of "read_step m", OF step])
qed

subsection \<open>Scripted readers\<close>

text \<open>A reader driven by the list of message indices its loads take; \<open>None\<close> if one is not allowed.\<close>

primrec run_script ::
  "('l, 'a) rprog \<Rightarrow> 'l wmem \<Rightarrow> nat list \<Rightarrow> 'l view \<Rightarrow> 'l view \<Rightarrow> ('a \<times> 'l view \<times> 'l view) option" where
  "run_script (Ret a) m is c q = Some (a, c, q)"
| "run_script (Load_Relaxed l k) m is c q =
     (case is of [] \<Rightarrow> None
      | i # is' \<Rightarrow>
          if c l \<le> i \<and> i < count m l
          then run_script (k (val_at m l i)) m is' (sup c (single l i))
                 (sup (sup q (single l i)) (view_at m l i))
          else None)"
| "run_script (Load_Acquire l k) m is c q =
     (case is of [] \<Rightarrow> None
      | i # is' \<Rightarrow>
          if c l \<le> i \<and> i < count m l
          then run_script (k (val_at m l i)) m is' (sup (sup c (single l i)) (view_at m l i))
                 (sup (sup q (single l i)) (view_at m l i))
          else None)"
| "run_script (Fence_Acquire p) m is c q = run_script p m is (sup c q) q"

lemma run_script_sound:
  "run_script p m is c q = Some (a, c', q') \<Longrightarrow>
   (read_step m)\<^sup>*\<^sup>* \<lparr>rd_prog = p, rd_cur = c, rd_acq = q\<rparr> \<lparr>rd_prog = Ret a, rd_cur = c', rd_acq = q'\<rparr>"
proof (induction p arbitrary: "is" c q)
  case (Ret a)
  then show ?case by simp
next
  case (Load_Relaxed l k)
  let ?rd = "\<lparr>rd_prog = Load_Relaxed l k, rd_cur = c, rd_acq = q\<rparr>"
  from Load_Relaxed.prems obtain i is' where i: "c l \<le> i" "i < count m l"
    "run_script (k (val_at m l i)) m is' (sup c (single l i)) (sup (sup q (single l i)) (view_at m l i))
       = Some (a, c', q')"
    by (auto split: list.splits if_splits)
  have "read_step m ?rd \<lparr>rd_prog = k (val_at m l i), rd_cur = sup c (single l i),
      rd_acq = sup (sup q (single l i)) (view_at m l i)\<rparr>"
    using read_step.relaxed [of ?rd l k i m] i(1,2) by simp
  from converse_rtranclp_into_rtranclp [of "read_step m", OF this Load_Relaxed.IH [OF rangeI i(3)]]
  show ?case .
next
  case (Load_Acquire l k)
  let ?rd = "\<lparr>rd_prog = Load_Acquire l k, rd_cur = c, rd_acq = q\<rparr>"
  from Load_Acquire.prems obtain i is' where i: "c l \<le> i" "i < count m l"
    "run_script (k (val_at m l i)) m is' (sup (sup c (single l i)) (view_at m l i))
       (sup (sup q (single l i)) (view_at m l i)) = Some (a, c', q')"
    by (auto split: list.splits if_splits)
  have "read_step m ?rd \<lparr>rd_prog = k (val_at m l i), rd_cur = sup (sup c (single l i)) (view_at m l i),
      rd_acq = sup (sup q (single l i)) (view_at m l i)\<rparr>"
    using read_step.acquire [of ?rd l k i m] i(1,2) by simp
  from converse_rtranclp_into_rtranclp [of "read_step m", OF this Load_Acquire.IH [OF rangeI i(3)]]
  show ?case .
next
  case (Fence_Acquire p)
  have "read_step m \<lparr>rd_prog = Fence_Acquire p, rd_cur = c, rd_acq = q\<rparr>
      \<lparr>rd_prog = p, rd_cur = sup c q, rd_acq = q\<rparr>"
    using read_step.fence [of "\<lparr>rd_prog = Fence_Acquire p, rd_cur = c, rd_acq = q\<rparr>" p m] by simp
  from converse_rtranclp_into_rtranclp [of "read_step m", OF this
      Fence_Acquire.IH [OF Fence_Acquire.prems [unfolded run_script.simps]]]
  show ?case .
qed

end
