(* ===== verification/Stamped_Cell.thy ===== *)
theory Stamped_Cell
  imports Atomics
begin

section \<open>A payload under a two-phase stamp\<close>

text \<open>
  The protocol both primitives of the \<open>sync\<close> crate share. The writer marks the stamp with a
  relaxed store and a release fence, overwrites the payload words with relaxed stores, and
  publishes with a release store of the stamp; so message \<open>2 g\<close> of the stamp publishes generation
  \<open>g\<close>, message \<open>2 g + 1\<close> marks the start of the next, and message \<open>g\<close> of every word belongs to
  generation \<open>g\<close>. A reader that acquires the stamp at message \<open>2 g\<close>, reads the words relaxed,
  fences, and then reads message \<open>2 g\<close> of the stamp again holds exactly generation \<open>g\<close>
  (\<open>fenced_consistent\<close>): a newer word carries the view of the fence after its mark, and that view
  makes the second stamp load see the mark.
\<close>

locale stamped_cell =
  fixes S :: 'l and ws :: "'l list"
  assumes distinct_cell: "distinct (S # ws)"
begin

text \<open>
  \<open>cell_ok f H m g n\<close>: generation \<open>g\<close> is published and the writer has done \<open>n\<close> operations of the
  next write (0: none, 1: the mark, 2: the fence, then one per word). Stamp message \<open>i\<close> has value
  \<open>f i\<close>, and generation \<open>j\<close> has the words \<open>H j\<close>.
\<close>

definition cell_ok :: "(nat \<Rightarrow> u64) \<Rightarrow> (nat \<Rightarrow> u64 list) \<Rightarrow> 'l wmem \<Rightarrow> nat \<Rightarrow> nat \<Rightarrow> bool" where
  "cell_ok f H m g n \<longleftrightarrow>
     count m S = 2 * g + (if n = 0 then 1 else 2)
     \<and> (\<forall>i < length ws. count m (ws ! i) = g + 1 + (if 2 + i < n then 1 else 0))
     \<and> (2 \<le> n \<longrightarrow> 2 * g + 1 \<le> wm_rel m S)
     \<and> (\<forall>h. 2 * h < count m S \<longrightarrow> (\<forall>i < length ws. h \<le> view_at m S (2 * h) (ws ! i)))
     \<and> (\<forall>i < length ws. \<forall>j < count m (ws ! i).
          2 * j \<le> view_at m (ws ! i) j S + 1 \<and> val_at m (ws ! i) j = H j ! i)
     \<and> (\<forall>i < count m S. val_at m S i = f i)"

lemma cell_okD:
  assumes "cell_ok f H m g n"
  shows "count m S = 2 * g + (if n = 0 then 1 else 2)"
    and "i < length ws \<Longrightarrow> count m (ws ! i) = g + 1 + (if 2 + i < n then 1 else 0)"
    and "2 \<le> n \<Longrightarrow> 2 * g + 1 \<le> wm_rel m S"
    and "2 * h < count m S \<Longrightarrow> i < length ws \<Longrightarrow> h \<le> view_at m S (2 * h) (ws ! i)"
    and "i < length ws \<Longrightarrow> j < count m (ws ! i) \<Longrightarrow> 2 * j \<le> view_at m (ws ! i) j S + 1"
    and "i < length ws \<Longrightarrow> j < count m (ws ! i) \<Longrightarrow> val_at m (ws ! i) j = H j ! i"
    and "k < count m S \<Longrightarrow> val_at m S k = f k"
  using assms by (simp_all add: cell_ok_def)

lemma cell_okI:
  assumes "count m S = 2 * g + (if n = 0 then 1 else 2)"
    and "\<And>i. i < length ws \<Longrightarrow> count m (ws ! i) = g + 1 + (if 2 + i < n then 1 else 0)"
    and "2 \<le> n \<Longrightarrow> 2 * g + 1 \<le> wm_rel m S"
    and "\<And>h i. 2 * h < count m S \<Longrightarrow> i < length ws \<Longrightarrow> h \<le> view_at m S (2 * h) (ws ! i)"
    and "\<And>i j. i < length ws \<Longrightarrow> j < count m (ws ! i) \<Longrightarrow> 2 * j \<le> view_at m (ws ! i) j S + 1"
    and "\<And>i j. i < length ws \<Longrightarrow> j < count m (ws ! i) \<Longrightarrow> val_at m (ws ! i) j = H j ! i"
    and "\<And>k. k < count m S \<Longrightarrow> val_at m S k = f k"
  shows "cell_ok f H m g n"
  using assms by (simp add: cell_ok_def)

lemma word_neq: "i < length ws \<Longrightarrow> ws ! i \<noteq> S" "i < length ws \<Longrightarrow> S \<noteq> ws ! i"
  using distinct_cell nth_mem by force+

lemma word_eq: "i < length ws \<Longrightarrow> j < length ws \<Longrightarrow> ws ! i = ws ! j \<longleftrightarrow> i = j"
  using distinct_cell by (simp add: nth_eq_iff_index_eq)

lemma cell_init:
  "f 0 = \<sigma> S \<Longrightarrow> \<forall>i < length ws. H 0 ! i = \<sigma> (ws ! i) \<Longrightarrow> cell_ok f H (wm_init \<sigma>) 0 0"
  by (simp add: cell_ok_def wm_init_def)

lemma cell_mark:
  assumes "cell_ok f H m g 0" and "v = f (2 * g + 1)"
  shows "cell_ok f H (do_wop (Store_Relaxed S v) m) g 1"
proof -
  define m' where m': "m' = do_wop (Store_Relaxed S v) m"
  note D = cell_okD [OF assms(1)]
  have cnt: "count m S = 2 * g + 1" using D(1) by simp
  have stamp: "k < 2 * g + 1 \<Longrightarrow> wm_msgs m' S ! k = wm_msgs m S ! k" for k
    using cnt by (simp add: m' msgs_append count_append)
  have word: "i < length ws \<Longrightarrow> wm_msgs m' (ws ! i) = wm_msgs m (ws ! i)" for i
    by (simp add: m' wm_append_def word_neq)
  show ?thesis unfolding m' [symmetric]
  proof (rule cell_okI)
    fix h i assume "2 * h < count m' S" and "i < length ws"
    then have "2 * h < 2 * g + 1" by (simp add: m' count_append cnt) presburger
    with D(4) cnt \<open>i < length ws\<close> show "h \<le> view_at m' S (2 * h) (ws ! i)"
      by (simp add: stamp)
  next
    fix k assume "k < count m' S"
    then consider "k < 2 * g + 1" | "k = 2 * g + 1" by (fastforce simp: m' count_append cnt)
    then show "val_at m' S k = f k"
      using D(7) assms(2) cnt by cases (simp_all add: stamp, simp_all add: m' wm_append_def nth_append)
  qed (use D cnt in \<open>simp_all add: word, simp_all add: m' count_append\<close>)
qed

lemma cell_fence: "cell_ok f H m g n \<Longrightarrow> cell_ok f H (do_wop Fence_Release m) g n"
  by (simp add: cell_ok_def wm_cur_def)

lemma cell_fenced: "cell_ok f H m g 1 \<Longrightarrow> cell_ok f H (do_wop Fence_Release m) g 2"
  by (simp add: cell_ok_def wm_cur_def)

lemma cell_word:
  assumes "cell_ok f H m g (2 + i)" and "i < length ws" and "v = H (g + 1) ! i"
  shows "cell_ok f H (do_wop (Store_Relaxed (ws ! i) v) m) g (3 + i)"
proof -
  define m' where m': "m' = do_wop (Store_Relaxed (ws ! i) v) m"
  note D = cell_okD [OF assms(1)]
  have cnt: "count m (ws ! i) = g + 1" using D(2) [OF assms(2)] by simp
  have stamp: "wm_msgs m' S = wm_msgs m S"
    using word_neq [OF assms(2)] by (simp add: m' wm_append_def)
  have other: "j < length ws \<Longrightarrow> j \<noteq> i \<Longrightarrow> wm_msgs m' (ws ! j) = wm_msgs m (ws ! j)" for j
    using word_eq assms(2) by (simp add: m' wm_append_def)
  have here: "wm_msgs m' (ws ! i) = wm_msgs m (ws ! i) @ [(v, (wm_rel m)(ws ! i := g + 1))]"
    by (simp add: m' wm_append_def cnt)
  have rel: "2 * g + 1 \<le> wm_rel m S" using D(3) by simp
  show ?thesis unfolding m' [symmetric]
  proof (rule cell_okI)
    fix j assume j: "j < length ws"
    then show "count m' (ws ! j) = g + 1 + (if 2 + j < 3 + i then 1 else 0)"
      using D(2) [OF j] by (cases "j = i") (auto simp: here other cnt)
  next
    fix j k assume j: "j < length ws" and k: "k < count m' (ws ! j)"
    have "2 * k \<le> view_at m' (ws ! j) k S + 1 \<and> val_at m' (ws ! j) k = H k ! j"
    proof (cases "j = i \<and> k = g + 1")
      case True
      then show ?thesis
        using rel assms(2,3) cnt word_neq [OF assms(2)] by (simp add: here nth_append)
    next
      case False
      then have "k < count m (ws ! j)" "wm_msgs m' (ws ! j) ! k = wm_msgs m (ws ! j) ! k"
        using j k cnt other [OF j] by (cases "j = i"; simp add: here nth_append)+
      then show ?thesis using D(5,6) [OF j] by simp
    qed
    then show "2 * k \<le> view_at m' (ws ! j) k S + 1" "val_at m' (ws ! j) k = H k ! j" by simp_all
  qed (use D rel in \<open>simp_all add: stamp\<close>, simp add: m')
qed

lemma cell_publish:
  assumes "cell_ok f H m g (2 + length ws)" and "v = f (2 * g + 2)"
  shows "cell_ok f H (do_wop (Store_Release S v) m) (g + 1) 0"
proof -
  define m' where m': "m' = do_wop (Store_Release S v) m"
  note D = cell_okD [OF assms(1)]
  have cnt: "count m S = 2 * g + 2" using D(1) by simp
  have stamp: "k < 2 * g + 2 \<Longrightarrow> wm_msgs m' S ! k = wm_msgs m S ! k" for k
    using cnt by (simp add: m' msgs_append count_append)
  have new: "wm_msgs m' S ! (2 * g + 2) = (v, (wm_cur m)(S := 2 * g + 2))"
    using cnt by (simp add: m' msgs_append count_append)
  have word: "i < length ws \<Longrightarrow> wm_msgs m' (ws ! i) = wm_msgs m (ws ! i)" for i
    by (simp add: m' wm_append_def word_neq)
  show ?thesis unfolding m' [symmetric]
  proof (rule cell_okI)
    fix h i assume h: "2 * h < count m' S" and i: "i < length ws"
    then consider "2 * h < 2 * g + 2" | "2 * h = 2 * g + 2" by (fastforce simp: m' count_append cnt)
    then show "h \<le> view_at m' S (2 * h) (ws ! i)"
    proof cases
      case 1
      with D(4) cnt i show ?thesis by (simp add: stamp)
    next
      case 2
      then have "wm_msgs m' S ! (2 * h) = (v, (wm_cur m)(S := 2 * g + 2))" by (simp only: new)
      with 2 D(2) [OF i] i show ?thesis by (simp add: wm_cur_def word_neq)
    qed
  next
    fix k assume "k < count m' S"
    then consider "k < 2 * g + 2" | "k = 2 * g + 2" by (fastforce simp: m' count_append cnt)
    then show "val_at m' S k = f k"
      using D(7) assms(2) cnt new by cases (simp_all add: stamp)
  qed (use D cnt in \<open>simp_all add: word, simp_all add: m' count_append\<close>)
qed

lemma cell_other:
  assumes "cell_ok f H m g n" and "l \<noteq> S" and "l \<notin> set ws"
  shows "cell_ok f H (wm_append m l v V) g n"
proof -
  have "wm_msgs (wm_append m l v V) S = wm_msgs m S" "wm_rel (wm_append m l v V) = wm_rel m"
    "i < length ws \<Longrightarrow> wm_msgs (wm_append m l v V) (ws ! i) = wm_msgs m (ws ! i)" for i
    using assms(2,3) nth_mem by (auto simp: wm_append_def)
  then show ?thesis using assms(1) by (simp add: cell_ok_def)
qed

lemma cell_hist_cong:
  assumes "cell_ok f H m g n"
    and "\<And>j. j \<le> g \<Longrightarrow> H' j = H j" and "2 < n \<Longrightarrow> H' (g + 1) = H (g + 1)"
  shows "cell_ok f H' m g n"
proof -
  note D = cell_okD [OF assms(1)]
  have "H' j ! i = H j ! i" if i: "i < length ws" and j: "j < count m (ws ! i)" for i j
  proof (cases "j \<le> g")
    case False
    then have "j = g + 1" "2 < n" using D(2) [OF i] j by (auto split: if_splits)
    with assms(3) show ?thesis by simp
  qed (simp add: assms(2))
  with D show ?thesis by (intro cell_okI) simp_all
qed

subsection \<open>The reader\<close>

text \<open>\<open>cand m l g v b\<close>: \<open>v\<close> is message \<open>j \<ge> g\<close> of word \<open>l\<close>, and the bound \<open>b\<close> covers its mark.\<close>

definition cand :: "'l wmem \<Rightarrow> 'l \<Rightarrow> nat \<Rightarrow> u64 \<Rightarrow> nat \<Rightarrow> bool" where
  "cand m l g v b \<longleftrightarrow> (\<exists>j. g \<le> j \<and> j < count m l \<and> v = val_at m l j \<and> 2 * j \<le> b + 1)"

lemma cand_mono: "cand m l g v b \<Longrightarrow> wm_le m m' \<Longrightarrow> b \<le> b' \<Longrightarrow> cand m' l g v b'"
  unfolding cand_def
  by (elim exE) (rule_tac x = j in exI, auto simp: wm_le_nth dest: wm_le_count [of _ _ l])

definition reading :: "'l wmem \<Rightarrow> nat \<Rightarrow> u64 list \<Rightarrow> ('l, 'a) reader \<Rightarrow> bool" where
  "reading m g vals rd \<longleftrightarrow>
     length vals \<le> length ws \<and> 2 * g \<le> rd_cur rd S \<and> (\<forall>i < length ws. g \<le> rd_cur rd (ws ! i))
     \<and> (\<forall>i < length vals. cand m (ws ! i) g (vals ! i) (rd_acq rd S))"

definition fenced :: "'l wmem \<Rightarrow> nat \<Rightarrow> u64 list \<Rightarrow> ('l, 'a) reader \<Rightarrow> bool" where
  "fenced m g vals rd \<longleftrightarrow>
     length vals = length ws \<and> 2 * g \<le> rd_cur rd S
     \<and> (\<forall>i < length ws. cand m (ws ! i) g (vals ! i) (rd_cur rd S))"

lemma reading_mono: "reading m g vals rd \<Longrightarrow> wm_le m m' \<Longrightarrow> reading m' g vals rd"
  unfolding reading_def by (auto intro: cand_mono)

lemma fenced_mono: "fenced m g vals rd \<Longrightarrow> wm_le m m' \<Longrightarrow> fenced m' g vals rd"
  unfolding fenced_def by (auto intro: cand_mono)

lemma reading_start:
  assumes "cell_ok f H m g' n" and "2 * g < count m S"
    and "rd_cur rd' = sup (sup (rd_cur rd) (single S (2 * g))) (view_at m S (2 * g))"
  shows "reading m g [] rd'"
  using cell_okD(4) [OF assms(1,2)] by (simp add: reading_def assms(3) single_def sup_nat_def le_max_iff_disj)

lemma reading_word:
  assumes cell: "cell_ok f H m g' n" and rd: "reading m g vals rd" and i: "length vals < length ws"
    and j: "rd_cur rd (ws ! length vals) \<le> j" "j < count m (ws ! length vals)"
    and cur: "rd_cur rd' = sup (rd_cur rd) (single (ws ! length vals) j)"
    and acq: "rd_acq rd' = sup (sup (rd_acq rd) (single (ws ! length vals) j))
        (view_at m (ws ! length vals) j)"
  shows "reading m g (vals @ [val_at m (ws ! length vals) j]) rd'"
proof -
  have "2 * j \<le> view_at m (ws ! length vals) j S + 1"
    by (rule cell_okD(5) [OF cell i j(2)])
  moreover have "g \<le> j" using rd i j(1) by (auto simp: reading_def intro: order_trans)
  ultimately have new: "cand m (ws ! length vals) g (val_at m (ws ! length vals) j) (rd_acq rd' S)"
    using j(2) unfolding cand_def by (intro exI [of _ j]) (auto simp: acq sup_nat_def)
  have "rd_acq rd S \<le> rd_acq rd' S" by (simp add: acq sup_nat_def)
  then have old: "k < length vals \<Longrightarrow> cand m (ws ! k) g (vals ! k) (rd_acq rd' S)" for k
    using rd by (auto simp: reading_def intro: cand_mono [OF _ wm_le_refl])
  show ?thesis
    using rd i new old unfolding reading_def
    by (auto simp: nth_append less_Suc_eq cur sup_nat_def le_max_iff_disj)
qed

lemma fenced_start:
  assumes "reading m g vals rd" and "length vals = length ws"
    and "rd_cur rd' = sup (rd_cur rd) (rd_acq rd)"
  shows "fenced m g vals rd'"
  using assms unfolding reading_def fenced_def
  by (auto simp: sup_nat_def le_max_iff_disj intro: cand_mono [OF _ wm_le_refl])

lemma fenced_consistent:
  assumes "cell_ok f H m g' n" and "fenced m g vals rd" and "rd_cur rd S \<le> 2 * g"
    and "length (H g) = length ws"
  shows "vals = H g"
proof (rule nth_equalityI)
  show "length vals = length (H g)" using assms(2,4) by (simp add: fenced_def)
  fix i assume "i < length vals"
  then have i: "i < length ws" using assms(2) by (simp add: fenced_def)
  then obtain j where j: "g \<le> j" "j < count m (ws ! i)" "vals ! i = val_at m (ws ! i) j"
    "2 * j \<le> rd_cur rd S + 1"
    using assms(2) by (auto simp: fenced_def cand_def)
  with assms(3) have "j = g" by linarith
  with cell_okD(6) [OF assms(1) i j(2)] j(3) show "vals ! i = H g ! i" by simp
qed

lemma words_step:
  assumes "cell_ok f H m g' n" and "reading m g vals rd" and "length vals < length ws"
    and "rd_prog rd = read_words (drop (length vals) ws) vals k" and "read_step m rd rd'"
  shows "\<exists>v. rd_prog rd' = read_words (drop (Suc (length vals)) ws) (vals @ [v]) k
    \<and> reading m g (vals @ [v]) rd'"
proof -
  have prog: "rd_prog rd = Load_Relaxed (ws ! length vals)
      (\<lambda>v. read_words (drop (Suc (length vals)) ws) (vals @ [v]) k)"
    using assms(3,4) by (simp flip: Cons_nth_drop_Suc)
  from assms(5) show ?thesis
  proof (cases rule: read_stepE)
    case (relaxed l k' i)
    from prog relaxed(1) have l: "l = ws ! length vals"
      and k': "k' = (\<lambda>v. read_words (drop (Suc (length vals)) ws) (vals @ [v]) k)" by simp_all
    have "reading m g (vals @ [val_at m l i]) rd'"
      using reading_word [OF assms(1,2,3), of i rd'] relaxed unfolding l by blast
    moreover have "rd_prog rd' = read_words (drop (Suc (length vals)) ws) (vals @ [val_at m l i]) k"
      by (simp only: relaxed(4) k')
    ultimately show ?thesis by blast
  qed (simp_all add: prog)
qed

end

end
