(* ===== verification/Seqlock.thy ===== *)
theory Seqlock
  imports Stamped_Cell
begin

unbundle bit_operations_syntax

section \<open>The top-of-book seqlock (sync/src/seqlock.rs)\<close>

text \<open>
  \<open>seqlock_store\<close> and \<open>seqlock_attempt\<close> are \<open>store\<close> and one turn of the loop of \<open>load_counted\<close>,
  operation by operation with the source's orderings. Run alone they give the sequential
  behaviour (\<open>seqlock_load_counted\<close> is the loop, undefined where it spins for ever). \<open>seq_step\<close>
  interleaves one writer with any number of readers on the view machine. The version counter is
  an \<open>AtomicU32\<close>: its message \<open>i\<close> holds \<open>i mod 2 ^ 32\<close>, so a repeated value identifies a version
  only while fewer than \<open>2 ^ 31\<close> stores have been made.
\<close>

datatype seq_loc = Seq | BidPx | BidQty | AskPx | AskQty | Stamp

record top_of_book =
  tob_bid_px :: i64
  tob_bid_qty :: i64
  tob_ask_px :: i64
  tob_ask_qty :: i64
  tob_stamp :: u64

definition tob_default :: top_of_book where
  "tob_default = \<lparr>tob_bid_px = 0, tob_bid_qty = 0, tob_ask_px = 0, tob_ask_qty = 0, tob_stamp = 0\<rparr>"

definition tob_words :: "top_of_book \<Rightarrow> u64 list" where
  "tob_words t = [tob_bid_px t, tob_bid_qty t, tob_ask_px t, tob_ask_qty t, tob_stamp t]"

definition tob_of :: "u64 list \<Rightarrow> top_of_book" where
  "tob_of vs =
     \<lparr>tob_bid_px = vs ! 0, tob_bid_qty = vs ! 1, tob_ask_px = vs ! 2, tob_ask_qty = vs ! 3,
      tob_stamp = vs ! 4\<rparr>"

definition payload_locs :: "seq_loc list" where
  "payload_locs = [BidPx, BidQty, AskPx, AskQty, Stamp]"

text \<open>The 32-bit counter in the 64-bit cells of the memory.\<close>

definition of_u32 :: "u32 \<Rightarrow> u64" where "of_u32 s = ucast s"
definition to_u32 :: "u64 \<Rightarrow> u32" where "to_u32 v = ucast v"

fun seqlock_new :: "top_of_book \<Rightarrow> seq_loc plain" where
  "seqlock_new t Seq = of_u32 0"
| "seqlock_new t BidPx = tob_bid_px t"
| "seqlock_new t BidQty = tob_bid_qty t"
| "seqlock_new t AskPx = tob_ask_px t"
| "seqlock_new t AskQty = tob_ask_qty t"
| "seqlock_new t Stamp = tob_stamp t"

text \<open>\<open>store\<close>, given the value \<open>s\<close> its first load of the counter returns.\<close>

definition seqlock_store :: "u32 \<Rightarrow> top_of_book \<Rightarrow> seq_loc wop list" where
  "seqlock_store s t =
     [Store_Relaxed Seq (of_u32 (s + 1)),
      Fence_Release,
      Store_Relaxed BidPx (tob_bid_px t),
      Store_Relaxed BidQty (tob_bid_qty t),
      Store_Relaxed AskPx (tob_ask_px t),
      Store_Relaxed AskQty (tob_ask_qty t),
      Store_Relaxed Stamp (tob_stamp t),
      Store_Release Seq (of_u32 (s + 2))]"

text \<open>One turn of the loop: \<open>Some\<close> the snapshot, or \<open>None\<close> for a retry.\<close>

definition seqlock_check :: "u32 \<Rightarrow> u64 list \<Rightarrow> (seq_loc, top_of_book option) rprog" where
  "seqlock_check s1 vs =
     Fence_Acquire (Load_Relaxed Seq (\<lambda>v2. Ret (if s1 = to_u32 v2 then Some (tob_of vs) else None)))"

definition seqlock_attempt :: "(seq_loc, top_of_book option) rprog" where
  "seqlock_attempt =
     Load_Acquire Seq (\<lambda>v1.
       let s1 = to_u32 v1
       in if s1 AND 1 = 0 then read_words payload_locs [] (seqlock_check s1) else Ret None)"

definition u32_saturating_inc :: "u32 \<Rightarrow> u32" where
  "u32_saturating_inc r = (if r = - 1 then r else r + 1)"

partial_function (option) load_loop :: "seq_loc plain \<Rightarrow> u32 \<Rightarrow> (top_of_book \<times> u32) option" where
  "load_loop \<sigma> retries =
     (case plain_read \<sigma> seqlock_attempt of
        Some t \<Rightarrow> Some (t, retries)
      | None \<Rightarrow> load_loop \<sigma> (u32_saturating_inc retries))"

definition seqlock_load_counted :: "seq_loc plain \<Rightarrow> (top_of_book \<times> u32) option" where
  "seqlock_load_counted \<sigma> = load_loop \<sigma> 0"

definition seqlock_load :: "seq_loc plain \<Rightarrow> top_of_book option" where
  "seqlock_load \<sigma> = map_option fst (seqlock_load_counted \<sigma>)"

definition plain_store :: "top_of_book \<Rightarrow> seq_loc plain \<Rightarrow> seq_loc plain" where
  "plain_store t \<sigma> = plain_ops (seqlock_store (to_u32 (\<sigma> Seq)) t) \<sigma>"

lemma to_of_u32 [simp]: "to_u32 (of_u32 s) = s"
  unfolding to_u32_def of_u32_def by (rule ucast_up_ucast_id)
    (simp add: is_up_def source_size_def target_size_def word_size)

lemma tob_of_words [simp]: "tob_of (tob_words t) = t"
  by (simp add: tob_of_def tob_words_def)

lemma length_tob_words [simp]: "length (tob_words t) = length payload_locs"
  by (simp add: tob_words_def payload_locs_def)

lemma seqlock_store_eq:
  "seqlock_store s t = Store_Relaxed Seq (of_u32 (s + 1)) # Fence_Release
     # write_words payload_locs (tob_words t) @ [Store_Release Seq (of_u32 (s + 2))]"
  by (simp add: seqlock_store_def payload_locs_def tob_words_def)

lemma length_seqlock_store [simp]: "length (seqlock_store s t) = 8"
  by (simp add: seqlock_store_def)

interpretation tob: stamped_cell Seq payload_locs
  by unfold_locales (simp add: payload_locs_def)

subsection \<open>Sequential behaviour\<close>

lemma even_plus_two: "(s :: u32) AND 1 = 0 \<Longrightarrow> (s + 2) AND 1 = 0"
  by (simp add: and_one_eq flip: even_iff_mod_2_eq_zero)

lemma seqlock_load_stable:
  assumes "to_u32 (\<sigma> Seq) AND 1 = 0"
  shows "seqlock_load_counted \<sigma> = Some (tob_of (map \<sigma> payload_locs), 0)"
  using assms unfolding seqlock_load_counted_def
  by (subst load_loop.simps)
    (simp add: seqlock_attempt_def plain_read_words seqlock_check_def)

lemma plain_store_seq: "plain_store t \<sigma> Seq = of_u32 (to_u32 (\<sigma> Seq) + 2)"
  by (simp add: plain_store_def seqlock_store_def)

lemma plain_store_words: "map (plain_store t \<sigma>) payload_locs = tob_words t"
  by (simp add: plain_store_def seqlock_store_def payload_locs_def tob_words_def)

subsection \<open>One writer and many readers\<close>

record seq_thread =
  st_reader :: "(seq_loc, top_of_book option) reader"
  st_retries :: u32

record seq_sys =
  ss_mem :: "seq_loc wmem"
  ss_pending :: "seq_loc wop list"
  ss_hist :: "top_of_book list"
  ss_threads :: "nat \<Rightarrow> seq_thread"

text \<open>
  \<open>ss_hist\<close> records the initial snapshot and every snapshot whose store has begun. A reader that
  finishes a turn starts the next (after a retry with the counter bumped) and keeps its views.
\<close>

definition seq_init :: "top_of_book \<Rightarrow> seq_sys" where
  "seq_init t =
     \<lparr>ss_mem = wm_init (seqlock_new t), ss_pending = [], ss_hist = [t],
      ss_threads = (\<lambda>_. \<lparr>st_reader = \<lparr>rd_prog = seqlock_attempt, rd_cur = (\<lambda>_. 0),
        rd_acq = (\<lambda>_. 0)\<rparr>, st_retries = 0\<rparr>)\<rparr>"

definition set_thread :: "seq_sys \<Rightarrow> nat \<Rightarrow> seq_thread \<Rightarrow> seq_sys" where
  "set_thread s r th = s\<lparr>ss_threads := (ss_threads s)(r := th)\<rparr>"

definition restart :: "seq_thread \<Rightarrow> u32 \<Rightarrow> seq_thread" where
  "restart th n =
     th\<lparr>st_reader := (st_reader th)\<lparr>rd_prog := seqlock_attempt\<rparr>, st_retries := n\<rparr>"

inductive seq_step :: "seq_sys \<Rightarrow> seq_sys \<Rightarrow> bool" where
  store_begin:
    "ss_pending s = [] \<Longrightarrow>
     seq_step s (s\<lparr>ss_pending := seqlock_store (to_u32 (wm_latest (ss_mem s) Seq)) t,
                   ss_hist := ss_hist s @ [t]\<rparr>)"
| store_op:
    "ss_pending s = op # ops \<Longrightarrow>
     seq_step s (s\<lparr>ss_mem := do_wop op (ss_mem s), ss_pending := ops\<rparr>)"
| load_op:
    "read_step (ss_mem s) (st_reader (ss_threads s r)) rd \<Longrightarrow>
     seq_step s (set_thread s r ((ss_threads s r)\<lparr>st_reader := rd\<rparr>))"
| load_retry:
    "rd_prog (st_reader (ss_threads s r)) = Ret None \<Longrightarrow>
     seq_step s (set_thread s r
       (restart (ss_threads s r) (u32_saturating_inc (st_retries (ss_threads s r)))))"
| load_again:
    "rd_prog (st_reader (ss_threads s r)) = Ret (Some t) \<Longrightarrow>
     seq_step s (set_thread s r (restart (ss_threads s r) 0))"

inductive seq_reach :: "top_of_book \<Rightarrow> seq_sys \<Rightarrow> bool" for t where
  init: "seq_reach t (seq_init t)"
| step: "seq_reach t s \<Longrightarrow> seq_step s s' \<Longrightarrow> seq_reach t s'"

subsection \<open>The invariant\<close>

text \<open>Value of counter message \<open>i\<close>, and the words of snapshot \<open>j\<close> of the history.\<close>

definition seq_val :: "nat \<Rightarrow> u64" where
  "seq_val i = of_u32 (of_nat i)"

definition hist_words :: "top_of_book list \<Rightarrow> nat \<Rightarrow> u64 list" where
  "hist_words hist j = tob_words (hist ! j)"

definition writer_inv :: "seq_sys \<Rightarrow> nat \<Rightarrow> nat \<Rightarrow> bool" where
  "writer_inv s g n \<longleftrightarrow>
     tob.cell_ok seq_val (hist_words (ss_hist s)) (ss_mem s) g n \<and> views_ok (ss_mem s)
     \<and> (ss_pending s = [] \<and> n = 0 \<and> length (ss_hist s) = g + 1
        \<or> n \<le> 7 \<and> length (ss_hist s) = g + 2
          \<and> ss_pending s = drop n (seqlock_store (of_nat (2 * g)) (ss_hist s ! (g + 1))))"

text \<open>
  Where a reader stands in its turn, and what its views then guarantee: nothing older than generation
  \<open>low\<close>, in particular.
\<close>

inductive thread_phase ::
  "nat \<Rightarrow> seq_loc wmem \<Rightarrow> top_of_book list \<Rightarrow> (seq_loc, top_of_book option) reader \<Rightarrow> bool"
  for low m hist rd where
  start: "rd_prog rd = seqlock_attempt \<Longrightarrow> 2 * low \<le> rd_cur rd Seq \<Longrightarrow> thread_phase low m hist rd"
| words:
    "2 * g < count m Seq \<Longrightarrow> low \<le> g \<Longrightarrow> tob.reading m g vals rd \<Longrightarrow>
     rd_prog rd = read_words (drop (length vals) payload_locs) vals (seqlock_check (of_nat (2 * g)))
     \<Longrightarrow> thread_phase low m hist rd"
| check:
    "2 * g < count m Seq \<Longrightarrow> low \<le> g \<Longrightarrow> tob.fenced m g vals rd \<Longrightarrow>
     rd_prog rd = Load_Relaxed Seq (\<lambda>v2.
       Ret (if of_nat (2 * g) = to_u32 v2 then Some (tob_of vals) else None))
     \<Longrightarrow> thread_phase low m hist rd"
| retry: "rd_prog rd = Ret None \<Longrightarrow> 2 * low \<le> rd_cur rd Seq \<Longrightarrow> thread_phase low m hist rd"
| got:
    "2 * g < count m Seq \<Longrightarrow> low \<le> g \<Longrightarrow> 2 * g \<le> rd_cur rd Seq \<Longrightarrow> g < length hist \<Longrightarrow>
     rd_prog rd = Ret (Some (hist ! g)) \<Longrightarrow> thread_phase low m hist rd"

definition thread_inv ::
  "nat \<Rightarrow> seq_loc wmem \<Rightarrow> top_of_book list \<Rightarrow> (seq_loc, top_of_book option) reader \<Rightarrow> bool" where
  "thread_inv low m hist rd \<longleftrightarrow> reader_ok m rd \<and> thread_phase low m hist rd"

definition seq_inv :: "seq_sys \<Rightarrow> bool" where
  "seq_inv s \<longleftrightarrow> (\<exists>g n. writer_inv s g n)
     \<and> (\<forall>r. thread_inv 0 (ss_mem s) (ss_hist s) (st_reader (ss_threads s r)))"

lemma thread_inv_mono:
  assumes inv: "thread_inv low m hist rd" and le: "wm_le m m'"
  shows "thread_inv low m' (hist @ xs) rd"
proof -
  have cnt: "2 * g < count m Seq \<Longrightarrow> 2 * g < count m' Seq" for g
    using wm_le_count [OF le, of Seq] by linarith
  have "thread_phase low m hist rd" using inv by (simp add: thread_inv_def)
  then have "thread_phase low m' (hist @ xs) rd"
  proof cases
    case (words g vals)
    then show ?thesis
      by (intro thread_phase.words [OF cnt _ tob.reading_mono [OF _ le]])
  next
    case (check g vals)
    then show ?thesis
      by (intro thread_phase.check [OF cnt _ tob.fenced_mono [OF _ le]])
  next
    case (got g)
    then show ?thesis using cnt by (intro thread_phase.got [of g]) (simp_all add: nth_append)
  qed (auto intro: thread_phase.start thread_phase.retry)
  moreover have "reader_ok m' rd"
    using inv by (intro reader_ok_mono [OF _ le]) (simp add: thread_inv_def)
  ultimately show ?thesis by (simp add: thread_inv_def)
qed

lemma even_seq_val:
  "to_u32 (seq_val i) AND 1 = 0 \<longleftrightarrow> even i"
proof -
  have "even (of_nat i :: u32) \<longleftrightarrow> even i"
    by simp
  then show ?thesis by (simp add: seq_val_def and_one_eq even_iff_mod_2_eq_zero)
qed

lemma seq_val_inj:
  assumes "of_nat (2 * g) = to_u32 (seq_val i)" and "2 * g < 2 ^ 32" and "i < 2 ^ 32"
  shows "i = 2 * g"
proof -
  have "take_bit 32 (2 * g) = take_bit 32 i"
    using assms(1) by (simp only: seq_val_def to_of_u32 word_of_nat_eq_iff) simp
  then show ?thesis
    using assms(2,3) by (simp add: take_bit_nat_eq_self)
qed

lemma thread_inv_step:
  assumes cell: "tob.cell_ok seq_val (hist_words hist) m g' n" and ok: "views_ok m"
    and short: "count m Seq \<le> 2 ^ 32" and hist: "g' < length hist"
    and inv: "thread_inv low m hist rd" and step: "read_step m rd rd'"
  shows "thread_inv low m hist rd'"
proof -
  have rok: "reader_ok m rd'"
    using reader_ok_step [OF ok _ step] inv by (simp add: thread_inv_def)
  have grow: "rd_cur rd Seq \<le> rd_cur rd' Seq"
    using step by (cases rule: read_stepE) (simp_all add: sup_nat_def)
  have "thread_phase low m hist rd" using inv by (simp add: thread_inv_def)
  then have "thread_phase low m hist rd'"
  proof cases
    case start
    have old: "2 * low \<le> rd_cur rd' Seq" using start(2) grow by linarith
    from step show ?thesis
    proof (cases rule: read_stepE)
      case (acquire l k i)
      from start acquire(1) have l: "l = Seq" and k: "k = (\<lambda>v1. let s1 = to_u32 v1
          in if s1 AND 1 = 0 then read_words payload_locs [] (seqlock_check s1) else Ret None)"
        by (simp_all add: seqlock_attempt_def)
      have prog: "rd_prog rd' = (let s1 = to_u32 (val_at m Seq i)
          in if s1 AND 1 = 0 then read_words payload_locs [] (seqlock_check s1) else Ret None)"
        by (simp only: acquire(4) k l)
      have val: "val_at m Seq i = seq_val i" using tob.cell_okD(7) [OF cell] acquire(3) l by simp
      show ?thesis
      proof (cases "even i")
        case True
        then obtain g where g: "i = 2 * g" by blast
        have "tob.reading m g [] rd'"
          using tob.reading_start [OF cell, of g rd' rd] acquire g l by simp
        moreover have "rd_prog rd' = read_words payload_locs [] (seqlock_check (of_nat (2 * g)))"
        proof -
          have v: "to_u32 (val_at m Seq i) = of_nat (2 * g)"
            unfolding val by (simp only: g seq_val_def to_of_u32)
          moreover have "to_u32 (val_at m Seq i) AND 1 = 0" using even_seq_val [of i] True val by simp
          ultimately have "to_u32 (val_at m Seq i) = of_nat (2 * g)" "(of_nat (2 * g) :: u32) AND 1 = 0"
            by simp_all
          then show ?thesis by (simp only: prog Let_def simp_thms if_True)
        qed
        ultimately show ?thesis
          using acquire(2,3) start(2) g l by (intro thread_phase.words [of g m low "[]"]) simp_all
      next
        case False
        then have "rd_prog rd' = Ret None" using prog even_seq_val [of i] by (simp add: val Let_def)
        then show ?thesis using old by (rule thread_phase.retry)
      qed
    qed (use start in \<open>simp_all add: seqlock_attempt_def\<close>)
  next
    case (words g vals)
    show ?thesis
    proof (cases "length vals < length payload_locs")
      case True
      from tob.words_step [OF cell words(3) True words(4) step] obtain v where
        "rd_prog rd' = read_words (drop (length (vals @ [v])) payload_locs) (vals @ [v])
           (seqlock_check (of_nat (2 * g)))" "tob.reading m g (vals @ [v]) rd'"
        by (metis length_append_singleton)
      with words(1,2) show ?thesis by (intro thread_phase.words)
    next
      case False
      then have len: "length vals = length payload_locs" using words(3) by (simp add: tob.reading_def)
      then have prog: "rd_prog rd = seqlock_check (of_nat (2 * g)) vals" using words(4) by simp
      from step show ?thesis
      proof (cases rule: read_stepE)
        case (fence p)
        have "tob.fenced m g vals rd'" by (rule tob.fenced_start [OF words(3) len fence(3)])
        moreover have "rd_prog rd' = Load_Relaxed Seq (\<lambda>v2.
            Ret (if of_nat (2 * g) = to_u32 v2 then Some (tob_of vals) else None))"
          using fence(1,2) prog by (simp add: seqlock_check_def)
        ultimately show ?thesis using words(1,2) by (intro thread_phase.check)
      qed (simp_all add: prog seqlock_check_def)
    qed
  next
    case (check g vals)
    note cnt = check(1)
    have "2 * g \<le> rd_cur rd Seq" using check(3) by (simp add: tob.fenced_def)
    then have cur: "2 * g \<le> rd_cur rd' Seq" using grow by linarith
    from step show ?thesis
    proof (cases rule: read_stepE)
      case (relaxed l k i)
      from check(4) relaxed(1) have l: "l = Seq"
        and k: "k = (\<lambda>v2. Ret (if of_nat (2 * g) = to_u32 v2 then Some (tob_of vals) else None))"
        by simp_all
      have prog: "rd_prog rd' =
          Ret (if of_nat (2 * g) = to_u32 (val_at m Seq i) then Some (tob_of vals) else None)"
        by (simp only: relaxed(4) k l)
      have val: "val_at m Seq i = seq_val i" using tob.cell_okD(7) [OF cell] relaxed(3) l by simp
      show ?thesis
      proof (cases "of_nat (2 * g) = to_u32 (val_at m Seq i)")
        case True
        then have "i = 2 * g"
          using seq_val_inj [of g i] cnt relaxed(3) short l by (simp add: val)
        then have "vals = hist_words hist g"
          using tob.fenced_consistent [OF cell check(3)] relaxed(2) l by (simp add: hist_words_def)
        moreover have "g < length hist"
          using cnt tob.cell_okD(1) [OF cell] hist by (auto split: if_splits)
        ultimately have "rd_prog rd' = Ret (Some (hist ! g)) \<and> g < length hist"
          using prog True by (simp add: hist_words_def)
        with cnt check(2) cur show ?thesis by (blast intro: thread_phase.got)
      next
        case False
        with prog check(2) cur show ?thesis by (intro thread_phase.retry) simp_all
      qed
    qed (use check(4) in simp_all)
  next
    case retry
    with step show ?thesis by (auto elim!: read_stepE)
  next
    case (got g)
    with step show ?thesis by (auto elim!: read_stepE)
  qed
  with rok show ?thesis by (simp add: thread_inv_def)
qed

lemma writer_inv_hist: "writer_inv s g n \<Longrightarrow> g < length (ss_hist s)"
  by (auto simp: writer_inv_def)

lemma seq_val_next: "of_u32 (to_u32 (seq_val (2 * g)) + 1) = seq_val (2 * g + 1)"
    "of_u32 (of_nat (2 * g) + 1) = seq_val (2 * g + 1)"
    "of_u32 (of_nat (2 * g) + 2) = seq_val (2 * g + 2)"
  by (simp_all add: seq_val_def add.commute)

lemma writer_begin:
  assumes inv: "writer_inv s g n" and idle: "ss_pending s = []"
  shows "writer_inv (s\<lparr>ss_pending := seqlock_store (to_u32 (wm_latest (ss_mem s) Seq)) t,
      ss_hist := ss_hist s @ [t]\<rparr>) g 0"
proof -
  have "n = 0" and len: "length (ss_hist s) = g + 1"
    using inv idle by (auto simp: writer_inv_def)
  with inv have cell: "tob.cell_ok seq_val (hist_words (ss_hist s)) (ss_mem s) g 0"
    by (simp add: writer_inv_def)
  note D = tob.cell_okD [OF this]
  have "wm_latest (ss_mem s) Seq = seq_val (2 * g)"
    using D(1) D(7) [of "2 * g"] by (simp add: wm_latest_def last_conv_nth flip: length_greater_0_conv)
  moreover have "tob.cell_ok seq_val (hist_words (ss_hist s @ [t])) (ss_mem s) g 0"
    by (rule tob.cell_hist_cong [OF cell]) (simp_all add: hist_words_def nth_append len)
  ultimately show ?thesis
    using inv len by (simp add: writer_inv_def seq_val_def nth_append)
qed

lemma store_nth:
  "seqlock_store s t ! 0 = Store_Relaxed Seq (of_u32 (s + 1))"
  "seqlock_store s t ! 1 = Fence_Release"
  "i < length payload_locs \<Longrightarrow> seqlock_store s t ! (2 + i) = Store_Relaxed (payload_locs ! i) (tob_words t ! i)"
  "seqlock_store s t ! 7 = Store_Release Seq (of_u32 (s + 2))"
proof -
  show "i < length payload_locs \<Longrightarrow>
      seqlock_store s t ! (2 + i) = Store_Relaxed (payload_locs ! i) (tob_words t ! i)"
    unfolding seqlock_store_eq
    by (simp add: nth_append length_write_words nth_write_words)
qed (simp_all add: seqlock_store_def)

lemma writer_op:
  assumes inv: "writer_inv s g n" and busy: "ss_pending s = op # ops"
  shows "\<exists>g' n'. writer_inv (s\<lparr>ss_mem := do_wop op (ss_mem s), ss_pending := ops\<rparr>) g' n'"
proof -
  let ?t = "ss_hist s ! (g + 1)" and ?H = "hist_words (ss_hist s)" and ?m = "do_wop op (ss_mem s)"
  have n: "n \<le> 7" and len: "length (ss_hist s) = g + 2"
    and pend: "op # ops = drop n (seqlock_store (of_nat (2 * g)) ?t)"
    and cell: "tob.cell_ok seq_val ?H (ss_mem s) g n" and views: "views_ok ?m"
    using inv busy views_ok_do_wop by (auto simp: writer_inv_def)
  have "drop n (seqlock_store (of_nat (2 * g)) ?t) =
      seqlock_store (of_nat (2 * g)) ?t ! n # drop (Suc n) (seqlock_store (of_nat (2 * g)) ?t)"
    using n by (intro Cons_nth_drop_Suc [symmetric]) simp
  with pend have op: "op = seqlock_store (of_nat (2 * g)) ?t ! n"
    and ops: "ops = drop (Suc n) (seqlock_store (of_nat (2 * g)) ?t)" by simp_all
  have more: ?thesis if "tob.cell_ok seq_val ?H ?m g (n + 1)" "n < 7"
    using that views len ops unfolding writer_inv_def by (intro exI [of _ g] exI [of _ "n + 1"]) simp
  consider "n = 0" | "n = 1" | i where "n = 2 + i" "i < length payload_locs" | "n = 7"
  proof -
    have "n = 0 \<or> n = 1 \<or> n = 7 \<or> (\<exists>i. n = 2 + i \<and> i < 5)"
      using n by presburger
    then show thesis using that by (auto simp: payload_locs_def)
  qed
  then show ?thesis
  proof cases
    case 1
    then have "op = Store_Relaxed Seq (seq_val (2 * g + 1))"
      using op by (simp only: store_nth seq_val_next)
    with tob.cell_mark [OF cell [unfolded 1] refl] 1 more show ?thesis by simp
  next
    case 2
    then have "op = Fence_Release" using op by (simp only: store_nth)
    with tob.cell_fenced [OF cell [unfolded 2]] 2 more show ?thesis by (simp add: numeral_2_eq_2)
  next
    case (3 i)
    then have "op = Store_Relaxed (payload_locs ! i) (?H (g + 1) ! i)"
      using op by (simp only: store_nth hist_words_def)
    then have "tob.cell_ok seq_val ?H ?m g (3 + i)"
      using tob.cell_word [OF cell [unfolded 3(1)] 3(2) refl] by simp
    moreover have "n + 1 = 3 + i" "n < 7" using 3 by (simp_all add: payload_locs_def)
    ultimately show ?thesis using more by (simp only:)
  next
    case 4
    then have "op = Store_Release Seq (seq_val (2 * g + 2))"
      using op by (simp only: store_nth seq_val_next)
    moreover have "7 = 2 + length payload_locs" by (simp add: payload_locs_def)
    ultimately have "tob.cell_ok seq_val ?H ?m (g + 1) 0"
      using tob.cell_publish [OF _ refl, of seq_val ?H "ss_mem s" g] cell 4 by simp
    moreover have "ops = []" using ops 4 by simp
    ultimately show ?thesis
      using views len unfolding writer_inv_def by (intro exI [of _ "g + 1"] exI [of _ 0]) simp
  qed
qed

lemma seq_inv_init: "seq_inv (seq_init t)"
proof -
  have "tob.cell_ok seq_val (hist_words [t]) (wm_init (seqlock_new t)) 0 0"
  proof (rule tob.cell_init)
    show "\<forall>i < length payload_locs. hist_words [t] 0 ! i = seqlock_new t (payload_locs ! i)"
      by (auto simp: hist_words_def payload_locs_def tob_words_def less_Suc_eq numeral_eq_Suc)
  qed (simp add: seq_val_def)
  moreover have "reader_ok (wm_init (seqlock_new t)) \<lparr>rd_prog = seqlock_attempt, rd_cur = (\<lambda>_. 0), rd_acq = (\<lambda>_. 0)\<rparr>"
    by (simp add: reader_ok_def view_ok_def wm_init_def)
  ultimately show ?thesis
    unfolding seq_inv_def writer_inv_def
    by (auto simp: seq_init_def thread_inv_def views_ok_init intro!: exI [of _ 0] thread_phase.start)
qed

lemma seq_inv_thread:
  assumes "seq_inv s" and "thread_inv 0 (ss_mem s) (ss_hist s) (st_reader th)"
  shows "seq_inv (set_thread s r th)"
  using assms unfolding seq_inv_def set_thread_def writer_inv_def by simp

lemma thread_inv_restart:
  "thread_inv low m hist rd \<Longrightarrow> thread_inv 0 m hist (rd\<lparr>rd_prog := seqlock_attempt\<rparr>)"
  by (simp add: thread_inv_def reader_ok_def thread_phase.start)

lemma seq_inv_step:
  assumes inv: "seq_inv s" and step: "seq_step s s'" and short: "length (ss_hist s') \<le> 2 ^ 31"
  shows "seq_inv s'"
  using step
proof cases
  case (store_begin t)
  obtain g n where w: "writer_inv s g n" using inv by (auto simp: seq_inv_def)
  have "thread_inv 0 (ss_mem s) (ss_hist s @ [t]) (st_reader (ss_threads s r))" for r
    using inv by (auto simp: seq_inv_def intro: thread_inv_mono [OF _ wm_le_refl])
  with writer_begin [OF w store_begin(2)] show ?thesis
    unfolding store_begin(1) seq_inv_def by auto
next
  case (store_op op ops)
  obtain g n where w: "writer_inv s g n" using inv by (auto simp: seq_inv_def)
  have "thread_inv 0 (do_wop op (ss_mem s)) (ss_hist s) (st_reader (ss_threads s r))" for r
    using inv by (auto simp: seq_inv_def intro: thread_inv_mono [where xs = "[]", simplified, OF _ wm_le_do_wop])
  with writer_op [OF w store_op(2)] show ?thesis
    unfolding store_op(1) seq_inv_def by auto
next
  case (load_op r rd)
  obtain g n where w: "writer_inv s g n" using inv by (auto simp: seq_inv_def)
  have hist: "ss_hist s' = ss_hist s" using load_op(1) by (simp add: set_thread_def)
  have cell: "tob.cell_ok seq_val (hist_words (ss_hist s)) (ss_mem s) g n" and ok: "views_ok (ss_mem s)"
    and bound: "g + (if n = 0 then 1 else 2) \<le> length (ss_hist s)"
    using w by (auto simp: writer_inv_def)
  have "count (ss_mem s) Seq \<le> 2 ^ 32"
    using tob.cell_okD(1) [OF cell] bound short hist by (auto split: if_splits)
  then have "thread_inv 0 (ss_mem s) (ss_hist s) rd"
    using thread_inv_step [OF cell ok _ writer_inv_hist [OF w] _ load_op(2)] inv
    by (simp add: seq_inv_def)
  with seq_inv_thread [OF inv] show ?thesis unfolding load_op(1) by simp
next
  case (load_retry r)
  with seq_inv_thread [OF inv] thread_inv_restart [of 0] inv show ?thesis
    by (simp add: restart_def seq_inv_def [of s])
next
  case (load_again r t)
  with seq_inv_thread [OF inv] thread_inv_restart [of 0] inv show ?thesis
    by (simp add: restart_def seq_inv_def [of s])
qed

lemma seq_step_hist: "seq_step s s' \<Longrightarrow> length (ss_hist s) \<le> length (ss_hist s')"
  by (erule seq_step.cases) (auto simp: set_thread_def)

lemma seq_reach_inv: "seq_reach t s \<Longrightarrow> length (ss_hist s) \<le> 2 ^ 31 \<Longrightarrow> seq_inv s"
proof (induction rule: seq_reach.induct)
  case (step s s')
  with seq_step_hist [OF step.hyps(2)] seq_inv_step show ?case by (meson le_trans)
qed (rule seq_inv_init)

subsection \<open>Safety and progress\<close>

text \<open>
  \<open>published s\<close>: the initial snapshot and every snapshot whose store has begun, without the one in
  progress.
\<close>

definition published :: "seq_sys \<Rightarrow> top_of_book list" where
  "published s = (if ss_pending s = [] then ss_hist s else butlast (ss_hist s))"

lemma check_not_Ret: "read_words ws vs (seqlock_check s1) \<noteq> Ret x"
  by (cases ws) (simp_all add: seqlock_check_def)

lemma below_published:
  assumes "writer_inv s g n" and "2 * h < count (ss_mem s) Seq" and "h < length (ss_hist s)"
  shows "h < length (published s) \<and> published s ! h = ss_hist s ! h"
proof (cases "ss_pending s = []")
  case True
  with assms(3) show ?thesis by (simp add: published_def)
next
  case False
  then have "length (ss_hist s) = g + 2" "count (ss_mem s) Seq = 2 * g + (if n = 0 then 1 else 2)"
    using assms(1) tob.cell_okD(1) by (auto simp: writer_inv_def)
  with assms(2,3) have "h < length (butlast (ss_hist s))" by (auto split: if_splits)
  with False show ?thesis by (simp add: published_def nth_butlast)
qed

lemma thread_published:
  assumes "seq_inv s" and "rd_prog (st_reader (ss_threads s r)) = Ret (Some t)"
  shows "t \<in> set (published s)"
proof -
  obtain g n where w: "writer_inv s g n" using assms(1) by (auto simp: seq_inv_def)
  have "thread_phase 0 (ss_mem s) (ss_hist s) (st_reader (ss_threads s r))"
    using assms(1) by (simp add: seq_inv_def thread_inv_def)
  then obtain h where h: "2 * h < count (ss_mem s) Seq" "h < length (ss_hist s)" "t = ss_hist s ! h"
    using assms(2) by cases (auto simp: seqlock_attempt_def check_not_Ret)
  with below_published [OF w h(1,2)] show ?thesis by (metis nth_mem)
qed

lemma published_step: "seq_step s s' \<Longrightarrow> \<exists>xs. published s' = published s @ xs"
proof (induction rule: seq_step.induct)
  case (store_op s op ops)
  then show ?case
    by (cases "ss_hist s" rule: rev_cases) (auto simp: published_def)
qed (auto simp: published_def set_thread_def seqlock_store_def)

lemma published_hist: "\<exists>xs. ss_hist s = published s @ xs"
  by (cases "ss_hist s" rule: rev_cases) (auto simp: published_def)

lemma seq_reach_trans: "seq_step\<^sup>*\<^sup>* s s' \<Longrightarrow> seq_reach t s \<Longrightarrow> seq_reach t s'"
  by (induction rule: rtranclp_induct) (auto intro: seq_reach.step)

lemma seq_reads:
  assumes "(read_step (ss_mem s))\<^sup>*\<^sup>* rd rd'" and "st_reader (ss_threads s r) = rd"
  shows "\<exists>th. st_reader th = rd' \<and> seq_step\<^sup>*\<^sup>* s (set_thread s r th)"
  using assms(1)
proof (induction rule: rtranclp_induct)
  case base
  have "set_thread s r (ss_threads s r) = s" by (simp add: set_thread_def)
  then show ?case using assms(2) by (metis rtranclp.rtrancl_refl)
next
  case (step y z)
  then obtain th where th: "st_reader th = y" "seq_step\<^sup>*\<^sup>* s (set_thread s r th)" by blast
  let ?s = "set_thread s r th"
  have "seq_step ?s (set_thread ?s r ((ss_threads ?s r)\<lparr>st_reader := z\<rparr>))"
    by (rule seq_step.load_op) (use step.hyps(2) th(1) in \<open>simp add: set_thread_def\<close>)
  then have "seq_step\<^sup>*\<^sup>* s (set_thread s r (th\<lparr>st_reader := z\<rparr>))"
    using th(2) by (simp add: set_thread_def rtranclp.rtrancl_into_rtrancl)
  then show ?case by (intro exI [of _ "th\<lparr>st_reader := z\<rparr>"]) simp
qed

lemma idle_latest:
  assumes "writer_inv s g n" and "ss_pending s = []"
  shows "wm_latest (ss_mem s) Seq = seq_val (2 * g)"
    and "map (wm_latest (ss_mem s)) payload_locs = tob_words (last (ss_hist s))"
    and "length (ss_hist s) = g + 1"
proof -
  from assms have len: "length (ss_hist s) = g + 1" and "n = 0" by (auto simp: writer_inv_def)
  with assms have cell: "tob.cell_ok seq_val (hist_words (ss_hist s)) (ss_mem s) g 0"
    by (simp add: writer_inv_def)
  note D = tob.cell_okD [OF this]
  show "wm_latest (ss_mem s) Seq = seq_val (2 * g)"
    using D(1) D(7) [of "2 * g"] by (simp add: wm_latest_def last_conv_nth flip: length_greater_0_conv)
  show "length (ss_hist s) = g + 1" by (rule len)
  have "wm_latest (ss_mem s) (payload_locs ! i) = tob_words (last (ss_hist s)) ! i"
    if "i < length payload_locs" for i
    using that D(2) [OF that] D(6) [OF that, of g] len
    by (simp add: wm_latest_def last_conv_nth hist_words_def flip: length_greater_0_conv)
  then show "map (wm_latest (ss_mem s)) payload_locs = tob_words (last (ss_hist s))"
    by (intro nth_equalityI) simp_all
qed

lemma idle_read:
  assumes "writer_inv s g n" and "ss_pending s = []"
  shows "plain_read (wm_latest (ss_mem s)) seqlock_attempt = Some (last (ss_hist s))"
proof -
  have "to_u32 (wm_latest (ss_mem s) Seq) AND 1 = 0"
    using even_seq_val [of "2 * g"] idle_latest(1) [OF assms] by simp
  then show ?thesis
    using idle_latest(2) [OF assms]
    by (simp add: seqlock_attempt_def plain_read_words seqlock_check_def)
qed

text \<open>The pending operations can always run to the end, whatever the readers do.\<close>

lemma run_pending:
  "seq_step\<^sup>*\<^sup>* s (s\<lparr>ss_mem := fold do_wop (ss_pending s) (ss_mem s), ss_pending := []\<rparr>)"
proof (induction "ss_pending s" arbitrary: s)
  case Nil
  then have "s\<lparr>ss_mem := fold do_wop (ss_pending s) (ss_mem s), ss_pending := []\<rparr> = s" by simp
  then show ?case by (simp only: rtranclp.rtrancl_refl)
next
  case (Cons op ops)
  let ?s = "s\<lparr>ss_mem := do_wop op (ss_mem s), ss_pending := ops\<rparr>"
  have "seq_step s ?s" using Cons.hyps(2) by (intro seq_step.store_op) simp
  moreover have "seq_step\<^sup>*\<^sup>* ?s (?s\<lparr>ss_mem := fold do_wop ops (do_wop op (ss_mem s)), ss_pending := []\<rparr>)"
    using Cons.hyps(1) [of ?s] by simp
  ultimately show ?case
    by (simp flip: Cons.hyps(2))
qed

lemma writer_inv_fold:
  assumes "writer_inv s g n"
  shows "\<exists>g n. writer_inv (s\<lparr>ss_mem := fold do_wop (ss_pending s) (ss_mem s), ss_pending := []\<rparr>) g n"
  using assms
proof (induction "ss_pending s" arbitrary: s g n)
  case Nil
  then have eq: "s\<lparr>ss_mem := fold do_wop (ss_pending s) (ss_mem s), ss_pending := []\<rparr> = s" by simp
  show ?case unfolding eq using Nil.prems by blast
next
  case (Cons op ops)
  let ?s = "s\<lparr>ss_mem := do_wop op (ss_mem s), ss_pending := ops\<rparr>"
  obtain g' n' where "writer_inv ?s g' n'"
    using writer_op [OF Cons.prems] Cons.hyps(2) by metis
  from Cons.hyps(1) [OF _ this] show ?case by (simp flip: Cons.hyps(2))
qed

definition stored :: "seq_sys \<Rightarrow> top_of_book \<Rightarrow> seq_sys" where
  "stored s t =
     (let ops = seqlock_store (to_u32 (wm_latest (ss_mem s) Seq)) t
      in s\<lparr>ss_mem := fold do_wop ops (ss_mem s), ss_pending := [], ss_hist := ss_hist s @ [t]\<rparr>)"

lemma stored_ok:
  assumes "writer_inv s g n" and "ss_pending s = []"
  shows "seq_step\<^sup>*\<^sup>* s (stored s t)" and "\<exists>g n. writer_inv (stored s t) g n"
    and "ss_pending (stored s t) = []" and "ss_threads (stored s t) = ss_threads s"
    and "ss_hist (stored s t) = ss_hist s @ [t]"
proof -
  let ?b = "s\<lparr>ss_pending := seqlock_store (to_u32 (wm_latest (ss_mem s) Seq)) t,
      ss_hist := ss_hist s @ [t]\<rparr>"
  have eq: "stored s t = ?b\<lparr>ss_mem := fold do_wop (ss_pending ?b) (ss_mem ?b), ss_pending := []\<rparr>"
    by (simp add: stored_def Let_def)
  have "seq_step s ?b" by (rule seq_step.store_begin [OF assms(2)])
  then show "seq_step\<^sup>*\<^sup>* s (stored s t)"
    unfolding eq using run_pending [of ?b] by (rule converse_rtranclp_into_rtranclp)
  show "\<exists>g n. writer_inv (stored s t) g n"
    unfolding eq by (rule writer_inv_fold [OF writer_begin [OF assms]])
qed (simp_all add: stored_def Let_def)

lemma stored_replicate:
  assumes "writer_inv s g n" and "ss_pending s = []"
  shows "\<exists>s' g n. seq_step\<^sup>*\<^sup>* s s' \<and> writer_inv s' g n \<and> ss_pending s' = []
    \<and> ss_threads s' = ss_threads s \<and> ss_hist s' = ss_hist s @ replicate k t"
proof (induction k)
  case 0
  with assms show ?case by auto
next
  case (Suc k)
  then obtain s' g n where s': "seq_step\<^sup>*\<^sup>* s s'" "writer_inv s' g n" "ss_pending s' = []"
    "ss_threads s' = ss_threads s" "ss_hist s' = ss_hist s @ replicate k t" by blast
  have "ss_hist (stored s' t) = ss_hist s @ replicate (Suc k) t"
    using s'(5) stored_ok(5) [OF s'(2,3), of t] by (simp add: replicate_append_same)
  with s' stored_ok [OF s'(2,3), of t] show ?case
    by (metis rtranclp_trans)
qed

lemma reach_writer: "seq_reach t s \<Longrightarrow> \<exists>g n. writer_inv s g n"
proof (induction rule: seq_reach.induct)
  case init
  then show ?case using seq_inv_init [of t] by (simp add: seq_inv_def)
next
  case (step s s')
  then obtain g n where w: "writer_inv s g n" by blast
  from step.hyps(2) show ?case
  proof cases
    case (store_begin t)
    with writer_begin [OF w] show ?thesis by blast
  next
    case (store_op op ops)
    with writer_op [OF w] show ?thesis by blast
  qed (use w in \<open>auto simp: writer_inv_def set_thread_def\<close>)
qed

text \<open>
  The seqlock is sequentially a cell. Starting from any initial snapshot and after any
  sequence of stores, a load returns the latest snapshot at once, without a retry.
\<close>
theorem seqlock_latest:
  "seqlock_load_counted (fold plain_store ts (seqlock_new t)) = Some (last (t # ts), 0)"
proof -
  have "to_u32 (fold plain_store ts (seqlock_new t) Seq) AND 1 = 0
    \<and> map (fold plain_store ts (seqlock_new t)) payload_locs = tob_words (last (t # ts))"
  proof (induction ts rule: rev_induct)
    case Nil
    then show ?case by (simp add: payload_locs_def tob_words_def)
  next
    case (snoc x xs)
    then show ?case by (simp add: plain_store_seq plain_store_words even_plus_two)
  qed
  then show ?thesis by (simp add: seqlock_load_stable)
qed

text \<open>
  Property C4: no torn snapshot. On the view machine, with one writer and any number of readers
  interleaved in any way and loads returning any message their views allow, a finished load holds
  a snapshot one completed store (or the constructor) wrote as a whole, provided fewer than
  \<open>2 ^ 31\<close> stores have begun.
\<close>
theorem seqlock_no_torn:
  assumes "seq_reach t0 s" and "length (ss_hist s) \<le> 2 ^ 31"
    and "rd_prog (st_reader (ss_threads s r)) = Ret (Some t)"
  shows "t \<in> set (published s)"
  by (rule thread_published [OF seq_reach_inv [OF assms(1,2)] assms(3)])

lemma idle_load:
  assumes "seq_reach t0 s" and "ss_pending s = []"
    and "reader_ok (ss_mem s) (st_reader (ss_threads s r))"
    and "rd_prog (st_reader (ss_threads s r)) = seqlock_attempt"
  shows "\<exists>s'. seq_step\<^sup>*\<^sup>* s s' \<and> ss_mem s' = ss_mem s \<and> ss_hist s' = ss_hist s
    \<and> rd_prog (st_reader (ss_threads s' r)) = Ret (Some (last (ss_hist s)))"
proof -
  obtain g n where w: "writer_inv s g n" using reach_writer [OF assms(1)] by blast
  let ?rd = "st_reader (ss_threads s r)"
  have rd: "?rd = \<lparr>rd_prog = seqlock_attempt, rd_cur = rd_cur ?rd, rd_acq = rd_acq ?rd\<rparr>"
    using assms(4) by simp
  have "views_ok (ss_mem s)" using w by (simp add: writer_inv_def)
  from reads_latest [OF this, of seqlock_attempt "rd_cur ?rd" "rd_acq ?rd"] assms(3)
  obtain c q where "(read_step (ss_mem s))\<^sup>*\<^sup>* ?rd
      \<lparr>rd_prog = Ret (Some (last (ss_hist s))), rd_cur = c, rd_acq = q\<rparr>"
    by (auto simp: idle_read [OF w assms(2)] simp flip: rd)
  from seq_reads [OF this refl] obtain th where
    "st_reader th = \<lparr>rd_prog = Ret (Some (last (ss_hist s))), rd_cur = c, rd_acq = q\<rparr>"
    "seq_step\<^sup>*\<^sup>* s (set_thread s r th)" by blast
  then show ?thesis by (intro exI [of _ "set_thread s r th"]) (simp add: set_thread_def)
qed

lemma init_load:
  "\<exists>s. seq_reach t s \<and> ss_hist s = [t] \<and> rd_prog (st_reader (ss_threads s 0)) = Ret (Some t)"
proof -
  have "\<exists>s'. seq_step\<^sup>*\<^sup>* (seq_init t) s' \<and> ss_mem s' = ss_mem (seq_init t)
    \<and> ss_hist s' = ss_hist (seq_init t)
    \<and> rd_prog (st_reader (ss_threads s' 0)) = Ret (Some (last (ss_hist (seq_init t))))"
    by (rule idle_load [OF seq_reach.init])
      (simp_all add: seq_init_def reader_ok_def view_ok_def wm_init_def)
  then show ?thesis
    using seq_reach_trans [OF _ seq_reach.init] by (auto simp: seq_init_def)
qed

theorem seqlock_no_torn_witness:
  "\<exists>s t. seq_reach tob_default s \<and> rd_prog (st_reader (ss_threads s 0)) = Ret (Some t)
    \<and> t \<in> set (published s)"
proof -
  obtain s where s: "seq_reach tob_default s" "ss_hist s = [tob_default]"
    "rd_prog (st_reader (ss_threads s 0)) = Ret (Some tob_default)"
    using init_load by blast
  have "length (ss_hist s) \<le> 2 ^ 31" by (simp add: s(2))
  from s(1,3) seqlock_no_torn [OF s(1) this s(3)] show ?thesis by blast
qed

text \<open>
  A load makes progress when the writer rests. From every reachable state in which no
  store is in progress, a reader at the start of its turn can finish it without a retry and with
  the latest snapshot.
\<close>
theorem seqlock_quiet_load:
  assumes "seq_reach t0 s" and "length (ss_hist s) \<le> 2 ^ 31" and "ss_pending s = []"
    and "rd_prog (st_reader (ss_threads s r)) = seqlock_attempt"
  shows "\<exists>s'. seq_step\<^sup>*\<^sup>* s s' \<and> ss_hist s' = ss_hist s
    \<and> rd_prog (st_reader (ss_threads s' r)) = Ret (Some (last (ss_hist s)))"
proof -
  have "reader_ok (ss_mem s) (st_reader (ss_threads s r))"
    using seq_reach_inv [OF assms(1,2)] by (simp add: seq_inv_def thread_inv_def)
  from idle_load [OF assms(1,3) this assms(4)] show ?thesis by blast
qed

theorem seqlock_quiet_load_witness:
  "\<exists>s'. seq_step\<^sup>*\<^sup>* (seq_init tob_default) s' \<and> ss_hist s' = ss_hist (seq_init tob_default)
    \<and> rd_prog (st_reader (ss_threads s' 3)) = Ret (Some (last (ss_hist (seq_init tob_default))))"
  by (rule seqlock_quiet_load [OF seq_reach.init]) (simp_all add: seq_init_def)

subsection \<open>Where the version counter wraps\<close>

definition tob_ones :: top_of_book where
  "tob_ones = \<lparr>tob_bid_px = 1, tob_bid_qty = 1, tob_ask_px = 1, tob_ask_qty = 1, tob_stamp = 1\<rparr>"

text \<open>A reader that has taken the version and the first word of the initial snapshot.\<close>

lemma half_read:
  "\<exists>s th. seq_step\<^sup>*\<^sup>* (seq_init tob_default) s \<and> ss_pending s = []
     \<and> ss_hist s = [tob_default] \<and> ss_threads s 0 = th
     \<and> st_reader th = \<lparr>rd_prog = read_words [BidQty, AskPx, AskQty, Stamp] [0] (seqlock_check 0),
         rd_cur = (\<lambda>_. 0), rd_acq = (\<lambda>_. 0)\<rparr>"
proof -
  let ?m = "wm_init (seqlock_new tob_default)"
  let ?rd = "\<lambda>p. \<lparr>rd_prog = p, rd_cur = (\<lambda>_. 0), rd_acq = (\<lambda>_. 0)\<rparr>
    :: (seq_loc, top_of_book option) reader"
  have bot: "sup (\<lambda>_. 0) (single l 0) = (\<lambda>_. 0 :: nat)" "sup (\<lambda>_. 0) (\<lambda>_. 0) = (\<lambda>_. 0 :: nat)"
    for l :: seq_loc
    by (simp_all add: single_def sup_nat_def sup_fun_def fun_eq_iff)
  have one: "read_step ?m (?rd (Load_Acquire l k)) (?rd (k (seqlock_new tob_default l)))"
    "read_step ?m (?rd (Load_Relaxed l k)) (?rd (k (seqlock_new tob_default l)))" for l k
    using read_step.acquire [of "?rd (Load_Acquire l k)" l k 0 ?m]
      read_step.relaxed [of "?rd (Load_Relaxed l k)" l k 0 ?m]
    by (simp_all add: wm_init_def bot)
  have "read_step ?m (?rd seqlock_attempt) (?rd (read_words payload_locs [] (seqlock_check 0)))"
    using one(1) [of Seq "\<lambda>v1. let s1 = to_u32 v1
        in if s1 AND 1 = 0 then read_words payload_locs [] (seqlock_check s1) else Ret None"]
    by (simp add: seqlock_attempt_def)
  moreover have "read_step ?m (?rd (read_words payload_locs [] (seqlock_check 0)))
      (?rd (read_words [BidQty, AskPx, AskQty, Stamp] [0] (seqlock_check 0)))"
    using one(2) [of BidPx "\<lambda>v. read_words [BidQty, AskPx, AskQty, Stamp] [v] (seqlock_check 0)"]
    by (simp add: payload_locs_def tob_default_def)
  ultimately have "(read_step (ss_mem (seq_init tob_default)))\<^sup>*\<^sup>* (?rd seqlock_attempt)
      (?rd (read_words [BidQty, AskPx, AskQty, Stamp] [0] (seqlock_check 0)))"
    by (simp add: seq_init_def)
  from seq_reads [OF this, of 0] obtain th where
    "st_reader th = ?rd (read_words [BidQty, AskPx, AskQty, Stamp] [0] (seqlock_check 0))"
    "seq_step\<^sup>*\<^sup>* (seq_init tob_default) (set_thread (seq_init tob_default) 0 th)"
    by (auto simp: seq_init_def)
  then show ?thesis
    by (intro exI [of _ "set_thread (seq_init tob_default) 0 th"] exI [of _ th])
      (simp add: set_thread_def seq_init_def)
qed

text \<open>
  Property C32: the bound of \<open>seqlock_no_torn\<close> is exact. The counter is 32 bits wide, and a reader that
  is suspended while exactly \<open>2 ^ 31\<close> stores complete reads the same version again and returns a
  snapshot that no store ever wrote.
\<close>
theorem seqlock_wrap_torn:
  "\<exists>s t. seq_reach tob_default s \<and> length (ss_hist s) = 2 ^ 31 + 1
     \<and> rd_prog (st_reader (ss_threads s 0)) = Ret (Some t) \<and> t \<notin> set (ss_hist s)"
proof -
  obtain s th where s: "seq_step\<^sup>*\<^sup>* (seq_init tob_default) s" "ss_pending s = []"
    "ss_hist s = [tob_default]" "ss_threads s 0 = th"
    and th: "st_reader th = \<lparr>rd_prog = read_words [BidQty, AskPx, AskQty, Stamp] [0] (seqlock_check 0),
         rd_cur = (\<lambda>_. 0), rd_acq = (\<lambda>_. 0)\<rparr>"
    using half_read by blast
  have reach: "seq_reach tob_default s" by (rule seq_reach_trans [OF s(1) seq_reach.init])
  then obtain g0 n0 where "writer_inv s g0 n0" using reach_writer by blast
  from stored_replicate [OF this s(2), of "2 ^ 31" tob_ones] obtain s' g n where
    s': "seq_step\<^sup>*\<^sup>* s s'" "writer_inv s' g n" "ss_pending s' = []" "ss_threads s' = ss_threads s"
    and hist: "ss_hist s' = [tob_default] @ replicate (2 ^ 31) tob_ones"
    unfolding s(3) by blast
  have last: "last (ss_hist s') = tob_ones" unfolding hist by (simp add: last_replicate)
  have len: "length (ss_hist s') = 2 ^ 31 + 1" by (simp only: hist length_append length_replicate) simp
  then have "g = 2 ^ 31" using idle_latest(3) [OF s'(2,3)] by simp
  then have seq: "to_u32 (wm_latest (ss_mem s') Seq) = 0"
    by (simp add: idle_latest(1) [OF s'(2,3)] seq_val_def)
  have ok: "views_ok (ss_mem s')" using s'(2) by (simp add: writer_inv_def)
  have "view_ok (ss_mem s') (\<lambda>_. 0)" using views_okD(1) [OF ok] by (simp add: view_ok_def)
  then have rok: "reader_ok (ss_mem s') (st_reader th)" by (simp add: th reader_ok_def)
  let ?t = "tob_ones\<lparr>tob_bid_px := 0\<rparr>"
  have "plain_read (wm_latest (ss_mem s'))
      (read_words [BidQty, AskPx, AskQty, Stamp] [0] (seqlock_check 0)) = Some ?t"
    using idle_latest(2) [OF s'(2,3)]
    by (simp add: plain_read_words seqlock_check_def seq last payload_locs_def tob_words_def tob_of_def
        tob_ones_def)
  with reads_latest [OF ok rok [unfolded th]] obtain c q where
    "(read_step (ss_mem s'))\<^sup>*\<^sup>* (st_reader th) \<lparr>rd_prog = Ret (Some ?t), rd_cur = c, rd_acq = q\<rparr>"
    by (auto simp: th)
  from seq_reads [OF this, of 0] obtain th' where th':
    "st_reader th' = \<lparr>rd_prog = Ret (Some ?t), rd_cur = c, rd_acq = q\<rparr>"
    "seq_step\<^sup>*\<^sup>* s' (set_thread s' 0 th')"
    using s(4) s'(4) by auto
  let ?s = "set_thread s' 0 th'"
  have "seq_reach tob_default ?s"
    by (rule seq_reach_trans [OF th'(2) seq_reach_trans [OF s'(1) reach]])
  moreover have "?t \<notin> set (ss_hist s')"
    unfolding hist by (auto simp: tob_ones_def tob_default_def)
  ultimately show ?thesis
    using len th'(1) by (intro exI [of _ ?s] exI [of _ ?t]) (simp add: set_thread_def)
qed

end
