(* ===== verification/Ring.thy ===== *)
theory Ring
  imports Stamped_Cell
begin

unbundle bit_operations_syntax

section \<open>The broadcast ring (sync/src/ring.rs)\<close>

text \<open>
  One producer streams records of \<open>W\<close> words through \<open>cap\<close> slots, overwriting on wrap; every consumer
  reads the stream from its own cursor. \<open>ring_push\<close> and \<open>try_recv\<close> (with \<open>resync\<close>) carry the source's
  operations and orderings. This theory has the ring run alone: what \<open>try_recv\<close> returns on each
  branch. The interleaved ring is in the next theory.
\<close>

datatype ring_loc = WritePos | SlotStamp nat | Word nat nat

text \<open>Capacity, words per record, and the mask \<open>capacity - 1\<close>.\<close>

record ring =
  rg_cap :: nat
  rg_width :: nat
  rg_mask :: u64

definition WRITING :: u64 where "WRITING = push_bit 63 1"
definition EMPTY :: u64 where "EMPTY = - 1"

definition is_power_of_two :: "nat \<Rightarrow> bool" where
  "is_power_of_two n \<longleftrightarrow> list_ex (\<lambda>k. n = 2 ^ k) [0..<64]"

definition with_capacity :: "nat \<Rightarrow> nat \<Rightarrow> ring res" where
  "with_capacity W cap =
     (if \<not> is_power_of_two cap then Inl AssertionFailed
      else Inr \<lparr>rg_cap = cap, rg_width = W, rg_mask = of_nat (cap - 1)\<rparr>)"

text \<open>The fresh slots and write position.\<close>

fun ring_fresh :: "ring_loc plain" where
  "ring_fresh WritePos = 0"
| "ring_fresh (SlotStamp i) = EMPTY"
| "ring_fresh (Word i k) = 0"

definition slot_of :: "ring \<Rightarrow> u64 \<Rightarrow> nat" where
  "slot_of R p = unat (p AND rg_mask R)"

definition word_locs :: "nat \<Rightarrow> nat \<Rightarrow> ring_loc list" where
  "word_locs W i = map (Word i) [0..<W]"

text \<open>\<open>push\<close>, given the write position \<open>p\<close> its first load returns.\<close>

definition ring_push :: "ring \<Rightarrow> u64 \<Rightarrow> u64 list \<Rightarrow> ring_loc wop list" where
  "ring_push R p rec =
     (let i = slot_of R p
      in Store_Relaxed (SlotStamp i) (p OR WRITING) # Fence_Release
         # write_words (word_locs (rg_width R) i) rec
         @ [Store_Release (SlotStamp i) p, Store_Release WritePos (p + 1)])"

definition u64_saturating_sub :: "u64 \<Rightarrow> u64 \<Rightarrow> u64" where
  "u64_saturating_sub a b = (if a \<le> b then 0 else a - b)"

datatype recv = Item "u64 list" | Empty | Overrun u64

type_synonym consumer_prog = "(ring_loc, recv \<times> u64) rprog"

definition resync :: "ring \<Rightarrow> u64 \<Rightarrow> consumer_prog" where
  "resync R cursor =
     Load_Acquire WritePos (\<lambda>w.
       let oldest = u64_saturating_sub w (of_nat (rg_cap R));
           skipped = u64_saturating_sub oldest cursor
       in Ret (Overrun skipped, oldest))"

definition recv_check :: "ring \<Rightarrow> u64 \<Rightarrow> u64 list \<Rightarrow> consumer_prog" where
  "recv_check R cursor rec =
     Fence_Acquire (Load_Relaxed (SlotStamp (slot_of R cursor)) (\<lambda>s2.
       if s2 \<noteq> cursor then resync R cursor else Ret (Item rec, cursor + 1)))"

definition recv_slot :: "ring \<Rightarrow> u64 \<Rightarrow> consumer_prog" where
  "recv_slot R cursor =
     Load_Acquire (SlotStamp (slot_of R cursor)) (\<lambda>s1.
       if s1 \<noteq> cursor then resync R cursor
       else read_words (word_locs (rg_width R) (slot_of R cursor)) [] (recv_check R cursor))"

definition try_recv :: "ring \<Rightarrow> u64 \<Rightarrow> consumer_prog" where
  "try_recv R cursor =
     Load_Acquire WritePos (\<lambda>w. if w \<le> cursor then Ret (Empty, cursor) else recv_slot R cursor)"

text \<open>The two ways to mint a consumer: the cursor it starts with.\<close>

definition consumer :: "(ring_loc, u64) rprog" where
  "consumer = Load_Acquire WritePos Ret"

definition consumer_from_oldest :: "ring \<Rightarrow> (ring_loc, u64) rprog" where
  "consumer_from_oldest R =
     Load_Acquire WritePos (\<lambda>w. Ret (u64_saturating_sub w (of_nat (rg_cap R))))"

definition position_of_producer :: "ring_loc plain \<Rightarrow> u64" where
  "position_of_producer \<sigma> = \<sigma> WritePos"

subsection \<open>Positions and slots\<close>

text \<open>A ring that \<open>with_capacity\<close> returned.\<close>

definition ring_wf :: "ring \<Rightarrow> bool" where
  "ring_wf R \<longleftrightarrow> with_capacity (rg_width R) (rg_cap R) = Inr R"

lemma ring_wf_iff:
  "ring_wf R \<longleftrightarrow> (\<exists>k < 64. rg_cap R = 2 ^ k) \<and> rg_mask R = of_nat (rg_cap R - 1)"
  by (cases R) (auto simp: ring_wf_def with_capacity_def is_power_of_two_def list_ex_iff)

lemma with_capacity_small:
  "with_capacity 1 2 = Inr \<lparr>rg_cap = 2, rg_width = 1, rg_mask = 1\<rparr>"
  "with_capacity 2 4 = Inr \<lparr>rg_cap = 4, rg_width = 2, rg_mask = 3\<rparr>"
proof -
  have "is_power_of_two (2 ^ 1)" "is_power_of_two (2 ^ 2)"
    unfolding is_power_of_two_def list_ex_iff by (intro bexI [of _ 1] bexI [of _ 2]; simp)+
  then show "with_capacity 1 2 = Inr \<lparr>rg_cap = 2, rg_width = 1, rg_mask = 1\<rparr>"
    "with_capacity 2 4 = Inr \<lparr>rg_cap = 4, rg_width = 2, rg_mask = 3\<rparr>"
    by (simp_all add: with_capacity_def)
qed

lemma with_capacity_wf: "with_capacity W cap = Inr R \<Longrightarrow> ring_wf R"
  by (auto simp: ring_wf_def with_capacity_def split: if_splits)

lemma cap_pos: "ring_wf R \<Longrightarrow> 0 < rg_cap R"
  by (auto simp: ring_wf_iff)

lemma cap_small: "ring_wf R \<Longrightarrow> rg_cap R \<le> 2 ^ 63"
proof -
  assume "ring_wf R"
  then obtain k :: nat where "k < 64" "rg_cap R = 2 ^ k" by (auto simp: ring_wf_iff)
  moreover from this have "(2 :: nat) ^ k \<le> 2 ^ 63" by (intro power_increasing) auto
  ultimately show ?thesis by simp
qed

lemma slot_of_nat:
  assumes "ring_wf R" and "n < 2 ^ 64"
  shows "slot_of R (of_nat n) = n mod rg_cap R"
proof -
  obtain k :: nat where k: "k < 64" "rg_cap R = 2 ^ k" "rg_mask R = of_nat (rg_cap R - 1)"
    using assms(1) by (auto simp: ring_wf_iff)
  have "(of_nat (2 ^ k - 1) :: u64) = mask k"
    by (simp add: mask_eq_exp_minus_1 of_nat_diff)
  then have "slot_of R (of_nat n) = unat (take_bit k (of_nat n :: u64))"
    by (simp add: slot_of_def k take_bit_eq_mask)
  also have "\<dots> = take_bit k (unat (of_nat n :: u64))" by (simp add: unsigned_take_bit_eq)
  also have "\<dots> = n mod rg_cap R"
    using assms(2) by (simp add: k(2) take_bit_eq_mod unat_of_nat)
  finally show ?thesis .
qed

lemma slot_of_less: "ring_wf R \<Longrightarrow> slot_of R p < rg_cap R"
  using slot_of_nat [of R "unat p"] unsigned_less [where 'a = nat, of p] cap_pos [of R] by simp

lemma distinct_word_locs: "distinct (word_locs W i)"
  by (simp add: word_locs_def distinct_map inj_on_def)

lemma length_word_locs [simp]: "length (word_locs W i) = W"
  by (simp add: word_locs_def)

interpretation slot: stamped_cell "SlotStamp i" "word_locs W i" for i W
  by unfold_locales (auto simp: word_locs_def distinct_map inj_on_def)

lemma not_bit_63: "unat (c :: u64) < 2 ^ 63 \<Longrightarrow> \<not> bit c 63"
  by (simp add: bit_iff_odd word_arith_nat_div)

lemma writing_neq:
  assumes "unat (c :: u64) < 2 ^ 63"
  shows "p OR WRITING \<noteq> c" and "EMPTY \<noteq> c"
proof -
  have "bit (p OR WRITING) 63" by (simp add: WRITING_def bit_simps)
  moreover have "bit EMPTY 63" by (simp add: EMPTY_def)
  ultimately show "p OR WRITING \<noteq> c" "EMPTY \<noteq> c" using not_bit_63 [OF assms] by metis+
qed

subsection \<open>The ring run alone\<close>

definition plain_push :: "ring \<Rightarrow> u64 list \<Rightarrow> ring_loc plain \<Rightarrow> ring_loc plain" where
  "plain_push R rec \<sigma> = plain_ops (ring_push R (\<sigma> WritePos) rec) \<sigma>"

definition ring_run :: "ring \<Rightarrow> u64 list list \<Rightarrow> ring_loc plain" where
  "ring_run R recs = fold (plain_push R) recs ring_fresh"

text \<open>\<open>k\<close> calls of \<open>try_recv\<close> in a row, from a cursor.\<close>

fun recv_n :: "ring \<Rightarrow> ring_loc plain \<Rightarrow> nat \<Rightarrow> u64 \<Rightarrow> recv list" where
  "recv_n R \<sigma> 0 c = []"
| "recv_n R \<sigma> (Suc k) c =
     (let (r, c') = plain_read \<sigma> (try_recv R c) in r # recv_n R \<sigma> k c')"

definition recs_ok :: "ring \<Rightarrow> u64 list list \<Rightarrow> bool" where
  "recs_ok R recs \<longleftrightarrow> (\<forall>rec \<in> set recs. length rec = rg_width R)"

text \<open>The last \<open>cap\<close> records are resident, each under its position as stamp.\<close>

definition resident :: "ring \<Rightarrow> u64 list list \<Rightarrow> ring_loc plain \<Rightarrow> bool" where
  "resident R recs \<sigma> \<longleftrightarrow>
     \<sigma> WritePos = of_nat (length recs)
     \<and> (\<forall>p < length recs. length recs \<le> p + rg_cap R \<longrightarrow>
          \<sigma> (SlotStamp (p mod rg_cap R)) = of_nat p
          \<and> map \<sigma> (word_locs (rg_width R) (p mod rg_cap R)) = recs ! p)"

lemma plain_push_eq:
  assumes "length rec = rg_width R"
  shows "plain_push R rec \<sigma> WritePos = \<sigma> WritePos + 1"
    and "plain_push R rec \<sigma> (SlotStamp i) = (if i = slot_of R (\<sigma> WritePos) then \<sigma> WritePos else \<sigma> (SlotStamp i))"
    and "map (plain_push R rec \<sigma>) (word_locs (rg_width R) i) =
      (if i = slot_of R (\<sigma> WritePos) then rec else map \<sigma> (word_locs (rg_width R) i))"
proof -
  let ?p = "\<sigma> WritePos" and ?W = "rg_width R"
  let ?j = "slot_of R ?p"
  have len: "length rec = length (word_locs ?W ?j)" using assms by simp
  note words = plain_write_words [OF len distinct_word_locs]
  have word: "Word i k \<in> set (word_locs ?W ?j) \<longleftrightarrow> i = ?j \<and> k < ?W"
    "SlotStamp i \<notin> set (word_locs ?W ?j)" "WritePos \<notin> set (word_locs ?W ?j)" for i k
    by (auto simp: word_locs_def)
  show "plain_push R rec \<sigma> WritePos = ?p + 1"
    by (simp add: plain_push_def ring_push_def plain_ops_append Let_def)
  show "plain_push R rec \<sigma> (SlotStamp i) = (if i = ?j then ?p else \<sigma> (SlotStamp i))"
    by (simp add: plain_push_def ring_push_def plain_ops_append Let_def words word)
  show "map (plain_push R rec \<sigma>) (word_locs ?W i) =
      (if i = ?j then rec else map \<sigma> (word_locs ?W i))"
  proof (rule nth_equalityI)
    fix k assume "k < length (map (plain_push R rec \<sigma>) (word_locs ?W i))"
    then have k: "k < ?W" by simp
    then have "word_locs ?W i ! k = Word i k" for i by (simp add: word_locs_def)
    moreover have "i = ?j \<Longrightarrow> map_of (zip (word_locs ?W ?j) rec) (Word i k) = Some (rec ! k)"
      using map_of_zip_nth [OF len [symmetric] distinct_word_locs, of k] k assms
      by (simp add: word_locs_def)
    ultimately show "map (plain_push R rec \<sigma>) (word_locs ?W i) ! k =
        (if i = ?j then rec else map \<sigma> (word_locs ?W i)) ! k"
      using k by (simp add: plain_push_def ring_push_def plain_ops_append Let_def words word)
  qed (simp add: assms)
qed

lemma mod_close: "p mod m = q mod m \<Longrightarrow> p < q \<Longrightarrow> q < p + m \<Longrightarrow> False" for m :: nat
proof -
  assume "p mod m = q mod m" "p < q" "q < p + m"
  then have "m dvd q - p" by (metis mod_eq_dvd_iff_nat less_imp_le)
  with \<open>p < q\<close> \<open>q < p + m\<close> show False by (auto dest: dvd_imp_le)
qed

lemma resident_push:
  assumes "ring_wf R" and "resident R recs \<sigma>" and "length rec = rg_width R"
    and "length recs < 2 ^ 63"
  shows "resident R (recs @ [rec]) (plain_push R rec \<sigma>)"
proof -
  let ?n = "length recs" and ?cap = "rg_cap R"
  have w: "\<sigma> WritePos = of_nat ?n" using assms(2) by (simp add: resident_def)
  have slot: "slot_of R (\<sigma> WritePos) = ?n mod ?cap"
    using assms(1,4) by (simp add: w slot_of_nat)
  note push = plain_push_eq [OF assms(3), of \<sigma>, unfolded slot]
  have "plain_push R rec \<sigma> (SlotStamp (p mod ?cap)) = of_nat p
      \<and> map (plain_push R rec \<sigma>) (word_locs (rg_width R) (p mod ?cap)) = (recs @ [rec]) ! p"
    if p: "p < ?n + 1" "?n + 1 \<le> p + ?cap" for p
  proof (cases "p = ?n")
    case True
    with push(2,3) [of "?n mod ?cap"] show ?thesis by (simp add: w)
  next
    case False
    then have "p mod ?cap \<noteq> ?n mod ?cap" using mod_close [of p ?cap ?n] p by auto
    then have "plain_push R rec \<sigma> (SlotStamp (p mod ?cap)) = \<sigma> (SlotStamp (p mod ?cap))"
      "map (plain_push R rec \<sigma>) (word_locs (rg_width R) (p mod ?cap)) =
        map \<sigma> (word_locs (rg_width R) (p mod ?cap))"
      by (simp_all only: push if_False)
    moreover have "\<sigma> (SlotStamp (p mod ?cap)) = of_nat p"
      "map \<sigma> (word_locs (rg_width R) (p mod ?cap)) = recs ! p"
      using assms(2) False p by (auto simp: resident_def)
    moreover have "(recs @ [rec]) ! p = recs ! p" using False p by (simp add: nth_append)
    ultimately show ?thesis by (simp only:)
  qed
  then show ?thesis by (simp add: resident_def push(1) w add.commute)
qed

lemma resident_run:
  assumes "ring_wf R" and "recs_ok R recs" and "length recs \<le> 2 ^ 63"
  shows "resident R recs (ring_run R recs)"
  using assms(2,3)
proof (induction recs rule: rev_induct)
  case Nil
  then show ?case by (simp add: resident_def ring_run_def)
next
  case (snoc rec recs)
  then have "length recs < 2 ^ 63" "recs_ok R recs" "length rec = rg_width R"
    by (simp_all add: recs_ok_def)
  with resident_push [OF assms(1) snoc.IH] show ?case by (simp add: ring_run_def)
qed

lemma u64_sat_sub_nat:
  "a < 2 ^ 64 \<Longrightarrow> b < 2 ^ 64 \<Longrightarrow> u64_saturating_sub (of_nat a) (of_nat b) = of_nat (a - b)"
  by (cases "a \<le> b") (simp_all add: u64_saturating_sub_def word_le_nat_alt unat_of_nat of_nat_diff)

text \<open>What one \<open>try_recv\<close> does on a ring at rest, on every branch.\<close>

lemma try_recv_rest:
  assumes wf: "ring_wf R" and recs: "recs_ok R recs" and n: "length recs \<le> 2 ^ 63"
    and c: "c \<le> length recs"
  shows "plain_read (ring_run R recs) (try_recv R (of_nat c)) =
    (if c = length recs then (Empty, of_nat c)
     else if length recs \<le> c + rg_cap R then (Item (recs ! c), of_nat (c + 1))
     else (Overrun (of_nat (length recs - rg_cap R - c)), of_nat (length recs - rg_cap R)))"
proof -
  let ?n = "length recs" and ?cap = "rg_cap R" and ?\<sigma> = "ring_run R recs"
  note res = resident_run [OF wf recs n, unfolded resident_def]
  have w: "?\<sigma> WritePos = of_nat ?n" using res by blast
  have small: "?n < 2 ^ 64" "c < 2 ^ 64" "?cap < 2 ^ 64" using n c cap_small [OF wf] by simp_all
  have le: "(of_nat ?n :: u64) \<le> of_nat c \<longleftrightarrow> ?n \<le> c"
    using small by (simp add: word_le_nat_alt unat_of_nat)
  have slot: "slot_of R (of_nat c) = c mod ?cap" using wf small(2) by (rule slot_of_nat)
  show ?thesis
  proof (cases "c < ?n")
    case False
    then show ?thesis using c by (simp add: try_recv_def w)
  next
    case True
    show ?thesis
    proof (cases "?n \<le> c + ?cap")
      case here: True
      then have "?\<sigma> (SlotStamp (c mod ?cap)) = of_nat c"
        "map ?\<sigma> (word_locs (rg_width R) (c mod ?cap)) = recs ! c"
        using res True by blast+
      with True here show ?thesis
        by (simp add: try_recv_def w le recv_slot_def slot plain_read_words recv_check_def)
    next
      case lapped: False
      define p where "p = c + ((?n - 1 - c) div ?cap) * ?cap"
      have pos: "0 < ?cap" by (rule cap_pos [OF wf])
      have p: "p < ?n" "?n \<le> p + ?cap" "p mod ?cap = c mod ?cap" "p \<noteq> c"
      proof -
        have "?n - 1 - c = ((?n - 1 - c) div ?cap) * ?cap + (?n - 1 - c) mod ?cap" by simp
        moreover have "(?n - 1 - c) mod ?cap < ?cap" using pos by simp
        ultimately show "p < ?n" "?n \<le> p + ?cap" using True unfolding p_def by linarith+
        show "p mod ?cap = c mod ?cap" by (simp add: p_def)
        show "p \<noteq> c" using lapped \<open>?n \<le> p + ?cap\<close> by auto
      qed
      then have "?\<sigma> (SlotStamp (c mod ?cap)) = of_nat p" using res by metis
      moreover have "(of_nat p :: u64) \<noteq> of_nat c"
        using p(1,4) small by (simp add: word_of_nat_eq_iff take_bit_nat_eq_self)
      ultimately show ?thesis
        using True lapped small u64_sat_sub_nat [of ?n ?cap] u64_sat_sub_nat [of "?n - ?cap" c]
        by (simp add: try_recv_def w le recv_slot_def slot resync_def Let_def)
    qed
  qed
qed

lemma recv_n_rest:
  assumes "ring_wf R" and "recs_ok R recs" and "length recs \<le> 2 ^ 63"
    and "length recs \<le> c + rg_cap R" and "c + k \<le> length recs"
  shows "recv_n R (ring_run R recs) k (of_nat c) = map (\<lambda>p. Item (recs ! p)) [c..<c + k]"
  using assms(4,5)
proof (induction k arbitrary: c)
  case (Suc k)
  then have "plain_read (ring_run R recs) (try_recv R (of_nat c)) = (Item (recs ! c), of_nat (c + 1))"
    by (subst try_recv_rest [OF assms(1-3)]) simp_all
  with Suc.IH [of "c + 1"] Suc.prems show ?case
    by (simp add: upt_conv_Cons del: upt_Suc)
qed simp

text \<open>
  Every branch of \<open>try_recv\<close>. On a ring at rest with \<open>n\<close> records pushed, a consumer at
  cursor \<open>c\<close> is told \<open>Empty\<close> when \<open>c = n\<close>, gets record \<open>c\<close> and advances by one while it trails by at
  most the capacity, and otherwise gets an overrun with the exact number of lost records and the
  cursor on the oldest resident one.
\<close>
theorem try_recv_branches:
  assumes "with_capacity W cap = Inr R" and "\<forall>rec \<in> set recs. length rec = W"
    and "length recs \<le> 2 ^ 63" and "c \<le> length recs"
  shows "plain_read (ring_run R recs) (try_recv R (of_nat c)) =
    (if c = length recs then (Empty, of_nat c)
     else if length recs \<le> c + cap then (Item (recs ! c), of_nat (c + 1))
     else (Overrun (of_nat (length recs - cap - c)), of_nat (length recs - cap)))"
proof -
  have "rg_cap R = cap" "rg_width R = W"
    using assms(1) by (auto simp: with_capacity_def split: if_splits)
  with assms try_recv_rest [OF with_capacity_wf [OF assms(1)], of recs c] show ?thesis
    by (simp add: recs_ok_def)
qed

theorem try_recv_branches_witness:
  "plain_read (ring_run \<lparr>rg_cap = 2, rg_width = 1, rg_mask = 1\<rparr> [[5], [6], [7]])
     (try_recv \<lparr>rg_cap = 2, rg_width = 1, rg_mask = 1\<rparr> (of_nat 0)) = (Overrun (of_nat 1), of_nat 1)"
  by (subst try_recv_branches [of 1 2]) (simp_all add: with_capacity_small [simplified])

text \<open>
  A lapped consumer loses exactly the overwritten records. Stalled at cursor \<open>c\<close> while
  the producer runs more than a capacity ahead, its next \<open>cap + 1\<close> calls report the exact loss once
  and then deliver the last \<open>cap\<close> records, each once and in order.
\<close>
theorem overrun_then_in_order:
  assumes "with_capacity W cap = Inr R" and "\<forall>rec \<in> set recs. length rec = W"
    and "length recs \<le> 2 ^ 63" and "c + cap < length recs"
  shows "recv_n R (ring_run R recs) (1 + cap) (of_nat c) =
    Overrun (of_nat (length recs - cap - c)) # map Item (drop (length recs - cap) recs)"
proof -
  let ?o = "length recs - cap"
  have R: "rg_cap R = cap" "rg_width R = W" "ring_wf R"
    using assms(1) with_capacity_wf by (auto simp: with_capacity_def split: if_splits)
  then have "plain_read (ring_run R recs) (try_recv R (of_nat c)) =
      (Overrun (of_nat (?o - c)), of_nat ?o)"
    using assms try_recv_rest [of R recs c] by (simp add: recs_ok_def)
  moreover have "recv_n R (ring_run R recs) cap (of_nat ?o) = map (\<lambda>p. Item (recs ! p)) [?o..<?o + cap]"
    using R assms by (intro recv_n_rest) (simp_all add: recs_ok_def)
  moreover have "map (\<lambda>p. Item (recs ! p)) [?o..<?o + cap] = map Item (drop ?o recs)"
    using assms(4) by (intro nth_equalityI) simp_all
  ultimately show ?thesis by simp
qed

theorem overrun_then_in_order_witness:
  "recv_n \<lparr>rg_cap = 2, rg_width = 1, rg_mask = 1\<rparr>
     (ring_run \<lparr>rg_cap = 2, rg_width = 1, rg_mask = 1\<rparr> [[5], [6], [7]]) (1 + 2) (of_nat 0) =
   [Overrun (of_nat 1), Item [6], Item [7]]"
  by (subst overrun_then_in_order [of 1 2]) (simp_all add: with_capacity_small [simplified])

text \<open>
  The capacity contract. Construction succeeds exactly for the powers of two that a
  64-bit size holds, and then indexing by the mask is indexing modulo the capacity.
\<close>
theorem with_capacity_mask:
  "with_capacity W cap =
     (if \<exists>k < 64. cap = 2 ^ k then Inr \<lparr>rg_cap = cap, rg_width = W, rg_mask = of_nat (cap - 1)\<rparr>
      else Inl AssertionFailed)
   \<and> (\<forall>R p. with_capacity W cap = Inr R \<longrightarrow> slot_of R p = unat p mod cap)"
proof (intro conjI allI impI)
  fix R and p :: u64 assume R: "with_capacity W cap = Inr R"
  then have "rg_cap R = cap" by (auto simp: with_capacity_def split: if_splits)
  moreover have "unat p < 2 ^ LENGTH(64)" by (rule unsigned_less)
  then have "slot_of R (of_nat (unat p)) = unat p mod rg_cap R"
    by (intro slot_of_nat [OF with_capacity_wf [OF R]]) simp
  ultimately show "slot_of R p = unat p mod cap" by (simp add: ucast_id)
qed (auto simp: with_capacity_def is_power_of_two_def list_ex_iff)

theorem with_capacity_mask_witness:
  "slot_of \<lparr>rg_cap = 4, rg_width = 2, rg_mask = 3\<rparr> 7 = unat (7 :: u64) mod 4"
proof -
  show ?thesis using with_capacity_mask [of 2 4] with_capacity_small(2) by blast
qed

end
