(* ===== verification/Ring_Concurrent.thy ===== *)
theory Ring_Concurrent
  imports Ring
begin

unbundle bit_operations_syntax

section \<open>One producer and many consumers\<close>

text \<open>
  The ring on the view machine: the producer pushes, operation by operation, interleaved with any
  number of consumers, each starting from an arbitrary cursor (whatever way it was minted). Message
  \<open>0\<close> of a slot's stamp is \<open>EMPTY\<close>, messages \<open>2 g - 1\<close> and \<open>2 g\<close> mark and publish its \<open>g\<close>-th record,
  which has position \<open>slot + (g - 1) * capacity\<close>; so each slot is a \<open>stamped_cell\<close>. The last part
  shows that \<open>resync\<close> may move a cursor backwards when the producer is in mid-push.
\<close>

record ring_thread =
  rt_reader :: "(ring_loc, recv \<times> u64) reader"
  rt_cursor :: u64

record ring_sys =
  rs_mem :: "ring_loc wmem"
  rs_pending :: "ring_loc wop list"
  rs_hist :: "u64 list list"
  rs_threads :: "nat \<Rightarrow> ring_thread"

definition thread_at :: "ring \<Rightarrow> u64 \<Rightarrow> ring_loc view \<Rightarrow> ring_loc view \<Rightarrow> ring_thread" where
  "thread_at R c cur acq =
     \<lparr>rt_reader = \<lparr>rd_prog = try_recv R c, rd_cur = cur, rd_acq = acq\<rparr>, rt_cursor = c\<rparr>"

definition ring_init :: "ring \<Rightarrow> (nat \<Rightarrow> u64) \<Rightarrow> ring_sys" where
  "ring_init R cs =
     \<lparr>rs_mem = wm_init ring_fresh, rs_pending = [], rs_hist = [],
      rs_threads = (\<lambda>r. thread_at R (cs r) (\<lambda>_. 0) (\<lambda>_. 0))\<rparr>"

definition set_consumer :: "ring_sys \<Rightarrow> nat \<Rightarrow> ring_thread \<Rightarrow> ring_sys" where
  "set_consumer s r th = s\<lparr>rs_threads := (rs_threads s)(r := th)\<rparr>"

inductive ring_step :: "ring \<Rightarrow> ring_sys \<Rightarrow> ring_sys \<Rightarrow> bool" for R where
  push_begin:
    "rs_pending s = [] \<Longrightarrow> length rec = rg_width R \<Longrightarrow>
     ring_step R s (s\<lparr>rs_pending := ring_push R (wm_latest (rs_mem s) WritePos) rec,
                      rs_hist := rs_hist s @ [rec]\<rparr>)"
| push_op:
    "rs_pending s = op # ops \<Longrightarrow>
     ring_step R s (s\<lparr>rs_mem := do_wop op (rs_mem s), rs_pending := ops\<rparr>)"
| recv_op:
    "read_step (rs_mem s) (rt_reader (rs_threads s r)) rd \<Longrightarrow>
     ring_step R s (set_consumer s r ((rs_threads s r)\<lparr>rt_reader := rd\<rparr>))"
| recv_next:
    "rt_reader (rs_threads s r) = \<lparr>rd_prog = Ret (x, c), rd_cur = cur, rd_acq = acq\<rparr> \<Longrightarrow>
     ring_step R s (set_consumer s r (thread_at R c cur acq))"

inductive ring_reach :: "ring \<Rightarrow> (nat \<Rightarrow> u64) \<Rightarrow> ring_sys \<Rightarrow> bool" for R cs where
  init: "ring_reach R cs (ring_init R cs)"
| step: "ring_reach R cs s \<Longrightarrow> ring_step R s s' \<Longrightarrow> ring_reach R cs s'"

text \<open>The records whose push has completed.\<close>

definition completed :: "ring_sys \<Rightarrow> u64 list list" where
  "completed s = (if rs_pending s = [] then rs_hist s else butlast (rs_hist s))"

subsection \<open>Generations of a slot\<close>

definition slot_pos :: "nat \<Rightarrow> nat \<Rightarrow> nat \<Rightarrow> nat" where
  "slot_pos cap i k = i + ((k - 1) div 2) * cap"

definition slot_val :: "nat \<Rightarrow> nat \<Rightarrow> nat \<Rightarrow> u64" where
  "slot_val cap i k =
     (if k = 0 then EMPTY
      else if odd k then of_nat (slot_pos cap i k) OR WRITING else of_nat (slot_pos cap i k))"

definition slot_words :: "nat \<Rightarrow> nat \<Rightarrow> u64 list list \<Rightarrow> nat \<Rightarrow> nat \<Rightarrow> u64 list" where
  "slot_words W cap hist i g = (if g = 0 then replicate W 0 else hist ! slot_pos cap i (2 * g))"

text \<open>Records slot \<open>i\<close> has received among the first \<open>n\<close>.\<close>

definition gens :: "nat \<Rightarrow> nat \<Rightarrow> nat \<Rightarrow> nat" where
  "gens cap n i = n div cap + (if i < n mod cap then 1 else 0)"

lemma slot_pos_even: "slot_pos cap i (2 * g + 2) = i + g * cap"
  by (simp add: slot_pos_def)

lemma slot_pos_odd: "slot_pos cap i (2 * g + 1) = i + g * cap"
  by (simp add: slot_pos_def)

lemma gens_Suc:
  assumes "i < cap"
  shows "gens cap (Suc n) i = gens cap n i + (if i = n mod cap then 1 else 0)"
  using assms by (auto simp: gens_def mod_Suc div_Suc split: if_splits)

lemma gens_here: "n mod cap + gens cap n (n mod cap) * cap = n"
  by (simp add: gens_def)

lemma gens_pos:
  assumes "i < cap" and "g < gens cap n i"
  shows "i + g * cap < n"
proof -
  have n: "n div cap * cap + n mod cap = n" by simp
  show ?thesis
  proof (cases "i < n mod cap")
    case True
    with assms(2) have "g \<le> n div cap" by (simp add: gens_def)
    then have "g * cap \<le> n div cap * cap" by (rule mult_le_mono1)
    with True n show ?thesis by linarith
  next
    case False
    with assms(2) have "g + 1 \<le> n div cap" by (simp add: gens_def)
    then have "(g + 1) * cap \<le> n div cap * cap" by (rule mult_le_mono1)
    then have "g * cap + cap \<le> n div cap * cap" by simp
    with assms(1) n show ?thesis by linarith
  qed
qed

lemma slot_val_cursor:
  assumes "slot_val cap i k = c" and "unat c < 2 ^ 63" and "0 < k \<Longrightarrow> slot_pos cap i k < 2 ^ 63"
    and "0 < cap"
  obtains g where "k = 2 * g" and "0 < g" and "slot_pos cap i (2 * g) = unat c"
proof -
  have "k \<noteq> 0" "\<not> odd k"
    using assms(1) writing_neq [OF assms(2)] by (auto simp: slot_val_def split: if_splits)
  then obtain g where g: "k = 2 * g" "0 < g" by (auto elim!: evenE)
  then have "unat c = slot_pos cap i (2 * g)"
    using assms(1,3) by (auto simp: slot_val_def unat_of_nat)
  with g that show thesis by simp
qed

lemma slot_pos_inj: "0 < cap \<Longrightarrow> 0 < g \<Longrightarrow> 0 < h \<Longrightarrow> slot_pos cap i (2 * g) = slot_pos cap i (2 * h) \<Longrightarrow> g = h"
  by (cases g; cases h) (simp_all add: slot_pos_def)

subsection \<open>What the memory guarantees a consumer\<close>

definition mem_ok :: "ring \<Rightarrow> ring_loc wmem \<Rightarrow> u64 list list \<Rightarrow> bool" where
  "mem_ok R m hist \<longleftrightarrow>
     views_ok m \<and> recs_ok R hist \<and> length hist \<le> 2 ^ 63 \<and> count m WritePos \<le> length hist + 1
     \<and> (\<forall>k < count m WritePos. val_at m WritePos k = of_nat k)
     \<and> (\<forall>i < rg_cap R. \<exists>g n. slot.cell_ok i (rg_width R) (slot_val (rg_cap R) i)
          (slot_words (rg_width R) (rg_cap R) hist i) m g n)
     \<and> (\<forall>i < rg_cap R. \<forall>k < count m (SlotStamp i). 0 < k \<longrightarrow> slot_pos (rg_cap R) i k < length hist)"

inductive consumer_phase ::
  "ring \<Rightarrow> ring_loc wmem \<Rightarrow> u64 list list \<Rightarrow> u64 \<Rightarrow> (ring_loc, recv \<times> u64) reader \<Rightarrow> bool"
  for R m hist c rd where
  start: "rd_prog rd = try_recv R c \<Longrightarrow> consumer_phase R m hist c rd"
| lookup:
    "unat c + 1 < count m WritePos \<Longrightarrow> rd_prog rd = recv_slot R c \<Longrightarrow> consumer_phase R m hist c rd"
| words:
    "unat c + 1 < count m WritePos \<Longrightarrow> 0 < g \<Longrightarrow> 2 * g < count m (SlotStamp (slot_of R c)) \<Longrightarrow>
     slot_pos (rg_cap R) (slot_of R c) (2 * g) = unat c \<Longrightarrow>
     slot.reading (slot_of R c) (rg_width R) m g vals rd \<Longrightarrow>
     rd_prog rd = read_words (drop (length vals) (word_locs (rg_width R) (slot_of R c))) vals
       (recv_check R c) \<Longrightarrow>
     consumer_phase R m hist c rd"
| check:
    "unat c + 1 < count m WritePos \<Longrightarrow> 0 < g \<Longrightarrow> 2 * g < count m (SlotStamp (slot_of R c)) \<Longrightarrow>
     slot_pos (rg_cap R) (slot_of R c) (2 * g) = unat c \<Longrightarrow>
     slot.fenced (slot_of R c) (rg_width R) m g vals rd \<Longrightarrow>
     rd_prog rd = Load_Relaxed (SlotStamp (slot_of R c)) (\<lambda>s2.
       if s2 \<noteq> c then resync R c else Ret (Item vals, c + 1)) \<Longrightarrow>
     consumer_phase R m hist c rd"
| lost: "rd_prog rd = resync R c \<Longrightarrow> consumer_phase R m hist c rd"
| none: "rd_prog rd = Ret (Empty, c') \<Longrightarrow> consumer_phase R m hist c rd"
| skip: "rd_prog rd = Ret (Overrun k, c') \<Longrightarrow> consumer_phase R m hist c rd"
| got:
    "unat c + 1 < count m WritePos \<Longrightarrow> unat c < length hist \<Longrightarrow>
     rd_prog rd = Ret (Item (hist ! unat c), c + 1) \<Longrightarrow> consumer_phase R m hist c rd"

definition consumer_inv ::
  "ring \<Rightarrow> ring_loc wmem \<Rightarrow> u64 list list \<Rightarrow> u64 \<Rightarrow> (ring_loc, recv \<times> u64) reader \<Rightarrow> bool" where
  "consumer_inv R m hist c rd \<longleftrightarrow> reader_ok m rd \<and> consumer_phase R m hist c rd"

lemma consumer_inv_mono:
  assumes inv: "consumer_inv R m hist c rd" and le: "wm_le m m'"
  shows "consumer_inv R m' (hist @ xs) c rd"
proof -
  have pos: "unat c + 1 < count m WritePos \<Longrightarrow> unat c + 1 < count m' WritePos"
    and stamp: "2 * g < count m (SlotStamp i) \<Longrightarrow> 2 * g < count m' (SlotStamp i)" for g i
    using wm_le_count [OF le, of WritePos] wm_le_count [OF le, of "SlotStamp i"] by linarith+
  have "consumer_phase R m hist c rd" using inv by (simp add: consumer_inv_def)
  then have "consumer_phase R m' (hist @ xs) c rd"
  proof cases
    case lookup
    then show ?thesis by (intro consumer_phase.lookup [OF pos])
  next
    case (words g vals)
    then show ?thesis
      by (intro consumer_phase.words [OF pos _ stamp _ slot.reading_mono [OF _ le]])
  next
    case (check g vals)
    then show ?thesis
      by (intro consumer_phase.check [OF pos _ stamp _ slot.fenced_mono [OF _ le]])
  next
    case got
    then show ?thesis using pos by (intro consumer_phase.got) (simp_all add: nth_append)
  qed (auto intro: consumer_phase.intros pos)
  moreover have "reader_ok m' rd"
    using inv by (intro reader_ok_mono [OF _ le]) (simp add: consumer_inv_def)
  ultimately show ?thesis by (simp add: consumer_inv_def)
qed

lemma resync_step:
  assumes "rd_prog rd = resync R c" and "read_step m rd rd'"
  shows "\<exists>k c'. rd_prog rd' = Ret (Overrun k, c')"
  using assms(2) by (cases rule: read_stepE) (use assms(1) in \<open>auto simp: resync_def Let_def\<close>)

lemma read_words_step:
  assumes "mem_ok R m hist" and "slot_of R c < rg_cap R"
    and words: "unat c + 1 < count m WritePos" "0 < g" "2 * g < count m (SlotStamp (slot_of R c))"
      "slot_pos (rg_cap R) (slot_of R c) (2 * g) = unat c"
      "slot.reading (slot_of R c) (rg_width R) m g vals rd"
      "rd_prog rd = read_words (drop (length vals) (word_locs (rg_width R) (slot_of R c))) vals
         (recv_check R c)"
    and step: "read_step m rd rd'"
  shows "consumer_phase R m hist c rd'"
proof (cases "length vals < rg_width R")
  case True
  obtain g' n where cell: "slot.cell_ok (slot_of R c) (rg_width R) (slot_val (rg_cap R) (slot_of R c))
      (slot_words (rg_width R) (rg_cap R) hist (slot_of R c)) m g' n"
    using assms(1,2) by (auto simp: mem_ok_def)
  obtain v where "rd_prog rd' = read_words (drop (length (vals @ [v])) (word_locs (rg_width R) (slot_of R c)))
      (vals @ [v]) (recv_check R c)" "slot.reading (slot_of R c) (rg_width R) m g (vals @ [v]) rd'"
    using slot.words_step [OF cell words(5) _ words(6) step] True by auto
  with words(1-4) show ?thesis by (intro consumer_phase.words)
next
  case False
  then have len: "length vals = length (word_locs (rg_width R) (slot_of R c))"
    using words(5) by (simp add: slot.reading_def)
  then have prog: "rd_prog rd = recv_check R c vals" using words(6) by simp
  from step show ?thesis
  proof (cases rule: read_stepE)
    case (fence p)
    have "slot.fenced (slot_of R c) (rg_width R) m g vals rd'"
      by (rule slot.fenced_start [OF words(5) len fence(3)])
    moreover have "rd_prog rd' = Load_Relaxed (SlotStamp (slot_of R c)) (\<lambda>s2.
        if s2 \<noteq> c then resync R c else Ret (Item vals, c + 1))"
      using fence(1,2) prog by (simp add: recv_check_def)
    ultimately show ?thesis using words(1-4) by (intro consumer_phase.check)
  qed (simp_all add: prog recv_check_def)
qed

lemma consumer_inv_step:
  assumes mem: "mem_ok R m hist" and wf: "ring_wf R"
    and inv: "consumer_inv R m hist c rd" and step: "read_step m rd rd'"
  shows "consumer_inv R m hist c rd'"
proof -
  let ?i = "slot_of R c" and ?W = "rg_width R" and ?cap = "rg_cap R"
  have views: "views_ok m" and len: "length hist \<le> 2 ^ 63" and cnt: "count m WritePos \<le> length hist + 1"
    using mem by (simp_all add: mem_ok_def)
  have slot: "?i < ?cap" and cap: "0 < ?cap" by (rule slot_of_less [OF wf], rule cap_pos [OF wf])
  obtain g' n where cell: "slot.cell_ok ?i ?W (slot_val ?cap ?i) (slot_words ?W ?cap hist ?i) m g' n"
    using mem slot by (auto simp: mem_ok_def)
  have pos: "0 < k \<Longrightarrow> slot_pos ?cap ?i k < 2 ^ 63" if "k < count m (SlotStamp ?i)" for k
    using mem slot that len unfolding mem_ok_def by (meson less_le_trans)
  have cell_val: "k < count m (SlotStamp ?i) \<Longrightarrow> val_at m (SlotStamp ?i) k = slot_val ?cap ?i k" for k
    by (rule slot.cell_okD(7) [OF cell])
  have rok: "reader_ok m rd'"
    using reader_ok_step [OF views _ step] inv by (simp add: consumer_inv_def)
  have "consumer_phase R m hist c rd" using inv by (simp add: consumer_inv_def)
  then have "consumer_phase R m hist c rd'"
  proof cases
    case start
    from step show ?thesis
    proof (cases rule: read_stepE)
      case (acquire l k j)
      from start acquire(1) have l: "l = WritePos"
        and k: "k = (\<lambda>w. if w \<le> c then Ret (Empty, c) else recv_slot R c)"
        by (simp_all add: try_recv_def)
      have w: "val_at m WritePos j = of_nat j" using mem acquire(3) l by (simp add: mem_ok_def)
      have prog: "rd_prog rd' = (if of_nat j \<le> c then Ret (Empty, c) else recv_slot R c)"
        by (simp only: acquire(4) k l w)
      show ?thesis
      proof (cases "of_nat j \<le> c")
        case False
        have "j < 2 ^ 64" using acquire(3) l cnt len by simp
        then have "unat c < j" using False by (simp add: word_le_nat_alt unat_of_nat)
        then have "unat c + 1 < count m WritePos" using acquire(3) l by simp
        with prog False show ?thesis by (intro consumer_phase.lookup) simp_all
      qed (use prog in \<open>auto intro: consumer_phase.none\<close>)
    qed (use start in \<open>simp_all add: try_recv_def\<close>)
  next
    case lookup
    from step show ?thesis
    proof (cases rule: read_stepE)
      case (acquire l k j)
      from lookup(2) acquire(1) have l: "l = SlotStamp ?i"
        and k: "k = (\<lambda>s1. if s1 \<noteq> c then resync R c
          else read_words (word_locs ?W ?i) [] (recv_check R c))"
        by (simp_all add: recv_slot_def)
      have prog: "rd_prog rd' = (if slot_val ?cap ?i j \<noteq> c then resync R c
          else read_words (word_locs ?W ?i) [] (recv_check R c))"
        using cell_val [of j] acquire(3) by (simp only: acquire(4) k l)
      show ?thesis
      proof (cases "slot_val ?cap ?i j = c")
        case True
        have "unat c < 2 ^ 63" using lookup(1) cnt len by linarith
        from slot_val_cursor [OF True this _ cap] pos [of j] acquire(3) l obtain g where
          g: "j = 2 * g" "0 < g" "slot_pos ?cap ?i (2 * g) = unat c" by blast
        have "slot.reading ?i ?W m g [] rd'"
          using slot.reading_start [OF cell, of g rd' rd] acquire g(1) l by simp
        moreover have "rd_prog rd' =
            read_words (drop (length []) (word_locs ?W ?i)) [] (recv_check R c)"
          using prog True by simp
        moreover have "2 * g < count m (SlotStamp ?i)" using acquire(3) g(1) l by simp
        ultimately show ?thesis using lookup(1) g(2,3) by (intro consumer_phase.words)
      next
        case False
        with prog show ?thesis by (intro consumer_phase.lost) simp
      qed
    qed (use lookup(2) in \<open>simp_all add: recv_slot_def\<close>)
  next
    case (words g vals)
    then show ?thesis by (intro read_words_step [OF mem slot _ _ _ _ _ _ step])
  next
    case (check g vals)
    from step show ?thesis
    proof (cases rule: read_stepE)
      case (relaxed l k j)
      from check(6) relaxed(1) have l: "l = SlotStamp ?i"
        and k: "k = (\<lambda>s2. if s2 \<noteq> c then resync R c else Ret (Item vals, c + 1))"
        by simp_all
      have prog: "rd_prog rd' = (if slot_val ?cap ?i j \<noteq> c then resync R c else Ret (Item vals, c + 1))"
        using cell_val [of j] relaxed(3) by (simp only: relaxed(4) k l)
      show ?thesis
      proof (cases "slot_val ?cap ?i j = c")
        case True
        have small: "unat c < 2 ^ 63" using check(1) cnt len by linarith
        from slot_val_cursor [OF True small _ cap] pos [of j] relaxed(3) l obtain h where
          h: "j = 2 * h" "0 < h" "slot_pos ?cap ?i (2 * h) = unat c" by blast
        then have "h = g" using slot_pos_inj [OF cap, of h g ?i] check(2,4) by simp
        have hist: "unat c < length hist" using check(1) cnt by linarith
        have words: "slot_words ?W ?cap hist ?i g = hist ! unat c"
          using check(2,4) by (simp add: slot_words_def)
        have "length (hist ! unat c) = ?W" using mem hist by (simp add: mem_ok_def recs_ok_def)
        then have "vals = hist ! unat c"
          using slot.fenced_consistent [OF cell check(5)] relaxed(2) h(1) l \<open>h = g\<close> words by simp
        with prog True check(1) hist show ?thesis by (intro consumer_phase.got) simp_all
      next
        case False
        with prog show ?thesis by (intro consumer_phase.lost) simp
      qed
    qed (use check(6) in simp_all)
  next
    case lost
    with resync_step [OF _ step] show ?thesis by (blast intro: consumer_phase.skip)
  qed (use step in \<open>auto elim!: read_stepE\<close>)
  with rok show ?thesis by (simp add: consumer_inv_def)
qed

subsection \<open>The producer\<close>

definition cells_ok :: "ring \<Rightarrow> ring_loc wmem \<Rightarrow> u64 list list \<Rightarrow> nat \<Rightarrow> nat \<Rightarrow> nat \<Rightarrow> bool" where
  "cells_ok R m hist pubs j k \<longleftrightarrow>
     (\<forall>i < rg_cap R. slot.cell_ok i (rg_width R) (slot_val (rg_cap R) i)
        (slot_words (rg_width R) (rg_cap R) hist i) m (gens (rg_cap R) pubs i) (if i = j then k else 0))"

text \<open>
  \<open>n\<close> pushes have completed and \<open>k\<close> operations of the next have run: the mark, the fence, one
  store per word, the publishing store, and the store of the write position.
\<close>

definition producer_inv :: "ring \<Rightarrow> ring_sys \<Rightarrow> nat \<Rightarrow> nat \<Rightarrow> bool" where
  "producer_inv R s n k \<longleftrightarrow>
     views_ok (rs_mem s) \<and> recs_ok R (rs_hist s)
     \<and> count (rs_mem s) WritePos = n + 1 \<and> (\<forall>i < n + 1. val_at (rs_mem s) WritePos i = of_nat i)
     \<and> (rs_pending s = [] \<and> k = 0 \<and> length (rs_hist s) = n
        \<or> length (rs_hist s) = n + 1 \<and> k < rg_width R + 4
          \<and> rs_pending s = drop k (ring_push R (of_nat n) (rs_hist s ! n)))
     \<and> (if k = rg_width R + 3 then cells_ok R (rs_mem s) (rs_hist s) (n + 1) (n mod rg_cap R) 0
        else cells_ok R (rs_mem s) (rs_hist s) n (n mod rg_cap R) k)"

lemma producer_inv_cong:
  assumes "rs_mem s' = rs_mem s" and "rs_hist s' = rs_hist s" and "rs_pending s' = rs_pending s"
  shows "producer_inv R s n k = producer_inv R s' n k"
  unfolding producer_inv_def assms ..

lemma cells_okD:
  "cells_ok R m hist p j k \<Longrightarrow> i < rg_cap R \<Longrightarrow>
   slot.cell_ok i (rg_width R) (slot_val (rg_cap R) i) (slot_words (rg_width R) (rg_cap R) hist i) m
     (gens (rg_cap R) p i) (if i = j then k else 0)"
  by (simp add: cells_ok_def)

text \<open>An operation that leaves the stamps and words of other slots alone.\<close>

lemma cells_ok_other:
  assumes "cells_ok R m hist p j k" and "i < rg_cap R" and "i \<noteq> j"
    and "l = WritePos \<or> l = SlotStamp j \<or> (\<exists>w. l = Word j w)"
  shows "slot.cell_ok i (rg_width R) (slot_val (rg_cap R) i)
    (slot_words (rg_width R) (rg_cap R) hist i) (wm_append m l v V) (gens (rg_cap R) p i) 0"
  using slot.cell_other [OF cells_okD [OF assms(1,2)], of l v V] assms(3,4)
  by (auto simp: word_locs_def)

lemma push_nth:
  assumes "length rec = rg_width R"
  shows "ring_push R p rec ! 0 = Store_Relaxed (SlotStamp (slot_of R p)) (p OR WRITING)"
    and "ring_push R p rec ! 1 = Fence_Release"
    and "w < rg_width R \<Longrightarrow> ring_push R p rec ! (2 + w) =
      Store_Relaxed (word_locs (rg_width R) (slot_of R p) ! w) (rec ! w)"
    and "ring_push R p rec ! (rg_width R + 2) = Store_Release (SlotStamp (slot_of R p)) p"
    and "ring_push R p rec ! (rg_width R + 3) = Store_Release WritePos (p + 1)"
    and "length (ring_push R p rec) = rg_width R + 4"
  using assms
  by (simp_all add: ring_push_def Let_def nth_append length_write_words nth_write_words)

lemma slot_words_append:
  assumes "2 * g < 2 * gens cap n i + 1" and "i < cap" and "n \<le> length hist"
  shows "slot_words W cap (hist @ xs) i g = slot_words W cap hist i g"
proof (cases g)
  case (Suc h)
  with assms(1) have "h < gens cap n i" by simp
  then have "i + h * cap < length hist" using gens_pos [OF assms(2)] assms(3) less_le_trans by blast
  then have "slot_pos cap i (2 * g) < length hist" by (simp add: Suc slot_pos_def)
  then show ?thesis by (simp add: slot_words_def nth_append)
qed (simp add: slot_words_def)

lemma producer_begin:
  assumes inv: "producer_inv R s n k" and idle: "rs_pending s = []" and rec: "length rec = rg_width R"
  shows "producer_inv R (s\<lparr>rs_pending := ring_push R (wm_latest (rs_mem s) WritePos) rec,
      rs_hist := rs_hist s @ [rec]\<rparr>) n 0"
proof -
  have "k < rg_width R + 4 \<Longrightarrow> drop k (ring_push R (of_nat n) (rs_hist s ! n)) = [] \<Longrightarrow>
      length (rs_hist s) = n + 1 \<Longrightarrow> recs_ok R (rs_hist s) \<Longrightarrow> False"
    by (simp add: recs_ok_def push_nth(6))
  with inv idle have k: "k = 0" "length (rs_hist s) = n" by (auto simp: producer_inv_def)
  have "wm_latest (rs_mem s) WritePos = of_nat n"
    using inv by (auto simp: producer_inv_def wm_latest_def last_conv_nth simp flip: length_greater_0_conv)
  moreover have "cells_ok R (rs_mem s) (rs_hist s @ [rec]) n (n mod rg_cap R) 0"
    unfolding cells_ok_def
  proof (intro allI impI)
    fix i assume i: "i < rg_cap R"
    have "slot.cell_ok i (rg_width R) (slot_val (rg_cap R) i)
        (slot_words (rg_width R) (rg_cap R) (rs_hist s) i) (rs_mem s) (gens (rg_cap R) n i) 0"
      using inv i k(1) cells_okD [of R "rs_mem s" "rs_hist s" n "n mod rg_cap R" 0 i]
      by (simp add: producer_inv_def split: if_splits)
    then show "slot.cell_ok i (rg_width R) (slot_val (rg_cap R) i)
        (slot_words (rg_width R) (rg_cap R) (rs_hist s @ [rec]) i) (rs_mem s) (gens (rg_cap R) n i)
        (if i = n mod rg_cap R then 0 else 0)"
      using slot_words_append [OF _ i, of _ n "rs_hist s" "rg_width R" "[rec]"] k(2)
      by (simp add: slot.cell_hist_cong)
  qed
  ultimately show ?thesis
    using inv k rec by (simp add: producer_inv_def recs_ok_def nth_append)
qed

lemma slot_val_next:
  "slot_val cap i (2 * g + 1) = of_nat (i + g * cap) OR WRITING"
  "slot_val cap i (2 * g + 2) = of_nat (i + g * cap)"
  by (simp_all add: slot_val_def slot_pos_def)

lemma producer_op:
  assumes wf: "ring_wf R" and small: "length (rs_hist s) \<le> 2 ^ 63"
    and inv: "producer_inv R s n k" and busy: "rs_pending s = op # ops"
  shows "\<exists>n' k'. producer_inv R (s\<lparr>rs_mem := do_wop op (rs_mem s), rs_pending := ops\<rparr>) n' k'"
proof -
  let ?W = "rg_width R" and ?cap = "rg_cap R" and ?hist = "rs_hist s" and ?m = "rs_mem s"
  let ?j = "n mod ?cap" and ?rec = "rs_hist s ! n" and ?m' = "do_wop op (rs_mem s)"
  let ?ops = "ring_push R (of_nat n) ?rec"
  let ?g = "gens ?cap n ?j"
  have len: "length ?hist = n + 1" and k: "k < ?W + 4" and pend: "op # ops = drop k ?ops"
    and recs: "recs_ok R ?hist" and views: "views_ok ?m'"
    and wcnt: "count ?m WritePos = n + 1" and wval: "\<forall>i < n + 1. val_at ?m WritePos i = of_nat i"
    using inv busy views_ok_do_wop by (auto simp: producer_inv_def)
  have rec: "length ?rec = ?W" using recs len by (simp add: recs_ok_def)
  have cap: "?j < ?cap" using cap_pos [OF wf] by simp
  have slot: "slot_of R (of_nat n) = ?j" using small len by (intro slot_of_nat [OF wf]) simp
  note nth = push_nth [OF rec, where p = "of_nat n", unfolded slot]
  have "drop k ?ops = ?ops ! k # drop (Suc k) ?ops"
    using k nth(6) by (intro Cons_nth_drop_Suc [symmetric]) simp
  with pend have op: "op = ?ops ! k" and ops: "ops = drop (k + 1) ?ops" by simp_all
  have here: "?j + ?g * ?cap = n" by (rule gens_here)
  have words: "slot_words ?W ?cap ?hist ?j (?g + 1) = ?rec"
    using here by (simp add: slot_words_def slot_pos_even [simplified])
  have more: ?thesis
    if "cells_ok R ?m' ?hist n ?j (k + 1)" "k < ?W + 2" "wm_msgs ?m' WritePos = wm_msgs ?m WritePos"
    using that views recs wcnt wval len ops unfolding producer_inv_def
    by (intro exI [of _ n] exI [of _ "k + 1"]) simp
  have cells: "cells_ok R ?m ?hist n ?j k" if "k < ?W + 3"
    using inv that by (simp add: producer_inv_def)
  have other: "slot.cell_ok i ?W (slot_val ?cap i) (slot_words ?W ?cap ?hist i) (wm_append ?m l v V)
      (gens ?cap n i) 0"
    if "k < ?W + 3" "i < ?cap" "i \<noteq> ?j" "l = WritePos \<or> l = SlotStamp ?j \<or> (\<exists>w. l = Word ?j w)" for i l v V
    by (rule cells_ok_other [OF cells [OF that(1)] that(2-4)])
  consider "k = 0" | "k = 1" | w where "k = 2 + w" "w < ?W" | "k = ?W + 2" | "k = ?W + 3"
  proof -
    have "k = 0 \<or> k = 1 \<or> k = ?W + 2 \<or> k = ?W + 3 \<or> (2 \<le> k \<and> k < ?W + 2)" using k by linarith
    moreover have "2 \<le> k \<and> k < ?W + 2 \<Longrightarrow> k = 2 + (k - 2) \<and> k - 2 < ?W" by linarith
    ultimately show thesis using that by blast
  qed
  then show ?thesis
  proof cases
    case 1
    then have op': "op = Store_Relaxed (SlotStamp ?j) (slot_val ?cap ?j (2 * ?g + 1))"
      using op by (simp only: nth slot_val_next here)
    have "cells_ok R ?m' ?hist n ?j 1"
      unfolding cells_ok_def
    proof (intro allI impI)
      fix i assume i: "i < ?cap"
      show "slot.cell_ok i ?W (slot_val ?cap i) (slot_words ?W ?cap ?hist i) ?m' (gens ?cap n i)
          (if i = ?j then 1 else 0)"
      proof (cases "i = ?j")
        case True
        have "slot.cell_ok ?j ?W (slot_val ?cap ?j) (slot_words ?W ?cap ?hist ?j) ?m ?g 0"
          using cells_okD [OF cells cap] 1 by simp
        from slot.cell_mark [OF this refl] show ?thesis unfolding True op' by simp
      next
        case False
        with other [of i "SlotStamp ?j"] i 1 show ?thesis by (simp add: op')
      qed
    qed
    with 1 more show ?thesis by (simp add: op' wm_append_def)
  next
    case 2
    then have op': "op = Fence_Release" using op by (simp only: nth)
    have "cells_ok R ?m' ?hist n ?j 2"
      unfolding cells_ok_def op'
    proof (intro allI impI)
      fix i assume i: "i < ?cap"
      have "slot.cell_ok i ?W (slot_val ?cap i) (slot_words ?W ?cap ?hist i) ?m (gens ?cap n i)
          (if i = ?j then 1 else 0)"
        using cells_okD [OF cells [unfolded 2] i] by simp
      then show "slot.cell_ok i ?W (slot_val ?cap i) (slot_words ?W ?cap ?hist i)
          (do_wop Fence_Release ?m) (gens ?cap n i) (if i = ?j then 2 else 0)"
        by (cases "i = ?j") (auto intro: slot.cell_fence slot.cell_fenced simp del: do_wop.simps)
    qed
    with 2 more show ?thesis by (simp add: op' numeral_2_eq_2)
  next
    case (3 w)
    then have op': "op = Store_Relaxed (word_locs ?W ?j ! w) (?rec ! w)"
      using op nth(3) [OF 3(2)] by (simp only: 3(1))
    have loc: "word_locs ?W ?j ! w = Word ?j w" using 3(2) by (simp add: word_locs_def)
    have "cells_ok R ?m' ?hist n ?j (3 + w)"
      unfolding cells_ok_def
    proof (intro allI impI)
      fix i assume i: "i < ?cap"
      show "slot.cell_ok i ?W (slot_val ?cap i) (slot_words ?W ?cap ?hist i) ?m' (gens ?cap n i)
          (if i = ?j then 3 + w else 0)"
      proof (cases "i = ?j")
        case True
        have "slot.cell_ok ?j ?W (slot_val ?cap ?j) (slot_words ?W ?cap ?hist ?j) ?m ?g (2 + w)"
          using cells_okD [OF cells cap] 3 by simp
        from slot.cell_word [OF this, of "?rec ! w"] show ?thesis
          unfolding True op' using words 3(2) by simp
      next
        case False
        with other [of i "Word ?j w"] i 3 show ?thesis by (simp add: op' loc)
      qed
    qed
    moreover have "k + 1 = 3 + w" "k < ?W + 2" using 3 by simp_all
    moreover have "wm_msgs ?m' WritePos = wm_msgs ?m WritePos" by (simp add: op' loc wm_append_def)
    ultimately show ?thesis using more by (simp only:)
  next
    case 4
    then have op': "op = Store_Release (SlotStamp ?j) (slot_val ?cap ?j (2 * ?g + 2))"
      using op by (simp only: nth slot_val_next here)
    have "cells_ok R ?m' ?hist (n + 1) ?j 0"
      unfolding cells_ok_def
    proof (intro allI impI)
      fix i assume i: "i < ?cap"
      show "slot.cell_ok i ?W (slot_val ?cap i) (slot_words ?W ?cap ?hist i) ?m' (gens ?cap (n + 1) i)
          (if i = ?j then 0 else 0)"
      proof (cases "i = ?j")
        case True
        have "slot.cell_ok ?j ?W (slot_val ?cap ?j) (slot_words ?W ?cap ?hist ?j) ?m ?g
            (2 + length (word_locs ?W ?j))"
          using cells_okD [OF cells cap] 4 by simp
        from slot.cell_publish [OF this refl] show ?thesis
          unfolding True op' using gens_Suc [OF cap, of n] by simp
      next
        case False
        with other [of i "SlotStamp ?j"] i 4 gens_Suc [OF i, of n] show ?thesis by (simp add: op')
      qed
    qed
    moreover have "wm_msgs ?m' WritePos = wm_msgs ?m WritePos" by (simp add: op' wm_append_def)
    moreover have "ops = drop (?W + 3) ?ops" using ops 4 by (simp add: numeral_3_eq_3)
    ultimately have "producer_inv R (s\<lparr>rs_mem := ?m', rs_pending := ops\<rparr>) n (?W + 3)"
      using views recs wcnt wval len by (simp add: producer_inv_def)
    then show ?thesis by blast
  next
    case 5
    then have op': "op = Store_Release WritePos (of_nat (n + 1))"
      using op by (simp only: nth of_nat_add of_nat_1)
    have cells': "cells_ok R ?m ?hist (n + 1) ?j 0"
      using inv 5 by (simp add: producer_inv_def)
    have "cells_ok R ?m' ?hist (n + 1) ((n + 1) mod ?cap) 0"
      unfolding cells_ok_def
    proof (intro allI impI)
      fix i assume i: "i < ?cap"
      have "WritePos \<notin> set (word_locs ?W i)" by (auto simp: word_locs_def)
      with slot.cell_other [OF cells_okD [OF cells' i], of WritePos] show
        "slot.cell_ok i ?W (slot_val ?cap i) (slot_words ?W ?cap ?hist i) ?m' (gens ?cap (n + 1) i)
          (if i = (n + 1) mod ?cap then 0 else 0)"
        by (simp add: op')
    qed
    moreover have "ops = []" using ops 5 nth(6) by simp
    moreover have "count ?m' WritePos = n + 2" using wcnt by (simp add: op' count_append)
    moreover have "\<forall>i < n + 2. val_at ?m' WritePos i = of_nat i"
      using wcnt wval by (auto simp: op' wm_append_def nth_append less_Suc_eq)
    ultimately show ?thesis
      using views recs len unfolding producer_inv_def
      by (intro exI [of _ "n + 1"] exI [of _ 0]) simp
  qed
qed

lemma gens_bound: "i < cap \<Longrightarrow> 0 < k \<Longrightarrow> k < 2 * gens cap n i + 1 \<Longrightarrow> slot_pos cap i k < n"
  unfolding slot_pos_def by (rule gens_pos) auto

lemma producer_mem_ok:
  assumes wf: "ring_wf R" and inv: "producer_inv R s n k" and small: "length (rs_hist s) \<le> 2 ^ 63"
  shows "mem_ok R (rs_mem s) (rs_hist s)"
proof -
  let ?W = "rg_width R" and ?cap = "rg_cap R" and ?hist = "rs_hist s" and ?m = "rs_mem s"
  let ?p = "if k = ?W + 3 then n + 1 else n" and ?k = "if k = ?W + 3 then 0 else k"
  have cells: "cells_ok R ?m ?hist ?p (n mod ?cap) ?k" and len: "n \<le> length ?hist"
    and busy: "k \<noteq> 0 \<Longrightarrow> length ?hist = n + 1"
    using inv by (auto simp: producer_inv_def)
  have pos: "slot_pos ?cap i j < length ?hist"
    if i: "i < ?cap" and j: "j < count ?m (SlotStamp i)" "0 < j" for i j
  proof -
    note D = slot.cell_okD(1) [OF cells_okD [OF cells i]]
    show ?thesis
    proof (cases "j < 2 * gens ?cap ?p i + 1")
      case True
      with gens_bound [OF i j(2)] have "slot_pos ?cap i j < ?p" by blast
      moreover have "?p \<le> length ?hist" using len busy by (cases "k = ?W + 3") auto
      ultimately show ?thesis by linarith
    next
      case False
      with D j(1) have "i = n mod ?cap" "k \<noteq> 0" "k \<noteq> ?W + 3" "j = 2 * gens ?cap n i + 1"
        by (auto split: if_splits)
      then show ?thesis using gens_here [of n ?cap] busy by (simp add: slot_pos_def)
    qed
  qed
  have "\<exists>g n. slot.cell_ok i ?W (slot_val ?cap i) (slot_words ?W ?cap ?hist i) ?m g n" if "i < ?cap" for i
    using cells_okD [OF cells that] by blast
  then show ?thesis
    using inv small pos len unfolding mem_ok_def producer_inv_def by simp
qed

subsection \<open>The invariant of the system\<close>

definition ring_inv :: "ring \<Rightarrow> ring_sys \<Rightarrow> bool" where
  "ring_inv R s \<longleftrightarrow> (\<exists>n k. producer_inv R s n k)
     \<and> (\<forall>r. consumer_inv R (rs_mem s) (rs_hist s) (rt_cursor (rs_threads s r)) (rt_reader (rs_threads s r)))"

lemma consumer_inv_start:
  "reader_ok m \<lparr>rd_prog = p, rd_cur = cur, rd_acq = acq\<rparr> \<Longrightarrow>
   consumer_inv R m hist (rt_cursor (thread_at R c cur acq)) (rt_reader (thread_at R c cur acq))"
  by (simp add: consumer_inv_def thread_at_def reader_ok_def consumer_phase.start)

lemma ring_inv_init:
  assumes "ring_wf R"
  shows "ring_inv R (ring_init R cs)"
proof -
  let ?m = "wm_init ring_fresh"
  have "cells_ok R ?m [] 0 (0 mod rg_cap R) 0"
    unfolding cells_ok_def
  proof (intro allI impI)
    fix i assume "i < rg_cap R"
    have "slot.cell_ok i (rg_width R) (slot_val (rg_cap R) i) (slot_words (rg_width R) (rg_cap R) [] i) ?m 0 0"
      by (rule slot.cell_init) (simp_all add: slot_val_def slot_words_def word_locs_def)
    then show "slot.cell_ok i (rg_width R) (slot_val (rg_cap R) i)
        (slot_words (rg_width R) (rg_cap R) [] i) ?m (gens (rg_cap R) 0 i) (if i = 0 mod rg_cap R then 0 else 0)"
      by (simp add: gens_def)
  qed
  moreover have "count ?m WritePos = 1" "val_at ?m WritePos 0 = 0" by (simp_all add: wm_init_def)
  ultimately have "producer_inv R (ring_init R cs) 0 0"
    by (simp add: producer_inv_def ring_init_def views_ok_init recs_ok_def)
  moreover have "reader_ok ?m \<lparr>rd_prog = Ret (), rd_cur = (\<lambda>_. 0), rd_acq = (\<lambda>_. 0)\<rparr>"
    by (simp add: reader_ok_def view_ok_def wm_init_def)
  ultimately show ?thesis
    unfolding ring_inv_def by (auto simp: ring_init_def reader_ok_def intro!: consumer_inv_start)
qed

lemma ring_inv_step:
  assumes wf: "ring_wf R" and inv: "ring_inv R s" and step: "ring_step R s s'"
    and small: "length (rs_hist s') \<le> 2 ^ 63"
  shows "ring_inv R s'"
proof -
  obtain n k where p: "producer_inv R s n k" using inv by (auto simp: ring_inv_def)
  have threads: "consumer_inv R (rs_mem s) (rs_hist s) (rt_cursor (rs_threads s r)) (rt_reader (rs_threads s r))" for r
    using inv by (simp add: ring_inv_def)
  have set: "ring_inv R (set_consumer s r th)"
    if "consumer_inv R (rs_mem s) (rs_hist s) (rt_cursor th) (rt_reader th)" for r th
  proof -
    have "rs_mem (set_consumer s r th) = rs_mem s" "rs_hist (set_consumer s r th) = rs_hist s"
      "rs_pending (set_consumer s r th) = rs_pending s" by (simp_all add: set_consumer_def)
    then have "producer_inv R (set_consumer s r th) n k"
      by (rule iffD1 [OF producer_inv_cong p])
    then show ?thesis using that threads unfolding ring_inv_def by (auto simp: set_consumer_def)
  qed
  from step show ?thesis
  proof cases
    case (push_begin rec)
    have "consumer_inv R (rs_mem s) (rs_hist s @ [rec]) (rt_cursor (rs_threads s r)) (rt_reader (rs_threads s r))" for r
      by (rule consumer_inv_mono [OF threads wm_le_refl])
    with producer_begin [OF p push_begin(2,3)] show ?thesis
      unfolding push_begin(1) ring_inv_def by auto
  next
    case (push_op op ops)
    have "consumer_inv R (do_wop op (rs_mem s)) (rs_hist s) (rt_cursor (rs_threads s r)) (rt_reader (rs_threads s r))" for r
      using consumer_inv_mono [OF threads wm_le_do_wop, where xs = "[]"] by simp
    moreover have "length (rs_hist s) \<le> 2 ^ 63" using small push_op(1) by simp
    ultimately show ?thesis
      using producer_op [OF wf _ p push_op(2)] unfolding push_op(1) ring_inv_def by auto
  next
    case (recv_op r rd)
    have "length (rs_hist s) \<le> 2 ^ 63" using small recv_op(1) by (simp add: set_consumer_def)
    from consumer_inv_step [OF producer_mem_ok [OF wf p this] wf threads recv_op(2)] set show ?thesis
      unfolding recv_op(1) by simp
  next
    case (recv_next r x c cur acq)
    have "reader_ok (rs_mem s) \<lparr>rd_prog = Ret (x, c), rd_cur = cur, rd_acq = acq\<rparr>"
      using threads [of r] by (simp add: consumer_inv_def flip: recv_next(2))
    from set [OF consumer_inv_start [OF this]] show ?thesis unfolding recv_next(1) .
  qed
qed

lemma ring_step_hist: "ring_step R s s' \<Longrightarrow> length (rs_hist s) \<le> length (rs_hist s')"
  by (erule ring_step.cases) (auto simp: set_consumer_def)

lemma ring_reach_inv:
  "ring_reach R cs s \<Longrightarrow> ring_wf R \<Longrightarrow> length (rs_hist s) \<le> 2 ^ 63 \<Longrightarrow> ring_inv R s"
proof (induction rule: ring_reach.induct)
  case (step s s')
  with ring_step_hist [OF step.hyps(2)] ring_inv_step show ?case by (meson le_trans)
qed (rule ring_inv_init)

lemma item_phase:
  assumes "consumer_phase R m hist c rd" and "rd_prog rd = Ret (Item rec, c')"
  shows "unat c + 1 < count m WritePos \<and> unat c < length hist \<and> rec = hist ! unat c \<and> c' = c + 1"
proof -
  have no: "read_words ws vs (recv_check R c) \<noteq> Ret x" for ws vs x
    by (cases ws) (simp_all add: recv_check_def)
  from assms show ?thesis
    by cases (auto simp: no try_recv_def recv_slot_def resync_def)
qed

text \<open>
  Property C3: no torn and no invented record. On the view machine, with one producer and any
  number of consumers at arbitrary cursors interleaved in any way, a \<open>try_recv\<close> that returns an item
  at cursor \<open>c\<close> returns exactly the record pushed as number \<open>c\<close>, that push has completed, and the
  cursor advances by one, provided at most \<open>2 ^ 63\<close> pushes have begun.
\<close>
theorem ring_no_torn:
  assumes "with_capacity W cap = Inr R" and "ring_reach R cs s" and "length (rs_hist s) \<le> 2 ^ 63"
    and "rd_prog (rt_reader (rs_threads s r)) = Ret (Item rec, c')"
  shows "unat (rt_cursor (rs_threads s r)) < length (completed s)
    \<and> rec = completed s ! unat (rt_cursor (rs_threads s r))
    \<and> c' = rt_cursor (rs_threads s r) + 1"
proof -
  let ?c = "rt_cursor (rs_threads s r)"
  have inv: "ring_inv R s" by (rule ring_reach_inv [OF assms(2) with_capacity_wf [OF assms(1)] assms(3)])
  then obtain n k where p: "producer_inv R s n k" by (auto simp: ring_inv_def)
  have item: "unat ?c + 1 < count (rs_mem s) WritePos \<and> unat ?c < length (rs_hist s)
      \<and> rec = rs_hist s ! unat ?c \<and> c' = ?c + 1"
    using inv by (intro item_phase [where R = R, OF _ assms(4)]) (simp add: ring_inv_def consumer_inv_def)
  have "unat ?c < n" using item p by (simp add: producer_inv_def)
  moreover have "n \<le> length (completed s)" using p by (auto simp: producer_inv_def completed_def)
  moreover have "unat ?c < length (completed s) \<Longrightarrow> completed s ! unat ?c = rs_hist s ! unat ?c"
    by (cases "rs_pending s = []") (simp_all only: completed_def if_True if_False simp_thms nth_butlast)
  ultimately show ?thesis using item by auto
qed

subsection \<open>A run in which the cursor moves backwards\<close>

lemma ring_reach_trans: "(ring_step R)\<^sup>*\<^sup>* s s' \<Longrightarrow> ring_reach R cs s \<Longrightarrow> ring_reach R cs s'"
  by (induction rule: rtranclp_induct) (auto intro: ring_reach.step)

lemma ring_reads:
  assumes "(read_step (rs_mem s))\<^sup>*\<^sup>* rd rd'" and "rt_reader (rs_threads s r) = rd"
  shows "(ring_step R)\<^sup>*\<^sup>* s (set_consumer s r ((rs_threads s r)\<lparr>rt_reader := rd'\<rparr>))"
  using assms(1)
proof (induction rule: rtranclp_induct)
  case base
  have "set_consumer s r ((rs_threads s r)\<lparr>rt_reader := rd\<rparr>) = s"
    by (simp add: set_consumer_def flip: assms(2))
  then show ?case by (simp only: rtranclp.rtrancl_refl)
next
  case (step y z)
  let ?s = "set_consumer s r ((rs_threads s r)\<lparr>rt_reader := y\<rparr>)"
  have "ring_step R ?s (set_consumer ?s r ((rs_threads ?s r)\<lparr>rt_reader := z\<rparr>))"
    by (rule ring_step.recv_op) (use step.hyps(2) in \<open>simp add: set_consumer_def\<close>)
  then have "ring_step R ?s (set_consumer s r ((rs_threads s r)\<lparr>rt_reader := z\<rparr>))"
    by (simp add: set_consumer_def)
  with step.IH show ?case by (rule rtranclp.rtrancl_into_rtrancl)
qed

lemma ring_run_ops:
  "rs_pending s = xs @ ys \<Longrightarrow>
   (ring_step R)\<^sup>*\<^sup>* s (s\<lparr>rs_mem := fold do_wop xs (rs_mem s), rs_pending := ys\<rparr>)"
proof (induction xs arbitrary: s)
  case Nil
  then have "s\<lparr>rs_mem := fold do_wop [] (rs_mem s), rs_pending := ys\<rparr> = s" by simp
  then show ?case by (simp only: rtranclp.rtrancl_refl)
next
  case (Cons op xs)
  let ?s = "s\<lparr>rs_mem := do_wop op (rs_mem s), rs_pending := xs @ ys\<rparr>"
  have "ring_step R s ?s" using Cons.prems by (intro ring_step.push_op) simp
  from converse_rtranclp_into_rtranclp [of "ring_step R", OF this Cons.IH [of ?s]] show ?case by simp
qed

text \<open>\<open>k\<close> operations of a push; all of them when \<open>k\<close> is large.\<close>

lemma ring_push_some:
  assumes "rs_pending s = []" and "length rec = rg_width R"
  shows "(ring_step R)\<^sup>*\<^sup>* s
    (s\<lparr>rs_hist := rs_hist s @ [rec],
      rs_mem := fold do_wop (take k (ring_push R (wm_latest (rs_mem s) WritePos) rec)) (rs_mem s),
      rs_pending := drop k (ring_push R (wm_latest (rs_mem s) WritePos) rec)\<rparr>)"
proof -
  let ?ops = "ring_push R (wm_latest (rs_mem s) WritePos) rec"
  let ?b = "s\<lparr>rs_pending := ?ops, rs_hist := rs_hist s @ [rec]\<rparr>"
  have "ring_step R s ?b" by (rule ring_step.push_begin [OF assms])
  moreover have "(ring_step R)\<^sup>*\<^sup>* ?b (?b\<lparr>rs_mem := fold do_wop (take k ?ops) (rs_mem ?b), rs_pending := drop k ?ops\<rparr>)"
    by (rule ring_run_ops) simp
  ultimately show ?thesis by (simp add: converse_rtranclp_into_rtranclp)
qed

definition ring2 :: ring where
  "ring2 = \<lparr>rg_cap = 2, rg_width = 1, rg_mask = 1\<rparr>"

text \<open>Three pushes and the mark of the fourth, which overwrites position 1.\<close>

definition lap_mem :: "ring_loc wmem" where
  "lap_mem =
     fold do_wop (ring_push ring2 0 [10] @ ring_push ring2 1 [11] @ ring_push ring2 2 [12]
       @ [Store_Relaxed (SlotStamp 1) (3 OR WRITING)]) (wm_init ring_fresh)"

lemma ring2_push:
  "ring_push ring2 p [v] =
     [Store_Relaxed (SlotStamp (slot_of ring2 p)) (p OR WRITING), Fence_Release,
      Store_Relaxed (Word (slot_of ring2 p) 0) v, Store_Release (SlotStamp (slot_of ring2 p)) p,
      Store_Release WritePos (p + 1)]"
  by (simp add: ring_push_def Let_def ring2_def word_locs_def)

lemma slot_of_ring2: "slot_of ring2 0 = 0" "slot_of ring2 1 = 1" "slot_of ring2 2 = 0" "slot_of ring2 3 = 1"
  by (simp_all add: slot_of_def ring2_def)

lemma writing_words: "WRITING = 0x8000000000000000"
  by (simp add: WRITING_def)

text \<open>Two calls in a row by one reader, with the messages its loads take.\<close>

definition two_calls :: "ring_loc wmem \<Rightarrow> nat list \<Rightarrow> nat list \<Rightarrow> ((recv \<times> u64) \<times> (recv \<times> u64)) option" where
  "two_calls m is js =
     (case run_script (try_recv ring2 0) m is (\<lambda>_. 0) (\<lambda>_. 0) of
        None \<Rightarrow> None
      | Some ((x, c'), c, q) \<Rightarrow>
          map_option (\<lambda>(y, _). ((x, c'), y)) (run_script (try_recv ring2 c') m js c q))"

lemma lap_script:
  "two_calls lap_mem [1, 2, 1, 2] [2, 3, 2] = Some ((Item [10], 1), (Overrun 0, 0))"
  by code_simp

lemma idle_write_pos:
  assumes "ring_reach R cs s" and "ring_wf R" and "rs_pending s = []" and "length (rs_hist s) \<le> 2 ^ 63"
  shows "wm_latest (rs_mem s) WritePos = of_nat (length (rs_hist s))"
proof -
  obtain n k where p: "producer_inv R s n k"
    using ring_reach_inv [OF assms(1,2,4)] by (auto simp: ring_inv_def)
  have "length (rs_hist s) = n"
  proof (rule ccontr)
    assume "length (rs_hist s) \<noteq> n"
    with p assms(3) have "k < rg_width R + 4" "length (rs_hist s) = n + 1" "recs_ok R (rs_hist s)"
      "drop k (ring_push R (of_nat n) (rs_hist s ! n)) = []"
      by (auto simp: producer_inv_def)
    then show False by (simp add: recs_ok_def push_nth(6))
  qed
  with p show ?thesis
    by (auto simp: producer_inv_def wm_latest_def last_conv_nth simp flip: length_greater_0_conv)
qed

lemma push_partial:
  assumes "ring_reach R cs s" and "ring_wf R" and "rs_pending s = []" and "length (rs_hist s) \<le> 2 ^ 63"
    and "length rec = rg_width R"
  shows "\<exists>s'. ring_reach R cs s' \<and> rs_hist s' = rs_hist s @ [rec] \<and> rs_threads s' = rs_threads s
    \<and> rs_mem s' = fold do_wop (take k (ring_push R (of_nat (length (rs_hist s))) rec)) (rs_mem s)
    \<and> rs_pending s' = drop k (ring_push R (of_nat (length (rs_hist s))) rec)"
  using ring_reach_trans [OF ring_push_some [OF assms(3,5), of k] assms(1)]
    idle_write_pos [OF assms(1-4)] by fastforce

lemma ring2_wf: "ring_wf ring2" "with_capacity 1 2 = Inr ring2"
proof -
  show w: "with_capacity 1 2 = Inr ring2" using with_capacity_small(1) by (simp add: ring2_def)
  show "ring_wf ring2" by (rule with_capacity_wf [OF w])
qed

lemma lap_reach:
  "\<exists>s. ring_reach ring2 (\<lambda>_. 0) s \<and> rs_mem s = lap_mem \<and> length (rs_hist s) = 4
     \<and> rs_threads s = rs_threads (ring_init ring2 (\<lambda>_. 0))"
proof -
  let ?s0 = "ring_init ring2 (\<lambda>_. 0)"
  have W: "rg_width ring2 = 1" by (simp add: ring2_def)
  have all: "length (ring_push ring2 p [v]) = 5" for p v by (simp add: ring2_push)
  have h0: "rs_hist ?s0 = []" "rs_pending ?s0 = []" "rs_mem ?s0 = wm_init ring_fresh"
    by (simp_all add: ring_init_def)
  from push_partial [OF ring_reach.init ring2_wf(1) h0(2), of "[10]" 5] obtain s1 where
    s1: "ring_reach ring2 (\<lambda>_. 0) s1" "rs_hist s1 = [[10]]" "rs_threads s1 = rs_threads ?s0"
      "rs_mem s1 = fold do_wop (ring_push ring2 0 [10]) (wm_init ring_fresh)" "rs_pending s1 = []"
    by (auto simp: h0 W all)
  from push_partial [OF s1(1) ring2_wf(1) s1(5), of "[11]" 5] obtain s2 where
    s2: "ring_reach ring2 (\<lambda>_. 0) s2" "rs_hist s2 = [[10], [11]]" "rs_threads s2 = rs_threads ?s0"
      "rs_mem s2 = fold do_wop (ring_push ring2 1 [11]) (rs_mem s1)" "rs_pending s2 = []"
    by (auto simp: s1(2,3) W all)
  from push_partial [OF s2(1) ring2_wf(1) s2(5), of "[12]" 5] obtain s3 where
    s3: "ring_reach ring2 (\<lambda>_. 0) s3" "rs_hist s3 = [[10], [11], [12]]" "rs_threads s3 = rs_threads ?s0"
      "rs_mem s3 = fold do_wop (ring_push ring2 2 [12]) (rs_mem s2)" "rs_pending s3 = []"
    by (auto simp: s2(2,3) W all)
  from push_partial [OF s3(1) ring2_wf(1) s3(5), of "[13]" 1] obtain s4 where
    s4: "ring_reach ring2 (\<lambda>_. 0) s4" "length (rs_hist s4) = 4" "rs_threads s4 = rs_threads ?s0"
      "rs_mem s4 = fold do_wop (take 1 (ring_push ring2 3 [13])) (rs_mem s3)"
    by (auto simp: s3(2,3) W)
  have "rs_mem s4 = lap_mem"
    by (simp only: s4(4) s3(4) s2(4) s1(4) lap_mem_def fold_append o_apply)
      (simp add: ring2_push slot_of_ring2)
  with s4 show ?thesis by blast
qed

lemma lap_calls:
  "\<exists>s1 s2. ring_reach ring2 (\<lambda>_. 0) s1 \<and> length (rs_hist s1) = 4
     \<and> rd_prog (rt_reader (rs_threads s1 0)) = Ret (Item [10], 1)
     \<and> (ring_step ring2)\<^sup>*\<^sup>* s1 s2 \<and> rt_cursor (rs_threads s2 0) = 1
     \<and> rd_prog (rt_reader (rs_threads s2 0)) = Ret (Overrun 0, 0)"
proof -
  obtain c q c' q' where run:
    "run_script (try_recv ring2 0) lap_mem [1, 2, 1, 2] (\<lambda>_. 0) (\<lambda>_. 0) = Some ((Item [10], 1), c, q)"
    "run_script (try_recv ring2 1) lap_mem [2, 3, 2] c q = Some ((Overrun 0, 0), c', q')"
    using lap_script by (auto simp: two_calls_def split: option.splits)
  obtain s where s: "ring_reach ring2 (\<lambda>_. 0) s" "rs_mem s = lap_mem" "length (rs_hist s) = 4"
    "rs_threads s = rs_threads (ring_init ring2 (\<lambda>_. 0))"
    using lap_reach by blast
  have "(read_step (rs_mem s))\<^sup>*\<^sup>* (rt_reader (rs_threads s 0))
      \<lparr>rd_prog = Ret (Item [10], 1), rd_cur = c, rd_acq = q\<rparr>"
    using run_script_sound [OF run(1)] by (simp add: s(2,4) ring_init_def thread_at_def)
  from ring_reads [OF this refl, of ring2] obtain s1 where
    s1: "(ring_step ring2)\<^sup>*\<^sup>* s s1" "rs_mem s1 = lap_mem" "length (rs_hist s1) = 4"
      "rt_reader (rs_threads s1 0) = \<lparr>rd_prog = Ret (Item [10], 1), rd_cur = c, rd_acq = q\<rparr>"
    using s(2,3) by (auto simp: set_consumer_def)
  let ?s = "set_consumer s1 0 (thread_at ring2 1 c q)"
  have again: "ring_step ring2 s1 ?s" by (rule ring_step.recv_next [OF s1(4)])
  have "(read_step (rs_mem ?s))\<^sup>*\<^sup>* (rt_reader (rs_threads ?s 0))
      \<lparr>rd_prog = Ret (Overrun 0, 0), rd_cur = c', rd_acq = q'\<rparr>"
    using run_script_sound [OF run(2)] by (simp add: s1(2) set_consumer_def thread_at_def)
  from ring_reads [OF this refl, of ring2] obtain s2 where
    s2: "(ring_step ring2)\<^sup>*\<^sup>* ?s s2" "rt_cursor (rs_threads s2 0) = 1"
      "rd_prog (rt_reader (rs_threads s2 0)) = Ret (Overrun 0, 0)"
    by (auto simp: set_consumer_def thread_at_def)
  show ?thesis
    using ring_reach_trans [OF s1(1) s(1)] s1(3,4) s2
      converse_rtranclp_into_rtranclp [of "ring_step ring2", OF again s2(1)]
    by (intro exI [of _ s1] exI [of _ s2]) simp
qed

theorem ring_no_torn_witness:
  "\<exists>s. ring_reach ring2 (\<lambda>_. 0) s \<and> rd_prog (rt_reader (rs_threads s 0)) = Ret (Item [10], 1)
     \<and> [10] = completed s ! unat (rt_cursor (rs_threads s 0))"
proof -
  obtain s where s: "ring_reach ring2 (\<lambda>_. 0) s" "length (rs_hist s) = 4"
    "rd_prog (rt_reader (rs_threads s 0)) = Ret (Item [10], 1)"
    using lap_calls by blast
  have "length (rs_hist s) \<le> 2 ^ 63" by (simp add: s(2))
  from ring_no_torn [OF ring2_wf(2) s(1) this s(3)] s(1,3) show ?thesis by blast
qed

text \<open>
  \<open>resync\<close> does not keep the cursor monotonic. With capacity 2 there is a run in which a
  consumer receives position 0, and its next \<open>try_recv\<close>, at cursor 1, finds the slot marked by the
  push of position 3, re-reads a write position of 2 (the relaxed mark is not ordered after the
  release of the write position), reports an overrun with zero records skipped and puts the cursor
  back to 0.
\<close>
theorem ring_resync_backwards:
  "\<exists>s1 s2. ring_reach ring2 (\<lambda>_. 0) s1
     \<and> rd_prog (rt_reader (rs_threads s1 0)) = Ret (Item [10], 1)
     \<and> (ring_step ring2)\<^sup>*\<^sup>* s1 s2 \<and> rt_cursor (rs_threads s2 0) = 1
     \<and> rd_prog (rt_reader (rs_threads s2 0)) = Ret (Overrun 0, 0)"
  using lap_calls by blast

end
