(* ===== verification/Pack.thy ===== *)
theory Pack
  imports Event
begin

unbundle bit_operations_syntax

section \<open>Packing events into ring words (engine/src/pack.rs)\<close>

text \<open>
  \<open>pack\<close> writes the five words of a record; \<open>unpack\<close> validates the two discriminant bytes of the
  last one before it rebuilds the event. Bits 16 and up of that word are ignored.
\<close>

definition W :: nat where "W = 5"

datatype unpack_error = BadSide u64 | BadKind u64

definition pack :: "book_event \<Rightarrow> u64 list" where
  "pack ev =
     [ev_seq ev, ev_ts ev, ticks (ev_px ev), lots (ev_qty ev),
      ucast (side_disc (ev_side ev)) OR push_bit 8 (ucast (kind_disc (ev_kind ev)))]"

definition unpack_side :: "u64 \<Rightarrow> unpack_error + side" where
  "unpack_side w =
     (let b = w AND 0xFF
      in if b = 0 then Inr Bid else if b = 1 then Inr Ask else Inl (BadSide b))"

definition unpack_kind :: "u64 \<Rightarrow> unpack_error + event_kind" where
  "unpack_kind w =
     (let b = drop_bit 8 w AND 0xFF
      in if b = 0 then Inr Level else if b = 1 then Inr Trade else if b = 2 then Inr Clear
         else Inl (BadKind b))"

definition unpack :: "u64 list \<Rightarrow> unpack_error + book_event" where
  "unpack rec =
     res_bind (unpack_side (rec ! 4)) (\<lambda>s.
     res_bind (unpack_kind (rec ! 4)) (\<lambda>k.
       Inr \<lparr>ev_seq = rec ! 0, ev_ts = rec ! 1, ev_px = Px (rec ! 2), ev_qty = Qty (rec ! 3),
            ev_side = s, ev_kind = k\<rparr>))"

lemma length_pack [simp]: "length (pack ev) = W"
  by (simp add: pack_def W_def)

lemma unpack_side_pack: "unpack_side (pack ev ! 4) = Inr (ev_side ev)"
  by (cases "ev_side ev"; cases "ev_kind ev") (simp_all add: unpack_side_def pack_def)

lemma unpack_kind_pack: "unpack_kind (pack ev ! 4) = Inr (ev_kind ev)"
  by (cases "ev_side ev"; cases "ev_kind ev") (simp_all add: unpack_kind_def pack_def)

lemma unpack_pack [simp]: "unpack (pack ev) = Inr ev"
  by (simp add: unpack_def unpack_side_pack unpack_kind_pack) (simp add: pack_def)

text \<open>
  Property C30: packing loses nothing. Every event, whatever its integers, unpacks from its record
  to itself, and distinct events have distinct records.
\<close>
theorem pack_round_trip: "unpack (pack ev) = Inr ev \<and> inj pack"
  by (simp add: injI) (metis injI sum.inject(2) unpack_pack)

lemma low_bytes: "w AND 0xFFFF = (w AND 0xFF) OR push_bit 8 (drop_bit 8 w AND 0xFF)" for w :: u64
proof -
  have masks: "(0xFFFF :: u64) = mask 16" "(0xFF :: u64) = mask 8"
    by (simp_all add: mask_eq_exp_minus_1)
  show ?thesis
    unfolding masks by (rule bit_eqI) (auto simp: bit_simps)
qed

text \<open>The two discriminant tests of \<open>unpack\<close>, read as comparisons.\<close>

lemma byte_gt_one: "b \<noteq> 0 \<Longrightarrow> b \<noteq> 1 \<Longrightarrow> 1 < b" for b :: u64
proof -
  assume "b \<noteq> 0" "b \<noteq> 1"
  then have "unat b \<noteq> unat (0 :: u64)" "unat b \<noteq> unat (1 :: u64)"
    by (simp_all only: word_unat_eq_iff not_False_eq_True)
  then show ?thesis by (simp add: word_less_nat_alt)
qed

lemma byte_gt_two: "b \<noteq> 0 \<Longrightarrow> b \<noteq> 1 \<Longrightarrow> b \<noteq> 2 \<Longrightarrow> 2 < b" for b :: u64
proof -
  assume "b \<noteq> 0" "b \<noteq> 1" "b \<noteq> 2"
  then have "unat b \<noteq> unat (0 :: u64)" "unat b \<noteq> unat (1 :: u64)" "unat b \<noteq> unat (2 :: u64)"
    by (simp_all only: word_unat_eq_iff not_False_eq_True)
  then show ?thesis by (simp add: word_less_nat_alt)
qed

lemma unpack_side_word: "unpack_side w = Inr s \<Longrightarrow> ucast (side_disc s) = w AND 0xFF"
  by (cases s) (auto simp: unpack_side_def Let_def split: if_splits)

lemma unpack_kind_word: "unpack_kind w = Inr k \<Longrightarrow> ucast (kind_disc k) = drop_bit 8 w AND 0xFF"
  by (cases k) (auto simp: unpack_kind_def Let_def split: if_splits)

text \<open>
  Validation is exact. A record unpacks iff its side byte is at most 1 and its kind
  byte at most 2; otherwise the error names the offending byte, the side first. A record that
  unpacks is the packing of the result up to the ignored upper bits of the last word.
\<close>
theorem unpack_exact:
  assumes "length rec = W"
  shows "case unpack rec of
      Inl (BadSide b) \<Rightarrow> b = rec ! 4 AND 0xFF \<and> 1 < b
    | Inl (BadKind b) \<Rightarrow> rec ! 4 AND 0xFF \<le> 1 \<and> b = drop_bit 8 (rec ! 4) AND 0xFF \<and> 2 < b
    | Inr ev \<Rightarrow> pack ev = rec[4 := rec ! 4 AND 0xFFFF]"
proof (cases "unpack_side (rec ! 4)")
  case (Inl e)
  then show ?thesis
    by (auto simp: unpack_def unpack_side_def Let_def byte_gt_one split: if_splits)
next
  case (Inr s)
  note side = Inr
  show ?thesis
  proof (cases "unpack_kind (rec ! 4)")
    case (Inl e)
    with side show ?thesis
      by (auto simp: unpack_def unpack_side_def unpack_kind_def Let_def byte_gt_two split: if_splits)
  next
    case (Inr k)
    from assms obtain a b c d e where rec: "rec = [a, b, c, d, e]"
      by (auto simp: W_def length_Suc_conv numeral_eq_Suc)
    show ?thesis
      using side Inr unpack_side_word [OF side] unpack_kind_word [OF Inr] low_bytes [of e]
      by (simp add: unpack_def pack_def rec)
  qed
qed

theorem unpack_exact_witness:
  "(case unpack [7, 8, 9, 10, 0x301] of
      Inl (BadSide b) \<Rightarrow> b = [7, 8, 9, 10, 0x301] ! 4 AND 0xFF \<and> 1 < b
    | Inl (BadKind b) \<Rightarrow> ([7, 8, 9, 10, 0x301] :: u64 list) ! 4 AND 0xFF \<le> 1
        \<and> b = drop_bit 8 ([7, 8, 9, 10, 0x301] ! 4) AND 0xFF \<and> 2 < b
    | Inr ev \<Rightarrow> pack ev = [7, 8, 9, 10, 0x301][4 := [7, 8, 9, 10, 0x301] ! 4 AND 0xFFFF])"
  by (rule unpack_exact) (simp add: W_def)

end
