(* ===== verification/Engine.thy ===== *)
theory Engine
  imports Oracle Seqlock Ring Pack "HOL-Library.Signed_Division"
begin

section \<open>The assembled pipeline (engine/src/lib.rs)\<close>

text \<open>
  One producer step and one consumer step over a book, the seqlock and the ring, whole operations
  at a time: \<open>process\<close> is generic in the book implementation, as the source is, and \<open>poll\<close> is one
  consumer step. \<open>engine_run\<close> is the sequential pipeline, as one thread drives it: producer steps, joins
  and polls of any number of consumers in a given order, each run to its end before the next. The
  pipeline between its threads, where the operations inside \<open>process\<close> and \<open>poll\<close> interleave, is in
  \<open>Engine_Threads\<close>; \<open>Engine_Runs\<close> shows that a schedule of whole steps is one of its runs.
  A poll whose load spins for ever has outcome \<open>None\<close>.
\<close>

record 'b engine_producer =
  ep_book :: 'b
  ep_stamp :: u64

text \<open>What the two \<open>Arc\<close>s share: the seqlock's cells, the ring and its cells.\<close>

record engine_shared =
  es_top :: "seq_loc plain"
  es_ring :: ring
  es_slots :: "ring_loc plain"

record engine_consumer =
  ec_cursor :: u64
  ec_seen :: u64
  ec_resyncs :: u64
  ec_last_mid :: i64

datatype observed =
  Ob_Event book_event | Ob_Overrun (skipped: u64) (snap_of: top_of_book) | Ob_Idle

definition engine_new ::
  "'b order_book_ops \<Rightarrow> nat \<Rightarrow> ('b engine_producer \<times> engine_shared) res" where
  "engine_new ops ring_capacity =
     res_bind (with_capacity W ring_capacity) (\<lambda>R.
       Inr (\<lparr>ep_book = ob_default ops, ep_stamp = 0\<rparr>,
            \<lparr>es_top = seqlock_new tob_default, es_ring = R, es_slots = ring_fresh\<rparr>))"

definition unwrap_level :: "level option \<Rightarrow> level" where
  "unwrap_level l = (case l of None \<Rightarrow> (px_zero, qty_zero) | Some pq \<Rightarrow> pq)"

definition top_of :: "level option \<Rightarrow> level option \<Rightarrow> u64 \<Rightarrow> top_of_book" where
  "top_of bid ask stamp =
     (let (bp, bq) = unwrap_level bid; (ap, aq) = unwrap_level ask
      in \<lparr>tob_bid_px = ticks bp, tob_bid_qty = lots bq, tob_ask_px = ticks ap,
          tob_ask_qty = lots aq, tob_stamp = stamp\<rparr>)"

definition process ::
  "'b order_book_ops \<Rightarrow> book_event \<Rightarrow> 'b engine_producer \<Rightarrow> engine_shared
   \<Rightarrow> ('b engine_producer \<times> engine_shared) res" where
  "process ops ev p sh =
     res_bind (ob_apply ops (ep_book p) ev) (\<lambda>b.
     res_bind (ob_best_bid ops b) (\<lambda>bid.
     res_bind (ob_best_ask ops b) (\<lambda>ask.
       let stamp = ep_stamp p + 1
       in Inr (\<lparr>ep_book = b, ep_stamp = stamp\<rparr>,
               sh\<lparr>es_top := plain_store (top_of bid ask stamp) (es_top sh),
                  es_slots := plain_push (es_ring sh) (pack ev) (es_slots sh)\<rparr>))))"

definition top_of_book_load :: "engine_shared \<Rightarrow> top_of_book option" where
  "top_of_book_load sh = seqlock_load (es_top sh)"

text \<open>\<open>i64\<close> division truncates towards zero.\<close>

definition i64_div :: "i64 \<Rightarrow> int \<Rightarrow> i64" where
  "i64_div a k = of_int (sint a sdiv k)"

definition mid_of :: "top_of_book \<Rightarrow> i64" where
  "mid_of t = i64_div (tob_bid_px t + tob_ask_px t) 2"

definition poll :: "engine_shared \<Rightarrow> engine_consumer \<Rightarrow> (observed \<times> engine_consumer) outcome" where
  "poll sh c =
     (case plain_read (es_slots sh) (try_recv (es_ring sh) (ec_cursor c)) of
        (Item rec, cur) \<Rightarrow>
          (case unpack rec of
             Inl _ \<Rightarrow> Some (Inl UnwrapFailed)
           | Inr ev \<Rightarrow> Some (Inr (Ob_Event ev, c\<lparr>ec_cursor := cur, ec_seen := ec_seen c + 1\<rparr>)))
      | (Overrun k, cur) \<Rightarrow>
          (case seqlock_load (es_top sh) of
             None \<Rightarrow> None
           | Some snap \<Rightarrow> Some (Inr (Ob_Overrun k snap,
               c\<lparr>ec_cursor := cur, ec_last_mid := mid_of snap, ec_resyncs := ec_resyncs c + 1\<rparr>)))
      | (Empty, cur) \<Rightarrow> Some (Inr (Ob_Idle, c\<lparr>ec_cursor := cur\<rparr>)))"

text \<open>\<open>EngineHandle::consumer\<close>: a consumer that joins at the current write position.\<close>

definition engine_consumer_new :: "engine_shared \<Rightarrow> engine_consumer" where
  "engine_consumer_new sh =
     \<lparr>ec_cursor = plain_read (es_slots sh) consumer, ec_seen = 0, ec_resyncs = 0, ec_last_mid = 0\<rparr>"

subsection \<open>Schedules of whole steps\<close>

record 'b engine =
  en_producer :: "'b engine_producer"
  en_shared :: engine_shared
  en_consumers :: "nat \<Rightarrow> engine_consumer"

datatype engine_op = Process book_event | Join nat | Poll nat

definition engine_start :: "'b order_book_ops \<Rightarrow> nat \<Rightarrow> 'b engine res" where
  "engine_start ops cap =
     res_bind (engine_new ops cap) (\<lambda>(p, sh).
       Inr \<lparr>en_producer = p, en_shared = sh, en_consumers = (\<lambda>_. engine_consumer_new sh)\<rparr>)"

text \<open>One step, with what a poll observed.\<close>

fun engine_step ::
  "'b order_book_ops \<Rightarrow> engine_op \<Rightarrow> 'b engine \<Rightarrow> (observed option \<times> 'b engine) outcome" where
  "engine_step ops (Process ev) en =
     Some (res_bind (process ops ev (en_producer en) (en_shared en)) (\<lambda>(p, sh).
       Inr (None, en\<lparr>en_producer := p, en_shared := sh\<rparr>)))"
| "engine_step ops (Join r) en =
     Some (Inr (None, en\<lparr>en_consumers :=
       (en_consumers en)(r := engine_consumer_new (en_shared en))\<rparr>))"
| "engine_step ops (Poll r) en =
     out_bind (poll (en_shared en) (en_consumers en r)) (\<lambda>(ob, c).
       Some (Inr (Some ob, en\<lparr>en_consumers := (en_consumers en)(r := c)\<rparr>)))"

fun engine_run ::
  "'b order_book_ops \<Rightarrow> engine_op list \<Rightarrow> 'b engine \<Rightarrow> (observed option list \<times> 'b engine) outcome" where
  "engine_run ops [] en = Some (Inr ([], en))"
| "engine_run ops (op # sched) en =
     out_bind (engine_step ops op en) (\<lambda>(ob, en').
     out_bind (engine_run ops sched en') (\<lambda>(obs, en'').
       Some (Inr (ob # obs, en''))))"

text \<open>The events a schedule processes, and what the polls of consumer \<open>r\<close> observed, in order.\<close>

fun processed :: "engine_op list \<Rightarrow> book_event list" where
  "processed [] = []"
| "processed (Process ev # sched) = ev # processed sched"
| "processed (_ # sched) = processed sched"

fun log_of :: "nat \<Rightarrow> engine_op list \<Rightarrow> observed option list \<Rightarrow> observed list" where
  "log_of r (Poll q # sched) (Some ob # obs) =
     (if q = r then ob # log_of r sched obs else log_of r sched obs)"
| "log_of r (_ # sched) (_ # obs) = log_of r sched obs"
| "log_of r _ _ = []"

lemma engine_run_Cons:
  "engine_step ops op en = Some (Inr (ob, en')) \<Longrightarrow> engine_run ops sched en' = Some (Inr (obs, en''))
   \<Longrightarrow> engine_run ops (op # sched) en = Some (Inr (ob # obs, en''))"
  by (simp del: engine_step.simps)

lemma processed_append: "processed (xs @ ys) = processed xs @ processed ys"
  by (induction xs rule: processed.induct) simp_all

subsection \<open>What every part holds after a stream\<close>

definition top_at :: "book_event list \<Rightarrow> top_of_book" where
  "top_at evs = top_of (spec_best_bid (spec_run evs)) (spec_best_ask (spec_run evs)) (of_nat (length evs))"

definition published_top :: "top_of_book \<Rightarrow> seq_loc plain \<Rightarrow> bool" where
  "published_top t \<sigma> \<longleftrightarrow> to_u32 (\<sigma> Seq) AND 1 = 0 \<and> map \<sigma> payload_locs = tob_words t"

lemma published_new: "published_top t (seqlock_new t)"
  by (simp add: published_top_def payload_locs_def tob_words_def)

lemma published_store: "published_top t' \<sigma> \<Longrightarrow> published_top t (plain_store t \<sigma>)"
  by (simp add: published_top_def plain_store_seq plain_store_words even_plus_two)

lemma published_load: "published_top t \<sigma> \<Longrightarrow> seqlock_load \<sigma> = Some t"
  by (simp add: published_top_def seqlock_load_def seqlock_load_stable)

definition shared_inv :: "nat \<Rightarrow> book_event list \<Rightarrow> engine_shared \<Rightarrow> bool" where
  "shared_inv cap evs sh \<longleftrightarrow>
     published_top (top_at evs) (es_top sh) \<and> with_capacity W cap = Inr (es_ring sh)
     \<and> es_slots sh = ring_run (es_ring sh) (map pack evs)"

lemma top_at_Nil: "top_at [] = tob_default"
  by (simp add: top_at_def top_of_def unwrap_level_def spec_run_def spec_best_bid_def
      spec_best_ask_def spec_empty_def tob_default_def px_zero_def qty_zero_def)

lemma shared_inv_new: "with_capacity W cap = Inr R \<Longrightarrow>
  shared_inv cap [] \<lparr>es_top = seqlock_new tob_default, es_ring = R, es_slots = ring_fresh\<rparr>"
  by (simp add: shared_inv_def top_at_Nil published_new ring_run_def)

lemma with_capacity_fields: "with_capacity w cap = Inr R \<Longrightarrow> rg_cap R = cap \<and> rg_width R = w"
  by (auto simp: with_capacity_def split: if_splits)

lemma recs_ok_pack: "with_capacity W cap = Inr R \<Longrightarrow> recs_ok R (map pack evs)"
  by (auto simp: recs_ok_def dest: with_capacity_fields)

text \<open>Every branch of \<open>poll\<close>, in terms of the stream alone.\<close>

lemma poll_ok:
  assumes inv: "shared_inv cap evs sh" and n: "length evs \<le> 2 ^ 63"
    and cur: "ec_cursor c = of_nat p" and p: "p \<le> length evs"
  shows "poll sh c = Some (Inr
    (if p = length evs then (Ob_Idle, c)
     else if length evs \<le> p + cap
     then (Ob_Event (evs ! p), c\<lparr>ec_cursor := of_nat (p + 1), ec_seen := ec_seen c + 1\<rparr>)
     else (Ob_Overrun (of_nat (length evs - cap - p)) (top_at evs),
       c\<lparr>ec_cursor := of_nat (length evs - cap), ec_last_mid := mid_of (top_at evs),
         ec_resyncs := ec_resyncs c + 1\<rparr>)))"
proof -
  have R: "with_capacity W cap = Inr (es_ring sh)" using inv by (simp add: shared_inv_def)
  then have cap: "rg_cap (es_ring sh) = cap" by (simp add: with_capacity_fields)
  have slots: "es_slots sh = ring_run (es_ring sh) (map pack evs)"
    and load: "seqlock_load (es_top sh) = Some (top_at evs)"
    using inv by (simp_all add: shared_inv_def published_load)
  have "c\<lparr>ec_cursor := of_nat p\<rparr> = c" using cur by (cases c) simp
  then show ?thesis
    using try_recv_rest [OF with_capacity_wf [OF R] recs_ok_pack [OF R], of evs p] n p
    by (auto simp: poll_def cur slots load cap)
qed

lemma consumer_new_ok:
  assumes "shared_inv cap evs sh" and "length evs \<le> 2 ^ 63"
  shows "ec_cursor (engine_consumer_new sh) = of_nat (length evs)"
    "ec_seen (engine_consumer_new sh) = 0" "ec_resyncs (engine_consumer_new sh) = 0"
proof -
  have R: "with_capacity W cap = Inr (es_ring sh)" using assms(1) by (simp add: shared_inv_def)
  show "ec_cursor (engine_consumer_new sh) = of_nat (length evs)"
    using resident_run [OF with_capacity_wf [OF R] recs_ok_pack [OF R], of evs] assms
    by (simp add: engine_consumer_new_def consumer_def shared_inv_def resident_def)
qed (simp_all add: engine_consumer_new_def)

definition producer_inv ::
  "('b \<Rightarrow> bool) \<Rightarrow> ('b \<Rightarrow> spec_book) \<Rightarrow> book_event list \<Rightarrow> 'b engine_producer \<Rightarrow> bool" where
  "producer_inv I A evs p \<longleftrightarrow>
     I (ep_book p) \<and> A (ep_book p) = spec_run evs \<and> ep_stamp p = of_nat (length evs)"

definition engine_inv ::
  "('b \<Rightarrow> bool) \<Rightarrow> ('b \<Rightarrow> spec_book) \<Rightarrow> nat \<Rightarrow> book_event list \<Rightarrow> 'b engine \<Rightarrow> bool" where
  "engine_inv I A cap evs en \<longleftrightarrow>
     producer_inv I A evs (en_producer en) \<and> shared_inv cap evs (en_shared en)
     \<and> (\<forall>r. \<exists>c \<le> length evs. ec_cursor (en_consumers en r) = of_nat c)"

subsection \<open>What a consumer's log may contain\<close>

text \<open>
  \<open>follows cap evs c obs d\<close>: from position \<open>c\<close> the log \<open>obs\<close> accounts for the stream \<open>evs\<close> position by
  position up to \<open>d\<close>. An event is the one at its position; an overrun skips exactly as many
  positions as it reports, at least one, and its snapshot is the top of book at the moment the
  oldest resident event was the one after the gap.
\<close>

fun follows :: "nat \<Rightarrow> book_event list \<Rightarrow> nat \<Rightarrow> observed list \<Rightarrow> nat \<Rightarrow> bool" where
  "follows cap evs c [] d \<longleftrightarrow> c = d"
| "follows cap evs c (Ob_Event ev # obs) d \<longleftrightarrow>
     c < length evs \<and> ev = evs ! c \<and> follows cap evs (c + 1) obs d"
| "follows cap evs c (Ob_Overrun k snap # obs) d \<longleftrightarrow>
     0 < unat k \<and> c + unat k + cap \<le> length evs \<and> snap = top_at (take (c + unat k + cap) evs)
     \<and> follows cap evs (c + unat k) obs d"
| "follows cap evs c (Ob_Idle # obs) d \<longleftrightarrow> follows cap evs c obs d"

definition deliveries :: "observed list \<Rightarrow> book_event list" where
  "deliveries obs = concat (map (\<lambda>ob. case ob of Ob_Event ev \<Rightarrow> [ev] | _ \<Rightarrow> []) obs)"

definition overruns :: "observed list \<Rightarrow> nat" where
  "overruns obs = length (filter (\<lambda>ob. \<exists>k s. ob = Ob_Overrun k s) obs)"

lemma log_facts [simp]:
  "deliveries [] = []" "deliveries (Ob_Event ev # obs) = ev # deliveries obs"
  "deliveries (Ob_Overrun k s # obs) = deliveries obs" "deliveries (Ob_Idle # obs) = deliveries obs"
  "overruns [] = 0" "overruns (Ob_Event ev # obs) = overruns obs"
  "overruns (Ob_Overrun k s # obs) = Suc (overruns obs)" "overruns (Ob_Idle # obs) = overruns obs"
  by (simp_all add: deliveries_def overruns_def)

lemma follows_le: "follows cap evs c obs d \<Longrightarrow> c \<le> d"
  by (induction cap evs c obs d rule: follows.induct) auto

text \<open>A consumer that trails the end of the stream by at most the capacity is never lapped.\<close>

lemma follows_roomy:
  "follows cap evs c obs d \<Longrightarrow> length evs \<le> c + cap \<Longrightarrow>
   overruns obs = 0 \<and> deliveries obs = map ((!) evs) [c..<d]"
proof (induction cap evs c obs d rule: follows.induct)
  case (2 cap evs c ev obs d)
  then have "c < d" using follows_le [of cap evs "c + 1" obs d] by simp
  with 2 show ?case by (simp add: upt_conv_Cons)
qed auto

lemma follows_Cons:
  "follows cap evs c [ob] d \<Longrightarrow> follows cap (evs @ rest) d obs e \<Longrightarrow>
   follows cap (evs @ rest) c (ob # obs) e"
  by (cases ob) (auto simp: nth_append)

lemma overruns_Cons: "overruns (ob # obs) = overruns [ob] + overruns obs"
  by (cases ob) simp_all

lemma deliveries_Cons: "deliveries (ob # obs) = deliveries [ob] @ deliveries obs"
  by (cases ob) simp_all

text \<open>A log, with the consumer before and after it: cursor, counters and stream agree.\<close>

definition accounted ::
  "nat \<Rightarrow> book_event list \<Rightarrow> nat \<Rightarrow> engine_consumer \<Rightarrow> observed list \<Rightarrow> engine_consumer \<Rightarrow> bool" where
  "accounted cap evs c con obs con' \<longleftrightarrow>
     (\<exists>d \<le> length evs. ec_cursor con' = of_nat d \<and> follows cap evs c obs d)
     \<and> ec_seen con' = ec_seen con + of_nat (length (deliveries obs))
     \<and> ec_resyncs con' = ec_resyncs con + of_nat (overruns obs)"

lemma accounted_Nil:
  "c \<le> length evs \<Longrightarrow> ec_cursor con = of_nat c \<Longrightarrow> accounted cap evs c con [] con"
  by (simp add: accounted_def)

lemma accounted_Cons:
  assumes "follows cap evs c [ob] d" and "accounted cap (evs @ rest) d con1 obs con2"
    and "ec_seen con1 = ec_seen con + of_nat (length (deliveries [ob]))"
    and "ec_resyncs con1 = ec_resyncs con + of_nat (overruns [ob])"
  shows "accounted cap (evs @ rest) c con (ob # obs) con2"
  using assms by (auto simp: accounted_def deliveries_Cons [of ob obs] overruns_Cons [of ob obs]
      intro: follows_Cons)

lemma fresh_consumer: obtains r where "Join r \<notin> set sched"
proof -
  have "finite {i. Join i \<in> set sched}"
    by (rule finite_subset [of _ "(\<lambda>op. case op of Join i \<Rightarrow> i | _ \<Rightarrow> 0) ` set sched"])
      (auto intro: rev_image_eqI)
  then show thesis using that ex_new_if_finite [OF infinite_UNIV_nat] by auto
qed

context order_book
begin

lemma process_ok:
  assumes "producer_inv inv abs evs p" and "shared_inv cap evs sh" and "adm ev"
  obtains p' sh' where "process ops ev p sh = Inr (p', sh')" "producer_inv inv abs (evs @ [ev]) p'"
    "shared_inv cap (evs @ [ev]) sh'"
proof -
  obtain b where b: "ob_apply ops (ep_book p) ev = Inr b" "inv b" "abs b = spec_run (evs @ [ev])"
    using apply_ok [of "ep_book p" ev] assms by (auto simp: producer_inv_def spec_run_snoc)
  let ?p = "\<lparr>ep_book = b, ep_stamp = ep_stamp p + 1\<rparr>"
  let ?sh = "sh\<lparr>es_top := plain_store (top_at (evs @ [ev])) (es_top sh),
    es_slots := plain_push (es_ring sh) (pack ev) (es_slots sh)\<rparr>"
  have stamp: "ep_stamp p + 1 = of_nat (length (evs @ [ev]))"
    using assms(1) by (simp add: producer_inv_def)
  have "process ops ev p sh = Inr (?p, ?sh)"
    by (simp only: process_def b(1) res_bind.simps best_bid_ok [OF b(2)] best_ask_ok [OF b(2)] b(3)
        Let_def stamp top_at_def)
  moreover have "producer_inv inv abs (evs @ [ev]) ?p" using b stamp by (simp add: producer_inv_def)
  moreover have "shared_inv cap (evs @ [ev]) ?sh"
    using assms(2) by (auto simp: shared_inv_def ring_run_def intro: published_store)
  ultimately show thesis by (rule that)
qed

lemma process_step:
  assumes "engine_inv inv abs cap evs en" and "adm ev"
  obtains en' where "engine_step ops (Process ev) en = Some (Inr (None, en'))"
    "engine_inv inv abs cap (evs @ [ev]) en'" "en_consumers en' = en_consumers en"
proof -
  obtain p sh where ps: "process ops ev (en_producer en) (en_shared en) = Inr (p, sh)"
      "producer_inv inv abs (evs @ [ev]) p" "shared_inv cap (evs @ [ev]) sh"
    using assms by (auto simp: engine_inv_def intro: process_ok)
  have "engine_inv inv abs cap (evs @ [ev]) (en\<lparr>en_producer := p, en_shared := sh\<rparr>)"
    using assms(1) ps by (auto simp: engine_inv_def intro: le_SucI)
  then show thesis
    using ps by (intro that [of "en\<lparr>en_producer := p, en_shared := sh\<rparr>"]) simp_all
qed

lemma join_step:
  assumes "engine_inv inv abs cap evs en" and "length evs \<le> 2 ^ 63"
    and "en' = en\<lparr>en_consumers := (en_consumers en)(r := engine_consumer_new (en_shared en))\<rparr>"
  shows "engine_inv inv abs cap evs en'"
    and "ec_cursor (en_consumers en' r) = of_nat (length evs)"
    and "ec_seen (en_consumers en' r) = 0" and "ec_resyncs (en_consumers en' r) = 0"
  using assms consumer_new_ok [of cap evs "en_shared en"] by (auto simp: engine_inv_def)

lemma poll_step:
  assumes "engine_inv inv abs cap evs en" and "length evs \<le> 2 ^ 63"
    and "c \<le> length evs" and "ec_cursor (en_consumers en r) = of_nat c"
  obtains ob con d where
    "engine_step ops (Poll r) en = Some (Inr (Some ob, en\<lparr>en_consumers := (en_consumers en)(r := con)\<rparr>))"
    "engine_inv inv abs cap evs (en\<lparr>en_consumers := (en_consumers en)(r := con)\<rparr>)"
    "d \<le> length evs" "ec_cursor con = of_nat d" "follows cap evs c [ob] d"
    "ec_seen con = ec_seen (en_consumers en r) + of_nat (length (deliveries [ob]))"
    "ec_resyncs con = ec_resyncs (en_consumers en r) + of_nat (overruns [ob])"
proof -
  let ?con = "en_consumers en r"
  have sh: "shared_inv cap evs (en_shared en)" using assms(1) by (simp add: engine_inv_def)
  note poll = poll_ok [OF sh assms(2,4,3)]
  obtain ob con d where pc: "poll (en_shared en) ?con = Some (Inr (ob, con))"
    and d: "d \<le> length evs" "ec_cursor con = of_nat d" "follows cap evs c [ob] d"
      "ec_seen con = ec_seen ?con + of_nat (length (deliveries [ob]))"
      "ec_resyncs con = ec_resyncs ?con + of_nat (overruns [ob])"
  proof (cases "length evs \<le> c + cap")
    case near: True
    show thesis
    proof (cases "c = length evs")
      case True
      with poll assms(3,4) show thesis by (intro that [of Ob_Idle ?con c]) simp_all
    next
      case False
      with poll near assms(3) show thesis
        by (intro that [of "Ob_Event (evs ! c)" _ "c + 1"]) (simp, simp_all)
    qed
  next
    case False
    let ?k = "length evs - cap - c"
    have k: "unat (of_nat ?k :: u64) = ?k" using assms(2) by (simp add: unat_of_nat take_bit_nat_eq_self)
    from False poll k assms(3) show thesis
      by (intro that [of "Ob_Overrun (of_nat ?k) (top_at evs)" _ "c + ?k"]) (simp, simp_all)
  qed
  show thesis
    using assms(1) pc d by (intro that [of ob con d]) (auto simp: engine_inv_def)
qed

text \<open>Any schedule, with what one consumer that does not rejoin observes.\<close>

lemma run_schedule:
  assumes "engine_inv inv abs cap evs en" and "\<forall>ev \<in> set (processed sched). adm ev"
    and "length (evs @ processed sched) \<le> 2 ^ 63"
    and "Join r \<notin> set sched" and "c \<le> length evs" and "ec_cursor (en_consumers en r) = of_nat c"
  shows "\<exists>obs en'. engine_run ops sched en = Some (Inr (obs, en'))
    \<and> engine_inv inv abs cap (evs @ processed sched) en'
    \<and> accounted cap (evs @ processed sched) c (en_consumers en r) (log_of r sched obs)
        (en_consumers en' r)"
  using assms
proof (induction sched arbitrary: evs en c)
  case Nil
  then show ?case by (simp add: accounted_Nil)
next
  case (Cons op sched)
  show ?case
  proof (cases op)
    case (Process ev)
    then obtain en1 where en1: "engine_step ops op en = Some (Inr (None, en1))"
        "engine_inv inv abs cap (evs @ [ev]) en1" "en_consumers en1 = en_consumers en"
      using Cons.prems by (auto intro: process_step)
    then obtain obs en' where run: "engine_run ops sched en1 = Some (Inr (obs, en'))" and
        rest: "engine_inv inv abs cap (evs @ ev # processed sched) en'"
        "accounted cap (evs @ ev # processed sched) c (en_consumers en r) (log_of r sched obs)
          (en_consumers en' r)"
      using Cons.IH [OF en1(2), of c] Cons.prems Process by auto
    have lg: "log_of r (op # sched) (None # obs) = log_of r sched obs" by (simp add: Process)
    have pr: "evs @ processed (op # sched) = evs @ ev # processed sched" by (simp add: Process)
    show ?thesis
      unfolding pr
      by (intro exI [of _ "None # obs"] exI [of _ en'] conjI engine_run_Cons [OF en1(1) run])
        (simp_all only: lg rest)
  next
    case (Join q)
    let ?en = "en\<lparr>en_consumers := (en_consumers en)(q := engine_consumer_new (en_shared en))\<rparr>"
    have inv: "engine_inv inv abs cap evs ?en"
      by (rule join_step(1) [OF Cons.prems(1) _ refl]) (use Cons.prems(3) in simp)
    have step: "engine_step ops op en = Some (Inr (None, ?en))" by (simp add: Join)
    have "en_consumers ?en r = en_consumers en r" using Cons.prems(4) Join by auto
    then obtain obs en' where run: "engine_run ops sched ?en = Some (Inr (obs, en'))" and
        rest: "engine_inv inv abs cap (evs @ processed sched) en'"
        "accounted cap (evs @ processed sched) c (en_consumers en r) (log_of r sched obs)
          (en_consumers en' r)"
      using Cons.IH [OF inv, of c] Cons.prems Join by auto
    have lg: "log_of r (op # sched) (None # obs) = log_of r sched obs" by (simp add: Join)
    have pr: "evs @ processed (op # sched) = evs @ processed sched" by (simp add: Join)
    show ?thesis
      unfolding pr
      by (intro exI [of _ "None # obs"] exI [of _ en'] conjI engine_run_Cons [OF step run])
        (simp_all only: lg rest)
  next
    case (Poll q)
    obtain cq where cq: "cq \<le> length evs" "ec_cursor (en_consumers en q) = of_nat cq"
      and same: "q = r \<Longrightarrow> cq = c"
      using Cons.prems by (cases "q = r") (auto simp: engine_inv_def)
    have len: "length evs \<le> 2 ^ 63" using Cons.prems(3) by simp
    obtain ob con d where step:
        "engine_step ops (Poll q) en = Some (Inr (Some ob, en\<lparr>en_consumers := (en_consumers en)(q := con)\<rparr>))"
        "engine_inv inv abs cap evs (en\<lparr>en_consumers := (en_consumers en)(q := con)\<rparr>)"
        "d \<le> length evs" "ec_cursor con = of_nat d" "follows cap evs cq [ob] d"
        "ec_seen con = ec_seen (en_consumers en q) + of_nat (length (deliveries [ob]))"
        "ec_resyncs con = ec_resyncs (en_consumers en q) + of_nat (overruns [ob])"
      by (rule poll_step [OF Cons.prems(1) len cq])
    let ?en = "en\<lparr>en_consumers := (en_consumers en)(q := con)\<rparr>"
    define e where "e = (if q = r then d else c)"
    have "e \<le> length evs" "ec_cursor (en_consumers ?en r) = of_nat e"
      using step(3,4) Cons.prems(5,6) by (simp_all add: e_def)
    then obtain obs en' where run: "engine_run ops sched ?en = Some (Inr (obs, en'))" and
        rest: "engine_inv inv abs cap (evs @ processed sched) en'"
        "accounted cap (evs @ processed sched) e (en_consumers ?en r) (log_of r sched obs)
          (en_consumers en' r)"
      using Cons.IH [OF step(2), of e] Cons.prems(2-4) by (auto simp: Poll)
    have acc: "accounted cap (evs @ processed sched) c (en_consumers en r)
        (log_of r (op # sched) (Some ob # obs)) (en_consumers en' r)"
    proof (cases "q = r")
      case True
      then show ?thesis
        using accounted_Cons [OF step(5) _ step(6,7)] rest(2) same by (simp add: e_def Poll)
    next
      case False
      then show ?thesis using rest(2) by (simp add: e_def Poll)
    qed
    have pr: "processed (op # sched) = processed sched" by (simp add: Poll)
    have st: "engine_step ops op en = Some (Inr (Some ob, ?en))" unfolding Poll by (rule step(1))
    show ?thesis
      unfolding pr
      by (intro exI [of _ "Some ob # obs"] exI [of _ en'] conjI engine_run_Cons [OF st run] rest(1) acc)
  qed
qed

text \<open>Starting, running a prefix, joining, and running on.\<close>

lemma start_ok:
  assumes "engine_start ops cap = Inr en"
  shows "engine_inv inv abs cap [] en"
proof -
  obtain R where R: "with_capacity W cap = Inr R"
    "en = \<lparr>en_producer = \<lparr>ep_book = ob_default ops, ep_stamp = 0\<rparr>,
      en_shared = \<lparr>es_top = seqlock_new tob_default, es_ring = R, es_slots = ring_fresh\<rparr>,
      en_consumers = (\<lambda>_. engine_consumer_new
        \<lparr>es_top = seqlock_new tob_default, es_ring = R, es_slots = ring_fresh\<rparr>)\<rparr>"
    using assms by (auto simp: engine_start_def engine_new_def res_bind_Inr_iff)
  note sh = shared_inv_new [OF R(1)]
  from consumer_new_ok(1) [OF sh] show ?thesis
    by (simp add: engine_inv_def R(2) sh producer_inv_def inv_default abs_default spec_run_def)
qed

lemma joined_run:
  assumes "engine_start ops cap = Inr en0" and "\<forall>ev \<in> set (processed (pre @ post)). adm ev"
    and "length (processed (pre @ post)) \<le> 2 ^ 63" and "Join r \<notin> set post"
  shows "\<exists>obs1 en1 obs2 en2. engine_run ops pre en0 = Some (Inr (obs1, en1))
    \<and> engine_run ops (Join r # post) en1 = Some (Inr (None # obs2, en2))
    \<and> engine_inv inv abs cap (processed (pre @ post)) en2
    \<and> (\<exists>d \<le> length (processed (pre @ post)). ec_cursor (en_consumers en2 r) = of_nat d
        \<and> follows cap (processed (pre @ post)) (length (processed pre)) (log_of r post obs2) d)
    \<and> ec_seen (en_consumers en2 r) = of_nat (length (deliveries (log_of r post obs2)))
    \<and> ec_resyncs (en_consumers en2 r) = of_nat (overruns (log_of r post obs2))"
proof -
  obtain q where "Join q \<notin> set pre" by (rule fresh_consumer)
  moreover obtain c where "c \<le> 0" "ec_cursor (en_consumers en0 q) = of_nat c"
    using start_ok [OF assms(1)] by (auto simp: engine_inv_def)
  ultimately obtain obs1 en1 where run1: "engine_run ops pre en0 = Some (Inr (obs1, en1))"
    and inv1: "engine_inv inv abs cap (processed pre) en1"
    using run_schedule [OF start_ok [OF assms(1)], of pre q c] assms(2,3)
    by (auto simp: processed_append)
  let ?en = "en1\<lparr>en_consumers := (en_consumers en1)(r := engine_consumer_new (en_shared en1))\<rparr>"
  have "length (processed pre) \<le> 2 ^ 63" using assms(3) by (simp add: processed_append)
  note join = join_step [OF inv1 this refl, of r]
  obtain obs2 en2 where run2: "engine_run ops post ?en = Some (Inr (obs2, en2))"
    and inv2: "engine_inv inv abs cap (processed (pre @ post)) en2"
    and acc: "accounted cap (processed (pre @ post)) (length (processed pre)) (en_consumers ?en r)
      (log_of r post obs2) (en_consumers en2 r)"
    using run_schedule [OF join(1) _ _ assms(4) order.refl join(2)] assms(2,3)
    by (auto simp: processed_append)
  have "engine_run ops (Join r # post) en1 = Some (Inr (None # obs2, en2))"
    by (rule engine_run_Cons [OF _ run2]) simp
  then show ?thesis
    using run1 inv2 acc join(3,4)
    by (intro exI [of _ obs1] exI [of _ en1] exI [of _ obs2] exI [of _ en2]) (simp add: accounted_def)
qed

lemma run_snapshot:
  assumes "engine_inv inv abs cap evs en"
  shows "ep_stamp (en_producer en) = of_nat (length evs)"
    and "top_of_book_load (en_shared en) = Some (top_at evs)"
    and "view_of ops buf (ep_book (en_producer en)) = Inr (spec_view buf (spec_run evs))"
  using assms view_ok [of "ep_book (en_producer en)" buf]
  by (simp_all add: engine_inv_def producer_inv_def shared_inv_def top_of_book_load_def published_load)

end

lemma with_capacity_pow:
  "k < 64 \<Longrightarrow> with_capacity w (2 ^ k) = Inr \<lparr>rg_cap = 2 ^ k, rg_width = w, rg_mask = of_nat (2 ^ k - 1)\<rparr>"
  by (auto simp: with_capacity_def is_power_of_two_def list_ex_iff)

lemma engine_start_pow: "k < 64 \<Longrightarrow> \<exists>en. engine_start ops (2 ^ k) = Inr en"
  by (simp add: engine_start_def engine_new_def with_capacity_pow)

lemma engine_start_two: "engine_start ops 2 = Inr (projr (engine_start ops 2))"
  using engine_start_pow [of 1 ops] by auto

text \<open>
  Accounting for every consumer under every schedule of whole steps. Whatever producer steps,
  joins and polls happen in whatever order, none panics and none spins; a consumer that joins after
  \<open>pre\<close> receives, position by position from the join on, each event exactly as it was processed, in
  order, or an overrun that reports exactly the number of positions it skips with the top of book
  current at that poll; its counters count what it received.
\<close>
theorem engine_whole_delivery:
  assumes "engine_start btree_ops cap = Inr en0" and "length (processed (pre @ post)) \<le> 2 ^ 63"
    and "Join r \<notin> set post"
  shows "\<exists>obs1 en1 obs2 en2. engine_run btree_ops pre en0 = Some (Inr (obs1, en1))
    \<and> engine_run btree_ops (Join r # post) en1 = Some (Inr (None # obs2, en2))
    \<and> (\<exists>d \<le> length (processed (pre @ post)). ec_cursor (en_consumers en2 r) = of_nat d
        \<and> follows cap (processed (pre @ post)) (length (processed pre)) (log_of r post obs2) d)
    \<and> ec_seen (en_consumers en2 r) = of_nat (length (deliveries (log_of r post obs2)))
    \<and> ec_resyncs (en_consumers en2 r) = of_nat (overruns (log_of r post obs2))"
  using btree.joined_run [OF assms(1) _ assms(2,3)] by blast

theorem engine_whole_delivery_witness:
  "\<exists>obs1 en1 obs2 en2.
     engine_run btree_ops [Process (ev_clear 0 0)] (projr (engine_start btree_ops 2)) = Some (Inr (obs1, en1))
   \<and> engine_run btree_ops (Join 7 # [Process (ev_clear 1 5), Poll 7]) en1 = Some (Inr (None # obs2, en2))
   \<and> (\<exists>d \<le> length (processed ([Process (ev_clear 0 0)] @ [Process (ev_clear 1 5), Poll 7])).
        ec_cursor (en_consumers en2 7) = of_nat d
        \<and> follows 2 (processed ([Process (ev_clear 0 0)] @ [Process (ev_clear 1 5), Poll 7]))
            (length (processed [Process (ev_clear 0 0)])) (log_of 7 [Process (ev_clear 1 5), Poll 7] obs2) d)
   \<and> ec_seen (en_consumers en2 7) = of_nat (length (deliveries (log_of 7 [Process (ev_clear 1 5), Poll 7] obs2)))
   \<and> ec_resyncs (en_consumers en2 7) = of_nat (overruns (log_of 7 [Process (ev_clear 1 5), Poll 7] obs2))"
  by (rule engine_whole_delivery [OF engine_start_two]) simp_all

text \<open>
  A roomy ring loses nothing. If no more events follow a join than the ring has slots,
  that consumer is never overrun, whatever the schedule: it receives exactly the events processed
  since it joined, a prefix of them at any moment.
\<close>
theorem engine_roomy_delivery:
  assumes "engine_start btree_ops cap = Inr en0" and "length (processed (pre @ post)) \<le> 2 ^ 63"
    and "Join r \<notin> set post" and "length (processed post) \<le> cap"
  shows "\<exists>obs1 en1 obs2 en2. engine_run btree_ops pre en0 = Some (Inr (obs1, en1))
    \<and> engine_run btree_ops (Join r # post) en1 = Some (Inr (None # obs2, en2))
    \<and> overruns (log_of r post obs2) = 0
    \<and> deliveries (log_of r post obs2) =
        take (length (deliveries (log_of r post obs2))) (processed post)"
proof -
  let ?evs = "processed (pre @ post)" and ?c = "length (processed pre)"
  obtain obs1 en1 obs2 en2 d where run: "engine_run btree_ops pre en0 = Some (Inr (obs1, en1))"
      "engine_run btree_ops (Join r # post) en1 = Some (Inr (None # obs2, en2))"
    and d: "d \<le> length ?evs" "follows cap ?evs ?c (log_of r post obs2) d"
    using btree.joined_run [OF assms(1) _ assms(2,3)] by blast
  have roomy: "overruns (log_of r post obs2) = 0"
    "deliveries (log_of r post obs2) = map ((!) ?evs) [?c..<d]"
    using follows_roomy [OF d(2)] assms(4) by (simp_all add: processed_append)
  moreover have "map ((!) ?evs) [?c..<d] = take (d - ?c) (processed post)"
    using d(1) by (intro nth_equalityI) (simp_all add: processed_append nth_append)
  ultimately have "deliveries (log_of r post obs2) =
      take (length (deliveries (log_of r post obs2))) (processed post)"
    using d(1) by (simp add: processed_append)
  with run roomy show ?thesis by blast
qed

theorem engine_roomy_delivery_witness:
  "\<exists>obs1 en1 obs2 en2.
     engine_run btree_ops [Process (ev_clear 0 0)] (projr (engine_start btree_ops 2)) = Some (Inr (obs1, en1))
   \<and> engine_run btree_ops (Join 7 # [Process (ev_clear 1 5), Poll 7]) en1 = Some (Inr (None # obs2, en2))
   \<and> overruns (log_of 7 [Process (ev_clear 1 5), Poll 7] obs2) = 0
   \<and> deliveries (log_of 7 [Process (ev_clear 1 5), Poll 7] obs2) =
       take (length (deliveries (log_of 7 [Process (ev_clear 1 5), Poll 7] obs2)))
         (processed [Process (ev_clear 1 5), Poll 7])"
  by (rule engine_roomy_delivery [OF engine_start_two]) simp_all

text \<open>
  Property C8: the pipeline publishes the truth. After any schedule of whole steps over the flat array, the book the
  producer holds shows exactly what an independent B-tree replay of the processed events shows, and
  the seqlock holds that replay's best levels (zeros for an empty side) stamped with the number of
  events.
\<close>
theorem engine_final_state:
  assumes "engine_start flat_ops cap = Inr en0" and "length (processed sched) \<le> 2 ^ 63"
    and "band_ok lo hi"
    and "\<forall>ev \<in> set (processed sched). ev_kind ev = Level \<longrightarrow> in_band lo hi (ev_px ev)"
  shows "\<exists>obs en b bid ask. engine_run flat_ops sched en0 = Some (Inr (obs, en))
    \<and> run_book btree_ops (ob_default btree_ops) (processed sched) = Inr b
    \<and> view_of flat_ops buf (ep_book (en_producer en)) = view_of btree_ops buf b
    \<and> ob_best_bid btree_ops b = Inr bid \<and> ob_best_ask btree_ops b = Inr ask
    \<and> top_of_book_load (en_shared en) = Some (top_of bid ask (of_nat (length (processed sched))))
    \<and> ep_stamp (en_producer en) = of_nat (length (processed sched))"
proof -
  obtain r where r: "Join r \<notin> set sched" by (rule fresh_consumer)
  have adm: "\<forall>ev \<in> set (processed sched). flat_adm lo hi ev" using assms(3,4) by (simp add: flat_adm_def)
  note inv0 = flat.start_ok [OF assms(1), of lo hi]
  obtain c where c: "c \<le> 0" "ec_cursor (en_consumers en0 r) = of_nat c"
    using inv0 by (auto simp: engine_inv_def)
  obtain obs en where run: "engine_run flat_ops sched en0 = Some (Inr (obs, en))"
    and inv: "engine_inv (flat_inv lo hi) flat_abs cap (processed sched) en"
    using flat.run_schedule [OF inv0 _ _ r _ c(2)] adm assms(2) c(1) by auto
  obtain b where b: "run_book btree_ops (ob_default btree_ops) (processed sched) = Inr b"
      "btree_inv b" "btree_abs b = spec_run (processed sched)"
    by (rule btree.replay_ok [of "processed sched"]) simp
  show ?thesis
    using run b flat.run_snapshot(1,2) [OF inv] flat.run_snapshot(3) [OF inv, of buf] btree.view_ok [OF b(2), of buf]
      btree.best_bid_ok [OF b(2)] btree.best_ask_ok [OF b(2)]
    by (simp add: top_at_def)
qed

theorem engine_final_state_witness:
  "\<exists>obs en b bid ask.
     engine_run flat_ops [Process (ev_level 0 0 Bid (Px 10) (Qty 3)), Poll 0] (projr (engine_start flat_ops 2))
       = Some (Inr (obs, en))
   \<and> run_book btree_ops (ob_default btree_ops)
       (processed [Process (ev_level 0 0 Bid (Px 10) (Qty 3)), Poll 0]) = Inr b
   \<and> view_of flat_ops [] (ep_book (en_producer en)) = view_of btree_ops [] b
   \<and> ob_best_bid btree_ops b = Inr bid \<and> ob_best_ask btree_ops b = Inr ask
   \<and> top_of_book_load (en_shared en) = Some (top_of bid ask
       (of_nat (length (processed [Process (ev_level 0 0 Bid (Px 10) (Qty 3)), Poll 0]))))
   \<and> ep_stamp (en_producer en) =
       of_nat (length (processed [Process (ev_level 0 0 Bid (Px 10) (Qty 3)), Poll 0]))"
  by (rule engine_final_state [OF engine_start_two, of _ 0 100])
    (simp_all add: band_ok_def MAX_SPAN_def in_band_def ev_defs)

end
