(* ===== verification/Decimal.thy ===== *)
theory Decimal
  imports Complex_Main Prelude "HOL-Library.Signed_Division"
begin

section \<open>Reading and printing numbers; exact tick conversion (feed/src/bin/recorder.rs)\<close>

text \<open>
  A Rust string is the list of its bytes, a \<open>string\<close>. \<open>parse_uint\<close> is the integer parser of the
  standard library (\<open>str::parse\<close> and \<open>from_str_radix\<close>), with its checks in their order; \<open>show_nat\<close> and
  \<open>show_int\<close> are \<open>Display\<close>. The second half is the recorder's conversion of decimal strings to ticks,
  in checked \<open>i128\<close> arithmetic: an \<open>i128\<close> is an \<open>int\<close> whose every operation is range-checked, as the
  source checks it. \<open>dec_rat\<close> is the rational number a decimal string denotes, the reference.
\<close>

subsection \<open>Integers as text\<close>

datatype int_error = EmptyDigits | InvalidDigit | PosOverflow

definition to_digit :: "nat \<Rightarrow> nat \<Rightarrow> nat option" where
  "to_digit radix c =
     (let d = (if 48 \<le> c \<and> c \<le> 57 then c - 48
               else if 97 \<le> c \<and> c \<le> 122 then c - 97 + 10
               else if 65 \<le> c \<and> c \<le> 90 then c - 65 + 10 else radix)
      in if d < radix then Some d else None)"

fun parse_digits :: "nat \<Rightarrow> nat \<Rightarrow> nat \<Rightarrow> nat list \<Rightarrow> int_error + nat" where
  "parse_digits radix mx acc [] = Inr acc"
| "parse_digits radix mx acc (c # cs) =
     (case to_digit radix c of
        None \<Rightarrow> Inl InvalidDigit
      | Some d \<Rightarrow>
          if mx < acc * radix + d then Inl PosOverflow
          else parse_digits radix mx (acc * radix + d) cs)"

text \<open>An unsigned type of maximum \<open>mx\<close>: one leading \<open>+\<close> is accepted, a lone sign is not.\<close>

definition parse_uint :: "nat \<Rightarrow> nat \<Rightarrow> nat list \<Rightarrow> int_error + nat" where
  "parse_uint radix mx cs =
     (case cs of
        [] \<Rightarrow> Inl EmptyDigits
      | c # r \<Rightarrow>
          if (c = 43 \<or> c = 45) \<and> r = [] then Inl InvalidDigit
          else parse_digits radix mx 0 (if c = 43 then r else cs))"

definition codes :: "string \<Rightarrow> nat list" where
  "codes s = map of_char s"

definition digit_char :: "nat \<Rightarrow> nat" where
  "digit_char d = (if d < 10 then 48 + d else 87 + d)"

function show_radix :: "nat \<Rightarrow> nat \<Rightarrow> nat list" where
  "show_radix r n =
     (if r \<le> 1 \<or> n < r then [digit_char n] else show_radix r (n div r) @ [digit_char (n mod r)])"
  by pat_completeness auto
termination by (relation "measure snd") (auto simp: div_less_dividend)

declare show_radix.simps [simp del]

definition show_nat :: "nat \<Rightarrow> string" where
  "show_nat n = map char_of (show_radix 10 n)"

definition show_int :: "int \<Rightarrow> string" where
  "show_int k = (if k < 0 then CHR ''-'' # show_nat (nat (- k)) else show_nat (nat k))"

text \<open>The value a list of digits denotes.\<close>

definition digits_of :: "nat \<Rightarrow> nat list \<Rightarrow> nat list option" where
  "digits_of radix cs = those (map (to_digit radix) cs)"

definition digits_val :: "nat \<Rightarrow> nat list \<Rightarrow> nat" where
  "digits_val radix ds = foldl (\<lambda>a d. a * radix + d) 0 ds"

lemma foldl_digits: "foldl (\<lambda>a d. a * r + d) a ds = a * r ^ length ds + digits_val r ds"
proof (induction ds arbitrary: a)
  case (Cons d ds)
  show ?case
    using Cons.IH [of "a * r + d"] Cons.IH [of d]
    by (simp add: digits_val_def algebra_simps)
qed (simp add: digits_val_def)

lemma digits_val_append: "digits_val r (xs @ ys) = digits_val r xs * r ^ length ys + digits_val r ys"
  by (simp add: digits_val_def) (metis digits_val_def foldl_digits)

lemma digits_val_simps [simp]:
  "digits_val r [] = 0" "digits_val r (d # ds) = d * r ^ length ds + digits_val r ds"
  using digits_val_append [of r "[d]" ds] by (simp_all add: digits_val_def)

lemma digits_of_simps [simp]:
  "digits_of r [] = Some []"
  "digits_of r (c # cs) = (case to_digit r c of None \<Rightarrow> None
     | Some d \<Rightarrow> map_option ((#) d) (digits_of r cs))"
  by (simp_all add: digits_of_def split: option.split)

lemma parse_digits_iff:
  "parse_digits r mx acc cs = Inr x \<longleftrightarrow>
     (\<exists>ds. digits_of r cs = Some ds \<and> x = acc * r ^ length ds + digits_val r ds \<and> (cs = [] \<or> x \<le> mx))"
  if "0 < r"
proof (induction cs arbitrary: acc)
  case (Cons c cs)
  show ?case
  proof (cases "to_digit r c")
    case (Some d)
    have grow: "a \<le> a * r ^ n + m" for a n m :: nat
      using that by (metis le_add1 le_trans mult_le_mono2 nat_mult_1_right one_le_power Suc_leI One_nat_def)
    have eq: "(acc * r + d) * r ^ n + m = acc * r ^ Suc n + (d * r ^ n + m)" for n m
      by (simp add: algebra_simps)
    have step: "(\<exists>ds. digits_of r (c # cs) = Some ds \<and> x = acc * r ^ length ds + digits_val r ds \<and> x \<le> mx)
        \<longleftrightarrow> (\<exists>ds. digits_of r cs = Some ds \<and> x = (acc * r + d) * r ^ length ds + digits_val r ds \<and> x \<le> mx)"
      using Some by (auto simp: eq simp del: power_Suc)
    show ?thesis
    proof (cases "mx < acc * r + d")
      case True
      then have "\<not> (acc * r + d) * r ^ n + m \<le> mx" for n m
        using grow [of "acc * r + d" n m] by linarith
      then show ?thesis using True Some step by auto
    next
      case False
      then show ?thesis using Cons.IH [of "acc * r + d"] Some step by auto
    qed
  qed simp
qed auto

lemma to_digit_char: "d < r \<Longrightarrow> r \<le> 16 \<Longrightarrow> to_digit r (digit_char d) = Some d"
  by (simp add: to_digit_def digit_char_def)

lemma digits_of_append:
  "digits_of r (xs @ ys) = (case digits_of r xs of None \<Rightarrow> None
     | Some ds \<Rightarrow> map_option ((@) ds) (digits_of r ys))"
proof (induction xs)
  case Nil
  show ?case by (cases "digits_of r ys") simp_all
next
  case (Cons x xs)
  then show ?case
    by (cases "digits_of r ys") (auto split: option.splits)
qed

lemma show_radix_digits:
  assumes "2 \<le> r" and "r \<le> 16"
  shows "\<exists>ds. digits_of r (show_radix r n) = Some ds \<and> digits_val r ds = n"
  using assms
proof (induction r n rule: show_radix.induct)
  case (1 r n)
  show ?case
  proof (cases "r \<le> 1 \<or> n < r")
    case True
    then show ?thesis using 1(2,3) by (simp add: show_radix.simps to_digit_char)
  next
    case False
    with 1 obtain ds where ds: "digits_of r (show_radix r (n div r)) = Some ds" "digits_val r ds = n div r"
      by blast
    have "to_digit r (digit_char (n mod r)) = Some (n mod r)"
      using False 1(3) by (intro to_digit_char) auto
    moreover have "show_radix r n = show_radix r (n div r) @ [digit_char (n mod r)]"
      using False by (subst show_radix.simps) simp
    ultimately have "digits_of r (show_radix r n) = Some (ds @ [n mod r])"
      by (simp add: ds digits_of_append)
    moreover have "digits_val r (ds @ [n mod r]) = n"
      using ds(2) by (simp add: digits_val_append mult.commute)
    ultimately show ?thesis by blast
  qed
qed

lemma show_radix_chars: "c \<in> set (show_radix r n) \<Longrightarrow> 2 \<le> r \<Longrightarrow> r \<le> 16 \<Longrightarrow> 48 \<le> c \<and> c < 103 \<and> c \<noteq> 59"
proof (induction r n rule: show_radix.induct)
  case (1 r n)
  have dig: "48 \<le> digit_char d \<and> digit_char d < 103 \<and> digit_char d \<noteq> 59" if "d < r" for d
    using that 1(4) by (auto simp: digit_char_def)
  show ?case
  proof (cases "r \<le> 1 \<or> n < r")
    case True
    then show ?thesis using 1(2,3) dig [of n] by (simp add: show_radix.simps)
  next
    case False
    then have "show_radix r n = show_radix r (n div r) @ [digit_char (n mod r)]"
      by (subst show_radix.simps) simp
    moreover have "n mod r < r" using False by simp
    ultimately show ?thesis using 1 False dig [of "n mod r"] by auto
  qed
qed

lemma show_radix_nonempty: "show_radix r n \<noteq> []"
  by (subst show_radix.simps) simp

lemma parse_show_radix:
  assumes "2 \<le> r" and "r \<le> 16" and "n \<le> mx"
  shows "parse_uint r mx (show_radix r n) = Inr n"
proof -
  obtain ds where "digits_of r (show_radix r n) = Some ds" "digits_val r ds = n"
    using show_radix_digits assms by blast
  then have "parse_digits r mx 0 (show_radix r n) = Inr n"
    using assms parse_digits_iff [of r mx 0 "show_radix r n" n] by auto
  moreover have "hd (show_radix r n) \<noteq> 43" "hd (show_radix r n) \<noteq> 45"
    using show_radix_chars [of "hd (show_radix r n)" r n] show_radix_nonempty [of r n] assms by auto
  ultimately show ?thesis
    using show_radix_nonempty [of r n] by (cases "show_radix r n") (auto simp: parse_uint_def)
qed

lemma codes_show_nat: "codes (show_nat n) = show_radix 10 n"
proof -
  have "x mod 256 = x" if "x \<in> set (show_radix 10 n)" for x
    using show_radix_chars [OF that] by simp
  then have "map (of_char \<circ> (char_of :: nat \<Rightarrow> char)) (show_radix 10 n) = map (\<lambda>x. x) (show_radix 10 n)"
    by (intro map_cong) auto
  then show ?thesis by (simp add: codes_def show_nat_def)
qed

lemma parse_show_nat: "n \<le> mx \<Longrightarrow> parse_uint 10 mx (codes (show_nat n)) = Inr n"
  by (simp add: codes_show_nat parse_show_radix)

text \<open>\<open>strip_suffix\<close>, and the widths \<open>02\<close> and \<open>04\<close> of a format string on a non-negative number.\<close>

definition strip_suffix :: "string \<Rightarrow> string \<Rightarrow> string option" where
  "strip_suffix s suf =
     (if length suf \<le> length s \<and> drop (length s - length suf) s = suf
      then Some (take (length s - length suf) s) else None)"

definition zero_padded :: "nat \<Rightarrow> nat \<Rightarrow> string" where
  "zero_padded width n = replicate (width - length (show_nat n)) (CHR ''0'') @ show_nat n"

subsection \<open>Exact conversion of decimal strings to ticks\<close>

datatype conv_error = NotDecimal | OffTickGrid | Overflow

text \<open>\<open>split_once('.')\<close>: what precedes and follows the first occurrence.\<close>

fun split_once :: "char \<Rightarrow> string \<Rightarrow> (string \<times> string) option" where
  "split_once c [] = None"
| "split_once c (x # xs) =
     (if x = c then Some ([], xs) else map_option (\<lambda>(a, b). (x # a, b)) (split_once c xs))"

definition frac_digits :: "string \<Rightarrow> nat" where
  "frac_digits s = (case split_once (CHR ''.'') s of None \<Rightarrow> 0 | Some (_, fr) \<Rightarrow> length fr)"

definition is_ascii_digit :: "char \<Rightarrow> bool" where
  "is_ascii_digit c \<longleftrightarrow> 48 \<le> (of_char c :: nat) \<and> (of_char c :: nat) \<le> 57"

definition I128_MAX :: int where "I128_MAX = 2 ^ 127 - 1"

definition i128_checked :: "int \<Rightarrow> int option" where
  "i128_checked k = (if - I128_MAX - 1 \<le> k \<and> k \<le> I128_MAX then Some k else None)"

definition ok_or :: "'e \<Rightarrow> 'a option \<Rightarrow> 'e + 'a" where
  "ok_or e x = (case x of None \<Rightarrow> Inl e | Some a \<Rightarrow> Inr a)"

text \<open>\<open>10_i128.checked_pow(u32::try_from(d)?)\<close>.\<close>

definition checked_pow10 :: "nat \<Rightarrow> conv_error + int" where
  "checked_pow10 d =
     (if 2 ^ 32 \<le> d then Inl Overflow else ok_or Overflow (i128_checked (10 ^ d)))"

definition parse_i128_digits :: "string \<Rightarrow> conv_error + int" where
  "parse_i128_digits s =
     (if s = [] then Inr 0
      else case parse_uint 10 (nat I128_MAX) (codes s) of Inl _ \<Rightarrow> Inl Overflow | Inr n \<Rightarrow> Inr (int n))"

definition strip_minus :: "string \<Rightarrow> bool \<times> string" where
  "strip_minus s = (case s of [] \<Rightarrow> (False, s) | c # r \<Rightarrow> if c = CHR ''-'' then (True, r) else (False, s))"

definition scale_to_int :: "string \<Rightarrow> nat \<Rightarrow> conv_error + int" where
  "scale_to_int s d =
     (let (neg, body) = strip_minus s;
          (int_part, frac_part) = (case split_once (CHR ''.'') body of None \<Rightarrow> (body, []) | Some p \<Rightarrow> p)
      in if int_part = [] \<and> frac_part = [] then Inl NotDecimal
         else if \<not> list_all is_ascii_digit int_part \<or> \<not> list_all is_ascii_digit frac_part
           \<or> d < length frac_part then Inl NotDecimal
         else
           res_bind (checked_pow10 d) (\<lambda>scale.
           res_bind (parse_i128_digits int_part) (\<lambda>int_val.
           res_bind (parse_i128_digits frac_part) (\<lambda>frac_val.
           res_bind (checked_pow10 (d - length frac_part)) (\<lambda>pad.
           res_bind (ok_or Overflow
               (Option.bind (i128_checked (int_val * scale)) (\<lambda>x.
                Option.bind (i128_checked (frac_val * pad)) (\<lambda>y. i128_checked (x + y)))))
             (\<lambda>magnitude. Inr (if neg then - magnitude else magnitude)))))))"

text \<open>\<open>/\<close> and \<open>%\<close> on \<open>i128\<close> truncate towards zero.\<close>

definition to_ticks :: "string \<Rightarrow> string \<Rightarrow> conv_error + i64" where
  "to_ticks amount tick =
     (let d = max (frac_digits amount) (frac_digits tick)
      in res_bind (scale_to_int amount d) (\<lambda>v.
         res_bind (scale_to_int tick d) (\<lambda>t.
           if t = 0 \<or> v smod t \<noteq> 0 then Inl OffTickGrid
           else let q = v sdiv t
                in if - (2 ^ 63) \<le> q \<and> q < 2 ^ 63 then Inr (of_int q) else Inl Overflow)))"

text \<open>
  The reference: the rational a decimal string denotes, all its digits over a power of ten, or
  \<open>None\<close> for a string that is not \<open>[-]digits[.digits]\<close> with at least one digit.
\<close>

definition dec_rat :: "string \<Rightarrow> rat option" where
  "dec_rat s =
     (let (neg, body) = strip_minus s;
          (int_part, frac_part) = (case split_once (CHR ''.'') body of None \<Rightarrow> (body, []) | Some p \<Rightarrow> p);
          digits = int_part @ frac_part
      in if digits = [] \<or> \<not> list_all is_ascii_digit digits then None
         else Some ((if neg then -1 else 1)
           * of_nat (digits_val 10 (map (\<lambda>c. of_char c - 48) digits)) / 10 ^ length frac_part))"

lemma digits_of_ascii:
  "list_all is_ascii_digit s \<Longrightarrow> digits_of 10 (codes s) = Some (map (\<lambda>c. of_char c - 48) s)"
  by (induction s) (auto simp: codes_def is_ascii_digit_def to_digit_def Let_def)

definition dval :: "string \<Rightarrow> nat" where
  "dval s = digits_val 10 (map (\<lambda>c. of_char c - 48) s)"

lemma parse_i128_digits_ascii:
  assumes "list_all is_ascii_digit s"
  shows "parse_i128_digits s = (if int (dval s) \<le> I128_MAX then Inr (int (dval s)) else Inl Overflow)"
proof (cases s)
  case (Cons c r)
  have c: "of_char c \<noteq> (43 :: nat)" "of_char c \<noteq> (45 :: nat)"
    using assms Cons by (auto simp: is_ascii_digit_def)
  then have uint: "parse_uint 10 (nat I128_MAX) (codes s) = parse_digits 10 (nat I128_MAX) 0 (codes s)"
    by (simp add: parse_uint_def codes_def Cons)
  have iff: "parse_digits 10 (nat I128_MAX) 0 (codes s) = Inr x \<longleftrightarrow> x = dval s \<and> int x \<le> I128_MAX" for x
    using digits_of_ascii [OF assms]
    by (subst parse_digits_iff) (auto simp: dval_def Cons codes_def le_nat_iff I128_MAX_def)
  show ?thesis
  proof (cases "int (dval s) \<le> I128_MAX")
    case True
    then have "parse_digits 10 (nat I128_MAX) 0 (codes s) = Inr (dval s)" using iff by blast
    then show ?thesis using True uint by (simp add: parse_i128_digits_def Cons)
  next
    case False
    then have "parse_digits 10 (nat I128_MAX) 0 (codes s) \<noteq> Inr x" for x using iff [of x] by blast
    then obtain e where "parse_digits 10 (nat I128_MAX) 0 (codes s) = Inl e"
      by (metis sumE)
    then show ?thesis using False uint by (simp add: parse_i128_digits_def Cons)
  qed
qed (simp add: parse_i128_digits_def dval_def I128_MAX_def)

definition body_parts :: "string \<Rightarrow> string \<times> string" where
  "body_parts body = (case split_once (CHR ''.'') body of None \<Rightarrow> (body, []) | Some p \<Rightarrow> p)"

lemma frac_digits_parts: "frac_digits s = length (snd (body_parts (snd (strip_minus s))))"
  by (cases s) (auto simp: frac_digits_def body_parts_def strip_minus_def split: option.split)

text \<open>A string read by the reference, and by the code at scale \<open>d\<close>.\<close>

lemma dec_rat_parts:
  assumes "strip_minus s = (neg, body)" and "body_parts body = (ip, fp)"
  shows "dec_rat s =
    (if ip @ fp = [] \<or> \<not> list_all is_ascii_digit (ip @ fp) then None
     else Some ((if neg then -1 else 1) * of_nat (dval (ip @ fp)) / 10 ^ length fp))"
  using assms by (simp add: dec_rat_def body_parts_def dval_def)

lemma checked_pow10_eq: "checked_pow10 d = (if d \<le> 38 then Inr (10 ^ d) else Inl Overflow)"
proof (cases "d \<le> 38")
  case True
  then have "(10 :: int) ^ d \<le> 10 ^ 38" by (intro power_increasing) auto
  then show ?thesis using True
    by (auto simp: checked_pow10_def i128_checked_def I128_MAX_def ok_or_def intro: order_trans [of _ 0])
next
  case False
  then have "(10 :: int) ^ 39 \<le> 10 ^ d" by (intro power_increasing) auto
  then show ?thesis using False
    by (simp add: checked_pow10_def i128_checked_def I128_MAX_def ok_or_def
        smod_int_alt_def)
qed

text \<open>The checked sum of products succeeds exactly when the magnitude is in range.\<close>

lemma magnitude_checked:
  assumes "0 \<le> x" and "0 \<le> y"
  shows "ok_or Overflow (Option.bind (i128_checked x) (\<lambda>x.
      Option.bind (i128_checked y) (\<lambda>y. i128_checked (x + y)))) =
    (if x + y \<le> I128_MAX then Inr (x + y) else Inl Overflow)"
proof -
  have chk: "i128_checked k = (if k \<le> I128_MAX then Some k else None)" if "0 \<le> k" for k
    using that by (simp add: i128_checked_def I128_MAX_def)
  show ?thesis
    using assms by (auto simp: chk ok_or_def)
qed

lemma scale_parts:
  assumes "strip_minus s = (neg, body)" and "body_parts body = (ip, fp)"
    and "ip @ fp \<noteq> []" and "list_all is_ascii_digit (ip @ fp)" and "length fp \<le> d"
  shows "scale_to_int s d =
    (let m = dval (ip @ fp) * 10 ^ (d - length fp)
     in if d \<le> 38 \<and> int m \<le> I128_MAX then Inr ((if neg then -1 else 1) * int m) else Inl Overflow)"
proof -
  define m where "m = dval (ip @ fp) * 10 ^ (d - length fp)"
  let ?n = "10 ^ (d - length fp) :: nat"
  have pow: "(10 :: nat) ^ d = 10 ^ length fp * ?n"
    using assms(5) by (simp add: power_add [symmetric])
  have m: "m = dval ip * 10 ^ d + dval fp * ?n"
    by (simp add: m_def dval_def digits_val_append pow algebra_simps)
  have "dval ip * 1 \<le> dval ip * 10 ^ d" "dval fp * 1 \<le> dval fp * ?n"
    by (intro mult_le_mono2; simp)+
  then have le: "dval ip \<le> m" "dval fp \<le> m" using m by linarith+
  have "scale_to_int s d = res_bind (checked_pow10 d) (\<lambda>scale.
      res_bind (parse_i128_digits ip) (\<lambda>a. res_bind (parse_i128_digits fp) (\<lambda>b.
      res_bind (checked_pow10 (d - length fp)) (\<lambda>pad.
      res_bind (ok_or Overflow (Option.bind (i128_checked (a * scale)) (\<lambda>x.
        Option.bind (i128_checked (b * pad)) (\<lambda>y. i128_checked (x + y)))))
       (\<lambda>magnitude. Inr (if neg then - magnitude else magnitude))))))"
    using assms by (auto simp: scale_to_int_def body_parts_def)
  also have "\<dots> = (if d \<le> 38 \<and> int m \<le> I128_MAX then Inr ((if neg then -1 else 1) * int m) else Inl Overflow)"
  proof (cases "d \<le> 38")
    case True
    then have pads: "checked_pow10 d = Inr (int (10 ^ d))" "checked_pow10 (d - length fp) = Inr (int ?n)"
      by (simp_all add: checked_pow10_eq)
    have fits: "int (dval ip) \<le> I128_MAX" "int (dval fp) \<le> I128_MAX" if "int m \<le> I128_MAX"
      using le that by linarith+
    have digs: "parse_i128_digits ip = (if int (dval ip) \<le> I128_MAX then Inr (int (dval ip)) else Inl Overflow)"
      "parse_i128_digits fp = (if int (dval fp) \<le> I128_MAX then Inr (int (dval fp)) else Inl Overflow)"
      using assms(4) by (simp_all add: parse_i128_digits_ascii)
    have sum: "int (dval ip) * int (10 ^ d) + int (dval fp) * int ?n = int m"
      unfolding m of_nat_add of_nat_mult ..
    have mag: "ok_or Overflow (Option.bind (i128_checked (int (dval ip) * int (10 ^ d))) (\<lambda>x.
        Option.bind (i128_checked (int (dval fp) * int ?n)) (\<lambda>y. i128_checked (x + y)))) =
      (if int m \<le> I128_MAX then Inr (int m) else Inl Overflow)"
      using magnitude_checked [of "int (dval ip) * int (10 ^ d)" "int (dval fp) * int ?n"]
      unfolding sum by simp
    show ?thesis
    proof (cases "int m \<le> I128_MAX")
      case True
      then show ?thesis
        using \<open>d \<le> 38\<close> by (simp only: pads digs fits if_True res_bind.simps mag) simp
    next
      case False
      then show ?thesis
        unfolding pads digs
        by (cases "int (dval ip) \<le> I128_MAX"; cases "int (dval fp) \<le> I128_MAX")
          (simp_all only: pads if_True if_False res_bind.simps mag simp_thms)
    qed
  qed (simp add: checked_pow10_eq)
  finally show ?thesis by (simp add: m_def)
qed

text \<open>The code against the reference, one string.\<close>

lemma scale_ok:
  assumes "dec_rat s = Some v" and "frac_digits s \<le> d"
  shows "scale_to_int s d = Inr k \<longleftrightarrow> of_int k = v * 10 ^ d \<and> d \<le> 38 \<and> \<bar>k\<bar> \<le> I128_MAX"
    and "scale_to_int s d = Inl e \<Longrightarrow> e = Overflow"
    and "\<exists>k. v * 10 ^ d = of_int k"
proof -
  obtain neg body where st: "strip_minus s = (neg, body)" by fastforce
  obtain ip fp where bp: "body_parts body = (ip, fp)" by fastforce
  have len: "length fp \<le> d" using assms(2) by (simp add: frac_digits_parts st bp)
  have parts: "ip @ fp \<noteq> []" "list_all is_ascii_digit (ip @ fp)"
    and v: "v = (if neg then -1 else 1) * of_nat (dval (ip @ fp)) / 10 ^ length fp"
    using assms(1) unfolding dec_rat_parts [OF st bp] by (auto split: if_splits)
  let ?m = "dval (ip @ fp) * 10 ^ (d - length fp)"
  let ?k = "(if neg then -1 else 1) * int ?m"
  have "(10 :: rat) ^ d = 10 ^ length fp * 10 ^ (d - length fp)"
    using len by (simp add: power_add [symmetric])
  then have vk: "v * 10 ^ d = of_int ?k" by (simp add: v)
  have abs: "\<bar>?k\<bar> = int ?m" by simp
  have scale: "scale_to_int s d = (if d \<le> 38 \<and> int ?m \<le> I128_MAX then Inr ?k else Inl Overflow)"
    using scale_parts [OF st bp parts len] by (simp add: Let_def)
  show "scale_to_int s d = Inr k \<longleftrightarrow> of_int k = v * 10 ^ d \<and> d \<le> 38 \<and> \<bar>k\<bar> \<le> I128_MAX"
    unfolding scale vk of_int_eq_iff using abs by (auto split: if_splits)
  show "scale_to_int s d = Inl e \<Longrightarrow> e = Overflow" by (simp add: scale split: if_splits)
  show "\<exists>k. v * 10 ^ d = of_int k" using vk by blast
qed

lemma scale_bad:
  assumes "dec_rat s = None"
  shows "scale_to_int s d = Inl NotDecimal"
proof -
  obtain neg body where st: "strip_minus s = (neg, body)" by fastforce
  obtain ip fp where bp: "body_parts body = (ip, fp)" by fastforce
  show ?thesis
    using assms bp st unfolding dec_rat_parts [OF st bp]
    by (auto simp: scale_to_int_def body_parts_def split: if_splits)
qed

lemma smod_zero_quotient:
  fixes V T :: int
  assumes "T \<noteq> 0"
  shows "V smod T = 0 \<longleftrightarrow> (of_int V / of_int T :: rat) \<in> \<int>"
    and "V smod T = 0 \<Longrightarrow> V sdiv T = \<lfloor>of_int V / of_int T :: rat\<rfloor>"
proof -
  have dvd: "V smod T = 0 \<longleftrightarrow> T dvd V"
    by (simp add: smod_int_alt_def sgn_0_0 mod_eq_0_iff_dvd) auto
  show "V smod T = 0 \<longleftrightarrow> (of_int V / of_int T :: rat) \<in> \<int>"
    using assms by (simp add: dvd of_int_div_of_int_in_Ints_iff)
  show "V sdiv T = \<lfloor>of_int V / of_int T :: rat\<rfloor>" if zero: "V smod T = 0"
  proof -
    obtain k where k: "V = T * k" using zero dvd by (auto elim: dvdE)
    moreover from k zero have "V sdiv T = k"
      using mult_sdiv_smod_eq [of T V] assms by simp
    ultimately show ?thesis using assms by simp
  qed
qed

text \<open>
  Property C16: ticks are exact. For a decimal amount and tick size whose scaled integers fit an
  \<open>i128\<close>, \<open>to_ticks\<close> returns the quotient of the two rationals when it is an integer that fits an
  \<open>i64\<close>, reports \<open>OffTickGrid\<close> when it is not an integer (or the tick is zero) and \<open>Overflow\<close> when
  it does not fit.
\<close>
theorem to_ticks_exact:
  assumes "dec_rat amount = Some v" and "dec_rat tick = Some t"
    and "d = max (frac_digits amount) (frac_digits tick)" and "d \<le> 38"
    and "\<bar>v\<bar> * 10 ^ d < 2 ^ 127" and "\<bar>t\<bar> * 10 ^ d < 2 ^ 127"
  shows "to_ticks amount tick =
    (if t = 0 \<or> v / t \<notin> \<int> then Inl OffTickGrid
     else if - (2 ^ 63) \<le> \<lfloor>v / t\<rfloor> \<and> \<lfloor>v / t\<rfloor> < 2 ^ 63 then Inr (of_int \<lfloor>v / t\<rfloor>)
     else Inl Overflow)"
proof -
  have fits: "\<exists>k. scale_to_int s d = Inr k \<and> of_int k = r * 10 ^ d"
    if r: "dec_rat s = Some r" "frac_digits s \<le> d" "\<bar>r\<bar> * 10 ^ d < 2 ^ 127" for s r
  proof -
    obtain k where k: "r * 10 ^ d = of_int k" using scale_ok(3) [OF r(1,2)] by blast
    have "\<bar>of_int k :: rat\<bar> < 2 ^ 127" using r(3) unfolding k [symmetric] by (simp add: abs_mult)
    then have "of_int \<bar>k\<bar> < (of_int (2 ^ 127) :: rat)" by simp
    then have "\<bar>k\<bar> < 2 ^ 127" by (simp only: of_int_less_iff)
    then have "\<bar>k\<bar> \<le> I128_MAX" by (simp add: I128_MAX_def)
    then show ?thesis using scale_ok(1) [OF r(1,2)] k assms(4) by metis
  qed
  obtain V where V: "scale_to_int amount d = Inr V" "of_int V = v * 10 ^ d"
    using fits [OF assms(1)] assms(3,5) by auto
  obtain T where T: "scale_to_int tick d = Inr T" "of_int T = t * 10 ^ d"
    using fits [OF assms(2)] assms(3,6) by auto
  have zero: "t = 0 \<longleftrightarrow> T = 0" using T(2) by (metis mult_eq_0_iff of_int_eq_0_iff power_not_zero zero_neq_numeral)
  have quot: "v / t = of_int V / of_int T" by (simp add: V T)
  show ?thesis
    using smod_zero_quotient [of T V] unfolding quot zero
    by (auto simp: to_ticks_def assms(3) [symmetric] V(1) T(1) Let_def)
qed

theorem to_ticks_exact_witness:
  "to_ticks ''65000.10'' ''0.01000000'' = Inr 6500010"
proof -
  have "dec_rat ''65000.10'' = Some (6500010 / 100)" "dec_rat ''0.01000000'' = Some (1 / 100)"
    by (simp_all add: dec_rat_def strip_minus_def is_ascii_digit_def)
  from to_ticks_exact [OF this, of 8] show ?thesis by (simp add: frac_digits_def)
qed

text \<open>
  Ticks are sound on every input. Whatever the two strings are, when \<open>to_ticks\<close> returns a
  count, both are decimal and the count times the tick size is exactly the amount.
\<close>
theorem to_ticks_sound:
  assumes "to_ticks amount tick = Inr n"
  shows "\<exists>v t. dec_rat amount = Some v \<and> dec_rat tick = Some t \<and> t \<noteq> 0 \<and> of_int (sint n) * t = v"
proof -
  define d where "d = max (frac_digits amount) (frac_digits tick)"
  have d: "frac_digits amount \<le> d" "frac_digits tick \<le> d" by (simp_all add: d_def)
  obtain V T where V: "scale_to_int amount d = Inr V" and T: "scale_to_int tick d = Inr T"
    and ok: "T \<noteq> 0" "V smod T = 0" "- (2 ^ 63) \<le> V sdiv T" "V sdiv T < 2 ^ 63" "n = of_int (V sdiv T)"
    using assms by (auto simp: to_ticks_def d_def [symmetric] res_bind_Inr_iff Let_def split: if_splits)
  obtain v where v: "dec_rat amount = Some v" using scale_bad [of amount d] V by fastforce
  obtain t where t: "dec_rat tick = Some t" using scale_bad [of tick d] T by fastforce
  have scaled: "of_int V = v * 10 ^ d" "of_int T = t * 10 ^ d"
    using scale_ok(1) [OF v d(1)] scale_ok(1) [OF t d(2)] V T by blast+
  have "V = T * (V sdiv T)" using mult_sdiv_smod_eq [of T V] ok(2) by simp
  moreover have "sint n = V sdiv T" using ok by (simp add: sint_of_int_i64)
  ultimately have "V = sint n * T" by (simp add: mult.commute)
  then have "(of_int V :: rat) = of_int (sint n) * of_int T" by simp
  then have "of_int (sint n) * t = v" by (simp add: scaled)
  moreover have "t \<noteq> 0" using ok(1) scaled(2) by auto
  ultimately show ?thesis using v t by blast
qed

theorem to_ticks_sound_witness:
  "\<exists>v t. dec_rat ''-0.3'' = Some v \<and> dec_rat ''0.1'' = Some t \<and> t \<noteq> 0 \<and> of_int (sint (- 3 :: i64)) * t = v"
proof (rule to_ticks_sound)
  show "to_ticks ''-0.3'' ''0.1'' = Inr (- 3)"
    by (simp add: to_ticks_def frac_digits_def scale_to_int_def strip_minus_def is_ascii_digit_def
        checked_pow10_eq parse_i128_digits_ascii dval_def i128_checked_def I128_MAX_def ok_or_def
        smod_int_alt_def)
qed

end
