(* ===== verification/Corpus.thy ===== *)
theory Corpus
  imports Book_Spec Decimal
begin

unbundle bit_operations_syntax

section \<open>The binary corpus (feed/src/corpus.rs)\<close>

text \<open>
  A corpus is a 32-byte header and 40-byte records, little-endian. \<open>from_bytes\<close> returns the panics of
  its slice operations and the typed errors of its validation separately, so that "every malformed
  corpus maps to a specific variant" is a statement about the model. The writer behind \<open>write_to\<close> and
  the files behind \<open>load\<close> and \<open>save\<close> are parameters: a function per call the source makes, each of
  which may fail with an I/O error.
\<close>

definition MAGIC :: "u8 list" where
  "MAGIC = [0x4D, 0x44, 0x46, 0x45, 0x45, 0x44, 0, 0]"

definition VERSION :: u32 where "VERSION = 1"
definition RECORD_SIZE :: nat where "RECORD_SIZE = 40"
definition HEADER_SIZE :: nat where "HEADER_SIZE = 32"
definition RECORD_SIZE_U32 :: u32 where "RECORD_SIZE_U32 = 40"

datatype 'io corpus_error =
    Io 'io
  | BadMagic
  | UnsupportedVersion u32
  | BadRecordSize u32
  | Truncated u64 u64
  | BadDiscriminant u64 string u8

definition show_u64 :: "u64 \<Rightarrow> string" where
  "show_u64 n = show_nat (unat n)"

text \<open>\<open>Display\<close>; \<open>show_io\<close> is that of the I/O error.\<close>

fun corpus_error_text :: "('io \<Rightarrow> string) \<Rightarrow> 'io corpus_error \<Rightarrow> string" where
  "corpus_error_text show_io (Io e) = ''corpus I/O error: '' @ show_io e"
| "corpus_error_text show_io BadMagic = ''bad magic: not an MDFEED corpus''"
| "corpus_error_text show_io (UnsupportedVersion v) =
     ''unsupported corpus version '' @ show_nat (unat v) @ '' (expected '' @ show_nat (unat VERSION) @ '')''"
| "corpus_error_text show_io (BadRecordSize s) =
     ''bad record_size '' @ show_nat (unat s) @ '' (expected '' @ show_nat RECORD_SIZE @ '')''"
| "corpus_error_text show_io (Truncated expected found) =
     ''truncated corpus: header declares '' @ show_nat (unat expected) @ '' payload bytes, found ''
     @ show_nat (unat found)"
| "corpus_error_text show_io (BadDiscriminant rec field byte) =
     ''bad '' @ field @ '' discriminant '' @ show_nat (unat byte) @ '' in record '' @ show_nat (unat rec)"

record corpus =
  cp_events :: "book_event list"

definition from_events :: "book_event list \<Rightarrow> corpus" where
  "from_events evs = \<lparr>cp_events = evs\<rparr>"

subsection \<open>Little-endian integers\<close>

definition to_le_bytes :: "nat \<Rightarrow> 'a::len word \<Rightarrow> u8 list" where
  "to_le_bytes n w = map (\<lambda>i. ucast (drop_bit (8 * i) w)) [0..<n]"

primrec from_le_bytes :: "u8 list \<Rightarrow> 'a::len word" where
  "from_le_bytes [] = 0"
| "from_le_bytes (b # bs) = ucast b OR push_bit 8 (from_le_bytes bs)"

text \<open>\<open>copy_from_slice\<close> into an array of \<open>n\<close> bytes.\<close>

definition le_bytes :: "nat \<Rightarrow> u8 list \<Rightarrow> u8 list res" where
  "le_bytes n src = (if length src = n then Inr src else Inl LengthMismatch)"

definition read_le :: "u8 list \<Rightarrow> nat \<Rightarrow> nat \<Rightarrow> ('a::len word) res" where
  "read_le buf lo n =
     res_bind (slice buf lo (lo + n)) (\<lambda>s. res_map from_le_bytes (le_bytes n s))"

lemma to_le_bytes_Suc: "to_le_bytes (Suc n) w = ucast w # to_le_bytes n (drop_bit 8 w)"
proof -
  have "[0..<Suc n] = 0 # map Suc [0..<n]" by (simp only: map_Suc_upt upt_conv_Cons)
  then show ?thesis by (simp add: to_le_bytes_def comp_def add.commute)
qed

lemma from_to_le: "8 * n \<le> LENGTH('a) \<Longrightarrow> from_le_bytes (to_le_bytes n w) = take_bit (8 * n) (w :: 'a::len word)"
proof (induction n arbitrary: w)
  case 0
  then show ?case by (simp add: to_le_bytes_def)
next
  case (Suc n)
  then have "from_le_bytes (to_le_bytes (Suc n) w) =
      ucast (ucast w :: u8) OR push_bit 8 (take_bit (8 * n) (drop_bit 8 w))"
    by (simp add: to_le_bytes_Suc)
  also have "\<dots> = take_bit (8 * Suc n) w"
    using Suc.prems by (intro bit_eqI) (auto simp: bit_simps)
  finally show ?case .
qed

lemma length_to_le_bytes [simp]: "length (to_le_bytes n w) = n"
  by (simp add: to_le_bytes_def)

lemma le_round_trip [simp]:
  "from_le_bytes (to_le_bytes 8 (v :: u64)) = v" "from_le_bytes (to_le_bytes 4 (u :: u32)) = u"
  by (simp_all add: from_to_le take_bit_word_eq_self)

lemma to_from_le: "8 * length bs \<le> LENGTH('a) \<Longrightarrow> to_le_bytes (length bs) (from_le_bytes bs :: 'a::len word) = bs"
proof (induction bs)
  case Nil
  then show ?case by (simp add: to_le_bytes_def)
next
  case (Cons b bs)
  let ?w = "from_le_bytes bs :: 'a word"
  have small: "8 + (8 * length bs) \<le> LENGTH('a)" using Cons.prems by simp
  have "ucast (ucast b OR push_bit 8 ?w) = b"
    using small by (intro bit_eqI) (auto simp: bit_simps)
  moreover have "drop_bit 8 (ucast b OR push_bit 8 ?w :: 'a word) = take_bit (LENGTH('a) - 8) ?w"
    by (rule bit_eqI) (auto simp: bit_simps dest: bit_imp_le_length)
  moreover have "take_bit (LENGTH('a) - 8) ?w = ?w"
  proof -
    have "?w = take_bit (8 * length bs) ?w"
    proof -
      have "from_le_bytes (to_le_bytes (length bs) ?w) = take_bit (8 * length bs) ?w"
        using small by (intro from_to_le) simp
      moreover have "to_le_bytes (length bs) ?w = bs" using Cons.IH small by simp
      ultimately show ?thesis by simp
    qed
    then have "take_bit (LENGTH('a) - 8) ?w = take_bit (LENGTH('a) - 8) (take_bit (8 * length bs) ?w)" by simp
    also have "\<dots> = take_bit (8 * length bs) ?w" using small by simp
    finally show ?thesis using \<open>?w = take_bit (8 * length bs) ?w\<close> by simp
  qed
  moreover have "to_le_bytes (length bs) ?w = bs" using Cons.IH small by simp
  ultimately show ?case by (simp add: to_le_bytes_Suc)
qed

lemma read_le_in_range:
  "lo + n \<le> length buf \<Longrightarrow> read_le buf lo n = Inr (from_le_bytes (take n (drop lo buf)))"
  by (simp add: read_le_def slice_def le_bytes_def)

subsection \<open>Reading\<close>

type_synonym ('io, 'a) parse = "('io corpus_error + 'a) res"

fun parse_bind :: "('io, 'a) parse \<Rightarrow> ('a \<Rightarrow> ('io, 'b) parse) \<Rightarrow> ('io, 'b) parse" where
  "parse_bind (Inl e) f = Inl e"
| "parse_bind (Inr (Inl e)) f = Inr (Inl e)"
| "parse_bind (Inr (Inr a)) f = f a"

definition side_from_u8 :: "u8 \<Rightarrow> u64 \<Rightarrow> 'io corpus_error + side" where
  "side_from_u8 b rec =
     (if b = 0 then Inr Bid else if b = 1 then Inr Ask else Inl (BadDiscriminant rec ''side'' b))"

definition kind_from_u8 :: "u8 \<Rightarrow> u64 \<Rightarrow> 'io corpus_error + event_kind" where
  "kind_from_u8 b rec =
     (if b = 0 then Inr Level else if b = 1 then Inr Trade else if b = 2 then Inr Clear
      else Inl (BadDiscriminant rec ''kind'' b))"

fun event_from_parts :: "u64 \<Rightarrow> u64 \<Rightarrow> side \<Rightarrow> px \<Rightarrow> qty \<Rightarrow> event_kind \<Rightarrow> book_event" where
  "event_from_parts seq ts s p q Level = ev_level seq ts s p q"
| "event_from_parts seq ts s p q Trade = ev_trade seq ts s p q"
| "event_from_parts seq ts s p q Clear = ev_clear seq ts"

definition parse_record :: "u64 \<Rightarrow> u8 list \<Rightarrow> ('io, book_event) parse" where
  "parse_record rec_idx rec =
     res_bind (read_le rec 0 8) (\<lambda>seq.
     res_bind (read_le rec 8 8) (\<lambda>ts.
     res_bind (read_le rec 16 8) (\<lambda>p.
     res_bind (read_le rec 24 8) (\<lambda>q.
     res_bind (vec_get rec 32) (\<lambda>sb.
     parse_bind (Inr (side_from_u8 sb rec_idx)) (\<lambda>s.
     res_bind (vec_get rec 33) (\<lambda>kb.
     parse_bind (Inr (kind_from_u8 kb rec_idx)) (\<lambda>k.
       Inr (Inr (event_from_parts seq ts s (Px p) (Qty q) k))))))))))"

text \<open>\<open>chunks_exact\<close>: whole chunks of \<open>n > 0\<close> bytes, a shorter tail dropped.\<close>

function chunks_exact :: "nat \<Rightarrow> 'a list \<Rightarrow> 'a list list" where
  "chunks_exact n xs =
     (if n = 0 \<or> length xs < n then [] else take n xs # chunks_exact n (drop n xs))"
  by pat_completeness auto
termination by (relation "measure (\<lambda>(n, xs). length xs)") auto

declare chunks_exact.simps [simp del]

fun parse_records :: "u64 \<Rightarrow> u8 list list \<Rightarrow> ('io, book_event list) parse" where
  "parse_records i [] = Inr (Inr [])"
| "parse_records i (rec # recs) =
     parse_bind (parse_record i rec) (\<lambda>ev.
     parse_bind (parse_records (i + 1) recs) (\<lambda>evs. Inr (Inr (ev # evs))))"

definition checked_mul :: "u64 \<Rightarrow> nat \<Rightarrow> u64 option" where
  "checked_mul a k = (if unat a * k < 2 ^ 64 then Some (a * of_nat k) else None)"

definition check_payload :: "u64 \<Rightarrow> u8 list \<Rightarrow> ('io, corpus) parse" where
  "check_payload count payload =
     (case checked_mul count RECORD_SIZE of
        None \<Rightarrow> Inr (Inl (Truncated (- 1) (of_nat (length payload))))
      | Some expected \<Rightarrow>
          if of_nat (length payload) \<noteq> expected
          then Inr (Inl (Truncated expected (of_nat (length payload))))
          else parse_bind (parse_records 0 (chunks_exact RECORD_SIZE payload))
                 (\<lambda>evs. Inr (Inr \<lparr>cp_events = evs\<rparr>)))"

definition from_bytes :: "u8 list \<Rightarrow> ('io, corpus) parse" where
  "from_bytes buf =
     (if length buf < HEADER_SIZE
      then Inr (Inl (Truncated (of_nat HEADER_SIZE) (of_nat (length buf))))
      else
        res_bind (slice buf 0 8) (\<lambda>magic.
        if magic \<noteq> MAGIC then Inr (Inl BadMagic) else
        res_bind (read_le buf 8 4) (\<lambda>version.
        if version \<noteq> VERSION then Inr (Inl (UnsupportedVersion version)) else
        res_bind (read_le buf 12 4) (\<lambda>record_size.
        if unat record_size \<noteq> RECORD_SIZE then Inr (Inl (BadRecordSize record_size)) else
        res_bind (read_le buf 16 8) (\<lambda>count.
        res_bind (slice buf HEADER_SIZE (length buf)) (\<lambda>payload.
          check_payload count payload))))))"

text \<open>\<open>load\<close>, given what opening and reading the file returns.\<close>

definition load :: "('p \<Rightarrow> 'io + u8 list) \<Rightarrow> 'p \<Rightarrow> ('io, corpus) parse" where
  "load read_to_end path =
     (case read_to_end path of Inl e \<Rightarrow> Inr (Inl (Io e)) | Inr buf \<Rightarrow> from_bytes buf)"

subsection \<open>Writing\<close>

type_synonym ('io, 'w) writer = "'w \<Rightarrow> u8 list \<Rightarrow> 'io + 'w"

definition write_record :: "('io, 'w) writer \<Rightarrow> 'w \<Rightarrow> book_event \<Rightarrow> 'io + 'w" where
  "write_record write_all w e =
     res_bind (write_all w (to_le_bytes 8 (ev_seq e))) (\<lambda>w.
     res_bind (write_all w (to_le_bytes 8 (ev_ts e))) (\<lambda>w.
     res_bind (write_all w (to_le_bytes 8 (ticks (ev_px e)))) (\<lambda>w.
     res_bind (write_all w (to_le_bytes 8 (lots (ev_qty e)))) (\<lambda>w.
     res_bind (write_all w [side_disc (ev_side e), kind_disc (ev_kind e)]) (\<lambda>w.
       write_all w (replicate 6 0))))))"

fun write_records :: "('io, 'w) writer \<Rightarrow> 'w \<Rightarrow> book_event list \<Rightarrow> 'io + 'w" where
  "write_records write_all w [] = Inr w"
| "write_records write_all w (e # es) =
     res_bind (write_record write_all w e) (\<lambda>w. write_records write_all w es)"

definition write_to :: "('io, 'w) writer \<Rightarrow> 'w \<Rightarrow> book_event list \<Rightarrow> 'io + 'w" where
  "write_to write_all w events =
     res_bind (write_all w MAGIC) (\<lambda>w.
     res_bind (write_all w (to_le_bytes 4 VERSION)) (\<lambda>w.
     res_bind (write_all w (to_le_bytes 4 RECORD_SIZE_U32)) (\<lambda>w.
     res_bind (write_all w (to_le_bytes 8 (of_nat (length events) :: u64))) (\<lambda>w.
     res_bind (write_all w (to_le_bytes 8 (0 :: u64))) (\<lambda>w.
       write_records write_all w events)))))"

definition save ::
  "('p \<Rightarrow> 'io + 'w) \<Rightarrow> ('io, 'w) writer \<Rightarrow> ('w \<Rightarrow> 'io + 'w) \<Rightarrow> 'p \<Rightarrow> book_event list
   \<Rightarrow> 'io corpus_error + 'w" where
  "save create write_all flush path events =
     (case res_bind (create path) (\<lambda>w. res_bind (write_to write_all w events) flush) of
        Inl e \<Rightarrow> Inl (Io e) | Inr w \<Rightarrow> Inr w)"

text \<open>The files a binary writes: \<open>save\<close> on them, and \<open>std::fs::write\<close>.\<close>

record 'f files =
  fl_create :: "string \<Rightarrow> string + 'f"
  fl_write_all :: "(string, 'f) writer"
  fl_flush :: "'f \<Rightarrow> string + 'f"
  fl_write :: "string \<Rightarrow> string \<Rightarrow> string + unit"

definition save_file :: "('f, 'z) files_scheme \<Rightarrow> string \<Rightarrow> book_event list \<Rightarrow> string corpus_error + 'f" where
  "save_file fl path events = save (fl_create fl) (fl_write_all fl) (fl_flush fl) path events"

text \<open>\<open>Vec<u8>\<close> as a writer: never fails.\<close>

definition vec_write :: "(unit, u8 list) writer" where
  "vec_write w bs = Inr (w @ bs)"

text \<open>Files held in memory: writing never fails and what is written is the bytes.\<close>

definition vec_files :: "u8 list files" where
  "vec_files = \<lparr>fl_create = (\<lambda>_. Inr []), fl_write_all = (\<lambda>w bs. Inr (w @ bs)), fl_flush = Inr, fl_write = (\<lambda>_ _. Inr ())\<rparr>"

subsection \<open>The encoding as a function\<close>

definition record_bytes :: "book_event \<Rightarrow> u8 list" where
  "record_bytes e =
     to_le_bytes 8 (ev_seq e) @ to_le_bytes 8 (ev_ts e) @ to_le_bytes 8 (ticks (ev_px e))
     @ to_le_bytes 8 (lots (ev_qty e)) @ [side_disc (ev_side e), kind_disc (ev_kind e)] @ replicate 6 0"

definition header_bytes :: "nat \<Rightarrow> u8 list" where
  "header_bytes n =
     MAGIC @ to_le_bytes 4 VERSION @ to_le_bytes 4 RECORD_SIZE_U32 @ to_le_bytes 8 (of_nat n :: u64)
     @ to_le_bytes 8 (0 :: u64)"

definition encode :: "book_event list \<Rightarrow> u8 list" where
  "encode evs = header_bytes (length evs) @ concat (map record_bytes evs)"

lemma write_records_append:
  "write_records (\<lambda>w bs. Inr (w @ bs)) w evs = Inr (w @ concat (map record_bytes evs))"
  by (induction evs arbitrary: w) (simp_all add: write_record_def record_bytes_def)

lemma write_to_append: "write_to (\<lambda>w bs. Inr (w @ bs)) w evs = Inr (w @ encode evs)"
proof -
  have "write_to (\<lambda>w bs. Inr (w @ bs)) w evs =
      write_records (\<lambda>w bs. Inr (w @ bs)) (w @ header_bytes (length evs)) evs"
    by (simp add: write_to_def header_bytes_def)
  then show ?thesis by (simp add: write_records_append encode_def)
qed

lemma write_to_vec: "write_to vec_write w evs = Inr (w @ encode evs)"
proof -
  have vec: "vec_write = (\<lambda>w bs. Inr (w @ bs))" by (intro ext) (simp add: vec_write_def)
  show ?thesis unfolding vec by (rule write_to_append)
qed

lemma length_record_bytes [simp]: "length (record_bytes e) = 40"
  by (simp add: record_bytes_def)

lemma length_header_bytes [simp]: "length (header_bytes n) = 32"
  by (simp add: header_bytes_def MAGIC_def)

lemma length_concat_records: "length (concat (map record_bytes evs)) = 40 * length evs"
  by (induction evs) simp_all

lemma length_encode: "length (encode evs) = 32 + 40 * length evs"
  by (simp add: encode_def length_concat_records)

lemma chunks_concat:
  "n > 0 \<Longrightarrow> \<forall>x \<in> set xss. length x = n \<Longrightarrow> chunks_exact n (concat xss) = xss"
  by (induction xss) (simp_all add: chunks_exact.simps)

text \<open>What is read back from a record: \<open>Clear\<close> keeps only its sequence number and time.\<close>

definition canon :: "book_event \<Rightarrow> book_event" where
  "canon ev = (if ev_kind ev = Clear then ev_clear (ev_seq ev) (ev_ts ev) else ev)"

lemma parse_record_bytes: "parse_record i (record_bytes e) = Inr (Inr (canon e))"
proof -
  have pieces: "take 8 (record_bytes e) = to_le_bytes 8 (ev_seq e)"
    "take 8 (drop 8 (record_bytes e)) = to_le_bytes 8 (ev_ts e)"
    "take 8 (drop 16 (record_bytes e)) = to_le_bytes 8 (ticks (ev_px e))"
    "take 8 (drop 24 (record_bytes e)) = to_le_bytes 8 (lots (ev_qty e))"
    "record_bytes e ! 32 = side_disc (ev_side e)" "record_bytes e ! 33 = kind_disc (ev_kind e)"
    by (simp_all add: record_bytes_def nth_append)
  have disc: "side_from_u8 (side_disc (ev_side e)) i = Inr (ev_side e)"
    "kind_from_u8 (kind_disc (ev_kind e)) i = Inr (ev_kind e)"
    by (cases "ev_side e"; simp add: side_from_u8_def) (cases "ev_kind e"; simp add: kind_from_u8_def)
  have "event_from_parts (ev_seq e) (ev_ts e) (ev_side e) (Px (ticks (ev_px e)))
      (Qty (lots (ev_qty e))) (ev_kind e) = canon e"
    by (cases "ev_kind e") (simp_all add: canon_def ev_defs)
  then show ?thesis
    by (simp add: parse_record_def read_le_in_range pieces disc vec_get_def
        del: px.collapse qty.collapse)
qed

lemma parse_records_bytes: "parse_records i (map record_bytes evs) = Inr (Inr (map canon evs))"
  by (induction evs arbitrary: i) (simp_all add: parse_record_bytes)


subsection \<open>Validation\<close>

text \<open>The header of a buffer of at least 32 bytes, without the panics that cannot happen.\<close>

lemma from_bytes_long:
  assumes "32 \<le> length buf"
  shows "from_bytes buf =
    (let version = from_le_bytes (take 4 (drop 8 buf)); size = from_le_bytes (take 4 (drop 12 buf))
     in if take 8 buf \<noteq> MAGIC then Inr (Inl BadMagic)
        else if version \<noteq> VERSION then Inr (Inl (UnsupportedVersion version))
        else if unat size \<noteq> RECORD_SIZE then Inr (Inl (BadRecordSize size))
        else check_payload (from_le_bytes (take 8 (drop 16 buf))) (drop 32 buf))"
  using assms by (simp add: from_bytes_def HEADER_SIZE_def slice_def read_le_in_range Let_def)

lemma header_fields:
  "take 8 (header_bytes n @ xs) = MAGIC" "take 4 (drop 8 (header_bytes n @ xs)) = to_le_bytes 4 VERSION"
  "take 4 (drop 12 (header_bytes n @ xs)) = to_le_bytes 4 RECORD_SIZE_U32"
  "take 8 (drop 16 (header_bytes n @ xs)) = to_le_bytes 8 (of_nat n :: u64)"
  "drop 32 (header_bytes n @ xs) = xs"
  by (simp_all add: header_bytes_def MAGIC_def)

lemma from_bytes_header:
  "from_bytes (header_bytes n @ xs) = check_payload (of_nat n) xs"
  by (subst from_bytes_long, simp)
    (simp only: header_fields Let_def le_round_trip, simp add: RECORD_SIZE_U32_def RECORD_SIZE_def)

lemma checked_mul_small:
  "n * 40 < 2 ^ 64 \<Longrightarrow> checked_mul (of_nat n) RECORD_SIZE = Some (of_nat (40 * n))"
  by (simp add: checked_mul_def RECORD_SIZE_def unat_of_nat take_bit_nat_eq_self mult.commute)

lemma from_bytes_encode:
  assumes "40 * length evs < 2 ^ 64"
  shows "from_bytes (encode evs) = Inr (Inr \<lparr>cp_events = map canon evs\<rparr>)"
proof -
  have "chunks_exact RECORD_SIZE (concat (map record_bytes evs)) = map record_bytes evs"
    by (rule chunks_concat) (auto simp: RECORD_SIZE_def)
  then show ?thesis
    using assms unfolding encode_def from_bytes_header check_payload_def
    by (subst checked_mul_small) (simp_all add: length_concat_records parse_records_bytes)
qed

lemma spec_apply_canon: "spec_apply b (canon ev) = spec_apply b ev"
  by (simp add: spec_apply_def canon_def ev_defs)

lemma spec_run_canon: "spec_run (map canon evs) = spec_run evs"
  by (induction evs rule: rev_induct) (simp_all add: spec_run_snoc spec_apply_canon spec_run_def)

lemma canon_idem [simp]: "canon (canon ev) = canon ev"
  by (simp add: canon_def ev_defs)

text \<open>
  Property C11: the corpus round trip. Whatever events are written, the bytes are 32 plus 40 per event
  and loading them gives the events back in order, a \<open>Clear\<close> with its ignored payload zeroed; a book
  replayed from the loaded corpus is the book replayed from the events.
\<close>
theorem corpus_round_trip:
  assumes "40 * length evs < 2 ^ 64"
  shows "\<exists>buf. write_to vec_write [] evs = Inr buf \<and> length buf = 32 + 40 * length evs
    \<and> from_bytes buf = Inr (Inr \<lparr>cp_events = map canon evs\<rparr>)
    \<and> spec_run (map canon evs) = spec_run evs"
  using from_bytes_encode [OF assms] by (simp add: write_to_vec length_encode spec_run_canon)

theorem corpus_round_trip_witness:
  "\<exists>buf. write_to vec_write [] [ev_clear 0 7, ev_level 1 8 Ask (Px (- 7)) (Qty 9)] = Inr buf
    \<and> length buf = 32 + 40 * length [ev_clear 0 7, ev_level 1 8 Ask (Px (- 7)) (Qty 9)]
    \<and> from_bytes buf = Inr (Inr \<lparr>cp_events = map canon [ev_clear 0 7, ev_level 1 8 Ask (Px (- 7)) (Qty 9)]\<rparr>)
    \<and> spec_run (map canon [ev_clear 0 7, ev_level 1 8 Ask (Px (- 7)) (Qty 9)]) =
        spec_run [ev_clear 0 7, ev_level 1 8 Ask (Px (- 7)) (Qty 9)]"
  by (rule corpus_round_trip) simp

text \<open>
  A cut or padded file is always noticed. Any proper prefix of a written corpus, and any
  written corpus with bytes appended, is rejected as truncated, with the byte counts the header
  promises and the file has.
\<close>
theorem corpus_length_checked:
  assumes "40 * length evs < 2 ^ 63" and "length junk < 2 ^ 63"
    and k: "k < length (encode evs)" and junk: "junk \<noteq> []"
  shows "from_bytes (take k (encode evs)) =
      Inr (Inl (if k < 32 then Truncated 32 (of_nat k)
                else Truncated (of_nat (40 * length evs)) (of_nat (k - 32))))
    \<and> from_bytes (encode evs @ junk) =
      Inr (Inl (Truncated (of_nat (40 * length evs)) (of_nat (40 * length evs + length junk))))"
proof -
  let ?body = "concat (map record_bytes evs)"
  have mul: "checked_mul (of_nat (length evs)) RECORD_SIZE = Some (of_nat (40 * length evs))"
    using assms(1) by (intro checked_mul_small) simp
  have differ: "(of_nat a :: u64) \<noteq> of_nat b" if "a \<noteq> b" "a < 2 ^ 64" "b < 2 ^ 64" for a b :: nat
    using that by (simp add: word_of_nat_eq_iff take_bit_nat_eq_self)
  have other: "from_bytes (header_bytes (length evs) @ xs) =
      Inr (Inl (Truncated (of_nat (40 * length evs)) (of_nat (length xs))))"
    if "length xs \<noteq> 40 * length evs" "length xs < 2 ^ 64" for xs
    using differ [OF that(1,2)] assms(1) by (simp only: from_bytes_header check_payload_def mul) simp
  have "from_bytes (take k (encode evs)) = Inr (Inl (if k < 32 then Truncated 32 (of_nat k)
      else Truncated (of_nat (40 * length evs)) (of_nat (k - 32))))"
  proof (cases "k < 32")
    case True
    then show ?thesis using k by (simp add: from_bytes_def HEADER_SIZE_def)
  next
    case False
    then have "take k (encode evs) = header_bytes (length evs) @ take (k - 32) ?body"
      by (simp add: encode_def)
    moreover have "length (take (k - 32) ?body) = k - 32"
      using k False by (simp add: length_concat_records length_encode)
    moreover have "k - 32 \<noteq> 40 * length evs" "k - 32 < 2 ^ 64"
      using k False assms(1) by (simp_all add: length_encode)
    ultimately show ?thesis
      using False by (simp only: other if_False simp_thms)
  qed
  moreover have "from_bytes (encode evs @ junk) =
      Inr (Inl (Truncated (of_nat (40 * length evs)) (of_nat (40 * length evs + length junk))))"
    using junk assms(1,2) by (simp add: encode_def length_concat_records other)
  ultimately show ?thesis by blast
qed

theorem corpus_length_checked_witness:
  "from_bytes (take 40 (encode [ev_clear 0 0])) =
      Inr (Inl (if (40 :: nat) < 32 then Truncated 32 (of_nat 40)
                else Truncated (of_nat (40 * length [ev_clear 0 0])) (of_nat (40 - 32))))
    \<and> from_bytes (encode [ev_clear 0 0] @ [1]) =
      Inr (Inl (Truncated (of_nat (40 * length [ev_clear 0 0]))
        (of_nat (40 * length [ev_clear 0 0] + length [1 :: u8]))))"
  by (rule corpus_length_checked) (simp_all add: length_encode)

subsection \<open>What an arbitrary buffer is taken for\<close>

text \<open>
  The record at \<open>rec\<close> reads as \<open>ev\<close>: all bytes but the padding are the encoding of \<open>ev\<close> (of a \<open>Clear\<close>,
  whose payload is dropped, the first sixteen and the kind). \<open>bad_record\<close>: the error names this
  record's index and its first discriminant out of range.
\<close>

definition record_reads :: "u8 list \<Rightarrow> book_event \<Rightarrow> bool" where
  "record_reads rec ev \<longleftrightarrow>
     (if ev_kind ev = Clear
      then take 16 rec = take 16 (record_bytes ev) \<and> rec ! 32 \<le> 1 \<and> rec ! 33 = 2 \<and> canon ev = ev
      else take 34 rec = take 34 (record_bytes ev))"

definition bad_record :: "u64 \<Rightarrow> u8 list \<Rightarrow> 'io corpus_error \<Rightarrow> bool" where
  "bad_record i rec e \<longleftrightarrow>
     e = BadDiscriminant i ''side'' (rec ! 32) \<and> 1 < rec ! 32
     \<or> e = BadDiscriminant i ''kind'' (rec ! 33) \<and> rec ! 32 \<le> 1 \<and> 2 < rec ! 33"

definition good_record :: "u8 list \<Rightarrow> bool" where
  "good_record rec \<longleftrightarrow> rec ! 32 \<le> 1 \<and> rec ! 33 \<le> 2"

lemma reads_good:
  assumes "record_reads rec ev" and "length rec = 40"
  shows "good_record rec"
proof (cases "ev_kind ev = Clear")
  case True
  then show ?thesis using assms(1) by (simp add: record_reads_def good_record_def)
next
  case False
  then have "take 34 rec = take 34 (record_bytes ev)" using assms(1) by (simp add: record_reads_def)
  then have "take 34 rec ! 32 = take 34 (record_bytes ev) ! 32" "take 34 rec ! 33 = take 34 (record_bytes ev) ! 33"
    by simp_all
  then have "rec ! 32 = side_disc (ev_side ev)" "rec ! 33 = kind_disc (ev_kind ev)"
    by (simp_all add: record_bytes_def nth_append)
  then show ?thesis by (cases "ev_side ev"; cases "ev_kind ev") (simp_all add: good_record_def)
qed

lemma u8_cases:
  fixes b :: u8
  shows "b \<noteq> 0 \<Longrightarrow> b \<noteq> 1 \<Longrightarrow> 1 < b" and "b \<noteq> 0 \<Longrightarrow> b \<noteq> 1 \<Longrightarrow> b \<noteq> 2 \<Longrightarrow> 2 < b"
proof -
  have eq: "b = of_nat k \<longleftrightarrow> unat b = k" if "k < 256" for k :: nat
    using that by (auto simp: word_unat_eq_iff unat_of_nat take_bit_nat_eq_self)
  show "b \<noteq> 0 \<Longrightarrow> b \<noteq> 1 \<Longrightarrow> 1 < b" "b \<noteq> 0 \<Longrightarrow> b \<noteq> 1 \<Longrightarrow> b \<noteq> 2 \<Longrightarrow> 2 < b"
    using eq [of 0] eq [of 1] eq [of 2] by (auto simp: word_less_nat_alt)
qed

lemma take_34:
  assumes "length rec = 40"
  shows "take 34 rec = take 8 rec @ take 8 (drop 8 rec) @ take 8 (drop 16 rec) @ take 8 (drop 24 rec)
    @ [rec ! 32, rec ! 33]"
proof -
  have "take 34 rec = take (8 + (8 + (8 + (8 + 2)))) rec" by simp
  also have "\<dots> = take 8 rec @ take 8 (drop 8 rec) @ take 8 (drop 16 rec) @ take 8 (drop 24 rec)
      @ take 2 (drop 32 rec)"
    by (simp only: take_add drop_drop) simp
  also have "take 2 (drop 32 rec) = [rec ! 32, rec ! 33]"
    using assms by (auto simp: take_Suc_conv_app_nth numeral_2_eq_2)
  finally show ?thesis .
qed

lemma le_bytes_back: "length bs = 8 \<Longrightarrow> to_le_bytes 8 (from_le_bytes bs :: u64) = bs"
  using to_from_le [where 'a = 64, of bs] by simp

lemma parse_record_spec:
  assumes "length rec = 40"
  shows "case (parse_record i rec :: ('io, book_event) parse) of
      Inl _ \<Rightarrow> False
    | Inr (Inl e) \<Rightarrow> bad_record i rec e
    | Inr (Inr ev) \<Rightarrow> record_reads rec ev"
proof -
  let ?ev = "\<lambda>s k. event_from_parts (from_le_bytes (take 8 rec)) (from_le_bytes (take 8 (drop 8 rec))) s
    (Px (from_le_bytes (take 8 (drop 16 rec)))) (Qty (from_le_bytes (take 8 (drop 24 rec)))) k"
  have run: "(parse_record i rec :: ('io, book_event) parse) =
      parse_bind (Inr (side_from_u8 (rec ! 32) i)) (\<lambda>s.
      parse_bind (Inr (kind_from_u8 (rec ! 33) i)) (\<lambda>k. Inr (Inr (?ev s k))))"
    using assms by (simp add: parse_record_def read_le_in_range vec_get_def)
  have reads: "record_reads rec (?ev s k)"
    if "side_disc s = rec ! 32" "kind_disc k = rec ! 33" for s k
  proof (cases "k = Clear")
    case True
    moreover have "side_disc s \<le> 1" by (cases s) simp_all
    moreover have "take 16 rec = take 8 rec @ take 8 (drop 8 rec)"
      using take_add [of 8 8 rec] by simp
    ultimately show ?thesis
      using that assms by (simp add: record_reads_def ev_defs record_bytes_def canon_def le_bytes_back)
  next
    case False
    then have "take 34 (record_bytes (?ev s k)) = take 34 rec"
      using that assms by (cases k) (simp_all add: take_34 ev_defs record_bytes_def le_bytes_back)
    moreover have "ev_kind (?ev s k) = k" by (cases k) (simp_all add: ev_defs)
    ultimately show ?thesis using False by (simp add: record_reads_def)
  qed
  consider "1 < rec ! 32" "rec ! 32 \<noteq> 0" "rec ! 32 \<noteq> 1"
    | s where "side_disc s = rec ! 32" "side_from_u8 (rec ! 32) i = (Inr s :: 'io corpus_error + side)" "rec ! 32 \<le> 1"
    using u8_cases(1) [of "rec ! 32"] by (cases "rec ! 32 = 0 \<or> rec ! 32 = 1")
      (auto simp: side_from_u8_def intro: that(2) [of Bid] that(2) [of Ask])
  then show ?thesis
  proof cases
    case 1
    then show ?thesis by (simp add: run side_from_u8_def bad_record_def)
  next
    case (2 s)
    consider "2 < rec ! 33" "rec ! 33 \<noteq> 0" "rec ! 33 \<noteq> 1" "rec ! 33 \<noteq> 2"
      | k where "kind_disc k = rec ! 33" "kind_from_u8 (rec ! 33) i = (Inr k :: 'io corpus_error + event_kind)"
      using u8_cases(2) [of "rec ! 33"] by (cases "rec ! 33 = 0 \<or> rec ! 33 = 1 \<or> rec ! 33 = 2")
        (auto simp: kind_from_u8_def intro: that(2) [of Level] that(2) [of Trade] that(2) [of Clear])
    then show ?thesis
    proof cases
      case 1
      with 2 show ?thesis by (simp add: run kind_from_u8_def bad_record_def)
    next
      case k: (2 k)
      with 2 reads show ?thesis by (simp add: run)
    qed
  qed
qed

lemma parse_records_spec:
  assumes "\<forall>rec \<in> set recs. length rec = 40"
  shows "case (parse_records (of_nat i) recs :: ('io, book_event list) parse) of
      Inl _ \<Rightarrow> False
    | Inr (Inl e) \<Rightarrow> \<exists>j < length recs. bad_record (of_nat (i + j)) (recs ! j) e \<and> list_all good_record (take j recs)
    | Inr (Inr evs) \<Rightarrow> list_all2 record_reads recs evs"
  using assms
proof (induction recs arbitrary: i)
  case (Cons rec recs)
  note one = parse_record_spec [where 'io = 'io, of rec "of_nat i"]
  note rest = Cons.IH [of "Suc i"]
  show ?case
  proof (cases "parse_record (of_nat i) rec :: ('io, book_event) parse")
    case (Inr r)
    show ?thesis
    proof (cases r)
      case (Inl e)
      with one \<open>parse_record _ _ = Inr r\<close> Cons.prems show ?thesis by (auto intro!: exI [of _ 0])
    next
      case (Inr ev)
      have shift: "\<exists>j < length (rec # recs). bad_record (of_nat (i + j)) ((rec # recs) ! j) e
          \<and> list_all good_record (take j (rec # recs))"
        if "\<exists>j < length recs. bad_record (of_nat (Suc i + j)) (recs ! j) e \<and> list_all good_record (take j recs)" for e :: "'io corpus_error"
      proof -
        from that obtain j where "j < length recs" "bad_record (of_nat (Suc i + j)) (recs ! j) e"
          "list_all good_record (take j recs)" by blast
        moreover have "good_record rec"
          using reads_good one Cons.prems \<open>parse_record _ _ = Inr r\<close> Inr by auto
        ultimately show ?thesis by (intro exI [of _ "Suc j"]) (simp add: algebra_simps)
      qed
      have "(parse_records (of_nat i) (rec # recs) :: ('io, book_event list) parse) =
          parse_bind (parse_records (of_nat (Suc i)) recs) (\<lambda>evs. Inr (Inr (ev # evs)))"
        using \<open>parse_record _ _ = Inr r\<close> Inr by (simp add: add.commute)
      note run = this
      have reads: "record_reads rec ev"
        using one Cons.prems \<open>parse_record _ _ = Inr r\<close> Inr by simp
      have tail: "case (parse_records (of_nat (Suc i)) recs :: ('io, book_event list) parse) of
          Inl _ \<Rightarrow> False
        | Inr (Inl e) \<Rightarrow> \<exists>j < length recs. bad_record (of_nat (Suc i + j)) (recs ! j) e
            \<and> list_all good_record (take j recs)
        | Inr (Inr evs) \<Rightarrow> list_all2 record_reads recs evs"
        using rest Cons.prems by simp
      show ?thesis
      proof (cases "\<exists>e. (parse_records (of_nat (Suc i)) recs :: ('io, book_event list) parse) = Inr (Inl e)")
        case True
        then obtain e where
          e: "(parse_records (of_nat (Suc i)) recs :: ('io, book_event list) parse) = Inr (Inl e)" by blast
        show ?thesis
          using tail shift [of e] unfolding run e by simp
      next
        case False
        then show ?thesis
          using tail reads unfolding run by (auto simp del: of_nat_Suc split: sum.splits)
      qed
    qed
  qed (use one Cons.prems in simp)
qed simp

lemma chunks_exact_nth:
  "0 < n \<Longrightarrow> length xs = n * m \<Longrightarrow>
   chunks_exact n xs = map (\<lambda>i. take n (drop (n * i) xs)) [0..<m]"
proof (induction m arbitrary: xs)
  case (Suc m)
  have "[0..<Suc m] = 0 # map Suc [0..<m]" by (simp only: map_Suc_upt upt_conv_Cons)
  moreover have "chunks_exact n (drop n xs) = map (\<lambda>i. take n (drop (n * i) (drop n xs))) [0..<m]"
    using Suc by (intro Suc.IH) simp_all
  ultimately show ?case
    using Suc.prems by (subst chunks_exact.simps) (simp add: comp_def add.commute)
qed (simp add: chunks_exact.simps)

definition record_at :: "u8 list \<Rightarrow> nat \<Rightarrow> u8 list" where
  "record_at buf i = take 40 (drop (32 + 40 * i) buf)"

lemma take_24: "take 24 xs = take 8 xs @ take 4 (drop 8 xs) @ take 4 (drop 12 xs) @ take 8 (drop 16 xs)"
proof -
  have "take 24 xs = take (8 + (4 + (4 + 8))) xs" by simp
  also have "\<dots> = take 8 xs @ take 4 (drop 8 xs) @ take 4 (drop 12 xs) @ take 8 (drop 16 xs)"
    by (simp only: take_add drop_drop) simp
  finally show ?thesis .
qed

text \<open>A header whose fields are accepted is the one that is written.\<close>

lemma header_back:
  assumes "32 \<le> length buf" and "take 8 buf = MAGIC" and "(from_le_bytes (take 4 (drop 8 buf)) :: u32) = VERSION"
    and "unat (from_le_bytes (take 4 (drop 12 buf)) :: u32) = 40"
    and "(from_le_bytes (take 8 (drop 16 buf)) :: u64) = of_nat (length evs)"
  shows "take 24 buf = take 24 (encode evs)"
proof -
  have "to_le_bytes 4 (from_le_bytes (take 4 (drop 8 buf)) :: u32) = take 4 (drop 8 buf)"
    "to_le_bytes 4 (from_le_bytes (take 4 (drop 12 buf)) :: u32) = take 4 (drop 12 buf)"
    using to_from_le [where 'a = 32, of "take 4 (drop 8 buf)"]
      to_from_le [where 'a = 32, of "take 4 (drop 12 buf)"] assms(1) by simp_all
  moreover have "to_le_bytes 8 (from_le_bytes (take 8 (drop 16 buf)) :: u64) = take 8 (drop 16 buf)"
    using assms(1) by (intro le_bytes_back) simp
  moreover have "(from_le_bytes (take 4 (drop 12 buf)) :: u32) = RECORD_SIZE_U32"
    using assms(4) by (simp add: RECORD_SIZE_U32_def word_unat_eq_iff)
  ultimately have "take 4 (drop 8 buf) = to_le_bytes 4 VERSION" "take 4 (drop 12 buf) = to_le_bytes 4 RECORD_SIZE_U32"
    "take 8 (drop 16 buf) = to_le_bytes 8 (of_nat (length evs) :: u64)"
    using assms(3,5) by metis+
  then show ?thesis by (simp only: take_24 encode_def assms(2) header_fields)
qed

lemma accepted_length:
  assumes "length buf < 2 ^ 63" and "32 \<le> length buf" and "unat count * 40 < 2 ^ 64"
    and "of_nat (length (drop 32 buf)) = count * (40 :: u64)"
  shows "length buf = 32 + 40 * unat count"
proof -
  have "unat (of_nat (length (drop 32 buf)) :: u64) = length (drop 32 buf)"
    using assms(1) by (simp add: unat_of_nat take_bit_nat_eq_self)
  moreover have "unat (count * 40) = unat count * 40"
    using assms(3) by (simp add: unat_word_ariths take_bit_nat_eq_self)
  ultimately have "length (drop 32 buf) = 40 * unat count" using assms(4) by (simp only: mult.commute)
  then show ?thesis using assms(2) by simp
qed

text \<open>
  What each error says of the buffer. The faults exclude one another: the first one, in the order of the
  checks, is the one that is named, with the offending value.
\<close>

definition version_field :: "u8 list \<Rightarrow> u32" where
  "version_field buf = from_le_bytes (take 4 (drop 8 buf))"

definition size_field :: "u8 list \<Rightarrow> u32" where
  "size_field buf = from_le_bytes (take 4 (drop 12 buf))"

definition count_field :: "u8 list \<Rightarrow> nat" where
  "count_field buf = unat (from_le_bytes (take 8 (drop 16 buf)) :: u64)"

definition good_header :: "u8 list \<Rightarrow> bool" where
  "good_header buf \<longleftrightarrow>
     32 \<le> length buf \<and> take 8 buf = MAGIC \<and> version_field buf = 1 \<and> size_field buf = 40"

fun names_fault :: "u8 list \<Rightarrow> 'io corpus_error \<Rightarrow> bool" where
  "names_fault buf (Io x) \<longleftrightarrow> False"
| "names_fault buf BadMagic \<longleftrightarrow> 32 \<le> length buf \<and> take 8 buf \<noteq> MAGIC"
| "names_fault buf (UnsupportedVersion v) \<longleftrightarrow>
     32 \<le> length buf \<and> take 8 buf = MAGIC \<and> v = version_field buf \<and> v \<noteq> 1"
| "names_fault buf (BadRecordSize n) \<longleftrightarrow>
     32 \<le> length buf \<and> take 8 buf = MAGIC \<and> version_field buf = 1 \<and> n = size_field buf \<and> n \<noteq> 40"
| "names_fault buf (Truncated expected found) \<longleftrightarrow>
     length buf < 32 \<and> expected = 32 \<and> unat found = length buf
     \<or> good_header buf \<and> length buf \<noteq> 32 + 40 * count_field buf \<and> unat found = length buf - 32
       \<and> unat expected = (if 40 * count_field buf < 2 ^ 64 then 40 * count_field buf else 2 ^ 64 - 1)"
| "names_fault buf (BadDiscriminant i field b) \<longleftrightarrow>
     good_header buf \<and> length buf = 32 + 40 * count_field buf \<and> unat i < count_field buf
     \<and> bad_record i (record_at buf (unat i)) (BadDiscriminant i field b :: 'io corpus_error)
     \<and> list_all good_record (map (record_at buf) [0..<unat i])"

lemma record_size_40: "unat (w :: u32) = 40 \<longleftrightarrow> w = 40"
  by (simp add: word_unat_eq_iff)

lemma unat_length: "length buf < 2 ^ 63 \<Longrightarrow> unat (of_nat (length buf - k) :: u64) = length buf - k"
  by (simp add: unat_of_nat take_bit_nat_eq_self)

lemma payload_fault:
  assumes "length buf < 2 ^ 63" and "good_header buf" and "length buf \<noteq> 32 + 40 * count_field buf"
  shows "\<exists>e. (from_bytes buf :: ('io, corpus) parse) = Inr (Inl e) \<and> names_fault buf e"
proof -
  let ?count = "from_le_bytes (take 8 (drop 16 buf)) :: u64" and ?n = "count_field buf"
  have long: "32 \<le> length buf" using assms(2) by (simp add: good_header_def)
  have run: "(from_bytes buf :: ('io, corpus) parse) = check_payload ?count (drop 32 buf)"
    using assms(2) from_bytes_long [where 'a = 'io, OF long]
    by (simp add: good_header_def version_field_def size_field_def VERSION_def RECORD_SIZE_def Let_def)
  have minus_one: "unat (- 1 :: u64) = 2 ^ 64 - 1" by (simp add: unsigned_minus_1_eq_mask mask_eq_exp_minus_1)
  have found: "unat (of_nat (length (drop 32 buf)) :: u64) = length buf - 32"
    using unat_length [OF assms(1), of 32] by simp
  show ?thesis
  proof (cases "40 * ?n < 2 ^ 64")
    case True
    then have mul: "checked_mul ?count RECORD_SIZE = Some (?count * 40)" "unat (?count * 40) = 40 * ?n"
      by (simp_all add: checked_mul_def RECORD_SIZE_def count_field_def unat_word_ariths take_bit_nat_eq_self mult.commute)
    have "of_nat (length (drop 32 buf)) \<noteq> ?count * 40"
    proof
      assume "of_nat (length (drop 32 buf)) = ?count * 40"
      then have "length buf - 32 = 40 * ?n" using found mul(2) by metis
      with assms(3) long show False by simp
    qed
    then have "(from_bytes buf :: ('io, corpus) parse) = Inr (Inl (Truncated (?count * 40) (of_nat (length (drop 32 buf)))))"
      by (simp only: run check_payload_def mul option.case if_True not_False_eq_True)
    moreover have "names_fault buf (Truncated (?count * 40) (of_nat (length (drop 32 buf))) :: 'io corpus_error)"
      using assms(2,3) True found mul(2) by (simp only: names_fault.simps if_True) simp
    ultimately show ?thesis by blast
  next
    case False
    then have "checked_mul ?count RECORD_SIZE = None"
      by (simp add: checked_mul_def RECORD_SIZE_def count_field_def mult.commute)
    then have "(from_bytes buf :: ('io, corpus) parse) = Inr (Inl (Truncated (- 1) (of_nat (length (drop 32 buf)))))"
      by (simp only: run check_payload_def option.case)
    moreover have "names_fault buf (Truncated (- 1) (of_nat (length (drop 32 buf))) :: 'io corpus_error)"
      using assms(2,3) False found minus_one by (simp only: names_fault.simps if_False) simp
    ultimately show ?thesis by blast
  qed
qed

text \<open>
  Property C12: every buffer is either read faithfully or refused for the right reason, and none panics.
  An accepted buffer has exactly 32 plus 40 bytes per event, the header a writer of those events
  would produce (its reserved field aside), and each record is its event's encoding. A refused buffer gets
  the error of its first fault, in the order length, magic, version, record size, payload length, records,
  with the offending value: the number found, or the index, field and byte of the first bad record.
\<close>
theorem corpus_validation:
  assumes "length buf < 2 ^ 63"
  shows "case (from_bytes buf :: ('io, corpus) parse) of
      Inl _ \<Rightarrow> False
    | Inr (Inl e) \<Rightarrow> names_fault buf e
    | Inr (Inr c) \<Rightarrow> length buf = 32 + 40 * length (cp_events c)
        \<and> take 24 buf = take 24 (encode (cp_events c))
        \<and> list_all2 record_reads (map (record_at buf) [0..<length (cp_events c)]) (cp_events c)"
proof -
  consider (short) "length buf < 32"
    | (header) "32 \<le> length buf" "\<not> good_header buf"
    | (payload) "good_header buf" "length buf \<noteq> 32 + 40 * count_field buf"
    | (records) "good_header buf" "length buf = 32 + 40 * count_field buf" by force
  then show ?thesis
  proof cases
    case short
    then show ?thesis by (simp add: from_bytes_def HEADER_SIZE_def unat_of_nat take_bit_nat_eq_self)
  next
    case header
    note run = from_bytes_long [where 'a = 'io, OF header(1), unfolded Let_def]
    consider "take 8 buf \<noteq> MAGIC" | "take 8 buf = MAGIC" "version_field buf \<noteq> 1"
      | "take 8 buf = MAGIC" "version_field buf = 1" "size_field buf \<noteq> 40"
      using header by (auto simp: good_header_def)
    then show ?thesis
      using header(1) by cases (simp_all add: run version_field_def size_field_def VERSION_def RECORD_SIZE_def record_size_40)
  next
    case payload
    from payload_fault [OF assms this, where 'io = 'io] show ?thesis by auto
  next
    case records
    define n where "n = count_field buf"
    have len: "length buf = 32 + 40 * n" using records(2) by (simp add: n_def)
    then have long: "32 \<le> length buf" by simp
    let ?count = "from_le_bytes (take 8 (drop 16 buf)) :: u64"
    have n: "unat ?count = n" by (simp add: n_def count_field_def)
    let ?recs = "map (record_at buf) [0..<n]"
    have recs: "chunks_exact RECORD_SIZE (drop 32 buf) = ?recs"
      using chunks_exact_nth [of 40 "drop 32 buf" n] len
      by (simp add: RECORD_SIZE_def record_at_def comp_def add.commute)
    have each: "\<forall>rec \<in> set ?recs. length rec = 40"
      using len by (auto simp: record_at_def)
    have fits: "unat ?count * 40 < 2 ^ 64" using assms len n by simp
    have "of_nat (length (drop 32 buf)) = ?count * 40"
      using fits n len by (simp add: word_unat_eq_iff unat_word_ariths unat_of_nat take_bit_nat_eq_self)
    then have run: "(from_bytes buf :: ('io, corpus) parse) =
        parse_bind (parse_records 0 ?recs) (\<lambda>evs. Inr (Inr \<lparr>cp_events = evs\<rparr>))"
      using records(1) fits from_bytes_long [where 'a = 'io, OF long] unfolding check_payload_def checked_mul_def recs
      by (simp add: RECORD_SIZE_def good_header_def version_field_def size_field_def VERSION_def Let_def)
    note spec = parse_records_spec [where 'io = 'io, OF each, of 0]
    show ?thesis
    proof (cases "parse_records 0 ?recs :: ('io, book_event list) parse")
      case (Inl e)
      then show ?thesis using spec by simp
    next
      case (Inr r)
      show ?thesis
      proof (cases r)
        case (Inl e)
        then obtain j where j: "j < n" "bad_record (of_nat j) (record_at buf j) e"
            "list_all good_record (map (record_at buf) [0..<j])"
          using spec \<open>parse_records _ _ = Inr r\<close> by (auto simp: take_map)
        have u: "unat (of_nat j :: u64) = j"
          using len assms j(1) by (simp add: unat_of_nat take_bit_nat_eq_self)
        have "names_fault buf e"
          using j records n_def u by (auto simp: bad_record_def)
        then show ?thesis using \<open>parse_records _ _ = Inr r\<close> Inl by (simp add: run)
      next
        case (Inr evs)
        then have all: "list_all2 record_reads ?recs evs"
          using spec \<open>parse_records _ _ = Inr r\<close> by simp
        then have n': "n = length evs" using list_all2_lengthD by fastforce
        have "take 24 buf = take 24 (encode evs)"
        proof (rule header_back [OF long])
          show "take 8 buf = MAGIC" "(from_le_bytes (take 4 (drop 8 buf)) :: u32) = VERSION"
            "unat (from_le_bytes (take 4 (drop 12 buf)) :: u32) = 40"
            using records(1) by (simp_all add: good_header_def version_field_def size_field_def VERSION_def)
          show "?count = of_nat (length evs)" using arg_cong [OF n, of "of_nat :: nat \<Rightarrow> u64"] n' by simp
        qed
        then show ?thesis
          using len n' all \<open>parse_records _ _ = Inr r\<close> Inr by (simp add: run)
      qed
    qed
  qed
qed

text \<open>A corpus is accepted; with the version byte of its header changed, it is refused as version 9.\<close>

theorem corpus_validation_witness:
  "list_all2 record_reads (map (record_at (encode [ev_clear 0 7])) [0..<1]) [ev_clear 0 7]
   \<and> names_fault ((encode [ev_clear 0 7])[8 := 9]) (UnsupportedVersion 9 :: unit corpus_error)"
proof
  have "(from_bytes (encode [ev_clear 0 7]) :: (unit, corpus) parse) = Inr (Inr \<lparr>cp_events = [ev_clear 0 7]\<rparr>)"
    by (subst from_bytes_encode) (simp_all add: canon_def ev_defs)
  then show "list_all2 record_reads (map (record_at (encode [ev_clear 0 7])) [0..<1]) [ev_clear 0 7]"
    using corpus_validation [where 'io = unit, of "encode [ev_clear 0 7]"] by (simp add: length_encode)
  have "(from_bytes ((encode [ev_clear 0 7])[8 := 9]) :: (unit, corpus) parse) = Inr (Inl (UnsupportedVersion 9))"
    by (subst from_bytes_long) (simp_all add: length_encode encode_def header_bytes_def MAGIC_def VERSION_def
        to_le_bytes_def upt_rec Let_def)
  then show "names_fault ((encode [ev_clear 0 7])[8 := 9]) (UnsupportedVersion 9 :: unit corpus_error)"
    using corpus_validation [where 'io = unit, of "(encode [ev_clear 0 7])[8 := 9]"] by (simp add: length_encode)
qed

subsection \<open>The type of a loaded corpus\<close>

lemma parse_bind_Some: "parse_bind m f = Inr (Inr b) \<longleftrightarrow> (\<exists>a. m = Inr (Inr a) \<and> f a = Inr (Inr b))"
  by (cases "(m, f)" rule: parse_bind.cases) auto

lemma res_bind_Some: "res_bind m f = Inr b \<longleftrightarrow> (\<exists>a. m = Inr a \<and> f a = Inr b)"
  by (cases m) auto

lemma event_from_parts_canon: "canon (event_from_parts n t s p q k) = event_from_parts n t s p q k"
  by (cases k) (simp_all add: canon_def ev_defs)

lemma parse_records_canon:
  "(parse_records i recs :: ('io, book_event list) parse) = Inr (Inr evs) \<Longrightarrow> map canon evs = evs \<and> length evs = length recs"
proof (induction recs arbitrary: i evs)
  case (Cons rec recs)
  then obtain ev evs' where ev: "(parse_record i rec :: ('io, book_event) parse) = Inr (Inr ev)"
      "(parse_records (i + 1) recs :: ('io, book_event list) parse) = Inr (Inr evs')" "evs = ev # evs'"
    by (auto simp: parse_bind_Some)
  have "canon ev = ev"
    using ev(1) by (auto simp: parse_record_def res_bind_Some parse_bind_Some event_from_parts_canon)
  with Cons.IH [OF ev(2)] ev(3) show ?case by simp
qed simp

lemma check_payload_Some:
  assumes "(check_payload n pl :: ('io, corpus) parse) = Inr (Inr c)"
  shows "unat n * RECORD_SIZE < 2 ^ 64" and "of_nat (length pl) = n * of_nat RECORD_SIZE"
    and "(parse_records 0 (chunks_exact RECORD_SIZE pl) :: ('io, book_event list) parse) = Inr (Inr (cp_events c))"
proof -
  obtain e where e: "checked_mul n RECORD_SIZE = Some e"
    using assms by (cases "checked_mul n RECORD_SIZE") (simp_all add: check_payload_def)
  then show "unat n * RECORD_SIZE < 2 ^ 64" by (metis checked_mul_def option.distinct(1))
  have mul: "e = n * of_nat RECORD_SIZE" using e by (simp only: checked_mul_def option.inject split: if_splits) simp
  show len: "of_nat (length pl) = n * of_nat RECORD_SIZE"
    using assms by (simp only: check_payload_def e option.case mul sum.inject sum.distinct split: if_splits)
  show "(parse_records 0 (chunks_exact RECORD_SIZE pl) :: ('io, book_event list) parse) = Inr (Inr (cp_events c))"
    using assms len by (simp only: check_payload_def e option.case mul simp_thms if_False parse_bind_Some sum.inject) auto
qed

lemma accepted:
  assumes "(from_bytes buf :: ('io, corpus) parse) = Inr (Inr c)" and "length buf < 2 ^ 63"
  shows "map canon (cp_events c) = cp_events c" and "length buf = 32 + 40 * length (cp_events c)"
proof -
  have long: "32 \<le> length buf" using assms(1) by (auto simp: from_bytes_def HEADER_SIZE_def split: if_splits)
  let ?n = "from_le_bytes (take 8 (drop 16 buf)) :: u64"
  from assms(1) have "(check_payload ?n (drop 32 buf) :: ('io, corpus) parse) = Inr (Inr c)"
    unfolding from_bytes_long [OF long] by (simp add: Let_def split: if_splits)
  note ok = check_payload_Some [OF this, unfolded RECORD_SIZE_def]
  have len: "length buf = 32 + 40 * unat ?n" by (rule accepted_length [OF assms(2) long ok(1)]) (use ok(2) in simp)
  have "chunks_exact 40 (drop 32 buf) = map (\<lambda>i. take 40 (drop (40 * i) (drop 32 buf))) [0..<unat ?n]"
    by (rule chunks_exact_nth [OF zero_less_numeral]) (simp only: length_drop len add_diff_cancel_left')
  then have chunks: "length (chunks_exact 40 (drop 32 buf)) = unat ?n" by (simp only: length_map length_upt diff_zero)
  note canonical = parse_records_canon [OF ok(3)]
  show "map canon (cp_events c) = cp_events c" by (rule conjunct1 [OF canonical])
  show "length buf = 32 + 40 * length (cp_events c)"
    unfolding conjunct2 [OF canonical, unfolded chunks] by (rule len)
qed

text \<open>
  Property C23: loading types a corpus. Every event of a corpus that loads is in canonical form (a \<open>Clear\<close>
  carries no payload), and the corpus is a value of the format: writing its events gives a file of the same
  length that loads to the very same corpus, whatever padding, reserved bytes and payloads the first file had.
\<close>
theorem loaded_corpus_typed:
  assumes "(from_bytes buf :: ('io, corpus) parse) = Inr (Inr c)" and "length buf < 2 ^ 63"
  shows "(\<forall>ev \<in> set (cp_events c). ev_kind ev = Clear \<longrightarrow> ev = ev_clear (ev_seq ev) (ev_ts ev))
    \<and> (\<exists>buf'. write_to vec_write [] (cp_events c) = Inr buf' \<and> length buf' = length buf
      \<and> (from_bytes buf' :: ('io, corpus) parse) = Inr (Inr c))"
proof -
  note facts = accepted [OF assms]
  have "canon ev = ev" if "ev \<in> set (cp_events c)" for ev
    using facts(1) that by (metis in_set_conv_nth length_map nth_map)
  then have "\<forall>ev \<in> set (cp_events c). ev_kind ev = Clear \<longrightarrow> ev = ev_clear (ev_seq ev) (ev_ts ev)"
    unfolding canon_def by metis
  moreover have "(from_bytes (encode (cp_events c)) :: ('io, corpus) parse) = Inr (Inr c)"
    using facts assms(2) by (subst from_bytes_encode) simp_all
  ultimately show ?thesis using facts(2) by (simp add: write_to_vec length_encode)
qed

theorem loaded_corpus_typed_witness:
  "\<exists>buf'. write_to vec_write [] [ev_clear 0 7, ev_level 1 8 Ask (Px (- 7)) (Qty 9)] = Inr buf'
    \<and> length buf' = length (encode [(ev_clear 0 7)\<lparr>ev_px := Px 99\<rparr>, ev_level 1 8 Ask (Px (- 7)) (Qty 9)])
    \<and> (from_bytes buf' :: (unit, corpus) parse) = Inr (Inr \<lparr>cp_events = [ev_clear 0 7, ev_level 1 8 Ask (Px (- 7)) (Qty 9)]\<rparr>)"
  using loaded_corpus_typed [where 'io = unit, of "encode [(ev_clear 0 7)\<lparr>ev_px := Px 99\<rparr>, ev_level 1 8 Ask (Px (- 7)) (Qty 9)]"
      "\<lparr>cp_events = [ev_clear 0 7, ev_level 1 8 Ask (Px (- 7)) (Qty 9)]\<rparr>"]
  by (simp add: from_bytes_encode canon_def ev_defs length_encode)

end
