(* ===== verification/Synthetic.thy ===== *)
theory Synthetic
  imports BTree_Book Rng "HOL-Library.Signed_Division"
begin

unbundle bit_operations_syntax

section \<open>The synthetic load generator (feed/src/synthetic.rs)\<close>

text \<open>
  \<open>sim\<close> is \<open>struct Sim\<close>; \<open>'a gen\<close> is a method on \<open>&mut self\<close>: it threads the state and may panic (only a
  draw below zero could). The two price maps are ladders in key order. The loops over \<open>0..n\<close> carry
  their count, the \<open>while\<close> loops their termination proof; the outer loop of \<open>generate\<close> is a partial
  function, and that it returns is part of the first property. Integer arithmetic wraps.
\<close>

definition GENERATOR_VERSION :: u32 where "GENERATOR_VERSION = 1"
definition STEADY_DEPTH :: i64 where "STEADY_DEPTH = 8"
definition STEADY_DT :: u64 where "STEADY_DT = 1000"
definition STEADY_JITTER :: u64 where "STEADY_JITTER = 250"
definition TRADE_PCT :: u64 where "TRADE_PCT = 5"
definition CHURN_PCT :: u64 where "CHURN_PCT = 1"
definition CALM_DT :: u64 where "CALM_DT = 50000"

datatype profile = Steady | Burst | FlashCrash

record gen_config =
  gc_profile :: profile
  gc_seed :: u64
  gc_events :: nat
  gc_mid :: px
  gc_band :: i64
  gc_max_qty :: qty
  gc_start_ts :: u64

record sim =
  sm_rng :: splitmix
  sm_seq :: u64
  sm_ts :: u64
  sm_mid :: i64
  sm_band :: i64
  sm_max_qty :: i64
  sm_bids :: "level list"
  sm_asks :: "level list"
  sm_out :: "book_event list"
  sm_target :: nat

definition sim_new :: "gen_config \<Rightarrow> sim" where
  "sim_new cfg =
     \<lparr>sm_rng = splitmix_new (gc_seed cfg), sm_seq = 0, sm_ts = gc_start_ts cfg,
      sm_mid = ticks (gc_mid cfg), sm_band = gc_band cfg, sm_max_qty = lots (gc_max_qty cfg),
      sm_bids = [], sm_asks = [], sm_out = [], sm_target = gc_events cfg\<rparr>"

definition full :: "sim \<Rightarrow> bool" where
  "full s \<longleftrightarrow> sm_target s \<le> length (sm_out s)"

definition sim_best_bid :: "sim \<Rightarrow> i64 option" where
  "sim_best_bid s = (if sm_bids s = [] then None else Some (ticks (fst (last (sm_bids s)))))"

definition sim_best_ask :: "sim \<Rightarrow> i64 option" where
  "sim_best_ask s = (case sm_asks s of [] \<Rightarrow> None | l # _ \<Rightarrow> Some (ticks (fst l)))"

subsection \<open>Emitters\<close>

definition push_event :: "book_event \<Rightarrow> sim \<Rightarrow> sim" where
  "push_event ev s = s\<lparr>sm_out := sm_out s @ [ev], sm_seq := sm_seq s + 1\<rparr>"

definition sim_level :: "side \<Rightarrow> i64 \<Rightarrow> i64 \<Rightarrow> sim \<Rightarrow> sim" where
  "sim_level sd p q s =
     (if full s then s
      else
        let upd = (if q = 0 then btm_remove (Px p) else btm_insert (Px p) (Qty q));
            s' = (case sd of Bid \<Rightarrow> s\<lparr>sm_bids := upd (sm_bids s)\<rparr> | Ask \<Rightarrow> s\<lparr>sm_asks := upd (sm_asks s)\<rparr>)
        in push_event (ev_level (sm_seq s) (sm_ts s) sd (Px p) (Qty q)) s')"

definition sim_trade :: "side \<Rightarrow> i64 \<Rightarrow> i64 \<Rightarrow> sim \<Rightarrow> sim" where
  "sim_trade aggressor p q s =
     (if full s then s
      else push_event (ev_trade (sm_seq s) (sm_ts s) aggressor (Px p) (Qty q)) s)"

definition sim_clear :: "sim \<Rightarrow> sim" where
  "sim_clear s =
     (if full s then s
      else push_event (ev_clear (sm_seq s) (sm_ts s)) (s\<lparr>sm_bids := [], sm_asks := []\<rparr>))"

subsection \<open>Methods and draws\<close>

type_synonym 'a gen = "sim \<Rightarrow> ('a \<times> sim) res"

definition gen_return :: "'a \<Rightarrow> 'a gen" where
  "gen_return a s = Inr (a, s)"

definition gen_bind :: "'a gen \<Rightarrow> ('a \<Rightarrow> 'b gen) \<Rightarrow> 'b gen" where
  "gen_bind m f s = res_bind (m s) (\<lambda>(a, s'). f a s')"

definition gen_do :: "(sim \<Rightarrow> sim) \<Rightarrow> unit gen" where
  "gen_do f s = Inr ((), f s)"

definition gen_get :: "(sim \<Rightarrow> 'a) \<Rightarrow> 'a gen" where
  "gen_get f s = Inr (f s, s)"

definition draw :: "u64 \<Rightarrow> u64 gen" where
  "draw n s = res_map (\<lambda>(x, r). (x, s\<lparr>sm_rng := r\<rparr>)) (below n (sm_rng s))"

definition roll_i64 :: "i64 \<Rightarrow> i64 gen" where
  "roll_i64 n =
     (if i64_lt n 0 then gen_return 0
      else if n = 0 then gen_return 0
      else gen_bind (draw n) (\<lambda>x. gen_return (if i64_le 0 x then x else 0)))"

definition sim_rand_qty :: "i64 gen" where
  "sim_rand_qty =
     gen_bind (gen_get sm_max_qty) (\<lambda>m.
     gen_bind (roll_i64 (i64_max m 1)) (\<lambda>x. gen_return (1 + x)))"

function geo_loop :: "i64 \<Rightarrow> i64 \<Rightarrow> i64 gen" where
  "geo_loop cap off s =
     (if i64_lt off cap
      then res_bind (draw 2 s) (\<lambda>(x, s'). if x = 0 then geo_loop cap (off + 1) s' else Inr (off, s'))
      else Inr (off, s))"
  by pat_completeness auto
termination
proof (relation "measure (\<lambda>(cap, off, s). nat (sint cap - sint off))")
  fix cap off :: i64 and s :: sim and z :: "u64 \<times> sim" and x s'
  assume "i64_lt off cap"
  then have lt: "sint off < sint cap" by (simp add: i64_lt_def)
  then have "sint (off + 1) = sint off + 1"
    using sint_add_i64 [of off 1] sint_i64_bounds [of off] sint_i64_bounds [of cap] by simp
  with lt show "((cap, off + 1, s'), cap, off, s) \<in> measure (\<lambda>(cap, off, s). nat (sint cap - sint off))"
    by simp
qed simp

definition geo_offset :: "i64 \<Rightarrow> i64 gen" where
  "geo_offset cap = geo_loop cap 1"

text \<open>\<open>u32::try_from(offset - 1).unwrap_or(0).min(6)\<close>, then an arithmetic shift.\<close>

definition decay_qty :: "i64 \<Rightarrow> i64 \<Rightarrow> i64" where
  "decay_qty max_qty offset =
     (let d = sint (offset - 1);
          shift = (if 0 \<le> d \<and> d < 2 ^ 32 then min (nat d) 6 else 0)
      in i64_max (signed_drop_bit shift max_qty) 1)"

definition advance :: "u64 \<Rightarrow> sim \<Rightarrow> sim" where
  "advance d s = s\<lparr>sm_ts := sm_ts s + d\<rparr>"

definition advance_steady :: "unit gen" where
  "advance_steady = gen_bind (draw STEADY_JITTER) (\<lambda>x. gen_do (advance (STEADY_DT + x)))"

subsection \<open>Setup\<close>

lemma length_out_level:
  "length (sm_out (sim_level sd p q s)) = (if full s then length (sm_out s) else Suc (length (sm_out s)))"
  "sm_target (sim_level sd p q s) = sm_target s"
  by (auto simp: sim_level_def push_event_def Let_def split: side.split)

function seed_loop :: "i64 \<Rightarrow> sim \<Rightarrow> sim" where
  "seed_loop off s =
     (if i64_le off (sm_band s)
      then if full s then s
        else
          let q = decay_qty (sm_max_qty s) off
          in seed_loop (off + 1)
               (sim_level Ask (sm_mid s + off) q (sim_level Bid (sm_mid s - off) q s))
      else s)"
  by pat_completeness auto
termination
  by (relation "measure (\<lambda>(off, s). sm_target s - length (sm_out s))")
    (auto simp: length_out_level full_def)

definition seed :: "sim \<Rightarrow> sim" where
  "seed s = seed_loop 1 (sim_clear s)"

subsection \<open>Steady flow\<close>

definition sim_rand_side :: "side gen" where
  "sim_rand_side = gen_bind (draw 2) (\<lambda>x. gen_return (if x = 0 then Bid else Ask))"

fun px_at :: "sim \<Rightarrow> side \<Rightarrow> i64 \<Rightarrow> i64" where
  "px_at s Bid off = sm_mid s - off"
| "px_at s Ask off = sm_mid s + off"

definition try_trade :: "bool gen" where
  "try_trade =
     gen_bind (draw 2) (\<lambda>c.
       if c = 0 then
         gen_bind (gen_get sim_best_bid) (\<lambda>b. case b of
             Some bb \<Rightarrow> gen_bind sim_rand_qty (\<lambda>q.
               gen_bind (gen_do (sim_trade Ask bb q)) (\<lambda>_. gen_return True))
           | None \<Rightarrow> gen_return False)
       else
         gen_bind (gen_get sim_best_ask) (\<lambda>a. case a of
             Some ba \<Rightarrow> gen_bind sim_rand_qty (\<lambda>q.
               gen_bind (gen_do (sim_trade Bid ba q)) (\<lambda>_. gen_return True))
           | None \<Rightarrow> gen_return False))"

definition level_update :: "unit gen" where
  "level_update =
     gen_bind sim_rand_side (\<lambda>sd.
     gen_bind (gen_get (\<lambda>s. i64_min STEADY_DEPTH (i64_max (sm_band s) 1))) (\<lambda>cap.
     gen_bind (geo_offset cap) (\<lambda>off.
     gen_bind (gen_get (\<lambda>s. px_at s sd off)) (\<lambda>p.
     gen_bind (draw 10) (\<lambda>x.
     gen_bind (if x = 0 then gen_return 0 else sim_rand_qty) (\<lambda>q.
       gen_do (sim_level sd p q)))))))"

definition edge_churn :: "unit gen" where
  "edge_churn =
     gen_bind sim_rand_side (\<lambda>sd.
     gen_bind (gen_get sm_band) (\<lambda>band.
     gen_bind (roll_i64 (band - STEADY_DEPTH)) (\<lambda>x.
     gen_bind (gen_get (\<lambda>s. px_at s sd (STEADY_DEPTH + 1 + x))) (\<lambda>p.
     gen_bind (draw 2) (\<lambda>c.
       if c = 0 then gen_bind sim_rand_qty (\<lambda>q. gen_do (sim_level sd p q))
       else gen_do (sim_level sd p 0))))))"

definition steady_event :: "unit gen" where
  "steady_event =
     gen_bind (draw 100) (\<lambda>r.
     gen_bind (if r < TRADE_PCT then try_trade else gen_return False) (\<lambda>traded.
       if traded then gen_return ()
       else if r < TRADE_PCT + CHURN_PCT then edge_churn
       else level_update))"

subsection \<open>Burst and flash-crash flow\<close>

text \<open>
  A \<open>for _ in 0..n\<close> loop whose body starts with \<open>if self.full() { return; }\<close>. The result says
  whether it returned from the method (\<open>True\<close>) or ran through (\<open>False\<close>).
\<close>

primrec for_loop :: "nat \<Rightarrow> unit gen \<Rightarrow> bool gen" where
  "for_loop 0 body = gen_return False"
| "for_loop (Suc n) body =
     gen_bind (gen_get full) (\<lambda>f.
       if f then gen_return True else gen_bind body (\<lambda>_. for_loop n body))"

definition burst_cycle :: "unit gen" where
  "burst_cycle =
     gen_bind (draw 40) (\<lambda>c.
     gen_bind (for_loop (unat (20 + c))
       (gen_bind steady_event (\<lambda>_.
        gen_bind (draw CALM_DT) (\<lambda>x. gen_do (advance (CALM_DT + x)))))) (\<lambda>returned.
       if returned then gen_return ()
       else
         gen_bind (draw 120) (\<lambda>b.
         gen_bind (for_loop (unat (200 + b))
           (gen_bind steady_event (\<lambda>_. gen_bind (draw 2) (\<lambda>x. gen_do (advance x))))) (\<lambda>_.
           gen_return ()))))"

text \<open>The cascade: \<open>break\<close> on an empty bid side, \<open>return\<close> when full.\<close>

primrec sweep_loop :: "nat \<Rightarrow> bool gen" where
  "sweep_loop 0 = gen_return False"
| "sweep_loop (Suc n) =
     gen_bind (gen_get full) (\<lambda>f.
       if f then gen_return True
       else
         gen_bind (gen_get sim_best_bid) (\<lambda>b. case b of
             None \<Rightarrow> gen_return False
           | Some bb \<Rightarrow>
               gen_bind (gen_get (\<lambda>s. case map_of (sm_bids s) (Px bb) of None \<Rightarrow> 1 | Some q \<Rightarrow> lots q)) (\<lambda>q.
               gen_bind (gen_do (sim_trade Ask bb q)) (\<lambda>_.
               gen_bind (gen_do (sim_level Bid bb 0)) (\<lambda>_.
               gen_bind (draw 3) (\<lambda>x.
               gen_bind (gen_do (advance x)) (\<lambda>_. sweep_loop n)))))))"

text \<open>\<open>while k <= recover\<close>, counted by its \<open>recover\<close> iterations.\<close>

primrec recover_loop :: "nat \<Rightarrow> i64 \<Rightarrow> unit gen" where
  "recover_loop 0 k = gen_return ()"
| "recover_loop (Suc n) k =
     gen_bind (gen_get full) (\<lambda>f.
       if f then gen_return ()
       else
         gen_bind sim_rand_qty (\<lambda>q.
         gen_bind (gen_get sm_mid) (\<lambda>mid.
         gen_bind (gen_do (sim_level Bid (mid - k) q)) (\<lambda>_.
         gen_bind advance_steady (\<lambda>_. recover_loop n (k + 1))))))"

definition sweep_of :: "i64 \<Rightarrow> i64" where
  "sweep_of band = i64_max (of_int (sint (band * 3) sdiv 4)) 20"

definition recover_of :: "i64 \<Rightarrow> i64" where
  "recover_of sweep = i64_max (of_int (sint sweep sdiv 2)) 1"

definition crash_cycle :: "unit gen" where
  "crash_cycle =
     gen_bind (draw 200) (\<lambda>c.
     gen_bind (for_loop (unat (200 + c)) (gen_bind steady_event (\<lambda>_. advance_steady))) (\<lambda>returned.
       if returned then gen_return ()
       else
         gen_bind (gen_get (\<lambda>s. sweep_of (sm_band s))) (\<lambda>sweep.
         gen_bind (sweep_loop (nat (sint sweep))) (\<lambda>returned.
           if returned then gen_return ()
           else recover_loop (nat (sint (recover_of sweep))) 1))))"

definition flow_step :: "profile \<Rightarrow> unit gen" where
  "flow_step pr =
     (case pr of
        Steady \<Rightarrow> gen_bind steady_event (\<lambda>_. advance_steady)
      | Burst \<Rightarrow> burst_cycle
      | FlashCrash \<Rightarrow> crash_cycle)"

partial_function (option) flow_loop :: "profile \<Rightarrow> sim \<Rightarrow> sim outcome" where
  "flow_loop pr s =
     (if full s then Some (Inr s)
      else case flow_step pr s of
          Inl e \<Rightarrow> Some (Inl e)
        | Inr (u, s') \<Rightarrow> flow_loop pr s')"

definition generate :: "gen_config \<Rightarrow> book_event list outcome" where
  "generate cfg =
     out_bind (flow_loop (gc_profile cfg) (seed (sim_new cfg))) (\<lambda>s. Some (Inr (sm_out s)))"

end
