(* ===== verification/Synthetic_Laws.thy ===== *)
theory Synthetic_Laws
  imports Synthetic
begin

section \<open>What the generator emits\<close>

text \<open>
  The invariant \<open>sim_inv\<close> ties the simulator's two ladders to the book replayed from its own output and
  bounds what it has emitted; \<open>triple\<close> is the total Hoare triple of a method (it returns, without a
  panic) with one rule per combinator. The price bounds hold for configurations in \<open>cfg_ok\<close> (no
  64-bit overflow around the mid), the time bounds while the clock cannot wrap (\<open>ts_ok\<close>); the counts
  and the order hold for every configuration.
\<close>

subsection \<open>Streams\<close>

definition width :: "gen_config \<Rightarrow> int" where
  "width cfg = max (sint (gc_band cfg)) 10"

definition cfg_ok :: "gen_config \<Rightarrow> bool" where
  "cfg_ok cfg \<longleftrightarrow>
     - (2 ^ 61) \<le> sint (gc_band cfg) \<and> sint (gc_band cfg) < 2 ^ 61
     \<and> - (2 ^ 63) \<le> sint (ticks (gc_mid cfg)) - width cfg
     \<and> sint (ticks (gc_mid cfg)) + width cfg < 2 ^ 63"

definition ts_ok :: "gen_config \<Rightarrow> bool" where
  "ts_ok cfg \<longleftrightarrow> unat (gc_start_ts cfg) + 100000 * gc_events cfg < 2 ^ 64"

definition px_near :: "gen_config \<Rightarrow> px \<Rightarrow> bool" where
  "px_near cfg p \<longleftrightarrow> (cfg_ok cfg \<longrightarrow> \<bar>sint (ticks p) - sint (ticks (gc_mid cfg))\<bar> \<le> width cfg)"

definition qty_fine :: "gen_config \<Rightarrow> qty \<Rightarrow> bool" where
  "qty_fine cfg q \<longleftrightarrow> 0 < sint (lots q) \<and> sint (lots q) \<le> max (sint (lots (gc_max_qty cfg))) 1"

definition ev_fine :: "gen_config \<Rightarrow> book_event \<Rightarrow> bool" where
  "ev_fine cfg ev \<longleftrightarrow>
     (case ev_kind ev of
        Level \<Rightarrow> px_near cfg (ev_px ev) \<and> (ev_qty ev = qty_zero \<or> qty_fine cfg (ev_qty ev))
      | Trade \<Rightarrow> px_near cfg (ev_px ev) \<and> qty_fine cfg (ev_qty ev)
      | Clear \<Rightarrow> ev = ev_clear (ev_seq ev) (ev_ts ev))"

text \<open>A trade prints at the touch of the side it hits.\<close>

definition at_touch :: "spec_book \<Rightarrow> book_event \<Rightarrow> bool" where
  "at_touch b ev \<longleftrightarrow>
     (ev_kind ev = Trade \<longrightarrow>
        map_option fst (case ev_side ev of Ask \<Rightarrow> spec_best_bid b | Bid \<Rightarrow> spec_best_ask b) = Some (ev_px ev))"

definition stream_ok :: "gen_config \<Rightarrow> book_event list \<Rightarrow> bool" where
  "stream_ok cfg evs \<longleftrightarrow>
     (\<forall>i < length evs. ev_seq (evs ! i) = of_nat i \<and> ev_fine cfg (evs ! i)
        \<and> at_touch (spec_run (take i evs)) (evs ! i))"

lemma stream_ok_Nil: "stream_ok cfg []"
  by (simp add: stream_ok_def)

lemma stream_ok_snoc:
  assumes "stream_ok cfg evs" and "ev_seq ev = of_nat (length evs)" and "ev_fine cfg ev"
    and "at_touch (spec_run evs) ev"
  shows "stream_ok cfg (evs @ [ev])"
  using assms by (auto simp: stream_ok_def nth_append less_Suc_eq)

subsection \<open>The invariant\<close>

definition side_fine :: "gen_config \<Rightarrow> level list \<Rightarrow> ladder \<Rightarrow> bool" where
  "side_fine cfg v m \<longleftrightarrow>
     ladder_ok v \<and> map_of v = m \<and> (\<forall>l \<in> set v. px_near cfg (fst l) \<and> qty_fine cfg (snd l))"

text \<open>\<open>k\<close>: how many events have been emitted since time last advanced, at least.\<close>

definition clock_inv :: "gen_config \<Rightarrow> nat \<Rightarrow> sim \<Rightarrow> bool" where
  "clock_inv cfg k s \<longleftrightarrow>
     (ts_ok cfg \<longrightarrow>
        unat (sm_ts s) + 100000 * k \<le> unat (gc_start_ts cfg) + 100000 * length (sm_out s)
        \<and> sorted (map (\<lambda>ev. unat (ev_ts ev)) (sm_out s))
        \<and> (\<forall>ev \<in> set (sm_out s). unat (ev_ts ev) \<le> unat (sm_ts s)))"

definition sim_inv :: "gen_config \<Rightarrow> nat \<Rightarrow> sim \<Rightarrow> bool" where
  "sim_inv cfg k s \<longleftrightarrow>
     sm_mid s = ticks (gc_mid cfg) \<and> sm_band s = gc_band cfg \<and> sm_max_qty s = lots (gc_max_qty cfg)
     \<and> sm_target s = gc_events cfg \<and> length (sm_out s) \<le> gc_events cfg
     \<and> sm_seq s = of_nat (length (sm_out s)) \<and> stream_ok cfg (sm_out s)
     \<and> side_fine cfg (sm_bids s) (sp_bids (spec_run (sm_out s)))
     \<and> side_fine cfg (sm_asks s) (sp_asks (spec_run (sm_out s)))
     \<and> clock_inv cfg k s
     \<and> (sm_out s \<noteq> [] \<longrightarrow> hd (sm_out s) = ev_clear 0 (gc_start_ts cfg))"

lemma sim_inv_new: "sim_inv cfg 0 (sim_new cfg)"
  by (simp add: sim_inv_def sim_new_def stream_ok_Nil side_fine_def ladder_ok_def spec_run_def
      spec_empty_def clock_inv_def)

lemma sim_inv_rng: "sim_inv cfg k s \<Longrightarrow> sim_inv cfg k (s\<lparr>sm_rng := r\<rparr>)"
  by (simp add: sim_inv_def clock_inv_def)

lemma sim_inv_weaken: "sim_inv cfg k s \<Longrightarrow> j \<le> k \<Longrightarrow> sim_inv cfg j s"
  by (force simp: sim_inv_def clock_inv_def)

lemma sim_inv_advance:
  assumes "sim_inv cfg (Suc k) s" and "unat d < 100000"
  shows "sim_inv cfg k (advance d s)"
proof -
  have "clock_inv cfg k (advance d s)"
    unfolding clock_inv_def
  proof
    assume ok: "ts_ok cfg"
    then have "unat (sm_ts s) + 100000 * Suc k \<le> unat (gc_start_ts cfg) + 100000 * length (sm_out s)"
      "length (sm_out s) \<le> gc_events cfg"
      using assms(1) by (simp_all add: sim_inv_def clock_inv_def)
    moreover from this have "unat (sm_ts s + d) = unat (sm_ts s) + unat d"
      using ok assms(2) by (intro unat_plus_simple [THEN iffD1] ) (simp add: ts_ok_def no_olen_add_nat)
    ultimately show "unat (sm_ts (advance d s)) + 100000 * k
        \<le> unat (gc_start_ts cfg) + 100000 * length (sm_out (advance d s))
      \<and> sorted (map (\<lambda>ev. unat (ev_ts ev)) (sm_out (advance d s)))
      \<and> (\<forall>ev \<in> set (sm_out (advance d s)). unat (ev_ts ev) \<le> unat (sm_ts (advance d s)))"
      using assms ok by (auto simp: sim_inv_def clock_inv_def advance_def intro: le_trans)
  qed
  then show ?thesis using assms(1) by (simp add: sim_inv_def advance_def)
qed

text \<open>Pushing one event: what it must satisfy, and the ladders it must leave.\<close>

lemma sim_inv_push:
  assumes inv: "sim_inv cfg k s" and room: "\<not> full s"
    and ev: "ev_seq ev = sm_seq s" "ev_ts ev = sm_ts s" "ev_fine cfg ev" "at_touch (spec_run (sm_out s)) ev"
    and s': "s' = s\<lparr>sm_bids := bids, sm_asks := asks\<rparr>"
    and first: "sm_out s \<noteq> [] \<or> ev = ev_clear 0 (gc_start_ts cfg)"
    and bids: "side_fine cfg bids (sp_bids (spec_apply (spec_run (sm_out s)) ev))"
    and asks: "side_fine cfg asks (sp_asks (spec_apply (spec_run (sm_out s)) ev))"
  shows "sim_inv cfg (Suc k) (push_event ev s')"
    and "length (sm_out (push_event ev s')) = Suc (length (sm_out s))"
proof -
  have "clock_inv cfg (Suc k) (push_event ev s')"
    using inv ev(2) by (auto simp: s' sim_inv_def clock_inv_def push_event_def sorted_append)
  moreover have "stream_ok cfg (sm_out s @ [ev])"
    using inv ev by (intro stream_ok_snoc) (simp_all add: sim_inv_def)
  moreover have "hd (sm_out s @ [ev]) = ev_clear 0 (gc_start_ts cfg)"
    using first inv by (auto simp: sim_inv_def hd_append)
  ultimately show "sim_inv cfg (Suc k) (push_event ev s')"
    using inv room bids asks by (simp add: s' sim_inv_def push_event_def full_def spec_run_snoc add.commute)
qed (simp add: s' push_event_def)

lemma side_fine_set:
  assumes "side_fine cfg v m" and "px_near cfg p" and "q = qty_zero \<or> qty_fine cfg q"
  shows "side_fine cfg (btm_set_level v p q) (ladder_set m p q)"
proof -
  have "\<forall>l \<in> set (btm_set_level v p q). px_near cfg (fst l) \<and> qty_fine cfg (snd l)"
    using assms set_btm_insert_subset [of p q v] set_btm_remove_subset [of p v]
    by (auto simp: side_fine_def btm_set_level_def)
  then show ?thesis
    using assms(1) by (auto simp: side_fine_def ladder_ok_btm_set_level map_of_btm_set_level)
qed

lemma level_inv:
  assumes inv: "sim_inv cfg k s" and p: "px_near cfg (Px p)" and q: "q = 0 \<or> qty_fine cfg (Qty q)"
    and begun: "full s \<or> sm_out s \<noteq> []"
  shows "sim_inv cfg k (sim_level sd p q s)"
    and "\<not> full s \<Longrightarrow> sim_inv cfg (Suc k) (sim_level sd p q s)"
    and "\<not> full s \<Longrightarrow> length (sm_out (sim_level sd p q s)) = Suc (length (sm_out s))"
proof -
  show more: "sim_inv cfg (Suc k) (sim_level sd p q s)" if "\<not> full s"
  proof -
    let ?ev = "ev_level (sm_seq s) (sm_ts s) sd (Px p) (Qty q)"
    let ?upd = "\<lambda>v. btm_set_level v (Px p) (Qty q)"
    define s' where "s' = s\<lparr>sm_bids := (case sd of Bid \<Rightarrow> ?upd (sm_bids s) | Ask \<Rightarrow> sm_bids s),
      sm_asks := (case sd of Ask \<Rightarrow> ?upd (sm_asks s) | Bid \<Rightarrow> sm_asks s)\<rparr>"
    have zero: "Qty q = qty_zero \<longleftrightarrow> q = 0" by (simp add: qty_zero_def)
    have sides: "side_fine cfg (sm_bids s) (sp_bids (spec_run (sm_out s)))"
      "side_fine cfg (sm_asks s) (sp_asks (spec_run (sm_out s)))"
      using inv by (simp_all add: sim_inv_def)
    have q': "Qty q = qty_zero \<or> qty_fine cfg (Qty q)" using q zero by blast
    have "sim_level sd p q s = push_event ?ev s'"
      using that by (cases sd) (simp_all add: sim_level_def s'_def btm_set_level_def zero Let_def)
    moreover have "sim_inv cfg (Suc k) (push_event ?ev s')"
      using side_fine_set [OF sides(1) p q'] side_fine_set [OF sides(2) p q'] sides p q'
      using begun that by (intro sim_inv_push(1) [OF inv that _ _ _ _ s'_def])
        (cases sd; simp add: ev_defs ev_fine_def at_touch_def spec_apply_def)+
    ultimately show ?thesis by simp
  qed
  show "sim_inv cfg k (sim_level sd p q s)"
    using inv sim_inv_weaken [OF more, of k] by (cases "full s") (simp_all add: sim_level_def)
  show "length (sm_out (sim_level sd p q s)) = Suc (length (sm_out s))" if "\<not> full s"
    using that by (simp add: length_out_level)
qed

lemma sim_bests:
  assumes "sim_inv cfg k s"
  shows "sim_best_bid s = map_option (\<lambda>l. ticks (fst l)) (spec_best_bid (spec_run (sm_out s)))"
    and "sim_best_ask s = map_option (\<lambda>l. ticks (fst l)) (spec_best_ask (spec_run (sm_out s)))"
proof -
  have fine: "ladder_ok (sm_bids s)" "sp_bids (spec_run (sm_out s)) = map_of (sm_bids s)"
    "ladder_ok (sm_asks s)" "sp_asks (spec_run (sm_out s)) = map_of (sm_asks s)"
    using assms by (simp_all add: sim_inv_def side_fine_def)
  show "sim_best_bid s = map_option (\<lambda>l. ticks (fst l)) (spec_best_bid (spec_run (sm_out s)))"
    by (simp add: sim_best_bid_def best_bid_of_ladder [OF fine(1,2)])
  show "sim_best_ask s = map_option (\<lambda>l. ticks (fst l)) (spec_best_ask (spec_run (sm_out s)))"
    by (simp add: sim_best_ask_def best_ask_of_ladder [OF fine(3,4)] split: list.splits)
qed

lemma best_px_near:
  assumes "sim_inv cfg k s"
  shows "sim_best_bid s = Some b \<Longrightarrow> px_near cfg (Px b) \<and> (\<exists>q. map_of (sm_bids s) (Px b) = Some q \<and> qty_fine cfg q)"
    and "sim_best_ask s = Some a \<Longrightarrow> px_near cfg (Px a)"
proof -
  have fine: "\<forall>l \<in> set (sm_bids s). px_near cfg (fst l) \<and> qty_fine cfg (snd l)"
    "\<forall>l \<in> set (sm_asks s). px_near cfg (fst l)" and asc: "ladder_ok (sm_bids s)"
    using assms by (auto simp: sim_inv_def side_fine_def)
  show "px_near cfg (Px b) \<and> (\<exists>q. map_of (sm_bids s) (Px b) = Some q \<and> qty_fine cfg q)"
    if "sim_best_bid s = Some b"
  proof -
    have l: "last (sm_bids s) \<in> set (sm_bids s)" "Px b = fst (last (sm_bids s))"
      using that by (auto simp: sim_best_bid_def split: if_splits)
    moreover from this have "map_of (sm_bids s) (Px b) = Some (snd (last (sm_bids s)))"
      using asc by (simp add: ladder_ok_def ascending_distinct)
    ultimately show ?thesis using fine(1) by simp
  qed
  show "px_near cfg (Px a)" if "sim_best_ask s = Some a"
    using that fine(2) by (auto simp: sim_best_ask_def split: list.splits)
qed

lemma trade_inv:
  assumes inv: "sim_inv cfg k s" and room: "\<not> full s" "sm_out s \<noteq> []" and q: "qty_fine cfg (Qty q)"
    and p: "case sd of Ask \<Rightarrow> sim_best_bid s = Some p | Bid \<Rightarrow> sim_best_ask s = Some p"
  shows "sim_inv cfg (Suc k) (sim_trade sd p q s)"
    and "length (sm_out (sim_trade sd p q s)) = Suc (length (sm_out s))"
proof -
  let ?ev = "ev_trade (sm_seq s) (sm_ts s) sd (Px p) (Qty q)"
  have "px_near cfg (Px p)"
    using p best_px_near [OF inv] by (cases sd) auto
  moreover have "at_touch (spec_run (sm_out s)) ?ev"
    using p sim_bests [OF inv] by (cases sd) (auto simp: at_touch_def ev_defs)
  moreover have "side_fine cfg (sm_bids s) (sp_bids (spec_apply (spec_run (sm_out s)) ?ev))"
    "side_fine cfg (sm_asks s) (sp_asks (spec_apply (spec_run (sm_out s)) ?ev))"
    using inv by (simp_all add: sim_inv_def spec_apply_def ev_defs)
  ultimately have "sim_inv cfg (Suc k) (push_event ?ev (s\<lparr>sm_bids := sm_bids s, sm_asks := sm_asks s\<rparr>))"
    using q room(2) by (intro sim_inv_push(1) [OF inv room(1) _ _ _ _ refl]) (simp_all add: ev_fine_def ev_defs)
  then show "sim_inv cfg (Suc k) (sim_trade sd p q s)"
    using room by (simp add: sim_trade_def)
qed (use room in \<open>simp add: sim_trade_def push_event_def\<close>)

lemma clear_inv:
  assumes inv: "sim_inv cfg k s" and start: "sm_out s = []" "sm_ts s = gc_start_ts cfg"
  shows "sim_inv cfg k (sim_clear s)" and "full (sim_clear s) \<or> sm_out (sim_clear s) \<noteq> []"
proof -
  show "full (sim_clear s) \<or> sm_out (sim_clear s) \<noteq> []"
    by (simp add: sim_clear_def push_event_def)
next
  show "sim_inv cfg k (sim_clear s)"
  proof (cases "full s")
  case False
  have seq: "sm_seq s = 0" using inv start by (simp add: sim_inv_def)
  have "sim_inv cfg (Suc k) (push_event (ev_clear (sm_seq s) (sm_ts s)) (s\<lparr>sm_bids := [], sm_asks := []\<rparr>))"
    by (intro sim_inv_push(1) [OF inv False _ _ _ _ refl])
      (simp_all add: ev_fine_def ev_defs at_touch_def spec_apply_def spec_empty_def side_fine_def
        ladder_ok_def seq start)
  then show ?thesis using False sim_inv_weaken by (fastforce simp: sim_clear_def)
  qed (use inv in \<open>simp add: sim_clear_def\<close>)
qed

subsection \<open>Triples\<close>

definition triple :: "(sim \<Rightarrow> bool) \<Rightarrow> 'a gen \<Rightarrow> ('a \<Rightarrow> sim \<Rightarrow> bool) \<Rightarrow> bool" where
  "triple P m Q \<longleftrightarrow> (\<forall>s. P s \<longrightarrow> (\<exists>a s'. m s = Inr (a, s') \<and> Q a s'))"

text \<open>Predicates that do not look at the random state.\<close>

definition stable :: "(sim \<Rightarrow> bool) \<Rightarrow> bool" where
  "stable P \<longleftrightarrow> (\<forall>s r. P s \<longrightarrow> P (s\<lparr>sm_rng := r\<rparr>))"

definition J :: "gen_config \<Rightarrow> nat \<Rightarrow> nat \<Rightarrow> sim \<Rightarrow> bool" where
  "J cfg k n s \<longleftrightarrow> sim_inv cfg k s \<and> n \<le> length (sm_out s) \<and> (full s \<or> sm_out s \<noteq> [])"

definition K :: "gen_config \<Rightarrow> nat \<Rightarrow> sim \<Rightarrow> bool" where
  "K cfg n s \<longleftrightarrow> J cfg 0 n s \<and> \<not> full s"

named_theorems triple_rules \<open>one rule per combinator of the generator\<close>

lemma triple_pre: "triple P m Q \<Longrightarrow> (\<And>s. P' s \<Longrightarrow> P s) \<Longrightarrow> triple P' m Q"
  by (auto simp: triple_def)

lemma triple_post: "triple P m Q \<Longrightarrow> (\<And>a s. Q a s \<Longrightarrow> Q' a s) \<Longrightarrow> triple P m Q'"
  unfolding triple_def by blast

lemma triple_return: "(\<And>s. P s \<Longrightarrow> Q a s) \<Longrightarrow> triple P (gen_return a) Q"
  by (simp add: triple_def gen_return_def)

lemma triple_do: "(\<And>s. P s \<Longrightarrow> Q () (f s)) \<Longrightarrow> triple P (gen_do f) Q"
  by (simp add: triple_def gen_do_def)

lemma triple_get: "triple P (gen_get f) (\<lambda>a s. P s \<and> a = f s)"
  by (simp add: triple_def gen_get_def)

lemma triple_bind: "triple P m R \<Longrightarrow> (\<And>a. triple (R a) (f a) Q) \<Longrightarrow> triple P (gen_bind m f) Q"
  unfolding triple_def gen_bind_def by (metis res_bind.simps(2) case_prod_conv)

lemma triple_bind_get: "(\<And>a. triple (\<lambda>s. P s \<and> a = g s) (f a) Q) \<Longrightarrow> triple P (gen_bind (gen_get g) f) Q"
  by (rule triple_bind [OF triple_get])

lemma triple_bind_do:
  "triple (\<lambda>s'. \<exists>s. P s \<and> s' = f s) m Q \<Longrightarrow> triple P (gen_bind (gen_do f) (\<lambda>_. m)) Q"
  by (auto simp: triple_def gen_bind_def gen_do_def)

lemma triple_if: "(c \<Longrightarrow> triple P m Q) \<Longrightarrow> (\<not> c \<Longrightarrow> triple P m' Q) \<Longrightarrow> triple P (if c then m else m') Q"
  by simp

lemma triple_fact: "(\<And>s. P s \<Longrightarrow> c) \<Longrightarrow> (c \<Longrightarrow> triple P m Q) \<Longrightarrow> triple P m Q"
  unfolding triple_def by blast

lemma triple_draw:
  assumes "n \<noteq> 0" and "stable P"
  shows "triple P (draw n) (\<lambda>x s. P s \<and> unat x < unat n)"
  unfolding triple_def
proof (intro allI impI)
  fix s assume "P s"
  then have "P (s\<lparr>sm_rng := r\<rparr>)" for r using assms(2) by (simp add: stable_def)
  moreover obtain x r where "below n (sm_rng s) = Inr (x, r)" "unat x < unat n"
    using rng_okD [OF rng_ok_below_nat [OF assms(1)]] unfolding rng_ok_def by blast
  ultimately show "\<exists>a s'. draw n s = Inr (a, s') \<and> P s' \<and> unat a < unat n" by (simp add: draw_def)
qed

lemma triple_bind_draw:
  "n \<noteq> 0 \<Longrightarrow> stable P \<Longrightarrow> (\<And>x. unat x < unat n \<Longrightarrow> triple P (f x) Q) \<Longrightarrow> triple P (gen_bind (draw n) f) Q"
  by (rule triple_bind [OF triple_draw], assumption+) (auto simp: triple_def)

lemma stable_JK: "stable (J cfg k n)" "stable (K cfg n)"
  by (auto simp: stable_def J_def K_def full_def sim_inv_rng)

lemma stable_conj: "stable P \<Longrightarrow> stable (\<lambda>s. P s \<and> c)"
  by (simp add: stable_def)

subsection \<open>The draws\<close>

lemma triple_roll:
  assumes "stable P"
  shows "triple P (roll_i64 n) (\<lambda>x s. P s \<and> 0 \<le> sint x \<and> sint x < max (sint n) 1)"
  unfolding roll_i64_def
proof (intro triple_if)
  assume "\<not> i64_lt n 0" "n \<noteq> 0"
  then have "0 \<le> sint n" "n \<noteq> 0" by (simp_all add: i64_lt_def)
  moreover from this have "sint n \<noteq> 0" using sint_eq_iff_i64 [of n 0] by simp
  ultimately have n: "0 < sint n" by simp
  then have un: "int (unat n) = sint n"
    using unat_diff_i64 [of 0 n] by simp
  show "triple P (gen_bind (draw n) (\<lambda>x. gen_return (if i64_le 0 x then x else 0)))
      (\<lambda>x s. P s \<and> 0 \<le> sint x \<and> sint x < max (sint n) 1)"
  proof (rule triple_bind_draw [OF \<open>n \<noteq> 0\<close> assms], rule triple_return)
    fix x :: u64 and s assume x: "unat x < unat n" and "P s"
    have "int (unat n) < int (2 ^ 63)" unfolding un using sint_i64_bounds(2) [of n] by simp
    then have "unat x < 2 ^ 63" using x by (simp only: of_nat_less_iff)
    then have sx: "sint x = int (unat x)" by (rule sint_small)
    have "sint x < sint n" unfolding sx un [symmetric] using x by (simp only: of_nat_less_iff)
    then show "P s \<and> 0 \<le> sint (if i64_le 0 x then x else 0)
        \<and> sint (if i64_le 0 x then x else 0) < max (sint n) 1"
      using sx \<open>P s\<close> by (simp add: i64_le_def)
  qed
qed (auto intro: triple_return)

lemma triple_rand_qty:
  assumes "stable P" and "\<And>s. P s \<Longrightarrow> sm_max_qty s = lots (gc_max_qty cfg)"
  shows "triple P sim_rand_qty (\<lambda>q s. P s \<and> qty_fine cfg (Qty q))"
proof -
  have "triple P (gen_bind (roll_i64 (i64_max m 1)) (\<lambda>x. gen_return (1 + x)))
      (\<lambda>q s. P s \<and> qty_fine cfg (Qty q))" if m: "m = lots (gc_max_qty cfg)" for m
  proof (rule triple_bind [OF triple_roll [OF assms(1)]], rule triple_return)
    fix x :: i64 and s assume x: "P s \<and> 0 \<le> sint x \<and> sint x < max (sint (i64_max m 1)) 1"
    then have "sint x + 1 \<le> max (sint m) 1" by (simp add: sint_i64_max)
    moreover have "sint (x + 1) = sint x + 1"
      using sint_add_i64 [of x 1] x calculation sint_i64_bounds [of m] by simp
    ultimately show "P s \<and> qty_fine cfg (Qty (1 + x))"
      using x by (simp add: qty_fine_def m add.commute)
  qed
  then show ?thesis
    unfolding sim_rand_qty_def
    by (intro triple_bind_get) (auto simp: triple_def assms(2))
qed

lemma triple_geo:
  assumes "stable P"
  shows "triple P (geo_offset cap) (\<lambda>off s. P s \<and> 1 \<le> sint off \<and> sint off \<le> max (sint cap) 1)"
proof -
  have "\<exists>o' s'. geo_loop cap off s = Inr (o', s') \<and> P s' \<and> 1 \<le> sint o' \<and> sint o' \<le> max (sint cap) 1"
    if "P s" "1 \<le> sint off" "sint off \<le> max (sint cap) 1" for off s
    using that
  proof (induction cap off s rule: geo_loop.induct)
    case (1 cap off s)
    show ?case
    proof (cases "i64_lt off cap")
      case True
      then have off: "sint (off + 1) = sint off + 1" "sint off < sint cap"
        using sint_add_i64 [of off 1] sint_i64_bounds [of cap] sint_i64_bounds [of off]
        by (simp_all add: i64_lt_def)
      obtain x s' where d: "draw 2 s = Inr (x, s')" "P s'"
        using triple_draw [OF _ assms, of 2] "1.prems"(1) by (auto simp: triple_def)
      show ?thesis
      proof (cases "x = 0")
        case True
        then show ?thesis
          using "1.IH" [OF \<open>i64_lt off cap\<close> d(1) refl True d(2)] off "1.prems" d \<open>i64_lt off cap\<close>
          by (subst geo_loop.simps) (simp del: geo_loop.simps)
      next
        case False
        then show ?thesis using d "1.prems" by (subst geo_loop.simps) (simp del: geo_loop.simps)
      qed
    next
      case False
      then show ?thesis using "1.prems" by (subst geo_loop.simps) (simp del: geo_loop.simps)
    qed
  qed
  then show ?thesis by (simp add: triple_def geo_offset_def)
qed

subsection \<open>One steady event\<close>

lemma JK_mid: "J cfg k n s \<Longrightarrow> sm_mid s = ticks (gc_mid cfg)" "K cfg n s \<Longrightarrow> sm_mid s = ticks (gc_mid cfg)"
  and JK_band: "J cfg k n s \<Longrightarrow> sm_band s = gc_band cfg" "K cfg n s \<Longrightarrow> sm_band s = gc_band cfg"
  and JK_max: "J cfg k n s \<Longrightarrow> sm_max_qty s = lots (gc_max_qty cfg)"
    "K cfg n s \<Longrightarrow> sm_max_qty s = lots (gc_max_qty cfg)"
  by (simp_all add: J_def K_def sim_inv_def)

lemma K_level:
  "K cfg n s \<Longrightarrow> px_near cfg (Px p) \<Longrightarrow> q = 0 \<or> qty_fine cfg (Qty q) \<Longrightarrow>
   J cfg (Suc 0) (Suc n) (sim_level sd p q s)"
  using level_inv(2,3) [of cfg 0 s p q sd] by (auto simp: K_def J_def)

lemma J_level:
  "J cfg k n s \<Longrightarrow> px_near cfg (Px p) \<Longrightarrow> q = 0 \<or> qty_fine cfg (Qty q) \<Longrightarrow>
   J cfg k n (sim_level sd p q s)"
proof -
  assume J: "J cfg k n s" and p: "px_near cfg (Px p)" "q = 0 \<or> qty_fine cfg (Qty q)"
  then have "sim_inv cfg k (sim_level sd p q s)" by (intro level_inv) (simp_all add: J_def)
  moreover have "full (sim_level sd p q s) \<or> sm_out (sim_level sd p q s) \<noteq> []"
    using J length_out_level [of sd p q s] by (cases "full s") (auto simp: J_def full_def)
  ultimately show ?thesis using J by (simp add: J_def length_out_level)
qed

lemma K_trade:
  "K cfg n s \<Longrightarrow> qty_fine cfg (Qty q) \<Longrightarrow>
   case sd of Ask \<Rightarrow> sim_best_bid s = Some p | Bid \<Rightarrow> sim_best_ask s = Some p \<Longrightarrow>
   J cfg (Suc 0) (Suc n) (sim_trade sd p q s)"
  using trade_inv [of cfg 0 s q p sd] by (auto simp: K_def J_def)

lemma px_near_offset:
  assumes "cfg_ok cfg \<Longrightarrow> 0 \<le> sint off \<and> sint off \<le> width cfg" and "sm_mid s = ticks (gc_mid cfg)"
  shows "px_near cfg (Px (px_at s sd off))"
  unfolding px_near_def
proof
  assume ok: "cfg_ok cfg"
  let ?m = "ticks (gc_mid cfg)"
  have bounds: "- (2 ^ 63) \<le> sint ?m - sint off" "sint ?m + sint off < 2 ^ 63" "0 \<le> sint off"
      "sint off \<le> width cfg"
    using assms(1) [OF ok] ok by (auto simp: cfg_ok_def)
  have "sint (?m + off) = sint ?m + sint off"
    using sint_add_i64 [of ?m "sint off"] bounds sint_i64_bounds [of ?m] by simp
  moreover have "sint (?m - off) = sint ?m - sint off"
    using sint_add_i64 [of ?m "- sint off"] bounds sint_i64_bounds [of ?m] by simp
  ultimately show "\<bar>sint (ticks (Px (px_at s sd off))) - sint ?m\<bar> \<le> width cfg"
    using bounds assms(2) by (cases sd) simp_all
qed

lemma triple_side: "stable P \<Longrightarrow> triple P sim_rand_side (\<lambda>_. P)"
  unfolding sim_rand_side_def by (rule triple_bind_draw) (auto intro: triple_return)

lemma triple_level_update: "triple (K cfg n) level_update (\<lambda>_. J cfg (Suc 0) (Suc n))"
proof -
  let ?P = "\<lambda>cap s. K cfg n s \<and> cap = i64_min STEADY_DEPTH (i64_max (sm_band s) 1)"
  let ?near = "\<lambda>p s. K cfg n s \<and> px_near cfg (Px p)"
  have stable_P: "stable (?P cap)" for cap
    using stable_JK(2) [of cfg n] by (auto simp: stable_def)
  have near: "px_near cfg (Px (px_at s sd off))"
    if "?P cap s" "1 \<le> sint off" "sint off \<le> max (sint cap) 1" for s cap off sd
  proof (rule px_near_offset)
    have "sint cap \<le> 8" using that(1) by (simp add: STEADY_DEPTH_def sint_i64_min)
    then show "0 \<le> sint off \<and> sint off \<le> width cfg" using that(2,3) by (simp add: width_def)
  qed (use that(1) in \<open>auto intro: JK_mid\<close>)
  have emit: "triple (?near p) (gen_bind (if x = 0 then gen_return 0 else sim_rand_qty)
      (\<lambda>q. gen_do (sim_level sd p q))) (\<lambda>_. J cfg (Suc 0) (Suc n))" for p x sd
  proof (rule triple_bind [where R = "\<lambda>q s. ?near p s \<and> (q = 0 \<or> qty_fine cfg (Qty q))"])
    show "triple (?near p) (if x = 0 then gen_return 0 else sim_rand_qty)
        (\<lambda>q s. ?near p s \<and> (q = 0 \<or> qty_fine cfg (Qty q)))"
      by (auto intro!: triple_return triple_post [OF triple_rand_qty] stable_conj stable_JK
          intro: JK_max)
  qed (auto intro!: triple_do K_level)
  show ?thesis
    unfolding level_update_def
  proof (rule triple_bind [OF triple_side [OF stable_JK(2)]], rule triple_bind_get,
      rule triple_bind [OF triple_geo [OF stable_P]], rule triple_bind_get)
    fix sd cap off p
    show "triple (\<lambda>s. (?P cap s \<and> 1 \<le> sint off \<and> sint off \<le> max (sint cap) 1) \<and> p = px_at s sd off)
        (gen_bind (draw 10) (\<lambda>x. gen_bind (if x = 0 then gen_return 0 else sim_rand_qty)
          (\<lambda>q. gen_do (sim_level sd p q)))) (\<lambda>_. J cfg (Suc 0) (Suc n))"
      by (rule triple_pre [OF triple_bind_draw [OF _ _ emit]])
        (use near in \<open>auto intro: stable_conj stable_JK\<close>)
  qed
qed

lemma churn_offset:
  assumes "cfg_ok cfg" and "0 \<le> sint x" and "sint x < max (sint (gc_band cfg - STEADY_DEPTH)) 1"
  shows "0 \<le> sint (STEADY_DEPTH + 1 + x)" and "sint (STEADY_DEPTH + 1 + x) \<le> width cfg"
proof -
  have band: "- (2 ^ 61) \<le> sint (gc_band cfg)" "sint (gc_band cfg) < 2 ^ 61"
    using assms(1) by (simp_all add: cfg_ok_def)
  have "sint (gc_band cfg + of_int (- 8)) = sint (gc_band cfg) + - 8"
    using band by (intro sint_add_i64) simp_all
  then have "sint (gc_band cfg - STEADY_DEPTH) = sint (gc_band cfg) - 8"
    by (simp add: STEADY_DEPTH_def)
  then have x: "sint x < max (sint (gc_band cfg) - 8) 1" using assms(3) by simp
  moreover have "sint (x + of_int 9) = sint x + 9"
    using x assms(2) band by (intro sint_add_i64) simp_all
  moreover have eq: "STEADY_DEPTH + 1 + x = x + of_int 9" by (simp add: STEADY_DEPTH_def)
  ultimately show "0 \<le> sint (STEADY_DEPTH + 1 + x)" "sint (STEADY_DEPTH + 1 + x) \<le> width cfg"
    using assms(2) unfolding eq by (simp_all add: width_def)
qed

lemma triple_edge_churn: "triple (K cfg n) edge_churn (\<lambda>_. J cfg (Suc 0) (Suc n))"
proof -
  let ?near = "\<lambda>p s. K cfg n s \<and> px_near cfg (Px p)"
  have stable_P: "stable (\<lambda>s. K cfg n s \<and> band = sm_band s)" for band
    using stable_JK(2) [of cfg n] by (auto simp: stable_def)
  have near: "px_near cfg (Px (px_at s sd (STEADY_DEPTH + 1 + x)))"
    if "K cfg n s \<and> band = sm_band s" "0 \<le> sint x" "sint x < max (sint (band - STEADY_DEPTH)) 1" for s band x sd
    using that churn_offset [of cfg x] by (intro px_near_offset) (auto dest: JK_band intro: JK_mid)
  have emit: "triple (?near p)
      (if c = 0 then gen_bind sim_rand_qty (\<lambda>q. gen_do (sim_level sd p q)) else gen_do (sim_level sd p 0))
      (\<lambda>_. J cfg (Suc 0) (Suc n))" for p sd and c :: u64
    by (auto intro!: triple_if triple_bind [OF triple_rand_qty] triple_do K_level stable_conj stable_JK
        intro: JK_max)
  show ?thesis
    unfolding edge_churn_def
  proof (rule triple_bind [OF triple_side [OF stable_JK(2)]], rule triple_bind_get,
      rule triple_bind [OF triple_roll [OF stable_P]], rule triple_bind_get)
    fix sd band x p
    show "triple (\<lambda>s. ((K cfg n s \<and> band = sm_band s) \<and> 0 \<le> sint x
          \<and> sint x < max (sint (band - STEADY_DEPTH)) 1) \<and> p = px_at s sd (STEADY_DEPTH + 1 + x))
        (gen_bind (draw 2) (\<lambda>c. if c = 0 then gen_bind sim_rand_qty (\<lambda>q. gen_do (sim_level sd p q))
          else gen_do (sim_level sd p 0))) (\<lambda>_. J cfg (Suc 0) (Suc n))"
      by (rule triple_pre [OF triple_bind_draw [OF _ _ emit]])
        (use near in \<open>auto intro: stable_conj stable_JK\<close>)
  qed
qed

definition traded_post :: "gen_config \<Rightarrow> nat \<Rightarrow> bool \<Rightarrow> sim \<Rightarrow> bool" where
  "traded_post cfg n b s \<longleftrightarrow> (if b then J cfg (Suc 0) (Suc n) s else K cfg n s)"

lemma triple_hit:
  assumes "\<And>s q. P s \<Longrightarrow> qty_fine cfg (Qty q) \<Longrightarrow> J cfg (Suc 0) (Suc n) (sim_trade sd p q s)"
    and "stable P" and "\<And>s. P s \<Longrightarrow> sm_max_qty s = lots (gc_max_qty cfg)"
  shows "triple P (gen_bind sim_rand_qty (\<lambda>q. gen_bind (gen_do (sim_trade sd p q)) (\<lambda>_. gen_return True)))
    (traded_post cfg n)"
  by (rule triple_bind [OF triple_rand_qty [OF assms(2,3)]], assumption, rule triple_bind_do, rule triple_return)
    (auto simp: traded_post_def intro: assms(1))

lemma triple_try_trade: "triple (K cfg n) try_trade (traded_post cfg n)"
proof -
  have st: "stable (\<lambda>s. K cfg n s \<and> b = sim_best_bid s)" "stable (\<lambda>s. K cfg n s \<and> b = sim_best_ask s)" for b
    using stable_JK(2) [of cfg n] by (auto simp: stable_def sim_best_bid_def sim_best_ask_def)
  have bid: "triple (\<lambda>s. K cfg n s \<and> Some p = sim_best_bid s)
      (gen_bind sim_rand_qty (\<lambda>q. gen_bind (gen_do (sim_trade Ask p q)) (\<lambda>_. gen_return True)))
      (traded_post cfg n)" for p
    by (rule triple_hit [OF _ st(1)]) (auto intro: K_trade JK_max)
  have ask: "triple (\<lambda>s. K cfg n s \<and> Some p = sim_best_ask s)
      (gen_bind sim_rand_qty (\<lambda>q. gen_bind (gen_do (sim_trade Bid p q)) (\<lambda>_. gen_return True)))
      (traded_post cfg n)" for p
    by (rule triple_hit [OF _ st(2)]) (auto intro: K_trade JK_max)
  show ?thesis
    unfolding try_trade_def
    by (rule triple_bind_draw [OF _ stable_JK(2)], simp, rule triple_if; rule triple_bind_get)
      (auto split: option.split intro: bid ask intro!: triple_return simp: traded_post_def)
qed

lemma triple_steady_event: "triple (K cfg n) steady_event (\<lambda>_. J cfg (Suc 0) (Suc n))"
  unfolding steady_event_def
proof (rule triple_bind_draw [OF _ stable_JK(2)], simp,
    rule triple_bind [where R = "traded_post cfg n"])
  fix r :: u64
  show "triple (K cfg n) (if r < TRADE_PCT then try_trade else gen_return False) (traded_post cfg n)"
    by (rule triple_if, rule triple_try_trade, rule triple_return) (simp add: traded_post_def)
  show "triple (traded_post cfg n b)
      (if b then gen_return () else if r < TRADE_PCT + CHURN_PCT then edge_churn else level_update)
      (\<lambda>_. J cfg (Suc 0) (Suc n))" for b
  proof (cases b)
    case True
    then show ?thesis by (auto intro: triple_return simp: traded_post_def)
  next
    case False
    then have "traded_post cfg n b = K cfg n" by (auto simp: traded_post_def)
    then show ?thesis using False by (auto intro: triple_edge_churn triple_level_update)
  qed
qed

subsection \<open>Loops and cycles\<close>

lemma unat_add_le: "unat (a + b) \<le> unat a + unat (b :: u64)"
  by (simp add: unat_word_ariths)

lemma J_weaken: "J cfg k m s \<Longrightarrow> n \<le> m \<Longrightarrow> J cfg k n s"
  by (simp add: J_def)

lemma J_advance: "J cfg (Suc k) n s \<Longrightarrow> unat d < 100000 \<Longrightarrow> J cfg k n (advance d s)"
  using sim_inv_advance [of cfg k s d] by (auto simp: J_def advance_def full_def)

lemma triple_advance:
  "n \<noteq> 0 \<Longrightarrow> unat b + unat n \<le> 100000 \<Longrightarrow>
   triple (J cfg (Suc k) m) (gen_bind (draw n) (\<lambda>x. gen_do (advance (b + x)))) (\<lambda>_. J cfg k m)"
proof (rule triple_bind_draw [OF _ stable_JK(1)], assumption, rule triple_do)
  fix x :: u64 and s assume "unat b + unat n \<le> 100000" "unat x < unat n" "J cfg (Suc k) m s"
  then show "J cfg k m (advance (b + x) s)" using unat_add_le [of b x] by (intro J_advance) simp_all
qed

lemma triple_advance_steady: "triple (J cfg (Suc k) m) advance_steady (\<lambda>_. J cfg k m)"
  unfolding advance_steady_def by (rule triple_advance) (simp_all add: STEADY_JITTER_def STEADY_DT_def)

lemma triple_advance_tight:
  "n \<noteq> 0 \<Longrightarrow> unat n \<le> 100000 \<Longrightarrow>
   triple (J cfg (Suc k) m) (gen_bind (draw n) (\<lambda>x. gen_do (advance x))) (\<lambda>_. J cfg k m)"
  using triple_advance [of n 0 cfg k m] by simp

text \<open>A loop whose body emits keeps the invariant; entered with room, it makes progress.\<close>

lemma triple_unless_full:
  assumes "triple (K cfg n) m Q" and "\<And>s. J cfg 0 n s \<Longrightarrow> full s \<Longrightarrow> Q a s"
  shows "triple (J cfg 0 n) (gen_bind (gen_get full) (\<lambda>f. if f then gen_return a else m)) Q"
proof (rule triple_bind_get)
  fix f
  show "triple (\<lambda>s. J cfg 0 n s \<and> f = full s) (if f then gen_return a else m) Q"
    using assms by (cases f) (auto intro: triple_return triple_pre [OF assms(1)] simp: K_def)
qed

lemma triple_for_loop:
  assumes "\<And>m. triple (K cfg m) body (\<lambda>_. J cfg 0 (Suc m))"
  shows "triple (J cfg 0 n) (for_loop c body) (\<lambda>_. J cfg 0 n)"
proof (induction c arbitrary: n)
  case (Suc c)
  have "triple (K cfg n) (gen_bind body (\<lambda>_. for_loop c body)) (\<lambda>_. J cfg 0 n)"
    by (rule triple_bind [OF assms triple_post [OF Suc.IH]]) (simp add: J_weaken)
  then show ?case by (simp add: triple_unless_full)
qed (simp add: triple_return)

lemma triple_for_loop_progress:
  assumes "\<And>m. triple (K cfg m) body (\<lambda>_. J cfg 0 (Suc m))" and "0 < c"
  shows "triple (K cfg n) (for_loop c body) (\<lambda>_. J cfg 0 (Suc n))"
proof -
  obtain d where c: "c = Suc d" using assms(2) gr0_implies_Suc by blast
  have "triple (K cfg n) (gen_bind body (\<lambda>_. for_loop d body)) (\<lambda>_. J cfg 0 (Suc n))"
    by (rule triple_bind [OF assms(1) triple_for_loop [OF assms(1)]])
  then have "triple (\<lambda>s. K cfg n s \<and> f = full s)
      (if f then gen_return True else gen_bind body (\<lambda>_. for_loop d body)) (\<lambda>_. J cfg 0 (Suc n))" for f
    by (cases f) (auto simp: K_def triple_def)
  then show ?thesis unfolding c for_loop.simps by (rule triple_bind_get)
qed

lemma triple_steady_body:
  "triple (K cfg m) (gen_bind steady_event (\<lambda>_. advance_steady)) (\<lambda>_. J cfg 0 (Suc m))"
  by (rule triple_bind [OF triple_steady_event triple_advance_steady])

lemma unat_count: "unat (x :: u64) < 1000 \<Longrightarrow> 0 < unat a \<Longrightarrow> unat a < 1000 \<Longrightarrow> 0 < unat (a + x)"
  by (simp add: unat_word_ariths)

lemma triple_burst: "triple (K cfg n) burst_cycle (\<lambda>_. J cfg 0 (Suc n))"
proof -
  let ?calm = "gen_bind steady_event (\<lambda>_. gen_bind (draw CALM_DT) (\<lambda>x. gen_do (advance (CALM_DT + x))))"
  let ?dense = "gen_bind steady_event (\<lambda>_. gen_bind (draw 2) (\<lambda>x. gen_do (advance x)))"
  have bodies: "triple (K cfg m) ?calm (\<lambda>_. J cfg 0 (Suc m))" "triple (K cfg m) ?dense (\<lambda>_. J cfg 0 (Suc m))" for m
    by (rule triple_bind [OF triple_steady_event], rule triple_advance, simp_all add: CALM_DT_def)
      (rule triple_bind [OF triple_steady_event], rule triple_advance_tight, simp_all)
  have dense: "triple (J cfg 0 (Suc n)) (gen_bind (draw 120) (\<lambda>b.
      gen_bind (for_loop (unat (200 + b)) ?dense) (\<lambda>_. gen_return ()))) (\<lambda>_. J cfg 0 (Suc n))"
    by (rule triple_bind_draw [OF _ stable_JK(1)], simp,
        rule triple_bind [OF triple_for_loop [OF bodies(2)]], rule triple_return)
  show ?thesis
    unfolding burst_cycle_def
    by (rule triple_bind_draw [OF _ stable_JK(2)], simp,
        rule triple_bind [OF triple_for_loop_progress [OF bodies(1)]], rule unat_count, simp, simp, simp,
        rule triple_if, rule triple_return, assumption, rule dense)
qed

lemma triple_sweep: "triple (J cfg 0 n) (sweep_loop c) (\<lambda>_. J cfg 0 n)"
proof (induction c arbitrary: n)
  case (Suc c)
  have strike: "triple (\<lambda>s. (K cfg n s \<and> Some bb = sim_best_bid s)
        \<and> q = (case map_of (sm_bids s) (Px bb) of None \<Rightarrow> 1 | Some q \<Rightarrow> lots q))
      (gen_bind (gen_do (sim_trade Ask bb q)) (\<lambda>_. gen_bind (gen_do (sim_level Bid bb 0)) (\<lambda>_.
        gen_bind (draw 3) (\<lambda>x. gen_bind (gen_do (advance x)) (\<lambda>_. sweep_loop c)))))
      (\<lambda>_. J cfg 0 n)" for bb q
  proof (rule triple_pre [where P = "\<lambda>s. K cfg n s \<and> sim_best_bid s = Some bb \<and> px_near cfg (Px bb)
      \<and> qty_fine cfg (Qty q)"], rule triple_bind_do, rule triple_bind_do)
    have "triple (J cfg (Suc 0) (Suc n)) (gen_bind (draw 3) (\<lambda>x. gen_bind (gen_do (advance x))
        (\<lambda>_. sweep_loop c))) (\<lambda>_. J cfg 0 n)"
    proof (rule triple_bind_draw [OF _ stable_JK(1)], simp, rule triple_bind_do)
      fix x :: u64 assume "unat x < unat (3 :: u64)"
      then show "triple (\<lambda>s'. \<exists>s. J cfg (Suc 0) (Suc n) s \<and> s' = advance x s) (sweep_loop c) (\<lambda>_. J cfg 0 n)"
        by (intro triple_pre [OF triple_post [OF Suc.IH [of "Suc n"]]])
          (auto intro: J_weaken J_advance)
    qed
    then show "triple (\<lambda>s'. \<exists>s. (\<exists>s0. (K cfg n s0 \<and> sim_best_bid s0 = Some bb \<and> px_near cfg (Px bb)
          \<and> qty_fine cfg (Qty q)) \<and> s = sim_trade Ask bb q s0) \<and> s' = sim_level Bid bb 0 s)
        (gen_bind (draw 3) (\<lambda>x. gen_bind (gen_do (advance x)) (\<lambda>_. sweep_loop c))) (\<lambda>_. J cfg 0 n)"
      by (rule triple_pre) (auto intro!: J_level K_trade)
  next
    fix s assume "(K cfg n s \<and> Some bb = sim_best_bid s)
        \<and> q = (case map_of (sm_bids s) (Px bb) of None \<Rightarrow> 1 | Some q \<Rightarrow> lots q)"
    then show "K cfg n s \<and> sim_best_bid s = Some bb \<and> px_near cfg (Px bb) \<and> qty_fine cfg (Qty q)"
      using best_px_near(1) [of cfg 0 s bb] by (auto simp: K_def J_def)
  qed
  have "triple (K cfg n) (gen_bind (gen_get sim_best_bid) (\<lambda>b. case b of
      None \<Rightarrow> gen_return False
    | Some bb \<Rightarrow>
        gen_bind (gen_get (\<lambda>s. case map_of (sm_bids s) (Px bb) of None \<Rightarrow> 1 | Some q \<Rightarrow> lots q)) (\<lambda>q.
        gen_bind (gen_do (sim_trade Ask bb q)) (\<lambda>_.
        gen_bind (gen_do (sim_level Bid bb 0)) (\<lambda>_.
        gen_bind (draw 3) (\<lambda>x.
        gen_bind (gen_do (advance x)) (\<lambda>_. sweep_loop c))))))) (\<lambda>_. J cfg 0 n)"
  proof (rule triple_bind_get)
    fix b
    show "triple (\<lambda>s. K cfg n s \<and> b = sim_best_bid s) (case b of
        None \<Rightarrow> gen_return False
      | Some bb \<Rightarrow>
          gen_bind (gen_get (\<lambda>s. case map_of (sm_bids s) (Px bb) of None \<Rightarrow> 1 | Some q \<Rightarrow> lots q)) (\<lambda>q.
          gen_bind (gen_do (sim_trade Ask bb q)) (\<lambda>_.
          gen_bind (gen_do (sim_level Bid bb 0)) (\<lambda>_.
          gen_bind (draw 3) (\<lambda>x.
          gen_bind (gen_do (advance x)) (\<lambda>_. sweep_loop c)))))) (\<lambda>_. J cfg 0 n)"
    proof (cases b)
      case None
      then show ?thesis by (auto intro: triple_return simp: K_def)
    next
      case (Some bb)
      then show ?thesis by (simp only: option.case) (rule triple_bind_get, rule strike)
    qed
  qed
  then show ?case unfolding sweep_loop.simps by (rule triple_unless_full)
qed (simp add: triple_return)

text \<open>The recovery stays within the width: its length is at most half the sweep.\<close>

lemma half_bounds: "0 \<le> k \<Longrightarrow> k sdiv 2 = k div 2" "0 \<le> k \<Longrightarrow> k sdiv 4 = k div 4" for k :: int
  by (simp_all add: signed_divide_int_def sgn_if)

lemma sdiv_neg: "k < 0 \<Longrightarrow> k sdiv 4 \<le> 0 \<and> k \<le> k sdiv 4" for k :: int
  by (simp add: signed_divide_int_def sgn_if, presburger)

lemma sweep_bounds:
  assumes "cfg_ok cfg"
  shows "20 \<le> sint (sweep_of (gc_band cfg))"
    and "sint (sweep_of (gc_band cfg)) \<le> max (sint (gc_band cfg)) 20"
proof -
  let ?b = "sint (gc_band cfg)"
  have b: "- (2 ^ 61) \<le> ?b" "?b < 2 ^ 61" using assms by (simp_all add: cfg_ok_def)
  have product: "gc_band cfg * 3 = of_int (?b * 3)" by simp
  have "sint (of_int (?b * 3) :: i64) = ?b * 3" using b by (intro sint_of_int_i64) simp_all
  then have three: "sint (gc_band cfg * 3) = ?b * 3" by (simp only: product)
  have quarter: "- (2 ^ 63) \<le> (?b * 3) sdiv 4" "(?b * 3) sdiv 4 < 2 ^ 63" "(?b * 3) sdiv 4 \<le> max ?b 0"
    using b half_bounds(2) [of "?b * 3"] sdiv_neg [of "?b * 3"] by (cases "0 \<le> ?b"; simp)+
  then have "sint (of_int ((?b * 3) sdiv 4) :: i64) = (?b * 3) sdiv 4" by (intro sint_of_int_i64)
  then show "20 \<le> sint (sweep_of (gc_band cfg))"
    "sint (sweep_of (gc_band cfg)) \<le> max ?b 20"
    using quarter(3) by (simp_all add: sweep_of_def three sint_i64_max)
qed

lemma recover_bounds:
  assumes "cfg_ok cfg"
  shows "1 \<le> sint (recover_of (sweep_of (gc_band cfg)))"
    and "sint (recover_of (sweep_of (gc_band cfg))) \<le> width cfg"
proof -
  let ?s = "sint (sweep_of (gc_band cfg))"
  note s = sweep_bounds [OF assms]
  have "sint (of_int (?s sdiv 2) :: i64) = ?s div 2"
    using s(1) half_bounds(1) [of ?s] sint_i64_bounds [of "sweep_of (gc_band cfg)"]
    by (subst sint_of_int_i64) simp_all
  then show "1 \<le> sint (recover_of (sweep_of (gc_band cfg)))"
    "sint (recover_of (sweep_of (gc_band cfg))) \<le> width cfg"
    using s by (simp_all add: recover_of_def sint_i64_max width_def)
qed

lemma triple_recover:
  assumes "cfg_ok cfg \<Longrightarrow> 1 \<le> sint k \<and> sint k + int c - 1 \<le> width cfg"
  shows "triple (J cfg 0 n) (recover_loop c k) (\<lambda>_. J cfg 0 n)"
  using assms
proof (induction c arbitrary: n k)
  case (Suc c)
  have near: "px_near cfg (Px (mid - k))" if "mid = ticks (gc_mid cfg)" for mid
    using px_near_offset [of cfg k "undefined\<lparr>sm_mid := mid\<rparr>" Bid] Suc.prems that by force
  have rest: "triple (J cfg (Suc 0) (Suc n)) (gen_bind advance_steady (\<lambda>_. recover_loop c (k + 1))) (\<lambda>_. J cfg 0 n)"
  proof (rule triple_bind [OF triple_advance_steady], rule triple_post [OF Suc.IH])
    assume ok: "cfg_ok cfg"
    show "1 \<le> sint (k + 1) \<and> sint (k + 1) + int c - 1 \<le> width cfg"
    proof (cases "c = 0")
      case True
      have "sint k \<le> width cfg" "1 \<le> sint k" using Suc.prems [OF ok] True by simp_all
      moreover have "width cfg < 2 ^ 63 - 1" using ok by (auto simp: cfg_ok_def width_def)
      ultimately show ?thesis using sint_add_i64 [of k 1] Suc.prems [OF ok] by simp
    next
      case False
      then have "sint k + 1 \<le> width cfg" using Suc.prems [OF ok] by simp
      moreover have "width cfg < 2 ^ 63" using ok by (auto simp: cfg_ok_def width_def)
      ultimately show ?thesis using sint_add_i64 [of k 1] Suc.prems [OF ok] by simp
    qed
  qed (simp add: J_weaken)
  have "triple (K cfg n) (gen_bind sim_rand_qty (\<lambda>q. gen_bind (gen_get sm_mid) (\<lambda>mid.
      gen_bind (gen_do (sim_level Bid (mid - k) q)) (\<lambda>_.
      gen_bind advance_steady (\<lambda>_. recover_loop c (k + 1)))))) (\<lambda>_. J cfg 0 n)"
  proof (rule triple_bind [OF triple_rand_qty [OF stable_JK(2)]], erule JK_max,
      rule triple_bind_get, rule triple_bind_do)
    fix q mid
    show "triple (\<lambda>s'. \<exists>s. ((K cfg n s \<and> qty_fine cfg (Qty q)) \<and> mid = sm_mid s)
        \<and> s' = sim_level Bid (mid - k) q s)
        (gen_bind advance_steady (\<lambda>_. recover_loop c (k + 1))) (\<lambda>_. J cfg 0 n)"
      by (rule triple_pre [OF rest]) (auto intro!: K_level near dest: JK_mid)
  qed
  then show ?case by (simp add: triple_unless_full)
qed (simp add: triple_return)

lemma triple_crash: "triple (K cfg n) crash_cycle (\<lambda>_. J cfg 0 (Suc n))"
proof -
  have tail: "triple (\<lambda>s. J cfg 0 (Suc n) s \<and> sweep = sweep_of (sm_band s))
      (gen_bind (sweep_loop (nat (sint sweep))) (\<lambda>returned.
        if returned then gen_return () else recover_loop (nat (sint (recover_of sweep))) 1))
      (\<lambda>_. J cfg 0 (Suc n))" for sweep
  proof (rule triple_fact [where c = "sweep = sweep_of (gc_band cfg)"])
    show "sweep = sweep_of (gc_band cfg)" if "J cfg 0 (Suc n) s \<and> sweep = sweep_of (sm_band s)" for s
      using that by (auto dest: JK_band)
    assume sweep: "sweep = sweep_of (gc_band cfg)"
    have "triple (J cfg 0 (Suc n)) (recover_loop (nat (sint (recover_of sweep))) 1) (\<lambda>_. J cfg 0 (Suc n))"
      using recover_bounds [of cfg] by (intro triple_recover) (auto simp: sweep)
    then show "triple (\<lambda>s. J cfg 0 (Suc n) s \<and> sweep = sweep_of (sm_band s))
        (gen_bind (sweep_loop (nat (sint sweep))) (\<lambda>returned.
          if returned then gen_return () else recover_loop (nat (sint (recover_of sweep))) 1))
        (\<lambda>_. J cfg 0 (Suc n))"
      by (intro triple_bind [OF triple_pre [OF triple_sweep]] triple_if triple_return) auto
  qed
  show ?thesis
    unfolding crash_cycle_def
    by (rule triple_bind_draw [OF _ stable_JK(2)], simp,
        rule triple_bind [OF triple_for_loop_progress [OF triple_steady_body]], rule unat_count,
        simp, simp, simp, rule triple_if, rule triple_return, assumption, rule triple_bind_get, rule tail)
qed

lemma triple_flow: "triple (K cfg n) (flow_step pr) (\<lambda>_. J cfg 0 (Suc n))"
  by (cases pr) (simp_all add: flow_step_def triple_steady_body triple_burst triple_crash)

lemma flow_loop_ok:
  "J cfg 0 n s \<Longrightarrow> \<exists>s'. flow_loop pr s = Some (Inr s') \<and> J cfg 0 n s' \<and> full s'"
proof (induction "gc_events cfg - n" arbitrary: n s rule: less_induct)
  case less
  show ?case
  proof (cases "full s")
    case True
    then show ?thesis using less.prems by (subst flow_loop.simps) simp
  next
    case False
    define m where "m = length (sm_out s)"
    have K: "K cfg m s" "n \<le> m" "m < gc_events cfg"
      using less.prems False by (auto simp: K_def J_def m_def full_def sim_inv_def)
    then obtain u s1 where s1: "flow_step pr s = Inr (u, s1)" "J cfg 0 (Suc m) s1"
      using triple_flow [of cfg m pr] by (force simp: triple_def)
    then obtain s' where "flow_loop pr s1 = Some (Inr s')" "J cfg 0 (Suc m) s'" "full s'"
      using less.hyps [OF _ s1(2)] K by fastforce
    then show ?thesis
      using s1 False K(2) by (subst flow_loop.simps) (auto intro: J_weaken)
  qed
qed

subsection \<open>Setup\<close>

lemma decay_fine:
  assumes "m = lots (gc_max_qty cfg)"
  shows "qty_fine cfg (Qty (decay_qty m off))"
proof -
  have "sint (signed_drop_bit n m) \<le> max (sint m) 1" for n
  proof -
    have "sint (signed_drop_bit n m) = sint m div 2 ^ n"
      by (simp add: sint_signed_drop_bit_eq drop_bit_eq_div)
    also have "\<dots> \<le> max (sint m) 1"
    proof (cases "0 \<le> sint m")
      case True
      then have "sint m div 2 ^ n \<le> sint m div 1" by (intro zdiv_mono2) simp_all
      then show ?thesis by simp
    next
      case False
      then have "sint m div 2 ^ n \<le> 0" by (simp add: div_nonpos_pos_le0)
      then show ?thesis by simp
    qed
    finally show ?thesis .
  qed
  then show ?thesis by (auto simp: qty_fine_def decay_qty_def Let_def sint_i64_max assms)
qed

lemma J_seed_loop:
  "J cfg 0 n s \<Longrightarrow> (cfg_ok cfg \<Longrightarrow> 1 \<le> sint off) \<Longrightarrow> J cfg 0 n (seed_loop off s)"
proof (induction off s rule: seed_loop.induct)
  case (1 off s)
  show ?case
  proof (cases "i64_le off (sm_band s) \<and> \<not> full s")
    case True
    let ?q = "decay_qty (sm_max_qty s) off"
    let ?s1 = "sim_level Bid (sm_mid s - off) ?q s"
    let ?s2 = "sim_level Ask (sm_mid s + off) ?q ?s1"
    have eqs: "sm_mid s = ticks (gc_mid cfg)" "sm_band s = gc_band cfg" "sm_max_qty s = lots (gc_max_qty cfg)"
      using "1.prems"(1) by (simp_all add: J_def sim_inv_def)
    have off: "cfg_ok cfg \<Longrightarrow> 1 \<le> sint off \<and> sint off \<le> sint (gc_band cfg)"
      using True "1.prems"(2) by (simp add: i64_le_def eqs)
    have near: "px_near cfg (Px (px_at s sd off))" for sd
      by (rule px_near_offset) (use off eqs in \<open>auto simp: width_def\<close>)
    note q = decay_fine [of "sm_max_qty s" cfg off, OF eqs(3)]
    have s1: "J cfg 0 n ?s1" using near [of Bid] q by (intro J_level [OF "1.prems"(1)]) simp_all
    have s2: "J cfg 0 n ?s2" using near [of Ask] q by (intro J_level [OF s1]) simp_all
    have "cfg_ok cfg \<Longrightarrow> 1 \<le> sint (off + 1)"
      using off sint_add_i64 [of off 1] by (simp add: cfg_ok_def)
    then have "J cfg 0 n (seed_loop (off + 1) ?s2)"
      using "1.IH" [OF _ _ refl s2] True by blast
    then show ?thesis using True by (subst seed_loop.simps) (simp add: Let_def del: seed_loop.simps)
  next
    case False
    then show ?thesis using "1.prems"(1) by (subst seed_loop.simps) (auto simp del: seed_loop.simps)
  qed
qed

lemma J_seed: "J cfg 0 0 (seed (sim_new cfg))"
proof -
  have "J cfg 0 0 (sim_clear (sim_new cfg))"
    using clear_inv [OF sim_inv_new [of cfg]] by (simp add: J_def sim_new_def)
  then show ?thesis unfolding seed_def by (intro J_seed_loop) simp_all
qed

subsection \<open>The generated corpus\<close>

lemma generate_facts:
  obtains evs where "generate cfg = Some (Inr evs)" "length evs = gc_events cfg" "stream_ok cfg evs"
    "evs \<noteq> [] \<Longrightarrow> hd evs = ev_clear 0 (gc_start_ts cfg)"
    "ts_ok cfg \<Longrightarrow> sorted (map (\<lambda>ev. unat (ev_ts ev)) evs)"
proof -
  obtain s where s: "flow_loop (gc_profile cfg) (seed (sim_new cfg)) = Some (Inr s)" "J cfg 0 0 s" "full s"
    using flow_loop_ok [OF J_seed] by blast
  show thesis
    using s by (intro that [of "sm_out s"])
      (auto simp: generate_def J_def sim_inv_def full_def clock_inv_def)
qed

text \<open>
  Property C13: the generator delivers what it promises. For every configuration it returns, without a
  panic, exactly the requested number of events; their sequence numbers are dense from zero, every
  quantity of a trade or resting level is between 1 and the maximum, every trade prints at the touch
  of the side it hits, and every price lies within the width of the mid where the configuration
  leaves room for it.
\<close>
theorem generate_stream:
  "\<exists>evs. generate cfg = Some (Inr evs) \<and> length evs = gc_events cfg \<and> stream_ok cfg evs"
  by (rule generate_facts [of cfg]) blast

text \<open>
  A generated corpus opens with a \<open>Clear\<close> at the configured start and, while its clock
  cannot wrap, time never goes back.
\<close>
theorem generate_order:
  assumes "0 < gc_events cfg" and "ts_ok cfg" and "generate cfg = Some (Inr evs)"
  shows "hd evs = ev_clear 0 (gc_start_ts cfg) \<and> sorted (map (\<lambda>ev. unat (ev_ts ev)) evs)"
proof -
  obtain evs' where "generate cfg = Some (Inr evs')" and len: "length evs' = gc_events cfg"
    and first: "evs' \<noteq> [] \<Longrightarrow> hd evs' = ev_clear 0 (gc_start_ts cfg)"
    and time: "ts_ok cfg \<Longrightarrow> sorted (map (\<lambda>ev. unat (ev_ts ev)) evs')"
    by (rule generate_facts [of cfg]) blast
  then have "evs' = evs" using assms(3) by simp
  then show ?thesis using first time assms(1,2) len by (metis length_0_conv less_numeral_extra(3))
qed

definition small_config :: gen_config where
  "small_config =
     \<lparr>gc_profile = Steady, gc_seed = 1, gc_events = 3, gc_mid = Px 65000, gc_band = 64,
      gc_max_qty = Qty 1024, gc_start_ts = 5\<rparr>"

lemma generate_small:
  "generate small_config =
     Some (Inr [ev_clear 0 5, ev_level 1 5 Bid (Px 64999) (Qty 1024), ev_level 2 5 Ask (Px 65001) (Qty 1024)])"
  unfolding generate_def small_config_def
  by (subst flow_loop.simps)
    (simp add: seed_def sim_new_def sim_clear_def full_def push_event_def i64_le_def decay_qty_def Let_def
      sim_level_def i64_max_def)

theorem generate_order_witness:
  "hd [ev_clear 0 5, ev_level 1 5 Bid (Px 64999) (Qty 1024), ev_level 2 5 Ask (Px 65001) (Qty 1024)] =
     ev_clear 0 (gc_start_ts small_config)
   \<and> sorted (map (\<lambda>ev. unat (ev_ts ev))
       [ev_clear 0 5, ev_level 1 5 Bid (Px 64999) (Qty 1024), ev_level 2 5 Ask (Px 65001) (Qty 1024)])"
  by (rule generate_order [OF _ _ generate_small]) (simp_all add: small_config_def ts_ok_def)

text \<open>A band narrower than \<open>STEADY_DEPTH + 1\<close> does not bound the touch: edge churn starts beyond it.\<close>

definition narrow_config :: gen_config where
  "narrow_config =
     \<lparr>gc_profile = Steady, gc_seed = 97, gc_events = 2, gc_mid = Px 100, gc_band = 0,
      gc_max_qty = Qty 1, gc_start_ts = 0\<rparr>"

lemma narrow_draws:
  "next_u64 97 = (5718913436695043505, 11400714819323198582)" 
  "next_u64 11400714819323198582 = (14973268260356533842, 4354685564936845451)" 
  "next_u64 4354685564936845451 = (9800405774738052544, 15755400384260043936)" 
  "next_u64 15755400384260043936 = (16750103710434189834, 8709371129873690805)" 
  "next_u64 8709371129873690805 = (2738081209589423207, 1663341875487337674)"
  by (simp_all add: next_u64_def Let_def)

lemma flow_loop_full: "full s \<Longrightarrow> flow_loop pr s = Some (Inr s)"
  by (subst flow_loop.simps) simp

lemma narrow_churn:
  "generate narrow_config = Some (Inr [ev_clear 0 0, ev_level 1 0 Bid (Px 91) (Qty 1)])"
  unfolding generate_def narrow_config_def
  by (subst flow_loop.simps)
    (simp add: flow_loop_full seed_def sim_new_def sim_clear_def full_def push_event_def i64_le_def i64_lt_def Let_def
      sim_level_def i64_max_def splitmix_new_def flow_step_def steady_event_def edge_churn_def gen_bind_def
      gen_return_def gen_do_def gen_get_def draw_def below_def narrow_draws roll_i64_def sim_rand_qty_def
      sim_rand_side_def advance_steady_def advance_def STEADY_DEPTH_def STEADY_DT_def STEADY_JITTER_def
      TRADE_PCT_def CHURN_PCT_def)

end
