(* ===== verification/Pipeline.thy ===== *)
theory Pipeline
  imports Engine Synthetic_Laws
begin

section \<open>The pipeline at work (engine/src/main.rs, engine/tests/pipeline.rs)\<close>

text \<open>
  The demo binary and the end-to-end tests as programs over the engine, every assertion a branch.
  \<open>while let\<close> and \<open>loop\<close> drain a quiescent ring and may in principle run for ever; here they are shown
  to end, on every corpus, not only on the generated ones. The fold argument \<open>f\<close> is what the loop
  body does with a delivered event (count it, or collect its fields).
\<close>

fun process_all ::
  "'b order_book_ops \<Rightarrow> book_event list \<Rightarrow> 'b engine_producer \<Rightarrow> engine_shared
   \<Rightarrow> ('b engine_producer \<times> engine_shared) res" where
  "process_all ops [] p sh = Inr (p, sh)"
| "process_all ops (ev # evs) p sh =
     res_bind (process ops ev p sh) (\<lambda>(p', sh'). process_all ops evs p' sh')"

text \<open>\<open>for ev in &evs { producer.process(ev); if let Observed::Event(got) = consumer.poll() { .. } }\<close>\<close>

fun keep_up ::
  "'b order_book_ops \<Rightarrow> ('a \<Rightarrow> book_event \<Rightarrow> 'a) \<Rightarrow> book_event list \<Rightarrow> 'b engine_producer
   \<Rightarrow> engine_shared \<Rightarrow> engine_consumer \<Rightarrow> 'a
   \<Rightarrow> ('b engine_producer \<times> engine_shared \<times> engine_consumer \<times> 'a) outcome" where
  "keep_up ops f [] p sh c acc = Some (Inr (p, sh, c, acc))"
| "keep_up ops f (ev # evs) p sh c acc =
     out_bind (Some (process ops ev p sh)) (\<lambda>(p', sh').
     out_bind (poll sh' c) (\<lambda>(ob, c').
       keep_up ops f evs p' sh' c' (case ob of Ob_Event got \<Rightarrow> f acc got | _ \<Rightarrow> acc)))"

text \<open>\<open>while let Observed::Event(got) = consumer.poll() { .. }\<close>\<close>

partial_function (option) drain_events ::
  "('a \<Rightarrow> book_event \<Rightarrow> 'a) \<Rightarrow> engine_shared \<Rightarrow> engine_consumer \<Rightarrow> 'a \<Rightarrow> ('a \<times> engine_consumer) outcome" where
  "drain_events f sh c acc =
     (case poll sh c of
        None \<Rightarrow> None
      | Some r \<Rightarrow>
          (case r of
             Inl e \<Rightarrow> Some (Inl e)
           | Inr z \<Rightarrow>
               (case fst z of
                  Ob_Event got \<Rightarrow> drain_events f sh (snd z) (f acc got)
                | Ob_Overrun k t \<Rightarrow> Some (Inr (acc, snd z))
                | Ob_Idle \<Rightarrow> Some (Inr (acc, snd z)))))"

text \<open>\<open>loop { match consumer.poll() { Idle => break, .. } }\<close>, collecting what it saw.\<close>

partial_function (option) drain_idle ::
  "engine_shared \<Rightarrow> engine_consumer \<Rightarrow> observed list \<Rightarrow> (observed list \<times> engine_consumer) outcome" where
  "drain_idle sh c acc =
     (case poll sh c of
        None \<Rightarrow> None
      | Some r \<Rightarrow>
          (case r of
             Inl e \<Rightarrow> Some (Inl e)
           | Inr z \<Rightarrow>
               (if fst z = Ob_Idle then Some (Inr (acc, snd z))
                else drain_idle sh (snd z) (acc @ [fst z]))))"

definition out_assert :: "bool \<Rightarrow> unit outcome" where
  "out_assert b = (if b then Some (Inr ()) else Some (Inl AssertionFailed))"

definition out_option :: "'a option \<Rightarrow> 'a outcome" where
  "out_option x = map_option Inr x"

subsection \<open>The demo\<close>

definition demo_keep_up :: "'b order_book_ops \<Rightarrow> book_event list \<Rightarrow> (u64 \<times> top_of_book) outcome" where
  "demo_keep_up ops corpus =
     out_bind (Some (engine_new ops (2 ^ 16))) (\<lambda>(p, sh).
     out_bind (keep_up ops (\<lambda>n _. n + 1) corpus p sh (engine_consumer_new sh) 0) (\<lambda>(p, sh, c, delivered).
     out_bind (drain_events (\<lambda>n _. n + 1) sh c delivered) (\<lambda>(delivered, c).
     out_bind (out_option (top_of_book_load sh)) (\<lambda>top.
     out_bind (out_assert (delivered = of_nat (length corpus))) (\<lambda>_.
       Some (Inr (delivered, top)))))))"

definition demo_lapped :: "'b order_book_ops \<Rightarrow> book_event list \<Rightarrow> engine_consumer outcome" where
  "demo_lapped ops corpus =
     out_bind (Some (engine_new ops 8)) (\<lambda>(p, sh).
     let c = engine_consumer_new sh in
     out_bind (Some (process_all ops corpus p sh)) (\<lambda>(p, sh).
     out_bind (drain_idle sh c []) (\<lambda>(_, c).
     out_bind (out_assert (0 < ec_resyncs c)) (\<lambda>_. Some (Inr c)))))"

definition demo_config :: gen_config where
  "demo_config =
     \<lparr>gc_profile = Steady, gc_seed = 1, gc_events = 10000, gc_mid = Px 65000, gc_band = 64,
      gc_max_qty = Qty 1024, gc_start_ts = 0\<rparr>"

definition demo_main :: "unit outcome" where
  "demo_main =
     out_bind (generate demo_config) (\<lambda>corpus.
     out_bind (demo_keep_up btree_ops corpus) (\<lambda>_.
     out_bind (demo_lapped btree_ops corpus) (\<lambda>_. Some (Inr ()))))"

subsection \<open>The end-to-end tests\<close>

definition test_corpus :: "nat \<Rightarrow> gen_config" where
  "test_corpus events =
     \<lparr>gc_profile = Steady, gc_seed = 7, gc_events = events, gc_mid = Px 65000, gc_band = 64,
      gc_max_qty = Qty 1024, gc_start_ts = 0\<rparr>"

text \<open>\<open>windows(2)\<close>, and the two assertions on them.\<close>

fun assert_windows :: "(u64 \<Rightarrow> u64 \<Rightarrow> bool) \<Rightarrow> u64 list \<Rightarrow> unit outcome" where
  "assert_windows P (a # b # xs) =
     out_bind (out_assert (P a b)) (\<lambda>_. assert_windows P (b # xs))"
| "assert_windows P _ = Some (Inr ())"

definition assert_ordered :: "u64 list \<Rightarrow> u64 list \<Rightarrow> unit outcome" where
  "assert_ordered seqs tss =
     out_bind (assert_windows (\<lambda>a b. b = a + 1) seqs) (\<lambda>_. assert_windows (\<lambda>a b. b \<ge> a) tss)"

definition collect :: "u64 list \<times> u64 list \<Rightarrow> book_event \<Rightarrow> u64 list \<times> u64 list" where
  "collect acc ev = (fst acc @ [ev_seq ev], snd acc @ [ev_ts ev])"

definition test_ordered_complete_delivery :: "book_event list \<Rightarrow> unit outcome" where
  "test_ordered_complete_delivery evs =
     out_bind (Some (engine_new btree_ops 8192)) (\<lambda>(p, sh).
     out_bind (keep_up btree_ops collect evs p sh (engine_consumer_new sh) ([], [])) (\<lambda>(p, sh, c, acc).
     out_bind (drain_events collect sh c acc) (\<lambda>((seqs, tss), c).
     out_bind (out_assert (length seqs = length evs)) (\<lambda>_.
     out_bind (out_assert (seqs \<noteq> [] \<and> hd seqs = 0)) (\<lambda>_.
     out_bind (assert_ordered seqs tss) (\<lambda>_.
       out_assert (ec_resyncs c = 0)))))))"

definition test_snapshot_at_quiescence :: "book_event list \<Rightarrow> unit outcome" where
  "test_snapshot_at_quiescence evs =
     out_bind (Some (engine_new btree_ops 8192)) (\<lambda>(p, sh).
     out_bind (keep_up btree_ops (\<lambda>u _. u) evs p sh (engine_consumer_new sh) ()) (\<lambda>(p, sh, c, _).
     out_bind (drain_events (\<lambda>u _. u) sh c ()) (\<lambda>(_, c).
     out_bind (out_option (seqlock_load (es_top sh))) (\<lambda>snap.
     out_bind (out_option (top_of_book_load sh)) (\<lambda>top.
     out_bind (out_assert (snap = top)) (\<lambda>_.
     out_bind (out_assert (tob_stamp snap = of_nat (length evs))) (\<lambda>_.
     out_bind (Some (ob_best_bid btree_ops (ep_book p))) (\<lambda>bid.
     out_bind (Some (ob_best_ask btree_ops (ep_book p))) (\<lambda>ask.
     let (bp, bq) = unwrap_level bid; (ap, aq) = unwrap_level ask in
     out_bind (out_assert ((tob_bid_px snap, tob_bid_qty snap) = (ticks bp, lots bq))) (\<lambda>_.
       out_assert ((tob_ask_px snap, tob_ask_qty snap) = (ticks ap, lots aq))))))))))))"

text \<open>The drain of the overrun test: delivered fields, and the two assertions on each snapshot.\<close>

fun check_log :: "observed list \<Rightarrow> u64 list \<times> u64 list \<Rightarrow> nat \<Rightarrow> ((u64 list \<times> u64 list) \<times> nat) outcome" where
  "check_log [] acc n = Some (Inr (acc, n))"
| "check_log (Ob_Event ev # obs) acc n = check_log obs (collect acc ev) n"
| "check_log (Ob_Overrun k t # obs) acc n =
     out_bind (out_assert (0 < tob_stamp t)) (\<lambda>_.
     out_bind (out_assert (i64_le (tob_bid_px t) (tob_ask_px t))) (\<lambda>_. check_log obs acc (n + 1)))"
| "check_log (Ob_Idle # obs) acc n = check_log obs acc n"

definition test_overrun_resync :: "book_event list \<Rightarrow> unit outcome" where
  "test_overrun_resync evs =
     out_bind (Some (engine_new btree_ops 8)) (\<lambda>(p, sh).
     let c = engine_consumer_new sh in
     out_bind (Some (process_all btree_ops evs p sh)) (\<lambda>(p, sh).
     out_bind (drain_idle sh c []) (\<lambda>(obs, c).
     out_bind (check_log obs ([], []) 0) (\<lambda>((seqs, tss), overrun_snapshots).
     out_bind (out_assert (0 < ec_resyncs c)) (\<lambda>_.
     out_bind (out_assert (ec_resyncs c = of_nat overrun_snapshots)) (\<lambda>_.
     out_bind (out_assert (seqs \<noteq> [])) (\<lambda>_.
     out_bind (assert_ordered seqs tss) (\<lambda>_.
     out_bind (out_assert (last seqs = of_nat (length evs) - 1)) (\<lambda>_.
     out_bind (out_option (top_of_book_load sh)) (\<lambda>snap.
       out_assert (ec_last_mid c = mid_of snap)))))))))))"

definition test_final_state :: "book_event list \<Rightarrow> unit outcome" where
  "test_final_state evs =
     out_bind (Some (engine_new btree_ops 8192)) (\<lambda>(p, sh).
     out_bind (Some (process_all btree_ops evs p sh)) (\<lambda>(p, sh).
     out_bind (Some (run_book btree_ops (ob_default btree_ops) evs)) (\<lambda>reference.
     let book = ep_book p in
     out_bind (out_assert (ob_best_bid btree_ops book = ob_best_bid btree_ops reference)) (\<lambda>_.
     out_bind (out_assert (ob_best_ask btree_ops book = ob_best_ask btree_ops reference)) (\<lambda>_.
     out_bind (out_assert (ob_depth btree_ops book Bid = ob_depth btree_ops reference Bid)) (\<lambda>_.
     out_bind (out_assert (ob_depth btree_ops book Ask = ob_depth btree_ops reference Ask)) (\<lambda>_.
     out_bind (out_assert (ob_last_trade btree_ops book = ob_last_trade btree_ops reference)) (\<lambda>_.
       out_assert (ep_stamp p = of_nat (length evs))))))))))"

subsection \<open>Draining a ring at rest\<close>

lemma drain_events_idle:
  assumes "shared_inv cap evs sh" and "length evs \<le> 2 ^ 63" and "ec_cursor c = of_nat (length evs)"
  shows "drain_events f sh c acc = Some (Inr (acc, c))"
  using poll_ok [OF assms order.refl] by (subst drain_events.simps) simp

lemma drain_idle_roomy:
  assumes "shared_inv cap evs sh" and "length evs \<le> 2 ^ 63"
  shows "ec_cursor c = of_nat p \<Longrightarrow> p \<le> length evs \<Longrightarrow> length evs \<le> p + cap \<Longrightarrow>
    drain_idle sh c acc = Some (Inr (acc @ map Ob_Event (drop p evs),
      c\<lparr>ec_cursor := of_nat (length evs), ec_seen := ec_seen c + of_nat (length evs - p)\<rparr>))"
proof (induction "length evs - p" arbitrary: p c acc)
  case 0
  then have "p = length evs" by simp
  moreover from this have "c\<lparr>ec_cursor := of_nat (length evs)\<rparr> = c" using 0 by (cases c) simp
  ultimately show ?case
    using poll_ok [OF assms "0.prems"(1,2)] by (subst drain_idle.simps) simp
next
  case (Suc n)
  let ?c = "c\<lparr>ec_cursor := of_nat (p + 1), ec_seen := ec_seen c + 1\<rparr>"
  have p: "p < length evs" using Suc.hyps(2) by simp
  then have "poll sh c = Some (Inr (Ob_Event (evs ! p), ?c))"
    using poll_ok [OF assms Suc.prems(1,2)] Suc.prems(3) by simp
  then have "drain_idle sh c acc = drain_idle sh ?c (acc @ [Ob_Event (evs ! p)])"
    by (subst drain_idle.simps) simp
  also have "\<dots> = Some (Inr ((acc @ [Ob_Event (evs ! p)]) @ map Ob_Event (drop (p + 1) evs),
      ?c\<lparr>ec_cursor := of_nat (length evs), ec_seen := ec_seen ?c + of_nat (length evs - (p + 1))\<rparr>))"
    using Suc.hyps(2) Suc.prems p by (intro Suc.hyps(1)) simp_all
  also have "(acc @ [Ob_Event (evs ! p)]) @ map Ob_Event (drop (p + 1) evs) = acc @ map Ob_Event (drop p evs)"
    using p by (simp add: Cons_nth_drop_Suc [symmetric])
  also have "?c\<lparr>ec_cursor := of_nat (length evs), ec_seen := ec_seen ?c + of_nat (length evs - (p + 1))\<rparr> =
      c\<lparr>ec_cursor := of_nat (length evs), ec_seen := ec_seen c + of_nat (length evs - p)\<rparr>"
  proof -
    have "length evs - p = Suc (length evs - (p + 1))" using p by simp
    then show ?thesis by (simp add: add.assoc)
  qed
  finally show ?case .
qed

lemma drain_idle_lapped:
  assumes "shared_inv cap evs sh" and "length evs \<le> 2 ^ 63" and "ec_cursor c = of_nat p"
    and "p + cap < length evs"
  shows "drain_idle sh c acc = Some (Inr (acc @
      Ob_Overrun (of_nat (length evs - cap - p)) (top_at evs) # map Ob_Event (drop (length evs - cap) evs),
      c\<lparr>ec_cursor := of_nat (length evs), ec_last_mid := mid_of (top_at evs),
        ec_resyncs := ec_resyncs c + 1, ec_seen := ec_seen c + of_nat cap\<rparr>))"
proof -
  let ?c = "c\<lparr>ec_cursor := of_nat (length evs - cap), ec_last_mid := mid_of (top_at evs),
    ec_resyncs := ec_resyncs c + 1\<rparr>"
  let ?o = "Ob_Overrun (of_nat (length evs - cap - p)) (top_at evs)"
  have "poll sh c = Some (Inr (?o, ?c))"
    using poll_ok [OF assms(1-3)] assms(4) by simp
  then have "drain_idle sh c acc = drain_idle sh ?c (acc @ [?o])"
    by (subst drain_idle.simps) simp
  then show ?thesis
    using drain_idle_roomy [OF assms(1,2), of ?c "length evs - cap" "acc @ [?o]"] assms(4)
    by simp
qed

context order_book
begin

lemma new_ok:
  assumes "engine_new ops cap = Inr (p, sh)"
  shows "producer_inv inv abs [] p" and "shared_inv cap [] sh"
    and "ec_cursor (engine_consumer_new sh) = of_nat 0"
proof -
  obtain R where R: "with_capacity W cap = Inr R"
    "p = \<lparr>ep_book = ob_default ops, ep_stamp = 0\<rparr>"
    "sh = \<lparr>es_top = seqlock_new tob_default, es_ring = R, es_slots = ring_fresh\<rparr>"
    using assms by (auto simp: engine_new_def res_bind_Inr_iff)
  show "producer_inv inv abs [] p"
    by (simp add: R producer_inv_def inv_default abs_default spec_run_def)
  show sh: "shared_inv cap [] sh" unfolding R(3) by (rule shared_inv_new [OF R(1)])
  show "ec_cursor (engine_consumer_new sh) = of_nat 0"
    using consumer_new_ok(1) [OF sh] by simp
qed

lemma process_all_ok:
  assumes "producer_inv inv abs done p" and "shared_inv cap done sh" and "\<forall>ev \<in> set evs. adm ev"
  shows "\<exists>p' sh'. process_all ops evs p sh = Inr (p', sh') \<and> producer_inv inv abs (done @ evs) p'
    \<and> shared_inv cap (done @ evs) sh'"
  using assms
proof (induction evs arbitrary: "done" p sh)
  case (Cons ev evs)
  obtain p1 sh1 where "process ops ev p sh = Inr (p1, sh1)" "producer_inv inv abs (done @ [ev]) p1"
      "shared_inv cap (done @ [ev]) sh1"
    using Cons.prems by (auto intro: process_ok)
  with Cons.IH [of "done @ [ev]" p1 sh1] Cons.prems(3) show ?case by simp
qed simp

lemma keep_up_ok:
  assumes "producer_inv inv abs done p" and "shared_inv cap done sh" and "\<forall>ev \<in> set evs. adm ev"
    and "0 < cap" and "length (done @ evs) \<le> 2 ^ 63" and "ec_cursor c = of_nat (length done)"
  shows "\<exists>p' sh' c'. keep_up ops f evs p sh c acc = Some (Inr (p', sh', c', foldl f acc evs))
    \<and> producer_inv inv abs (done @ evs) p' \<and> shared_inv cap (done @ evs) sh'
    \<and> ec_cursor c' = of_nat (length (done @ evs)) \<and> ec_resyncs c' = ec_resyncs c"
  using assms
proof (induction evs arbitrary: "done" p sh c acc)
  case (Cons ev evs)
  obtain p1 sh1 where one: "process ops ev p sh = Inr (p1, sh1)" "producer_inv inv abs (done @ [ev]) p1"
      "shared_inv cap (done @ [ev]) sh1"
    using Cons.prems by (auto intro: process_ok)
  let ?c = "c\<lparr>ec_cursor := of_nat (length done + 1), ec_seen := ec_seen c + 1\<rparr>"
  have "poll sh1 c = Some (Inr (Ob_Event ev, ?c))"
    using poll_ok [OF one(3) _ Cons.prems(6)] Cons.prems(4,5) by simp
  with one(1) have "keep_up ops f (ev # evs) p sh c acc = keep_up ops f evs p1 sh1 ?c (f acc ev)"
    by simp
  with Cons.IH [OF one(2,3), of ?c "f acc ev"] Cons.prems(3-5) show ?case by simp
qed simp

end

lemma engine_new_ok:
  assumes "\<exists>k < 64. cap = 2 ^ k"
  obtains p sh where "engine_new ops cap = Inr (p, sh)"
  using assms with_capacity_pow that by (auto simp: engine_new_def)

subsection \<open>The demo\<close>

lemma foldl_count: "foldl (\<lambda>n _. n + 1) k evs = k + of_nat (length evs)" for k :: u64
  by (induction evs arbitrary: k) (simp_all add: add.assoc)

lemma keep_up_run:
  assumes "\<exists>k < 64. cap = 2 ^ k" and "length evs \<le> 2 ^ 63"
  obtains p0 sh0 p sh c where "engine_new btree_ops cap = Inr (p0, sh0)"
    "keep_up btree_ops f evs p0 sh0 (engine_consumer_new sh0) acc = Some (Inr (p, sh, c, foldl f acc evs))"
    "drain_events f sh c (foldl f acc evs) = Some (Inr (foldl f acc evs, c))"
    "producer_inv btree_inv btree_abs evs p" "shared_inv cap evs sh" "ec_resyncs c = 0"
proof -
  obtain p0 sh0 where new: "engine_new btree_ops cap = Inr (p0, sh0)"
    by (rule engine_new_ok [OF assms(1)])
  have "0 < cap" using assms(1) by auto
  moreover have "ec_resyncs (engine_consumer_new sh0) = 0" by (simp add: engine_consumer_new_def)
  ultimately obtain p sh c where run:
      "keep_up btree_ops f evs p0 sh0 (engine_consumer_new sh0) acc = Some (Inr (p, sh, c, foldl f acc evs))"
      "producer_inv btree_inv btree_abs evs p" "shared_inv cap evs sh"
      "ec_cursor c = of_nat (length evs)" "ec_resyncs c = 0"
    using btree.keep_up_ok [OF btree.new_ok(1,2) [OF new], of evs "engine_consumer_new sh0" f acc]
      btree.new_ok(3) [OF new] assms(2) by auto
  with drain_events_idle [OF run(3) assms(2) run(4)] show thesis using new by (intro that)
qed

lemma process_all_run:
  assumes "\<exists>k < 64. cap = 2 ^ k"
  obtains p0 sh0 p sh where "engine_new btree_ops cap = Inr (p0, sh0)"
    "process_all btree_ops evs p0 sh0 = Inr (p, sh)" "ec_cursor (engine_consumer_new sh0) = of_nat 0"
    "ec_resyncs (engine_consumer_new sh0) = 0" "ec_seen (engine_consumer_new sh0) = 0"
    "producer_inv btree_inv btree_abs evs p" "shared_inv cap evs sh"
proof -
  obtain p0 sh0 where new: "engine_new btree_ops cap = Inr (p0, sh0)"
    by (rule engine_new_ok [OF assms(1)])
  with btree.process_all_ok [OF btree.new_ok(1,2) [OF new], of evs] show thesis
    using btree.new_ok(3) [OF new] that by (auto simp: engine_consumer_new_def)
qed

lemma capacities: "\<exists>k < 64. (8 :: nat) = 2 ^ k" "\<exists>k < 64. (8192 :: nat) = 2 ^ k" "\<exists>k < 64. (2 :: nat) ^ 16 = 2 ^ k"
  by (intro exI [of _ 3], simp) (intro exI [of _ 13], simp, intro exI [of _ 16], simp)

lemma keep_up_passes:
  assumes "length corpus \<le> 2 ^ 63"
  shows "demo_keep_up btree_ops corpus = Some (Inr (of_nat (length corpus), top_at corpus))"
proof -
  obtain p0 sh0 p sh c where run: "engine_new btree_ops (2 ^ 16) = Inr (p0, sh0)"
    "keep_up btree_ops (\<lambda>n _. n + 1) corpus p0 sh0 (engine_consumer_new sh0) (0 :: u64) =
      Some (Inr (p, sh, c, foldl (\<lambda>n _. n + 1) 0 corpus))"
    "drain_events (\<lambda>n _. n + 1) sh c (foldl (\<lambda>n _. n + 1) (0 :: u64) corpus) =
      Some (Inr (foldl (\<lambda>n _. n + 1) 0 corpus, c))"
    "shared_inv (2 ^ 16) corpus sh"
    by (rule keep_up_run [OF capacities(3) assms, of "\<lambda>n _. n + 1" "0 :: u64"]) blast
  have "top_of_book_load sh = Some (top_at corpus)"
    using run(4) by (simp add: shared_inv_def top_of_book_load_def published_load)
  then show ?thesis
    using run(1-3) by (simp add: demo_keep_up_def foldl_count out_option_def out_assert_def)
qed

lemma lapped_outcome:
  assumes "length corpus \<le> 2 ^ 63"
  shows "demo_lapped btree_ops corpus =
    (if length corpus \<le> 8 then Some (Inl AssertionFailed)
     else Some (Inr \<lparr>ec_cursor = of_nat (length corpus), ec_seen = 8, ec_resyncs = 1,
       ec_last_mid = mid_of (top_at corpus)\<rparr>))"
proof -
  obtain p0 sh0 p sh where run: "engine_new btree_ops 8 = Inr (p0, sh0)"
    "process_all btree_ops corpus p0 sh0 = Inr (p, sh)" "ec_cursor (engine_consumer_new sh0) = of_nat 0"
    "ec_resyncs (engine_consumer_new sh0) = 0" "ec_seen (engine_consumer_new sh0) = 0"
    and sh: "shared_inv 8 corpus sh"
    by (rule process_all_run [OF capacities(1), of corpus]) blast
  show ?thesis
    using run drain_idle_roomy [OF sh assms run(3), of "[]"] drain_idle_lapped [OF sh assms run(3), of "[]"]
    by (simp add: demo_lapped_def out_assert_def Let_def)
qed

text \<open>
  What the demo prints. For every corpus the keeping-up consumer is delivered every
  event and the final snapshot is the top of the whole corpus; the lapped consumer sees one overrun
  and then exactly the last eight events, its mid taken from the final snapshot, or, if the corpus is
  too short to lap it, the assertion fails.
\<close>
theorem demo_outcomes:
  assumes "length corpus \<le> 2 ^ 63"
  shows "demo_keep_up btree_ops corpus = Some (Inr (of_nat (length corpus), top_at corpus))
    \<and> demo_lapped btree_ops corpus =
      (if length corpus \<le> 8 then Some (Inl AssertionFailed)
       else Some (Inr \<lparr>ec_cursor = of_nat (length corpus), ec_seen = 8, ec_resyncs = 1,
         ec_last_mid = mid_of (top_at corpus)\<rparr>))"
  using keep_up_passes [OF assms] lapped_outcome [OF assms] by blast

theorem demo_outcomes_witness:
  "demo_keep_up btree_ops [ev_clear 0 0] = Some (Inr (of_nat (length [ev_clear 0 0]), top_at [ev_clear 0 0]))
   \<and> demo_lapped btree_ops [ev_clear 0 0] =
      (if length [ev_clear 0 0] \<le> 8 then Some (Inl AssertionFailed)
       else Some (Inr \<lparr>ec_cursor = of_nat (length [ev_clear 0 0]), ec_seen = 8, ec_resyncs = 1,
         ec_last_mid = mid_of (top_at [ev_clear 0 0])\<rparr>))"
  by (rule demo_outcomes) simp

text \<open>
  The demo binary runs to its end: its corpus is generated, both consumers drain, and
  no assertion fails.
\<close>
theorem demo_main_completes: "demo_main = Some (Inr ())"
proof -
  obtain corpus where corpus: "generate demo_config = Some (Inr corpus)" "length corpus = 10000"
    by (rule generate_facts [of demo_config]) (simp add: demo_config_def)
  then have "length corpus \<le> 2 ^ 63" by simp
  with corpus show ?thesis
    by (simp add: demo_main_def keep_up_passes lapped_outcome)
qed

subsection \<open>The tests\<close>

lemma foldl_collect: "foldl collect acc evs = (fst acc @ map ev_seq evs, snd acc @ map ev_ts evs)"
  by (induction evs arbitrary: acc) (simp_all add: collect_def)

lemma assert_windows_ok:
  "(\<And>i. Suc i < length xs \<Longrightarrow> P (xs ! i) (xs ! Suc i)) \<Longrightarrow> assert_windows P xs = Some (Inr ())"
proof (induction P xs rule: assert_windows.induct)
  case (1 P a b xs)
  have "P a b" using "1.prems" [of 0] by simp
  moreover have "P ((b # xs) ! i) ((b # xs) ! Suc i)" if "Suc i < length (b # xs)" for i
    using "1.prems" [of "Suc i"] that by simp
  ultimately show ?case using "1.IH" by (simp add: out_assert_def)
qed simp_all

text \<open>The stream facts the ordering assertions need, kept by every suffix.\<close>

definition dense_from :: "nat \<Rightarrow> book_event list \<Rightarrow> bool" where
  "dense_from k evs \<longleftrightarrow> (\<forall>i < length evs. ev_seq (evs ! i) = of_nat (k + i))
     \<and> sorted (map (\<lambda>ev. unat (ev_ts ev)) evs)"

lemma dense_drop: "dense_from k evs \<Longrightarrow> n \<le> length evs \<Longrightarrow> dense_from (k + n) (drop n evs)"
  by (auto simp: dense_from_def drop_map [symmetric] sorted_wrt_drop add.assoc)

lemma assert_ordered_ok:
  assumes "dense_from k evs"
  shows "assert_ordered (map ev_seq evs) (map ev_ts evs) = Some (Inr ())"
proof -
  have "map ev_seq evs ! Suc i = map ev_seq evs ! i + 1" if "Suc i < length evs" for i
    using assms that by (simp add: dense_from_def)
  moreover have "map ev_ts evs ! i \<le> map ev_ts evs ! Suc i" if "Suc i < length evs" for i
    using assms that sorted_nth_mono [of "map (\<lambda>ev. unat (ev_ts ev)) evs" i "Suc i"]
    by (simp add: dense_from_def word_le_nat_alt)
  ultimately show ?thesis
    using assert_windows_ok [of "map ev_seq evs" "\<lambda>a b. b = a + 1"]
      assert_windows_ok [of "map ev_ts evs" "\<lambda>a b. b \<ge> a"]
    by (simp add: assert_ordered_def)
qed

lemma check_log_events: "check_log (map Ob_Event evs) acc n = Some (Inr (foldl collect acc evs, n))"
  by (induction evs arbitrary: acc) simp_all

lemma generated_dense:
  assumes "generate (test_corpus n) = Some (Inr evs)" and "n \<le> 2 ^ 40"
  shows "dense_from 0 evs" and "length evs = n"
proof -
  obtain evs' where g: "generate (test_corpus n) = Some (Inr evs')" "length evs' = gc_events (test_corpus n)"
      "stream_ok (test_corpus n) evs'"
      "ts_ok (test_corpus n) \<Longrightarrow> sorted (map (\<lambda>ev. unat (ev_ts ev)) evs')"
    by (rule generate_facts [of "test_corpus n"]) blast
  moreover have "evs' = evs" using g(1) assms(1) by simp
  moreover have "ts_ok (test_corpus n)" using assms(2) by (simp add: ts_ok_def test_corpus_def)
  ultimately show "dense_from 0 evs" "length evs = n"
    by (simp_all add: dense_from_def stream_ok_def test_corpus_def)
qed

lemma ordered_delivery_passes:
  assumes "dense_from 0 evs" and "evs \<noteq> []" and "length evs \<le> 2 ^ 40"
  shows "test_ordered_complete_delivery evs = Some (Inr ())"
proof -
  have "length evs \<le> 2 ^ 63" using assms(3) by simp
  then obtain p0 sh0 p sh c where run: "engine_new btree_ops 8192 = Inr (p0, sh0)"
    "keep_up btree_ops collect evs p0 sh0 (engine_consumer_new sh0) ([], []) =
      Some (Inr (p, sh, c, foldl collect ([], []) evs))"
    "drain_events collect sh c (foldl collect ([], []) evs) = Some (Inr (foldl collect ([], []) evs, c))"
    "ec_resyncs c = 0"
    by (rule keep_up_run [OF capacities(2), of evs collect "([], [])"]) blast+
  have "hd (map ev_seq evs) = 0"
    using assms(1,2) by (cases evs) (force simp: dense_from_def)+
  then show ?thesis
    using run assms(2) assert_ordered_ok [OF assms(1)]
    by (simp add: test_ordered_complete_delivery_def foldl_collect out_assert_def)
qed

lemma snapshot_passes:
  assumes "length evs \<le> 2 ^ 63"
  shows "test_snapshot_at_quiescence evs = Some (Inr ())"
proof -
  obtain p0 sh0 p sh c where run: "engine_new btree_ops 8192 = Inr (p0, sh0)"
    "keep_up btree_ops (\<lambda>u _. u) evs p0 sh0 (engine_consumer_new sh0) () = Some (Inr (p, sh, c, foldl (\<lambda>u _. u) () evs))"
    "drain_events (\<lambda>u _. u) sh c (foldl (\<lambda>u _. u) () evs) = Some (Inr (foldl (\<lambda>u _. u) () evs, c))"
    and inv: "producer_inv btree_inv btree_abs evs p" "shared_inv 8192 evs sh"
    by (rule keep_up_run [OF capacities(2) assms, of "\<lambda>u _. u" "()"]) blast
  have load: "seqlock_load (es_top sh) = Some (top_at evs)"
    using inv(2) by (simp add: shared_inv_def published_load)
  have best: "ob_best_bid btree_ops (ep_book p) = Inr (spec_best_bid (spec_run evs))"
    "ob_best_ask btree_ops (ep_book p) = Inr (spec_best_ask (spec_run evs))"
    using inv(1) btree.best_bid_ok [of "ep_book p"] btree.best_ask_ok [of "ep_book p"]
    by (simp_all add: producer_inv_def)
  show ?thesis
    using run by (simp add: test_snapshot_at_quiescence_def top_of_book_load_def load best out_option_def
        out_assert_def top_at_def top_of_def Let_def split: prod.split)
qed

lemma final_state_passes: "test_final_state evs = Some (Inr ())"
proof -
  obtain p0 sh0 p sh where run: "engine_new btree_ops 8192 = Inr (p0, sh0)"
    "process_all btree_ops evs p0 sh0 = Inr (p, sh)" and inv: "producer_inv btree_inv btree_abs evs p"
    by (rule process_all_run [OF capacities(2), of evs]) blast
  obtain b where b: "run_book btree_ops (ob_default btree_ops) evs = Inr b" "btree_inv b" "btree_abs b = spec_run evs"
    by (rule btree.replay_ok [of evs]) simp
  have p: "btree_inv (ep_book p)" "btree_abs (ep_book p) = spec_run evs" "ep_stamp p = of_nat (length evs)"
    using inv by (simp_all add: producer_inv_def)
  show ?thesis
    using run b p by (simp add: test_final_state_def out_assert_def Let_def
        btree.best_bid_ok btree.best_ask_ok btree.depth_ok btree.last_ok)
qed

lemma overrun_outcome:
  assumes "dense_from 0 evs" and "8 < length evs" and "length evs \<le> 2 ^ 40"
  shows "test_overrun_resync evs =
    (if i64_le (tob_bid_px (top_at evs)) (tob_ask_px (top_at evs)) then Some (Inr ())
     else Some (Inl AssertionFailed))"
proof -
  let ?n = "length evs"
  have short: "?n \<le> 2 ^ 63" using assms(3) by simp
  obtain p0 sh0 p sh where run: "engine_new btree_ops 8 = Inr (p0, sh0)"
    "process_all btree_ops evs p0 sh0 = Inr (p, sh)" "ec_cursor (engine_consumer_new sh0) = of_nat 0"
    "ec_resyncs (engine_consumer_new sh0) = 0" and sh: "shared_inv 8 evs sh"
    by (rule process_all_run [OF capacities(1), of evs]) blast
  have load: "top_of_book_load sh = Some (top_at evs)"
    using sh by (simp add: shared_inv_def top_of_book_load_def published_load)
  have stamp: "0 < tob_stamp (top_at evs)"
    using assms(2,3) by (auto simp: top_at_def top_of_def word_less_nat_alt unat_of_nat take_bit_nat_eq_self
        split: prod.split)
  let ?tail = "drop (?n - 8) evs"
  have tail: "dense_from (?n - 8) ?tail" using dense_drop [OF assms(1), of "?n - 8"] by simp
  have "?tail \<noteq> []" using assms(2) by simp
  then have last: "last (map ev_seq ?tail) = of_nat ?n - 1"
    using assms(1,2) by (simp add: last_map last_drop last_conv_nth dense_from_def of_nat_diff)
  show ?thesis
    using run drain_idle_lapped [OF sh short run(3), of "[]"] assms(2) load stamp last
      assert_ordered_ok [OF tail] \<open>?tail \<noteq> []\<close>
    by (simp add: test_overrun_resync_def Let_def check_log_events foldl_collect out_assert_def out_option_def
        drop_map del: drop_eq_Nil)
qed

text \<open>What the tests do on corpora the ring can hold: nothing is overrun, and the test that wants an overrun fails.\<close>

lemma overrun_roomy:
  assumes "length evs \<le> 8"
  shows "test_overrun_resync evs = Some (Inl AssertionFailed)"
proof -
  have short: "length evs \<le> 2 ^ 63" using assms by simp
  obtain p0 sh0 p sh where run: "engine_new btree_ops 8 = Inr (p0, sh0)"
    "process_all btree_ops evs p0 sh0 = Inr (p, sh)" "ec_cursor (engine_consumer_new sh0) = of_nat 0"
    "ec_resyncs (engine_consumer_new sh0) = 0" and sh: "shared_inv 8 evs sh"
    by (rule process_all_run [OF capacities(1), of evs]) blast
  show ?thesis
    using run drain_idle_roomy [OF sh short run(3), of "[]"] assms
    by (simp add: test_overrun_resync_def Let_def check_log_events foldl_collect out_assert_def)
qed

lemma ordered_delivery_empty: "test_ordered_complete_delivery [] = Some (Inl AssertionFailed)"
proof -
  obtain p0 sh0 p sh c where run: "engine_new btree_ops 8192 = Inr (p0, sh0)"
    "keep_up btree_ops collect [] p0 sh0 (engine_consumer_new sh0) ([], []) =
      Some (Inr (p, sh, c, foldl collect ([], []) []))"
    "drain_events collect sh c (foldl collect ([], []) []) = Some (Inr (foldl collect ([], []) [], c))"
    by (rule keep_up_run [OF capacities(2), of "[]" collect "([], [])"]) auto
  then have "engine_new btree_ops 8192 = Inr (p, sh)" "engine_consumer_new sh0 = c" "sh0 = sh"
    "drain_events collect sh c ([], []) = Some (Inr (([], []), c))" by auto
  then show ?thesis by (simp add: test_ordered_complete_delivery_def out_assert_def)
qed

text \<open>
  Property C36: the end-to-end tests as a function of the size of their corpus, for every size up to \<open>2 ^ 40\<close>.
  The snapshot and the final-state test pass; the ordered-delivery test passes unless the corpus is empty. The
  overrun test passes iff the corpus laps its ring of eight and the final snapshot is not crossed, which it
  also asserts (an empty ask side is published as price zero and counts as crossed).
\<close>
theorem pipeline_tests:
  assumes "generate (test_corpus n) = Some (Inr evs)" and "n \<le> 2 ^ 40"
  shows "test_snapshot_at_quiescence evs = Some (Inr ()) \<and> test_final_state evs = Some (Inr ())
    \<and> test_ordered_complete_delivery evs = (if n = 0 then Some (Inl AssertionFailed) else Some (Inr ()))
    \<and> test_overrun_resync evs =
      (if 8 < n \<and> i64_le (tob_bid_px (top_at evs)) (tob_ask_px (top_at evs)) then Some (Inr ())
       else Some (Inl AssertionFailed))"
proof -
  note g = generated_dense [OF assms]
  have short: "length evs \<le> 2 ^ 63" "length evs \<le> 2 ^ 40" using g(2) assms(2) by auto
  show ?thesis
    using g short ordered_delivery_passes [OF g(1)] overrun_roomy [of evs] overrun_outcome [OF g(1)]
    by (cases "8 < length evs"; cases evs) (simp_all add: snapshot_passes final_state_passes ordered_delivery_empty)
qed

text \<open>The corpus of size nine: the \<open>Clear\<close> and the first four levels of both ladders.\<close>

definition nine_events :: "book_event list" where
  "nine_events =
     [ev_clear 0 0,
      ev_level 1 0 Bid (Px 64999) (Qty 1024), ev_level 2 0 Ask (Px 65001) (Qty 1024),
      ev_level 3 0 Bid (Px 64998) (Qty 512), ev_level 4 0 Ask (Px 65002) (Qty 512),
      ev_level 5 0 Bid (Px 64997) (Qty 256), ev_level 6 0 Ask (Px 65003) (Qty 256),
      ev_level 7 0 Bid (Px 64996) (Qty 128), ev_level 8 0 Ask (Px 65004) (Qty 128)]"

lemma decay_values: "decay_qty 1024 1 = 1024" "decay_qty 1024 2 = 512" "decay_qty 1024 3 = 256"
  "decay_qty 1024 4 = 128"
  by (simp_all add: decay_qty_def Let_def i64_max_def i64_le_def signed_drop_bit_word_numeral)

lemma generate_nine: "generate (test_corpus 9) = Some (Inr nine_events)"
  unfolding generate_def test_corpus_def
  by (subst flow_loop.simps)
    (simp add: seed_def sim_new_def sim_clear_def full_def push_event_def i64_le_def Let_def
      sim_level_def decay_values nine_events_def)

theorem pipeline_tests_witness:
  "test_snapshot_at_quiescence nine_events = Some (Inr ()) \<and> test_final_state nine_events = Some (Inr ())
    \<and> test_ordered_complete_delivery nine_events =
      (if (9::nat) = 0 then Some (Inl AssertionFailed) else Some (Inr ()))
    \<and> test_overrun_resync nine_events =
      (if (8::nat) < 9 \<and> i64_le (tob_bid_px (top_at nine_events)) (tob_ask_px (top_at nine_events)) then Some (Inr ())
       else Some (Inl AssertionFailed))"
  by (rule pipeline_tests [OF generate_nine]) simp

text \<open>An empty side is published as price zero, and the derived mid is then half the other price.\<close>

lemma one_sided_mid:
  "mid_of (top_at [ev_level 0 0 Bid (Px 100) (Qty 1)]) = 50"
  by (simp add: top_at_def spec_run_def spec_apply_def spec_empty_def ev_defs spec_best_bid_def
      spec_best_ask_def qty_zero_def px_zero_def top_of_def unwrap_level_def mid_of_def i64_div_def Let_def
      signed_divide_int_def)

subsection \<open>Generated corpora and the four books\<close>

text \<open>
  The four books agree on every generated corpus. For a configuration with room around
  its mid, and a width the flat array can hold, replaying what any profile generates never panics
  and all four implementations agree on every observation after every event.
\<close>
theorem generated_books_agree:
  assumes "generate cfg = Some (Inr evs)" and "cfg_ok cfg"
    and "band_ok (sint (ticks (gc_mid cfg)) - width cfg) (sint (ticks (gc_mid cfg)) + width cfg + 1)"
  shows "drive_and_check evs = Inr ()"
proof -
  let ?lo = "sint (ticks (gc_mid cfg)) - width cfg" and ?hi = "sint (ticks (gc_mid cfg)) + width cfg + 1"
  obtain evs' where "generate cfg = Some (Inr evs')" "stream_ok cfg evs'"
    by (rule generate_facts [of cfg]) blast
  then have "stream_ok cfg evs" using assms(1) by simp
  then have "ev_fine cfg ev" if "ev \<in> set evs" for ev
    using that by (auto simp: stream_ok_def in_set_conv_nth)
  then have "\<forall>ev \<in> set evs. flat_adm ?lo ?hi ev"
    using assms(2,3) by (force simp: flat_adm_def ev_fine_def px_near_def in_band_def)
  then show ?thesis
    unfolding drive_and_check_def by (intro drive_from_ok [OF four_inv_default])
qed

theorem generated_books_agree_witness: "drive_and_check nine_events = Inr ()"
  by (rule generated_books_agree [OF generate_nine])
    (simp_all add: cfg_ok_def width_def test_corpus_def band_ok_def MAX_SPAN_def)

end
