(* ===== verification/Http.thy ===== *)
theory Http
  imports Decimal
begin

section \<open>The recorder's HTTP response parser (feed/src/bin/recorder.rs)\<close>

text \<open>
  \<open>parse_http_body\<close> and \<open>dechunk\<close> on the bytes of a response. A \<open>str\<close> taken from a size line is its list
  of code points, decoded by the UTF-8 table of the standard library, so that \<open>trim\<close> strips the Unicode
  white space it strips. The header is only searched for ASCII text, which its lossy decoding leaves in
  place, so it is searched as bytes. \<open>usize\<close> addition wraps. Errors are values, panics of the slice
  operations are the outer sum.
\<close>

datatype http_error =
    NoHeaderEnd | BadStatus "u8 list" | MissingSizeLine | SizeNotUtf8 | BadSize int_error | TruncatedChunk

definition ascii :: "string \<Rightarrow> u8 list" where
  "ascii s = map (\<lambda>c. of_nat (of_char c)) s"

definition CRLF :: "u8 list" where "CRLF = [13, 10]"

subsection \<open>Text\<close>

definition is_cont :: "nat \<Rightarrow> bool" where
  "is_cont b \<longleftrightarrow> 0x80 \<le> b \<and> b \<le> 0xBF"

fun utf8_decode :: "nat list \<Rightarrow> nat list option" where
  "utf8_decode [] = Some []"
| "utf8_decode (a # r) =
     (if a < 0x80 then map_option ((#) a) (utf8_decode r)
      else if 0xC2 \<le> a \<and> a \<le> 0xDF then
        (case r of
           b # r1 \<Rightarrow> if is_cont b
             then map_option ((#) ((a - 0xC0) * 64 + (b - 0x80))) (utf8_decode r1) else None
         | _ \<Rightarrow> None)
      else if 0xE0 \<le> a \<and> a \<le> 0xEF then
        (case r of
           b # c # r2 \<Rightarrow>
             if is_cont b \<and> is_cont c \<and> (a = 0xE0 \<longrightarrow> 0xA0 \<le> b) \<and> (a = 0xED \<longrightarrow> b \<le> 0x9F)
             then map_option ((#) ((a - 0xE0) * 4096 + (b - 0x80) * 64 + (c - 0x80))) (utf8_decode r2)
             else None
         | _ \<Rightarrow> None)
      else if 0xF0 \<le> a \<and> a \<le> 0xF4 then
        (case r of
           b # c # d # r3 \<Rightarrow>
             if is_cont b \<and> is_cont c \<and> is_cont d \<and> (a = 0xF0 \<longrightarrow> 0x90 \<le> b) \<and> (a = 0xF4 \<longrightarrow> b \<le> 0x8F)
             then map_option ((#) ((a - 0xF0) * 262144 + (b - 0x80) * 4096 + (c - 0x80) * 64 + (d - 0x80)))
                    (utf8_decode r3)
             else None
         | _ \<Rightarrow> None)
      else None)"

definition is_whitespace :: "nat \<Rightarrow> bool" where
  "is_whitespace c \<longleftrightarrow>
     9 \<le> c \<and> c \<le> 13 \<or> c = 0x20 \<or> c = 0x85 \<or> c = 0xA0 \<or> c = 0x1680 \<or> 0x2000 \<le> c \<and> c \<le> 0x200A
     \<or> c = 0x2028 \<or> c = 0x2029 \<or> c = 0x202F \<or> c = 0x205F \<or> c = 0x3000"

definition trim :: "nat list \<Rightarrow> nat list" where
  "trim cs = rev (dropWhile is_whitespace (rev (dropWhile is_whitespace cs)))"

text \<open>\<open>windows(n).position(|w| w == pat)\<close>, for a non-empty pattern of length \<open>n\<close>.\<close>

fun find_window :: "'a list \<Rightarrow> 'a list \<Rightarrow> nat option" where
  "find_window pat [] = None"
| "find_window pat (x # xs) =
     (if take (length pat) (x # xs) = pat then Some 0 else map_option Suc (find_window pat xs))"

definition contains :: "'a list \<Rightarrow> 'a list \<Rightarrow> bool" where
  "contains xs pat \<longleftrightarrow> find_window pat xs \<noteq> None"

lemma find_window_Some:
  "find_window pat xs = Some n \<Longrightarrow> \<exists>u w. xs = u @ pat @ w \<and> length u = n"
proof (induction xs arbitrary: n)
  case (Cons x xs)
  show ?case
  proof (cases "take (length pat) (x # xs) = pat")
    case True
    then have "x # xs = [] @ pat @ drop (length pat) (x # xs)" by (metis append_Nil append_take_drop_id)
    then show ?thesis
      using True Cons.prems by (intro exI [of _ "[]"] exI [of _ "drop (length pat) (x # xs)"]) simp
  next
    case False
    with Cons obtain m u w where "n = Suc m" "xs = u @ pat @ w" "length u = m" by auto
    then show ?thesis by (intro exI [of _ "x # u"] exI [of _ w]) auto
  qed
qed simp

text \<open>The first match, when the text before it avoids the pattern's first element.\<close>

lemma find_window_first:
  "p \<notin> set u \<Longrightarrow> find_window (p # ps) (u @ (p # ps) @ w) = Some (length u)"
  by (induction u) auto

subsection \<open>Chunked bodies\<close>

definition USIZE_MAX :: nat where "USIZE_MAX = 2 ^ 64 - 1"

definition chunk_size :: "u8 list \<Rightarrow> http_error + nat" where
  "chunk_size line =
     (case utf8_decode (map unat line) of
        None \<Rightarrow> Inl SizeNotUtf8
      | Some cs \<Rightarrow>
          (case parse_uint 16 USIZE_MAX (trim (takeWhile (\<lambda>c. c \<noteq> of_char (CHR '';'')) cs)) of
             Inl e \<Rightarrow> Inl (BadSize e)
           | Inr n \<Rightarrow> Inr n))"

function dechunk_loop :: "u8 list \<Rightarrow> u8 list \<Rightarrow> (http_error + u8 list) res" where
  "dechunk_loop body out =
     (case find_window CRLF body of
        None \<Rightarrow> Inr (Inl MissingSizeLine)
      | Some nl \<Rightarrow>
          (case chunk_size (take nl body) of
             Inl e \<Rightarrow> Inr (Inl e)
           | Inr n \<Rightarrow>
               (let body = drop (nl + 2) body; next = (n + 2) mod 2 ^ 64
                in if n = 0 then Inr (Inr out)
                   else if length body < next then Inr (Inl TruncatedChunk)
                   else res_bind (slice body 0 n) (\<lambda>data.
                        res_bind (slice body next (length body)) (\<lambda>rest.
                          dechunk_loop rest (out @ data))))))"
  by pat_completeness auto
termination
  by (relation "measure (\<lambda>(body, out). length body)")
    (auto simp: slice_def CRLF_def split: if_splits dest!: find_window_Some)

declare dechunk_loop.simps [simp del]

definition dechunk :: "u8 list \<Rightarrow> (http_error + u8 list) res" where
  "dechunk body = dechunk_loop body []"

subsection \<open>Responses\<close>

text \<open>\<open>split\<close> on a two-byte separator: the pieces, at least one.\<close>

fun split_crlf :: "u8 list \<Rightarrow> u8 list list" where
  "split_crlf [] = [[]]"
| "split_crlf [x] = [[x]]"
| "split_crlf (x # y # xs) =
     (if x = 13 \<and> y = 10 then [] # split_crlf xs
      else case split_crlf (y # xs) of l # ls \<Rightarrow> (x # l) # ls | [] \<Rightarrow> [[x]])"

definition to_ascii_lowercase :: "u8 list \<Rightarrow> u8 list" where
  "to_ascii_lowercase = map (\<lambda>b. if 65 \<le> b \<and> b \<le> 90 then b + 32 else b)"

definition starts_with :: "'a list \<Rightarrow> 'a list \<Rightarrow> bool" where
  "starts_with xs pat \<longleftrightarrow> take (length pat) xs = pat"

definition is_chunked_line :: "u8 list \<Rightarrow> bool" where
  "is_chunked_line l \<longleftrightarrow>
     starts_with (to_ascii_lowercase l) (ascii ''transfer-encoding:'')
     \<and> contains (to_ascii_lowercase l) (ascii ''chunked'')"

definition parse_http_body :: "u8 list \<Rightarrow> (http_error + u8 list) res" where
  "parse_http_body raw =
     (case find_window (CRLF @ CRLF) raw of
        None \<Rightarrow> Inr (Inl NoHeaderEnd)
      | Some split \<Rightarrow>
          res_bind (slice raw 0 split) (\<lambda>header.
          res_bind (slice raw (split + 4) (length raw)) (\<lambda>body.
            let lines = split_crlf header
            in if \<not> contains (hd lines) (ascii '' 200 '') then Inr (Inl (BadStatus (hd lines)))
               else if list_ex is_chunked_line (tl lines) then dechunk body
               else Inr (Inr body))))"

subsection \<open>Encoding a chunked body\<close>

text \<open>
  A size line is the hexadecimal length, an extension (\<open>ok_ext\<close>: empty, or ASCII text that starts with
  a semicolon and holds no carriage return) and a line end; a body is its chunks, a zero size line and
  a trailer.
\<close>

definition size_line :: "nat \<Rightarrow> u8 list \<Rightarrow> u8 list" where
  "size_line n ext = map of_nat (show_radix 16 n) @ ext"

definition ok_ext :: "u8 list \<Rightarrow> bool" where
  "ok_ext ext \<longleftrightarrow> (ext = [] \<or> hd ext = 59) \<and> list_all (\<lambda>b. unat b < 128 \<and> b \<noteq> 13) ext"

definition chunk_bytes :: "u8 list \<times> u8 list \<Rightarrow> u8 list" where
  "chunk_bytes c = (let (ext, data) = c in size_line (length data) ext @ CRLF @ data @ CRLF)"

definition chunked :: "(u8 list \<times> u8 list) list \<Rightarrow> u8 list \<Rightarrow> u8 list" where
  "chunked cs trailer = concat (map chunk_bytes cs) @ size_line 0 [] @ CRLF @ trailer"

definition ok_chunk :: "u8 list \<times> u8 list \<Rightarrow> bool" where
  "ok_chunk c \<longleftrightarrow> ok_ext (fst c) \<and> snd c \<noteq> [] \<and> length (snd c) < 2 ^ 63"

lemma utf8_ascii: "list_all (\<lambda>a. a < 128) xs \<Longrightarrow> utf8_decode xs = Some xs"
  by (induction xs) auto

lemma trim_plain: "list_all (\<lambda>c. \<not> is_whitespace c) xs \<Longrightarrow> trim xs = xs"
proof -
  have plain: "dropWhile is_whitespace ys = ys" if "list_all (\<lambda>c. \<not> is_whitespace c) ys" for ys
    using that by (cases ys) auto
  assume "list_all (\<lambda>c. \<not> is_whitespace c) xs"
  then show ?thesis by (simp add: trim_def plain list_all_rev)
qed

lemma hex_chars: "list_all (\<lambda>c. 48 \<le> c \<and> c < 103 \<and> c \<noteq> 59) (show_radix 16 n)"
  using show_radix_chars [of _ 16 n] by (auto simp: list_all_iff)

lemma size_line_bytes:
  assumes "ok_ext ext"
  shows "map unat (size_line n ext) = show_radix 16 n @ map unat ext"
    and "list_all (\<lambda>b. unat b < 128 \<and> b \<noteq> 13) (size_line n ext)"
proof -
  have hex: "unat (of_nat c :: u8) = c \<and> (of_nat c :: u8) \<noteq> 13" if "c \<in> set (show_radix 16 n)" for c
  proof -
    have c: "48 \<le> c" "c < 103" using hex_chars [of n] that by (auto simp: list_all_iff)
    then have "unat (of_nat c :: u8) = c" by (simp add: unat_of_nat)
    moreover have "(of_nat c :: u8) \<noteq> 13"
    proof
      assume "(of_nat c :: u8) = 13"
      then have "unat (of_nat c :: u8) = unat (13 :: u8)" by (rule arg_cong)
      with \<open>unat (of_nat c :: u8) = c\<close> c show False by simp
    qed
    ultimately show ?thesis by blast
  qed
  show "map unat (size_line n ext) = show_radix 16 n @ map unat ext"
    using hex by (simp add: size_line_def map_idI)
  show "list_all (\<lambda>b. unat b < 128 \<and> b \<noteq> 13) (size_line n ext)"
    using assms hex hex_chars [of n] by (auto simp: size_line_def ok_ext_def list_all_iff)
qed

lemma chunk_size_line:
  assumes "ok_ext ext" and "n \<le> USIZE_MAX"
  shows "chunk_size (size_line n ext) = Inr n"
proof -
  have "utf8_decode (map unat (size_line n ext)) = Some (map unat (size_line n ext))"
    using size_line_bytes(2) [OF assms(1), of n] by (intro utf8_ascii) (auto simp: list_all_iff)
  moreover have "takeWhile (\<lambda>c. c \<noteq> 59) (show_radix 16 n @ map unat ext) = show_radix 16 n"
  proof -
    have "\<forall>c \<in> set (show_radix 16 n). c \<noteq> 59" using hex_chars [of n] by (auto simp: list_all_iff)
    moreover have "takeWhile (\<lambda>c. c \<noteq> 59) (map unat ext) = []"
      using assms(1) by (cases ext) (auto simp: ok_ext_def)
    ultimately show ?thesis by (simp add: takeWhile_append)
  qed
  moreover have "trim (show_radix 16 n) = show_radix 16 n"
    using hex_chars [of n] by (intro trim_plain) (auto simp: list_all_iff is_whitespace_def)
  moreover have "parse_uint 16 USIZE_MAX (show_radix 16 n) = Inr n"
    using assms(2) by (intro parse_show_radix) auto
  ultimately show ?thesis
    by (simp add: chunk_size_def size_line_bytes(1) [OF assms(1)])
qed

lemma find_size_line:
  assumes "ok_ext ext"
  shows "find_window CRLF (size_line n ext @ CRLF @ rest) = Some (length (size_line n ext))"
proof -
  have "(13 :: u8) \<notin> set (size_line n ext)"
    using size_line_bytes(2) [OF assms, of n] by (auto simp: list_all_iff)
  from find_window_first [OF this, of "[10]" rest] show ?thesis by (simp add: CRLF_def)
qed

lemma dechunk_zero:
  "dechunk_loop (size_line 0 [] @ CRLF @ trailer) out = Inr (Inr out)"
proof -
  have e: "ok_ext []" by (simp add: ok_ext_def)
  show ?thesis
    by (subst dechunk_loop.simps)
      (simp add: find_size_line [OF e] chunk_size_line [OF e] USIZE_MAX_def)
qed

lemma dechunk_chunk:
  assumes "ok_chunk c"
  shows "dechunk_loop (chunk_bytes c @ rest) out = dechunk_loop rest (out @ snd c)"
proof -
  obtain ext data where c: "c = (ext, data)" by fastforce
  have e: "ok_ext ext" and d: "data \<noteq> []" "length data < 2 ^ 63" using assms by (simp_all add: c ok_chunk_def)
  have nx: "(length data + 2) mod 2 ^ 64 = length data + 2" using d by simp
  have "chunk_bytes c @ rest = size_line (length data) ext @ CRLF @ data @ CRLF @ rest"
    by (simp add: c chunk_bytes_def)
  moreover have "chunk_size (size_line (length data) ext) = Inr (length data)"
    using e d by (intro chunk_size_line) (auto simp: USIZE_MAX_def)
  moreover have "slice (data @ CRLF @ rest) 0 (length data) = Inr data"
    by (simp add: slice_def)
  moreover have "slice (data @ CRLF @ rest) (length data + 2) (length (data @ CRLF @ rest)) = Inr rest"
    by (simp add: slice_def CRLF_def)
  ultimately show ?thesis
    using d by (subst dechunk_loop.simps)
      (simp add: find_size_line [OF e] Let_def nx c, simp add: CRLF_def)
qed

lemma dechunk_chunked:
  "list_all ok_chunk cs \<Longrightarrow> dechunk_loop (chunked cs trailer) out = Inr (Inr (out @ concat (map snd cs)))"
proof (induction cs arbitrary: out)
  case Nil
  then show ?case by (simp add: chunked_def dechunk_zero)
next
  case (Cons c cs)
  have "chunked (c # cs) trailer = chunk_bytes c @ chunked cs trailer" by (simp add: chunked_def)
  then show ?case using Cons by (simp add: dechunk_chunk)
qed

text \<open>A header: its lines, none empty and none with a carriage return, joined by line ends.\<close>

fun join_lines :: "u8 list list \<Rightarrow> u8 list" where
  "join_lines [] = []"
| "join_lines [l] = l"
| "join_lines (l # ls) = l @ CRLF @ join_lines ls"

definition ok_line :: "u8 list \<Rightarrow> bool" where
  "ok_line l \<longleftrightarrow> l \<noteq> [] \<and> 13 \<notin> set l"

lemma find_window_skip:
  "p \<notin> set u \<Longrightarrow>
   find_window (p # ps) (u @ w) = map_option ((+) (length u)) (find_window (p # ps) w)"
proof (induction u)
  case Nil
  then show ?case by (cases "find_window (p # ps) w") simp_all
next
  case (Cons a u)
  then show ?case by (auto simp: option.map_comp comp_def)
qed

lemma join_lines_head:
  "list_all ok_line ls \<Longrightarrow> ls \<noteq> [] \<Longrightarrow> \<exists>x xs. join_lines ls = x # xs \<and> x \<noteq> 13"
  by (cases ls rule: join_lines.cases) (auto simp: ok_line_def neq_Nil_conv)

lemma header_end:
  "list_all ok_line ls \<Longrightarrow> ls \<noteq> [] \<Longrightarrow>
   find_window (CRLF @ CRLF) (join_lines ls @ CRLF @ CRLF @ rest) = Some (length (join_lines ls))"
proof (induction ls rule: join_lines.induct)
  case (2 l)
  then show ?case by (simp add: CRLF_def ok_line_def find_window_skip)
next
  case (3 l k ls)
  obtain x xs where x: "join_lines (k # ls) = x # xs" "x \<noteq> 13"
    using join_lines_head [of "k # ls"] 3(2) by auto
  have "find_window (CRLF @ CRLF) (join_lines (k # ls) @ CRLF @ CRLF @ rest) = Some (length (join_lines (k # ls)))"
    using 3 by simp
  then show ?case
    using 3(2) x by (simp add: CRLF_def ok_line_def find_window_skip)
qed simp

lemma split_crlf_line: "13 \<notin> set l \<Longrightarrow> split_crlf (l @ CRLF @ rest) = l # split_crlf rest"
proof (induction l)
  case (Cons a l)
  then show ?case by (cases l) (auto simp: CRLF_def)
qed (simp add: CRLF_def)

lemma split_crlf_plain: "13 \<notin> set l \<Longrightarrow> split_crlf l = [l]"
proof (induction l)
  case (Cons a l)
  then show ?case by (cases l) auto
qed simp

lemma split_join: "list_all ok_line ls \<Longrightarrow> ls \<noteq> [] \<Longrightarrow> split_crlf (join_lines ls) = ls"
  by (induction ls rule: join_lines.induct)
    (auto simp: ok_line_def split_crlf_line split_crlf_plain)

lemma parse_response:
  assumes "list_all ok_line (status # hs)"
  shows "parse_http_body (join_lines (status # hs) @ CRLF @ CRLF @ body) =
    (if \<not> contains status (ascii '' 200 '') then Inr (Inl (BadStatus status))
     else if list_ex is_chunked_line hs then dechunk body else Inr (Inr body))"
proof -
  let ?h = "join_lines (status # hs)" and ?raw = "join_lines (status # hs) @ CRLF @ CRLF @ body"
  have "slice ?raw 0 (length ?h) = Inr ?h" by (simp add: slice_def)
  moreover have "slice ?raw (length ?h + 4) (length ?raw) = Inr body"
    by (simp add: slice_def CRLF_def)
  moreover have "find_window (CRLF @ CRLF) ?raw = Some (length ?h)"
    using header_end [OF assms] by blast
  moreover have "split_crlf ?h = status # hs" using split_join [OF assms] by blast
  ultimately show ?thesis by (simp add: parse_http_body_def)
qed

text \<open>
  Property C37: a chunked response is decoded exactly. For a 200 response whose header announces chunked
  coding, and any list of non-empty chunks with any ASCII chunk extensions and any trailer,
  \<open>parse_http_body\<close> returns the concatenation of the chunks' data.
\<close>
theorem http_chunked_round_trip:
  assumes "list_all ok_line (status # hs)" and "contains status (ascii '' 200 '')"
    and "list_ex is_chunked_line hs" and "list_all ok_chunk cs"
  shows "parse_http_body (join_lines (status # hs) @ CRLF @ CRLF @ chunked cs trailer)
    = Inr (Inr (concat (map snd cs)))"
  by (simp add: parse_response [OF assms(1)] assms(2,3) dechunk_def dechunk_chunked [OF assms(4)])

theorem http_chunked_round_trip_witness:
  "parse_http_body (join_lines [ascii ''HTTP/1.1 200 OK'', ascii ''Transfer-Encoding: chunked''] @ CRLF @ CRLF
     @ chunked [([], [1, 2, 3]), (ascii '';q=1'', [13, 10])] [13, 10]) = Inr (Inr [1, 2, 3, 13, 10])"
  using http_chunked_round_trip [of "ascii ''HTTP/1.1 200 OK''" "[ascii ''Transfer-Encoding: chunked'']"
      "[([], [1, 2, 3]), (ascii '';q=1'', [13, 10])]" "[13, 10]"]
  by (simp add: ascii_def ok_line_def contains_def is_chunked_line_def starts_with_def
      to_ascii_lowercase_def ok_chunk_def ok_ext_def)

lemma dechunk_panics:
  "dechunk_loop body out = Inl p \<Longrightarrow>
   \<exists>pre line rest n. body = pre @ line @ CRLF @ rest \<and> chunk_size line = Inr n \<and> 2 ^ 64 - 2 \<le> n"
proof (induction body arbitrary: out rule: measure_induct_rule [where f = length])
  case (less body)
  obtain nl n where nl: "find_window CRLF body = Some nl" and n: "chunk_size (take nl body) = Inr n"
    and nz: "n \<noteq> 0" and len: "\<not> length (drop (nl + 2) body) < (n + 2) mod 2 ^ 64"
    using less.prems by (subst (asm) (1) dechunk_loop.simps)
      (auto simp: Let_def split: option.splits sum.splits if_splits)
  obtain u w where u: "body = u @ CRLF @ w" "length u = nl" using find_window_Some [OF nl] by blast
  then have parts: "take nl body = u" "drop (nl + 2) body = w" by (auto simp: CRLF_def)
  show ?case
  proof (cases "2 ^ 64 - 2 \<le> n")
    case True
    then have "body = [] @ u @ CRLF @ w \<and> chunk_size u = Inr n \<and> 2 ^ 64 - 2 \<le> n"
      using n by (simp add: u(1) [symmetric] parts)
    then show ?thesis by blast
  next
    case False
    then have nx: "(n + 2) mod 2 ^ 64 = n + 2" by simp
    have fits: "n + 2 \<le> length w" using len unfolding nx parts by simp
    then have data: "slice w 0 n = Inr (take n w)"
      and rest: "slice w (n + 2) (length w) = Inr (drop (n + 2) w)" by (simp_all add: slice_def)
    have "dechunk_loop body out = dechunk_loop (drop (n + 2) w) (out @ take n w)"
      by (subst dechunk_loop.simps)
        (use nz fits in \<open>simp only: nl n [unfolded parts] option.case sum.case Let_def parts nx data rest
          res_bind.simps if_False if_True not_less [symmetric]\<close>)
    then have "dechunk_loop (drop (n + 2) w) (out @ take n w) = Inl p" using less.prems by simp
    moreover have "length (drop (n + 2) w) < length body" using u by (simp add: CRLF_def)
    ultimately obtain pre line r m where "drop (n + 2) w = pre @ line @ CRLF @ r" "chunk_size line = Inr m"
      "2 ^ 64 - 2 \<le> m"
      using less.IH by blast
    moreover have "body = (u @ CRLF @ take (n + 2) w) @ drop (n + 2) w" by (simp add: u)
    ultimately show ?thesis by (metis append_assoc)
  qed
qed

text \<open>
  Property C38: the decoder can panic, and only on one input. Whenever it panics, the body holds a size
  line that announces at least \<open>2^64 - 2\<close> bytes, so that skipping the chunk's line end wraps past the
  length check; every other malformed body is an error value.
\<close>
theorem dechunk_panic_cause:
  assumes "dechunk body = Inl p"
  shows "\<exists>pre line rest n. body = pre @ line @ CRLF @ rest \<and> chunk_size line = Inr n \<and> 2 ^ 64 - 2 \<le> n"
  using assms unfolding dechunk_def by (rule dechunk_panics)

theorem dechunk_panic_cause_witness:
  "dechunk (ascii ''ffffffffffffffff'' @ CRLF @ [1, 2, 3]) = Inl IndexOutOfBounds
   \<and> (\<exists>pre line rest n. ascii ''ffffffffffffffff'' @ CRLF @ [1, 2, 3] = pre @ line @ CRLF @ rest
        \<and> chunk_size line = Inr n \<and> 2 ^ 64 - 2 \<le> n)"
proof -
  have "dechunk (ascii ''ffffffffffffffff'' @ CRLF @ [1, 2, 3]) = Inl IndexOutOfBounds"
    by (simp add: dechunk_def dechunk_loop.simps ascii_def CRLF_def chunk_size_def trim_def
        is_whitespace_def parse_uint_def to_digit_def USIZE_MAX_def slice_def)
  with dechunk_panic_cause [OF this] show ?thesis by blast
qed

end
