(* ===== verification/Recorder.thy ===== *)
theory Recorder
  imports Http Corpus
begin

section \<open>The Binance recorder (feed/src/bin/recorder.rs)\<close>

text \<open>
  The recorder's own logic: command line, scale resolution, snapshot, emission of events, the
  depth-diff synchronisation loop and the provenance sidecar. Third-party code is a parameter: \<open>'v json\<close>
  holds the accessors of \<open>serde_json::Value\<close> that the source calls, \<open>'w net\<close> one HTTPS exchange and the
  websocket subscription over a world \<open>'w\<close>. An \<open>'a io\<close> threads the world and returns the source's
  \<open>Result\<close>, or a panic. The loop consumes the events that \<open>select!\<close> picks, in their order.
\<close>

datatype rec_error =
    MissingFlag string | MissingFlagValue | UnknownArgument string | BadNumber int_error
  | NetError string | HttpError http_error | JsonError string string
  | NoFilters | NoTickSize | NoStepSize | NoLastUpdateId | LevelsNotArray
  | PxNotString | QtyNotString | ConvFailed string string conv_error
  | SaveFailed | MetaJson string | MetaWrite

subsection \<open>Command line\<close>

record cli =
  cli_symbol :: string
  cli_duration_secs :: u64
  cli_out :: string
  cli_max_events :: "u64 option"
  cli_with_trades :: bool

record cli_acc =
  ca_symbol :: "string option"
  ca_duration :: "u64 option"
  ca_out :: "string option"
  ca_max :: "u64 option"
  ca_trades :: bool

definition parse_u64 :: "string \<Rightarrow> rec_error + u64" where
  "parse_u64 s =
     (case parse_uint 10 (2 ^ 64 - 1) (codes s) of Inl e \<Rightarrow> Inl (BadNumber e) | Inr n \<Rightarrow> Inr (of_nat n))"

text \<open>
  The argument loop. \<open>next\<close> is the pattern that takes the following argument, or fails. \<open>upper\<close> is
  \<open>str::to_uppercase\<close>, whose Unicode tables are a parameter.
\<close>

fun parse_args :: "(string \<Rightarrow> string) \<Rightarrow> string list \<Rightarrow> cli_acc \<Rightarrow> rec_error + cli_acc" where
  "parse_args upper [] a = Inr a"
| "parse_args upper (x # xs) a =
     (if x = ''--with-trades'' then parse_args upper xs (a\<lparr>ca_trades := True\<rparr>)
      else if x \<in> {''--symbol'', ''--duration-secs'', ''--out'', ''--max-events''} then
        (case xs of
           [] \<Rightarrow> Inl MissingFlagValue
         | v # ys \<Rightarrow>
             if x = ''--symbol'' then parse_args upper ys (a\<lparr>ca_symbol := Some (upper v)\<rparr>)
             else if x = ''--duration-secs'' then
               res_bind (parse_u64 v) (\<lambda>n. parse_args upper ys (a\<lparr>ca_duration := Some n\<rparr>))
             else if x = ''--out'' then parse_args upper ys (a\<lparr>ca_out := Some v\<rparr>)
             else res_bind (parse_u64 v) (\<lambda>n. parse_args upper ys (a\<lparr>ca_max := Some n\<rparr>)))
      else Inl (UnknownArgument x))"

definition parse_cli :: "(string \<Rightarrow> string) \<Rightarrow> string list \<Rightarrow> rec_error + cli" where
  "parse_cli upper args =
     res_bind (parse_args upper args
       \<lparr>ca_symbol = None, ca_duration = None, ca_out = None, ca_max = None, ca_trades = False\<rparr>) (\<lambda>a.
     res_bind (ok_or (MissingFlag ''--symbol'') (ca_symbol a)) (\<lambda>symbol.
     res_bind (ok_or (MissingFlag ''--duration-secs'') (ca_duration a)) (\<lambda>duration.
     res_bind (ok_or (MissingFlag ''--out'') (ca_out a)) (\<lambda>out.
       Inr \<lparr>cli_symbol = symbol, cli_duration_secs = duration, cli_out = out,
            cli_max_events = ca_max a, cli_with_trades = ca_trades a\<rparr>))))"

subsection \<open>The world and JSON\<close>

record 'v json =
  js_from_slice :: "u8 list \<Rightarrow> string + 'v"
  js_from_str :: "string \<Rightarrow> 'v option"
  js_field :: "'v \<Rightarrow> string \<Rightarrow> 'v"
  js_index :: "'v \<Rightarrow> nat \<Rightarrow> 'v"
  js_get :: "'v \<Rightarrow> nat \<Rightarrow> 'v option"
  js_str :: "'v \<Rightarrow> string option"
  js_u64 :: "'v \<Rightarrow> u64 option"
  js_bool :: "'v \<Rightarrow> bool option"
  js_array :: "'v \<Rightarrow> 'v list option"

record 'w net =
  nt_exchange :: "u8 list \<Rightarrow> 'w \<Rightarrow> (string + u8 list) \<times> 'w"
  nt_subscribe :: "string list \<Rightarrow> 'w \<Rightarrow> (string + unit) \<times> 'w"

type_synonym ('w, 'a) io = "'w \<Rightarrow> (rec_error + 'a) res \<times> 'w"

definition io_return :: "'a \<Rightarrow> ('w, 'a) io" where
  "io_return a w = (Inr (Inr a), w)"

definition io_lift :: "(rec_error + 'a) \<Rightarrow> ('w, 'a) io" where
  "io_lift r w = (Inr r, w)"

definition io_bind :: "('w, 'a) io \<Rightarrow> ('a \<Rightarrow> ('w, 'b) io) \<Rightarrow> ('w, 'b) io" where
  "io_bind m f w =
     (case m w of
        (Inr (Inr a), w') \<Rightarrow> f a w'
      | (Inr (Inl e), w') \<Rightarrow> (Inr (Inl e), w')
      | (Inl p, w') \<Rightarrow> (Inl p, w'))"

definition REST_HOST :: string where "REST_HOST = ''api.binance.com''"

definition request :: "string \<Rightarrow> u8 list" where
  "request path =
     ascii (''GET '' @ path @ '' HTTP/1.1'') @ CRLF @ ascii (''Host: '' @ REST_HOST) @ CRLF
     @ ascii ''User-Agent: web3-terminal-recorder/1'' @ CRLF @ ascii ''Accept: application/json'' @ CRLF
     @ ascii ''Connection: close'' @ CRLF @ CRLF"

definition https_get :: "'w net \<Rightarrow> string \<Rightarrow> ('w, u8 list) io" where
  "https_get net path w =
     (case nt_exchange net (request path) w of
        (Inl e, w') \<Rightarrow> (Inr (Inl (NetError e)), w')
      | (Inr raw, w') \<Rightarrow>
          (case parse_http_body raw of
             Inl p \<Rightarrow> (Inl p, w')
           | Inr (Inl e) \<Rightarrow> (Inr (Inl (HttpError e)), w')
           | Inr (Inr body) \<Rightarrow> (Inr (Inr body), w')))"

definition get_json :: "'v json \<Rightarrow> 'w net \<Rightarrow> string \<Rightarrow> ('w, 'v) io" where
  "get_json js net path =
     io_bind (https_get net path) (\<lambda>body.
       io_lift (case js_from_slice js body of Inl e \<Rightarrow> Inl (JsonError path e) | Inr v \<Rightarrow> Inr v))"

subsection \<open>Scales and snapshots\<close>

record scales =
  sc_tick_size :: string
  sc_step_size :: string

text \<open>The loop over the filters: a later filter of the same type overrides an earlier one.\<close>

definition scan_filter :: "'v json \<Rightarrow> 'v \<Rightarrow> string option \<times> string option \<Rightarrow> string option \<times> string option" where
  "scan_filter js f acc =
     (if js_str js (js_field js f ''filterType'') = Some ''PRICE_FILTER''
      then (js_str js (js_field js f ''tickSize''), snd acc)
      else if js_str js (js_field js f ''filterType'') = Some ''LOT_SIZE''
      then (fst acc, js_str js (js_field js f ''stepSize''))
      else acc)"

definition scales_of :: "'v json \<Rightarrow> 'v \<Rightarrow> rec_error + scales" where
  "scales_of js v =
     res_bind (ok_or NoFilters (Option.bind (js_get js (js_field js v ''symbols'') 0)
         (\<lambda>s. js_array js (js_field js s ''filters'')))) (\<lambda>filters.
     let (tick, step) = fold (scan_filter js) filters (None, None)
     in res_bind (ok_or NoTickSize tick) (\<lambda>t. res_bind (ok_or NoStepSize step) (\<lambda>s.
          Inr \<lparr>sc_tick_size = t, sc_step_size = s\<rparr>)))"

definition resolve_scales :: "'v json \<Rightarrow> 'w net \<Rightarrow> string \<Rightarrow> ('w, scales) io" where
  "resolve_scales js net symbol =
     io_bind (get_json js net (''/api/v3/exchangeInfo?symbol='' @ symbol)) (\<lambda>v. io_lift (scales_of js v))"

record snapshot =
  sn_last_update_id :: u64
  sn_bids :: "(string \<times> string) list"
  sn_asks :: "(string \<times> string) list"

fun entries_of :: "'v json \<Rightarrow> 'v list \<Rightarrow> rec_error + (string \<times> string) list" where
  "entries_of js [] = Inr []"
| "entries_of js (e # es) =
     res_bind (ok_or PxNotString (js_str js (js_index js e 0))) (\<lambda>p.
     res_bind (ok_or QtyNotString (js_str js (js_index js e 1))) (\<lambda>q.
     res_bind (entries_of js es) (\<lambda>r. Inr ((p, q) # r))))"

definition levels_of :: "'v json \<Rightarrow> 'v \<Rightarrow> rec_error + (string \<times> string) list" where
  "levels_of js v = res_bind (ok_or LevelsNotArray (js_array js v)) (entries_of js)"

definition snapshot_of :: "'v json \<Rightarrow> 'v \<Rightarrow> rec_error + snapshot" where
  "snapshot_of js v =
     res_bind (ok_or NoLastUpdateId (js_u64 js (js_field js v ''lastUpdateId''))) (\<lambda>n.
     res_bind (levels_of js (js_field js v ''bids'')) (\<lambda>b.
     res_bind (levels_of js (js_field js v ''asks'')) (\<lambda>a.
       Inr \<lparr>sn_last_update_id = n, sn_bids = b, sn_asks = a\<rparr>)))"

definition fetch_snapshot :: "'v json \<Rightarrow> 'w net \<Rightarrow> string \<Rightarrow> ('w, snapshot) io" where
  "fetch_snapshot js net symbol =
     io_bind (get_json js net (''/api/v3/depth?symbol='' @ symbol @ ''&limit=1000''))
       (\<lambda>v. io_lift (snapshot_of js v))"

subsection \<open>Emission\<close>

record emitter =
  em_events :: "book_event list"
  em_seq :: u64

definition em_push :: "book_event \<Rightarrow> emitter \<Rightarrow> emitter" where
  "em_push ev em = em\<lparr>em_events := em_events em @ [ev], em_seq := em_seq em + 1\<rparr>"

definition conv :: "string \<Rightarrow> string \<Rightarrow> string \<Rightarrow> rec_error + i64" where
  "conv label text unit =
     (case to_ticks text unit of Inl e \<Rightarrow> Inl (ConvFailed label text e) | Inr n \<Rightarrow> Inr n)"

definition emit_level :: "scales \<Rightarrow> u64 \<Rightarrow> side \<Rightarrow> string \<Rightarrow> string \<Rightarrow> emitter \<Rightarrow> rec_error + emitter" where
  "emit_level sc ts_ms sd px_text qty_text em =
     res_bind (conv ''px'' px_text (sc_tick_size sc)) (\<lambda>p.
     res_bind (conv ''qty'' qty_text (sc_step_size sc)) (\<lambda>q.
       Inr (em_push (ev_level (em_seq em) (ts_ms * 1000000) sd (Px p) (Qty q)) em)))"

definition emit_trade :: "scales \<Rightarrow> u64 \<Rightarrow> side \<Rightarrow> string \<Rightarrow> string \<Rightarrow> emitter \<Rightarrow> rec_error + emitter" where
  "emit_trade sc ts_ms aggressor px_text qty_text em =
     res_bind (conv ''trade px'' px_text (sc_tick_size sc)) (\<lambda>p.
     res_bind (conv ''trade qty'' qty_text (sc_step_size sc)) (\<lambda>q.
       Inr (em_push (ev_trade (em_seq em) (ts_ms * 1000000) aggressor (Px p) (Qty q)) em)))"

fun emit_levels :: "scales \<Rightarrow> u64 \<Rightarrow> side \<Rightarrow> (string \<times> string) list \<Rightarrow> emitter \<Rightarrow> rec_error + emitter" where
  "emit_levels sc ts_ms sd [] em = Inr em"
| "emit_levels sc ts_ms sd ((p, q) # ls) em =
     res_bind (emit_level sc ts_ms sd p q em) (emit_levels sc ts_ms sd ls)"

definition seed_snapshot :: "scales \<Rightarrow> snapshot \<Rightarrow> emitter \<Rightarrow> rec_error + emitter" where
  "seed_snapshot sc snap em =
     res_bind (emit_levels sc 0 Bid (sn_bids snap) (em_push (ev_clear (em_seq em) 0) em))
       (emit_levels sc 0 Ask (sn_asks snap))"

fun apply_entries :: "'v json \<Rightarrow> scales \<Rightarrow> u64 \<Rightarrow> side \<Rightarrow> 'v list \<Rightarrow> emitter \<Rightarrow> rec_error + emitter" where
  "apply_entries js sc e_ms sd [] em = Inr em"
| "apply_entries js sc e_ms sd (entry # es) em =
     res_bind (ok_or PxNotString (js_str js (js_index js entry 0))) (\<lambda>p.
     res_bind (ok_or QtyNotString (js_str js (js_index js entry 1))) (\<lambda>q.
     res_bind (emit_level sc e_ms sd p q em) (apply_entries js sc e_ms sd es)))"

text \<open>A side whose field is not an array is skipped.\<close>

definition apply_side :: "'v json \<Rightarrow> scales \<Rightarrow> u64 \<Rightarrow> side \<Rightarrow> 'v \<Rightarrow> emitter \<Rightarrow> rec_error + emitter" where
  "apply_side js sc e_ms sd v em =
     (case js_array js v of None \<Rightarrow> Inr em | Some arr \<Rightarrow> apply_entries js sc e_ms sd arr em)"

definition apply_diff :: "'v json \<Rightarrow> scales \<Rightarrow> u64 \<Rightarrow> 'v \<Rightarrow> emitter \<Rightarrow> rec_error + emitter" where
  "apply_diff js sc e_ms diff em =
     res_bind (apply_side js sc e_ms Bid (js_field js diff ''b'') em)
       (apply_side js sc e_ms Ask (js_field js diff ''a''))"

subsection \<open>The synchronisation loop\<close>

record rec_state =
  rs_em :: emitter
  rs_last_update_id :: u64
  rs_prev_u :: u64
  rs_synced :: bool
  rs_resnapshots :: u32

text \<open>\<open>resnapshot\<close>, and the two assignments that follow each of its calls.\<close>

definition resnapshot :: "'v json \<Rightarrow> 'w net \<Rightarrow> cli \<Rightarrow> scales \<Rightarrow> rec_state \<Rightarrow> ('w, rec_state) io" where
  "resnapshot js net c sc st =
     io_bind (fetch_snapshot js net (cli_symbol c)) (\<lambda>snap.
     io_bind (io_lift (seed_snapshot sc snap (rs_em st))) (\<lambda>em.
       io_return (st\<lparr>rs_em := em, rs_last_update_id := sn_last_update_id snap, rs_synced := False,
                     rs_resnapshots := rs_resnapshots st + 1\<rparr>)))"

text \<open>
  One depth update. The Boolean says whether the \<open>max_events\<close> check after the match is reached; the
  \<open>continue\<close> branches skip it.
\<close>

definition on_depth ::
  "'v json \<Rightarrow> 'w net \<Rightarrow> cli \<Rightarrow> scales \<Rightarrow> 'v \<Rightarrow> rec_state \<Rightarrow> ('w, bool \<times> rec_state) io" where
  "on_depth js net c sc v st =
     (case (js_u64 js (js_field js v ''u''), js_u64 js (js_field js v ''U''), js_u64 js (js_field js v ''E'')) of
        (Some uu, Some uu_first, Some e_ms) \<Rightarrow>
          if rs_synced st then
            (if uu_first = rs_prev_u st + 1
             then io_bind (io_lift (apply_diff js sc e_ms v (rs_em st))) (\<lambda>em.
                    io_return (True, st\<lparr>rs_em := em, rs_prev_u := uu\<rparr>))
             else io_bind (resnapshot js net c sc st) (\<lambda>st'. io_return (True, st')))
          else if uu \<le> rs_last_update_id st then io_return (False, st)
          else if uu_first \<le> rs_last_update_id st + 1 \<and> rs_last_update_id st < uu
          then io_bind (io_lift (apply_diff js sc e_ms v (rs_em st))) (\<lambda>em.
                 io_return (True, st\<lparr>rs_em := em, rs_prev_u := uu, rs_synced := True\<rparr>))
          else io_bind (resnapshot js net c sc st) (\<lambda>st'. io_return (True, st'))
      | _ \<Rightarrow> io_return (False, st))"

definition on_trade :: "'v json \<Rightarrow> scales \<Rightarrow> 'v \<Rightarrow> rec_state \<Rightarrow> rec_error + bool \<times> rec_state" where
  "on_trade js sc v st =
     (case (js_u64 js (js_field js v ''E''), js_str js (js_field js v ''p''), js_str js (js_field js v ''q'')) of
        (Some e_ms, Some p, Some q) \<Rightarrow>
          (let aggressor = (if js_bool js (js_field js v ''m'') = Some True then Ask else Bid)
           in res_bind (emit_trade sc e_ms aggressor p q (rs_em st)) (\<lambda>em. Inr (True, st\<lparr>rs_em := em\<rparr>)))
      | _ \<Rightarrow> Inr (False, st))"

definition on_message ::
  "'v json \<Rightarrow> 'w net \<Rightarrow> cli \<Rightarrow> scales \<Rightarrow> string \<Rightarrow> rec_state \<Rightarrow> ('w, bool \<times> rec_state) io" where
  "on_message js net c sc text st =
     (case js_from_str js text of
        None \<Rightarrow> io_return (False, st)
      | Some v \<Rightarrow>
          if js_str js (js_field js v ''e'') = Some ''depthUpdate'' then on_depth js net c sc v st
          else if js_str js (js_field js v ''e'') = Some ''trade'' \<and> cli_with_trades c
          then io_lift (on_trade js sc v st)
          else io_return (True, st))"

text \<open>
  What \<open>select!\<close> picks: the deadline, Ctrl-C, the next text of the channel, or its end. The loop on
  a list of these returns the state and whether it left the loop; on an exhausted list it waits.
\<close>

datatype rec_input = Deadline | CtrlC | Received string | Closed

definition max_reached :: "cli \<Rightarrow> rec_state \<Rightarrow> bool" where
  "max_reached c st \<longleftrightarrow> (case cli_max_events c of None \<Rightarrow> False | Some m \<Rightarrow> m \<le> em_seq (rs_em st))"

fun rec_loop ::
  "'v json \<Rightarrow> 'w net \<Rightarrow> cli \<Rightarrow> scales \<Rightarrow> rec_input list \<Rightarrow> rec_state \<Rightarrow> ('w, bool \<times> rec_state) io" where
  "rec_loop js net c sc [] st = io_return (False, st)"
| "rec_loop js net c sc (Deadline # xs) st = io_return (True, st)"
| "rec_loop js net c sc (CtrlC # xs) st = io_return (True, st)"
| "rec_loop js net c sc (Closed # xs) st = io_return (True, st)"
| "rec_loop js net c sc (Received text # xs) st =
     io_bind (on_message js net c sc text st) (\<lambda>(check, st').
       if check \<and> max_reached c st' then io_return (True, st')
       else rec_loop js net c sc xs st')"

text \<open>The reader task: text frames are forwarded in order until the stream closes or fails.\<close>

datatype ws_message = WsText string | WsPing "u8 list" | WsOther | WsClose | WsError

fun reader_task :: "ws_message list \<Rightarrow> string list" where
  "reader_task [] = []"
| "reader_task (WsText t # ms) = t # reader_task ms"
| "reader_task (WsClose # ms) = []"
| "reader_task (WsError # ms) = []"
| "reader_task (_ # ms) = reader_task ms"

definition start_state :: "emitter \<Rightarrow> snapshot \<Rightarrow> rec_state" where
  "start_state em snap =
     \<lparr>rs_em = em, rs_last_update_id = sn_last_update_id snap, rs_prev_u = 0, rs_synced = False,
      rs_resnapshots = 0\<rparr>"

subsection \<open>Time stamps and the provenance sidecar\<close>

text \<open>
  The civil date of a day count since 1970-01-01. \<open>i64\<close> division truncates; nothing wraps, since the
  day count of a \<open>u64\<close> number of seconds is below \<open>2^48\<close>.
\<close>

definition civil_from_days :: "int \<Rightarrow> int \<times> int \<times> int" where
  "civil_from_days days =
     (let z = days + 719468;
          era = (if 0 \<le> z then z else z - 146096) sdiv 146097;
          doe = z - era * 146097;
          yoe = (doe - doe sdiv 1460 + doe sdiv 36524 - doe sdiv 146096) sdiv 365;
          y = yoe + era * 400;
          doy = doe - (365 * yoe + yoe sdiv 4 - yoe sdiv 100);
          mp = (5 * doy + 2) sdiv 153;
          d = doy - (153 * mp + 2) sdiv 5 + 1;
          m = (if mp < 10 then mp + 3 else mp - 9)
      in (if m \<le> 2 then y + 1 else y, m, d))"

definition iso8601_utc :: "u64 \<Rightarrow> string" where
  "iso8601_utc secs =
     (let days = int (unat secs div 86400); rem = unat secs mod 86400;
          (y, m, d) = civil_from_days days
      in zero_padded 4 (nat y) @ ''-'' @ zero_padded 2 (nat m) @ ''-'' @ zero_padded 2 (nat d) @ ''T''
         @ zero_padded 2 (rem div 3600) @ '':'' @ zero_padded 2 (rem mod 3600 div 60) @ '':''
         @ zero_padded 2 (rem mod 60) @ ''Z'')"

definition sibling_meta :: "string \<Rightarrow> string" where
  "sibling_meta out =
     (case strip_suffix out ''.mdf'' of None \<Rightarrow> out @ ''.meta.json'' | Some stem \<Rightarrow> stem @ ''.meta.json'')"

datatype meta_value = MStr string | MNum nat | MBool bool | MList "string list"

definition WS_URL :: string where "WS_URL = ''wss://stream.binance.com:9443/ws''"
definition RECORDER_VERSION :: nat where "RECORDER_VERSION = 1"

text \<open>The fields of the \<open>json!\<close> object; \<open>lower\<close> is \<open>str::to_lowercase\<close>.\<close>

definition meta_fields ::
  "(string \<Rightarrow> string) \<Rightarrow> u64 \<Rightarrow> cli \<Rightarrow> scales \<Rightarrow> nat \<Rightarrow> (string \<times> meta_value) list" where
  "meta_fields lower now c sc record_count =
     (let sym_lower = lower (cli_symbol c);
          ws_sub = (if cli_with_trades c
            then WS_URL @ '' (SUBSCRIBE '' @ sym_lower @ ''@depth@100ms/'' @ sym_lower @ ''@trade)''
            else WS_URL @ '' (SUBSCRIBE '' @ sym_lower @ ''@depth@100ms)'')
      in [(''kind'', MStr ''binance-recorded''), (''symbol'', MStr (cli_symbol c)),
          (''tick_size'', MStr (sc_tick_size sc)), (''step_size'', MStr (sc_step_size sc)),
          (''captured_at_utc'', MStr (iso8601_utc now)),
          (''duration_secs'', MNum (unat (cli_duration_secs c))), (''record_count'', MNum record_count),
          (''with_trades'', MBool (cli_with_trades c)), (''recorder_version'', MNum RECORDER_VERSION),
          (''binance_endpoints'', MList
             [''https://'' @ REST_HOST @ ''/api/v3/exchangeInfo?symbol='' @ cli_symbol c,
              ''https://'' @ REST_HOST @ ''/api/v3/depth?symbol='' @ cli_symbol c @ ''&limit=1000'',
              ws_sub])])"

text \<open>The platform: the files, JSON printing, string case and the clock.\<close>

record 'f platform = "'f files" +
  pf_pretty :: "(string \<times> meta_value) list \<Rightarrow> string + string"
  pf_upper :: "string \<Rightarrow> string"
  pf_lower :: "string \<Rightarrow> string"
  pf_now :: u64

definition write_meta :: "'f platform \<Rightarrow> cli \<Rightarrow> scales \<Rightarrow> nat \<Rightarrow> rec_error + unit" where
  "write_meta pf c sc record_count =
     (case pf_pretty pf (meta_fields (pf_lower pf) (pf_now pf) c sc record_count) of
        Inl e \<Rightarrow> Inl (MetaJson e)
      | Inr text \<Rightarrow>
          (case fl_write pf (sibling_meta (cli_out c)) (text @ ''\<newline>'') of
             Inl e \<Rightarrow> Inl MetaWrite | Inr u \<Rightarrow> Inr u))"

definition subscriptions :: "(string \<Rightarrow> string) \<Rightarrow> cli \<Rightarrow> string list" where
  "subscriptions lower c =
     (lower (cli_symbol c) @ ''@depth@100ms'')
     # (if cli_with_trades c then [lower (cli_symbol c) @ ''@trade''] else [])"

text \<open>After the loop: the corpus, then the sidecar. The result is the count and the written file.\<close>

definition finish :: "'f platform \<Rightarrow> cli \<Rightarrow> scales \<Rightarrow> rec_state \<Rightarrow> rec_error + nat \<times> 'f" where
  "finish pf c sc st =
     (let events = em_events (rs_em st); count = length events
      in case save_file pf (cli_out c) events of
           Inl _ \<Rightarrow> Inl SaveFailed
         | Inr f \<Rightarrow> res_bind (write_meta pf c sc count) (\<lambda>_. Inr (count, f)))"

text \<open>\<open>run\<close>, given what \<open>select!\<close> will pick; \<open>None\<close> while it still waits for more.\<close>

definition rec_run ::
  "'v json \<Rightarrow> 'w net \<Rightarrow> 'f platform \<Rightarrow> string list \<Rightarrow> rec_input list \<Rightarrow> ('w, (nat \<times> 'f) option) io" where
  "rec_run js net pf args inputs =
     io_bind (io_lift (parse_cli (pf_upper pf) args)) (\<lambda>c.
     io_bind (resolve_scales js net (cli_symbol c)) (\<lambda>sc.
     io_bind (\<lambda>w. case nt_subscribe net (subscriptions (pf_lower pf) c) w of
         (Inl e, w') \<Rightarrow> (Inr (Inl (NetError e)), w') | (Inr u, w') \<Rightarrow> (Inr (Inr u), w')) (\<lambda>_.
     io_bind (fetch_snapshot js net (cli_symbol c)) (\<lambda>snap.
     io_bind (io_lift (seed_snapshot sc snap \<lparr>em_events = [], em_seq = 0\<rparr>)) (\<lambda>em.
     io_bind (rec_loop js net c sc inputs (start_state em snap)) (\<lambda>(done, st).
       if done then io_bind (io_lift (finish pf c sc st)) (\<lambda>r. io_return (Some r))
       else io_return None))))))"

end
