(* ===== verification/Recorder_Laws.thy ===== *)
theory Recorder_Laws
  imports Recorder "HOL-Library.Sublist"
begin

section \<open>What the recorder promises\<close>

text \<open>
  A session is specified by two sequences: the snapshots that the exchange served (\<open>fetched\<close>) and the depth
  updates that the loop took (\<open>took\<close>, \<open>heard\<close>). \<open>segments\<close> says what has to be recorded of them: one
  segment per snapshot, with the longest run of updates whose ids join it. \<open>segment_events\<close> is what a segment
  adds to the corpus, written with \<open>to_ticks\<close> alone. The loop keeps the invariant \<open>rec_inv\<close>: what it emitted,
  trades apart, is the events of the finished segments and the open one; \<open>segments_from\<close> is the same
  specification taken one update at a time.
\<close>

subsection \<open>Emission as appending numbered events\<close>

fun numbered :: "u64 \<Rightarrow> book_event list \<Rightarrow> book_event list" where
  "numbered n [] = []"
| "numbered n (e # es) = e\<lparr>ev_seq := n\<rparr> # numbered (n + 1) es"

definition em_extend :: "book_event list \<Rightarrow> emitter \<Rightarrow> emitter" where
  "em_extend evs em =
     \<lparr>em_events = em_events em @ numbered (em_seq em) evs, em_seq = em_seq em + of_nat (length evs)\<rparr>"

definition em_empty :: emitter where
  "em_empty = \<lparr>em_events = [], em_seq = 0\<rparr>"

lemma numbered_append: "numbered n (xs @ ys) = numbered n xs @ numbered (n + of_nat (length xs)) ys"
  by (induction xs arbitrary: n) (simp_all add: algebra_simps)

lemma length_numbered [simp]: "length (numbered n xs) = length xs"
  by (induction xs arbitrary: n) simp_all

lemma seqs_numbered: "map ev_seq (numbered n xs) = map (\<lambda>i. n + of_nat i) [0..<length xs]"
proof (induction xs arbitrary: n)
  case (Cons x xs)
  have "[0..<length (x # xs)] = 0 # map Suc [0..<length xs]"
    by (simp only: map_Suc_upt upt_conv_Cons length_Cons zero_less_Suc)
  then show ?case using Cons by (simp add: comp_def algebra_simps)
qed simp

lemma em_extend_Nil [simp]: "em_extend [] em = em"
  by (simp add: em_extend_def)

lemma em_extend_extend: "em_extend ys (em_extend xs em) = em_extend (xs @ ys) em"
  by (simp add: em_extend_def numbered_append)

lemma em_push_extend: "ev_seq ev = em_seq em \<Longrightarrow> em_push ev em = em_extend [ev\<lparr>ev_seq := 0\<rparr>] em"
  by (simp add: em_push_def em_extend_def)

subsection \<open>Segments\<close>

text \<open>
  An entry of a price ladder with its time stamp, and the event it stands for. A price or quantity is
  absent when the document has no string in its place; such an entry stands for no event.
\<close>

type_synonym entry = "u64 \<times> side \<times> string option \<times> string option"

definition ticks_of :: "string \<Rightarrow> string option \<Rightarrow> i64 option" where
  "ticks_of unit x =
     (case x of None \<Rightarrow> None | Some p \<Rightarrow> (case to_ticks p unit of Inl _ \<Rightarrow> None | Inr n \<Rightarrow> Some n))"

fun level_event :: "scales \<Rightarrow> entry \<Rightarrow> book_event option" where
  "level_event sc (ts, sd, p, q) =
     (case (ticks_of (sc_tick_size sc) p, ticks_of (sc_step_size sc) q) of
        (Some pt, Some ql) \<Rightarrow> Some (ev_level 0 ts sd (Px pt) (Qty ql))
      | _ \<Rightarrow> None)"

definition level_events :: "scales \<Rightarrow> entry list \<Rightarrow> book_event list option" where
  "level_events sc es = those (map (level_event sc) es)"

text \<open>A depth update: first and last update id, and its entries.\<close>

record update =
  up_first :: u64
  up_last :: u64
  up_entries :: "entry list"

record segment =
  sg_snap :: snapshot
  sg_updates :: "update list"

text \<open>
  The update ids of a segment: the first update covers the snapshot's id, and each next one starts where
  the one before it ended.
\<close>

fun chained :: "u64 \<Rightarrow> update list \<Rightarrow> bool" where
  "chained prev [] \<longleftrightarrow> True"
| "chained prev (d # ds) \<longleftrightarrow> up_first d = prev + 1 \<and> chained (up_last d) ds"

definition joins :: "snapshot \<Rightarrow> update list \<Rightarrow> bool" where
  "joins sn us \<longleftrightarrow>
     (case us of
        [] \<Rightarrow> True
      | d # ds \<Rightarrow> up_first d \<le> sn_last_update_id sn + 1 \<and> sn_last_update_id sn < up_last d
          \<and> chained (up_last d) ds)"

definition in_sync :: "segment \<Rightarrow> bool" where
  "in_sync sg \<longleftrightarrow> joins (sg_snap sg) (sg_updates sg)"

text \<open>
  What a session has to record. After a snapshot, the updates older than it are skipped and the longest
  run of updates that joins it is its segment; the update that ends the run is dropped, and the next
  snapshot, fetched at that moment, starts the next segment. There must be exactly as many snapshots as
  the updates ask for.
\<close>

definition usable :: "snapshot \<Rightarrow> update list \<Rightarrow> update list" where
  "usable sn ds = dropWhile (\<lambda>d. up_last d \<le> sn_last_update_id sn) ds"

definition longest_run :: "snapshot \<Rightarrow> update list \<Rightarrow> update list" where
  "longest_run sn ds = last (filter (joins sn) (map (\<lambda>n. take n ds) [0..<Suc (length ds)]))"

fun segments :: "snapshot list \<Rightarrow> update list \<Rightarrow> segment list option" where
  "segments [] ds = None"
| "segments (sn # sns) ds =
     (let us = longest_run sn (usable sn ds); sg = \<lparr>sg_snap = sn, sg_updates = us\<rparr>
      in case (drop (length us) (usable sn ds), sns) of
           ([], []) \<Rightarrow> Some [sg]
         | (gap # rest, _ # _) \<Rightarrow> map_option ((#) sg) (segments sns rest)
         | _ \<Rightarrow> None)"

definition snap_entries :: "snapshot \<Rightarrow> entry list" where
  "snap_entries sn =
     map (\<lambda>(p, q). (0, Bid, Some p, Some q)) (sn_bids sn) @ map (\<lambda>(p, q). (0, Ask, Some p, Some q)) (sn_asks sn)"

definition segment_events :: "scales \<Rightarrow> segment \<Rightarrow> book_event list option" where
  "segment_events sc sg =
     map_option ((#) (ev_clear 0 0))
       (level_events sc (snap_entries (sg_snap sg) @ concat (map up_entries (sg_updates sg))))"

definition unseq :: "book_event \<Rightarrow> book_event" where
  "unseq e = e\<lparr>ev_seq := 0\<rparr>"

definition recorded :: "scales \<Rightarrow> segment list \<Rightarrow> book_event list \<Rightarrow> bool" where
  "recorded sc sgs evs \<longleftrightarrow>
     (\<exists>evss. those (map (segment_events sc) sgs) = Some evss
        \<and> map unseq (filter (\<lambda>e. ev_kind e \<noteq> Trade) evs) = concat evss)"

lemma those_append:
  "those (xs @ ys) = (case those xs of None \<Rightarrow> None | Some us \<Rightarrow> map_option ((@) us) (those ys))"
proof (induction xs)
  case Nil
  show ?case by (cases "those ys") simp_all
next
  case (Cons x xs)
  then show ?case by (cases "those ys") (auto split: option.splits)
qed

lemma level_events_append:
  "level_events sc (xs @ ys) =
     (case level_events sc xs of None \<Rightarrow> None | Some us \<Rightarrow> map_option ((@) us) (level_events sc ys))"
  by (cases "those (map (level_event sc) xs)") (simp_all add: level_events_def those_append)

lemma level_events_kind:
  "level_events sc es = Some evs \<Longrightarrow> \<forall>e \<in> set evs. ev_kind e = Level \<and> unseq e = e"
proof (induction es arbitrary: evs)
  case (Cons e es)
  then show ?case
    by (cases e) (auto simp: level_events_def ev_level_def unseq_def split: option.splits sum.splits prod.splits)
qed (simp add: level_events_def)

subsection \<open>What the emitters append\<close>

lemma emit_level_ok:
  assumes "emit_level sc ts sd p q em = Inr em'"
  shows "\<exists>ev. level_event sc (ts * 1000000, sd, Some p, Some q) = Some ev \<and> em' = em_extend [ev] em"
  using assms
  by (auto simp: emit_level_def ticks_of_def conv_def res_bind_Inr_iff em_push_extend ev_level_def split: sum.splits)

lemma emit_levels_ok:
  "emit_levels sc ts sd ls em = Inr em' \<Longrightarrow>
   \<exists>evs. level_events sc (map (\<lambda>(p, q). (ts * 1000000, sd, Some p, Some q)) ls) = Some evs
     \<and> em' = em_extend evs em"
proof (induction ls arbitrary: em)
  case (Cons l ls)
  obtain p q where l: "l = (p, q)" by fastforce
  with Cons.prems obtain em1 where em1: "emit_level sc ts sd p q em = Inr em1"
    "emit_levels sc ts sd ls em1 = Inr em'" by (auto simp: res_bind_Inr_iff)
  from emit_level_ok [OF em1(1)] obtain ev where
    ev: "level_event sc (ts * 1000000, sd, Some p, Some q) = Some ev" "em1 = em_extend [ev] em" by blast
  from Cons.IH [OF em1(2)] obtain evs where
    "level_events sc (map (\<lambda>(p, q). (ts * 1000000, sd, Some p, Some q)) ls) = Some evs" "em' = em_extend evs em1"
    by blast
  then show ?case
    using ev by (simp add: l level_events_def em_extend_extend del: level_event.simps)
qed (simp add: level_events_def)

lemma seed_snapshot_ok:
  assumes "seed_snapshot sc snap em = Inr em'"
  shows "\<exists>evs. segment_events sc \<lparr>sg_snap = snap, sg_updates = []\<rparr> = Some evs \<and> em' = em_extend evs em"
proof -
  let ?em0 = "em_push (ev_clear (em_seq em) 0) em"
  obtain em1 where "emit_levels sc 0 Bid (sn_bids snap) ?em0 = Inr em1"
    "emit_levels sc 0 Ask (sn_asks snap) em1 = Inr em'"
    using assms by (auto simp: seed_snapshot_def res_bind_Inr_iff)
  from emit_levels_ok [OF this(1)] emit_levels_ok [OF this(2)]
  obtain b a where b: "level_events sc (map (\<lambda>(p, q). (0, Bid, Some p, Some q)) (sn_bids snap)) = Some b"
    "em1 = em_extend b ?em0"
    and a: "level_events sc (map (\<lambda>(p, q). (0, Ask, Some p, Some q)) (sn_asks snap)) = Some a" "em' = em_extend a em1"
    by auto
  have "?em0 = em_extend [ev_clear 0 0] em"
    by (subst em_push_extend) (simp_all add: ev_clear_def)
  then show ?thesis
    using a b by (simp add: segment_events_def snap_entries_def level_events_append em_extend_extend)
qed

text \<open>The update a depth message carries, when its ids and time stamp are numbers.\<close>

definition side_entries :: "'v json \<Rightarrow> u64 \<Rightarrow> side \<Rightarrow> 'v \<Rightarrow> entry list" where
  "side_entries js ts sd v =
     (case js_array js v of
        None \<Rightarrow> []
      | Some arr \<Rightarrow> map (\<lambda>e. (ts, sd, js_str js (js_index js e 0), js_str js (js_index js e 1))) arr)"

definition update_of :: "'v json \<Rightarrow> 'v \<Rightarrow> update option" where
  "update_of js v =
     (case (js_u64 js (js_field js v ''u''), js_u64 js (js_field js v ''U''), js_u64 js (js_field js v ''E'')) of
        (Some uu, Some uu_first, Some e_ms) \<Rightarrow>
          Some \<lparr>up_first = uu_first, up_last = uu,
            up_entries = side_entries js (e_ms * 1000000) Bid (js_field js v ''b'')
              @ side_entries js (e_ms * 1000000) Ask (js_field js v ''a'')\<rparr>
      | _ \<Rightarrow> None)"

definition depth_update :: "'v json \<Rightarrow> rec_input \<Rightarrow> update option" where
  "depth_update js x =
     (case x of
        Received text \<Rightarrow> Option.bind (js_from_str js text) (\<lambda>v.
          if js_str js (js_field js v ''e'') = Some ''depthUpdate'' then update_of js v else None)
      | _ \<Rightarrow> None)"

definition heard :: "'v json \<Rightarrow> rec_input list \<Rightarrow> update list" where
  "heard js xs = List.map_filter (depth_update js) xs"

lemma apply_entries_ok:
  "apply_entries js sc e_ms sd arr em = Inr em' \<Longrightarrow>
   \<exists>evs. level_events sc (map (\<lambda>e. (e_ms * 1000000, sd, js_str js (js_index js e 0), js_str js (js_index js e 1))) arr)
       = Some evs \<and> em' = em_extend evs em"
proof (induction arr arbitrary: em)
  case (Cons e arr)
  then obtain p q em1 where pq: "js_str js (js_index js e 0) = Some p" "js_str js (js_index js e 1) = Some q"
    and em1: "emit_level sc e_ms sd p q em = Inr em1" "apply_entries js sc e_ms sd arr em1 = Inr em'"
    by (auto simp: ok_or_def res_bind_Inr_iff split: option.splits)
  from emit_level_ok [OF em1(1)] obtain ev where
    ev: "level_event sc (e_ms * 1000000, sd, Some p, Some q) = Some ev" "em1 = em_extend [ev] em" by blast
  from Cons.IH [OF em1(2)] obtain evs where
    "level_events sc (map (\<lambda>e. (e_ms * 1000000, sd, js_str js (js_index js e 0), js_str js (js_index js e 1))) arr)
       = Some evs" "em' = em_extend evs em1" by blast
  then show ?case
    using ev pq by (simp add: level_events_def em_extend_extend del: level_event.simps)
qed (simp add: level_events_def)

lemma apply_side_ok:
  assumes "apply_side js sc e_ms sd v em = Inr em'"
  shows "\<exists>evs. level_events sc (side_entries js (e_ms * 1000000) sd v) = Some evs \<and> em' = em_extend evs em"
  using assms apply_entries_ok [of js sc e_ms sd _ em em']
  by (cases "js_array js v") (auto simp: apply_side_def side_entries_def level_events_def)

lemma apply_diff_ok:
  assumes "apply_diff js sc e_ms v em = Inr em'" and "update_of js v = Some d"
    and "js_u64 js (js_field js v ''E'') = Some e_ms"
  shows "\<exists>evs. level_events sc (up_entries d) = Some evs \<and> em' = em_extend evs em"
proof -
  obtain em1 where "apply_side js sc e_ms Bid (js_field js v ''b'') em = Inr em1"
    "apply_side js sc e_ms Ask (js_field js v ''a'') em1 = Inr em'"
    using assms(1) by (auto simp: apply_diff_def res_bind_Inr_iff)
  from apply_side_ok [OF this(1)] apply_side_ok [OF this(2)] show ?thesis
    using assms(2,3) by (auto simp: update_of_def level_events_append em_extend_extend split: option.splits)
qed

subsection \<open>The segments of a session, one update at a time\<close>

lemma chained_append: "chained p (ds @ [d]) \<longleftrightarrow>
   chained p ds \<and> up_first d = (if ds = [] then p else up_last (last ds)) + 1"
  by (induction ds arbitrary: p) auto

lemma joins_Nil [simp]: "joins sn []"
  by (simp add: joins_def)

lemma joins_snoc: "joins sn (us @ [d]) \<longleftrightarrow> joins sn us \<and>
    (if us = [] then up_first d \<le> sn_last_update_id sn + 1 \<and> sn_last_update_id sn < up_last d
     else up_first d = up_last (last us) + 1)"
  by (cases us) (auto simp: joins_def chained_append)

lemma joins_prefix: "joins sn (us @ vs) \<Longrightarrow> joins sn us"
  by (induction vs rule: rev_induct) (auto simp: joins_snoc simp flip: append_assoc)

text \<open>The run after \<open>us\<close>.\<close>

definition run_after :: "snapshot \<Rightarrow> update list \<Rightarrow> update list \<Rightarrow> update list" where
  "run_after sn us ds = last (filter (\<lambda>r. joins sn (us @ r)) (map (\<lambda>n. take n ds) [0..<Suc (length ds)]))"

lemma prefixes_Cons:
  "map (\<lambda>n. take n (d # ds)) [0..<Suc (length (d # ds))] =
   [] # map ((#) d) (map (\<lambda>n. take n ds) [0..<Suc (length ds)])"
proof -
  have "[0..<Suc (length (d # ds))] = 0 # map Suc [0..<Suc (length ds)]"
    by (subst upt_conv_Cons) (simp_all only: map_Suc_upt length_Cons zero_less_Suc)
  then show ?thesis by (simp only: list.map map_map comp_def take_Suc_Cons take_0)
qed

lemma run_after_Nil [simp]: "joins sn us \<Longrightarrow> run_after sn us [] = []"
  by (simp add: run_after_def)

lemma run_after_Cons:
  assumes "joins sn us"
  shows "run_after sn us (d # ds) =
    (if joins sn (us @ [d]) then d # run_after sn (us @ [d]) ds else [])"
proof (cases "joins sn (us @ [d])")
  case True
  let ?ps = "map (\<lambda>n. take n ds) [0..<Suc (length ds)]"
  have "[] \<in> set (filter (\<lambda>r. joins sn ((us @ [d]) @ r)) ?ps)"
    using True by (auto simp: image_iff simp del: upt_Suc intro!: bexI [of _ 0])
  then have ne: "filter (\<lambda>r. joins sn (us @ d # r)) ?ps \<noteq> []"
    by (simp only: append_assoc append_Cons append_Nil) (rule notI, simp only: list.set empty_iff)
  have "run_after sn us (d # ds) = last ([] # map ((#) d) (filter (\<lambda>r. joins sn (us @ d # r)) ?ps))"
    unfolding run_after_def prefixes_Cons using assms by (simp add: filter_map comp_def del: upt_Suc)
  also have "\<dots> = d # last (filter (\<lambda>r. joins sn (us @ d # r)) ?ps)"
    using ne by (simp add: last_map del: upt_Suc)
  finally show ?thesis using True by (simp add: run_after_def)
next
  case False
  then have "\<not> joins sn (us @ d # r)" for r using joins_prefix [of sn "us @ [d]" r] by auto
  then show ?thesis
    unfolding run_after_def prefixes_Cons using assms False by (simp add: filter_map comp_def del: upt_Suc)
qed

fun segments_from :: "snapshot \<Rightarrow> update list \<Rightarrow> snapshot list \<Rightarrow> update list \<Rightarrow> segment list option" where
  "segments_from sn us sns [] = (if sns = [] then Some [\<lparr>sg_snap = sn, sg_updates = us\<rparr>] else None)"
| "segments_from sn us sns (d # ds) =
     (if us = [] \<and> up_last d \<le> sn_last_update_id sn then segments_from sn us sns ds
      else if joins sn (us @ [d]) then segments_from sn (us @ [d]) sns ds
      else case sns of
             [] \<Rightarrow> None
           | s # ss \<Rightarrow> map_option ((#) \<lparr>sg_snap = sn, sg_updates = us\<rparr>) (segments_from s [] ss ds))"

lemma segments_from_run:
  "joins sn us \<Longrightarrow> us \<noteq> [] \<or> (ds \<noteq> [] \<longrightarrow> \<not> up_last (hd ds) \<le> sn_last_update_id sn) \<Longrightarrow>
   segments_from sn us sns ds =
     (let r = run_after sn us ds; sg = \<lparr>sg_snap = sn, sg_updates = us @ r\<rparr>
      in case (drop (length r) ds, sns) of
           ([], []) \<Rightarrow> Some [sg]
         | (gap # rest, s # ss) \<Rightarrow> map_option ((#) sg) (segments_from s [] ss rest)
         | _ \<Rightarrow> None)"
proof (induction ds arbitrary: us)
  case Nil
  then show ?case by (cases sns) simp_all
next
  case (Cons d ds)
  have fresh: "\<not> (us = [] \<and> up_last d \<le> sn_last_update_id sn)" using Cons.prems(2) by auto
  show ?case
  proof (cases "joins sn (us @ [d])")
    case True
    have "segments_from sn us sns (d # ds) = segments_from sn (us @ [d]) sns ds"
      using fresh True by (simp only: segments_from.simps if_False if_True)
    then show ?thesis
      using Cons.IH [of "us @ [d]"] True
      by (simp add: run_after_Cons [OF Cons.prems(1)] Let_def del: segments_from.simps)
  next
    case False
    then show ?thesis
      using fresh by (cases sns) (auto simp: run_after_Cons [OF Cons.prems(1)])
  qed
qed

lemma segments_from_usable: "segments_from sn [] sns ds = segments_from sn [] sns (usable sn ds)"
  by (induction ds) (simp_all add: usable_def)

lemma usable_fresh: "usable sn ds \<noteq> [] \<longrightarrow> \<not> up_last (hd (usable sn ds)) \<le> sn_last_update_id sn"
  using hd_dropWhile unfolding usable_def by blast

lemma segments_step: "segments (sn # sns) ds = segments_from sn [] sns ds"
proof (induction sns arbitrary: sn ds)
  case Nil
  show ?case
    using segments_from_run [of sn "[]" "usable sn ds" "[]"] usable_fresh [of sn ds]
    by (simp add: segments_from_usable [of sn "[]" ds] run_after_def longest_run_def Let_def
        del: upt_Suc split: list.splits)
next
  case (Cons s ss)
  show ?case
    using segments_from_run [of sn "[]" "usable sn ds" "s # ss"] usable_fresh [of sn ds]
    by (simp add: segments_from_usable [of sn "s # ss" ds] run_after_def longest_run_def Let_def Cons.IH
        del: upt_Suc segments.simps(2) add: segments.simps(2) [of sn "s # ss"] split: list.splits)
qed

subsection \<open>The invariant of the loop\<close>

text \<open>
  The state in the middle of a session: the finished segments \<open>sgs\<close> and the open one \<open>sg\<close>.
\<close>

definition rec_inv :: "scales \<Rightarrow> segment list \<Rightarrow> segment \<Rightarrow> rec_state \<Rightarrow> bool" where
  "rec_inv sc sgs sg st \<longleftrightarrow>
     (\<exists>evs. rs_em st = em_extend evs em_empty \<and> recorded sc (sgs @ [sg]) evs)
     \<and> list_all in_sync (sgs @ [sg])
     \<and> rs_last_update_id st = sn_last_update_id (sg_snap sg)
     \<and> (rs_synced st \<longleftrightarrow> sg_updates sg \<noteq> [])
     \<and> (rs_synced st \<longrightarrow> rs_prev_u st = up_last (last (sg_updates sg)))
     \<and> rs_resnapshots st = of_nat (length sgs)"

abbreviation fresh_segment :: "snapshot \<Rightarrow> segment" where
  "fresh_segment sn \<equiv> \<lparr>sg_snap = sn, sg_updates = []\<rparr>"

abbreviation grown :: "segment \<Rightarrow> update \<Rightarrow> segment" where
  "grown sg d \<equiv> sg\<lparr>sg_updates := sg_updates sg @ [d]\<rparr>"

lemma recorded_levels:
  assumes "recorded sc (sgs @ [sg]) evs" and "level_events sc (up_entries d) = Some new"
  shows "recorded sc (sgs @ [sg\<lparr>sg_updates := sg_updates sg @ [d]\<rparr>]) (evs @ new)"
proof -
  have "map unseq (filter (\<lambda>e. ev_kind e \<noteq> Trade) new) = new"
    using level_events_kind [OF assms(2)] by (simp add: filter_True map_idI)
  then show ?thesis
    using assms
    by (auto simp: recorded_def those_append segment_events_def level_events_append append_assoc [symmetric]
        simp del: append_assoc split: option.splits)
qed

lemma recorded_segment:
  assumes "recorded sc sgs evs" and "segment_events sc sg = Some new"
  shows "recorded sc (sgs @ [sg]) (evs @ new)"
proof -
  have "\<forall>e \<in> set new. ev_kind e \<noteq> Trade \<and> unseq e = e"
    using assms(2) level_events_kind by (fastforce simp: segment_events_def ev_clear_def unseq_def)
  then have "map unseq (filter (\<lambda>e. ev_kind e \<noteq> Trade) new) = new" by (simp add: filter_True map_idI)
  then show ?thesis using assms by (auto simp: recorded_def those_append)
qed

lemma recorded_trade:
  "recorded sc sgs evs \<Longrightarrow> ev_kind e = Trade \<Longrightarrow> recorded sc sgs (evs @ [e])"
  by (simp add: recorded_def)

lemma io_bind_ok:
  "io_bind m f w = (Inr (Inr b), w') \<longleftrightarrow>
     (\<exists>a w1. m w = (Inr (Inr a), w1) \<and> f a w1 = (Inr (Inr b), w'))"
  by (auto simp: io_bind_def split: prod.splits sum.splits)

lemmas io_simps = io_bind_ok io_lift_def io_return_def

lemma rec_inv_start:
  assumes "seed_snapshot sc snap em_empty = Inr em"
  shows "rec_inv sc [] (fresh_segment snap) (start_state em snap)"
proof -
  obtain evs where e: "segment_events sc (fresh_segment snap) = Some evs" "em = em_extend evs em_empty"
    using seed_snapshot_ok [OF assms] by blast
  have "recorded sc ([] @ [fresh_segment snap]) ([] @ evs)"
    using e(1) by (intro recorded_segment) (simp_all add: recorded_def)
  then show ?thesis
    using e(2) by (auto simp: rec_inv_def start_state_def in_sync_def)
qed

lemma rec_inv_resnapshot:
  assumes "rec_inv sc sgs sg st" and "resnapshot js net c sc st w = (Inr (Inr st'), w')"
  shows "\<exists>snap. fetch_snapshot js net (cli_symbol c) w = (Inr (Inr snap), w')
    \<and> rec_inv sc (sgs @ [sg]) (fresh_segment snap) st'"
proof -
  obtain snap em where sn: "fetch_snapshot js net (cli_symbol c) w = (Inr (Inr snap), w')"
    and em: "seed_snapshot sc snap (rs_em st) = Inr em"
    and st': "st' = st\<lparr>rs_em := em, rs_last_update_id := sn_last_update_id snap, rs_synced := False,
      rs_resnapshots := rs_resnapshots st + 1\<rparr>"
    using assms(2) by (auto simp: resnapshot_def io_simps)
  obtain new where new: "segment_events sc (fresh_segment snap) = Some new" "em = em_extend new (rs_em st)"
    using seed_snapshot_ok [OF em] by blast
  obtain evs where evs: "rs_em st = em_extend evs em_empty" "recorded sc (sgs @ [sg]) evs"
    using assms(1) by (auto simp: rec_inv_def)
  have "em = em_extend (evs @ new) em_empty" by (simp add: new(2) evs(1) em_extend_extend)
  moreover have "recorded sc ((sgs @ [sg]) @ [fresh_segment snap]) (evs @ new)"
    using evs(2) new(1) by (rule recorded_segment)
  ultimately have "rec_inv sc (sgs @ [sg]) (fresh_segment snap) st'"
    using assms(1) by (auto simp: rec_inv_def st' in_sync_def)
  with sn show ?thesis by blast
qed

text \<open>An update that is applied joins the open segment.\<close>

lemma rec_inv_apply:
  assumes inv: "rec_inv sc sgs sg st" and new: "level_events sc (up_entries d) = Some new"
    and j: "joins (sg_snap sg) (sg_updates sg @ [d])"
  shows "rec_inv sc sgs (grown sg d)
    (st\<lparr>rs_em := em_extend new (rs_em st), rs_prev_u := up_last d, rs_synced := True\<rparr>)"
proof -
  obtain evs where evs: "rs_em st = em_extend evs em_empty" "recorded sc (sgs @ [sg]) evs"
    using inv by (auto simp: rec_inv_def)
  have "em_extend new (rs_em st) = em_extend (evs @ new) em_empty" by (simp add: evs(1) em_extend_extend)
  moreover have "recorded sc (sgs @ [grown sg d]) (evs @ new)" by (rule recorded_levels [OF evs(2) new])
  ultimately show ?thesis using inv j by (auto simp: rec_inv_def in_sync_def)
qed

text \<open>
  What one update does: nothing when it is older than the snapshot, it grows the open segment when it
  joins it, and otherwise it closes the segment and the next snapshot opens another.
\<close>

definition advances ::
  "'v json \<Rightarrow> 'w net \<Rightarrow> cli \<Rightarrow> scales \<Rightarrow> segment list \<Rightarrow> segment \<Rightarrow> update \<Rightarrow> rec_state \<Rightarrow> 'w \<Rightarrow> 'w \<Rightarrow> bool" where
  "advances js net c sc sgs sg d st' w w' \<longleftrightarrow>
     (if sg_updates sg = [] \<and> up_last d \<le> sn_last_update_id (sg_snap sg) then rec_inv sc sgs sg st' \<and> w' = w
      else if joins (sg_snap sg) (sg_updates sg @ [d]) then rec_inv sc sgs (grown sg d) st' \<and> w' = w
      else \<exists>snap. fetch_snapshot js net (cli_symbol c) w = (Inr (Inr snap), w')
        \<and> rec_inv sc (sgs @ [sg]) (fresh_segment snap) st')"

lemma rec_inv_depth:
  assumes inv: "rec_inv sc sgs sg st" and run: "on_depth js net c sc v st w = (Inr (Inr (b, st')), w')"
  shows "case update_of js v of None \<Rightarrow> st' = st \<and> w' = w | Some d \<Rightarrow> advances js net c sc sgs sg d st' w w'"
proof (cases "update_of js v")
  case None
  then have "on_depth js net c sc v st = io_return (False, st)"
    by (auto simp: on_depth_def update_of_def split: option.splits)
  with run None show ?thesis by (simp add: io_return_def)
next
  case (Some d)
  then obtain e_ms where f: "js_u64 js (js_field js v ''u'') = Some (up_last d)"
    "js_u64 js (js_field js v ''U'') = Some (up_first d)" "js_u64 js (js_field js v ''E'') = Some e_ms"
    by (auto simp: update_of_def split: option.splits)
  have joins: "joins (sg_snap sg) (sg_updates sg @ [d]) \<longleftrightarrow>
      (if rs_synced st then up_first d = rs_prev_u st + 1
       else up_first d \<le> rs_last_update_id st + 1 \<and> rs_last_update_id st < up_last d)"
    using inv by (auto simp: rec_inv_def in_sync_def joins_snoc)
  have stale: "sg_updates sg = [] \<and> up_last d \<le> sn_last_update_id (sg_snap sg) \<longleftrightarrow>
      \<not> rs_synced st \<and> up_last d \<le> rs_last_update_id st"
    using inv by (auto simp: rec_inv_def)
  have synced: "rs_synced st \<Longrightarrow>
      st\<lparr>rs_em := em, rs_prev_u := u, rs_synced := True\<rparr> = st\<lparr>rs_em := em, rs_prev_u := u\<rparr>" for em u
    by (cases st) simp
  have depth: "on_depth js net c sc v st =
     (if \<not> rs_synced st \<and> up_last d \<le> rs_last_update_id st then io_return (False, st)
      else if joins (sg_snap sg) (sg_updates sg @ [d])
      then io_bind (io_lift (apply_diff js sc e_ms v (rs_em st))) (\<lambda>em.
             io_return (True, st\<lparr>rs_em := em, rs_prev_u := up_last d, rs_synced := True\<rparr>))
      else io_bind (resnapshot js net c sc st) (\<lambda>st'. io_return (True, st')))"
    unfolding joins by (cases "rs_synced st") (auto simp: on_depth_def f synced)
  consider (old) "\<not> rs_synced st \<and> up_last d \<le> rs_last_update_id st"
    | (join) "\<not> (\<not> rs_synced st \<and> up_last d \<le> rs_last_update_id st)" "joins (sg_snap sg) (sg_updates sg @ [d])"
    | (gap) "\<not> (\<not> rs_synced st \<and> up_last d \<le> rs_last_update_id st)" "\<not> joins (sg_snap sg) (sg_updates sg @ [d])"
    by blast
  then show ?thesis
  proof cases
    case old
    then show ?thesis
      using run inv unfolding depth by (simp add: Some advances_def stale io_return_def)
  next
    case join
    then obtain em where em: "apply_diff js sc e_ms v (rs_em st) = Inr em" "w' = w"
      "st' = st\<lparr>rs_em := em, rs_prev_u := up_last d, rs_synced := True\<rparr>"
      using run unfolding depth by (auto simp: io_simps)
    from apply_diff_ok [OF em(1) Some f(3)] obtain new where
      "level_events sc (up_entries d) = Some new" "em = em_extend new (rs_em st)" by blast
    then show ?thesis
      using rec_inv_apply [OF inv _ join(2)] join by (auto simp: Some advances_def stale em(2,3))
  next
    case gap
    then obtain "resnapshot js net c sc st w = (Inr (Inr st'), w')"
      using run unfolding depth by (auto simp: io_simps)
    from rec_inv_resnapshot [OF inv this] gap show ?thesis
      by (auto simp: Some advances_def stale)
  qed
qed

lemma rec_inv_trade:
  assumes inv: "rec_inv sc sgs sg st" and run: "on_trade js sc v st = Inr (b, st')"
  shows "rec_inv sc sgs sg st'"
proof -
  consider (same) "st' = st" | (traded) e_ms sd p q em where
    "emit_trade sc e_ms sd p q (rs_em st) = Inr em" "st' = st\<lparr>rs_em := em\<rparr>"
  proof (cases "js_u64 js (js_field js v ''E'') = None \<or> js_str js (js_field js v ''p'') = None
      \<or> js_str js (js_field js v ''q'') = None")
    case True
    then have "on_trade js sc v st = Inr (False, st)"
      by (cases "js_u64 js (js_field js v ''E'')"; cases "js_str js (js_field js v ''p'')")
        (auto simp: on_trade_def)
    with run show ?thesis by (intro same) simp
  next
    case False
    then obtain e_ms p q where f: "js_u64 js (js_field js v ''E'') = Some e_ms"
      "js_str js (js_field js v ''p'') = Some p" "js_str js (js_field js v ''q'') = Some q" by auto
    have "on_trade js sc v st = res_bind (emit_trade sc e_ms
        (if js_bool js (js_field js v ''m'') = Some True then Ask else Bid) p q (rs_em st))
        (\<lambda>em. Inr (True, st\<lparr>rs_em := em\<rparr>))"
      by (simp only: on_trade_def f prod.case option.case Let_def)
    with run show ?thesis by (auto simp: res_bind_Inr_iff intro: traded)
  qed
  then show ?thesis
  proof cases
    case traded
    then obtain e where e: "em = em_extend [e] (rs_em st)" "ev_kind e = Trade"
      by (auto simp: emit_trade_def res_bind_Inr_iff em_push_extend ev_trade_def)
    obtain evs where evs: "rs_em st = em_extend evs em_empty" "recorded sc (sgs @ [sg]) evs"
      using inv by (auto simp: rec_inv_def)
    have "em = em_extend (evs @ [e]) em_empty" by (simp add: e(1) evs(1) em_extend_extend)
    moreover have "recorded sc (sgs @ [sg]) (evs @ [e])" by (rule recorded_trade [OF evs(2) e(2)])
    ultimately show ?thesis using inv by (auto simp: rec_inv_def traded(2))
  qed (use inv in simp)
qed

lemma rec_inv_message:
  assumes inv: "rec_inv sc sgs sg st" and run: "on_message js net c sc text st w = (Inr (Inr (b, st')), w')"
  shows "case depth_update js (Received text) of None \<Rightarrow> rec_inv sc sgs sg st' \<and> w' = w
    | Some d \<Rightarrow> advances js net c sc sgs sg d st' w w'"
proof (cases "js_from_str js text")
  case None
  then show ?thesis using run inv by (simp add: on_message_def io_simps depth_update_def)
next
  case (Some v)
  consider (depth) "js_str js (js_field js v ''e'') = Some ''depthUpdate''"
    | (trade) "js_str js (js_field js v ''e'') = Some ''trade'' \<and> cli_with_trades c"
    | (other) "js_str js (js_field js v ''e'') \<noteq> Some ''depthUpdate''"
      "\<not> (js_str js (js_field js v ''e'') = Some ''trade'' \<and> cli_with_trades c)" by blast
  then show ?thesis
  proof cases
    case depth
    then have "on_depth js net c sc v st w = (Inr (Inr (b, st')), w')"
      using run Some by (simp add: on_message_def)
    from rec_inv_depth [OF inv this] show ?thesis
      using Some depth inv by (simp add: depth_update_def split: option.splits)
  next
    case trade
    then have "on_trade js sc v st = Inr (b, st')" "w' = w"
      using run Some by (simp_all add: on_message_def io_lift_def)
    with rec_inv_trade [OF inv] show ?thesis using Some trade by (simp add: depth_update_def)
  next
    case other
    then have "st' = st" "w' = w"
      using run Some by (simp_all only: on_message_def option.case if_False io_simps) simp_all
    then show ?thesis using inv Some other by (simp add: depth_update_def)
  qed
qed

subsection \<open>The whole session\<close>

text \<open>The next \<open>n\<close> snapshots the exchange serves, and the world after them.\<close>

fun fetched :: "'v json \<Rightarrow> 'w net \<Rightarrow> string \<Rightarrow> nat \<Rightarrow> 'w \<Rightarrow> (snapshot list \<times> 'w) option" where
  "fetched js net symbol 0 w = Some ([], w)"
| "fetched js net symbol (Suc n) w =
     (case fetch_snapshot js net symbol w of
        (Inr (Inr sn), w1) \<Rightarrow> map_option (apfst ((#) sn)) (fetched js net symbol n w1)
      | _ \<Rightarrow> None)"

text \<open>
  How many inputs a loop that ended with \<open>left\<close> took: texts, up to the deadline, Ctrl-C or the end of the
  stream, or up to the one that reached \<open>max_events\<close>; all of them when it is still waiting.
\<close>

definition took :: "cli \<Rightarrow> rec_input list \<Rightarrow> bool \<Rightarrow> rec_state \<Rightarrow> nat \<Rightarrow> bool" where
  "took c inputs left st n \<longleftrightarrow>
     n \<le> length inputs \<and> take n inputs \<in> lists (range Received)
     \<and> (if left then (n < length inputs \<and> inputs ! n \<notin> range Received) \<or> (0 < n \<and> max_reached c st)
        else n = length inputs)"

lemma took_Cons: "took c inputs left st n \<Longrightarrow> took c (Received t # inputs) left st (Suc n)"
  by (auto simp: took_def)

lemma heard_Cons: "heard js (x # xs) = (case depth_update js x of None \<Rightarrow> [] | Some d \<Rightarrow> [d]) @ heard js xs"
  by (simp add: heard_def List.map_filter_def split: option.splits)

lemma heard_Nil [simp]: "heard js [] = []"
  by (simp add: heard_def List.map_filter_def)

text \<open>The rest of a session: its segments are those that the updates and the snapshots served make.\<close>

definition session_from ::
  "'v json \<Rightarrow> 'w net \<Rightarrow> cli \<Rightarrow> scales \<Rightarrow> segment list \<Rightarrow> segment \<Rightarrow> update list \<Rightarrow> rec_state \<Rightarrow> 'w \<Rightarrow> 'w \<Rightarrow> bool" where
  "session_from js net c sc sgs sg ds st' w w' \<longleftrightarrow>
     (\<exists>sns sgs' sg'. fetched js net (cli_symbol c) (length sns) w = Some (sns, w')
        \<and> segments_from (sg_snap sg) (sg_updates sg) sns ds = Some (sgs' @ [sg'])
        \<and> rec_inv sc (sgs @ sgs') sg' st')"

lemma session_end:
  "rec_inv sc sgs sg st' \<Longrightarrow> session_from js net c sc sgs sg [] st' w w"
  unfolding session_from_def by (intro exI [of _ "[]"] exI [of _ sg]) (cases sg, simp)

lemma session_Cons:
  assumes "advances js net c sc sgs sg d st1 w w1"
    and rest: "\<And>sgs sg. rec_inv sc sgs sg st1 \<Longrightarrow> session_from js net c sc sgs sg ds st' w1 w'"
  shows "session_from js net c sc sgs sg (d # ds) st' w w'"
proof -
  consider (old) "sg_updates sg = [] \<and> up_last d \<le> sn_last_update_id (sg_snap sg)" "rec_inv sc sgs sg st1" "w1 = w"
    | (join) "\<not> (sg_updates sg = [] \<and> up_last d \<le> sn_last_update_id (sg_snap sg))"
        "joins (sg_snap sg) (sg_updates sg @ [d])" "rec_inv sc sgs (grown sg d) st1" "w1 = w"
    | (gap) snap where "\<not> (sg_updates sg = [] \<and> up_last d \<le> sn_last_update_id (sg_snap sg))"
        "\<not> joins (sg_snap sg) (sg_updates sg @ [d])"
        "fetch_snapshot js net (cli_symbol c) w = (Inr (Inr snap), w1)"
        "rec_inv sc (sgs @ [sg]) (fresh_segment snap) st1"
    using assms(1) unfolding advances_def by (auto split: if_splits)
  then show ?thesis
  proof cases
    case old
    from rest [OF old(2)] show ?thesis using old(1,3) by (simp add: session_from_def)
  next
    case join
    from rest [OF join(3)] show ?thesis using join(1,2,4) by (auto simp: session_from_def)
  next
    case gap
    from rest [OF gap(4)] obtain sns sgs' sg' where
      r: "fetched js net (cli_symbol c) (length sns) w1 = Some (sns, w')"
        "segments_from snap [] sns ds = Some (sgs' @ [sg'])" "rec_inv sc (sgs @ sg # sgs') sg' st'"
      by (auto simp: session_from_def)
    then show ?thesis
      unfolding session_from_def using gap(1-3)
      by (intro exI [of _ "snap # sns"] exI [of _ "sg # sgs'"] exI [of _ sg']) auto
  qed
qed

lemma session_message:
  assumes "rec_inv sc sgs sg st" and "on_message js net c sc t st w = (Inr (Inr (b, st1)), w1)"
    and rest: "\<And>sgs sg. rec_inv sc sgs sg st1 \<Longrightarrow> session_from js net c sc sgs sg (heard js ys) st' w1 w'"
  shows "session_from js net c sc sgs sg (heard js (Received t # ys)) st' w w'"
proof (cases "depth_update js (Received t)")
  case None
  then show ?thesis using rec_inv_message [OF assms(1,2)] rest by (simp add: heard_Cons)
next
  case (Some d)
  then have "advances js net c sc sgs sg d st1 w w1" using rec_inv_message [OF assms(1,2)] by simp
  from session_Cons [OF this rest] show ?thesis using Some by (simp add: heard_Cons)
qed

lemma rec_inv_loop:
  "rec_loop js net c sc xs st w = (Inr (Inr (left, st')), w') \<Longrightarrow>
   \<exists>n. took c xs left st' n
     \<and> (\<forall>sgs sg. rec_inv sc sgs sg st \<longrightarrow> session_from js net c sc sgs sg (heard js (take n xs)) st' w w')"
proof (induction xs arbitrary: st w)
  case Nil
  then show ?case using session_end by (intro exI [of _ 0]) (auto simp: io_return_def took_def)
next
  case (Cons x xs)
  show ?case
  proof (cases x)
    case (Received t)
    with Cons.prems obtain check st1 w1 where
      m: "on_message js net c sc t st w = (Inr (Inr (check, st1)), w1)"
      and rest: "(if check \<and> max_reached c st1 then io_return (True, st1) else rec_loop js net c sc xs st1) w1
        = (Inr (Inr (left, st')), w')"
      by (auto simp: io_bind_ok)
    show ?thesis
    proof (cases "check \<and> max_reached c st1")
      case True
      then have ended: "left" "st' = st1" "w' = w1" using rest by (auto simp: io_return_def)
      have "took c (x # xs) left st' 1" using True ended by (simp add: took_def Received)
      moreover have "session_from js net c sc sgs sg (heard js (take 1 (x # xs))) st' w w'"
        if "rec_inv sc sgs sg st" for sgs sg
        using session_message [OF that m, where ys = "[]" and st' = st1 and w' = w1]
        by (simp add: Received ended session_end)
      ultimately show ?thesis by blast
    next
      case False
      have "rec_loop js net c sc xs st1 w1 = (Inr (Inr (left, st')), w')"
        using rest unfolding if_not_P [OF False] .
      from Cons.IH [OF this] obtain n where n: "took c xs left st' n"
        and s: "\<And>sgs sg. rec_inv sc sgs sg st1 \<Longrightarrow> session_from js net c sc sgs sg (heard js (take n xs)) st' w1 w'"
        by blast
      have "session_from js net c sc sgs sg (heard js (take (Suc n) (x # xs))) st' w w'"
        if "rec_inv sc sgs sg st" for sgs sg
        using session_message [OF that m s] by (simp add: Received)
      with took_Cons [OF n] show ?thesis unfolding Received by blast
    qed
  next
    case Deadline
    then show ?thesis using Cons.prems session_end by (intro exI [of _ 0]) (auto simp: io_return_def took_def)
  next
    case CtrlC
    then show ?thesis using Cons.prems session_end by (intro exI [of _ 0]) (auto simp: io_return_def took_def)
  next
    case Closed
    then show ?thesis using Cons.prems session_end by (intro exI [of _ 0]) (auto simp: io_return_def took_def)
  qed
qed

text \<open>What the invariant says of the events themselves.\<close>

lemma unseq_numbered: "map unseq (filter (\<lambda>e. ev_kind e \<noteq> Trade) (numbered n evs)) =
  map unseq (filter (\<lambda>e. ev_kind e \<noteq> Trade) evs)"
  by (induction evs arbitrary: n) (simp_all add: unseq_def)

lemma rec_inv_events:
  assumes "rec_inv sc sgs sg st"
  shows "recorded sc (sgs @ [sg]) (em_events (rs_em st))"
    and "map ev_seq (em_events (rs_em st)) = map of_nat [0..<length (em_events (rs_em st))]"
proof -
  obtain evs where evs: "rs_em st = em_extend evs em_empty" "recorded sc (sgs @ [sg]) evs"
    using assms by (auto simp: rec_inv_def)
  have ev: "em_events (rs_em st) = numbered 0 evs" by (simp add: evs(1) em_extend_def em_empty_def)
  show "recorded sc (sgs @ [sg]) (em_events (rs_em st))"
    using evs(2) by (simp add: ev recorded_def unseq_numbered)
  show "map ev_seq (em_events (rs_em st)) = map of_nat [0..<length (em_events (rs_em st))]"
    by (simp add: ev seqs_numbered)
qed

text \<open>
  \<open>session js net c w0 inputs left st w' sns sgs\<close>: the snapshots the exchange served between the worlds
  \<open>w0\<close> and \<open>w'\<close>, in order, and the segments that they and the updates the loop took ask for.
\<close>

definition session ::
  "'v json \<Rightarrow> 'w net \<Rightarrow> cli \<Rightarrow> 'w \<Rightarrow> rec_input list \<Rightarrow> bool \<Rightarrow> rec_state \<Rightarrow> 'w \<Rightarrow> snapshot list \<Rightarrow> segment list \<Rightarrow> bool" where
  "session js net c w0 inputs left st w' sns sgs \<longleftrightarrow>
     fetched js net (cli_symbol c) (length sns) w0 = Some (sns, w')
     \<and> (\<exists>n. took c inputs left st n \<and> segments sns (heard js (take n inputs)) = Some sgs)"

lemma rec_session:
  assumes "fetch_snapshot js net (cli_symbol c) w0 = (Inr (Inr snap), w)"
    and "seed_snapshot sc snap em_empty = Inr em"
    and "rec_loop js net c sc inputs (start_state em snap) w = (Inr (Inr (left, st)), w')"
  shows "\<exists>sns sgs sg. session js net c w0 inputs left st w' sns (sgs @ [sg]) \<and> rec_inv sc sgs sg st"
proof -
  from rec_inv_loop [OF assms(3)] obtain n where n: "took c inputs left st n"
    and "session_from js net c sc [] (fresh_segment snap) (heard js (take n inputs)) st w w'"
    using rec_inv_start [OF assms(2)] by blast
  then obtain sns sgs sg where s: "fetched js net (cli_symbol c) (length sns) w = Some (sns, w')"
    "segments_from snap [] sns (heard js (take n inputs)) = Some (sgs @ [sg])" "rec_inv sc sgs sg st"
    by (auto simp: session_from_def)
  have "session js net c w0 inputs left st w' (snap # sns) (sgs @ [sg])"
    using s(1,2) n assms(1) by (auto simp: session_def segments_step simp del: segments.simps)
  with s(3) show ?thesis by blast
qed

lemma segments_snaps: "segments sns ds = Some sgs \<Longrightarrow> map sg_snap sgs = sns"
proof (induction sns arbitrary: ds sgs)
  case (Cons sn sns)
  let ?sg = "\<lparr>sg_snap = sn, sg_updates = longest_run sn (usable sn ds)\<rparr>"
  consider "sns = []" "sgs = [?sg]" | rest gap sgs' where "segments sns rest = Some sgs'" "sgs = ?sg # sgs'"
    using Cons.prems by (cases sns; cases "drop (length (longest_run sn (usable sn ds))) (usable sn ds)")
      (auto simp only: segments.simps Let_def list.case prod.case option.map_disc_iff map_option_eq_Some split: if_splits)
  then show ?case by cases (use Cons.IH in auto)
qed simp

text \<open>
  Property C9: a recording is exactly the session. For the snapshots that the exchange served and the
  updates that the loop took, in order, the emitted events are, trades apart, those of the segments these
  ask for: after each snapshot the updates older than it are skipped and the longest run whose ids join the
  snapshot and one another is recorded; the update that breaks it is what fetched the next snapshot. So no
  segment has a gap, none stops early and every snapshot fetched is used. Sequence numbers are consecutive
  from zero.
\<close>
theorem recorder_in_sync:
  assumes "fetch_snapshot js net (cli_symbol c) w0 = (Inr (Inr snap), w)"
    and "seed_snapshot sc snap \<lparr>em_events = [], em_seq = 0\<rparr> = Inr em"
    and "rec_loop js net c sc inputs (start_state em snap) w = (Inr (Inr (left, st)), w')"
  shows "\<exists>sns sgs. session js net c w0 inputs left st w' sns sgs
    \<and> map sg_snap sgs = sns \<and> rs_resnapshots st + 1 = of_nat (length sns)
    \<and> list_all in_sync sgs \<and> recorded sc sgs (em_events (rs_em st))
    \<and> map ev_seq (em_events (rs_em st)) = map of_nat [0..<length (em_events (rs_em st))]"
proof -
  from rec_session [OF assms(1) assms(2) [folded em_empty_def] assms(3)] obtain sns sgs sg where
    s: "session js net c w0 inputs left st w' sns (sgs @ [sg])" and inv: "rec_inv sc sgs sg st" by blast
  have snaps: "map sg_snap (sgs @ [sg]) = sns" using s segments_snaps unfolding session_def by blast
  from arg_cong [where f = length, OF this] have "rs_resnapshots st + 1 = of_nat (length sns)"
    using inv by (simp add: rec_inv_def flip: \<open>_ = length sns\<close>)
  then show ?thesis
    using s snaps rec_inv_events [OF inv] inv by (intro exI [of _ sns] exI [of _ "sgs @ [sg]"]) (simp add: rec_inv_def)
qed

text \<open>A small document type for the examples: \<open>doc_json\<close> has the accessors of a JSON value.\<close>

datatype doc = DNull | DNum u64 | DStr string | DArr "doc list" | DObj "(string \<times> doc) list"

definition doc_field :: "doc \<Rightarrow> string \<Rightarrow> doc" where
  "doc_field d k = (case d of DObj kvs \<Rightarrow> (case map_of kvs k of None \<Rightarrow> DNull | Some v \<Rightarrow> v) | _ \<Rightarrow> DNull)"

definition doc_json :: "(u8 list \<Rightarrow> string + doc) \<Rightarrow> (string \<Rightarrow> doc option) \<Rightarrow> doc json" where
  "doc_json of_bytes of_text =
     \<lparr>js_from_slice = of_bytes, js_from_str = of_text, js_field = doc_field,
      js_index = (\<lambda>d i. case d of DArr vs \<Rightarrow> if i < length vs then vs ! i else DNull | _ \<Rightarrow> DNull),
      js_get = (\<lambda>d i. case d of DArr vs \<Rightarrow> if i < length vs then Some (vs ! i) else None | _ \<Rightarrow> None),
      js_str = (\<lambda>d. case d of DStr s \<Rightarrow> Some s | _ \<Rightarrow> None),
      js_u64 = (\<lambda>d. case d of DNum n \<Rightarrow> Some n | _ \<Rightarrow> None), js_bool = (\<lambda>d. None),
      js_array = (\<lambda>d. case d of DArr vs \<Rightarrow> Some vs | _ \<Rightarrow> None)\<rparr>"

definition pair_doc :: "string \<Rightarrow> string \<Rightarrow> doc" where
  "pair_doc p q = DArr [DStr p, DStr q]"

definition diff_doc :: "u64 \<Rightarrow> u64 \<Rightarrow> doc list \<Rightarrow> doc" where
  "diff_doc lo hi bids =
     DObj [(''e'', DStr ''depthUpdate''), (''U'', DNum lo), (''u'', DNum hi), (''E'', DNum 7),
           (''b'', DArr bids), (''a'', DArr [])]"

text \<open>
  A session with a gap: the second update skips ids, so the loop fetches a new snapshot. The world counts
  the requests served, and the exchange answers with the count.
\<close>

definition demo_json :: "doc json" where
  "demo_json = doc_json
     (\<lambda>bs. Inr (if bs = [0]
        then DObj [(''lastUpdateId'', DNum 10), (''bids'', DArr [pair_doc ''4'' ''3'']), (''asks'', DArr [])]
        else DObj [(''lastUpdateId'', DNum 20), (''bids'', DArr [pair_doc ''8'' ''1'']), (''asks'', DArr [])]))
     (\<lambda>t. if t = ''first'' then Some (diff_doc 9 12 [pair_doc ''5'' ''2''])
          else if t = ''gap'' then Some (diff_doc 15 16 []) else None)"

definition demo_net :: "nat net" where
  "demo_net = \<lparr>nt_exchange = (\<lambda>_ w. (Inr (ascii '' 200 '' @ CRLF @ CRLF @ [of_nat w]), w + 1)),
     nt_subscribe = (\<lambda>_ w. (Inr (), w))\<rparr>"

definition demo_cli :: cli where
  "demo_cli = \<lparr>cli_symbol = ''X'', cli_duration_secs = 1, cli_out = ''o'', cli_max_events = None, cli_with_trades = False\<rparr>"

definition demo_scales :: scales where
  "demo_scales = \<lparr>sc_tick_size = ''1'', sc_step_size = ''1''\<rparr>"

definition demo_snap :: snapshot where
  "demo_snap = \<lparr>sn_last_update_id = 10, sn_bids = [(''4'', ''3'')], sn_asks = []\<rparr>"

definition demo_events :: "book_event list" where
  "demo_events = [ev_clear 0 0, ev_level 1 0 Bid (Px 4) (Qty 3), ev_level 2 7000000 Bid (Px 5) (Qty 2),
     ev_clear 3 0, ev_level 4 0 Bid (Px 8) (Qty 1)]"

lemma demo_ticks:
  "to_ticks ''4'' ''1'' = Inr 4" "to_ticks ''3'' ''1'' = Inr 3" "to_ticks ''5'' ''1'' = Inr 5"
  "to_ticks ''2'' ''1'' = Inr 2" "to_ticks ''8'' ''1'' = Inr 8" "to_ticks ''1'' ''1'' = Inr 1"
  by (simp_all add: to_ticks_def frac_digits_def scale_to_int_def strip_minus_def is_ascii_digit_def
      checked_pow10_eq parse_i128_digits_ascii dval_def i128_checked_def I128_MAX_def ok_or_def smod_int_alt_def)

lemma demo_response: "parse_http_body (ascii '' 200 '' @ CRLF @ CRLF @ [b]) = Inr (Inr [b])"
  using parse_response [of "ascii '' 200 ''" "[]" "[b]"]
  by (simp add: ok_line_def ascii_def contains_def)

lemma demo_fetch:
  "fetch_snapshot demo_json demo_net ''X'' 0 = (Inr (Inr demo_snap), 1)"
  "fetch_snapshot demo_json demo_net ''X'' 1 =
    (Inr (Inr \<lparr>sn_last_update_id = 20, sn_bids = [(''8'', ''1'')], sn_asks = []\<rparr>), 2)"
  by (simp_all add: fetch_snapshot_def get_json_def https_get_def demo_net_def demo_response io_bind_def io_lift_def
      demo_json_def doc_json_def doc_field_def pair_doc_def demo_snap_def snapshot_of_def levels_of_def ok_or_def)

lemma demo_seed:
  "seed_snapshot demo_scales demo_snap \<lparr>em_events = [], em_seq = 0\<rparr> =
     Inr \<lparr>em_events = [ev_clear 0 0, ev_level 1 0 Bid (Px 4) (Qty 3)], em_seq = 2\<rparr>"
  by (simp add: seed_snapshot_def demo_snap_def demo_scales_def em_push_def emit_level_def conv_def demo_ticks)

lemma demo_loop:
  "rec_loop demo_json demo_net demo_cli demo_scales [Received ''first'', Received ''gap'', Deadline]
     (start_state \<lparr>em_events = [ev_clear 0 0, ev_level 1 0 Bid (Px 4) (Qty 3)], em_seq = 2\<rparr> demo_snap) 1 =
   (Inr (Inr (True, \<lparr>rs_em = \<lparr>em_events = demo_events, em_seq = 5\<rparr>, rs_last_update_id = 20, rs_prev_u = 12,
      rs_synced = False, rs_resnapshots = 1\<rparr>)), 2)"
proof -
  let ?s0 = "start_state \<lparr>em_events = [ev_clear 0 0, ev_level 1 0 Bid (Px 4) (Qty 3)], em_seq = 2\<rparr> demo_snap"
  let ?s1 = "\<lparr>rs_em = \<lparr>em_events = take 3 demo_events, em_seq = 3\<rparr>, rs_last_update_id = 10, rs_prev_u = 12,
      rs_synced = True, rs_resnapshots = 0\<rparr>"
  note docs = demo_json_def doc_json_def doc_field_def diff_doc_def pair_doc_def demo_scales_def demo_events_def
  have first: "on_message demo_json demo_net demo_cli demo_scales ''first'' ?s0 1 = (Inr (Inr (True, ?s1)), 1)"
    by (simp add: docs on_message_def on_depth_def start_state_def demo_snap_def io_bind_def io_lift_def
        io_return_def apply_diff_def apply_side_def ok_or_def emit_level_def conv_def demo_ticks em_push_def)
  have second: "on_message demo_json demo_net demo_cli demo_scales ''gap'' ?s1 1 =
      (Inr (Inr (True, ?s1\<lparr>rs_em := \<lparr>em_events = demo_events, em_seq = 5\<rparr>, rs_last_update_id := 20,
         rs_synced := False, rs_resnapshots := 1\<rparr>)), 2)"
    using demo_fetch(2)
    by (simp add: docs on_message_def on_depth_def resnapshot_def demo_cli_def io_bind_def io_lift_def
        io_return_def seed_snapshot_def emit_level_def conv_def demo_ticks em_push_def)
  show ?thesis
    using first second by (simp add: io_bind_def io_return_def max_reached_def demo_cli_def)
qed

lemma demo_start: "fetch_snapshot demo_json demo_net (cli_symbol demo_cli) 0 = (Inr (Inr demo_snap), 1)"
  using demo_fetch(1) by (simp add: demo_cli_def)

theorem recorder_in_sync_witness:
  "\<exists>sns sgs. session demo_json demo_net demo_cli 0 [Received ''first'', Received ''gap'', Deadline] True
      \<lparr>rs_em = \<lparr>em_events = demo_events, em_seq = 5\<rparr>, rs_last_update_id = 20, rs_prev_u = 12,
        rs_synced = False, rs_resnapshots = 1\<rparr> 2 sns sgs
    \<and> map sg_snap sgs = sns \<and> 2 = (of_nat (length sns) :: u32)
    \<and> list_all in_sync sgs \<and> recorded demo_scales sgs demo_events
    \<and> map ev_seq demo_events = map of_nat [0..<5]"
proof -
  have "length demo_events = 5" by (simp add: demo_events_def)
  with recorder_in_sync [OF demo_start demo_seed demo_loop] show ?thesis
    by (simp only: rec_state.simps emitter.simps one_add_one)
qed

subsection \<open>The book a recording replays to\<close>

lemma spec_apply_unseq: "spec_apply b (unseq e) = spec_apply b e"
  by (cases "ev_kind e"; cases "ev_side e") (simp_all add: spec_apply_def unseq_def)

lemma sides_trades:
  "spec_side (spec_run (map unseq (filter (\<lambda>e. ev_kind e \<noteq> Trade) evs))) s = spec_side (spec_run evs) s"
proof (induction evs arbitrary: s rule: rev_induct)
  case (snoc e evs)
  have sides: "spec_side (spec_apply b e) s = spec_side (spec_apply b' e) s"
    if "spec_side b Bid = spec_side b' Bid" "spec_side b Ask = spec_side b' Ask" for b b' s
    using that by (cases s) (simp_all add: spec_apply_def split: event_kind.split side.split)
  show ?case
  proof (cases "ev_kind e = Trade")
    case True
    then have "spec_side (spec_apply b e) s = spec_side b s" for b
      by (cases s) (simp_all add: spec_apply_def)
    then show ?thesis using True snoc by (simp add: spec_run_snoc)
  next
    case False
    then show ?thesis using sides [OF snoc snoc] by (simp add: spec_run_snoc spec_apply_unseq)
  qed
qed simp

lemma spec_run_cleared: "ev_kind c = Clear \<Longrightarrow> spec_run (xs @ c # ys) = spec_run (c # ys)"
  by (simp add: spec_run_def spec_apply_def)

lemma segment_starts_clear:
  "segment_events sc sg = Some evs \<Longrightarrow> \<exists>c r. evs = c # r \<and> ev_kind c = Clear"
  by (auto simp: segment_events_def ev_clear_def)

lemma recorded_book:
  assumes "recorded sc (sgs @ [sg]) evs"
  shows "\<exists>ls. segment_events sc sg = Some ls \<and> spec_side (spec_run evs) s = spec_side (spec_run ls) s"
proof -
  obtain evss ls where ls: "segment_events sc sg = Some ls"
    and evs: "map unseq (filter (\<lambda>e. ev_kind e \<noteq> Trade) evs) = concat evss @ ls"
    using assms by (auto simp: recorded_def those_append split: option.splits)
  obtain c r where c: "ls = c # r" "ev_kind c = Clear" using segment_starts_clear [OF ls] by blast
  have "spec_side (spec_run evs) s = spec_side (spec_run (concat evss @ ls)) s"
    by (simp add: evs [symmetric] sides_trades)
  also have "\<dots> = spec_side (spec_run ls) s" by (simp add: c spec_run_cleared)
  finally show ?thesis using ls by blast
qed

text \<open>The ladder that a list of entries leaves: the last entry of a price wins, a zero removes it.\<close>

fun overlay :: "scales \<Rightarrow> side \<Rightarrow> entry list \<Rightarrow> ladder \<Rightarrow> ladder" where
  "overlay sc s [] m = m"
| "overlay sc s ((ts, sd, p, q) # es) m =
     overlay sc s es
       (case (ticks_of (sc_tick_size sc) p, ticks_of (sc_step_size sc) q) of
          (Some pt, Some ql) \<Rightarrow> if sd = s then ladder_set m (Px pt) (Qty ql) else m
        | _ \<Rightarrow> m)"

lemma overlay_levels:
  "level_events sc es = Some evs \<Longrightarrow>
   spec_side (fold (\<lambda>ev b. spec_apply b ev) evs b) s = overlay sc s es (spec_side b s)"
proof (induction es arbitrary: b evs)
  case (Cons e es)
  obtain ts sd p q where e: "e = (ts, sd, p, q)" by (cases e) blast
  with Cons.prems obtain pt ql r where t: "ticks_of (sc_tick_size sc) p = Some pt"
    "ticks_of (sc_step_size sc) q = Some ql" "level_events sc es = Some r"
    "evs = ev_level 0 ts sd (Px pt) (Qty ql) # r"
    by (auto simp: level_events_def split: option.splits sum.splits)
  have "spec_side (spec_apply b (ev_level 0 ts sd (Px pt) (Qty ql))) s =
      (if sd = s then ladder_set (spec_side b s) (Px pt) (Qty ql) else spec_side b s)"
    by (cases s; cases sd) (simp_all add: spec_apply_def ev_level_def)
  then show ?case using Cons.IH [OF t(3)] t by (simp add: e)
qed (simp add: level_events_def)

text \<open>
  Property C10: the recording replays to the exchange's book. Replaying what a finished loop emitted gives,
  on each side, the ladder of the last snapshot that was fetched, overlaid with the updates that joined it
  since, whatever was recorded before it: a gap leaves nothing stale behind.
\<close>
theorem recorder_book:
  assumes "fetch_snapshot js net (cli_symbol c) w0 = (Inr (Inr snap), w)"
    and "seed_snapshot sc snap \<lparr>em_events = [], em_seq = 0\<rparr> = Inr em"
    and "rec_loop js net c sc inputs (start_state em snap) w = (Inr (Inr (left, st)), w')"
  shows "\<exists>sns sgs. session js net c w0 inputs left st w' sns sgs \<and> map sg_snap sgs = sns
    \<and> spec_side (spec_run (em_events (rs_em st))) s
      = overlay sc s (snap_entries (last sns) @ concat (map up_entries (sg_updates (last sgs)))) Map.empty"
proof -
  from rec_session [OF assms(1) assms(2) [folded em_empty_def] assms(3)] obtain sns sgs sg where
    s: "session js net c w0 inputs left st w' sns (sgs @ [sg])" and inv: "rec_inv sc sgs sg st" by blast
  have snaps: "map sg_snap (sgs @ [sg]) = sns" using s segments_snaps unfolding session_def by blast
  from recorded_book [OF rec_inv_events(1) [OF inv], of s] obtain ls where ls: "segment_events sc sg = Some ls"
    "spec_side (spec_run (em_events (rs_em st))) s = spec_side (spec_run ls) s" by blast
  obtain r where r: "ls = ev_clear 0 0 # r"
    "level_events sc (snap_entries (sg_snap sg) @ concat (map up_entries (sg_updates sg))) = Some r"
    using ls(1) by (auto simp: segment_events_def)
  have "spec_run ls = fold (\<lambda>ev b. spec_apply b ev) r spec_empty"
    by (simp add: r(1) spec_run_def spec_apply_def ev_clear_def)
  then have "spec_side (spec_run ls) s = overlay sc s
      (snap_entries (sg_snap sg) @ concat (map up_entries (sg_updates sg))) (spec_side spec_empty s)"
    using overlay_levels [OF r(2)] by simp
  moreover have "spec_side spec_empty s = Map.empty" by (cases s) (simp_all add: spec_empty_def)
  moreover have "last sns = sg_snap sg" by (simp flip: snaps)
  ultimately show ?thesis using s snaps ls(2) by (intro exI [of _ sns] exI [of _ "sgs @ [sg]"]) simp
qed

theorem recorder_book_witness:
  "\<exists>sns sgs. session demo_json demo_net demo_cli 0 [Received ''first'', Received ''gap'', Deadline] True
      \<lparr>rs_em = \<lparr>em_events = demo_events, em_seq = 5\<rparr>, rs_last_update_id = 20, rs_prev_u = 12,
        rs_synced = False, rs_resnapshots = 1\<rparr> 2 sns sgs
    \<and> map sg_snap sgs = sns
    \<and> spec_side (spec_run demo_events) Bid
      = overlay demo_scales Bid (snap_entries (last sns) @ concat (map up_entries (sg_updates (last sgs)))) Map.empty"
  using recorder_book [OF demo_start demo_seed demo_loop, of Bid] by (simp only: rec_state.simps emitter.simps)

end
