(* ===== verification/Recorder_Calendar.thy ===== *)
theory Recorder_Calendar
  imports Recorder
begin

section \<open>The recorder's calendar\<close>

text \<open>
  \<open>civil_from_days\<close> against the Gregorian calendar, given as the rule for the day after a date
  (\<open>next_date\<close>). The computation works on years that start in March: \<open>march_date\<close> is the date of a day of
  such a year, and \<open>march_parts\<close> the year of a day count by its 400-, 100- and 4-year cycles.
\<close>

definition leap_year :: "int \<Rightarrow> bool" where
  "leap_year y \<longleftrightarrow> y mod 4 = 0 \<and> (y mod 100 \<noteq> 0 \<or> y mod 400 = 0)"

definition month_length :: "int \<Rightarrow> int \<Rightarrow> int" where
  "month_length y m =
     (if m = 2 then (if leap_year y then 29 else 28) else if m \<in> {4, 6, 9, 11} then 30 else 31)"

fun next_date :: "int \<times> int \<times> int \<Rightarrow> int \<times> int \<times> int" where
  "next_date (y, m, d) =
     (if d < month_length y m then (y, m, d + 1)
      else if m < 12 then (y, m + 1, 1) else (y + 1, 1, 1))"

definition march_month :: "int \<Rightarrow> int \<times> int" where
  "march_month doy =
     (let mp = (5 * doy + 2) div 153
      in (if mp < 10 then mp + 3 else mp - 9, doy - (153 * mp + 2) div 5 + 1))"

definition march_date :: "int \<Rightarrow> int \<Rightarrow> int \<times> int \<times> int" where
  "march_date y doy = (let (m, d) = march_month doy in (if m \<le> 2 then y + 1 else y, m, d))"

definition march_parts :: "int \<Rightarrow> int \<Rightarrow> int \<Rightarrow> int \<Rightarrow> int \<Rightarrow> bool" where
  "march_parts era c q r doy \<longleftrightarrow>
     0 \<le> era \<and> 0 \<le> c \<and> c \<le> 3 \<and> 0 \<le> q \<and> q \<le> 24 \<and> 0 \<le> r \<and> r \<le> 3 \<and> 0 \<le> doy \<and> doy \<le> 365
     \<and> (doy = 365 \<longrightarrow> r = 3 \<and> (q = 24 \<longrightarrow> c = 3))"

lemma sdiv_pos: "0 \<le> a \<Longrightarrow> 0 < b \<Longrightarrow> a sdiv b = a div (b :: int)"
  by (cases "a = 0") (simp_all add: signed_divide_int_def)

lemma year_of_era:
  assumes p: "march_parts era c q r doy"
    and doe: "doe = 36524 * c + 1461 * q + 365 * r + doy"
  shows "(doe - doe div 1460 + doe div 36524 - doe div 146096) div 365 = 100 * c + 4 * q + r"
    and "0 \<le> doe - doe div 1460 + doe div 36524 - doe div 146096"
proof -
  note b = p [unfolded march_parts_def]
  define e where "e = (if 1460 \<le> 24 * c + q + 365 * r + doy then 1 else 0 :: int)"
  define f where "f = (if 36524 \<le> 1461 * q + 365 * r + doy then 1 else 0 :: int)"
  define g where "g = (if doe = 146096 then 1 else 0 :: int)"
  have e: "doe div 1460 = 25 * c + q + e"
    by (rule int_div_pos_eq [of _ _ _ "24 * c + q + 365 * r + doy - 1460 * e"])
      (use b in \<open>auto simp: doe e_def\<close>)
  have f: "doe div 36524 = c + f"
    by (rule int_div_pos_eq [of _ _ _ "1461 * q + 365 * r + doy - 36524 * f"])
      (use b in \<open>auto simp: doe f_def\<close>)
  have g: "doe div 146096 = g"
    by (rule int_div_pos_eq [of _ _ _ "doe - 146096 * g"]) (use b in \<open>auto simp: doe g_def\<close>)
  have k: "0 \<le> doy - e + f - g \<and> doy - e + f - g < 365"
    using b by (auto simp: e_def f_def g_def doe)
  show "(doe - doe div 1460 + doe div 36524 - doe div 146096) div 365 = 100 * c + 4 * q + r"
    unfolding e f g by (rule int_div_pos_eq [of _ _ _ "doy - e + f - g"]) (use k in \<open>auto simp: doe\<close>)
  show "0 \<le> doe - doe div 1460 + doe div 36524 - doe div 146096"
    unfolding e f g using k b by (simp add: doe)
qed

lemma civil_of_parts:
  assumes p: "march_parts era c q r doy"
    and z: "days + 719468 = 146097 * era + (36524 * c + 1461 * q + 365 * r + doy)"
  shows "civil_from_days days = march_date (400 * era + 100 * c + 4 * q + r) doy"
proof -
  note b = p [unfolded march_parts_def]
  define doe where "doe = 36524 * c + 1461 * q + 365 * r + doy"
  have doe: "0 \<le> doe" "doe < 146097" using b by (auto simp: doe_def)
  have z0: "0 \<le> days + 719468" using z b by simp
  have era: "(days + 719468) sdiv 146097 = era"
    using doe z z0 by (simp add: sdiv_pos doe_def [symmetric])
  have yoe: "(doe - doe sdiv 1460 + doe sdiv 36524 - doe sdiv 146096) sdiv 365 = 100 * c + 4 * q + r"
    using doe year_of_era [OF p doe_def] by (simp add: sdiv_pos)
  have "(100 * c + 4 * q + r) div 4 = 25 * c + q"
    by (rule int_div_pos_eq [of _ _ _ r]) (use b in auto)
  moreover have "(100 * c + 4 * q + r) div 100 = c"
    by (rule int_div_pos_eq [of _ _ _ "4 * q + r"]) (use b in auto)
  ultimately have doy: "doe - (365 * (100 * c + 4 * q + r) + (100 * c + 4 * q + r) sdiv 4
      - (100 * c + 4 * q + r) sdiv 100) = doy"
    using b by (simp add: sdiv_pos doe_def)
  have mp: "(5 * doy + 2) sdiv 153 = (5 * doy + 2) div 153" using b by (simp add: sdiv_pos)
  have d: "(153 * ((5 * doy + 2) div 153) + 2) sdiv 5 = (153 * ((5 * doy + 2) div 153) + 2) div 5"
    using b by (intro sdiv_pos) (auto simp: pos_imp_zdiv_nonneg_iff)
  have doe_eq: "days + 719468 - era * 146097 = doe" using z by (simp add: doe_def)
  show ?thesis
    by (simp only: civil_from_days_def Let_def if_P [OF z0] era doe_eq yoe doy mp d march_date_def
        march_month_def prod.case) (simp add: algebra_simps)
qed

lemma march_month_ranges:
  "0 \<le> doy \<Longrightarrow> doy \<le> 30 \<Longrightarrow> march_month doy = (3, doy + 1)"
  "31 \<le> doy \<Longrightarrow> doy \<le> 60 \<Longrightarrow> march_month doy = (4, doy - 30)"
  "61 \<le> doy \<Longrightarrow> doy \<le> 91 \<Longrightarrow> march_month doy = (5, doy - 60)"
  "92 \<le> doy \<Longrightarrow> doy \<le> 121 \<Longrightarrow> march_month doy = (6, doy - 91)"
  "122 \<le> doy \<Longrightarrow> doy \<le> 152 \<Longrightarrow> march_month doy = (7, doy - 121)"
  "153 \<le> doy \<Longrightarrow> doy \<le> 183 \<Longrightarrow> march_month doy = (8, doy - 152)"
  "184 \<le> doy \<Longrightarrow> doy \<le> 213 \<Longrightarrow> march_month doy = (9, doy - 183)"
  "214 \<le> doy \<Longrightarrow> doy \<le> 244 \<Longrightarrow> march_month doy = (10, doy - 213)"
  "245 \<le> doy \<Longrightarrow> doy \<le> 274 \<Longrightarrow> march_month doy = (11, doy - 244)"
  "275 \<le> doy \<Longrightarrow> doy \<le> 305 \<Longrightarrow> march_month doy = (12, doy - 274)"
  "306 \<le> doy \<Longrightarrow> doy \<le> 336 \<Longrightarrow> march_month doy = (1, doy - 305)"
  "337 \<le> doy \<Longrightarrow> doy \<le> 365 \<Longrightarrow> march_month doy = (2, doy - 336)"
proof -
  have "march_month doy = (if k < 10 then k + 3 else k - 9, doy - (153 * k + 2) div 5 + 1)"
    if "153 * k \<le> 5 * doy + 2" "5 * doy + 2 < 153 * (k + 1)" for k
  proof -
    have "(5 * doy + 2) div 153 = k"
      using that by (intro int_div_pos_eq [of _ _ _ "5 * doy + 2 - 153 * k"]) auto
    then show ?thesis by (simp add: march_month_def)
  qed
  note month = this
  show "0 \<le> doy \<Longrightarrow> doy \<le> 30 \<Longrightarrow> march_month doy = (3, doy + 1)" using month [of 0] by simp
  show "31 \<le> doy \<Longrightarrow> doy \<le> 60 \<Longrightarrow> march_month doy = (4, doy - 30)" using month [of 1] by simp
  show "61 \<le> doy \<Longrightarrow> doy \<le> 91 \<Longrightarrow> march_month doy = (5, doy - 60)" using month [of 2] by simp
  show "92 \<le> doy \<Longrightarrow> doy \<le> 121 \<Longrightarrow> march_month doy = (6, doy - 91)" using month [of 3] by simp
  show "122 \<le> doy \<Longrightarrow> doy \<le> 152 \<Longrightarrow> march_month doy = (7, doy - 121)" using month [of 4] by simp
  show "153 \<le> doy \<Longrightarrow> doy \<le> 183 \<Longrightarrow> march_month doy = (8, doy - 152)" using month [of 5] by simp
  show "184 \<le> doy \<Longrightarrow> doy \<le> 213 \<Longrightarrow> march_month doy = (9, doy - 183)" using month [of 6] by simp
  show "214 \<le> doy \<Longrightarrow> doy \<le> 244 \<Longrightarrow> march_month doy = (10, doy - 213)" using month [of 7] by simp
  show "245 \<le> doy \<Longrightarrow> doy \<le> 274 \<Longrightarrow> march_month doy = (11, doy - 244)" using month [of 8] by simp
  show "275 \<le> doy \<Longrightarrow> doy \<le> 305 \<Longrightarrow> march_month doy = (12, doy - 274)" using month [of 9] by simp
  show "306 \<le> doy \<Longrightarrow> doy \<le> 336 \<Longrightarrow> march_month doy = (1, doy - 305)" using month [of 10] by simp
  show "337 \<le> doy \<Longrightarrow> doy \<le> 365 \<Longrightarrow> march_month doy = (2, doy - 336)" using month [of 11] by simp
qed

lemma date_step_within:
  assumes "0 \<le> doy" and "doy < 364"
  shows "march_date y (doy + 1) = next_date (march_date y doy)"
proof -
  consider "0 \<le> doy" "doy < 30" | "31 \<le> doy" "doy < 60" | "61 \<le> doy" "doy < 91" | "92 \<le> doy" "doy < 121" | "122 \<le> doy" "doy < 152" | "153 \<le> doy" "doy < 183" | "184 \<le> doy" "doy < 213" | "214 \<le> doy" "doy < 244" | "245 \<le> doy" "doy < 274" | "275 \<le> doy" "doy < 305" | "306 \<le> doy" "doy < 336" | "337 \<le> doy" "doy < 364"
    | "doy = 30" | "doy = 60" | "doy = 91" | "doy = 121" | "doy = 152" | "doy = 183" | "doy = 213" | "doy = 244" | "doy = 274" | "doy = 305" | "doy = 336"
    using assms by atomize_elim presburger
  then show ?thesis
    by cases (simp_all add: march_date_def march_month_ranges month_length_def)
qed

lemma leap_year_parts:
  assumes "march_parts era c q r doy"
  shows "leap_year (400 * era + 100 * c + 4 * q + r + 1) \<longleftrightarrow> r = 3 \<and> (q = 24 \<longrightarrow> c = 3)"
proof -
  note b = assms [unfolded march_parts_def]
  define y where "y = 400 * era + 100 * c + 4 * q + r + 1"
  have "y = (r + 1) + 4 * (100 * era + 25 * c + q)" by (simp add: y_def)
  then have "y mod 4 = (r + 1) mod 4" by (simp only: mod_mult_self2)
  also have "\<dots> = 0 \<longleftrightarrow> r = 3" using b by presburger
  finally have four: "y mod 4 = 0 \<longleftrightarrow> r = 3" .
  have "y = (4 * q + r + 1) + 100 * (4 * era + c)" by (simp add: y_def)
  then have "y mod 100 = (4 * q + r + 1) mod 100" by (simp only: mod_mult_self2)
  also have "\<dots> = 0 \<longleftrightarrow> q = 24" if "r = 3"
    using b that by (cases "q = 24") (auto simp: mod_pos_pos_trivial)
  finally have hundred: "r = 3 \<Longrightarrow> y mod 100 = 0 \<longleftrightarrow> q = 24" .
  have "y = (100 * c + 100) + 400 * era" if "r = 3" "q = 24" using that by (simp add: y_def)
  then have "r = 3 \<Longrightarrow> q = 24 \<Longrightarrow> y mod 400 = (100 * c + 100) mod 400" by (simp only: mod_mult_self2)
  moreover have "(100 * c + 100) mod 400 = 0 \<longleftrightarrow> c = 3"
    using b by (cases "c = 3") (auto simp: mod_pos_pos_trivial)
  ultimately have four_hundred: "r = 3 \<Longrightarrow> q = 24 \<Longrightarrow> y mod 400 = 0 \<longleftrightarrow> c = 3" by simp
  show ?thesis
    using four hundred four_hundred unfolding leap_year_def y_def [symmetric] by auto
qed

text \<open>The last day of February, and the first of March after it.\<close>

lemma date_step_leap:
  assumes "march_parts era c q 3 364" and "q = 24 \<Longrightarrow> c = 3"
  shows "march_date (400 * era + 100 * c + 4 * q + 3) 365 =
    next_date (march_date (400 * era + 100 * c + 4 * q + 3) 364)"
proof -
  have "leap_year (400 * era + 100 * c + 4 * q + 3 + 1)"
    using leap_year_parts [OF assms(1)] assms(2) by blast
  then show ?thesis by (simp add: march_date_def march_month_ranges month_length_def)
qed

lemma date_step_year:
  assumes p: "march_parts era c q r doy" and last: "doy = (if r = 3 \<and> (q = 24 \<longrightarrow> c = 3) then 365 else 364)"
  shows "march_date (400 * era + 100 * c + 4 * q + r + 1) 0 =
    next_date (march_date (400 * era + 100 * c + 4 * q + r) doy)"
proof -
  define y where "y = 400 * era + 100 * c + 4 * q + r"
  have "doy = (if leap_year (y + 1) then 365 else 364)"
    using last leap_year_parts [OF p] by (simp add: y_def)
  then have "march_date (y + 1) 0 = next_date (march_date y doy)"
    by (auto simp: march_date_def march_month_ranges month_length_def)
  then show ?thesis by (simp only: y_def)
qed

text \<open>Every day count has its parts after one more day.\<close>

lemma march_parts_step:
  assumes p: "march_parts era c q r doy"
    and z: "z = 146097 * era + (36524 * c + 1461 * q + 365 * r + doy)"
    and y: "y = 400 * era + 100 * c + 4 * q + r"
  shows "\<exists>era' c' q' r' doy'. march_parts era' c' q' r' doy'
    \<and> z + 1 = 146097 * era' + (36524 * c' + 1461 * q' + 365 * r' + doy')
    \<and> march_date (400 * era' + 100 * c' + 4 * q' + r') doy' = next_date (march_date y doy)"
proof -
  note b = p [unfolded march_parts_def]
  let ?last = "if r = 3 \<and> (q = 24 \<longrightarrow> c = 3) then 365 else 364 :: int"
  show ?thesis
  proof (cases "doy = ?last")
    case False
    then have lt: "doy < ?last" using b by auto
    have "march_date y (doy + 1) = next_date (march_date y doy)"
    proof (cases "doy < 364")
      case True
      then show ?thesis using b date_step_within by simp
    next
      case False
      then have "doy = 364" "r = 3" "q = 24 \<longrightarrow> c = 3" using lt by (auto split: if_splits)
      then show ?thesis using date_step_leap [of era c q] p y by simp
    qed
    moreover have "march_parts era c q r (doy + 1)"
      using b lt unfolding march_parts_def by (auto split: if_splits)
    ultimately show ?thesis using z y by (intro exI [of _ era] exI [of _ c] exI [of _ q] exI [of _ r] exI [of _ "doy + 1"]) simp
  next
    case True
    have next_year: "march_date (y + 1) 0 = next_date (march_date y doy)"
      using date_step_year [OF p True] y by simp
    have close: ?thesis if "march_parts e' c' q' r' 0" "400 * e' + 100 * c' + 4 * q' + r' = y + 1"
      "z + 1 = 146097 * e' + (36524 * c' + 1461 * q' + 365 * r' + 0)" for e' c' q' r'
      using that next_year by metis
    consider "r < 3" | "r = 3" "q < 24" | "r = 3" "q = 24" "c < 3" | "r = 3" "q = 24" "c = 3"
      using b by linarith
    then show ?thesis
    proof cases
      case 1
      then have "doy = 364" using True by simp
      show ?thesis
        by (rule close [of "era" "c" "q" "r + 1"])
          (use b z y 1 \<open>doy = 364\<close> in \<open>simp_all add: march_parts_def\<close>)
    next
      case 2
      then have "doy = 365" using True by simp
      show ?thesis
        by (rule close [of "era" "c" "q + 1" "0"])
          (use b z y 2 \<open>doy = 365\<close> in \<open>simp_all add: march_parts_def\<close>)
    next
      case 3
      then have "doy = 364" using True by simp
      show ?thesis
        by (rule close [of "era" "c + 1" "0" "0"])
          (use b z y 3 \<open>doy = 364\<close> in \<open>simp_all add: march_parts_def\<close>)
    next
      case 4
      then have "doy = 365" using True by simp
      show ?thesis
        by (rule close [of "era + 1" "0" "0" "0"])
          (use b z y 4 \<open>doy = 365\<close> in \<open>simp_all add: march_parts_def\<close>)
    qed
  qed
qed

lemma days_parts:
  "\<exists>era c q r doy. march_parts era c q r doy
     \<and> int n + 719468 = 146097 * era + (36524 * c + 1461 * q + 365 * r + doy)
     \<and> march_date (400 * era + 100 * c + 4 * q + r) doy = (next_date ^^ n) (1970, 1, 1)"
proof (induction n)
  case 0
  show ?case
    by (intro exI [of _ 4] exI [of _ 3] exI [of _ 17] exI [of _ 1] exI [of _ 306])
      (simp add: march_parts_def march_date_def march_month_ranges)
next
  case (Suc n)
  then obtain era c q r doy where p: "march_parts era c q r doy"
    "int n + 719468 = 146097 * era + (36524 * c + 1461 * q + 365 * r + doy)"
    "march_date (400 * era + 100 * c + 4 * q + r) doy = (next_date ^^ n) (1970, 1, 1)" by blast
  have "int (Suc n) + 719468 = int n + 719468 + 1" by simp
  with march_parts_step [OF p(1,2) refl] p(3) show ?case by simp
qed

text \<open>
  Property C39: the recorder's dates are the Gregorian calendar. The civil date computed for day \<open>n\<close> since
  1970-01-01 is the one reached from there by \<open>n\<close> steps of the calendar's rule, for every \<open>n\<close>.
\<close>
theorem civil_date_gregorian: "civil_from_days (int n) = (next_date ^^ n) (1970, 1, 1)"
proof -
  obtain era c q r doy where p: "march_parts era c q r doy"
    "int n + 719468 = 146097 * era + (36524 * c + 1461 * q + 365 * r + doy)"
    "march_date (400 * era + 100 * c + 4 * q + r) doy = (next_date ^^ n) (1970, 1, 1)"
    using days_parts by blast
  then show ?thesis using civil_of_parts by simp
qed

end
