(* ===== verification/Gen.thy ===== *)
theory Gen
  imports Corpus Synthetic_Laws
begin

section \<open>The corpus generator's command line (feed/src/bin/gen.rs)\<close>

text \<open>
  The argument parser, the three canonical configurations and the writing of a corpus with its sidecar.
  The files are the parameter \<open>'f files\<close>; the line printed at the end is not modelled. The result of a
  run is the list of written corpora with their paths.
\<close>

datatype gen_error =
    GenUnknownArgument string | GenMissingValue | GenMissing string | GenUnknownProfile string
  | GenBadNumber int_error | GenSave "string corpus_error" | GenWrite string

definition CANON_SEED :: u64 where "CANON_SEED = 1"
definition CANON_EVENTS :: nat where "CANON_EVENTS = 100000"
definition CANON_MID :: i64 where "CANON_MID = 65000"
definition CANON_BAND :: i64 where "CANON_BAND = 64"
definition CANON_MAX_QTY :: i64 where "CANON_MAX_QTY = 1024"
definition CANON_START_TS :: u64 where "CANON_START_TS = 0"

definition parse_profile :: "string \<Rightarrow> gen_error + profile" where
  "parse_profile s =
     (if s = ''steady'' then Inr Steady
      else if s = ''burst'' then Inr Burst
      else if s = ''flashcrash'' then Inr FlashCrash
      else Inl (GenUnknownProfile s))"

fun profile_name :: "profile \<Rightarrow> string" where
  "profile_name Steady = ''steady''"
| "profile_name Burst = ''burst''"
| "profile_name FlashCrash = ''flashcrash''"

definition gen_sibling_meta :: "string \<Rightarrow> string" where
  "gen_sibling_meta out =
     (case strip_suffix out ''.mdf'' of None \<Rightarrow> out @ ''.meta.json'' | Some stem \<Rightarrow> stem @ ''.meta.json'')"

definition show_i64 :: "i64 \<Rightarrow> string" where
  "show_i64 w = show_int (sint w)"

definition json_line :: "string \<Rightarrow> string \<Rightarrow> string" where
  "json_line key val = ''  \"'' @ key @ ''\": '' @ val"

definition meta_json :: "string \<Rightarrow> gen_config \<Rightarrow> string" where
  "meta_json name cfg =
     ''{\<newline>'' @ json_line ''kind'' ''\"synthetic\"'' @ '',\<newline>''
     @ json_line ''profile'' (''\"'' @ name @ ''\"'') @ '',\<newline>''
     @ json_line ''seed'' (show_u64 (gc_seed cfg)) @ '',\<newline>''
     @ json_line ''events'' (show_nat (gc_events cfg)) @ '',\<newline>''
     @ json_line ''mid'' (show_i64 (ticks (gc_mid cfg))) @ '',\<newline>''
     @ json_line ''band'' (show_i64 (gc_band cfg)) @ '',\<newline>''
     @ json_line ''max_qty'' (show_i64 (lots (gc_max_qty cfg))) @ '',\<newline>''
     @ json_line ''start_ts'' (show_u64 (gc_start_ts cfg)) @ '',\<newline>''
     @ json_line ''generator_version'' (show_nat (unat GENERATOR_VERSION)) @ ''\<newline>}\<newline>''"

definition write_corpus :: "'f files \<Rightarrow> gen_config \<Rightarrow> string \<Rightarrow> string \<Rightarrow> (gen_error + 'f) outcome" where
  "write_corpus fl cfg mdf meta =
     out_bind (generate cfg) (\<lambda>events. Some (Inr (
       case save_file fl mdf events of
         Inl e \<Rightarrow> Inl (GenSave e)
       | Inr f \<Rightarrow>
           (case fl_write fl meta (meta_json (profile_name (gc_profile cfg)) cfg) of
              Inl e \<Rightarrow> Inl (GenWrite e) | Inr _ \<Rightarrow> Inr f))))"

definition canon_cfg :: "profile \<Rightarrow> gen_config" where
  "canon_cfg p =
     \<lparr>gc_profile = p, gc_seed = CANON_SEED, gc_events = CANON_EVENTS, gc_mid = Px CANON_MID,
      gc_band = CANON_BAND, gc_max_qty = Qty CANON_MAX_QTY, gc_start_ts = CANON_START_TS\<rparr>"

fun write_all :: "'f files \<Rightarrow> profile list \<Rightarrow> (gen_error + (string \<times> 'f) list) outcome" where
  "write_all fl [] = Some (Inr (Inr []))"
| "write_all fl (p # ps) =
     (let stem = ''feed/corpus/'' @ profile_name p @ ''-s1-100k''
      in out_bind (write_corpus fl (canon_cfg p) (stem @ ''.mdf'') (stem @ ''.meta.json'')) (\<lambda>r.
           case r of
             Inl e \<Rightarrow> Some (Inr (Inl e))
           | Inr f \<Rightarrow> out_bind (write_all fl ps) (\<lambda>rest.
               Some (Inr (res_map ((#) (stem @ ''.mdf'', f)) rest)))))"

subsection \<open>The single-corpus form\<close>

record gen_acc =
  ga_profile :: "profile option"
  ga_seed :: "u64 option"
  ga_events :: "nat option"
  ga_out :: "string option"

definition gen_number :: "string \<Rightarrow> gen_error + nat" where
  "gen_number s = (case parse_uint 10 (2 ^ 64 - 1) (codes s) of Inl e \<Rightarrow> Inl (GenBadNumber e) | Inr n \<Rightarrow> Inr n)"

fun gen_args :: "string list \<Rightarrow> gen_acc \<Rightarrow> gen_error + gen_acc" where
  "gen_args [] a = Inr a"
| "gen_args (x # xs) a =
     (if x \<in> {''--profile'', ''--seed'', ''--events'', ''--out''} then
        (case xs of
           [] \<Rightarrow> Inl GenMissingValue
         | v # ys \<Rightarrow>
             if x = ''--profile'' then res_bind (parse_profile v) (\<lambda>p. gen_args ys (a\<lparr>ga_profile := Some p\<rparr>))
             else if x = ''--seed'' then res_bind (gen_number v) (\<lambda>n. gen_args ys (a\<lparr>ga_seed := Some (of_nat n)\<rparr>))
             else if x = ''--events'' then res_bind (gen_number v) (\<lambda>n. gen_args ys (a\<lparr>ga_events := Some n\<rparr>))
             else gen_args ys (a\<lparr>ga_out := Some v\<rparr>))
      else Inl (GenUnknownArgument x))"

definition gen_cli :: "string list \<Rightarrow> gen_error + gen_config \<times> string" where
  "gen_cli args =
     res_bind (gen_args args \<lparr>ga_profile = None, ga_seed = None, ga_events = None, ga_out = None\<rparr>) (\<lambda>a.
     res_bind (ok_or (GenMissing ''--profile'') (ga_profile a)) (\<lambda>profile.
     res_bind (ok_or (GenMissing ''--out'') (ga_out a)) (\<lambda>out.
     res_bind (ok_or (GenMissing ''--seed'') (ga_seed a)) (\<lambda>seed.
     res_bind (ok_or (GenMissing ''--events'') (ga_events a)) (\<lambda>events.
       Inr (\<lparr>gc_profile = profile, gc_seed = seed, gc_events = events, gc_mid = Px CANON_MID,
             gc_band = CANON_BAND, gc_max_qty = Qty CANON_MAX_QTY, gc_start_ts = CANON_START_TS\<rparr>, out))))))"

definition write_one :: "'f files \<Rightarrow> string list \<Rightarrow> (gen_error + (string \<times> 'f) list) outcome" where
  "write_one fl args =
     (case gen_cli args of
        Inl e \<Rightarrow> Some (Inr (Inl e))
      | Inr (cfg, out) \<Rightarrow>
          out_bind (write_corpus fl cfg out (gen_sibling_meta out)) (\<lambda>r.
            Some (Inr (res_map (\<lambda>f. [(out, f)]) r))))"

definition gen_main :: "'f files \<Rightarrow> string list \<Rightarrow> (gen_error + (string \<times> 'f) list) outcome" where
  "gen_main fl args =
     (if list_ex (\<lambda>a. a = ''--all'') args then write_all fl [Steady, Burst, FlashCrash]
      else write_one fl args)"

subsection \<open>What the generator writes\<close>

lemma stream_canon: "stream_ok cfg evs \<Longrightarrow> map canon evs = evs"
proof -
  assume "stream_ok cfg evs"
  then have fine: "ev_fine cfg ev" if "ev \<in> set evs" for ev
    using that by (auto simp: stream_ok_def in_set_conv_nth)
  have "canon ev = ev" if "ev \<in> set evs" for ev
    using fine [OF that] by (cases "ev_kind ev") (simp_all add: ev_fine_def canon_def)
  then show ?thesis by (rule map_idI)
qed

text \<open>A corpus that decodes to exactly what \<open>generate\<close> makes of a configuration.\<close>

definition corpus_of :: "gen_config \<Rightarrow> u8 list \<Rightarrow> bool" where
  "corpus_of cfg bytes \<longleftrightarrow>
     (\<exists>evs. generate cfg = Some (Inr evs) \<and> length evs = gc_events cfg
        \<and> from_bytes bytes = (Inr (Inr \<lparr>cp_events = evs\<rparr>) :: (string, corpus) parse))"

lemma write_corpus_vec:
  assumes "40 * gc_events cfg < 2 ^ 64"
  obtains bytes where "write_corpus vec_files cfg mdf meta = Some (Inr (Inr bytes))" and "corpus_of cfg bytes"
proof -
  obtain evs where evs: "generate cfg = Some (Inr evs)" "length evs = gc_events cfg" "stream_ok cfg evs"
    by (rule generate_facts [of cfg])
  have "save_file vec_files mdf evs = Inr (encode evs)"
    by (simp add: save_file_def save_def vec_files_def write_to_append)
  then have "write_corpus vec_files cfg mdf meta = Some (Inr (Inr (encode evs)))"
    by (simp add: write_corpus_def evs vec_files_def)
  moreover have "from_bytes (encode evs) = (Inr (Inr \<lparr>cp_events = evs\<rparr>) :: (string, corpus) parse)"
    using from_bytes_encode [of evs] assms evs(2) stream_canon [OF evs(3)] by simp
  ultimately show thesis using that evs by (auto simp: corpus_of_def)
qed

lemma gen_number_show: "n < 2 ^ 64 \<Longrightarrow> gen_number (show_nat n) = Inr n"
  by (simp add: gen_number_def parse_show_nat)

lemma parse_profile_name [simp]: "parse_profile (profile_name p) = Inr p"
  by (cases p) (simp_all add: parse_profile_def)

lemma show_nat_no_dash: "show_nat n \<noteq> ''--all''"
proof
  assume "show_nat n = ''--all''"
  then have "codes ''--all'' = show_radix 10 n" by (simp flip: codes_show_nat)
  moreover have "45 \<in> set (codes ''--all'')" by (simp add: codes_def)
  ultimately have "45 \<in> set (show_radix 10 n)" by simp
  from show_radix_chars [OF this] show False by simp
qed

text \<open>
  What the generator's command line writes is what the library generates. For every profile,
  seed, event count and output path given as arguments, the run ends, writes one corpus at that path, and
  loading it gives exactly the stream of \<open>generate\<close> for the configuration the arguments name.
\<close>
theorem gen_round_trip:
  assumes "40 * n < 2 ^ 64" and "sd < 2 ^ 64" and "out \<noteq> ''--all''"
  shows "\<exists>bytes. gen_main vec_files
      [''--profile'', profile_name p, ''--seed'', show_nat sd, ''--events'', show_nat n, ''--out'', out]
        = Some (Inr (Inr [(out, bytes)]))
    \<and> corpus_of ((canon_cfg p)\<lparr>gc_seed := of_nat sd, gc_events := n\<rparr>) bytes"
proof -
  let ?args = "[''--profile'', profile_name p, ''--seed'', show_nat sd, ''--events'', show_nat n, ''--out'', out]"
  let ?cfg = "(canon_cfg p)\<lparr>gc_seed := of_nat sd, gc_events := n\<rparr>"
  have "n < 2 ^ 64" using assms(1) by simp
  then have cli: "gen_cli ?args = Inr (?cfg, out)"
    using assms(2) by (simp add: gen_cli_def gen_number_show ok_or_def canon_cfg_def)
  have "profile_name p \<noteq> ''--all''" by (cases p) simp_all
  then have "\<not> list_ex (\<lambda>a. a = ''--all'') ?args"
    using assms(3) show_nat_no_dash by simp
  then have main: "gen_main vec_files ?args = out_bind (write_corpus vec_files ?cfg out (gen_sibling_meta out))
      (\<lambda>r. Some (Inr (res_map (\<lambda>f. [(out, f)]) r)))"
    by (simp only: gen_main_def if_False write_one_def cli sum.case prod.case)
  obtain bytes where "write_corpus vec_files ?cfg out (gen_sibling_meta out) = Some (Inr (Inr bytes))"
    "corpus_of ?cfg bytes"
    by (rule write_corpus_vec [of ?cfg out "gen_sibling_meta out"]) (use assms(1) in simp_all)
  then show ?thesis unfolding main by simp
qed

theorem gen_round_trip_witness:
  "\<exists>bytes. gen_main vec_files
      [''--profile'', profile_name Burst, ''--seed'', show_nat 7, ''--events'', show_nat 500, ''--out'', ''b.mdf'']
        = Some (Inr (Inr [(''b.mdf'', bytes)]))
    \<and> corpus_of ((canon_cfg Burst)\<lparr>gc_seed := of_nat 7, gc_events := 500\<rparr>) bytes"
  by (rule gen_round_trip) simp_all

text \<open>
  The command \<open>gen --all\<close> writes the three canonical corpora. Wherever the flag stands among the
  arguments, the run ends with three files of 100000 events each, which decode to the canonical streams.
\<close>
theorem gen_all_round_trip:
  "\<exists>s b f. gen_main vec_files (pre @ ''--all'' # post) = Some (Inr (Inr
      [(''feed/corpus/steady-s1-100k.mdf'', s), (''feed/corpus/burst-s1-100k.mdf'', b),
       (''feed/corpus/flashcrash-s1-100k.mdf'', f)]))
    \<and> corpus_of (canon_cfg Steady) s \<and> corpus_of (canon_cfg Burst) b \<and> corpus_of (canon_cfg FlashCrash) f"
proof -
  have small: "40 * gc_events (canon_cfg p) < 2 ^ 64" for p
    by (simp add: canon_cfg_def CANON_EVENTS_def)
  let ?wc = "\<lambda>p. write_corpus vec_files (canon_cfg p)
    (''feed/corpus/'' @ profile_name p @ ''-s1-100k'' @ ''.mdf'') (''feed/corpus/'' @ profile_name p @ ''-s1-100k'' @ ''.meta.json'')"
  have "\<exists>x. ?wc p = Some (Inr (Inr x)) \<and> corpus_of (canon_cfg p) x" for p
    by (rule write_corpus_vec [OF small]) blast
  then obtain s b f where w: "?wc Steady = Some (Inr (Inr s))" "?wc Burst = Some (Inr (Inr b))"
    "?wc FlashCrash = Some (Inr (Inr f))"
    and c: "corpus_of (canon_cfg Steady) s" "corpus_of (canon_cfg Burst) b" "corpus_of (canon_cfg FlashCrash) f"
    by blast
  have "gen_main vec_files (pre @ ''--all'' # post) = write_all vec_files [Steady, Burst, FlashCrash]"
    by (simp add: gen_main_def)
  also have "\<dots> = Some (Inr (Inr [(''feed/corpus/steady-s1-100k.mdf'', s), (''feed/corpus/burst-s1-100k.mdf'', b),
       (''feed/corpus/flashcrash-s1-100k.mdf'', f)]))"
    using w by (simp add: Let_def)
  finally show ?thesis using c by blast
qed

end
