(* ===== verification/Workload.thy ===== *)
theory Workload
  imports Book_Laws
begin

section \<open>The benchmarks' workload (bench/src/workload.rs)\<close>

text \<open>
  Books at a given depth, and touches of their ladders. The two builders apply a level per side and
  step, in two orders, to any implementation; the touches draw an offset from the generator. Prices wrap
  at 64 bits: \<open>room\<close> is the condition under which they do not. A \<open>usize\<close> is 64 bits wide.
\<close>

unbundle bit_operations_syntax

definition STEP :: i64 where "STEP = 2"

datatype locality = Concentrated | Uniform

fun locality_tag :: "locality \<Rightarrow> string" where
  "locality_tag Concentrated = ''concentrated''"
| "locality_tag Uniform = ''uniform''"

fun side_px :: "px \<Rightarrow> side \<Rightarrow> i64 \<Rightarrow> px" where
  "side_px mid Bid i = Px (ticks mid - STEP * i)"
| "side_px mid Ask i = Px (ticks mid + STEP * i)"

definition depth_level :: "px \<Rightarrow> side \<Rightarrow> nat \<Rightarrow> book_event" where
  "depth_level mid s i = ev_level 0 0 s (side_px mid s (of_nat i)) (Qty (1000 + of_nat i))"

definition build_events :: "px \<Rightarrow> nat \<Rightarrow> book_event list" where
  "build_events mid d = concat (map (\<lambda>i. [depth_level mid Bid i, depth_level mid Ask i]) [1..<Suc d])"

definition fast_events :: "px \<Rightarrow> nat \<Rightarrow> book_event list" where
  "fast_events mid d = map (depth_level mid Bid) (rev [1..<Suc d]) @ map (depth_level mid Ask) [1..<Suc d]"

definition build_at_depth :: "'b order_book_ops \<Rightarrow> px \<Rightarrow> nat \<Rightarrow> 'b res" where
  "build_at_depth ops mid depth =
     (if depth < 2 ^ 63 then run_book ops (ob_default ops) (build_events mid depth) else Inl UnwrapFailed)"

definition build_at_depth_fast :: "'b order_book_ops \<Rightarrow> px \<Rightarrow> nat \<Rightarrow> 'b res" where
  "build_at_depth_fast ops mid depth =
     (if depth < 2 ^ 63 then run_book ops (ob_default ops) (fast_events mid depth) else Inl UnwrapFailed)"

text \<open>The coin-flip loop of the concentrated locality, from the count \<open>k\<close>.\<close>

function flip_loop :: "nat \<Rightarrow> nat \<Rightarrow> splitmix \<Rightarrow> nat \<times> splitmix" where
  "flip_loop depth k s =
     (if k + 1 < depth
      then let (x, s') = next_u64 s in if x AND 1 = 0 then flip_loop depth (k + 1) s' else (k, s')
      else (k, s))"
  by pat_completeness auto
termination by (relation "measure (\<lambda>(depth, k, s). depth - k)") auto

declare flip_loop.simps [simp del]

definition touch_offset :: "nat \<Rightarrow> locality \<Rightarrow> nat rng" where
  "touch_offset depth loc s =
     (case loc of
        Uniform \<Rightarrow> res_map (\<lambda>(x, s'). (unat x, s')) (below (of_nat depth) s)
      | Concentrated \<Rightarrow> Inr (flip_loop depth 0 s))"

definition touch_price :: "px \<Rightarrow> nat \<Rightarrow> side \<Rightarrow> locality \<Rightarrow> px rng" where
  "touch_price mid depth sd loc =
     rng_bind (touch_offset depth loc) (\<lambda>off.
       if off < 2 ^ 63 then rng_return (side_px mid sd (of_nat off + 1)) else rng_fail UnwrapFailed)"

fun gap_price :: "px \<Rightarrow> side \<Rightarrow> px" where
  "gap_price existing Bid = Px (ticks existing + 1)"
| "gap_price existing Ask = Px (ticks existing - 1)"

subsection \<open>Prices without wrap-around\<close>

definition room :: "px \<Rightarrow> nat \<Rightarrow> bool" where
  "room mid d \<longleftrightarrow> - (2 ^ 63) \<le> sint (ticks mid) - 2 * int d \<and> sint (ticks mid) + 2 * int d < 2 ^ 63"

fun side_off :: "side \<Rightarrow> int \<Rightarrow> int" where
  "side_off Bid k = - k"
| "side_off Ask k = k"

lemma room_depth: "room mid d \<Longrightarrow> d < 2 ^ 62"
  using sint_i64_bounds [of "ticks mid"] by (simp add: room_def)

lemma sint_side_px:
  assumes "room mid d" and "i \<le> d"
  shows "sint (ticks (side_px mid s (of_nat i))) = sint (ticks mid) + side_off s (2 * int i)"
proof -
  have eq: "ticks (side_px mid s (of_nat i)) = ticks mid + of_int (side_off s (2 * int i))"
    by (cases s) (simp_all add: STEP_def)
  have "- (2 ^ 63) \<le> sint (ticks mid) + side_off s (2 * int i)"
    "sint (ticks mid) + side_off s (2 * int i) < 2 ^ 63"
    using assms by (cases s; simp add: room_def)+
  then show ?thesis unfolding eq by (rule sint_add_i64)
qed

lemma side_px_less:
  assumes "room mid d" and "i \<le> d" and "j \<le> d"
  shows "side_px mid s (of_nat i) < side_px mid s (of_nat j) \<longleftrightarrow> (case s of Bid \<Rightarrow> j < i | Ask \<Rightarrow> i < j)"
  using sint_side_px [OF assms(1,2), of s] sint_side_px [OF assms(1,3), of s]
  by (cases s) (simp_all add: less_px_def)

lemma level_qty_nonzero: "d < 2 ^ 63 \<Longrightarrow> i \<le> d \<Longrightarrow> Qty (1000 + of_nat i) \<noteq> qty_zero"
proof
  assume d: "d < 2 ^ 63" "i \<le> d" and "Qty (1000 + of_nat i) = qty_zero"
  then have "unat (of_nat (1000 + i) :: u64) = 0" by (simp add: qty_zero_def)
  moreover have "unat (of_nat (1000 + i) :: u64) = 1000 + i"
    using d by (simp add: unat_of_nat take_bit_nat_eq_self del: of_nat_add)
  ultimately show False by simp
qed

subsection \<open>The ladder the builders leave\<close>

text \<open>The levels of a side, best first.\<close>

definition ladder_at :: "px \<Rightarrow> side \<Rightarrow> nat \<Rightarrow> level list" where
  "ladder_at mid s d = map (\<lambda>i. (side_px mid s (of_nat i), Qty (1000 + of_nat i))) [1..<Suc d]"

lemma spec_side_levels:
  "\<forall>e \<in> set evs. ev_kind e = Level \<and> ev_qty e \<noteq> qty_zero \<Longrightarrow>
   spec_side (spec_run evs) s = map_of (rev (map (\<lambda>e. (ev_px e, ev_qty e)) (filter (\<lambda>e. ev_side e = s) evs)))"
proof (induction evs rule: rev_induct)
  case Nil
  then show ?case by (cases s) (simp_all add: spec_run_def spec_empty_def)
next
  case (snoc e evs)
  then show ?case
    by (cases s; cases "ev_side e") (simp_all add: spec_run_snoc spec_apply_def)
qed

lemma ascending_ladder:
  assumes "room mid d"
  shows "ascending (case s of Bid \<Rightarrow> rev (ladder_at mid s d) | Ask \<Rightarrow> ladder_at mid s d)"
proof -
  have "sorted_wrt (\<lambda>i j. case s of Bid \<Rightarrow> side_px mid s (of_nat j) < side_px mid s (of_nat i)
      | Ask \<Rightarrow> side_px mid s (of_nat i) < side_px mid s (of_nat j)) [1..<Suc d]"
    by (rule sorted_wrt_mono_rel [OF _ sorted_wrt_upt])
      (use side_px_less [OF assms] in \<open>auto split: side.split simp del: side_px.simps\<close>)
  then show ?thesis
    by (cases s) (simp_all add: ascending_def ladder_at_def sorted_wrt_map rev_map [symmetric] sorted_wrt_rev comp_def)
qed

lemma distinct_ladder: "room mid d \<Longrightarrow> distinct (map fst (ladder_at mid s d))"
  using ascending_distinct [OF ascending_ladder [of mid d s]] by (cases s) (simp_all add: rev_map [symmetric])

lemma levels_of_builders:
  assumes "e \<in> set (build_events mid d) \<or> e \<in> set (fast_events mid d)" and "room mid d"
  shows "ev_kind e = Level \<and> ev_qty e \<noteq> qty_zero"
  using assms level_qty_nonzero [of d] room_depth [OF assms(2)]
  by (auto simp: build_events_def fast_events_def depth_level_def ev_level_def)

lemma filter_side_build:
  "map (\<lambda>e. (ev_px e, ev_qty e)) (filter (\<lambda>e. ev_side e = s) (build_events mid d)) = ladder_at mid s d"
  "map (\<lambda>e. (ev_px e, ev_qty e)) (filter (\<lambda>e. ev_side e = s) (fast_events mid d)) =
     (case s of Bid \<Rightarrow> rev (ladder_at mid s d) | Ask \<Rightarrow> ladder_at mid s d)"
proof -
  have one: "map (\<lambda>e. (ev_px e, ev_qty e)) (filter (\<lambda>e. ev_side e = s)
      (concat (map (\<lambda>i. [depth_level mid Bid i, depth_level mid Ask i]) is))) =
      map (\<lambda>i. (side_px mid s (of_nat i), Qty (1000 + of_nat i))) is" for "is"
    by (induction "is") (cases s; simp add: depth_level_def ev_level_def)+
  then show "map (\<lambda>e. (ev_px e, ev_qty e)) (filter (\<lambda>e. ev_side e = s) (build_events mid d)) = ladder_at mid s d"
    by (simp only: build_events_def ladder_at_def)
  have two: "filter (\<lambda>e. ev_side e = s') (map (depth_level mid t) is) = (if s' = t then map (depth_level mid t) is else [])"
    for s' t "is"
    by (induction "is") (simp_all add: depth_level_def ev_level_def)
  have three: "map (\<lambda>e. (ev_px e, ev_qty e)) (map (depth_level mid s) is) =
      map (\<lambda>i. (side_px mid s (of_nat i), Qty (1000 + of_nat i))) is" for s "is"
    by (simp add: depth_level_def ev_level_def)
  show "map (\<lambda>e. (ev_px e, ev_qty e)) (filter (\<lambda>e. ev_side e = s) (fast_events mid d)) =
     (case s of Bid \<Rightarrow> rev (ladder_at mid s d) | Ask \<Rightarrow> ladder_at mid s d)"
    by (cases s) (simp_all only: fast_events_def filter_append two simp_thms side.distinct side.case if_True if_False
      append_Nil append_Nil2 three ladder_at_def rev_map)
qed

lemma map_of_rev_distinct: "distinct (map fst xs) \<Longrightarrow> map_of (rev xs) = map_of xs"
  by (subst map_of_inject_set) (simp_all add: rev_map [symmetric])

lemma spec_side_built:
  assumes "room mid d"
  shows "spec_side (spec_run (build_events mid d)) s = map_of (ladder_at mid s d)"
    and "spec_side (spec_run (fast_events mid d)) s = map_of (ladder_at mid s d)"
proof -
  show "spec_side (spec_run (build_events mid d)) s = map_of (ladder_at mid s d)"
    using levels_of_builders [OF _ assms]
    by (subst spec_side_levels) (auto simp: filter_side_build map_of_rev_distinct distinct_ladder [OF assms])
  show "spec_side (spec_run (fast_events mid d)) s = map_of (ladder_at mid s d)"
    using levels_of_builders [OF _ assms]
    by (subst spec_side_levels)
      (auto simp: filter_side_build map_of_rev_distinct distinct_ladder [OF assms] split: side.split)
qed

lemma best_first_map:
  assumes "room mid d" and "spec_side b s = map_of (ladder_at mid s d)"
  shows "best_first b s = ladder_at mid s d"
proof (cases s)
  case Bid
  have "map_of (ladder_at mid s d) = map_of (rev (ladder_at mid s d))"
    by (rule map_of_rev_distinct [symmetric, OF distinct_ladder [OF assms(1)]])
  then show ?thesis
    using assms ascending_ladder [OF assms(1), of Bid] Bid by (simp add: levels_map_of)
next
  case Ask
  then show ?thesis using assms ascending_ladder [OF assms(1), of Ask] by (simp add: levels_map_of)
qed

subsection \<open>Every implementation, both builders\<close>

text \<open>\<open>holds ops mid d r\<close>: \<open>r\<close> returned a book with exactly the ladder at depth \<open>d\<close> on both sides.\<close>

definition holds :: "'b order_book_ops \<Rightarrow> px \<Rightarrow> nat \<Rightarrow> 'b res \<Rightarrow> bool" where
  "holds ops mid d r \<longleftrightarrow>
     (case r of Inl _ \<Rightarrow> False
      | Inr b \<Rightarrow> list_all (\<lambda>s. ob_depth ops b s = d
          \<and> ob_top_n ops b s (replicate d (px_zero, qty_zero)) = Inr (d, ladder_at mid s d)) [Bid, Ask])"

lemma length_ladder [simp]: "length (ladder_at mid s d) = d"
  by (simp add: ladder_at_def)

context order_book begin

lemma holds_ladder:
  assumes "room mid d" and "\<forall>ev \<in> set evs. adm ev"
    and "\<And>s. spec_side (spec_run evs) s = map_of (ladder_at mid s d)"
  shows "holds ops mid d (run_book ops (ob_default ops) evs)"
proof -
  obtain b where b: "run_book ops (ob_default ops) evs = Inr b" "inv b" "abs b = spec_run evs"
    by (rule replay_ok [OF assms(2)])
  have "best_first (spec_run evs) s = ladder_at mid s d" for s
    by (rule best_first_map [OF assms(1,3)])
  then show ?thesis
    by (simp add: holds_def b depth_ok top_n_ok spec_depth_best_first spec_top_n_def Let_def)
qed

end

lemma room_fits: "room mid d \<Longrightarrow> d < 2 ^ 63"
  using room_depth [of mid d] by simp

lemmas builder_defs = build_at_depth_def build_at_depth_fast_def

text \<open>A band for the flat array that contains both ladders.\<close>

definition flat_room :: "px \<Rightarrow> nat \<Rightarrow> bool" where
  "flat_room mid d \<longleftrightarrow>
     room mid d \<and> band_ok (sint (ticks mid) - 2 * int d) (sint (ticks mid) + 2 * int d + 1)"

lemma builders_in_band:
  assumes "flat_room mid d" and "e \<in> set (build_events mid d) \<or> e \<in> set (fast_events mid d)"
  shows "flat_adm (sint (ticks mid) - 2 * int d) (sint (ticks mid) + 2 * int d + 1) e"
proof -
  obtain s i where e: "e = depth_level mid s i" "i \<le> d"
    using assms(2) by (auto simp: build_events_def fast_events_def)
  have r: "room mid d" using assms(1) by (simp add: flat_room_def)
  have "in_band (sint (ticks mid) - 2 * int d) (sint (ticks mid) + 2 * int d + 1) (side_px mid s (of_nat i))"
    using sint_side_px [OF r e(2), of s] e(2) by (cases s) (simp_all add: in_band_def del: side_px.simps)
  then show ?thesis using assms(1) by (simp add: flat_adm_def flat_room_def e(1) depth_level_def ev_level_def)
qed

text \<open>
  Property C33: both builders build exactly the requested book in all four implementations. With room for
  the prices, \<open>build_at_depth\<close> and \<open>build_at_depth_fast\<close> return a book of exactly \<open>depth\<close> levels per side,
  whose best-first ladder is \<open>mid \<plusminus> STEP * i\<close> with quantity \<open>1000 + i\<close>; so the two orders of insertion agree.
\<close>
theorem build_at_depth_exact:
  assumes "flat_room mid d"
  shows "holds btree_ops mid d (build_at_depth btree_ops mid d)
    \<and> holds sorted_ops mid d (build_at_depth sorted_ops mid d)
    \<and> holds rev_ops mid d (build_at_depth rev_ops mid d)
    \<and> holds flat_ops mid d (build_at_depth flat_ops mid d)
    \<and> holds btree_ops mid d (build_at_depth_fast btree_ops mid d)
    \<and> holds sorted_ops mid d (build_at_depth_fast sorted_ops mid d)
    \<and> holds rev_ops mid d (build_at_depth_fast rev_ops mid d)
    \<and> holds flat_ops mid d (build_at_depth_fast flat_ops mid d)"
proof -
  have r: "room mid d" using assms by (simp add: flat_room_def)
  note built = spec_side_built [OF r] and band = builders_in_band [OF assms]
  show ?thesis
    using room_fits [OF r] band
    by (auto simp: builder_defs intro!: btree.holds_ladder [OF r _ built(1)] btree.holds_ladder [OF r _ built(2)]
        sorted.holds_ladder [OF r _ built(1)] sorted.holds_ladder [OF r _ built(2)]
        rev.holds_ladder [OF r _ built(1)] rev.holds_ladder [OF r _ built(2)]
        flat.holds_ladder [OF r _ built(1)] flat.holds_ladder [OF r _ built(2)])
qed

theorem build_at_depth_exact_witness:
  "holds btree_ops (Px 1000000) 300 (build_at_depth btree_ops (Px 1000000) 300)
    \<and> holds sorted_ops (Px 1000000) 300 (build_at_depth sorted_ops (Px 1000000) 300)
    \<and> holds rev_ops (Px 1000000) 300 (build_at_depth rev_ops (Px 1000000) 300)
    \<and> holds flat_ops (Px 1000000) 300 (build_at_depth flat_ops (Px 1000000) 300)
    \<and> holds btree_ops (Px 1000000) 300 (build_at_depth_fast btree_ops (Px 1000000) 300)
    \<and> holds sorted_ops (Px 1000000) 300 (build_at_depth_fast sorted_ops (Px 1000000) 300)
    \<and> holds rev_ops (Px 1000000) 300 (build_at_depth_fast rev_ops (Px 1000000) 300)
    \<and> holds flat_ops (Px 1000000) 300 (build_at_depth_fast flat_ops (Px 1000000) 300)"
  by (rule build_at_depth_exact) (simp add: flat_room_def room_def band_ok_def MAX_SPAN_def)

subsection \<open>Touches and gaps\<close>

lemma flip_loop_less: "k < depth \<Longrightarrow> fst (flip_loop depth k s) < depth"
proof (induction depth k s rule: flip_loop.induct)
  case (1 depth k s)
  show ?case
    using 1 by (subst flip_loop.simps) (auto simp: Let_def split: prod.split)
qed

lemma touch_offset_less:
  assumes "0 < depth" and "depth < 2 ^ 63"
  shows "rng_ok (\<lambda>off. off < depth) (touch_offset depth loc)"
proof (cases loc)
  case Concentrated
  then show ?thesis
    using flip_loop_less [OF assms(1)] by (auto simp: rng_ok_def touch_offset_def) (metis prod.collapse)
next
  case Uniform
  have n: "unat (of_nat depth :: u64) = depth" using assms(2) by (simp add: unat_of_nat take_bit_nat_eq_self)
  then have "(of_nat depth :: u64) \<noteq> 0" using assms(1) by (metis less_irrefl unat_0)
  from rng_ok_below_nat [OF this] have below: "rng_ok (\<lambda>x. unat x < depth) (below (of_nat depth))"
    unfolding n .
  show ?thesis
    unfolding rng_ok_def
  proof
    fix s
    obtain x s' where "below (of_nat depth) s = Inr (x, s')" "unat x < depth" using rng_okD [OF below] by blast
    then show "\<exists>a s'. touch_offset depth loc s = Inr (a, s') \<and> a < depth"
      using Uniform by (simp add: touch_offset_def)
  qed
qed

lemma touch_price_resident:
  assumes "room mid d" and "0 < d"
  shows "rng_ok (\<lambda>p. \<exists>i \<in> {1..d}. p = side_px mid sd (of_nat i)) (touch_price mid d sd loc)"
  unfolding touch_price_def
proof (rule rng_ok_bind [OF touch_offset_less [OF assms(2) room_fits [OF assms(1)]]])
  fix off assume "off < d"
  moreover from this room_fits [OF assms(1)] have "off < 2 ^ 63" by simp
  moreover have "side_px mid sd (of_nat off + 1) = side_px mid sd (of_nat (Suc off))"
    by (simp add: add.commute)
  ultimately show "rng_ok (\<lambda>p. \<exists>i \<in> {1..d}. p = side_px mid sd (of_nat i))
      (if off < 2 ^ 63 then rng_return (side_px mid sd (of_nat off + 1)) else rng_fail UnwrapFailed)"
    by (auto intro!: rng_ok_return bexI [of _ "Suc off"] simp del: side_px.simps)
qed

lemma ladder_prices: "fst ` set (ladder_at mid s d) = (\<lambda>i. side_px mid s (of_nat i)) ` {1..d}"
  by (force simp: ladder_at_def image_image)

text \<open>A gap price lies an odd number of ticks from the mid.\<close>

lemma gap_free:
  assumes r: "room mid d" and i: "i \<in> {1..d}"
  shows "gap_price (side_px mid s (of_nat i)) s \<notin> fst ` set (ladder_at mid s d)"
proof
  let ?p = "side_px mid s (of_nat i)"
  assume "gap_price ?p s \<in> fst ` set (ladder_at mid s d)"
  then obtain j where j: "j \<le> d" "gap_price ?p s = side_px mid s (of_nat j)"
    unfolding ladder_prices by auto
  have p: "sint (ticks ?p) = sint (ticks mid) + side_off s (2 * int i)"
    using i by (intro sint_side_px [OF r]) simp
  have "sint (ticks (gap_price ?p s)) = sint (ticks ?p) - side_off s 1"
  proof (cases s)
    case Bid
    then show ?thesis using sint_add_i64 [of "ticks ?p" 1] p r i by (simp add: room_def del: side_px.simps)
  next
    case Ask
    then show ?thesis using sint_add_i64 [of "ticks ?p" "- 1"] p r i by (simp add: room_def del: side_px.simps)
  qed
  then have "sint (ticks mid) + side_off s (2 * int j) = sint (ticks mid) + side_off s (2 * int i) - side_off s 1"
    using j sint_side_px [OF r j(1), of s] p by (simp del: side_px.simps gap_price.simps)
  then show False by (cases s) (simp_all, presburger+)
qed

lemma spec_insert_remove:
  assumes "spec_side b s p = None" and "q \<noteq> qty_zero"
  shows "spec_apply (spec_apply b (ev_level 0 0 s p q)) (ev_level 0 0 s p qty_zero) = b"
    and "finite (dom (spec_side b s)) \<Longrightarrow> spec_depth (spec_apply b (ev_level 0 0 s p q)) s = spec_depth b s + 1"
  using assms by (cases s; auto simp: spec_apply_def ev_level_def spec_depth_def fun_upd_idem card_insert_disjoint domIff)+

text \<open>
  Touches hit the ladder and gaps miss it. On a book built with room for its prices, whatever
  the generator state and locality, the touched price is a resident level of the side; its gap price is not
  resident; inserting there makes the side one level deeper, and removing it again restores every
  observation of the three list-based books.
\<close>
theorem touch_and_gap:
  assumes "room mid d" and "0 < d" and "q \<noteq> qty_zero"
  shows "\<exists>p rng'. touch_price mid d sd loc rng = Inr (p, rng')
    \<and> p \<in> fst ` set (ladder_at mid sd d) \<and> gap_price p sd \<notin> fst ` set (ladder_at mid sd d)
    \<and> spec_depth (spec_run (build_events mid d @ [ev_level 0 0 sd (gap_price p sd) q])) sd = d + 1
    \<and> replay_view btree_ops buf (build_events mid d @ [ev_level 0 0 sd (gap_price p sd) q,
          ev_level 0 0 sd (gap_price p sd) qty_zero]) = replay_view btree_ops buf (build_events mid d)
    \<and> replay_view sorted_ops buf (build_events mid d @ [ev_level 0 0 sd (gap_price p sd) q,
          ev_level 0 0 sd (gap_price p sd) qty_zero]) = replay_view sorted_ops buf (build_events mid d)
    \<and> replay_view rev_ops buf (build_events mid d @ [ev_level 0 0 sd (gap_price p sd) q,
          ev_level 0 0 sd (gap_price p sd) qty_zero]) = replay_view rev_ops buf (build_events mid d)"
proof -
  obtain p rng' i where p: "touch_price mid d sd loc rng = Inr (p, rng')" "i \<in> {1..d}" "p = side_px mid sd (of_nat i)"
    using touch_price_resident [OF assms(1,2), of sd loc] by (fastforce simp: rng_ok_def)
  let ?b = "spec_run (build_events mid d)" and ?g = "gap_price p sd"
  have gap: "?g \<notin> fst ` set (ladder_at mid sd d)" unfolding p(3) by (rule gap_free [OF assms(1) p(2)])
  then have none: "spec_side ?b sd ?g = None"
    by (simp add: spec_side_built [OF assms(1)] map_of_eq_None_iff)
  have depth: "spec_depth ?b sd = d" "finite (dom (spec_side ?b sd))"
    using best_first_map [OF assms(1) spec_side_built(1) [OF assms(1)], of sd]
    by (simp_all add: spec_depth_best_first spec_side_built [OF assms(1)] finite_dom_map_of)
  have "spec_run (build_events mid d @ [ev_level 0 0 sd ?g q, ev_level 0 0 sd ?g qty_zero]) = ?b"
    using spec_run_snoc [of "build_events mid d @ [ev_level 0 0 sd ?g q]"] spec_run_snoc [of "build_events mid d"]
      spec_insert_remove(1) [OF none assms(3)] by simp
  moreover have "spec_depth (spec_run (build_events mid d @ [ev_level 0 0 sd ?g q])) sd = d + 1"
    by (simp only: spec_run_snoc spec_insert_remove(2) [OF none assms(3) depth(2)] depth(1))
  moreover have "p \<in> fst ` set (ladder_at mid sd d)" unfolding ladder_prices p(3) using p(2) by blast
  ultimately show ?thesis
    using p(1) gap by (intro exI [of _ p] exI [of _ rng'])
      (simp add: btree.replay_view_ok sorted.replay_view_ok rev.replay_view_ok)
qed

theorem touch_and_gap_witness:
  "\<exists>p rng'. touch_price (Px 1000000) 16 Ask Concentrated 7 = Inr (p, rng')
    \<and> p \<in> fst ` set (ladder_at (Px 1000000) Ask 16) \<and> gap_price p Ask \<notin> fst ` set (ladder_at (Px 1000000) Ask 16)
    \<and> spec_depth (spec_run (build_events (Px 1000000) 16 @ [ev_level 0 0 Ask (gap_price p Ask) (Qty 5)])) Ask = 16 + 1
    \<and> replay_view btree_ops [] (build_events (Px 1000000) 16 @ [ev_level 0 0 Ask (gap_price p Ask) (Qty 5),
          ev_level 0 0 Ask (gap_price p Ask) qty_zero]) = replay_view btree_ops [] (build_events (Px 1000000) 16)
    \<and> replay_view sorted_ops [] (build_events (Px 1000000) 16 @ [ev_level 0 0 Ask (gap_price p Ask) (Qty 5),
          ev_level 0 0 Ask (gap_price p Ask) qty_zero]) = replay_view sorted_ops [] (build_events (Px 1000000) 16)
    \<and> replay_view rev_ops [] (build_events (Px 1000000) 16 @ [ev_level 0 0 Ask (gap_price p Ask) (Qty 5),
          ev_level 0 0 Ask (gap_price p Ask) qty_zero]) = replay_view rev_ops [] (build_events (Px 1000000) 16)"
  by (rule touch_and_gap) (simp_all add: room_def qty_zero_def)

end
