(* ===== verification/Harness.thy ===== *)
theory Harness
  imports Http
begin

section \<open>The benchmark harness (bench/src/harness.rs, clock.rs, main.rs)\<close>

text \<open>
  Core lists and pinning, the registry of implementations, warm-up, the clock's overhead estimate and the
  dispatch of the subcommands. Text is a list of code points, which is what \<open>split\<close> and \<open>trim\<close> see. The
  environment, the core-affinity library and the TSC clock are parameters.
\<close>

definition IMPLS :: "string list" where
  "IMPLS = [''btree'', ''sorted'', ''rev'', ''flat'']"

definition for_impl :: "string \<Rightarrow> string option" where
  "for_impl name = List.find (\<lambda>n. n = name) IMPLS"

text \<open>\<open>get_core_ids\<close> and \<open>set_for_current\<close> of the affinity library are the first two arguments.\<close>

definition pin_to_core :: "nat list option \<Rightarrow> (nat \<Rightarrow> bool) \<Rightarrow> nat \<Rightarrow> bool" where
  "pin_to_core ids set_for_current core =
     (case ids of
        None \<Rightarrow> False
      | Some cs \<Rightarrow> (case List.find (\<lambda>c. c = core) cs of None \<Rightarrow> False | Some t \<Rightarrow> set_for_current t))"

fun warmup :: "nat \<Rightarrow> ('s \<Rightarrow> 's) \<Rightarrow> 's \<Rightarrow> 's" where
  "warmup 0 op s = s"
| "warmup (Suc n) op s = warmup n op (op s)"

subsection \<open>Core lists\<close>

definition parse_usize :: "nat list \<Rightarrow> nat option" where
  "parse_usize cs = (case parse_uint 10 USIZE_MAX cs of Inl _ \<Rightarrow> None | Inr n \<Rightarrow> Some n)"

definition env_core :: "(string \<Rightarrow> nat list option) \<Rightarrow> string \<Rightarrow> nat option" where
  "env_core env var = Option.bind (env var) (\<lambda>v. parse_usize (trim v))"

fun split_on :: "(nat \<Rightarrow> bool) \<Rightarrow> nat list \<Rightarrow> nat list list" where
  "split_on P [] = [[]]"
| "split_on P (c # cs) =
     (if P c then [] # split_on P cs
      else case split_on P cs of w # ws \<Rightarrow> (c # w) # ws | [] \<Rightarrow> [[c]])"

definition is_separator :: "nat \<Rightarrow> bool" where
  "is_separator c \<longleftrightarrow> c = of_char (CHR '','') \<or> c = of_char (CHR '' '')"

definition parse_core_list :: "nat list \<Rightarrow> nat list" where
  "parse_core_list s =
     List.map_filter (\<lambda>t. let t = trim t in if t = [] then None else parse_usize t) (split_on is_separator s)"

text \<open>The value of the first \<open>--reader-cores\<close> flag that has one.\<close>

fun reader_flag :: "nat list list \<Rightarrow> nat list option" where
  "reader_flag [] = None"
| "reader_flag [a] = None"
| "reader_flag (a # v # rest) = (if a = codes ''--reader-cores'' then Some v else reader_flag (v # rest))"

definition reader_cores :: "(string \<Rightarrow> nat list option) \<Rightarrow> nat list list \<Rightarrow> nat list" where
  "reader_cores env args =
     (case reader_flag args of
        Some v \<Rightarrow> parse_core_list v
      | None \<Rightarrow> (case env ''READER_CORES'' of None \<Rightarrow> [] | Some s \<Rightarrow> parse_core_list s))"

lemma split_on_nonempty: "split_on P cs \<noteq> []"
  by (induction cs) (auto split: list.split)

lemma split_on_word:
  "list_all (\<lambda>c. \<not> P c) w \<Longrightarrow>
   split_on P (w @ cs) = (case split_on P cs of v # vs \<Rightarrow> (w @ v) # vs | [] \<Rightarrow> [w])"
  by (induction w) (auto simp: split_on_nonempty split: list.split)

text \<open>Numbers joined by separators, with any junk of separators before and after.\<close>

fun core_text :: "(nat list \<times> nat) list \<Rightarrow> nat list \<Rightarrow> nat list" where
  "core_text [] tail = tail"
| "core_text ((seps, n) # cs) tail = seps @ of_char (CHR '' '') # show_radix 10 n @ of_char (CHR '','') # core_text cs tail"

lemma split_on_seps:
  "list_all P seps \<Longrightarrow> split_on P (seps @ cs) = replicate (length seps) [] @ split_on P cs"
  by (induction seps) auto

lemma show_radix_plain:
  "list_all (\<lambda>c. \<not> is_separator c) (show_radix 10 n)" "trim (show_radix 10 n) = show_radix 10 n"
proof -
  have "\<not> is_separator c \<and> \<not> is_whitespace c" if "c \<in> set (show_radix 10 n)" for c
    using show_radix_chars [OF that] by (simp add: is_separator_def is_whitespace_def)
  then show "list_all (\<lambda>c. \<not> is_separator c) (show_radix 10 n)" "trim (show_radix 10 n) = show_radix 10 n"
    by (auto simp: list_all_iff intro!: trim_plain)
qed

lemma map_filter_append: "List.map_filter f (xs @ ys) = List.map_filter f xs @ List.map_filter f ys"
  by (simp add: List.map_filter_def)

lemma trim_Nil [simp]: "trim [] = []"
  by (simp add: trim_def)

text \<open>
  Core lists are read back. A list of core numbers written in decimal, separated by any mix of
  commas and blanks (also repeated, leading or trailing), is parsed to exactly those numbers, in order.
\<close>
theorem core_list_round_trip:
  assumes "list_all (\<lambda>(seps, n). list_all is_separator seps \<and> n \<le> USIZE_MAX) cs"
    and "list_all is_separator tail"
  shows "parse_core_list (core_text cs tail) = map snd cs"
  using assms(1)
proof (induction cs)
  case Nil
  have "split_on is_separator tail = replicate (length tail) [] @ [[]]"
    using split_on_seps [OF assms(2), of "[]"] by simp
  then show ?case by (simp add: parse_core_list_def List.map_filter_def)
next
  case (Cons c cs)
  obtain seps n where c: "c = (seps, n)" by fastforce
  have "list_all is_separator seps" and n: "n \<le> USIZE_MAX" using Cons.prems by (simp_all add: c)
  then have seps: "list_all is_separator (seps @ [of_char (CHR '' '')])" by (simp add: is_separator_def)
  have comma: "is_separator (of_char (CHR '',''))" by (simp add: is_separator_def)
  have "split_on is_separator (show_radix 10 n @ of_char (CHR '','') # core_text cs tail) =
      show_radix 10 n # split_on is_separator (core_text cs tail)"
    using split_on_word [OF show_radix_plain(1)] comma by simp
  then have "split_on is_separator (core_text (c # cs) tail) =
      replicate (Suc (length seps)) [] @ show_radix 10 n # split_on is_separator (core_text cs tail)"
    using split_on_seps [OF seps] by (simp add: c)
  moreover have "parse_usize (show_radix 10 n) = Some n"
    using n by (simp add: parse_usize_def parse_show_radix)
  ultimately have "parse_core_list (core_text (c # cs) tail) = n # parse_core_list (core_text cs tail)"
    by (simp add: parse_core_list_def map_filter_append show_radix_plain(2) show_radix_nonempty List.map_filter_def)
  then show ?case using Cons by (simp add: c)
qed

theorem core_list_round_trip_witness:
  "parse_core_list (core_text [([], 6), ([44, 32], 12), ([], 18)] [32]) = [6, 12, 18]"
  using core_list_round_trip [of "[([], 6), ([44, 32], 12), ([], 18)]" "[32]"]
  by (simp add: is_separator_def USIZE_MAX_def)

subsection \<open>The clock\<close>

definition OVERHEAD_ITERS :: nat where "OVERHEAD_ITERS = 200000"

definition ns_u64 :: "nat \<Rightarrow> u64" where
  "ns_u64 nanos = (if nanos < 2 ^ 64 then of_nat nanos else - 1)"

text \<open>\<open>raw\<close> reads the counter of a world, \<open>delta\<close> is the library's difference in nanoseconds.\<close>

definition delta_ns :: "(u64 \<Rightarrow> u64 \<Rightarrow> nat) \<Rightarrow> u64 \<Rightarrow> u64 \<Rightarrow> u64" where
  "delta_ns delta a b = ns_u64 (delta a b)"

definition now_since_ns :: "(u64 \<Rightarrow> u64 \<Rightarrow> nat) \<Rightarrow> ('w \<Rightarrow> u64 \<times> 'w) \<Rightarrow> u64 \<Rightarrow> 'w \<Rightarrow> u64 \<times> 'w" where
  "now_since_ns delta raw base w = (let (now, w') = raw w in (delta_ns delta base now, w'))"

fun overhead_samples :: "(u64 \<Rightarrow> u64 \<Rightarrow> nat) \<Rightarrow> ('w \<Rightarrow> u64 \<times> 'w) \<Rightarrow> nat \<Rightarrow> 'w \<Rightarrow> u64 list \<times> 'w" where
  "overhead_samples delta raw 0 w = ([], w)"
| "overhead_samples delta raw (Suc n) w =
     (let (a, w1) = raw w; (b, w2) = raw w1; (rest, w3) = overhead_samples delta raw n w2
      in (delta_ns delta a b # rest, w3))"

definition measure_overhead :: "(u64 \<Rightarrow> u64 \<Rightarrow> nat) \<Rightarrow> ('w \<Rightarrow> u64 \<times> 'w) \<Rightarrow> 'w \<Rightarrow> u64 res \<times> 'w" where
  "measure_overhead delta raw w =
     (let (samples, w') = overhead_samples delta raw OVERHEAD_ITERS w
      in (vec_get (sort samples) (length samples div 2), w'))"

subsection \<open>Subcommands\<close>

datatype bench =
    Service | Read | Sustained | Throughput | Flatmem | SeqlockBench | RingBench | E2e | Profile_Loop
  | Branch_Exp | Cache_Exp | Plot

text \<open>The benchmarks a command line runs, in order, with their arguments; \<open>None\<close> is the usage exit.\<close>

definition dispatch :: "string list \<Rightarrow> (bench list \<times> string list) option" where
  "dispatch args =
     (let cmd = (if 1 < length args then args ! 1 else ''help''); rest = drop 2 args
      in map_option (\<lambda>bs. (bs, rest))
        (map_of [(''service'', [Service]), (''read'', [Read]), (''throughput'', [Throughput]),
           (''sustained'', [Sustained]), (''flatmem'', [Flatmem]), (''seqlock'', [SeqlockBench]),
           (''ring'', [RingBench]), (''e2e'', [E2e]), (''profile'', [Profile_Loop]),
           (''branch-exp'', [Branch_Exp]), (''cache-exp'', [Cache_Exp]), (''plot'', [Plot]),
           (''all'', [Service, Read, Throughput, Sustained, Flatmem, SeqlockBench, RingBench, E2e, Plot])] cmd))"

end
