(* ===== verification/Provenance.thy ===== *)
theory Provenance
  imports Corpus
begin

section \<open>The environment manifest of the plots (bench/src/plot.rs)\<close>

text \<open>
  The pure part of \<open>env.json\<close>: hexadecimal digits, escaping, the fingerprint of a corpus file and the text of
  the manifest. What the shell commands, \<open>/proc\<close> and the corpus files return are arguments.
\<close>

definition hex_char :: "nat \<Rightarrow> char" where
  "hex_char d = char_of (digit_char d)"

definition hex :: "u8 list \<Rightarrow> string" where
  "hex b = concat (map (\<lambda>x. [hex_char (unat x div 16), hex_char (unat x mod 16)]) b)"

definition QUOTE :: char where "QUOTE = CHR 0x22"
definition BACKSLASH :: char where "BACKSLASH = CHR 0x5C"

definition replace_char :: "char \<Rightarrow> string \<Rightarrow> string \<Rightarrow> string" where
  "replace_char c by s = concat (map (\<lambda>x. if x = c then by else [x]) s)"

definition json_escape :: "string \<Rightarrow> string" where
  "json_escape s = replace_char QUOTE [BACKSLASH, QUOTE] (replace_char BACKSLASH [BACKSLASH, BACKSLASH] s)"

text \<open>The length, and the first and last 16 bytes (fewer in a shorter file).\<close>

definition corpus_provenance :: "u8 list \<Rightarrow> u64 \<times> string \<times> string" where
  "corpus_provenance bytes =
     (let n = length bytes
      in (of_nat n, hex (take (min n 16) bytes), hex (drop (n - 16) bytes)))"

record env_info =
  en_cpu :: string
  en_cores :: string
  en_governor :: string
  en_kernel :: string
  en_rustc :: string
  en_commit :: string
  en_overhead :: u64

definition quoted :: "string \<Rightarrow> string" where
  "quoted s = QUOTE # s @ [QUOTE]"

definition env_line :: "string \<Rightarrow> string \<Rightarrow> string" where
  "env_line key text = ''  '' @ quoted key @ '': '' @ text @ '',\<newline>''"

definition corpus_line :: "string \<times> u8 list option \<Rightarrow> bool \<Rightarrow> string" where
  "corpus_line c is_last =
     (let (name, file) = c; comma = (if is_last then [] else '','')
      in case file of
           Some bytes \<Rightarrow>
             (let (len, head, tail) = corpus_provenance bytes
              in ''    { '' @ quoted ''name'' @ '': '' @ quoted name @ '', '' @ quoted ''bytes'' @ '': ''
                 @ show_nat (unat len) @ '', '' @ quoted ''first16_hex'' @ '': '' @ quoted head @ '', ''
                 @ quoted ''last16_hex'' @ '': '' @ quoted tail @ '' }'' @ comma @ ''\<newline>'')
         | None \<Rightarrow>
             ''    { '' @ quoted ''name'' @ '': '' @ quoted name @ '', '' @ quoted ''bytes'' @ '': null }''
             @ comma @ ''\<newline>'')"

fun corpus_lines :: "(string \<times> u8 list option) list \<Rightarrow> string" where
  "corpus_lines [] = []"
| "corpus_lines (c # cs) = corpus_line c (cs = []) @ corpus_lines cs"

definition env_json :: "env_info \<Rightarrow> (string \<times> u8 list option) list \<Rightarrow> string" where
  "env_json e corpora =
     ''{\<newline>''
     @ env_line ''cpu_model'' (quoted (json_escape (en_cpu e)))
     @ env_line ''logical_cores'' (quoted (json_escape (en_cores e)))
     @ env_line ''cpu_governor'' (quoted (json_escape (en_governor e)))
     @ env_line ''kernel'' (quoted (json_escape (en_kernel e)))
     @ env_line ''rustc'' (quoted (json_escape (en_rustc e)))
     @ env_line ''target_cpu'' (quoted ''native'')
     @ env_line ''git_commit'' (quoted (json_escape (en_commit e)))
     @ env_line ''pinned_core'' ''0''
     @ env_line ''clock_overhead_ns'' (show_nat (unat (en_overhead e)))
     @ ''  '' @ quoted ''corpora'' @ '': [\<newline>'' @ corpus_lines corpora @ ''  ]\<newline>}\<newline>''"

subsection \<open>Escaping\<close>

text \<open>A reader of a string literal's body: a backslash takes the next character, a bare quote ends it.\<close>

fun read_literal :: "string \<Rightarrow> string \<times> string" where
  "read_literal [] = ([], [])"
| "read_literal [c] = (if c = QUOTE then ([], []) else ([c], []))"
| "read_literal (c # d # s) =
     (if c = QUOTE then ([], d # s)
      else if c = BACKSLASH then (let (a, r) = read_literal s in (d # a, r))
      else (let (a, r) = read_literal (d # s) in (c # a, r)))"

lemma json_escape_Cons:
  "json_escape [] = []"
  "json_escape (c # s) = (if c = QUOTE \<or> c = BACKSLASH then [BACKSLASH, c] else [c]) @ json_escape s"
  by (auto simp: json_escape_def replace_char_def QUOTE_def BACKSLASH_def)

lemma read_literal_step:
  "c \<noteq> QUOTE \<Longrightarrow> c \<noteq> BACKSLASH \<Longrightarrow> s \<noteq> [] \<Longrightarrow>
   read_literal (c # s) = (c # fst (read_literal s), snd (read_literal s))"
  by (cases s) (simp_all add: Let_def split: prod.split)

text \<open>
  Escaping is sound. Whatever the text and whatever follows, the escaped text in quotes is read
  back as exactly that text, and the reader stops at the closing quote.
\<close>
theorem json_escape_round_trip: "read_literal (json_escape s @ QUOTE # rest) = (s, rest)"
proof (induction s)
  case Nil
  show ?case by (cases rest) (simp_all add: json_escape_Cons)
next
  case (Cons c s)
  show ?case
  proof (cases "c = QUOTE \<or> c = BACKSLASH")
    case True
    moreover have "BACKSLASH \<noteq> QUOTE" by (simp add: BACKSLASH_def QUOTE_def)
    ultimately show ?thesis using Cons by (simp add: json_escape_Cons)
  next
    case False
    then show ?thesis using Cons by (simp add: json_escape_Cons read_literal_step)
  qed
qed

subsection \<open>Fingerprints\<close>

lemma take_header: "take 16 (encode evs) = MAGIC @ to_le_bytes 4 VERSION @ to_le_bytes 4 RECORD_SIZE_U32"
  by (simp add: encode_def header_bytes_def MAGIC_def)

text \<open>The last 16 bytes of a record: its quantity, its two discriminants and padding.\<close>

definition record_tail :: "book_event \<Rightarrow> u8 list" where
  "record_tail e = to_le_bytes 8 (lots (ev_qty e)) @ [side_disc (ev_side e), kind_disc (ev_kind e)] @ replicate 6 0"

lemma encode_tail:
  "drop (length (encode (evs @ [e])) - 16) (encode (evs @ [e])) = record_tail e"
proof -
  let ?front = "header_bytes (length (evs @ [e])) @ concat (map record_bytes evs) @ to_le_bytes 8 (ev_seq e)
    @ to_le_bytes 8 (ev_ts e) @ to_le_bytes 8 (ticks (ev_px e))"
  have "encode (evs @ [e]) = ?front @ record_tail e"
    by (simp add: encode_def record_bytes_def record_tail_def)
  moreover have "length (record_tail e) = 16" by (simp add: record_tail_def)
  ultimately show ?thesis by simp
qed

text \<open>The two digits of a byte, most significant first, read off a table.\<close>

definition HEX_DIGITS :: string where "HEX_DIGITS = ''0123456789abcdef''"

lemma hex_char_table: "d < 16 \<Longrightarrow> hex_char d = HEX_DIGITS ! d"
proof -
  have "\<forall>d \<in> set [0..<16]. hex_char d = HEX_DIGITS ! d"
    by (simp add: upt_rec hex_char_def digit_char_def HEX_DIGITS_def) (simp add: char_of_def bit_iff_odd)
  then show "d < 16 \<Longrightarrow> hex_char d = HEX_DIGITS ! d" by simp
qed

lemma nibbles: "unat (b :: u8) div 16 < 16" "unat (b :: u8) mod 16 < 16"
proof -
  have "unat b < 2 ^ LENGTH(8)" by (rule unsigned_less)
  then show "unat b div 16 < 16" by simp
  show "unat b mod 16 < 16" by simp
qed

lemma hex_table: "hex bs = concat (map (\<lambda>b. [HEX_DIGITS ! (unat b div 16), HEX_DIGITS ! (unat b mod 16)]) bs)"
  by (simp only: hex_def hex_char_table nibbles)

lemma HEX_DIGITS_inj: "a < 16 \<Longrightarrow> b < 16 \<Longrightarrow> HEX_DIGITS ! a = HEX_DIGITS ! b \<Longrightarrow> a = b"
proof -
  have "distinct HEX_DIGITS" "length HEX_DIGITS = 16" by (simp_all add: HEX_DIGITS_def)
  then show "a < 16 \<Longrightarrow> b < 16 \<Longrightarrow> HEX_DIGITS ! a = HEX_DIGITS ! b \<Longrightarrow> a = b"
    by (simp add: nth_eq_iff_index_eq)
qed

lemma hex_inj: "hex xs = hex ys \<Longrightarrow> xs = ys"
proof (induction xs arbitrary: ys)
  case Nil
  then show ?case by (cases ys) (simp_all add: hex_def)
next
  case (Cons x xs)
  then obtain y zs where ys: "ys = y # zs" by (cases ys) (simp_all add: hex_def)
  have "HEX_DIGITS ! (unat x div 16) = HEX_DIGITS ! (unat y div 16)"
    "HEX_DIGITS ! (unat x mod 16) = HEX_DIGITS ! (unat y mod 16)" and same: "hex xs = hex zs"
    using Cons.prems by (simp_all add: hex_table ys)
  then have "unat x div 16 = unat y div 16" "unat x mod 16 = unat y mod 16"
    using HEX_DIGITS_inj nibbles by blast+
  then have "unat x = unat y" by (metis div_mult_mod_eq)
  with Cons.IH [OF same] show ?case by (simp add: ys word_unat_eq_iff)
qed

lemma length_hex: "length (hex bs) = 2 * length bs"
  by (induction bs) (simp_all add: hex_def)

lemma record_tail_inj:
  "record_tail x = record_tail y \<longleftrightarrow> ev_qty x = ev_qty y \<and> ev_side x = ev_side y \<and> ev_kind x = ev_kind y"
proof
  assume eq: "record_tail x = record_tail y"
  have "to_le_bytes 8 (lots (ev_qty x)) = to_le_bytes 8 (lots (ev_qty y))"
    using arg_cong [OF eq, of "take 8"] by (simp add: record_tail_def)
  then have "lots (ev_qty x) = lots (ev_qty y)" by (metis le_round_trip(1))
  moreover have "side_disc (ev_side x) = side_disc (ev_side y)" "kind_disc (ev_kind x) = kind_disc (ev_kind y)"
    using eq by (simp_all add: record_tail_def)
  ultimately show "ev_qty x = ev_qty y \<and> ev_side x = ev_side y \<and> ev_kind x = ev_kind y"
    by (cases "ev_side x"; cases "ev_side y"; cases "ev_kind x"; cases "ev_kind y";
        cases "ev_qty x"; cases "ev_qty y") simp_all
qed (simp add: record_tail_def)

lemma encoded_provenance:
  "corpus_provenance (encode (xs @ [x])) =
     (of_nat (72 + 40 * length xs), hex (MAGIC @ to_le_bytes 4 VERSION @ to_le_bytes 4 RECORD_SIZE_U32),
      hex (record_tail x))"
proof -
  have "min (length (encode (xs @ [x]))) 16 = 16" by (simp add: length_encode)
  moreover have "(of_nat (length (encode (xs @ [x]))) :: u64) = of_nat (72 + 40 * length xs)"
    by (simp add: length_encode)
  ultimately show ?thesis
    unfolding corpus_provenance_def Let_def by (simp only: take_header encode_tail)
qed

lemma header_hex:
  "hex (MAGIC @ to_le_bytes 4 VERSION @ to_le_bytes 4 RECORD_SIZE_U32) = ''4d444645454400000100000028000000''"
  by (simp add: hex_table MAGIC_def VERSION_def RECORD_SIZE_U32_def to_le_bytes_def upt_rec HEX_DIGITS_def)

text \<open>
  Property C40: what the fingerprint identifies. The provenance of a written corpus with a last event is its
  number of bytes, 32 hexadecimal digits that are the same for every corpus, and those of the last event's
  quantity, side and kind. So two corpora have the same one exactly when they have as many events and their
  last events agree in these: it does not identify a corpus, whatever all other events, prices and times are.
\<close>
theorem provenance_identifies:
  assumes "length xs < 2 ^ 58" and "length ys < 2 ^ 58"
  shows "corpus_provenance (encode (xs @ [x])) =
      (of_nat (72 + 40 * length xs), ''4d444645454400000100000028000000'',
       concat (map (\<lambda>b. [HEX_DIGITS ! (unat b div 16), HEX_DIGITS ! (unat b mod 16)]) (record_tail x)))
    \<and> (corpus_provenance (encode (xs @ [x])) = corpus_provenance (encode (ys @ [y])) \<longleftrightarrow>
      length xs = length ys \<and> ev_qty x = ev_qty y \<and> ev_side x = ev_side y \<and> ev_kind x = ev_kind y)"
proof -
  have size: "unat (of_nat (72 + 40 * k) :: u64) = 72 + 40 * k" if "k < 2 ^ 58" for k
    using that by (simp add: unat_of_nat take_bit_nat_eq_self del: of_nat_add of_nat_mult)
  have len: "(of_nat (72 + 40 * length xs) :: u64) = of_nat (72 + 40 * length ys) \<longleftrightarrow> length xs = length ys"
    unfolding word_unat_eq_iff size [OF assms(1)] size [OF assms(2)] by simp
  have "corpus_provenance (encode (xs @ [x])) = corpus_provenance (encode (ys @ [y])) \<longleftrightarrow>
      length xs = length ys \<and> record_tail x = record_tail y"
    unfolding encoded_provenance using len hex_inj by (auto simp del: of_nat_add of_nat_mult)
  moreover have "corpus_provenance (encode (xs @ [x])) =
      (of_nat (72 + 40 * length xs), ''4d444645454400000100000028000000'',
       concat (map (\<lambda>b. [HEX_DIGITS ! (unat b div 16), HEX_DIGITS ! (unat b mod 16)]) (record_tail x)))"
    unfolding encoded_provenance header_hex by (simp only: hex_table)
  ultimately show ?thesis by (simp only: record_tail_inj)
qed

theorem provenance_identifies_witness:
  "corpus_provenance (encode [ev_level 1 10 Bid (Px 500) (Qty 3), ev_level 2 20 Ask (Px 900) (Qty 7)]) =
   corpus_provenance (encode [ev_clear 4 5, ev_level 8 9 Ask (Px 1) (Qty 7)])
   \<and> corpus_provenance (encode [ev_clear 4 5, ev_level 8 9 Ask (Px 1) (Qty 7)]) \<noteq>
     corpus_provenance (encode [ev_clear 4 5, ev_level 8 9 Ask (Px 1) (Qty 8)])
   \<and> encode [ev_level 1 10 Bid (Px 500) (Qty 3), ev_level 2 20 Ask (Px 900) (Qty 7)] \<noteq>
     encode [ev_clear 4 5, ev_level 8 9 Ask (Px 1) (Qty 7)]"
proof (intro conjI)
  show "corpus_provenance (encode [ev_level 1 10 Bid (Px 500) (Qty 3), ev_level 2 20 Ask (Px 900) (Qty 7)]) =
      corpus_provenance (encode [ev_clear 4 5, ev_level 8 9 Ask (Px 1) (Qty 7)])"
    using conjunct2 [OF provenance_identifies [of "[ev_level 1 10 Bid (Px 500) (Qty 3)]" "[ev_clear 4 5]"
        "ev_level 2 20 Ask (Px 900) (Qty 7)" "ev_level 8 9 Ask (Px 1) (Qty 7)"]]
    by (simp add: ev_defs)
  show "corpus_provenance (encode [ev_clear 4 5, ev_level 8 9 Ask (Px 1) (Qty 7)]) \<noteq>
      corpus_provenance (encode [ev_clear 4 5, ev_level 8 9 Ask (Px 1) (Qty 8)])"
    using conjunct2 [OF provenance_identifies [of "[ev_clear 4 5]" "[ev_clear 4 5]"
        "ev_level 8 9 Ask (Px 1) (Qty 7)" "ev_level 8 9 Ask (Px 1) (Qty 8)"]]
    by (simp add: ev_defs)
  show "encode [ev_level 1 10 Bid (Px 500) (Qty 3), ev_level 2 20 Ask (Px 900) (Qty 7)] \<noteq>
      encode [ev_clear 4 5, ev_level 8 9 Ask (Px 1) (Qty 7)]"
  proof
    assume "encode [ev_level 1 10 Bid (Px 500) (Qty 3), ev_level 2 20 Ask (Px 900) (Qty 7)] =
      encode [ev_clear 4 5, ev_level 8 9 Ask (Px 1) (Qty 7)]"
    then have "(from_bytes (encode [ev_level 1 10 Bid (Px 500) (Qty 3), ev_level 2 20 Ask (Px 900) (Qty 7)])
        :: (unit, corpus) parse) = from_bytes (encode [ev_clear 4 5, ev_level 8 9 Ask (Px 1) (Qty 7)])" by simp
    then show False by (simp add: from_bytes_encode canon_def ev_defs)
  qed
qed

end
