(* ===== verification/Float64.thy ===== *)
theory Float64
  imports Http "HOL-Library.Log_Nat"
begin

section \<open>Double-precision numbers as the sources use them\<close>

text \<open>
  An \<open>f64\<close> is its sign and its remaining 63 bits, read as a number: the order of these numbers is the order
  of the magnitudes, with infinity at \<open>INF_MAG\<close> and the NaNs above it. \<open>f64_round\<close> rounds a rational to the
  nearest double, ties to even; every operation is the exact rational one, rounded. \<open>parse_f64\<close> is
  \<open>str::parse\<close> on the code points of a text, \<open>show_fixed\<close> is \<open>Display\<close> with a precision. The sign of a NaN is
  not specified by the language except where it is parsed or negated; an operation that creates one here
  gives the positive one.
\<close>

datatype f64 = F64 (f64_neg: bool) (f64_mag: nat)

definition INF_MAG :: nat where "INF_MAG = 2047 * 2 ^ 52"

definition is_nan :: "f64 \<Rightarrow> bool" where "is_nan x \<longleftrightarrow> INF_MAG < f64_mag x"
definition is_finite :: "f64 \<Rightarrow> bool" where "is_finite x \<longleftrightarrow> f64_mag x < INF_MAG"

definition INFINITY :: f64 where "INFINITY = F64 False INF_MAG"
definition NAN :: f64 where "NAN = F64 False (INF_MAG + 2 ^ 51)"

subsection \<open>Values and rounding\<close>

definition mag_rat :: "nat \<Rightarrow> rat" where
  "mag_rat m =
     (let e = m div 2 ^ 52; f = m mod 2 ^ 52
      in if e = 0 then of_nat f * 2 powi (- 1074) else of_nat (2 ^ 52 + f) * 2 powi (int e - 1075))"

definition f64_rat :: "f64 \<Rightarrow> rat" where
  "f64_rat x = (if f64_neg x then - mag_rat (f64_mag x) else mag_rat (f64_mag x))"

text \<open>The integer part of the binary logarithm, from the bit lengths of numerator and denominator.\<close>

definition ilog2 :: "rat \<Rightarrow> int" where
  "ilog2 r =
     (let (n, d) = quotient_of r; k = int (floorlog 2 (nat n)) - int (floorlog 2 (nat d))
      in if 2 powi k \<le> r then k else k - 1)"

definition half_even :: "rat \<Rightarrow> int" where
  "half_even x =
     (let k = \<lfloor>x\<rfloor>; d = x - of_int k in if d < 1 / 2 \<or> d = 1 / 2 \<and> even k then k else k + 1)"

definition round_mag :: "rat \<Rightarrow> nat" where
  "round_mag r =
     (if r = 0 then 0
      else let e = max (ilog2 r) (- 1022)
           in min INF_MAG (nat (e + 1022) * 2 ^ 52 + nat (half_even (r / 2 powi (e - 52)))))"

definition f64_round :: "bool \<Rightarrow> rat \<Rightarrow> f64" where
  "f64_round zero_neg r = F64 (if r = 0 then zero_neg else r < 0) (round_mag \<bar>r\<bar>)"

definition f64_lit :: "rat \<Rightarrow> f64" where "f64_lit r = f64_round False r"

definition f64_of_nat :: "nat \<Rightarrow> f64" where "f64_of_nat n = f64_lit (of_nat n)"

lemma powi_less_iff: "(2 :: rat) powi a < 2 powi b \<longleftrightarrow> a < b"
  by (meson linorder_not_less one_le_numeral one_less_numeral_iff power_int_increasing
      power_int_strict_increasing semiring_norm(76))

lemma powi_double: "(2 :: rat) powi (k + 1) = 2 * 2 powi k"
  by (simp add: power_int_add)

lemma ilog2_bounds:
  assumes "0 < r"
  shows "2 powi ilog2 r \<le> r" "r < 2 powi (ilog2 r + 1)"
proof -
  obtain n d where q: "quotient_of r = (n, d)" by fastforce
  have d: "0 < d" and r: "r = of_int n / of_int d"
    using quotient_of_denom_pos [OF q] quotient_of_div [OF q] by auto
  then have n: "0 < n" using assms by (simp add: zero_less_divide_iff)
  define a b where ab: "a = floorlog 2 (nat n)" "b = floorlog 2 (nat d)"
  have bounds: "2 ^ (floorlog 2 (nat k) - 1) \<le> (of_int k :: rat)" "of_int k < (2 :: rat) ^ floorlog 2 (nat k)"
    "0 < floorlog 2 (nat k)" if "0 < k" for k :: int
  proof -
    have "2 ^ (floorlog 2 (nat k) - 1) \<le> nat k \<and> nat k < 2 ^ floorlog 2 (nat k)"
      using that floorlog_bounds [of "nat k" 2] by simp
    then have "(of_nat (2 ^ (floorlog 2 (nat k) - 1)) :: rat) \<le> of_nat (nat k) \<and> of_nat (nat k) < (of_nat (2 ^ floorlog 2 (nat k)) :: rat)"
      by (simp only: of_nat_le_iff of_nat_less_iff)
    then show "2 ^ (floorlog 2 (nat k) - 1) \<le> (of_int k :: rat)" "of_int k < (2 :: rat) ^ floorlog 2 (nat k)"
      using that by simp_all
    show "0 < floorlog 2 (nat k)" using that by (simp add: floorlog_eq_zero_iff flip: neq0_conv)
  qed
  have pos: "0 < (2 :: rat) powi k" for k by simp
  have hi: "r < 2 powi (int a - int b + 1)"
  proof -
    have "r < 2 ^ a / 2 ^ (b - 1)"
      unfolding r using bounds(2) [OF n] bounds(1) [OF d] n d ab by (intro frac_less) auto
    also have "\<dots> = 2 powi (int a - int b + 1)"
      using bounds(3) [OF d] by (simp add: ab power_int_diff power_int_add power_diff)
    finally show ?thesis .
  qed
  have lo: "2 powi (int a - int b - 1) \<le> r"
  proof -
    have "2 powi (int a - int b - 1) = (2 :: rat) ^ (a - 1) / 2 ^ b"
      using bounds(3) [OF n] by (simp add: ab power_int_diff power_diff)
    also have "\<dots> \<le> r"
      unfolding r using bounds(1) [OF n] bounds(2) [OF d] n d ab by (intro frac_le) auto
    finally show ?thesis .
  qed
  show "2 powi ilog2 r \<le> r" "r < 2 powi (ilog2 r + 1)"
    using hi lo by (auto simp: ilog2_def q Let_def ab [symmetric])
qed

lemma ilog2_unique:
  assumes "2 powi k \<le> r" and "r < 2 powi (k + 1)"
  shows "ilog2 r = k"
proof -
  have "(0 :: rat) < 2 powi k" by simp
  then have "0 < r" using assms(1) by linarith
  then have "2 powi k < (2 :: rat) powi (ilog2 r + 1)" "2 powi ilog2 r < (2 :: rat) powi (k + 1)"
    using ilog2_bounds [of r] assms by (meson le_less_trans)+
  then show ?thesis by (simp add: powi_less_iff)
qed

lemma ilog2_mono: "0 < r \<Longrightarrow> r \<le> s \<Longrightarrow> ilog2 r \<le> ilog2 s"
proof -
  assume "0 < r" "r \<le> s"
  then have "2 powi ilog2 r < (2 :: rat) powi (ilog2 s + 1)"
    using ilog2_bounds [of r] ilog2_bounds [of s] by linarith
  then show ?thesis by (simp add: powi_less_iff)
qed

lemma half_even_of_int [simp]: "half_even (of_int k) = k"
  by (simp add: half_even_def)

lemma half_even_of_nat [simp]: "half_even (of_nat n) = int n" "half_even (numeral w) = numeral w"
  using half_even_of_int [of "int n"] half_even_of_int [of "numeral w"] by simp_all

lemma half_even_mono: "x \<le> y \<Longrightarrow> half_even x \<le> half_even y"
proof -
  assume le: "x \<le> y"
  consider "\<lfloor>x\<rfloor> < \<lfloor>y\<rfloor>" | "\<lfloor>x\<rfloor> = \<lfloor>y\<rfloor>" using floor_mono [OF le] by linarith
  then show ?thesis using le by cases (auto simp: half_even_def Let_def)
qed

lemma half_even_near: "\<bar>of_int (half_even x) - x\<bar> \<le> 1 / 2"
  using floor_correct [of x] by (auto simp: half_even_def Let_def abs_le_iff)

lemma half_even_bounds: "of_int a \<le> x \<Longrightarrow> x \<le> of_int b \<Longrightarrow> a \<le> half_even x \<and> half_even x \<le> b"
  using half_even_mono [of "of_int a" x] half_even_mono [of x "of_int b"] by simp

text \<open>The two fields put together: \<open>k\<close> units of the last place of exponent \<open>e\<close>.\<close>

lemma mag_rat_parts:
  assumes "- 1022 \<le> e" and "e = - 1022 \<or> 2 ^ 52 \<le> k" and "k \<le> 2 ^ 53"
  shows "mag_rat (nat (e + 1022) * 2 ^ 52 + k) = of_nat k * 2 powi (e - 52)"
proof -
  let ?m = "nat (e + 1022) * 2 ^ 52 + k"
  consider "k < 2 ^ 52" "e = - 1022" | "2 ^ 52 \<le> k" "k < 2 ^ 53" | "k = 2 ^ 53"
    using assms by fastforce
  then show ?thesis
  proof cases
    case 1
    then show ?thesis by (simp add: mag_rat_def)
  next
    case 2
    then obtain f where f: "k = 2 ^ 52 + f" "f < 2 ^ 52" using le_Suc_ex [of "2 ^ 52" k] by auto
    have m: "?m = (nat (e + 1022) + 1) * 2 ^ 52 + f" using f by simp
    have "?m div 2 ^ 52 = nat (e + 1022) + 1" "?m mod 2 ^ 52 = f" 
      unfolding m using f(2) by (simp_all only: div_mult_self3 mod_mult_self3 div_less mod_less)
    moreover have "int (nat (e + 1022) + 1) - 1075 = e - 52" using assms(1) by simp
    ultimately show ?thesis using f by (simp add: mag_rat_def Let_def)
  next
    case 3
    have m: "?m = (nat (e + 1022) + 2) * 2 ^ 52" using 3 by simp
    have "?m div 2 ^ 52 = nat (e + 1022) + 2" "?m mod 2 ^ 52 = 0" unfolding m by simp_all
    moreover have "int (nat (e + 1022) + 2) - 1075 = (e - 52) + 1" using assms(1) by simp
    ultimately show ?thesis using 3 powi_double [of "e - 52"] by (simp add: mag_rat_def Let_def)
  qed
qed

lemma mag_rat_nonneg: "0 \<le> mag_rat m"
  by (simp add: mag_rat_def Let_def)

lemma mag_rat_0 [simp]: "mag_rat 0 = 0"
  by (simp add: mag_rat_def)

lemma mag_rat_Suc: "mag_rat m < mag_rat (Suc m)"
proof -
  define e where "e = m div 2 ^ 52"
  define f where "f = m mod 2 ^ 52"
  have m: "m = e * 2 ^ 52 + f" "f < 2 ^ 52" by (simp_all add: e_def f_def)
  show ?thesis
  proof (cases e)
    case 0
    have "mag_rat m = of_nat f * 2 powi (- 1074)" "mag_rat (Suc m) = of_nat (Suc f) * 2 powi (- 1074)"
      using mag_rat_parts [of "- 1022" f] mag_rat_parts [of "- 1022" "Suc f"] m 0 by auto
    then show ?thesis by simp
  next
    case (Suc e')
    have "mag_rat m = of_nat (2 ^ 52 + f) * 2 powi (int e' - 1074)"
      "mag_rat (Suc m) = of_nat (Suc (2 ^ 52 + f)) * 2 powi (int e' - 1074)"
      using mag_rat_parts [of "int e' - 1022" "2 ^ 52 + f"] mag_rat_parts [of "int e' - 1022" "Suc (2 ^ 52 + f)"] m Suc
      by (simp_all add: algebra_simps)
    then show ?thesis by simp
  qed
qed

lemma mag_rat_less_iff: "mag_rat m < mag_rat n \<longleftrightarrow> m < n"
  using lift_Suc_mono_less_iff [of mag_rat, OF mag_rat_Suc] by blast

lemma mag_rat_eq_iff: "mag_rat m = mag_rat n \<longleftrightarrow> m = n"
  by (metis linorder_neqE_nat less_irrefl mag_rat_less_iff)

text \<open>What \<open>round_mag\<close> computes: its exponent and its mantissa, in range.\<close>

lemma round_mag_cases:
  assumes "0 < r"
  obtains e k where "- 1022 \<le> e" "e = - 1022 \<or> 2 ^ 52 \<le> k" "k \<le> 2 ^ 53" "r < 2 powi (e + 1)"
    "e = max (ilog2 r) (- 1022)" "int k = half_even (r / 2 powi (e - 52))"
    "round_mag r = min INF_MAG (nat (e + 1022) * 2 ^ 52 + k)"
proof -
  define e where "e = max (ilog2 r) (- 1022)"
  define x where "x = r / 2 powi (e - 52)"
  have unit: "2 powi (e + 1) = 2 ^ 53 * (2 :: rat) powi (e - 52)" "2 powi e = 2 ^ 52 * (2 :: rat) powi (e - 52)"
    by (simp_all add: power_int_add power_int_diff)
  have "(2 :: rat) powi (ilog2 r + 1) \<le> 2 powi (e + 1)" by (intro power_int_increasing) (simp_all add: e_def)
  then have top: "r < 2 powi (e + 1)" using ilog2_bounds(2) [OF assms] by linarith
  then have "x \<le> of_int (2 ^ 53)" "0 \<le> x" using assms by (simp_all add: x_def unit divide_simps)
  then have k: "0 \<le> half_even x" "half_even x \<le> 2 ^ 53" using half_even_bounds [of 0 x "2 ^ 53"] by simp_all
  have "2 ^ 52 \<le> half_even x" if "e \<noteq> - 1022"
  proof -
    have "2 powi e \<le> r" using ilog2_bounds(1) [OF assms] that by (auto simp: e_def max_def split: if_splits)
    then have "of_int (2 ^ 52) \<le> x" by (simp add: x_def unit divide_simps)
    then show ?thesis using half_even_mono [of "of_int (2 ^ 52)" x] by simp
  qed
  then have "e = - 1022 \<or> 2 ^ 52 \<le> nat (half_even x)" by (cases "e = - 1022") (simp_all add: le_nat_iff)
  moreover have "nat (half_even x) \<le> 2 ^ 53" using k by simp
  moreover have "round_mag r = min INF_MAG (nat (e + 1022) * 2 ^ 52 + nat (half_even x))"
    using assms unfolding round_mag_def e_def x_def Let_def by (metis less_irrefl)
  moreover have "- 1022 \<le> e" "int (nat (half_even x)) = half_even x" using k(1) by (simp_all add: e_def)
  ultimately show ?thesis using top that e_def unfolding x_def by blast
qed

lemma round_mag_0 [simp]: "round_mag 0 = 0"
  by (simp add: round_mag_def)

lemma round_mag_le_INF: "round_mag r \<le> INF_MAG"
  by (simp add: round_mag_def Let_def INF_MAG_def)

text \<open>A number that is a whole number of units of its exponent, and is not too large, is exact.\<close>

lemma round_mag_exact:
  assumes "0 < r" and "r = of_nat n * 2 powi (max (ilog2 r) (- 1022) - 52)" and "round_mag r < INF_MAG"
  shows "mag_rat (round_mag r) = r"
  using assms(1)
proof (cases rule: round_mag_cases)
  case (1 e k)
  have r: "r = of_nat n * 2 powi (e - 52)" using assms(2) unfolding 1(5) [symmetric] .
  have "r / 2 powi (e - 52) = of_int (int n)" by (subst r) simp
  then have "k = n" using 1(6) by simp
  then show ?thesis
    using 1(7) assms(3) mag_rat_parts [OF 1(1,2,3)] r by (simp add: min_def split: if_splits)
qed

lemma round_mag_mono:
  assumes "0 \<le> r" and "r \<le> s"
  shows "round_mag r \<le> round_mag s"
proof (cases "0 < r")
  case True
  then have "0 < s" using assms by linarith
  obtain e k where r: "e = max (ilog2 r) (- 1022)" "k \<le> 2 ^ 53" "int k = half_even (r / 2 powi (e - 52))"
    "round_mag r = min INF_MAG (nat (e + 1022) * 2 ^ 52 + k)"
    using True by (rule round_mag_cases) blast
  obtain e' k' where s: "e' = max (ilog2 s) (- 1022)" "e' = - 1022 \<or> 2 ^ 52 \<le> k'" "int k' = half_even (s / 2 powi (e' - 52))"
    "round_mag s = min INF_MAG (nat (e' + 1022) * 2 ^ 52 + k')"
    using \<open>0 < s\<close> by (rule round_mag_cases) blast
  have e: "e \<le> e'" "- 1022 \<le> e" using ilog2_mono [OF True assms(2)] r(1) s(1) by simp_all
  show ?thesis
  proof (cases "e = e'")
    case True
    have "half_even (r / 2 powi (e - 52)) \<le> half_even (s / 2 powi (e - 52))"
      using assms(2) by (intro half_even_mono) (simp add: divide_right_mono)
    then have "k \<le> k'" using r(3) s(3) True by simp
    then show ?thesis unfolding r(4) s(4) True by (intro min.mono) simp_all
  next
    case False
    then have "nat (e + 1022) + 1 \<le> nat (e' + 1022)" "2 ^ 52 \<le> k'" using e s(2) by auto
    then have "(nat (e + 1022) + 1) * 2 ^ 52 + k' \<le> nat (e' + 1022) * 2 ^ 52 + k'" by simp
    then have "nat (e + 1022) * 2 ^ 52 + k \<le> nat (e' + 1022) * 2 ^ 52 + k'"
      using r(2) \<open>2 ^ 52 \<le> k'\<close> by simp
    then show ?thesis using r(4) s(4) by (simp add: min_def)
  qed
qed (use assms in simp)

lemma round_mag_units:
  assumes "0 < r" and "e = max (ilog2 r) (- 1022)" and "r = of_nat n * 2 powi (e - 52)"
  shows "round_mag r = min INF_MAG (nat (e + 1022) * 2 ^ 52 + n)"
  using assms(1)
proof (cases rule: round_mag_cases)
  case (1 e' k)
  have "r / 2 powi (e - 52) = of_nat n" by (subst assms(3)) simp
  then show ?thesis using 1(5-7) assms(2) by simp
qed

text \<open>Every double but an infinity or a NaN is its fields put together.\<close>

lemma mag_parts_cases:
  assumes "m < INF_MAG"
  obtains e k where "- 1022 \<le> e" "e \<le> 1023" "e = - 1022 \<or> 2 ^ 52 \<le> k" "k < 2 ^ 53"
    "m = nat (e + 1022) * 2 ^ 52 + k"
proof (cases "m div 2 ^ 52")
  case 0
  then have "m < 2 ^ 52" by (simp add: div_eq_0_iff)
  then show ?thesis by (intro that [of "- 1022" m]) simp_all
next
  case (Suc e)
  have m: "m = Suc e * 2 ^ 52 + m mod 2 ^ 52" using div_mult_mod_eq [of m "2 ^ 52"] Suc by metis
  moreover have "Suc e < 2047" using assms Suc by (simp add: INF_MAG_def less_mult_imp_div_less)
  moreover have "nat (int e - 1022 + 1022) * 2 ^ 52 + (2 ^ 52 + m mod 2 ^ 52) = Suc e * 2 ^ 52 + m mod 2 ^ 52" by simp
  moreover have "m mod 2 ^ 52 < 2 ^ 52" by simp
  ultimately show ?thesis
    by (intro that [of "int e - 1022" "2 ^ 52 + m mod 2 ^ 52"]) (simp_all only:, simp_all)
qed

theorem round_mag_rat: "m < INF_MAG \<Longrightarrow> round_mag (mag_rat m) = m"
proof (cases "m = 0")
  case False
  assume "m < INF_MAG"
  then obtain e k where p: "- 1022 \<le> e" "e = - 1022 \<or> 2 ^ 52 \<le> k" "k < 2 ^ 53"
    "m = nat (e + 1022) * 2 ^ 52 + k" using mag_parts_cases by metis
  let ?r = "mag_rat m"
  have r: "?r = of_nat k * 2 powi (e - 52)" using mag_rat_parts p by auto
  have pos: "0 < ?r" using False mag_rat_less_iff [of 0 m] by simp
  have unit: "2 powi (e + 1) = 2 ^ 53 * (2 :: rat) powi (e - 52)" "2 powi e = 2 ^ 52 * (2 :: rat) powi (e - 52)"
    by (simp_all add: power_int_add power_int_diff)
  have "(of_nat k :: rat) < of_nat (2 ^ 53)" using p(3) by (simp only: of_nat_less_iff)
  then have top: "?r < 2 powi (e + 1)" unfolding r unit by simp
  have "max (ilog2 ?r) (- 1022) = e"
  proof (cases "2 ^ 52 \<le> k")
    case True
    then have "(of_nat (2 ^ 52) :: rat) \<le> of_nat k" by (simp only: of_nat_le_iff)
    then have "2 powi e \<le> ?r" unfolding r unit by simp
    then show ?thesis using ilog2_unique [OF _ top] p(1) by simp
  next
    case False
    then have "e = - 1022" using p(2) by simp
    moreover have "2 powi ilog2 ?r < (2 :: rat) powi (e + 1)" using ilog2_bounds(1) [OF pos] top by linarith
    ultimately show ?thesis by (simp only: powi_less_iff)
  qed
  then have "round_mag ?r = min INF_MAG m" using round_mag_units [OF pos _ r] p(4) by simp
  then show ?thesis using \<open>m < INF_MAG\<close> by simp
qed simp

lemma half_even_nearest: "\<bar>of_int (half_even x) - x\<bar> \<le> \<bar>of_int z - x\<bar>"
proof (rule ccontr)
  assume far: "\<not> ?thesis"
  then have "\<bar>of_int z - (of_int (half_even x) :: rat)\<bar> < 1" using half_even_near [of x] by linarith
  then have "\<bar>z - half_even x\<bar> < 1"
    by (metis (mono_tags) of_int_1_less_iff of_int_abs of_int_diff of_int_less_1_iff)
  then show False using far by simp
qed

text \<open>The rounded value is nearest among all doubles.\<close>

theorem round_mag_nearest:
  assumes "0 \<le> r" and "round_mag r < INF_MAG" and "m < INF_MAG"
  shows "\<bar>mag_rat (round_mag r) - r\<bar> \<le> \<bar>mag_rat m - r\<bar>"
proof (cases "r = 0")
  case False
  with assms(1) have "0 < r" by simp
  then show ?thesis
  proof (cases rule: round_mag_cases)
    case (1 e k)
    define u where "u = (2 :: rat) powi (e - 52)"
    have u: "0 < u" by (simp add: u_def)
    have h: "mag_rat (round_mag r) = of_int (half_even (r / u)) * u"
      using 1 assms(2) mag_rat_parts [OF 1(1-3)] by (simp add: u_def min_def split: if_splits)
    have near: "\<bar>mag_rat (round_mag r) - r\<bar> \<le> \<bar>of_int z * u - r\<bar>" for z
    proof -
      have "\<bar>of_int y * u - r\<bar> = \<bar>of_int y - r / u\<bar> * u" for y
      proof -
        have "of_int y * u - r = (of_int y - r / u) * u" using u by (simp add: left_diff_distrib)
        then show ?thesis using u by (simp add: abs_mult)
      qed
      then show ?thesis
        unfolding h using half_even_nearest [of "r / u" z] u by (simp add: mult_right_mono)
    qed
    obtain e' k' where p: "- 1022 \<le> e'" "e' = - 1022 \<or> 2 ^ 52 \<le> k'" "k' < 2 ^ 53"
      "m = nat (e' + 1022) * 2 ^ 52 + k'" using assms(3) mag_parts_cases by metis
    have val: "mag_rat m = of_nat k' * 2 powi (e' - 52)" using mag_rat_parts p by auto
    show ?thesis
    proof (cases "e \<le> e'")
      case True
      have "2 powi (e' - 52) = (2 :: rat) ^ nat (e' - e) * u"
        using True by (simp add: u_def power_int_def [of 2 "e' - e", symmetric] flip: power_int_add power_int_of_nat)
      then have "mag_rat m = of_int (int k' * 2 ^ nat (e' - e)) * u" by (simp add: val)
      then show ?thesis using near by metis
    next
      case False
      have "(of_nat k' :: rat) < of_nat (2 ^ 53)" using p(3) by (simp only: of_nat_less_iff)
      then have "mag_rat m < 2 ^ 53 * 2 powi (e' - 52)" unfolding val by simp
      also have "\<dots> = 2 powi (e' + 1)" by (simp add: power_int_add power_int_diff)
      also have "\<dots> \<le> 2 powi e" using False by (intro power_int_increasing) simp_all
      finally have low: "mag_rat m < 2 powi e" .
      have "e = ilog2 r" using 1(5) False p(1) by simp
      then have "2 powi e \<le> r" using ilog2_bounds(1) \<open>0 < r\<close> by simp
      moreover have "2 powi e = of_int (2 ^ 52) * u" by (simp add: u_def power_int_diff)
      ultimately show ?thesis using near [of "2 ^ 52"] low by linarith
    qed
  qed
qed simp

lemma round_mag_nat:
  assumes "n < 2 ^ 53"
  shows "mag_rat (round_mag (of_nat n)) = of_nat n \<and> round_mag (of_nat n) < INF_MAG"
proof (cases "n = 0")
  case False
  then have pos: "(0 :: rat) < of_nat n" by simp
  define e where "e = ilog2 (of_nat n)"
  have "(of_nat n :: rat) < of_nat (2 ^ 53)" using assms by (simp only: of_nat_less_iff)
  then have "2 powi e < (2 :: rat) powi 53" using ilog2_bounds(1) [OF pos] by (simp add: e_def)
  then have hi: "e < 53" by (simp only: powi_less_iff)
  have "(1 :: rat) \<le> of_nat n" using False by simp
  then have "(2 :: rat) powi 0 < 2 powi (e + 1)" using ilog2_bounds(2) [OF pos] by (simp add: e_def)
  then have lo: "0 \<le> e" by (simp only: powi_less_iff)
  define k where "k = n * 2 ^ nat (52 - e)"
  have "(2 :: rat) ^ nat (52 - e) * 2 powi (e - 52) = 2 powi ((52 - e) + (e - 52))"
    using hi by (subst power_int_add) (simp_all add: power_int_def)
  then have "(of_nat n :: rat) = of_nat k * 2 powi (e - 52)" by (simp add: k_def)
  moreover have e: "e = max (ilog2 (of_nat n)) (- 1022)" using lo by (simp add: e_def)
  ultimately have units: "round_mag (of_nat n) = min INF_MAG (nat (e + 1022) * 2 ^ 52 + k)"
    "(of_nat n :: rat) = of_nat k * 2 powi (max (ilog2 (of_nat n)) (- 1022) - 52)"
    using round_mag_units [OF pos e] by simp_all
  obtain e2 k2 where "e2 = max (ilog2 (of_nat n)) (- 1022)" "k2 \<le> 2 ^ 53"
    "round_mag (of_nat n) = min INF_MAG (nat (e2 + 1022) * 2 ^ 52 + k2)"
    using pos by (rule round_mag_cases) blast
  moreover have "nat (e + 1022) \<le> 1074" using hi lo by simp
  then have "nat (e + 1022) * 2 ^ 52 \<le> 1074 * 2 ^ 52" by (rule mult_le_mono1)
  ultimately have "round_mag (of_nat n) < INF_MAG" using e by (simp add: INF_MAG_def)
  then show ?thesis using round_mag_exact [OF pos units(2)] by blast
qed (simp add: INF_MAG_def)

subsection \<open>Comparison and arithmetic\<close>

definition f64_ord :: "f64 \<Rightarrow> int" where
  "f64_ord x = (if f64_neg x then - int (f64_mag x) else int (f64_mag x))"

definition f64_less :: "f64 \<Rightarrow> f64 \<Rightarrow> bool" where
  "f64_less x y \<longleftrightarrow> \<not> is_nan x \<and> \<not> is_nan y \<and> f64_ord x < f64_ord y"

definition f64_le :: "f64 \<Rightarrow> f64 \<Rightarrow> bool" where
  "f64_le x y \<longleftrightarrow> \<not> is_nan x \<and> \<not> is_nan y \<and> f64_ord x \<le> f64_ord y"

text \<open>The key of \<open>total_cmp\<close>: negative zero precedes zero, the NaNs are outermost.\<close>

definition total_key :: "f64 \<Rightarrow> int" where
  "total_key x = (if f64_neg x then - int (f64_mag x) - 1 else int (f64_mag x))"

text \<open>\<open>min\<close> and \<open>max\<close> ignore a NaN; of two zeros they may return either, here the first.\<close>

definition f64_max :: "f64 \<Rightarrow> f64 \<Rightarrow> f64" where
  "f64_max x y = (if is_nan x then y else if is_nan y then x else if f64_ord x < f64_ord y then y else x)"

definition f64_min :: "f64 \<Rightarrow> f64 \<Rightarrow> f64" where
  "f64_min x y = (if is_nan x then y else if is_nan y then x else if f64_ord y < f64_ord x then y else x)"

definition f64_mul :: "f64 \<Rightarrow> f64 \<Rightarrow> f64" where
  "f64_mul x y =
     (let s = (f64_neg x \<noteq> f64_neg y)
      in if is_nan x \<or> is_nan y then NAN
         else if \<not> is_finite x \<or> \<not> is_finite y
         then (if f64_mag x = 0 \<or> f64_mag y = 0 then NAN else F64 s INF_MAG)
         else f64_round s (f64_rat x * f64_rat y))"

definition f64_sub :: "f64 \<Rightarrow> f64 \<Rightarrow> f64" where
  "f64_sub x y =
     (if is_nan x \<or> is_nan y then NAN
      else if \<not> is_finite x then (if \<not> is_finite y \<and> f64_neg x = f64_neg y then NAN else x)
      else if \<not> is_finite y then F64 (\<not> f64_neg y) INF_MAG
      else f64_round (f64_neg x \<and> \<not> f64_neg y) (f64_rat x - f64_rat y))"

definition f64_div :: "f64 \<Rightarrow> f64 \<Rightarrow> f64" where
  "f64_div x y =
     (let s = (f64_neg x \<noteq> f64_neg y)
      in if is_nan x \<or> is_nan y then NAN
         else if \<not> is_finite x then (if \<not> is_finite y then NAN else F64 s INF_MAG)
         else if \<not> is_finite y then F64 s 0
         else if f64_mag y = 0 then (if f64_mag x = 0 then NAN else F64 s INF_MAG)
         else f64_round s (f64_rat x / f64_rat y))"

lemma f64_lit_sel:
  "f64_mag (f64_lit r) = round_mag \<bar>r\<bar>" "f64_neg (f64_lit r) \<longleftrightarrow> r < 0"
  by (simp_all add: f64_lit_def f64_round_def)

lemma f64_lit_not_nan: "\<not> is_nan (f64_lit r)"
  using round_mag_le_INF [of "\<bar>r\<bar>"] by (simp add: is_nan_def f64_lit_sel)

text \<open>Between literals, comparison is never the reverse of that of the rationals.\<close>

lemma f64_lit_le: "0 \<le> r \<Longrightarrow> r \<le> s \<Longrightarrow> f64_le (f64_lit r) (f64_lit s)"
  using round_mag_mono [of r s] by (simp add: f64_le_def f64_ord_def f64_lit_not_nan f64_lit_sel)

lemma f64_of_nat_exact:
  assumes "n < 2 ^ 53"
  shows "f64_rat (f64_of_nat n) = of_nat n" "is_finite (f64_of_nat n)"
  using round_mag_nat [OF assms]
  by (simp_all add: f64_rat_def f64_of_nat_def f64_lit_sel is_finite_def)

subsection \<open>Doubles as text\<close>

definition dec_digit :: "nat \<Rightarrow> bool" where
  "dec_digit c \<longleftrightarrow> 48 \<le> c \<and> c \<le> 57"

definition digit_codes_val :: "nat list \<Rightarrow> nat" where
  "digit_codes_val cs = digits_val 10 (map (\<lambda>c. c - 48) cs)"

text \<open>An exponent stops growing at five digits, as in the library.\<close>

definition parse_exponent :: "nat list \<Rightarrow> int option" where
  "parse_exponent cs =
     (case cs of
        [] \<Rightarrow> Some 0
      | c # r \<Rightarrow>
          if c \<noteq> 101 \<and> c \<noteq> 69 then None
          else
            let neg = (r \<noteq> [] \<and> hd r = 45);
                ds = (if r \<noteq> [] \<and> (hd r = 43 \<or> hd r = 45) then tl r else r);
                e = foldl (\<lambda>e d. if e < 65536 then 10 * e + (d - 48) else e) 0 ds
            in if ds = [] \<or> \<not> list_all dec_digit ds then None
               else Some (if neg then - int e else int e))"

definition parse_decimal :: "nat list \<Rightarrow> rat option" where
  "parse_decimal cs =
     (let ip = takeWhile dec_digit cs; r1 = dropWhile dec_digit cs;
          (fp, r2) = (case r1 of
               [] \<Rightarrow> ([], [])
             | c # r \<Rightarrow> if c = 46 then (takeWhile dec_digit r, dropWhile dec_digit r) else ([], r1))
      in if ip = [] \<and> fp = [] then None
         else map_option (\<lambda>e. of_nat (digit_codes_val (ip @ fp)) * 10 powi (e - int (length fp)))
                (parse_exponent r2))"

definition ascii_lower :: "nat \<Rightarrow> nat" where
  "ascii_lower c = (if 65 \<le> c \<and> c \<le> 90 then c + 32 else c)"

definition parse_f64 :: "nat list \<Rightarrow> f64 option" where
  "parse_f64 cs =
     (if cs = [] then None
      else
        let neg = (hd cs = 45); body = (if hd cs = 45 \<or> hd cs = 43 then tl cs else cs);
            word = map ascii_lower body
        in case parse_decimal body of
             Some r \<Rightarrow> Some (F64 neg (round_mag r))
           | None \<Rightarrow>
               if word = codes ''nan'' then Some (F64 neg (f64_mag NAN))
               else if word = codes ''inf'' \<or> word = codes ''infinity'' then Some (F64 neg INF_MAG)
               else None)"

definition show_fixed :: "nat \<Rightarrow> f64 \<Rightarrow> string" where
  "show_fixed p x =
     (if is_nan x then ''NaN''
      else (if f64_neg x then ''-'' else [])
        @ (if \<not> is_finite x then ''inf''
           else let n = nat (half_even (mag_rat (f64_mag x) * 10 ^ p))
                in if p = 0 then show_nat n
                   else show_nat (n div 10 ^ p) @ ''.'' @ zero_padded p (n mod 10 ^ p)))"

definition pad_left :: "nat \<Rightarrow> string \<Rightarrow> string" where
  "pad_left width s = replicate (width - length s) (CHR '' '') @ s"

lemma show_radix_dec:
  "list_all dec_digit (show_radix 10 n)" "digit_codes_val (show_radix 10 n) = n"
proof -
  obtain ds where ds: "digits_of 10 (show_radix 10 n) = Some ds" "digits_val 10 ds = n"
    using show_radix_digits [of 10 n] by auto
  have one: "dec_digit c \<and> d = c - 48" if "to_digit 10 c = Some d" for c d
    using that by (auto simp: to_digit_def dec_digit_def Let_def split: if_splits)
  have "list_all dec_digit cs \<and> ds = map (\<lambda>c. c - 48) cs" if "digits_of 10 cs = Some ds" for cs ds
    using that by (induction cs arbitrary: ds) (use one in \<open>fastforce split: option.splits\<close>)+
  then show "list_all dec_digit (show_radix 10 n)" "digit_codes_val (show_radix 10 n) = n"
    using ds by (auto simp: digit_codes_val_def)
qed

lemma length_show_radix: "n < 10 ^ p \<Longrightarrow> 0 < p \<Longrightarrow> length (show_radix 10 n) \<le> p"
proof (induction p arbitrary: n)
  case (Suc p)
  show ?case
  proof (cases "n < 10")
    case True
    then show ?thesis by (subst show_radix.simps) simp
  next
    case False
    moreover have "n div 10 < 10 ^ p" using Suc.prems by (simp add: less_mult_imp_div_less mult.commute)
    moreover have "0 < p" using False Suc.prems by (cases p) auto
    ultimately show ?thesis using Suc.IH [of "n div 10"] by (subst show_radix.simps) simp
  qed
qed simp

lemma digits_val_zeros: "digits_val r (replicate k 0) = 0"
  by (induction k) simp_all

lemma zero_padded_dec:
  assumes "n < 10 ^ p" and "0 < p"
  shows "list_all dec_digit (codes (zero_padded p n))" "digit_codes_val (codes (zero_padded p n)) = n"
    "length (codes (zero_padded p n)) = p"
proof -
  have c: "codes (zero_padded p n) = replicate (p - length (show_radix 10 n)) 48 @ show_radix 10 n"
    using codes_show_nat [of n] by (simp add: zero_padded_def codes_def show_nat_def)
  show "list_all dec_digit (codes (zero_padded p n))" "digit_codes_val (codes (zero_padded p n)) = n"
    "length (codes (zero_padded p n)) = p"
    using show_radix_dec [of n] length_show_radix [OF assms]
    by (simp_all add: c digit_codes_val_def digits_val_append digits_val_zeros) (simp add: list_all_iff dec_digit_def)
qed

text \<open>Digits, a point and digits are read as the number they denote.\<close>

lemma parse_decimal_digits:
  assumes "list_all dec_digit ip" and "list_all dec_digit fp" and "ip \<noteq> []"
  shows "parse_decimal ip = Some (of_nat (digit_codes_val ip))"
    "parse_decimal (ip @ 46 # fp) = Some (of_nat (digit_codes_val (ip @ fp)) / 10 ^ length fp)"
proof -
  have stop: "takeWhile dec_digit (xs @ c # ys) = xs \<and> dropWhile dec_digit (xs @ c # ys) = c # ys"
    "takeWhile dec_digit xs = xs \<and> dropWhile dec_digit xs = []"
    if "list_all dec_digit xs" "\<not> dec_digit c" for xs c ys
    using that by (induction xs) auto
  have tw: "takeWhile dec_digit ip = ip" "dropWhile dec_digit ip = []" "takeWhile dec_digit fp = fp" "dropWhile dec_digit fp = []"
    "takeWhile dec_digit (ip @ 46 # fp) = ip" "dropWhile dec_digit (ip @ 46 # fp) = 46 # fp"
    using stop(1) [of ip 46 fp] stop(2) [of ip 46] stop(2) [of fp 46] assms by (simp_all add: dec_digit_def)
  show "parse_decimal ip = Some (of_nat (digit_codes_val ip))"
    using assms(3) by (simp add: parse_decimal_def tw parse_exponent_def)
  show "parse_decimal (ip @ 46 # fp) = Some (of_nat (digit_codes_val (ip @ fp)) / 10 ^ length fp)"
    using assms(3)
    by (simp add: parse_decimal_def tw parse_exponent_def power_int_minus divide_inverse del: takeWhile_append dropWhile_append)
qed

lemma show_radix_hd: "show_radix 10 n \<noteq> []" "hd (show_radix 10 n @ cs) \<noteq> 43" "hd (show_radix 10 n @ cs) \<noteq> 45"
  using show_radix_nonempty [of 10 n] show_radix_dec(1) [of n] by (cases "show_radix 10 n"; simp add: dec_digit_def)+

lemma parse_f64_nat: "parse_f64 (show_radix 10 n) = Some (f64_of_nat n)"
  using show_radix_hd(1) [of n] show_radix_hd(2,3) [of n "[]"] parse_decimal_digits(1) [OF show_radix_dec(1), of "[]" n] show_radix_dec(2) [of n]
  by (simp add: parse_f64_def Let_def f64_of_nat_def f64_lit_def f64_round_def)

lemma codes_append: "codes (xs @ ys) = codes xs @ codes ys"
  by (simp add: codes_def)

lemma digit_codes_val_append:
  "digit_codes_val (xs @ ys) = digit_codes_val xs * 10 ^ length ys + digit_codes_val ys"
  by (simp add: digit_codes_val_def digits_val_append)

lemma parse_f64_signed:
  assumes "cs = (if neg then 45 # body else body)" and "body \<noteq> []" and "hd body \<noteq> 43" and "hd body \<noteq> 45"
    and "parse_decimal body = Some r"
  shows "parse_f64 cs = Some (F64 neg (round_mag r))"
  using assms by (cases body) (auto simp: parse_f64_def)

text \<open>Printing with a precision and reading back rounds twice: to the decimals, then to a double.\<close>

theorem parse_show_fixed:
  assumes "is_finite x"
  shows "parse_f64 (codes (show_fixed p x)) =
    Some (F64 (f64_neg x) (round_mag (of_int (half_even (mag_rat (f64_mag x) * 10 ^ p)) / 10 ^ p)))"
proof -
  define n where "n = nat (half_even (mag_rat (f64_mag x) * 10 ^ p))"
  have "0 \<le> half_even (mag_rat (f64_mag x) * 10 ^ p)"
    using half_even_mono [of 0 "mag_rat (f64_mag x) * 10 ^ p"] mag_rat_nonneg by (simp add: half_even_def)
  then have n: "of_int (half_even (mag_rat (f64_mag x) * 10 ^ p)) = (of_nat n :: rat)" by (simp add: n_def)
  define body where "body = (if p = 0 then show_radix 10 n
    else show_radix 10 (n div 10 ^ p) @ 46 # codes (zero_padded p (n mod 10 ^ p)))"
  have "\<not> is_nan x" using assms by (simp add: is_nan_def is_finite_def)
  then have printed: "codes (show_fixed p x) = (if f64_neg x then 45 # body else body)"
    using assms codes_show_nat by (simp add: show_fixed_def codes_append body_def n_def Let_def) (simp add: codes_def)
  have "parse_decimal body = Some (of_nat n / 10 ^ p)"
  proof (cases "p = 0")
    case True
    then show ?thesis
      using parse_decimal_digits(1) [OF show_radix_dec(1) [of n], of "[]"] show_radix_nonempty show_radix_dec(2) [of n]
      by (simp add: body_def)
  next
    case False
    have z: "n mod 10 ^ p < 10 ^ p" "0 < p" using False by simp_all
    have "digit_codes_val (show_radix 10 (n div 10 ^ p) @ codes (zero_padded p (n mod 10 ^ p))) = n"
      using zero_padded_dec [OF z] show_radix_dec(2) [of "n div 10 ^ p"] by (simp only: digit_codes_val_append div_mult_mod_eq)
    then show ?thesis
      using parse_decimal_digits(2) [OF show_radix_dec(1) zero_padded_dec(1) [OF z], of "n div 10 ^ p"]
        show_radix_nonempty zero_padded_dec(3) [OF z] False
      by (simp add: body_def)
  qed
  moreover have "body \<noteq> []" "hd body \<noteq> 43" "hd body \<noteq> 45"
    using show_radix_hd(1) show_radix_hd(2,3) [of _ "[]"] show_radix_hd(2,3) by (simp_all add: body_def)
  ultimately show ?thesis using parse_f64_signed [OF printed] by (simp add: n)
qed

lemma parse_show_inf: "parse_f64 (codes (show_fixed p (F64 s INF_MAG))) = Some (F64 s INF_MAG)"
proof -
  have "codes ''inf'' = [105, 110, 102]" "codes ''nan'' = [110, 97, 110]" by (simp_all add: codes_def)
  moreover have "codes (show_fixed p (F64 s INF_MAG)) = (if s then 45 # [105, 110, 102] else [105, 110, 102])"
    by (simp add: show_fixed_def is_nan_def is_finite_def codes_def)
  ultimately show ?thesis
    by (simp add: parse_f64_def parse_decimal_def dec_digit_def parse_exponent_def ascii_lower_def)
qed

end
