(* ===== verification/Latency.thy ===== *)
theory Latency
  imports Float64 Harness Corpus
begin

section \<open>Latency histograms and their text export (bench/src/recorder.rs, plot.rs)\<close>

text \<open>
  The histogram is a third-party library: \<open>'h hist_ops\<close> are the calls the recorder makes, over a state
  \<open>'h\<close>. The recorder's own part is the clamp, the merge and the \<open>.hgrm\<close> export; \<open>parse_hgrm\<close> is the reader
  of that format in the plots. The text of a file is its list of code points, \<open>None\<close> if it cannot be read.
\<close>

record 'h hist_ops =
  hi_new :: "u64 \<Rightarrow> u64 \<Rightarrow> nat \<Rightarrow> 'h option"
  hi_record :: "u64 \<Rightarrow> 'h \<Rightarrow> 'h"
  hi_quantile :: "f64 \<Rightarrow> 'h \<Rightarrow> u64"
  hi_mean :: "'h \<Rightarrow> f64"
  hi_stdev :: "'h \<Rightarrow> f64"
  hi_max :: "'h \<Rightarrow> u64"
  hi_len :: "'h \<Rightarrow> u64"
  hi_add :: "'h \<Rightarrow> 'h \<Rightarrow> 'h option"
  hi_steps :: "nat \<Rightarrow> 'h \<Rightarrow> (u64 \<times> f64 \<times> u64) list"

text \<open>A step of the quantile iteration: the value, the quantile and the count since the last step.\<close>

definition expect :: "'a option \<Rightarrow> 'a res" where
  "expect x = (case x of None \<Rightarrow> Inl UnwrapFailed | Some a \<Rightarrow> Inr a)"

definition lat_new :: "'h hist_ops \<Rightarrow> 'h res" where
  "lat_new H = expect (hi_new H 1 60000000000 3)"

definition lat_record :: "'h hist_ops \<Rightarrow> u64 \<Rightarrow> 'h \<Rightarrow> 'h" where
  "lat_record H ns h = hi_record H (if unat ns < 1 then 1 else ns) h"

definition lat_p :: "'h hist_ops \<Rightarrow> 'h \<Rightarrow> f64 \<Rightarrow> u64" where "lat_p H h q = hi_quantile H q h"
definition lat_mean :: "'h hist_ops \<Rightarrow> 'h \<Rightarrow> f64" where "lat_mean H h = hi_mean H h"
definition lat_max :: "'h hist_ops \<Rightarrow> 'h \<Rightarrow> u64" where "lat_max H h = hi_max H h"
definition lat_count :: "'h hist_ops \<Rightarrow> 'h \<Rightarrow> u64" where "lat_count H h = hi_len H h"

definition lat_merge :: "'h hist_ops \<Rightarrow> 'h \<Rightarrow> 'h \<Rightarrow> 'h res" where
  "lat_merge H h other = expect (hi_add H h other)"

subsection \<open>The export\<close>

definition f64_one :: f64 where "f64_one = f64_lit 1"

definition tail_inverse :: "f64 \<Rightarrow> f64" where
  "tail_inverse q = (if f64_less q f64_one then f64_div f64_one (f64_sub f64_one q) else INFINITY)"

definition hgrm_header :: string where
  "hgrm_header =
     pad_left 15 ''Value(ns)'' @ '' '' @ pad_left 15 ''Percentile'' @ '' '' @ pad_left 12 ''TotalCount'' @ '' ''
     @ pad_left 15 ''1/(1-Percentile)''"

definition hgrm_row :: "u64 \<times> f64 \<times> u64 \<Rightarrow> string" where
  "hgrm_row s =
     (case s of (v, q, c) \<Rightarrow>
        pad_left 15 (show_u64 v) @ '' '' @ pad_left 15 (show_fixed 6 q) @ '' '' @ pad_left 12 (show_u64 c) @ '' ''
        @ pad_left 15 (show_fixed 2 (tail_inverse q)))"

definition hgrm_footer :: "'h hist_ops \<Rightarrow> 'h \<Rightarrow> string list" where
  "hgrm_footer H h =
     [''#[Mean    = '' @ pad_left 15 (show_fixed 2 (hi_mean H h)) @ '', StdDeviation = ''
        @ pad_left 15 (show_fixed 2 (hi_stdev H h)) @ '']'',
      ''#[Max     = '' @ pad_left 15 (show_u64 (hi_max H h)) @ '', Total count  = ''
        @ pad_left 15 (show_u64 (hi_len H h)) @ '']'']"

definition hgrm_lines :: "'h hist_ops \<Rightarrow> 'h \<Rightarrow> string list" where
  "hgrm_lines H h = [hgrm_header, []] @ map hgrm_row (hi_steps H 5 h) @ [] # hgrm_footer H h"

text \<open>\<open>writeln!\<close> of every line in turn; the first failure ends the export.\<close>

fun write_lines :: "'f files \<Rightarrow> string list \<Rightarrow> 'f \<Rightarrow> string + 'f" where
  "write_lines fl [] f = Inr f"
| "write_lines fl (l # ls) f =
     res_bind (fl_write_all fl f (map (\<lambda>c. of_nat (of_char c)) (l @ ''\<newline>''))) (write_lines fl ls)"

definition export_hgrm :: "'h hist_ops \<Rightarrow> 'f files \<Rightarrow> 'h \<Rightarrow> string \<Rightarrow> string + 'f" where
  "export_hgrm H fl h path =
     res_bind (fl_create fl path) (\<lambda>f. res_bind (write_lines fl (hgrm_lines H h) f) (fl_flush fl))"

subsection \<open>Reading text files\<close>

text \<open>\<open>str::lines\<close>: a carriage return is dropped only before a line feed.\<close>

definition strip_cr :: "nat list \<Rightarrow> nat list" where
  "strip_cr l = (if l \<noteq> [] \<and> last l = 13 then butlast l else l)"

definition str_lines :: "nat list \<Rightarrow> nat list list" where
  "str_lines cs =
     (let ls = split_on (\<lambda>c. c = 10) cs
      in map strip_cr (butlast ls) @ (if last ls = [] then [] else [last ls]))"

definition split_whitespace :: "nat list \<Rightarrow> nat list list" where
  "split_whitespace cs = filter (\<lambda>w. w \<noteq> []) (split_on is_whitespace cs)"

definition hgrm_point :: "nat list \<Rightarrow> (f64 \<times> f64) option" where
  "hgrm_point line =
     (let t = trim line; cols = split_whitespace t
      in if t = [] \<or> hd t = of_char (CHR ''#'') \<or> length cols < 4 then None
         else case (parse_f64 (cols ! 0), parse_f64 (cols ! 3)) of
                (Some v, Some x) \<Rightarrow>
                  if is_finite x \<and> f64_le f64_one x then Some (x, f64_max v f64_one) else None
              | _ \<Rightarrow> None)"

definition parse_hgrm :: "nat list option \<Rightarrow> (f64 \<times> f64) list" where
  "parse_hgrm file = (case file of None \<Rightarrow> [] | Some cs \<Rightarrow> List.map_filter hgrm_point (str_lines cs))"

subsection \<open>What the reader makes of the export\<close>

text \<open>Printable text: no character of a line is white space but the blank.\<close>

definition printable :: "nat list \<Rightarrow> bool" where
  "printable cs \<longleftrightarrow> list_all (\<lambda>c. 32 \<le> c \<and> c < 127) cs"

definition solid :: "nat list \<Rightarrow> bool" where
  "solid cs \<longleftrightarrow> cs \<noteq> [] \<and> list_all (\<lambda>c. 32 < c \<and> c < 127) cs"

lemma printable_simps [simp]:
  "printable []" "printable (c # cs) \<longleftrightarrow> 32 \<le> c \<and> c < 127 \<and> printable cs"
  "printable (xs @ ys) \<longleftrightarrow> printable xs \<and> printable ys" "printable (replicate k 32)"
  by (auto simp: printable_def list_all_iff)

lemma solid_printable: "solid cs \<Longrightarrow> printable cs"
  by (auto simp: solid_def printable_def list_all_iff)

lemma dec_digits_solid: "cs \<noteq> [] \<Longrightarrow> list_all dec_digit cs \<Longrightarrow> solid cs"
  by (auto simp: solid_def dec_digit_def list_all_iff)

lemma solid_append: "solid xs \<Longrightarrow> solid ys \<or> ys = [] \<Longrightarrow> solid (xs @ ys)"
  by (auto simp: solid_def)

lemma solid_show_nat: "solid (codes (show_nat n))"
  using show_radix_dec(1) show_radix_nonempty by (simp add: codes_show_nat dec_digits_solid)

lemma solid_show_fixed: "solid (codes (show_fixed p x))"
proof -
  have pad: "solid (codes (zero_padded w n))" for w n
    using solid_show_nat [of n] by (auto simp: zero_padded_def codes_def solid_def list_all_iff)
  have num: "solid (codes (show_nat a @ ''.'' @ zero_padded w n))" for a w n
    using solid_show_nat [of a] pad [of w n] by (simp add: codes_append solid_append) (simp add: codes_def solid_def)
  have sign: "solid (codes s) \<Longrightarrow> solid (codes ((if b then ''-'' else []) @ s))" for s b
    by (simp add: codes_def solid_def)
  have "solid (codes (if \<not> is_finite x then ''inf''
      else let n = nat (half_even (mag_rat (f64_mag x) * 10 ^ p))
        in if p = 0 then show_nat n else show_nat (n div 10 ^ p) @ ''.'' @ zero_padded p (n mod 10 ^ p)))"
    using num solid_show_nat by (simp add: Let_def) (simp add: codes_def solid_def)
  then show ?thesis using sign by (simp add: show_fixed_def) (simp add: codes_def solid_def)
qed

lemma codes_pad_left: "codes (pad_left w s) = replicate (w - length s) 32 @ codes s"
  by (simp add: pad_left_def codes_def)

subsubsection \<open>Lines and words\<close>

lemma split_on_piece: "list_all (\<lambda>c. \<not> P c) w \<Longrightarrow> P c \<Longrightarrow> split_on P (w @ c # cs) = w # split_on P cs"
  using split_on_word [of P w "c # cs"] by (simp add: split_on_nonempty split: list.split)

lemma str_lines_join:
  assumes "list_all printable ls"
  shows "str_lines (concat (map (\<lambda>l. l @ [10]) ls)) = ls"
proof -
  have "split_on (\<lambda>c. c = 10) (concat (map (\<lambda>l. l @ [10]) ls)) = ls @ [[]]"
    using assms
  proof (induction ls)
    case (Cons l ls)
    then have "list_all (\<lambda>c. c \<noteq> 10) l" by (auto simp: printable_def list_all_iff)
    then show ?case using split_on_piece [of "\<lambda>c. c = 10" l 10] Cons by simp
  qed simp
  moreover have "strip_cr l = l" if "l \<in> set ls" for l
  proof -
    have "l \<noteq> [] \<longrightarrow> last l \<noteq> 13"
      using assms that last_in_set [of l] by (fastforce simp: printable_def list_all_iff)
    then show ?thesis unfolding strip_cr_def by metis
  qed
  ultimately show ?thesis by (simp add: str_lines_def map_idI)
qed

lemma not_whitespace: "32 < c \<Longrightarrow> c < 127 \<Longrightarrow> \<not> is_whitespace c"
  by (simp add: is_whitespace_def)

lemma solid_not_whitespace: "solid w \<Longrightarrow> list_all (\<lambda>c. \<not> is_whitespace c) w"
  using not_whitespace by (auto simp: solid_def list_all_iff)

text \<open>Words separated by at least one blank, with blanks before the first.\<close>

fun spaced :: "(nat \<times> nat list) list \<Rightarrow> nat list" where
  "spaced [] = []"
| "spaced ((k, w) # ws) = replicate k 32 @ w @ (if ws = [] then [] else 32 # spaced ws)"

lemma split_whitespace_spaced: "list_all (\<lambda>(k, w). solid w) ws \<Longrightarrow> split_whitespace (spaced ws) = map snd ws"
proof (induction ws)
  case (Cons kw ws)
  obtain k w where kw: "kw = (k, w)" by fastforce
  have w: "solid w" "list_all (\<lambda>c. \<not> is_whitespace c) w" using Cons.prems kw solid_not_whitespace by auto
  have blank: "is_whitespace 32" by (simp add: is_whitespace_def)
  have "split_whitespace (replicate k 32 @ cs) = split_whitespace cs" for cs
    using split_on_seps [of is_whitespace "replicate k 32" cs] blank by (simp add: split_whitespace_def list_all_iff)
  moreover have "split_whitespace w = [w]"
    using split_on_word [OF w(2), of "[]"] w(1) by (simp add: split_whitespace_def solid_def)
  moreover have "split_whitespace (w @ 32 # cs) = w # split_whitespace cs" for cs
    using split_on_piece [OF w(2) blank, of cs] w(1) by (simp add: split_whitespace_def solid_def)
  ultimately show ?case using Cons by (simp add: kw)
qed (simp add: split_whitespace_def)

lemma last_spaced: "ws \<noteq> [] \<Longrightarrow> list_all (\<lambda>(k, w). solid w) ws \<Longrightarrow> spaced ws \<noteq> [] \<and> \<not> is_whitespace (last (spaced ws))"
proof (induction ws)
  case (Cons kw ws)
  obtain k w where kw: "kw = (k, w)" by fastforce
  have "w \<noteq> []" "\<not> is_whitespace (last w)"
    using Cons.prems kw solid_not_whitespace [of w] last_in_set [of w] by (auto simp: solid_def list_all_iff)
  then show ?case using Cons by (auto simp: kw)
qed simp

lemma trim_spaced:
  assumes "list_all (\<lambda>(k, w). solid w) ((k, w) # ws)"
  shows "trim (spaced ((k, w) # ws)) = spaced ((0, w) # ws)"
proof -
  have "w \<noteq> []" "\<not> is_whitespace (hd w)"
    using assms solid_not_whitespace [of w] hd_in_set [of w] by (auto simp: solid_def list_all_iff)
  then have "dropWhile is_whitespace (spaced ((k, w) # ws)) = spaced ((0, w) # ws)"
    by (cases w) (simp_all add: dropWhile_append3 is_whitespace_def [of 32])
  moreover have "dropWhile is_whitespace (rev (spaced ((0, w) # ws))) = rev (spaced ((0, w) # ws))"
    using last_spaced [of "(0, w) # ws"] assms
    by (cases "rev (spaced ((0, w) # ws))") (auto simp: last_rev [symmetric] simp del: last_rev spaced.simps)
  ultimately show ?thesis by (simp add: trim_def del: spaced.simps)
qed

subsubsection \<open>The tail column\<close>

text \<open>What printing with \<open>p\<close> decimals and reading back makes of a double.\<close>

definition reread :: "nat \<Rightarrow> f64 \<Rightarrow> f64" where
  "reread p x =
     (if is_finite x
      then F64 (f64_neg x) (round_mag (of_int (half_even (mag_rat (f64_mag x) * 10 ^ p)) / 10 ^ p))
      else x)"

lemma f64_one_parts: "f64_one = F64 False (1023 * 2 ^ 52)"
proof -
  have "mag_rat (nat (0 + 1022) * 2 ^ 52 + 2 ^ 52) = of_nat (2 ^ 52) * 2 powi (0 - 52)"
    by (rule mag_rat_parts) simp_all
  then have "mag_rat (1023 * 2 ^ 52) = 1" by (simp add: power_int_minus)
  then have "round_mag 1 = 1023 * 2 ^ 52" using round_mag_rat [of "1023 * 2 ^ 52"] by (simp add: INF_MAG_def)
  then show ?thesis by (simp add: f64_one_def f64_lit_def f64_round_def)
qed

lemma mag_rat_one: "mag_rat (1023 * 2 ^ 52) = 1" "round_mag 1 = 1023 * 2 ^ 52"
proof -
  show "round_mag 1 = 1023 * 2 ^ 52" using f64_one_parts by (simp add: f64_one_def f64_lit_def f64_round_def)
  then show "mag_rat (1023 * 2 ^ 52) = 1" using round_mag_nat [of 1] by simp
qed

text \<open>A double below one is below it by at least \<open>2 ^ -53\<close>.\<close>

lemma below_one:
  assumes "m < 1023 * 2 ^ 52"
  shows "mag_rat m \<le> 1 - 1 / 2 ^ 53"
proof -
  have "mag_rat (nat (- 1 + 1022) * 2 ^ 52 + (2 ^ 53 - 1)) = of_nat (2 ^ 53 - 1) * 2 powi (- 1 - 52)"
    by (rule mag_rat_parts) simp_all
  then have "mag_rat (1023 * 2 ^ 52 - 1) = 1 - 1 / 2 ^ 53" by (simp add: power_int_minus)
  moreover have "m \<le> 1023 * 2 ^ 52 - 1" using assms by simp
  then have "mag_rat m \<le> mag_rat (1023 * 2 ^ 52 - 1)" using mag_rat_less_iff [of "1023 * 2 ^ 52 - 1" m] by linarith
  ultimately show ?thesis by simp
qed

lemma round_mag_pow53:
  "round_mag (2 ^ 53) < INF_MAG" "mag_rat (round_mag (2 ^ 53)) = 2 ^ 53"
  "mag_rat (round_mag (1 / 2 ^ 53)) = 1 / 2 ^ 53" "round_mag (1 / 2 ^ 53) < INF_MAG"
proof -
  have "mag_rat (nat (53 + 1022) * 2 ^ 52 + 2 ^ 52) = of_nat (2 ^ 52) * 2 powi (53 - 52)"
    by (rule mag_rat_parts) simp_all
  then have a: "mag_rat (1076 * 2 ^ 52) = 2 ^ 53" by simp
  then have "round_mag (2 ^ 53) = 1076 * 2 ^ 52" using round_mag_rat [of "1076 * 2 ^ 52"] by (simp add: INF_MAG_def)
  then show "round_mag (2 ^ 53) < INF_MAG" "mag_rat (round_mag (2 ^ 53)) = 2 ^ 53"
    using a by (simp_all add: INF_MAG_def)
  have "mag_rat (nat (- 53 + 1022) * 2 ^ 52 + 2 ^ 52) = of_nat (2 ^ 52) * 2 powi (- 53 - 52)"
    by (rule mag_rat_parts) simp_all
  then have b: "mag_rat (970 * 2 ^ 52) = 1 / 2 ^ 53" by (simp add: power_int_minus)
  then have "round_mag (1 / 2 ^ 53) = 970 * 2 ^ 52"
    using round_mag_rat [of "970 * 2 ^ 52"] unfolding b by (simp add: INF_MAG_def)
  then show "mag_rat (round_mag (1 / 2 ^ 53)) = 1 / 2 ^ 53" "round_mag (1 / 2 ^ 53) < INF_MAG"
    using b by (simp_all add: INF_MAG_def)
qed

text \<open>A quantile below one gives a finite tail of at least one, and so it is read back.\<close>

lemma tail_inverse_range:
  assumes "f64_mag q < 1023 * 2 ^ 52" and "\<not> f64_neg q"
  obtains k where "tail_inverse q = F64 False k" "1023 * 2 ^ 52 \<le> k" "k \<le> round_mag (2 ^ 53)"
proof -
  define v where "v = mag_rat (f64_mag q)"
  have v: "0 \<le> v" "v \<le> 1 - 1 / 2 ^ 53"
    using mag_rat_nonneg below_one [OF assms(1)] by (simp_all add: v_def)
  define d where "d = round_mag (1 - v)"
  have fin: "is_finite q" "is_finite f64_one" "\<not> is_nan q" "\<not> is_nan f64_one"
    using assms(1) by (simp_all add: is_finite_def is_nan_def INF_MAG_def f64_one_parts)
  have val: "f64_rat q = v" "f64_rat f64_one = 1" using assms(2) mag_rat_one by (simp_all add: f64_rat_def v_def f64_one_parts)
  have "1 - v \<noteq> 0 \<and> 0 \<le> 1 - v" using v by auto
  then have sub: "f64_sub f64_one q = F64 False d"
    using fin val by (simp add: f64_sub_def f64_round_def d_def)
  have "round_mag (1 / 2 ^ 53) \<le> d" "d \<le> 1023 * 2 ^ 52"
    unfolding d_def mag_rat_one(2) [symmetric] using v by (intro round_mag_mono; simp)+
  then have d: "1 / 2 ^ 53 \<le> mag_rat d" "mag_rat d \<le> 1" "d < INF_MAG"
    using mag_rat_less_iff [of d "round_mag (1 / 2 ^ 53)"] mag_rat_less_iff [of "1023 * 2 ^ 52" d]
      round_mag_pow53(3) mag_rat_one(1) by (auto simp: INF_MAG_def not_less)
  have "d \<noteq> 0" using d(1) by (intro notI) simp
  define k where "k = round_mag (1 / mag_rat d)"
  have "f64_div f64_one (F64 False d) = F64 False k"
    using d \<open>d \<noteq> 0\<close> fin val by (simp add: f64_div_def f64_round_def f64_rat_def k_def is_nan_def is_finite_def f64_one_parts)
  moreover have "f64_less q f64_one" using assms fin by (simp add: f64_less_def f64_ord_def f64_one_parts)
  ultimately have "tail_inverse q = F64 False k" by (simp add: tail_inverse_def sub)
  moreover have "1023 * 2 ^ 52 \<le> k" "k \<le> round_mag (2 ^ 53)"
    unfolding k_def mag_rat_one(2) [symmetric] using d by (intro round_mag_mono; simp add: field_simps)+
  ultimately show ?thesis by (rule that)
qed

lemma reread_tail:
  assumes "f64_mag q < 1023 * 2 ^ 52" and "\<not> f64_neg q"
  shows "is_finite (tail_inverse q)" "is_finite (reread 2 (tail_inverse q))"
    "f64_le f64_one (reread 2 (tail_inverse q))"
proof -
  obtain k where k: "tail_inverse q = F64 False k" "1023 * 2 ^ 52 \<le> k" "k \<le> round_mag (2 ^ 53)"
    using tail_inverse_range [OF assms] .
  then show fin: "is_finite (tail_inverse q)" using round_mag_pow53(1) by (simp add: is_finite_def)
  have "1 \<le> mag_rat k" "mag_rat k \<le> 2 ^ 53"
    using k mag_rat_less_iff [of k "1023 * 2 ^ 52"] mag_rat_less_iff [of "round_mag (2 ^ 53)" k]
      round_mag_pow53(2) mag_rat_one(1) by (auto simp: not_less)
  then have h: "100 \<le> half_even (mag_rat k * 100)" "half_even (mag_rat k * 100) \<le> 2 ^ 53 * 100"
    using half_even_bounds [of 100 "mag_rat k * 100" "2 ^ 53 * 100"] by simp_all
  define r where "r = round_mag (of_int (half_even (mag_rat k * 100)) / 100)"
  have "(of_int 100 :: rat) \<le> of_int (half_even (mag_rat k * 100))"
    "of_int (half_even (mag_rat k * 100)) \<le> (of_int (2 ^ 53 * 100) :: rat)" using h by (simp_all only: of_int_le_iff)
  then have "1023 * 2 ^ 52 \<le> r" "r \<le> round_mag (2 ^ 53)"
    unfolding r_def mag_rat_one(2) [symmetric] by (intro round_mag_mono; simp)+
  moreover have "reread 2 (tail_inverse q) = F64 False r" using fin by (simp add: reread_def k(1) r_def)
  ultimately show "is_finite (reread 2 (tail_inverse q))" "f64_le f64_one (reread 2 (tail_inverse q))"
    using round_mag_pow53(1) by (simp_all add: is_finite_def f64_le_def is_nan_def f64_ord_def f64_one_parts)
qed

subsubsection \<open>The round trip\<close>

lemma f64_max_one: "f64_max (f64_of_nat n) f64_one = f64_of_nat (max 1 n)"
proof (cases "n = 0")
  case True
  then show ?thesis
    by (simp add: f64_max_def f64_of_nat_def f64_lit_def f64_round_def is_nan_def f64_ord_def f64_one_parts
        mag_rat_one(2) INF_MAG_def)
next
  case False
  then have "(1 :: rat) \<le> of_nat n" by simp
  then have "1023 * 2 ^ 52 \<le> round_mag (of_nat n)" unfolding mag_rat_one(2) [symmetric] by (intro round_mag_mono) simp_all
  moreover have "\<not> is_nan (f64_of_nat n)" "\<not> is_nan f64_one" by (simp_all add: f64_of_nat_def f64_one_def f64_lit_not_nan)
  ultimately show ?thesis
    using False by (simp add: f64_max_def f64_ord_def f64_one_parts f64_of_nat_def f64_lit_sel)
qed

lemma parse_reread: "is_finite x \<Longrightarrow> parse_f64 (codes (show_fixed p x)) = Some (reread p x)"
  by (simp add: parse_show_fixed reread_def)

definition quantile :: "f64 \<Rightarrow> bool" where
  "quantile q \<longleftrightarrow> \<not> f64_neg q \<and> f64_le q f64_one"

lemma quantile_less: "quantile q \<Longrightarrow> f64_less q f64_one \<longleftrightarrow> f64_mag q < 1023 * 2 ^ 52"
  by (auto simp: quantile_def f64_less_def f64_le_def f64_ord_def f64_one_parts)

lemma codes_simps [simp]: "codes [] = []" "codes (c # s) = of_char c # codes s"
  by (simp_all add: codes_def)

lemma codes_row:
  "codes (hgrm_row (v, q, c)) = spaced
     [(15 - length (show_u64 v), codes (show_u64 v)), (15 - length (show_fixed 6 q), codes (show_fixed 6 q)),
      (12 - length (show_u64 c), codes (show_u64 c)),
      (15 - length (show_fixed 2 (tail_inverse q)), codes (show_fixed 2 (tail_inverse q)))]"
  by (simp add: hgrm_row_def codes_append codes_pad_left)

lemma hgrm_point_row:
  assumes "quantile q"
  shows "hgrm_point (codes (hgrm_row (v, q, c))) =
    (if f64_less q f64_one then Some (reread 2 (tail_inverse q), f64_of_nat (max 1 (unat v))) else None)"
proof -
  let ?w1 = "codes (show_u64 v)" and ?w2 = "codes (show_fixed 6 q)" and ?w3 = "codes (show_u64 c)"
    and ?w4 = "codes (show_fixed 2 (tail_inverse q))"
  define k where "k = [15 - length (show_u64 v), 15 - length (show_fixed 6 q), 12 - length (show_u64 c),
    15 - length (show_fixed 2 (tail_inverse q))]"
  let ?ws = "[(k ! 1, ?w2), (k ! 2, ?w3), (k ! 3, ?w4)]"
  have solid: "list_all (\<lambda>(k, w). solid w) ((n, ?w1) # ?ws)" for n
    using solid_show_nat solid_show_fixed by (simp add: show_u64_def)
  have "trim (codes (hgrm_row (v, q, c))) = spaced ((0, ?w1) # ?ws)"
    unfolding codes_row using trim_spaced [OF solid, of "k ! 0"] by (simp add: k_def)
  moreover have "split_whitespace (spaced ((0, ?w1) # ?ws)) = [?w1, ?w2, ?w3, ?w4]"
    using split_whitespace_spaced [OF solid [of 0]] by simp
  moreover have "?w1 = show_radix 10 (unat v)" by (simp add: show_u64_def codes_show_nat)
  moreover have "hd (show_radix 10 n @ cs) \<noteq> 35" for n cs
    using show_radix_nonempty [of 10 n] show_radix_dec(1) [of n] by (cases "show_radix 10 n") (auto simp: dec_digit_def)
  ultimately have point: "hgrm_point (codes (hgrm_row (v, q, c))) =
    (case parse_f64 ?w4 of None \<Rightarrow> None
     | Some x \<Rightarrow> if is_finite x \<and> f64_le f64_one x then Some (x, f64_of_nat (max 1 (unat v))) else None)"
    using show_radix_nonempty [of 10] parse_f64_nat [of "unat v"]
    by (simp add: hgrm_point_def f64_max_one split: option.split)
  show ?thesis
  proof (cases "f64_less q f64_one")
    case True
    then have "f64_mag q < 1023 * 2 ^ 52" "\<not> f64_neg q" using assms quantile_less by (auto simp: quantile_def)
    from reread_tail [OF this] show ?thesis using True point parse_reread by simp
  next
    case False
    then have "tail_inverse q = F64 False INF_MAG" by (simp add: tail_inverse_def INFINITY_def)
    then show ?thesis using False point parse_show_inf by (simp add: is_finite_def)
  qed
qed

lemma hgrm_point_hash: "hgrm_point (codes (CHR ''#'' # s)) = None"
proof -
  have "\<not> is_whitespace 35" by (simp add: is_whitespace_def)
  then have "\<exists>r. trim (35 # cs) = 35 # r" for cs
    by (simp add: trim_def dropWhile_append) (metis append_Cons append_Nil rev.simps(2) rev_append rev_rev_ident)
  then obtain r where "trim (codes (CHR ''#'' # s)) = 35 # r" by force
  then show ?thesis by (simp add: hgrm_point_def)
qed

lemma codes_header:
  "codes hgrm_header = spaced [(6, codes ''Value(ns)''), (5, codes ''Percentile''), (2, codes ''TotalCount''),
     (0, codes ''1/(1-Percentile)'')]"
  by (simp add: hgrm_header_def codes_append codes_pad_left)

lemma hgrm_point_header: "hgrm_point (codes hgrm_header) = None" "hgrm_point [] = None"
proof -
  let ?ws = "[(5, codes ''Percentile''), (2, codes ''TotalCount''), (0, codes ''1/(1-Percentile)'')]"
  have solid: "list_all (\<lambda>(k, w). solid w) ((n, codes ''Value(ns)'') # ?ws)" for n :: nat
    by (simp add: solid_def)
  have "trim (codes hgrm_header) = spaced ((0, codes ''Value(ns)'') # ?ws)"
    unfolding codes_header by (rule trim_spaced [OF solid])
  moreover have "split_whitespace (spaced ((0, codes ''Value(ns)'') # ?ws)) = codes ''Value(ns)'' # map snd ?ws"
    using split_whitespace_spaced [OF solid [of 0]] by simp
  moreover have "parse_f64 (codes ''Value(ns)'') = None"
    by (simp add: parse_f64_def parse_decimal_def dec_digit_def ascii_lower_def)
  ultimately show "hgrm_point (codes hgrm_header) = None"
    by (simp add: hgrm_point_def Let_def del: codes_simps)
qed (simp add: hgrm_point_def)

lemma printable_lines: "list_all printable (map codes (hgrm_lines H h))"
proof -
  have row: "printable (codes (hgrm_row s))" for s
    using solid_show_nat solid_show_fixed
    by (cases s) (simp add: codes_row solid_printable show_u64_def)
  have "printable (codes hgrm_header)" by (simp add: codes_header)
  moreover have "list_all printable (map codes (hgrm_footer H h))"
    using solid_show_nat solid_show_fixed
    by (simp add: hgrm_footer_def codes_append codes_pad_left show_u64_def solid_printable)
  ultimately show ?thesis using row by (auto simp: hgrm_lines_def list_all_iff)
qed

lemma write_lines_vec:
  "write_lines vec_files ls bs = Inr (bs @ concat (map (\<lambda>l. map (\<lambda>c. of_nat (of_char c)) (l @ ''\<newline>'')) ls))"
  by (induction ls arbitrary: bs) (simp_all add: vec_files_def)

text \<open>
  Property C19: a latency distribution survives its export. Whatever the histogram, if its quantiles lie between zero
  and one, the exported file is read back by the plots as exactly one point per quantile step below one, in order:
  the tail factor to two decimals and the value (at least one). The header, the summary lines and the final step
  at quantile one, whose factor is infinite, give no point.
\<close>
theorem hgrm_round_trip:
  assumes "\<forall>(v, q, c) \<in> set (hi_steps H 5 h). quantile q"
  shows "\<exists>bytes. export_hgrm H vec_files h path = Inr bytes
    \<and> parse_hgrm (utf8_decode (map unat bytes)) =
        map (\<lambda>(v, q, c). (reread 2 (tail_inverse q), f64_of_nat (max 1 (unat v))))
          (filter (\<lambda>(v, q, c). f64_less q f64_one) (hi_steps H 5 h))"
proof -
  let ?ls = "hgrm_lines H h"
  define cs where "cs = concat (map (\<lambda>l. l @ [10]) (map codes ?ls))"
  define bytes :: "u8 list" where "bytes = concat (map (\<lambda>l. map (\<lambda>c. of_nat (of_char c)) (l @ ''\<newline>'')) ?ls)"
  have "of_char c < (256 :: nat)" for c by (rule nat_of_char_less_256)
  then have "unat (of_nat (of_char c) :: u8) = of_char c" for c by (simp add: unat_of_nat)
  then have "map unat bytes = cs" by (simp add: bytes_def cs_def map_concat comp_def codes_def)
  moreover have "list_all (\<lambda>c. c < 128) cs"
    using printable_lines [of H h] by (auto simp: cs_def list_all_iff printable_def) fastforce+
  ultimately have read: "utf8_decode (map unat bytes) = Some cs" using utf8_ascii by simp
  have steps: "list_all (\<lambda>(v, q, c). quantile q) ss \<Longrightarrow>
      List.map_filter (\<lambda>s. hgrm_point (codes (hgrm_row s))) ss =
        map (\<lambda>(v, q, c). (reread 2 (tail_inverse q), f64_of_nat (max 1 (unat v))))
          (filter (\<lambda>(v, q, c). f64_less q f64_one) ss)" for ss
    by (induction ss) (auto simp: List.map_filter_def hgrm_point_row split: if_splits)
  have "parse_hgrm (Some cs) = List.map_filter hgrm_point (map codes ?ls)"
    using str_lines_join [OF printable_lines, of H h] by (simp add: parse_hgrm_def cs_def)
  also have "\<dots> = List.map_filter (\<lambda>s. hgrm_point (codes (hgrm_row s))) (hi_steps H 5 h)"
  proof -
    have "\<forall>l \<in> set (hgrm_footer H h). hgrm_point (codes l) = None"
      by (simp add: hgrm_footer_def hgrm_point_hash del: codes_simps)
    then have "List.map_filter hgrm_point (map codes (hgrm_footer H h)) = []"
      by (auto simp: List.map_filter_def filter_empty_conv)
    moreover have "List.map_filter hgrm_point (map codes (map hgrm_row ss)) =
        List.map_filter (\<lambda>s. hgrm_point (codes (hgrm_row s))) ss" for ss
      by (simp add: List.map_filter_def filter_map comp_def)
    ultimately show ?thesis
      using hgrm_point_header map_filter_append [of hgrm_point "[codes hgrm_header, []]"]
        map_filter_append [of hgrm_point "[[]]"]
      by (simp add: hgrm_lines_def map_filter_append List.map_filter_simps del: map_map)
  qed
  also have "\<dots> = map (\<lambda>(v, q, c). (reread 2 (tail_inverse q), f64_of_nat (max 1 (unat v))))
          (filter (\<lambda>(v, q, c). f64_less q f64_one) (hi_steps H 5 h))"
    using steps [of "hi_steps H 5 h"] assms by (simp add: list_all_iff Ball_def)
  finally have "parse_hgrm (utf8_decode (map unat bytes)) = \<dots>" unfolding read .
  moreover have "export_hgrm H vec_files h path = Inr bytes"
    by (simp add: export_hgrm_def write_lines_vec bytes_def) (simp add: vec_files_def)
  ultimately show ?thesis by blast
qed

text \<open>A histogram of the recorded values, for an example: two steps, the median and the maximum.\<close>

definition demo_hist :: "u64 list hist_ops" where
  "demo_hist =
     \<lparr>hi_new = (\<lambda>lo hi d. Some []), hi_record = (#), hi_quantile = (\<lambda>q h. 0), hi_mean = (\<lambda>h. NAN),
      hi_stdev = (\<lambda>h. NAN), hi_max = (\<lambda>h. foldr max h 0), hi_len = (\<lambda>h. of_nat (length h)),
      hi_add = (\<lambda>a b. Some (a @ b)),
      hi_steps = (\<lambda>n h. [(sort h ! (length h div 2), F64 False (1022 * 2 ^ 52), of_nat (length h div 2)),
        (foldr max h 0, f64_one, of_nat (length h))])\<rparr>"

theorem hgrm_round_trip_witness:
  "\<exists>bytes. export_hgrm demo_hist vec_files [40, 0, 7] ''a.hgrm'' = Inr bytes
    \<and> parse_hgrm (utf8_decode (map unat bytes)) =
        [(reread 2 (tail_inverse (F64 False (1022 * 2 ^ 52))), f64_of_nat 7)]"
proof -
  have h: "hi_steps demo_hist 5 [40, 0, 7] = [(7, F64 False (1022 * 2 ^ 52), 1), (40, f64_one, 3)]"
    by (simp add: demo_hist_def insort_key.simps word_less_alt)
  have q: "quantile (F64 False (1022 * 2 ^ 52))" "quantile f64_one" "f64_less (F64 False (1022 * 2 ^ 52)) f64_one"
    "\<not> f64_less f64_one f64_one"
    by (simp_all add: quantile_def f64_le_def f64_less_def is_nan_def f64_ord_def f64_one_parts INF_MAG_def)
  show ?thesis
    using hgrm_round_trip [of demo_hist "[40, 0, 7]" "''a.hgrm''"] q by (simp add: h)
qed

text \<open>
  A recorder never loses what it is given at the bottom of its range: a latency of zero is recorded as one
  nanosecond, every other value as it is.
\<close>
lemma lat_record_clamp: "lat_record H ns h = hi_record H (max 1 ns) h"
  by (auto simp: lat_record_def max_def word_le_nat_alt)

end
