(* ===== verification/Figures.thy ===== *)
theory Figures
  imports Latency
begin

section \<open>The figures (bench/src/plot.rs)\<close>

text \<open>
  What the plots compute before they draw: rows of a CSV, points of a series, the axes of a chart. A file is
  read by \<open>'f \<Rightarrow> text option\<close>: a function from paths to the code points of a file, \<open>None\<close> if it cannot be read
  (the run writes none of the files it reads). A \<open>drawing\<close> is what is handed to the plotting library, which is
  the parameter \<open>draw\<close> and may fail. A cell is only read behind a guard on the length of its row.
\<close>

type_synonym row = "nat list list"
type_synonym point = "f64 \<times> f64"
type_synonym rgb = "nat \<times> nat \<times> nat"
type_synonym file_reader = "string \<Rightarrow> nat list option"

record series =
  se_label :: string
  se_color :: rgb
  se_points :: "point list"

subsection \<open>Rows and points\<close>

definition load_rows :: "nat list option \<Rightarrow> row list" where
  "load_rows file =
     (case file of
        None \<Rightarrow> []
      | Some cs \<Rightarrow> map (split_on (\<lambda>c. c = 44)) (filter (\<lambda>l. trim l \<noteq> []) (drop 1 (str_lines cs))))"

definition cell_is :: "row \<Rightarrow> nat \<Rightarrow> string \<Rightarrow> bool" where
  "cell_is r i s \<longleftrightarrow> r ! i = codes s"

definition row_point :: "nat \<Rightarrow> nat \<Rightarrow> row \<Rightarrow> point option" where
  "row_point x y r =
     Option.bind (parse_f64 (r ! x)) (\<lambda>a. map_option (\<lambda>b. (a, b)) (parse_f64 (r ! y)))"

text \<open>\<open>sort_by\<close> on \<open>total_cmp\<close> of the abscissas, a stable sort.\<close>

definition sort_points :: "point list \<Rightarrow> point list" where
  "sort_points = sort_key (\<lambda>p. total_key (fst p))"

text \<open>The sorted points of columns \<open>x\<close> and \<open>y\<close> over the rows longer than \<open>n\<close> that satisfy \<open>key\<close>.\<close>

definition column_points :: "nat \<Rightarrow> (row \<Rightarrow> bool) \<Rightarrow> nat \<Rightarrow> nat \<Rightarrow> row list \<Rightarrow> point list" where
  "column_points n key x y rows =
     sort_points (List.map_filter (row_point x y) (filter (\<lambda>r. n < length r \<and> key r) rows))"

definition DEPTHS :: "nat list" where
  "DEPTHS = [1, 2, 4, 8, 16, 32, 64, 128, 256, 512, 1024, 2048]"

text \<open>One point per depth of the ladder: the first row of that depth, if its cell parses.\<close>

definition depth_points :: "nat \<Rightarrow> (row \<Rightarrow> bool) \<Rightarrow> nat \<Rightarrow> nat \<Rightarrow> row list \<Rightarrow> point list" where
  "depth_points n key dcol y rows =
     List.map_filter (\<lambda>d.
       Option.bind (List.find (\<lambda>r. n < length r \<and> key r \<and> cell_is r dcol (show_nat d)) rows) (\<lambda>r.
         map_option (\<lambda>b. (f64_of_nat d, b)) (parse_f64 (r ! y)))) DEPTHS"

subsection \<open>Charts\<close>

definition BLACK :: rgb where "BLACK = (0, 0, 0)"
definition GRAY :: rgb where "GRAY = (120, 120, 120)"

definition impl_color :: "string \<Rightarrow> rgb" where
  "impl_color name =
     (case map_of [(''btree'', (200, 30, 30)), (''sorted'', (30, 80, 200)), (''rev'', (30, 150, 60)),
         (''flat'', (220, 130, 0))] name of
        None \<Rightarrow> BLACK | Some c \<Rightarrow> c)"

definition k_color :: "nat \<Rightarrow> rgb" where
  "k_color k =
     (case map_of [(1, (200, 30, 30)), (2, (30, 80, 200)), (4, (30, 150, 60)), (8, (220, 130, 0))] k of
        None \<Rightarrow> BLACK | Some c \<Rightarrow> c)"

record chart =
  ch_out :: string
  ch_title :: string
  ch_source :: string
  ch_x_desc :: string
  ch_y_desc :: string
  ch_y_log :: bool
  ch_series :: "series list"

text \<open>What is drawn for a series: a labelled line with its stroke width, and filled circles with their radius.\<close>

datatype mark = Polyline string rgb nat "point list" | Dots rgb nat "point list"

definition draw_series :: "series list \<Rightarrow> mark list" where
  "draw_series ss =
     concat (map (\<lambda>s. if se_points s = [] then []
       else [Polyline (se_label s) (se_color s) 2 (se_points s), Dots (se_color s) 3 (se_points s)]) ss)"

record drawing =
  dr_out :: string
  dr_caption :: string
  dr_x :: "f64 \<times> f64"
  dr_y :: "f64 \<times> f64"
  dr_y_log :: bool
  dr_x_desc :: string
  dr_y_desc :: string
  dr_marks :: "mark list"

definition F64_MAX :: f64 where "F64_MAX = F64 False (INF_MAG - 1)"
definition F64_MIN :: f64 where "F64_MIN = F64 True (INF_MAG - 1)"

record extent =
  ex_xmin :: f64
  ex_xmax :: f64
  ex_ymin :: f64
  ex_ymax :: f64

definition extent_start :: extent where
  "extent_start = \<lparr>ex_xmin = F64_MAX, ex_xmax = F64_MIN, ex_ymin = F64_MAX, ex_ymax = F64_MIN\<rparr>"

definition widen :: "point \<Rightarrow> extent \<Rightarrow> extent" where
  "widen p e =
     \<lparr>ex_xmin = f64_min (ex_xmin e) (fst p), ex_xmax = f64_max (ex_xmax e) (fst p),
      ex_ymin = f64_min (ex_ymin e) (snd p), ex_ymax = f64_max (ex_ymax e) (snd p)\<rparr>"

text \<open>\<open>None\<close> for a chart without a point, which is skipped.\<close>

definition render :: "chart \<Rightarrow> drawing option" where
  "render c =
     (if list_all (\<lambda>s. se_points s = []) (ch_series c) then None
      else
        let e = fold widen (concat (map se_points (ch_series c))) extent_start;
            xr = (f64_max (f64_mul (ex_xmin e) (f64_lit (8 / 10))) (f64_lit (1 / 2)), f64_mul (ex_xmax e) (f64_lit (5 / 4)));
            yr = (if ch_y_log c
                  then (f64_max (f64_mul (ex_ymin e) (f64_lit (7 / 10))) (f64_lit (1 / 2)), f64_mul (ex_ymax e) (f64_lit (3 / 2)))
                  else (f64_lit 0, f64_mul (ex_ymax e) (f64_lit (115 / 100))))
        in Some \<lparr>dr_out = ch_out c, dr_caption = ch_title c @ ''   (source: '' @ ch_source c @ '')'',
                 dr_x = xr, dr_y = yr, dr_y_log = ch_y_log c, dr_x_desc = ch_x_desc c, dr_y_desc = ch_y_desc c,
                 dr_marks = draw_series (ch_series c)\<rparr>)"

definition EM_DASH :: string where "EM_DASH = [CHR 0xE2, CHR 0x80, CHR 0x94]"

text \<open>\<open>Path::join\<close> with a relative name.\<close>

definition path_join :: "string \<Rightarrow> string \<Rightarrow> string" where
  "path_join dir name = (if dir \<noteq> [] \<and> last dir \<noteq> CHR ''/'' then dir @ ''/'' @ name else dir @ name)"

subsection \<open>One figure each\<close>

text \<open>A series per implementation.\<close>

definition impl_series :: "(string \<Rightarrow> point list) \<Rightarrow> series list" where
  "impl_series pts = map (\<lambda>name. \<lparr>se_label = name, se_color = impl_color name, se_points = pts name\<rparr>) IMPLS"

definition crossover_figure :: "row list \<Rightarrow> string \<Rightarrow> string \<Rightarrow> nat \<Rightarrow> string \<Rightarrow> chart" where
  "crossover_figure rows out_dir loc pct_col pct =
     \<lparr>ch_out = path_join out_dir (''crossover_update_'' @ pct @ ''_'' @ loc @ ''.svg''),
      ch_title = ''apply update '' @ pct @ '' vs depth '' @ EM_DASH @ '' '' @ loc, ch_source = ''service_sweep.csv'',
      ch_x_desc = ''book depth (levels/side, log)'', ch_y_desc = pct @ '' latency (ns, log)'', ch_y_log = True,
      ch_series = impl_series (\<lambda>name.
        depth_points pct_col (\<lambda>r. cell_is r 0 name \<and> cell_is r 1 loc \<and> cell_is r 3 ''update'') 2 pct_col rows)\<rparr>"

definition read_tax_figure :: "file_reader \<Rightarrow> string \<Rightarrow> string \<Rightarrow> chart" where
  "read_tax_figure read out_dir results =
     (let rows = load_rows (read (path_join results ''read_path.csv''))
      in \<lparr>ch_out = path_join out_dir ''read_best_bid_vs_depth.svg'', ch_title = ''best_bid p50 vs depth (read tax)'',
          ch_source = ''read_path.csv'', ch_x_desc = ''book depth (levels/side, log)'',
          ch_y_desc = ''p50 latency (ns)'', ch_y_log = False,
          ch_series = impl_series (\<lambda>name.
            depth_points 6 (\<lambda>r. cell_is r 0 name \<and> cell_is r 2 ''best_bid'') 1 6 rows)\<rparr>)"

definition sustained_figure :: "string \<Rightarrow> row list \<Rightarrow> string \<Rightarrow> chart" where
  "sustained_figure out_dir rows profile =
     \<lparr>ch_out = path_join out_dir (''sustained_p99_vs_rate_'' @ profile @ ''.svg''),
      ch_title = ''CO-correct response p99 vs target rate '' @ EM_DASH @ '' '' @ profile, ch_source = ''sustained.csv'',
      ch_x_desc = ''target rate (events/s, log)'', ch_y_desc = ''response p99 (ns, log)'', ch_y_log = True,
      ch_series = impl_series (\<lambda>name.
        column_points 8 (\<lambda>r. cell_is r 0 name \<and> cell_is r 1 profile \<and> cell_is r 2 ''fixed'') 3 8 rows)\<rparr>"

definition interior_figure :: "file_reader \<Rightarrow> string \<Rightarrow> string \<Rightarrow> string \<Rightarrow> nat \<Rightarrow> chart" where
  "interior_figure read out_dir results loc depth =
     (let suffix = ''_'' @ loc @ ''_d'' @ show_nat depth
      in \<lparr>ch_out = path_join out_dir (''interior_update'' @ suffix @ ''.svg''),
          ch_title = ''update interior distribution at D*='' @ show_nat depth @ '' '' @ EM_DASH @ '' '' @ loc,
          ch_source = ''service_update_*'' @ suffix @ ''.hgrm'', ch_x_desc = ''percentile  1/(1-q)  (log)'',
          ch_y_desc = ''latency (ns, log)'', ch_y_log = True,
          ch_series = impl_series (\<lambda>name.
            parse_hgrm (read (path_join results (''service_update_'' @ name @ suffix @ ''.hgrm''))))\<rparr>)"

text \<open>A series per mode of the \<open>seqlock\<close> and \<open>ring\<close> benchmarks.\<close>

definition mode_series :: "(string \<Rightarrow> point list) \<Rightarrow> series list" where
  "mode_series pts =
     [\<lparr>se_label = ''full_tilt'', se_color = (200, 30, 30), se_points = pts ''full_tilt''\<rparr>,
      \<lparr>se_label = ''paced'', se_color = (30, 150, 60), se_points = pts ''paced''\<rparr>]"

definition ring_series_by_mode :: "row list \<Rightarrow> nat \<Rightarrow> series list" where
  "ring_series_by_mode rows col = mode_series (\<lambda>mode. column_points col (\<lambda>r. cell_is r 0 mode) 1 col rows)"

definition seqlock_series_by_mode :: "row list \<Rightarrow> nat \<Rightarrow> series list" where
  "seqlock_series_by_mode rows col = mode_series (\<lambda>mode. column_points col (\<lambda>r. cell_is r 1 mode) 0 col rows)"

definition seqlock_read_figure :: "string \<Rightarrow> row list \<Rightarrow> chart" where
  "seqlock_read_figure out_dir rows =
     \<lparr>ch_out = path_join out_dir ''seqlock_read_p99_vs_readers.svg'', ch_title = ''seqlock read p99 vs reader count'',
      ch_source = ''seqlock_read.csv'', ch_x_desc = ''reader threads K (log)'',
      ch_y_desc = ''read p99 latency (ns, log)'', ch_y_log = True, ch_series = seqlock_series_by_mode rows 5\<rparr>"

definition seqlock_write_figure :: "string \<Rightarrow> row list \<Rightarrow> chart" where
  "seqlock_write_figure out_dir rows =
     (let pts = (\<lambda>y. column_points 10 (\<lambda>r. cell_is r 1 ''full_tilt'') 0 y rows)
      in \<lparr>ch_out = path_join out_dir ''seqlock_write_vs_readers.svg'',
          ch_title = ''seqlock writer store latency vs reader count (full_tilt)'', ch_source = ''seqlock_read.csv'',
          ch_x_desc = ''reader threads K (log)'', ch_y_desc = ''store latency (ns)'', ch_y_log = False,
          ch_series = [\<lparr>se_label = ''store p50'', se_color = (30, 80, 200), se_points = pts 9\<rparr>,
                       \<lparr>se_label = ''store p99'', se_color = (200, 30, 30), se_points = pts 10\<rparr>]\<rparr>)"

definition ring_throughput_figure :: "string \<Rightarrow> row list \<Rightarrow> chart" where
  "ring_throughput_figure out_dir rows =
     \<lparr>ch_out = path_join out_dir ''ring_producer_throughput_vs_consumers.svg'',
      ch_title = ''ring producer push throughput vs consumer count (flat = no false sharing)'',
      ch_source = ''ring_bench.csv'', ch_x_desc = ''consumer threads K (log)'',
      ch_y_desc = ''producer throughput (Mev/s)'', ch_y_log = False, ch_series = ring_series_by_mode rows 10\<rparr>"

definition ring_latency_figure :: "string \<Rightarrow> row list \<Rightarrow> chart" where
  "ring_latency_figure out_dir rows =
     (let pts = (\<lambda>y. column_points 9 (\<lambda>r. cell_is r 0 ''full_tilt'') 1 y rows)
      in \<lparr>ch_out = path_join out_dir ''ring_latency_p99_vs_consumers.svg'',
          ch_title = ''ring push/recv p99 latency vs consumer count (full_tilt)'', ch_source = ''ring_bench.csv'',
          ch_x_desc = ''consumer threads K (log)'', ch_y_desc = ''p99 latency (ns, log)'', ch_y_log = True,
          ch_series = [\<lparr>se_label = ''push p99'', se_color = (200, 30, 30), se_points = pts 7\<rparr>,
                       \<lparr>se_label = ''recv p99'', se_color = (30, 80, 200), se_points = pts 9\<rparr>]\<rparr>)"

definition e2e_p99_vs_rate_figure :: "string \<Rightarrow> row list \<Rightarrow> chart" where
  "e2e_p99_vs_rate_figure out_dir rows =
     \<lparr>ch_out = path_join out_dir ''e2e_p99_vs_rate.svg'',
      ch_title = ''end-to-end p99 vs target rate (per K, synthetic fixed-rate)'', ch_source = ''e2e.csv'',
      ch_x_desc = ''target rate (events/s, log)'', ch_y_desc = ''end-to-end p99 (ns, log)'', ch_y_log = True,
      ch_series = map (\<lambda>k. \<lparr>se_label = ''K='' @ show_nat k, se_color = k_color k,
        se_points = column_points 8 (\<lambda>r. cell_is r 1 ''fixed'' \<and> cell_is r 2 (show_nat k)) 3 8 rows\<rparr>) [1, 2, 4, 8]\<rparr>"

text \<open>\<open>max_by_key\<close> keeps the last of several greatest rates.\<close>

fun max_by_rate :: "(nat \<times> f64) list \<Rightarrow> (nat \<times> f64) option" where
  "max_by_rate [] = None"
| "max_by_rate (x # xs) =
     (case max_by_rate xs of None \<Rightarrow> Some x | Some y \<Rightarrow> if fst x \<le> fst y then Some y else Some x)"

definition rate_and_mev :: "row \<Rightarrow> (nat \<times> f64) option" where
  "rate_and_mev r =
     (case parse_uint 10 (2 ^ 64 - 1) (r ! 3) of
        Inl _ \<Rightarrow> None | Inr rate \<Rightarrow> map_option (\<lambda>m. (rate, m)) (parse_f64 (r ! 11)))"

definition saturated_point :: "row list \<Rightarrow> nat \<Rightarrow> point option" where
  "saturated_point rows k =
     map_option (\<lambda>(rate, mev). (f64_of_nat k, mev))
       (max_by_rate (List.map_filter rate_and_mev
         (filter (\<lambda>r. 11 < length r \<and> cell_is r 1 ''fixed'' \<and> cell_is r 2 (show_nat k)) rows)))"

definition e2e_producer_throughput_figure :: "string \<Rightarrow> row list \<Rightarrow> chart" where
  "e2e_producer_throughput_figure out_dir rows =
     \<lparr>ch_out = path_join out_dir ''e2e_producer_throughput_vs_consumers.svg'',
      ch_title = ''producer throughput vs consumer count at saturation (true-sharing decline)'', ch_source = ''e2e.csv'',
      ch_x_desc = ''consumer threads K (log)'', ch_y_desc = ''producer throughput (Mev/s)'', ch_y_log = False,
      ch_series = [\<lparr>se_label = ''producer Mev/s'', se_color = (200, 30, 30),
        se_points = sort_points (List.map_filter (saturated_point rows) [1, 2, 4, 8])\<rparr>]\<rparr>"

definition branch_specs :: "(string \<times> string \<times> rgb) list" where
  "branch_specs =
     [(''branchy'', ''random'', (200, 30, 30)), (''branchy'', ''predictable'', (235, 140, 140)),
      (''branchless'', ''random'', (30, 80, 200)), (''branchless'', ''predictable'', (120, 165, 235))]"

definition branch_figure :: "file_reader \<Rightarrow> string \<Rightarrow> string \<Rightarrow> chart" where
  "branch_figure read out_dir results =
     (let rows = load_rows (read (path_join results ''branch_experiment.csv''))
      in \<lparr>ch_out = path_join out_dir ''branch_misprediction_2x2.svg'',
          ch_title = ''branch misprediction 2x2: p50 ns/lookup vs depth (branchy slow only on random)'',
          ch_source = ''branch_experiment.csv'', ch_x_desc = ''sorted array depth (levels, log)'',
          ch_y_desc = ''p50 latency (ns/lookup, log)'', ch_y_log = True,
          ch_series = map (\<lambda>(var, pat, color). \<lparr>se_label = var @ ''/'' @ pat, se_color = color,
            se_points = column_points 5 (\<lambda>r. cell_is r 0 var \<and> cell_is r 1 pat) 2 5 rows\<rparr>) branch_specs\<rparr>)"

subsection \<open>The cache figure\<close>

definition parse_cache_size :: "nat list \<Rightarrow> f64" where
  "parse_cache_size text =
     (let s = trim text; unit = (if s = [] then 0 else last s);
          (num, mult) = (if unit = 75 then (butlast s, 1024) else if unit = 77 then (butlast s, 1024 * 1024)
            else if unit = 71 then (butlast s, 1024 * 1024 * 1024) else (s, 1));
          x = (case parse_f64 (trim num) of None \<Rightarrow> f64_lit 0 | Some x \<Rightarrow> x)
      in f64_mul x (f64_lit mult))"

definition cache_path :: "nat \<Rightarrow> string \<Rightarrow> string" where
  "cache_path idx field = ''/sys/devices/system/cpu/cpu0/cache/index'' @ show_nat idx @ ''/'' @ field"

text \<open>The sizes of the three levels; the scan ends at the first index without a level.\<close>

fun scan_caches :: "file_reader \<Rightarrow> nat list \<Rightarrow> f64 \<times> f64 \<times> f64 \<Rightarrow> f64 \<times> f64 \<times> f64" where
  "scan_caches read [] sizes = sizes"
| "scan_caches read (idx # rest) sizes =
     (let field = (\<lambda>f. map_option trim (read (cache_path idx f)))
      in case field ''level'' of
           None \<Rightarrow> sizes
         | Some level \<Rightarrow>
             (let kind = (case field ''type'' of None \<Rightarrow> [] | Some t \<Rightarrow> t);
                  size = (case field ''size'' of None \<Rightarrow> f64_lit 0 | Some s \<Rightarrow> parse_cache_size s);
                  (l1d, l2, llc) = sizes
              in scan_caches read rest
                   (if level = codes ''1'' \<and> kind = codes ''Data'' then (size, l2, llc)
                    else if level = codes ''2'' then (l1d, size, llc)
                    else if level = codes ''3'' then (l1d, l2, size) else sizes)))"

definition cache_boundaries :: "file_reader \<Rightarrow> (string \<times> f64) list" where
  "cache_boundaries read =
     (let (l1d, l2, llc) = scan_caches read [0..<16] (f64_lit 0, f64_lit 0, f64_lit 0)
      in [(''L1d'', l1d), (''L2'', l2), (''LLC'', llc)])"

definition footprint_series :: "row list \<Rightarrow> series list" where
  "footprint_series rows = impl_series (\<lambda>name. column_points 6 (\<lambda>r. cell_is r 0 name) 2 6 rows)"

text \<open>A vertical line at each known cache size, up to above the highest point.\<close>

definition boundary_series :: "file_reader \<Rightarrow> f64 \<Rightarrow> series list" where
  "boundary_series read ymax =
     map (\<lambda>(label, size). \<lparr>se_label = label, se_color = GRAY,
         se_points = [(size, f64_lit (1 / 2)), (size, f64_mul ymax (f64_lit (12 / 10)))]\<rparr>)
       (filter (\<lambda>(label, size). f64_less (f64_lit 0) size) (cache_boundaries read))"

definition cache_figure :: "file_reader \<Rightarrow> string \<Rightarrow> string \<Rightarrow> chart option" where
  "cache_figure read out_dir results =
     (let ss = footprint_series (load_rows (read (path_join results ''cache_experiment.csv'')));
          ymax = fold (\<lambda>p m. f64_max m (snd p)) (concat (map se_points ss)) (f64_lit 1)
      in if list_all (\<lambda>s. se_points s = []) ss then None
         else Some \<lparr>ch_out = path_join out_dir ''cache_footprint_latency.svg'',
           ch_title = ''apply update p50 vs per-side footprint (vertical lines = L1d/L2/LLC)'',
           ch_source = ''cache_experiment.csv'', ch_x_desc = ''per-side footprint (bytes, log)'',
           ch_y_desc = ''update p50 latency (ns, log)'', ch_y_log = True, ch_series = ss @ boundary_series read ymax\<rparr>)"

subsection \<open>The run\<close>

fun parse_out :: "string \<Rightarrow> string list \<Rightarrow> string" where
  "parse_out out [] = out"
| "parse_out out [a] = out"
| "parse_out out (a # d # rest) = (if a = ''--out'' then parse_out d rest else parse_out out (d # rest))"

text \<open>Every chart in the order of the run.\<close>

definition charts :: "file_reader \<Rightarrow> string \<Rightarrow> chart list" where
  "charts read results =
     (let plots = path_join results ''plots''; rows = (\<lambda>name. load_rows (read (path_join results name)));
          service = rows ''service_sweep.csv''; sustained = rows ''sustained.csv''; seqlock = rows ''seqlock_read.csv'';
          ring = rows ''ring_bench.csv''; e2e = rows ''e2e.csv''
      in concat (map (\<lambda>loc. [crossover_figure service plots loc 7 ''p50'', crossover_figure service plots loc 9 ''p99''])
           [''concentrated'', ''uniform''])
         @ [interior_figure read plots results ''concentrated'' 256, interior_figure read plots results ''uniform'' 2,
            read_tax_figure read plots results]
         @ map (sustained_figure plots sustained) [''steady'', ''burst'', ''flashcrash'']
         @ [seqlock_read_figure plots seqlock, seqlock_write_figure plots seqlock, ring_throughput_figure plots ring,
            ring_latency_figure plots ring, e2e_p99_vs_rate_figure plots e2e, e2e_producer_throughput_figure plots e2e,
            branch_figure read plots results]
         @ (case cache_figure read plots results of None \<Rightarrow> [] | Some c \<Rightarrow> [c]))"

text \<open>
  Creating a directory, writing \<open>env.json\<close> and drawing change a world; only the first must succeed (a failure of
  the others is a warning).
\<close>

record 'w plotter =
  pl_create_dir_all :: "string \<Rightarrow> 'w \<Rightarrow> bool \<times> 'w"
  pl_write_env_json :: "string \<Rightarrow> 'w \<Rightarrow> 'w"
  pl_draw :: "drawing \<Rightarrow> 'w \<Rightarrow> 'w"

definition plot_run :: "'w plotter \<Rightarrow> file_reader \<Rightarrow> string \<Rightarrow> string list \<Rightarrow> 'w \<Rightarrow> unit res \<times> 'w" where
  "plot_run P read default_out args w =
     (let results = parse_out default_out args;
          (ok, w) = pl_create_dir_all P (path_join results ''plots'') w
      in if \<not> ok then (Inl UnwrapFailed, w)
         else (Inr (), fold (pl_draw P) (List.map_filter render (charts read results)) (pl_write_env_json P results w)))"

end
