(* ===== verification/Figure_Laws.thy ===== *)
theory Figure_Laws
  imports Figures
begin

section \<open>What the figures show\<close>

text \<open>
  The benchmarks write the files the figures read; \<open>csv_header\<close> has the header line each of them writes. A
  series is specified by column names: \<open>plotted\<close> is the set of points of the rows with the given cells. The
  second part shows that the axes of a chart contain its points.
\<close>

definition csv_header :: "string \<Rightarrow> string" where
  "csv_header file = (case map_of
     [(''service_sweep.csv'', ''impl,locality,depth,op,samples,clock_overhead_ns,mean_ns,p50_ns,p90_ns,p99_ns,p999_ns,max_ns''),
      (''read_path.csv'', ''impl,depth,op,samples,clock_overhead_ns,mean_ns,p50_ns,p99_ns,p999_ns,max_ns''),
      (''sustained.csv'', ''impl,corpus,schedule,target_rate_eps,achieved_rate_eps,samples,clock_overhead_ns,'' @
         ''resp_p50_ns,resp_p99_ns,resp_p999_ns,resp_max_ns,saturated''),
      (''seqlock_read.csv'', ''readers,writer_mode,samples,clock_overhead_ns,read_p50_ns,read_p99_ns,read_p999_ns,'' @
         ''read_max_ns,mean_retries_per_load,write_p50_ns,write_p99_ns''),
      (''ring_bench.csv'', ''mode,consumers,capacity,words,samples,clock_overhead_ns,push_p50_ns,push_p99_ns,'' @
         ''recv_p50_ns,recv_p99_ns,producer_mev_s,overrun_rate''),
      (''e2e.csv'', ''book,schedule,consumers,target_rate_eps,achieved_rate_eps,samples,clock_overhead_ns,'' @
         ''e2e_p50_ns,e2e_p99_ns,e2e_p999_ns,e2e_max_ns,producer_mev_s,overrun_rate,saturated''),
      (''branch_experiment.csv'', ''variant,key_pattern,depth,samples,clock_overhead_ns,p50_ns,p99_ns,mean_ns''),
      (''cache_experiment.csv'', ''impl,depth,footprint_bytes,cache_level_crossed,samples,clock_overhead_ns,p50_ns,p99_ns'')]
     file of None \<Rightarrow> [] | Some h \<Rightarrow> h)"

fun index_of :: "'a \<Rightarrow> 'a list \<Rightarrow> nat option" where
  "index_of x [] = None"
| "index_of x (y # ys) = (if x = y then Some 0 else map_option Suc (index_of x ys))"

definition column :: "string \<Rightarrow> string \<Rightarrow> nat option" where
  "column file name = index_of (codes name) (split_on (\<lambda>c. c = 44) (codes (csv_header file)))"

definition row_cell :: "string \<Rightarrow> row \<Rightarrow> string \<Rightarrow> nat list option" where
  "row_cell file r name =
     Option.bind (column file name) (\<lambda>i. if i < length r then Some (r ! i) else None)"

definition row_number :: "string \<Rightarrow> row \<Rightarrow> string \<Rightarrow> f64 option" where
  "row_number file r name = Option.bind (row_cell file r name) parse_f64"

definition plotted :: "string \<Rightarrow> (string \<times> string) list \<Rightarrow> string \<Rightarrow> string \<Rightarrow> row list \<Rightarrow> point set" where
  "plotted file keys xn yn rows =
     {(x, y). \<exists>r \<in> set rows. list_all (\<lambda>(n, v). row_cell file r n = Some (codes v)) keys
        \<and> row_number file r xn = Some x \<and> row_number file r yn = Some y}"

definition series_sets :: "series list \<Rightarrow> point set list" where
  "series_sets ss = map (\<lambda>s. set (se_points s)) ss"

definition left_to_right :: "series list \<Rightarrow> bool" where
  "left_to_right ss \<longleftrightarrow> list_all (\<lambda>s. sorted (map (\<lambda>p. total_key (fst p)) (se_points s))) ss"

lemma columns_sustained:
  "column ''sustained.csv'' ''impl'' = Some 0" "column ''sustained.csv'' ''corpus'' = Some 1"
  "column ''sustained.csv'' ''schedule'' = Some 2" "column ''sustained.csv'' ''target_rate_eps'' = Some 3"
  "column ''sustained.csv'' ''resp_p99_ns'' = Some 8"
  by code_simp+

lemma columns_seqlock:
  "column ''seqlock_read.csv'' ''readers'' = Some 0" "column ''seqlock_read.csv'' ''writer_mode'' = Some 1"
  "column ''seqlock_read.csv'' ''read_p99_ns'' = Some 5" "column ''seqlock_read.csv'' ''write_p50_ns'' = Some 9"
  "column ''seqlock_read.csv'' ''write_p99_ns'' = Some 10"
  by code_simp+

lemma columns_ring:
  "column ''ring_bench.csv'' ''mode'' = Some 0" "column ''ring_bench.csv'' ''consumers'' = Some 1"
  "column ''ring_bench.csv'' ''push_p99_ns'' = Some 7" "column ''ring_bench.csv'' ''recv_p99_ns'' = Some 9"
  "column ''ring_bench.csv'' ''producer_mev_s'' = Some 10"
  by code_simp+

lemma columns_e2e:
  "column ''e2e.csv'' ''schedule'' = Some 1" "column ''e2e.csv'' ''consumers'' = Some 2"
  "column ''e2e.csv'' ''target_rate_eps'' = Some 3" "column ''e2e.csv'' ''e2e_p99_ns'' = Some 8"
  "column ''e2e.csv'' ''producer_mev_s'' = Some 11"
  by code_simp+

lemma columns_experiments:
  "column ''branch_experiment.csv'' ''variant'' = Some 0" "column ''branch_experiment.csv'' ''key_pattern'' = Some 1"
  "column ''branch_experiment.csv'' ''depth'' = Some 2" "column ''branch_experiment.csv'' ''p50_ns'' = Some 5"
  "column ''cache_experiment.csv'' ''impl'' = Some 0" "column ''cache_experiment.csv'' ''footprint_bytes'' = Some 2"
  "column ''cache_experiment.csv'' ''p50_ns'' = Some 6"
  by code_simp+

lemma columns_sweeps:
  "column ''service_sweep.csv'' ''impl'' = Some 0" "column ''service_sweep.csv'' ''locality'' = Some 1"
  "column ''service_sweep.csv'' ''depth'' = Some 2" "column ''service_sweep.csv'' ''op'' = Some 3"
  "column ''service_sweep.csv'' ''p50_ns'' = Some 7" "column ''service_sweep.csv'' ''p99_ns'' = Some 9"
  "column ''read_path.csv'' ''impl'' = Some 0" "column ''read_path.csv'' ''depth'' = Some 1"
  "column ''read_path.csv'' ''op'' = Some 2" "column ''read_path.csv'' ''p50_ns'' = Some 6"
  by code_simp+

lemmas column_facts = columns_sustained columns_seqlock columns_ring columns_e2e columns_experiments columns_sweeps

subsection \<open>Points and rows\<close>

lemma row_point_Some: "row_point x y r = Some (a, b) \<longleftrightarrow> parse_f64 (r ! x) = Some a \<and> parse_f64 (r ! y) = Some b"
  by (auto simp: row_point_def bind_eq_Some_conv)

lemma set_map_filter: "set (List.map_filter f xs) = {y. \<exists>x \<in> set xs. f x = Some y}"
  by (force simp: List.map_filter_def)

lemma set_column_points:
  "set (column_points n key x y rows) =
    {(a, b). \<exists>r \<in> set rows. n < length r \<and> key r \<and> parse_f64 (r ! x) = Some a \<and> parse_f64 (r ! y) = Some b}"
  by (auto simp: column_points_def sort_points_def set_map_filter row_point_Some)

lemma row_number_Some:
  "column file name = Some i \<Longrightarrow> row_number file r name = Some a \<longleftrightarrow> i < length r \<and> parse_f64 (r ! i) = Some a"
  by (simp add: row_number_def row_cell_def)

lemma row_cell_Some:
  "column file name = Some i \<Longrightarrow> row_cell file r name = Some t \<longleftrightarrow> i < length r \<and> r ! i = t"
  by (simp add: row_cell_def)

text \<open>A series over a column is the set of points of its rows, when the guard covers the columns used.\<close>

lemma column_points_plotted:
  assumes "column file xn = Some x" and "column file yn = Some y" and "x \<le> n" and "y \<le> n"
    and "\<And>r. n < length r \<Longrightarrow> key r \<longleftrightarrow> list_all (\<lambda>(n, v). row_cell file r n = Some (codes v)) keys"
  shows "set (column_points n key x y rows) = plotted file keys xn yn (filter (\<lambda>r. n < length r) rows)"
  using assms(3-5)
  by (auto simp: set_column_points plotted_def row_number_Some [OF assms(1)] row_number_Some [OF assms(2)])

text \<open>The guard is no restriction when it is the last column used.\<close>

lemma plotted_guard:
  assumes "column file yn = Some n"
  shows "plotted file keys xn yn (filter (\<lambda>r. n < length r) rows) = plotted file keys xn yn rows"
  using row_number_Some [OF assms] by (auto simp: plotted_def)

lemma column_points_all:
  assumes "column file xn = Some x" and "column file yn = Some n" and "x \<le> n"
    and "\<And>r. n < length r \<Longrightarrow> key r \<longleftrightarrow> list_all (\<lambda>(n, v). row_cell file r n = Some (codes v)) keys"
  shows "set (column_points n key x n rows) = plotted file keys xn yn rows"
  using column_points_plotted [OF assms(1,2,3) order.refl assms(4)] plotted_guard [OF assms(2)] by simp

lemma sorted_column_points: "sorted (map (\<lambda>p. total_key (fst p)) (column_points n key x y rows))"
  by (simp add: column_points_def sort_points_def)

lemma left_to_right_simps [simp]:
  "left_to_right [] \<longleftrightarrow> True"
  "left_to_right (s # ss) \<longleftrightarrow> sorted (map (\<lambda>p. total_key (fst p)) (se_points s)) \<and> left_to_right ss"
  by (simp_all add: left_to_right_def)

text \<open>
  The swept figures show their CSV, all of it and nothing else. The points of each series are exactly
  those of the rows that carry the series' label (and the profile or schedule of the figure), under the column
  names the benchmarks write, and every line is drawn from left to right. A row shorter than the columns used gives
  no point.
\<close>
theorem figure_columns:
  "series_sets (ch_series (sustained_figure d rows profile)) =
     map (\<lambda>name. plotted ''sustained.csv'' [(''impl'', name), (''corpus'', profile), (''schedule'', ''fixed'')]
       ''target_rate_eps'' ''resp_p99_ns'' rows) IMPLS
   \<and> series_sets (ch_series (seqlock_read_figure d rows)) =
     map (\<lambda>mode. plotted ''seqlock_read.csv'' [(''writer_mode'', mode)] ''readers'' ''read_p99_ns'' rows)
       [''full_tilt'', ''paced'']
   \<and> series_sets (ch_series (seqlock_write_figure d rows)) =
     map (\<lambda>y. plotted ''seqlock_read.csv'' [(''writer_mode'', ''full_tilt'')] ''readers'' y
       (filter (\<lambda>r. 10 < length r) rows)) [''write_p50_ns'', ''write_p99_ns'']
   \<and> series_sets (ch_series (ring_throughput_figure d rows)) =
     map (\<lambda>mode. plotted ''ring_bench.csv'' [(''mode'', mode)] ''consumers'' ''producer_mev_s'' rows)
       [''full_tilt'', ''paced'']
   \<and> series_sets (ch_series (ring_latency_figure d rows)) =
     map (\<lambda>y. plotted ''ring_bench.csv'' [(''mode'', ''full_tilt'')] ''consumers'' y
       (filter (\<lambda>r. 9 < length r) rows)) [''push_p99_ns'', ''recv_p99_ns'']
   \<and> series_sets (ch_series (e2e_p99_vs_rate_figure d rows)) =
     map (\<lambda>k. plotted ''e2e.csv'' [(''schedule'', ''fixed''), (''consumers'', show_nat k)]
       ''target_rate_eps'' ''e2e_p99_ns'' rows) [1, 2, 4, 8]
   \<and> series_sets (ch_series (branch_figure read d results)) =
     map (\<lambda>(v, p, c). plotted ''branch_experiment.csv'' [(''variant'', v), (''key_pattern'', p)] ''depth'' ''p50_ns''
       (load_rows (read (path_join results ''branch_experiment.csv'')))) branch_specs
   \<and> series_sets (footprint_series rows) =
     map (\<lambda>name. plotted ''cache_experiment.csv'' [(''impl'', name)] ''footprint_bytes'' ''p50_ns'' rows) IMPLS
   \<and> left_to_right (ch_series (sustained_figure d rows profile) @ ch_series (seqlock_read_figure d rows)
     @ ch_series (seqlock_write_figure d rows) @ ch_series (ring_throughput_figure d rows)
     @ ch_series (ring_latency_figure d rows) @ ch_series (e2e_p99_vs_rate_figure d rows)
     @ ch_series (branch_figure read d results) @ footprint_series rows)"
proof (intro conjI)
  show "series_sets (ch_series (sustained_figure d rows profile)) =
     map (\<lambda>name. plotted ''sustained.csv'' [(''impl'', name), (''corpus'', profile), (''schedule'', ''fixed'')]
       ''target_rate_eps'' ''resp_p99_ns'' rows) IMPLS"
    by (simp add: series_sets_def sustained_figure_def impl_series_def cell_is_def)
      (intro ballI column_points_all columns_sustained; auto simp: row_cell_Some columns_sustained)
  show "series_sets (ch_series (seqlock_read_figure d rows)) =
     map (\<lambda>mode. plotted ''seqlock_read.csv'' [(''writer_mode'', mode)] ''readers'' ''read_p99_ns'' rows)
       [''full_tilt'', ''paced'']"
    by (simp add: series_sets_def seqlock_read_figure_def seqlock_series_by_mode_def mode_series_def cell_is_def)
      (intro conjI column_points_all columns_seqlock; auto simp: row_cell_Some columns_seqlock)
  show "series_sets (ch_series (seqlock_write_figure d rows)) =
     map (\<lambda>y. plotted ''seqlock_read.csv'' [(''writer_mode'', ''full_tilt'')] ''readers'' y
       (filter (\<lambda>r. 10 < length r) rows)) [''write_p50_ns'', ''write_p99_ns'']"
    by (simp add: series_sets_def seqlock_write_figure_def Let_def cell_is_def)
      (intro conjI column_points_plotted columns_seqlock; auto simp: row_cell_Some columns_seqlock)
  show "series_sets (ch_series (ring_throughput_figure d rows)) =
     map (\<lambda>mode. plotted ''ring_bench.csv'' [(''mode'', mode)] ''consumers'' ''producer_mev_s'' rows)
       [''full_tilt'', ''paced'']"
    by (simp add: series_sets_def ring_throughput_figure_def ring_series_by_mode_def mode_series_def cell_is_def)
      (intro conjI column_points_all columns_ring; auto simp: row_cell_Some columns_ring)
  show "series_sets (ch_series (ring_latency_figure d rows)) =
     map (\<lambda>y. plotted ''ring_bench.csv'' [(''mode'', ''full_tilt'')] ''consumers'' y
       (filter (\<lambda>r. 9 < length r) rows)) [''push_p99_ns'', ''recv_p99_ns'']"
    by (simp add: series_sets_def ring_latency_figure_def Let_def cell_is_def)
      (intro conjI column_points_plotted columns_ring; auto simp: row_cell_Some columns_ring)
  show "series_sets (ch_series (e2e_p99_vs_rate_figure d rows)) =
     map (\<lambda>k. plotted ''e2e.csv'' [(''schedule'', ''fixed''), (''consumers'', show_nat k)]
       ''target_rate_eps'' ''e2e_p99_ns'' rows) [1, 2, 4, 8]"
    by (simp add: series_sets_def e2e_p99_vs_rate_figure_def cell_is_def)
      (intro conjI column_points_all columns_e2e; auto simp: row_cell_Some columns_e2e)
  show "series_sets (ch_series (branch_figure read d results)) =
     map (\<lambda>(v, p, c). plotted ''branch_experiment.csv'' [(''variant'', v), (''key_pattern'', p)] ''depth'' ''p50_ns''
       (load_rows (read (path_join results ''branch_experiment.csv'')))) branch_specs"
    by (simp add: series_sets_def branch_figure_def branch_specs_def Let_def cell_is_def)
      (intro conjI column_points_all columns_experiments; auto simp: row_cell_Some columns_experiments)
  show "series_sets (footprint_series rows) =
     map (\<lambda>name. plotted ''cache_experiment.csv'' [(''impl'', name)] ''footprint_bytes'' ''p50_ns'' rows) IMPLS"
    by (simp add: series_sets_def footprint_series_def impl_series_def cell_is_def)
      (intro ballI column_points_all columns_experiments; auto simp: row_cell_Some columns_experiments)
  show "left_to_right (ch_series (sustained_figure d rows profile) @ ch_series (seqlock_read_figure d rows)
     @ ch_series (seqlock_write_figure d rows) @ ch_series (ring_throughput_figure d rows)
     @ ch_series (ring_latency_figure d rows) @ ch_series (e2e_p99_vs_rate_figure d rows)
     @ ch_series (branch_figure read d results) @ footprint_series rows)"
    by (simp add: sustained_figure_def seqlock_read_figure_def seqlock_write_figure_def ring_throughput_figure_def
        ring_latency_figure_def e2e_p99_vs_rate_figure_def branch_figure_def footprint_series_def impl_series_def IMPLS_def
        seqlock_series_by_mode_def ring_series_by_mode_def mode_series_def branch_specs_def Let_def sorted_column_points)
qed

subsection \<open>The depth ladders\<close>

definition strictly_ascending :: "series list \<Rightarrow> bool" where
  "strictly_ascending ss \<longleftrightarrow> list_all (\<lambda>s. sorted_wrt (\<lambda>p q. f64_less (fst p) (fst q)) (se_points s)) ss"

lemma f64_of_nat_less: "m < n \<Longrightarrow> n < 2 ^ 53 \<Longrightarrow> f64_less (f64_of_nat m) (f64_of_nat n)"
proof -
  assume "m < n" "n < 2 ^ 53"
  then have "mag_rat (round_mag (of_nat m)) < mag_rat (round_mag (of_nat n))"
    using round_mag_nat [of m] round_mag_nat [of n] by simp
  then have "round_mag (of_nat m) < round_mag (of_nat n)" by (simp add: mag_rat_less_iff)
  then show ?thesis
    using f64_lit_not_nan by (simp add: f64_less_def f64_ord_def f64_of_nat_def f64_lit_sel)
qed

lemma depth_points_sorted: "sorted_wrt (\<lambda>p q. f64_less (fst p) (fst q)) (depth_points n key dcol y rows)"
proof -
  have sub: "sorted_wrt (\<lambda>p q. f64_less (fst p) (fst q)) (List.map_filter f ds)"
    if "sorted_wrt (<) ds" "\<forall>d \<in> set ds. d < 2 ^ 53" "\<And>d p. f d = Some p \<Longrightarrow> fst p = f64_of_nat d"
    for ds and f :: "nat \<Rightarrow> point option"
    using that(1,2)
  proof (induction ds)
    case (Cons d ds)
    then show ?case
      using that(3) f64_of_nat_less
      by (auto simp: List.map_filter_simps set_map_filter split: option.split) (metis fst_conv)
  qed (simp add: List.map_filter_simps)
  show ?thesis unfolding depth_points_def by (rule sub) (auto simp: DEPTHS_def bind_eq_Some_conv)
qed

lemma depth_points_plotted:
  assumes "column file xn = Some dcol" and "column file yn = Some n" and "dcol \<le> n"
    and "\<And>r. n < length r \<Longrightarrow> key r \<longleftrightarrow> list_all (\<lambda>(n, v). row_cell file r n = Some (codes v)) keys"
  shows "set (depth_points n key dcol n rows) \<subseteq> plotted file keys xn yn rows"
proof
  fix p
  assume "p \<in> set (depth_points n key dcol n rows)"
  then obtain d r b where "List.find (\<lambda>r. n < length r \<and> key r \<and> cell_is r dcol (show_nat d)) rows = Some r"
    and b: "parse_f64 (r ! n) = Some b" "p = (f64_of_nat d, b)"
    by (auto simp: depth_points_def set_map_filter bind_eq_Some_conv)
  then have r: "r \<in> set rows" "n < length r" "key r" "r ! dcol = show_radix 10 d"
    by (auto simp: find_Some_iff cell_is_def codes_show_nat)
  have "row_number file r xn = Some (f64_of_nat d) \<and> row_number file r yn = Some b"
    using r(2,4) b(1) assms(3) parse_f64_nat
    by (simp add: row_number_Some [OF assms(1)] row_number_Some [OF assms(2)])
  then show "p \<in> plotted file keys xn yn rows" using r assms(4) b(2) by (auto simp: plotted_def)
qed

text \<open>
  The depth figures. Each point of a crossover line, and of the read-tax line, comes from a row with the
  line's implementation, locality and operation; the abscissa is the row's depth. No depth appears twice.
\<close>
theorem figure_depths:
  "list_all2 (\<subseteq>) (series_sets (ch_series (crossover_figure rows d loc 7 pct)))
     (map (\<lambda>name. plotted ''service_sweep.csv'' [(''impl'', name), (''locality'', loc), (''op'', ''update'')]
       ''depth'' ''p50_ns'' rows) IMPLS)
   \<and> list_all2 (\<subseteq>) (series_sets (ch_series (crossover_figure rows d loc 9 pct)))
     (map (\<lambda>name. plotted ''service_sweep.csv'' [(''impl'', name), (''locality'', loc), (''op'', ''update'')]
       ''depth'' ''p99_ns'' rows) IMPLS)
   \<and> list_all2 (\<subseteq>) (series_sets (ch_series (read_tax_figure read d results)))
     (map (\<lambda>name. plotted ''read_path.csv'' [(''impl'', name), (''op'', ''best_bid'')]
       ''depth'' ''p50_ns'' (load_rows (read (path_join results ''read_path.csv'')))) IMPLS)
   \<and> strictly_ascending (ch_series (crossover_figure rows d loc col pct) @ ch_series (read_tax_figure read d results))"
proof (intro conjI)
  show "list_all2 (\<subseteq>) (series_sets (ch_series (crossover_figure rows d loc 7 pct)))
     (map (\<lambda>name. plotted ''service_sweep.csv'' [(''impl'', name), (''locality'', loc), (''op'', ''update'')]
       ''depth'' ''p50_ns'' rows) IMPLS)"
    by (simp add: series_sets_def crossover_figure_def impl_series_def cell_is_def IMPLS_def)
      (intro conjI depth_points_plotted columns_sweeps; auto simp: row_cell_Some columns_sweeps)
  show "list_all2 (\<subseteq>) (series_sets (ch_series (crossover_figure rows d loc 9 pct)))
     (map (\<lambda>name. plotted ''service_sweep.csv'' [(''impl'', name), (''locality'', loc), (''op'', ''update'')]
       ''depth'' ''p99_ns'' rows) IMPLS)"
    by (simp add: series_sets_def crossover_figure_def impl_series_def cell_is_def IMPLS_def)
      (intro conjI depth_points_plotted columns_sweeps; auto simp: row_cell_Some columns_sweeps)
  show "list_all2 (\<subseteq>) (series_sets (ch_series (read_tax_figure read d results)))
     (map (\<lambda>name. plotted ''read_path.csv'' [(''impl'', name), (''op'', ''best_bid'')]
       ''depth'' ''p50_ns'' (load_rows (read (path_join results ''read_path.csv'')))) IMPLS)"
    by (simp add: series_sets_def read_tax_figure_def impl_series_def cell_is_def IMPLS_def Let_def)
      (intro conjI depth_points_plotted columns_sweeps; auto simp: row_cell_Some columns_sweeps)
  show "strictly_ascending (ch_series (crossover_figure rows d loc col pct) @ ch_series (read_tax_figure read d results))"
    by (simp add: strictly_ascending_def crossover_figure_def read_tax_figure_def impl_series_def IMPLS_def Let_def
        depth_points_sorted)
qed

subsection \<open>Axes\<close>

lemma f64_ord_sel [simp]: "f64_ord (F64 s m) = (if s then - int m else int m)"
  by (simp add: f64_ord_def)

lemma f64_min_facts:
  "\<not> is_nan a \<Longrightarrow> \<not> is_nan (f64_min a b) \<and> f64_ord (f64_min a b) \<le> f64_ord a"
  "\<not> is_nan a \<Longrightarrow> \<not> is_nan b \<Longrightarrow> f64_ord (f64_min a b) \<le> f64_ord b"
  by (auto simp: f64_min_def)

lemma f64_max_facts:
  "\<not> is_nan a \<Longrightarrow> \<not> is_nan (f64_max a b) \<and> f64_ord a \<le> f64_ord (f64_max a b)"
  "\<not> is_nan a \<Longrightarrow> \<not> is_nan b \<Longrightarrow> f64_ord b \<le> f64_ord (f64_max a b)"
  by (auto simp: f64_max_def)

definition extent_ok :: "extent \<Rightarrow> bool" where
  "extent_ok e \<longleftrightarrow> \<not> is_nan (ex_xmin e) \<and> \<not> is_nan (ex_xmax e) \<and> \<not> is_nan (ex_ymin e) \<and> \<not> is_nan (ex_ymax e)"

definition extent_le :: "extent \<Rightarrow> extent \<Rightarrow> bool" where
  "extent_le a b \<longleftrightarrow> f64_ord (ex_xmin b) \<le> f64_ord (ex_xmin a) \<and> f64_ord (ex_xmax a) \<le> f64_ord (ex_xmax b)
     \<and> f64_ord (ex_ymin b) \<le> f64_ord (ex_ymin a) \<and> f64_ord (ex_ymax a) \<le> f64_ord (ex_ymax b)"

lemma fold_widen: "extent_ok e \<Longrightarrow> extent_ok (fold widen ps e) \<and> extent_le e (fold widen ps e)"
proof (induction ps arbitrary: e)
  case (Cons p ps)
  have "extent_ok (widen p e)" "extent_le e (widen p e)"
    using Cons.prems f64_min_facts f64_max_facts by (simp_all add: extent_ok_def extent_le_def widen_def)
  then show ?case using Cons.IH [of "widen p e"] by (auto simp: extent_le_def intro: order_trans)
qed (simp add: extent_le_def)

lemma extent_covers:
  assumes "extent_ok e" and "(x, y) \<in> set ps" and "\<not> is_nan x" and "\<not> is_nan y"
  shows "f64_ord (ex_xmin (fold widen ps e)) \<le> f64_ord x" "f64_ord x \<le> f64_ord (ex_xmax (fold widen ps e))"
    "f64_ord (ex_ymin (fold widen ps e)) \<le> f64_ord y" "f64_ord y \<le> f64_ord (ex_ymax (fold widen ps e))"
proof -
  obtain us vs where ps: "ps = us @ (x, y) # vs" using split_list [OF assms(2)] by blast
  define m where "m = fold widen us e"
  have m: "extent_ok m" using fold_widen [OF assms(1)] by (simp add: m_def)
  then have "extent_ok (widen (x, y) m)"
    using f64_min_facts f64_max_facts by (simp add: extent_ok_def widen_def)
  then have "extent_le (widen (x, y) m) (fold widen ps e)" using fold_widen by (simp add: ps m_def)
  moreover have "f64_ord (ex_xmin (widen (x, y) m)) \<le> f64_ord x" "f64_ord x \<le> f64_ord (ex_xmax (widen (x, y) m))"
    "f64_ord (ex_ymin (widen (x, y) m)) \<le> f64_ord y" "f64_ord y \<le> f64_ord (ex_ymax (widen (x, y) m))"
    using m assms(3,4) f64_min_facts(2) f64_max_facts(2) by (simp_all add: extent_ok_def widen_def)
  ultimately show "f64_ord (ex_xmin (fold widen ps e)) \<le> f64_ord x" "f64_ord x \<le> f64_ord (ex_xmax (fold widen ps e))"
    "f64_ord (ex_ymin (fold widen ps e)) \<le> f64_ord y" "f64_ord y \<le> f64_ord (ex_ymax (fold widen ps e))"
    by (auto simp: extent_le_def)
qed

text \<open>Literals between a half and two are ordinary positive doubles.\<close>

lemma lit_range:
  assumes "1 / 2 \<le> c" and "c \<le> 2"
  shows "0 < mag_rat (round_mag c)" "0 < round_mag c" "round_mag c < INF_MAG"
    "c \<le> 1 \<Longrightarrow> mag_rat (round_mag c) \<le> 1" "1 \<le> c \<Longrightarrow> 1 \<le> mag_rat (round_mag c)"
proof -
  have "round_mag (1 / 2 ^ 53) \<le> round_mag c" "round_mag c \<le> round_mag (2 ^ 53)"
    using assms by (intro round_mag_mono; simp)+
  then have lo: "mag_rat (round_mag (1 / 2 ^ 53)) \<le> mag_rat (round_mag c)" and hi: "round_mag c < INF_MAG"
    using mag_rat_less_iff [of "round_mag c" "round_mag (1 / 2 ^ 53)"] round_mag_pow53(1) by (auto simp: not_less)
  then show "0 < mag_rat (round_mag c)" "round_mag c < INF_MAG" using round_mag_pow53(3) by simp_all
  then show "0 < round_mag c" using mag_rat_less_iff [of 0] by simp
  show "mag_rat (round_mag c) \<le> 1" if "c \<le> 1"
    using round_mag_mono [of c 1] that assms mag_rat_less_iff [of "1023 * 2 ^ 52" "round_mag c"] mag_rat_one by auto
  show "1 \<le> mag_rat (round_mag c)" if "1 \<le> c"
    using round_mag_mono [of 1 c] that mag_rat_less_iff [of "round_mag c" "1023 * 2 ^ 52"] mag_rat_one by auto
qed

lemma scaled:
  assumes "1 / 2 \<le> c" and "c \<le> 2" and "\<not> is_nan m"
  shows "\<not> is_nan (f64_mul m (f64_lit c))"
    "c \<le> 1 \<Longrightarrow> f64_ord (f64_mul m (f64_lit c)) \<le> max 0 (f64_ord m)"
    "1 \<le> c \<Longrightarrow> 0 < f64_ord m \<Longrightarrow> f64_ord m \<le> f64_ord (f64_mul m (f64_lit c))"
proof -
  note lit = lit_range [OF assms(1,2)]
  have l: "f64_lit c = F64 False (round_mag c)" using assms(1) by (simp add: f64_lit_def f64_round_def)
  have fin: "is_finite (f64_lit c)" "\<not> is_nan (f64_lit c)" using lit by (simp_all add: l is_finite_def is_nan_def)
  define r where "r = f64_rat m * mag_rat (round_mag c)"
  have mul: "f64_mul m (f64_lit c) =
      (if is_finite m then f64_round (f64_neg m) r else F64 (f64_neg m) INF_MAG)"
    using lit(2) fin assms(3) by (auto simp: f64_mul_def Let_def l f64_rat_def r_def is_nan_def is_finite_def INF_MAG_def)
  have neg: "f64_neg (f64_round (f64_neg m) r) \<longleftrightarrow> f64_neg m"
    using lit(1) mag_rat_nonneg [of "f64_mag m"]
    by (auto simp: f64_round_def r_def f64_rat_def mult_less_0_iff zero_less_mult_iff)
  have mag: "f64_mag (f64_round (f64_neg m) r) = round_mag (mag_rat (f64_mag m) * mag_rat (round_mag c))"
    using mag_rat_nonneg by (simp add: f64_round_def r_def f64_rat_def abs_mult)
  show "\<not> is_nan (f64_mul m (f64_lit c))"
    using round_mag_le_INF by (auto simp: mul mag is_nan_def not_less)
  show "f64_ord (f64_mul m (f64_lit c)) \<le> max 0 (f64_ord m)" if "c \<le> 1"
  proof (cases "is_finite m \<and> \<not> f64_neg m")
    case True
    have "mag_rat (f64_mag m) * mag_rat (round_mag c) \<le> mag_rat (f64_mag m)"
      using lit(4) [OF that] mag_rat_nonneg by (simp add: mult_left_le)
    then have "round_mag (mag_rat (f64_mag m) * mag_rat (round_mag c)) \<le> f64_mag m"
      using round_mag_mono [of _ "mag_rat (f64_mag m)"] round_mag_rat [of "f64_mag m"] True mag_rat_nonneg
      by (metis is_finite_def mult_nonneg_nonneg)
    then show ?thesis using True mul neg mag by (simp add: f64_ord_def)
  next
    case False
    then show ?thesis using mul neg assms(3) by (auto simp: f64_ord_def is_finite_def is_nan_def not_less)
  qed
  show "f64_ord m \<le> f64_ord (f64_mul m (f64_lit c))" if "1 \<le> c" "0 < f64_ord m"
  proof (cases "is_finite m")
    case True
    have "mag_rat (f64_mag m) \<le> mag_rat (f64_mag m) * mag_rat (round_mag c)"
      using lit(5) [OF that(1)] mag_rat_nonneg [of "f64_mag m"] by (simp add: mult_right_mono mult_le_cancel_left1)
    then have "f64_mag m \<le> round_mag (mag_rat (f64_mag m) * mag_rat (round_mag c))"
      using round_mag_mono [of "mag_rat (f64_mag m)"] round_mag_rat [of "f64_mag m"] True mag_rat_nonneg
      by (metis is_finite_def)
    then show ?thesis using True mul neg mag that(2) by (auto simp: f64_ord_def)
  next
    case False
    then show ?thesis using mul assms(3) that(2) by (auto simp: f64_ord_def is_finite_def is_nan_def not_less split: if_splits)
  qed
qed

text \<open>
  No point is cut off. The axes of a drawn chart contain every point whose coordinates are at least a
  half (so every latency, depth, rate and count the benchmarks record), whatever the other points are, infinite and
  NaN cells included.
\<close>
theorem render_covers:
  assumes "render c = Some dr" and "s \<in> set (ch_series c)" and "(x, y) \<in> set (se_points s)"
    and "f64_le (f64_lit (1 / 2)) x" and "f64_le (f64_lit (1 / 2)) y"
  shows "f64_le (fst (dr_x dr)) x \<and> f64_le x (snd (dr_x dr)) \<and> f64_le (fst (dr_y dr)) y \<and> f64_le y (snd (dr_y dr))
    \<and> Polyline (se_label s) (se_color s) 2 (se_points s) \<in> set (dr_marks dr)"
proof -
  define e where "e = fold widen (concat (map se_points (ch_series c))) extent_start"
  have start: "extent_ok extent_start"
    by (simp add: extent_ok_def extent_start_def F64_MAX_def F64_MIN_def is_nan_def INF_MAG_def)
  have "(x, y) \<in> set (concat (map se_points (ch_series c)))" using assms(2,3) by auto
  then have e: "extent_ok e" "f64_ord (ex_xmin e) \<le> f64_ord x" "f64_ord x \<le> f64_ord (ex_xmax e)"
    "f64_ord (ex_ymin e) \<le> f64_ord y" "f64_ord y \<le> f64_ord (ex_ymax e)"
    using extent_covers [OF start, of x y] fold_widen [OF start] assms(4,5) by (simp_all add: e_def f64_le_def)
  have half: "0 < f64_ord (f64_lit (1 / 2))" "\<not> is_nan (f64_lit (1 / 2))"
    using lit_range(2) [of "1 / 2"] f64_lit_not_nan by (simp_all add: f64_ord_def f64_lit_sel)
  have lower: "f64_le (f64_max (f64_mul m (f64_lit k)) (f64_lit (1 / 2))) v"
    if "1 / 2 \<le> k" "k \<le> 1" "\<not> is_nan m" "f64_ord m \<le> f64_ord v" "f64_le (f64_lit (1 / 2)) v" for k m v
    using scaled(1,2) [of k m] that half by (auto simp: f64_le_def f64_max_def)
  have upper: "f64_le v (f64_mul m (f64_lit k))"
    if "1 \<le> k" "k \<le> 2" "\<not> is_nan m" "f64_ord v \<le> f64_ord m" "f64_le (f64_lit (1 / 2)) v" for k m v
    using scaled(1,3) [of k m] that half by (auto simp: f64_le_def)
  have zero: "f64_le (f64_lit 0) v" if "f64_le (f64_lit (1 / 2)) v" for v
    using that half f64_lit_not_nan [of 0] by (auto simp: f64_le_def f64_ord_def f64_lit_sel)
  have "dr_x dr = (f64_max (f64_mul (ex_xmin e) (f64_lit (8 / 10))) (f64_lit (1 / 2)), f64_mul (ex_xmax e) (f64_lit (5 / 4)))"
    "dr_y dr = (if ch_y_log c
       then (f64_max (f64_mul (ex_ymin e) (f64_lit (7 / 10))) (f64_lit (1 / 2)), f64_mul (ex_ymax e) (f64_lit (3 / 2)))
       else (f64_lit 0, f64_mul (ex_ymax e) (f64_lit (115 / 100))))"
    "dr_marks dr = draw_series (ch_series c)"
    using assms(1) by (auto simp: render_def Let_def e_def split: if_splits)
  then show ?thesis
    using lower [of "8 / 10" "ex_xmin e" x] upper [of "5 / 4" "ex_xmax e" x] lower [of "7 / 10" "ex_ymin e" y]
      upper [of "3 / 2" "ex_ymax e" y] upper [of "115 / 100" "ex_ymax e" y] zero [of y] e assms(2-5)
    by (auto simp: extent_ok_def draw_series_def)
qed

definition demo_chart :: chart where
  "demo_chart =
     \<lparr>ch_out = ''a.svg'', ch_title = ''t'', ch_source = ''a.csv'', ch_x_desc = ''x'', ch_y_desc = ''y'', ch_y_log = True,
      ch_series = [\<lparr>se_label = ''a'', se_color = BLACK, se_points = [(f64_one, INFINITY), (NAN, f64_one)]\<rparr>]\<rparr>"

lemma demo_point: "f64_le (f64_lit (1 / 2)) f64_one" "f64_le (f64_lit (1 / 2)) INFINITY"
  using f64_lit_le [of "1 / 2" 1] round_mag_le_INF [of "1 / 2"]
  by (simp_all add: f64_one_def f64_le_def INFINITY_def is_nan_def f64_ord_def f64_lit_sel)

theorem render_covers_witness:
  "\<exists>dr. render demo_chart = Some dr \<and> f64_le (fst (dr_x dr)) f64_one \<and> f64_le f64_one (snd (dr_x dr))
    \<and> f64_le (fst (dr_y dr)) INFINITY \<and> f64_le INFINITY (snd (dr_y dr))"
proof -
  obtain dr where dr: "render demo_chart = Some dr" by (simp add: render_def demo_chart_def Let_def)
  then show ?thesis
    using render_covers [OF dr, of "hd (ch_series demo_chart)" f64_one INFINITY] demo_point
    by (simp add: demo_chart_def)
qed

text \<open>At saturation, a consumer count is shown at its highest swept rate.\<close>

lemma max_by_rate_None: "max_by_rate xs = None \<longleftrightarrow> xs = []"
  by (cases xs) (auto split: option.split)

lemma max_by_rate_Some: "max_by_rate xs = Some m \<Longrightarrow> m \<in> set xs \<and> (\<forall>x \<in> set xs. fst x \<le> fst m)"
  by (induction xs arbitrary: m) (auto simp: max_by_rate_None split: option.splits if_splits)

definition e2e_row :: "nat \<Rightarrow> row \<Rightarrow> bool" where
  "e2e_row k r \<longleftrightarrow> 11 < length r \<and> row_cell ''e2e.csv'' r ''schedule'' = Some (codes ''fixed'')
     \<and> row_cell ''e2e.csv'' r ''consumers'' = Some (codes (show_nat k))"

lemma saturated_point_row:
  assumes "saturated_point rows k = Some (x, y)"
  obtains r rate where "x = f64_of_nat k" "r \<in> set rows" "e2e_row k r" "rate_and_mev r = Some (rate, y)"
    "row_number ''e2e.csv'' r ''producer_mev_s'' = Some y"
    "\<And>r' rate' m. r' \<in> set rows \<Longrightarrow> e2e_row k r' \<Longrightarrow> rate_and_mev r' = Some (rate', m) \<Longrightarrow> rate' \<le> rate"
proof -
  let ?key = "\<lambda>r. 11 < length r \<and> cell_is r 1 ''fixed'' \<and> cell_is r 2 (show_nat k)"
  have key: "?key r \<longleftrightarrow> e2e_row k r" for r
    by (auto simp: e2e_row_def cell_is_def row_cell_Some columns_e2e)
  obtain rate where x: "x = f64_of_nat k" and "max_by_rate (List.map_filter rate_and_mev (filter ?key rows)) = Some (rate, y)"
    using assms by (auto simp: saturated_point_def)
  from max_by_rate_Some [OF this(2)] obtain r where r: "r \<in> set rows" "?key r" "rate_and_mev r = Some (rate, y)"
    and max: "\<forall>z \<in> set (List.map_filter rate_and_mev (filter ?key rows)). fst z \<le> rate"
    by (auto simp: set_map_filter)
  have "row_number ''e2e.csv'' r ''producer_mev_s'' = Some y"
    using r by (simp add: row_number_Some columns_e2e rate_and_mev_def split: sum.splits)
  moreover have "rate' \<le> rate" if "r' \<in> set rows" "e2e_row k r'" "rate_and_mev r' = Some (rate', m)" for r' rate' m
    using max that key [of r'] by (fastforce simp: set_map_filter)
  ultimately show ?thesis using that x r key by blast
qed

end
