(* ===== verification/Sustained.thy ===== *)
theory Sustained
  imports Figure_Laws Oracle
begin

section \<open>The sustained-feed benchmark (bench/src/benches/sustained.rs)\<close>

text \<open>
  An open loop: event \<open>i\<close> is due at an offset of its schedule, and what is recorded is its completion against
  that offset. Time is a world \<open>'w\<close> that reading the clock advances; a busy wait is a partial function, so that
  waiting for ever is \<open>None\<close>. The books, the histogram, the clock and the corpora are parameters. The printed
  summary is not modelled.
\<close>

subsection \<open>Schedules\<close>

datatype schedule = FixedRate u64 | RealArrival u64 u64

definition sat_sub :: "u64 \<Rightarrow> u64 \<Rightarrow> u64" where
  "sat_sub a b = (if b \<le> a then a - b else 0)"

fun offset_ns :: "schedule \<Rightarrow> nat \<Rightarrow> book_event \<Rightarrow> u64 res" where
  "offset_ns (FixedRate rate) i ev =
     (if rate = 0 then Inl DivisionByZero else Inr (of_nat (i * 1000000000 div unat rate)))"
| "offset_ns (RealArrival first_ts speed) i ev =
     (if speed = 0 then Inl DivisionByZero else Inr (sat_sub (ev_ts ev) first_ts div speed))"

definition first_arrival_ts :: "book_event list \<Rightarrow> u64" where
  "first_arrival_ts events =
     (case List.find (\<lambda>ts. 0 < ts) (map ev_ts events) of
        Some ts \<Rightarrow> ts
      | None \<Rightarrow> (case events of [] \<Rightarrow> 0 | e # _ \<Rightarrow> ev_ts e))"

definition natural_rate_eps :: "book_event list \<Rightarrow> u64 \<Rightarrow> u64" where
  "natural_rate_eps events first_ts =
     (if events = [] then 0
      else
        let span = sat_sub (ev_ts (last events)) first_ts;
            rate = length events * 1000000000 div unat span
        in if span = 0 then 0 else if rate < 2 ^ 64 then of_nat rate else 0)"

subsection \<open>The paced loop\<close>

text \<open>A computation over a world; a panic ends it, \<open>None\<close> means that it runs for ever.\<close>

type_synonym ('w, 'a) timed = "'w \<Rightarrow> ('a \<times> 'w) outcome"

definition t_return :: "'a \<Rightarrow> ('w, 'a) timed" where "t_return a w = Some (Inr (a, w))"

definition t_bind :: "('w, 'a) timed \<Rightarrow> ('a \<Rightarrow> ('w, 'b) timed) \<Rightarrow> ('w, 'b) timed" where
  "t_bind m f w = out_bind (m w) (\<lambda>(a, w'). f a w')"

definition t_lift :: "'a res \<Rightarrow> ('w, 'a) timed" where
  "t_lift r w = Some (res_map (\<lambda>a. (a, w)) r)"

fun t_map :: "('x \<Rightarrow> ('w, 'a) timed) \<Rightarrow> 'x list \<Rightarrow> ('w, 'a list) timed" where
  "t_map f [] = t_return []"
| "t_map f (x # xs) = t_bind (f x) (\<lambda>a. t_bind (t_map f xs) (\<lambda>as. t_return (a # as)))"

partial_function (option) spin_until :: "('w \<Rightarrow> u64 \<times> 'w) \<Rightarrow> u64 \<Rightarrow> 'w \<Rightarrow> (u64 \<times> 'w) option" where
  "spin_until now scheduled w =
     (let (n, w') = now w in if n < scheduled then spin_until now scheduled w' else Some (n, w'))"

declare spin_until.simps [code]

fun co_loop ::
  "'b order_book_ops \<Rightarrow> 'h hist_ops \<Rightarrow> ('w \<Rightarrow> u64 \<times> 'w) \<Rightarrow> schedule \<Rightarrow> nat \<Rightarrow> book_event list
   \<Rightarrow> 'b \<times> 'h \<times> u64 \<Rightarrow> ('w, 'b \<times> 'h \<times> u64) timed" where
  "co_loop ops H now sched i [] st w = Some (Inr (st, w))"
| "co_loop ops H now sched i (ev # evs) (b, h, last_done) w =
     (case offset_ns sched i ev of
        Inl p \<Rightarrow> Some (Inl p)
      | Inr scheduled \<Rightarrow>
          (case spin_until now scheduled w of
             None \<Rightarrow> None
           | Some (n, w1) \<Rightarrow>
               (case ob_apply ops b ev of
                  Inl p \<Rightarrow> Some (Inl p)
                | Inr b' \<Rightarrow>
                    let (d, w2) = now w1
                    in co_loop ops H now sched (Suc i) evs (b', lat_record H (sat_sub d scheduled) h, d) w2)))"

record 'h run_result =
  rr_rec :: 'h
  rr_achieved :: f64
  rr_samples :: u64

definition achieved_rate :: "nat \<Rightarrow> u64 \<Rightarrow> f64" where
  "achieved_rate n last_done =
     (if last_done = 0 then INFINITY
      else f64_div (f64_mul (f64_of_nat n) (f64_lit 1000000000)) (f64_of_nat (unat last_done)))"

text \<open>\<open>raw\<close> and \<open>delta\<close> are the clock's, as in the harness.\<close>

definition co_run ::
  "'b order_book_ops \<Rightarrow> 'h hist_ops \<Rightarrow> (u64 \<Rightarrow> u64 \<Rightarrow> nat) \<Rightarrow> ('w \<Rightarrow> u64 \<times> 'w) \<Rightarrow> book_event list \<Rightarrow> schedule
   \<Rightarrow> ('w, 'h run_result) timed" where
  "co_run ops H delta raw events sched =
     t_bind (t_lift (res_bind (run_book ops (ob_default ops) events) (ob_best_bid ops))) (\<lambda>_.
     t_bind (t_lift (lat_new H)) (\<lambda>h0.
     t_bind (\<lambda>w. Some (Inr (raw w))) (\<lambda>base.
     t_bind (co_loop ops H (now_since_ns delta raw base) sched 0 events (ob_default ops, h0, 0)) (\<lambda>(b, h, last_done).
     t_bind (t_lift (ob_best_bid ops b)) (\<lambda>_.
       t_return \<lparr>rr_rec = h, rr_achieved = achieved_rate (length events) last_done, rr_samples = lat_count H h\<rparr>)))))"

definition run_impl ::
  "'h hist_ops \<Rightarrow> (u64 \<Rightarrow> u64 \<Rightarrow> nat) \<Rightarrow> ('w \<Rightarrow> u64 \<times> 'w) \<Rightarrow> string \<Rightarrow> book_event list \<Rightarrow> schedule
   \<Rightarrow> ('w, 'h run_result) timed" where
  "run_impl H delta raw name events sched =
     (if for_impl name = Some ''btree'' then co_run btree_ops H delta raw events sched
      else if for_impl name = Some ''sorted'' then co_run sorted_ops H delta raw events sched
      else if for_impl name = Some ''rev'' then co_run rev_ops H delta raw events sched
      else if for_impl name = Some ''flat'' then co_run flat_ops H delta raw events sched
      else t_lift (Inl AssertionFailed))"

definition is_saturated :: "u64 \<Rightarrow> f64 \<Rightarrow> bool" where
  "is_saturated target achieved =
     f64_less achieved (f64_mul (f64_lit (9 / 10)) (f64_of_nat (unat target)))"

subsection \<open>Rows\<close>

record sustained_row =
  sr_impl :: string
  sr_corpus :: string
  sr_schedule :: string
  sr_target :: u64
  sr_achieved :: f64
  sr_samples :: u64
  sr_overhead :: u64
  sr_p50 :: u64
  sr_p99 :: u64
  sr_p999 :: u64
  sr_max :: u64
  sr_saturated :: bool

definition row_of ::
  "'h hist_ops \<Rightarrow> string \<Rightarrow> string \<Rightarrow> string \<Rightarrow> u64 \<Rightarrow> u64 \<Rightarrow> bool \<Rightarrow> 'h run_result \<Rightarrow> sustained_row" where
  "row_of H impl corpus sched target overhead sat r =
     \<lparr>sr_impl = impl, sr_corpus = corpus, sr_schedule = sched, sr_target = target, sr_achieved = rr_achieved r,
      sr_samples = rr_samples r, sr_overhead = overhead, sr_p50 = lat_p H (rr_rec r) (f64_lit (1 / 2)),
      sr_p99 = lat_p H (rr_rec r) (f64_lit (99 / 100)), sr_p999 = lat_p H (rr_rec r) (f64_lit (999 / 1000)),
      sr_max = lat_max H (rr_rec r), sr_saturated = sat\<rparr>"

definition show_bool :: "bool \<Rightarrow> string" where "show_bool b = (if b then ''true'' else ''false'')"

text \<open>A line of a CSV.\<close>

fun join_cells :: "string list \<Rightarrow> string" where
  "join_cells [] = []"
| "join_cells [c] = c"
| "join_cells (c # d # cs) = c @ '','' @ join_cells (d # cs)"

definition csv_text :: "string \<Rightarrow> string list list \<Rightarrow> string" where
  "csv_text header rows = concat (map (\<lambda>l. l @ ''\<newline>'') (header # map join_cells rows))"

definition sustained_cells :: "sustained_row \<Rightarrow> string list" where
  "sustained_cells r =
     [sr_impl r, sr_corpus r, sr_schedule r, show_u64 (sr_target r), show_fixed 0 (sr_achieved r),
      show_u64 (sr_samples r), show_u64 (sr_overhead r), show_u64 (sr_p50 r), show_u64 (sr_p99 r),
      show_u64 (sr_p999 r), show_u64 (sr_max r), show_bool (sr_saturated r)]"

definition sustained_csv :: "sustained_row list \<Rightarrow> string" where
  "sustained_csv rows = csv_text (csv_header ''sustained.csv'') (map sustained_cells rows)"

definition max_sustainable :: "sustained_row list \<Rightarrow> string \<Rightarrow> string \<Rightarrow> u64 option" where
  "max_sustainable rows impl corpus =
     (let rates = map sr_target (filter (\<lambda>r. sr_schedule r = ''fixed'' \<and> sr_impl r = impl \<and> sr_corpus r = corpus
         \<and> \<not> sr_saturated r) rows)
      in case rates of [] \<Rightarrow> None | r # rs \<Rightarrow> Some (foldl max r rs))"

subsection \<open>The run\<close>

record bench_opts =
  bo_core :: nat
  bo_speed :: u64
  bo_skip_real :: bool
  bo_out :: string

text \<open>The arguments after a flag that takes a value are its value, also when the value does not parse.\<close>

fun sustained_args :: "bench_opts \<Rightarrow> string list \<Rightarrow> bench_opts" where
  "sustained_args bo [] = bo"
| "sustained_args bo (a # as) =
     (if a = ''--no-real'' then sustained_args (bo\<lparr>bo_skip_real := True\<rparr>) as
      else if a = ''--speed'' \<and> as = [] then bo\<lparr>bo_speed := max 1 (bo_speed bo)\<rparr>
      else if a \<in> {''--core'', ''--speed'', ''--out''} then
        (case as of
           [] \<Rightarrow> bo
         | v # rest \<Rightarrow>
             if a = ''--core''
             then sustained_args (bo\<lparr>bo_core := (case parse_usize (codes v) of None \<Rightarrow> bo_core bo | Some n \<Rightarrow> n)\<rparr>) rest
             else if a = ''--speed''
             then sustained_args (bo\<lparr>bo_speed := max 1 (case parse_usize (codes v) of None \<Rightarrow> bo_speed bo
               | Some n \<Rightarrow> of_nat n)\<rparr>) rest
             else sustained_args (bo\<lparr>bo_out := v\<rparr>) rest)
      else sustained_args bo as)"

definition RATES :: "u64 list" where
  "RATES = [100000, 1000000, 2000000, 5000000, 10000000, 20000000, 50000000, 100000000, 200000000]"

definition PROFILES :: "string list" where
  "PROFILES = [''steady'', ''burst'', ''flashcrash'']"

text \<open>\<open>corpora\<close> is \<open>Corpus::load\<close> on the file of a tag; a corpus that does not load is skipped.\<close>

definition real_rows ::
  "'h hist_ops \<Rightarrow> (u64 \<Rightarrow> u64 \<Rightarrow> nat) \<Rightarrow> ('w \<Rightarrow> u64 \<times> 'w) \<Rightarrow> (string \<Rightarrow> book_event list option) \<Rightarrow> u64 \<Rightarrow> u64
   \<Rightarrow> ('w, sustained_row list) timed" where
  "real_rows H delta raw corpora overhead speed =
     (case corpora ''btcusdt-sample'' of
        None \<Rightarrow> t_return []
      | Some events \<Rightarrow>
          let first_ts = first_arrival_ts events; nat_rate = natural_rate_eps events first_ts
          in t_map (\<lambda>name. t_bind (run_impl H delta raw name events (RealArrival first_ts speed)) (\<lambda>r.
               t_return (row_of H name ''btcusdt-sample'' ''real'' nat_rate overhead False r))) IMPLS)"

definition profile_rows ::
  "'h hist_ops \<Rightarrow> (u64 \<Rightarrow> u64 \<Rightarrow> nat) \<Rightarrow> ('w \<Rightarrow> u64 \<times> 'w) \<Rightarrow> (string \<Rightarrow> book_event list option) \<Rightarrow> u64 \<Rightarrow> string
   \<Rightarrow> ('w, sustained_row list) timed" where
  "profile_rows H delta raw corpora overhead tag =
     (case corpora tag of
        None \<Rightarrow> t_return []
      | Some events \<Rightarrow>
          t_map (\<lambda>(name, rate). t_bind (run_impl H delta raw name events (FixedRate rate)) (\<lambda>r.
            t_return (row_of H name tag ''fixed'' rate overhead (is_saturated rate (rr_achieved r)) r)))
            (List.product IMPLS RATES))"

definition sustained_rows ::
  "'h hist_ops \<Rightarrow> (u64 \<Rightarrow> u64 \<Rightarrow> nat) \<Rightarrow> ('w \<Rightarrow> u64 \<times> 'w) \<Rightarrow> (string \<Rightarrow> book_event list option) \<Rightarrow> bench_opts
   \<Rightarrow> ('w, sustained_row list) timed" where
  "sustained_rows H delta raw corpora bo =
     t_bind (\<lambda>w. let (r, w') = measure_overhead delta raw w in t_lift r w') (\<lambda>overhead.
     t_bind (if bo_skip_real bo then t_return [] else real_rows H delta raw corpora overhead (bo_speed bo)) (\<lambda>real.
     t_bind (t_map (profile_rows H delta raw corpora overhead) PROFILES) (\<lambda>fixed.
       t_return (real @ concat fixed))))"

end
