(* ===== verification/Sustained_Laws.thy ===== *)
theory Sustained_Laws
  imports Sustained
begin

section \<open>What the sustained benchmark measures\<close>

text \<open>
  The clock is only assumed to run: \<open>ticking\<close>. Under it the paced loop returns, and what it records is the
  completion of every event against its schedule, so that a backlog stays visible. The second part follows the
  rows into the CSV and from there into the figure.
\<close>

subsection \<open>Computations over a world\<close>

lemma t_simps [simp]:
  "t_bind (t_return a) f = f a" "t_bind (t_lift (Inr a)) f = f a" "t_bind (t_lift (Inl p)) f w = Some (Inl p)"
  by (simp_all add: t_bind_def t_return_def t_lift_def fun_eq_iff)

lemma t_bind_step: "m w = Some (Inr (a, w')) \<Longrightarrow> t_bind m f w = f a w'"
  by (simp add: t_bind_def)

subsection \<open>A running clock\<close>

text \<open>The world after \<open>k\<close> reads of a clock, and the reading that follows.\<close>

definition nth_world :: "('w \<Rightarrow> u64 \<times> 'w) \<Rightarrow> nat \<Rightarrow> 'w \<Rightarrow> 'w" where
  "nth_world now k w = ((\<lambda>w. snd (now w)) ^^ k) w"

definition nth_reading :: "('w \<Rightarrow> u64 \<times> 'w) \<Rightarrow> nat \<Rightarrow> 'w \<Rightarrow> u64" where
  "nth_reading now k w = fst (now (nth_world now k w))"

text \<open>Readings never go back, and time \<open>T\<close> is reached.\<close>

definition ticking :: "('w \<Rightarrow> u64 \<times> 'w) \<Rightarrow> u64 \<Rightarrow> bool" where
  "ticking now T \<longleftrightarrow> (\<forall>w. fst (now w) \<le> fst (now (snd (now w)))) \<and> (\<forall>w. \<exists>k. T \<le> nth_reading now k w)"

lemma nth_world_simps [simp]:
  "nth_world now 0 w = w" "nth_world now (Suc k) w = nth_world now k (snd (now w))"
  by (simp_all add: nth_world_def funpow_swap1 del: funpow.simps) (simp_all add: funpow_Suc_right del: funpow.simps)

lemma nth_reading_simps [simp]:
  "nth_reading now 0 w = fst (now w)" "nth_reading now (Suc k) w = nth_reading now k (snd (now w))"
  by (simp_all add: nth_reading_def)

text \<open>A busy wait ends at the first reading that is not before the time waited for.\<close>

lemma spin_until_first:
  "\<forall>i < k. nth_reading now i w < t \<Longrightarrow> t \<le> nth_reading now k w \<Longrightarrow>
    spin_until now t w = Some (nth_reading now k w, nth_world now (Suc k) w)"
proof (induction k arbitrary: w)
  case 0
  then show ?case by (subst spin_until.simps) (auto split: prod.split)
next
  case (Suc k)
  have "\<forall>i < k. nth_reading now i (snd (now w)) < t" using Suc.prems(1) by auto
  then have "spin_until now t (snd (now w)) = Some (nth_reading now (Suc k) w, nth_world now (Suc (Suc k)) w)"
    using Suc by simp
  moreover have "fst (now w) < t" using Suc.prems(1) by fastforce
  ultimately show ?case by (subst spin_until.simps) (auto split: prod.split)
qed

lemma ticking_first:
  assumes "ticking now T" and "t \<le> T"
  obtains k where "\<forall>i < k. nth_reading now i w < t" "t \<le> nth_reading now k w"
proof -
  obtain k where "T \<le> nth_reading now k w" using assms(1) unfolding ticking_def by blast
  then have "t \<le> nth_reading now k w" using assms(2) by simp
  then show ?thesis
    using that [of "LEAST k. t \<le> nth_reading now k w"] LeastI [of "\<lambda>k. t \<le> nth_reading now k w"] not_less_Least
    by (metis linorder_not_le)
qed

subsection \<open>What is recorded\<close>

fun offsets :: "schedule \<Rightarrow> nat \<Rightarrow> book_event list \<Rightarrow> u64 list res" where
  "offsets sched i [] = Inr []"
| "offsets sched i (ev # evs) = res_bind (offset_ns sched i ev) (\<lambda>t. res_map ((#) t) (offsets sched (Suc i) evs))"

text \<open>
  Completions \<open>ds\<close> of events due at \<open>ts\<close>, by the clock alone: an event is started at the first reading that is not
  before its due time, and completed at the next one.
\<close>

fun served :: "('w \<Rightarrow> u64 \<times> 'w) \<Rightarrow> 'w \<Rightarrow> u64 list \<Rightarrow> u64 list \<Rightarrow> bool" where
  "served now w [] ds \<longleftrightarrow> ds = []"
| "served now w (t # ts) ds \<longleftrightarrow>
     (\<exists>k d ds'. ds = d # ds' \<and> (\<forall>i < k. nth_reading now i w < t) \<and> t \<le> nth_reading now k w
        \<and> d = nth_reading now (Suc k) w \<and> served now (nth_world now (Suc (Suc k)) w) ts ds')"

text \<open>The response times of completions \<open>ds\<close> to due times \<open>ts\<close>.\<close>

definition responses :: "u64 list \<Rightarrow> u64 list \<Rightarrow> u64 list" where
  "responses ds ts = map2 (-) ds ts"

lemma reading_step: "ticking now T \<Longrightarrow> nth_reading now k w \<le> nth_reading now (Suc k) w"
  by (induction k arbitrary: w) (simp_all add: ticking_def)

lemma reading_after: "ticking now T \<Longrightarrow> fst (now w) \<le> nth_reading now k w"
proof (induction k)
  case (Suc k)
  then show ?case using reading_step [OF Suc.prems, of k w] by (meson order_trans)
qed simp

lemma served_ordered:
  assumes "ticking now T" and "served now w ts ds" and "last_done \<le> fst (now w)"
  shows "list_all2 (\<le>) ts ds \<and> sorted (last_done # ds)"
  using assms(2,3)
proof (induction ts arbitrary: ds w last_done)
  case (Cons t ts)
  then obtain k ds' where ds: "ds = nth_reading now (Suc k) w # ds'" and "t \<le> nth_reading now k w"
    and rest: "served now (nth_world now (Suc (Suc k)) w) ts ds'" by auto
  then have "t \<le> nth_reading now (Suc k) w"
    using reading_step [OF assms(1), of k w] by (meson order_trans)
  moreover have "last_done \<le> nth_reading now (Suc k) w"
    using Cons.prems(2) reading_after [OF assms(1), of w "Suc k"] by (meson order_trans)
  moreover have "nth_reading now (Suc k) w \<le> fst (now (nth_world now (Suc (Suc k)) w))"
    using reading_step [OF assms(1), of "Suc k" w] by (simp add: nth_reading_def)
  then have "list_all2 (\<le>) ts ds' \<and> sorted (nth_reading now (Suc k) w # ds')" by (rule Cons.IH [OF rest])
  ultimately show ?case by (auto simp: ds simp del: nth_reading_simps)
qed simp

lemma co_loop_records:
  assumes tick: "ticking now T"
  shows "offsets sched i evs = Inr ts \<Longrightarrow> list_all (\<lambda>t. t \<le> T) ts \<Longrightarrow> run_book ops b evs = Inr b' \<Longrightarrow>
    \<exists>ds w'. co_loop ops H now sched i evs (b, h, last_done) w =
        Some (Inr ((b', fold (lat_record H) (responses ds ts) h, last (last_done # ds)), w')) \<and> served now w ts ds"
proof (induction evs arbitrary: i ts b h last_done w)
  case Nil
  then show ?case by (simp add: responses_def)
next
  case (Cons ev evs)
  obtain t ts' where ts: "offset_ns sched i ev = Inr t" "offsets sched (Suc i) evs = Inr ts'" "ts = t # ts'"
    using Cons.prems(1) by (auto simp: res_bind_Inr_iff res_map_Inr_iff)
  obtain b1 where b1: "ob_apply ops b ev = Inr b1" "run_book ops b1 evs = Inr b'"
    using Cons.prems(3) by (auto simp: res_bind_Inr_iff)
  have T: "t \<le> T" "list_all (\<lambda>t. t \<le> T) ts'" using Cons.prems(2) ts(3) by simp_all
  obtain k where k: "\<forall>i < k. nth_reading now i w < t" "t \<le> nth_reading now k w"
    using ticking_first [OF tick T(1)] .
  let ?w1 = "nth_world now (Suc k) w" and ?d = "nth_reading now (Suc k) w"
  have now: "now ?w1 = (?d, nth_world now (Suc (Suc k)) w)"
    by (simp add: prod_eq_iff nth_reading_def nth_world_def del: funpow.simps nth_world_simps nth_reading_simps) simp
  have "t \<le> ?d" using k(2) reading_step [OF tick, of k w] by (meson order_trans)
  then have sub: "sat_sub ?d t = ?d - t" by (simp add: sat_sub_def)
  from Cons.IH [OF ts(2) T(2) b1(2), of "lat_record H (?d - t) h" ?d "nth_world now (Suc (Suc k)) w"]
  obtain ds w' where "co_loop ops H now sched (Suc i) evs (b1, lat_record H (?d - t) h, ?d) (nth_world now (Suc (Suc k)) w) =
      Some (Inr ((b', fold (lat_record H) (responses ds ts') (lat_record H (?d - t) h), last (?d # ds)), w'))"
    "served now (nth_world now (Suc (Suc k)) w) ts' ds" by blast
  then show ?case
    using ts b1 k now sub spin_until_first [OF k]
    by (intro exI [of _ "?d # ds"] exI [of _ w'])
      (auto simp: responses_def Let_def simp del: nth_world_simps nth_reading_simps)
qed

lemma length_offsets: "offsets sched i evs = Inr ts \<Longrightarrow> length ts = length evs"
  by (induction evs arbitrary: i ts) (auto simp: res_bind_Inr_iff res_map_Inr_iff)

text \<open>
  Property C17: coordinated omission is accounted for. With a clock that runs past the last due time and a book that
  does not panic, the run returns. Every event starts at the first reading that is not before its due time and
  completes at the next reading, completions are in order, and what the histogram gets is, event by event, the
  completion minus the due time: never the service time, nothing dropped, nothing clamped to zero. So a response plus
  its due time never decreases from one event to the next, which is how a backlog shows.
\<close>
theorem co_run_records:
  assumes "ticking (now_since_ns delta raw (fst (raw w))) T" and "offsets sched 0 events = Inr ts"
    and "list_all (\<lambda>t. t \<le> T) ts" and "run_book ops (ob_default ops) events = Inr b" and "ob_best_bid ops b = Inr best" and "lat_new H = Inr h0"
  shows "\<exists>ds r w'. co_run ops H delta raw events sched w = Some (Inr (r, w'))
    \<and> rr_rec r = fold (lat_record H) (responses ds ts) h0
    \<and> rr_samples r = lat_count H (rr_rec r)
    \<and> rr_achieved r = achieved_rate (length events) (last (0 # ds))
    \<and> served (now_since_ns delta raw (fst (raw w))) (snd (raw w)) ts ds
    \<and> length ds = length events \<and> list_all2 (\<le>) ts ds \<and> sorted ds
    \<and> map2 (+) (responses ds ts) ts = ds"
proof -
  obtain base w1 where raw: "raw w = (base, w1)" by fastforce
  then have tick: "ticking (now_since_ns delta raw base) T" using assms(1) by simp
  obtain ds w' where ds: "co_loop ops H (now_since_ns delta raw base) sched 0 events (ob_default ops, h0, 0) w1 =
      Some (Inr ((b, fold (lat_record H) (responses ds ts) h0, last (0 # ds)), w'))"
    "served (now_since_ns delta raw base) w1 ts ds"
    using co_loop_records [OF tick assms(2-4), of H h0 0 w1] by blast
  have order: "list_all2 (\<le>) ts ds" "sorted (0 # ds)" using served_ordered [OF tick ds(2) word_zero_le] by simp_all
  have len: "length ts = length events" using length_offsets [OF assms(2)] .
  have "map2 (+) (responses ds ts) ts = ds"
    using order(1) by (induction rule: list_all2_induct) (simp_all add: responses_def)
  moreover define r where "r = \<lparr>rr_rec = fold (lat_record H) (responses ds ts) h0,
    rr_achieved = achieved_rate (length events) (last (0 # ds)),
    rr_samples = lat_count H (fold (lat_record H) (responses ds ts) h0)\<rparr>"
  moreover have "co_run ops H delta raw events sched w = Some (Inr (r, w'))"
    using assms(4-6) ds(1) raw by (simp add: co_run_def t_bind_def t_lift_def t_return_def r_def)
  ultimately show ?thesis
    using ds(2) order len list_all2_lengthD [OF order(1)] raw
    by (intro exI [of _ ds] exI [of _ r] exI [of _ w']) simp
qed


text \<open>A clock that counts its own reads, one nanosecond each, up to the end of the range.\<close>

definition demo_raw :: "nat \<Rightarrow> u64 \<times> nat" where
  "demo_raw w = (of_nat (min w (2 ^ 64 - 1)), Suc w)"

definition demo_delta :: "u64 \<Rightarrow> u64 \<Rightarrow> nat" where "demo_delta a b = unat b - unat a"

lemma demo_ticking: "ticking (now_since_ns demo_delta demo_raw (fst (demo_raw 0))) T"
proof -
  have clock: "unat (of_nat (min w (2 ^ 64 - 1)) :: u64) = min w (2 ^ 64 - 1)" for w
    unfolding unat_of_nat by (rule mod_less) (simp add: min_def)
  have now: "now_since_ns demo_delta demo_raw (fst (demo_raw 0)) w = (of_nat (min w (2 ^ 64 - 1)), Suc w)" for w
    using clock [of w] by (simp add: now_since_ns_def demo_raw_def delta_ns_def ns_u64_def demo_delta_def min_def)
  have run: "((\<lambda>w. snd (now_since_ns demo_delta demo_raw (fst (demo_raw 0)) w)) ^^ k) w = k + w" for k w
    by (induction k) (simp_all add: now)
  have "of_nat (min w (2 ^ 64 - 1)) \<le> (of_nat (min (Suc w) (2 ^ 64 - 1)) :: u64)" for w
    unfolding word_le_nat_alt clock by simp
  moreover have "T \<le> of_nat (min (unat T + w) (2 ^ 64 - 1))" for w
    unfolding word_le_nat_alt clock using unsigned_less [of T, where ?'a = nat] by simp
  ultimately show ?thesis
    unfolding ticking_def nth_reading_def nth_world_def run now fst_conv by auto
qed

definition demo_arrivals :: "book_event list" where
  "demo_arrivals = [ev_clear 0 0, ev_level 1 1000 Bid (Px 10) (Qty 2), ev_level 2 1040 Ask (Px 12) (Qty 1)]"

theorem co_run_records_witness:
  "\<exists>ds r w'. co_run sorted_ops demo_hist demo_delta demo_raw demo_arrivals (RealArrival 1000 2) 0 = Some (Inr (r, w'))
    \<and> rr_rec r = fold (lat_record demo_hist) (responses ds [0, 0, 20]) []
    \<and> list_all2 (\<le>) [0, 0, 20] ds \<and> sorted ds"
proof -
  have ts: "offsets (RealArrival 1000 2) 0 demo_arrivals = Inr [0, 0, 20]"
    by (simp add: demo_arrivals_def ev_defs sat_sub_def)
  have "\<forall>ev \<in> set demo_arrivals. True" by simp
  from sorted.replay_ok [OF this] obtain b where b: "run_book sorted_ops (ob_default sorted_ops) demo_arrivals = Inr b"
    "sorted_inv b" by blast
  have "lat_new demo_hist = Inr []" by (simp add: lat_new_def demo_hist_def expect_def)
  from co_run_records [OF demo_ticking ts _ b(1) sorted.best_bid_ok [OF b(2)] this, of 20] show ?thesis
    by fastforce
qed

subsection \<open>From the rows to the figure\<close>

definition plain_cell :: "string \<Rightarrow> bool" where
  "plain_cell c \<longleftrightarrow> solid (codes c) \<and> 44 \<notin> set (codes c)"

lemma codes_inject: "codes a = codes b \<longleftrightarrow> a = b"
proof -
  have "inj (of_char :: char \<Rightarrow> nat)" by (rule inj_of_char)
  then show ?thesis by (simp add: codes_def inj_map_eq_map)
qed

lemma codes_concat: "codes (concat xs) = concat (map codes xs)"
  by (induction xs) (simp_all add: codes_append)

lemma plain_show_u64: "plain_cell (show_u64 n)"
proof -
  have "44 \<notin> set (codes (show_u64 n))"
    using show_radix_dec(1) [of "unat n"] by (auto simp: show_u64_def codes_show_nat list_all_iff dec_digit_def)
  then show ?thesis using solid_show_nat by (simp add: plain_cell_def show_u64_def)
qed

lemma plain_show_fixed_0: "plain_cell (show_fixed 0 x)"
proof -
  have "44 \<notin> set (codes (show_nat n))" for n
    using show_radix_dec(1) [of n] by (auto simp: codes_show_nat list_all_iff dec_digit_def)
  then have "44 \<notin> set (codes (show_fixed 0 x))" by (simp add: show_fixed_def codes_append Let_def)
  then show ?thesis using solid_show_fixed by (simp add: plain_cell_def)
qed

lemma plain_show_bool: "plain_cell (show_bool b)"
  by (simp add: plain_cell_def show_bool_def solid_def)

lemma split_join_cells:
  "cs \<noteq> [] \<Longrightarrow> list_all plain_cell cs \<Longrightarrow> split_on (\<lambda>c. c = 44) (codes (join_cells cs)) = map codes cs"
proof (induction cs rule: join_cells.induct)
  case (2 c)
  then have "list_all (\<lambda>c. c \<noteq> 44) (codes c)" by (auto simp: plain_cell_def list_all_iff)
  then show ?case using split_on_word [of "\<lambda>c. c = 44" "codes c" "[]"] by simp
next
  case (3 c d cs)
  then have "list_all (\<lambda>c. c \<noteq> 44) (codes c)" by (auto simp: plain_cell_def list_all_iff)
  then show ?case using 3 split_on_piece [of "\<lambda>c. c = 44" "codes c" 44] by (simp add: codes_append)
qed simp

lemma solid_join_cells: "cs \<noteq> [] \<Longrightarrow> list_all plain_cell cs \<Longrightarrow> solid (codes (join_cells cs))"
  by (induction cs rule: join_cells.induct) (auto simp: plain_cell_def codes_append solid_def)

text \<open>A CSV without blanks or commas in its cells is loaded as it was written.\<close>

lemma load_rows_csv:
  assumes "printable (codes header)" and "list_all (\<lambda>r. r \<noteq> [] \<and> list_all plain_cell r) rows"
  shows "load_rows (Some (codes (csv_text header rows))) = map (map codes) rows"
proof -
  let ?ls = "map codes (header # map join_cells rows)"
  have solid: "solid (codes (join_cells r))" if "r \<in> set rows" for r
    using assms(2) that solid_join_cells by (simp add: list_all_iff)
  then have "list_all printable ?ls" using assms(1) solid_printable by (auto simp: list_all_iff)
  from str_lines_join [OF this] have "str_lines (codes (csv_text header rows)) = ?ls"
    by (simp add: csv_text_def codes_concat codes_append comp_def)
  moreover have "trim (codes (join_cells r)) \<noteq> []" if "r \<in> set rows" for r
    using trim_plain [OF solid_not_whitespace [OF solid [OF that]]] solid [OF that] by (simp add: solid_def)
  then have "filter (\<lambda>l. trim l \<noteq> []) (map (codes \<circ> join_cells) rows) = map (codes \<circ> join_cells) rows"
    by (intro filter_True) auto
  moreover have "map (split_on (\<lambda>c. c = 44)) (map (codes \<circ> join_cells) rows) = map (map codes) rows"
    using assms(2) split_join_cells by (auto simp: list_all_iff)
  ultimately show ?thesis by (simp add: load_rows_def)
qed

definition plain_row :: "sustained_row \<Rightarrow> bool" where
  "plain_row r \<longleftrightarrow> plain_cell (sr_impl r) \<and> plain_cell (sr_corpus r) \<and> plain_cell (sr_schedule r)"

lemma load_sustained_csv:
  "list_all plain_row rows \<Longrightarrow> load_rows (Some (codes (sustained_csv rows))) = map (map codes \<circ> sustained_cells) rows"
proof -
  assume plain: "list_all plain_row rows"
  have "printable (codes (csv_header ''sustained.csv''))" by (simp add: csv_header_def)
  moreover have "list_all (\<lambda>r. r \<noteq> [] \<and> list_all plain_cell r) (map sustained_cells rows)"
    using plain
    by (simp add: list_all_iff sustained_cells_def plain_row_def plain_show_u64 plain_show_fixed_0 plain_show_bool)
  ultimately show ?thesis using load_rows_csv by (simp add: sustained_csv_def)
qed

lemma parse_show_u64: "parse_f64 (codes (show_u64 n)) = Some (f64_of_nat (unat n))"
  by (simp add: show_u64_def codes_show_nat parse_f64_nat)

lemma sustained_series:
  assumes "list_all plain_row rows"
  shows "series_sets (ch_series (sustained_figure d (load_rows (Some (codes (sustained_csv rows)))) profile)) =
    map (\<lambda>name. {(f64_of_nat (unat (sr_target r)), f64_of_nat (unat (sr_p99 r))) | r.
      r \<in> set rows \<and> sr_impl r = name \<and> sr_corpus r = profile \<and> sr_schedule r = ''fixed''}) IMPLS"
  by (auto simp: series_sets_def sustained_figure_def impl_series_def load_sustained_csv [OF assms] set_column_points
      cell_is_def sustained_cells_def codes_inject parse_show_u64 simp del: codes_simps)

lemma t_bind_Inr: "t_bind m f w = Some (Inr (b, w'')) \<longleftrightarrow> (\<exists>a w'. m w = Some (Inr (a, w')) \<and> f a w' = Some (Inr (b, w'')))"
  by (cases "m w" rule: option.exhaust; cases "the (m w)") (auto simp: t_bind_def)

lemma t_map_all:
  assumes "t_map f xs w = Some (Inr (as, w'))" and "\<forall>x \<in> set xs. \<forall>w a w'. f x w = Some (Inr (a, w')) \<longrightarrow> P a"
  shows "list_all P as"
  using assms
proof (induction xs arbitrary: w as w')
  case Nil
  then show ?case by (simp add: t_return_def)
next
  case (Cons x xs)
  obtain a v bs v' where "f x w = Some (Inr (a, v))" "t_map f xs v = Some (Inr (bs, v'))" "as = a # bs"
    using Cons.prems(1) by (auto simp: t_bind_Inr t_return_def)
  then show ?case using Cons.IH [of v bs v'] Cons.prems(2) by auto
qed

lemma plain_names: "list_all plain_cell (IMPLS @ PROFILES @ [''btcusdt-sample'', ''real'', ''fixed''])"
  by (simp add: IMPLS_def PROFILES_def plain_cell_def solid_def)

lemma sustained_rows_plain:
  assumes "sustained_rows H delta raw corpora bo w = Some (Inr (rows, w'))"
  shows "list_all plain_row rows"
proof -
  have names: "plain_cell n" if "n \<in> set IMPLS \<or> n \<in> set PROFILES \<or> n \<in> {''btcusdt-sample'', ''real'', ''fixed''}" for n
    using plain_names that by (auto simp: list_all_iff)
  have row: "plain_row a" if "t_bind m (\<lambda>r. t_return (row_of H n tag sched target oh (sat r) r)) v = Some (Inr (a, v'))"
    "plain_cell n" "plain_cell tag" "plain_cell sched" for m n tag sched target oh sat v a v'
    using that by (auto simp: t_bind_Inr t_return_def row_of_def plain_row_def)
  have profile: "list_all plain_row rs"
    if "profile_rows H delta raw corpora oh tag v = Some (Inr (rs, v'))" "tag \<in> set PROFILES" for oh tag v v' rs
  proof (cases "corpora tag")
    case None
    then show ?thesis using that by (simp add: profile_rows_def t_return_def)
  next
    case (Some events)
    show ?thesis
      using that(1) [unfolded profile_rows_def Some option.case]
    proof (rule t_map_all, intro ballI allI impI, goal_cases)
      case (1 x u a u')
      obtain name rate where x: "x = (name, rate)" "name \<in> set IMPLS" using 1(2) by auto
      show ?case by (rule row [OF 1(3) [unfolded x prod.case]]) (use x that(2) in \<open>simp_all add: names\<close>)
    qed
  qed
  have real: "list_all plain_row rs" if "real_rows H delta raw corpora oh speed v = Some (Inr (rs, v'))" for oh speed v v' rs
  proof (cases "corpora ''btcusdt-sample''")
    case None
    then show ?thesis using that by (simp add: real_rows_def t_return_def)
  next
    case (Some events)
    show ?thesis
      using that [unfolded real_rows_def Some option.case Let_def]
    proof (rule t_map_all, intro ballI allI impI, goal_cases)
      case (1 x u a u')
      show ?case by (rule row [OF 1(3)]) (use 1(2) in \<open>simp_all add: names\<close>)
    qed
  qed
  obtain a b c oh v1 v2 v3 where "(if bo_skip_real bo then t_return [] else real_rows H delta raw corpora oh (bo_speed bo)) v1 = Some (Inr (a, v2))"
    "t_map (profile_rows H delta raw corpora oh) PROFILES v2 = Some (Inr (b, v3))" "rows = a @ concat b"
    using assms by (auto simp: sustained_rows_def t_bind_Inr t_return_def)
  moreover from this have "list_all plain_row a" using real by (auto simp: t_return_def split: if_splits)
  moreover have "list_all (list_all plain_row) b" using calculation(2) by (rule t_map_all) (use profile in blast)
  ultimately show ?thesis by (auto simp: list_all_iff)
qed

text \<open>
  Property C18: from the run to the figure. Whatever the run measured, the CSV it writes, loaded by the plots, gives
  for each profile and implementation exactly the points of the fixed-rate runs: the target rate and the p99
  response, as the doubles nearest to the measured integers. Real-arrival rows are not drawn.
\<close>
theorem sustained_to_figure:
  assumes "sustained_rows H delta raw corpora bo w = Some (Inr (rows, w'))"
  shows "series_sets (ch_series (sustained_figure d (load_rows (Some (codes (sustained_csv rows)))) profile)) =
    map (\<lambda>name. {(f64_of_nat (unat (sr_target r)), f64_of_nat (unat (sr_p99 r))) | r.
      r \<in> set rows \<and> sr_impl r = name \<and> sr_corpus r = profile \<and> sr_schedule r = ''fixed''}) IMPLS"
  by (rule sustained_series [OF sustained_rows_plain [OF assms]])

text \<open>A run on an empty corpus, for an example.\<close>

definition demo_corpora :: "string \<Rightarrow> book_event list option" where
  "demo_corpora tag = (if tag = ''steady'' then Some [] else None)"

definition demo_opts :: bench_opts where
  "demo_opts = \<lparr>bo_core = 0, bo_speed = 1, bo_skip_real = False, bo_out = ''results''\<rparr>"

definition returns :: "('w, 'a) timed \<Rightarrow> bool" where
  "returns m \<longleftrightarrow> (\<forall>w. \<exists>a w'. m w = Some (Inr (a, w')))"

lemma returns_simps [simp]:
  "returns (t_return a)" "returns (t_lift (Inr a))" "returns (\<lambda>w. Some (Inr (g w)))"
  by (auto simp: returns_def t_return_def t_lift_def)

lemma returns_bind: "returns m \<Longrightarrow> (\<And>a. returns (f a)) \<Longrightarrow> returns (t_bind m f)"
  unfolding returns_def t_bind_Inr by meson

lemma returns_map: "(\<And>x. x \<in> set xs \<Longrightarrow> returns (f x)) \<Longrightarrow> returns (t_map f xs)"
  by (induction xs) (auto intro!: returns_bind)

lemma co_run_empty:
  "ob_best_bid ops (ob_default ops) = Inr x \<Longrightarrow> lat_new H = Inr h \<Longrightarrow> returns (co_run ops H delta raw [] sched)"
  unfolding returns_def
proof
  fix w
  assume "ob_best_bid ops (ob_default ops) = Inr x" "lat_new H = Inr h"
  then show "\<exists>a w'. co_run ops H delta raw [] sched w = Some (Inr (a, w'))"
    by (cases "raw w") (simp add: co_run_def t_bind_def t_lift_def t_return_def)
qed

lemma run_impl_empty:
  assumes "lat_new H = Inr h" and "name \<in> set IMPLS"
  shows "returns (run_impl H delta raw name [] sched)"
proof -
  have "\<exists>x. ob_best_bid flat_ops (ob_default flat_ops) = Inr x"
    by (simp add: flat_ops_def flat_default_def flat_best_bid_def)
  then obtain x where flat: "ob_best_bid flat_ops (ob_default flat_ops) = Inr x" ..
  note runs = co_run_empty [OF btree.best_bid_ok [OF btree.inv_default] assms(1)]
    co_run_empty [OF sorted.best_bid_ok [OF sorted.inv_default] assms(1)]
    co_run_empty [OF rev.best_bid_ok [OF rev.inv_default] assms(1)] co_run_empty [OF flat assms(1)]
  have "for_impl name = Some name" using assms(2) by (auto simp: for_impl_def IMPLS_def)
  moreover have "name = ''btree'' \<or> name = ''sorted'' \<or> name = ''rev'' \<or> name = ''flat''"
    using assms(2) by (simp add: IMPLS_def)
  ultimately show ?thesis using runs by (elim disjE) (simp_all add: run_impl_def)
qed

lemma measure_overhead_returns: "returns (\<lambda>w. let (r, w') = measure_overhead delta raw w in t_lift r w')"
proof -
  have samples: "length (fst (overhead_samples delta raw n w)) = n" for n w
    by (induction n arbitrary: w) (auto simp: Let_def split: prod.split, metis fst_conv)
  have "\<exists>x w'. measure_overhead delta raw w = (Inr x, w')" for w
  proof -
    obtain xs v where v: "overhead_samples delta raw OVERHEAD_ITERS w = (xs, v)" by fastforce
    then have "length xs = OVERHEAD_ITERS" using samples [of OVERHEAD_ITERS w] by simp
    then have "length xs div 2 < length xs" by (simp add: OVERHEAD_ITERS_def)
    then show ?thesis by (simp add: measure_overhead_def v vec_get_def)
  qed
  then show ?thesis unfolding returns_def by (metis (mono_tags) case_prod_conv res_map.simps(2) t_lift_def)
qed

theorem sustained_to_figure_witness:
  "\<exists>rows w'. sustained_rows demo_hist demo_delta demo_raw demo_corpora demo_opts 0 = Some (Inr (rows, w'))
    \<and> series_sets (ch_series (sustained_figure ''plots'' (load_rows (Some (codes (sustained_csv rows)))) ''steady'')) =
      map (\<lambda>name. {(f64_of_nat (unat (sr_target r)), f64_of_nat (unat (sr_p99 r))) | r.
        r \<in> set rows \<and> sr_impl r = name \<and> sr_corpus r = ''steady'' \<and> sr_schedule r = ''fixed''}) IMPLS"
proof -
  have h: "lat_new demo_hist = Inr []" by (simp add: lat_new_def demo_hist_def expect_def)
  have profile: "returns (profile_rows demo_hist demo_delta demo_raw demo_corpora oh tag)" for oh tag
    using run_impl_empty [OF h]
    by (auto simp: profile_rows_def demo_corpora_def intro!: returns_map returns_bind)
  have "returns (sustained_rows demo_hist demo_delta demo_raw demo_corpora demo_opts)"
    unfolding sustained_rows_def real_rows_def
    by (intro returns_bind measure_overhead_returns returns_map profile) (simp_all add: demo_corpora_def)
  then obtain rows w' where "sustained_rows demo_hist demo_delta demo_raw demo_corpora demo_opts 0 = Some (Inr (rows, w'))"
    unfolding returns_def by blast
  then show ?thesis
    using sustained_to_figure [of demo_hist demo_delta demo_raw demo_corpora demo_opts 0 rows w' "''plots''" "''steady''"]
    by (intro exI conjI)
qed

end
