(* ===== verification/Book_Tests.thy ===== *)
theory Book_Tests
  imports Workload
begin

section \<open>The unit tests of the book crate\<close>

text \<open>
  The tests inside btree.rs, sorted_vec.rs, rev_vec.rs and flat.rs, as scripts over the trait. A step applies an
  event or asserts what an operation returns; \<open>Peek\<close> asserts something of the fields of the representation. \<open>play\<close>
  runs a script on an implementation with every assertion as a branch. A script that only uses the trait has the
  same verdict in every implementation (\<open>public_verdicts_agree\<close>), namely that of the abstract book.
\<close>

datatype 'b step =
    Fresh
  | Apply book_event
  | Best_Bid "level option"
  | Best_Ask "level option"
  | Depth side nat
  | Last_Trade "trade_print option"
  | Top_N side "level list" nat "level list"
  | Ladder side "level list"
  | Ladder_Each side "nat \<Rightarrow> level \<Rightarrow> bool"
  | Peek "'b \<Rightarrow> bool"

definition ensure :: "bool \<Rightarrow> 'b \<Rightarrow> 'b res" where
  "ensure c b = (if c then Inr b else Inl AssertionFailed)"

text \<open>The best-first ladder of a side, read through \<open>top_n\<close>.\<close>

definition read_ladder :: "'b order_book_ops \<Rightarrow> 'b \<Rightarrow> side \<Rightarrow> level list res" where
  "read_ladder ops b s =
     res_bind (ob_top_n ops b s (replicate (ob_depth ops b s) (px_zero, qty_zero))) (\<lambda>(n, out).
     res_bind (assert_eq n (ob_depth ops b s)) (\<lambda>_. Inr out))"

definition each :: "(nat \<Rightarrow> 'a \<Rightarrow> bool) \<Rightarrow> 'a list \<Rightarrow> bool" where
  "each P xs \<longleftrightarrow> list_all2 P [0..<length xs] xs"

fun play_step :: "'b order_book_ops \<Rightarrow> 'b step \<Rightarrow> 'b \<Rightarrow> 'b res" where
  "play_step ops Fresh b = Inr (ob_default ops)"
| "play_step ops (Apply ev) b = ob_apply ops b ev"
| "play_step ops (Best_Bid x) b = res_bind (ob_best_bid ops b) (\<lambda>y. ensure (y = x) b)"
| "play_step ops (Best_Ask x) b = res_bind (ob_best_ask ops b) (\<lambda>y. ensure (y = x) b)"
| "play_step ops (Depth s n) b = ensure (ob_depth ops b s = n) b"
| "play_step ops (Last_Trade t) b = ensure (ob_last_trade ops b = t) b"
| "play_step ops (Top_N s buf n out) b =
     res_bind (ob_top_n ops b s buf) (\<lambda>(k, buf'). ensure (k = n \<and> take (length out) buf' = out) b)"
| "play_step ops (Ladder s ls) b = res_bind (read_ladder ops b s) (\<lambda>r. ensure (r = ls) b)"
| "play_step ops (Ladder_Each s P) b = res_bind (read_ladder ops b s) (\<lambda>r. ensure (each P r) b)"
| "play_step ops (Peek P) b = ensure (P b) b"

fun play :: "'b order_book_ops \<Rightarrow> 'b step list \<Rightarrow> 'b \<Rightarrow> 'b res" where
  "play ops [] b = Inr b"
| "play ops (s # ss) b = res_bind (play_step ops s b) (play ops ss)"

definition passes :: "'b order_book_ops \<Rightarrow> 'b step list \<Rightarrow> bool" where
  "passes ops ss \<longleftrightarrow> (case play ops ss (ob_default ops) of Inl _ \<Rightarrow> False | Inr _ \<Rightarrow> True)"

subsection \<open>The verdict of a script\<close>

text \<open>The same steps on the abstract book; \<open>None\<close> for a failed assertion. A peek is allowed where the invariant gives it.\<close>

fun spec_step :: "'b step \<Rightarrow> spec_book \<Rightarrow> spec_book option" where
  "spec_step Fresh a = Some spec_empty"
| "spec_step (Apply ev) a = Some (spec_apply a ev)"
| "spec_step (Best_Bid x) a = (if spec_best_bid a = x then Some a else None)"
| "spec_step (Best_Ask x) a = (if spec_best_ask a = x then Some a else None)"
| "spec_step (Depth s n) a = (if spec_depth a s = n then Some a else None)"
| "spec_step (Last_Trade t) a = (if sp_last a = t then Some a else None)"
| "spec_step (Top_N s buf n out) a =
     (if fst (spec_top_n a s buf) = n \<and> take (length out) (snd (spec_top_n a s buf)) = out then Some a else None)"
| "spec_step (Ladder s ls) a = (if best_first a s = ls then Some a else None)"
| "spec_step (Ladder_Each s P) a = (if each P (best_first a s) then Some a else None)"
| "spec_step (Peek P) a = Some a"

fun spec_play :: "'b step list \<Rightarrow> spec_book \<Rightarrow> spec_book option" where
  "spec_play [] a = Some a"
| "spec_play (s # ss) a = Option.bind (spec_step s a) (spec_play ss)"

fun trait_step :: "('b \<Rightarrow> bool) \<Rightarrow> (book_event \<Rightarrow> bool) \<Rightarrow> 'b step \<Rightarrow> bool" where
  "trait_step J adm (Apply ev) \<longleftrightarrow> adm ev"
| "trait_step J adm (Peek P) \<longleftrightarrow> (\<forall>b. J b \<longrightarrow> P b)"
| "trait_step J adm s \<longleftrightarrow> True"

context order_book
begin

lemma read_ladder_ok: "inv b \<Longrightarrow> read_ladder ops b s = Inr (best_first (abs b) s)"
  by (simp add: read_ladder_def depth_ok top_n_ok spec_top_n_exact)

lemma play_step_ok:
  assumes "inv b" and "trait_step inv adm s"
  shows "case spec_step s (abs b) of
      None \<Rightarrow> play_step ops s b = Inl AssertionFailed
    | Some a \<Rightarrow> (\<exists>b'. play_step ops s b = Inr b' \<and> inv b' \<and> abs b' = a)"
  using assms apply_ok [of b]
  by (cases s) (auto simp: ensure_def best_bid_ok best_ask_ok depth_ok last_ok top_n_ok read_ladder_ok inv_default abs_default
        split: prod.split)

lemma play_ok:
  "inv b \<Longrightarrow> list_all (trait_step inv adm) ss \<Longrightarrow>
    (case spec_play ss (abs b) of
       None \<Rightarrow> play ops ss b = Inl AssertionFailed
     | Some a \<Rightarrow> (\<exists>b'. play ops ss b = Inr b' \<and> inv b' \<and> abs b' = a))"
proof (induction ss arbitrary: b)
  case (Cons s ss)
  then show ?case
  proof (cases "spec_step s (abs b)")
    case None
    then show ?thesis using play_step_ok [of b s] Cons.prems by simp
  next
    case (Some a)
    then obtain b' where "play_step ops s b = Inr b'" "inv b'" "abs b' = a"
      using play_step_ok [of b s] Cons.prems by auto
    then show ?thesis using Cons.IH [of b'] Cons.prems(2) Some by (auto split: option.split)
  qed
qed simp

lemma passes_iff: "list_all (trait_step inv adm) ss \<Longrightarrow> passes ops ss \<longleftrightarrow> spec_play ss spec_empty \<noteq> None"
  using play_ok [OF inv_default, of ss] by (cases "spec_play ss spec_empty") (auto simp: passes_def abs_default)

end

text \<open>A script that does not peek runs on any implementation.\<close>

fun retype :: "'a step \<Rightarrow> 'b step" where
  "retype Fresh = Fresh"
| "retype (Apply ev) = Apply ev"
| "retype (Best_Bid x) = Best_Bid x"
| "retype (Best_Ask x) = Best_Ask x"
| "retype (Depth s n) = Depth s n"
| "retype (Last_Trade t) = Last_Trade t"
| "retype (Top_N s buf n out) = Top_N s buf n out"
| "retype (Ladder s ls) = Ladder s ls"
| "retype (Ladder_Each s P) = Ladder_Each s P"
| "retype (Peek P) = Peek (\<lambda>_. True)"

lemma spec_step_retype: "spec_step (retype s) a = spec_step s a"
  by (cases s) simp_all

lemma spec_play_retype: "spec_play (map retype ss) a = spec_play ss a"
proof (induction ss arbitrary: a)
  case (Cons s ss)
  then show ?case by (cases "spec_step s a") (simp_all add: spec_step_retype)
qed simp

definition public :: "(book_event \<Rightarrow> bool) \<Rightarrow> 'b step list \<Rightarrow> bool" where
  "public adm ss \<longleftrightarrow> list_all (\<lambda>s. (\<forall>P. s \<noteq> Peek P) \<and> (\<forall>ev. s = Apply ev \<longrightarrow> adm ev)) ss"

lemma trait_retype: "public adm ss \<Longrightarrow> list_all (trait_step J adm) (map retype ss)"
proof (induction ss)
  case (Cons s ss)
  then have "trait_step J adm (retype s)" by (cases s) (auto simp: public_def)
  then show ?case using Cons by (simp add: public_def)
qed simp

context order_book
begin

lemma public_verdict:
  "public adm ss \<Longrightarrow> passes ops (map retype ss) \<longleftrightarrow> spec_play ss spec_empty \<noteq> None"
  by (simp only: passes_iff [OF trait_retype] spec_play_retype)

end

text \<open>
  One verdict for every script: a sequence of events and assertions that only uses the trait passes in one
  implementation if and only if it passes in each other, where the flat array needs level prices in a band.
\<close>
theorem public_verdicts_agree:
  assumes "public (flat_adm lo hi) ss"
  shows "(passes btree_ops (map retype ss) \<longleftrightarrow> passes sorted_ops (map retype ss))
    \<and> (passes btree_ops (map retype ss) \<longleftrightarrow> passes rev_ops (map retype ss))
    \<and> (passes btree_ops (map retype ss) \<longleftrightarrow> passes flat_ops (map retype ss))"
proof -
  have all: "public (\<lambda>_. True) ss" using assms by (auto simp: public_def list_all_iff)
  show ?thesis
    by (simp only: btree.public_verdict [OF all] sorted.public_verdict [OF all] rev.public_verdict [OF all]
        flat.public_verdict [OF assms])
qed

subsection \<open>btree.rs\<close>

definition bid :: "u64 \<Rightarrow> i64 \<Rightarrow> i64 \<Rightarrow> 'b step" where "bid i p q = Apply (ev_level i i Bid (Px p) (Qty q))"
definition ask :: "u64 \<Rightarrow> i64 \<Rightarrow> i64 \<Rightarrow> 'b step" where "ask i p q = Apply (ev_level i i Ask (Px p) (Qty q))"
definition trade_ask :: "u64 \<Rightarrow> i64 \<Rightarrow> i64 \<Rightarrow> 'b step" where "trade_ask i p q = Apply (ev_trade i i Ask (Px p) (Qty q))"
definition cleared :: "u64 \<Rightarrow> 'b step" where "cleared i = Apply (ev_clear i i)"
definition lvl :: "i64 \<Rightarrow> i64 \<Rightarrow> level" where "lvl p q = (Px p, Qty q)"

definition empty_book_observable_state :: "'b step list" where
  "empty_book_observable_state =
     [Best_Bid None, Best_Ask None, Depth Bid 0, Depth Ask 0, Last_Trade None,
      Top_N Bid (replicate 4 (lvl 0 0)) 0 [], Top_N Ask (replicate 4 (lvl 0 0)) 0 []]"

definition single_level_each_side :: "'b step list" where
  "single_level_each_side =
     [bid 1 100 5, ask 2 101 7, Best_Bid (Some (lvl 100 5)), Best_Ask (Some (lvl 101 7)), Depth Bid 1, Depth Ask 1]"

definition best_is_highest_bid_and_lowest_ask :: "'b step list" where
  "best_is_highest_bid_and_lowest_ask =
     [bid 1 98 1, bid 2 100 2, bid 3 99 3, ask 4 105 4, ask 5 103 5, ask 6 104 6,
      Best_Bid (Some (lvl 100 2)), Best_Ask (Some (lvl 103 5))]"

definition absolute_set_last_write_wins :: "'b step list" where
  "absolute_set_last_write_wins = [bid 1 100 5, bid 2 100 9, Best_Bid (Some (lvl 100 9)), Depth Bid 1]"

definition removal_and_missing_removal_is_noop :: "'b step list" where
  "removal_and_missing_removal_is_noop =
     [bid 1 100 5, bid 2 99 3, bid 3 100 0, bid 4 50 0, Depth Bid 1, Best_Bid (Some (lvl 99 3))]"

definition trade_does_not_mutate_levels :: "'b step list" where
  "trade_does_not_mutate_levels =
     [bid 1 100 5, ask 2 101 4, trade_ask 3 101 2, Last_Trade (Some (Px 101, Qty 2, Ask)),
      Best_Bid (Some (lvl 100 5)), Best_Ask (Some (lvl 101 4)), Depth Bid 1, Depth Ask 1]"

definition top_n_short_buffer :: "'b step list" where
  "top_n_short_buffer =
     [bid 1 100 5, bid 2 99 3, bid 3 98 1, Top_N Bid (replicate 2 (lvl 0 0)) 2 [lvl 100 5, lvl 99 3]]"

definition top_n_long_buffer_leaves_tail :: "'b step list" where
  "top_n_long_buffer_leaves_tail =
     [ask 1 101 4, ask 2 102 6,
      Top_N Ask (replicate 5 (lvl (- 1) (- 1))) 2 ([lvl 101 4, lvl 102 6] @ replicate 3 (lvl (- 1) (- 1)))]"

definition clear_resets_everything :: "'b step list" where
  "clear_resets_everything =
     [bid 1 100 5, ask 2 101 4, trade_ask 3 101 2, cleared 4, Best_Bid None, Best_Ask None, Last_Trade None,
      Depth Bid 0, Depth Ask 0]"

definition hand_verified_scenario :: "'b step list" where
  "hand_verified_scenario =
     [cleared 0, Best_Bid None, Best_Ask None, bid 1 100 5, Best_Bid (Some (lvl 100 5)),
      bid 2 99 3, Best_Bid (Some (lvl 100 5)), Depth Bid 2, bid 3 101 2, Best_Bid (Some (lvl 101 2)), Depth Bid 3,
      ask 4 103 4, Best_Ask (Some (lvl 103 4)), ask 5 102 1, Best_Ask (Some (lvl 102 1)), Depth Ask 2,
      trade_ask 6 102 1, Last_Trade (Some (Px 102, Qty 1, Ask)), Depth Bid 3, Depth Ask 2,
      ask 7 102 0, Best_Ask (Some (lvl 103 4)), Depth Ask 1, bid 8 101 0, Best_Bid (Some (lvl 100 5)), Depth Bid 2,
      Top_N Bid (replicate 3 (lvl 0 0)) 2 [lvl 100 5, lvl 99 3], Top_N Ask [lvl 0 0] 1 [lvl 103 4],
      cleared 9, Best_Bid None, Best_Ask None, Last_Trade None, Depth Bid 0, Depth Ask 0]"

definition btree_tests :: "'b step list list" where
  "btree_tests =
     [empty_book_observable_state, single_level_each_side, best_is_highest_bid_and_lowest_ask,
      absolute_set_last_write_wins, removal_and_missing_removal_is_noop, trade_does_not_mutate_levels,
      top_n_short_buffer, top_n_long_buffer_leaves_tail, clear_resets_everything, hand_verified_scenario]"

lemmas test_steps = bid_def ask_def trade_ask_def cleared_def lvl_def

lemmas btree_test_defs = btree_tests_def empty_book_observable_state_def single_level_each_side_def
  best_is_highest_bid_and_lowest_ask_def absolute_set_last_write_wins_def removal_and_missing_removal_is_noop_def
  trade_does_not_mutate_levels_def top_n_short_buffer_def top_n_long_buffer_leaves_tail_def
  clear_resets_everything_def hand_verified_scenario_def

subsection \<open>sorted_vec.rs and rev_vec.rs\<close>

fun strictly :: "(px \<Rightarrow> px \<Rightarrow> bool) \<Rightarrow> level list \<Rightarrow> bool" where
  "strictly r (l # m # ls) \<longleftrightarrow> r (fst l) (fst m) \<and> strictly r (m # ls)"
| "strictly r ls \<longleftrightarrow> True"

definition churn :: "'b step list" where
  "churn = [bid 1 100 5, bid 2 98 3, bid 3 102 7, bid 4 100 9, bid 5 98 0, bid 6 101 1, ask 7 110 4, ask 8 105 2,
     ask 9 108 6, ask 10 105 0]"

definition unordered_bids :: "'b step list" where
  "unordered_bids = [bid 1 99 1, bid 2 103 2, bid 3 97 3, bid 4 101 4, bid 5 95 5]"

definition unordered_asks :: "'b step list" where
  "unordered_asks = [ask 1 110 1, ask 2 104 2, ask 3 108 3, ask 4 102 4]"

definition ordered_bids :: "'b step" where
  "ordered_bids = Ladder Bid [lvl 103 2, lvl 101 4, lvl 99 1, lvl 97 3, lvl 95 5]"

definition ordered_asks :: "'b step" where
  "ordered_asks = Ladder Ask [lvl 102 4, lvl 104 2, lvl 108 3, lvl 110 1]"

definition sorted_up :: "(sorted_book \<Rightarrow> level list) \<Rightarrow> sorted_book step" where
  "sorted_up side = Peek (\<lambda>b. strictly (<) (side b))"

definition ascending_invariant_holds_after_churn :: "sorted_book step list" where
  "ascending_invariant_holds_after_churn =
     churn @ [sorted_up sv_bids, sorted_up sv_asks, Best_Bid (Some (lvl 102 7)), Best_Ask (Some (lvl 108 6)),
       Depth Bid 3, Depth Ask 2]"

definition out_of_order_inserts_yield_sorted_ladder :: "sorted_book step list" where
  "out_of_order_inserts_yield_sorted_ladder =
     unordered_bids @ [ordered_bids, Fresh] @ unordered_asks @ [ordered_asks]"

definition removal_shifts_and_absent_removal_is_noop :: "sorted_book step list" where
  "removal_shifts_and_absent_removal_is_noop =
     [bid 1 100 5, bid 2 99 3, bid 3 98 2, bid 4 99 0, bid 5 50 0, sorted_up sv_bids, Depth Bid 2,
      Ladder Bid [lvl 100 5, lvl 98 2], Fresh, ask 1 123 0, Depth Ask 0, Best_Ask None]"

fun slice_first :: "'a list \<Rightarrow> 'a option" where
  "slice_first [] = None"
| "slice_first (x # xs) = Some x"

definition best_is_at_index_zero_after_churn :: "rev_book step list" where
  "best_is_at_index_zero_after_churn =
     churn @ [Peek (\<lambda>b. slice_first (rv_bids b) = rev_best_bid b), Peek (\<lambda>b. slice_first (rv_asks b) = rev_best_ask b),
       Best_Bid (Some (lvl 102 7)), Best_Ask (Some (lvl 108 6)), Depth Bid 3, Depth Ask 2]"

definition rev_down :: "rev_book step" where "rev_down = Peek (\<lambda>b. strictly (>) (rv_bids b))"
definition rev_up :: "rev_book step" where "rev_up = Peek (\<lambda>b. strictly (<) (rv_asks b))"

definition directional_invariants_hold_after_churn :: "rev_book step list" where
  "directional_invariants_hold_after_churn =
     unordered_bids @ [rev_down, ordered_bids, Fresh] @ unordered_asks @ [rev_up, ordered_asks]"

definition worked_insertion_check_bids :: "rev_book step list" where
  "worked_insertion_check_bids =
     (let base = [bid 1 101 1, bid 2 100 2, bid 3 99 3]
      in base @ [bid 4 100 9, Peek (\<lambda>b. rv_bids b = [lvl 101 1, lvl 100 9, lvl 99 3]), rev_down, Fresh]
         @ base @ [bid 4 102 7, Peek (\<lambda>b. rv_bids b = [lvl 102 7, lvl 101 1, lvl 100 2, lvl 99 3]),
             Best_Bid (Some (lvl 102 7)), rev_down, Fresh]
         @ base @ [bid 4 98 4, Peek (\<lambda>b. rv_bids b = [lvl 101 1, lvl 100 2, lvl 99 3, lvl 98 4]), rev_down])"

definition worked_insertion_check_asks :: "rev_book step list" where
  "worked_insertion_check_asks =
     (let base = [ask 1 99 1, ask 2 100 2, ask 3 101 3]
      in base @ [ask 4 100 9, Peek (\<lambda>b. rv_asks b = [lvl 99 1, lvl 100 9, lvl 101 3]), rev_up, Fresh]
         @ base @ [ask 4 98 7, Peek (\<lambda>b. rv_asks b = [lvl 98 7, lvl 99 1, lvl 100 2, lvl 101 3]),
             Best_Ask (Some (lvl 98 7)), rev_up, Fresh]
         @ base @ [ask 4 102 4, Peek (\<lambda>b. rv_asks b = [lvl 99 1, lvl 100 2, lvl 101 3, lvl 102 4]), rev_up])"

lemma small_tests_pass:
  "list_all (passes sorted_ops) [ascending_invariant_holds_after_churn, out_of_order_inserts_yield_sorted_ladder,
     removal_shifts_and_absent_removal_is_noop]"
  "list_all (passes rev_ops) [best_is_at_index_zero_after_churn, directional_invariants_hold_after_churn,
     worked_insertion_check_bids, worked_insertion_check_asks]"
  by code_simp+

subsection \<open>Reallocation churn\<close>

definition realloc_px :: "nat \<Rightarrow> px" where "realloc_px k = Px (10000 + of_nat k)"

definition realloc_insert :: "nat \<Rightarrow> book_event" where
  "realloc_insert k = ev_level 1 1 Ask (realloc_px k) (Qty (of_nat k + 1))"

definition realloc_remove :: "nat \<Rightarrow> book_event" where
  "realloc_remove k = ev_level 0 0 Ask (realloc_px k) (Qty 0)"

definition REALLOC_N :: nat where "REALLOC_N = 600"

definition realloc_churn_preserves_ladder :: "'b step \<Rightarrow> 'b step list" where
  "realloc_churn_preserves_ladder ascending_asks =
     map (\<lambda>k. Apply (realloc_insert k)) [0..<REALLOC_N]
     @ [Depth Ask REALLOC_N, ascending_asks, Best_Ask (Some (lvl 10000 1))]
     @ map (\<lambda>k. Apply (realloc_remove (2 * k))) [0..<REALLOC_N div 2]
     @ [Depth Ask (REALLOC_N div 2), ascending_asks, Best_Ask (Some (lvl 10001 2)),
        Ladder_Each Ask (\<lambda>i l. ticks (fst l) = 10000 + (2 * of_nat i + 1))]"

lemma spec_play_append: "spec_play (xs @ ys) a = Option.bind (spec_play xs a) (spec_play ys)"
  by (induction xs arbitrary: a) (auto split: Option.bind_split)

lemma spec_play_events: "spec_play (map (\<lambda>k. Apply (f k)) ks) a = Some (fold (\<lambda>k a. spec_apply a (f k)) ks a)"
  by (induction ks arbitrary: a) simp_all

definition realloc_level :: "nat \<Rightarrow> level" where
  "realloc_level k = (realloc_px k, Qty (of_nat k + 1))"

lemma realloc_px_less: "j < 600 \<Longrightarrow> k < 600 \<Longrightarrow> realloc_px j < realloc_px k \<longleftrightarrow> j < k"
  using sint_add_nat_i64 [of 10000 j] sint_add_nat_i64 [of 10000 k] by (simp add: realloc_px_def less_px_def)

lemma realloc_px_inject: "j < 600 \<Longrightarrow> k < 600 \<Longrightarrow> realloc_px j = realloc_px k \<longleftrightarrow> j = k"
  using realloc_px_less [of j k] realloc_px_less [of k j] by (metis less_irrefl linorder_neqE_nat)

lemma realloc_qty: "k < 600 \<Longrightarrow> Qty (of_nat k + 1) \<noteq> qty_zero"
proof
  assume k: "k < 600" and "Qty (of_nat k + 1) = qty_zero"
  then have "unat (of_nat (Suc k) :: u64) = 0" by (simp add: qty_zero_def add.commute)
  then show False using k by (simp add: unat_of_nat take_bit_nat_eq_self del: of_nat_Suc)
qed

lemma ladder_ok_realloc:
  assumes "sorted_wrt (<) ks" and "\<forall>k \<in> set ks. k < 600"
  shows "ladder_ok (map realloc_level ks)"
proof -
  have "sorted_wrt (\<lambda>j k. realloc_px j < realloc_px k) ks"
    by (rule sorted_wrt_mono_rel [OF _ assms(1)]) (use assms(2) realloc_px_less in auto)
  then show ?thesis
    using assms(2) realloc_qty by (auto simp: ladder_ok_def ascending_def sorted_wrt_map realloc_level_def comp_def)
qed

lemma fold_inserts:
  "\<forall>k \<in> set ks. k < 600 \<Longrightarrow> sp_asks a = map_of v \<Longrightarrow>
    sp_asks (fold (\<lambda>k a. spec_apply a (realloc_insert k)) ks a) = map_of (rev (map realloc_level ks) @ v)"
proof (induction ks arbitrary: a v)
  case (Cons k ks)
  have "sp_asks (spec_apply a (realloc_insert k)) = map_of (realloc_level k # v)"
    using Cons.prems realloc_qty [of k]
    by (simp add: spec_apply_def realloc_insert_def ev_level_def realloc_level_def)
  from Cons.IH [OF _ this] show ?case using Cons.prems(1) by simp
qed simp

lemma fold_removes:
  "sp_asks (fold (\<lambda>k a. spec_apply a (realloc_remove (2 * k))) ks a) =
     sp_asks a |` (- (\<lambda>k. realloc_px (2 * k)) ` set ks)"
proof (induction ks arbitrary: a)
  case (Cons k ks)
  have "Qty 0 = qty_zero" by (simp add: qty_zero_def)
  then have "sp_asks (spec_apply a (realloc_remove (2 * k))) = sp_asks a |` (- {realloc_px (2 * k)})"
    by (auto simp: spec_apply_def realloc_remove_def ev_level_def restrict_map_def)
  then show ?case by (auto simp: Cons.IH restrict_map_def fun_eq_iff)
qed (simp add: restrict_map_def)

lemma map_of_realloc:
  "\<forall>k \<in> set ks. k < 600 \<Longrightarrow> map_of (map realloc_level ks) p =
    (if \<exists>k \<in> set ks. p = realloc_px k then map_of (map realloc_level ks) p else None)"
  by (auto simp: map_of_eq_None_iff realloc_level_def)

lemma map_of_realloc_at:
  "\<forall>k \<in> set ks. k < 600 \<Longrightarrow> j < 600 \<Longrightarrow>
    map_of (map realloc_level ks) (realloc_px j) = (if j \<in> set ks then Some (Qty (of_nat j + 1)) else None)"
  by (induction ks) (auto simp: realloc_level_def realloc_px_inject)

definition survivors :: "nat list" where "survivors = map (\<lambda>i. 2 * i + 1) [0..<REALLOC_N div 2]"

lemma survivors_small: "\<forall>k \<in> set survivors. k < 600"
  by (auto simp: survivors_def REALLOC_N_def)

lemma survivors_odd: "j < 600 \<Longrightarrow> j \<in> set survivors \<longleftrightarrow> odd j"
  by (auto simp: survivors_def REALLOC_N_def elim!: oddE)

lemma removed_even:
  assumes "j < 600"
  shows "realloc_px j \<in> (\<lambda>k. realloc_px (2 * k)) ` set [0..<REALLOC_N div 2] \<longleftrightarrow> even j"
proof
  assume "realloc_px j \<in> (\<lambda>k. realloc_px (2 * k)) ` set [0..<REALLOC_N div 2]"
  then obtain k where "k < 300" "realloc_px j = realloc_px (2 * k)" by (auto simp: REALLOC_N_def)
  then show "even j" using realloc_px_inject [OF assms, of "2 * k"] by simp
next
  assume "even j"
  then obtain k where "j = 2 * k" by blast
  then show "realloc_px j \<in> (\<lambda>k. realloc_px (2 * k)) ` set [0..<REALLOC_N div 2]"
    using assms by (auto simp: REALLOC_N_def)
qed

lemma map_of_survivors:
  "map_of (map realloc_level [0..<REALLOC_N]) |` (- (\<lambda>k. realloc_px (2 * k)) ` set [0..<REALLOC_N div 2]) =
     map_of (map realloc_level survivors)" (is "?l = ?r")
proof
  fix p
  have all: "\<forall>k \<in> set [0..<REALLOC_N]. k < 600" by (simp add: REALLOC_N_def)
  show "?l p = ?r p"
  proof (cases "\<exists>k < 600. p = realloc_px k")
    case True
    then obtain j where j: "j < 600" "p = realloc_px j" by blast
    then have "j \<in> set [0..<REALLOC_N]" by (simp add: REALLOC_N_def)
    then show ?thesis
      using map_of_realloc_at [OF survivors_small j(1)] map_of_realloc_at [OF all j(1)] survivors_odd [OF j(1)]
        removed_even [OF j(1)] j(2)
      by (simp only: restrict_map_def Compl_iff) simp
  next
    case False
    then have "map_of (map realloc_level ks) p = None" if "\<forall>k \<in> set ks. k < 600" for ks
      using map_of_realloc [OF that, of p] that by auto
    then show ?thesis using survivors_small all by (simp only: restrict_map_def) simp
  qed
qed

lemma survivors_shape:
  "length survivors = REALLOC_N div 2" "map realloc_level survivors \<noteq> []" "hd (map realloc_level survivors) = lvl 10001 2"
  "each (\<lambda>i l. ticks (fst l) = 10000 + (2 * of_nat i + 1)) (map realloc_level survivors)" "sorted_wrt (<) survivors"
proof -
  have "[0..<REALLOC_N div 2] = 0 # [Suc 0..<REALLOC_N div 2]" by (rule upt_conv_Cons) (simp add: REALLOC_N_def)
  then show "map realloc_level survivors \<noteq> []" "hd (map realloc_level survivors) = lvl 10001 2"
    by (simp_all add: survivors_def realloc_level_def realloc_px_def lvl_def)
  show "length survivors = REALLOC_N div 2" "sorted_wrt (<) survivors"
    by (simp_all add: survivors_def sorted_wrt_map)
  show "each (\<lambda>i l. ticks (fst l) = 10000 + (2 * of_nat i + 1)) (map realloc_level survivors)"
    by (simp add: each_def list_all2_conv_all_nth survivors_def realloc_level_def realloc_px_def)
qed

lemma inserted_shape:
  "map realloc_level [0..<REALLOC_N] \<noteq> []" "hd (map realloc_level [0..<REALLOC_N]) = lvl 10000 1"
proof -
  have "[0..<REALLOC_N] = 0 # [Suc 0..<REALLOC_N]" by (rule upt_conv_Cons) (simp add: REALLOC_N_def)
  then show "map realloc_level [0..<REALLOC_N] \<noteq> []" "hd (map realloc_level [0..<REALLOC_N]) = lvl 10000 1"
    by (simp_all add: realloc_level_def realloc_px_def lvl_def)
qed

lemma realloc_verdict: "spec_play (realloc_churn_preserves_ladder (Peek P)) spec_empty \<noteq> None"
proof -
  let ?all = "map realloc_level [0..<REALLOC_N]" and ?odd = "map realloc_level survivors"
  define a1 where "a1 = fold (\<lambda>k a. spec_apply a (realloc_insert k)) [0..<REALLOC_N] spec_empty"
  define a2 where "a2 = fold (\<lambda>k a. spec_apply a (realloc_remove (2 * k))) [0..<REALLOC_N div 2] a1"
  have small: "\<forall>k \<in> set [0..<REALLOC_N]. k < 600" by (simp add: REALLOC_N_def)
  have ok: "ladder_ok ?all" "ladder_ok ?odd"
    using ladder_ok_realloc [OF _ small] ladder_ok_realloc [OF survivors_shape(5) survivors_small] by simp_all
  then have "distinct (map fst ?all)" by (simp only: ladder_ok_def ascending_distinct)
  then have a1: "sp_asks a1 = map_of ?all"
    using fold_inserts [OF small, of spec_empty "[]"] map_of_rev_distinct [of ?all]
    by (simp only: a1_def spec_empty_def append_Nil2) simp
  have a2: "sp_asks a2 = map_of ?odd"
    by (simp only: a2_def fold_removes a1 map_of_survivors)
  have "spec_depth a1 Ask = REALLOC_N" "spec_best_ask a1 = Some (lvl 10000 1)"
    using depth_of_ladder [OF ok(1), of a1 Ask] best_ask_of_ladder [OF ok(1) a1] a1 inserted_shape by simp_all
  moreover have "spec_depth a2 Ask = REALLOC_N div 2" "spec_best_ask a2 = Some (lvl 10001 2)" "best_first a2 Ask = ?odd"
    using depth_of_ladder [OF ok(2), of a2 Ask] best_ask_of_ladder [OF ok(2) a2] a2 survivors_shape(1-3)
      best_first_of_ladder(2) [OF ok(2) a2] by simp_all
  ultimately show ?thesis
    using survivors_shape(4)
    by (simp add: realloc_churn_preserves_ladder_def spec_play_append spec_play_events flip: a1_def a2_def)
qed

lemma strictly_ascending_ladder: "ascending v \<Longrightarrow> strictly (<) v"
  by (induction "(<) :: px \<Rightarrow> px \<Rightarrow> bool" v rule: strictly.induct) auto

lemma realloc_trait:
  "(\<forall>b. J b \<longrightarrow> P b) \<Longrightarrow> list_all (trait_step J (\<lambda>_. True)) (realloc_churn_preserves_ladder (Peek P))"
  by (auto simp: realloc_churn_preserves_ladder_def list_all_iff)

lemma realloc_passes:
  "passes sorted_ops (realloc_churn_preserves_ladder (sorted_up sv_asks))"
  "passes rev_ops (realloc_churn_preserves_ladder rev_up)"
  unfolding sorted_up_def rev_up_def
  by (subst sorted.passes_iff rev.passes_iff;
      simp add: realloc_trait realloc_verdict sorted_inv_def rev_inv_def ladder_ok_def strictly_ascending_ladder)+

subsection \<open>flat.rs\<close>

definition best_and_probe_after_churn :: "'b step list" where
  "best_and_probe_after_churn =
     [bid 1 100 5, bid 2 98 3, bid 3 102 7, bid 4 102 0, ask 5 110 4, ask 6 105 2, ask 7 105 0,
      Best_Bid (Some (lvl 100 5)), Best_Ask (Some (lvl 110 4)), Depth Bid 2, Depth Ask 1,
      Ladder Bid [lvl 100 5, lvl 98 3]]"

definition update_in_place_is_o1 :: "'b step list" where
  "update_in_place_is_o1 = [bid 1 100 5, bid 2 100 9, Best_Bid (Some (lvl 100 9)), Depth Bid 1]"

definition remove_absent_is_noop :: "'b step list" where
  "remove_absent_is_noop = [bid 1 100 0, bid 2 100 5, bid 3 99 0, Best_Bid (Some (lvl 100 5)), Depth Bid 1]"

definition flat_tests :: "'b step list list" where
  "flat_tests = [best_and_probe_after_churn, update_in_place_is_o1, remove_absent_is_noop]"

lemmas flat_test_defs = flat_tests_def best_and_probe_after_churn_def update_in_place_is_o1_def remove_absent_is_noop_def

subsection \<open>All tests\<close>

definition sorted_tests :: "sorted_book step list list" where
  "sorted_tests =
     [ascending_invariant_holds_after_churn, out_of_order_inserts_yield_sorted_ladder,
      removal_shifts_and_absent_removal_is_noop, realloc_churn_preserves_ladder (sorted_up sv_asks)]"

definition rev_tests :: "rev_book step list list" where
  "rev_tests =
     [best_is_at_index_zero_after_churn, directional_invariants_hold_after_churn, worked_insertion_check_bids,
      worked_insertion_check_asks, realloc_churn_preserves_ladder rev_up]"

text \<open>
  The unit tests of the four implementations hold of their models, each assertion included; the tests of
  \<open>BTreeBook\<close> and \<open>FlatBook\<close> use only the trait and hold of all four.
\<close>
lemma book_unit_tests:
  "list_all (passes btree_ops) (btree_tests @ flat_tests)
   \<and> list_all (passes sorted_ops) (sorted_tests @ btree_tests @ flat_tests)
   \<and> list_all (passes rev_ops) (rev_tests @ btree_tests @ flat_tests)
   \<and> list_all (passes flat_ops) (btree_tests @ flat_tests)"
proof -
  let ?tests = "btree_tests @ flat_tests :: unit step list list"
  note defs = flat_test_defs btree_test_defs test_steps
  have public: "public (flat_adm 0 200) t" if "t \<in> set ?tests" for t
    using that by (auto simp: defs public_def flat_adm_def band_ok_def MAX_SPAN_def in_band_def ev_defs)
  have retype: "map (map retype) ?tests = (btree_tests @ flat_tests :: 'b step list list)" for dummy :: 'b
    by (simp add: defs)
  have "list_all (passes btree_ops) (map (map retype) ?tests)" unfolding retype by code_simp
  then have all: "list_all (passes btree_ops) (map (map retype) ?tests) \<and> list_all (passes sorted_ops) (map (map retype) ?tests)
      \<and> list_all (passes rev_ops) (map (map retype) ?tests) \<and> list_all (passes flat_ops) (map (map retype) ?tests)"
    using public_verdicts_agree [OF public] unfolding list_all_iff set_map by blast
  show ?thesis
    using all small_tests_pass realloc_passes unfolding retype by (simp add: sorted_tests_def rev_tests_def)
qed

end
