(* ===== verification/Sync_Tests.thy ===== *)
theory Sync_Tests
  imports Ring Seqlock
begin

section \<open>The ring as a history, and the unit tests of the sync crate\<close>

text \<open>
  Whole operations of one producer and any number of consumers, in any order. The abstract ring is the history of
  pushed records with a cursor per consumer; \<open>ring_runs_as_history\<close> says that the ring's cells, stamps and
  wrapping positions observe as that history does. The unit tests of ring.rs are scripts of this kind, and those
  of seqlock.rs store and load; each assertion is part of the expected result.
\<close>

datatype ring_op = Push "u64 list" | Mint nat | Mint_Oldest nat | Recv nat | Cursor nat

datatype ring_obs = Got recv | At u64

type_synonym ring_machine = "ring_loc plain \<times> (nat \<Rightarrow> u64)"

fun rest_step :: "ring \<Rightarrow> ring_op \<Rightarrow> ring_machine \<Rightarrow> ring_obs option \<times> ring_machine" where
  "rest_step R (Push rec) (\<sigma>, cs) = (None, plain_push R rec \<sigma>, cs)"
| "rest_step R (Mint i) (\<sigma>, cs) = (None, \<sigma>, cs(i := plain_read \<sigma> consumer))"
| "rest_step R (Mint_Oldest i) (\<sigma>, cs) = (None, \<sigma>, cs(i := plain_read \<sigma> (consumer_from_oldest R)))"
| "rest_step R (Recv i) (\<sigma>, cs) = (let (r, c) = plain_read \<sigma> (try_recv R (cs i)) in (Some (Got r), \<sigma>, cs(i := c)))"
| "rest_step R (Cursor i) (\<sigma>, cs) = (Some (At (cs i)), \<sigma>, cs)"

fun ring_observe :: "ring \<Rightarrow> ring_op list \<Rightarrow> ring_machine \<Rightarrow> ring_obs list" where
  "ring_observe R [] m = []"
| "ring_observe R (op # ops) m =
     (let (ob, m') = rest_step R op m in (case ob of None \<Rightarrow> [] | Some x \<Rightarrow> [x]) @ ring_observe R ops m')"

subsection \<open>The history\<close>

type_synonym history = "u64 list list \<times> (nat \<Rightarrow> nat)"

definition hist_recv :: "nat \<Rightarrow> u64 list list \<Rightarrow> nat \<Rightarrow> recv \<times> nat" where
  "hist_recv cap recs c =
     (if c = length recs then (Empty, c)
      else if length recs \<le> c + cap then (Item (recs ! c), c + 1)
      else (Overrun (of_nat (length recs - cap - c)), length recs - cap))"

fun hist_step :: "nat \<Rightarrow> ring_op \<Rightarrow> history \<Rightarrow> ring_obs option \<times> history" where
  "hist_step cap (Push rec) (recs, cs) = (None, recs @ [rec], cs)"
| "hist_step cap (Mint i) (recs, cs) = (None, recs, cs(i := length recs))"
| "hist_step cap (Mint_Oldest i) (recs, cs) = (None, recs, cs(i := length recs - cap))"
| "hist_step cap (Recv i) (recs, cs) = (let (r, c) = hist_recv cap recs (cs i) in (Some (Got r), recs, cs(i := c)))"
| "hist_step cap (Cursor i) (recs, cs) = (Some (At (of_nat (cs i))), recs, cs)"

fun hist_observe :: "nat \<Rightarrow> ring_op list \<Rightarrow> history \<Rightarrow> ring_obs list" where
  "hist_observe cap [] h = []"
| "hist_observe cap (op # ops) h =
     (let (ob, h') = hist_step cap op h in (case ob of None \<Rightarrow> [] | Some x \<Rightarrow> [x]) @ hist_observe cap ops h')"

fun push_count :: "ring_op list \<Rightarrow> nat" where
  "push_count [] = 0"
| "push_count (Push rec # ops) = Suc (push_count ops)"
| "push_count (op # ops) = push_count ops"

definition words_ok :: "nat \<Rightarrow> ring_op list \<Rightarrow> bool" where
  "words_ok W ops \<longleftrightarrow> list_all (\<lambda>op. \<forall>rec. op = Push rec \<longrightarrow> length rec = W) ops"

definition tracks :: "ring \<Rightarrow> history \<Rightarrow> ring_machine \<Rightarrow> bool" where
  "tracks R h m \<longleftrightarrow>
     (case (h, m) of ((recs, ps), (\<sigma>, cs)) \<Rightarrow>
        \<sigma> = ring_run R recs \<and> recs_ok R recs \<and> (\<forall>i. ps i \<le> length recs \<and> cs i = of_nat (ps i)))"

lemma hist_recv_le: "c \<le> length recs \<Longrightarrow> snd (hist_recv cap recs c) \<le> length recs"
  by (simp add: hist_recv_def)

lemma rest_step_history:
  assumes wf: "ring_wf R" and rep: "tracks R h m" and "words_ok (rg_width R) [op]"
    and n: "length (fst h) + push_count [op] \<le> 2 ^ 63"
  shows "fst (rest_step R op m) = fst (hist_step (rg_cap R) op h)
    \<and> tracks R (snd (hist_step (rg_cap R) op h)) (snd (rest_step R op m))
    \<and> length (fst (snd (hist_step (rg_cap R) op h))) = length (fst h) + push_count [op]"
proof -
  obtain recs ps \<sigma> cs where h: "h = (recs, ps)" and m: "m = (\<sigma>, cs)" by (cases h; cases m)
  have rep': "\<sigma> = ring_run R recs" "recs_ok R recs" "ps i \<le> length recs" "cs i = of_nat (ps i)" for i
    using rep by (simp_all add: tracks_def h m)
  have n': "length recs \<le> 2 ^ 63" using n by (cases op) (simp_all add: h)
  have w: "\<sigma> WritePos = of_nat (length recs)"
    using resident_run [OF wf rep'(2) n'] by (simp add: resident_def rep'(1))
  show ?thesis
  proof (cases op)
    case (Push rec)
    then have "recs_ok R (recs @ [rec])" using assms(3) rep'(2) by (simp add: recs_ok_def words_ok_def)
    moreover have "plain_push R rec \<sigma> = ring_run R (recs @ [rec])" by (simp add: ring_run_def rep'(1))
    ultimately show ?thesis using Push rep'(3,4) by (simp add: tracks_def h m le_Suc_eq)
  next
    case (Mint i)
    then show ?thesis using rep' w by (auto simp: tracks_def h m consumer_def)
  next
    case (Mint_Oldest i)
    then show ?thesis
      using rep' w u64_sat_sub_nat [of "length recs" "rg_cap R"] n' cap_small [OF wf]
      by (auto simp: tracks_def h m consumer_from_oldest_def)
  next
    case (Recv i)
    have "plain_read \<sigma> (try_recv R (cs i)) =
        (fst (hist_recv (rg_cap R) recs (ps i)), of_nat (snd (hist_recv (rg_cap R) recs (ps i))))"
      using try_recv_rest [OF wf rep'(2) n' rep'(3) [of i]] rep'(1,4) by (simp add: hist_recv_def)
    then show ?thesis
      using Recv rep' hist_recv_le [OF rep'(3), of "rg_cap R" i] by (auto simp: tracks_def h m split: prod.split)
  next
    case (Cursor i)
    then show ?thesis using rep' by (simp add: tracks_def h m)
  qed
qed

lemma ring_observe_history:
  assumes "ring_wf R"
  shows "tracks R h m \<Longrightarrow> words_ok (rg_width R) ops \<Longrightarrow> length (fst h) + push_count ops \<le> 2 ^ 63 \<Longrightarrow>
    ring_observe R ops m = hist_observe (rg_cap R) ops h"
proof (induction ops arbitrary: h m)
  case (Cons op ops)
  have ok: "words_ok (rg_width R) [op]" "words_ok (rg_width R) ops" using Cons.prems(2) by (simp_all add: words_ok_def)
  have n: "push_count (op # ops) = push_count [op] + push_count ops" by (cases op) simp_all
  have step: "fst (rest_step R op m) = fst (hist_step (rg_cap R) op h)"
    "tracks R (snd (hist_step (rg_cap R) op h)) (snd (rest_step R op m))"
    "length (fst (snd (hist_step (rg_cap R) op h))) = length (fst h) + push_count [op]"
    using rest_step_history [OF assms Cons.prems(1) ok(1)] Cons.prems(3) n by auto
  have "ring_observe R ops (snd (rest_step R op m)) = hist_observe (rg_cap R) ops (snd (hist_step (rg_cap R) op h))"
    using Cons.IH [OF step(2) ok(2)] step(3) Cons.prems(3) n by simp
  then show ?case using step(1) by (simp add: case_prod_beta)
qed simp

lemma ring_is_history:
  assumes "with_capacity W cap = Inr R" and "words_ok W ops" and "push_count ops \<le> 2 ^ 63"
  shows "ring_observe R ops (ring_fresh, \<lambda>_. 0) = hist_observe cap ops ([], \<lambda>_. 0)"
proof -
  have R: "rg_cap R = cap" "rg_width R = W" "ring_wf R"
    using assms(1) with_capacity_wf by (auto simp: with_capacity_def split: if_splits)
  have "tracks R ([], \<lambda>_. 0) (ring_fresh, \<lambda>_. 0)"
    by (simp add: tracks_def ring_run_def recs_ok_def)
  from ring_observe_history [OF R(3) this] show ?thesis using assms(2,3) R(1,2) by simp
qed

text \<open>
  Property C31: a ring at rest is its history. For any order of pushes, joins (live or from the oldest resident
  record), receives and cursor reads of any number of consumers, up to \<open>2 ^ 63\<close> pushes, what is observed is what
  the sequence of pushed records and one position per consumer determine: consumers do not disturb each other, a
  record is delivered while it is among the last \<open>cap\<close>, and a loss is reported with its exact size.
\<close>
theorem ring_runs_as_history:
  assumes "with_capacity W cap = Inr R" and "words_ok W ops" and "push_count ops \<le> 2 ^ 63"
  shows "ring_observe R ops (ring_fresh, \<lambda>_. 0) = hist_observe cap ops ([], \<lambda>_. 0)"
  using assms by (rule ring_is_history)

theorem ring_runs_as_history_witness:
  "ring_observe \<lparr>rg_cap = 2, rg_width = 1, rg_mask = 1\<rparr>
     [Push [5], Mint 0, Push [6], Push [7], Push [8], Recv 0, Mint_Oldest 1, Recv 1, Recv 0] (ring_fresh, \<lambda>_. 0) =
   [Got (Overrun 1), Got (Item [7]), Got (Item [7])]"
  by (subst ring_runs_as_history [of 1 2]) (simp_all add: with_capacity_small [simplified] words_ok_def hist_recv_def)

subsection \<open>ring.rs\<close>

definition witness :: "nat \<Rightarrow> nat \<Rightarrow> u64 list" where
  "witness W pos = map (\<lambda>k. of_nat (pos * W + k)) [0..<W]"

text \<open>A test: words per record, capacity, the operations and what each observation is asserted to be.\<close>

type_synonym ring_test = "nat \<times> nat \<times> ring_op list \<times> ring_obs list"

definition ring_test_passes :: "ring_test \<Rightarrow> bool" where
  "ring_test_passes t =
     (case t of (W, cap, ops, expected) \<Rightarrow>
        (case with_capacity W cap of
           Inl _ \<Rightarrow> False
         | Inr R \<Rightarrow> ring_observe R ops (ring_fresh, \<lambda>_. 0) = expected))"

definition push_all :: "nat \<Rightarrow> nat \<Rightarrow> nat \<Rightarrow> ring_op list" where
  "push_all W a b = map (\<lambda>pos. Push (witness W pos)) [a..<b]"

definition recv_items :: "nat \<Rightarrow> nat \<Rightarrow> nat \<Rightarrow> ring_obs list" where
  "recv_items W a b = map (\<lambda>pos. Got (Item (witness W pos))) [a..<b]"

definition empty_when_caught_up :: ring_test where
  "empty_when_caught_up = (2, 4, [Mint 0, Recv 0], [Got Empty])"

definition push_recv_round_trip :: ring_test where
  "push_recv_round_trip =
     (4, 8, Mint 0 # push_all 4 0 5 @ replicate 6 (Recv 0), recv_items 4 0 5 @ [Got Empty])"

definition wrap_past_capacity_with_fast_consumer_no_overrun :: ring_test where
  "wrap_past_capacity_with_fast_consumer_no_overrun =
     (2, 4, Mint 0 # concat (map (\<lambda>pos. [Push (witness 2 pos), Recv 0]) [0..<100]) @ [Recv 0],
      recv_items 2 0 100 @ [Got Empty])"

definition stalled_consumer_detects_overrun_then_resumes_in_order :: ring_test where
  "stalled_consumer_detects_overrun_then_resumes_in_order =
     (let cap = 4; extra = 3; total = cap + extra
      in (2, cap, Mint 0 # push_all 2 0 total @ replicate (1 + cap + 1) (Recv 0),
          Got (Overrun (of_nat extra)) # recv_items 2 extra total @ [Got Empty]))"

definition live_consumer_starts_at_current_position :: ring_test where
  "live_consumer_starts_at_current_position =
     (2, 8, push_all 2 0 2 @ [Mint 0, Cursor 0] @ push_all 2 2 3 @ [Recv 0], At 2 # recv_items 2 2 3)"

definition from_oldest_replays_resident_history :: ring_test where
  "from_oldest_replays_resident_history =
     (2, 4, push_all 2 0 6 @ [Mint_Oldest 0, Cursor 0] @ replicate 5 (Recv 0), At 2 # recv_items 2 2 6 @ [Got Empty])"

definition two_consumers_are_independent :: ring_test where
  "two_consumers_are_independent =
     (1, 8, [Mint 0, Mint 1] @ push_all 1 0 3 @ replicate 4 (Recv 0) @ Cursor 1 # replicate 3 (Recv 1),
      recv_items 1 0 3 @ [Got Empty, At 0] @ recv_items 1 0 3)"

definition ring_tests :: "ring_test list" where
  "ring_tests =
     [empty_when_caught_up, push_recv_round_trip, wrap_past_capacity_with_fast_consumer_no_overrun,
      stalled_consumer_detects_overrun_then_resumes_in_order, live_consumer_starts_at_current_position,
      from_oldest_replays_resident_history, two_consumers_are_independent]"

text \<open>On the history the expected results are computed.\<close>

definition hist_test :: "ring_test \<Rightarrow> bool" where
  "hist_test t =
     (case t of (W, cap, ops, expected) \<Rightarrow>
        list_ex (\<lambda>k. cap = 2 ^ k) [0..<8] \<and> words_ok W ops \<and> push_count ops \<le> 1000
        \<and> hist_observe cap ops ([], \<lambda>_. 0) = expected)"

lemma words_ok_code [code]:
  "words_ok W ops = list_all (\<lambda>op. case op of Push rec \<Rightarrow> length rec = W | _ \<Rightarrow> True) ops"
  by (auto simp: words_ok_def list_all_iff split: ring_op.splits)

lemma hist_test_passes: "hist_test t \<Longrightarrow> ring_test_passes t"
proof -
  assume "hist_test t"
  then obtain W cap ops expected k where t: "t = (W, cap, ops, expected)" and cap: "cap = 2 ^ k" "k < 8"
    and ok: "words_ok W ops" "push_count ops \<le> 1000" and obs: "hist_observe cap ops ([], \<lambda>_. 0) = expected"
    by (cases t) (auto simp: hist_test_def list_ex_iff)
  have "is_power_of_two cap" using cap by (auto simp: is_power_of_two_def list_ex_iff)
  then obtain R where R: "with_capacity W cap = Inr R" by (simp add: with_capacity_def)
  have "push_count ops \<le> 2 ^ 63" using ok(2) by simp
  from ring_is_history [OF R ok(1) this] show ?thesis by (simp add: ring_test_passes_def t R obs)
qed

text \<open>A consumer that receives after every push never trails by more than one.\<close>

lemma hist_keeps_up:
  "0 < cap \<Longrightarrow> hist_observe cap (concat (map (\<lambda>pos. [Push (f pos), Recv i]) [a..<a + n]) @ ops) (map f [0..<a], cs(i := a)) =
    map (\<lambda>pos. Got (Item (f pos))) [a..<a + n] @ hist_observe cap ops (map f [0..<a + n], cs(i := a + n))"
proof (induction n arbitrary: ops)
  case (Suc n)
  have recv: "hist_recv cap (map f [0..<a + n] @ [f (a + n)]) (a + n) = (Item (f (a + n)), Suc (a + n))"
    using Suc.prems by (simp add: hist_recv_def nth_append)
  have "hist_observe cap (Push (f (a + n)) # Recv i # ops) (map f [0..<a + n], cs(i := a + n)) =
      Got (Item (f (a + n))) # hist_observe cap ops (map f [0..<Suc (a + n)], cs(i := Suc (a + n)))"
    by (simp add: recv)
  then show ?case
    using Suc.IH [OF Suc.prems, of "Push (f (a + n)) # Recv i # ops"] by (simp add: fun_upd_def del: hist_observe.simps)
qed simp

lemma wrap_hist_test: "hist_test wrap_past_capacity_with_fast_consumer_no_overrun"
proof -
  have count: "push_count (concat (map (\<lambda>pos. [Push (f pos), Recv 0]) ps) @ [Recv 0]) = length ps" for f and ps :: "nat list"
    by (induction ps) simp_all
  have words: "words_ok 2 (Mint 0 # concat (map (\<lambda>pos. [Push (witness 2 pos), Recv 0]) ps) @ [Recv 0])" for ps
    by (auto simp: words_ok_def list_all_iff witness_def)
  have "list_ex (\<lambda>k. 4 = (2 :: nat) ^ k) [0..<8]" by code_simp
  moreover have "(\<lambda>_. 0)(0 := 0) = (\<lambda>_ :: nat. 0 :: nat)" by auto
  ultimately show ?thesis
    using count words hist_keeps_up [of 4 "witness 2" 0 0 100 "[Recv 0]" "\<lambda>_. 0"]
    by (simp add: hist_test_def wrap_past_capacity_with_fast_consumer_no_overrun_def recv_items_def hist_recv_def
        del: upt_rec_numeral)
qed

lemma ring_tests_pass: "list_all ring_test_passes ring_tests"
proof -
  have "list_all hist_test [empty_when_caught_up, push_recv_round_trip,
      stalled_consumer_detects_overrun_then_resumes_in_order, live_consumer_starts_at_current_position,
      from_oldest_replays_resident_history, two_consumers_are_independent]" by code_simp
  then show ?thesis using hist_test_passes wrap_hist_test by (simp add: ring_tests_def)
qed

subsection \<open>seqlock.rs\<close>

definition snap :: "u64 \<Rightarrow> top_of_book" where
  "snap stamp =
     \<lparr>tob_bid_px = 10, tob_bid_qty = 20, tob_ask_px = 11, tob_ask_qty = 21, tob_stamp = stamp\<rparr>"

text \<open>Stores, each followed by the assertion that a load returns what was stored.\<close>

fun store_and_load :: "top_of_book list \<Rightarrow> seq_loc plain \<Rightarrow> bool" where
  "store_and_load [] \<sigma> \<longleftrightarrow> True"
| "store_and_load (t # ts) \<sigma> \<longleftrightarrow>
     (let \<sigma>' = plain_store t \<sigma> in seqlock_load \<sigma>' = Some t \<and> store_and_load ts \<sigma>')"

definition new_then_load_returns_init :: bool where
  "new_then_load_returns_init \<longleftrightarrow> seqlock_load (seqlock_new (snap 7)) = Some (snap 7)"

definition store_then_load_returns_stored :: bool where
  "store_then_load_returns_stored \<longleftrightarrow> store_and_load [snap 42] (seqlock_new tob_default)"

definition round_trips_several_distinct_snapshots :: bool where
  "round_trips_several_distinct_snapshots \<longleftrightarrow> store_and_load
     [\<lparr>tob_bid_px = 1, tob_bid_qty = 2, tob_ask_px = 3, tob_ask_qty = 4, tob_stamp = 1\<rparr>,
      \<lparr>tob_bid_px = - 100, tob_bid_qty = 0, tob_ask_px = 100, tob_ask_qty = 5, tob_stamp = 2\<rparr>,
      \<lparr>tob_bid_px = - (2 ^ 63), tob_bid_qty = 2 ^ 63 - 1, tob_ask_px = 0, tob_ask_qty = - 1, tob_stamp = 2 ^ 64 - 1\<rparr>]
     (seqlock_new tob_default)"

definition default_snapshot_is_all_zero :: bool where
  "default_snapshot_is_all_zero \<longleftrightarrow> seqlock_load (seqlock_new tob_default) =
     Some \<lparr>tob_bid_px = 0, tob_bid_qty = 0, tob_ask_px = 0, tob_ask_qty = 0, tob_stamp = 0\<rparr>"

definition seqlock_tests :: bool where
  "seqlock_tests \<longleftrightarrow> new_then_load_returns_init \<and> store_then_load_returns_stored
     \<and> round_trips_several_distinct_snapshots \<and> default_snapshot_is_all_zero"

lemma load_new: "seqlock_load (seqlock_new t) = Some t"
  by (simp add: seqlock_load_def seqlock_load_stable payload_locs_def tob_of_def)

lemma load_stored:
  assumes "to_u32 (\<sigma> Seq) AND 1 = 0"
  shows "seqlock_load (plain_store t \<sigma>) = Some t" and "to_u32 (plain_store t \<sigma> Seq) AND 1 = 0"
  using even_plus_two [OF assms]
  by (simp_all add: seqlock_load_def seqlock_load_stable plain_store_seq plain_store_words)

lemma store_and_load_ok: "to_u32 (\<sigma> Seq) AND 1 = 0 \<Longrightarrow> store_and_load ts \<sigma>"
  by (induction ts arbitrary: \<sigma>) (simp_all add: load_stored)

lemma seqlock_tests_pass: "seqlock_tests"
  by (simp add: seqlock_tests_def new_then_load_returns_init_def store_then_load_returns_stored_def
      round_trips_several_distinct_snapshots_def default_snapshot_is_all_zero_def load_new store_and_load_ok
      del: store_and_load.simps)
    (simp add: tob_default_def)

end
