(* ===== verification/Data_Tests.thy ===== *)
theory Data_Tests
  imports Corpus Pack Rng
begin

section \<open>The unit tests of the data types and the corpus\<close>

text \<open>
  The tests inside price.rs, event.rs, pack.rs, rng.rs and corpus.rs as propositions over the models, each the
  conjunction of its assertions; a panic or an \<open>Err\<close> where a value is expected makes it false. Left out are
  the layout tests of price.rs and event.rs, and those that compare a function with itself (\<open>deterministic_stream\<close>,
  \<open>determinism_byte_identical\<close>).
\<close>

subsection \<open>price.rs, event.rs\<close>

definition px_orders_like_an_integer :: bool where
  "px_orders_like_an_integer \<longleftrightarrow> Px 99 < Px 100 \<and> Px (- 1) < Px 0 \<and> sort [Px 3, Px 1, Px 2] = [Px 1, Px 2, Px 3]"

definition px_diff_is_signed :: bool where
  "px_diff_is_signed \<longleftrightarrow> px_diff (Px 105) (Px 100) = 5 \<and> px_diff (Px 100) (Px 105) = - 5
     \<and> px_diff (Px 100) (Px 100) = 0"

definition px_tick_arithmetic :: bool where
  "px_tick_arithmetic \<longleftrightarrow> px_add (Px 100) 5 = Px 105 \<and> px_sub (Px 100) 5 = Px 95"

definition qty_arithmetic_and_zero :: bool where
  "qty_arithmetic_and_zero \<longleftrightarrow>
     is_zero qty_zero \<and> (let q = qty_add (Qty 10) (Qty 5) in q = Qty 15 \<and> is_zero (qty_sub q (Qty 15)))"

definition side_opposite :: bool where
  "side_opposite \<longleftrightarrow> opposite Bid = Ask \<and> opposite Ask = Bid"

definition constructors_set_kind_and_fields :: bool where
  "constructors_set_kind_and_fields \<longleftrightarrow>
     (let l = ev_level 1 10 Bid (Px 100) (Qty 5); t = ev_trade 2 20 Ask (Px 101) (Qty 2); c = ev_clear 3 30
      in ev_kind l = Level \<and> (ev_side l, ev_px l, ev_qty l) = (Bid, Px 100, Qty 5)
         \<and> ev_kind t = Trade \<and> ev_side t = Ask \<and> ev_kind c = Clear)"

definition book_data_tests :: bool where
  "book_data_tests \<longleftrightarrow> px_orders_like_an_integer \<and> px_diff_is_signed \<and> px_tick_arithmetic
     \<and> qty_arithmetic_and_zero \<and> side_opposite \<and> constructors_set_kind_and_fields"

lemma book_data_tests_pass: "book_data_tests"
  by code_simp

subsection \<open>pack.rs, rng.rs\<close>

definition packed_events :: "book_event list" where
  "packed_events =
     [ev_level 0 100 Bid (Px 65000) (Qty 12), ev_level 1 200 Ask (Px (- 7)) (Qty 0), ev_trade 2 300 Ask (Px 64999) (Qty 5),
      ev_trade 3 400 Bid (Px 65001) (Qty 1), ev_clear 4 500,
      ev_level (- 1) (- 1) Ask (Px (- (2 ^ 63))) (Qty (2 ^ 63 - 1)), ev_level 6 600 Bid (Px (2 ^ 63 - 1)) (Qty (- (2 ^ 63)))]"

definition round_trip_is_identity :: bool where
  "round_trip_is_identity \<longleftrightarrow> list_all (\<lambda>ev. unpack (pack ev) = Inr ev) packed_events"

definition bad_side_is_rejected :: bool where
  "bad_side_is_rejected \<longleftrightarrow>
     (let rec = pack (ev_clear 0 0) in unpack (rec[4 := (rec ! 4 AND NOT 0xFF) OR 7]) = Inl (BadSide 7))"

definition bad_kind_is_rejected :: bool where
  "bad_kind_is_rejected \<longleftrightarrow>
     (let rec = pack (ev_clear 0 0) in unpack (rec[4 := (rec ! 4 AND 0xFF) OR push_bit 8 9]) = Inl (BadKind 9))"

definition distinct_seeds_diverge :: bool where
  "distinct_seeds_diverge \<longleftrightarrow> fst (next_u64 (splitmix_new 1)) \<noteq> fst (next_u64 (splitmix_new 2))"

fun below_in_range :: "nat \<Rightarrow> splitmix \<Rightarrow> bool" where
  "below_in_range 0 s \<longleftrightarrow> True"
| "below_in_range (Suc n) s \<longleftrightarrow> (case below 10 s of Inl _ \<Rightarrow> False | Inr (x, s') \<Rightarrow> x < 10 \<and> below_in_range n s')"

definition below_is_in_range :: bool where
  "below_is_in_range \<longleftrightarrow> below_in_range 1000 (splitmix_new 42)"

definition pack_rng_tests :: bool where
  "pack_rng_tests \<longleftrightarrow> round_trip_is_identity \<and> bad_side_is_rejected \<and> bad_kind_is_rejected
     \<and> distinct_seeds_diverge \<and> below_is_in_range"

lemma below_stays_in_range: "below_in_range n s"
  by (induction n arbitrary: s) (auto simp: below_def word_mod_less_divisor split: prod.split)

lemma pack_rng_tests_pass: "pack_rng_tests"
proof -
  have "round_trip_is_identity" by (simp add: round_trip_is_identity_def packed_events_def unpack_pack)
  moreover have "bad_side_is_rejected" "bad_kind_is_rejected" "distinct_seeds_diverge" by code_simp+
  ultimately show ?thesis
    using below_stays_in_range by (simp add: pack_rng_tests_def below_is_in_range_def del: below_in_range.simps)
qed

subsection \<open>corpus.rs\<close>

fun ev_eq :: "book_event \<Rightarrow> book_event \<Rightarrow> bool" where
  "ev_eq a b \<longleftrightarrow> ev_seq a = ev_seq b \<and> ev_ts a = ev_ts b \<and> ev_kind a = ev_kind b
     \<and> (ev_kind a = Clear \<or> ev_px a = ev_px b \<and> ev_qty a = ev_qty b \<and> ev_side a = ev_side b)"

definition slices_eq :: "book_event list \<Rightarrow> book_event list \<Rightarrow> bool" where
  "slices_eq a b \<longleftrightarrow> length a = length b \<and> list_all (\<lambda>(x, y). ev_eq x y) (zip a b)"

definition sample_events :: "book_event list" where
  "sample_events =
     [ev_clear 0 1000, ev_level 1 1100 Bid (Px 65000) (Qty 5), ev_level 2 1200 Ask (Px 65010) (Qty 3),
      ev_trade 3 1300 Ask (Px 65010) (Qty 1), ev_level 4 1400 Bid (Px 65000) (Qty 0), ev_level 5 1500 Ask (Px (- 7)) (Qty 9)]"

text \<open>A test on the bytes that are written for some events.\<close>

definition with_bytes :: "book_event list \<Rightarrow> (u8 list \<Rightarrow> bool) \<Rightarrow> bool" where
  "with_bytes events P = (case write_to vec_write [] events of Inl _ \<Rightarrow> False | Inr buf \<Rightarrow> P buf)"

definition decodes :: "u8 list \<Rightarrow> (book_event list \<Rightarrow> bool) \<Rightarrow> bool" where
  "decodes buf P =
     (case (from_bytes buf :: (unit, corpus) parse) of Inr (Inr c) \<Rightarrow> P (cp_events c) | _ \<Rightarrow> False)"

definition rejects :: "u8 list \<Rightarrow> (unit corpus_error \<Rightarrow> bool) \<Rightarrow> bool" where
  "rejects buf P = (case (from_bytes buf :: (unit, corpus) parse) of Inr (Inl e) \<Rightarrow> P e | _ \<Rightarrow> False)"

definition round_trip_field_equality :: bool where
  "round_trip_field_equality \<longleftrightarrow> with_bytes sample_events (\<lambda>buf. decodes buf (\<lambda>evs. slices_eq evs sample_events))"

definition empty_corpus_round_trips :: bool where
  "empty_corpus_round_trips \<longleftrightarrow>
     with_bytes [] (\<lambda>buf. length buf = HEADER_SIZE \<and> decodes buf (\<lambda>evs. evs = [] \<and> length evs = 0))"

definition large_events :: "nat \<Rightarrow> book_event list" where
  "large_events n =
     map (\<lambda>i. ev_level (of_nat i) (of_nat i * 10) (if i mod 2 = 0 then Bid else Ask)
       (Px (65000 + of_nat (i mod 100))) (Qty (of_nat (i mod 50) + 1))) [0..<n]"

definition large_corpus_round_trips :: bool where
  "large_corpus_round_trips \<longleftrightarrow>
     (let n = 1000000 in with_bytes (large_events n) (\<lambda>buf. length buf = HEADER_SIZE + n * RECORD_SIZE
        \<and> decodes buf (\<lambda>evs. length evs = n \<and> slices_eq evs (large_events n))))"

definition save_load_file_round_trip :: bool where
  "save_load_file_round_trip \<longleftrightarrow>
     (case save_file vec_files ''feed_corpus_test.mdf'' sample_events of
        Inl _ \<Rightarrow> False
      | Inr bytes \<Rightarrow>
          (case load (\<lambda>_. Inr bytes :: unit + u8 list) ''feed_corpus_test.mdf'' of
             Inr (Inr c) \<Rightarrow> slices_eq (cp_events c) sample_events | _ \<Rightarrow> False))"

definition overwrite :: "nat \<Rightarrow> 'a list \<Rightarrow> 'a list \<Rightarrow> 'a list" where
  "overwrite i new xs = take i xs @ new @ drop (i + length new) xs"

definition reject_bad_magic :: bool where
  "reject_bad_magic \<longleftrightarrow> with_bytes sample_events (\<lambda>buf. rejects (buf[0 := of_char (CHR ''X'')]) (\<lambda>e. e = BadMagic))"

definition reject_bad_version :: bool where
  "reject_bad_version \<longleftrightarrow> with_bytes sample_events (\<lambda>buf.
     rejects (overwrite 8 (to_le_bytes 4 (999 :: u32)) buf) (\<lambda>e. e = UnsupportedVersion 999))"

definition reject_bad_record_size :: bool where
  "reject_bad_record_size \<longleftrightarrow> with_bytes sample_events (\<lambda>buf.
     rejects (overwrite 12 (to_le_bytes 4 (41 :: u32)) buf) (\<lambda>e. e = BadRecordSize 41))"

fun is_truncated :: "'io corpus_error \<Rightarrow> bool" where
  "is_truncated (Truncated a b) \<longleftrightarrow> True"
| "is_truncated e \<longleftrightarrow> False"

definition reject_truncated_tail :: bool where
  "reject_truncated_tail \<longleftrightarrow> with_bytes sample_events (\<lambda>buf. rejects (take (length buf - 7) buf) is_truncated)"

definition reject_too_short_for_header :: bool where
  "reject_too_short_for_header \<longleftrightarrow> rejects (replicate (HEADER_SIZE - 1) 0) is_truncated"

definition reject_bad_side_discriminant :: bool where
  "reject_bad_side_discriminant \<longleftrightarrow> with_bytes sample_events (\<lambda>buf.
     rejects (buf[HEADER_SIZE + RECORD_SIZE + 32 := 7]) (\<lambda>e. e = BadDiscriminant 1 ''side'' 7))"

definition reject_bad_kind_discriminant :: bool where
  "reject_bad_kind_discriminant \<longleftrightarrow> with_bytes sample_events (\<lambda>buf.
     rejects (buf[HEADER_SIZE + RECORD_SIZE + 33 := 9]) (\<lambda>e. e = BadDiscriminant 1 ''kind'' 9))"

definition pad_bytes_ignored_on_read :: bool where
  "pad_bytes_ignored_on_read \<longleftrightarrow> with_bytes sample_events (\<lambda>buf.
     decodes (overwrite (HEADER_SIZE + 34) (replicate 6 0xFF) buf) (\<lambda>evs. slices_eq evs sample_events))"

definition mentions :: "'a list \<Rightarrow> 'a list \<Rightarrow> bool" where
  "mentions xs p \<longleftrightarrow> list_ex (\<lambda>i. take (length p) (drop i xs) = p) [0..<Suc (length xs)]"

definition error_display_is_specific :: bool where
  "error_display_is_specific \<longleftrightarrow> mentions (corpus_error_text (\<lambda>_ :: unit. []) (BadDiscriminant 1 ''side'' 7)) ''side''"

definition corpus_tests :: bool where
  "corpus_tests \<longleftrightarrow> round_trip_field_equality \<and> empty_corpus_round_trips \<and> large_corpus_round_trips
     \<and> save_load_file_round_trip \<and> reject_bad_magic \<and> reject_bad_version \<and> reject_bad_record_size
     \<and> reject_truncated_tail \<and> reject_too_short_for_header \<and> reject_bad_side_discriminant
     \<and> reject_bad_kind_discriminant \<and> pad_bytes_ignored_on_read \<and> error_display_is_specific"

lemma slices_eq_canon: "slices_eq (map canon evs) evs"
  by (induction evs) (auto simp: slices_eq_def canon_def ev_defs)

lemma decodes_encode: "40 * length evs < 2 ^ 64 \<Longrightarrow> decodes (encode evs) P \<longleftrightarrow> P (map canon evs)"
  by (simp add: decodes_def from_bytes_encode)

lemma with_bytes_encode: "with_bytes evs P \<longleftrightarrow> P (encode evs)"
  by (simp add: with_bytes_def write_to_vec)

text \<open>Files whose records are not those that are written.\<close>

lemma from_bytes_records:
  assumes "\<forall>rec \<in> set recs. length rec = 40" and "40 * length recs < 2 ^ 64"
  shows "from_bytes (header_bytes (length recs) @ concat recs) =
    parse_bind (parse_records 0 recs) (\<lambda>evs. Inr (Inr \<lparr>cp_events = evs\<rparr>))"
proof -
  have "length (concat recs) = 40 * length recs" using assms(1) by (induction recs) simp_all
  moreover have "chunks_exact RECORD_SIZE (concat recs) = recs"
    using assms(1) by (intro chunks_concat) (simp_all add: RECORD_SIZE_def)
  ultimately show ?thesis
    using assms(2) unfolding from_bytes_header check_payload_def by (subst checked_mul_small) simp_all
qed

lemma parse_record_parts:
  "length rec = 40 \<Longrightarrow> parse_record i rec =
    parse_bind (Inr (side_from_u8 (rec ! 32) i)) (\<lambda>s.
    parse_bind (Inr (kind_from_u8 (rec ! 33) i)) (\<lambda>k.
      Inr (Inr (event_from_parts (from_le_bytes (take 8 rec)) (from_le_bytes (take 8 (drop 8 rec))) s
        (Px (from_le_bytes (take 8 (drop 16 rec)))) (Qty (from_le_bytes (take 8 (drop 24 rec)))) k))))"
  by (simp add: parse_record_def read_le_in_range vec_get_def)

lemma parse_record_padded:
  assumes "length pad = 6"
  shows "(parse_record i (take 34 (record_bytes e) @ pad) :: ('io, book_event) parse) = Inr (Inr (canon e))"
proof -
  let ?r = "record_bytes e"
  have "take 8 (drop k (take 34 ?r @ pad)) = take 8 (drop k ?r)" if "k + 8 \<le> 34" for k
    using that by (simp add: drop_take)
  moreover have "(take 34 ?r @ pad) ! 32 = ?r ! 32" "(take 34 ?r @ pad) ! 33 = ?r ! 33" by (simp_all add: nth_append)
  ultimately have "(parse_record i (take 34 ?r @ pad) :: ('io, book_event) parse) = parse_record i ?r"
    using assms by (simp add: parse_record_parts min_def)
  then show ?thesis by (simp only: parse_record_bytes)
qed

lemma encode_records: "encode evs = header_bytes (length (map record_bytes evs)) @ concat (map record_bytes evs)"
  by (simp add: encode_def)

lemma bad_second_record:
  assumes "bad \<noteq> 0" "bad \<noteq> 1" "bad \<noteq> 2"
  shows "from_bytes ((encode (e0 # e1 # evs))[HEADER_SIZE + RECORD_SIZE + 32 := bad]) =
        (Inr (Inl (BadDiscriminant 1 ''side'' bad)) :: (unit, corpus) parse)
      \<or> 2 ^ 64 \<le> 40 * (2 + length evs)"
    and "from_bytes ((encode (e0 # e1 # evs))[HEADER_SIZE + RECORD_SIZE + 33 := bad]) =
        (Inr (Inl (BadDiscriminant 1 ''kind'' bad)) :: (unit, corpus) parse)
      \<or> 2 ^ 64 \<le> 40 * (2 + length evs)"
proof -
  have upd: "(encode (e0 # e1 # evs))[HEADER_SIZE + RECORD_SIZE + k := bad] =
      header_bytes (2 + length evs) @ concat (record_bytes e0 # (record_bytes e1)[k := bad] # map record_bytes evs)"
    if "k < 40" for k
    using that by (simp add: encode_def HEADER_SIZE_def RECORD_SIZE_def list_update_append)
  have side: "side_from_u8 (record_bytes e1 ! 32) i = Inr (ev_side e1)" for i
    by (cases "ev_side e1") (simp_all add: record_bytes_def nth_append side_from_u8_def)
  have run: "(from_bytes ((encode (e0 # e1 # evs))[HEADER_SIZE + RECORD_SIZE + k := bad]) :: (unit, corpus) parse) =
      parse_bind (parse_records 0 (record_bytes e0 # (record_bytes e1)[k := bad] # map record_bytes evs))
        (\<lambda>evs. Inr (Inr \<lparr>cp_events = evs\<rparr>))" if "k < 40" "40 * (2 + length evs) < 2 ^ 64" for k
    using from_bytes_records [of "record_bytes e0 # (record_bytes e1)[k := bad] # map record_bytes evs"] that
    by (simp add: upd)
  show "from_bytes ((encode (e0 # e1 # evs))[HEADER_SIZE + RECORD_SIZE + 32 := bad]) =
        (Inr (Inl (BadDiscriminant 1 ''side'' bad)) :: (unit, corpus) parse)
      \<or> 2 ^ 64 \<le> 40 * (2 + length evs)"
    using run [of 32] assms
    by (auto simp: not_le parse_record_bytes parse_record_parts side_from_u8_def simp del: list_update_nonempty)
  show "from_bytes ((encode (e0 # e1 # evs))[HEADER_SIZE + RECORD_SIZE + 33 := bad]) =
        (Inr (Inl (BadDiscriminant 1 ''kind'' bad)) :: (unit, corpus) parse)
      \<or> 2 ^ 64 \<le> 40 * (2 + length evs)"
    using run [of 33] assms
    by (auto simp: not_le parse_record_bytes parse_record_parts side kind_from_u8_def simp del: list_update_nonempty)
qed


lemma corpus_round_trips:
  "round_trip_field_equality" "empty_corpus_round_trips" "large_corpus_round_trips" "save_load_file_round_trip"
proof -
  show "round_trip_field_equality"
    by (simp add: round_trip_field_equality_def with_bytes_encode decodes_encode slices_eq_canon sample_events_def
        flip: list.map)
  show "empty_corpus_round_trips"
    by (simp add: empty_corpus_round_trips_def with_bytes_encode decodes_encode length_encode HEADER_SIZE_def)
  have "length (large_events n) = n" for n by (simp add: large_events_def)
  then show "large_corpus_round_trips"
    by (simp add: large_corpus_round_trips_def with_bytes_encode decodes_encode length_encode slices_eq_canon
        HEADER_SIZE_def RECORD_SIZE_def)
  have "save_file vec_files ''feed_corpus_test.mdf'' sample_events = Inr (encode sample_events)"
    by (simp add: save_file_def save_def vec_files_def write_to_append)
  moreover have "40 * length sample_events < 2 ^ 64" by (simp add: sample_events_def)
  ultimately show "save_load_file_round_trip"
    by (simp add: save_load_file_round_trip_def load_def from_bytes_encode slices_eq_canon)
qed

lemma encode_header:
  "take 8 (encode evs) = MAGIC" "take 4 (drop 8 (encode evs)) = to_le_bytes 4 VERSION"
  "take 4 (drop 12 (encode evs)) = to_le_bytes 4 RECORD_SIZE_U32"
  by (simp_all only: encode_def header_fields)

lemma corpus_rejects_header:
  "reject_bad_magic" "reject_bad_version" "reject_bad_record_size"
proof -
  have len: "32 \<le> length (encode sample_events)" by (simp add: length_encode)
  have head: "hd MAGIC \<noteq> of_char (CHR ''X'')" by (simp add: MAGIC_def)
  have "take 8 ((encode sample_events)[0 := b]) = MAGIC[0 := b]" for b
    by (simp add: take_update_swap encode_header)
  moreover have "MAGIC[0 := of_char (CHR ''X'')] \<noteq> MAGIC" using head by (auto simp: MAGIC_def)
  ultimately show "reject_bad_magic"
    using len by (simp add: reject_bad_magic_def with_bytes_encode rejects_def from_bytes_long)
  have over: "take 8 (overwrite 8 new xs) = take 8 xs" "take 4 (drop 8 (overwrite 8 new xs)) = new"
    "take 8 (overwrite 12 new xs) = take 8 xs" "take 4 (drop 8 (overwrite 12 new xs)) = take 4 (drop 8 xs)"
    "take 4 (drop 12 (overwrite 12 new xs)) = new" "length (overwrite 8 new xs) = length xs"
    "length (overwrite 12 new xs) = length xs"
    if "length new = 4" "32 \<le> length xs" for new xs :: "u8 list"
    using that by (simp_all add: overwrite_def drop_take min_def)
  have new: "length (to_le_bytes 4 v :: u8 list) = 4" for v :: u32 by simp
  note over = over [OF new len]
  show "reject_bad_version"
    using len over encode_header
    by (simp add: reject_bad_version_def with_bytes_encode rejects_def from_bytes_long VERSION_def Let_def)
  show "reject_bad_record_size"
    using len over encode_header
    by (simp add: reject_bad_record_size_def with_bytes_encode rejects_def from_bytes_long RECORD_SIZE_def Let_def)
qed

lemma corpus_rejects_payload:
  "reject_truncated_tail" "reject_too_short_for_header" "reject_bad_side_discriminant" "reject_bad_kind_discriminant"
  "pad_bytes_ignored_on_read"
proof -
  have short: "rejects (header_bytes 6 @ xs) is_truncated" if "length xs < 240" for xs
  proof -
    have "(of_nat (length xs) :: u64) \<noteq> of_nat 240"
      using that by (subst word_of_nat_eq_iff) (simp add: take_bit_nat_eq_self)
    then show ?thesis
      using checked_mul_small [of 6] by (simp add: rejects_def from_bytes_header check_payload_def)
  qed
  have six: "length sample_events = 6" by (simp add: sample_events_def)
  have "take (length (encode sample_events) - 7) (encode sample_events) =
      header_bytes 6 @ take 233 (concat (map record_bytes sample_events))"
    by (simp add: encode_def length_concat_records six)
  then show "reject_truncated_tail"
    by (simp add: reject_truncated_tail_def with_bytes_encode short length_concat_records)
  show "reject_too_short_for_header"
    by (simp add: reject_too_short_for_header_def rejects_def from_bytes_def HEADER_SIZE_def)
  show "reject_bad_side_discriminant" "reject_bad_kind_discriminant"
    using bad_second_record(1) [of 7 "hd sample_events" "sample_events ! 1" "drop 2 sample_events"]
      bad_second_record(2) [of 9 "hd sample_events" "sample_events ! 1" "drop 2 sample_events"]
    by (simp_all add: reject_bad_side_discriminant_def reject_bad_kind_discriminant_def with_bytes_encode rejects_def
        sample_events_def)
  define recs where "recs = (take 34 (record_bytes (hd sample_events)) @ replicate 6 0xFF) # map record_bytes (tl sample_events)"
  have "overwrite (HEADER_SIZE + 34) (replicate 6 0xFF) (encode sample_events) = header_bytes (length recs) @ concat recs"
    by (simp add: overwrite_def encode_def HEADER_SIZE_def recs_def sample_events_def)
  moreover have "\<forall>rec \<in> set recs. length rec = 40" "40 * length recs < 2 ^ 64" by (auto simp: recs_def sample_events_def)
  moreover have "(parse_records 0 recs :: (unit, book_event list) parse) = Inr (Inr (map canon sample_events))"
    by (simp add: recs_def parse_records_bytes) (simp add: sample_events_def parse_record_padded)
  ultimately have "decodes (overwrite (HEADER_SIZE + 34) (replicate 6 0xFF) (encode sample_events)) P \<longleftrightarrow> P (map canon sample_events)" for P
    by (simp add: decodes_def from_bytes_records)
  then show "pad_bytes_ignored_on_read"
    by (simp add: pad_bytes_ignored_on_read_def with_bytes_encode slices_eq_canon)
qed

lemma corpus_tests_pass: "corpus_tests"
proof -
  have "error_display_is_specific" by code_simp
  then show ?thesis using corpus_round_trips corpus_rejects_header corpus_rejects_payload by (simp add: corpus_tests_def)
qed

end
