(* ===== verification/Synthetic_Profiles.thy ===== *)
theory Synthetic_Profiles
  imports Synthetic_Laws
begin

section \<open>What the burst and the flash-crash profile add (feed/src/synthetic.rs)\<close>

text \<open>
  The profiles exist for their shape in time and price: a burst corpus has dense windows of events, a
  flash-crash corpus has cascades that sweep the bid side. Both are proved for every seed, on the methods of
  \<open>Sim\<close>: the first for every corpus that is long enough for one burst, the second for every cascade with
  room for its events.
\<close>

subsection \<open>A steady event, whatever the invariant\<close>

lemma triple_bind_get_drop: "(\<And>a. triple P (f a) Q) \<Longrightarrow> triple P (gen_bind (gen_get g) f) Q"
  by (auto simp: triple_def gen_bind_def gen_get_def)

lemma triple_bind_same: "triple P m (\<lambda>_. P) \<Longrightarrow> (\<And>a. triple P (f a) Q) \<Longrightarrow> triple P (gen_bind m f) Q"
  by (rule triple_bind)

lemma triple_roll_same: "stable P \<Longrightarrow> triple P (roll_i64 n) (\<lambda>_. P)"
  by (rule triple_post [OF triple_roll]) simp_all

lemma triple_rand_qty_same: "stable P \<Longrightarrow> triple P sim_rand_qty (\<lambda>_. P)"
  unfolding sim_rand_qty_def
  by (intro triple_bind_get_drop triple_bind_same triple_roll_same triple_return) simp_all

lemma triple_geo_same: "stable P \<Longrightarrow> triple P (geo_offset cap) (\<lambda>_. P)"
  by (rule triple_post [OF triple_geo]) simp_all

lemma triple_draw_same: "n \<noteq> 0 \<Longrightarrow> stable P \<Longrightarrow> triple P (draw n) (\<lambda>_. P)"
  by (rule triple_post [OF triple_draw]) simp_all

text \<open>Every path of a steady event draws and then emits once.\<close>

lemma triple_steady_emit:
  assumes st: "stable P"
    and lev: "\<And>s sd p q. P s \<Longrightarrow> Q (sim_level sd p q s)"
    and tra: "\<And>s sd p q. P s \<Longrightarrow> Q (sim_trade sd p q s)"
  shows "triple P steady_event (\<lambda>_. Q)"
proof -
  note same = triple_bind_get_drop triple_bind_same triple_draw_same triple_rand_qty_same triple_roll_same
    triple_geo_same triple_side
  define R where "R b s = (if b then Q s else P s)" for b s
  have hit: "triple P (gen_bind sim_rand_qty (\<lambda>q. gen_bind (gen_do (sim_trade sd p q)) (\<lambda>_. gen_return True))) R"
    for sd p
    by (rule triple_bind_same [OF triple_rand_qty_same [OF st]], rule triple_bind_do, rule triple_return)
      (auto simp: R_def intro: tra)
  have attempt: "triple P try_trade R"
    unfolding try_trade_def
    by (rule triple_bind_same [OF triple_draw_same [OF _ st]], simp, rule triple_if; rule triple_bind_get_drop)
      (auto split: option.split intro: hit intro!: triple_return simp: R_def)
  have churn: "triple P edge_churn (\<lambda>_. Q)"
    unfolding edge_churn_def by (intro same st triple_if triple_do lev) simp_all
  have update: "triple P level_update (\<lambda>_. Q)"
    unfolding level_update_def by (intro same st triple_if triple_do triple_return lev) simp_all
  show ?thesis
    unfolding steady_event_def
  proof (rule triple_bind_same [OF triple_draw_same [OF _ st]], simp, rule triple_bind [where R = R])
    fix r :: u64
    show "triple P (if r < TRADE_PCT then try_trade else gen_return False) R"
      by (intro triple_if attempt triple_return) (simp add: R_def)
    show "triple (R b) (if b then gen_return () else if r < TRADE_PCT + CHURN_PCT then edge_churn else level_update)
        (\<lambda>_. Q)" for b
      using churn update by (cases b) (auto intro: triple_return simp: R_def [abs_def])
  qed
qed

text \<open>With room it emits exactly one event, at the current time.\<close>

definition emitted :: "sim \<Rightarrow> sim \<Rightarrow> bool" where
  "emitted s s' \<longleftrightarrow>
     (\<exists>ev. sm_out s' = sm_out s @ [ev] \<and> ev_ts ev = sm_ts s) \<and> sm_ts s' = sm_ts s \<and> sm_target s' = sm_target s"

lemma emitted_level: "\<not> full s \<Longrightarrow> emitted s (sim_level sd p q s)"
  and emitted_trade: "\<not> full s \<Longrightarrow> emitted s (sim_trade sd p q s)"
  by (cases sd; simp add: emitted_def sim_level_def sim_trade_def push_event_def ev_defs Let_def)+

lemma triple_steady_one:
  "triple (\<lambda>s. s = s0 \<and> \<not> full s) steady_event (\<lambda>_. emitted s0)"
proof -
  have "triple (\<lambda>s. \<not> full s \<and> (\<exists>r. s = s0\<lparr>sm_rng := r\<rparr>)) steady_event (\<lambda>_. emitted s0)"
  proof (rule triple_steady_emit)
    show "stable (\<lambda>s. \<not> full s \<and> (\<exists>r. s = s0\<lparr>sm_rng := r\<rparr>))"
      by (auto simp: stable_def full_def)
  qed (use emitted_level emitted_trade in \<open>fastforce simp: emitted_def\<close>)+
  then show ?thesis by (rule triple_pre) (metis sim.surjective sim.update_convs(1))
qed

subsection \<open>Dense windows\<close>

text \<open>
  \<open>dense_from i k out\<close>: the \<open>k\<close> events from \<open>i\<close> on advance by at most a nanosecond each. \<open>clustered\<close> is the
  state of the burst loop that has emitted \<open>k\<close> events since there were \<open>i\<close>.
\<close>

definition dense_from :: "nat \<Rightarrow> nat \<Rightarrow> book_event list \<Rightarrow> bool" where
  "dense_from i k out \<longleftrightarrow> i + k \<le> length out \<and>
     (\<forall>j < k. unat (ev_ts (out ! (i + j))) \<le> unat (ev_ts (out ! i)) + j)"

definition clustered :: "nat \<Rightarrow> nat \<Rightarrow> nat \<Rightarrow> sim \<Rightarrow> bool" where
  "clustered n i k s \<longleftrightarrow> dense_from i k (sm_out s) \<and> length (sm_out s) = i + k \<and> sm_target s = n
     \<and> (0 < k \<longrightarrow> unat (sm_ts s) \<le> unat (ev_ts (sm_out s ! i)) + k)"

lemma dense_from_append: "dense_from i k out \<Longrightarrow> dense_from i k (out @ evs)"
  by (auto simp: dense_from_def nth_append)

lemma dense_from_less: "dense_from i k out \<Longrightarrow> m \<le> k \<Longrightarrow> dense_from i m out"
  by (simp add: dense_from_def)

lemma clustered_step:
  assumes "clustered n i k s" and "emitted s s'" and "unat d \<le> 1"
  shows "clustered n i (Suc k) (advance d s')"
proof -
  obtain ev where ev: "sm_out s' = sm_out s @ [ev]" "ev_ts ev = sm_ts s" "sm_ts s' = sm_ts s"
    "sm_target s' = sm_target s"
    using assms(2) by (auto simp: emitted_def)
  have st: "dense_from i k (sm_out s)" "length (sm_out s) = i + k" "sm_target s = n"
    "0 < k \<longrightarrow> unat (sm_ts s) \<le> unat (ev_ts (sm_out s ! i)) + k"
    using assms(1) by (simp_all add: clustered_def)
  have first: "ev_ts (sm_out s' ! i) = (if k = 0 then sm_ts s else ev_ts (sm_out s ! i))"
    using st(2) by (simp add: ev nth_append)
  have "unat (ev_ts (sm_out s' ! (i + j))) \<le> unat (ev_ts (sm_out s' ! i)) + j" if "j < Suc k" for j
    unfolding first using that st by (cases "j = k") (auto simp: ev nth_append dense_from_def)
  moreover have "unat (sm_ts s + d) \<le> unat (ev_ts (sm_out s' ! i)) + Suc k"
    unfolding first using unat_add_le [of "sm_ts s" d] assms(3) st(4) by (cases "k = 0") auto
  ultimately show ?thesis
    using st by (simp add: clustered_def dense_from_def advance_def ev)
qed

text \<open>A counted loop: the invariant counts the iterations; it stops early only when full.\<close>

definition loop_post :: "(nat \<Rightarrow> sim \<Rightarrow> bool) \<Rightarrow> nat \<Rightarrow> nat \<Rightarrow> bool \<Rightarrow> sim \<Rightarrow> bool" where
  "loop_post I k c returned s \<longleftrightarrow>
     (\<exists>j. I j s \<and> k \<le> j \<and> j \<le> k + c \<and> (if returned then full s else j = k + c))"

lemma triple_for_count:
  assumes "\<And>k. triple (\<lambda>s. I k s \<and> \<not> full s) body (\<lambda>_. I (Suc k))"
  shows "triple (I k) (for_loop c body) (loop_post I k c)"
proof (induction c arbitrary: k)
  case 0
  show ?case by (auto intro: triple_return simp: loop_post_def)
next
  case (Suc c)
  have go: "triple (\<lambda>s. I k s \<and> \<not> full s) (gen_bind body (\<lambda>_. for_loop c body)) (loop_post I k (Suc c))"
    by (rule triple_bind [OF assms], rule triple_post [OF Suc.IH [of "Suc k"]])
      (auto simp: loop_post_def split: if_splits intro: exI [of _ "Suc (k + c)"] dest: Suc_leD)
  show ?case
    unfolding for_loop.simps
  proof (rule triple_bind_get)
    fix f
    show "triple (\<lambda>s. I k s \<and> f = full s) (if f then gen_return True else gen_bind body (\<lambda>_. for_loop c body))
        (loop_post I k (Suc c))"
      by (cases f) (auto intro!: triple_return triple_pre [OF go] exI [of _ k] simp: loop_post_def)
  qed
qed

lemma triple_dense_body:
  "triple (\<lambda>s. clustered n i k s \<and> \<not> full s)
     (gen_bind steady_event (\<lambda>_. gen_bind (draw 2) (\<lambda>x. gen_do (advance x)))) (\<lambda>_. clustered n i (Suc k))"
proof -
  let ?R = "\<lambda>s'. \<exists>s. clustered n i k s \<and> emitted s s'"
  have "triple (\<lambda>s. clustered n i k s \<and> \<not> full s) steady_event (\<lambda>_. ?R)"
    using triple_steady_one by (fastforce simp: triple_def)
  moreover have "triple ?R (gen_bind (draw 2) (\<lambda>x. gen_do (advance x))) (\<lambda>_. clustered n i (Suc k))"
  proof (rule triple_bind_draw)
    show "stable ?R" by (fastforce simp: stable_def emitted_def)
  qed (auto intro!: triple_do clustered_step)
  ultimately show ?thesis by (rule triple_bind)
qed

definition so_far :: "nat \<Rightarrow> nat \<Rightarrow> nat \<Rightarrow> sim \<Rightarrow> bool" where
  "so_far n i k s \<longleftrightarrow> length (sm_out s) = i + k \<and> sm_target s = n"

lemma triple_calm_body:
  "triple (\<lambda>s. so_far n i k s \<and> \<not> full s)
     (gen_bind steady_event (\<lambda>_. gen_bind (draw CALM_DT) (\<lambda>x. gen_do (advance (CALM_DT + x)))))
     (\<lambda>_. so_far n i (Suc k))"
proof -
  have "triple (\<lambda>s. so_far n i k s \<and> \<not> full s) steady_event (\<lambda>_. so_far n i (Suc k))"
    using triple_steady_one by (fastforce simp: triple_def so_far_def emitted_def)
  moreover have "triple (so_far n i (Suc k)) (gen_bind (draw CALM_DT) (\<lambda>x. gen_do (advance (CALM_DT + x))))
      (\<lambda>_. so_far n i (Suc k))"
    by (rule triple_bind_draw) (auto intro!: triple_do simp: stable_def so_far_def advance_def CALM_DT_def)
  ultimately show ?thesis by (rule triple_bind)
qed

definition has_burst :: "sim \<Rightarrow> bool" where
  "has_burst s \<longleftrightarrow> (\<exists>i. dense_from i 200 (sm_out s))"

lemma unat_draw_add: "unat (x :: u64) < m \<Longrightarrow> unat a + m < 2 ^ 64 \<Longrightarrow> unat (a + x) = unat a + unat x"
  by (rule unat_plus_simple [THEN iffD1]) (simp add: no_olen_add_nat)

lemma triple_first_burst:
  assumes "L + 259 \<le> n"
  shows "triple (so_far n L 0) burst_cycle (\<lambda>_. has_burst)"
proof -
  let ?dense = "gen_bind steady_event (\<lambda>_. gen_bind (draw 2) (\<lambda>x. gen_do (advance x)))"
  have found: "has_burst s" if "loop_post (clustered n i) 0 c r s" "i + 200 \<le> n" "200 \<le> c" for r s i c
    using that dense_from_less [of i _ "sm_out s" 200]
    by (fastforce simp: loop_post_def clustered_def has_burst_def full_def split: if_splits)
  have burst: "triple (\<lambda>s. so_far n i 0 s) (gen_bind (draw 120) (\<lambda>b.
      gen_bind (for_loop (unat (200 + b)) ?dense) (\<lambda>_. gen_return ()))) (\<lambda>_. has_burst)"
    if i: "i + 200 \<le> n" for i
  proof (rule triple_bind_draw)
    show "stable (so_far n i 0)" by (simp add: stable_def so_far_def)
    fix b :: u64 assume "unat b < unat (120 :: u64)"
    then have c: "200 \<le> unat (200 + b)" using unat_draw_add [of b 120 200] by simp
    have "triple (clustered n i 0) (for_loop (unat (200 + b)) ?dense) (\<lambda>_. has_burst)"
      by (rule triple_post [OF triple_for_count [where I = "clustered n i", OF triple_dense_body]])
        (use found i c in blast)
    then show "triple (so_far n i 0) (gen_bind (for_loop (unat (200 + b)) ?dense) (\<lambda>_. gen_return ())) (\<lambda>_. has_burst)"
      by (intro triple_bind [where R = "\<lambda>_. has_burst"] triple_return)
        (auto intro: triple_pre simp: so_far_def clustered_def dense_from_def)
  qed simp
  show ?thesis
    unfolding burst_cycle_def
  proof (rule triple_bind_draw)
    show "stable (so_far n L 0)" by (simp add: stable_def so_far_def)
    fix c :: u64 assume "unat c < unat (40 :: u64)"
    then have c: "unat (20 + c) \<le> 59" using unat_draw_add [of c 40 20] by simp
    show "triple (so_far n L 0)
        (gen_bind (for_loop (unat (20 + c)) (gen_bind steady_event (\<lambda>_. gen_bind (draw CALM_DT)
            (\<lambda>x. gen_do (advance (CALM_DT + x)))))) (\<lambda>returned.
          if returned then gen_return ()
          else gen_bind (draw 120) (\<lambda>b. gen_bind (for_loop (unat (200 + b)) ?dense) (\<lambda>_. gen_return ()))))
        (\<lambda>_. has_burst)"
    proof (rule triple_bind [OF triple_for_count [where I = "so_far n L", OF triple_calm_body]])
      fix r
      show "triple (loop_post (so_far n L) 0 (unat (20 + c)) r)
          (if r then gen_return ()
           else gen_bind (draw 120) (\<lambda>b. gen_bind (for_loop (unat (200 + b)) ?dense) (\<lambda>_. gen_return ())))
          (\<lambda>_. has_burst)"
      proof (cases r)
        case True
        have "\<not> loop_post (so_far n L) 0 (unat (20 + c)) True s" for s
          using assms c by (auto simp: loop_post_def so_far_def full_def)
        with True show ?thesis by (simp add: triple_def)
      next
        case False
        have "L + unat (20 + c) + 200 \<le> n" using assms c by linarith
        from burst [OF this] False show ?thesis
          by (auto intro: triple_pre simp: so_far_def loop_post_def)
      qed
    qed
  qed simp
qed

text \<open>
  What is kept by drawing, advancing and emitting is kept by every burst cycle and by the whole flow.
\<close>

definition kept :: "(sim \<Rightarrow> bool) \<Rightarrow> bool" where
  "kept P \<longleftrightarrow> stable P \<and> (\<forall>s d. P s \<longrightarrow> P (advance d s)) \<and> (\<forall>s sd p q. P s \<longrightarrow> P (sim_level sd p q s))
     \<and> (\<forall>s sd p q. P s \<longrightarrow> P (sim_trade sd p q s))"

lemma triple_for_kept: "triple P body (\<lambda>_. P) \<Longrightarrow> triple P (for_loop c body) (\<lambda>_. P)"
proof (induction c)
  case (Suc c)
  show ?case
    unfolding for_loop.simps
    by (intro triple_bind_get_drop triple_if triple_bind [OF Suc.prems] Suc.IH [OF Suc.prems])
      (simp add: triple_return)
qed (simp add: triple_return)

lemma triple_burst_kept:
  assumes "kept P"
  shows "triple P burst_cycle (\<lambda>_. P)"
proof -
  have st: "stable P" and adv: "\<And>s d. P s \<Longrightarrow> P (advance d s)"
    and emit: "triple P steady_event (\<lambda>_. P)"
    using assms by (auto simp: kept_def intro: triple_steady_emit)
  have step: "n \<noteq> 0 \<Longrightarrow> triple P (gen_bind steady_event (\<lambda>_. gen_bind (draw n) (\<lambda>x. gen_do (advance (b + x)))))
      (\<lambda>_. P)" for n b
    by (intro triple_bind [OF emit] triple_bind_same [OF triple_draw_same [OF _ st]] triple_do adv)
  have dense: "triple P (gen_bind steady_event (\<lambda>_. gen_bind (draw 2) (\<lambda>x. gen_do (advance x)))) (\<lambda>_. P)"
    using step [of 2 0] by simp
  show ?thesis
    unfolding burst_cycle_def
    by (intro triple_bind_same [OF triple_draw_same [OF _ st]] triple_bind_same [OF triple_for_kept [OF step]]
        triple_bind_same [OF triple_for_kept [OF dense]] triple_if triple_return)
      (simp_all add: CALM_DT_def)
qed

lemma flow_loop_kept:
  assumes step: "\<And>pr. pr = pr0 \<Longrightarrow> triple P (flow_step pr) (\<lambda>_. P)"
    and run: "flow_loop pr0 s = Some (Inr s')" and start: "P s"
  shows "P s'"
proof -
  let ?Q = "\<lambda>pr s (r :: sim res). pr = pr0 \<longrightarrow> P s \<longrightarrow> (\<forall>s'. r = Inr s' \<longrightarrow> P s')"
  have "?Q pr0 s (Inr s')"
  proof (rule flow_loop.raw_induct [where P = ?Q, OF _ run])
    fix f pr s r
    assume IH: "\<And>pr s r. f pr s = Some r \<Longrightarrow> ?Q pr s r"
      and body: "(if full s then Some (Inr s) else case flow_step pr s of Inl e \<Rightarrow> Some (Inl e) | Inr (u, s') \<Rightarrow> f pr s') = Some r"
    show "?Q pr s r"
    proof (intro impI allI)
      fix s1 assume pr: "pr = pr0" and s: "P s" and r: "r = Inr s1"
      obtain u s2 where "flow_step pr s = Inr (u, s2)" "P s2" using step [OF pr] s by (auto simp: triple_def)
      then show "P s1" using IH [of pr s2 r] body s pr r by (auto split: if_splits)
    qed
  qed
  then show ?thesis using start by simp
qed

subsection \<open>A burst in every burst corpus\<close>

lemma kept_burst: "kept has_burst"
proof -
  have more: "has_burst s \<Longrightarrow> sm_out s' = sm_out s @ evs \<Longrightarrow> has_burst s'" for s s' evs
    by (auto simp: has_burst_def intro: dense_from_append)
  have "has_burst s \<Longrightarrow> has_burst (sim_level sd p q s)" "has_burst s \<Longrightarrow> has_burst (sim_trade sd p q s)" for s sd p q
    using emitted_level [of s sd p q] emitted_trade [of s sd p q] more
    by (cases "full s"; fastforce simp: emitted_def sim_level_def sim_trade_def)+
  then show ?thesis by (auto simp: kept_def stable_def advance_def has_burst_def)
qed

text \<open>The opening ladder: one \<open>Clear\<close> and two levels for each tick of the band.\<close>

lemma seed_loop_length:
  "1 \<le> sint off \<Longrightarrow> sint (sm_band s) < 2 ^ 62 \<Longrightarrow>
   length (sm_out (seed_loop off s)) \<le> length (sm_out s) + 2 * nat (sint (sm_band s) + 1 - sint off)
   \<and> sm_target (seed_loop off s) = sm_target s"
proof (induction off s rule: seed_loop.induct)
  case (1 off s)
  show ?case
  proof (cases "i64_le off (sm_band s) \<and> \<not> full s")
    case True
    let ?q = "decay_qty (sm_max_qty s) off"
    let ?s1 = "sim_level Bid (sm_mid s - off) ?q s"
    let ?s2 = "sim_level Ask (sm_mid s + off) ?q ?s1"
    have off: "sint off \<le> sint (sm_band s)" using True by (simp add: i64_le_def)
    have next_off: "sint (off + 1) = sint off + 1" using off "1.prems" sint_add_i64 [of off 1] by simp
    have band: "sm_band ?s2 = sm_band s" by (simp add: sim_level_def push_event_def Let_def split: side.split)
    have len: "length (sm_out ?s2) \<le> length (sm_out s) + 2" "sm_target ?s2 = sm_target s"
      using length_out_level [of Bid _ ?q s] length_out_level [of Ask _ ?q ?s1] by auto
    have "length (sm_out (seed_loop (off + 1) ?s2)) \<le> length (sm_out ?s2) + 2 * nat (sint (sm_band s) + 1 - sint (off + 1))
        \<and> sm_target (seed_loop (off + 1) ?s2) = sm_target ?s2"
      using "1.IH" [of ?q] True "1.prems" next_off band by simp
    then show ?thesis
      using True len off next_off by (subst (1 2) seed_loop.simps) (auto simp: Let_def simp del: seed_loop.simps)
  next
    case False
    then show ?thesis by (subst (1 2) seed_loop.simps) (auto simp del: seed_loop.simps)
  qed
qed

lemma seed_length:
  assumes "sint (gc_band cfg) < 2 ^ 62"
  shows "length (sm_out (seed (sim_new cfg))) \<le> 1 + 2 * nat (sint (gc_band cfg))"
    and "sm_target (seed (sim_new cfg)) = gc_events cfg"
  using seed_loop_length [of 1 "sim_clear (sim_new cfg)"] assms
  by (auto simp: seed_def sim_clear_def sim_new_def push_event_def)

lemma burst_window_exists:
  assumes "gc_profile cfg = Burst" and "sint (gc_band cfg) < 2 ^ 62"
    and "260 + 2 * nat (sint (gc_band cfg)) \<le> gc_events cfg"
  shows "\<exists>evs i. generate cfg = Some (Inr evs) \<and> dense_from i 200 evs"
proof -
  let ?s0 = "seed (sim_new cfg)"
  obtain s where s: "flow_loop Burst ?s0 = Some (Inr s)"
    using flow_loop_ok [OF J_seed [of cfg], of Burst] by blast
  note len = seed_length [OF assms(2)]
  have room: "\<not> full ?s0" using len assms(3) by (simp add: full_def)
  have "length (sm_out ?s0) + 259 \<le> gc_events cfg" using len(1) assms(3) by linarith
  from triple_first_burst [OF this] obtain u s1 where s1: "burst_cycle ?s0 = Inr (u, s1)" "has_burst s1"
    using len(2) by (auto simp: triple_def so_far_def)
  then have rest: "flow_loop Burst s1 = Some (Inr s)"
    using s room by (subst (asm) flow_loop.simps) (simp add: flow_step_def)
  have "triple has_burst (flow_step pr) (\<lambda>_. has_burst)" if "pr = Burst" for pr
    using triple_burst_kept [OF kept_burst] that by (simp add: flow_step_def)
  from flow_loop_kept [where P = has_burst, OF this rest s1(2)] have "has_burst s" .
  then show ?thesis using s assms(1) by (auto simp: generate_def has_burst_def)
qed

text \<open>
  Property C14: a burst corpus has a burst. For every seed and every configuration of the burst profile whose
  length leaves room for the opening ladder, one calm stretch and one burst, the generated stream has two
  hundred consecutive events of which the \<open>j\<close>-th is at most \<open>j\<close> nanoseconds after the first.
\<close>
theorem burst_has_dense_window:
  assumes "gc_profile cfg = Burst" and "sint (gc_band cfg) < 2 ^ 62"
    and "260 + 2 * nat (sint (gc_band cfg)) \<le> gc_events cfg"
  shows "\<exists>evs i. generate cfg = Some (Inr evs) \<and> i + 200 \<le> length evs
    \<and> (\<forall>j < 200. unat (ev_ts (evs ! (i + j))) \<le> unat (ev_ts (evs ! i)) + j)"
  using burst_window_exists [OF assms] unfolding dense_from_def by blast

definition burst_config :: gen_config where
  "burst_config =
     \<lparr>gc_profile = Burst, gc_seed = 1, gc_events = 5000, gc_mid = Px 65000, gc_band = 64,
      gc_max_qty = Qty 1024, gc_start_ts = 0\<rparr>"

theorem burst_has_dense_window_witness:
  "\<exists>evs i. generate burst_config = Some (Inr evs) \<and> i + 200 \<le> length evs
     \<and> unat (ev_ts (evs ! (i + 199))) \<le> unat (ev_ts (evs ! i)) + 199"
proof -
  obtain evs i where "generate burst_config = Some (Inr evs)" "i + 200 \<le> length evs"
    "\<forall>j < 200. unat (ev_ts (evs ! (i + j))) \<le> unat (ev_ts (evs ! i)) + j"
    using burst_has_dense_window [of burst_config] by (auto simp: burst_config_def)
  then show ?thesis by (intro exI [of _ evs] exI [of _ i]) simp
qed

subsection \<open>Cascades\<close>

text \<open>What a cascade prints of the levels it strikes, best first: the trade that takes one out, then its removal.\<close>

definition shape :: "book_event \<Rightarrow> event_kind \<times> side \<times> px \<times> qty" where
  "shape ev = (ev_kind ev, ev_side ev, ev_px ev, ev_qty ev)"

definition strikes :: "level list \<Rightarrow> (event_kind \<times> side \<times> px \<times> qty) list" where
  "strikes lvls = concat (map (\<lambda>(p, q). [(Trade, Ask, p, q), (Level, Bid, p, Qty 0)]) lvls)"

definition swept :: "nat \<Rightarrow> sim \<Rightarrow> sim \<Rightarrow> bool" where
  "swept n s s' \<longleftrightarrow>
     sm_bids s' = take (length (sm_bids s) - n) (sm_bids s) \<and> sm_asks s' = sm_asks s
     \<and> (\<exists>evs. sm_out s' = sm_out s @ evs \<and> map shape evs = strikes (take n (rev (sm_bids s)))
          \<and> list_all (\<lambda>ev. unat (ev_ts ev) \<le> unat (sm_ts s) + 2 * n) evs)
     \<and> unat (sm_ts s') \<le> unat (sm_ts s) + 2 * n"

lemma btm_remove_last: "ascending (v @ [(p, q)]) \<Longrightarrow> btm_remove p (v @ [(p, q)]) = v"
  by (induction v) (auto simp: ascending_def)

lemma draw_rng: "n \<noteq> 0 \<Longrightarrow> \<exists>x r. draw n s = Inr (x, s\<lparr>sm_rng := r\<rparr>) \<and> unat x < unat n"
  using triple_draw [of n "\<lambda>s'. \<exists>r. s' = s\<lparr>sm_rng := r\<rparr>"]
  by (fastforce simp: triple_def stable_def intro: exI [of _ "sm_rng s"])

lemma sweep_loop_strikes:
  "ladder_ok (sm_bids s) \<Longrightarrow> length (sm_out s) + 2 * n < sm_target s \<Longrightarrow>
   \<exists>s'. sweep_loop n s = Inr (False, s') \<and> swept n s s'"
proof (induction n arbitrary: s)
  case 0
  show ?case by (simp add: gen_return_def swept_def strikes_def)
next
  case (Suc n)
  have room: "\<not> full s" using Suc.prems(2) by (simp add: full_def)
  show ?case
  proof (cases "sm_bids s" rule: rev_cases)
    case Nil
    then show ?thesis
      using room by (simp add: gen_bind_def gen_get_def gen_return_def sim_best_bid_def swept_def strikes_def)
  next
    case (snoc v l)
    obtain p q where l: "l = (p, q)" by (cases l)
    have asc: "ascending (v @ [(p, q)])" using Suc.prems(1) by (simp add: snoc l ladder_ok_def)
    then have "p \<notin> fst ` set v" by (auto simp: ascending_def sorted_wrt_append)
    then have find: "map_of (v @ [(p, q)]) p = Some q" by (simp add: map_add_def map_of_eq_None_iff [THEN iffD2])
    let ?s1 = "sim_trade Ask (ticks p) (lots q) s"
    let ?s2 = "sim_level Bid (ticks p) 0 ?s1"
    have s1: "?s1 = push_event (ev_trade (sm_seq s) (sm_ts s) Ask p q) s"
      using room by (simp add: sim_trade_def)
    have room1: "\<not> full ?s1" using Suc.prems(2) by (simp add: s1 push_event_def full_def)
    then have s2: "?s2 = push_event (ev_level (sm_seq s + 1) (sm_ts s) Bid p (Qty 0))
        (?s1\<lparr>sm_bids := v\<rparr>)"
      using btm_remove_last [OF asc] by (simp add: sim_level_def s1 push_event_def snoc l)
    obtain x r where x: "draw 3 ?s2 = Inr (x, ?s2\<lparr>sm_rng := r\<rparr>)" "unat x < 3"
      using draw_rng [of 3 ?s2] by auto
    let ?s3 = "advance x (?s2\<lparr>sm_rng := r\<rparr>)"
    have step: "sweep_loop (Suc n) s = sweep_loop n ?s3"
      using room find x(1)
      by (simp add: gen_bind_def gen_get_def gen_do_def sim_best_bid_def snoc l)
    have s3: "sm_bids ?s3 = v" "sm_asks ?s3 = sm_asks s" "sm_target ?s3 = sm_target s"
      "sm_out ?s3 = sm_out s @ [ev_trade (sm_seq s) (sm_ts s) Ask p q,
        ev_level (sm_seq s + 1) (sm_ts s) Bid p (Qty 0)]"
      "sm_ts ?s3 = sm_ts s + x"
      unfolding advance_def by (simp_all only: s2) (simp_all add: s1 push_event_def)
    have "ladder_ok (sm_bids ?s3)" using Suc.prems(1) by (simp add: s3 snoc ladder_ok_def ascending_append)
    from Suc.IH [OF this] Suc.prems(2) s3 obtain s' where s': "sweep_loop n ?s3 = Inr (False, s')" "swept n ?s3 s'"
      by auto
    let ?two = "[ev_trade (sm_seq s) (sm_ts s) Ask p q, ev_level (sm_seq s + 1) (sm_ts s) Bid p (Qty 0)]"
    obtain evs where evs: "sm_out s' = sm_out s @ ?two @ evs" "map shape evs = strikes (take n (rev v))"
      "list_all (\<lambda>ev. unat (ev_ts ev) \<le> unat (sm_ts s + x) + 2 * n) evs"
      and rest: "sm_bids s' = take (length v - n) v" "sm_asks s' = sm_asks s"
        "unat (sm_ts s') \<le> unat (sm_ts s + x) + 2 * n"
      using s'(2) unfolding swept_def s3 by auto
    have t: "unat (sm_ts s + x) \<le> unat (sm_ts s) + 2" using unat_add_le [of "sm_ts s" x] x(2) by linarith
    have "map shape (?two @ evs) = strikes (take (Suc n) (rev (sm_bids s)))"
      using evs(2) by (simp add: snoc l strikes_def shape_def ev_defs)
    moreover have "list_all (\<lambda>ev. unat (ev_ts ev) \<le> unat (sm_ts s) + 2 * Suc n) (?two @ evs)"
      using evs(3) t by (auto simp: list_all_iff ev_defs)
    ultimately have "swept (Suc n) s s'"
      using evs(1) rest t unfolding swept_def by (auto simp: snoc)
    then show ?thesis using s'(1) unfolding step by blast
  qed
qed

text \<open>Strictly ascending integer prices that are \<open>n\<close> levels apart are at least \<open>n\<close> ticks apart.\<close>

lemma ascending_ticks_apart:
  assumes "ascending v" and "i + n < length v"
  shows "sint (ticks (fst (v ! i))) + int n \<le> sint (ticks (fst (v ! (i + n))))"
  using assms(2)
proof (induction n)
  case (Suc n)
  have "fst (v ! (i + n)) < fst (v ! (i + Suc n))"
    using assms(1) Suc.prems by (auto simp: ascending_def sorted_wrt_map sorted_wrt_iff_nth_less)
  then have "sint (ticks (fst (v ! (i + n)))) < sint (ticks (fst (v ! (i + Suc n))))" by (simp add: less_px_def)
  then show ?case using Suc by simp
qed simp

text \<open>
  Property C15: a cascade sweeps the bid side. With room for its events, \<open>n\<close> turns of the cascade loop end
  normally and remove exactly the \<open>n\<close> best bids, best first, each by a trade of its whole quantity that hits
  the bid and the removal of the level; the asks stay, no event is more than \<open>2 * n\<close> nanoseconds after the
  start, and when more than \<open>n\<close> levels were there the best bid has fallen by at least \<open>n\<close> ticks.
\<close>
theorem cascade_sweeps_bids:
  assumes "ladder_ok (sm_bids s)" and "length (sm_out s) + 2 * n < sm_target s"
  shows "\<exists>s'. sweep_loop n s = Inr (False, s') \<and> swept n s s'
    \<and> (n < length (sm_bids s) \<longrightarrow> (\<exists>a b. sim_best_bid s = Some a \<and> sim_best_bid s' = Some b
         \<and> sint b + int n \<le> sint a))"
proof -
  obtain s' where s': "sweep_loop n s = Inr (False, s')" "swept n s s'"
    using sweep_loop_strikes [OF assms] by blast
  moreover have "\<exists>a b. sim_best_bid s = Some a \<and> sim_best_bid s' = Some b \<and> sint b + int n \<le> sint a"
    if n: "n < length (sm_bids s)"
  proof -
    let ?m = "length (sm_bids s) - n - 1"
    have "sint (ticks (fst (sm_bids s ! ?m))) + int n \<le> sint (ticks (fst (sm_bids s ! (?m + n))))"
      using assms(1) n by (intro ascending_ticks_apart) (simp_all add: ladder_ok_def)
    moreover have "take (length (sm_bids s) - n) (sm_bids s) \<noteq> []" using n by auto
    then have "last (take (length (sm_bids s) - n) (sm_bids s)) = sm_bids s ! ?m"
      using n by (cases "n = 0") (auto simp: last_conv_nth min_def)
    moreover have "last (sm_bids s) = sm_bids s ! (?m + n)"
      using n by (subst last_conv_nth) auto
    ultimately show ?thesis using s'(2) n by (auto simp: sim_best_bid_def swept_def)
  qed
  ultimately show ?thesis by blast
qed

definition three_bids :: sim where
  "three_bids = (sim_new \<lparr>gc_profile = FlashCrash, gc_seed = 1, gc_events = 9, gc_mid = Px 10, gc_band = 3,
     gc_max_qty = Qty 4, gc_start_ts = 0\<rparr>)\<lparr>sm_bids := [(Px 7, Qty 1), (Px 8, Qty 2), (Px 9, Qty 4)]\<rparr>"

theorem cascade_sweeps_bids_witness:
  "\<exists>s'. sweep_loop 2 three_bids = Inr (False, s') \<and> sm_bids s' = [(Px 7, Qty 1)]
     \<and> map shape (sm_out s') = [(Trade, Ask, Px 9, Qty 4), (Level, Bid, Px 9, Qty 0),
         (Trade, Ask, Px 8, Qty 2), (Level, Bid, Px 8, Qty 0)]"
proof -
  have "ladder_ok (sm_bids three_bids)" "length (sm_out three_bids) + 2 * 2 < sm_target three_bids"
    by (simp_all add: three_bids_def sim_new_def ladder_ok_def ascending_def less_px_def qty_zero_def)
  from cascade_sweeps_bids [OF this] obtain s' where s': "sweep_loop 2 three_bids = Inr (False, s')" "swept 2 three_bids s'"
    by blast
  have "take 2 (rev (sm_bids three_bids)) = [(Px 9, Qty 4), (Px 8, Qty 2)]" by (simp add: three_bids_def)
  with s' show ?thesis
    by (intro exI [of _ s']) (auto simp: swept_def three_bids_def sim_new_def strikes_def)
qed

subsection \<open>The unit test of the burst profile\<close>

text \<open>\<open>windows(n)\<close> of a slice.\<close>

definition windows :: "nat \<Rightarrow> 'a list \<Rightarrow> 'a list list" where
  "windows n xs = map (\<lambda>i. take n (drop i xs)) [0..<length xs + 1 - n]"

definition burst_window_in :: "nat \<Rightarrow> u64 \<Rightarrow> book_event list \<Rightarrow> bool" where
  "burst_window_in b w evs \<longleftrightarrow> list_ex (\<lambda>win. ev_ts (win ! (b - 1)) - ev_ts (win ! 0) \<le> w) (windows b evs)"

lemma burst_window_found:
  assumes "dense_from i b evs" and "0 < b" and "sorted (map (\<lambda>ev. unat (ev_ts ev)) evs)" and "b - 1 \<le> unat w"
  shows "burst_window_in b w evs"
proof -
  have len: "i + b \<le> length evs" using assms(1) by (simp add: dense_from_def)
  have "\<forall>j < b. unat (ev_ts (evs ! (i + j))) \<le> unat (ev_ts (evs ! i)) + j" using assms(1) by (simp add: dense_from_def)
  moreover have "b - 1 < b" using assms(2) by simp
  ultimately have near: "unat (ev_ts (evs ! (i + (b - 1)))) \<le> unat (ev_ts (evs ! i)) + (b - 1)" by blast
  have "map (\<lambda>ev. unat (ev_ts ev)) evs ! i \<le> map (\<lambda>ev. unat (ev_ts ev)) evs ! (i + (b - 1))"
    using assms(2,3) len by (intro sorted_nth_mono) simp_all
  then have "unat (ev_ts (evs ! i)) \<le> unat (ev_ts (evs ! (i + (b - 1))))" using assms(2) len by simp
  then have "unat (ev_ts (evs ! (i + (b - 1))) - ev_ts (evs ! i)) \<le> b - 1"
    using near by (simp add: unat_sub word_le_nat_alt)
  then have "ev_ts (evs ! (i + (b - 1))) - ev_ts (evs ! i) \<le> w" using assms(4) by (simp add: word_le_nat_alt)
  moreover have "take b (drop i evs) \<in> set (windows b evs)" using len by (auto simp: windows_def)
  ultimately show ?thesis
    using assms(2) len unfolding burst_window_in_def list_ex_iff
    by (intro bexI [of _ "take b (drop i evs)"]) simp_all
qed

end
