(* ===== verification/Load_Tests.thy ===== *)
theory Load_Tests
  imports Gen Workload Harness Synthetic_Profiles
begin

section \<open>The unit tests of the generator, the workload and the harness\<close>

text \<open>
  The tests inside synthetic.rs, workload.rs and harness.rs as propositions over the models, each the
  conjunction of its assertions; a panic makes it false. Left out are the tests whose outcome depends on the
  draws of one seed (\<open>flashcrash_collapses_bid\<close>, \<open>locality_generator_offset_distribution\<close>) and
  \<open>determinism_byte_identical\<close>, which compares a function with itself.
\<close>

subsection \<open>synthetic.rs\<close>

definition test_config :: "profile \<Rightarrow> nat \<Rightarrow> gen_config" where
  "test_config p n =
     \<lparr>gc_profile = p, gc_seed = 1, gc_events = n, gc_mid = Px 65000, gc_band = 64, gc_max_qty = Qty 1024, gc_start_ts = 0\<rparr>"

definition generated :: "gen_config \<Rightarrow> (book_event list \<Rightarrow> bool) \<Rightarrow> bool" where
  "generated cfg P = (case generate cfg of Some (Inr evs) \<Rightarrow> P evs | _ \<Rightarrow> False)"

definition all_profiles :: "(profile \<Rightarrow> bool) \<Rightarrow> bool" where
  "all_profiles P = list_all P [Steady, Burst, FlashCrash]"

definition exact_count :: bool where
  "exact_count \<longleftrightarrow> all_profiles (\<lambda>p. list_all (\<lambda>n. generated (test_config p n) (\<lambda>evs. length evs = n)) [0, 1, 3, 130, 5000])"

definition ts_is_monotonic_and_seq_is_dense :: bool where
  "ts_is_monotonic_and_seq_is_dense \<longleftrightarrow> all_profiles (\<lambda>p. generated (test_config p 5000) (\<lambda>evs.
     list_all (\<lambda>i. ev_ts (evs ! i) \<le> ev_ts (evs ! Suc i)) [0..<length evs - 1]
     \<and> list_all (\<lambda>i. ev_seq (evs ! i) = of_nat i) [0..<length evs]))"

text \<open>A check of every state a book goes through.\<close>

fun each_state :: "'b order_book_ops \<Rightarrow> ('b \<Rightarrow> bool) \<Rightarrow> 'b \<Rightarrow> book_event list \<Rightarrow> bool" where
  "each_state ops P b [] \<longleftrightarrow> True"
| "each_state ops P b (e # evs) \<longleftrightarrow> (case ob_apply ops b e of Inl _ \<Rightarrow> False | Inr b' \<Rightarrow> P b' \<and> each_state ops P b' evs)"

fun touch_within :: "gen_config \<Rightarrow> level option res \<Rightarrow> bool" where
  "touch_within c (Inr (Some (p, q))) \<longleftrightarrow>
     (let d = ticks p - ticks (gc_mid c) in i64_le (if i64_lt d 0 then - d else d) (gc_band c))"
| "touch_within c (Inr None) \<longleftrightarrow> True"
| "touch_within c (Inl _) \<longleftrightarrow> False"

definition steady_stays_within_band :: bool where
  "steady_stays_within_band \<longleftrightarrow>
     (let c = test_config Steady 20000 in generated c (each_state btree_ops
        (\<lambda>b. touch_within c (ob_best_bid btree_ops b) \<and> touch_within c (ob_best_ask btree_ops b)) (ob_default btree_ops)))"

definition replayed :: "'b order_book_ops \<Rightarrow> book_event list \<Rightarrow> ('b \<Rightarrow> bool) \<Rightarrow> bool" where
  "replayed ops evs P = (case run_book ops (ob_default ops) evs of Inl _ \<Rightarrow> False | Inr b \<Rightarrow> P b)"

definition agree :: "'a order_book_ops \<Rightarrow> 'a \<Rightarrow> 'b order_book_ops \<Rightarrow> 'b \<Rightarrow> bool" where
  "agree ops a ops' b \<longleftrightarrow>
     \<not> isl (ob_best_bid ops a) \<and> ob_best_bid ops a = ob_best_bid ops' b
     \<and> \<not> isl (ob_best_ask ops a) \<and> ob_best_ask ops a = ob_best_ask ops' b
     \<and> list_all (\<lambda>s. ob_depth ops a s = ob_depth ops' b s) [Bid, Ask]"

definition tri_impl_replay_agrees :: bool where
  "tri_impl_replay_agrees \<longleftrightarrow> all_profiles (\<lambda>p. generated (test_config p 10000) (\<lambda>evs.
     replayed btree_ops evs (\<lambda>bt. replayed sorted_ops evs (\<lambda>sv. replayed rev_ops evs (\<lambda>rv.
       agree btree_ops bt sorted_ops sv \<and> agree btree_ops bt rev_ops rv)))))"

definition burst_has_dense_ts_window :: bool where
  "burst_has_dense_ts_window \<longleftrightarrow> generated (test_config Burst 5000) (burst_window_in 100 1000)"

definition generator_tests :: bool where
  "generator_tests \<longleftrightarrow> exact_count \<and> ts_is_monotonic_and_seq_is_dense \<and> steady_stays_within_band
     \<and> burst_has_dense_ts_window \<and> tri_impl_replay_agrees"

lemma generated_iff:
  "(\<And>evs. length evs = gc_events cfg \<Longrightarrow> stream_ok cfg evs \<Longrightarrow>
      (ts_ok cfg \<Longrightarrow> sorted (map (\<lambda>ev. unat (ev_ts ev)) evs)) \<Longrightarrow> P evs) \<Longrightarrow> generated cfg P"
  by (rule generate_facts [of cfg]) (simp add: generated_def)

context order_book
begin

lemma each_state_ok:
  "inv b \<Longrightarrow> G (abs b) \<Longrightarrow> list_all (\<lambda>e. adm e \<and> (\<forall>a. G a \<longrightarrow> G (spec_apply a e))) evs \<Longrightarrow>
   (\<And>b. inv b \<Longrightarrow> G (abs b) \<Longrightarrow> P b) \<Longrightarrow> each_state ops P b evs"
proof (induction evs arbitrary: b)
  case (Cons e evs)
  then obtain b' where "ob_apply ops b e = Inr b'" "inv b'" "abs b' = spec_apply (abs b) e"
    using apply_ok [of b e] by auto
  with Cons show ?case by simp
qed simp

lemma replayed_ok: "\<forall>ev \<in> set evs. adm ev \<Longrightarrow> (\<And>b. inv b \<Longrightarrow> abs b = spec_run evs \<Longrightarrow> P b) \<Longrightarrow> replayed ops evs P"
  by (rule replay_ok [of evs]) (simp_all add: replayed_def)

end

text \<open>The prices that rest in a book, and its touch, are near the mid.\<close>

definition near_book :: "gen_config \<Rightarrow> spec_book \<Rightarrow> bool" where
  "near_book c b \<longleftrightarrow> spec_wf b \<and> (\<forall>p \<in> dom (sp_bids b) \<union> dom (sp_asks b). px_near c p)"

lemma near_book_apply: "ev_fine c e \<Longrightarrow> near_book c b \<Longrightarrow> near_book c (spec_apply b e)"
  using spec_wf_apply [of b e]
  by (cases "ev_kind e"; cases "ev_side e")
    (auto simp: near_book_def ev_fine_def spec_apply_def spec_empty_def ladder_set_def split: if_splits)

lemma near_book_bests:
  assumes "near_book c b"
  shows "spec_best_bid b = Some (p, q) \<Longrightarrow> px_near c p" and "spec_best_ask b = Some (p, q) \<Longrightarrow> px_near c p"
proof -
  have "finite (dom (sp_bids b))" "finite (dom (sp_asks b))" using assms by (simp_all add: near_book_def spec_wf_iff)
  then have "sp_bids b \<noteq> Map.empty \<Longrightarrow> Max (dom (sp_bids b)) \<in> dom (sp_bids b)"
    "sp_asks b \<noteq> Map.empty \<Longrightarrow> Min (dom (sp_asks b)) \<in> dom (sp_asks b)"
    by (intro Max_in Min_in; simp)+
  moreover have "px_near c p" if "p \<in> dom (sp_bids b) \<or> p \<in> dom (sp_asks b)" for p
    using assms that unfolding near_book_def by blast
  ultimately show "spec_best_bid b = Some (p, q) \<Longrightarrow> px_near c p" "spec_best_ask b = Some (p, q) \<Longrightarrow> px_near c p"
    by (auto simp: spec_best_bid_def spec_best_ask_def Let_def split: if_splits)
qed

lemma touch_within_near: "px_near (test_config p n) px \<Longrightarrow> touch_within (test_config p n) (Inr (Some (px, q)))"
proof -
  let ?d = "ticks px - 65000"
  assume "px_near (test_config p n) px"
  then have near: "\<bar>sint (ticks px) - 65000\<bar> \<le> 64" by (simp add: px_near_def cfg_ok_def width_def test_config_def)
  then have bounds: "64936 \<le> sint (ticks px)" "sint (ticks px) \<le> 65064" by arith+
  then have "sint ?d = sint (ticks px) - 65000" using sint_add_i64 [of "ticks px" "- 65000"] by simp
  moreover from bounds have "sint (- ?d) = 65000 - sint (ticks px)"
    using sint_add_i64 [of 0 "65000 - sint (ticks px)"] by simp
  ultimately show ?thesis using bounds by (simp add: test_config_def Let_def i64_le_def i64_lt_def)
qed

lemma touch_within_option:
  "(\<And>px q. x = Some (px, q) \<Longrightarrow> px_near (test_config p n) px) \<Longrightarrow> touch_within (test_config p n) (Inr x)"
  using touch_within_near by (cases x) auto

lemma order_test_passes: "ts_is_monotonic_and_seq_is_dense"
proof -
  have "generated (test_config p 5000) (\<lambda>evs.
     list_all (\<lambda>i. ev_ts (evs ! i) \<le> ev_ts (evs ! Suc i)) [0..<length evs - 1]
     \<and> list_all (\<lambda>i. ev_seq (evs ! i) = of_nat i) [0..<length evs])" for p
  proof (rule generated_iff)
    fix evs
    assume ok: "stream_ok (test_config p 5000) evs"
      and order: "ts_ok (test_config p 5000) \<Longrightarrow> sorted (map (\<lambda>ev. unat (ev_ts ev)) evs)"
    have "sorted (map (\<lambda>ev. unat (ev_ts ev)) evs)" by (rule order) (simp add: ts_ok_def test_config_def)
    then have "ev_ts (evs ! i) \<le> ev_ts (evs ! Suc i)" if "Suc i < length evs" for i
      using that sorted_nth_mono [of "map (\<lambda>ev. unat (ev_ts ev)) evs" i "Suc i"] by (simp add: word_le_nat_alt)
    then show "list_all (\<lambda>i. ev_ts (evs ! i) \<le> ev_ts (evs ! Suc i)) [0..<length evs - 1]
       \<and> list_all (\<lambda>i. ev_seq (evs ! i) = of_nat i) [0..<length evs]"
      using ok by (auto simp: list_all_iff stream_ok_def)
  qed
  then show ?thesis by (simp add: ts_is_monotonic_and_seq_is_dense_def all_profiles_def)
qed

lemma band_test_passes: "steady_stays_within_band"
  unfolding steady_stays_within_band_def Let_def
proof (rule generated_iff, rule btree.each_state_ok [where G = "near_book (test_config Steady 20000)"])
  fix evs assume ok: "stream_ok (test_config Steady 20000) evs"
  then show "list_all (\<lambda>e. True \<and> (\<forall>a. near_book (test_config Steady 20000) a \<longrightarrow>
      near_book (test_config Steady 20000) (spec_apply a e))) evs"
    by (auto simp: list_all_length stream_ok_def intro: near_book_apply)
next
  show "near_book (test_config Steady 20000) (btree_abs (ob_default btree_ops))"
    using spec_wf_empty by (simp add: btree.abs_default near_book_def) (simp add: spec_empty_def)
next
  fix b assume b: "btree_inv b" "near_book (test_config Steady 20000) (btree_abs b)"
  show "touch_within (test_config Steady 20000) (ob_best_bid btree_ops b) \<and>
      touch_within (test_config Steady 20000) (ob_best_ask btree_ops b)"
    unfolding btree.best_bid_ok [OF b(1)] btree.best_ask_ok [OF b(1)]
    using near_book_bests [OF b(2)] by (auto intro!: touch_within_option)
qed (rule btree.inv_default)

lemma replay_test_passes: "tri_impl_replay_agrees"
proof -
  have "generated (test_config p 10000) (\<lambda>evs.
   replayed btree_ops evs (\<lambda>bt. replayed sorted_ops evs (\<lambda>sv. replayed rev_ops evs (\<lambda>rv.
     agree btree_ops bt sorted_ops sv \<and> agree btree_ops bt rev_ops rv))))" for p
    by (intro generated_iff btree.replayed_ok sorted.replayed_ok rev.replayed_ok)
      (simp_all add: agree_def btree.best_bid_ok btree.best_ask_ok btree.depth_ok sorted.best_bid_ok sorted.best_ask_ok
        sorted.depth_ok rev.best_bid_ok rev.best_ask_ok rev.depth_ok)
  then show ?thesis by (simp add: tri_impl_replay_agrees_def all_profiles_def)
qed

lemma burst_test_passes: "burst_has_dense_ts_window"
proof -
  let ?cfg = "test_config Burst 5000"
  obtain evs i where evs: "generate ?cfg = Some (Inr evs)" "dense_from i 200 evs"
    using burst_window_exists [of ?cfg] by (auto simp: test_config_def)
  obtain evs' where "generate ?cfg = Some (Inr evs')" and order: "ts_ok ?cfg \<Longrightarrow> sorted (map (\<lambda>ev. unat (ev_ts ev)) evs')"
    by (rule generate_facts [of ?cfg]) blast
  then have "sorted (map (\<lambda>ev. unat (ev_ts ev)) evs)" using evs(1) by (simp add: ts_ok_def test_config_def)
  moreover have "dense_from i 100 evs" by (rule dense_from_less [OF evs(2)]) simp
  ultimately have "burst_window_in 100 1000 evs" by (intro burst_window_found) simp_all
  then show ?thesis by (simp add: burst_has_dense_ts_window_def generated_def evs(1))
qed

lemma generator_tests_pass: "generator_tests"
proof -
  have "exact_count" by (simp add: exact_count_def all_profiles_def generated_iff test_config_def)
  then show ?thesis
    using order_test_passes band_test_passes replay_test_passes burst_test_passes by (simp add: generator_tests_def)
qed

subsection \<open>workload.rs\<close>

text \<open>The book a builder returns; the ladder of a side through \<open>top_n\<close>.\<close>

definition built :: "'b res \<Rightarrow> ('b \<Rightarrow> bool) \<Rightarrow> bool" where
  "built r P = (case r of Inl _ \<Rightarrow> False | Inr b \<Rightarrow> P b)"

definition ladder_reads :: "'b order_book_ops \<Rightarrow> 'b \<Rightarrow> side \<Rightarrow> level list res" where
  "ladder_reads ops b s =
     res_map (\<lambda>(n, out). take n out) (ob_top_n ops b s (replicate (ob_depth ops b s) (px_zero, qty_zero)))"

definition same :: "'a res \<Rightarrow> 'a res \<Rightarrow> bool" where
  "same x y \<longleftrightarrow> \<not> isl x \<and> x = y"

definition build_at_depth_produces_exact_depth_both_sides :: bool where
  "build_at_depth_produces_exact_depth_both_sides \<longleftrightarrow>
     list_all (\<lambda>depth. built (build_at_depth rev_ops (Px 1000000) depth) (\<lambda>b.
        ob_depth rev_ops b Bid = depth \<and> ob_depth rev_ops b Ask = depth
        \<and> res_map (map_option fst) (ob_best_bid rev_ops b) = Inr (Some (Px (1000000 - STEP)))
        \<and> res_map (map_option fst) (ob_best_ask rev_ops b) = Inr (Some (Px (1000000 + STEP))))) [1, 2, 8, 64, 512]"

definition check_builders :: "'b order_book_ops \<Rightarrow> px \<Rightarrow> nat \<Rightarrow> bool" where
  "check_builders ops mid depth \<longleftrightarrow>
     built (build_at_depth ops mid depth) (\<lambda>slow. built (build_at_depth_fast ops mid depth) (\<lambda>fast.
       list_all (\<lambda>s. ob_depth ops slow s = depth \<and> ob_depth ops fast s = depth
          \<and> same (ladder_reads ops slow s) (ladder_reads ops fast s)) [Bid, Ask]
       \<and> same (ob_best_bid ops slow) (ob_best_bid ops fast) \<and> same (ob_best_ask ops slow) (ob_best_ask ops fast)))"

definition build_fast_matches_build_at_depth :: bool where
  "build_fast_matches_build_at_depth \<longleftrightarrow>
     list_all (\<lambda>depth. check_builders sorted_ops (Px 1000000) depth \<and> check_builders rev_ops (Px 1000000) depth
        \<and> check_builders btree_ops (Px 1000000) depth \<and> check_builders flat_ops (Px 1000000) depth) [1, 2, 7, 64, 300]"

definition gap_price_is_an_unoccupied_in_band_price :: bool where
  "gap_price_is_an_unoccupied_in_band_price \<longleftrightarrow>
     (let mid = Px 1000000 in
      built (build_at_depth rev_ops mid 16) (\<lambda>b.
      built (touch_price mid 16 Bid Concentrated (splitmix_new 0)) (\<lambda>(best, rng).
        let gap = gap_price best Bid; before = ob_depth rev_ops b Bid in
        gap = Px (ticks mid - STEP + 1)
        \<and> built (ob_apply rev_ops b (ev_level 0 0 Bid gap (Qty 5))) (\<lambda>b'. ob_depth rev_ops b' Bid = before + 1
        \<and> built (ob_apply rev_ops b' (ev_level 0 0 Bid gap (Qty 0))) (\<lambda>b''. ob_depth rev_ops b'' Bid = before)))))"

definition workload_tests :: bool where
  "workload_tests \<longleftrightarrow> build_at_depth_produces_exact_depth_both_sides \<and> build_fast_matches_build_at_depth
     \<and> gap_price_is_an_unoccupied_in_band_price"

definition ladder_book :: "px \<Rightarrow> nat \<Rightarrow> spec_book \<Rightarrow> bool" where
  "ladder_book mid d b \<longleftrightarrow> spec_wf b \<and> (\<forall>s. spec_side b s = map_of (ladder_at mid s d))"

lemma ladder_book_reads:
  assumes "room mid d" and "ladder_book mid d b"
  shows "spec_depth b s = d" "best_first b s = ladder_at mid s d"
    and "spec_best_bid b = (case ladder_at mid Bid d of [] \<Rightarrow> None | l # _ \<Rightarrow> Some l)"
    and "spec_best_ask b = (case ladder_at mid Ask d of [] \<Rightarrow> None | l # _ \<Rightarrow> Some l)"
proof -
  have first: "best_first b s = ladder_at mid s d" for s
    using assms by (intro best_first_map) (simp_all add: ladder_book_def)
  then show "best_first b s = ladder_at mid s d" .
  show "spec_depth b s = d" by (simp add: spec_depth_best_first first)
  have wf: "spec_wf b" using assms(2) by (simp add: ladder_book_def)
  show "spec_best_bid b = (case ladder_at mid Bid d of [] \<Rightarrow> None | l # _ \<Rightarrow> Some l)"
    "spec_best_ask b = (case ladder_at mid Ask d of [] \<Rightarrow> None | l # _ \<Rightarrow> Some l)"
    using spec_best_bid_best_first [OF wf] spec_best_ask_best_first [OF wf] by (simp_all only: first)
qed

context order_book
begin

lemma builders_built:
  assumes "room mid d" and "\<And>e. e \<in> set (build_events mid d) \<or> e \<in> set (fast_events mid d) \<Longrightarrow> adm e"
    and "\<And>b. inv b \<Longrightarrow> ladder_book mid d (abs b) \<Longrightarrow> P b"
  shows "built (build_at_depth ops mid d) P" and "built (build_at_depth_fast ops mid d) P"
proof -
  have run: "built (run_book ops (ob_default ops) evs) P"
    if evs: "evs = build_events mid d \<or> evs = fast_events mid d" for evs
  proof (rule replay_ok [of evs])
    show "\<forall>ev \<in> set evs. adm ev" using assms(2) evs by blast
    fix b assume "run_book ops (ob_default ops) evs = Inr b" "inv b" "abs b = spec_run evs"
    moreover have "ladder_book mid d (spec_run evs)"
      using evs by (auto simp: ladder_book_def spec_wf_run spec_side_built [OF assms(1)])
    ultimately show "built (run_book ops (ob_default ops) evs) P" using assms(3) by (simp add: built_def)
  qed
  show "built (build_at_depth ops mid d) P" "built (build_at_depth_fast ops mid d) P"
    using run room_fits [OF assms(1)] by (simp_all add: builder_defs)
qed

lemma check_builders_ok:
  assumes "room mid d" and "\<And>e. e \<in> set (build_events mid d) \<or> e \<in> set (fast_events mid d) \<Longrightarrow> adm e"
  shows "check_builders ops mid d"
  unfolding check_builders_def
  by (rule builders_built [OF assms], assumption, rule builders_built [OF assms], assumption)
    (simp add: same_def ladder_reads_def depth_ok top_n_ok best_bid_ok best_ask_ok spec_top_n_def
      ladder_book_reads [OF assms(1)] Let_def)

lemma apply_built: "inv b \<Longrightarrow> adm e \<Longrightarrow> (\<And>b'. inv b' \<Longrightarrow> abs b' = spec_apply (abs b) e \<Longrightarrow> P b') \<Longrightarrow> built (ob_apply ops b e) P"
  using apply_ok [of b e] by (auto simp: built_def)

end

lemma room_million: "d \<le> 512 \<Longrightarrow> flat_room (Px 1000000) d"
  by (simp add: flat_room_def room_def band_ok_def MAX_SPAN_def)

lemma touch_at_zero: "\<exists>r. touch_price (Px 1000000) 16 Bid Concentrated (splitmix_new 0) = Inr (Px 999998, r)"
  by (simp add: touch_price_def rng_bind_def rng_return_def touch_offset_def flip_loop.simps [of 16 0] next_u64_def
      splitmix_new_def STEP_def Let_def)

lemma room_at: "d \<le> 512 \<Longrightarrow> room (Px 1000000) d"
  using room_million by (simp add: flat_room_def)

lemma depth_test_passes: "build_at_depth_produces_exact_depth_both_sides"
proof -
  have head: "ladder_at mid s d = (side_px mid s 1, Qty 1001) # map (\<lambda>i. (side_px mid s (of_nat i), Qty (1000 + of_nat i))) [2..<Suc d]"
    if "0 < d" for mid s d
    using that by (simp add: ladder_at_def upt_conv_Cons numeral_2_eq_2 del: upt_Suc)
  have "built (build_at_depth rev_ops (Px 1000000) depth) (\<lambda>b.
        ob_depth rev_ops b Bid = depth \<and> ob_depth rev_ops b Ask = depth
        \<and> res_map (map_option fst) (ob_best_bid rev_ops b) = Inr (Some (Px (1000000 - STEP)))
        \<and> res_map (map_option fst) (ob_best_ask rev_ops b) = Inr (Some (Px (1000000 + STEP))))"
    if "0 < depth" "depth \<le> 512" for depth
    by (rule rev.builders_built [OF room_at [OF that(2)]])
      (simp_all add: rev.depth_ok rev.best_bid_ok rev.best_ask_ok ladder_book_reads [OF room_at [OF that(2)]] head [OF that(1)])
  then show ?thesis
    by (simp add: build_at_depth_produces_exact_depth_both_sides_def)
qed

lemma builders_test_passes: "build_fast_matches_build_at_depth"
proof -
  have "check_builders sorted_ops (Px 1000000) d \<and> check_builders rev_ops (Px 1000000) d
        \<and> check_builders btree_ops (Px 1000000) d \<and> check_builders flat_ops (Px 1000000) d" if "d \<le> 512" for d
    using builders_in_band [OF room_million [OF that]]
    by (intro conjI sorted.check_builders_ok [OF room_at [OF that]] rev.check_builders_ok [OF room_at [OF that]]
      btree.check_builders_ok [OF room_at [OF that]] flat.check_builders_ok [OF room_at [OF that]] TrueI)
  then show ?thesis by (simp add: build_fast_matches_build_at_depth_def)
qed

lemma gap_test_passes: "gap_price_is_an_unoccupied_in_band_price"
proof -
  obtain rng where touch: "touch_price (Px 1000000) 16 Bid Concentrated (splitmix_new 0) = Inr (Px 999998, rng)"
    using touch_at_zero by blast
  show ?thesis
    unfolding gap_price_is_an_unoccupied_in_band_price_def Let_def touch
  proof (rule rev.builders_built [OF room_at], simp_all only: built_def [of "Inr _"] sum.case case_prod_conv)
    fix b assume b: "rev_inv b" "ladder_book (Px 1000000) 16 (rev_abs b)"
    let ?g = "gap_price (Px 999998) Bid"
    have gap: "?g \<notin> fst ` set (ladder_at (Px 1000000) Bid 16)"
      using gap_free [of "Px 1000000" 16 1 Bid] room_at [of 16] by (simp add: STEP_def)
    have "spec_side (rev_abs b) Bid = map_of (ladder_at (Px 1000000) Bid 16)" using b(2) by (simp only: ladder_book_def)
    then have none: "spec_side (rev_abs b) Bid ?g = None" by (simp only: map_of_eq_None_iff gap not_False_eq_True)
    have fin: "finite (dom (spec_side (rev_abs b) Bid))"
      using b(2) unfolding ladder_book_def spec_wf_def by blast
    have five: "Qty 5 \<noteq> qty_zero" and zero: "Qty 0 = qty_zero" by (simp_all add: qty_zero_def)
    show "?g = Px (ticks (Px 1000000) - STEP + 1)
        \<and> built (ob_apply rev_ops b (ev_level 0 0 Bid ?g (Qty 5))) (\<lambda>b'. ob_depth rev_ops b' Bid = ob_depth rev_ops b Bid + 1
        \<and> built (ob_apply rev_ops b' (ev_level 0 0 Bid ?g (Qty 0))) (\<lambda>b''. ob_depth rev_ops b'' Bid = ob_depth rev_ops b Bid))"
      using spec_insert_remove(1) [OF none five] spec_insert_remove(2) [OF none five fin] b(1)
      by (intro conjI rev.apply_built) (simp_all add: STEP_def rev.depth_ok zero)
  qed
qed

lemma workload_tests_pass: "workload_tests"
  using depth_test_passes builders_test_passes gap_test_passes by (simp add: workload_tests_def)

subsection \<open>harness.rs\<close>

definition impl_registry_is_the_four_books :: bool where
  "impl_registry_is_the_four_books \<longleftrightarrow>
     IMPLS = [''btree'', ''sorted'', ''rev'', ''flat''] \<and> for_impl ''btree'' = Some ''btree'' \<and> for_impl ''rev'' = Some ''rev''
     \<and> for_impl ''flat'' = Some ''flat'' \<and> for_impl ''nope'' = None"

definition warmup_runs_exactly_n_times :: bool where
  "warmup_runs_exactly_n_times \<longleftrightarrow> warmup 1000 (\<lambda>n :: u64. n + 1) 0 = 1000"

definition parse_core_list_handles_commas_spaces_and_junk :: bool where
  "parse_core_list_handles_commas_spaces_and_junk \<longleftrightarrow>
     parse_core_list (codes ''6,12,18'') = [6, 12, 18] \<and> parse_core_list (codes '' 6 , 12 ,18 '') = [6, 12, 18]
     \<and> parse_core_list (codes ''6 12 18'') = [6, 12, 18] \<and> parse_core_list (codes '''') = []
     \<and> parse_core_list (codes ''6,,x,18'') = [6, 18]"

definition reader_cores_flag_beats_env_and_defaults_empty :: "(string \<Rightarrow> nat list option) \<Rightarrow> bool" where
  "reader_cores_flag_beats_env_and_defaults_empty env \<longleftrightarrow>
     reader_cores env [codes ''--reader-cores'', codes ''1,2,3''] = [1, 2, 3]
     \<and> (reader_cores env [] = [] \<or> env ''READER_CORES'' \<noteq> None)"

definition harness_tests :: "(string \<Rightarrow> nat list option) \<Rightarrow> bool" where
  "harness_tests env \<longleftrightarrow> impl_registry_is_the_four_books \<and> warmup_runs_exactly_n_times
     \<and> parse_core_list_handles_commas_spaces_and_junk \<and> reader_cores_flag_beats_env_and_defaults_empty env"

lemmas core_list_evals = parse_core_list_def codes_def is_separator_def trim_def is_whitespace_def parse_usize_def
  parse_uint_def to_digit_def USIZE_MAX_def List.map_filter_def Let_def

lemma warmup_counts: "warmup n (\<lambda>n :: u64. n + 1) s = s + of_nat n"
  by (induction n arbitrary: s) simp_all

lemma harness_tests_pass: "harness_tests env"
proof -
  have "impl_registry_is_the_four_books" by code_simp
  moreover have "parse_core_list_handles_commas_spaces_and_junk"
    unfolding parse_core_list_handles_commas_spaces_and_junk_def by (intro conjI) (simp_all add: core_list_evals)
  moreover have "parse_core_list (codes ''1,2,3'') = [1, 2, 3]" by (simp add: core_list_evals)
  then have "reader_cores_flag_beats_env_and_defaults_empty env"
    by (cases "env ''READER_CORES''") (simp_all add: reader_cores_flag_beats_env_and_defaults_empty_def reader_cores_def)
  ultimately show ?thesis by (simp add: harness_tests_def warmup_runs_exactly_n_times_def warmup_counts)
qed

end
