(* ===== verification/Bench_Tests.thy ===== *)
theory Bench_Tests
  imports Sustained_Laws
begin

section \<open>The unit tests of the sustained-feed benchmark\<close>

text \<open>
  The tests inside sustained.rs. The first is the proof of principle of the benchmark: a loop with a slow operation
  records its backlog when completions are measured against the schedule, and hides it when they are measured
  against the start of the operation. \<open>paced_run\<close> is that loop, over any clock; \<open>paced_lag\<close> bounds what it records on
  every clock that advances in small steps. \<open>low_rate_sustains_high_rate_saturates\<close> measures a machine and is left out.
\<close>

subsection \<open>The paced loop with a slow operation\<close>

datatype record_mode = Scheduled | Apply_Start

definition paced_event ::
  "('w \<Rightarrow> u64 \<times> 'w) \<Rightarrow> u64 \<Rightarrow> u64 \<Rightarrow> record_mode \<Rightarrow> nat \<Rightarrow> 'w \<Rightarrow> (u64 \<times> 'w) option" where
  "paced_event now interval_ns op_ns mode i w =
     (let scheduled = of_nat i * interval_ns in
      Option.bind (spin_until now scheduled w) (\<lambda>(n, w1).
        let (apply_start, w2) = now w1; deadline = apply_start + op_ns in
        Option.bind (if apply_start < deadline then spin_until now deadline w2 else Some (apply_start, w2)) (\<lambda>(t, w3).
          let (d, w4) = now w3
          in Some (case mode of Scheduled \<Rightarrow> sat_sub d scheduled | Apply_Start \<Rightarrow> sat_sub d apply_start, w4))))"

fun paced_loop ::
  "('w \<Rightarrow> u64 \<times> 'w) \<Rightarrow> u64 \<Rightarrow> u64 \<Rightarrow> record_mode \<Rightarrow> nat \<Rightarrow> nat \<Rightarrow> 'w \<Rightarrow> (u64 list \<times> 'w) option" where
  "paced_loop now interval_ns op_ns mode i 0 w = Some ([], w)"
| "paced_loop now interval_ns op_ns mode i (Suc n) w =
     Option.bind (paced_event now interval_ns op_ns mode i w) (\<lambda>(lat, w1).
       map_option (\<lambda>(out, w2). (lat # out, w2)) (paced_loop now interval_ns op_ns mode (Suc i) n w1))"

definition paced_run ::
  "(u64 \<Rightarrow> u64 \<Rightarrow> nat) \<Rightarrow> ('w \<Rightarrow> u64 \<times> 'w) \<Rightarrow> nat \<Rightarrow> u64 \<Rightarrow> u64 \<Rightarrow> record_mode \<Rightarrow> 'w \<Rightarrow> (u64 list \<times> 'w) option" where
  "paced_run delta raw n interval_ns op_ns mode w =
     (let (base, w1) = raw w in paced_loop (now_since_ns delta raw base) interval_ns op_ns mode 0 n w1)"

subsection \<open>A clock that advances in small steps\<close>

definition fine :: "('w \<Rightarrow> u64 \<times> 'w) \<Rightarrow> nat \<Rightarrow> u64 \<Rightarrow> bool" where
  "fine now g T \<longleftrightarrow> ticking now T \<and> (\<forall>w. unat (fst (now (snd (now w)))) \<le> unat (fst (now w)) + g)"

lemma fine_step:
  assumes "fine now g T"
  shows "unat (fst (now w)) \<le> unat (fst (now (snd (now w))))"
    and "unat (fst (now (snd (now w)))) \<le> unat (fst (now w)) + g"
  using assms by (simp_all add: fine_def ticking_def word_le_nat_alt)

lemma fine_wait:
  assumes f: "fine now g T" and t: "unat t \<le> unat T"
  obtains n w1 where "spin_until now t w = Some (n, w1)" "unat t \<le> unat n" "unat (fst (now w)) \<le> unat n"
    "unat n \<le> max (unat (fst (now w))) (unat t + g)" "unat n \<le> unat (fst (now w1))" "unat (fst (now w1)) \<le> unat n + g"
proof -
  have tick: "ticking now T" using f by (simp add: fine_def)
  obtain k where k: "\<forall>i < k. nth_reading now i w < t" "t \<le> nth_reading now k w"
    using ticking_first [OF tick, of t w] t by (auto simp: word_le_nat_alt)
  let ?n = "nth_reading now k w" and ?w1 = "nth_world now (Suc k) w"
  have next_read: "fst (now (nth_world now j w)) = nth_reading now j w" "snd (now (nth_world now j w)) = nth_world now (Suc j) w" for j
    by (simp_all add: nth_reading_def nth_world_def del: nth_world_simps nth_reading_simps)
  note step = fine_step [OF f, of "nth_world now k w", unfolded next_read]
  have "unat ?n \<le> max (unat (fst (now w))) (unat t + g)"
  proof (cases k)
    case (Suc j)
    then have "unat (nth_reading now j w) < unat t" using k(1) by (simp add: word_less_nat_alt)
    moreover have "unat ?n \<le> unat (nth_reading now j w) + g"
      using fine_step(2) [OF f, of "nth_world now j w", unfolded next_read] Suc by simp
    ultimately show ?thesis by simp
  qed simp
  moreover have "unat (fst (now w)) \<le> unat ?n" using reading_after [OF tick, of w k] by (simp add: word_le_nat_alt)
  moreover have "unat t \<le> unat ?n" using k(2) by (simp only: word_le_nat_alt)
  ultimately show ?thesis
    using step by (intro that [OF spin_until_first [OF k]]) (simp_all only: next_read)
qed

text \<open>What one event records, where \<open>r\<close> bounds the first reading.\<close>

definition lag_bounds :: "nat \<Rightarrow> nat \<Rightarrow> nat \<Rightarrow> nat \<Rightarrow> record_mode \<Rightarrow> nat \<Rightarrow> nat \<Rightarrow> bool" where
  "lag_bounds r g iv op mode i lat \<longleftrightarrow>
     (case mode of
        Scheduled \<Rightarrow> Suc i * op \<le> lat + i * iv \<and> lat + i * iv \<le> r + Suc i * (op + 5 * g)
      | Apply_Start \<Rightarrow> op \<le> lat \<and> lat \<le> op + 2 * g)"

lemma sat_sub_nat: "unat y \<le> unat x \<Longrightarrow> unat (sat_sub x y) = unat x - unat y"
  by (simp add: sat_sub_def word_le_nat_alt unat_sub)

text \<open>An event that is due already: it starts at \<open>a\<close> and completes at \<open>d\<close>.\<close>

lemma paced_event_due:
  assumes f: "fine now g T" and due: "unat (of_nat i * interval) \<le> unat (fst (now w))"
    and T: "unat (fst (now w)) + 2 * g + unat op \<le> unat T"
  obtains a d w' where "paced_event now interval op mode i w =
      Some (case mode of Scheduled \<Rightarrow> sat_sub d (of_nat i * interval) | Apply_Start \<Rightarrow> sat_sub d a, w')"
    "unat (fst (now w)) \<le> unat a" "unat a \<le> unat (fst (now w)) + 2 * g"
    "unat a + unat op \<le> unat d" "unat d \<le> unat a + unat op + 2 * g"
    "unat d \<le> unat (fst (now w'))" "unat (fst (now w')) \<le> unat d + g"
proof -
  have "unat (of_nat i * interval) \<le> unat T" using due T by linarith
  then obtain n w1 where one: "spin_until now (of_nat i * interval) w = Some (n, w1)" "unat (fst (now w)) \<le> unat n"
      "unat n \<le> max (unat (fst (now w))) (unat (of_nat i * interval) + g)"
      "unat n \<le> unat (fst (now w1))" "unat (fst (now w1)) \<le> unat n + g"
    by (rule fine_wait [OF f])
  obtain a w2 where a: "now w1 = (a, w2)" by fastforce
  have late: "unat (fst (now w)) \<le> unat a" "unat a \<le> unat (fst (now w)) + 2 * g"
    "unat a \<le> unat (fst (now w2))" "unat (fst (now w2)) \<le> unat a + g"
    using one(2-5) due a fine_step [OF f, of w1] by simp_all
  have room: "unat a + unat op \<le> unat T" using late(2) T by linarith
  then have "unat a + unat op < 2 ^ 64" using unsigned_less [of T, where ?'a = nat] by simp
  then have deadline: "unat (a + op) = unat a + unat op" by (simp add: unat_word_ariths)
  obtain t w3 where two: "(if a < a + op then spin_until now (a + op) w2 else Some (a, w2)) = Some (t, w3)"
      "unat a + unat op \<le> unat (fst (now w3))" "unat (fst (now w3)) \<le> unat a + unat op + 2 * g"
  proof (cases "a < a + op")
    case True
    have "unat (a + op) \<le> unat T" using room deadline by simp
    from fine_wait [OF f this, of w2] obtain t w3
      where "spin_until now (a + op) w2 = Some (t, w3)" "unat (a + op) \<le> unat t"
        "unat t \<le> max (unat (fst (now w2))) (unat (a + op) + g)"
        "unat t \<le> unat (fst (now w3))" "unat (fst (now w3)) \<le> unat t + g" by metis
    with True late(4) deadline show ?thesis by (intro that [of t w3]) auto
  next
    case False
    then have "unat op = 0" using deadline by (simp add: word_less_nat_alt)
    with False late(3,4) show ?thesis by (intro that [of a w2]) simp_all
  qed
  obtain d w4 where d: "now w3 = (d, w4)" by fastforce
  then show thesis
    using late(1,2) two(2,3) fine_step [OF f, of w3]
    by (intro that [of d a w4]) (simp_all add: paced_event_def Let_def one(1) a two(1))
qed

lemma paced_event_lag:
  assumes f: "fine now g T" and iv: "unat interval \<le> unat op"
    and c: "i * unat op \<le> unat (fst (now w))" "unat (fst (now w)) \<le> r + i * (unat op + 5 * g)"
    and T: "r + Suc i * (unat op + 5 * g) \<le> unat T"
  obtains lat w' where "paced_event now interval op mode i w = Some (lat, w')"
    "lag_bounds r g (unat interval) (unat op) mode i (unat lat)"
    "Suc i * unat op \<le> unat (fst (now w'))" "unat (fst (now w')) \<le> r + Suc i * (unat op + 5 * g)"
proof -
  have due: "i * unat interval \<le> i * unat op" using iv by simp
  have grow: "Suc i * (unat op + 5 * g) = i * (unat op + 5 * g) + unat op + 5 * g" "Suc i * unat op = i * unat op + unat op"
    by simp_all
  have "i * unat interval \<le> unat T" using due c T grow by linarith
  then have "i * unat interval < 2 ^ 64" using unsigned_less [of T, where ?'a = nat] by simp
  then have s: "unat (of_nat i * interval) = i * unat interval"
    by (simp add: unat_word_ariths unat_of_nat take_bit_eq_mod mod_mult_left_eq)
  have "unat (of_nat i * interval) \<le> unat (fst (now w))" "unat (fst (now w)) + 2 * g + unat op \<le> unat T"
    using s due c T grow by linarith+
  then obtain a d w' where run: "paced_event now interval op mode i w =
      Some (case mode of Scheduled \<Rightarrow> sat_sub d (of_nat i * interval) | Apply_Start \<Rightarrow> sat_sub d a, w')"
    and a: "unat (fst (now w)) \<le> unat a" "unat a \<le> unat (fst (now w)) + 2 * g"
    and d: "unat a + unat op \<le> unat d" "unat d \<le> unat a + unat op + 2 * g"
      "unat d \<le> unat (fst (now w'))" "unat (fst (now w')) \<le> unat d + g"
    by (rule paced_event_due [OF f])
  have "i * unat interval \<le> unat d" "unat a \<le> unat d" using due c(1) a(1) d(1) by linarith+
  then have lat: "unat (sat_sub d (of_nat i * interval)) + i * unat interval = unat d" "unat (sat_sub d a) + unat a = unat d"
    by (simp_all add: sat_sub_nat s)
  have "Suc i * unat op \<le> unat d" "unat d \<le> r + Suc i * (unat op + 5 * g)" using a d(1,2) c grow by linarith+
  moreover have "unat op \<le> unat (sat_sub d a)" "unat (sat_sub d a) \<le> unat op + 2 * g"
    using lat(2) d(1,2) by linarith+
  ultimately have "lag_bounds r g (unat interval) (unat op) mode i
      (unat (case mode of Scheduled \<Rightarrow> sat_sub d (of_nat i * interval) | Apply_Start \<Rightarrow> sat_sub d a))"
    using lat(1) by (cases mode) (simp_all only: lag_bounds_def record_mode.case)
  moreover have "Suc i * unat op \<le> unat (fst (now w'))" "unat (fst (now w')) \<le> r + Suc i * (unat op + 5 * g)"
    using a d c grow by linarith+
  ultimately show thesis using run by (intro that)
qed

lemma paced_loop_lag:
  assumes f: "fine now g T" and iv: "unat interval \<le> unat op"
  shows "i * unat op \<le> unat (fst (now w)) \<Longrightarrow> unat (fst (now w)) \<le> r + i * (unat op + 5 * g) \<Longrightarrow>
    r + (i + n) * (unat op + 5 * g) \<le> unat T \<Longrightarrow>
    \<exists>xs w'. paced_loop now interval op mode i n w = Some (xs, w') \<and> length xs = n
      \<and> (\<forall>j < n. lag_bounds r g (unat interval) (unat op) mode (i + j) (unat (xs ! j)))"
proof (induction n arbitrary: i w)
  case (Suc n)
  have "r + Suc i * (unat op + 5 * g) \<le> r + (i + Suc n) * (unat op + 5 * g)" by (intro add_left_mono mult_right_mono) simp_all
  then have T: "r + Suc i * (unat op + 5 * g) \<le> unat T" using Suc.prems(3) by linarith
  obtain lat w1 where one: "paced_event now interval op mode i w = Some (lat, w1)"
    "lag_bounds r g (unat interval) (unat op) mode i (unat lat)"
    "Suc i * unat op \<le> unat (fst (now w1))" "unat (fst (now w1)) \<le> r + Suc i * (unat op + 5 * g)"
    by (rule paced_event_lag [OF f iv Suc.prems(1,2) T])
  obtain xs w' where rest: "paced_loop now interval op mode (Suc i) n w1 = Some (xs, w')" "length xs = n"
    "\<forall>j < n. lag_bounds r g (unat interval) (unat op) mode (Suc i + j) (unat (xs ! j))"
    using Suc.IH [OF one(3,4)] Suc.prems(3) by auto
  have "lag_bounds r g (unat interval) (unat op) mode (i + j) (unat ((lat # xs) ! j))" if "j < Suc n" for j
    using that one(2) rest(3) by (cases j) auto
  then show ?case using one(1) rest(1,2) by (intro exI [of _ "lat # xs"] exI [of _ w']) simp
qed simp

lemma paced_run_lag:
  assumes "fine (now_since_ns delta raw (fst (raw w))) g T"
    and "unat (fst (now_since_ns delta raw (fst (raw w)) (snd (raw w)))) \<le> r"
    and "unat interval \<le> unat op" and "r + n * (unat op + 5 * g) \<le> unat T"
  shows "\<exists>out w'. paced_run delta raw n interval op mode w = Some (out, w') \<and> length out = n
    \<and> (\<forall>i < n. lag_bounds r g (unat interval) (unat op) mode i (unat (out ! i)))"
  using paced_loop_lag [OF assms(1,3), of 0 "snd (raw w)" r n mode] assms(2,4)
  by (simp add: paced_run_def split_beta)

text \<open>
  Coordinated omission, proved on the loop the benchmark's test uses. On every clock that runs and
  advances by at most \<open>g\<close> per reading, with an operation no shorter than the schedule's interval, the loop returns
  and records, for event \<open>i\<close>, between \<open>(i + 1) * op - i * interval\<close> and that plus the clock's granularity when it
  subtracts the schedule, so that the backlog grows with every event; and between \<open>op\<close> and \<open>op + 2 * g\<close>, whatever \<open>i\<close>,
  when it subtracts the start of the operation, which hides it.
\<close>
theorem backlog_shows:
  assumes "fine (now_since_ns delta raw (fst (raw w))) g T"
    and "unat (fst (now_since_ns delta raw (fst (raw w)) (snd (raw w)))) \<le> r"
    and "unat interval \<le> unat op" and "r + n * (unat op + 5 * g) \<le> unat T"
  shows "\<exists>sched astart w1 w2. paced_run delta raw n interval op Scheduled w = Some (sched, w1)
    \<and> paced_run delta raw n interval op Apply_Start w = Some (astart, w2) \<and> length sched = n \<and> length astart = n
    \<and> (\<forall>i < n. Suc i * unat op \<le> unat (sched ! i) + i * unat interval
        \<and> unat (sched ! i) + i * unat interval \<le> r + Suc i * (unat op + 5 * g)
        \<and> unat op \<le> unat (astart ! i) \<and> unat (astart ! i) \<le> unat op + 2 * g)"
  using paced_run_lag [OF assms, of Scheduled] paced_run_lag [OF assms, of Apply_Start]
  unfolding lag_bounds_def record_mode.case by blast

lemma demo_now:
  "now_since_ns demo_delta demo_raw (fst (demo_raw 0)) w = (of_nat (min w (2 ^ 64 - 1)), Suc w)"
  "unat (of_nat (min w (2 ^ 64 - 1)) :: u64) = min w (2 ^ 64 - 1)"
proof -
  have clock: "unat (of_nat (min w (2 ^ 64 - 1)) :: u64) = min w (2 ^ 64 - 1)" for w
    unfolding unat_of_nat by (rule mod_less) (simp add: min_def)
  then show "unat (of_nat (min w (2 ^ 64 - 1)) :: u64) = min w (2 ^ 64 - 1)" .
  show "now_since_ns demo_delta demo_raw (fst (demo_raw 0)) w = (of_nat (min w (2 ^ 64 - 1)), Suc w)"
    using clock [of w] by (simp add: now_since_ns_def demo_raw_def delta_ns_def ns_u64_def demo_delta_def min_def)
qed

lemma demo_fine: "fine (now_since_ns demo_delta demo_raw (fst (demo_raw 0))) 1 T"
proof -
  have "unat (fst (now_since_ns demo_delta demo_raw (fst (demo_raw 0)) (snd (now_since_ns demo_delta demo_raw (fst (demo_raw 0)) w))))
      \<le> unat (fst (now_since_ns demo_delta demo_raw (fst (demo_raw 0)) w)) + 1" for w
    unfolding demo_now(1) fst_conv snd_conv demo_now(2) by simp
  then show ?thesis using demo_ticking by (simp only: fine_def simp_thms)
qed

theorem backlog_shows_witness:
  "\<exists>sched astart w1 w2. paced_run demo_delta demo_raw 100 2000 40000 Scheduled 0 = Some (sched, w1)
    \<and> paced_run demo_delta demo_raw 100 2000 40000 Apply_Start 0 = Some (astart, w2)
    \<and> 3650000 \<le> unat (sched ! 95) \<and> unat (astart ! 95) \<le> 40002"
proof -
  have first: "unat (fst (now_since_ns demo_delta demo_raw (fst (demo_raw 0)) (snd (demo_raw 0)))) \<le> 1"
    unfolding demo_now fst_conv by (simp add: demo_raw_def)
  from backlog_shows [OF demo_fine first, of 2000 40000 100 5000000] obtain sched astart w1 w2 where
    "paced_run demo_delta demo_raw 100 2000 40000 Scheduled 0 = Some (sched, w1)"
    "paced_run demo_delta demo_raw 100 2000 40000 Apply_Start 0 = Some (astart, w2)"
    "\<forall>i < 100. Suc i * 40000 \<le> unat (sched ! i) + i * 2000 \<and> unat (astart ! i) \<le> 40002" by auto
  moreover from this(3) have "3650000 \<le> unat (sched ! 95) \<and> unat (astart ! 95) \<le> 40002" by (auto dest: spec [of _ 95])
  ultimately show ?thesis by blast
qed

subsection \<open>The tests\<close>

text \<open>The assertions on the recordings of two runs.\<close>

definition co_correct_records_accumulating_lag :: "u64 list \<Rightarrow> u64 list \<Rightarrow> bool" where
  "co_correct_records_accumulating_lag sched astart \<longleftrightarrow>
     (let n = 100; interval_ns = 2000; op_ns = 40000; early = sched ! 5; late = sched ! (n - 5);
          expected_tail = (of_nat n - 5) * (op_ns - interval_ns); a_late = astart ! (n - 5)
      in early * 5 < late \<and> expected_tail div 2 < late \<and> a_late < op_ns * 3 \<and> a_late * 5 < late)"

definition small_corpus :: "book_event list" where
  "small_corpus = ev_clear 0 0 # concat (map (\<lambda>i. let px = of_nat i in
     [ev_level (of_nat i) (of_nat i * 1000) Bid (Px (1000 - px)) (Qty (10 + px)),
      ev_level (of_nat i) (of_nat i * 1000) Ask (Px (1000 + px)) (Qty (10 + px))]) [1..<33])"

definition schedule_offsets_are_correct :: bool where
  "schedule_offsets_are_correct \<longleftrightarrow>
     (let ev = ev_level 0 5000 Bid (Px 1) (Qty 1)
      in offset_ns (FixedRate 1000000000) 7 ev = Inr 7 \<and> offset_ns (RealArrival 1000 1) 0 ev = Inr 4000
         \<and> offset_ns (RealArrival 1000 2) 0 ev = Inr 2000)"

definition first_arrival_skips_zero_ts_prelude :: bool where
  "first_arrival_skips_zero_ts_prelude \<longleftrightarrow>
     (let evs = [ev_clear 0 0, ev_level 1 0 Bid (Px 1) (Qty 1), ev_level 2 1700000000000000000 Bid (Px 2) (Qty 1),
          ev_level 3 1700000000500000000 Ask (Px 3) (Qty 1)];
          first = first_arrival_ts evs; sched = RealArrival first 1
      in first = 1700000000000000000 \<and> offset_ns sched 0 (evs ! 0) = Inr 0 \<and> offset_ns sched 1 (evs ! 1) = Inr 0
         \<and> offset_ns sched 2 (evs ! 2) = Inr 0 \<and> offset_ns sched 3 (evs ! 3) = Inr 500000000
         \<and> first_arrival_ts [ev_clear 0 0] = 0)"

definition run_impl_rejects_unknown ::
  "'h hist_ops \<Rightarrow> (u64 \<Rightarrow> u64 \<Rightarrow> nat) \<Rightarrow> ('w \<Rightarrow> u64 \<times> 'w) \<Rightarrow> 'w \<Rightarrow> bool" where
  "run_impl_rejects_unknown H delta raw w \<longleftrightarrow>
     run_impl H delta raw ''nope'' small_corpus (FixedRate 1000000) w = Some (Inl AssertionFailed)"

definition sustained_tests :: "'h hist_ops \<Rightarrow> (u64 \<Rightarrow> u64 \<Rightarrow> nat) \<Rightarrow> ('w \<Rightarrow> u64 \<times> 'w) \<Rightarrow> 'w \<Rightarrow> bool" where
  "sustained_tests H delta raw w \<longleftrightarrow>
     schedule_offsets_are_correct \<and> first_arrival_skips_zero_ts_prelude \<and> run_impl_rejects_unknown H delta raw w"

lemma sustained_tests_pass: "sustained_tests H delta raw w"
proof -
  have "schedule_offsets_are_correct"
    by (simp add: schedule_offsets_are_correct_def sat_sub_def ev_defs Let_def)
  moreover have "first_arrival_skips_zero_ts_prelude"
    by (simp add: first_arrival_skips_zero_ts_prelude_def first_arrival_ts_def sat_sub_def ev_defs Let_def)
  moreover have "run_impl_rejects_unknown H delta raw w"
    by (simp add: run_impl_rejects_unknown_def run_impl_def for_impl_def IMPLS_def t_lift_def)
  ultimately show ?thesis by (simp add: sustained_tests_def)
qed

text \<open>The assertions hold on every clock whose steps are at most 16 microseconds, whenever the two runs start.\<close>

lemma lag_test_passes:
  assumes f: "fine (now_since_ns delta raw (fst (raw w))) g T" "fine (now_since_ns delta raw (fst (raw v))) g T"
    and r: "unat (fst (now_since_ns delta raw (fst (raw w)) (snd (raw w)))) \<le> g"
      "unat (fst (now_since_ns delta raw (fst (raw v)) (snd (raw v)))) \<le> g"
    and "g \<le> 16000" and "20000000 \<le> unat T"
  shows "\<exists>sched astart w1 v1. paced_run delta raw 100 2000 40000 Scheduled w = Some (sched, w1)
    \<and> paced_run delta raw 100 2000 40000 Apply_Start v = Some (astart, v1)
    \<and> co_correct_records_accumulating_lag sched astart"
proof -
  have room: "g + 100 * (unat (40000 :: u64) + 5 * g) \<le> unat T" using assms(5,6) by simp
  obtain sched w1 where s: "paced_run delta raw 100 2000 40000 Scheduled w = Some (sched, w1)"
      "\<forall>i < 100. lag_bounds g g 2000 40000 Scheduled i (unat (sched ! i))"
    using paced_run_lag [OF f(1) r(1) _ room, of 2000 Scheduled] by auto
  obtain astart v1 where a: "paced_run delta raw 100 2000 40000 Apply_Start v = Some (astart, v1)"
      "\<forall>i < 100. lag_bounds g g 2000 40000 Apply_Start i (unat (astart ! i))"
    using paced_run_lag [OF f(2) r(2) _ room, of 2000 Apply_Start] by auto
  have early: "unat (sched ! 5) \<le> 230000 + 31 * g" using s(2) [rule_format, of 5] by (simp add: lag_bounds_def)
  have late: "3650000 \<le> unat (sched ! 95)" using s(2) [rule_format, of 95] by (simp add: lag_bounds_def)
  have a_late: "unat (astart ! 95) \<le> 40000 + 2 * g" using a(2) [rule_format, of 95] by (simp add: lag_bounds_def)
  have times: "unat (x * 5) = unat x * 5" if "unat x \<le> 1000000" for x :: u64
    using that by (simp add: unat_word_ariths)
  have "co_correct_records_accumulating_lag sched astart"
    using early late a_late assms(5) times [of "sched ! 5"] times [of "astart ! 95"]
    by (simp add: co_correct_records_accumulating_lag_def Let_def word_less_nat_alt)
  then show ?thesis using s(1) a(1) by blast
qed

end
