(* ===== verification/Oracle_Tests.thy ===== *)
theory Oracle_Tests
  imports Book_Laws
begin

section \<open>The fixed streams of the oracle (book/tests/oracle.rs)\<close>

text \<open>
  The hand-written tests of the differential oracle, each as its stream of events and the driver it
  calls. Those on the admissible band of the flat array pass because every driver does there; the
  rebase test moves the array's window in both directions, and the last test leaves its span.
\<close>

definition I64_MAX :: i64 where "I64_MAX = 0x7FFFFFFFFFFFFFFF"
definition I64_MIN :: i64 where "I64_MIN = 0x8000000000000000"

definition extreme_prices :: "px list" where
  "extreme_prices = [Px (- 5), Px 0, Px (I64_MAX - 1), Px (I64_MIN + 1)]"

definition negative_and_extreme_events :: "book_event list" where
  "negative_and_extreme_events =
     (let slots = concat (map (\<lambda>p. [(p, Bid), (p, Ask)]) extreme_prices);
          levels = map (\<lambda>(k, (p, s)). ev_level (of_nat k) (of_nat k) s p (Qty (1 + of_nat (k mod 7))))
            (enumerate 0 slots);
          seq = of_nat (length slots)
      in levels @ [ev_level seq seq Bid (Px (I64_MIN + 1)) (Qty 0),
                   ev_level (seq + 1) (seq + 1) Ask (Px (I64_MAX - 1)) (Qty 0)])"

definition oracle_negative_and_extreme_prices :: "unit res" where
  "oracle_negative_and_extreme_prices = drive_and_check_three negative_and_extreme_events"

definition crossed_events :: "book_event list" where
  "crossed_events =
     [ev_level 1 1 Ask (Px 100) (Qty 3),
      ev_level 2 2 Ask (Px 101) (Qty 4),
      ev_level 3 3 Bid (Px 105) (Qty 2),
      ev_level 4 4 Bid (Px 102) (Qty 1),
      ev_level 5 5 Ask (Px 99) (Qty 5),
      ev_level 6 6 Bid (Px 110) (Qty 7)]"

definition oracle_crossed_book :: "unit res" where
  "oracle_crossed_book = drive_and_check crossed_events"

definition remove_absent_events :: "book_event list" where
  "remove_absent_events =
     [ev_level 1 1 Bid (Px 100) (Qty 0),
      ev_level 2 2 Ask (Px 200) (Qty 0),
      ev_level 3 3 Bid (Px 100) (Qty 5),
      ev_level 4 4 Bid (Px 99) (Qty 3),
      ev_level 5 5 Ask (Px 101) (Qty 4),
      ev_level 6 6 Bid (Px 98) (Qty 0),
      ev_level 7 7 Bid (Px 50) (Qty 0),
      ev_level 8 8 Ask (Px 500) (Qty 0)]"

definition oracle_remove_absent_is_noop :: "unit res" where
  "oracle_remove_absent_is_noop = drive_and_check remove_absent_events"

definition clear_rebuild_events :: "book_event list" where
  "clear_rebuild_events =
     [ev_level 1 1 Bid (Px 100) (Qty 5),
      ev_level 2 2 Bid (Px 99) (Qty 3),
      ev_level 3 3 Ask (Px 101) (Qty 4),
      ev_trade 4 4 Bid (Px 101) (Qty 2),
      ev_clear 5 5,
      ev_level 6 6 Bid (Px 200) (Qty 8),
      ev_level 7 7 Ask (Px 205) (Qty 9),
      ev_level 8 8 Ask (Px 203) (Qty 1),
      ev_trade 9 9 Ask (Px 203) (Qty 1)]"

definition oracle_clear_then_rebuild :: "unit res" where
  "oracle_clear_then_rebuild = drive_and_check clear_rebuild_events"

definition CHURN_N :: nat where "CHURN_N = 600"

text \<open>Both sides of step \<open>k\<close>, given the sequence number; the quantity \<open>0\<close> removes.\<close>

definition churn_pair :: "nat \<Rightarrow> nat \<Rightarrow> i64 \<Rightarrow> book_event list" where
  "churn_pair seq k q =
     [ev_level (of_nat seq) (of_nat seq) Bid (Px (10000 - of_nat k)) (Qty q),
      ev_level (of_nat seq + 1) (of_nat seq + 1) Ask (Px (10001 + of_nat k)) (Qty q)]"

definition realloc_churn_events :: "book_event list" where
  "realloc_churn_events =
     concat (map (\<lambda>k. churn_pair (2 * k) k (of_nat k + 1)) [0..<CHURN_N])
     @ concat (map (\<lambda>(i, k). churn_pair (2 * (CHURN_N + i)) k 0)
         (enumerate 0 (filter (\<lambda>k. k mod 3 = 0) [0..<CHURN_N])))"

definition oracle_realloc_churn :: "unit res" where
  "oracle_realloc_churn = drive_and_check realloc_churn_events"

subsection \<open>The domain of the flat array\<close>

definition FLAT_INIT_HALF_SPAN :: i64 where "FLAT_INIT_HALF_SPAN = 4096"

definition rebase_events :: "book_event list" where
  "rebase_events =
     (let mid = 1000000
      in [ev_level 0 0 Bid (Px mid) (Qty 5), ev_level 1 1 Ask (Px (mid + 1)) (Qty 7)]
         @ map (\<lambda>k. ev_level (2 + of_nat k) (2 + of_nat k) Ask
             (Px (mid + FLAT_INIT_HALF_SPAN + 1 + of_nat k * 50)) (Qty (of_nat k + 2))) [0..<8]
         @ map (\<lambda>k. ev_level (10 + of_nat k) (10 + of_nat k) Bid
             (Px (mid - FLAT_INIT_HALF_SPAN - 1 - of_nat k * 50)) (Qty (of_nat k + 3))) [0..<8]
         @ [ev_level 18 18 Bid (Px mid) (Qty 0), ev_level 19 19 Ask (Px (mid + 1)) (Qty 0)])"

fun drive_two_from :: "btree_book \<times> flat_book \<Rightarrow> book_event list \<Rightarrow> unit res" where
  "drive_two_from s [] = Inr ()"
| "drive_two_from (a, d) (ev # evs) =
     res_bind (ob_apply btree_ops a ev) (\<lambda>a'.
     res_bind (ob_apply flat_ops d ev) (\<lambda>d'.
     res_bind (observe btree_ops a') (\<lambda>oa.
     res_bind (observe flat_ops d') (\<lambda>od.
     res_bind (assert_eq oa od) (\<lambda>_. drive_two_from (a', d') evs)))))"

definition flatbook_domain_rebase :: "unit res" where
  "flatbook_domain_rebase = drive_two_from (ob_default btree_ops, ob_default flat_ops) rebase_events"

definition flatbook_domain_over_cap :: "flat_book res" where
  "flatbook_domain_over_cap =
     res_bind (ob_apply flat_ops (ob_default flat_ops) (ev_level 1 1 Bid (Px 0) (Qty 1)))
       (\<lambda>d. ob_apply flat_ops d (ev_level 2 2 Ask (Px 9000000) (Qty 1)))"

definition flatbook_domain_over_cap_panics :: bool where
  "flatbook_domain_over_cap_panics \<longleftrightarrow> flatbook_domain_over_cap = Inl AssertionFailed"

subsection \<open>They pass\<close>

lemma drive_band: "list_all (flat_adm lo hi) evs \<Longrightarrow> drive_and_check evs = Inr ()"
  unfolding drive_and_check_def
  by (rule drive_from_ok [OF four_inv_default [of lo hi]]) (simp add: list_all_iff)

lemma adm_level: "flat_adm lo hi (ev_level n t s p q) \<longleftrightarrow> band_ok lo hi \<and> in_band lo hi p"
  and adm_other: "flat_adm lo hi (ev_trade n t s p q) \<longleftrightarrow> band_ok lo hi"
    "flat_adm lo hi (ev_clear n t) \<longleftrightarrow> band_ok lo hi"
  by (simp_all add: flat_adm_def ev_defs)

lemma band_1000: "band_ok 0 1000"
  by (simp add: band_ok_def MAX_SPAN_def)

lemma churn_adm: "k < 600 \<Longrightarrow> list_all (flat_adm 9000 11000) (churn_pair n k q)"
proof -
  assume k: "k < 600"
  have "sint (10000 + of_int (- int k) :: i64) = 10000 - int k" "sint (10001 + of_int (int k) :: i64) = 10001 + int k"
    using k sint_add_i64 [of 10000 "- int k"] sint_add_i64 [of 10001 "int k"] by simp_all
  then show ?thesis
    using k by (simp add: churn_pair_def adm_level band_ok_def MAX_SPAN_def in_band_def)
qed

lemma oracle_realloc_churn_passes: "oracle_realloc_churn = Inr ()"
proof -
  have "list_all (flat_adm 9000 11000) (concat (map (\<lambda>k. churn_pair (2 * k) k (of_nat k + 1)) [0..<CHURN_N]))"
    using churn_adm by (auto simp: CHURN_N_def list_all_iff)
  moreover have "k < 600" if "(i, k) \<in> set (enumerate 0 (filter (\<lambda>k. k mod 3 = 0) [0..<CHURN_N]))" for i k
    using that nth_mem by (fastforce simp: in_set_enumerate_eq CHURN_N_def)
  then have "list_all (flat_adm 9000 11000) (concat (map (\<lambda>(i, k). churn_pair (2 * (CHURN_N + i)) k 0)
      (enumerate 0 (filter (\<lambda>k. k mod 3 = 0) [0..<CHURN_N]))))"
    using churn_adm by (fastforce simp: list_all_iff)
  ultimately show ?thesis
    unfolding oracle_realloc_churn_def realloc_churn_events_def by (intro drive_band [of 9000 11000]) simp
qed

lemma drive_two_ok:
  "btree_inv a \<Longrightarrow> btree_abs a = x \<Longrightarrow> flat_inv lo hi d \<Longrightarrow> flat_abs d = x \<Longrightarrow>
   list_all (flat_adm lo hi) evs \<Longrightarrow> drive_two_from (a, d) evs = Inr ()"
proof (induction evs arbitrary: a d x)
  case (Cons ev evs)
  obtain a' where a': "ob_apply btree_ops a ev = Inr a'" "btree_inv a'" "btree_abs a' = spec_apply x ev"
    using btree.apply_ok [of a ev] Cons.prems by auto
  obtain d' where d': "ob_apply flat_ops d ev = Inr d'" "flat_inv lo hi d'" "flat_abs d' = spec_apply x ev"
    using flat.apply_ok [of lo hi d ev] Cons.prems by auto
  have "drive_two_from (a', d') evs = Inr ()"
    by (rule Cons.IH [OF a'(2,3) d'(2,3)]) (use Cons.prems(5) in simp)
  then show ?case
    using a'(1) d'(1) btree.observe_ok [OF a'(2)] flat.observe_ok [OF d'(2)] by (simp add: a'(3) d'(3))
qed simp

lemma flatbook_domain_rebase_passes: "flatbook_domain_rebase = Inr ()"
proof -
  have eight: "[0..<8] = [0, 1, 2, 3, 4, 5, 6, 7 :: nat]" by code_simp
  have "list_all (flat_adm 990000 1010000) rebase_events"
    unfolding rebase_events_def eight
    by (simp add: adm_level band_ok_def MAX_SPAN_def in_band_def FLAT_INIT_HALF_SPAN_def Let_def)
  then show ?thesis
    unfolding flatbook_domain_rebase_def
    using btree.inv_default btree.abs_default flat.inv_default flat.abs_default
    by (intro drive_two_ok [where x = spec_empty]) simp_all
qed

lemma flatbook_domain_over_cap_ok: "flatbook_domain_over_cap_panics"
proof -
  have "run_book flat_ops flat_default
      [ev_level 1 1 Bid (Px 0) (Qty 1), ev_level 2 2 Ask (Px 9000000) (Qty 1)] = Inl AssertionFailed"
    using flat_run_window [OF flat_wf_default, of "[ev_level 1 1 Bid (Px 0) (Qty 1), ev_level 2 2 Ask (Px 9000000) (Qty 1)]"]
    by (simp add: held_window_default window_width_def tick_room_def ev_level_def MAX_SPAN_def split: sum.splits)
  moreover have "run_book flat_ops flat_default
      [ev_level 1 1 Bid (Px 0) (Qty 1), ev_level 2 2 Ask (Px 9000000) (Qty 1)] = res_bind flatbook_domain_over_cap Inr"
    by (cases "flat_apply flat_default (ev_level 1 1 Bid (Px 0) (Qty 1))")
      (simp_all add: flatbook_domain_over_cap_def flat_ops_def)
  ultimately have "res_bind flatbook_domain_over_cap Inr = Inl AssertionFailed" by (rule back_subst)
  moreover have "r = Inl AssertionFailed" if "res_bind r Inr = Inl AssertionFailed" for r :: "flat_book res"
    using that by (cases r) simp_all
  ultimately show ?thesis unfolding flatbook_domain_over_cap_panics_def by blast
qed

definition oracle_tests :: bool where
  "oracle_tests \<longleftrightarrow>
     drive_and_check shared_scenario = Inr () \<and> oracle_randomized 50000 = Inr ()
     \<and> oracle_negative_and_extreme_prices = Inr () \<and> oracle_crossed_book = Inr ()
     \<and> oracle_remove_absent_is_noop = Inr () \<and> oracle_clear_then_rebuild = Inr ()
     \<and> oracle_realloc_churn = Inr () \<and> flatbook_domain_rebase = Inr () \<and> flatbook_domain_over_cap_panics"

lemma oracle_tests_pass: oracle_tests
  unfolding oracle_tests_def
proof (intro conjI)
  show "drive_and_check shared_scenario = Inr ()"
    by (rule drive_band [of 0 1000])
      (simp add: shared_scenario_def adm_level adm_other band_1000 in_band_def)
  show "oracle_randomized 50000 = Inr ()" by (simp add: oracle_randomized_def oracle_seeds_ok)
  show "oracle_negative_and_extreme_prices = Inr ()"
    by (simp add: oracle_negative_and_extreme_prices_def drive_and_check_three_def
        drive_three_from_ok [OF three_inv_default])
  show "oracle_crossed_book = Inr ()" unfolding oracle_crossed_book_def
    by (rule drive_band [of 0 1000]) (simp add: crossed_events_def adm_level band_1000 in_band_def)
  show "oracle_remove_absent_is_noop = Inr ()" unfolding oracle_remove_absent_is_noop_def
    by (rule drive_band [of 0 1000]) (simp add: remove_absent_events_def adm_level band_1000 in_band_def)
  show "oracle_clear_then_rebuild = Inr ()" unfolding oracle_clear_then_rebuild_def
    by (rule drive_band [of 0 1000])
      (simp add: clear_rebuild_events_def adm_level adm_other band_1000 in_band_def)
  show "oracle_realloc_churn = Inr ()" by (rule oracle_realloc_churn_passes)
  show "flatbook_domain_rebase = Inr ()" by (rule flatbook_domain_rebase_passes)
  show flatbook_domain_over_cap_panics by (rule flatbook_domain_over_cap_ok)
qed

end
