(* ===== verification/Ring_Calls.thy ===== *)
theory Ring_Calls
  imports Ring_Concurrent
begin

unbundle bit_operations_syntax

section \<open>What one consumer is told over a whole run\<close>

text \<open>
  The calls one consumer completes, in order, in any interleaving with the producer and with the
  other consumers. Two things hold although \<open>resync\<close> may move a cursor backwards: a call reports
  an overrun only when the producer has begun the record that overwrites the slot, and no position
  is delivered twice. Both rest on what the releasing stores of a push carry: the write position
  carries the publication of every earlier position, and a stamp carries the mark of every earlier
  position, so the fence before the second look at a stamp sees that an old slot has been reused.
\<close>

subsection \<open>What the producer's messages carry\<close>

text \<open>The stamp messages that mark and publish position \<open>q\<close>, in slot \<open>q mod cap\<close>.\<close>

definition mark_idx :: "nat \<Rightarrow> nat \<Rightarrow> nat" where "mark_idx cap q = 2 * (q div cap) + 1"
definition pub_idx :: "nat \<Rightarrow> nat \<Rightarrow> nat" where "pub_idx cap q = 2 * (q div cap) + 2"

definition carries :: "ring \<Rightarrow> ring_loc wmem \<Rightarrow> bool" where
  "carries R m \<longleftrightarrow>
     (\<forall>j < count m WritePos. \<forall>q < j.
        pub_idx (rg_cap R) q \<le> view_at m WritePos j (SlotStamp (q mod rg_cap R)))
     \<and> (\<forall>i < rg_cap R. \<forall>j < count m (SlotStamp i). 0 < j \<longrightarrow> (\<forall>q < slot_pos (rg_cap R) i j.
          mark_idx (rg_cap R) q \<le> view_at m (SlotStamp i) j (SlotStamp (q mod rg_cap R))))"

text \<open>Marks the last release fence covers: one more position once the fence of the push has run.\<close>

definition covers_marks :: "ring \<Rightarrow> ring_loc view \<Rightarrow> nat \<Rightarrow> bool" where
  "covers_marks R V n \<longleftrightarrow> (\<forall>q < n. mark_idx (rg_cap R) q \<le> V (SlotStamp (q mod rg_cap R)))"

text \<open>Operations of the current push that have run.\<close>

definition ops_done :: "ring \<Rightarrow> ring_sys \<Rightarrow> nat" where
  "ops_done R s = (if rs_pending s = [] then 0 else rg_width R + 4 - length (rs_pending s))"

definition trail_inv :: "ring \<Rightarrow> ring_sys \<Rightarrow> bool" where
  "trail_inv R s \<longleftrightarrow> carries R (rs_mem s)
     \<and> covers_marks R (wm_rel (rs_mem s))
         (count (rs_mem s) WritePos - 1 + (if 2 \<le> ops_done R s then 1 else 0))"

lemma producer_inv_ops:
  assumes "producer_inv R s n k"
  shows "count (rs_mem s) WritePos = n + 1" and "ops_done R s = k"
proof -
  show "count (rs_mem s) WritePos = n + 1" using assms by (simp add: producer_inv_def)
  have "rs_pending s \<noteq> [] \<and> length (rs_pending s) = rg_width R + 4 - k \<and> k < rg_width R + 4"
    if "rs_pending s \<noteq> [] \<or> k \<noteq> 0"
  proof -
    have "length (rs_hist s) = n + 1" "k < rg_width R + 4" "recs_ok R (rs_hist s)"
      "rs_pending s = drop k (ring_push R (of_nat n) (rs_hist s ! n))"
      using assms that by (auto simp: producer_inv_def)
    moreover from this have "length (rs_pending s) = rg_width R + 4 - k"
      by (simp add: recs_ok_def push_nth(6))
    ultimately show ?thesis by (metis less_numeral_extra(3) list.size(3) zero_less_diff)
  qed
  then show "ops_done R s = k" by (cases "rs_pending s = []") (auto simp: ops_done_def)
qed

lemma mark_before_pub: "mark_idx cap q \<le> pub_idx cap q"
  by (simp add: mark_idx_def pub_idx_def)

text \<open>The writer's own view covers what it has done.\<close>

lemma gens_above: "q < n \<Longrightarrow> 0 < cap \<Longrightarrow> q div cap + 1 \<le> gens cap n (q mod cap)"
proof -
  assume "q < n" and cap: "0 < cap"
  show ?thesis
  proof (cases "q div cap < n div cap")
    case False
    then have "q div cap = n div cap" using div_le_mono [of q n cap] \<open>q < n\<close> by linarith
    moreover from this have "q mod cap < n mod cap"
      using \<open>q < n\<close> by (metis add_less_cancel_left div_mult_mod_eq)
    ultimately show ?thesis by (simp add: gens_def)
  qed (simp add: gens_def)
qed

lemma cells_cover:
  assumes "cells_ok R m hist p j k" and "0 < rg_cap R" and "q < p"
  shows "pub_idx (rg_cap R) q \<le> wm_cur m (SlotStamp (q mod rg_cap R))"
  using slot.cell_okD(1) [OF cells_okD [OF assms(1), of "q mod rg_cap R"]]
    gens_above [OF assms(3,2)] assms(2)
  by (auto simp: wm_cur_def pub_idx_def split: if_splits)

lemma cells_cover_mark:
  assumes "cells_ok R m hist n (n mod rg_cap R) k" and "0 < k" and "0 < rg_cap R"
  shows "mark_idx (rg_cap R) n \<le> wm_cur m (SlotStamp (n mod rg_cap R))"
  using slot.cell_okD(1) [OF cells_okD [OF assms(1), of "n mod rg_cap R"]] assms(2,3)
  by (simp add: wm_cur_def mark_idx_def gens_def)

lemma covers_all:
  assumes "cells_ok R m hist n (n mod rg_cap R) k" and "0 < rg_cap R"
  shows "covers_marks R (wm_cur m) (n + (if 0 < k then 1 else 0))"
  unfolding covers_marks_def
proof (intro allI impI)
  fix q assume "q < n + (if 0 < k then 1 else 0)"
  then consider "q < n" | "q = n" "0 < k" by (cases "q = n") (auto split: if_splits)
  then show "mark_idx (rg_cap R) q \<le> wm_cur m (SlotStamp (q mod rg_cap R))"
  proof cases
    case 1
    from cells_cover [OF assms this] mark_before_pub show ?thesis by (rule order_trans [rotated])
  next
    case 2
    with cells_cover_mark [OF assms(1) _ assms(2)] show ?thesis by simp
  qed
qed

lemma carries_append_other:
  assumes "carries R m" and "l \<noteq> WritePos" and "\<And>i. l \<noteq> SlotStamp i"
  shows "carries R (wm_append m l v V)"
proof -
  have "wm_msgs (wm_append m l v V) WritePos = wm_msgs m WritePos"
    "wm_msgs (wm_append m l v V) (SlotStamp i) = wm_msgs m (SlotStamp i)" for i
    using assms(2,3) by (auto simp: wm_append_def)
  with assms(1) show ?thesis by (simp add: carries_def)
qed

lemma carries_mark:
  assumes "carries R m" and "count m (SlotStamp j) = k" and "covers_marks R V (slot_pos (rg_cap R) j k)"
  shows "carries R (wm_append m (SlotStamp j) v V)"
proof -
  have new: "mark_idx (rg_cap R) q \<le> (V(SlotStamp j := k)) (SlotStamp (q mod rg_cap R))"
    if "q < slot_pos (rg_cap R) j k" for q
  proof (cases "q mod rg_cap R = j")
    case True
    then have "j + q div rg_cap R * rg_cap R < j + (k - 1) div 2 * rg_cap R"
      using that by (simp add: slot_pos_def flip: True)
    then have "q div rg_cap R < (k - 1) div 2" by simp
    then show ?thesis using True by (simp add: mark_idx_def)
  qed (use that assms(3) in \<open>simp add: covers_marks_def\<close>)
  show ?thesis
    using assms(1,2) new unfolding carries_def
    by (auto simp: wm_append_def nth_append less_Suc_eq)
qed

lemma carries_write:
  assumes "carries R m" and "\<And>q. q < count m WritePos \<Longrightarrow> pub_idx (rg_cap R) q \<le> V (SlotStamp (q mod rg_cap R))"
  shows "carries R (wm_append m WritePos v V)"
  using assms unfolding carries_def by (auto simp: wm_append_def nth_append less_Suc_eq)

subsection \<open>Every step of the producer keeps it\<close>

lemma trail_inv_cong:
  assumes "rs_mem s' = rs_mem s" and "rs_pending s' = rs_pending s"
  shows "trail_inv R s' = trail_inv R s"
  by (simp add: trail_inv_def ops_done_def assms)

lemma trail_begin:
  assumes "producer_inv R s n k" and "trail_inv R s" and "rs_pending s = []" and "length rec = rg_width R"
  shows "trail_inv R (s\<lparr>rs_pending := ring_push R (wm_latest (rs_mem s) WritePos) rec,
      rs_hist := rs_hist s @ [rec]\<rparr>)"
  using assms(2,3) by (simp add: trail_inv_def ops_done_def push_nth(6) [OF assms(4)])

lemma trail_op:
  assumes wf: "ring_wf R" and small: "length (rs_hist s) \<le> 2 ^ 63"
    and inv: "producer_inv R s n k" and trail: "trail_inv R s" and busy: "rs_pending s = op # ops"
  shows "trail_inv R (s\<lparr>rs_mem := do_wop op (rs_mem s), rs_pending := ops\<rparr>)"
proof -
  let ?W = "rg_width R" and ?cap = "rg_cap R" and ?m = "rs_mem s" and ?hist = "rs_hist s"
  let ?j = "n mod ?cap" and ?m' = "do_wop op (rs_mem s)"
  let ?ops = "ring_push R (of_nat n) (?hist ! n)"
  let ?s' = "s\<lparr>rs_mem := ?m', rs_pending := ops\<rparr>"
  have len: "length ?hist = n + 1" and k: "k < ?W + 4" and pend: "op # ops = drop k ?ops"
    and recs: "recs_ok R ?hist"
    using inv busy by (auto simp: producer_inv_def)
  have rec: "length (?hist ! n) = ?W" using recs len by (simp add: recs_ok_def)
  have cap: "0 < ?cap" by (rule cap_pos [OF wf])
  have slot: "slot_of R (of_nat n) = ?j" using small len by (intro slot_of_nat [OF wf]) simp
  note nth = push_nth [OF rec, where p = "of_nat n", unfolded slot]
  have "drop k ?ops = ?ops ! k # drop (Suc k) ?ops"
    using k nth(6) by (intro Cons_nth_drop_Suc [symmetric]) simp
  with pend have op: "op = ?ops ! k" and ops: "ops = drop (k + 1) ?ops" by simp_all
  have wcnt: "count ?m WritePos = n + 1" and dn: "ops_done R s = k" by (rule producer_inv_ops [OF inv])+
  have next_done: "ops_done R ?s' = (if k = ?W + 3 then 0 else k + 1)"
    using k nth(6) by (auto simp: ops_done_def ops)
  have mem: "carries R ?m" and rel: "covers_marks R (wm_rel ?m) (n + (if 2 \<le> k then 1 else 0))"
    using trail by (simp_all add: trail_inv_def wcnt dn)
  have cells: "cells_ok R ?m ?hist n ?j k" if "k < ?W + 3"
    using inv that by (simp add: producer_inv_def)
  have cnt: "count ?m (SlotStamp ?j) = 2 * (n div ?cap) + (if k = 0 then 1 else 2)" if "k < ?W + 3"
    using slot.cell_okD(1) [OF cells_okD [OF cells [OF that], of ?j]] cap by (simp add: gens_def)
  have here: "slot_pos ?cap ?j (2 * (n div ?cap) + 1) = n" "slot_pos ?cap ?j (2 * (n div ?cap) + 2) = n"
    by (simp_all add: slot_pos_def)
  have cur: "covers_marks R (wm_cur ?m) (n + (if 0 < k then 1 else 0))" if "k < ?W + 3"
    by (rule covers_all [OF cells [OF that] cap])
  consider "k = 0" | "k = 1" | w where "k = 2 + w" "w < ?W" | "k = ?W + 2" | "k = ?W + 3"
  proof -
    have "k = 0 \<or> k = 1 \<or> k = ?W + 2 \<or> k = ?W + 3 \<or> (2 \<le> k \<and> k < ?W + 2)" using k by linarith
    moreover have "2 \<le> k \<and> k < ?W + 2 \<Longrightarrow> k = 2 + (k - 2) \<and> k - 2 < ?W" by linarith
    ultimately show thesis using that by blast
  qed
  then show ?thesis
  proof cases
    case 1
    then have op': "op = Store_Relaxed (SlotStamp ?j) (of_nat n OR WRITING)" using op by (simp only: nth)
    have "carries R ?m'"
      using carries_mark [OF mem cnt] rel here 1 by (simp add: op')
    then show ?thesis using 1 rel wcnt next_done by (simp add: trail_inv_def op' count_append)
  next
    case 2
    then have op': "op = Fence_Release" using op by (simp only: nth)
    have "carries R ?m'" using mem by (simp add: op' carries_def)
    then show ?thesis using 2 cur wcnt next_done by (simp add: trail_inv_def op')
  next
    case (3 w)
    then have op': "op = Store_Relaxed (word_locs ?W ?j ! w) (?hist ! n ! w)"
      using op nth(3) [OF 3(2)] by (simp only: 3(1))
    have loc: "word_locs ?W ?j ! w = Word ?j w" using 3(2) by (simp add: word_locs_def)
    have "carries R ?m'" unfolding op' loc by (simp add: carries_append_other [OF mem])
    then show ?thesis using 3 rel wcnt next_done by (simp add: trail_inv_def op' loc count_append)
  next
    case 4
    then have op': "op = Store_Release (SlotStamp ?j) (of_nat n)" using op by (simp only: nth)
    have "covers_marks R (wm_cur ?m) n" using cur 4 by (simp add: covers_marks_def)
    then have "carries R ?m'"
      using carries_mark [OF mem cnt, of "wm_cur ?m" "of_nat n"] here 4 by (simp add: op')
    then show ?thesis using 4 rel wcnt next_done by (simp add: trail_inv_def op' count_append)
  next
    case 5
    then have op': "op = Store_Release WritePos (of_nat n + 1)" using op by (simp only: nth)
    have "cells_ok R ?m ?hist (n + 1) ?j 0" using inv 5 by (simp add: producer_inv_def)
    from cells_cover [OF this cap] have "carries R ?m'"
      unfolding op' do_wop.simps by (intro carries_write [OF mem]) (simp add: wcnt)
    then show ?thesis using 5 rel wcnt next_done by (simp add: trail_inv_def op' count_append)
  qed
qed

lemma trail_inv_init: "ring_wf R \<Longrightarrow> trail_inv R (ring_init R cs)"
  by (simp add: trail_inv_def ring_init_def carries_def covers_marks_def wm_init_def ops_done_def)

subsection \<open>What a consumer knows in the middle of a call\<close>

text \<open>
  \<open>reused\<close>: the consumer's next acquire fence will show that the slot of position \<open>q\<close> was marked
  for a later record. \<open>d\<close> bounds the positions delivered so far.
\<close>

definition reused :: "ring \<Rightarrow> ring_loc view \<Rightarrow> nat \<Rightarrow> bool" where
  "reused R acq q \<longleftrightarrow> pub_idx (rg_cap R) q < acq (SlotStamp (q mod rg_cap R))"

definition knows :: "ring \<Rightarrow> u64 \<Rightarrow> ring_loc view \<Rightarrow> bool" where
  "knows R c cur \<longleftrightarrow> pub_idx (rg_cap R) (unat c) \<le> cur (SlotStamp (slot_of R c))"

definition guarded :: "ring \<Rightarrow> nat \<Rightarrow> nat \<Rightarrow> ring_loc view \<Rightarrow> bool" where
  "guarded R c d acq \<longleftrightarrow> (\<forall>q. c \<le> q \<and> q < d \<longrightarrow> reused R acq q)"

inductive trail ::
  "ring \<Rightarrow> nat \<Rightarrow> nat \<Rightarrow> u64 \<Rightarrow> (ring_loc, recv \<times> u64) reader \<Rightarrow> bool" for R begun d c rd where
  start: "rd_prog rd = try_recv R c \<Longrightarrow> guarded R (unat c) d (rd_acq rd) \<Longrightarrow> trail R begun d c rd"
| none: "rd_prog rd = Ret (Empty, c) \<Longrightarrow> guarded R (unat c) d (rd_acq rd) \<Longrightarrow> trail R begun d c rd"
| lookup:
    "rd_prog rd = recv_slot R c \<Longrightarrow> knows R c (rd_cur rd) \<Longrightarrow> guarded R (unat c) d (rd_acq rd) \<Longrightarrow>
     trail R begun d c rd"
| words:
    "rd_prog rd = read_words ls vals (recv_check R c) \<Longrightarrow> knows R c (rd_cur rd) \<Longrightarrow>
     guarded R (unat c) d (rd_acq rd) \<Longrightarrow> trail R begun d c rd"
| check:
    "rd_prog rd = Load_Relaxed (SlotStamp (slot_of R c)) (\<lambda>s2.
       if s2 \<noteq> c then resync R c else Ret (Item vals, c + 1)) \<Longrightarrow> knows R c (rd_cur rd) \<Longrightarrow>
     guarded R (unat c) d (rd_acq rd) \<Longrightarrow>
     (unat c < d \<Longrightarrow> pub_idx (rg_cap R) (unat c) < rd_cur rd (SlotStamp (slot_of R c))) \<Longrightarrow>
     trail R begun d c rd"
| lost:
    "rd_prog rd = resync R c \<Longrightarrow> unat c + rg_cap R < begun \<Longrightarrow> guarded R 0 d (rd_acq rd) \<Longrightarrow>
     trail R begun d c rd"
| skip:
    "rd_prog rd = Ret (Overrun k, c') \<Longrightarrow> k = u64_saturating_sub c' c \<Longrightarrow>
     unat c + rg_cap R < begun \<Longrightarrow> unat c' \<le> begun - rg_cap R \<Longrightarrow> guarded R 0 d (rd_acq rd) \<Longrightarrow>
     trail R begun d c rd"
| got: "rd_prog rd = Ret (Item rec, c + 1) \<Longrightarrow> d \<le> unat c \<Longrightarrow> trail R begun d c rd"

lemma trail_mono: "trail R begun d c rd \<Longrightarrow> begun \<le> begun' \<Longrightarrow> trail R begun' d c rd"
  by (erule trail.cases) (auto intro: trail.intros)

lemma guarded_mono: "guarded R c d acq \<Longrightarrow> acq \<le> acq' \<Longrightarrow> guarded R c d acq'"
  unfolding guarded_def reused_def le_fun_def by (meson less_le_trans)

lemma knows_mono: "knows R c cur \<Longrightarrow> cur \<le> cur' \<Longrightarrow> knows R c cur'"
  unfolding knows_def le_fun_def by (meson le_trans)

lemma views_grow:
  assumes "read_step m rd rd'"
  shows "rd_cur rd \<le> rd_cur rd'" and "rd_acq rd \<le> rd_acq rd'"
  using assms by (cases rule: read_stepE; simp add: le_supI1)+

lemma slot_of_unat: "ring_wf R \<Longrightarrow> slot_of R c = unat c mod rg_cap R"
  using slot_of_nat [of R "unat c"] unsigned_less [where 'a = nat, of c] by simp

text \<open>A stamp message after the publication of the cursor's record ends the call in an overrun.\<close>

lemma later_stamp:
  assumes wf: "ring_wf R" and mem: "mem_ok R m hist" and car: "carries R m"
    and j: "pub_idx (rg_cap R) (unat c) < j" "j < count m (SlotStamp (slot_of R c))"
    and acq: "view_at m (SlotStamp (slot_of R c)) j \<le> acq'" "acq \<le> acq'"
    and guard: "guarded R (unat c) d acq"
  shows "unat c + rg_cap R < length hist" and "guarded R 0 d acq'"
proof -
  let ?cap = "rg_cap R" and ?i = "slot_of R c"
  have cap: "0 < ?cap" and i: "?i < ?cap" by (rule cap_pos [OF wf], rule slot_of_less [OF wf])
  have slot: "?i = unat c mod ?cap" by (rule slot_of_unat [OF wf])
  have "unat c div ?cap + 1 \<le> (j - 1) div 2" using j(1) by (simp add: pub_idx_def)
  then have "(unat c div ?cap + 1) * ?cap \<le> (j - 1) div 2 * ?cap" by (rule mult_le_mono1)
  then have p: "unat c + ?cap \<le> slot_pos ?cap ?i j"
    unfolding slot_pos_def slot using div_mult_mod_eq [of "unat c" ?cap]
    by (simp only: add_mult_distrib mult_1)
  have pos: "0 < j" using j(1) by simp
  have "slot_pos ?cap ?i j < length hist" using mem i j(2) pos by (simp add: mem_ok_def)
  with p show "unat c + ?cap < length hist" by linarith
  have old: "reused R acq' q" if "q < unat c" for q
  proof -
    have "q + ?cap < slot_pos ?cap ?i j" using p that by linarith
    then have "mark_idx ?cap (q + ?cap) \<le> view_at m (SlotStamp ?i) j (SlotStamp ((q + ?cap) mod ?cap))"
      using car i j(2) pos unfolding carries_def by blast
    then have "mark_idx ?cap (q + ?cap) \<le> acq' (SlotStamp (q mod ?cap))"
      using le_funD [OF acq(1)] by (simp add: le_trans)
    moreover have "(q + ?cap) div ?cap = q div ?cap + 1"
      using cap by (intro div_add_self2) simp
    ultimately show ?thesis by (simp add: reused_def mark_idx_def pub_idx_def)
  qed
  have "guarded R (unat c) d acq'" by (rule guarded_mono [OF guard acq(2)])
  with old show "guarded R 0 d acq'" unfolding guarded_def by (meson not_less)
qed

lemma stamp_of_cursor:
  assumes wf: "ring_wf R" and mem: "mem_ok R m hist" and c: "unat c < length hist"
    and j: "j < count m (SlotStamp (slot_of R c))"
  shows "val_at m (SlotStamp (slot_of R c)) j = c \<longleftrightarrow> j = pub_idx (rg_cap R) (unat c)"
proof -
  let ?cap = "rg_cap R" and ?i = "slot_of R c"
  have cap: "0 < ?cap" and i: "?i < ?cap" by (rule cap_pos [OF wf], rule slot_of_less [OF wf])
  have slot: "?i = unat c mod ?cap" by (rule slot_of_unat [OF wf])
  have len: "length hist \<le> 2 ^ 63" using mem by (simp add: mem_ok_def)
  have val: "val_at m (SlotStamp ?i) j = slot_val ?cap ?i j"
    using mem i j slot.cell_okD(7) by (fastforce simp: mem_ok_def)
  have pub: "slot_pos ?cap ?i (pub_idx ?cap (unat c)) = unat c"
    by (simp add: slot_pos_def pub_idx_def slot)
  have pos: "0 < j \<Longrightarrow> slot_pos ?cap ?i j < 2 ^ 63"
    using mem i j len unfolding mem_ok_def by (meson less_le_trans)
  show ?thesis
  proof
    assume "val_at m (SlotStamp ?i) j = c"
    then have "slot_val ?cap ?i j = c" by (simp only: val)
    moreover have "unat c < 2 ^ 63" using c len by linarith
    ultimately obtain g where g: "j = 2 * g" "0 < g" "slot_pos ?cap ?i (2 * g) = unat c"
      using slot_val_cursor [OF _ _ pos cap] by blast
    have "2 * (unat c div ?cap + 1) = pub_idx ?cap (unat c)" by (simp add: pub_idx_def)
    with g(2,3) pub slot_pos_inj [OF cap g(2), of "unat c div ?cap + 1" ?i] g(1)
    show "j = pub_idx ?cap (unat c)" by simp
  next
    assume "j = pub_idx ?cap (unat c)"
    then have "slot_val ?cap ?i j = of_nat (slot_pos ?cap ?i (pub_idx ?cap (unat c)))"
      by (simp add: slot_val_def pub_idx_def)
    also have "\<dots> = c" by (simp add: pub)
    finally show "val_at m (SlotStamp ?i) j = c" by (simp only: val)
  qed
qed

lemma oldest_le:
  assumes "ring_wf R" and "j \<le> 2 ^ 63"
  shows "unat (u64_saturating_sub (of_nat j) (of_nat (rg_cap R))) \<le> j - rg_cap R"
proof -
  have "unat (of_nat j :: u64) = j" "unat (of_nat (rg_cap R) :: u64) = rg_cap R"
    using assms(2) cap_small [OF assms(1)] by (simp_all add: unat_of_nat)
  then show ?thesis by (simp add: u64_saturating_sub_def word_le_nat_alt unat_sub_if')
qed

lemma trail_step:
  assumes wf: "ring_wf R" and mem: "mem_ok R m hist" and car: "carries R m"
    and cons: "consumer_inv R m hist c rd" and tr: "trail R (length hist) d c rd"
    and step: "read_step m rd rd'"
  shows "trail R (length hist) d c rd'"
proof -
  let ?cap = "rg_cap R" and ?i = "slot_of R c"
  have slot: "?i = unat c mod ?cap" by (rule slot_of_unat [OF wf])
  have len: "length hist \<le> 2 ^ 63" and cnt: "count m WritePos \<le> length hist + 1"
    using mem by (simp_all add: mem_ok_def)
  note grow = views_grow [OF step]
  from tr show ?thesis
  proof cases
    case start
    note g = guarded_mono [OF start(2) grow(2)]
    from step show ?thesis
    proof (cases rule: read_stepE)
      case (acquire l k j)
      from start acquire(1) have l: "l = WritePos"
        and k: "k = (\<lambda>w. if w \<le> c then Ret (Empty, c) else recv_slot R c)"
        by (simp_all add: try_recv_def)
      have w: "val_at m WritePos j = of_nat j" using mem acquire(3) l by (simp add: mem_ok_def)
      have prog: "rd_prog rd' = (if of_nat j \<le> c then Ret (Empty, c) else recv_slot R c)"
        by (simp only: acquire(4) k l w)
      show ?thesis
      proof (cases "of_nat j \<le> c")
        case False
        have "j < 2 ^ 64" using acquire(3) l cnt len by simp
        then have "unat c < j" using False by (simp add: word_le_nat_alt unat_of_nat)
        then have "pub_idx ?cap (unat c) \<le> view_at m WritePos j (SlotStamp ?i)"
          using car acquire(3) l by (simp add: carries_def slot)
        then have "knows R c (rd_cur rd')"
          using l by (simp add: knows_def acquire(5) sup_nat_def le_max_iff_disj)
        with prog False g show ?thesis by (intro trail.lookup) simp_all
      qed (use prog g in \<open>auto intro: trail.none\<close>)
    qed (use start in \<open>simp_all add: try_recv_def\<close>)
  next
    case lookup
    note g = guarded_mono [OF lookup(3) grow(2)] and kn = knows_mono [OF lookup(2) grow(1)]
    have c: "unat c < length hist"
      using cons lookup(1) cnt unfolding consumer_inv_def by (auto elim!: consumer_phase.cases
        simp: recv_slot_def try_recv_def resync_def Let_def)
    from step show ?thesis
    proof (cases rule: read_stepE)
      case (acquire l k j)
      from lookup(1) acquire(1) have l: "l = SlotStamp ?i"
        and k: "k = (\<lambda>s1. if s1 \<noteq> c then resync R c
          else read_words (word_locs (rg_width R) ?i) [] (recv_check R c))"
        by (simp_all add: recv_slot_def)
      have j: "pub_idx ?cap (unat c) \<le> j" "j < count m (SlotStamp ?i)"
        using lookup(2) acquire(2,3) unfolding l knows_def by simp_all
      have prog: "rd_prog rd' = (if j \<noteq> pub_idx ?cap (unat c) then resync R c
          else read_words (word_locs (rg_width R) ?i) [] (recv_check R c))"
        using stamp_of_cursor [OF wf mem c j(2)] by (simp only: acquire(4) k l)
      show ?thesis
      proof (cases "j = pub_idx ?cap (unat c)")
        case False
        have "view_at m (SlotStamp ?i) j \<le> rd_acq rd'" by (simp add: acquire(6) l)
        with later_stamp [OF wf mem car _ j(2) this grow(2) lookup(3)] j(1) False prog
        show ?thesis by (intro trail.lost) simp_all
      qed (use prog kn g in \<open>auto intro: trail.words\<close>)
    qed (use lookup(1) in \<open>simp_all add: recv_slot_def\<close>)
  next
    case (words ls vals)
    note g = guarded_mono [OF words(3) grow(2)] and kn = knows_mono [OF words(2) grow(1)]
    show ?thesis
    proof (cases ls)
      case (Cons l ls')
      with words(1) have prog: "rd_prog rd = Load_Relaxed l (\<lambda>v. read_words ls' (vals @ [v]) (recv_check R c))"
        by simp
      from step show ?thesis
      proof (cases rule: read_stepE)
        case (relaxed l' k j)
        then have "rd_prog rd' = read_words ls' (vals @ [val_at m l j]) (recv_check R c)"
          using prog by auto
        with kn g show ?thesis by (intro trail.words)
      qed (simp_all add: prog)
    next
      case Nil
      with words(1) have prog: "rd_prog rd = recv_check R c vals" by simp
      from step show ?thesis
      proof (cases rule: read_stepE)
        case (fence p)
        have "pub_idx ?cap (unat c) < rd_cur rd' (SlotStamp ?i)" if "unat c < d"
          using words(3) that by (simp add: guarded_def reused_def fence(3) slot sup_nat_def less_max_iff_disj)
        moreover have "rd_prog rd' = Load_Relaxed (SlotStamp ?i) (\<lambda>s2.
            if s2 \<noteq> c then resync R c else Ret (Item vals, c + 1))"
          using fence(1,2) prog by (simp add: recv_check_def)
        ultimately show ?thesis using kn g by (intro trail.check)
      qed (simp_all add: prog recv_check_def)
    qed
  next
    case (check vals)
    have c: "unat c < length hist"
      using cons check(1) cnt unfolding consumer_inv_def
      by (auto elim!: consumer_phase.cases simp: recv_slot_def try_recv_def resync_def Let_def)
    from step show ?thesis
    proof (cases rule: read_stepE)
      case (relaxed l k j)
      from check(1) relaxed(1) have l: "l = SlotStamp ?i"
        and k: "k = (\<lambda>s2. if s2 \<noteq> c then resync R c else Ret (Item vals, c + 1))" by simp_all
      have j: "pub_idx ?cap (unat c) \<le> j" "j < count m (SlotStamp ?i)"
        "unat c < d \<Longrightarrow> pub_idx ?cap (unat c) < j"
        using check(2,4) relaxed(2,3) unfolding l knows_def by simp_all
      have prog: "rd_prog rd' = (if j \<noteq> pub_idx ?cap (unat c) then resync R c else Ret (Item vals, c + 1))"
        using stamp_of_cursor [OF wf mem c j(2)] by (simp only: relaxed(4) k l)
      show ?thesis
      proof (cases "j = pub_idx ?cap (unat c)")
        case True
        with j(3) have "d \<le> unat c" by force
        with prog True show ?thesis by (intro trail.got) simp_all
      next
        case False
        have "view_at m (SlotStamp ?i) j \<le> rd_acq rd'" by (simp add: relaxed(6) l)
        with later_stamp [OF wf mem car _ j(2) this grow(2) check(3)] j(1) False prog
        show ?thesis by (intro trail.lost) simp_all
      qed
    qed (use check(1) in simp_all)
  next
    case lost
    note g = guarded_mono [OF lost(3) grow(2)]
    from step show ?thesis
    proof (cases rule: read_stepE)
      case (acquire l k j)
      let ?o = "u64_saturating_sub (val_at m l j) (of_nat ?cap)"
      have prog: "rd_prog rd' = Ret (Overrun (u64_saturating_sub ?o c), ?o)"
        using acquire(1,4) lost(1) by (auto simp: resync_def Let_def)
      have "l = WritePos" using acquire(1) lost(1) by (simp add: resync_def)
      then have "val_at m l j = of_nat j" "j \<le> length hist"
        using mem acquire(3) cnt by (simp_all add: mem_ok_def)
      then have "unat ?o \<le> length hist - ?cap"
        using oldest_le [OF wf, of j] len by simp
      with prog lost(2) g show ?thesis by (intro trail.skip) simp_all
    qed (use lost(1) in \<open>simp_all add: resync_def\<close>)
  qed (use step in \<open>auto elim!: read_stepE\<close>)
qed

subsection \<open>The calls of a consumer\<close>

text \<open>A call: the cursor it started from, what it returned, and the cursor it left.\<close>

type_synonym call = "u64 \<times> recv \<times> u64"

definition in_call :: "ring_thread \<Rightarrow> bool" where
  "in_call th \<longleftrightarrow> (\<forall>x. rd_prog (rt_reader th) \<noteq> Ret x)"

text \<open>\<open>ring_calls R cs r s log\<close>: the system reaches \<open>s\<close> and consumer \<open>r\<close> has completed the calls \<open>log\<close>.\<close>

inductive ring_calls :: "ring \<Rightarrow> (nat \<Rightarrow> u64) \<Rightarrow> nat \<Rightarrow> ring_sys \<Rightarrow> call list \<Rightarrow> bool" for R cs r where
  begin_calls: "ring_calls R cs r (ring_init R cs) []"
| other_step:
    "ring_calls R cs r s log \<Longrightarrow> ring_step R s s' \<Longrightarrow>
     in_call (rs_threads s r) \<or> rs_threads s' r = rs_threads s r \<Longrightarrow> ring_calls R cs r s' log"
| call_returns:
    "ring_calls R cs r s log \<Longrightarrow>
     rt_reader (rs_threads s r) = \<lparr>rd_prog = Ret (x, c), rd_cur = cur, rd_acq = acq\<rparr> \<Longrightarrow>
     ring_calls R cs r (set_consumer s r (thread_at R c cur acq)) (log @ [(rt_cursor (rs_threads s r), x, c)])"

text \<open>The contract of one call, given the records whose push has begun.\<close>

fun call_ok :: "ring \<Rightarrow> u64 list list \<Rightarrow> call \<Rightarrow> bool" where
  "call_ok R hist (c, Item rec, c') \<longleftrightarrow> unat c < length hist \<and> rec = hist ! unat c \<and> unat c' = unat c + 1"
| "call_ok R hist (c, Empty, c') \<longleftrightarrow> c' = c"
| "call_ok R hist (c, Overrun k, c') \<longleftrightarrow> k = u64_saturating_sub c' c
     \<and> unat c + rg_cap R < length hist \<and> unat c' \<le> length hist - rg_cap R"

fun delivered_positions :: "call list \<Rightarrow> nat list" where
  "delivered_positions [] = []"
| "delivered_positions ((c, Item rec, c') # log) = unat c # delivered_positions log"
| "delivered_positions (_ # log) = delivered_positions log"

text \<open>Each call starts where the last one left the cursor.\<close>

fun calls_from :: "u64 \<Rightarrow> call list \<Rightarrow> u64 \<Rightarrow> bool" where
  "calls_from c [] c' \<longleftrightarrow> c' = c"
| "calls_from c ((c1, x, c2) # log) c' \<longleftrightarrow> c1 = c \<and> calls_from c2 log c'"

lemma calls_from_append: "calls_from c (xs @ ys) c' \<longleftrightarrow> (\<exists>c1. calls_from c xs c1 \<and> calls_from c1 ys c')"
  by (induction c xs c' rule: calls_from.induct) auto

lemma delivered_append: "delivered_positions (xs @ ys) = delivered_positions xs @ delivered_positions ys"
  by (induction xs rule: delivered_positions.induct) auto

lemma call_ok_mono:
  assumes "call_ok R hist x"
  shows "call_ok R (hist @ ys) x"
proof -
  obtain c v c' where "x = (c, v, c')" by (cases x) blast
  with assms show ?thesis by (cases v) (auto simp: nth_append)
qed

text \<open>The next position to deliver is at least \<open>next_due log\<close>.\<close>

definition next_due :: "call list \<Rightarrow> nat" where
  "next_due log = (if delivered_positions log = [] then 0 else last (delivered_positions log) + 1)"

definition calls_inv :: "ring \<Rightarrow> u64 \<Rightarrow> ring_sys \<Rightarrow> ring_thread \<Rightarrow> call list \<Rightarrow> bool" where
  "calls_inv R c0 s th log \<longleftrightarrow>
     trail R (length (rs_hist s)) (next_due log) (rt_cursor th) (rt_reader th)
     \<and> calls_from c0 log (rt_cursor th) \<and> list_all (call_ok R (rs_hist s)) log
     \<and> sorted_wrt (<) (delivered_positions log)"

lemma calls_reach: "ring_calls R cs r s log \<Longrightarrow> ring_reach R cs s"
  by (induction rule: ring_calls.induct)
    (auto intro: ring_reach.intros ring_step.recv_next)

lemma reach_trail:
  assumes "ring_reach R cs s" and "ring_wf R" and "length (rs_hist s) \<le> 2 ^ 63"
  shows "trail_inv R s"
  using assms
proof (induction rule: ring_reach.induct)
  case (step s s')
  have small: "length (rs_hist s) \<le> 2 ^ 63" using ring_step_hist [OF step.hyps(2)] step.prems(2) by linarith
  obtain n k where p: "producer_inv R s n k"
    using ring_reach_inv [OF step.hyps(1) step.prems(1) small] by (auto simp: ring_inv_def)
  note IH = step.IH [OF step.prems(1) small]
  from step.hyps(2) show ?case
  proof cases
    case (push_begin rec)
    with trail_begin [OF p IH] show ?thesis by simp
  next
    case (push_op op ops)
    with trail_op [OF step.prems(1) small p IH] show ?thesis by simp
  next
    case (recv_op r rd)
    with IH trail_inv_cong [of s' s R] show ?thesis by (simp add: set_consumer_def)
  next
    case (recv_next r x c cur acq)
    with IH trail_inv_cong [of s' s R] show ?thesis by (simp add: set_consumer_def)
  qed
qed (rule trail_inv_init)

lemma mem_of_reach:
  assumes "ring_reach R cs s" and "ring_wf R" and "length (rs_hist s) \<le> 2 ^ 63"
  shows "mem_ok R (rs_mem s) (rs_hist s)" and "carries R (rs_mem s)"
    and "consumer_inv R (rs_mem s) (rs_hist s) (rt_cursor (rs_threads s r)) (rt_reader (rs_threads s r))"
proof -
  have inv: "ring_inv R s" by (rule ring_reach_inv [OF assms])
  then obtain n k where "producer_inv R s n k" by (auto simp: ring_inv_def)
  from producer_mem_ok [OF assms(2) this assms(3)] show "mem_ok R (rs_mem s) (rs_hist s)" .
  show "carries R (rs_mem s)" using reach_trail [OF assms] by (simp add: trail_inv_def)
  show "consumer_inv R (rs_mem s) (rs_hist s) (rt_cursor (rs_threads s r)) (rt_reader (rs_threads s r))"
    using inv by (simp add: ring_inv_def)
qed

lemma trail_start: "guarded R (unat c) d acq \<Longrightarrow> trail R begun d c (rt_reader (thread_at R c cur acq))"
  by (intro trail.start) (simp_all add: thread_at_def)

text \<open>What a call that has returned did.\<close>

lemma trail_returned:
  assumes "trail R begun d c \<lparr>rd_prog = Ret (x, c'), rd_cur = cur, rd_acq = acq\<rparr>"
  shows "case x of Item rec \<Rightarrow> c' = c + 1 \<and> d \<le> unat c
    | Empty \<Rightarrow> c' = c \<and> guarded R (unat c) d acq
    | Overrun k \<Rightarrow> k = u64_saturating_sub c' c \<and> unat c + rg_cap R < begun
        \<and> unat c' \<le> begun - rg_cap R \<and> guarded R 0 d acq"
proof -
  have no: "read_words ws vs (recv_check R c) \<noteq> Ret x" for ws vs and x :: "recv \<times> u64"
    by (cases ws) (simp_all add: recv_check_def)
  from assms show ?thesis
    by cases (simp_all add: try_recv_def recv_slot_def resync_def no no [symmetric])
qed

lemma calls_inv_returns:
  assumes inv: "calls_inv R c0 s th log" and small: "length (rs_hist s) \<le> 2 ^ 63"
    and cons: "consumer_inv R (rs_mem s) (rs_hist s) (rt_cursor th) (rt_reader th)"
    and mem: "mem_ok R (rs_mem s) (rs_hist s)"
    and ret: "rt_reader th = \<lparr>rd_prog = Ret (x, c), rd_cur = cur, rd_acq = acq\<rparr>"
  shows "calls_inv R c0 s (thread_at R c cur acq) (log @ [(rt_cursor th, x, c)])"
proof -
  let ?c = "rt_cursor th" and ?hist = "rs_hist s"
  have tr: "trail R (length ?hist) (next_due log) ?c \<lparr>rd_prog = Ret (x, c), rd_cur = cur, rd_acq = acq\<rparr>"
    and chain: "calls_from c0 log ?c" and ok: "list_all (call_ok R ?hist) log"
    and sorted: "sorted_wrt (<) (delivered_positions log)"
    using inv by (simp_all add: calls_inv_def ret)
  note R = trail_returned [OF tr]
  have cur: "rt_cursor (thread_at R c cur acq) = c" by (simp add: thread_at_def)
  have "trail R (length ?hist) (next_due (log @ [(?c, x, c)])) c (rt_reader (thread_at R c cur acq))
    \<and> call_ok R ?hist (?c, x, c) \<and> sorted_wrt (<) (delivered_positions (log @ [(?c, x, c)]))"
  proof (cases x)
    case (Item rec)
    have item: "unat ?c < length ?hist" "rec = ?hist ! unat ?c"
      using item_phase [of R "rs_mem s" ?hist ?c "rt_reader th" rec c] cons
      by (simp_all add: consumer_inv_def ret Item)
    have c: "c = ?c + 1" and due: "next_due log \<le> unat ?c" using R by (simp_all add: Item)
    have "unat ?c + 1 < 2 ^ 64" using item(1) small by simp
    then have unat_c: "unat c = unat ?c + 1"
      unfolding c by (simp add: unat_word_ariths)
    have "p < unat ?c" if "p \<in> set (delivered_positions log)" for p
    proof -
      have "p \<le> last (delivered_positions log)"
        using sorted that by (cases "delivered_positions log" rule: rev_cases) (auto simp: sorted_wrt_append)
      moreover have "delivered_positions log \<noteq> []" using that by auto
      ultimately show ?thesis using due by (simp add: next_due_def)
    qed
    then have "sorted_wrt (<) (delivered_positions log @ [unat ?c])"
      using sorted by (simp add: sorted_wrt_append)
    moreover have "next_due (log @ [(?c, x, c)]) = unat c"
      by (simp add: next_due_def delivered_append Item unat_c)
    moreover have "trail R (length ?hist) (unat c) c (rt_reader (thread_at R c cur acq))"
      by (rule trail_start) (auto simp: guarded_def)
    ultimately show ?thesis using item unat_c by (simp add: delivered_append Item)
  next
    case Empty
    then have "c = ?c" "guarded R (unat ?c) (next_due log) acq" using R by simp_all
    then show ?thesis using sorted Empty by (auto simp: delivered_append next_due_def intro: trail_start)
  next
    case (Overrun k)
    then have "guarded R 0 (next_due log) acq" using R by simp
    then have "guarded R (unat c) (next_due log) acq" by (simp add: guarded_def)
    then show ?thesis
      using sorted R Overrun by (auto simp: delivered_append next_due_def intro: trail_start)
  qed
  then show ?thesis
    using chain ok by (simp add: calls_inv_def cur calls_from_append)
qed

lemma ring_calls_inv:
  assumes "ring_calls R cs r s log" and wf: "ring_wf R" and "length (rs_hist s) \<le> 2 ^ 63"
  shows "calls_inv R (cs r) s (rs_threads s r) log"
  using assms(1,3)
proof (induction rule: ring_calls.induct)
  case begin_calls
  show ?case
    using trail_start [of R "cs r" 0 "\<lambda>_. 0" 0 "\<lambda>_. 0"]
    by (simp add: calls_inv_def ring_init_def next_due_def guarded_def) (simp add: thread_at_def)
next
  case (other_step s log s')
  have small: "length (rs_hist s) \<le> 2 ^ 63"
    using ring_step_hist [OF other_step.hyps(2)] other_step.prems by linarith
  note mem = mem_of_reach [OF calls_reach [OF other_step.hyps(1)] wf small]
  note IH = other_step.IH [OF small]
  have weaker: "calls_inv R (cs r) s' th log" if "calls_inv R (cs r) s th log" "\<exists>ys. rs_hist s' = rs_hist s @ ys" for th
    using that call_ok_mono trail_mono unfolding calls_inv_def
    by (auto simp: list_all_iff)
  from other_step.hyps(2) show ?case
  proof cases
    case (push_begin rec)
    then show ?thesis using weaker [OF IH] by simp
  next
    case (push_op op ops)
    then show ?thesis using weaker [OF IH] by simp
  next
    case (recv_op r' rd)
    show ?thesis
    proof (cases "r' = r")
      case True
      have "trail R (length (rs_hist s)) (next_due log) (rt_cursor (rs_threads s r)) rd"
        using trail_step [OF wf mem(1,2) mem(3) _ recv_op(2) [unfolded True]] IH
        by (simp add: calls_inv_def)
      then show ?thesis using IH True by (simp add: recv_op(1) set_consumer_def calls_inv_def)
    next
      case False
      then show ?thesis using IH by (simp add: recv_op(1) set_consumer_def calls_inv_def)
    qed
  next
    case (recv_next r' x c cur acq)
    then have "rs_threads s' r = rs_threads s r"
      using other_step.hyps(3) by (auto simp: in_call_def set_consumer_def)
    then show ?thesis using IH by (simp add: recv_next(1) set_consumer_def calls_inv_def)
  qed
next
  case (call_returns s log x c cur acq)
  have small: "length (rs_hist s) \<le> 2 ^ 63" using call_returns.prems by (simp add: set_consumer_def)
  note mem = mem_of_reach [OF calls_reach [OF call_returns.hyps(1)] wf small]
  from calls_inv_returns [OF call_returns.IH [OF small] small mem(3) mem(1) call_returns.hyps(2)]
  show ?case by (simp add: set_consumer_def calls_inv_def)
qed

subsection \<open>Scripted runs\<close>

text \<open>
  A run of one consumer as a script: the producer begins a push, runs some of its operations, or
  consumer \<open>0\<close> makes a call whose loads take the listed messages. So that scripts evaluate, the
  producer's view is kept as a table over the locations \<open>ls\<close> in use.
\<close>

definition table :: "'l list \<Rightarrow> 'l view \<Rightarrow> 'l view" where
  "table ls V = fold (\<lambda>l f. f(l := V l)) ls (\<lambda>_. 0)"

fun table_wop :: "'l list \<Rightarrow> 'l wop \<Rightarrow> 'l wmem \<Rightarrow> 'l wmem" where
  "table_wop ls (Store_Relaxed l v) m = wm_append m l v (wm_rel m)"
| "table_wop ls (Store_Release l v) m = wm_append m l v (table ls (wm_cur m))"
| "table_wop ls Fence_Release m = m\<lparr>wm_rel := table ls (wm_cur m)\<rparr>"

fun stays_in :: "'l list \<Rightarrow> 'l wop \<Rightarrow> bool" where
  "stays_in ls (Store_Relaxed l v) \<longleftrightarrow> l \<in> set ls"
| "stays_in ls (Store_Release l v) \<longleftrightarrow> l \<in> set ls"
| "stays_in ls Fence_Release \<longleftrightarrow> True"

definition untouched :: "'l list \<Rightarrow> 'l wmem \<Rightarrow> bool" where
  "untouched ls m \<longleftrightarrow> (\<forall>l. l \<notin> set ls \<longrightarrow> count m l = 1)"

lemma table_apply: "table ls V l = (if l \<in> set ls then V l else 0)"
proof -
  have "fold (\<lambda>l f. f(l := V l)) ls f l = (if l \<in> set ls then V l else f l)" for f
    by (induction ls arbitrary: f) auto
  then show ?thesis by (simp add: table_def)
qed

lemma table_cur: "untouched ls m \<Longrightarrow> table ls (wm_cur m) = wm_cur m"
  by (auto simp: table_apply untouched_def wm_cur_def)

lemma table_wop_eq:
  assumes "untouched ls m" and "stays_in ls op"
  shows "table_wop ls op m = do_wop op m" and "untouched ls (do_wop op m)"
  using assms table_cur [OF assms(1)] by (cases op; auto simp: untouched_def count_append)+

lemma table_fold:
  "untouched ls m \<Longrightarrow> list_all (stays_in ls) ops \<Longrightarrow>
   fold (table_wop ls) ops m = fold do_wop ops m \<and> untouched ls (fold do_wop ops m)"
  by (induction ops arbitrary: m) (simp_all add: table_wop_eq)

datatype act = Begin_Push "u64 list" | Run_Ops nat | Make_Call "nat list"

fun play_act :: "ring_loc list \<Rightarrow> ring \<Rightarrow> act \<Rightarrow> ring_sys \<times> call list \<Rightarrow> (ring_sys \<times> call list) option" where
  "play_act ls R (Begin_Push rec) (s, log) =
     (if rs_pending s = [] \<and> length rec = rg_width R
      then Some (s\<lparr>rs_pending := ring_push R (wm_latest (rs_mem s) WritePos) rec,
                   rs_hist := rs_hist s @ [rec]\<rparr>, log)
      else None)"
| "play_act ls R (Run_Ops k) (s, log) =
     (if list_all (stays_in ls) (take k (rs_pending s))
      then Some (s\<lparr>rs_mem := fold (table_wop ls) (take k (rs_pending s)) (rs_mem s),
                   rs_pending := drop k (rs_pending s)\<rparr>, log)
      else None)"
| "play_act ls R (Make_Call idx) (s, log) =
     (let th = rs_threads s 0; c = rt_cursor th; rd = rt_reader th
      in case run_script (try_recv R c) (rs_mem s) idx (rd_cur rd) (rd_acq rd) of
           None \<Rightarrow> None
         | Some ((x, c'), cur, acq) \<Rightarrow>
             Some (set_consumer s 0 (thread_at R c' (table ls cur) (table ls acq)), log @ [(c, x, c')]))"

fun play_run :: "ring_loc list \<Rightarrow> ring \<Rightarrow> act list \<Rightarrow> ring_sys \<times> call list \<Rightarrow> (ring_sys \<times> call list) option" where
  "play_run ls R [] x = Some x"
| "play_run ls R (a # as) x = (case play_act ls R a x of None \<Rightarrow> None | Some y \<Rightarrow> play_run ls R as y)"

lemma calls_reads:
  assumes "ring_calls R cs r s log"
    and "(read_step (rs_mem s))\<^sup>*\<^sup>* (rt_reader (rs_threads s r)) rd"
  shows "ring_calls R cs r (set_consumer s r ((rs_threads s r)\<lparr>rt_reader := rd\<rparr>)) log"
  using assms(2)
proof (induction rule: rtranclp_induct)
  case base
  have "set_consumer s r ((rs_threads s r)\<lparr>rt_reader := rt_reader (rs_threads s r)\<rparr>) = s"
    by (simp add: set_consumer_def)
  with assms(1) show ?case by simp
next
  case (step y z)
  let ?s = "set_consumer s r ((rs_threads s r)\<lparr>rt_reader := y\<rparr>)"
  have "ring_step R ?s (set_consumer ?s r ((rs_threads ?s r)\<lparr>rt_reader := z\<rparr>))"
    by (rule ring_step.recv_op) (use step.hyps(2) in \<open>simp add: set_consumer_def\<close>)
  moreover have "in_call (rs_threads ?s r)"
    using step.hyps(2) by (auto simp: in_call_def set_consumer_def elim!: read_stepE)
  ultimately have "ring_calls R cs r (set_consumer ?s r ((rs_threads ?s r)\<lparr>rt_reader := z\<rparr>)) log"
    by (intro ring_calls.other_step [OF step.IH]) simp_all
  then show ?case by (simp add: set_consumer_def)
qed

lemma calls_ops:
  "ring_calls R cs r s log \<Longrightarrow>
   ring_calls R cs r (s\<lparr>rs_mem := fold do_wop (take k (rs_pending s)) (rs_mem s),
     rs_pending := drop k (rs_pending s)\<rparr>) log"
proof (induction k arbitrary: s)
  case (Suc k)
  show ?case
  proof (cases "rs_pending s")
    case Nil
    then have "s\<lparr>rs_mem := fold do_wop (take (Suc k) (rs_pending s)) (rs_mem s),
        rs_pending := drop (Suc k) (rs_pending s)\<rparr> = s" by simp
    with Suc.prems show ?thesis by (simp only:)
  next
    case (Cons op ops)
    have "ring_calls R cs r (s\<lparr>rs_mem := do_wop op (rs_mem s), rs_pending := ops\<rparr>) log"
      by (rule ring_calls.other_step [OF Suc.prems ring_step.push_op [OF Cons]]) simp
    from Suc.IH [OF this] show ?thesis by (simp add: Cons)
  qed
qed simp

lemma reach_views:
  "ring_reach R cs s \<Longrightarrow> views_ok (rs_mem s) \<and> (\<forall>r. reader_ok (rs_mem s) (rt_reader (rs_threads s r)))"
proof (induction rule: ring_reach.induct)
  case init
  show ?case
    by (simp add: ring_init_def thread_at_def views_ok_init reader_ok_def view_ok_def)
      (simp add: wm_init_def)
next
  case (step s s')
  from step.hyps(2) show ?case
  proof cases
    case (push_op op ops)
    with step.IH show ?thesis by (auto intro: views_ok_do_wop reader_ok_mono [OF _ wm_le_do_wop])
  next
    case (recv_op r rd)
    with step.IH reader_ok_step [OF _ _ recv_op(2)] show ?thesis by (auto simp: set_consumer_def)
  next
    case (recv_next r x c cur acq)
    then have "reader_ok (rs_mem s) \<lparr>rd_prog = Ret (x, c), rd_cur = cur, rd_acq = acq\<rparr>"
      using step.IH by metis
    with recv_next step.IH show ?thesis by (auto simp: set_consumer_def thread_at_def reader_ok_def)
  qed (use step.IH in auto)
qed

lemma table_view: "untouched ls m \<Longrightarrow> view_ok m V \<Longrightarrow> table ls V = V"
proof
  fix l
  assume "untouched ls m" and "view_ok m V"
  then have "l \<notin> set ls \<Longrightarrow> count m l = 1" "V l < count m l" by (simp_all add: untouched_def view_ok_def)
  then show "table ls V l = V l" by (cases "l \<in> set ls") (simp_all add: table_apply)
qed

definition at_call :: "ring_loc list \<Rightarrow> ring \<Rightarrow> ring_sys \<Rightarrow> bool" where
  "at_call ls R s \<longleftrightarrow> untouched ls (rs_mem s) \<and> (\<exists>c cur acq. rs_threads s 0 = thread_at R c cur acq)"

lemma play_act_sound:
  assumes "play_act ls R a (s, log) = Some (s', log')" and "ring_calls R cs 0 s log" and "at_call ls R s"
  shows "ring_calls R cs 0 s' log' \<and> at_call ls R s'"
proof (cases a)
  case (Begin_Push rec)
  then have "rs_pending s = []" "length rec = rg_width R" and s': "s' = s\<lparr>rs_pending := ring_push R
      (wm_latest (rs_mem s) WritePos) rec, rs_hist := rs_hist s @ [rec]\<rparr>" "log' = log"
    using assms(1) by (auto split: if_splits)
  from ring_calls.other_step [OF assms(2) ring_step.push_begin [OF this(1,2)]] assms(3)
  show ?thesis by (simp add: s' at_call_def)
next
  case (Run_Ops k)
  then have "list_all (stays_in ls) (take k (rs_pending s))" and s': "s' = s\<lparr>rs_mem := fold (table_wop ls)
      (take k (rs_pending s)) (rs_mem s), rs_pending := drop k (rs_pending s)\<rparr>" "log' = log"
    using assms(1) by (auto split: if_splits)
  with table_fold [of ls "rs_mem s"] assms(3) have "s' = s\<lparr>rs_mem := fold do_wop
      (take k (rs_pending s)) (rs_mem s), rs_pending := drop k (rs_pending s)\<rparr>" "at_call ls R s'"
    by (simp_all add: at_call_def)
  with calls_ops [OF assms(2), of k] s'(2) show ?thesis by simp
next
  case (Make_Call idx)
  obtain c cur acq where th: "rs_threads s 0 = thread_at R c cur acq"
    using assms(3) by (auto simp: at_call_def)
  obtain x c' cur' acq' where run: "run_script (try_recv R c) (rs_mem s) idx cur acq = Some ((x, c'), cur', acq')"
    and s': "s' = set_consumer s 0 (thread_at R c' (table ls cur') (table ls acq'))" "log' = log @ [(c, x, c')]"
    using assms(1) by (auto simp: Make_Call th thread_at_def Let_def split: option.splits)
  let ?s = "set_consumer s 0 ((rs_threads s 0)\<lparr>rt_reader := \<lparr>rd_prog = Ret (x, c'), rd_cur = cur', rd_acq = acq'\<rparr>\<rparr>)"
  have called: "ring_calls R cs 0 ?s log"
    using calls_reads [OF assms(2)] run_script_sound [OF run] by (simp add: th thread_at_def)
  have "rs_mem ?s = rs_mem s" by (simp add: set_consumer_def)
  then have "reader_ok (rs_mem s) (rt_reader (rs_threads ?s 0))"
    using reach_views [OF calls_reach [OF called]] by metis
  then have "table ls cur' = cur'" "table ls acq' = acq'"
    using assms(3) table_view [of ls "rs_mem s"] by (simp_all add: at_call_def set_consumer_def reader_ok_def)
  with ring_calls.call_returns [OF called, of x c' cur' acq'] assms(3) show ?thesis
    by (auto simp: s' set_consumer_def th thread_at_def at_call_def)
qed

lemma play_run_sound:
  "play_run ls R as (s, log) = Some (s', log') \<Longrightarrow> ring_calls R cs 0 s log \<Longrightarrow> at_call ls R s \<Longrightarrow>
   ring_calls R cs 0 s' log'"
proof (induction as arbitrary: s log)
  case (Cons a as)
  then obtain s1 log1 where s1: "play_act ls R a (s, log) = Some (s1, log1)"
    "play_run ls R as (s1, log1) = Some (s', log')"
    by (auto split: option.splits)
  from play_act_sound [OF s1(1) Cons.prems(2,3)] Cons.IH [OF s1(2)] show ?case by blast
qed simp

lemma play_from_init:
  assumes "play_run ls R as (ring_init R cs, []) = Some (s, log)"
  shows "ring_calls R cs 0 s log"
proof (rule play_run_sound [OF assms ring_calls.begin_calls])
  show "at_call ls R (ring_init R cs)"
    by (auto simp: at_call_def ring_init_def untouched_def wm_init_def)
qed

text \<open>
  A run whose \<open>resync\<close> goes back, in a stream of ten records through two slots. The consumer starts
  after eight, is told that six are lost, and receives position \<open>6\<close>; at position \<open>7\<close> it finds the mark
  of \<open>9\<close> while the newest write position it sees is \<open>8\<close>, goes back to \<open>6\<close> with nothing reported, and is
  then told that two more are lost before it receives \<open>8\<close> and \<open>9\<close>.
\<close>

definition back_run :: "act list" where
  "back_run =
     concat (map (\<lambda>v. [Begin_Push [v], Run_Ops 5]) [0, 1, 2, 3, 4, 5, 6, 7])
     @ [Make_Call [8, 8, 8], Begin_Push [8], Run_Ops 5, Begin_Push [9], Run_Ops 1,
        Make_Call [8, 8, 4, 8], Make_Call [8, 9, 8], Run_Ops 4, Make_Call [10, 10, 10],
        Make_Call [10, 10, 5, 10], Make_Call [10, 10, 5, 10], Make_Call [10]]"

definition back_log :: "call list" where
  "back_log = [(0, Overrun 6, 6), (6, Item [6], 7), (7, Overrun 0, 6), (6, Overrun 2, 8), (8, Item [8], 9),
     (9, Item [9], 10), (10, Empty, 10)]"

definition ring2_locs :: "ring_loc list" where
  "ring2_locs = [WritePos, SlotStamp 0, SlotStamp 1, Word 0 0, Word 1 0]"

lemma ring2_sel: "rg_width ring2 = 1" "rg_cap ring2 = 2"
  by (simp_all add: ring2_def)

lemma slots_ring2:
  "slot_of ring2 0 = 0" "slot_of ring2 1 = 1" "slot_of ring2 2 = 0" "slot_of ring2 3 = 1" "slot_of ring2 4 = 0"
  "slot_of ring2 5 = 1" "slot_of ring2 6 = 0" "slot_of ring2 7 = 1" "slot_of ring2 8 = 0" "slot_of ring2 9 = 1"
  by (simp_all add: slot_of_def ring2_def)

lemma ring2_recv:
  "try_recv ring2 c = Load_Acquire WritePos (\<lambda>w. if w \<le> c then Ret (Empty, c)
     else Load_Acquire (SlotStamp (slot_of ring2 c)) (\<lambda>s1. if s1 \<noteq> c then resync ring2 c
       else Load_Relaxed (Word (slot_of ring2 c) 0) (\<lambda>v. Fence_Acquire
         (Load_Relaxed (SlotStamp (slot_of ring2 c)) (\<lambda>s2.
            if s2 \<noteq> c then resync ring2 c else Ret (Item [v], c + 1))))))"
  by (simp add: try_recv_def recv_slot_def recv_check_def ring2_sel word_locs_def fun_eq_iff)

lemmas play_eval = back_run_def ring_init_def wm_init_def ring2_locs_def ring2_push ring2_sel ring2_recv
  slots_ring2 resync_def u64_saturating_sub_def writing_words thread_at_def set_consumer_def
  wm_latest_def table_def wm_append_def wm_cur_def single_def sup_nat_def EMPTY_def




lemma back_run_log:
  "map_option (\<lambda>(s, log). (rs_hist s, rs_pending s, log))
     (play_run ring2_locs ring2 back_run (ring_init ring2 (\<lambda>_. 0), [])) = 
    Some (map (\<lambda>v. [v]) [0, 1, 2, 3, 4, 5, 6, 7, 8, 9], [], back_log)"
  by (simp add: play_eval back_log_def Let_def)

lemma back_run_calls:
  "\<exists>s. ring_calls ring2 (\<lambda>_. 0) 0 s back_log \<and> rs_hist s = map (\<lambda>v. [v]) [0, 1, 2, 3, 4, 5, 6, 7, 8, 9] \<and> rs_pending s = []"
proof -
  obtain s where "play_run ring2_locs ring2 back_run (ring_init ring2 (\<lambda>_. 0), []) = Some (s, back_log)"
    "rs_hist s = map (\<lambda>v. [v]) [0, 1, 2, 3, 4, 5, 6, 7, 8, 9]" "rs_pending s = []"
    using back_run_log by auto
  with play_from_init show ?thesis by blast
qed

text \<open>
  Property C5: what a consumer is told. In every interleaving of the view machine, of one producer and
  any number of consumers, each started anywhere, the calls of a consumer follow on from each other;
  each item is the record at its cursor; the delivered positions strictly increase, so nothing is
  delivered twice or out of order although \<open>resync\<close> may move the cursor backwards; and an overrun is
  reported only when the push that overwrites the record has begun. A stream of no more records
  than the ring has slots is therefore never reported lost.
\<close>
theorem ring_calls_sound:
  assumes "with_capacity W cap = Inr R" and "ring_calls R cs r s log" and "length (rs_hist s) \<le> 2 ^ 63"
  shows "calls_from (cs r) log (rt_cursor (rs_threads s r)) \<and> list_all (call_ok R (rs_hist s)) log
    \<and> sorted_wrt (<) (delivered_positions log)"
  using ring_calls_inv [OF assms(2) with_capacity_wf [OF assms(1)] assms(3)]
  by (simp add: calls_inv_def)

theorem ring_calls_sound_witness:
  "\<exists>s. ring_calls ring2 (\<lambda>_. 0) 0 s back_log \<and> list_all (call_ok ring2 (rs_hist s)) back_log
    \<and> delivered_positions back_log = [6, 8, 9]"
proof -
  obtain s where s: "ring_calls ring2 (\<lambda>_. 0) 0 s back_log" "rs_hist s = map (\<lambda>v. [v]) [0, 1, 2, 3, 4, 5, 6, 7, 8, 9]"
    using back_run_calls by blast
  then have "length (rs_hist s) \<le> 2 ^ 63" by simp
  with ring_calls_sound [OF ring2_wf(2) s(1)] have "list_all (call_ok ring2 (rs_hist s)) back_log" by blast
  with s(1) show ?thesis by (intro exI [of _ s]) (simp add: back_log_def)
qed

end
