(* ===== verification/Ring_Stress.thy ===== *)
theory Ring_Stress
  imports Ring_Calls
begin

section \<open>The stress and loom tests of the ring (sync/tests)\<close>

text \<open>
  The consumers of \<open>stress_ring.rs\<close> and \<open>loom_ring.rs\<close> as functions of the calls they make, with
  every counter and assertion. After an \<open>Empty\<close> a stress consumer reads the \<open>done\<close> flag and its
  deadline; these two readings are a parameter of each call (\<open>look\<close>). A loop that has not ended is
  \<open>None\<close>. \<open>W\<close> is the record width, the constant of each test file.
\<close>

definition witness_rec :: "nat \<Rightarrow> u64 \<Rightarrow> u64 list" where
  "witness_rec W pos = map (\<lambda>k. pos * of_nat W + of_nat k) [0..<W]"

definition decode_pos :: "nat \<Rightarrow> u64 list \<Rightarrow> u64" where
  "decode_pos W rec = rec ! 0 div of_nat W"

definition is_consistent :: "nat \<Rightarrow> u64 list \<Rightarrow> bool" where
  "is_consistent W rec \<longleftrightarrow>
     list_all (\<lambda>(k, v). v = decode_pos W rec * of_nat W + of_nat k) (enumerate 0 rec)"

record look =
  lk_done :: bool
  lk_late :: bool

definition note_bad :: "'a \<Rightarrow> 'a option \<Rightarrow> 'a option" where
  "note_bad x first = (if first = None then Some x else first)"

subsection \<open>No loss\<close>

record no_loss =
  nl_delivered :: u64
  nl_overruns :: u64
  nl_violations :: u64
  nl_first_bad :: "(u64 \<times> u64 list) option"

definition no_loss_default :: no_loss where
  "no_loss_default = \<lparr>nl_delivered = 0, nl_overruns = 0, nl_violations = 0, nl_first_bad = None\<rparr>"

fun no_loss_step :: "nat \<Rightarrow> recv \<Rightarrow> no_loss \<times> u64 \<Rightarrow> no_loss \<times> u64" where
  "no_loss_step W (Item rec) (s, expected) =
     (let s' = if \<not> is_consistent W rec \<or> decode_pos W rec \<noteq> expected
               then s\<lparr>nl_violations := nl_violations s + 1,
                      nl_first_bad := note_bad (expected, rec) (nl_first_bad s)\<rparr>
               else s
      in (s'\<lparr>nl_delivered := nl_delivered s' + 1\<rparr>, expected + 1))"
| "no_loss_step W (Overrun k) (s, expected) = (s\<lparr>nl_overruns := nl_overruns s + 1\<rparr>, expected)"
| "no_loss_step W Empty (s, expected) = (s, expected)"

subsection \<open>Overrun detection\<close>

record overrun_stats =
  ov_delivered :: u64
  ov_overruns :: u64
  ov_skipped_total :: u64
  ov_violations :: u64
  ov_order_errors :: u64
  ov_first_bad :: "(u64 \<times> u64 list) option"

definition overrun_default :: overrun_stats where
  "overrun_default =
     \<lparr>ov_delivered = 0, ov_overruns = 0, ov_skipped_total = 0, ov_violations = 0, ov_order_errors = 0,
      ov_first_bad = None\<rparr>"

fun overrun_step :: "nat \<Rightarrow> recv \<Rightarrow> overrun_stats \<times> u64 \<Rightarrow> overrun_stats \<times> u64" where
  "overrun_step W (Item rec) (s, expected) =
     (let s' = if \<not> is_consistent W rec
               then s\<lparr>ov_violations := ov_violations s + 1,
                      ov_first_bad := note_bad (expected, rec) (ov_first_bad s)\<rparr>
               else if decode_pos W rec \<noteq> expected
               then s\<lparr>ov_order_errors := ov_order_errors s + 1,
                      ov_first_bad := note_bad (expected, rec) (ov_first_bad s)\<rparr>
               else s
      in (s'\<lparr>ov_delivered := ov_delivered s' + 1\<rparr>, expected + 1))"
| "overrun_step W (Overrun k) (s, expected) =
     (s\<lparr>ov_overruns := ov_overruns s + 1, ov_skipped_total := ov_skipped_total s + k\<rparr>, expected + k)"
| "overrun_step W Empty (s, expected) = (s, expected)"

subsection \<open>Contention\<close>

record contention =
  cn_delivered :: u64
  cn_overruns :: u64
  cn_violations :: u64
  cn_duplicates :: u64
  cn_last_pos :: "u64 option"
  cn_first_bad :: "u64 list option"

definition contention_default :: contention where
  "contention_default =
     \<lparr>cn_delivered = 0, cn_overruns = 0, cn_violations = 0, cn_duplicates = 0, cn_last_pos = None,
      cn_first_bad = None\<rparr>"

fun contention_step :: "nat \<Rightarrow> recv \<Rightarrow> contention \<Rightarrow> contention" where
  "contention_step W (Item rec) s =
     (let s' = if is_consistent W rec
               then (let pos = decode_pos W rec;
                         s1 = (case cn_last_pos s of
                                 None \<Rightarrow> s
                               | Some prev \<Rightarrow> if pos \<le> prev then s\<lparr>cn_duplicates := cn_duplicates s + 1\<rparr> else s)
                     in s1\<lparr>cn_last_pos := Some pos\<rparr>)
               else s\<lparr>cn_violations := cn_violations s + 1,
                      cn_first_bad := note_bad rec (cn_first_bad s)\<rparr>
      in s'\<lparr>cn_delivered := cn_delivered s' + 1\<rparr>)"
| "contention_step W (Overrun k) s = s\<lparr>cn_overruns := cn_overruns s + 1\<rparr>"
| "contention_step W Empty s = s"

subsection \<open>The loop of all three\<close>

text \<open>
  \<open>drain step n\<close> takes the calls with the readings after them: it ends at an \<open>Empty\<close> when \<open>done\<close> is set
  and the cursor has reached \<open>n\<close>, and panics at one after the deadline.
\<close>

fun drain :: "(recv \<Rightarrow> 's \<Rightarrow> 's) \<Rightarrow> u64 \<Rightarrow> (call \<times> look) list \<Rightarrow> 's \<Rightarrow> 's res option" where
  "drain f n [] s = None"
| "drain f n (((c, x, c'), lk) # calls) s =
     (if x = Empty
      then if lk_done lk \<and> n \<le> c' then Some (Inr s)
           else if lk_late lk then Some (Inl AssertionFailed)
           else drain f n calls (f x s)
      else drain f n calls (f x s))"

definition drain_no_loss :: "nat \<Rightarrow> u64 \<Rightarrow> (call \<times> look) list \<Rightarrow> no_loss res option" where
  "drain_no_loss W n calls = map_option (res_map fst) (drain (no_loss_step W) n calls (no_loss_default, 0))"

definition drain_with_overruns :: "nat \<Rightarrow> u64 \<Rightarrow> (call \<times> look) list \<Rightarrow> overrun_stats res option" where
  "drain_with_overruns W n calls =
     map_option (res_map fst) (drain (overrun_step W) n calls (overrun_default, 0))"

definition drain_contended :: "nat \<Rightarrow> u64 \<Rightarrow> (call \<times> look) list \<Rightarrow> contention res option" where
  "drain_contended W n calls = drain (contention_step W) n calls contention_default"

text \<open>What the tests assert of one consumer that has ended, for a producer of \<open>n\<close> records.\<close>

definition no_loss_passes :: "u64 \<Rightarrow> no_loss \<Rightarrow> bool" where
  "no_loss_passes n s \<longleftrightarrow> nl_overruns s = 0 \<and> nl_violations s = 0 \<and> nl_delivered s = n"

definition overrun_passes :: "u64 \<Rightarrow> overrun_stats \<Rightarrow> bool" where
  "overrun_passes n s \<longleftrightarrow>
     ov_violations s = 0 \<and> ov_order_errors s = 0 \<and> 0 < ov_overruns s
     \<and> ov_delivered s + ov_skipped_total s = n"

definition contention_passes :: "contention \<Rightarrow> bool" where
  "contention_passes s \<longleftrightarrow> cn_violations s = 0 \<and> cn_duplicates s = 0"

subsection \<open>The loom consumer\<close>

definition check_and_pos :: "nat \<Rightarrow> u64 list \<Rightarrow> u64 res" where
  "check_and_pos W rec =
     (let pos = rec ! 0 div of_nat W
      in if list_all (\<lambda>(k, v). v = pos * of_nat W + of_nat k) (enumerate 0 rec)
         then Inr pos else Inl AssertionFailed)"

fun loom_drain :: "nat \<Rightarrow> u64 \<Rightarrow> call list \<Rightarrow> u64 option \<Rightarrow> unit res" where
  "loom_drain W pushes [] lastp = Inr ()"
| "loom_drain W pushes ((_, Item rec, _) # calls) lastp =
     res_bind (check_and_pos W rec) (\<lambda>pos.
       if (case lastp of None \<Rightarrow> True | Some prev \<Rightarrow> prev < pos)
       then loom_drain W pushes calls (Some pos) else Inl AssertionFailed)"
| "loom_drain W pushes ((_, Overrun skipped, _) # calls) lastp =
     (if skipped < pushes then loom_drain W pushes calls lastp else Inl AssertionFailed)"
| "loom_drain W pushes ((_, Empty, _) # calls) lastp = loom_drain W pushes calls lastp"

definition MAX_ATTEMPTS :: nat where "MAX_ATTEMPTS = 3"
definition PUSHES :: u64 where "PUSHES = 3"

definition loom_consumer :: "nat \<Rightarrow> call list \<Rightarrow> unit res" where
  "loom_consumer W calls = loom_drain W PUSHES (take MAX_ATTEMPTS calls) None"

subsection \<open>Witness records\<close>

text \<open>The producer of every test pushes the witness of each position.\<close>

definition witnesses :: "nat \<Rightarrow> u64 list list \<Rightarrow> bool" where
  "witnesses W hist \<longleftrightarrow> hist = map (\<lambda>p. witness_rec W (of_nat p)) [0..<length hist]
     \<and> 0 < W \<and> length hist * W \<le> 2 ^ 63"

lemma witness_decodes:
  assumes "witnesses W hist" and "p < length hist"
  shows "decode_pos W (hist ! p) = of_nat p" and "is_consistent W (hist ! p)"
proof -
  have W: "0 < W" and small: "length hist * W \<le> 2 ^ 63" using assms(1) by (simp_all add: witnesses_def)
  have "hist = map (\<lambda>p. witness_rec W (of_nat p)) [0..<length hist]" using assms(1) by (simp add: witnesses_def)
  then have "hist ! p = map (\<lambda>p. witness_rec W (of_nat p)) [0..<length hist] ! p" by simp
  then have h: "hist ! p = witness_rec W (of_nat p)" using assms(2) by simp
  have "p * W \<le> length hist * W" using assms(2) by (intro mult_le_mono1) simp
  then have pW: "p * W \<le> 2 ^ 63" using small by linarith
  moreover have "1 * W \<le> length hist * W" using assms(2) by (intro mult_le_mono1) simp
  then have "W \<le> 2 ^ 63" using small by linarith
  moreover have "p \<le> 2 ^ 63"
  proof -
    have "p * 1 \<le> p * W" using W by (intro mult_le_mono2) simp
    then show ?thesis using pW by linarith
  qed
  ultimately have "(of_nat p * of_nat W :: u64) div of_nat W = of_nat p"
    using W by (simp add: word_unat_eq_iff unat_div unat_mult_lem [THEN iffD1] unat_of_nat)
  then show d: "decode_pos W (hist ! p) = of_nat p"
    using W by (simp add: h decode_pos_def witness_rec_def)
  show "is_consistent W (hist ! p)"
    unfolding is_consistent_def d unfolding h witness_rec_def
    by (auto simp: list_all_iff in_set_enumerate_eq)
qed

subsection \<open>What the folds compute\<close>

definition recv_of :: "call \<times> look \<Rightarrow> recv" where "recv_of x = fst (snd (fst x))"

lemma drain_ends:
  assumes "drain f n calls s = Some out"
  shows "(\<exists>pre c c' lk post. calls = pre @ ((c, Empty, c'), lk) # post \<and> n \<le> c'
      \<and> out = Inr (fold (\<lambda>x. f (recv_of x)) pre s))
    \<or> (\<exists>x \<in> set calls. recv_of x = Empty \<and> lk_late (snd x)) \<and> out = Inl AssertionFailed"
  using assms
proof (induction f n calls s rule: drain.induct)
  case (2 f n c x c' lk calls s)
  let ?x = "((c, x, c'), lk)"
  have more: ?case if "drain f n calls (f x s) = Some out" "drain f n calls (f x s) = Some out \<Longrightarrow>
      (\<exists>pre c c' lk post. calls = pre @ ((c, Empty, c'), lk) # post \<and> n \<le> c'
        \<and> out = Inr (fold (\<lambda>x. f (recv_of x)) pre (f x s)))
      \<or> (\<exists>x \<in> set calls. recv_of x = Empty \<and> lk_late (snd x)) \<and> out = Inl AssertionFailed"
    using that(2) [OF that(1)]
  proof
    assume "\<exists>pre c c' lk post. calls = pre @ ((c, Empty, c'), lk) # post \<and> n \<le> c'
        \<and> out = Inr (fold (\<lambda>x. f (recv_of x)) pre (f x s))"
    then obtain pre c1 c2 lk1 post where "calls = pre @ ((c1, Empty, c2), lk1) # post" "n \<le> c2"
      "out = Inr (fold (\<lambda>x. f (recv_of x)) pre (f x s))" by blast
    then have "?x # calls = (?x # pre) @ ((c1, Empty, c2), lk1) # post \<and> n \<le> c2
        \<and> out = Inr (fold (\<lambda>x. f (recv_of x)) (?x # pre) s)"
      by (simp add: recv_of_def)
    then show ?thesis by blast
  qed auto
  show ?case
  proof (cases "x = Empty")
    case False
    with 2 more show ?thesis by simp
  next
    case True
    consider "lk_done lk \<and> n \<le> c'" | "\<not> (lk_done lk \<and> n \<le> c')" "lk_late lk"
      | "\<not> (lk_done lk \<and> n \<le> c')" "\<not> lk_late lk" by blast
    then show ?thesis
    proof cases
      case 1
      with 2(3) True have "?x # calls = [] @ ((c, Empty, c'), lk) # calls \<and> n \<le> c'
          \<and> out = Inr (fold (\<lambda>x. f (recv_of x)) [] s)" by simp
      then show ?thesis by blast
    next
      case 2
      with "2.prems" True show ?thesis by (simp add: recv_of_def)
    next
      case 3
      with 2 True more show ?thesis by simp
    qed
  qed
qed simp

definition calls_spec :: "ring \<Rightarrow> u64 list list \<Rightarrow> u64 \<Rightarrow> call list \<Rightarrow> u64 \<Rightarrow> bool" where
  "calls_spec R hist c0 log c1 \<longleftrightarrow>
     calls_from c0 log c1 \<and> list_all (call_ok R hist) log \<and> sorted_wrt (<) (delivered_positions log)"

lemma calls_spec_append:
  "calls_spec R hist c0 (xs @ [(c, x, c')]) c1 \<Longrightarrow> calls_spec R hist c0 xs c \<and> c1 = c'"
  by (auto simp: calls_spec_def calls_from_append delivered_append sorted_wrt_append)

lemma calls_spec_prefix:
  "calls_spec R hist c0 (xs @ ys) c1 \<Longrightarrow> \<exists>c. calls_spec R hist c0 xs c"
  by (auto simp: calls_spec_def calls_from_append delivered_append sorted_wrt_append)

text \<open>One more call, with what the contract says of it.\<close>

lemma calls_snoc:
  assumes "calls_spec R hist c0 (log @ [(c, x, c')]) c1" and "length hist \<le> 2 ^ 63"
  shows "call_ok R hist (c, x, c')" and "x = Item rec \<Longrightarrow> c' = c + 1 \<and> rec = hist ! unat c"
proof -
  show ok: "call_ok R hist (c, x, c')" using assms(1) by (simp add: calls_spec_def)
  assume "x = Item rec"
  with ok have "unat c' = unat c + 1" "rec = hist ! unat c" "unat c < length hist" by simp_all
  moreover from this assms(2) have "unat (c + 1) = unat c + 1" by (simp add: unat_word_ariths)
  ultimately show "c' = c + 1 \<and> rec = hist ! unat c" by (simp add: word_unat_eq_iff)
qed

abbreviation folded :: "(recv \<Rightarrow> 's \<Rightarrow> 's) \<Rightarrow> call list \<Rightarrow> 's \<Rightarrow> 's" where
  "folded f log \<equiv> fold (\<lambda>x. f (fst (snd x))) log"

lemma no_loss_fold:
  assumes "witnesses W hist" and "length hist \<le> 2 ^ 63" and "length hist \<le> rg_cap R"
  shows "calls_spec R hist 0 log c1 \<Longrightarrow>
    folded (no_loss_step W) log (no_loss_default, 0) = (no_loss_default\<lparr>nl_delivered := c1\<rparr>, c1)"
proof (induction log arbitrary: c1 rule: rev_induct)
  case Nil
  then show ?case by (simp add: calls_spec_def no_loss_default_def)
next
  case (snoc y log)
  obtain c x c' where y: "y = (c, x, c')" by (cases y) blast
  note prev = calls_spec_append [OF snoc.prems [unfolded y]]
  note IH = snoc.IH [OF prev [THEN conjunct1]]
  note ok = calls_snoc [OF snoc.prems [unfolded y] assms(2)]
  show ?case
  proof (cases x)
    case (Item rec)
    with ok(1) have c: "unat c < length hist" by simp
    note w = witness_decodes [OF assms(1) c]
    from ok(2) [OF Item] Item IH prev w show ?thesis by (simp add: y no_loss_default_def)
  qed (use ok(1) IH prev assms(3) in \<open>simp_all add: y\<close>)
qed

definition never_back :: "call list \<Rightarrow> bool" where
  "never_back log \<longleftrightarrow> list_all (\<lambda>(c, x, c'). c \<le> c') log"

lemma overrun_fold:
  assumes "witnesses W hist" and "length hist \<le> 2 ^ 63"
  shows "calls_spec R hist 0 log c1 \<Longrightarrow>
    (case folded (overrun_step W) log (overrun_default, 0) of (s, expected) \<Rightarrow>
       ov_violations s = 0 \<and> ov_delivered s + ov_skipped_total s = expected
       \<and> (never_back log \<longrightarrow> expected = c1 \<and> ov_order_errors s = 0))"
proof (induction log arbitrary: c1 rule: rev_induct)
  case Nil
  then show ?case by (simp add: calls_spec_def overrun_default_def)
next
  case (snoc y log)
  obtain c x c' where y: "y = (c, x, c')" by (cases y) blast
  note prev = calls_spec_append [OF snoc.prems [unfolded y]]
  note IH = snoc.IH [OF prev [THEN conjunct1]]
  note ok = calls_snoc [OF snoc.prems [unfolded y] assms(2)]
  obtain s e where f: "folded (overrun_step W) log (overrun_default, 0) = (s, e)" by fastforce
  with IH have st: "ov_violations s = 0" "ov_delivered s + ov_skipped_total s = e"
    "never_back log \<Longrightarrow> e = c \<and> ov_order_errors s = 0" by auto
  show ?case
  proof (cases x)
    case (Item rec)
    with ok(1) have c: "unat c < length hist" by simp
    note w = witness_decodes [OF assms(1) c]
    from ok(2) [OF Item] Item f st prev w show ?thesis
      by (auto simp: y never_back_def Let_def algebra_simps)
  next
    case (Overrun k)
    then have k: "k = u64_saturating_sub c' c" using ok(1) by simp
    have "e + k = c'" if "never_back (log @ [y])"
      using that st(3) k by (auto simp: y never_back_def u64_saturating_sub_def)
    with Overrun f st prev show ?thesis
      by (auto simp: y never_back_def algebra_simps)
  qed (use ok(1) f st prev in \<open>auto simp: y never_back_def\<close>)
qed

lemma contention_fold:
  assumes "witnesses W hist" and "length hist \<le> 2 ^ 63"
  shows "calls_spec R hist c0 log c1 \<Longrightarrow>
    (case folded (contention_step W) log contention_default of s \<Rightarrow>
       contention_passes s
       \<and> cn_last_pos s = (if delivered_positions log = [] then None
           else Some (of_nat (last (delivered_positions log)))))"
proof (induction log arbitrary: c1 rule: rev_induct)
  case Nil
  then show ?case by (simp add: contention_default_def contention_passes_def)
next
  case (snoc y log)
  obtain c x c' where y: "y = (c, x, c')" by (cases y) blast
  note IH = snoc.IH [OF calls_spec_append [OF snoc.prems [unfolded y], THEN conjunct1]]
  note ok = calls_snoc [OF snoc.prems [unfolded y] assms(2)]
  show ?case
  proof (cases x)
    case (Item rec)
    with ok(1) have c: "unat c < length hist" by simp
    note w = witness_decodes [OF assms(1) c]
    let ?s = "folded (contention_step W) log contention_default"
    have less: "of_nat (last (delivered_positions log)) < c" if "delivered_positions log \<noteq> []"
    proof -
      have "last (delivered_positions log) < unat c"
        using snoc.prems that by (simp add: calls_spec_def y Item delivered_append sorted_wrt_append)
      then show ?thesis by (simp add: word_less_nat_alt unat_of_nat)
    qed
    have "contention_passes (contention_step W (Item rec) ?s)"
      using IH w ok(2) [OF Item] less
      by (cases "delivered_positions log = []") (simp_all add: contention_passes_def Let_def linorder_not_le)
    moreover have "cn_last_pos (contention_step W (Item rec) ?s) = Some c"
      using w ok(2) [OF Item] by (simp add: Let_def)
    ultimately show ?thesis by (simp add: y Item delivered_append)
  qed (use IH in \<open>simp_all add: y delivered_append contention_passes_def\<close>)
qed

lemma loom_drain_ok:
  assumes "witnesses W hist" and "length hist \<le> unat pushes" and "0 < rg_cap R"
  shows "list_all (call_ok R hist) log \<Longrightarrow> sorted_wrt (<) (delivered_positions log) \<Longrightarrow>
    (case prev of None \<Rightarrow> True | Some l \<Rightarrow> list_all (\<lambda>p. unat l < p) (delivered_positions log)) \<Longrightarrow>
    loom_drain W pushes log prev = Inr ()"
proof (induction log arbitrary: prev)
  case (Cons y log)
  obtain c x c' where y: "y = (c, x, c')" by (cases y) blast
  show ?case
  proof (cases x)
    case (Item rec)
    with Cons.prems(1) have c: "unat c < length hist" "rec = hist ! unat c" by (simp_all add: y)
    note w = witness_decodes [OF assms(1) c(1)]
    have "check_and_pos W rec = Inr c"
      using w by (simp add: check_and_pos_def Let_def decode_pos_def is_consistent_def c(2))
    moreover have "case prev of None \<Rightarrow> True | Some l \<Rightarrow> l < c"
      using Cons.prems(3) by (auto simp: y Item word_less_nat_alt split: option.splits)
    moreover have "loom_drain W pushes log (Some c) = Inr ()"
      using Cons.prems by (intro Cons.IH) (simp_all add: y Item list_all_iff)
    ultimately show ?thesis by (simp add: y Item)
  next
    case Empty
    have "loom_drain W pushes log prev = Inr ()"
      using Cons.prems by (intro Cons.IH) (simp_all add: y Empty split: option.splits)
    then show ?thesis by (simp add: y Empty)
  next
    case (Overrun k)
    have "unat k \<le> unat c'"
      using Cons.prems(1) by (simp add: y Overrun u64_saturating_sub_def unat_sub_if' word_le_nat_alt)
    moreover have "unat c + rg_cap R < length hist" "unat c' \<le> length hist - rg_cap R"
      using Cons.prems(1) by (simp_all add: y Overrun)
    ultimately have "unat k < unat pushes" using assms(2,3) by linarith
    then have "k < pushes" by (simp add: word_less_nat_alt)
    moreover have "loom_drain W pushes log prev = Inr ()"
      using Cons.prems by (intro Cons.IH) (simp_all add: y Overrun split: option.splits)
    ultimately show ?thesis by (simp add: y Overrun)
  qed
qed simp

lemma ring_calls_spec:
  assumes "with_capacity W cap = Inr R" and "ring_calls R cs r s log" and "length (rs_hist s) \<le> 2 ^ 63"
  shows "calls_spec R (rs_hist s) (cs r) log (rt_cursor (rs_threads s r))"
  using ring_calls_inv [OF assms(2) with_capacity_wf [OF assms(1)] assms(3)]
  by (simp add: calls_inv_def calls_spec_def)

lemma fold_recv: "fold (\<lambda>x. f (recv_of x)) pre s = folded f (map fst pre) s"
  by (simp add: fold_map comp_def recv_of_def)

lemma drained:
  assumes "calls_spec R hist c0 (map fst calls) c1" and "drain f n calls s = Some (Inr st)"
    and "length hist \<le> 2 ^ 63"
  obtains pre c where "calls_spec R hist c0 pre c" and "n \<le> c" and "st = folded f pre s"
    and "never_back (map fst calls) \<Longrightarrow> never_back pre"
proof -
  from drain_ends [OF assms(2)] obtain pre c c' lk post where
    D: "calls = pre @ ((c, Empty, c'), lk) # post" "n \<le> c'" "st = fold (\<lambda>x. f (recv_of x)) pre s"
    by auto
  have "calls_spec R hist c0 ((map fst pre @ [(c, Empty, c')]) @ map fst post) c1" using assms(1) by (simp add: D)
  then obtain c2 where spec: "calls_spec R hist c0 (map fst pre @ [(c, Empty, c')]) c2" using calls_spec_prefix by blast
  then have "c' = c" using calls_snoc(1) [OF spec assms(3)] by simp
  with that [of "map fst pre" c] calls_spec_append [OF spec] D show thesis
    by (auto simp: fold_recv never_back_def)
qed

text \<open>The cursor of a consumer started at 0 stays within the stream.\<close>

lemma cursor_within:
  assumes "length hist \<le> 2 ^ 63"
  shows "calls_spec R hist 0 log c1 \<Longrightarrow> unat c1 \<le> length hist"
proof (induction log arbitrary: c1 rule: rev_induct)
  case (snoc y log)
  obtain c x c' where y: "y = (c, x, c')" by (cases y) blast
  note prev = calls_spec_append [OF snoc.prems [unfolded y]]
  show ?case
    using snoc.IH [OF prev [THEN conjunct1]] prev calls_snoc(1) [OF snoc.prems [unfolded y] assms]
    by (cases x) auto
qed (simp add: calls_spec_def)

text \<open>
  Property C25: the ring's stress and loom tests, for every interleaving. With a producer that pushes the
  witness records, a loom consumer passes all its assertions in any number of attempts, and so does
  every contention consumer that ends; a no-loss consumer that ends passes when the stream fits the
  ring; an overrun consumer that ends saw no torn record, and also no record out of order and every
  position delivered or reported lost, provided its cursor never went back.
\<close>
theorem ring_stress_tests:
  assumes "with_capacity W cap = Inr R" and "ring_calls R cs r s (map fst calls)" and "witnesses W (rs_hist s)"
    and "length (rs_hist s) = unat n"
  shows "loom_drain W n (map fst calls) None = Inr ()
    \<and> (\<forall>st. drain_contended W n calls = Some (Inr st) \<longrightarrow> contention_passes st)
    \<and> (\<forall>st. cs r = 0 \<and> unat n \<le> cap \<and> drain_no_loss W n calls = Some (Inr st) \<longrightarrow> no_loss_passes n st)
    \<and> (\<forall>st. cs r = 0 \<and> drain_with_overruns W n calls = Some (Inr st) \<longrightarrow>
         ov_violations st = 0
         \<and> (never_back (map fst calls) \<longrightarrow>
              ov_order_errors st = 0 \<and> ov_delivered st + ov_skipped_total st = n))"
proof -
  let ?hist = "rs_hist s"
  have wf: "ring_wf R" by (rule with_capacity_wf [OF assms(1)])
  have cap: "rg_cap R = cap" using assms(1) by (auto simp: with_capacity_def split: if_splits)
  have "length ?hist * 1 \<le> length ?hist * W" using assms(3) by (intro mult_le_mono2) (simp add: witnesses_def)
  moreover have "length ?hist * W \<le> 2 ^ 63" using assms(3) by (simp add: witnesses_def)
  ultimately have small: "length ?hist \<le> 2 ^ 63" by linarith
  note spec = ring_calls_spec [OF assms(1,2) small]
  have at_end: "c = n" if "calls_spec R ?hist 0 pre c" "n \<le> c" for pre c
    using cursor_within [OF small that(1)] that(2) assms(4) by (simp add: word_le_nat_alt word_unat_eq_iff)
  show ?thesis
  proof (intro conjI allI impI; (elim conjE)?)
    show "loom_drain W n (map fst calls) None = Inr ()"
      using spec assms(3,4) cap_pos [OF wf] by (intro loom_drain_ok [where hist = ?hist and R = R]) (simp_all add: calls_spec_def)
  next
    fix st assume "drain_contended W n calls = Some (Inr st)"
    from drained [OF spec this [unfolded drain_contended_def] small] obtain pre c where
      "calls_spec R ?hist (cs r) pre c" "st = folded (contention_step W) pre contention_default" by metis
    with contention_fold [OF assms(3) small this(1)] show "contention_passes st" by simp
  next
    fix st assume c0: "cs r = 0" and fits: "unat n \<le> cap" and d: "drain_no_loss W n calls = Some (Inr st)"
    from d obtain e where "drain (no_loss_step W) n calls (no_loss_default, 0) = Some (Inr (st, e))"
      by (auto simp: drain_no_loss_def elim!: res_map.elims)
    from drained [OF spec this small] obtain pre c where
      pre: "calls_spec R ?hist 0 pre c" "n \<le> c" "(st, e) = folded (no_loss_step W) pre (no_loss_default, 0)"
      unfolding c0 by metis
    with no_loss_fold [OF assms(3) small _ pre(1)] at_end [OF pre(1,2)] fits assms(4)
    show "no_loss_passes n st" by (simp add: cap no_loss_passes_def no_loss_default_def)
  next
    fix st assume c0: "cs r = 0" and d: "drain_with_overruns W n calls = Some (Inr st)"
    from d obtain e where "drain (overrun_step W) n calls (overrun_default, 0) = Some (Inr (st, e))"
      by (auto simp: drain_with_overruns_def elim!: res_map.elims)
    from drained [OF spec this small] obtain pre c where
      pre: "calls_spec R ?hist 0 pre c" "n \<le> c" "(st, e) = folded (overrun_step W) pre (overrun_default, 0)"
      "never_back (map fst calls) \<Longrightarrow> never_back pre"
      unfolding c0 by metis
    have F: "ov_violations st = 0" "ov_delivered st + ov_skipped_total st = e"
      "never_back pre \<Longrightarrow> e = c \<and> ov_order_errors st = 0"
      using overrun_fold [OF assms(3) small pre(1)] unfolding pre(3) [symmetric] by simp_all
    note cn = at_end [OF pre(1,2)]
    show "ov_violations st = 0" by (rule F(1))
    assume "never_back (map fst calls)"
    from F(3) [OF pre(4) [OF this]] F(2) cn
    show "ov_order_errors st = 0" "ov_delivered st + ov_skipped_total st = n" by simp_all
  qed
qed

text \<open>The run of \<open>back_log\<close>, with the flag read as set and before the deadline.\<close>

definition back_calls :: "(call \<times> look) list" where
  "back_calls = map (\<lambda>c. (c, \<lparr>lk_done = True, lk_late = False\<rparr>)) back_log"

lemma back_calls_fst: "map fst back_calls = back_log"
  by (simp add: back_calls_def comp_def)

lemma back_hist: "witnesses 1 (map (\<lambda>v. [v]) [0, 1, 2, 3, 4, 5, 6, 7, 8, 9])"
proof -
  have "[0..<10] = [0, 1, 2, 3, 4, 5, 6, 7, 8, 9 :: nat]" by code_simp
  then show ?thesis by (simp add: witnesses_def witness_rec_def)
qed

lemma back_stats:
  "\<exists>st. drain_with_overruns 1 10 back_calls = Some (Inr st) \<and> \<not> overrun_passes 10 st \<and> ov_violations st = 0
     \<and> ov_order_errors st = 2 \<and> ov_delivered st + ov_skipped_total st = 11"
  by (simp add: drain_with_overruns_def back_calls_def back_log_def overrun_default_def is_consistent_def
      decode_pos_def note_bad_def overrun_passes_def)

theorem ring_stress_tests_witness:
  "\<exists>s. ring_calls ring2 (\<lambda>_. 0) 0 s (map fst back_calls) \<and> loom_drain 1 10 (map fst back_calls) None = Inr ()
    \<and> (\<exists>st. drain_with_overruns 1 10 back_calls = Some (Inr st) \<and> ov_violations st = 0)"
proof -
  obtain s where s: "ring_calls ring2 (\<lambda>_. 0) 0 s (map fst back_calls)"
    "rs_hist s = map (\<lambda>v. [v]) [0, 1, 2, 3, 4, 5, 6, 7, 8, 9]"
    using back_run_calls unfolding back_calls_fst by blast
  have "witnesses 1 (rs_hist s)" "length (rs_hist s) = unat (10 :: u64)"
    using back_hist by (simp_all add: s(2))
  from ring_stress_tests [OF ring2_wf(2) s(1) this] s(1) back_stats show ?thesis by blast
qed

text \<open>
  Property C27: the accounting of the overrun test can fail. There is a run of the view machine, with two
  slots, a consumer that starts at position 0 after eight records were pushed and ten records in all, whose
  consumer ends with eleven positions delivered or reported lost and two records judged out of order,
  since a \<open>resync\<close> moved its cursor back without counting it.
\<close>
theorem overrun_test_can_fail:
  "\<exists>s calls st. ring_calls ring2 (\<lambda>_. 0) 0 s (map fst calls) \<and> witnesses 1 (rs_hist s)
     \<and> length (rs_hist s) = 10 \<and> rs_pending s = []
     \<and> drain_with_overruns 1 10 calls = Some (Inr st) \<and> \<not> overrun_passes 10 st
     \<and> ov_order_errors st = 2 \<and> ov_delivered st + ov_skipped_total st = 11"
proof -
  obtain s where s: "ring_calls ring2 (\<lambda>_. 0) 0 s (map fst back_calls)"
    "rs_hist s = map (\<lambda>v. [v]) [0, 1, 2, 3, 4, 5, 6, 7, 8, 9]" "rs_pending s = []"
    using back_run_calls unfolding back_calls_fst by blast
  moreover have "witnesses 1 (rs_hist s)" "length (rs_hist s) = 10" using back_hist by (simp_all add: s(2))
  ultimately show ?thesis using back_stats by blast
qed

end
