(* ===== verification/Seqlock_Stress.thy ===== *)
theory Seqlock_Stress
  imports Seqlock
begin

section \<open>The loads of one reader, and the stress and loom tests of the seqlock (sync/tests)\<close>

text \<open>
  \<open>seq_loads\<close> collects the loads one reader completes, in any interleaving with the writer and the
  other readers. They return whole snapshots whose generations never go back. The reader loop of
  \<open>stress_seqlock.rs\<close> and the assertion of \<open>loom_seqlock.rs\<close> are functions of these loads.
\<close>

text \<open>Each load: the snapshot and the retries it took.\<close>

type_synonym load_result = "top_of_book \<times> u32"

definition in_load :: "seq_thread \<Rightarrow> bool" where
  "in_load th \<longleftrightarrow> (\<forall>t. rd_prog (st_reader th) \<noteq> Ret (Some t))"

inductive seq_loads :: "top_of_book \<Rightarrow> nat \<Rightarrow> seq_sys \<Rightarrow> load_result list \<Rightarrow> bool" for t0 r where
  begin_loads: "seq_loads t0 r (seq_init t0) []"
| other_step:
    "seq_loads t0 r s log \<Longrightarrow> seq_step s s' \<Longrightarrow>
     in_load (ss_threads s r) \<or> ss_threads s' r = ss_threads s r \<Longrightarrow> seq_loads t0 r s' log"
| load_returns:
    "seq_loads t0 r s log \<Longrightarrow> rd_prog (st_reader (ss_threads s r)) = Ret (Some t) \<Longrightarrow>
     seq_loads t0 r (set_thread s r (restart (ss_threads s r) 0)) (log @ [(t, st_retries (ss_threads s r))])"

text \<open>The generations of the loads: where in the history each snapshot stands.\<close>

definition loads_at :: "top_of_book list \<Rightarrow> load_result list \<Rightarrow> nat list \<Rightarrow> bool" where
  "loads_at hist log gens \<longleftrightarrow>
     map fst log = map (\<lambda>g. hist ! g) gens \<and> sorted gens \<and> list_all (\<lambda>g. g < length hist) gens"

definition last_gen :: "nat list \<Rightarrow> nat" where
  "last_gen gens = (if gens = [] then 0 else last gens)"

lemma seq_loads_reach: "seq_loads t0 r s log \<Longrightarrow> seq_reach t0 s"
  by (induction rule: seq_loads.induct)
    (auto intro: seq_reach.intros seq_step.load_again)

lemma loads_at_mono: "loads_at hist log gens \<Longrightarrow> loads_at (hist @ xs) log gens"
  unfolding loads_at_def by (auto simp: list_all_iff nth_append)

lemma loads_at_snoc:
  assumes "loads_at hist log gens" and "last_gen gens \<le> g" and "g < length hist"
  shows "loads_at hist (log @ [(hist ! g, n)]) (gens @ [g])"
proof -
  have "x \<le> g" if "x \<in> set gens" for x
  proof -
    have "x \<le> last gens"
      using that assms(1) by (cases gens rule: rev_cases) (auto simp: loads_at_def sorted_append)
    with assms(2) that show ?thesis by (auto simp: last_gen_def split: if_splits)
  qed
  with assms(1,3) show ?thesis by (simp add: loads_at_def sorted_append)
qed

lemma phase_restart:
  "reader_ok m rd \<Longrightarrow> 2 * low \<le> rd_cur rd Seq \<Longrightarrow> thread_inv low m hist (rd\<lparr>rd_prog := seqlock_attempt\<rparr>)"
  by (simp add: thread_inv_def reader_ok_def thread_phase.start)

lemma published_set_thread [simp]: "published (set_thread s r th) = published s"
  by (simp add: published_def set_thread_def)

lemma seq_loads_inv:
  assumes "seq_loads t0 r s log" and "length (ss_hist s) \<le> 2 ^ 31"
  shows "\<exists>gens. loads_at (published s) log gens
    \<and> thread_inv (last_gen gens) (ss_mem s) (ss_hist s) (st_reader (ss_threads s r))"
  using assms
proof (induction rule: seq_loads.induct)
  case begin_loads
  have "seq_inv (seq_init t0)" by (rule seq_inv_init)
  then have "thread_inv 0 (ss_mem (seq_init t0)) (ss_hist (seq_init t0)) (st_reader (ss_threads (seq_init t0) r))"
    by (simp add: seq_inv_def)
  then show ?case by (intro exI [of _ "[]"]) (simp add: loads_at_def last_gen_def)
next
  case (other_step s log s')
  have short: "length (ss_hist s) \<le> 2 ^ 31"
    using seq_step_hist [OF other_step.hyps(2)] other_step.prems by linarith
  from other_step.IH [OF short] obtain gens where
    gens: "loads_at (published s) log gens"
    and th: "thread_inv (last_gen gens) (ss_mem s) (ss_hist s) (st_reader (ss_threads s r))" by blast
  have grown: "loads_at (published s') log gens"
    using published_step [OF other_step.hyps(2)] loads_at_mono [OF gens] by auto
  have inv: "seq_inv s" by (rule seq_reach_inv [OF seq_loads_reach [OF other_step.hyps(1)] short])
  then obtain g n where w: "writer_inv s g n" by (auto simp: seq_inv_def)
  have same: ?case if "ss_mem s' = ss_mem s" "ss_hist s' = ss_hist s"
    "thread_inv (last_gen gens) (ss_mem s) (ss_hist s) (st_reader (ss_threads s' r))"
    using that grown by auto
  from other_step.hyps(2) show ?case
  proof cases
    case (store_begin t)
    then show ?thesis
      using grown thread_inv_mono [OF th wm_le_refl, of "[t]"] by auto
  next
    case (store_op op ops)
    then show ?thesis
      using grown thread_inv_mono [OF th wm_le_do_wop, where xs = "[]"] by auto
  next
    case (load_op r' rd)
    have cell: "tob.cell_ok seq_val (hist_words (ss_hist s)) (ss_mem s) g n" and ok: "views_ok (ss_mem s)"
      and bound: "g + (if n = 0 then 1 else 2) \<le> length (ss_hist s)"
      using w by (auto simp: writer_inv_def)
    have "count (ss_mem s) Seq \<le> 2 ^ 32"
      using tob.cell_okD(1) [OF cell] bound short by (auto split: if_splits)
    note step = thread_inv_step [OF cell ok this writer_inv_hist [OF w]]
    have "thread_inv (last_gen gens) (ss_mem s) (ss_hist s) (st_reader (ss_threads s' r))"
      using th step [OF th] load_op(2) by (cases "r' = r") (auto simp: load_op(1) set_thread_def)
    then show ?thesis by (intro same) (simp_all add: load_op(1) set_thread_def)
  next
    case (load_retry r')
    have "thread_inv (last_gen gens) (ss_mem s) (ss_hist s) (st_reader (ss_threads s' r))"
    proof (cases "r' = r")
      case True
      have "thread_phase (last_gen gens) (ss_mem s) (ss_hist s) (st_reader (ss_threads s r))"
        using th by (simp add: thread_inv_def)
      then have "2 * last_gen gens \<le> rd_cur (st_reader (ss_threads s r)) Seq"
        using load_retry(2) True by cases (auto simp: seqlock_attempt_def check_not_Ret check_not_Ret [symmetric])
      with th True show ?thesis
        by (auto simp: load_retry(1) set_thread_def restart_def thread_inv_def [of "last_gen gens" "ss_mem s" "ss_hist s" "st_reader (ss_threads s r)"] intro: phase_restart)
    qed (use th in \<open>simp add: load_retry(1) set_thread_def\<close>)
    then show ?thesis by (intro same) (simp_all add: load_retry(1) set_thread_def)
  next
    case (load_again r' t)
    then have "ss_threads s' r = ss_threads s r"
      using other_step.hyps(3) by (auto simp: in_load_def set_thread_def)
    then show ?thesis using th by (intro same) (simp_all add: load_again(1) set_thread_def)
  qed
next
  case (load_returns s log t)
  have short: "length (ss_hist s) \<le> 2 ^ 31" using load_returns.prems by (simp add: set_thread_def)
  from load_returns.IH [OF short] obtain gens where
    gens: "loads_at (published s) log gens"
    and th: "thread_inv (last_gen gens) (ss_mem s) (ss_hist s) (st_reader (ss_threads s r))" by blast
  obtain g0 n where w: "writer_inv s g0 n" using reach_writer [OF seq_loads_reach [OF load_returns.hyps(1)]] by blast
  have "thread_phase (last_gen gens) (ss_mem s) (ss_hist s) (st_reader (ss_threads s r))"
    using th by (simp add: thread_inv_def)
  then obtain g where g: "last_gen gens \<le> g" "2 * g \<le> rd_cur (st_reader (ss_threads s r)) Seq"
    "2 * g < count (ss_mem s) Seq" "g < length (ss_hist s)" "t = ss_hist s ! g"
    using load_returns.hyps(2) by cases (auto simp: seqlock_attempt_def check_not_Ret check_not_Ret [symmetric])
  note pub = below_published [OF w g(3,4)]
  have "thread_inv g (ss_mem s) (ss_hist s) ((st_reader (ss_threads s r))\<lparr>rd_prog := seqlock_attempt\<rparr>)"
    using th g(2) by (intro phase_restart) (simp_all add: thread_inv_def)
  then show ?case
    using loads_at_snoc [OF gens g(1) conjunct1 [OF pub]] pub g(5)
    by (intro exI [of _ "gens @ [g]"]) (simp, simp add: set_thread_def restart_def last_gen_def)
qed

text \<open>A reader that loads while the writer rests gets the latest snapshot.\<close>

lemma loads_reads:
  assumes "seq_loads t0 r s log" and "(read_step (ss_mem s))\<^sup>*\<^sup>* (st_reader (ss_threads s r)) rd"
  shows "seq_loads t0 r (set_thread s r ((ss_threads s r)\<lparr>st_reader := rd\<rparr>)) log"
  using assms(2)
proof (induction rule: rtranclp_induct)
  case base
  have "set_thread s r ((ss_threads s r)\<lparr>st_reader := st_reader (ss_threads s r)\<rparr>) = s"
    by (simp add: set_thread_def)
  with assms(1) show ?case by simp
next
  case (step y z)
  let ?s = "set_thread s r ((ss_threads s r)\<lparr>st_reader := y\<rparr>)"
  have "seq_step ?s (set_thread ?s r ((ss_threads ?s r)\<lparr>st_reader := z\<rparr>))"
    by (rule seq_step.load_op) (use step.hyps(2) in \<open>simp add: set_thread_def\<close>)
  moreover have "in_load (ss_threads ?s r)"
    using step.hyps(2) by (auto simp: in_load_def set_thread_def elim!: read_stepE)
  ultimately have "seq_loads t0 r (set_thread ?s r ((ss_threads ?s r)\<lparr>st_reader := z\<rparr>)) log"
    by (intro seq_loads.other_step [OF step.IH]) simp_all
  then show ?case by (simp add: set_thread_def)
qed

text \<open>Reader \<open>r\<close> is about to start a load and the writer rests.\<close>

definition at_rest :: "nat \<Rightarrow> seq_sys \<Rightarrow> bool" where
  "at_rest r s \<longleftrightarrow> ss_pending s = [] \<and> rd_prog (st_reader (ss_threads s r)) = seqlock_attempt
     \<and> st_retries (ss_threads s r) = 0"

lemma load_at_rest:
  assumes "seq_loads t0 r s log" and "at_rest r s" and "length (ss_hist s) \<le> 2 ^ 31"
  shows "\<exists>s'. seq_loads t0 r s' (log @ [(last (ss_hist s), 0)]) \<and> at_rest r s' \<and> ss_hist s' = ss_hist s"
proof -
  let ?rd = "st_reader (ss_threads s r)" and ?t = "last (ss_hist s)"
  have reach: "seq_reach t0 s" by (rule seq_loads_reach [OF assms(1)])
  obtain g n where w: "writer_inv s g n" using reach_writer [OF reach] by blast
  have idle: "ss_pending s = []" "rd_prog ?rd = seqlock_attempt" "st_retries (ss_threads s r) = 0"
    using assms(2) by (simp_all add: at_rest_def)
  have ok: "views_ok (ss_mem s)" "reader_ok (ss_mem s) ?rd"
    using w seq_reach_inv [OF reach assms(3)] by (simp_all add: writer_inv_def seq_inv_def thread_inv_def)
  have rd: "?rd = \<lparr>rd_prog = seqlock_attempt, rd_cur = rd_cur ?rd, rd_acq = rd_acq ?rd\<rparr>" using idle(2) by simp
  from reads_latest [OF ok(1), of seqlock_attempt "rd_cur ?rd" "rd_acq ?rd"] ok(2) obtain c q where
    "(read_step (ss_mem s))\<^sup>*\<^sup>* ?rd \<lparr>rd_prog = Ret (Some ?t), rd_cur = c, rd_acq = q\<rparr>"
    by (auto simp: idle_read [OF w idle(1)] simp flip: rd)
  from seq_loads.load_returns [OF loads_reads [OF assms(1) this], of ?t] idle show ?thesis
    by (intro exI) (auto simp: set_thread_def restart_def at_rest_def)
qed

lemma loads_pending:
  "seq_loads t0 r s log \<Longrightarrow> rd_prog (st_reader (ss_threads s r)) = seqlock_attempt \<Longrightarrow>
   seq_loads t0 r (s\<lparr>ss_mem := fold do_wop (ss_pending s) (ss_mem s), ss_pending := []\<rparr>) log"
proof (induction "ss_pending s" arbitrary: s)
  case Nil
  then have "s\<lparr>ss_mem := fold do_wop (ss_pending s) (ss_mem s), ss_pending := []\<rparr> = s" by simp
  with Nil.prems(1) show ?case by (simp only:)
next
  case (Cons op ops)
  let ?s = "s\<lparr>ss_mem := do_wop op (ss_mem s), ss_pending := ops\<rparr>"
  have "seq_step s ?s" using Cons.hyps(2) by (intro seq_step.store_op) simp
  then have "seq_loads t0 r ?s log" by (rule seq_loads.other_step [OF Cons.prems(1)]) simp
  with Cons.hyps(1) [of ?s] Cons.prems(2) show ?case by (simp flip: Cons.hyps(2))
qed

lemma store_at_rest:
  assumes "seq_loads t0 r s log" and "at_rest r s"
  shows "\<exists>s'. seq_loads t0 r s' log \<and> at_rest r s' \<and> ss_hist s' = ss_hist s @ [t]"
proof -
  let ?b = "s\<lparr>ss_pending := seqlock_store (to_u32 (wm_latest (ss_mem s) Seq)) t, ss_hist := ss_hist s @ [t]\<rparr>"
  have "seq_step s ?b" using assms(2) by (intro seq_step.store_begin) (simp add: at_rest_def)
  then have "seq_loads t0 r ?b log" by (rule seq_loads.other_step [OF assms(1)]) simp
  from loads_pending [OF this] assms(2) show ?thesis by (intro exI) (auto simp: at_rest_def)
qed

lemma init_at_rest: "seq_loads t0 r (seq_init t0) [] \<and> at_rest r (seq_init t0)"
  using seq_loads.begin_loads [of t0 r] by (simp add: at_rest_def) (simp add: seq_init_def)

lemma first_load: "\<exists>s. seq_loads t0 0 s [(t0, 0)] \<and> ss_hist s = [t0]"
  using load_at_rest [OF conjunct1 [OF init_at_rest] conjunct2 [OF init_at_rest], of t0 0]
  by (auto simp: seq_init_def)

text \<open>
  Property C6: the loads of a reader. In every interleaving of the view machine, of one writer and any
  number of readers, in which at most \<open>2 ^ 31\<close> snapshots (the initial one counted) have been begun, each load
  of a reader returned one whole snapshot that was completely stored by then, and successive loads never go
  back to an older one.
\<close>
theorem seqlock_loads_in_order:
  assumes "seq_loads t0 r s log" and "length (ss_hist s) \<le> 2 ^ 31"
  shows "\<exists>gens. length gens = length log \<and> sorted gens
    \<and> (\<forall>i < length log. gens ! i < length (published s) \<and> fst (log ! i) = published s ! (gens ! i))"
proof -
  obtain gens where "loads_at (published s) log gens" using seq_loads_inv [OF assms] by blast
  then have g: "map fst log = map (\<lambda>g. published s ! g) gens" "sorted gens"
    "list_all (\<lambda>g. g < length (published s)) gens"
    by (auto simp: loads_at_def)
  have len: "length gens = length log" using arg_cong [OF g(1), of length] by simp
  have "fst (log ! i) = published s ! (gens ! i)" if "i < length log" for i
    using arg_cong [OF g(1), of "\<lambda>xs. xs ! i"] that len by simp
  then show ?thesis using g(2,3) len by (intro exI [of _ gens]) (simp add: list_all_length)
qed

text \<open>A load of the initial snapshot, a store, a load of the new one.\<close>

theorem seqlock_loads_in_order_witness:
  "\<exists>s gens. seq_loads tob_default 0 s [(tob_default, 0), (tob_ones, 0)]
    \<and> published s = [tob_default, tob_ones] \<and> length gens = 2 \<and> sorted gens
    \<and> published s ! (gens ! 0) = tob_default \<and> gens ! 1 < length (published s) \<and> published s ! (gens ! 1) = tob_ones"
proof -
  let ?log = "[(tob_default, 0 :: u32), (tob_ones, 0)]"
  obtain s1 where s1: "seq_loads tob_default 0 s1 [(tob_default, 0)]" "at_rest 0 s1" "ss_hist s1 = [tob_default]"
    using load_at_rest [OF conjunct1 [OF init_at_rest] conjunct2 [OF init_at_rest], of tob_default 0]
    by (auto simp: seq_init_def)
  obtain s2 where s2: "seq_loads tob_default 0 s2 [(tob_default, 0)]" "at_rest 0 s2"
    "ss_hist s2 = [tob_default, tob_ones]"
    using store_at_rest [OF s1(1,2), of tob_ones] s1(3) by auto
  obtain s where s: "seq_loads tob_default 0 s ?log" "at_rest 0 s" "ss_hist s = [tob_default, tob_ones]"
    using load_at_rest [OF s2(1,2)] s2(3) by auto
  have pub: "published s = [tob_default, tob_ones]" using s(2,3) by (simp add: at_rest_def published_def)
  have "length (ss_hist s) \<le> 2 ^ 31" by (simp add: s(3))
  from seqlock_loads_in_order [OF s(1) this] obtain gens where "length gens = length ?log" "sorted gens"
    and at: "\<And>i. i < length ?log \<Longrightarrow> gens ! i < length (published s) \<and> fst (?log ! i) = published s ! (gens ! i)"
    by blast
  then show ?thesis
    using s(1) pub at [of 0] at [of 1] by (intro exI [of _ s] exI [of _ gens]) simp
qed

subsection \<open>The stress test\<close>

definition snapshot_for :: "u64 \<Rightarrow> top_of_book" where
  "snapshot_for stamp =
     (let base = stamp * 4
      in \<lparr>tob_bid_px = base, tob_bid_qty = base + 1, tob_ask_px = base + 2, tob_ask_qty = base + 3,
          tob_stamp = stamp\<rparr>)"

definition consistent_snapshot :: "top_of_book \<Rightarrow> bool" where
  "consistent_snapshot t \<longleftrightarrow>
     (let base = tob_stamp t * 4
      in tob_bid_px t = base \<and> tob_bid_qty t = base + 1 \<and> tob_ask_px t = base + 2 \<and> tob_ask_qty t = base + 3)"

record reader_stats =
  rs_reads :: u64
  rs_retries :: u64
  rs_violations :: u64
  rs_max_stamp :: u64
  rs_first_bad :: "top_of_book option"

definition reader_stats_default :: reader_stats where
  "reader_stats_default =
     \<lparr>rs_reads = 0, rs_retries = 0, rs_violations = 0, rs_max_stamp = 0, rs_first_bad = None\<rparr>"

definition judge_load :: "top_of_book \<Rightarrow> reader_stats \<Rightarrow> reader_stats" where
  "judge_load t s =
     (let s1 = if rs_max_stamp s < tob_stamp t then s\<lparr>rs_max_stamp := tob_stamp t\<rparr> else s
      in if consistent_snapshot t then s1
         else s1\<lparr>rs_violations := rs_violations s1 + 1,
                 rs_first_bad := (if rs_first_bad s1 = None then Some t else rs_first_bad s1)\<rparr>)"

text \<open>One turn of the loop; after the loop one more load, whose retries are not counted.\<close>

definition reader_step :: "load_result \<Rightarrow> reader_stats \<Rightarrow> reader_stats" where
  "reader_step l s =
     judge_load (fst l) (s\<lparr>rs_reads := rs_reads s + 1, rs_retries := rs_retries s + ucast (snd l)\<rparr>)"

definition stress_reader :: "load_result list \<Rightarrow> load_result \<Rightarrow> reader_stats" where
  "stress_reader loads final =
     (let s = fold reader_step loads reader_stats_default
      in judge_load (fst final) (s\<lparr>rs_reads := rs_reads s + 1\<rparr>))"

definition WRITER_BUDGET :: u64 where "WRITER_BUDGET = 10000000"

text \<open>The assertions on the totals, without the two that need the readers to run at all.\<close>

definition stress_passes :: "reader_stats list \<Rightarrow> bool" where
  "stress_passes stats \<longleftrightarrow>
     (\<Sum>s \<leftarrow> stats. rs_violations s) = 0 \<and> foldr max (map rs_max_stamp stats) 0 \<le> WRITER_BUDGET"

definition loom_assert_consistent :: "top_of_book \<Rightarrow> bool" where
  "loom_assert_consistent t \<longleftrightarrow>
     tob_stamp t \<le> 1 \<and> tob_bid_px t = tob_stamp t * 4 \<and> tob_bid_qty t = tob_bid_px t + 1
     \<and> tob_ask_px t = tob_bid_px t + 2 \<and> tob_ask_qty t = tob_bid_px t + 3"

text \<open>The writer stores the witness of each stamp after the initial one.\<close>

definition stamped :: "top_of_book list \<Rightarrow> bool" where
  "stamped hist \<longleftrightarrow> hist = map (\<lambda>k. snapshot_for (of_nat k)) [0..<length hist]"

definition good_load :: "nat \<Rightarrow> top_of_book \<Rightarrow> bool" where
  "good_load m t \<longleftrightarrow> consistent_snapshot t \<and> unat (tob_stamp t) < m"

lemma stamped_good:
  assumes "stamped hist" and "g < length hist" and "length hist \<le> 2 ^ 31"
  shows "good_load (length hist) (hist ! g)" and "unat (tob_stamp (hist ! g)) = g"
proof -
  have "hist ! g = map (\<lambda>k. snapshot_for (of_nat k)) [0..<length hist] ! g"
    using assms(1) by (simp add: stamped_def)
  then have h: "hist ! g = snapshot_for (of_nat g)" using assms(2) by simp
  show stamp: "unat (tob_stamp (hist ! g)) = g"
    using assms(2,3) by (simp add: h snapshot_for_def Let_def unat_of_nat)
  show "good_load (length hist) (hist ! g)"
    using assms(2) stamp by (simp add: good_load_def consistent_snapshot_def h snapshot_for_def Let_def)
qed

lemma judge_good:
  "good_load m t \<Longrightarrow> rs_violations s = 0 \<Longrightarrow> unat (rs_max_stamp s) < m \<Longrightarrow>
   rs_violations (judge_load t s) = 0 \<and> unat (rs_max_stamp (judge_load t s)) < m"
  by (simp add: judge_load_def good_load_def Let_def)

lemma reader_fold:
  "list_all (good_load m) (map fst loads) \<Longrightarrow> rs_violations s = 0 \<Longrightarrow> unat (rs_max_stamp s) < m \<Longrightarrow>
   rs_violations (fold reader_step loads s) = 0 \<and> unat (rs_max_stamp (fold reader_step loads s)) < m"
proof (induction loads arbitrary: s)
  case (Cons l loads)
  have "rs_violations (reader_step l s) = 0 \<and> unat (rs_max_stamp (reader_step l s)) < m"
    using Cons.prems unfolding reader_step_def by (intro judge_good) simp_all
  with Cons show ?case by simp
qed simp

lemma stress_reader_ok:
  assumes "list_all (good_load m) (map fst (loads @ [final]))" and "0 < m"
  shows "rs_violations (stress_reader loads final) = 0 \<and> unat (rs_max_stamp (stress_reader loads final)) < m"
  using assms reader_fold [of m loads reader_stats_default] unfolding stress_reader_def Let_def
  by (intro judge_good) (simp_all add: reader_stats_default_def)

lemma loads_good:
  assumes "seq_loads t0 r s log" and "stamped (ss_hist s)" and "length (ss_hist s) \<le> 2 ^ 31"
  shows "list_all (good_load (length (ss_hist s))) (map fst log)"
    and "sorted (map (\<lambda>l. unat (tob_stamp (fst l))) log)"
proof -
  obtain gens where "loads_at (published s) log gens" using seq_loads_inv [OF assms(1,3)] by blast
  with published_hist [of s] have "loads_at (ss_hist s) log gens" using loads_at_mono by metis
  then have g: "map fst log = map (\<lambda>g. ss_hist s ! g) gens" "sorted gens"
    "list_all (\<lambda>g. g < length (ss_hist s)) gens"
    by (auto simp: loads_at_def)
  show "list_all (good_load (length (ss_hist s))) (map fst log)"
    using g(3) stamped_good(1) [OF assms(2) _ assms(3)] by (simp add: g(1) list_all_iff)
  have "map (\<lambda>l. unat (tob_stamp (fst l))) log = map (\<lambda>t. unat (tob_stamp t)) (map fst log)" by simp
  also have "\<dots> = gens"
    unfolding g(1) using g(3) stamped_good(2) [OF assms(2) _ assms(3)]
    by (simp add: list_all_iff map_idI)
  finally show "sorted (map (\<lambda>l. unat (tob_stamp (fst l))) log)" using g(2) by simp
qed

text \<open>
  Property C26: the seqlock's stress and loom tests, for every interleaving. When the writer stores the
  witness of each stamp in order, fewer than \<open>2 ^ 31\<close> of them, no reader of the stress test counts a
  violation or sees a stamp beyond the writer's last, the stamps a reader sees never decrease, and
  with at most one store every load passes the loom assertion.
\<close>
theorem seqlock_stress_tests:
  assumes "seq_loads (snapshot_for 0) r s (loads @ [final])" and "stamped (ss_hist s)"
    and "length (ss_hist s) \<le> 2 ^ 31"
  shows "rs_violations (stress_reader loads final) = 0
    \<and> unat (rs_max_stamp (stress_reader loads final)) < length (ss_hist s)
    \<and> sorted (map (\<lambda>l. unat (tob_stamp (fst l))) (loads @ [final]))
    \<and> (length (ss_hist s) \<le> 2 \<longrightarrow> list_all (\<lambda>l. loom_assert_consistent (fst l)) (loads @ [final]))"
proof -
  note good = loads_good [OF assms]
  have pos: "0 < length (ss_hist s)"
    using good(1) by (auto simp: good_load_def)
  have "loom_assert_consistent t" if "good_load (length (ss_hist s)) t" "length (ss_hist s) \<le> 2" for t
    using that by (auto simp: good_load_def loom_assert_consistent_def consistent_snapshot_def Let_def
        word_le_nat_alt)
  then show ?thesis
    using stress_reader_ok [OF good(1) pos] good by (auto simp: list_all_iff)
qed

theorem seqlock_stress_tests_witness:
  "\<exists>s. seq_loads (snapshot_for 0) 0 s [(snapshot_for 0, 0)]
    \<and> rs_violations (stress_reader [] (snapshot_for 0, 0)) = 0 \<and> loom_assert_consistent (snapshot_for 0)"
proof -
  obtain s where s: "seq_loads (snapshot_for 0) 0 s [(snapshot_for 0, 0)]" "ss_hist s = [snapshot_for 0]"
    using first_load by blast
  then have "stamped (ss_hist s)" "length (ss_hist s) \<le> 2 ^ 31" by (simp_all add: stamped_def)
  from seqlock_stress_tests [of 0 s "[]" "(snapshot_for 0, 0)", OF _ this] s show ?thesis by auto
qed

end
