(* ===== verification/Branch_Exp.thy ===== *)
theory Branch_Exp
  imports Sustained
begin

unbundle bit_operations_syntax

section \<open>The branch experiment (bench/src/benches/branch_exp.rs)\<close>

text \<open>
  Two hand-written lower-bound searches and the standard library's \<open>partition_point\<close>, measured on keys of two
  kinds. Each loop has its termination proof; an index out of range would be a panic. On every sorted array the
  three return the number of elements below the key, so the cells of the experiment differ in time only.
\<close>

definition BRANCH_DEPTHS :: "nat list" where "BRANCH_DEPTHS = [16, 64, 256, 1024, 4096, 16384]"
definition TARGET_LOOKUPS :: nat where "TARGET_LOOKUPS = 10000000"
definition BLOCK :: nat where "BLOCK = 1024"
definition BRANCH_SEED :: u64 where "BRANCH_SEED = 0xB1A5C0DEF00D1234"

subsection \<open>The searches\<close>

function branchless_loop :: "i64 list \<Rightarrow> i64 \<Rightarrow> nat \<Rightarrow> nat \<Rightarrow> nat res" where
  "branchless_loop arr key base len =
     (if 1 < len then
        let half = len div 2; mid = base + half
        in res_bind (vec_get arr mid) (\<lambda>v.
             branchless_loop arr key (if i64_lt v key then mid else base) (len - half))
      else Inr base)"
  by pat_completeness auto
termination by (relation "measure (\<lambda>(arr, key, base, len). len)") auto

declare branchless_loop.simps [simp del]

definition branchless_lower_bound :: "i64 list \<Rightarrow> i64 \<Rightarrow> nat res" where
  "branchless_lower_bound arr key =
     res_bind (branchless_loop arr key 0 (length arr)) (\<lambda>base.
       Inr (base + (if base < length arr \<and> i64_lt (arr ! base) key then 1 else 0)))"

function branchy_loop :: "i64 list \<Rightarrow> i64 \<Rightarrow> nat \<Rightarrow> nat \<Rightarrow> nat res" where
  "branchy_loop arr key lo hi =
     (if lo < hi then
        let mid = lo + (hi - lo) div 2
        in res_bind (vec_get arr mid) (\<lambda>v.
             if i64_lt v key then branchy_loop arr key (mid + 1) hi else branchy_loop arr key lo mid)
      else Inr lo)"
  by pat_completeness auto
termination by (relation "measure (\<lambda>(arr, key, lo, hi). hi - lo)") auto

declare branchy_loop.simps [simp del]

definition branchy_lower_bound :: "i64 list \<Rightarrow> i64 \<Rightarrow> nat res" where
  "branchy_lower_bound arr key = branchy_loop arr key 0 (length arr)"

text \<open>\<open>slice::partition_point\<close>: the library's halving search on \<open>Less\<close> and \<open>Greater\<close>.\<close>

function partition_loop :: "('a \<Rightarrow> bool) \<Rightarrow> 'a list \<Rightarrow> nat \<Rightarrow> nat \<Rightarrow> nat" where
  "partition_loop P xs sz base =
     (if 1 < sz then
        let half = sz div 2; mid = base + half
        in partition_loop P xs (sz - half) (if P (xs ! mid) then mid else base)
      else base)"
  by pat_completeness auto
termination by (relation "measure (\<lambda>(P, xs, sz, base). sz)") auto

declare partition_loop.simps [simp del]

definition partition_point :: "('a \<Rightarrow> bool) \<Rightarrow> 'a list \<Rightarrow> nat" where
  "partition_point P xs =
     (if xs = [] then 0
      else let base = partition_loop P xs (length xs) 0 in base + (if P (xs ! base) then 1 else 0))"

subsection \<open>They agree\<close>

text \<open>\<open>k\<close> splits the list: what is before satisfies \<open>P\<close>, what is after does not.\<close>

definition splits_at :: "('a \<Rightarrow> bool) \<Rightarrow> 'a list \<Rightarrow> nat \<Rightarrow> bool" where
  "splits_at P xs k \<longleftrightarrow> k \<le> length xs \<and> (\<forall>i < length xs. P (xs ! i) \<longleftrightarrow> i < k)"

lemma splits_unique: "splits_at P xs k \<Longrightarrow> splits_at P xs m \<Longrightarrow> k = m"
  unfolding splits_at_def by (metis linorder_neqE_nat less_le_trans less_irrefl)

lemma splits_filter: "splits_at P xs k \<Longrightarrow> length (filter P xs) = k"
proof -
  assume s: "splits_at P xs k"
  then have "{i. i < length xs \<and> P (xs ! i)} = {..<k}" by (auto simp: splits_at_def)
  then show ?thesis by (simp add: length_filter_conv_card)
qed

lemma sorted_splits:
  assumes "sorted_wrt i64_le arr"
  shows "splits_at (\<lambda>v. i64_lt v key) arr (length (takeWhile (\<lambda>v. i64_lt v key) arr))"
proof -
  let ?P = "\<lambda>v. i64_lt v key" and ?k = "length (takeWhile (\<lambda>v. i64_lt v key) arr)"
  have k: "?k \<le> length arr" by (rule length_takeWhile_le)
  have before: "?P (arr ! i)" if "i < ?k" for i
    using that nth_mem [of i "takeWhile ?P arr"] by (auto simp: takeWhile_nth dest: set_takeWhileD)
  have after: "\<not> ?P (arr ! i)" if "?k \<le> i" "i < length arr" for i
  proof -
    have "\<not> ?P (arr ! ?k)" using that by (intro nth_length_takeWhile) linarith
    moreover have "arr ! ?k = arr ! i \<or> i64_le (arr ! ?k) (arr ! i)"
      using assms that by (cases "?k = i") (auto simp: sorted_wrt_iff_nth_less)
    ultimately show ?thesis by (auto simp: i64_lt_def i64_le_def)
  qed
  show ?thesis unfolding splits_at_def using k before after by (meson not_less)
qed

lemma branchless_loop_ok:
  "splits_at (\<lambda>v. i64_lt v key) arr k \<Longrightarrow> base + len \<le> length arr \<Longrightarrow> base \<le> k \<Longrightarrow> k \<le> base + len \<Longrightarrow>
   0 < len \<Longrightarrow> \<exists>b. branchless_loop arr key base len = Inr b \<and> b \<le> k \<and> k \<le> b + 1 \<and> b < length arr"
proof (induction arr key base len rule: branchless_loop.induct)
  case (1 arr key base len)
  show ?case
  proof (cases "1 < len")
    case True
    let ?mid = "base + len div 2"
    have mid: "?mid < length arr" using "1.prems" True by linarith
    let ?next = "if i64_lt (arr ! ?mid) key then ?mid else base"
    have step: "branchless_loop arr key base len = branchless_loop arr key ?next (len - len div 2)"
      using True mid by (subst branchless_loop.simps) (simp add: vec_simps Let_def)
    have "i64_lt (arr ! ?mid) key \<longleftrightarrow> ?mid < k" using "1.prems"(1) mid by (simp add: splits_at_def)
    then have "?next + (len - len div 2) \<le> length arr" "?next \<le> k" "k \<le> ?next + (len - len div 2)"
      using "1.prems" True by auto
    moreover have "0 < len - len div 2" using True by linarith
    ultimately show ?thesis
      using "1.IH" [OF True refl refl, of "arr ! ?mid"] "1.prems"(1) mid unfolding step by (simp add: vec_simps)
  next
    case False
    with 1 show ?thesis by (subst branchless_loop.simps) auto
  qed
qed

lemma branchless_splits:
  assumes "splits_at (\<lambda>v. i64_lt v key) arr k"
  shows "branchless_lower_bound arr key = Inr k"
proof (cases "arr = []")
  case True
  with assms show ?thesis
    by (simp add: branchless_lower_bound_def branchless_loop.simps splits_at_def)
next
  case False
  with branchless_loop_ok [OF assms, of 0 "length arr"] assms obtain b where
    b: "branchless_loop arr key 0 (length arr) = Inr b" "b \<le> k" "k \<le> b + 1" "b < length arr"
    by (auto simp: splits_at_def)
  moreover have "i64_lt (arr ! b) key \<longleftrightarrow> b < k" using assms b(4) by (simp add: splits_at_def)
  ultimately show ?thesis by (auto simp: branchless_lower_bound_def)
qed

lemma branchy_loop_ok:
  "splits_at (\<lambda>v. i64_lt v key) arr k \<Longrightarrow> hi \<le> length arr \<Longrightarrow> lo \<le> k \<Longrightarrow> k \<le> hi \<Longrightarrow>
   branchy_loop arr key lo hi = Inr k"
proof (induction arr key lo hi rule: branchy_loop.induct)
  case (1 arr key lo hi)
  show ?case
  proof (cases "lo < hi")
    case True
    let ?mid = "lo + (hi - lo) div 2"
    have mid: "?mid < length arr" using "1.prems" True by linarith
    have step: "branchy_loop arr key lo hi =
        (if i64_lt (arr ! ?mid) key then branchy_loop arr key (?mid + 1) hi else branchy_loop arr key lo ?mid)"
      using True mid by (subst branchy_loop.simps) (simp add: vec_simps Let_def)
    have P: "i64_lt (arr ! ?mid) key \<longleftrightarrow> ?mid < k" using "1.prems"(1) mid by (simp add: splits_at_def)
    show ?thesis
    proof (cases "?mid < k")
      case below: True
      then have "branchy_loop arr key (?mid + 1) hi = Inr k"
        using "1.IH"(1) [OF True refl, of "arr ! ?mid"] "1.prems" P mid by (simp add: vec_simps)
      with below P show ?thesis by (simp add: step)
    next
      case above: False
      then have "branchy_loop arr key lo ?mid = Inr k"
        using "1.IH"(2) [OF True refl, of "arr ! ?mid"] "1.prems" P mid by (simp add: vec_simps)
      with above P show ?thesis by (simp add: step)
    qed
  qed (use 1 in \<open>simp add: branchy_loop.simps\<close>)
qed

lemma partition_loop_ok:
  "splits_at P xs k \<Longrightarrow> base + sz \<le> length xs \<Longrightarrow> base \<le> k \<Longrightarrow> k \<le> base + sz \<Longrightarrow> 0 < sz \<Longrightarrow>
   partition_loop P xs sz base \<le> k \<and> k \<le> partition_loop P xs sz base + 1 \<and> partition_loop P xs sz base < length xs"
proof (induction P xs sz base rule: partition_loop.induct)
  case (1 P xs sz base)
  show ?case
  proof (cases "1 < sz")
    case True
    let ?mid = "base + sz div 2"
    let ?next = "if P (xs ! ?mid) then ?mid else base"
    have mid: "?mid < length xs" using "1.prems" True by linarith
    have step: "partition_loop P xs sz base = partition_loop P xs (sz - sz div 2) ?next"
      using True by (subst partition_loop.simps) (simp add: Let_def)
    have "P (xs ! ?mid) \<longleftrightarrow> ?mid < k" using "1.prems"(1) mid by (simp add: splits_at_def)
    then have "?next + (sz - sz div 2) \<le> length xs" "?next \<le> k" "k \<le> ?next + (sz - sz div 2)"
      using "1.prems" True by auto
    moreover have "0 < sz - sz div 2" using True by linarith
    ultimately show ?thesis using "1.IH" [OF True refl refl] "1.prems"(1) unfolding step by simp
  next
    case False
    then have "partition_loop P xs sz base = base" by (subst partition_loop.simps) simp
    with 1 False show ?thesis by auto
  qed
qed

lemma partition_splits:
  assumes "splits_at P xs k"
  shows "partition_point P xs = k"
proof (cases "xs = []")
  case True
  with assms show ?thesis by (simp add: partition_point_def splits_at_def)
next
  case False
  let ?b = "partition_loop P xs (length xs) 0"
  have b: "?b \<le> k" "k \<le> ?b + 1" "?b < length xs"
    using partition_loop_ok [OF assms, of 0 "length xs"] False assms by (auto simp: splits_at_def)
  moreover have "P (xs ! ?b) \<longleftrightarrow> ?b < k" using assms b(3) by (simp add: splits_at_def)
  ultimately show ?thesis using False by (auto simp: partition_point_def Let_def)
qed

lemma searches_agree:
  assumes "sorted_wrt i64_le arr"
  shows "branchless_lower_bound arr key = Inr (partition_point (\<lambda>v. i64_lt v key) arr)"
    and "branchy_lower_bound arr key = Inr (partition_point (\<lambda>v. i64_lt v key) arr)"
    and "partition_point (\<lambda>v. i64_lt v key) arr = length (filter (\<lambda>v. i64_lt v key) arr)"
proof -
  let ?k = "length (takeWhile (\<lambda>v. i64_lt v key) arr)"
  have s: "splits_at (\<lambda>v. i64_lt v key) arr ?k" by (rule sorted_splits [OF assms])
  note p = partition_splits [OF s]
  show "branchless_lower_bound arr key = Inr (partition_point (\<lambda>v. i64_lt v key) arr)"
    by (simp add: p branchless_splits [OF s])
  show "branchy_lower_bound arr key = Inr (partition_point (\<lambda>v. i64_lt v key) arr)"
    using branchy_loop_ok [OF s, of "length arr" 0] by (simp add: p branchy_lower_bound_def length_takeWhile_le)
  show "partition_point (\<lambda>v. i64_lt v key) arr = length (filter (\<lambda>v. i64_lt v key) arr)"
    by (simp add: p splits_filter [OF s])
qed

subsection \<open>The experiment\<close>

datatype variant = Branchy | Branchless | Std

fun variant_tag :: "variant \<Rightarrow> string" where
  "variant_tag Branchy = ''branchy''"
| "variant_tag Branchless = ''branchless''"
| "variant_tag Std = ''std''"

fun variant_index :: "variant \<Rightarrow> u64" where
  "variant_index Branchy = 0"
| "variant_index Branchless = 1"
| "variant_index Std = 2"

datatype key_pattern = Predictable | Random

fun pattern_tag :: "key_pattern \<Rightarrow> string" where
  "pattern_tag Predictable = ''predictable''"
| "pattern_tag Random = ''random''"

fun pattern_index :: "key_pattern \<Rightarrow> u64" where
  "pattern_index Predictable = 0"
| "pattern_index Random = 1"

definition level_array :: "nat \<Rightarrow> i64 list" where
  "level_array depth = map (\<lambda>i. of_nat i * 2) [0..<depth]"

text \<open>The keys of a block: a sweep over the domain, or uniform draws; the state is the sweep and the generator.\<close>

definition key_in :: "u64 \<Rightarrow> u64 \<Rightarrow> i64 res" where
  "key_in domain x =
     (if domain = 0 then Inl DivisionByZero
      else if i64_lt (x mod domain) 0 then Inl UnwrapFailed
      else Inr (x mod domain - 1))"

fun draw_keys :: "nat \<Rightarrow> key_pattern \<Rightarrow> u64 \<Rightarrow> u64 \<times> splitmix \<Rightarrow> (i64 list \<times> u64 \<times> splitmix) res" where
  "draw_keys 0 pat domain (sq, g) = Inr ([], sq, g)"
| "draw_keys (Suc n) pat domain (sq, g) =
     (let (x, st) = (case pat of Predictable \<Rightarrow> (sq, sq + 1, g) | Random \<Rightarrow> (let (r, g') = next_u64 g in (r, sq, g')))
      in res_bind (key_in domain x) (\<lambda>k.
         res_bind (draw_keys n pat domain st) (\<lambda>(ks, st'). Inr (k # ks, st'))))"

fun variant_search :: "variant \<Rightarrow> i64 list \<Rightarrow> i64 \<Rightarrow> nat res" where
  "variant_search Branchy arr key = branchy_lower_bound arr key"
| "variant_search Branchless arr key = branchless_lower_bound arr key"
| "variant_search Std arr key = Inr (partition_point (\<lambda>v. i64_lt v key) arr)"

text \<open>The lookups under one clock bracket, summed with wrap-around.\<close>

fun lookups :: "variant \<Rightarrow> i64 list \<Rightarrow> i64 list \<Rightarrow> u64 \<Rightarrow> u64 res" where
  "lookups var arr [] acc = Inr acc"
| "lookups var arr (key # keys) acc =
     res_bind (variant_search var arr key) (\<lambda>idx. lookups var arr keys (acc + of_nat idx))"

fun measure_blocks ::
  "'h hist_ops \<Rightarrow> (u64 \<Rightarrow> u64 \<Rightarrow> nat) \<Rightarrow> ('w \<Rightarrow> u64 \<times> 'w) \<Rightarrow> i64 list \<Rightarrow> variant \<Rightarrow> key_pattern \<Rightarrow> u64 \<Rightarrow> nat
   \<Rightarrow> (u64 \<times> splitmix) \<times> u64 \<times> 'h \<Rightarrow> ('w, u64 \<times> 'h) timed" where
  "measure_blocks H delta raw arr var pat domain 0 (st, acc, h) = t_return (acc, h)"
| "measure_blocks H delta raw arr var pat domain (Suc n) (st, acc, h) =
     t_bind (t_lift (draw_keys BLOCK pat domain st)) (\<lambda>(keys, st').
     t_bind (\<lambda>w. Some (Inr (raw w))) (\<lambda>t0.
     t_bind (t_lift (lookups var arr keys acc)) (\<lambda>acc'.
     t_bind (\<lambda>w. Some (Inr (raw w))) (\<lambda>t1.
       measure_blocks H delta raw arr var pat domain n (st', acc', lat_record H (delta_ns delta t0 t1) h)))))"

definition lookup_blocks :: nat where "lookup_blocks = (TARGET_LOOKUPS + BLOCK - 1) div BLOCK"

definition measure_cell ::
  "'h hist_ops \<Rightarrow> (u64 \<Rightarrow> u64 \<Rightarrow> nat) \<Rightarrow> ('w \<Rightarrow> u64 \<times> 'w) \<Rightarrow> i64 list \<Rightarrow> variant \<Rightarrow> key_pattern \<Rightarrow> u64
   \<Rightarrow> ('w, 'h \<times> nat) timed" where
  "measure_cell H delta raw arr var pat seed =
     t_bind (t_lift (lat_new H)) (\<lambda>h0.
     t_bind (measure_blocks H delta raw arr var pat (of_nat (length arr) * 2 + 2) lookup_blocks
         ((0, splitmix_new seed), 0, h0)) (\<lambda>(acc, h).
       t_return (h, lookup_blocks * BLOCK)))"

record branch_row =
  br_variant :: variant
  br_pattern :: key_pattern
  br_depth :: nat
  br_samples :: nat
  br_overhead :: u64
  br_p50 :: f64
  br_p99 :: f64
  br_mean :: f64

definition per_op :: "'h hist_ops \<Rightarrow> 'h \<Rightarrow> f64 \<Rightarrow> f64" where
  "per_op H h q = f64_div (f64_of_nat (unat (lat_p H h q))) (f64_of_nat BLOCK)"

definition branch_seed :: "nat \<Rightarrow> variant \<Rightarrow> key_pattern \<Rightarrow> u64" where
  "branch_seed depth var pat =
     ((BRANCH_SEED XOR (of_nat depth * 0x9E3779B9)) XOR push_bit 16 (variant_index var))
       XOR push_bit 8 (pattern_index pat)"

definition branch_cell_row ::
  "'h hist_ops \<Rightarrow> (u64 \<Rightarrow> u64 \<Rightarrow> nat) \<Rightarrow> ('w \<Rightarrow> u64 \<times> 'w) \<Rightarrow> u64 \<Rightarrow> nat \<times> variant \<times> key_pattern
   \<Rightarrow> ('w, branch_row) timed" where
  "branch_cell_row H delta raw overhead = (\<lambda>(depth, var, pat).
     t_bind (measure_cell H delta raw (level_array depth) var pat (branch_seed depth var pat)) (\<lambda>(h, samples).
       t_return \<lparr>br_variant = var, br_pattern = pat, br_depth = depth, br_samples = samples, br_overhead = overhead,
         br_p50 = per_op H h (f64_lit (1 / 2)), br_p99 = per_op H h (f64_lit (99 / 100)),
         br_mean = f64_div (lat_mean H h) (f64_of_nat BLOCK)\<rparr>))"

text \<open>The cells in the order of the three loops, then the rows.\<close>

definition branch_cells :: "(nat \<times> variant \<times> key_pattern) list" where
  "branch_cells = List.product BRANCH_DEPTHS (List.product [Branchy, Branchless, Std] [Predictable, Random])"

definition branch_rows ::
  "'h hist_ops \<Rightarrow> (u64 \<Rightarrow> u64 \<Rightarrow> nat) \<Rightarrow> ('w \<Rightarrow> u64 \<times> 'w) \<Rightarrow> ('w, branch_row list) timed" where
  "branch_rows H delta raw =
     t_bind (\<lambda>w. let (r, w') = measure_overhead delta raw w in t_lift r w') (\<lambda>overhead.
       t_map (branch_cell_row H delta raw overhead) branch_cells)"

definition branch_row_cells :: "branch_row \<Rightarrow> string list" where
  "branch_row_cells r =
     [variant_tag (br_variant r), pattern_tag (br_pattern r), show_u64 (of_nat (br_depth r)),
      show_u64 (of_nat (br_samples r)), show_u64 (br_overhead r), show_fixed 3 (br_p50 r),
      show_fixed 3 (br_p99 r), show_fixed 3 (br_mean r)]"

definition branch_csv :: "branch_row list \<Rightarrow> string" where
  "branch_csv rows = csv_text (csv_header ''branch_experiment.csv'') (map branch_row_cells rows)"

text \<open>The median of a cell, \<open>0\<close> when there is no such row.\<close>

definition cell_p50 :: "branch_row list \<Rightarrow> nat \<Rightarrow> variant \<Rightarrow> key_pattern \<Rightarrow> f64" where
  "cell_p50 rows depth var pat =
     (case List.find (\<lambda>r. br_depth r = depth \<and> br_variant r = var \<and> br_pattern r = pat) rows of
        None \<Rightarrow> f64_lit 0 | Some r \<Rightarrow> br_p50 r)"

text \<open>The arguments after a flag are its value, also when the value does not parse.\<close>

fun branch_args :: "nat \<times> string \<Rightarrow> string list \<Rightarrow> nat \<times> string" where
  "branch_args (core, out) [] = (core, out)"
| "branch_args (core, out) [a] = (core, out)"
| "branch_args (core, out) (a # v # rest) =
     (if a = ''--core'' then branch_args ((case parse_usize (codes v) of None \<Rightarrow> core | Some n \<Rightarrow> n), out) rest
      else if a = ''--out'' then branch_args (core, v) rest
      else branch_args (core, out) (v # rest))"

subsection \<open>What a cell does\<close>

lemma level_array_nth: "i < depth \<Longrightarrow> level_array depth ! i = of_nat i * 2"
  by (simp add: level_array_def)

lemma level_array_sorted:
  assumes "depth \<le> 2 ^ 61"
  shows "sorted_wrt i64_le (level_array depth)"
proof -
  have "i64_le (of_nat i * 2) (of_nat j * 2)" if "i < j" "j < depth" for i j
  proof -
    have val: "sint (of_nat k * 2 :: i64) = 2 * int k" if "k < depth" for k
    proof -
      have "2 * int k < 2 ^ 63" using that assms by simp
      then have "sint (of_int (2 * int k) :: i64) = 2 * int k" by (intro sint_of_int_i64) simp_all
      then show ?thesis by (simp add: mult.commute)
    qed
    show ?thesis using that by (simp add: i64_le_def val)
  qed
  then show ?thesis
    by (simp add: level_array_def sorted_wrt_map sorted_wrt_iff_nth_less)
qed

lemma variant_search_std:
  "sorted_wrt i64_le arr \<Longrightarrow> variant_search var arr key = variant_search Std arr key"
  using searches_agree(1,2) by (cases var) simp_all

lemma lookups_std: "sorted_wrt i64_le arr \<Longrightarrow> lookups var arr keys acc = lookups Std arr keys acc"
  by (induction keys arbitrary: acc) (simp_all add: variant_search_std)

lemma measure_blocks_std:
  "sorted_wrt i64_le arr \<Longrightarrow>
   measure_blocks H delta raw arr var pat domain n x = measure_blocks H delta raw arr Std pat domain n x"
proof (induction n arbitrary: x)
  case (Suc n)
  obtain st acc h where x: "x = (st, acc, h)" by (cases x)
  show ?case unfolding x measure_blocks.simps lookups_std [OF Suc.prems, of var] Suc.IH [OF Suc.prems] ..
next
  case 0
  show ?case by (cases x) simp
qed

text \<open>
  Property C28: the searches of the branch experiment are lower bounds. On every sorted array and for every key
  the branchless and the branchy search return, without an index out of range, what the library's
  \<open>partition_point\<close> returns: the number of elements below the key.
\<close>
theorem lower_bounds_agree:
  assumes "sorted_wrt i64_le arr"
  shows "branchless_lower_bound arr key = Inr (length (filter (\<lambda>v. i64_lt v key) arr))
    \<and> branchy_lower_bound arr key = Inr (length (filter (\<lambda>v. i64_lt v key) arr))
    \<and> partition_point (\<lambda>v. i64_lt v key) arr = length (filter (\<lambda>v. i64_lt v key) arr)"
  using searches_agree [OF assms] by simp

theorem lower_bounds_agree_witness:
  "branchless_lower_bound [- 3, 0, 0, 5] 1 = Inr 3 \<and> branchy_lower_bound [- 3, 0, 0, 5] 1 = Inr 3"
  using lower_bounds_agree [of "[- 3, 0, 0, 5]" 1] by (simp add: i64_le_def i64_lt_def)

text \<open>
  The variants of the branch experiment differ in time only. Over the level array of any depth, every
  variant makes of every world the very same cell, with the same samples and the same summed indices,
  as the library's search does.
\<close>
theorem variants_agree:
  assumes "depth \<le> 2 ^ 61"
  shows "measure_cell H delta raw (level_array depth) var pat seed w
    = measure_cell H delta raw (level_array depth) Std pat seed w"
  unfolding measure_cell_def measure_blocks_std [OF level_array_sorted [OF assms], of H delta raw var] ..

theorem variants_agree_witness:
  "\<forall>(H :: unit hist_ops) delta raw (w :: nat).
     measure_cell H delta raw (level_array 16384) Branchless Random 7 w
     = measure_cell H delta raw (level_array 16384) Std Random 7 w"
  by (intro allI variants_agree) simp

subsection \<open>The unit tests\<close>

text \<open>\<open>n\<close> values below \<open>m\<close>, less \<open>off\<close>, by remainder.\<close>

fun draw_values :: "nat \<Rightarrow> u64 \<Rightarrow> i64 \<Rightarrow> splitmix \<Rightarrow> i64 list \<times> splitmix" where
  "draw_values 0 m off g = ([], g)"
| "draw_values (Suc n) m off g =
     (let (r, g1) = next_u64 g; (xs, g2) = draw_values n m off g1 in ((r mod m - off) # xs, g2))"

definition matches_library :: "i64 list \<Rightarrow> i64 \<Rightarrow> bool" where
  "matches_library arr key \<longleftrightarrow> branchless_lower_bound arr key = Inr (partition_point (\<lambda>v. i64_lt v key) arr)"

fun random_trials :: "nat \<Rightarrow> splitmix \<Rightarrow> bool res" where
  "random_trials 0 g = Inr True"
| "random_trials (Suc n) g =
     res_bind (below 96 g) (\<lambda>(r, g1).
       let (vs, g2) = draw_values (unat (r + 1)) 200 100 g1; arr = sort_key sint vs;
           (keys, g3) = draw_values 24 260 130 g2
       in if list_all (matches_library arr) keys then random_trials n g3 else Inl AssertionFailed)"

definition branchless_lower_bound_matches_partition_point :: bool where
  "branchless_lower_bound_matches_partition_point \<longleftrightarrow>
     random_trials 3000 (splitmix_new 0xBADC0FFEE0DDF00D) = Inr True
     \<and> branchless_lower_bound [] 5 = Inr 0 \<and> branchless_lower_bound [7] 7 = Inr 0
     \<and> branchless_lower_bound [7] 8 = Inr 1"

definition all_variants_agree_on_level_array :: bool where
  "all_variants_agree_on_level_array \<longleftrightarrow>
     list_all (\<lambda>k. let arr = level_array 256; key = of_int k; std = partition_point (\<lambda>v. i64_lt v key) arr
       in branchy_lower_bound arr key = Inr std \<and> branchless_lower_bound arr key = Inr std) [-2..520]"

definition branch_tests :: bool where
  "branch_tests \<longleftrightarrow> branchless_lower_bound_matches_partition_point \<and> all_variants_agree_on_level_array"

lemma sort_key_sint: "sorted_wrt i64_le (sort_key sint xs)"
  using sorted_sort_key [of sint xs] by (simp add: sorted_map i64_le_def [abs_def])

lemma random_trials_pass: "random_trials n g = Inr True"
proof (induction n arbitrary: g)
  case (Suc n)
  have "list_all (matches_library (sort_key sint vs)) keys" for vs keys
    using searches_agree(1) [OF sort_key_sint] by (simp add: matches_library_def list_all_iff)
  then show ?case using Suc by (simp add: below_def Let_def split: prod.split)
qed simp

lemma branch_tests_pass: branch_tests
proof -
  have "sorted_wrt i64_le (level_array 256)" by (rule level_array_sorted) simp
  note agree = searches_agree(1,2) [OF this]
  have "branchless_lower_bound [7] k = Inr (length (filter (\<lambda>v. i64_lt v k) [7]))" for k
    using searches_agree(1,3) [of "[7]" k] by simp
  then show ?thesis
    by (simp add: branch_tests_def branchless_lower_bound_matches_partition_point_def random_trials_pass
        all_variants_agree_on_level_array_def Let_def agree list_all_iff i64_lt_def
        branchless_lower_bound_def [of "[]"] branchless_loop.simps)
qed

end
