(* ===== verification/Depth_Bench.thy ===== *)
theory Depth_Bench
  imports Sustained_Laws Workload
begin

unbundle bit_operations_syntax

section \<open>The depth sweep (bench/src/benches/service.rs)\<close>

text \<open>
  Four operations, timed one by one on books of twelve depths. A closure of the source is a step over the book, the
  random numbers and the running quantity; a step has an untimed part before the timed \<open>apply\<close> and one after it, and
  the warm-up runs the same steps without the clock. The books, the histogram and the clock are parameters, as in the
  sustained benchmark. The printed headline is not modelled.
\<close>

definition SWEEP_MID :: px where "SWEEP_MID = Px 1000000"
definition SWEEP_DEPTHS :: "nat list" where
  "SWEEP_DEPTHS = [1, 2, 4, 8, 16, 32, 64, 128, 256, 512, 1024, 2048]"
definition SWEEP_SEED :: u64 where "SWEEP_SEED = 0xB1A5C0DEF00D1234"
definition HGRM_FALLBACK_DEPTH :: nat where "HGRM_FALLBACK_DEPTH = 256"

record cell_ctx =
  cx_mid :: px
  cx_depth :: nat
  cx_loc :: locality
  cx_samples :: nat
  cx_warmup :: nat

definition next_qty :: "i64 \<Rightarrow> qty \<times> i64" where
  "next_qty q = (let q' = ((q + 1) AND 0x7FFF) OR 1 in (Qty q', q'))"

definition rng_side :: "side rng" where
  "rng_side s = (let (x, s') = next_u64 s in Inr (if x AND 1 = 0 then Bid else Ask, s'))"

definition touch :: "cell_ctx \<Rightarrow> (side \<times> px) rng" where
  "touch cx =
     rng_bind rng_side (\<lambda>sd.
     rng_bind (touch_price (cx_mid cx) (cx_depth cx) sd (cx_loc cx)) (\<lambda>p. rng_return (sd, p)))"

subsection \<open>The four operations\<close>

datatype service_op = Update_Op | Insert_Op | Remove_Op | Trade_Op

fun op_tag :: "service_op \<Rightarrow> string" where
  "op_tag Update_Op = ''update''"
| "op_tag Insert_Op = ''insert''"
| "op_tag Remove_Op = ''remove''"
| "op_tag Trade_Op = ''trade_baseline''"

type_synonym 'b probe = "'b \<times> splitmix \<times> i64"

text \<open>Before the clock: the event to time, and for a removal the level to remove.\<close>

fun prepare ::
  "'b order_book_ops \<Rightarrow> cell_ctx \<Rightarrow> service_op \<Rightarrow> 'b probe \<Rightarrow> ('b \<times> book_event \<times> splitmix \<times> i64) res" where
  "prepare ops cx Update_Op (b, g, q) =
     res_bind (touch cx g) (\<lambda>((sd, p), g').
       let (v, q') = next_qty q in Inr (b, ev_level 0 0 sd p v, g', q'))"
| "prepare ops cx Insert_Op (b, g, q) =
     res_bind (touch cx g) (\<lambda>((sd, p), g').
       let gap = gap_price p sd; (v, q') = next_qty q in Inr (b, ev_level 0 0 sd gap v, g', q'))"
| "prepare ops cx Remove_Op (b, g, q) =
     res_bind (touch cx g) (\<lambda>((sd, p), g').
       let gap = gap_price p sd; (v, q') = next_qty q
       in res_bind (ob_apply ops b (ev_level 0 0 sd gap v)) (\<lambda>b'.
            Inr (b', ev_level 0 0 sd gap qty_zero, g', q')))"
| "prepare ops cx Trade_Op (b, g, q) =
     res_bind (touch cx g) (\<lambda>((sd, p), g'). Inr (b, ev_trade 0 0 sd p (Qty 1), g', q))"

text \<open>After the clock: an inserted level is taken out again.\<close>

fun restore :: "'b order_book_ops \<Rightarrow> service_op \<Rightarrow> book_event \<Rightarrow> 'b \<Rightarrow> 'b res" where
  "restore ops Insert_Op ev b = ob_apply ops b (ev_level 0 0 (ev_side ev) (ev_px ev) qty_zero)"
| "restore ops Update_Op ev b = Inr b"
| "restore ops Remove_Op ev b = Inr b"
| "restore ops Trade_Op ev b = Inr b"

definition warm_step :: "'b order_book_ops \<Rightarrow> cell_ctx \<Rightarrow> service_op \<Rightarrow> 'b probe \<Rightarrow> 'b probe res" where
  "warm_step ops cx op st =
     res_bind (prepare ops cx op st) (\<lambda>(b, ev, g, q).
     res_bind (ob_apply ops b ev) (\<lambda>b'.
     res_bind (restore ops op ev b') (\<lambda>b''. Inr (b'', g, q))))"

definition read_clock :: "('w \<Rightarrow> u64 \<times> 'w) \<Rightarrow> ('w, u64) timed" where
  "read_clock raw w = Some (Inr (raw w))"

definition timed_step ::
  "'b order_book_ops \<Rightarrow> 'h hist_ops \<Rightarrow> (u64 \<Rightarrow> u64 \<Rightarrow> nat) \<Rightarrow> ('w \<Rightarrow> u64 \<times> 'w) \<Rightarrow> cell_ctx \<Rightarrow> service_op
   \<Rightarrow> 'b probe \<times> 'h \<Rightarrow> ('w, 'b probe \<times> 'h) timed" where
  "timed_step ops H delta raw cx op = (\<lambda>(st, h).
     t_bind (t_lift (prepare ops cx op st)) (\<lambda>(b, ev, g, q).
     t_bind (read_clock raw) (\<lambda>t0.
     t_bind (t_lift (ob_apply ops b ev)) (\<lambda>b'.
     t_bind (read_clock raw) (\<lambda>t1.
     t_bind (t_lift (restore ops op ev b')) (\<lambda>b''.
       t_return ((b'', g, q), lat_record H (delta_ns delta t0 t1) h)))))))"

fun t_repeat :: "nat \<Rightarrow> ('s \<Rightarrow> ('w, 's) timed) \<Rightarrow> 's \<Rightarrow> ('w, 's) timed" where
  "t_repeat 0 f s = t_return s"
| "t_repeat (Suc n) f s = t_bind (f s) (t_repeat n f)"

definition measure_op ::
  "'b order_book_ops \<Rightarrow> 'h hist_ops \<Rightarrow> (u64 \<Rightarrow> u64 \<Rightarrow> nat) \<Rightarrow> ('w \<Rightarrow> u64 \<times> 'w) \<Rightarrow> cell_ctx \<Rightarrow> service_op \<Rightarrow> u64 \<Rightarrow> 'b
   \<Rightarrow> ('w, 'b \<times> 'h) timed" where
  "measure_op ops H delta raw cx op seed book =
     t_bind (t_lift (warmup (cx_warmup cx) (\<lambda>r. res_bind r (warm_step ops cx op)) (Inr (book, splitmix_new seed, 1))))
       (\<lambda>st.
     t_bind (t_lift (lat_new H)) (\<lambda>h0.
     t_bind (t_repeat (cx_samples cx) (timed_step ops H delta raw cx op) (st, h0)) (\<lambda>((b, g, q), h).
     t_bind (if op = Trade_Op then t_return None else t_lift (ob_best_bid ops b)) (\<lambda>_. t_return (b, h)))))"

definition op_seeds :: "(service_op \<times> u64) list" where
  "op_seeds = [(Update_Op, 0x1111), (Insert_Op, 0x2222), (Remove_Op, 0x3333), (Trade_Op, 0x4444)]"

text \<open>A cell: every operation on a book of its own, with the recorders in the order of the operations.\<close>

definition sweep_cell ::
  "'b order_book_ops \<Rightarrow> 'h hist_ops \<Rightarrow> (u64 \<Rightarrow> u64 \<Rightarrow> nat) \<Rightarrow> ('w \<Rightarrow> u64 \<times> 'w) \<Rightarrow> cell_ctx \<Rightarrow> u64
   \<Rightarrow> ('w, (service_op \<times> 'h) list) timed" where
  "sweep_cell ops H delta raw cx seed =
     t_map (\<lambda>(op, mask).
       t_bind (t_lift (build_at_depth ops (cx_mid cx) (cx_depth cx))) (\<lambda>book.
       t_bind (measure_op ops H delta raw cx op (seed XOR mask) book) (\<lambda>(b, h). t_return (op, h)))) op_seeds"

definition run_service ::
  "'h hist_ops \<Rightarrow> (u64 \<Rightarrow> u64 \<Rightarrow> nat) \<Rightarrow> ('w \<Rightarrow> u64 \<times> 'w) \<Rightarrow> string \<Rightarrow> cell_ctx \<Rightarrow> u64
   \<Rightarrow> ('w, (service_op \<times> 'h) list) timed" where
  "run_service H delta raw name cx seed =
     (if for_impl name = Some ''btree'' then sweep_cell btree_ops H delta raw cx seed
      else if for_impl name = Some ''sorted'' then sweep_cell sorted_ops H delta raw cx seed
      else if for_impl name = Some ''rev'' then sweep_cell rev_ops H delta raw cx seed
      else if for_impl name = Some ''flat'' then sweep_cell flat_ops H delta raw cx seed
      else t_lift (Inl AssertionFailed))"

subsection \<open>Every timed operation is the one it is named for\<close>

text \<open>The levels a reader sees, and the quantity at a price.\<close>

definition shown :: "'b order_book_ops \<Rightarrow> 'b \<Rightarrow> side \<Rightarrow> level list" where
  "shown ops b s =
     (case ob_top_n ops b s (replicate (ob_depth ops b s) (px_zero, qty_zero)) of
        Inl _ \<Rightarrow> [] | Inr (n, ls) \<Rightarrow> take n ls)"

text \<open>The book has exactly the prices of the ladder.\<close>

definition at_depth :: "'b order_book_ops \<Rightarrow> cell_ctx \<Rightarrow> 'b \<Rightarrow> bool" where
  "at_depth ops cx b \<longleftrightarrow>
     list_all (\<lambda>s. map fst (shown ops b s) = map fst (ladder_at (cx_mid cx) s (cx_depth cx))) [Bid, Ask]"

text \<open>What the timed event \<open>ev\<close> made of book \<open>b\<close>, when \<open>b'\<close> is the book after it.\<close>

fun isolated :: "'b order_book_ops \<Rightarrow> cell_ctx \<Rightarrow> service_op \<Rightarrow> 'b \<times> book_event \<times> 'b \<Rightarrow> bool" where
  "isolated ops cx op (b, ev, b') \<longleftrightarrow>
     (let s = ev_side ev; p = ev_px ev; q = ev_qty ev; before = map_of (shown ops b s); after = map_of (shown ops b' s)
      in shown ops b' (opposite s) = shown ops b (opposite s)
         \<and> (case op of
              Update_Op \<Rightarrow> at_depth ops cx b \<and> at_depth ops cx b' \<and> before p \<noteq> None \<and> after p = Some q
            | Insert_Op \<Rightarrow> at_depth ops cx b \<and> before p = None \<and> after p = Some q
                \<and> length (shown ops b' s) = cx_depth cx + 1
            | Remove_Op \<Rightarrow> before p \<noteq> None \<and> length (shown ops b s) = cx_depth cx + 1 \<and> after p = None
                \<and> at_depth ops cx b'
            | Trade_Op \<Rightarrow> at_depth ops cx b \<and> shown ops b' s = shown ops b s
                \<and> ob_last_trade ops b' = Some (p, q, s)))"

text \<open>The timed events of \<open>n\<close> steps, each with the book before and after it.\<close>

fun timed_events ::
  "'b order_book_ops \<Rightarrow> cell_ctx \<Rightarrow> service_op \<Rightarrow> nat \<Rightarrow> 'b probe \<Rightarrow> ('b \<times> book_event \<times> 'b) list res" where
  "timed_events ops cx op 0 st = Inr []"
| "timed_events ops cx op (Suc n) st =
     res_bind (prepare ops cx op st) (\<lambda>(b, ev, g, q).
     res_bind (ob_apply ops b ev) (\<lambda>b'.
     res_bind (restore ops op ev b') (\<lambda>b''.
     res_map ((#) (b, ev, b')) (timed_events ops cx op n (b'', g, q)))))"

definition warmed :: "'b order_book_ops \<Rightarrow> cell_ctx \<Rightarrow> service_op \<Rightarrow> u64 \<Rightarrow> 'b probe res" where
  "warmed ops cx op seed =
     res_bind (build_at_depth ops (cx_mid cx) (cx_depth cx)) (\<lambda>book.
       warmup (cx_warmup cx) (\<lambda>r. res_bind r (warm_step ops cx op)) (Inr (book, splitmix_new seed, 1)))"

definition isolates :: "'b order_book_ops \<Rightarrow> cell_ctx \<Rightarrow> service_op \<Rightarrow> u64 \<Rightarrow> bool" where
  "isolates ops cx op seed \<longleftrightarrow>
     (case res_bind (warmed ops cx op seed) (timed_events ops cx op (cx_samples cx)) of
        Inl _ \<Rightarrow> False | Inr evs \<Rightarrow> length evs = cx_samples cx \<and> list_all (isolated ops cx op) evs)"

lemma next_qty_nonzero: "fst (next_qty q) \<noteq> qty_zero"
proof -
  have "bit (((q + 1) AND 0x7FFF) OR 1) 0" by (simp add: bit_or_iff)
  then have "((q + 1) AND 0x7FFF) OR 1 \<noteq> 0" by (metis bit_0_eq bot_apply bot_bool_def)
  then show ?thesis by (simp add: next_qty_def Let_def qty_zero_def)
qed

lemma touch_ok:
  assumes "room (cx_mid cx) (cx_depth cx)" and "0 < cx_depth cx"
  shows "rng_ok (\<lambda>(sd, p). \<exists>i \<in> {1..cx_depth cx}. p = side_px (cx_mid cx) sd (of_nat i)) (touch cx)"
  unfolding touch_def
  by (rule rng_ok_bind [where P = "\<lambda>_. True"], simp add: rng_ok_def rng_side_def split: prod.split,
      rule rng_ok_bind [OF touch_price_resident [OF assms]], rule rng_ok_return) (simp del: side_px.simps)


text \<open>The prices of the ladder, on the abstract book.\<close>

definition spec_at_depth :: "cell_ctx \<Rightarrow> spec_book \<Rightarrow> bool" where
  "spec_at_depth cx B \<longleftrightarrow> (\<forall>s. dom (spec_side B s) = fst ` set (ladder_at (cx_mid cx) s (cx_depth cx)))"

lemma best_first_prices:
  "map fst (best_first B s) = (case s of Bid \<Rightarrow> rev (sorted_list_of_set (dom (spec_side B s)))
     | Ask \<Rightarrow> sorted_list_of_set (dom (spec_side B s)))"
  by (cases s) (simp_all add: levels_def rev_map [symmetric] comp_def)

lemma map_of_best_first: "finite (dom (spec_side B s)) \<Longrightarrow> map_of (best_first B s) = spec_side B s"
proof (cases s)
  case Bid
  assume fin: "finite (dom (spec_side B s))"
  have "distinct (map fst (levels (sp_bids B)))"
    using fin Bid by (simp add: levels_def comp_def)
  then show ?thesis using fin Bid map_of_levels [of "sp_bids B"] by (simp add: map_of_rev_distinct)
qed (simp add: map_of_levels)

lemma spec_at_depth_prices:
  assumes "room (cx_mid cx) (cx_depth cx)" and "spec_at_depth cx B"
  shows "map fst (best_first B s) = map fst (ladder_at (cx_mid cx) s (cx_depth cx))"
proof -
  let ?l = "ladder_at (cx_mid cx) s (cx_depth cx)"
  define L where "L = (case s of Bid \<Rightarrow> spec_empty\<lparr>sp_bids := map_of ?l\<rparr> | Ask \<Rightarrow> spec_empty\<lparr>sp_asks := map_of ?l\<rparr>)"
  have L: "spec_side L s = map_of ?l" by (cases s) (simp_all add: L_def)
  have "dom (spec_side B s) = dom (spec_side L s)"
    using assms(2) unfolding L by (simp add: spec_at_depth_def dom_map_of_conv_image_fst)
  then have "map fst (best_first B s) = map fst (best_first L s)" unfolding best_first_prices by (simp only:)
  then show ?thesis using best_first_map [OF assms(1) L] by simp
qed

lemma spec_apply_level:
  "spec_side (spec_apply B (ev_level n t sd p q)) s =
     (if s = sd then ladder_set (spec_side B s) p q else spec_side B s)"
  by (cases s; cases sd) (simp_all add: spec_apply_def ev_level_def)

lemma spec_apply_trade:
  "spec_side (spec_apply B (ev_trade n t sd p q)) s = spec_side B s"
  "sp_last (spec_apply B (ev_trade n t sd p q)) = Some (p, q, sd)"
  by (cases s) (simp_all add: spec_apply_def ev_trade_def)

lemma finite_ladder: "spec_at_depth cx B \<Longrightarrow> finite (dom (spec_side B s))"
  by (simp add: spec_at_depth_def)

text \<open>What a level event does to the abstract book, at a resident price and at a free one.\<close>

lemma spec_update_resident:
  assumes "spec_at_depth cx B" and "spec_side B sd p \<noteq> None" and "q \<noteq> qty_zero"
  shows "spec_at_depth cx (spec_apply B (ev_level 0 0 sd p q))"
  using assms by (auto simp: spec_at_depth_def spec_apply_level domIff)

lemma spec_free:
  assumes "room (cx_mid cx) (cx_depth cx)" and "spec_at_depth cx B" and "spec_side B sd p = None" and "q \<noteq> qty_zero"
  shows "spec_apply (spec_apply B (ev_level 0 0 sd p q)) (ev_level 0 0 sd p qty_zero) = B"
    and "length (best_first (spec_apply B (ev_level 0 0 sd p q)) sd) = cx_depth cx + 1"
    and "finite (dom (spec_side (spec_apply B (ev_level 0 0 sd p q)) s))"
proof -
  note fin = finite_ladder [OF assms(2)]
  have "spec_depth B sd = cx_depth cx"
    using arg_cong [OF spec_at_depth_prices [OF assms(1,2)], of length sd] by (simp add: spec_depth_best_first)
  then show "length (best_first (spec_apply B (ev_level 0 0 sd p q)) sd) = cx_depth cx + 1"
    using spec_insert_remove(2) [OF assms(3,4) fin] by (simp only: spec_depth_best_first)
  show "spec_apply (spec_apply B (ev_level 0 0 sd p q)) (ev_level 0 0 sd p qty_zero) = B"
    by (rule spec_insert_remove(1) [OF assms(3,4)])
  show "finite (dom (spec_side (spec_apply B (ev_level 0 0 sd p q)) s))"
    using fin by (simp add: spec_apply_level assms(4))
qed

lemma ev_sels:
  "ev_side (ev_level n t sd p q) = sd" "ev_px (ev_level n t sd p q) = p" "ev_qty (ev_level n t sd p q) = q"
  "ev_side (ev_trade n t sd p q) = sd" "ev_px (ev_trade n t sd p q) = p" "ev_qty (ev_trade n t sd p q) = q"
  by (simp_all add: ev_defs)

text \<open>A level on one side leaves the ladder of the other.\<close>

lemma best_first_other:
  "best_first (spec_apply B (ev_level n t sd p q)) (opposite sd) = best_first B (opposite sd)"
  "best_first (spec_apply B (ev_trade n t sd p q)) s = best_first B s"
  by (cases sd; cases s; simp add: spec_apply_def ev_defs)+

text \<open>The events of the benchmark are admitted.\<close>

definition ladder_adm :: "(book_event \<Rightarrow> bool) \<Rightarrow> cell_ctx \<Rightarrow> bool" where
  "ladder_adm adm cx \<longleftrightarrow> (\<forall>sd p q. adm (ev_trade 0 0 sd p q))
     \<and> (\<forall>sd q. \<forall>i \<in> {1..cx_depth cx}. adm (ev_level 0 0 sd (side_px (cx_mid cx) sd (of_nat i)) q)
          \<and> adm (ev_level 0 0 sd (gap_price (side_px (cx_mid cx) sd (of_nat i)) sd) q))"

context order_book begin

lemma shown_abs: "inv b \<Longrightarrow> shown ops b s = best_first (abs b) s"
  by (simp add: shown_def top_n_ok depth_ok spec_top_n_def spec_depth_best_first Let_def)

lemma at_depth_abs:
  assumes "room (cx_mid cx) (cx_depth cx)" and "inv b" and "spec_at_depth cx (abs b)"
  shows "at_depth ops cx b"
  using spec_at_depth_prices [OF assms(1,3)] by (simp add: at_depth_def shown_abs [OF assms(2)])

text \<open>One step, for any generator and quantity.\<close>

lemma step_isolated:
  assumes r: "room (cx_mid cx) (cx_depth cx)" and d: "0 < cx_depth cx" and adm: "ladder_adm adm cx"
    and b: "inv b" "spec_at_depth cx (abs b)"
  shows "\<exists>b1 ev g' q' b2 b3. prepare ops cx op (b, g, q) = Inr (b1, ev, g', q') \<and> ob_apply ops b1 ev = Inr b2
    \<and> restore ops op ev b2 = Inr b3 \<and> inv b3 \<and> spec_at_depth cx (abs b3) \<and> isolated ops cx op (b1, ev, b2)"
proof -
  obtain sd p g' i where t: "touch cx g = Inr ((sd, p), g')" "i \<in> {1..cx_depth cx}"
      "p = side_px (cx_mid cx) sd (of_nat i)"
    using rng_okD [OF touch_ok [OF r d], of g] by auto
  obtain v q' where v: "next_qty q = (v, q')" by fastforce
  then have v0: "v \<noteq> qty_zero" using next_qty_nonzero [of q] by simp
  let ?gap = "gap_price p sd" and ?B = "abs b"
  have p: "spec_side ?B sd p \<noteq> None"
  proof -
    have "p \<in> dom (spec_side ?B sd)"
      using b(2) t(2) unfolding spec_at_depth_def ladder_prices t(3) by blast
    then show ?thesis by blast
  qed
  have gap: "spec_side ?B sd ?gap = None"
    using b(2) gap_free [OF r t(2), of sd] t(3) unfolding spec_at_depth_def by (metis domIff)
  have adms: "adm (ev_level 0 0 sd p q)" "adm (ev_level 0 0 sd ?gap q)" "adm (ev_trade 0 0 sd p q)" for q
    using adm t(2,3) unfolding ladder_adm_def by blast+
  note fin = finite_ladder [OF b(2)]
  note shown = shown_abs at_depth_abs [OF r] and free = spec_free [OF r b(2) gap v0]
  show ?thesis
  proof (cases op)
    case Update_Op
    obtain b2 where b2: "ob_apply ops b (ev_level 0 0 sd p v) = Inr b2" "inv b2"
        "abs b2 = spec_apply ?B (ev_level 0 0 sd p v)"
      using apply_ok [OF b(1) adms(1)] by blast
    have at: "spec_at_depth cx (abs b2)" unfolding b2(3) by (rule spec_update_resident [OF b(2) p v0])
    have "isolated ops cx Update_Op (b, ev_level 0 0 sd p v, b2)"
      using p v0 at fin finite_ladder [OF at]
      by (auto simp: shown b b2 map_of_best_first best_first_other spec_apply_level ev_sels)
    then show ?thesis using b2 at by (simp add: Update_Op t(1) v)
  next
    case Insert_Op
    obtain b2 where b2: "ob_apply ops b (ev_level 0 0 sd ?gap v) = Inr b2" "inv b2"
        "abs b2 = spec_apply ?B (ev_level 0 0 sd ?gap v)"
      using apply_ok [OF b(1) adms(2)] by blast
    obtain b3 where b3: "ob_apply ops b2 (ev_level 0 0 sd ?gap qty_zero) = Inr b3" "inv b3" "abs b3 = ?B"
      using apply_ok [OF b2(2) adms(2)] free(1) by (metis b2(3))
    have "isolated ops cx Insert_Op (b, ev_level 0 0 sd ?gap v, b2)"
      using gap free v0 fin by (auto simp: shown b b2 map_of_best_first best_first_other ev_sels spec_apply_level)
    then show ?thesis using b2 b3 b(2) by (simp add: Insert_Op t(1) v ev_sels)
  next
    case Remove_Op
    obtain b1 where b1: "ob_apply ops b (ev_level 0 0 sd ?gap v) = Inr b1" "inv b1"
        "abs b1 = spec_apply ?B (ev_level 0 0 sd ?gap v)"
      using apply_ok [OF b(1) adms(2)] by blast
    obtain b2 where b2: "ob_apply ops b1 (ev_level 0 0 sd ?gap qty_zero) = Inr b2" "inv b2" "abs b2 = ?B"
      using apply_ok [OF b1(2) adms(2)] free(1) by (metis b1(3))
    have "isolated ops cx Remove_Op (b1, ev_level 0 0 sd ?gap qty_zero, b2)"
      using gap free v0 fin b(2) by (auto simp: shown b1 b2 map_of_best_first best_first_other ev_sels spec_apply_level)
    then show ?thesis using b1 b2 b(2) by (simp add: Remove_Op t(1) v)
  next
    case Trade_Op
    obtain b2 where b2: "ob_apply ops b (ev_trade 0 0 sd p (Qty 1)) = Inr b2" "inv b2"
        "abs b2 = spec_apply ?B (ev_trade 0 0 sd p (Qty 1))"
      using apply_ok [OF b(1) adms(3)] by blast
    have "isolated ops cx Trade_Op (b, ev_trade 0 0 sd p (Qty 1), b2)"
      by (auto simp: shown b b2 best_first_other ev_sels last_ok spec_apply_trade)
    moreover have "spec_at_depth cx (abs b2)" using b(2) by (simp add: spec_at_depth_def b2(3) spec_apply_trade)
    ultimately show ?thesis using b2 by (simp add: Trade_Op t(1))
  qed
qed

text \<open>A probe between two steps.\<close>

abbreviation settled :: "cell_ctx \<Rightarrow> 'b probe \<Rightarrow> bool" where
  "settled cx st \<equiv> inv (fst st) \<and> spec_at_depth cx (abs (fst st))"

end

text \<open>A loop of steps that each return keeps what they keep.\<close>

lemma warmup_keeps:
  assumes "\<And>st. P st \<Longrightarrow> \<exists>st'. f st = Inr st' \<and> P st'"
  shows "P st \<Longrightarrow> \<exists>st'. warmup n (\<lambda>r. res_bind r f) (Inr st) = Inr st' \<and> P st'"
proof (induction n arbitrary: st)
  case (Suc n)
  then show ?case using assms [OF Suc.prems] by auto
qed simp

lemma t_repeat_records:
  assumes "\<And>st h w. P st \<Longrightarrow> \<exists>st' d w'. f (st, h) w = Some (Inr ((st', rec d h), w')) \<and> P st'"
  shows "P st \<Longrightarrow> \<exists>st' ds w'. t_repeat n f (st, h) w = Some (Inr ((st', fold rec ds h), w')) \<and> P st' \<and> length ds = n"
proof (induction n arbitrary: st h w)
  case 0
  then show ?case by (simp add: t_return_def)
next
  case (Suc n)
  obtain st' d w' where one: "f (st, h) w = Some (Inr ((st', rec d h), w'))" "P st'"
    using assms [OF Suc.prems] by blast
  obtain st'' ds w'' where "t_repeat n f (st', rec d h) w' = Some (Inr ((st'', fold rec ds (rec d h)), w''))" "P st''"
      "length ds = n"
    using Suc.IH [OF one(2)] by blast
  then show ?case
    by (intro exI [of _ st''] exI [of _ "d # ds"] exI [of _ w'']) (simp add: t_bind_def one(1))
qed

context order_book begin

lemma build_settled:
  assumes r: "room (cx_mid cx) (cx_depth cx)" and adm: "\<forall>ev \<in> set (build_events (cx_mid cx) (cx_depth cx)). adm ev"
  shows "\<exists>b. build_at_depth ops (cx_mid cx) (cx_depth cx) = Inr b \<and> inv b \<and> spec_at_depth cx (abs b)"
proof -
  obtain b where b: "run_book ops (ob_default ops) (build_events (cx_mid cx) (cx_depth cx)) = Inr b" "inv b"
      "abs b = spec_run (build_events (cx_mid cx) (cx_depth cx))"
    by (rule replay_ok [OF adm])
  then show ?thesis
    using room_fits [OF r] by (simp add: build_at_depth_def spec_at_depth_def spec_side_built [OF r] dom_map_of_conv_image_fst)
qed

lemma timed_events_isolated:
  assumes "room (cx_mid cx) (cx_depth cx)" and "0 < cx_depth cx" and "ladder_adm adm cx"
  shows "settled cx st \<Longrightarrow>
    \<exists>evs. timed_events ops cx op n st = Inr evs \<and> length evs = n \<and> list_all (isolated ops cx op) evs"
proof (induction n arbitrary: st)
  case (Suc n)
  obtain b g q where st: "st = (b, g, q)" by (cases st)
  obtain b1 ev g' q' b2 b3 where s: "prepare ops cx op (b, g, q) = Inr (b1, ev, g', q')" "ob_apply ops b1 ev = Inr b2"
      "restore ops op ev b2 = Inr b3" "inv b3" "spec_at_depth cx (abs b3)" "isolated ops cx op (b1, ev, b2)"
    using step_isolated [OF assms, of b op g q] Suc.prems by (auto simp: st)
  then show ?case using Suc.IH [of "(b3, g', q')"] by (auto simp: st simp del: isolated.simps)
qed simp

lemma service_isolated:
  assumes "room (cx_mid cx) (cx_depth cx)" and "0 < cx_depth cx" and "ladder_adm adm cx"
    and "\<forall>ev \<in> set (build_events (cx_mid cx) (cx_depth cx)). adm ev"
  shows "isolates ops cx op seed"
    and "lat_new H = Inr h0 \<Longrightarrow> build_at_depth ops (cx_mid cx) (cx_depth cx) = Inr book \<Longrightarrow>
      \<exists>b ds w'. measure_op ops H delta raw cx op seed book w = Some (Inr ((b, fold (lat_record H) ds h0), w'))
        \<and> length ds = cx_samples cx"
proof -
  obtain bk where bk: "build_at_depth ops (cx_mid cx) (cx_depth cx) = Inr bk" "settled cx (bk, splitmix_new seed, 1)"
    using build_settled [OF assms(1,4)] by auto
  note step = step_isolated [OF assms(1-3)]
  have warm: "\<exists>st'. warm_step ops cx op st = Inr st' \<and> settled cx st'" if "settled cx st" for st
    using step [of "fst st" op "fst (snd st)" "snd (snd st)"] that
    by (cases st) (auto simp: warm_step_def simp del: isolated.simps)
  obtain st where st: "warmup (cx_warmup cx) (\<lambda>r. res_bind r (warm_step ops cx op)) (Inr (bk, splitmix_new seed, 1)) = Inr st"
      "settled cx st"
    using warmup_keeps [where P = "settled cx" and f = "warm_step ops cx op", OF warm bk(2)] by blast
  show "isolates ops cx op seed"
    using timed_events_isolated [OF assms(1-3) st(2), of op "cx_samples cx"]
    by (auto simp: isolates_def warmed_def bk(1) st(1) simp del: isolated.simps)
  have timed: "\<exists>st' d w'. timed_step ops H delta raw cx op (st, h) w = Some (Inr ((st', lat_record H d h), w')) \<and> settled cx st'"
    if "settled cx st" for st h w
  proof -
    obtain b g q where e: "st = (b, g, q)" by (cases st)
    then have P: "inv b" "spec_at_depth cx (abs b)" using that by simp_all
    obtain b1 ev g' q' b2 b3 where s: "prepare ops cx op (b, g, q) = Inr (b1, ev, g', q')" "ob_apply ops b1 ev = Inr b2"
        "restore ops op ev b2 = Inr b3" "inv b3" "spec_at_depth cx (abs b3)"
      using step [OF P] by blast
    obtain t0 w1 t1 w2 where "raw w = (t0, w1)" "raw w1 = (t1, w2)" by fastforce
    then show ?thesis
      using s by (simp add: timed_step_def e read_clock_def t_bind_def t_lift_def t_return_def) metis
  qed
  show "\<exists>b ds w'. measure_op ops H delta raw cx op seed book w = Some (Inr ((b, fold (lat_record H) ds h0), w'))
        \<and> length ds = cx_samples cx"
    if h: "lat_new H = Inr h0" and "build_at_depth ops (cx_mid cx) (cx_depth cx) = Inr book"
  proof -
    have "bk = book" using that(2) bk(1) by simp
    obtain b g q ds w' where loop: "t_repeat (cx_samples cx) (timed_step ops H delta raw cx op) (st, h0) w =
        Some (Inr (((b, g, q), fold (lat_record H) ds h0), w'))" "settled cx (b, g, q)" "length ds = cx_samples cx"
      using t_repeat_records [where P = "settled cx" and f = "timed_step ops H delta raw cx op", OF timed st(2)] by (metis prod_cases3)
    obtain x where x: "(if op = Trade_Op then t_return None else t_lift (ob_best_bid ops b)) w' = Some (Inr (x, w'))"
    proof (cases "op = Trade_Op")
      case True
      then show ?thesis using that [of None] by (simp add: t_return_def)
    next
      case False
      then show ?thesis
        using that [of "spec_best_bid (abs b)"] best_bid_ok [of b] loop(2) by (simp add: t_lift_def)
    qed
    show ?thesis
      using st(1) h \<open>bk = book\<close> loop(3)
      by (simp add: measure_op_def) (auto simp add: t_bind_def loop(1) x t_return_def)
  qed
qed

end

lemma ladder_adm_flat:
  assumes "flat_room (cx_mid cx) (cx_depth cx)"
  shows "ladder_adm (flat_adm (sint (ticks (cx_mid cx)) - 2 * int (cx_depth cx))
    (sint (ticks (cx_mid cx)) + 2 * int (cx_depth cx) + 1)) cx"
proof -
  let ?m = "sint (ticks (cx_mid cx))" and ?d = "int (cx_depth cx)"
  have r: "room (cx_mid cx) (cx_depth cx)" and band: "band_ok (?m - 2 * ?d) (?m + 2 * ?d + 1)"
    using assms by (simp_all add: flat_room_def)
  have bounds: "in_band (?m - 2 * ?d) (?m + 2 * ?d + 1) p \<and> in_band (?m - 2 * ?d) (?m + 2 * ?d + 1) (gap_price p sd)"
    if i: "i \<in> {1..cx_depth cx}" and p: "p = side_px (cx_mid cx) sd (of_nat i)" for sd i p
  proof -
    have s: "sint (ticks p) = ?m + side_off sd (2 * int i)"
      using sint_side_px [OF r, of i sd] i by (simp add: p del: side_px.simps)
    have g: "sint (ticks (gap_price p sd)) = sint (ticks p) - side_off sd 1"
      using sint_add_i64 [of "ticks p" 1] sint_add_i64 [of "ticks p" "- 1"] s r i
      by (cases sd) (simp_all add: room_def)
    show ?thesis using s g i by (cases sd) (simp_all add: in_band_def del: gap_price.simps)
  qed
  then show ?thesis using band by (simp add: ladder_adm_def flat_adm_def ev_defs del: side_px.simps)
qed

text \<open>
  Property C20: the depth sweep times what it says, at the depth it says. On all four implementations, with room for
  the prices, no build, warm-up or timed step of a cell panics; every timed update replaces the quantity of a
  resident level and leaves all prices as they are; every timed insertion adds a level that was not there to a
  book of exactly the cell's depth; every timed removal takes one away and leaves that depth; every baseline trade
  leaves the ladders alone.
\<close>
theorem service_times_its_ops:
  assumes "flat_room (cx_mid cx) (cx_depth cx)" and "0 < cx_depth cx"
  shows "isolates btree_ops cx op seed \<and> isolates sorted_ops cx op seed
    \<and> isolates rev_ops cx op seed \<and> isolates flat_ops cx op seed"
proof -
  have r: "room (cx_mid cx) (cx_depth cx)" using assms(1) by (simp add: flat_room_def)
  have all: "ladder_adm (\<lambda>_. True) cx" by (simp add: ladder_adm_def)
  show ?thesis
    using builders_in_band [OF assms(1)]
    by (auto intro!: btree.service_isolated(1) [OF r assms(2) all] sorted.service_isolated(1) [OF r assms(2) all]
        rev.service_isolated(1) [OF r assms(2) all] flat.service_isolated(1) [OF r assms(2) ladder_adm_flat [OF assms(1)]])
qed

theorem service_times_its_ops_witness:
  "isolates btree_ops \<lparr>cx_mid = SWEEP_MID, cx_depth = 2048, cx_loc = Uniform, cx_samples = 1000000, cx_warmup = 100000\<rparr>
      Remove_Op 7
   \<and> isolates flat_ops \<lparr>cx_mid = SWEEP_MID, cx_depth = 2048, cx_loc = Uniform, cx_samples = 1000000, cx_warmup = 100000\<rparr>
      Remove_Op 7"
  using service_times_its_ops [of "\<lparr>cx_mid = SWEEP_MID, cx_depth = 2048, cx_loc = Uniform, cx_samples = 1000000,
      cx_warmup = 100000\<rparr>" Remove_Op 7]
  by (simp add: SWEEP_MID_def flat_room_def room_def band_ok_def MAX_SPAN_def)

text \<open>The recorder of an operation holds one value for each of its samples.\<close>

fun cell_recorded :: "'h hist_ops \<Rightarrow> 'h \<Rightarrow> nat \<Rightarrow> service_op \<times> u64 \<Rightarrow> service_op \<times> 'h \<Rightarrow> bool" where
  "cell_recorded H h0 n (op, u) (op', h) \<longleftrightarrow> op' = op \<and> (\<exists>ds. length ds = n \<and> h = fold (lat_record H) ds h0)"

lemma t_map_each:
  assumes "\<And>x w. \<exists>a w'. f x w = Some (Inr (a, w')) \<and> P x a"
  shows "\<exists>as w'. t_map f xs w = Some (Inr (as, w')) \<and> list_all2 P xs as"
proof (induction xs arbitrary: w)
  case (Cons x xs)
  obtain a w1 where "f x w = Some (Inr (a, w1))" "P x a" using assms by blast
  moreover obtain as w2 where "t_map f xs w1 = Some (Inr (as, w2))" "list_all2 P xs as" using Cons.IH by blast
  ultimately show ?case by (auto simp: t_bind_def t_return_def)
qed (simp add: t_return_def)

context order_book begin

lemma sweep_cell_records:
  assumes "room (cx_mid cx) (cx_depth cx)" and "0 < cx_depth cx" and "ladder_adm adm cx"
    and "\<forall>ev \<in> set (build_events (cx_mid cx) (cx_depth cx)). adm ev" and h: "lat_new H = Inr h0"
  shows "\<exists>rs w'. sweep_cell ops H delta raw cx seed w = Some (Inr (rs, w'))
    \<and> list_all2 (cell_recorded H h0 (cx_samples cx)) op_seeds rs"
  unfolding sweep_cell_def
proof (rule t_map_each)
  fix x :: "service_op \<times> u64" and w
  obtain op m where x: "x = (op, m)" by fastforce
  obtain book where b: "build_at_depth ops (cx_mid cx) (cx_depth cx) = Inr book"
    using build_settled [OF assms(1,4)] by blast
  obtain b' ds w' where "measure_op ops H delta raw cx op (seed XOR m) book w = Some (Inr ((b', fold (lat_record H) ds h0), w'))"
      "length ds = cx_samples cx"
    using service_isolated(2) [OF assms(1-4) h b] by metis
  then show "\<exists>a w'. (case x of (op, m) \<Rightarrow>
      t_bind (t_lift (build_at_depth ops (cx_mid cx) (cx_depth cx))) (\<lambda>book.
      t_bind (measure_op ops H delta raw cx op (seed XOR m) book) (\<lambda>(b, h). t_return (op, h)))) w = Some (Inr (a, w'))
    \<and> cell_recorded H h0 (cx_samples cx) x a"
    by (auto simp: x b t_bind_def t_return_def)
qed

end

lemma service_cell_records:
  assumes "flat_room (cx_mid cx) (cx_depth cx)" and "0 < cx_depth cx" and "lat_new H = Inr h0" and "name \<in> set IMPLS"
  shows "\<exists>rs w'. run_service H delta raw name cx seed w = Some (Inr (rs, w'))
    \<and> list_all2 (cell_recorded H h0 (cx_samples cx)) op_seeds rs"
proof -
  have r: "room (cx_mid cx) (cx_depth cx)" using assms(1) by (simp add: flat_room_def)
  have all: "ladder_adm (\<lambda>_. True) cx" by (simp add: ladder_adm_def)
  have flat: "\<forall>ev \<in> set (build_events (cx_mid cx) (cx_depth cx)).
      flat_adm (sint (ticks (cx_mid cx)) - 2 * int (cx_depth cx)) (sint (ticks (cx_mid cx)) + 2 * int (cx_depth cx) + 1) ev"
    using builders_in_band [OF assms(1)] by blast
  note sweeps = btree.sweep_cell_records [OF r assms(2) all _ assms(3), simplified]
    sorted.sweep_cell_records [OF r assms(2) all _ assms(3), simplified]
    rev.sweep_cell_records [OF r assms(2) all _ assms(3), simplified]
    flat.sweep_cell_records [OF r assms(2) ladder_adm_flat [OF assms(1)] flat assms(3)]
  consider "name = ''btree''" | "name = ''sorted''" | "name = ''rev''" | "name = ''flat''"
    using assms(4) by (auto simp: IMPLS_def)
  then show ?thesis
  proof cases
    case 1
    have "run_service H delta raw name cx seed = sweep_cell btree_ops H delta raw cx seed"
      by (simp add: 1 run_service_def for_impl_def IMPLS_def)
    then show ?thesis using sweeps(1) by simp
  next
    case 2
    have "run_service H delta raw name cx seed = sweep_cell sorted_ops H delta raw cx seed"
      by (simp add: 2 run_service_def for_impl_def IMPLS_def)
    then show ?thesis using sweeps(2) by simp
  next
    case 3
    have "run_service H delta raw name cx seed = sweep_cell rev_ops H delta raw cx seed"
      by (simp add: 3 run_service_def for_impl_def IMPLS_def)
    then show ?thesis using sweeps(3) by simp
  next
    case 4
    have "run_service H delta raw name cx seed = sweep_cell flat_ops H delta raw cx seed"
      by (simp add: 4 run_service_def for_impl_def IMPLS_def)
    then show ?thesis using sweeps(4) by simp
  qed
qed

subsection \<open>Rows, the crossover and the files\<close>

record service_row =
  v_impl :: string
  v_loc :: locality
  v_depth :: nat
  v_op :: string
  v_samples :: u64
  v_overhead :: u64
  v_mean :: f64
  v_p50 :: u64
  v_p90 :: u64
  v_p99 :: u64
  v_p999 :: u64
  v_max :: u64

definition service_row_of :: "'h hist_ops \<Rightarrow> string \<Rightarrow> locality \<Rightarrow> nat \<Rightarrow> u64 \<Rightarrow> service_op \<times> 'h \<Rightarrow> service_row" where
  "service_row_of H name loc depth overhead = (\<lambda>(op, h).
     \<lparr>v_impl = name, v_loc = loc, v_depth = depth, v_op = op_tag op, v_samples = lat_count H h, v_overhead = overhead,
      v_mean = lat_mean H h, v_p50 = lat_p H h (f64_lit (1 / 2)), v_p90 = lat_p H h (f64_lit (9 / 10)),
      v_p99 = lat_p H h (f64_lit (99 / 100)), v_p999 = lat_p H h (f64_lit (999 / 1000)), v_max = lat_max H h\<rparr>)"

fun loc_bit :: "locality \<Rightarrow> u64" where
  "loc_bit Concentrated = 0"
| "loc_bit Uniform = 1"

definition cell_seed :: "nat \<Rightarrow> locality \<Rightarrow> nat \<Rightarrow> u64" where
  "cell_seed impl_idx loc depth =
     ((SWEEP_SEED XOR (of_nat impl_idx * 0x9E3779B9)) XOR push_bit 40 (loc_bit loc)) XOR (of_nat depth * 0x10000001)"

record depth_opts =
  do_samples :: nat
  do_warmup :: nat
  do_core :: nat
  do_out :: string

text \<open>The arguments after a flag are its value, also when the value does not parse.\<close>

fun depth_args :: "depth_opts \<Rightarrow> string list \<Rightarrow> depth_opts" where
  "depth_args o' [] = o'"
| "depth_args o' [a] = o'"
| "depth_args o' (a # v # rest) =
     (if a = ''--samples'' then
        depth_args (o'\<lparr>do_samples := (case parse_usize (codes v) of None \<Rightarrow> do_samples o' | Some n \<Rightarrow> n)\<rparr>) rest
      else if a = ''--warmup'' then
        depth_args (o'\<lparr>do_warmup := (case parse_usize (codes v) of None \<Rightarrow> do_warmup o' | Some n \<Rightarrow> n)\<rparr>) rest
      else if a = ''--core'' then
        depth_args (o'\<lparr>do_core := (case parse_usize (codes v) of None \<Rightarrow> do_core o' | Some n \<Rightarrow> n)\<rparr>) rest
      else if a = ''--out'' then depth_args (o'\<lparr>do_out := v\<rparr>) rest
      else depth_args o' (v # rest))"

definition depth_defaults :: "string \<Rightarrow> depth_opts" where
  "depth_defaults out = \<lparr>do_samples = 1000000, do_warmup = 100000, do_core = 0, do_out = out\<rparr>"

text \<open>The cells in the order of the three loops; with the rows, the update recorder of every cell.\<close>

definition service_cells :: "(locality \<times> (nat \<times> string) \<times> nat) list" where
  "service_cells = List.product [Concentrated, Uniform] (List.product (enumerate 0 IMPLS) SWEEP_DEPTHS)"

definition service_cell ::
  "'h hist_ops \<Rightarrow> (u64 \<Rightarrow> u64 \<Rightarrow> nat) \<Rightarrow> ('w \<Rightarrow> u64 \<times> 'w) \<Rightarrow> depth_opts \<Rightarrow> u64 \<Rightarrow> locality \<times> (nat \<times> string) \<times> nat
   \<Rightarrow> ('w, service_row list \<times> (string \<times> locality \<times> nat) \<times> 'h) timed" where
  "service_cell H delta raw o' overhead = (\<lambda>(loc, (idx, name), depth).
     t_bind (run_service H delta raw name
         \<lparr>cx_mid = SWEEP_MID, cx_depth = depth, cx_loc = loc, cx_samples = do_samples o', cx_warmup = do_warmup o'\<rparr>
         (cell_seed idx loc depth)) (\<lambda>rs.
       t_return (map (service_row_of H name loc depth overhead) rs, (name, loc, depth), snd (hd rs))))"

definition service_run ::
  "'h hist_ops \<Rightarrow> (u64 \<Rightarrow> u64 \<Rightarrow> nat) \<Rightarrow> ('w \<Rightarrow> u64 \<times> 'w) \<Rightarrow> depth_opts
   \<Rightarrow> ('w, service_row list \<times> ((string \<times> locality \<times> nat) \<times> 'h) list) timed" where
  "service_run H delta raw o' =
     t_bind (\<lambda>w. let (r, w') = measure_overhead delta raw w in t_lift r w') (\<lambda>overhead.
     t_bind (t_map (service_cell H delta raw o' overhead) service_cells) (\<lambda>cells.
       t_return (concat (map fst cells), map snd cells)))"

definition service_row_cells :: "service_row \<Rightarrow> string list" where
  "service_row_cells r =
     [v_impl r, locality_tag (v_loc r), show_u64 (of_nat (v_depth r)), v_op r, show_u64 (v_samples r),
      show_u64 (v_overhead r), show_fixed 1 (v_mean r), show_u64 (v_p50 r), show_u64 (v_p90 r), show_u64 (v_p99 r),
      show_u64 (v_p999 r), show_u64 (v_max r)]"

definition service_csv :: "service_row list \<Rightarrow> string" where
  "service_csv rows = csv_text (csv_header ''service_sweep.csv'') (map service_row_cells rows)"

definition update_row :: "service_row list \<Rightarrow> string \<Rightarrow> locality \<Rightarrow> nat \<Rightarrow> service_row option" where
  "update_row rows name loc depth =
     List.find (\<lambda>r. v_op r = ''update'' \<and> v_impl r = name \<and> v_loc r = loc \<and> v_depth r = depth) rows"

definition update_p50 :: "service_row list \<Rightarrow> string \<Rightarrow> locality \<Rightarrow> nat \<Rightarrow> u64 option" where
  "update_p50 rows name loc depth = map_option v_p50 (update_row rows name loc depth)"

definition update_p99 :: "service_row list \<Rightarrow> string \<Rightarrow> locality \<Rightarrow> nat \<Rightarrow> u64 option" where
  "update_p99 rows name loc depth = map_option v_p99 (update_row rows name loc depth)"

definition rev_over_sorted :: "service_row list \<Rightarrow> locality \<Rightarrow> nat \<Rightarrow> bool" where
  "rev_over_sorted rows loc d =
     (case (update_p50 rows ''rev'' loc d, update_p50 rows ''sorted'' loc d) of
        (Some r, Some s) \<Rightarrow> s < r | _ \<Rightarrow> False)"

fun crossover_scan :: "(nat \<Rightarrow> bool) \<Rightarrow> nat list \<Rightarrow> nat option \<Rightarrow> nat option" where
  "crossover_scan over [] dstar = dstar"
| "crossover_scan over (d # ds) dstar = (if over d then crossover_scan over ds (Some d) else dstar)"

definition crossover_depth :: "service_row list \<Rightarrow> locality \<Rightarrow> nat option" where
  "crossover_depth rows loc = crossover_scan (rev_over_sorted rows loc) (rev SWEEP_DEPTHS) None"

text \<open>The histograms to export for a locality, and the crossover to report.\<close>

definition hgrm_name :: "string \<Rightarrow> locality \<Rightarrow> nat \<Rightarrow> string" where
  "hgrm_name name loc d =
     ''service_update_'' @ name @ ''_'' @ locality_tag loc @ ''_d'' @ show_u64 (of_nat d) @ ''.hgrm''"

definition exports ::
  "service_row list \<Rightarrow> ((string \<times> locality \<times> nat) \<times> 'h) list \<Rightarrow> locality \<Rightarrow> (string \<times> 'h) list" where
  "exports rows recs loc =
     (let d = (case crossover_depth rows loc of None \<Rightarrow> HGRM_FALLBACK_DEPTH | Some d \<Rightarrow> d)
      in map (\<lambda>((name, l, depth), h). (hgrm_name name loc d, h)) (filter (\<lambda>((name, l, depth), h). l = loc \<and> depth = d) recs))"

definition prev_depth :: "nat \<Rightarrow> nat option" where
  "prev_depth depth =
     (case index_of depth SWEEP_DEPTHS of None \<Rightarrow> None
      | Some i \<Rightarrow> if i = 0 then None else Some (SWEEP_DEPTHS ! (i - 1)))"

text \<open>The depths from which on the predicate holds.\<close>

definition persistent :: "(nat \<Rightarrow> bool) \<Rightarrow> nat list \<Rightarrow> nat set" where
  "persistent over ds = {D \<in> set ds. \<forall>d \<in> set ds. D \<le> d \<longrightarrow> over d}"

lemma crossover_scan_min:
  "sorted_wrt (>) ds \<Longrightarrow> (\<forall>d \<in> set ds. d < D) \<Longrightarrow>
   crossover_scan over ds (Some D) = Some (Min (insert D (persistent over ds)))"
proof (induction ds arbitrary: D)
  case (Cons d ds)
  have less: "\<forall>e \<in> set ds. e < d" and d: "d < D" using Cons.prems by auto
  show ?case
  proof (cases "over d")
    case True
    have p: "persistent over (d # ds) = insert d (persistent over ds)"
      using True less by (force simp: persistent_def)
    have fin: "finite (persistent over ds)" by (simp add: persistent_def)
    then have "Min (insert d (persistent over ds)) \<le> d" by (intro Min_le) simp_all
    then have "min D (Min (insert d (persistent over ds))) = Min (insert d (persistent over ds))" using d by simp
    moreover have "Min (insert D (insert d (persistent over ds))) = min D (Min (insert d (persistent over ds)))"
      using fin by (intro Min_insert) simp_all
    ultimately have "Min (insert D (insert d (persistent over ds))) = Min (insert d (persistent over ds))" by simp
    then show ?thesis using True Cons.IH [of d] Cons.prems(1) less by (simp add: p)
  next
    case False
    then have "persistent over (d # ds) = {}" using less by (force simp: persistent_def)
    then show ?thesis using False by simp
  qed
qed (simp add: persistent_def)

text \<open>
  Property C21: the crossover that the sweep reports is persistent: it is the least swept depth from which on the linear scan
  is slower at every swept depth, and none is reported only if there is no such depth.
\<close>
theorem crossover_is_least:
  "crossover_depth rows loc =
     (let P = persistent (rev_over_sorted rows loc) SWEEP_DEPTHS in if P = {} then None else Some (Min P))"
proof -
  let ?over = "rev_over_sorted rows loc" and ?ds = "rev SWEEP_DEPTHS"
  have sorted: "sorted_wrt (>) ?ds" by (simp add: SWEEP_DEPTHS_def)
  obtain d ds where ds: "?ds = d # ds" by (simp add: SWEEP_DEPTHS_def)
  have less: "\<forall>e \<in> set ds. e < d" and s: "sorted_wrt (>) ds" using sorted by (simp_all add: ds)
  have set: "persistent ?over SWEEP_DEPTHS = persistent ?over (d # ds)"
    unfolding persistent_def set_rev [of SWEEP_DEPTHS, symmetric] ds ..
  show ?thesis
  proof (cases "?over d")
    case True
    then have "persistent ?over (d # ds) = insert d (persistent ?over ds)"
      using less by (force simp: persistent_def)
    then show ?thesis using True crossover_scan_min [OF s less] by (simp add: crossover_depth_def ds set)
  next
    case False
    then have "persistent ?over (d # ds) = {}" using less by (force simp: persistent_def)
    then show ?thesis using False by (simp add: crossover_depth_def ds set)
  qed
qed

end
