(* ===== verification/Read_Bench.thy ===== *)
theory Read_Bench
  imports Depth_Bench
begin

section \<open>Reads, replays and memory (bench/src/benches/read.rs, throughput.rs, flat_memory.rs)\<close>

text \<open>
  Three reads of a book at every depth, the median time of whole replays, and the span that the flat array
  allocates, with the CSVs. The printed headlines are not modelled. \<open>corpora\<close> is \<open>Corpus::load\<close> on the
  file of a tag; a corpus that does not load is skipped.
\<close>

subsection \<open>The read path\<close>

definition TOP_N_8 :: nat where "TOP_N_8 = 8"

datatype read_op = Best_Bid_Read | Top_8_Read | Top_Full_Read

fun read_tag :: "read_op \<Rightarrow> string" where
  "read_tag Best_Bid_Read = ''best_bid''"
| "read_tag Top_8_Read = ''top_n_8''"
| "read_tag Top_Full_Read = ''top_n_full''"

text \<open>A read of a book, with the buffer it writes to.\<close>

type_synonym 'b book_reader = "'b \<Rightarrow> level list \<Rightarrow> level list res"

definition read_best :: "'b order_book_ops \<Rightarrow> 'b book_reader" where
  "read_best ops b buf = res_map (\<lambda>_. buf) (ob_best_bid ops b)"

definition read_top :: "'b order_book_ops \<Rightarrow> 'b book_reader" where
  "read_top ops b buf = res_map snd (ob_top_n ops b Bid buf)"

definition timed_read ::
  "'b book_reader \<Rightarrow> 'h hist_ops \<Rightarrow> (u64 \<Rightarrow> u64 \<Rightarrow> nat) \<Rightarrow> ('w \<Rightarrow> u64 \<times> 'w) \<Rightarrow> 'b \<Rightarrow> level list \<times> 'h
   \<Rightarrow> ('w, level list \<times> 'h) timed" where
  "timed_read rd H delta raw b = (\<lambda>(buf, h).
     t_bind (read_clock raw) (\<lambda>t0.
     t_bind (t_lift (rd b buf)) (\<lambda>buf'.
     t_bind (read_clock raw) (\<lambda>t1.
       t_return (buf', lat_record H (delta_ns delta t0 t1) h)))))"

definition measure_read ::
  "'b book_reader \<Rightarrow> 'h hist_ops \<Rightarrow> (u64 \<Rightarrow> u64 \<Rightarrow> nat) \<Rightarrow> ('w \<Rightarrow> u64 \<times> 'w) \<Rightarrow> cell_ctx \<Rightarrow> 'b \<Rightarrow> level list
   \<Rightarrow> ('w, level list \<times> 'h) timed" where
  "measure_read rd H delta raw cx b buf =
     t_bind (t_lift (warmup (cx_warmup cx) (\<lambda>r. res_bind r (rd b)) (Inr buf))) (\<lambda>buf'.
     t_bind (t_lift (lat_new H)) (\<lambda>h0.
       t_repeat (cx_samples cx) (timed_read rd H delta raw b) (buf', h0)))"

text \<open>A cell: one book for the three reads, a buffer each for the two that copy levels.\<close>

definition read_cell ::
  "'b order_book_ops \<Rightarrow> 'h hist_ops \<Rightarrow> (u64 \<Rightarrow> u64 \<Rightarrow> nat) \<Rightarrow> ('w \<Rightarrow> u64 \<times> 'w) \<Rightarrow> cell_ctx
   \<Rightarrow> ('w, (read_op \<times> level list \<times> 'h) list) timed" where
  "read_cell ops H delta raw cx =
     t_bind (t_lift (build_at_depth ops (cx_mid cx) (cx_depth cx))) (\<lambda>b.
       t_map (\<lambda>(op, rd, buf). t_bind (measure_read rd H delta raw cx b buf) (\<lambda>r. t_return (op, r)))
         [(Best_Bid_Read, read_best ops, []),
          (Top_8_Read, read_top ops, replicate TOP_N_8 (Px 0, Qty 0)),
          (Top_Full_Read, read_top ops, replicate (cx_depth cx) (Px 0, Qty 0))])"

definition run_read ::
  "'h hist_ops \<Rightarrow> (u64 \<Rightarrow> u64 \<Rightarrow> nat) \<Rightarrow> ('w \<Rightarrow> u64 \<times> 'w) \<Rightarrow> string \<Rightarrow> cell_ctx
   \<Rightarrow> ('w, (read_op \<times> level list \<times> 'h) list) timed" where
  "run_read H delta raw name cx =
     (if for_impl name = Some ''btree'' then read_cell btree_ops H delta raw cx
      else if for_impl name = Some ''sorted'' then read_cell sorted_ops H delta raw cx
      else if for_impl name = Some ''rev'' then read_cell rev_ops H delta raw cx
      else if for_impl name = Some ''flat'' then read_cell flat_ops H delta raw cx
      else t_lift (Inl AssertionFailed))"

record read_row =
  d_impl :: string
  d_depth :: nat
  d_op :: string
  d_samples :: u64
  d_overhead :: u64
  d_mean :: f64
  d_p50 :: u64
  d_p99 :: u64
  d_p999 :: u64
  d_max :: u64

definition read_row_of :: "'h hist_ops \<Rightarrow> string \<Rightarrow> nat \<Rightarrow> u64 \<Rightarrow> read_op \<times> level list \<times> 'h \<Rightarrow> read_row" where
  "read_row_of H name depth overhead = (\<lambda>(op, buf, h).
     \<lparr>d_impl = name, d_depth = depth, d_op = read_tag op, d_samples = lat_count H h, d_overhead = overhead,
      d_mean = lat_mean H h, d_p50 = lat_p H h (f64_lit (1 / 2)), d_p99 = lat_p H h (f64_lit (99 / 100)),
      d_p999 = lat_p H h (f64_lit (999 / 1000)), d_max = lat_max H h\<rparr>)"

text \<open>The locality plays no part in a read.\<close>

definition read_rows ::
  "'h hist_ops \<Rightarrow> (u64 \<Rightarrow> u64 \<Rightarrow> nat) \<Rightarrow> ('w \<Rightarrow> u64 \<times> 'w) \<Rightarrow> depth_opts \<Rightarrow> ('w, read_row list) timed" where
  "read_rows H delta raw o' =
     t_bind (\<lambda>w. let (r, w') = measure_overhead delta raw w in t_lift r w') (\<lambda>overhead.
     t_bind (t_map (\<lambda>(name, depth).
         t_bind (run_read H delta raw name \<lparr>cx_mid = SWEEP_MID, cx_depth = depth, cx_loc = Uniform,
             cx_samples = do_samples o', cx_warmup = do_warmup o'\<rparr>) (\<lambda>rs.
           t_return (map (read_row_of H name depth overhead) rs)))
         (List.product IMPLS SWEEP_DEPTHS)) (\<lambda>rows.
       t_return (concat rows)))"

definition read_row_cells :: "read_row \<Rightarrow> string list" where
  "read_row_cells r =
     [d_impl r, show_u64 (of_nat (d_depth r)), d_op r, show_u64 (d_samples r), show_u64 (d_overhead r),
      show_fixed 1 (d_mean r), show_u64 (d_p50 r), show_u64 (d_p99 r), show_u64 (d_p999 r), show_u64 (d_max r)]"

definition read_csv :: "read_row list \<Rightarrow> string" where
  "read_csv rows = csv_text (csv_header ''read_path.csv'') (map read_row_cells rows)"

definition best_bid_p50 :: "read_row list \<Rightarrow> string \<Rightarrow> nat \<Rightarrow> u64 option" where
  "best_bid_p50 rows name depth =
     map_option d_p50 (List.find (\<lambda>r. d_op r = ''best_bid'' \<and> d_impl r = name \<and> d_depth r = depth) rows)"

subsection \<open>Replays\<close>

text \<open>One replay into a fresh book, under one pair of clock readings; the two queries after it are not timed.\<close>

definition timed_replay ::
  "'b order_book_ops \<Rightarrow> (u64 \<Rightarrow> u64 \<Rightarrow> nat) \<Rightarrow> ('w \<Rightarrow> u64 \<times> 'w) \<Rightarrow> book_event list \<Rightarrow> ('w, u64) timed" where
  "timed_replay ops delta raw events =
     t_bind (read_clock raw) (\<lambda>t0.
     t_bind (t_lift (run_book ops (ob_default ops) events)) (\<lambda>b.
     t_bind (read_clock raw) (\<lambda>t1.
     t_bind (t_lift (ob_best_bid ops b)) (\<lambda>_. t_return (delta_ns delta t0 t1)))))"

definition replay_median ::
  "'b order_book_ops \<Rightarrow> (u64 \<Rightarrow> u64 \<Rightarrow> nat) \<Rightarrow> ('w \<Rightarrow> u64 \<times> 'w) \<Rightarrow> book_event list \<Rightarrow> nat \<Rightarrow> ('w, u64) timed" where
  "replay_median ops delta raw events runs =
     t_bind (t_lift (res_bind (run_book ops (ob_default ops) events) (ob_best_bid ops))) (\<lambda>_.
     t_bind (t_map (\<lambda>_. timed_replay ops delta raw events) [0..<runs]) (\<lambda>totals.
       t_lift (vec_get (sort totals) (length totals div 2))))"

definition run_replay ::
  "(u64 \<Rightarrow> u64 \<Rightarrow> nat) \<Rightarrow> ('w \<Rightarrow> u64 \<times> 'w) \<Rightarrow> string \<Rightarrow> book_event list \<Rightarrow> nat \<Rightarrow> ('w, u64) timed" where
  "run_replay delta raw name events runs =
     (if for_impl name = Some ''btree'' then replay_median btree_ops delta raw events runs
      else if for_impl name = Some ''sorted'' then replay_median sorted_ops delta raw events runs
      else if for_impl name = Some ''rev'' then replay_median rev_ops delta raw events runs
      else if for_impl name = Some ''flat'' then replay_median flat_ops delta raw events runs
      else t_lift (Inl AssertionFailed))"

record replay_row =
  th_impl :: string
  th_corpus :: string
  th_events :: nat
  th_runs :: nat
  th_total :: u64
  th_eps :: f64
  th_npe :: f64

definition replay_row_of :: "string \<Rightarrow> string \<Rightarrow> nat \<Rightarrow> nat \<Rightarrow> u64 \<Rightarrow> replay_row" where
  "replay_row_of name corpus n runs ns =
     \<lparr>th_impl = name, th_corpus = corpus, th_events = n, th_runs = runs, th_total = ns,
      th_eps = (if ns = 0 then INFINITY
        else f64_div (f64_mul (f64_of_nat n) (f64_lit 1000000000)) (f64_of_nat (unat ns))),
      th_npe = (if ns = 0 then f64_lit 0 else f64_div (f64_of_nat (unat ns)) (f64_of_nat n))\<rparr>"

definition REPLAY_CORPORA :: "string list" where
  "REPLAY_CORPORA = [''steady'', ''burst'', ''flashcrash'', ''btcusdt-sample'']"

record replay_opts =
  ro_runs :: nat
  ro_core :: nat
  ro_out :: string

fun replay_args :: "replay_opts \<Rightarrow> string list \<Rightarrow> replay_opts" where
  "replay_args o' [] = o'\<lparr>ro_runs := max 1 (ro_runs o')\<rparr>"
| "replay_args o' [a] = o'\<lparr>ro_runs := max 1 (ro_runs o')\<rparr>"
| "replay_args o' (a # v # rest) =
     (if a = ''--runs'' then
        replay_args (o'\<lparr>ro_runs := (case parse_usize (codes v) of None \<Rightarrow> ro_runs o' | Some n \<Rightarrow> n)\<rparr>) rest
      else if a = ''--core'' then
        replay_args (o'\<lparr>ro_core := (case parse_usize (codes v) of None \<Rightarrow> ro_core o' | Some n \<Rightarrow> n)\<rparr>) rest
      else if a = ''--out'' then replay_args (o'\<lparr>ro_out := v\<rparr>) rest
      else replay_args o' (v # rest))"

definition replay_rows ::
  "(u64 \<Rightarrow> u64 \<Rightarrow> nat) \<Rightarrow> ('w \<Rightarrow> u64 \<times> 'w) \<Rightarrow> (string \<Rightarrow> book_event list option) \<Rightarrow> replay_opts
   \<Rightarrow> ('w, replay_row list) timed" where
  "replay_rows delta raw corpora o' =
     t_bind (\<lambda>w. let (r, w') = measure_overhead delta raw w in t_lift r w') (\<lambda>_.
     t_bind (t_map (\<lambda>tag. case corpora tag of
           None \<Rightarrow> t_return []
         | Some events \<Rightarrow> t_map (\<lambda>name. t_bind (run_replay delta raw name events (ro_runs o')) (\<lambda>ns.
             t_return (replay_row_of name tag (length events) (ro_runs o') ns))) IMPLS) REPLAY_CORPORA) (\<lambda>rows.
       t_return (concat rows)))"

text \<open>No figure reads \<open>throughput.csv\<close> and \<open>flat_memory.csv\<close>, so their header lines are here.\<close>

definition replay_csv :: "replay_row list \<Rightarrow> string" where
  "replay_csv rows = csv_text ''impl,corpus,events,runs,total_ns_median,events_per_sec,ns_per_event''
     (map (\<lambda>r. [th_impl r, th_corpus r, show_u64 (of_nat (th_events r)), show_u64 (of_nat (th_runs r)),
        show_u64 (th_total r), show_fixed 0 (th_eps r), show_fixed 2 (th_npe r)]) rows)"

subsection \<open>The memory of the flat array\<close>

record memory_row =
  mr_config :: string
  mr_key :: string
  mr_span :: nat
  mr_bytes :: nat

definition bytes_for :: "nat \<Rightarrow> nat" where "bytes_for width = 2 * width * 8"

definition memory_row_of :: "string \<Rightarrow> string \<Rightarrow> flat_book \<Rightarrow> memory_row" where
  "memory_row_of config key b =
     (let width = allocated_span_ticks b
      in \<lparr>mr_config = config, mr_key = key, mr_span = width, mr_bytes = bytes_for width\<rparr>)"

fun service_memory :: "nat list \<Rightarrow> memory_row list res" where
  "service_memory [] = Inr []"
| "service_memory (d # ds) =
     res_bind (build_at_depth flat_ops SWEEP_MID d) (\<lambda>b.
     res_map ((#) (memory_row_of ''service_depth'' (show_u64 (of_nat d)) b)) (service_memory ds))"

fun corpus_memory :: "(string \<Rightarrow> book_event list option) \<Rightarrow> string list \<Rightarrow> memory_row list res" where
  "corpus_memory corpora [] = Inr []"
| "corpus_memory corpora (tag # tags) =
     (case corpora tag of
        None \<Rightarrow> corpus_memory corpora tags
      | Some events \<Rightarrow>
          res_bind (run_book flat_ops (ob_default flat_ops) events) (\<lambda>b.
          res_map ((#) (memory_row_of ''corpus'' tag b)) (corpus_memory corpora tags)))"

definition memory_rows :: "(string \<Rightarrow> book_event list option) \<Rightarrow> memory_row list res" where
  "memory_rows corpora =
     res_bind (service_memory SWEEP_DEPTHS) (\<lambda>service.
     res_map ((@) service) (corpus_memory corpora REPLAY_CORPORA))"

definition memory_csv :: "memory_row list \<Rightarrow> string" where
  "memory_csv rows = csv_text ''config,key,span_ticks,total_bytes''
     (map (\<lambda>r. [mr_config r, mr_key r, show_u64 (of_nat (mr_span r)), show_u64 (of_nat (mr_bytes r))]) rows)"

subsubsection \<open>The window\<close>

lemma flat_level_covers:
  assumes "flat_inv lo hi b" and "flat_adm lo hi (ev_level n t s p q)" and "covers b l h"
    and "ob_apply flat_ops b (ev_level n t s p q) = Inr b'"
  shows "if l \<le> sint (ticks p) \<and> sint (ticks p) < h then covers b' l h
    else covers b' (min l (sint (ticks p) - 4096)) (max h (sint (ticks p) + 4097))"
proof -
  have adm: "band_ok lo hi" "in_band lo hi p" using assms(2) by (simp_all add: flat_adm_def ev_level_def)
  obtain b1 where b1: "flat_ensure_range b p = Inr b1"
      "(case s of Bid \<Rightarrow> flat_set_bid b1 | Ask \<Rightarrow> flat_set_ask b1) (unat (ticks p - fb_base b1)) q = Inr b'"
    using assms(4) by (cases s) (auto simp: flat_ops_def flat_apply_def ev_level_def res_bind_Inr_iff Let_def)
  have "covers b' l' h' = covers b1 l' h'" for l' h'
    using b1(2) flat_set_window by (cases s) simp_all
  then show ?thesis using ensure_covers [OF assms(1) adm assms(3) b1(1)] by simp
qed

lemma flat_run_covers:
  assumes "covers b l h"
  shows "flat_inv lo hi b \<Longrightarrow> \<forall>e \<in> set evs. flat_adm lo hi e \<and> (\<exists>n t s p q. e = ev_level n t s p q \<and> l \<le> sint (ticks p) \<and> sint (ticks p) < h) \<Longrightarrow>
    run_book flat_ops b evs = Inr b' \<Longrightarrow> covers b' l h"
  using assms
proof (induction evs arbitrary: b)
  case (Cons e evs)
  obtain n t s p q where e: "e = ev_level n t s p q" "l \<le> sint (ticks p)" "sint (ticks p) < h" "flat_adm lo hi e"
    using Cons.prems(2) by auto
  obtain b1 where b1: "ob_apply flat_ops b e = Inr b1" "flat_inv lo hi b1" "run_book flat_ops b1 evs = Inr b'"
    using flat.apply_ok [OF Cons.prems(1) e(4)] Cons.prems(3) by auto
  have "covers b1 l h"
    using flat_level_covers [OF Cons.prems(1) e(4) [unfolded e(1)] Cons.prems(4) b1(1) [unfolded e(1)]] e(2,3) by simp
  then show ?case using Cons.IH [OF b1(2)] Cons.prems(2) b1(3) by simp
qed simp

lemma covers_span: "covers b l h \<Longrightarrow> int (allocated_span_ticks b) = h - l"
  by (simp add: covers_def allocated_span_ticks_def)

lemma build_events_Suc: "build_events mid (Suc d) = build_events mid d @ [depth_level mid Bid (Suc d), depth_level mid Ask (Suc d)]"
  by (simp add: build_events_def)

lemma side_px_bounds:
  assumes "room mid d" and "i \<le> d"
  shows "sint (ticks (side_px mid s (of_nat i))) = sint (ticks mid) + side_off s (2 * int i)"
  by (rule sint_side_px [OF assms])

text \<open>Up to depth 2047 a ladder stays in the window of its first price; one step further the window grows.\<close>

lemma built_covers:
  assumes room: "flat_room mid d" and d: "1 \<le> d" "d \<le> 2047" and run: "run_book flat_ops flat_default (build_events mid d) = Inr b"
  shows "covers b (sint (ticks mid) - 4098) (sint (ticks mid) + 4095)"
proof -
  let ?m = "sint (ticks mid)" and ?lo = "sint (ticks mid) - 2 * int d" and ?hi = "sint (ticks mid) + 2 * int d + 1"
  have r: "room mid d" using room by (simp add: flat_room_def)
  have "[1..<Suc d] = 1 # [Suc 1..<Suc d]" using d(1) by (intro upt_conv_Cons) simp
  then obtain evs where evs: "build_events mid d = depth_level mid Bid 1 # evs"
    unfolding build_events_def by simp
  have adm: "\<forall>e \<in> set (build_events mid d). flat_adm ?lo ?hi e" using builders_in_band [OF room] by blast
  obtain b1 where b1: "flat_apply flat_default (depth_level mid Bid 1) = Inr b1" "first_window (side_px mid Bid 1) b1"
    using flat_first_bid [of 0 0 "side_px mid Bid 1" "Qty 1001"] by (auto simp: depth_level_def)
  have inv: "flat_inv ?lo ?hi b1" "run_book flat_ops b1 evs = Inr b"
    using flat.apply_ok [OF flat.inv_default, of ?lo ?hi "depth_level mid Bid 1"] adm run b1(1)
    by (auto simp: evs flat_ops_def)
  have p: "sint (ticks (side_px mid Bid 1)) = ?m - 2" using side_px_bounds [OF r d(1), of Bid] by simp
  have "sint (ticks (side_px mid Bid 1) + of_int (- 4096)) = sint (ticks (side_px mid Bid 1)) + - 4096"
    using room p d(1) by (intro sint_add_i64) (auto simp add: flat_room_def band_ok_def simp del: side_px.simps)
  then have c: "covers b1 (?m - 4098) (?m + 4095)"
    using b1(2) p by (simp add: first_window_def covers_def del: side_px.simps)
  show ?thesis
  proof (rule flat_run_covers [OF c inv(1) _ inv(2)], rule ballI)
    fix e assume e: "e \<in> set evs"
    then have built: "e \<in> set (build_events mid d)" by (simp add: evs)
    then obtain s i where i: "e = depth_level mid s i" "i \<le> d" "1 \<le> i"
      by (auto simp: build_events_def)
    have "sint (ticks (side_px mid s (of_nat i))) = ?m + side_off s (2 * int i)" by (rule side_px_bounds [OF r i(2)])
    then have "?m - 4098 \<le> sint (ticks (side_px mid s (of_nat i)))" "sint (ticks (side_px mid s (of_nat i))) < ?m + 4095"
      using i(2,3) d(2) by (cases s; simp)+
    moreover have "flat_adm ?lo ?hi e" using adm built by blast
    ultimately show "flat_adm ?lo ?hi e \<and> (\<exists>n t s p q. e = ev_level n t s p q \<and> ?m - 4098 \<le> sint (ticks p) \<and> sint (ticks p) < ?m + 4095)"
      unfolding i(1) depth_level_def by blast
  qed
qed

lemma built_span:
  assumes room: "flat_room mid d" and d: "1 \<le> d" "d \<le> 2047"
  shows "\<exists>b. build_at_depth flat_ops mid d = Inr b \<and> allocated_span_ticks b = 8193"
proof -
  obtain b where b: "run_book flat_ops (ob_default flat_ops) (build_events mid d) = Inr b"
    using flat.replay_ok [OF ballI, OF builders_in_band [OF room]] by blast
  then have "covers b (sint (ticks mid) - 4098) (sint (ticks mid) + 4095)"
    by (intro built_covers [OF room d]) (simp add: flat_ops_def)
  from covers_span [OF this] show ?thesis using b d by (simp add: build_at_depth_def)
qed

lemma built_span_2048:
  assumes room: "flat_room mid 2048"
  shows "\<exists>b. build_at_depth flat_ops mid 2048 = Inr b \<and> allocated_span_ticks b = 12291"
proof -
  let ?m = "sint (ticks mid)" and ?lo = "sint (ticks mid) - 4096" and ?hi = "sint (ticks mid) + 4097"
  let ?bid = "depth_level mid Bid 2048" and ?ask = "depth_level mid Ask 2048"
  have r: "room mid 2048" and small: "flat_room mid 2047"
    using room by (auto simp: flat_room_def room_def band_ok_def)
  have evs: "build_events mid 2048 = (build_events mid 2047 @ [?bid]) @ [?ask]"
    using build_events_Suc [of mid 2047] by simp
  have adm: "\<forall>e \<in> set (build_events mid 2048). flat_adm ?lo ?hi e"
    using builders_in_band [OF room] by (auto simp: add.commute)
  have p: "sint (ticks (side_px mid s 2048)) = ?m + side_off s 4096" for s
    using side_px_bounds [OF r order_refl, of s] by simp
  have "\<forall>e \<in> set (build_events mid 2047). flat_adm ?lo ?hi e" using adm by (simp add: evs)
  then obtain b1 where b1: "run_book flat_ops (ob_default flat_ops) (build_events mid 2047) = Inr b1" "flat_inv ?lo ?hi b1"
    by (rule flat.replay_ok)
  have "covers b1 (?m - 4098) (?m + 4095)"
    using b1(1) by (intro built_covers [OF small]) (simp_all add: flat_ops_def)
  moreover obtain b2 where b2: "ob_apply flat_ops b1 ?bid = Inr b2" "flat_inv ?lo ?hi b2"
    using flat.apply_ok [OF b1(2), of ?bid] adm by (auto simp: evs)
  ultimately have c2: "covers b2 (?m - 4098) (?m + 4095)"
    using flat_level_covers [OF b1(2), of 0 0 Bid "side_px mid Bid 2048" "Qty 3048" "?m - 4098" "?m + 4095" b2] adm p [of Bid]
    by (simp add: evs depth_level_def del: side_px.simps)
  obtain b3 where b3: "ob_apply flat_ops b2 ?ask = Inr b3"
    using flat.apply_ok [OF b2(2), of ?ask] adm by (auto simp: evs)
  have "covers b3 (?m - 4098) (?m + 8193)"
    using flat_level_covers [OF b2(2) _ c2, of 0 0 Ask "side_px mid Ask 2048" "Qty 3048" b3] adm b3 p [of Ask]
    by (simp add: evs depth_level_def add.commute del: side_px.simps)
  from covers_span [OF this] have "allocated_span_ticks b3 = 12291" by simp
  moreover have "build_at_depth flat_ops mid 2048 = Inr b3"
    unfolding build_at_depth_def evs run_book_append by (simp add: b1(1) b2(1) b3)
  ultimately show ?thesis by blast
qed

definition service_lines :: string where
  "service_lines =
     ''config,key,span_ticks,total_bytes\<newline>'' @ ''service_depth,1,8193,131088\<newline>'' @ ''service_depth,2,8193,131088\<newline>''
     @ ''service_depth,4,8193,131088\<newline>'' @ ''service_depth,8,8193,131088\<newline>'' @ ''service_depth,16,8193,131088\<newline>''
     @ ''service_depth,32,8193,131088\<newline>'' @ ''service_depth,64,8193,131088\<newline>'' @ ''service_depth,128,8193,131088\<newline>''
     @ ''service_depth,256,8193,131088\<newline>'' @ ''service_depth,512,8193,131088\<newline>''
     @ ''service_depth,1024,8193,131088\<newline>'' @ ''service_depth,2048,12291,196656\<newline>''"

definition ladder_row :: "nat \<Rightarrow> memory_row" where
  "ladder_row d = (let width = if d = 2048 then 12291 else 8193
     in \<lparr>mr_config = ''service_depth'', mr_key = show_u64 (of_nat d), mr_span = width, mr_bytes = bytes_for width\<rparr>)"

lemma service_memory_ladder: "service_memory SWEEP_DEPTHS = Inr (map ladder_row SWEEP_DEPTHS)"
proof -
  have room: "flat_room SWEEP_MID d" if "d \<le> 2048" for d
    using that by (simp add: SWEEP_MID_def flat_room_def room_def band_ok_def MAX_SPAN_def)
  have row: "\<exists>b. build_at_depth flat_ops SWEEP_MID d = Inr b \<and> memory_row_of ''service_depth'' (show_u64 (of_nat d)) b = ladder_row d"
    if "1 \<le> d \<and> d \<le> 2047 \<or> d = 2048" for d
    using that
  proof
    assume d: "1 \<le> d \<and> d \<le> 2047"
    then show ?thesis using built_span [of SWEEP_MID d] room [of d] by (auto simp: memory_row_of_def ladder_row_def)
  next
    assume d: "d = 2048"
    show ?thesis using built_span_2048 [OF room [OF order_refl]] by (auto simp: memory_row_of_def ladder_row_def d)
  qed
  have rows: "service_memory ds = Inr (map ladder_row ds)" if "list_all (\<lambda>d. 1 \<le> d \<and> d \<le> 2047 \<or> d = 2048) ds" for ds
    using that
  proof (induction ds)
    case (Cons d ds)
    then obtain b where "build_at_depth flat_ops SWEEP_MID d = Inr b"
        "memory_row_of ''service_depth'' (show_u64 (of_nat d)) b = ladder_row d"
      using row [of d] by auto
    then show ?case using Cons by simp
  qed simp
  show ?thesis by (rule rows) (simp add: SWEEP_DEPTHS_def)
qed

lemma digit_chars:
  "char_of (48 :: nat) = CHR ''0''" "char_of (49 :: nat) = CHR ''1''" "char_of (50 :: nat) = CHR ''2''" "char_of (51 :: nat) = CHR ''3''" "char_of (52 :: nat) = CHR ''4''" 
  "char_of (53 :: nat) = CHR ''5''" "char_of (54 :: nat) = CHR ''6''" "char_of (55 :: nat) = CHR ''7''" "char_of (56 :: nat) = CHR ''8''" "char_of (57 :: nat) = CHR ''9''"
  by code_simp+

lemma service_text: "memory_csv (map ladder_row SWEEP_DEPTHS) = service_lines"
  by (simp add: memory_csv_def csv_text_def SWEEP_DEPTHS_def ladder_row_def bytes_for_def service_lines_def show_u64_def
      show_nat_def show_radix.simps digit_char_def digit_chars)

text \<open>
  Property C22: the memory of the flat array does not follow the depth. For every depth of the sweep up to 1024 the
  array has the 8193 slots per side of its first window, at 2048 it has grown once; these are the lines of the
  committed \<open>flat_memory.csv\<close>.
\<close>
theorem flat_memory_lines:
  "res_map memory_csv (service_memory SWEEP_DEPTHS) = Inr service_lines"
  by (simp only: service_memory_ladder res_map.simps service_text)

subsection \<open>What the reads return\<close>

text \<open>A read that gives the same buffer from the initial one and from its own result.\<close>

lemma measure_read_records:
  assumes rd: "rd b buf = Inr buf'" "rd b buf' = Inr buf'" and h: "lat_new H = Inr h0" and n: "0 < cx_samples cx"
  shows "\<exists>ds w'. measure_read rd H delta raw cx b buf w = Some (Inr ((buf', fold (lat_record H) ds h0), w'))
    \<and> length ds = cx_samples cx"
proof -
  have keep: "\<exists>y. rd b x = Inr y \<and> y \<in> {buf, buf'}" if "x \<in> {buf, buf'}" for x using that rd by auto
  obtain x where x: "warmup (cx_warmup cx) (\<lambda>r. res_bind r (rd b)) (Inr buf) = Inr x" "x \<in> {buf, buf'}"
    using warmup_keeps [where P = "\<lambda>x. x \<in> {buf, buf'}" and f = "rd b", OF keep] by blast
  have step: "\<exists>d w'. timed_read rd H delta raw b (x, h) w = Some (Inr ((buf', lat_record H d h), w'))"
    if "x \<in> {buf, buf'}" for x h w
  proof -
    obtain t0 w1 t1 w2 where "raw w = (t0, w1)" "raw w1 = (t1, w2)" by fastforce
    then show ?thesis using that rd by (auto simp: timed_read_def read_clock_def t_bind_def t_lift_def t_return_def)
  qed
  obtain m where m: "cx_samples cx = Suc m" using n by (cases "cx_samples cx") auto
  obtain d w1 where one: "timed_read rd H delta raw b (x, h0) w = Some (Inr ((buf', lat_record H d h0), w1))"
    using step [OF x(2)] by blast
  have rest: "\<exists>y d w'. timed_read rd H delta raw b (y', h) w = Some (Inr ((y, lat_record H d h), w')) \<and> y = buf'"
    if "y' = buf'" for y' h w
    using step [of y'] that by auto
  obtain ds w' where "t_repeat m (timed_read rd H delta raw b) (buf', lat_record H d h0) w1 =
      Some (Inr ((buf', fold (lat_record H) ds (lat_record H d h0)), w'))" "length ds = m"
    using t_repeat_records [where P = "\<lambda>y. y = buf'" and f = "timed_read rd H delta raw b", OF rest refl] by metis
  then show ?thesis
    by (intro exI [of _ "d # ds"] exI [of _ w'])
      (simp add: measure_read_def x(1) h m t_bind_def one)
qed

definition book_zeros :: "nat \<Rightarrow> level list" where "book_zeros n = replicate n (Px 0, Qty 0)"

text \<open>The results of a cell: the buffers after its reads, and the number of recorded values.\<close>

definition reads_ladder ::
  "'h hist_ops \<Rightarrow> 'h \<Rightarrow> cell_ctx \<Rightarrow> ('w, (read_op \<times> level list \<times> 'h) list) timed \<Rightarrow> 'w \<Rightarrow> bool" where
  "reads_ladder H h0 cx cell w \<longleftrightarrow>
     (let bids = ladder_at (cx_mid cx) Bid (cx_depth cx) in
      \<exists>ds1 ds2 ds3 w'. cell w = Some (Inr
        ([(Best_Bid_Read, [], fold (lat_record H) ds1 h0),
          (Top_8_Read, take 8 bids @ book_zeros (8 - cx_depth cx), fold (lat_record H) ds2 h0),
          (Top_Full_Read, bids, fold (lat_record H) ds3 h0)], w'))
        \<and> list_all (\<lambda>ds. length ds = cx_samples cx) [ds1, ds2, ds3])"

context order_book begin

lemma top_n_again:
  assumes "inv b" and "ob_top_n ops b s buf = Inr (n, buf')"
  shows "ob_top_n ops b s buf' = Inr (n, buf')"
  using assms by (auto simp: top_n_ok spec_top_n_def Let_def)

lemma read_cell_ladder:
  assumes r: "room (cx_mid cx) (cx_depth cx)" and n: "0 < cx_samples cx" and h: "lat_new H = Inr h0"
    and adm: "\<forall>ev \<in> set (build_events (cx_mid cx) (cx_depth cx)). adm ev"
  shows "reads_ladder H h0 cx (read_cell ops H delta raw cx) w"
proof -
  let ?evs = "build_events (cx_mid cx) (cx_depth cx)" and ?l = "ladder_at (cx_mid cx) Bid (cx_depth cx)"
  obtain b where b: "run_book ops (ob_default ops) ?evs = Inr b" "inv b" "abs b = spec_run ?evs"
    by (rule replay_ok [OF adm])
  have bids: "best_first (abs b) Bid = ?l" unfolding b(3) by (rule best_first_map [OF r spec_side_built(1) [OF r]])
  have built: "build_at_depth ops (cx_mid cx) (cx_depth cx) = Inr b"
    using b(1) room_fits [OF r] by (simp add: build_at_depth_def)
  have top: "read_top ops b buf = Inr (take (length buf) ?l @ drop (cx_depth cx) buf)" for buf
    unfolding read_top_def top_n_ok [OF b(2)] spec_top_n_def bids
    by (cases "length buf \<le> cx_depth cx") (simp_all add: Let_def min_def)
  have top_again: "read_top ops b (take (length buf) ?l @ drop (cx_depth cx) buf) = Inr (take (length buf) ?l @ drop (cx_depth cx) buf)" for buf
    unfolding top by (cases "length buf \<le> cx_depth cx") simp_all
  have best: "read_best ops b [] = Inr []" by (simp add: read_best_def best_bid_ok [OF b(2)])
  obtain ds1 w1 where one: "measure_read (read_best ops) H delta raw cx b [] w = Some (Inr (([], fold (lat_record H) ds1 h0), w1))"
      "length ds1 = cx_samples cx"
    using measure_read_records [where rd = "read_best ops" and b = b and buf = "[]" and buf' = "[]", OF best best h n, where w = w and delta = delta and raw = raw] by blast
  obtain ds2 w2 where two: "measure_read (read_top ops) H delta raw cx b (replicate TOP_N_8 (Px 0, Qty 0)) w1 =
      Some (Inr ((take 8 ?l @ book_zeros (8 - cx_depth cx), fold (lat_record H) ds2 h0), w2))" "length ds2 = cx_samples cx"
    using measure_read_records [where rd = "read_top ops" and b = b, OF top [of "replicate TOP_N_8 (Px 0, Qty 0)"] top_again h n,
      where w = w1 and delta = delta and raw = raw]
    by (simp add: TOP_N_8_def book_zeros_def) blast
  obtain ds3 w3 where three: "measure_read (read_top ops) H delta raw cx b (replicate (cx_depth cx) (Px 0, Qty 0)) w2 =
      Some (Inr ((?l, fold (lat_record H) ds3 h0), w3))" "length ds3 = cx_samples cx"
    using measure_read_records [where rd = "read_top ops" and b = b, OF top [of "replicate (cx_depth cx) (Px 0, Qty 0)"] top_again h n,
      where w = w2 and delta = delta and raw = raw]
    by simp blast
  show ?thesis
    unfolding reads_ladder_def Let_def
    by (intro exI [of _ ds1] exI [of _ ds2] exI [of _ ds3] exI [of _ w3])
      (simp add: read_cell_def built one two three t_bind_def t_return_def)
qed

end

lemma reads_are_ladders:
  assumes "flat_room (cx_mid cx) (cx_depth cx)" and "0 < cx_samples cx" and "lat_new H = Inr h0"
  shows "reads_ladder H h0 cx (read_cell btree_ops H delta raw cx) w"
    and "reads_ladder H h0 cx (read_cell sorted_ops H delta raw cx) w"
    and "reads_ladder H h0 cx (read_cell rev_ops H delta raw cx) w"
    and "reads_ladder H h0 cx (read_cell flat_ops H delta raw cx) w"
proof -
  have r: "room (cx_mid cx) (cx_depth cx)" using assms(1) by (simp add: flat_room_def)
  show "reads_ladder H h0 cx (read_cell btree_ops H delta raw cx) w"
    by (rule btree.read_cell_ladder [OF r assms(2,3)]) simp
  show "reads_ladder H h0 cx (read_cell sorted_ops H delta raw cx) w"
    by (rule sorted.read_cell_ladder [OF r assms(2,3)]) simp
  show "reads_ladder H h0 cx (read_cell rev_ops H delta raw cx) w"
    by (rule rev.read_cell_ladder [OF r assms(2,3)]) simp
  show "reads_ladder H h0 cx (read_cell flat_ops H delta raw cx) w"
    by (rule flat.read_cell_ladder [OF r assms(2,3)]) (use builders_in_band [OF assms(1)] in blast)
qed

text \<open>A replay benchmark returns the middle one of as many times as it was asked for.\<close>

context order_book begin

lemma replay_median_ok:
  assumes adm: "\<forall>ev \<in> set events. adm ev" and n: "0 < runs"
  shows "\<exists>totals w'. replay_median ops delta raw events runs w = Some (Inr (sort totals ! (runs div 2), w'))
    \<and> length totals = runs"
proof -
  obtain b where b: "run_book ops (ob_default ops) events = Inr b" "inv b" by (rule replay_ok [OF adm])
  have one: "\<exists>a w'. timed_replay ops delta raw events w = Some (Inr (a, w')) \<and> True" for w
  proof -
    obtain t0 w1 t1 w2 where "raw w = (t0, w1)" "raw w1 = (t1, w2)" by fastforce
    then show ?thesis
      by (simp add: timed_replay_def read_clock_def t_bind_def t_lift_def t_return_def b(1) best_bid_ok [OF b(2)])
  qed
  obtain totals w' where "t_map (\<lambda>_. timed_replay ops delta raw events) [0..<runs] w = Some (Inr (totals, w'))"
      "list_all2 (\<lambda>_ _. True) [0..<runs] totals"
    using t_map_each [where P = "\<lambda>_ _. True" and f = "\<lambda>_. timed_replay ops delta raw events", OF one] by blast
  moreover from this have "length totals = runs" by (simp add: list_all2_lengthD [symmetric])
  ultimately show ?thesis
    using n by (intro exI [of _ totals] exI [of _ w'])
      (simp add: replay_median_def b(1) best_bid_ok [OF b(2)] t_bind_def t_lift_def vec_simps)
qed

end

subsection \<open>The unit tests\<close>

text \<open>
  Unknown names are refused; the measured book has the expected best bid. The other assertions of these tests are
  about measured times.
\<close>

definition sweeps_reject_unknown ::
  "'h hist_ops \<Rightarrow> (u64 \<Rightarrow> u64 \<Rightarrow> nat) \<Rightarrow> ('w \<Rightarrow> u64 \<times> 'w) \<Rightarrow> book_event list \<Rightarrow> 'w \<Rightarrow> bool" where
  "sweeps_reject_unknown H delta raw events w \<longleftrightarrow>
     (let cx = \<lparr>cx_mid = SWEEP_MID, cx_depth = 1, cx_loc = Concentrated, cx_samples = 1, cx_warmup = 0\<rparr>
      in run_service H delta raw ''nope'' cx 0 w = Some (Inl AssertionFailed)
         \<and> run_read H delta raw ''nope'' cx w = Some (Inl AssertionFailed)
         \<and> run_replay delta raw ''nope'' events 1 w = Some (Inl AssertionFailed))"

definition best_bid_is_exercised_and_correct :: bool where
  "best_bid_is_exercised_and_correct \<longleftrightarrow>
     res_map (map_option fst) (res_bind (build_at_depth btree_ops SWEEP_MID 64) (ob_best_bid btree_ops)) =
       Inr (Some (Px (ticks SWEEP_MID - 2)))"

definition sweep_tests ::
  "'h hist_ops \<Rightarrow> (u64 \<Rightarrow> u64 \<Rightarrow> nat) \<Rightarrow> ('w \<Rightarrow> u64 \<times> 'w) \<Rightarrow> book_event list \<Rightarrow> 'w \<Rightarrow> bool" where
  "sweep_tests H delta raw events w \<longleftrightarrow>
     sweeps_reject_unknown H delta raw events w \<and> best_bid_is_exercised_and_correct"

lemma sweep_tests_pass: "sweep_tests H delta raw events w"
proof -
  have r: "room SWEEP_MID 64" by (simp add: room_def SWEEP_MID_def)
  obtain b where b: "run_book btree_ops (ob_default btree_ops) (build_events SWEEP_MID 64) = Inr b" "btree_inv b"
      "btree_abs b = spec_run (build_events SWEEP_MID 64)"
    by (rule btree.replay_ok) simp_all
  have "best_first (btree_abs b) Bid = ladder_at SWEEP_MID Bid 64"
    unfolding b(3) by (rule best_first_map [OF r spec_side_built(1) [OF r]])
  also have "[1..<Suc 64] = 1 # [2..<65]" by (simp add: upt_conv_Cons)
  then have "ladder_at SWEEP_MID Bid 64 = (Px (ticks SWEEP_MID - 2), Qty 1001) # map (\<lambda>i. (side_px SWEEP_MID Bid (of_nat i), Qty (1000 + of_nat i))) [2..<65]"
    by (simp add: ladder_at_def STEP_def)
  finally have "spec_best_bid (btree_abs b) = Some (Px (ticks SWEEP_MID - 2), Qty 1001)"
    using spec_wf_run by (subst spec_best_bid_best_first) (simp_all add: b(3))
  then show ?thesis
    by (simp add: sweep_tests_def sweeps_reject_unknown_def best_bid_is_exercised_and_correct_def build_at_depth_def b(1)
        btree.best_bid_ok [OF b(2)] run_service_def run_read_def run_replay_def for_impl_def IMPLS_def t_lift_def)
qed

end
