(* ===== verification/Engine_Threads.thy ===== *)
theory Engine_Threads
  imports Engine Seqlock_Stress Ring_Calls
begin

section \<open>The pipeline between its threads (engine/src/lib.rs)\<close>

text \<open>
  \<open>process\<close> and \<open>poll\<close> as they run, one atomic operation at a time: the producer applies the event and
  then runs the operations of the seqlock store and of the ring push, while any number of consumers run
  theirs of \<open>try_recv\<close> and, after an overrun, of the load. The two cells are the view machines of \<open>Seqlock\<close>
  and \<open>Ring_Concurrent\<close>, side by side: consumer \<open>r\<close> is thread \<open>r\<close> of both. What one cell's synchronisation
  would tell a thread about the other cell is left out, so the machine has every behaviour of the one
  memory and more. A consumer starts from any cursor, whenever it was minted.
\<close>

text \<open>What the producer is doing, and the overrun that a consumer is rebasing from: the cursor it had,
  the number it was told, the cursor it has.\<close>

datatype producer_phase = Resting | Storing book_event | Pushing

type_synonym rebase = "u64 \<times> u64 \<times> u64"

text \<open>A finished poll: the cursor before it, what it observed, the cursor after it.\<close>

type_synonym polled = "u64 \<times> observed \<times> u64"

record 'b engine_sys =
  et_producer :: "'b engine_producer"
  et_phase :: producer_phase
  et_events :: "book_event list"
  et_top :: seq_sys
  et_ring :: ring_sys
  et_consumers :: "nat \<Rightarrow> engine_consumer"
  et_rebase :: "nat \<Rightarrow> rebase option"
  et_log :: "nat \<Rightarrow> polled list"

definition engine_init :: "'b order_book_ops \<Rightarrow> ring \<Rightarrow> (nat \<Rightarrow> u64) \<Rightarrow> 'b engine_sys" where
  "engine_init ops R cs =
     \<lparr>et_producer = \<lparr>ep_book = ob_default ops, ep_stamp = 0\<rparr>, et_phase = Resting, et_events = [],
      et_top = seq_init tob_default, et_ring = ring_init R cs,
      et_consumers = (\<lambda>r. \<lparr>ec_cursor = cs r, ec_seen = 0, ec_resyncs = 0, ec_last_mid = 0\<rparr>),
      et_rebase = (\<lambda>_. None), et_log = (\<lambda>_. [])\<rparr>"

subsection \<open>The producer\<close>

text \<open>\<open>process\<close> up to the first operation of the store.\<close>

definition process_apply ::
  "'b order_book_ops \<Rightarrow> book_event \<Rightarrow> 'b engine_sys \<Rightarrow> 'b engine_sys res" where
  "process_apply ops ev s =
     res_bind (ob_apply ops (ep_book (et_producer s)) ev) (\<lambda>b.
     res_bind (ob_best_bid ops b) (\<lambda>bid.
     res_bind (ob_best_ask ops b) (\<lambda>ask.
       let stamp = ep_stamp (et_producer s) + 1; t = top_of bid ask stamp; top = et_top s
       in Inr (s\<lparr>et_producer := \<lparr>ep_book = b, ep_stamp = stamp\<rparr>, et_phase := Storing ev,
            et_events := et_events s @ [ev],
            et_top := top\<lparr>ss_pending := seqlock_store (to_u32 (wm_latest (ss_mem top) Seq)) t,
              ss_hist := ss_hist top @ [t]\<rparr>\<rparr>))))"

definition process_push :: "ring \<Rightarrow> book_event \<Rightarrow> 'b engine_sys \<Rightarrow> 'b engine_sys" where
  "process_push R ev s =
     (let rg = et_ring s
      in s\<lparr>et_phase := Pushing,
           et_ring := rg\<lparr>rs_pending := ring_push R (wm_latest (rs_mem rg) WritePos) (pack ev),
             rs_hist := rs_hist rg @ [pack ev]\<rparr>\<rparr>)"

subsection \<open>A consumer\<close>

text \<open>
  \<open>poll\<close> once \<open>try_recv\<close> has returned \<open>x\<close> with the cursor \<open>c\<close>; \<open>cur\<close> and \<open>acq\<close> are the thread's views. An
  overrun goes on to the load of the seqlock.
\<close>

definition poll_match ::
  "ring \<Rightarrow> nat \<Rightarrow> recv \<Rightarrow> u64 \<Rightarrow> ring_loc view \<Rightarrow> ring_loc view \<Rightarrow> 'b engine_sys \<Rightarrow> 'b engine_sys res" where
  "poll_match R r x c cur acq s =
     (let con = et_consumers s r; c0 = ec_cursor con;
          s1 = s\<lparr>et_ring := set_consumer (et_ring s) r (thread_at R c cur acq)\<rparr>
      in case x of
           Item rec \<Rightarrow>
             (case unpack rec of
                Inl _ \<Rightarrow> Inl UnwrapFailed
              | Inr ev \<Rightarrow> Inr (s1\<lparr>
                  et_consumers := (et_consumers s)(r := con\<lparr>ec_cursor := c, ec_seen := ec_seen con + 1\<rparr>),
                  et_log := (et_log s)(r := et_log s r @ [(c0, Ob_Event ev, c)])\<rparr>))
         | Overrun k \<Rightarrow> Inr (s1\<lparr>
             et_consumers := (et_consumers s)(r := con\<lparr>ec_cursor := c\<rparr>),
             et_rebase := (et_rebase s)(r := Some (c0, k, c))\<rparr>)
         | Empty \<Rightarrow> Inr (s1\<lparr>
             et_consumers := (et_consumers s)(r := con\<lparr>ec_cursor := c\<rparr>),
             et_log := (et_log s)(r := et_log s r @ [(c0, Ob_Idle, c)])\<rparr>))"

text \<open>The rest of an overrun, once the load has returned \<open>snap\<close>.\<close>

definition poll_resync :: "nat \<Rightarrow> rebase \<Rightarrow> top_of_book \<Rightarrow> 'b engine_sys \<Rightarrow> 'b engine_sys" where
  "poll_resync r b snap s =
     (let con = et_consumers s r; (c0, k, c) = b
      in s\<lparr>et_top := set_thread (et_top s) r (restart (ss_threads (et_top s) r) 0),
           et_consumers := (et_consumers s)(r := con\<lparr>ec_last_mid := mid_of snap, ec_resyncs := ec_resyncs con + 1\<rparr>),
           et_rebase := (et_rebase s)(r := None),
           et_log := (et_log s)(r := et_log s r @ [(c0, Ob_Overrun k snap, c)])\<rparr>)"

subsection \<open>Their steps\<close>

inductive engine_thread_step ::
  "'b order_book_ops \<Rightarrow> ring \<Rightarrow> 'b engine_sys \<Rightarrow> 'b engine_sys \<Rightarrow> bool" for ops R where
  process_begin:
    "et_phase s = Resting \<Longrightarrow> process_apply ops ev s = Inr s' \<Longrightarrow> engine_thread_step ops R s s'"
| process_store:
    "et_phase s = Storing ev \<Longrightarrow> ss_pending (et_top s) = op # rest \<Longrightarrow>
     engine_thread_step ops R s
       (s\<lparr>et_top := (et_top s)\<lparr>ss_mem := do_wop op (ss_mem (et_top s)), ss_pending := rest\<rparr>\<rparr>)"
| process_stored:
    "et_phase s = Storing ev \<Longrightarrow> ss_pending (et_top s) = [] \<Longrightarrow>
     engine_thread_step ops R s (process_push R ev s)"
| process_ring:
    "et_phase s = Pushing \<Longrightarrow> rs_pending (et_ring s) = op # rest \<Longrightarrow>
     engine_thread_step ops R s
       (s\<lparr>et_ring := (et_ring s)\<lparr>rs_mem := do_wop op (rs_mem (et_ring s)), rs_pending := rest\<rparr>\<rparr>)"
| process_end:
    "et_phase s = Pushing \<Longrightarrow> rs_pending (et_ring s) = [] \<Longrightarrow>
     engine_thread_step ops R s (s\<lparr>et_phase := Resting\<rparr>)"
| poll_recv:
    "et_rebase s r = None \<Longrightarrow> read_step (rs_mem (et_ring s)) (rt_reader (rs_threads (et_ring s) r)) rd \<Longrightarrow>
     engine_thread_step ops R s
       (s\<lparr>et_ring := set_consumer (et_ring s) r ((rs_threads (et_ring s) r)\<lparr>rt_reader := rd\<rparr>)\<rparr>)"
| poll_returned:
    "et_rebase s r = None \<Longrightarrow>
     rt_reader (rs_threads (et_ring s) r) = \<lparr>rd_prog = Ret (x, c), rd_cur = cur, rd_acq = acq\<rparr> \<Longrightarrow>
     poll_match R r x c cur acq s = Inr s' \<Longrightarrow> engine_thread_step ops R s s'"
| poll_load:
    "et_rebase s r = Some b \<Longrightarrow> read_step (ss_mem (et_top s)) (st_reader (ss_threads (et_top s) r)) rd \<Longrightarrow>
     engine_thread_step ops R s
       (s\<lparr>et_top := set_thread (et_top s) r ((ss_threads (et_top s) r)\<lparr>st_reader := rd\<rparr>)\<rparr>)"
| poll_retry:
    "et_rebase s r = Some b \<Longrightarrow> rd_prog (st_reader (ss_threads (et_top s) r)) = Ret None \<Longrightarrow>
     engine_thread_step ops R s
       (s\<lparr>et_top := set_thread (et_top s) r
         (restart (ss_threads (et_top s) r) (u32_saturating_inc (st_retries (ss_threads (et_top s) r))))\<rparr>)"
| poll_loaded:
    "et_rebase s r = Some b \<Longrightarrow> rd_prog (st_reader (ss_threads (et_top s) r)) = Ret (Some snap) \<Longrightarrow>
     engine_thread_step ops R s (poll_resync r b snap s)"

inductive engine_reach ::
  "'b order_book_ops \<Rightarrow> ring \<Rightarrow> (nat \<Rightarrow> u64) \<Rightarrow> 'b engine_sys \<Rightarrow> bool" for ops R cs where
  start: "engine_reach ops R cs (engine_init ops R cs)"
| step: "engine_reach ops R cs s \<Longrightarrow> engine_thread_step ops R s s' \<Longrightarrow> engine_reach ops R cs s'"

subsection \<open>What a consumer's log may contain\<close>

text \<open>
  An event is the one processed at the cursor. An overrun is reported only when the push that overwrites
  the cursor's record has begun; it reports how far the cursor moved forward, and the cursor moves to
  no later than the oldest record that the ring can still hold.
\<close>

fun entry_ok :: "nat \<Rightarrow> book_event list \<Rightarrow> polled \<Rightarrow> bool" where
  "entry_ok cap evs (c, Ob_Event ev, c') \<longleftrightarrow>
     unat c < length evs \<and> ev = evs ! unat c \<and> unat c' = unat c + 1"
| "entry_ok cap evs (c, Ob_Overrun k snap, c') \<longleftrightarrow>
     k = u64_saturating_sub c' c \<and> unat c + cap < length evs \<and> unat c' \<le> length evs - cap"
| "entry_ok cap evs (c, Ob_Idle, c') \<longleftrightarrow> c' = c"

fun polls_from :: "u64 \<Rightarrow> polled list \<Rightarrow> u64 \<Rightarrow> bool" where
  "polls_from c [] c' \<longleftrightarrow> c' = c"
| "polls_from c ((c1, ob, c2) # log) c' \<longleftrightarrow> c1 = c \<and> polls_from c2 log c'"

definition observed_of :: "polled list \<Rightarrow> observed list" where
  "observed_of log = map (\<lambda>(c, ob, c'). ob) log"

text \<open>The positions of the delivered events, and the snapshots of the overruns.\<close>

fun event_positions :: "polled list \<Rightarrow> nat list" where
  "event_positions [] = []"
| "event_positions ((c, Ob_Event ev, c') # log) = unat c # event_positions log"
| "event_positions (_ # log) = event_positions log"

fun snapshots :: "observed list \<Rightarrow> top_of_book list" where
  "snapshots [] = []"
| "snapshots (Ob_Overrun k t # obs) = t # snapshots obs"
| "snapshots (_ # obs) = snapshots obs"

text \<open>Where the finished polls of a consumer leave its cursor.\<close>

definition polled_to :: "'b engine_sys \<Rightarrow> nat \<Rightarrow> u64" where
  "polled_to s r = (case et_rebase s r of None \<Rightarrow> ec_cursor (et_consumers s r) | Some (c0, k, c) \<Rightarrow> c0)"

definition last_mid_of :: "top_of_book list \<Rightarrow> i64" where
  "last_mid_of ts = (if ts = [] then 0 else mid_of (last ts))"

lemma observed_of_simps [simp]:
  "observed_of [] = []" "observed_of (log @ [(c, ob, c')]) = observed_of log @ [ob]"
  by (simp_all add: observed_of_def)

lemma snapshots_append: "snapshots (xs @ ys) = snapshots xs @ snapshots ys"
  by (induction xs rule: snapshots.induct) simp_all

lemma overruns_snapshots: "overruns obs = length (snapshots obs)"
  by (induction obs rule: snapshots.induct) simp_all

lemma deliveries_append: "deliveries (xs @ ys) = deliveries xs @ deliveries ys"
  by (simp add: deliveries_def)

subsection \<open>The parts of a run\<close>

text \<open>The calls of the ring behind a log.\<close>

fun call_of :: "polled \<Rightarrow> call" where
  "call_of (c, Ob_Event ev, c') = (c, Item (pack ev), c')"
| "call_of (c, Ob_Overrun k t, c') = (c, Overrun k, c')"
| "call_of (c, Ob_Idle, c') = (c, Empty, c')"

definition ring_log :: "'b engine_sys \<Rightarrow> nat \<Rightarrow> call list" where
  "ring_log s r = map call_of (et_log s r) @
     (case et_rebase s r of None \<Rightarrow> [] | Some (c0, k, c) \<Rightarrow> [(c0, Overrun k, c)])"

text \<open>The snapshots that a stream publishes, the initial one first; the events whose push has begun.\<close>

definition tops_of :: "book_event list \<Rightarrow> top_of_book list" where
  "tops_of evs = map (\<lambda>k. top_at (take k evs)) [0..<Suc (length evs)]"

definition pushed :: "'b engine_sys \<Rightarrow> book_event list" where
  "pushed s = (case et_phase s of Storing ev \<Rightarrow> butlast (et_events s) | _ \<Rightarrow> et_events s)"

lemma tops_of_snoc: "tops_of (evs @ [ev]) = tops_of evs @ [top_at (evs @ [ev])]"
  by (simp add: tops_of_def)

lemma tops_of_Nil: "tops_of [] = [tob_default]"
  by (simp add: tops_of_def top_at_Nil)

definition producer_part ::
  "('b \<Rightarrow> bool) \<Rightarrow> ('b \<Rightarrow> spec_book) \<Rightarrow> 'b engine_sys \<Rightarrow> bool" where
  "producer_part I A s \<longleftrightarrow>
     Engine.producer_inv I A (et_events s) (et_producer s)
     \<and> ss_hist (et_top s) = tops_of (et_events s) \<and> rs_hist (et_ring s) = map pack (pushed s)
     \<and> (\<forall>ev. et_phase s = Storing ev \<longrightarrow> et_events s \<noteq> [] \<and> ev = last (et_events s))
     \<and> ((\<forall>ev. et_phase s \<noteq> Storing ev) \<longrightarrow> ss_pending (et_top s) = [])
     \<and> (et_phase s \<noteq> Pushing \<longrightarrow> rs_pending (et_ring s) = [])"

definition consumer_part :: "ring \<Rightarrow> (nat \<Rightarrow> u64) \<Rightarrow> nat \<Rightarrow> 'b engine_sys \<Rightarrow> bool" where
  "consumer_part R cs r s \<longleftrightarrow>
     ring_calls R cs r (et_ring s) (ring_log s r)
     \<and> (\<exists>loads. seq_loads tob_default r (et_top s) loads \<and> map fst loads = snapshots (observed_of (et_log s r)))
     \<and> ec_cursor (et_consumers s r) = rt_cursor (rs_threads (et_ring s) r)
     \<and> ec_seen (et_consumers s r) = of_nat (length (deliveries (observed_of (et_log s r))))
     \<and> ec_resyncs (et_consumers s r) = of_nat (overruns (observed_of (et_log s r)))
     \<and> ec_last_mid (et_consumers s r) = last_mid_of (snapshots (observed_of (et_log s r)))"

subsection \<open>The parts keep their promises\<close>

lemma polled_cursor: "consumer_part R cs r s \<Longrightarrow> et_rebase s r = None \<Longrightarrow>
    ec_cursor (et_consumers s r) = rt_cursor (rs_threads (et_ring s) r)"
  by (simp add: consumer_part_def)

lemma consumer_other:
  assumes part: "consumer_part R cs r s"
    and ring: "et_ring s' = et_ring s \<or> ring_step R (et_ring s) (et_ring s')
      \<and> (in_call (rs_threads (et_ring s) r) \<or> rs_threads (et_ring s') r = rs_threads (et_ring s) r)"
    and top: "et_top s' = et_top s \<or> seq_step (et_top s) (et_top s')
      \<and> (in_load (ss_threads (et_top s) r) \<or> ss_threads (et_top s') r = ss_threads (et_top s) r)"
    and cursor: "rt_cursor (rs_threads (et_ring s') r) = rt_cursor (rs_threads (et_ring s) r)"
    and same: "et_log s' r = et_log s r" "et_rebase s' r = et_rebase s r" "et_consumers s' r = et_consumers s r"
  shows "consumer_part R cs r s'"
proof -
  have "ring_log s' r = ring_log s r" by (simp add: ring_log_def same)
  moreover have "ring_calls R cs r (et_ring s') (ring_log s r)"
    using part ring by (auto simp: consumer_part_def intro: ring_calls.other_step)
  moreover obtain loads where l: "seq_loads tob_default r (et_top s) loads"
    "map fst loads = snapshots (observed_of (et_log s r))"
    using part by (auto simp: consumer_part_def)
  moreover have "seq_loads tob_default r (et_top s') loads"
    using l(1) top by (auto intro: seq_loads.other_step)
  ultimately show ?thesis using part cursor by (auto simp: consumer_part_def same)
qed

text \<open>An item is the record of an event that was processed, so it unpacks.\<close>

lemma item_record:
  assumes part: "consumer_part R cs r s" and wf: "ring_wf R" and hist: "rs_hist (et_ring s) = map pack evs"
    and small: "length (rs_hist (et_ring s)) \<le> 2 ^ 63"
    and ret: "rt_reader (rs_threads (et_ring s) r) = \<lparr>rd_prog = Ret (Item rec, c), rd_cur = cur, rd_acq = acq\<rparr>"
  shows "\<exists>ev. unpack rec = Inr ev \<and> rec = pack ev"
proof -
  have "ring_calls R cs r (et_ring s) (ring_log s r)" using part by (simp add: consumer_part_def)
  from ring_calls_inv [OF ring_calls.call_returns [OF this ret] wf] small
  have "call_ok R (map pack evs) (rt_cursor (rs_threads (et_ring s) r), Item rec, c)"
    by (simp add: calls_inv_def set_consumer_def hist)
  then have "rec = pack (evs ! unat (rt_cursor (rs_threads (et_ring s) r)))" by simp
  then show ?thesis by auto
qed

lemma ring_hist_events: "producer_part I A s \<Longrightarrow> \<exists>evs xs. rs_hist (et_ring s) = map pack evs \<and> et_events s = evs @ xs"
proof (intro exI conjI)
  assume "producer_part I A s"
  then show "rs_hist (et_ring s) = map pack (pushed s)" by (simp add: producer_part_def)
  show "et_events s = pushed s @ drop (length (pushed s)) (et_events s)"
    by (cases "et_events s" rule: rev_cases) (auto simp: pushed_def split: producer_phase.splits)
qed

lemma producer_part_same:
  assumes "producer_part I A s" and "et_producer s' = et_producer s" "et_phase s' = et_phase s"
    "et_events s' = et_events s" "ss_hist (et_top s') = ss_hist (et_top s)"
    "ss_pending (et_top s') = ss_pending (et_top s)" "rs_hist (et_ring s') = rs_hist (et_ring s)"
    "rs_pending (et_ring s') = rs_pending (et_ring s)"
  shows "producer_part I A s'"
proof -
  have "pushed s' = pushed s" using assms(3,4) by (simp add: pushed_def split: producer_phase.split)
  then show ?thesis using assms by (simp add: producer_part_def)
qed

lemma engine_step_events: "engine_thread_step ops R s s' \<Longrightarrow> \<exists>xs. et_events s' = et_events s @ xs"
proof (induction rule: engine_thread_step.induct)
  case (process_begin s ev s')
  then show ?case by (auto simp: process_apply_def res_bind_Inr_iff Let_def)
next
  case (poll_returned s r x c cur acq s')
  then show ?case by (auto simp: poll_match_def Let_def split: recv.splits sum.splits)
qed (auto simp: process_push_def poll_resync_def Let_def split: prod.splits)

lemma thread_cursor [simp]: "rt_cursor (thread_at R c cur acq) = c"
  by (simp add: thread_at_def)

lemma restart_fields [simp]:
  "ss_threads (set_thread s r th) q = (if q = r then th else ss_threads s q)"
  "rs_threads (set_consumer g r tc) q = (if q = r then tc else rs_threads g q)"
  "rs_hist (set_consumer g r tc) = rs_hist g" "rs_pending (set_consumer g r tc) = rs_pending g"
  "ss_hist (set_thread s r th) = ss_hist s" "ss_pending (set_thread s r th) = ss_pending s"
  by (simp_all add: set_thread_def set_consumer_def)

lemma poll_match_top: "poll_match R r x c cur acq s = Inr s' \<Longrightarrow> et_top s' = et_top s"
  by (auto simp: poll_match_def Let_def split: recv.splits sum.splits)

lemma consumer_returned:
  assumes part: "consumer_part R cs q s" and prod: "producer_part I A s" and wf: "ring_wf R"
    and small: "length (et_events s) \<le> 2 ^ 63" and free: "et_rebase s r = None"
    and ret: "rt_reader (rs_threads (et_ring s) r) = \<lparr>rd_prog = Ret (x, c), rd_cur = cur, rd_acq = acq\<rparr>"
    and run: "poll_match R r x c cur acq s = Inr s'"
  shows "consumer_part R cs q s'"
proof (cases "q = r")
  case False
  have "ring_step R (et_ring s) (et_ring s')"
    using ring_step.recv_next [OF ret] run by (auto simp: poll_match_def Let_def split: recv.splits sum.splits)
  moreover have "rs_threads (et_ring s') q = rs_threads (et_ring s) q" "et_log s' q = et_log s q"
    "et_rebase s' q = et_rebase s q" "et_consumers s' q = et_consumers s q"
    using False run by (auto simp: poll_match_def Let_def split: recv.splits sum.splits)
  ultimately show ?thesis
    using poll_match_top [OF run] by (intro consumer_other [OF part]) simp_all
next
  case True
  obtain evs xs where hist: "rs_hist (et_ring s) = map pack evs" "et_events s = evs @ xs"
    using ring_hist_events [OF prod] by blast
  have short: "length (rs_hist (et_ring s)) \<le> 2 ^ 63" using hist small by simp
  have calls: "ring_calls R cs r (et_ring s) (map call_of (et_log s r))"
    and c0: "ec_cursor (et_consumers s r) = rt_cursor (rs_threads (et_ring s) r)"
    using part free by (simp_all add: consumer_part_def True ring_log_def)
  note call = ring_calls.call_returns [OF calls ret, folded c0]
  obtain loads where l: "seq_loads tob_default r (et_top s) loads"
    "map fst loads = snapshots (observed_of (et_log s r))"
    using part by (auto simp: consumer_part_def True)
  show ?thesis
  proof (cases x)
    case (Item rec)
    obtain ev where ev: "unpack rec = Inr ev" "rec = pack ev"
      using item_record [OF part [unfolded True] wf hist(1) short] ret Item by blast
    show ?thesis
      using run call part l unfolding True consumer_part_def
      by (auto simp: poll_match_def Let_def Item ev ring_log_def free snapshots_append deliveries_append
          overruns_snapshots)
  next
    case (Overrun k)
    show ?thesis
      using run call part l unfolding True consumer_part_def
      by (auto simp: poll_match_def Let_def Overrun ring_log_def)
  next
    case Empty
    show ?thesis
      using run call part l unfolding True consumer_part_def
      by (auto simp: poll_match_def Let_def Empty ring_log_def free snapshots_append deliveries_append
          overruns_snapshots)
  qed
qed

lemma consumer_loaded:
  assumes part: "consumer_part R cs q s" and busy: "et_rebase s r = Some b"
    and ret: "rd_prog (st_reader (ss_threads (et_top s) r)) = Ret (Some snap)"
  shows "consumer_part R cs q (poll_resync r b snap s)"
proof (cases "q = r")
  case False
  have "seq_step (et_top s) (set_thread (et_top s) r (restart (ss_threads (et_top s) r) 0))"
    by (rule seq_step.load_again [OF ret])
  then show ?thesis
    using False by (intro consumer_other [OF part]) (auto simp: poll_resync_def Let_def split: prod.splits)
next
  case True
  obtain c0 k c where b: "b = (c0, k, c)" by (cases b) blast
  obtain loads where l: "seq_loads tob_default r (et_top s) loads"
    "map fst loads = snapshots (observed_of (et_log s r))"
    using part by (auto simp: consumer_part_def True)
  let ?loads = "loads @ [(snap, st_retries (ss_threads (et_top s) r))]"
  have "seq_loads tob_default r (set_thread (et_top s) r (restart (ss_threads (et_top s) r) 0)) ?loads"
    by (rule seq_loads.load_returns [OF l(1) ret])
  moreover have "map fst ?loads = snapshots (observed_of (et_log s r) @ [Ob_Overrun k snap])"
    by (simp add: l(2) snapshots_append)
  moreover have "ring_log (poll_resync r b snap s) r = ring_log s r"
    by (simp add: ring_log_def poll_resync_def b busy Let_def)
  ultimately show ?thesis
    using part unfolding True consumer_part_def
    by (auto simp: poll_resync_def b Let_def snapshots_append deliveries_append overruns_snapshots last_mid_of_def)
qed

lemma consumer_step:
  assumes part: "consumer_part R cs q s" and prod: "producer_part I A s" and R: "with_capacity W cap = Inr R"
    and small: "length (et_events s) \<le> 2 ^ 63" and step: "engine_thread_step ops R s s'"
  shows "consumer_part R cs q s'"
proof -
  note other = consumer_other [OF part]
  have width: "rg_width R = W" using with_capacity_fields [OF R] by simp
  from step show ?thesis
  proof cases
    case (process_begin ev)
    then obtain t where "et_top s' = (et_top s)\<lparr>ss_pending := seqlock_store (to_u32 (wm_latest (ss_mem (et_top s)) Seq)) t,
        ss_hist := ss_hist (et_top s) @ [t]\<rparr>" "et_ring s' = et_ring s" "et_log s' = et_log s"
        "et_rebase s' = et_rebase s" "et_consumers s' = et_consumers s"
      by (auto simp: process_apply_def res_bind_Inr_iff Let_def)
    moreover have "ss_pending (et_top s) = []" using prod process_begin(1) by (simp add: producer_part_def)
    ultimately show ?thesis using seq_step.store_begin [of "et_top s"] by (intro other) simp_all
  next
    case (process_store ev op rest)
    then show ?thesis using seq_step.store_op [OF process_store(3)] by (intro other) simp_all
  next
    case (process_stored ev)
    have "rs_pending (et_ring s) = []" using prod process_stored(2) by (simp add: producer_part_def)
    then have "ring_step R (et_ring s) (et_ring s')"
      using ring_step.push_begin [of "et_ring s" "pack ev" R] width
      by (simp add: process_stored(1) process_push_def Let_def)
    then show ?thesis by (intro other) (simp_all add: process_stored(1) process_push_def Let_def)
  next
    case (process_ring op rest)
    then show ?thesis using ring_step.push_op [OF process_ring(3)] by (intro other) simp_all
  next
    case process_end
    then show ?thesis by (intro other) simp_all
  next
    case (poll_recv r rd)
    have "in_call (rs_threads (et_ring s) r)" using poll_recv(3) by (auto simp: in_call_def elim!: read_stepE)
    then show ?thesis
      using ring_step.recv_op [OF poll_recv(3)] by (intro other) (auto simp: poll_recv(1))
  next
    case (poll_returned r x c cur acq)
    show ?thesis by (rule consumer_returned [OF part prod with_capacity_wf [OF R] small poll_returned])
  next
    case (poll_load r b rd)
    have "in_load (ss_threads (et_top s) r)" using poll_load(3) by (auto simp: in_load_def elim!: read_stepE)
    then show ?thesis
      using seq_step.load_op [OF poll_load(3)] by (intro other) (auto simp: poll_load(1))
  next
    case (poll_retry r b)
    have "in_load (ss_threads (et_top s) r)" using poll_retry(3) by (simp add: in_load_def)
    then show ?thesis
      using seq_step.load_retry [OF poll_retry(3)] by (intro other) (auto simp: poll_retry(1))
  next
    case (poll_loaded r b snap)
    show ?thesis unfolding poll_loaded(1) by (rule consumer_loaded [OF part poll_loaded(2,3)])
  qed
qed

lemma consumer_start: "consumer_part R cs r (engine_init ops R cs)"
  using ring_calls.begin_calls [of R cs r] seq_loads.begin_loads [of tob_default r]
  by (auto simp: consumer_part_def engine_init_def ring_log_def last_mid_of_def)
    (simp add: ring_init_def)

context order_book
begin

lemma producer_start: "producer_part inv abs (engine_init ops R cs)"
  by (simp add: producer_part_def engine_init_def Engine.producer_inv_def inv_default abs_default spec_run_def
      tops_of_Nil pushed_def seq_init_def ring_init_def)

lemma process_applies:
  assumes "producer_part inv abs s" and "adm ev"
  shows "\<exists>s'. process_apply ops ev s = Inr s' \<and>
    (et_phase s = Resting \<longrightarrow> producer_part inv abs s')"
proof -
  let ?p = "et_producer s" and ?evs = "et_events s"
  have p: "inv (ep_book ?p)" "abs (ep_book ?p) = spec_run ?evs" "ep_stamp ?p = of_nat (length ?evs)"
    using assms(1) by (simp_all add: producer_part_def Engine.producer_inv_def)
  obtain b where b: "ob_apply ops (ep_book ?p) ev = Inr b" "inv b" "abs b = spec_run (?evs @ [ev])"
    using apply_ok [OF p(1) assms(2)] p(2) by (auto simp: spec_run_snoc)
  have stamp: "ep_stamp ?p + 1 = of_nat (length (?evs @ [ev]))" using p(3) by simp
  define s' where "s' = s\<lparr>et_producer := \<lparr>ep_book = b, ep_stamp = ep_stamp ?p + 1\<rparr>, et_phase := Storing ev,
      et_events := ?evs @ [ev],
      et_top := (et_top s)\<lparr>ss_pending := seqlock_store (to_u32 (wm_latest (ss_mem (et_top s)) Seq)) (top_at (?evs @ [ev])),
        ss_hist := ss_hist (et_top s) @ [top_at (?evs @ [ev])]\<rparr>\<rparr>"
  have run: "process_apply ops ev s = Inr s'"
    by (simp only: process_apply_def b(1) res_bind.simps best_bid_ok [OF b(2)] best_ask_ok [OF b(2)] b(3)
        Let_def stamp top_at_def s'_def)
  have "producer_part inv abs s'" if "et_phase s = Resting"
    using assms(1) that b stamp unfolding producer_part_def s'_def
    by (simp add: Engine.producer_inv_def tops_of_snoc pushed_def)
  with run show ?thesis by blast
qed

lemma producer_step:
  assumes prod: "producer_part inv abs s" and step: "engine_thread_step ops R s s'"
    and adm: "\<forall>ev \<in> set (et_events s'). adm ev"
  shows "producer_part inv abs s'"
  using step
proof cases
  case (process_begin ev)
  then have "et_events s' = et_events s @ [ev]" by (auto simp: process_apply_def res_bind_Inr_iff Let_def)
  with adm have "adm ev" by simp
  from process_applies [OF prod this] process_begin show ?thesis by auto
next
  case (process_stored ev)
  then have "et_events s = butlast (et_events s) @ [ev]"
    using prod by (auto simp: producer_part_def)
  then have "map pack (butlast (et_events s)) @ [pack ev] = map pack (et_events s)"
    by (metis list.simps(8,9) map_append)
  then show ?thesis using prod process_stored by (simp add: producer_part_def process_push_def pushed_def Let_def)
next
  case (poll_returned r x c cur acq)
  then show ?thesis
    by (intro producer_part_same [OF prod]) (auto simp: poll_match_def Let_def split: recv.splits sum.splits)
next
  case (poll_loaded r b snap)
  then show ?thesis
    by (intro producer_part_same [OF prod]) (auto simp: poll_resync_def Let_def split: prod.splits)
next
  case (process_ring op rest)
  then show ?thesis using prod by (simp add: producer_part_def pushed_def)
next
  case process_end
  then show ?thesis using prod by (simp add: producer_part_def pushed_def)
next
  case (process_store ev op rest)
  then show ?thesis using prod by (simp add: producer_part_def pushed_def)
qed (rule producer_part_same [OF prod]; simp)+

lemma engine_reach_parts:
  assumes "engine_reach ops R cs s" and R: "with_capacity W cap = Inr R"
  shows "\<forall>ev \<in> set (et_events s). adm ev \<Longrightarrow> length (et_events s) \<le> 2 ^ 63 \<Longrightarrow>
    producer_part inv abs s \<and> (\<forall>r. consumer_part R cs r s)"
  using assms(1)
proof (induction rule: engine_reach.induct)
  case start
  then show ?case by (simp add: producer_start consumer_start)
next
  case (step s s')
  obtain xs where "et_events s' = et_events s @ xs" using engine_step_events [OF step.hyps(2)] by blast
  with step.prems have "\<forall>ev \<in> set (et_events s). adm ev" "length (et_events s) \<le> 2 ^ 63" by auto
  with step.IH have "producer_part inv abs s" "\<forall>r. consumer_part R cs r s" by blast+
  then show ?case
    using producer_step [OF _ step.hyps(2) step.prems(1)] consumer_step [OF _ _ R _ step.hyps(2)]
      \<open>length (et_events s) \<le> 2 ^ 63\<close> by blast
qed

end

subsection \<open>What a consumer is told\<close>

lemma calls_polls: "calls_from c (map call_of log) c' \<longleftrightarrow> polls_from c log c'"
proof (induction log arbitrary: c)
  case (Cons x log)
  obtain c1 ob c2 where "x = (c1, ob, c2)" by (cases x) blast
  with Cons show ?case by (cases ob) simp_all
qed simp

lemma positions_calls: "delivered_positions (map call_of log) = event_positions log"
proof (induction log)
  case (Cons x log)
  obtain c1 ob c2 where "x = (c1, ob, c2)" by (cases x) blast
  with Cons show ?case by (cases ob) simp_all
qed simp

lemma call_poll:
  assumes "call_ok R (map pack evs) (call_of x)" and "rg_cap R = cap"
  shows "entry_ok cap (evs @ rest) x"
proof -
  obtain c ob c' where x: "x = (c, ob, c')" by (cases x) blast
  show ?thesis
  proof (cases ob)
    case (Ob_Event ev)
    with assms have c: "unat c < length evs" "pack ev = pack (evs ! unat c)" "unat c' = unat c + 1"
      by (auto simp: x)
    then have "ev = evs ! unat c" using unpack_pack by (metis sum.inject(2))
    with c show ?thesis by (simp add: x Ob_Event nth_append)
  qed (use assms in \<open>auto simp: x\<close>)
qed

lemma consumer_told:
  assumes part: "consumer_part R cs r s" and R: "with_capacity W cap = Inr R"
    and hist: "rs_hist (et_ring s) = map pack evs" "et_events s = evs @ rest"
    and small: "length (et_events s) \<le> 2 ^ 63"
  shows "polls_from (cs r) (et_log s r) (polled_to s r)" and "list_all (entry_ok cap (et_events s)) (et_log s r)"
    and "sorted_wrt (<) (event_positions (et_log s r))"
proof -
  have "length (rs_hist (et_ring s)) \<le> 2 ^ 63" using hist small by simp
  with ring_calls_inv [of R cs r "et_ring s" "ring_log s r"] part with_capacity_wf [OF R]
  have inv: "calls_inv R (cs r) (et_ring s) (rs_threads (et_ring s) r) (ring_log s r)"
    by (simp add: consumer_part_def)
  have log: "\<exists>more. ring_log s r = map call_of (et_log s r) @ more" by (simp add: ring_log_def)
  show "polls_from (cs r) (et_log s r) (polled_to s r)"
    using inv part
    by (auto simp: calls_inv_def consumer_part_def ring_log_def polled_to_def calls_from_append calls_polls
        split: option.splits)
  have "rg_cap R = cap" using with_capacity_fields [OF R] by simp
  have "entry_ok cap (et_events s) x" if "x \<in> set (et_log s r)" for x
  proof -
    have "call_of x \<in> set (ring_log s r)" using log that by auto
    then have "call_ok R (map pack evs) (call_of x)" using inv unfolding calls_inv_def hist(1) list_all_iff by blast
    from call_poll [OF this \<open>rg_cap R = cap\<close>] show ?thesis unfolding hist(2) .
  qed
  then show "list_all (entry_ok cap (et_events s)) (et_log s r)" by (simp add: list_all_iff)
  show "sorted_wrt (<) (event_positions (et_log s r))"
    using inv log by (auto simp: calls_inv_def delivered_append positions_calls sorted_wrt_append)
qed

lemma consumer_snapshots:
  assumes part: "consumer_part R cs r s" and hist: "ss_hist (et_top s) = tops_of (et_events s)"
    and small: "length (et_events s) < 2 ^ 31"
  shows "\<exists>gs. snapshots (observed_of (et_log s r)) = map (\<lambda>g. top_at (take g (et_events s))) gs
    \<and> sorted gs \<and> list_all (\<lambda>g. g < length (published (et_top s))) gs"
proof -
  obtain loads where l: "seq_loads tob_default r (et_top s) loads"
    "map fst loads = snapshots (observed_of (et_log s r))"
    using part by (auto simp: consumer_part_def)
  have "length (ss_hist (et_top s)) \<le> 2 ^ 31" using small by (simp add: hist tops_of_def)
  from seq_loads_inv [OF l(1) this] obtain gs where g: "loads_at (published (et_top s)) loads gs" by blast
  have pub: "published (et_top s) ! g = top_at (take g (et_events s))" if "g < length (published (et_top s))" for g
  proof -
    obtain xs where "tops_of (et_events s) = published (et_top s) @ xs"
      using published_hist [of "et_top s"] hist by auto
    then have "published (et_top s) ! g = tops_of (et_events s) ! g" "g < length (tops_of (et_events s))"
      using that by (simp_all add: nth_append)
    then show ?thesis by (simp add: tops_of_def del: upt_Suc)
  qed
  have "map fst loads = map (\<lambda>g. top_at (take g (et_events s))) gs"
    using g pub by (auto simp: loads_at_def list_all_iff)
  with g l(2) show ?thesis by (intro exI [of _ gs]) (simp add: loads_at_def)
qed

lemma poll_no_panic:
  assumes part: "consumer_part R cs r s" and R: "with_capacity W cap = Inr R"
    and hist: "rs_hist (et_ring s) = map pack evs" "et_events s = evs @ rest"
    and small: "length (et_events s) \<le> 2 ^ 63"
    and ret: "rt_reader (rs_threads (et_ring s) r) = \<lparr>rd_prog = Ret (x, c), rd_cur = cur, rd_acq = acq\<rparr>"
  shows "\<exists>s'. poll_match R r x c cur acq s = Inr s'"
proof (cases x)
  case (Item rec)
  have "length (rs_hist (et_ring s)) \<le> 2 ^ 63" using hist small by simp
  from item_record [OF part with_capacity_wf [OF R] hist(1) this ret [unfolded Item]] obtain ev where
    "unpack rec = Inr ev" by blast
  then show ?thesis by (simp add: poll_match_def Item Let_def)
qed (simp_all add: poll_match_def Let_def)

end
