(* ===== verification/Engine_Runs.thy ===== *)
theory Engine_Runs
  imports Engine_Threads
begin

section \<open>Schedules of whole steps, run by the threads\<close>

text \<open>
  Every schedule of whole producer steps and polls (\<open>engine_run\<close>) is a run of the threaded pipeline:
  the producer runs the operations of its step one after the other, a consumer takes the newest message
  at every load. The cells then hold what the plain meaning says, and every consumer observes the same.
\<close>

subsection \<open>Running what is pending\<close>

lemma latest_wop: "wm_latest (do_wop op m) = plain_op op (wm_latest m)"
proof (cases op)
  case Fence_Release
  then show ?thesis by (simp add: wm_latest_def fun_eq_iff)
qed (auto simp: latest_append fun_eq_iff)

lemma latest_ops: "wm_latest (fold do_wop ops m) = plain_ops ops (wm_latest m)"
  by (induction ops arbitrary: m) (simp_all add: latest_wop)

lemma run_store:
  "engine_reach ops R cs s \<Longrightarrow> et_phase s = Storing ev \<Longrightarrow>
   engine_reach ops R cs (s\<lparr>et_top := (et_top s)\<lparr>ss_mem := fold do_wop (ss_pending (et_top s)) (ss_mem (et_top s)),
     ss_pending := []\<rparr>\<rparr>)"
proof (induction "ss_pending (et_top s)" arbitrary: s)
  case Nil
  then have "s\<lparr>et_top := (et_top s)\<lparr>ss_mem := fold do_wop (ss_pending (et_top s)) (ss_mem (et_top s)),
      ss_pending := []\<rparr>\<rparr> = s" by simp
  with Nil.prems(1) show ?case by (simp only:)
next
  case (Cons op ops')
  let ?s = "s\<lparr>et_top := (et_top s)\<lparr>ss_mem := do_wop op (ss_mem (et_top s)), ss_pending := ops'\<rparr>\<rparr>"
  have "engine_thread_step ops R s ?s"
    using Cons.prems(2) Cons.hyps(2) by (intro engine_thread_step.process_store) simp_all
  from engine_reach.step [OF Cons.prems(1) this] Cons.hyps(1) [of ?s] Cons.prems(2) show ?case
    by (simp flip: Cons.hyps(2))
qed

lemma run_push:
  "engine_reach ops R cs s \<Longrightarrow> et_phase s = Pushing \<Longrightarrow>
   engine_reach ops R cs (s\<lparr>et_ring := (et_ring s)\<lparr>rs_mem := fold do_wop (rs_pending (et_ring s)) (rs_mem (et_ring s)),
     rs_pending := []\<rparr>\<rparr>)"
proof (induction "rs_pending (et_ring s)" arbitrary: s)
  case Nil
  then have "s\<lparr>et_ring := (et_ring s)\<lparr>rs_mem := fold do_wop (rs_pending (et_ring s)) (rs_mem (et_ring s)),
      rs_pending := []\<rparr>\<rparr> = s" by simp
  with Nil.prems(1) show ?case by (simp only:)
next
  case (Cons op ops')
  let ?s = "s\<lparr>et_ring := (et_ring s)\<lparr>rs_mem := do_wop op (rs_mem (et_ring s)), rs_pending := ops'\<rparr>\<rparr>"
  have "engine_thread_step ops R s ?s"
    using Cons.prems(2) Cons.hyps(2) by (intro engine_thread_step.process_ring) simp_all
  from engine_reach.step [OF Cons.prems(1) this] Cons.hyps(1) [of ?s] Cons.prems(2) show ?case
    by (simp flip: Cons.hyps(2))
qed

lemma run_recv:
  assumes "(read_step (rs_mem (et_ring s)))\<^sup>*\<^sup>* (rt_reader (rs_threads (et_ring s) r)) rd"
    and "engine_reach ops R cs s" and "et_rebase s r = None"
  shows "engine_reach ops R cs
    (s\<lparr>et_ring := set_consumer (et_ring s) r ((rs_threads (et_ring s) r)\<lparr>rt_reader := rd\<rparr>)\<rparr>)"
  using assms(1)
proof (induction rule: rtranclp_induct)
  case base
  have "s\<lparr>et_ring := set_consumer (et_ring s) r
      ((rs_threads (et_ring s) r)\<lparr>rt_reader := rt_reader (rs_threads (et_ring s) r)\<rparr>)\<rparr> = s"
    by (simp add: set_consumer_def)
  with assms(2) show ?case by (simp only:)
next
  case (step y z)
  let ?s = "s\<lparr>et_ring := set_consumer (et_ring s) r ((rs_threads (et_ring s) r)\<lparr>rt_reader := y\<rparr>)\<rparr>"
  have "engine_thread_step ops R ?s
      (?s\<lparr>et_ring := set_consumer (et_ring ?s) r ((rs_threads (et_ring ?s) r)\<lparr>rt_reader := z\<rparr>)\<rparr>)"
    by (rule engine_thread_step.poll_recv) (use step.hyps(2) assms(3) in \<open>simp_all add: set_consumer_def\<close>)
  from engine_reach.step [OF step.IH this] show ?case by (simp add: set_consumer_def)
qed

lemma run_load:
  assumes "(read_step (ss_mem (et_top s)))\<^sup>*\<^sup>* (st_reader (ss_threads (et_top s) r)) rd"
    and "engine_reach ops R cs s" and "et_rebase s r = Some b"
  shows "engine_reach ops R cs
    (s\<lparr>et_top := set_thread (et_top s) r ((ss_threads (et_top s) r)\<lparr>st_reader := rd\<rparr>)\<rparr>)"
  using assms(1)
proof (induction rule: rtranclp_induct)
  case base
  have "s\<lparr>et_top := set_thread (et_top s) r
      ((ss_threads (et_top s) r)\<lparr>st_reader := st_reader (ss_threads (et_top s) r)\<rparr>)\<rparr> = s"
    by (simp add: set_thread_def)
  with assms(2) show ?case by (simp only:)
next
  case (step y z)
  let ?s = "s\<lparr>et_top := set_thread (et_top s) r ((ss_threads (et_top s) r)\<lparr>st_reader := y\<rparr>)\<rparr>"
  have "engine_thread_step ops R ?s
      (?s\<lparr>et_top := set_thread (et_top ?s) r ((ss_threads (et_top ?s) r)\<lparr>st_reader := z\<rparr>)\<rparr>)"
    by (rule engine_thread_step.poll_load) (use step.hyps(2) assms(3) in \<open>simp_all add: set_thread_def\<close>)
  from engine_reach.step [OF step.IH this] show ?case by (simp add: set_thread_def)
qed

subsection \<open>A pipeline at rest\<close>

definition resting :: "ring \<Rightarrow> 'b engine_sys \<Rightarrow> bool" where
  "resting R s \<longleftrightarrow>
     et_phase s = Resting \<and> ss_pending (et_top s) = [] \<and> rs_pending (et_ring s) = []
     \<and> (\<forall>r. et_rebase s r = None \<and> rd_prog (st_reader (ss_threads (et_top s) r)) = seqlock_attempt
        \<and> (\<exists>cur acq. rs_threads (et_ring s) r = thread_at R (ec_cursor (et_consumers s r)) cur acq))"

text \<open>The state of the sequential model behind it.\<close>

definition engine_of :: "ring \<Rightarrow> 'b engine_sys \<Rightarrow> 'b engine" where
  "engine_of R s =
     \<lparr>en_producer = et_producer s,
      en_shared = \<lparr>es_top = wm_latest (ss_mem (et_top s)), es_ring = R, es_slots = wm_latest (rs_mem (et_ring s))\<rparr>,
      en_consumers = et_consumers s\<rparr>"

lemma resting_start: "resting R (engine_init ops R cs)"
  by (auto simp: resting_def engine_init_def seq_init_def ring_init_def)

lemma latest_init: "wm_latest (wm_init \<sigma>) = \<sigma>"
  by (simp add: wm_latest_def wm_init_def fun_eq_iff)

lemma engine_of_start:
  assumes "engine_start ops cap = Inr en" and "with_capacity W cap = Inr R"
  shows "engine_of R (engine_init ops R (\<lambda>_. 0)) = en"
  using assms by (auto simp: engine_start_def engine_new_def engine_of_def engine_init_def seq_init_def ring_init_def
      latest_init engine_consumer_new_def consumer_def)

lemma whole_process:
  assumes reach: "engine_reach ops R cs s" and rest: "resting R s"
    and run: "process ops ev (et_producer s) (en_shared (engine_of R s)) = Inr (p, sh)"
  shows "\<exists>s'. engine_reach ops R cs s' \<and> resting R s' \<and> et_events s' = et_events s @ [ev] \<and> et_log s' = et_log s
    \<and> engine_of R s' = (engine_of R s)\<lparr>en_producer := p, en_shared := sh\<rparr>"
proof -
  obtain b bid ask where b: "ob_apply ops (ep_book (et_producer s)) ev = Inr b" "ob_best_bid ops b = Inr bid"
      "ob_best_ask ops b = Inr ask" and p: "p = \<lparr>ep_book = b, ep_stamp = ep_stamp (et_producer s) + 1\<rparr>"
    and sh: "sh = (en_shared (engine_of R s))\<lparr>
      es_top := plain_store (top_of bid ask (ep_stamp (et_producer s) + 1)) (wm_latest (ss_mem (et_top s))),
      es_slots := plain_push R (pack ev) (wm_latest (rs_mem (et_ring s)))\<rparr>"
    using run by (auto simp: process_def res_bind_Inr_iff Let_def engine_of_def)
  obtain s1 where s1: "process_apply ops ev s = Inr s1" by (simp add: process_apply_def b Let_def)
  have r1: "engine_reach ops R cs s1"
    by (rule engine_reach.step [OF reach engine_thread_step.process_begin [OF _ s1]]) (use rest in \<open>simp add: resting_def\<close>)
  have ph: "et_phase s1 = Storing ev" using s1 by (auto simp: process_apply_def b Let_def)
  let ?s2 = "s1\<lparr>et_top := (et_top s1)\<lparr>ss_mem := fold do_wop (ss_pending (et_top s1)) (ss_mem (et_top s1)), ss_pending := []\<rparr>\<rparr>"
  let ?s3 = "process_push R ev ?s2"
  let ?s4 = "?s3\<lparr>et_ring := (et_ring ?s3)\<lparr>rs_mem := fold do_wop (rs_pending (et_ring ?s3)) (rs_mem (et_ring ?s3)), rs_pending := []\<rparr>\<rparr>"
  have r2: "engine_reach ops R cs ?s2" by (rule run_store [OF r1 ph])
  have r3: "engine_reach ops R cs ?s3"
    by (rule engine_reach.step [OF r2 engine_thread_step.process_stored]) (simp_all add: ph)
  have r4: "engine_reach ops R cs ?s4" by (rule run_push [OF r3]) (simp add: process_push_def Let_def)
  have r5: "engine_reach ops R cs (?s4\<lparr>et_phase := Resting\<rparr>)"
    by (rule engine_reach.step [OF r4 engine_thread_step.process_end]) (simp_all add: process_push_def Let_def)
  have "resting R (?s4\<lparr>et_phase := Resting\<rparr>)" "et_events (?s4\<lparr>et_phase := Resting\<rparr>) = et_events s @ [ev]"
    "et_log (?s4\<lparr>et_phase := Resting\<rparr>) = et_log s"
    using rest s1 by (auto simp: resting_def process_apply_def b process_push_def Let_def)
  moreover have "engine_of R (?s4\<lparr>et_phase := Resting\<rparr>) = (engine_of R s)\<lparr>en_producer := p, en_shared := sh\<rparr>"
    using s1 by (auto simp: engine_of_def process_apply_def b process_push_def Let_def latest_ops p sh
        plain_store_def plain_push_def)
  ultimately show ?thesis using r5 by blast
qed

text \<open>The load of a resting seqlock, and a poll in which \<open>try_recv\<close> alone is at work.\<close>

lemma consumer_reach:
  assumes "consumer_part R cs r s"
  shows "ring_reach R cs (et_ring s)" and "seq_reach tob_default (et_top s)"
  using assms calls_reach seq_loads_reach unfolding consumer_part_def by blast+

lemma seqlock_load_attempt: "plain_read \<sigma> seqlock_attempt = Some t \<Longrightarrow> seqlock_load \<sigma> = Some t"
  unfolding seqlock_load_def seqlock_load_counted_def by (subst load_loop.simps) simp

lemma whole_recv:
  assumes reach: "engine_reach ops R cs s" and part: "consumer_part R cs r s" and rest: "resting R s"
    and recv: "plain_read (wm_latest (rs_mem (et_ring s))) (try_recv R (ec_cursor (et_consumers s r))) = (x, c)"
  shows "\<exists>cur acq. engine_reach ops R cs (s\<lparr>et_ring := set_consumer (et_ring s) r
    ((rs_threads (et_ring s) r)\<lparr>rt_reader := \<lparr>rd_prog = Ret (x, c), rd_cur = cur, rd_acq = acq\<rparr>\<rparr>)\<rparr>)"
proof -
  obtain cur acq where th: "rs_threads (et_ring s) r = thread_at R (ec_cursor (et_consumers s r)) cur acq"
    and free: "et_rebase s r = None"
    using rest unfolding resting_def by blast
  note views = reach_views [OF consumer_reach(1) [OF part]]
  have "reader_ok (rs_mem (et_ring s)) (rt_reader (rs_threads (et_ring s) r))" using views by blast
  then obtain cur' acq' where "(read_step (rs_mem (et_ring s)))\<^sup>*\<^sup>* (rt_reader (rs_threads (et_ring s) r))
      \<lparr>rd_prog = Ret (x, c), rd_cur = cur', rd_acq = acq'\<rparr>"
    using reads_latest [OF conjunct1 [OF views]] by (fastforce simp: th thread_at_def recv)
  from run_recv [OF this reach free] show ?thesis by blast
qed

lemma whole_load:
  assumes reach: "engine_reach ops R cs s" and sr: "seq_reach tob_default (et_top s)" and busy: "et_rebase s r = Some b"
    and idle: "ss_pending (et_top s) = []" "rd_prog (st_reader (ss_threads (et_top s) r)) = seqlock_attempt"
    and small: "length (ss_hist (et_top s)) \<le> 2 ^ 31"
  shows "\<exists>snap cur acq. seqlock_load (wm_latest (ss_mem (et_top s))) = Some snap
    \<and> engine_reach ops R cs (s\<lparr>et_top := set_thread (et_top s) r
        ((ss_threads (et_top s) r)\<lparr>st_reader := \<lparr>rd_prog = Ret (Some snap), rd_cur = cur, rd_acq = acq\<rparr>\<rparr>)\<rparr>)"
proof -
  let ?rd = "st_reader (ss_threads (et_top s) r)" and ?m = "ss_mem (et_top s)"
  obtain g n where w: "writer_inv (et_top s) g n" using reach_writer [OF sr] by blast
  have ok: "views_ok ?m" "reader_ok ?m ?rd"
    using w seq_reach_inv [OF sr small] by (simp_all add: writer_inv_def seq_inv_def thread_inv_def)
  have rd: "?rd = \<lparr>rd_prog = seqlock_attempt, rd_cur = rd_cur ?rd, rd_acq = rd_acq ?rd\<rparr>" using idle(2) by simp
  note read = idle_read [OF w idle(1)]
  from reads_latest [OF ok(1), of seqlock_attempt "rd_cur ?rd" "rd_acq ?rd"] ok(2) obtain cur acq where
    "(read_step ?m)\<^sup>*\<^sup>* ?rd \<lparr>rd_prog = Ret (Some (last (ss_hist (et_top s)))), rd_cur = cur, rd_acq = acq\<rparr>"
    by (auto simp: read simp flip: rd)
  from run_load [OF this reach busy] seqlock_load_attempt [OF read] show ?thesis by blast
qed

lemma whole_poll:
  assumes reach: "engine_reach ops R cs s" and part: "consumer_part R cs r s" and rest: "resting R s"
    and small: "length (ss_hist (et_top s)) \<le> 2 ^ 31"
    and poll: "poll (en_shared (engine_of R s)) (et_consumers s r) = Some (Inr (ob, con))"
  shows "\<exists>s'. engine_reach ops R cs s' \<and> resting R s' \<and> et_events s' = et_events s
    \<and> et_log s' = (et_log s)(r := et_log s r @ [(ec_cursor (et_consumers s r), ob, ec_cursor con)])
    \<and> engine_of R s' = (engine_of R s)\<lparr>en_consumers := (et_consumers s)(r := con)\<rparr>"
proof -
  let ?con = "et_consumers s r"
  obtain x c where recv: "plain_read (wm_latest (rs_mem (et_ring s))) (try_recv R (ec_cursor ?con)) = (x, c)"
    by (cases "plain_read (wm_latest (rs_mem (et_ring s))) (try_recv R (ec_cursor ?con))")
  obtain cur acq where r1: "engine_reach ops R cs (s\<lparr>et_ring := set_consumer (et_ring s) r
      ((rs_threads (et_ring s) r)\<lparr>rt_reader := \<lparr>rd_prog = Ret (x, c), rd_cur = cur, rd_acq = acq\<rparr>\<rparr>)\<rparr>)"
    (is "engine_reach _ _ _ ?s1")
    using whole_recv [OF reach part rest recv] by blast
  have free: "et_rebase s r = None" using rest by (simp add: resting_def)
  have same: "\<exists>cur' acq'. thread_at R c cur acq = thread_at R c cur' acq'" by blast
  note returned = engine_reach.step [OF r1 engine_thread_step.poll_returned [of ?s1 r x c cur acq]]
  show ?thesis
  proof (cases x)
    case (Overrun k)
    obtain snap where load: "seqlock_load (wm_latest (ss_mem (et_top s))) = Some snap"
      "ob = Ob_Overrun k snap" "con = ?con\<lparr>ec_cursor := c, ec_last_mid := mid_of snap, ec_resyncs := ec_resyncs ?con + 1\<rparr>"
      using poll by (auto simp: poll_def engine_of_def recv Overrun split: option.splits)
    let ?b = "(ec_cursor ?con, k, c)"
    obtain s2 where s2: "poll_match R r x c cur acq ?s1 = Inr s2" by (simp add: poll_match_def Overrun Let_def)
    have r2: "engine_reach ops R cs s2" by (rule returned [OF _ _ s2]) (simp_all add: free)
    have top: "et_top s2 = et_top s" and busy: "et_rebase s2 r = Some ?b"
      using s2 by (auto simp: poll_match_def Overrun Let_def)
    have "ss_pending (et_top s2) = []" "rd_prog (st_reader (ss_threads (et_top s2) r)) = seqlock_attempt"
      using rest by (simp_all add: resting_def top)
    from whole_load [OF r2 _ busy this] consumer_reach(2) [OF part] small load(1) obtain cur' acq' where
      r3: "engine_reach ops R cs (s2\<lparr>et_top := set_thread (et_top s2) r
        ((ss_threads (et_top s2) r)\<lparr>st_reader := \<lparr>rd_prog = Ret (Some snap), rd_cur = cur', rd_acq = acq'\<rparr>\<rparr>)\<rparr>)"
      (is "engine_reach _ _ _ ?s3")
      by (auto simp: top)
    have "engine_reach ops R cs (poll_resync r ?b snap ?s3)"
      by (rule engine_reach.step [OF r3 engine_thread_step.poll_loaded]) (simp_all add: busy)
    then show ?thesis
      using s2 rest by (intro exI [of _ "poll_resync r ?b snap ?s3"])
        (auto simp: poll_match_def poll_resync_def Overrun load Let_def resting_def engine_of_def set_consumer_def
          set_thread_def restart_def same)
  next
    case (Item rec)
    obtain ev where ev: "unpack rec = Inr ev" "ob = Ob_Event ev" "con = ?con\<lparr>ec_cursor := c, ec_seen := ec_seen ?con + 1\<rparr>"
      using poll by (auto simp: poll_def engine_of_def recv Item split: sum.splits)
    obtain s' where s': "poll_match R r x c cur acq ?s1 = Inr s'" by (simp add: poll_match_def Item ev Let_def)
    have "engine_reach ops R cs s'" by (rule returned [OF _ _ s']) (simp_all add: free)
    then show ?thesis
      using s' rest by (intro exI [of _ s']) (auto simp: poll_match_def Item ev Let_def resting_def engine_of_def set_consumer_def same)
  next
    case Empty
    have ob: "ob = Ob_Idle" "con = ?con\<lparr>ec_cursor := c\<rparr>"
      using poll by (auto simp: poll_def engine_of_def recv Empty)
    obtain s' where s': "poll_match R r x c cur acq ?s1 = Inr s'" by (simp add: poll_match_def Empty Let_def)
    have "engine_reach ops R cs s'" by (rule returned [OF _ _ s']) (simp_all add: free)
    then show ?thesis
      using s' rest by (intro exI [of _ s']) (auto simp: poll_match_def Empty ob Let_def resting_def engine_of_def set_consumer_def same)
  qed
qed

subsection \<open>Whole schedules\<close>

lemma out_bind_Inr_iff: "out_bind x f = Some (Inr y) \<longleftrightarrow> (\<exists>a. x = Some (Inr a) \<and> f a = Some (Inr y))"
  by (induction x f rule: out_bind.induct) auto

definition no_join :: "engine_op list \<Rightarrow> bool" where
  "no_join sched = list_all (\<lambda>op. case op of Join r \<Rightarrow> False | _ \<Rightarrow> True) sched"

context order_book
begin

lemma whole_schedule:
  assumes "engine_run ops sched (engine_of R s) = Some (Inr (obs, en))" and R: "with_capacity W cap = Inr R"
    and "no_join sched" and "engine_reach ops R cs s" and "resting R s"
    and "\<forall>ev \<in> set (et_events s @ processed sched). adm ev"
    and "length (et_events s @ processed sched) < 2 ^ 31"
  shows "\<exists>s'. engine_reach ops R cs s' \<and> resting R s' \<and> et_events s' = et_events s @ processed sched
    \<and> engine_of R s' = en \<and> (\<forall>r. observed_of (et_log s' r) = observed_of (et_log s r) @ log_of r sched obs)"
  using assms(1,3-7)
proof (induction sched arbitrary: s obs)
  case Nil
  then show ?case by auto
next
  case (Cons op sched)
  obtain ob en1 obs' where first: "engine_step ops op (engine_of R s) = Some (Inr (ob, en1))"
    and later: "engine_run ops sched en1 = Some (Inr (obs', en))" "obs = ob # obs'"
    using Cons.prems(1) by (auto simp: out_bind_Inr_iff simp del: engine_step.simps)
  note parts = engine_reach_parts [OF Cons.prems(3) R]
  show ?case
  proof (cases op)
    case (Process ev)
    obtain p sh where "process ops ev (et_producer s) (en_shared (engine_of R s)) = Inr (p, sh)"
      "en1 = (engine_of R s)\<lparr>en_producer := p, en_shared := sh\<rparr>" "ob = None"
      using first by (auto simp: Process res_bind_Inr_iff engine_of_def)
    with whole_process [OF Cons.prems(3,4)] obtain s1 where s1: "engine_reach ops R cs s1" "resting R s1"
      "et_events s1 = et_events s @ [ev]" "et_log s1 = et_log s" "engine_of R s1 = en1" by metis
    from Cons.IH [OF _ _ s1(1,2)] s1(3-5) later Cons.prems(2,5,6) show ?thesis
      by (auto simp: Process no_join_def \<open>ob = None\<close>)
  next
    case (Poll q)
    obtain x con where x: "poll (en_shared (engine_of R s)) (et_consumers s q) = Some (Inr (x, con))"
      "en1 = (engine_of R s)\<lparr>en_consumers := (et_consumers s)(q := con)\<rparr>" "ob = Some x"
      using first by (auto simp: Poll out_bind_Inr_iff engine_of_def)
    have "consumer_part R cs q s" "length (ss_hist (et_top s)) \<le> 2 ^ 31"
      using parts Cons.prems(5,6) by (auto simp: producer_part_def tops_of_def)
    from whole_poll [OF Cons.prems(3) this(1) Cons.prems(4) this(2) x(1)] obtain s1 where
      s1: "engine_reach ops R cs s1" "resting R s1" "et_events s1 = et_events s" "engine_of R s1 = en1"
      "et_log s1 = (et_log s)(q := et_log s q @ [(ec_cursor (et_consumers s q), x, ec_cursor con)])"
      by (auto simp: x(2))
    from Cons.IH [OF _ _ s1(1,2)] s1(3-5) later Cons.prems(2,5,6) show ?thesis
      by (auto simp: Poll no_join_def x(3))
  qed (use Cons.prems(2) in \<open>simp add: no_join_def\<close>)
qed

end

text \<open>Three events through a ring of two slots, then two polls: a gap with its snapshot, then an event.\<close>

definition demo_sched :: "engine_op list" where
  "demo_sched = [Process (ev_level 0 0 Bid (Px 10) (Qty 3)), Process (ev_level 1 1 Ask (Px 14) (Qty 2)),
     Process (ev_level 2 2 Bid (Px 12) (Qty 1)), Poll 0, Poll 0]"

lemma demo_run:
  assumes "engine_start btree_ops 2 = Inr en0"
  shows "\<exists>obs en. engine_run btree_ops demo_sched en0 = Some (Inr (obs, en))
    \<and> log_of 0 demo_sched obs = [Ob_Overrun 1 (top_at (processed demo_sched)), Ob_Event (processed demo_sched ! 1)]"
proof -
  let ?e0 = "ev_level 0 0 Bid (Px 10) (Qty 3)" and ?e1 = "ev_level 1 1 Ask (Px 14) (Qty 2)"
    and ?e2 = "ev_level 2 2 Bid (Px 12) (Qty 1)"
  have "ec_cursor (en_consumers en0 0) = 0"
    using btree.start_ok [OF assms] by (auto simp: engine_inv_def)
  note start = btree.start_ok [OF assms]
  obtain en1 where en1: "engine_step btree_ops (Process ?e0) en0 = Some (Inr (None, en1))"
    "engine_inv btree_inv btree_abs 2 ([] @ [?e0]) en1" "en_consumers en1 = en_consumers en0"
    using btree.process_step [OF start] by blast
  obtain en2 where en2: "engine_step btree_ops (Process ?e1) en1 = Some (Inr (None, en2))"
    "engine_inv btree_inv btree_abs 2 (([] @ [?e0]) @ [?e1]) en2" "en_consumers en2 = en_consumers en1"
    using btree.process_step [OF en1(2)] by blast
  obtain en3 where en3: "engine_step btree_ops (Process ?e2) en2 = Some (Inr (None, en3))"
    "engine_inv btree_inv btree_abs 2 ((([] @ [?e0]) @ [?e1]) @ [?e2]) en3" "en_consumers en3 = en_consumers en2"
    using btree.process_step [OF en2(2)] by blast
  have evs: "(([] @ [?e0]) @ [?e1]) @ [?e2] = processed demo_sched" by (simp add: demo_sched_def)
  have len: "length (processed demo_sched) = 3" by (simp add: demo_sched_def)
  have sh: "shared_inv 2 (processed demo_sched) (en_shared en3)" 
    using en3(2) unfolding evs engine_inv_def by blast
  have cur: "ec_cursor (en_consumers en3 0) = of_nat 0"
    using en1(3) en2(3) en3(3) \<open>ec_cursor (en_consumers en0 0) = 0\<close> by simp
  define con where "con = (en_consumers en3 0)\<lparr>ec_cursor := 1,
    ec_last_mid := mid_of (top_at (processed demo_sched)), ec_resyncs := ec_resyncs (en_consumers en3 0) + 1\<rparr>"
  have p1: "poll (en_shared en3) (en_consumers en3 0) = Some (Inr (Ob_Overrun 1 (top_at (processed demo_sched)), con))"
    using poll_ok [OF sh _ cur] by (simp add: len con_def)
  have "ec_cursor con = of_nat 1" by (simp add: con_def)
  from poll_ok [OF sh _ this] have p2: "poll (en_shared en3) con =
      Some (Inr (Ob_Event (processed demo_sched ! 1), con\<lparr>ec_cursor := of_nat (1 + 1), ec_seen := ec_seen con + 1\<rparr>))"
    by (simp add: len)
  let ?obs = "[None, None, None, Some (Ob_Overrun 1 (top_at (processed demo_sched))), Some (Ob_Event (processed demo_sched ! 1))]"
  have "\<exists>en. engine_run btree_ops demo_sched en0 = Some (Inr (?obs, en))"
    unfolding demo_sched_def
    by (intro exI engine_run_Cons [OF en1(1)] engine_run_Cons [OF en2(1)] engine_run_Cons [OF en3(1)])
      (simp add: p1 p2 flip: demo_sched_def)
  moreover have "log_of 0 demo_sched ?obs = [Ob_Overrun 1 (top_at (processed demo_sched)), Ob_Event (processed demo_sched ! 1)]"
    unfolding demo_sched_def by simp
  ultimately show ?thesis by blast
qed

lemma run_between_threads:
  assumes start: "engine_start btree_ops cap = Inr en0" and "no_join sched" and small: "length (processed sched) < 2 ^ 31"
  shows "\<exists>R obs en s. with_capacity W cap = Inr R \<and> engine_run btree_ops sched en0 = Some (Inr (obs, en))
    \<and> engine_reach btree_ops R (\<lambda>_. 0) s \<and> resting R s \<and> et_events s = processed sched \<and> engine_of R s = en
    \<and> (\<forall>r. observed_of (et_log s r) = log_of r sched obs)"
proof -
  obtain R where R: "with_capacity W cap = Inr R"
    using start by (auto simp: engine_start_def engine_new_def res_bind_Inr_iff)
  obtain q where q: "Join q \<notin> set sched" by (rule fresh_consumer)
  obtain c where c: "c \<le> length ([] :: book_event list)" "ec_cursor (en_consumers en0 q) = of_nat c"
    using btree.start_ok [OF start] by (auto simp: engine_inv_def)
  obtain obs en where run: "engine_run btree_ops sched en0 = Some (Inr (obs, en))"
    using btree.run_schedule [OF btree.start_ok [OF start] _ _ q c] small by auto
  let ?s = "engine_init btree_ops R (\<lambda>_. 0)"
  have "engine_run btree_ops sched (engine_of R ?s) = Some (Inr (obs, en))"
    using run by (simp add: engine_of_start [OF start R])
  from btree.whole_schedule [OF this R assms(2) engine_reach.start resting_start] small
  obtain s where "engine_reach btree_ops R (\<lambda>_. 0) s" "resting R s" "et_events s = processed sched"
    "engine_of R s = en" "\<And>r. observed_of (et_log s r) = log_of r sched obs"
    by (auto simp: engine_init_def)
  with R run show ?thesis by blast
qed

subsection \<open>Properties\<close>

definition poll_panics :: "ring \<Rightarrow> nat \<Rightarrow> 'b engine_sys \<Rightarrow> bool" where
  "poll_panics R r s \<longleftrightarrow> (\<exists>x c cur acq e.
     rt_reader (rs_threads (et_ring s) r) = \<lparr>rd_prog = Ret (x, c), rd_cur = cur, rd_acq = acq\<rparr>
     \<and> poll_match R r x c cur acq s = Inl e)"

lemma delivered_between_threads:
  assumes "with_capacity W cap = Inr R" and "engine_reach btree_ops R cs s" and "length (et_events s) < 2 ^ 31"
  shows "polls_from (cs r) (et_log s r) (polled_to s r)" "list_all (entry_ok cap (et_events s)) (et_log s r)"
    and "ec_resyncs (et_consumers s r) = of_nat (overruns (observed_of (et_log s r)))"
proof -
  have small: "length (et_events s) \<le> 2 ^ 63" using assms(3) by simp
  then have prod: "producer_part btree_inv btree_abs s" and part: "consumer_part R cs r s"
    using btree.engine_reach_parts [OF assms(2,1)] by blast+
  obtain evs rest where hist: "rs_hist (et_ring s) = map pack evs" "et_events s = evs @ rest"
    using ring_hist_events [OF prod] by blast
  from consumer_told [OF part assms(1) hist small]
  show "polls_from (cs r) (et_log s r) (polled_to s r)" "list_all (entry_ok cap (et_events s)) (et_log s r)"
    by simp_all
  show "ec_resyncs (et_consumers s r) = of_nat (overruns (observed_of (et_log s r)))"
    using part by (simp add: consumer_part_def)
qed

text \<open>
  Property C7: complete accounting for every consumer, between the threads. In every interleaving of the
  operations of one producer with the B-tree book and any number of consumers, over fewer than \<open>2 ^ 31\<close> events, nothing panics, and
  what a consumer observed accounts for its cursor poll by poll: an event is the one that was processed at
  its cursor, intact; events come in the order they were processed, none twice; an overrun is reported only
  when the record at the cursor is being overwritten, with the distance the cursor moves forward (none, when
  it moves back); its snapshot is the top of book after a whole number of processed events, completely
  stored, and never older than the one before it. The counters and the mid are those of what it observed.
\<close>
theorem engine_delivery:
  assumes "with_capacity W cap = Inr R" and "engine_reach btree_ops R cs s" and "length (et_events s) < 2 ^ 31"
  shows "polls_from (cs r) (et_log s r) (polled_to s r) \<and> list_all (entry_ok cap (et_events s)) (et_log s r)
    \<and> sorted_wrt (<) (event_positions (et_log s r))
    \<and> (\<exists>gs. snapshots (observed_of (et_log s r)) = map (\<lambda>g. top_at (take g (et_events s))) gs
        \<and> sorted gs \<and> list_all (\<lambda>g. g < length (published (et_top s))) gs)
    \<and> ec_seen (et_consumers s r) = of_nat (length (deliveries (observed_of (et_log s r))))
    \<and> ec_resyncs (et_consumers s r) = of_nat (overruns (observed_of (et_log s r)))
    \<and> ec_last_mid (et_consumers s r) = last_mid_of (snapshots (observed_of (et_log s r)))
    \<and> \<not> poll_panics R r s \<and> (\<forall>ev. \<exists>s'. process_apply btree_ops ev s = Inr s')"
proof -
  have small: "length (et_events s) \<le> 2 ^ 63" using assms(3) by simp
  then have prod: "producer_part btree_inv btree_abs s" and part: "consumer_part R cs r s"
    using btree.engine_reach_parts [OF assms(2,1)] by blast+
  obtain evs rest where hist: "rs_hist (et_ring s) = map pack evs" "et_events s = evs @ rest"
    using ring_hist_events [OF prod] by blast
  have top: "ss_hist (et_top s) = tops_of (et_events s)" using prod by (simp add: producer_part_def)
  have "\<exists>s'. process_apply btree_ops ev s = Inr s'" for ev using btree.process_applies [OF prod] by blast
  moreover have "\<not> poll_panics R r s"
    using poll_no_panic [OF part assms(1) hist small] unfolding poll_panics_def by fastforce
  ultimately show ?thesis
    using consumer_told [OF part assms(1) hist small] consumer_snapshots [OF part top assms(3)] part
    unfolding consumer_part_def by blast
qed

theorem engine_delivery_witness:
  "\<exists>R s. engine_reach btree_ops R (\<lambda>_. 0) s \<and> et_events s = processed demo_sched
    \<and> observed_of (et_log s 0) = [Ob_Overrun 1 (top_at (processed demo_sched)), Ob_Event (processed demo_sched ! 1)]
    \<and> polls_from 0 (et_log s 0) (polled_to s 0) \<and> list_all (entry_ok 2 (et_events s)) (et_log s 0)
    \<and> sorted_wrt (<) (event_positions (et_log s 0))
    \<and> (\<exists>gs. [top_at (processed demo_sched)] = map (\<lambda>g. top_at (take g (et_events s))) gs
        \<and> sorted gs \<and> list_all (\<lambda>g. g < length (published (et_top s))) gs)
    \<and> ec_seen (et_consumers s 0) = 1 \<and> ec_resyncs (et_consumers s 0) = 1
    \<and> ec_last_mid (et_consumers s 0) = mid_of (top_at (processed demo_sched))
    \<and> \<not> poll_panics R 0 s \<and> (\<exists>s'. process_apply btree_ops (ev_clear 3 3) s = Inr s')"
proof -
  have "no_join demo_sched" "length (processed demo_sched) < 2 ^ 31" by (simp_all add: demo_sched_def no_join_def)
  from run_between_threads [OF engine_start_two this] obtain R obs en s where
    s: "with_capacity W 2 = Inr R" "engine_run btree_ops demo_sched (projr (engine_start btree_ops 2)) = Some (Inr (obs, en))"
      "engine_reach btree_ops R (\<lambda>_. 0) s" "et_events s = processed demo_sched"
      "observed_of (et_log s 0) = log_of 0 demo_sched obs"
    by blast
  then have obs: "observed_of (et_log s 0) =
      [Ob_Overrun 1 (top_at (processed demo_sched)), Ob_Event (processed demo_sched ! 1)]"
    using demo_run [OF engine_start_two] by auto
  have "length (et_events s) < 2 ^ 31" by (simp add: s(4) demo_sched_def)
  note told = engine_delivery [OF s(1,3) this, of 0, unfolded obs]
  show ?thesis using told s(3,4) obs by (intro exI [of _ R] exI [of _ s]) (simp add: last_mid_of_def)
qed



end
