(* ===== verification/Threaded_Test.thy ===== *)
theory Threaded_Test
  imports Engine_Runs Pipeline
begin

section \<open>The threaded end-to-end test (engine/tests/pipeline.rs)\<close>

text \<open>
  One producer thread streams a corpus while consumer threads poll until they have seen all of it. A
  consumer thread is a function of what its polls observed: \<open>None\<close> while it is still in its loop. That the
  loop ends is not the test's claim but the scheduler's; what holds is every assertion once it has ended,
  and that the branch it calls unreachable is never taken.
\<close>

fun threaded_worker :: "nat \<Rightarrow> observed list \<Rightarrow> u64 list \<times> u64 list \<Rightarrow> (u64 list \<times> u64 list) outcome" where
  "threaded_worker n obs (seqs, tss) =
     (if length seqs < n
      then case obs of
             [] \<Rightarrow> None
           | Ob_Event ev # rest \<Rightarrow> threaded_worker n rest (collect (seqs, tss) ev)
           | Ob_Overrun k t # rest \<Rightarrow> Some (Inl AssertionFailed)
           | Ob_Idle # rest \<Rightarrow> threaded_worker n rest (seqs, tss)
      else Some (Inr (seqs, tss)))"

text \<open>The assertions after the join, on one consumer.\<close>

definition test_threaded :: "nat \<Rightarrow> observed list \<Rightarrow> u64 \<Rightarrow> unit outcome" where
  "test_threaded n obs resyncs =
     out_bind (threaded_worker n obs ([], [])) (\<lambda>(seqs, tss).
     out_bind (out_assert (length seqs = n)) (\<lambda>_.
     out_bind (out_assert (seqs \<noteq> [] \<and> hd seqs = 0)) (\<lambda>_.
     out_bind (assert_ordered seqs tss) (\<lambda>_.
       out_assert (resyncs = 0)))))"

subsection \<open>A ring larger than the corpus\<close>

lemma roomy_log:
  assumes "length evs \<le> cap"
  shows "polls_from c log c' \<Longrightarrow> list_all (entry_ok cap evs) log \<Longrightarrow>
    overruns (observed_of log) = 0 \<and> unat c' = unat c + length (deliveries (observed_of log))
    \<and> deliveries (observed_of log) = take (length (deliveries (observed_of log))) (drop (unat c) evs)"
proof (induction log arbitrary: c)
  case Nil
  then show ?case by (simp add: observed_of_def)
next
  case (Cons x log)
  obtain ob c2 where x: "x = (c, ob, c2)" "polls_from c2 log c'" using Cons.prems(1) by (cases x) auto
  note rest = Cons.IH [OF x(2)] Cons.prems(2)
  show ?case
  proof (cases ob)
    case (Ob_Event ev)
    then have "unat c < length evs" "ev = evs ! unat c" "unat c2 = unat c + 1" using Cons.prems(2) by (simp_all add: x)
    then have "drop (unat c) evs = ev # drop (unat c2) evs" by (simp add: Cons_nth_drop_Suc)
    with rest \<open>unat c2 = unat c + 1\<close> show ?thesis by (simp add: x Ob_Event observed_of_def)
  next
    case (Ob_Overrun k t)
    then have "unat c + cap < length evs" using Cons.prems(2) by (simp add: x)
    with assms show ?thesis by simp
  next
    case Ob_Idle
    then show ?thesis using rest by (simp add: x observed_of_def)
  qed
qed

lemma length_collect: "length (fst (collect acc ev)) = Suc (length (fst acc))"
  by (simp add: collect_def)

lemma worker_events:
  "overruns obs = 0 \<Longrightarrow> length (fst acc) \<le> n \<Longrightarrow>
   threaded_worker n obs acc =
     (if length (fst acc) + length (deliveries obs) < n then None
      else Some (Inr (foldl collect acc (take (n - length (fst acc)) (deliveries obs)))))"
proof (induction obs arbitrary: acc)
  case Nil
  then show ?case by (cases acc) auto
next
  case (Cons ob obs)
  obtain seqs tss where acc: "acc = (seqs, tss)" by (cases acc)
  show ?case
  proof (cases "length seqs < n")
    case True
    show ?thesis
    proof (cases ob)
      case (Ob_Event ev)
      have "threaded_worker n (ob # obs) acc = threaded_worker n obs (collect acc ev)"
        using True by (simp add: acc Ob_Event)
      also have "\<dots> = (if length (fst (collect acc ev)) + length (deliveries obs) < n then None
          else Some (Inr (foldl collect (collect acc ev) (take (n - length (fst (collect acc ev))) (deliveries obs)))))"
        using Cons.prems True by (intro Cons.IH) (simp_all add: Ob_Event acc length_collect)
      finally show ?thesis
        using True Suc_diff_Suc [of "length seqs" n] by (auto simp: Ob_Event acc length_collect simp flip: Suc_diff_Suc)
    next
      case Ob_Idle
      have "threaded_worker n (ob # obs) acc = threaded_worker n obs acc" using True by (simp add: acc Ob_Idle)
      moreover have "deliveries (ob # obs) = deliveries obs" "overruns obs = 0" using Cons.prems(1) by (simp_all add: Ob_Idle)
      ultimately show ?thesis using Cons.IH [of acc] Cons.prems(2) by (simp only:)
    qed (use Cons.prems in simp)
  next
    case False
    then show ?thesis using Cons.prems(2) by (simp add: acc)
  qed
qed

text \<open>
  Property C35: the threaded end-to-end test. On a corpus that fits the ring, in every interleaving of the
  producer and the consumer threads, whatever part of the corpus has been processed: a consumer never
  takes the branch that the test calls unreachable, stays in its loop exactly until it has been given as many
  events as the corpus has, and then passes every assertion: all events from the first on, none missing,
  in order, and no resync.
\<close>
theorem threaded_test_passes:
  assumes "generate (test_corpus n) = Some (Inr corpus)" and "0 < n" and "n \<le> 2 ^ 16"
    and "with_capacity W (2 ^ 16) = Inr R" and "engine_reach btree_ops R (\<lambda>_. 0) s"
    and "et_events s = take k corpus"
  shows "test_threaded n (observed_of (et_log s r)) (ec_resyncs (et_consumers s r)) =
    (if length (deliveries (observed_of (et_log s r))) < n then None else Some (Inr ()))"
proof -
  let ?obs = "observed_of (et_log s r)"
  have g: "dense_from 0 corpus" "length corpus = n" using generated_dense [OF assms(1)] assms(3) by auto
  have "length (et_events s) < 2 ^ 31" "length (et_events s) \<le> 2 ^ 16" using g(2) assms(3,6) by simp_all
  note told = delivered_between_threads [OF assms(4,5) this(1), of r]
  have log: "overruns ?obs = 0" "deliveries ?obs = take (length (deliveries ?obs)) (take k corpus)"
    using roomy_log [OF \<open>length (et_events s) \<le> 2 ^ 16\<close> told(1,2)] assms(6) by simp_all
  show ?thesis
  proof (cases "length (deliveries ?obs) < n")
    case True
    then show ?thesis using worker_events [OF log(1), of "([], [])" n] by (simp add: test_threaded_def)
  next
    case False
    moreover have "length (deliveries ?obs) \<le> min k n"
      using arg_cong [OF log(2), of length] g(2) by (simp add: min_def split: if_splits)
    ultimately have "deliveries ?obs = corpus" using log(2) g(2) by simp
    moreover have "hd (map ev_seq corpus) = 0" "corpus \<noteq> []"
      using g assms(2) by (cases corpus; force simp: dense_from_def)+
    ultimately show ?thesis
      using worker_events [OF log(1), of "([], [])" n] assert_ordered_ok [OF g(1)] told(3) log(1) g(2) assms(2)
      by (simp add: test_threaded_def foldl_collect out_assert_def)
  qed
qed

text \<open>The corpus of nine events, all processed, then nine polls.\<close>

context order_book
begin

lemma polls_run:
  assumes "engine_inv inv abs cap evs en" and "length evs \<le> 2 ^ 63"
    and "ec_cursor (en_consumers en r) = of_nat p" and "p + k \<le> length evs" and "length evs \<le> p + cap"
  shows "\<exists>obs en'. engine_run ops (replicate k (Poll r)) en = Some (Inr (obs, en'))
    \<and> log_of r (replicate k (Poll r)) obs = map Ob_Event (take k (drop p evs))"
  using assms
proof (induction k arbitrary: p en)
  case 0
  then show ?case by simp
next
  case (Suc k)
  let ?con = "(en_consumers en r)\<lparr>ec_cursor := of_nat (p + 1), ec_seen := ec_seen (en_consumers en r) + 1\<rparr>"
  let ?en = "en\<lparr>en_consumers := (en_consumers en)(r := ?con)\<rparr>"
  have p: "p < length evs" using Suc.prems(4) by simp
  have "shared_inv cap evs (en_shared en)" using Suc.prems(1) by (simp add: engine_inv_def)
  from poll_ok [OF this Suc.prems(2,3)] p Suc.prems(5)
  have poll: "poll (en_shared en) (en_consumers en r) = Some (Inr (Ob_Event (evs ! p), ?con))" by simp
  then have step: "engine_step ops (Poll r) en = Some (Inr (Some (Ob_Event (evs ! p)), ?en))" by simp
  have "\<exists>c \<le> length evs. ec_cursor (en_consumers ?en q) = of_nat c" for q
  proof (cases "q = r")
    case True
    then show ?thesis using p by (intro exI [of _ "p + 1"]) simp
  next
    case False
    then show ?thesis using Suc.prems(1) by (simp add: engine_inv_def)
  qed
  then have "engine_inv inv abs cap evs ?en" using Suc.prems(1) by (simp add: engine_inv_def)
  from Suc.IH [OF this Suc.prems(2), of "p + 1"] Suc.prems(4,5) obtain obs en' where
    run: "engine_run ops (replicate k (Poll r)) ?en = Some (Inr (obs, en'))"
      "log_of r (replicate k (Poll r)) obs = map Ob_Event (take k (drop (p + 1) evs))"
    by auto
  have "engine_run ops (replicate (Suc k) (Poll r)) en = Some (Inr (Some (Ob_Event (evs ! p)) # obs, en'))"
    using engine_run_Cons [OF step run(1)] by simp
  moreover have "drop p evs = evs ! p # drop (p + 1) evs" using p by (simp add: Cons_nth_drop_Suc)
  ultimately show ?case using run(2) by auto
qed

end

lemma engine_run_append:
  assumes "engine_run ops xs en = Some (Inr (obs, en1))" and "engine_run ops ys en1 = Some (Inr (obs', en2))"
  shows "engine_run ops (xs @ ys) en = Some (Inr (obs @ obs', en2))"
  using assms
proof (induction xs arbitrary: en obs)
  case (Cons x xs)
  then show ?case by (auto simp: out_bind_Inr_iff simp del: engine_step.simps)
qed simp

lemma log_of_process: "log_of r (map Process evs @ ys) (obs @ obs') = log_of r ys obs'"
  if "length obs = length evs"
  using that by (induction evs obs rule: list_induct2') auto

lemma engine_run_length: "engine_run ops sched en = Some (Inr (obs, en')) \<Longrightarrow> length obs = length sched"
  by (induction sched arbitrary: en obs) (auto simp: out_bind_Inr_iff simp del: engine_step.simps)

lemma processed_map: "processed (map Process evs) = evs"
  by (induction evs) simp_all

lemma processed_polls: "processed (replicate k (Poll r)) = []"
  by (induction k) simp_all

lemma full_delivery:
  assumes "length evs \<le> 2 ^ 16"
  shows "\<exists>R s. with_capacity W (2 ^ 16) = Inr R \<and> engine_reach btree_ops R (\<lambda>_. 0) s \<and> et_events s = evs
    \<and> observed_of (et_log s 0) = map Ob_Event evs"
proof -
  obtain en0 where start: "engine_start btree_ops (2 ^ 16) = Inr en0" using engine_start_pow [of 16 btree_ops] by auto
  let ?n = "length evs" and ?fill = "map Process evs"
  let ?sched = "?fill @ replicate ?n (Poll 0)"
  have fill: "processed ?fill = evs" "processed ?sched = evs"
    by (simp_all add: processed_append processed_polls processed_map)
  have "ec_cursor (en_consumers en0 0) = of_nat 0" using btree.start_ok [OF start] by (auto simp: engine_inv_def)
  from btree.run_schedule [OF btree.start_ok [OF start] _ _ _ _ this, of ?fill] assms obtain obs en1 where
    run1: "engine_run btree_ops ?fill en0 = Some (Inr (obs, en1))" "engine_inv btree_inv btree_abs (2 ^ 16) evs en1"
      "accounted (2 ^ 16) evs 0 (en_consumers en0 0) (log_of 0 ?fill obs) (en_consumers en1 0)"
    by (auto simp: fill)
  have len: "length obs = ?n" using engine_run_length [OF run1(1)] by simp
  have "ec_cursor (en_consumers en1 0) = of_nat 0"
    using run1(3) log_of_process [OF len, of 0 "[]" "[]"] by (auto simp: accounted_def)
  from btree.polls_run [OF run1(2) _ this, of ?n] assms obtain obs' en2 where
    run2: "engine_run btree_ops (replicate ?n (Poll 0)) en1 = Some (Inr (obs', en2))"
      "log_of 0 (replicate ?n (Poll 0)) obs' = map Ob_Event evs"
    by auto
  have "no_join ?sched" by (auto simp: no_join_def list_all_iff)
  note run = engine_run_append [OF run1(1) run2(1)]
  have log: "log_of 0 ?sched (obs @ obs') = map Ob_Event evs" using log_of_process [OF len] run2(2) by simp
  have "length (processed ?sched) < 2 ^ 31" using assms by (simp add: fill)
  from run_between_threads [OF start \<open>no_join ?sched\<close> this] obtain R obs2 en s where
    s: "with_capacity W (2 ^ 16) = Inr R" "engine_run btree_ops ?sched en0 = Some (Inr (obs2, en))"
      "engine_reach btree_ops R (\<lambda>_. 0) s" "et_events s = evs" "observed_of (et_log s 0) = log_of 0 ?sched obs2"
    unfolding fill(2) by blast
  have "obs2 = obs @ obs'" using s(2) run by simp
  with s log show ?thesis by (intro exI [of _ R] exI [of _ s]) simp
qed

theorem threaded_test_passes_witness:
  "\<exists>R s. with_capacity W (2 ^ 16) = Inr R \<and> engine_reach btree_ops R (\<lambda>_. 0) s \<and> et_events s = nine_events
    \<and> length (deliveries (observed_of (et_log s 0))) = 9
    \<and> test_threaded 9 (observed_of (et_log s 0)) (ec_resyncs (et_consumers s 0)) = Some (Inr ())"
proof -
  obtain R s where s: "with_capacity W (2 ^ 16) = Inr R" "engine_reach btree_ops R (\<lambda>_. 0) s"
    "et_events s = nine_events" "observed_of (et_log s 0) = map Ob_Event nine_events"
    using full_delivery [of nine_events] by (auto simp: nine_events_def)
  have nine: "length (deliveries (observed_of (et_log s 0))) = 9" by (simp add: s(4) nine_events_def)
  from threaded_test_passes [OF generate_nine _ _ s(1,2), of 9 0] s(3) nine
  have "test_threaded 9 (observed_of (et_log s 0)) (ec_resyncs (et_consumers s 0)) = Some (Inr ())"
    by (simp add: nine_events_def)
  with s nine show ?thesis by blast
qed

end
