(* ===== verification/Spec2Isabelle.thy ===== *)
theory Spec2Isabelle
  imports Book_Laws Seqlock Ring_Concurrent Engine Corpus Pipeline Recorder_Laws Recorder_Calendar
    Gen Workload Harness Provenance Sustained_Laws Book_Tests Sync_Tests Data_Tests Load_Tests Bench_Tests
    Oracle_Tests Ring_Stress Seqlock_Stress Branch_Exp Depth_Bench Read_Bench Threaded_Test
begin

section \<open>An order-book feed pipeline\<close>

text \<open>
  The workspace under src/ is a market-data pipeline. A feed is a sequence of order-book events:
  recorded from an exchange by \<open>feed/src/bin/recorder.rs\<close>, or generated from a seed by
  \<open>feed/src/synthetic.rs\<close> and \<open>feed/src/bin/gen.rs\<close>, and kept in a corpus file (\<open>feed/src/corpus.rs\<close>).
  The engine (\<open>engine/src\<close>) applies each event to a book, publishes the top of the book through a
  seqlock and the event through a broadcast ring; its consumers poll both. The book has four
  implementations behind one trait (\<open>book/src\<close>), held together by a differential oracle in
  \<open>book/tests\<close>. The seqlock and the ring are lock-free (\<open>sync/src\<close>). \<open>bench/src\<close> measures all of it.

  Definitions keep the names of the source; a name that clashes with the library, or that two
  crates share, has a prefix. Every Rust panic is a value of \<open>panic\<close>, every \<open>Result\<close> and \<open>Option\<close> a
  sum or an option, and every loop that might not end either has its termination proof or returns an
  option whose \<open>None\<close> means that it runs for ever.
\<close>

subsection \<open>Theories and sources\<close>

text \<open>
  \<^item> \<open>Prelude\<close>: machine integers, outcomes, the \<open>Vec\<close> and slice operations with their panics, and
    ordered ladders of levels; used by all others.

  \<^item> book. \<open>Price\<close> (price.rs: \<open>Px\<close>, \<open>Qty\<close>), \<open>Event\<close> (event.rs), \<open>Book_Spec\<close> (book.rs: the trait as the
    record \<open>order_book_ops\<close> and its contract as the locale \<open>order_book\<close>), \<open>Side_Store\<close> (what three of
    the implementations share, the locale \<open>side_store\<close>), then one theory per implementation, each with an
    interpretation of the contract: \<open>BTree_Book\<close>, \<open>Sorted_Vec_Book\<close>, \<open>Rev_Vec_Book\<close>, \<open>Flat_Book\<close> with
    \<open>Flat_Book_Refine\<close>. The state of a book is the record of its two sides, as in the source; the abstract
    book is a pair of maps from prices to quantities.

  \<^item> oracle. \<open>Oracle\<close> (tests/oracle.rs and tests/common/mod.rs: the lockstep drivers with every
    assertion), \<open>Book_Laws\<close> (properties of whole streams) and \<open>Oracle_Tests\<close> (the fixed streams of oracle.rs).

  \<^item> sync. \<open>Atomics\<close> (loads, stores and fences with their orderings: a sequential reading and a
    release/acquire view machine), \<open>Stamped_Cell\<close> (the protocol the two primitives share), \<open>Seqlock\<close>
    (seqlock.rs), \<open>Ring\<close> and \<open>Ring_Concurrent\<close> (ring.rs, alone and interleaved). \<open>Ring_Calls\<close> follows the calls
    of one consumer through a run, and \<open>Seqlock_Stress\<close> the loads of one reader; with these \<open>Ring_Stress\<close> and
    \<open>Seqlock_Stress\<close> model the threads of sync/tests/stress_ring.rs, loom_ring.rs, stress_seqlock.rs and
    loom_seqlock.rs as functions of the calls a thread completes.

  \<^item> engine. \<open>Pack\<close> (pack.rs), \<open>Engine\<close> (lib.rs: producer, consumer, handle, one whole \<open>process\<close> or \<open>poll\<close>
    after the other, as one thread drives them), \<open>Engine_Threads\<close> (lib.rs again, between its threads: every
    atomic operation of \<open>process\<close> and \<open>poll\<close> is a step of its own, on the view machines of the seqlock and of the
    ring), \<open>Engine_Runs\<close> (the sequential pipeline is a run of the threaded one), \<open>Pipeline\<close> (main.rs and the
    single-threaded tests of tests/pipeline.rs) and \<open>Threaded_Test\<close> (the threaded one).

  \<^item> feed. \<open>Rng\<close> (rng.rs), \<open>Synthetic\<close>, \<open>Synthetic_Laws\<close> and \<open>Synthetic_Profiles\<close> (synthetic.rs), \<open>Corpus\<close> (corpus.rs),
    \<open>Gen\<close> (bin/gen.rs), and for bin/recorder.rs \<open>Decimal\<close> (numbers as text, exact ticks), \<open>Http\<close>
    (responses and chunked bodies), \<open>Recorder\<close> (command line, session, sidecar), \<open>Recorder_Laws\<close>
    and \<open>Recorder_Calendar\<close>.

  \<^item> unit tests. \<open>Book_Tests\<close>, \<open>Sync_Tests\<close>, \<open>Data_Tests\<close>, \<open>Load_Tests\<close> and \<open>Bench_Tests\<close>: the tests inside the source files of
    book, sync, engine, feed and bench, as scripts and propositions over the models with every assertion kept.
    \<open>Book_Tests\<close> also has the language of such scripts over the trait, and \<open>Sync_Tests\<close> the one over the ring, with
    what the ring observes as a function of its history; \<open>Bench_Tests\<close> has the paced loop of sustained.rs with both
    ways to measure.

  \<^item> bench. \<open>Workload\<close> (workload.rs), \<open>Harness\<close> (harness.rs, clock.rs, main.rs), \<open>Latency\<close> (recorder.rs: what
    surrounds the histogram, the \<open>.hgrm\<close> export, and the reader of that format in plot.rs), \<open>Sustained\<close> and
    \<open>Sustained_Laws\<close> (benches/sustained.rs: schedules, the paced loop, the sweep and its CSV), \<open>Figures\<close> and
    \<open>Figure_Laws\<close> (plot.rs: the CSVs, the points, titles and axes of every figure, the order of the run),
    \<open>Provenance\<close> (the env.json part of plot.rs), \<open>Branch_Exp\<close> (benches/branch_exp.rs: the three searches, the
    cells and the CSV), \<open>Depth_Bench\<close> (benches/service.rs: the four timed operations, the cells, the crossover)
    and \<open>Read_Bench\<close> (benches/read.rs, throughput.rs and flat_memory.rs). \<open>Float64\<close> is the arithmetic these use: an \<open>f64\<close> is a sign and a
    magnitude of 63 bits, each operation rounds the exact rational result to nearest-even, and numbers are read
    from and printed to text as the standard library does.
\<close>

subsection \<open>What is proved\<close>

text \<open>
  \<^item> Books. Every implementation keeps its invariant and commutes with the abstract book, so the
    oracle passes on every stream, for three books without any bound and for the flat array on a
    band that satisfies \<open>band_ok\<close>. Over a whole stream a level holds the last quantity written to it
    since the last \<open>Clear\<close>. The flat array panics if and only if the window that the stream forces is wider
    than its cap; \<open>flat_window\<close> says what that window is.

  \<^item> Lock-free primitives. On the view machine no interleaving returns a torn record: the ring while
    fewer than \<open>2 ^ 63\<close> records were pushed, the seqlock while fewer than \<open>2 ^ 31\<close> snapshots were
    stored. What happens at the seqlock's bound and in a resync that races with a push is proved
    too. Over a whole run, the calls of one consumer return what the pushed records determine:
    records are delivered once and in order, and an overrun is reported only to a consumer that was lapped. A
    resync may move the cursor back, so the exact accounting that one stress test asserts can fail; every other
    assertion of the stress and loom tests holds for every interleaving. The loads of one reader return
    snapshots that were completely stored, and never go back.

  \<^item> Engine. In every interleaving of the threads' atomic operations, what a consumer observed accounts for its
    cursor poll by poll: an event is the one processed at the cursor, an overrun is reported only when the record
    there is being overwritten and says how far the cursor moved forward, and its snapshot is a top of book that
    was completely stored, never older than the last. Every schedule of whole producer steps and polls is one of
    these runs; over it overruns are exact, and the flat array ends with the final top of book of an independent
    replay. The demo and the single-threaded tests have the stated outcome for every size of corpus (up to
    \<open>2 ^ 40\<close> events for the tests), and
    the threaded test passes in every interleaving.

  \<^item> Feed. Writing and reading a corpus is the identity on canonical streams, and every malformed corpus
    is refused with exactly the error that names what is wrong with it. The generator returns for every configuration, with the requested number of
    events. For every seed a long enough burst corpus has a window as dense as its test asks, and a cascade takes the
    best bids away one by one, best first. The recorder's session is a sequence of segments, each a snapshot that was fetched and the updates whose
    ids join it without a gap (\<open>segments\<close> computes them from the messages consumed), it emits the events
    of these and nothing else, and the book replayed from its output is the last snapshot with the updates
    after it; ticks are exact or refused.

  \<^item> Bench. Both workload builders make the same book at the requested depth; touches stay in the ladder.
    On a running clock the paced loop returns, and records every completion against its schedule. The CSV of
    a sweep, and an exported histogram, are read back by the plots as the numbers that were measured. Each
    swept figure shows exactly the rows of its CSV that carry its labels, under the column names the
    benchmarks write, and its axes contain them.

  \<^item> Sweeps. In every cell of the depth sweep, on all four books, every timed event is the operation it is named for,
    on a book of exactly the cell's depth, and every sample is recorded; the reads return the ladder. The reported
    crossover is the least persistent one. The spans of the flat array at the swept depths are those of the committed
    CSV: one window for every depth up to 1024.

  \<^item> Branch experiment. On a sorted array the two hand-written searches return what the library's search returns, so
    its variants differ in time only.

  \<^item> Unit tests. A script over the trait passes in one implementation if and only if it passes in the others, and
    whole operations on the ring observe what the sequence of pushes determines. With these, every modelled unit
    test passes: those of the book crate that use only the trait on all four implementations, and those of the
    generator on every event of their streams without running them. The loop that shows coordinated omission
    records its backlog, and the naive one hides it, on every clock that advances in small steps.
\<close>

subsection \<open>Bounds and assumptions\<close>

text \<open>
  Arithmetic wraps at 64 bits, as in the release profile. Hypotheses that keep a computation from
  wrapping: \<open>band_ok\<close> (the flat array's band with its two margins fits \<open>MAX_SPAN\<close> and the signed
  range), \<open>tick_room\<close> (a level is not within a margin of the ends of the 64-bit price range), \<open>cfg_ok\<close> and \<open>ts_ok\<close> (the generator's prices and clock), \<open>room\<close> and \<open>flat_room\<close> (the workload's
  ladders), fewer than \<open>2 ^ 64\<close> bytes of corpus. Each has a witness or a lemma that the configurations
  of the source satisfy it. The tick conversion is checked \<open>i128\<close> arithmetic, so it needs no such
  hypothesis.

  The view machine has release/acquire and relaxed accesses and fences, without load buffering (a load
  returns a message that has been written already). Every location has one writer, as in the
  source. The threaded engine has the view machines of its two cells side by side: what one cell's
  synchronisation would tell a thread about the other cell is left out, so it has every behaviour of the one
  memory and more.

  The paced loop waits for a clock, so that it returns is proved for a clock that is \<open>ticking\<close>: readings do
  not go back and reach the last due time. In \<open>Float64\<close> a NaN has no payload and comparisons with it are false;
  which zero \<open>min\<close> and \<open>max\<close> return when both signs meet is left to the argument order.

  Code outside src/ is a parameter: \<open>serde_json\<close> (the accessors of a value), the TLS connection and the
  websocket, the files, the system clock, core affinity, the TSC clock, the latency histogram (\<open>hist_ops\<close>), the
  plotting library and the case mapping of the standard library beyond ASCII. The recorder's loop consumes what \<open>select!\<close> picks, in that order.
\<close>

subsection \<open>Not modelled\<close>

text \<open>
  \<^item> seqlock.rs, ring.rs, e2e.rs, cache_exp.rs and profile.rs of \<open>bench/src/benches\<close>: timing loops over the modelled
    components, most of them threads, whose result is measured time. The header lines of their CSVs are in
    \<open>csv_header\<close>.

  \<^item> The shell commands and \<open>/proc\<close> reads that fill env.json, and how a chart's marks become SVG.

  \<^item> Of the threaded tests and the loom tests: spawning and joining the threads, the watchdog (its readings are
    parameters), and the assertions that the machine ran fast enough (a million reads or deliveries, at least one
    write seen, at least one overrun).

  \<^item> Unit tests of memory layout and of retained capacity, those that compare a pure function with itself, those
    that sample a distribution (\<open>flashcrash_collapses_bid\<close>,
    \<open>locality_generator_offset_distribution\<close>), and those that measure the machine or the histogram crate (clock.rs,
    recorder.rs, \<open>low_rate_sustains_high_rate_saturates\<close>, and those of the sweeps that compare times).

  \<^item> Printed lines, the text of errors (other than those stored in files), cache-line layout.
\<close>

section \<open>The unit tests\<close>

text \<open>
  Property C29: the unit tests of the source hold of the models, in the order of the crates: the book tests, those of
  the trait on all four implementations; the ring and the seqlock at rest; the data types, the record packing and
  the random numbers; the corpus; the generator; the workload; the harness in every environment; the sustained-feed
  benchmark; the differential oracle, every stream of it; the searches of the branch experiment; and the sweeps.
\<close>
theorem unit_tests_pass:
  "list_all (passes btree_ops) (btree_tests @ flat_tests)
   \<and> list_all (passes sorted_ops) (sorted_tests @ btree_tests @ flat_tests)
   \<and> list_all (passes rev_ops) (rev_tests @ btree_tests @ flat_tests)
   \<and> list_all (passes flat_ops) (btree_tests @ flat_tests)
   \<and> list_all ring_test_passes ring_tests \<and> seqlock_tests \<and> book_data_tests \<and> pack_rng_tests \<and> corpus_tests
   \<and> generator_tests \<and> workload_tests \<and> harness_tests env \<and> sustained_tests H delta raw w
   \<and> oracle_tests \<and> branch_tests \<and> sweep_tests H delta raw events w"
  by (intro conjI book_unit_tests [THEN conjunct1] book_unit_tests [THEN conjunct2, THEN conjunct1]
      book_unit_tests [THEN conjunct2, THEN conjunct2, THEN conjunct1]
      book_unit_tests [THEN conjunct2, THEN conjunct2, THEN conjunct2]
      ring_tests_pass seqlock_tests_pass book_data_tests_pass pack_rng_tests_pass corpus_tests_pass
      generator_tests_pass workload_tests_pass harness_tests_pass sustained_tests_pass
      oracle_tests_pass branch_tests_pass sweep_tests_pass)

end
